(* ===== verification/Prelude.thy ===== *)
theory Prelude
  imports Main "HOL-Library.Word"
begin

text \<open>
  What every component shares: the machine-integer types, slices read with a bounds check,
  little-endian byte codes, the wrap-around of \<open>i64\<close> coordinates, ordered maps
  (\<open>BTreeMap\<close>) and the collections of simplification facts the component proofs use.

  Conventions of the whole development. An unsigned or signed integer of the source whose
  width matters is a word of that width (a signed one is read with \<open>sint\<close>); its arithmetic
  wraps, as it does in a release build. A \<open>Result\<close> is a sum with the error on the left. A call
  that may panic or may not return yields an \<open>option\<close>, and \<open>None\<close> means that it does not
  return normally; theorems that the result is \<open>Some\<close> exclude both.
\<close>

unbundle bit_operations_syntax

section \<open>Types\<close>

type_synonym u8 = "8 word"
type_synonym u16 = "16 word"
type_synonym u32 = "32 word"
type_synonym i8 = "8 word"
type_synonym i32 = "32 word"

named_theorems le_simps \<open>little-endian codes\<close>
named_theorems tape_simps \<open>what the tape operations do to cells and head\<close>
named_theorems core_defs \<open>the operations of the processor core\<close>
named_theorems arch_defs \<open>the instruction tables\<close>

section \<open>Slices\<close>

text \<open>\<open>slice.get(i)\<close>.\<close>

definition nth_opt :: "'a list \<Rightarrow> nat \<Rightarrow> 'a option" where
  "nth_opt xs i = (if i < length xs then Some (xs ! i) else None)"

lemma nth_opt_Some_iff [simp]: "nth_opt xs i = Some x \<longleftrightarrow> i < length xs \<and> xs ! i = x"
  by (auto simp: nth_opt_def)

lemma nth_opt_None_iff [simp]: "nth_opt xs i = None \<longleftrightarrow> length xs \<le> i"
  by (auto simp: nth_opt_def)

lemma nth_opt_in [simp]: "i < length xs \<Longrightarrow> nth_opt xs i = Some (xs ! i)"
  by (simp add: nth_opt_def)

lemma nth_opt_out [simp]: "length xs \<le> i \<Longrightarrow> nth_opt xs i = None"
  by simp

lemma nth_opt_append_mid: "nth_opt (xs @ y # ys) (length xs) = Some y"
  by simp

lemma list_all2_right: "list_all2 P xs ys \<Longrightarrow> y \<in> set ys \<Longrightarrow> \<exists>x \<in> set xs. P x y"
  by (induction rule: list_all2_induct) auto

text \<open>Rows of one width, laid out back to back.\<close>

lemma length_concat_rows:
  "\<forall>r \<in> set rows. length r = w \<Longrightarrow> length (concat rows) = length rows * w"
  by (induction rows) auto

lemma nth_concat_rows:
  "\<forall>r \<in> set rows. length r = w \<Longrightarrow> i < length rows \<Longrightarrow> p < w \<Longrightarrow>
     concat rows ! (i * w + p) = rows ! i ! p"
proof (induction rows arbitrary: i)
  case (Cons r rows)
  then show ?case by (cases i) (auto simp: nth_append)
qed simp

lemma row_index_bound: "i < n \<Longrightarrow> p < w \<Longrightarrow> i * w + p < n * (w :: nat)"
proof -
  assume "i < n" and "p < w"
  then have "i * w + p < Suc i * w" by simp
  also have "\<dots> \<le> n * w" using \<open>i < n\<close> by (intro mult_le_mono1) simp
  finally show ?thesis .
qed

section \<open>Results\<close>

lemma map_sum_id_Inl [simp]: "map_sum id g z = Inl f \<longleftrightarrow> z = Inl f"
  by (cases z) auto

lemma map_sum_id_Inr [simp]: "map_sum id g z = Inr y \<longleftrightarrow> (\<exists>x. z = Inr x \<and> y = g x)"
  by (cases z) auto

section \<open>Little-endian codes\<close>

fun from_le :: "u8 list \<Rightarrow> nat" where
  "from_le [] = 0"
| "from_le (b # bs) = unat b + 256 * from_le bs"

fun to_le :: "nat \<Rightarrow> nat \<Rightarrow> u8 list" where
  "to_le 0 n = []"
| "to_le (Suc k) n = of_nat n # to_le k (n div 256)"

lemma length_to_le [simp]: "length (to_le k n) = k"
  by (induction k arbitrary: n) auto

lemma unat_of_nat_u8: "unat (of_nat n :: u8) = n mod 256"
  by (simp add: unat_of_nat)

lemma u8_bound [simp]: "unat (b :: u8) < 256"
  using unsigned_less [of b] by simp

lemma u16_bound [simp]: "unat (b :: u16) < 65536"
  using unsigned_less [of b] by simp

lemma u32_bound [simp]: "unat (b :: u32) < 4294967296"
  using unsigned_less [of b] by simp

lemma u8_eqI: "unat a = unat b \<Longrightarrow> a = (b :: u8)"
  by (simp add: word_unat_eq_iff)

lemma unat_of_nat_below: "i < unat (n :: 'a::len word) \<Longrightarrow> unat (of_nat i :: 'a word) = i"
proof -
  assume "i < unat n"
  also have "unat n < 2 ^ LENGTH('a)" by (rule unsigned_less)
  finally show ?thesis by (simp add: unat_of_nat)
qed

lemma unat_ucast_u16 [simp]: "unat (ucast (w :: u16) :: u32) = unat w"
  using less_trans [OF u16_bound [of w], of "2 ^ 32"]
  by (simp add: unsigned_ucast_eq take_bit_nat_eq_self_iff)

lemma unat_ucast_u8 [simp]: "unat (ucast (w :: u8) :: u32) = unat w"
  using less_trans [OF u8_bound [of w], of "2 ^ 32"]
  by (simp add: unsigned_ucast_eq take_bit_nat_eq_self_iff)

lemma unat_add_small:
  "unat (base :: u32) + k < 2 ^ 32 \<Longrightarrow> unat (base + of_nat k) = unat base + k"
proof -
  assume fit: "unat base + k < 2 ^ 32"
  have "base + of_nat k = of_nat (unat base + k)" by simp
  then show ?thesis using fit by (simp only: unat_of_nat) simp
qed

lemma from_le_to_le [le_simps]: "n < 256 ^ k \<Longrightarrow> from_le (to_le k n) = n"
proof (induction k arbitrary: n)
  case (Suc k)
  from Suc.prems have "n div 256 < 256 ^ k"
    by (simp add: less_mult_imp_div_less mult.commute)
  with Suc.IH show ?case by (simp add: unat_of_nat_u8)
qed simp

lemma from_le_bound: "from_le bs < 256 ^ length bs"
proof (induction bs)
  case (Cons b bs)
  have "unat b < 256" by simp
  with Cons.IH have "unat b + 256 * from_le bs < 256 * 256 ^ length bs"
    by linarith
  then show ?case by simp
qed simp

lemma to_le_from_le [le_simps]: "to_le (length bs) (from_le bs) = bs"
proof (induction bs)
  case (Cons b bs)
  have b: "unat b < 256" by simp
  then have "(unat b + 256 * from_le bs) div 256 = from_le bs" by simp
  moreover have "(of_nat (unat b + 256 * from_le bs) :: u8) = b"
    using b by (intro u8_eqI) (simp add: unat_of_nat_u8 del: of_nat_add of_nat_mult)
  ultimately show ?case using Cons.IH by simp
qed simp

text \<open>\<open>u16::from_le_bytes\<close>, \<open>u32::from_le_bytes\<close> and their inverses.\<close>

definition u16_le :: "u8 list \<Rightarrow> u16" where "u16_le bs = of_nat (from_le bs)"
definition u32_le :: "u8 list \<Rightarrow> u32" where "u32_le bs = of_nat (from_le bs)"
definition le_u16 :: "u16 \<Rightarrow> u8 list" where "le_u16 w = to_le 2 (unat w)"
definition le_u32 :: "u32 \<Rightarrow> u8 list" where "le_u32 w = to_le 4 (unat w)"

lemma u16_le_le_u16 [simp]: "u16_le (le_u16 w) = w"
  using u16_bound [of w] by (simp add: u16_le_def le_u16_def from_le_to_le)

lemma u32_le_le_u32 [simp]: "u32_le (le_u32 w) = w"
  using u32_bound [of w] by (simp add: u32_le_def le_u32_def from_le_to_le)

lemma unat_u16_le: "length bs = 2 \<Longrightarrow> unat (u16_le bs) = from_le bs"
  using from_le_bound [of bs] by (simp add: u16_le_def unat_of_nat)

lemma unat_u32_le: "length bs = 4 \<Longrightarrow> unat (u32_le bs) = from_le bs"
  using from_le_bound [of bs] by (simp add: u32_le_def unat_of_nat)

lemma le_u16_u16_le [simp]: "length bs = 2 \<Longrightarrow> le_u16 (u16_le bs) = bs"
  by (metis le_u16_def to_le_from_le unat_u16_le)

lemma le_u32_u32_le [simp]: "length bs = 4 \<Longrightarrow> le_u32 (u32_le bs) = bs"
  by (metis le_u32_def to_le_from_le unat_u32_le)

lemma length_le_u16 [simp]: "length (le_u16 w) = 2" by (simp add: le_u16_def)
lemma length_le_u32 [simp]: "length (le_u32 w) = 4" by (simp add: le_u32_def)

lemma le_u16_two: "\<exists>lo hi. le_u16 w = [lo, hi] \<and> u16_le [lo, hi] = w"
proof -
  obtain lo hi where "le_u16 w = [lo, hi]"
    by (auto simp: le_u16_def numeral_2_eq_2)
  then show ?thesis by (metis u16_le_le_u16)
qed

section \<open>The coordinates of a tape: i64 with wrap-around\<close>

definition wrap_i64 :: "int \<Rightarrow> int" where
  "wrap_i64 i = (i + 2 ^ 63) mod 2 ^ 64 - 2 ^ 63"

definition in_i64 :: "int \<Rightarrow> bool" where
  "in_i64 i \<longleftrightarrow> - (2 ^ 63) \<le> i \<and> i < 2 ^ 63"

lemma in_i64_wrap [simp]: "in_i64 (wrap_i64 i)"
  by (simp add: in_i64_def wrap_i64_def)

lemma wrap_in_i64 [simp]: "in_i64 i \<Longrightarrow> wrap_i64 i = i"
  by (simp add: in_i64_def wrap_i64_def)

lemma wrap_i64_wrap_add [simp]: "wrap_i64 (wrap_i64 i + k) = wrap_i64 (i + k)"
  by (simp add: wrap_i64_def algebra_simps mod_simps)

lemma wrap_i64_wrap_diff [simp]: "wrap_i64 (wrap_i64 i - k) = wrap_i64 (i - k)"
  using wrap_i64_wrap_add [of i "- k"] by simp

lemma wrap_i64_back [simp]:
  "in_i64 i \<Longrightarrow> wrap_i64 (wrap_i64 (i + k) - k) = i"
  "in_i64 i \<Longrightarrow> wrap_i64 (wrap_i64 (i - k) + k) = i"
  by simp_all

lemma map_sum_Inr: "map_sum g h a = Inr y \<longleftrightarrow> (\<exists>x. a = Inr x \<and> y = h x)"
  "map_sum g h a = Inl z \<longleftrightarrow> (\<exists>x. a = Inl x \<and> z = g x)"
  "Inr y = map_sum g h a \<longleftrightarrow> (\<exists>x. a = Inr x \<and> y = h x)"
  "Inl z = map_sum g h a \<longleftrightarrow> (\<exists>x. a = Inl x \<and> z = g x)"
  by (cases a; auto)+

end
