(* ===== verification/Bus.thy ===== *)
theory Bus
  imports Prelude
begin

text \<open>
  The vocabulary of the processor (\<open>crates/core/src/vm/trap.rs\<close>, \<open>bus.rs\<close>): device
  faults, traps, the requests the core puts on its buses, the responses a driver gives and the
  events the core reports. The constructors that would clash with HOL or with
  \<open>Outcome\<close> carry a prefix (\<open>BusOk\<close> for \<open>BusResponse::Ok\<close>, \<open>EvStop\<close> for
  \<open>CoreEvent::Stopped\<close>, \<dots>).
\<close>

datatype device_fault =
    IndexOutsideAlphabet u32
  | StrictCellViolation
  | NoSuchDevice u8
  | PositionUnreachable int

datatype trap =
    InvalidOpcode u8 u32
  | CodeOutOfBounds u32
  | BadOperand u32
  | CallTargetNotEntry u32
  | StackOverflow
  | StackUnderflow
  | StepLimit
  | TactLimit
  | DeviceTrap device_fault
  | NoTransition u32
  | TableOutOfBounds u32
  | DispatchOutOfRange u32
  | UnmappedRead u32
  | UnmappedWrite u32
  | ExitOutOfRange u32
  | ProfileViolation u32

datatype raised_trap_kind = RaisedUnmappedRead | RaisedUnmappedWrite

datatype bus_request =
    CodeRead u32
  | StackPush u32
  | StackPop
  | DeviceMoveLeft u8
  | DeviceMoveRight u8
  | DeviceRead u8
  | DeviceWrite u8 u32
  | TableRead u32
  | FrameRead u32

datatype bus_response =
    Byte u8
  | OutOfCode
  | BusOk
  | StackFull
  | BusValue u32
  | StackEmpty
  | BusSymbol u32
  | BusFault device_fault
  | OutOfTable

datatype core_event =
    Request bus_request
  | EvStep
  | EvBreak
  | EvStop
  | EvHalt
  | EvTrap trap

end
