(* ===== verification/Arch_Iface.thy ===== *)
theory Arch_Iface
  imports Bus
begin

text \<open>
  The architecture interface (\<open>crates/core/src/vm/arch.rs\<close>): operand kinds, decoded
  operands, micro-ops, the \<open>Arch\<close> trait as a record of its four methods, and
  \<open>encode_operand\<close>. The decoding the core performs byte by byte is in theory
  \<open>Vm_Core\<close>, where the two are proved inverse.
\<close>

datatype operand_kind =
    KNone | KRelI8 | KRelI32 | KSymbolVec | KTableRef | KMoveVec | KImm8 | KFramedCall
  | KWriteMoveVec

datatype operand =
    ONone
  | OI8 i8
  | OI32 i32
  | OSymbols "u32 list"
  | OTable u32
  | OImm u8
  | OFramedCall (of_rel: i32) (of_table: u32)
  | OWriteMove (of_writes: "u32 list") (of_moves: "u32 list")

datatype micro_op =
    MoveLeft u8
  | MoveRight u8
  | MWrite u8 u32
  | MRead u8 u8
  | LatchMatch u32
  | JumpRel i32
  | JumpRelIf i32 bool
  | MCall i32
  | MRet
  | MatchTable u32
  | DispatchJump u32
  | Raise raised_trap_kind
  | ReadAll
  | CallFrame i32 u32
  | RetX u8
  | MStop
  | MHalt
  | MBrk
  | MNop

record arch =
  arch_id :: u8
  operand_kind :: "u8 \<Rightarrow> operand_kind option"
  lower :: "u8 \<Rightarrow> operand \<Rightarrow> trap + micro_op list"
  is_entry_marker :: "u8 \<Rightarrow> bool"

section \<open>Encoding an operand\<close>

text \<open>
  \<open>split_last\<close> on a slice, and a self-delimiting group: every payload narrowed to a byte,
  the last one with its high bit set.
\<close>

definition split_last :: "'a list \<Rightarrow> ('a \<times> 'a list) option" where
  "split_last xs = (if xs = [] then None else Some (last xs, butlast xs))"

definition byte_of :: "u32 \<Rightarrow> u8" where
  "byte_of s = ucast s"

definition encode_group :: "u32 \<Rightarrow> u32 list \<Rightarrow> u8 list" where
  "encode_group l init = map byte_of init @ [byte_of l OR 0x80]"

definition encode_symbols :: "u32 list \<Rightarrow> string + u8 list" where
  "encode_symbols symbols =
     (case split_last symbols of
        None \<Rightarrow> Inl ''symbol vector must not be empty''
      | Some (l, init) \<Rightarrow>
          if \<exists>s \<in> set symbols. s > 0x7F then Inl ''symbol payload exceeds 7 bits''
          else Inr (encode_group l init))"

definition encode_write_move :: "u32 list \<Rightarrow> u32 list \<Rightarrow> string + u8 list" where
  "encode_write_move writes moves =
     (case split_last writes of
        None \<Rightarrow> Inl ''write-move write group must not be empty''
      | Some (w_last, w_init) \<Rightarrow>
          if \<exists>s \<in> set writes. s > 0x7F then Inl ''write payload exceeds 7 bits''
          else (case split_last moves of
             None \<Rightarrow> Inl ''write-move move group must not be empty''
           | Some (m_last, m_init) \<Rightarrow>
               if \<exists>m \<in> set moves. m > 2 then Inl ''move code exceeds 2''
               else Inr (encode_group w_last w_init @ encode_group m_last m_init)))"

fun encode_operand :: "operand \<Rightarrow> string + u8 list" where
  "encode_operand ONone = Inr []"
| "encode_operand (OI8 v) = Inr [v]"
| "encode_operand (OI32 v) = Inr (le_u32 v)"
| "encode_operand (OTable v) = Inr (le_u32 v)"
| "encode_operand (OImm v) = Inr [v]"
| "encode_operand (OFramedCall rel table) = Inr (le_u32 rel @ le_u32 table)"
| "encode_operand (OSymbols symbols) = encode_symbols symbols"
| "encode_operand (OWriteMove writes moves) = encode_write_move writes moves"

end
