(* ===== verification/Walks.thy ===== *)
theory Walks
  imports Bus
begin

text \<open>
  The match-table and dispatch-table walks (\<open>crates/core/src/vm/table.rs\<close>): byte-at-a-time
  automata that ask for the next table byte, and the proof that over a table in memory they
  compute the declarative reading of the table layout.
\<close>

section \<open>Walks over a table ROM\<close>

text \<open>
  The driver's side of a walk: as long as the walk asks for a byte it is read from the table
  ROM and fed back. \<open>None\<close> is a walk that panics or that is still asking when the fuel is
  spent; \<open>OffTable\<close> is a request past the end of the ROM, which the table bus answers with a
  fault.
\<close>

datatype 'st served = Served 'st | OffTable

fun serve ::
  "('w \<Rightarrow> u8 option \<Rightarrow> ('w \<times> 'st) option) \<Rightarrow> ('st \<Rightarrow> u32 option) \<Rightarrow> u8 list \<Rightarrow> nat \<Rightarrow> 'w \<Rightarrow> 'st \<Rightarrow>
   'st served option" where
  "serve feed need blob 0 w st = None"
| "serve feed need blob (Suc n) w st =
     (case need st of
        None \<Rightarrow> Some (Served st)
      | Some addr \<Rightarrow>
          (case nth_opt blob (unat addr) of
             None \<Rightarrow> Some OffTable
           | Some b \<Rightarrow>
               (case feed w (Some b) of
                  None \<Rightarrow> None
                | Some (w', st') \<Rightarrow> serve feed need blob n w' st')))"

lemma serve_step:
  "need st = Some addr \<Longrightarrow> nth_opt blob (unat addr) = Some b \<Longrightarrow> feed w (Some b) = Some (w', st') \<Longrightarrow>
     serve feed need blob (Suc n) w st = serve feed need blob n w' st'"
  by simp

lemma serve_end: "need st = None \<Longrightarrow> serve feed need blob (Suc n) w st = Some (Served st)"
  by simp

text \<open>
  The contract of a walk: on a well-formed state a byte never makes it panic, a walk that
  asks on stays well-formed, and its rank falls.
\<close>

locale byte_walk =
  fixes feed :: "'w \<Rightarrow> u8 option \<Rightarrow> ('w \<times> 'st) option"
    and need :: "'st \<Rightarrow> u32 option"
    and wf :: "'w \<Rightarrow> bool"
    and rank :: "'w \<Rightarrow> nat"
  assumes feed_total: "wf w \<Longrightarrow> \<exists>w' st. feed w (Some b) = Some (w', st)"
    and feed_wf: "wf w \<Longrightarrow> feed w (Some b) = Some (w', st) \<Longrightarrow> need st = Some a \<Longrightarrow> wf w'"
    and feed_rank: "wf w \<Longrightarrow> feed w (Some b) = Some (w', st) \<Longrightarrow> need st = Some a \<Longrightarrow> rank w' < rank w"
begin

text \<open>A served walk returns, whatever the table holds.\<close>

lemma serve_total:
  assumes "wf w" and "rank w + 1 < fuel"
  shows "\<exists>r. serve feed need blob fuel w st = Some r"
  using assms
proof (induction fuel arbitrary: w st)
  case (Suc n)
  show ?case
  proof (cases "need st")
    case (Some addr)
    show ?thesis
    proof (cases "nth_opt blob (unat addr)")
      case (Some b)
      obtain w' st' where f: "feed w (Some b) = Some (w', st')"
        using feed_total [OF Suc.prems(1)] by blast
      have step: "serve feed need blob (Suc n) w st = serve feed need blob n w' st'"
        using \<open>need st = Some addr\<close> Some f by (rule serve_step)
      show ?thesis
      proof (cases "need st'")
        case None
        then show ?thesis unfolding step using Suc.prems(2) by (cases n) auto
      next
        case (Some a)
        then have "wf w'" and "rank w' + 1 < n"
          using feed_wf [OF Suc.prems(1) f] feed_rank [OF Suc.prems(1) f] Suc.prems(2) by fastforce+
        then show ?thesis unfolding step by (rule Suc.IH)
      qed
    qed (use Some in simp)
  qed simp
qed simp

end

lemma serve_mono:
  "serve feed need blob n w st = Some r \<Longrightarrow> n \<le> m \<Longrightarrow> serve feed need blob m w st = Some r"
proof (induction n arbitrary: m w st)
  case (Suc n)
  obtain k where "m = Suc k" and "n \<le> k" using Suc.prems(2) by (cases m) auto
  with Suc show ?case by (auto split: option.splits)
qed simp

text \<open>Two fuels that both give an answer give the same one.\<close>

lemma serve_agree:
  "serve feed need blob n w st = Some r \<Longrightarrow> serve feed need blob m w st = Some r' \<Longrightarrow> r = r'"
  using serve_mono [of feed need blob n w st r "max n m"]
    serve_mono [of feed need blob m w st r' "max n m"]
  by (simp del: serve.simps)

section \<open>The match-table walk\<close>

datatype walk_step = NeedByte u32 | WalkDone u32 | Malformed

datatype stage =
    StWidth
  | StCountLo u8
  | StCountHi u8 u8
  | StRow (row_width: u8) (row_count: u16) (row_index: u16) (row_pos: u8)

record match_walk =
  mw_base :: u32
  mw_stage :: stage

definition match_walk_new :: "u32 \<Rightarrow> match_walk" where
  "match_walk_new table_addr = \<lparr>mw_base = table_addr, mw_stage = StWidth\<rparr>"

definition row_byte_addr :: "match_walk \<Rightarrow> u8 \<Rightarrow> u16 \<Rightarrow> u8 \<Rightarrow> u32" where
  "row_byte_addr w width row pos =
     mw_base w + 3 + ucast row * ucast width + ucast pos"

text \<open>
  One feed of the walk: \<open>None\<close> where the source would index \<open>tr\<close> out of range (it never
  does: the width is checked against the length of \<open>tr\<close> before a row byte is asked for).
\<close>

fun match_feed_row ::
  "match_walk \<Rightarrow> u8 \<Rightarrow> u16 \<Rightarrow> u16 \<Rightarrow> u8 \<Rightarrow> u8 \<Rightarrow> u32 list \<Rightarrow> (match_walk \<times> walk_step) option" where
  "match_feed_row w width rows row pos b tr =
     (if b \<noteq> 0x7F \<and> nth_opt tr (unat pos) = None then None
      else let matches = (b = 0x7F \<or> ucast b = tr ! unat pos) in
        if matches \<and> pos + 1 = width then Some (w, WalkDone (ucast row + 1))
        else let next_row = (if matches then row else row + 1);
                 next_pos = (if matches then pos + 1 else 0) in
          if next_row = rows then Some (w, WalkDone 0)
          else Some (w\<lparr>mw_stage := StRow width rows next_row next_pos\<rparr>,
                     NeedByte (row_byte_addr w width next_row next_pos)))"

fun match_feed :: "match_walk \<Rightarrow> u8 option \<Rightarrow> u32 list \<Rightarrow> (match_walk \<times> walk_step) option" where
  "match_feed w byte tr =
     (case (mw_stage w, byte) of
        (StWidth, None) \<Rightarrow> Some (w, NeedByte (mw_base w))
      | (StWidth, Some wd) \<Rightarrow>
          if wd = 0 \<or> wd > 16 \<or> unat wd > length tr then Some (w, Malformed)
          else Some (w\<lparr>mw_stage := StCountLo wd\<rparr>, NeedByte (mw_base w + 1))
      | (StCountLo width, Some lo) \<Rightarrow>
          Some (w\<lparr>mw_stage := StCountHi width lo\<rparr>, NeedByte (mw_base w + 2))
      | (StCountHi width lo, Some hi) \<Rightarrow>
          let rows = u16_le [lo, hi] in
          if rows = 0 then Some (w, WalkDone 0)
          else Some (w\<lparr>mw_stage := StRow width rows 0 0\<rparr>,
                     NeedByte (row_byte_addr w width 0 0))
      | (StRow width rows row pos, Some b) \<Rightarrow> match_feed_row w width rows row pos b tr
      | _ \<Rightarrow> Some (w, Malformed))"

declare match_feed_row.simps [simp del] match_feed.simps [simp del]

section \<open>The match walk keeps the contract\<close>

fun walk_need :: "walk_step \<Rightarrow> u32 option" where
  "walk_need (NeedByte a) = Some a"
| "walk_need _ = None"

fun stage_wf :: "u32 list \<Rightarrow> stage \<Rightarrow> bool" where
  "stage_wf tr StWidth \<longleftrightarrow> True"
| "stage_wf tr (StCountLo width) \<longleftrightarrow> 0 < unat width \<and> unat width \<le> 16 \<and> unat width \<le> length tr"
| "stage_wf tr (StCountHi width lo) \<longleftrightarrow> 0 < unat width \<and> unat width \<le> 16 \<and> unat width \<le> length tr"
| "stage_wf tr (StRow width rows row pos) \<longleftrightarrow>
     unat width \<le> 16 \<and> unat width \<le> length tr \<and> unat row < unat rows \<and> unat pos < unat width"

fun stage_rank :: "stage \<Rightarrow> nat" where
  "stage_rank StWidth = 1200003"
| "stage_rank (StCountLo width) = 1200002"
| "stage_rank (StCountHi width lo) = 1200001"
| "stage_rank (StRow width rows row pos) = (unat rows - unat row) * 17 + (unat width - unat pos)"

definition match_wf :: "u32 list \<Rightarrow> match_walk \<Rightarrow> bool" where
  "match_wf tr w = stage_wf tr (mw_stage w)"

definition match_rank :: "match_walk \<Rightarrow> nat" where
  "match_rank w = stage_rank (mw_stage w)"

lemma unat_suc_u8: "unat (p :: u8) < unat (q :: u8) \<Longrightarrow> unat (p + 1) = unat p + 1"
  using less_le_trans [OF _ Suc_leI [OF u8_bound [of q]], of "Suc (unat p)"]
  by (simp add: unat_word_ariths)

lemma unat_suc_u16: "unat (p :: u16) < unat (q :: u16) \<Longrightarrow> unat (p + 1) = unat p + 1"
  using less_le_trans [OF _ Suc_leI [OF u16_bound [of q]], of "Suc (unat p)"]
  by (simp add: unat_word_ariths)

lemma match_feed_row_props:
  assumes "unat width \<le> 16" "unat width \<le> length tr" "unat row < unat rows" "unat pos < unat width"
    and st: "mw_stage w = StRow width rows row pos"
  shows "\<exists>w' st. match_feed_row w width rows row pos b tr = Some (w', st)
           \<and> (\<forall>a. walk_need st = Some a \<longrightarrow> match_wf tr w' \<and> match_rank w' < match_rank w)"
proof -
  have np: "unat (pos + 1) = unat pos + 1" using assms(4) by (rule unat_suc_u8)
  have nr: "unat (row + 1) = unat row + 1" using assms(3) by (rule unat_suc_u16)
  have more: "pos + 1 \<noteq> width \<Longrightarrow> unat pos + 1 < unat width"
    using assms(4) np word_unat_eq_iff [of "pos + 1" width] by linarith
  have next_row: "row + 1 \<noteq> rows \<Longrightarrow> unat row + 1 < unat rows"
    using assms(3) nr word_unat_eq_iff [of "row + 1" rows] by linarith
  have ne: "row \<noteq> rows" using assms(3) by auto
  have tr: "nth_opt tr (unat pos) \<noteq> None" using assms by simp
  show ?thesis
    using assms np nr more next_row ne tr
    by (auto simp: match_feed_row.simps Let_def match_wf_def match_rank_def)
qed

interpretation mw: byte_walk "\<lambda>w b. match_feed w b tr" walk_need "match_wf tr" match_rank for tr
proof -
  have P: "\<exists>w' st. match_feed w (Some b) tr = Some (w', st)
      \<and> (\<forall>a. walk_need st = Some a \<longrightarrow> match_wf tr w' \<and> match_rank w' < match_rank w)"
    (is "?P w b") if wf: "match_wf tr w" for w b
  proof (cases "mw_stage w")
    case StWidth
    then show ?thesis
      by (auto simp: match_feed.simps match_wf_def match_rank_def word_less_nat_alt unat_gt_0 not_less)
  next
    case (StCountLo wd)
    then show ?thesis using wf by (auto simp: match_feed.simps match_wf_def match_rank_def)
  next
    case (StCountHi wd lo)
    then show ?thesis using wf
      by (auto simp: match_feed.simps match_wf_def match_rank_def Let_def unat_gt_0)
        (use u16_bound [of "u16_le [lo, b]"] in linarith)
  next
    case (StRow wd rows row pos)
    then show ?thesis
      using wf match_feed_row_props [of wd tr row rows pos w b] by (simp add: match_feed.simps match_wf_def)
  qed
  show "byte_walk (\<lambda>w b. match_feed w b tr) walk_need (match_wf tr) match_rank"
  proof unfold_locales
    fix w b w' st a
    assume wf: "match_wf tr w"
    show "\<exists>w' st. match_feed w (Some b) tr = Some (w', st)" using P [OF wf, of b] by blast
    assume "match_feed w (Some b) tr = Some (w', st)" and "walk_need st = Some a"
    with P [OF wf, of b] show "match_wf tr w'" and "match_rank w' < match_rank w" by auto
  qed
qed

section \<open>What a match table says\<close>

text \<open>A row matches when every byte is the any-symbol \<open>0x7F\<close> or equals its symbol.\<close>

fun row_matches :: "u32 list \<Rightarrow> u8 list \<Rightarrow> bool" where
  "row_matches tr [] = True"
| "row_matches [] (b # row) = False"
| "row_matches (t # tr) (b # row) = ((b = 0x7F \<or> ucast b = t) \<and> row_matches tr row)"

text \<open>The 1-based index of the first matching row; 0 when there is none.\<close>

fun first_match :: "u32 list \<Rightarrow> u8 list list \<Rightarrow> nat" where
  "first_match tr [] = 0"
| "first_match tr (row # rows) =
     (if row_matches tr row then 1
      else case first_match tr rows of 0 \<Rightarrow> 0 | Suc n \<Rightarrow> Suc (Suc n))"

definition match_table_bytes :: "nat \<Rightarrow> u8 list list \<Rightarrow> u8 list" where
  "match_table_bytes width rows = of_nat width # le_u16 (of_nat (length rows)) @ concat rows"

text \<open>The answer of a scan that has matched the first \<open>p\<close> bytes of row \<open>i\<close>.\<close>

definition from_row :: "u32 list \<Rightarrow> u8 list list \<Rightarrow> nat \<Rightarrow> nat \<Rightarrow> nat" where
  "from_row tr rows i p =
     (if row_matches (drop p tr) (drop p (rows ! i)) then i + 1
      else case first_match tr (drop (i + 1) rows) of 0 \<Rightarrow> 0 | Suc n \<Rightarrow> Suc (Suc n) + i)"

lemma row_matches_drop:
  "p < length row \<Longrightarrow> p < length tr \<Longrightarrow>
     row_matches (drop p tr) (drop p row) \<longleftrightarrow>
       (row ! p = 0x7F \<or> ucast (row ! p) = tr ! p) \<and> row_matches (drop (p + 1) tr) (drop (p + 1) row)"
  by (metis Cons_nth_drop_Suc Suc_eq_plus1 row_matches.simps(3))

lemma from_row_match_end:
  "p + 1 = length (rows ! i) \<Longrightarrow> p < length tr \<Longrightarrow>
     rows ! i ! p = 0x7F \<or> ucast (rows ! i ! p) = tr ! p \<Longrightarrow> from_row tr rows i p = i + 1"
  by (simp add: from_row_def row_matches_drop)

lemma from_row_match_next:
  "p + 1 < length (rows ! i) \<Longrightarrow> p < length tr \<Longrightarrow>
     rows ! i ! p = 0x7F \<or> ucast (rows ! i ! p) = tr ! p \<Longrightarrow>
     from_row tr rows i p = from_row tr rows i (p + 1)"
  by (simp add: from_row_def row_matches_drop)

lemma from_row_fail_last:
  "p < length (rows ! i) \<Longrightarrow> p < length tr \<Longrightarrow>
     \<not> (rows ! i ! p = 0x7F \<or> ucast (rows ! i ! p) = tr ! p) \<Longrightarrow> i + 1 = length rows \<Longrightarrow>
     from_row tr rows i p = 0"
  by (simp add: from_row_def row_matches_drop)

lemma from_row_fail_next:
  assumes "p < length (rows ! i)" "p < length tr"
    and "\<not> (rows ! i ! p = 0x7F \<or> ucast (rows ! i ! p) = tr ! p)" and "i + 1 < length rows"
  shows "from_row tr rows i p = from_row tr rows (i + 1) 0"
proof -
  have d: "drop (Suc i) rows = rows ! (i + 1) # drop (Suc (Suc i)) rows"
    using assms(4) by (simp add: Cons_nth_drop_Suc)
  have f: "\<not> row_matches (drop p tr) (drop p (rows ! i))"
    using assms by (simp add: row_matches_drop)
  show ?thesis using f by (auto simp: from_row_def d split: nat.split)
qed

lemma from_row_0: "rows \<noteq> [] \<Longrightarrow> from_row tr rows 0 0 = first_match tr rows"
  by (cases rows) (auto simp: from_row_def split: nat.split)

text \<open>The walk at row \<open>i\<close>, byte \<open>p\<close>.\<close>

definition at_row :: "u32 \<Rightarrow> nat \<Rightarrow> nat \<Rightarrow> nat \<Rightarrow> nat \<Rightarrow> match_walk" where
  "at_row base width n i p =
     \<lparr>mw_base = base, mw_stage = StRow (of_nat width) (of_nat n) (of_nat i) (of_nat p)\<rparr>"

definition asked_row :: "u32 \<Rightarrow> nat \<Rightarrow> nat \<Rightarrow> nat \<Rightarrow> walk_step" where
  "asked_row base width i p = NeedByte (base + of_nat (3 + i * width + p))"

lemma row_byte_addr_of_nat:
  "i < 65536 \<Longrightarrow> p < 256 \<Longrightarrow> width < 256 \<Longrightarrow>
     row_byte_addr w (of_nat width) (of_nat i) (of_nat p) = mw_base w + of_nat (3 + i * width + p)"
proof -
  assume b: "i < 65536" "p < 256" "width < 256"
  have "(ucast (of_nat i :: u16) :: u32) = of_nat i" "(ucast (of_nat p :: u8) :: u32) = of_nat p"
    "(ucast (of_nat width :: u8) :: u32) = of_nat width"
    using b by (simp_all add: word_unat_eq_iff unat_of_nat)
  then show ?thesis by (simp add: row_byte_addr_def)
qed

lemma of_nat_eq_u8: "a < 256 \<Longrightarrow> b < 256 \<Longrightarrow> (of_nat a :: u8) = of_nat b \<longleftrightarrow> a = b"
  by (simp add: word_unat_eq_iff unat_of_nat)

lemma of_nat_eq_u16: "a < 65536 \<Longrightarrow> b < 65536 \<Longrightarrow> (of_nat a :: u16) = of_nat b \<longleftrightarrow> a = b"
  by (simp add: word_unat_eq_iff unat_of_nat)

lemma match_feed_at_row:
  assumes "width < 256" "n < 65536" "i < n" "p < width" "p < length tr"
  shows "match_feed (at_row base width n i p) (Some b) tr =
     (if b = 0x7F \<or> ucast b = tr ! p then
        (if p + 1 = width then Some (at_row base width n i p, WalkDone (of_nat (i + 1)))
         else Some (at_row base width n i (p + 1), asked_row base width i (p + 1)))
      else
        (if i + 1 = n then Some (at_row base width n i p, WalkDone 0)
         else Some (at_row base width n (i + 1) 0, asked_row base width (i + 1) 0)))"
proof -
  have p: "unat (of_nat p :: u8) = p" using assms by (simp add: unat_of_nat)
  have c: "(ucast (of_nat i :: u16) :: u32) = of_nat i"
    using assms by (simp add: word_unat_eq_iff unat_of_nat)
  have pe: "(of_nat p + 1 :: u8) = of_nat width \<longleftrightarrow> p + 1 = width"
    using of_nat_eq_u8 [of "p + 1" width] assms by (simp add: add.commute)
  have ie: "(of_nat i + 1 :: u16) = of_nat n \<longleftrightarrow> i + 1 = n"
    using of_nat_eq_u16 [of "i + 1" n] assms by (simp add: add.commute)
  have ine: "(of_nat i :: u16) \<noteq> of_nat n"
    using of_nat_eq_u16 [of i n] assms by simp
  have a1: "row_byte_addr w (of_nat width) (of_nat i) (of_nat p + 1) =
      mw_base w + of_nat (3 + i * width + (p + 1))" if "p + 1 \<noteq> width" for w
    using row_byte_addr_of_nat [of i "p + 1" width w] assms that by (simp add: add.commute)
  have a2: "row_byte_addr w (of_nat width) (of_nat i + 1) 0 =
      mw_base w + of_nat (3 + (i + 1) * width + 0)" if "i + 1 \<noteq> n" for w
    using row_byte_addr_of_nat [of "i + 1" 0 width w] assms that by (simp add: add.commute)
  have succ: "(of_nat (Suc p) :: u8) = of_nat p + 1" "(of_nat (Suc i) :: u16) = of_nat i + 1"
    "(of_nat (Suc i) :: u32) = of_nat i + 1"
    by simp_all
  have nn: "nth_opt tr p \<noteq> None" using assms by simp
  show ?thesis
  proof (cases "b = 0x7F \<or> ucast b = tr ! p")
    case True
    then show ?thesis
      using a1 nn ine unfolding Suc_eq_plus1 [symmetric]
      by (simp add: match_feed.simps match_feed_row.simps at_row_def asked_row_def Let_def p c pe succ
          del: of_nat_add of_nat_Suc of_nat_mult)
  next
    case False
    then show ?thesis
      using a2 nn unfolding Suc_eq_plus1 [symmetric]
      by (simp add: match_feed.simps match_feed_row.simps at_row_def asked_row_def Let_def p c ie succ
          del: of_nat_add of_nat_Suc of_nat_mult)
  qed
qed

text \<open>The scan from row \<open>i\<close>, byte \<open>p\<close>, of a table whose rows lie at \<open>base + 3\<close>.\<close>

lemma scan_rows:
  assumes w: "0 < width" "width \<le> 16" "width \<le> length tr"
    and rows: "\<forall>r \<in> set rows. length r = width" "length rows < 65536"
    and mem: "\<And>i p. i < length rows \<Longrightarrow> p < width \<Longrightarrow>
      nth_opt blob (unat (base + of_nat (3 + i * width + p))) = Some (rows ! i ! p)"
  shows "i < length rows \<Longrightarrow> p < width \<Longrightarrow>
    \<exists>fuel. serve (\<lambda>w b. match_feed w b tr) walk_need blob fuel
        (at_row base width (length rows) i p) (asked_row base width i p)
      = Some (Served (WalkDone (of_nat (from_row tr rows i p))))"
proof (induction "(length rows - i) * 17 + (width - p)" arbitrary: i p rule: less_induct)
  case less
  let ?W = "at_row base width (length rows)" and ?A = "asked_row base width"
    and ?b = "rows ! i ! p"
    and ?serve = "serve (\<lambda>w b. match_feed w b tr) walk_need blob"
  let ?m = "?b = 0x7F \<or> ucast ?b = tr ! p"
  have row: "length (rows ! i) = width" and ptr: "p < length tr"
    using rows less.prems w by auto
  have "width < 256" using w(2) by simp
  note feed = match_feed_at_row [OF this rows(2) less.prems ptr, of base ?b]
  have byte: "nth_opt blob (unat (base + of_nat (3 + i * width + p))) = Some ?b"
    using mem less.prems by blast
  have step: "?serve (Suc k) (?W i p) (?A i p) = ?serve k w' st'"
    if "match_feed (?W i p) (Some ?b) tr = Some (w', st')" for w' st' k
  proof (rule serve_step)
    show "walk_need (?A i p) = Some (base + of_nat (3 + i * width + p))" by (simp add: asked_row_def)
  qed (use byte that in simp_all)
  have fin: "?case" if "match_feed (?W i p) (Some ?b) tr = Some (w', WalkDone r)"
    and "from_row tr rows i p = n" and "r = of_nat n" for w' r n
  proof -
    have "?serve (Suc (Suc 0)) (?W i p) (?A i p) = Some (Served (WalkDone r))"
      unfolding step [OF that(1)] by simp
    then show ?case unfolding that(2,3) by (rule exI)
  qed
  consider (hit) ?m "p + 1 = width" | (next_pos) ?m "p + 1 < width"
    | (last) "\<not> ?m" "i + 1 = length rows" | (next_row) "\<not> ?m" "i + 1 < length rows"
    using less.prems by linarith
  then show ?case
  proof cases
    case hit
    then show ?thesis
      using feed row ptr by (intro fin) (auto simp: from_row_match_end)
  next
    case last
    then show ?thesis
      using feed row ptr less.prems by (intro fin [where n = 0]) (auto simp: from_row_fail_last)
  next
    case next_pos
    then have "match_feed (?W i p) (Some ?b) tr = Some (?W i (p + 1), ?A i (p + 1))"
      using feed by auto
    note st = step [OF this]
    have "from_row tr rows i p = from_row tr rows i (p + 1)"
      using next_pos row ptr by (intro from_row_match_next) auto
    moreover have "(length rows - i) * 17 + (width - (p + 1)) < (length rows - i) * 17 + (width - p)"
      using next_pos(2) by simp
    note less.hyps [OF this less.prems(1) next_pos(2)]
    then obtain fuel where "?serve fuel (?W i (p + 1)) (?A i (p + 1))
        = Some (Served (WalkDone (of_nat (from_row tr rows i (p + 1)))))" ..
    ultimately show ?thesis using st [of fuel] by (intro exI [of _ "Suc fuel"]) (simp del: serve.simps)
  next
    case next_row
    then have "match_feed (?W i p) (Some ?b) tr = Some (?W (i + 1) 0, ?A (i + 1) 0)"
      using feed by auto
    note st = step [OF this]
    have "from_row tr rows i p = from_row tr rows (i + 1) 0"
      using next_row row ptr less.prems by (intro from_row_fail_next) auto
    moreover have "(length rows - (i + 1)) * 17 + (width - 0) < (length rows - i) * 17 + (width - p)"
    proof -
      have "length rows - i = Suc (length rows - (i + 1))" using next_row(2) by simp
      then show ?thesis using w(2) by simp
    qed
    note less.hyps [OF this next_row(2) w(1)]
    then obtain fuel where "?serve fuel (?W (i + 1) 0) (?A (i + 1) 0)
        = Some (Served (WalkDone (of_nat (from_row tr rows (i + 1) 0))))" ..
    ultimately show ?thesis using st [of fuel] by (intro exI [of _ "Suc fuel"]) (simp del: serve.simps)
  qed
qed

text \<open>
  A whole lookup, as \<open>mtc\<close> performs it: a fresh walk over the table ROM. The fuel is above the
  rank of every well-formed walk.
\<close>

definition match_lookup :: "u8 list \<Rightarrow> u32 list \<Rightarrow> u32 \<Rightarrow> walk_step served option" where
  "match_lookup blob tr table =
     (case match_feed (match_walk_new table) None tr of
        None \<Rightarrow> None
      | Some (w, st) \<Rightarrow> serve (\<lambda>w b. match_feed w b tr) walk_need blob 1200010 w st)"

lemma match_feed_fresh:
  "match_feed (match_walk_new table) None tr = Some (match_walk_new table, NeedByte table)"
  by (simp add: match_feed.simps match_walk_new_def)

lemma match_wf_new [simp]: "match_wf tr (match_walk_new table)"
  by (simp add: match_wf_def match_walk_new_def)

lemma match_rank_new [simp]: "match_rank (match_walk_new table) = 1200003"
  by (simp add: match_rank_def match_walk_new_def)

lemma match_lookup_total: "\<exists>r. match_lookup blob tr table = Some r"
  unfolding match_lookup_def match_feed_fresh by (simp add: mw.serve_total del: serve.simps)

lemma first_row_walk:
  assumes "0 < rows" "rows < 65536" "width < 256"
  shows "row_byte_addr w (of_nat width) 0 0 = mw_base w + 3"
    and "(match_walk_new table)\<lparr>mw_stage := StRow (of_nat width) (of_nat rows) 0 0\<rparr>
      = at_row table width rows 0 0"
  using row_byte_addr_of_nat [of 0 0 width w] assms
  by (simp_all add: match_walk_new_def at_row_def)

text \<open>A table in the ROM: the bytes the walk asks for.\<close>

lemma match_table_bytes_nth:
  assumes blob: "blob = pre @ match_table_bytes width rows @ post"
    and base: "length pre = unat (table :: u32)"
    and rows: "\<forall>r \<in> set rows. length r = width"
    and fit: "unat table + length (match_table_bytes width rows) < 2 ^ 32"
    and le: "le_u16 (of_nat (length rows)) = [lo, hi]"
  shows "nth_opt blob (unat table) = Some (of_nat width)"
    and "nth_opt blob (unat (table + 1)) = Some lo"
    and "nth_opt blob (unat (table + 2)) = Some hi"
    and "i < length rows \<Longrightarrow> p < width \<Longrightarrow>
      nth_opt blob (unat (table + of_nat (3 + i * width + p))) = Some (rows ! i ! p)"
proof -
  have eq: "blob = pre @ [of_nat width, lo, hi] @ concat rows @ post"
    using blob le by (simp add: match_table_bytes_def)
  have len: "length (match_table_bytes width rows) = 3 + length rows * width"
    using rows by (simp add: match_table_bytes_def length_concat_rows)
  define body where "body = [of_nat width, lo, hi] @ concat rows"
  have blob': "blob = pre @ body @ post" and lb: "length body = 3 + length rows * width"
    using eq rows by (simp_all add: body_def length_concat_rows)
  have at': "nth_opt blob (unat (table + of_nat k)) = Some (body ! k)"
    if "k < 3 + length rows * width" for k
  proof -
    have "unat (table + of_nat k) = length pre + k"
      using that fit len base by (simp add: unat_add_small)
    then show ?thesis
      using that lb by (simp add: blob' nth_append)
  qed
  note at = at' [unfolded body_def]
  show "nth_opt blob (unat table) = Some (of_nat width)" using at [of 0] by simp
  show "nth_opt blob (unat (table + 1)) = Some lo" using at [of 1] by simp
  show "nth_opt blob (unat (table + 2)) = Some hi" using at [of 2] by simp
  assume ip: "i < length rows" "p < width"
  have "i * width + p < length rows * width" using ip by (rule row_index_bound)
  with at [of "3 + i * width + p"] ip rows
  show "nth_opt blob (unat (table + of_nat (3 + i * width + p))) = Some (rows ! i ! p)"
    by (simp add: nth_append nth_concat_rows add.assoc)
qed

lemma serve_match_header:
  assumes b: "nth_opt blob (unat table) = Some (of_nat width)"
      "nth_opt blob (unat (table + 1)) = Some lo" "nth_opt blob (unat (table + 2)) = Some hi"
    and w: "0 < width" "width \<le> 16" "width \<le> length tr"
    and n: "u16_le [lo, hi] = of_nat n" "n < 65536"
    and r: "0 < n \<Longrightarrow> serve (\<lambda>w b. match_feed w b tr) walk_need blob fuel
        (at_row table width n 0 0) (asked_row table width 0 0) = Some r"
      "n = 0 \<Longrightarrow> r = Served (WalkDone 0)"
  shows "\<exists>fuel. serve (\<lambda>w b. match_feed w b tr) walk_need blob fuel
      (match_walk_new table) (NeedByte table) = Some r"
proof -
  let ?serve = "serve (\<lambda>w b. match_feed w b tr) walk_need blob"
    and ?w0 = "match_walk_new table"
  let ?w1 = "?w0\<lparr>mw_stage := StCountLo (of_nat width)\<rparr>"
    and ?w2 = "?w0\<lparr>mw_stage := StCountHi (of_nat width) lo\<rparr>"
  have wd: "unat (of_nat width :: u8) = width" using w by (simp add: unat_of_nat)
  have "match_feed ?w0 (Some (of_nat width)) tr = Some (?w1, NeedByte (table + 1))"
    using w wd by (simp add: match_feed.simps match_walk_new_def word_unat_eq_iff word_less_nat_alt)
  then have s0: "?serve (Suc k) ?w0 (NeedByte table) = ?serve k ?w1 (NeedByte (table + 1))" for k
    using b(1) by simp
  have "match_feed ?w1 (Some lo) tr = Some (?w2, NeedByte (table + 2))"
    by (simp add: match_feed.simps match_walk_new_def)
  then have s1: "?serve (Suc k) ?w1 (NeedByte (table + 1)) = ?serve k ?w2 (NeedByte (table + 2))" for k
    using b(2) by simp
  have z: "(of_nat n :: u16) = 0 \<longleftrightarrow> n = 0" using of_nat_eq_u16 [of n 0] n(2) by simp
  have "match_feed ?w2 (Some hi) tr =
      (if n = 0 then Some (?w2, WalkDone 0)
       else Some (at_row table width n 0 0, asked_row table width 0 0))"
    using first_row_walk(1) [of n width] first_row_walk(2) [of n width table] w n z
    by (simp add: match_feed.simps match_walk_new_def asked_row_def)
  then have s2: "?serve (Suc k) ?w2 (NeedByte (table + 2)) =
      (if n = 0 then ?serve k ?w2 (WalkDone 0)
       else ?serve k (at_row table width n 0 0) (asked_row table width 0 0))" for k
    using b(3) by simp
  have "?serve (Suc (Suc (Suc (if n = 0 then Suc 0 else fuel)))) ?w0 (NeedByte table) = Some r"
    unfolding s0 s1 s2 using r by simp
  then show ?thesis ..
qed

lemma match_lookup_table:
  assumes w: "0 < width" "width \<le> 16" "width \<le> length tr"
    and rows: "\<forall>r \<in> set rows. length r = width" "length rows < 65536"
    and blob: "blob = pre @ match_table_bytes width rows @ post"
    and base: "length pre = unat table"
    and fit: "unat table + length (match_table_bytes width rows) < 2 ^ 32"
  shows "match_lookup blob tr table = Some (Served (WalkDone (of_nat (first_match tr rows))))"
proof -
  let ?serve = "serve (\<lambda>w b. match_feed w b tr) walk_need blob"
  obtain lo hi where le: "le_u16 (of_nat (length rows)) = [lo, hi]"
      "u16_le [lo, hi] = of_nat (length rows)"
    using le_u16_two by blast
  note b = match_table_bytes_nth [OF blob base rows(1) fit le(1)]
  let ?r = "Served (WalkDone (of_nat (first_match tr rows)))"
  have "\<exists>fuel. 0 < length rows \<longrightarrow>
      ?serve fuel (at_row table width (length rows) 0 0) (asked_row table width 0 0) = Some ?r"
    using scan_rows [OF w rows, where base = table and blob = blob and i = 0 and p = 0] b(4) w(1)
      from_row_0 [of rows tr] by (auto simp del: serve.simps)
  then obtain fuel where "0 < length rows \<Longrightarrow>
      ?serve fuel (at_row table width (length rows) 0 0) (asked_row table width 0 0) = Some ?r" by blast
  then obtain k where k: "?serve k (match_walk_new table) (NeedByte table) = Some ?r"
    using serve_match_header [OF b(1-3) w le(2) rows(2)] by fastforce
  obtain r where "match_lookup blob tr table = Some r" using match_lookup_total by blast
  then show ?thesis
    using serve_agree [OF k] by (auto simp: match_lookup_def match_feed_fresh simp del: serve.simps)
qed

section \<open>The dispatch-table walk\<close>

datatype dispatch_step = DNeedByte u32 | DispatchDone u32 | OutOfRange

datatype dstage = DCountLo | DCountHi u8 | DEntry u8 "u8 list"

record dispatch_walk =
  dw_base :: u32
  dw_mr :: u32
  dw_stage :: dstage

definition dispatch_walk_new :: "u32 \<Rightarrow> u32 \<Rightarrow> dispatch_walk" where
  "dispatch_walk_new table_addr mr' = \<lparr>dw_base = table_addr, dw_mr = mr', dw_stage = DCountLo\<rparr>"

definition entry_addr :: "dispatch_walk \<Rightarrow> u8 \<Rightarrow> u32" where
  "entry_addr w pos = dw_base w + 2 + (dw_mr w - 1) * 4 + ucast pos"

text \<open>The accumulator \<open>[u8; 4]\<close> is a list of four bytes; an index past it would panic.\<close>

fun dispatch_feed :: "dispatch_walk \<Rightarrow> u8 option \<Rightarrow> (dispatch_walk \<times> dispatch_step) option" where
  "dispatch_feed w byte =
     (case (dw_stage w, byte) of
        (DCountLo, None) \<Rightarrow> Some (w, DNeedByte (dw_base w))
      | (DCountLo, Some lo) \<Rightarrow>
          Some (w\<lparr>dw_stage := DCountHi lo\<rparr>, DNeedByte (dw_base w + 1))
      | (DCountHi lo, Some hi) \<Rightarrow>
          let count = u16_le [lo, hi] in
          if dw_mr w > ucast count then Some (w, OutOfRange)
          else Some (w\<lparr>dw_stage := DEntry 0 [0, 0, 0, 0]\<rparr>, DNeedByte (entry_addr w 0))
      | (DEntry pos acc, Some b) \<Rightarrow>
          if length acc \<le> unat pos then None
          else let acc' = acc[unat pos := b] in
            if pos = 3 then Some (w, DispatchDone (u32_le acc'))
            else Some (w\<lparr>dw_stage := DEntry (pos + 1) acc'\<rparr>, DNeedByte (entry_addr w (pos + 1)))
      | _ \<Rightarrow> Some (w, OutOfRange))"

declare dispatch_feed.simps [simp del]


section \<open>The dispatch walk keeps the contract\<close>

fun dispatch_need :: "dispatch_step \<Rightarrow> u32 option" where
  "dispatch_need (DNeedByte a) = Some a"
| "dispatch_need _ = None"

fun dstage_wf :: "dstage \<Rightarrow> bool" where
  "dstage_wf (DEntry pos acc) \<longleftrightarrow> unat pos < 4 \<and> length acc = 4"
| "dstage_wf _ \<longleftrightarrow> True"

fun dstage_rank :: "dstage \<Rightarrow> nat" where
  "dstage_rank DCountLo = 6"
| "dstage_rank (DCountHi lo) = 5"
| "dstage_rank (DEntry pos acc) = 4 - unat pos"

definition dispatch_wf :: "dispatch_walk \<Rightarrow> bool" where
  "dispatch_wf w = dstage_wf (dw_stage w)"

definition dispatch_rank :: "dispatch_walk \<Rightarrow> nat" where
  "dispatch_rank w = dstage_rank (dw_stage w)"

lemma unat_succ_small: "unat (p :: u8) < 4 \<Longrightarrow> unat (p + 1) = unat p + 1"
  by (simp add: unat_word_ariths)

interpretation dw: byte_walk dispatch_feed dispatch_need dispatch_wf dispatch_rank
proof -
  have P: "\<exists>w' st. dispatch_feed w (Some b) = Some (w', st)
      \<and> (\<forall>a. dispatch_need st = Some a \<longrightarrow> dispatch_wf w' \<and> dispatch_rank w' < dispatch_rank w)"
    if wf: "dispatch_wf w" for w b
  proof (cases "dw_stage w")
    case (DEntry pos acc)
    then have pos: "unat pos < 4" "length acc = 4" using wf by (auto simp: dispatch_wf_def)
    moreover have "unat (pos + 1) < 4" if "pos \<noteq> 3"
      using that pos unat_succ_small [of pos] word_unat_eq_iff [of pos 3] by simp
    ultimately show ?thesis
      using DEntry unat_succ_small [of pos]
      by (auto simp: dispatch_feed.simps dispatch_wf_def dispatch_rank_def Let_def)
  qed (auto simp: dispatch_feed.simps dispatch_wf_def dispatch_rank_def Let_def)
  show "byte_walk dispatch_feed dispatch_need dispatch_wf dispatch_rank"
  proof unfold_locales
    fix w b w' st a
    assume wf: "dispatch_wf w"
    show "\<exists>w' st. dispatch_feed w (Some b) = Some (w', st)" using P [OF wf, of b] by blast
    assume "dispatch_feed w (Some b) = Some (w', st)" and "dispatch_need st = Some a"
    with P [OF wf, of b] show "dispatch_wf w'" and "dispatch_rank w' < dispatch_rank w" by auto
  qed
qed

section \<open>What a dispatch table says\<close>

definition dispatch_table_bytes :: "u32 list \<Rightarrow> u8 list" where
  "dispatch_table_bytes es = le_u16 (of_nat (length es)) @ concat (map le_u32 es)"

text \<open>A whole lookup, as \<open>djmp\<close> performs it.\<close>

definition dispatch_lookup :: "u8 list \<Rightarrow> u32 \<Rightarrow> u32 \<Rightarrow> dispatch_step served option" where
  "dispatch_lookup blob table m =
     (case dispatch_feed (dispatch_walk_new table m) None of
        None \<Rightarrow> None
      | Some (w, st) \<Rightarrow> serve dispatch_feed dispatch_need blob 8 w st)"

lemma dispatch_feed_fresh:
  "dispatch_feed (dispatch_walk_new table m) None
     = Some (dispatch_walk_new table m, DNeedByte table)"
  by (simp add: dispatch_feed.simps dispatch_walk_new_def)

lemma dispatch_wf_new [simp]: "dispatch_wf (dispatch_walk_new table m)"
  by (simp add: dispatch_wf_def dispatch_walk_new_def)

lemma dispatch_rank_new [simp]: "dispatch_rank (dispatch_walk_new table m) = 6"
  by (simp add: dispatch_rank_def dispatch_walk_new_def)

lemma dispatch_lookup_total: "\<exists>r. dispatch_lookup blob table m = Some r"
  unfolding dispatch_lookup_def dispatch_feed_fresh by (simp add: dw.serve_total del: serve.simps)

lemma dispatch_table_bytes_nth:
  assumes blob: "blob = pre @ dispatch_table_bytes es @ post"
    and base: "length pre = unat (table :: u32)"
    and fit: "unat table + length (dispatch_table_bytes es) < 2 ^ 32"
    and le: "le_u16 (of_nat (length es)) = [lo, hi]"
  shows "nth_opt blob (unat table) = Some lo"
    and "nth_opt blob (unat (table + 1)) = Some hi"
    and "i < length es \<Longrightarrow> p < 4 \<Longrightarrow>
      nth_opt blob (unat (table + of_nat (2 + i * 4 + p))) = Some (le_u32 (es ! i) ! p)"
proof -
  define body where "body = [lo, hi] @ concat (map le_u32 es)"
  have rows: "\<forall>r \<in> set (map le_u32 es). length r = 4" by auto
  have blob': "blob = pre @ body @ post" and lb: "length body = 2 + length es * 4"
    using blob le length_concat_rows [OF rows] by (simp_all add: body_def dispatch_table_bytes_def)
  have len: "length (dispatch_table_bytes es) = 2 + length es * 4"
    using length_concat_rows [OF rows] by (simp add: dispatch_table_bytes_def)
  have at': "nth_opt blob (unat (table + of_nat k)) = Some (body ! k)"
    if "k < 2 + length es * 4" for k
  proof -
    have "unat (table + of_nat k) = length pre + k"
      using that fit len base by (simp add: unat_add_small)
    then show ?thesis
      using that lb by (simp add: blob' nth_append)
  qed
  note at = at' [unfolded body_def]
  show "nth_opt blob (unat table) = Some lo" using at [of 0] by simp
  show "nth_opt blob (unat (table + 1)) = Some hi" using at [of 1] by simp
  assume ip: "i < length es" "p < 4"
  have "i * 4 + p < length es * 4" using ip by (rule row_index_bound)
  with at [of "2 + i * 4 + p"] ip nth_concat_rows [OF rows, of i p]
  show "nth_opt blob (unat (table + of_nat (2 + i * 4 + p))) = Some (le_u32 (es ! i) ! p)"
    by (simp add: nth_append add.assoc)
qed

text \<open>The four bytes of entry \<open>m\<close>, one feed each.\<close>

definition at_entry :: "u32 \<Rightarrow> u32 \<Rightarrow> u8 list \<Rightarrow> nat \<Rightarrow> dispatch_walk" where
  "at_entry base m bs p =
     \<lparr>dw_base = base, dw_mr = m, dw_stage = DEntry (of_nat p) (take p bs @ replicate (4 - p) 0)\<rparr>"

definition asked_entry :: "u32 \<Rightarrow> u32 \<Rightarrow> nat \<Rightarrow> dispatch_step" where
  "asked_entry base m p = DNeedByte (base + 2 + (m - 1) * 4 + of_nat p)"

lemma replicate_four: "replicate 4 x = [x, x, x, x]"
  by (simp add: numeral_eq_Suc)

lemma dispatch_feed_at_entry:
  assumes "length bs = 4" "p < 4"
  shows "dispatch_feed (at_entry base m bs p) (Some (bs ! p)) =
     (if p = 3 then Some (at_entry base m bs p, DispatchDone (u32_le bs))
      else Some (at_entry base m bs (p + 1), asked_entry base m (p + 1)))"
proof -
  obtain a b c d where "bs = [a, b, c, d]"
    using assms(1) by (auto simp: length_Suc_conv numeral_eq_Suc)
  moreover have "p = 0 \<or> p = 1 \<or> p = 2 \<or> p = 3" using assms(2) by arith
  moreover have "replicate 3 x = [x, x, x]" "replicate 2 x = [x, x]"
    and "[y, z, u, v][2 := x] = [y, z, x, v]" and "[y, z, u, v][3 := x] = [y, z, u, x]"
    for x y z u v :: u8
    by (simp_all add: numeral_eq_Suc)
  ultimately show ?thesis
    by (elim disjE) (simp_all add: dispatch_feed.simps at_entry_def asked_entry_def entry_addr_def
        Let_def replicate_four)
qed

lemma serve_dispatch_entry:
  assumes "length bs = 4"
    and mem: "\<And>p. p < 4 \<Longrightarrow> nth_opt blob (unat (base + 2 + (m - 1) * 4 + of_nat p)) = Some (bs ! p)"
  shows "p < 4 \<Longrightarrow> \<exists>fuel. serve dispatch_feed dispatch_need blob fuel
      (at_entry base m bs p) (asked_entry base m p) = Some (Served (DispatchDone (u32_le bs)))"
proof (induction "4 - p" arbitrary: p)
  case (Suc k)
  let ?serve = "serve dispatch_feed dispatch_need blob"
  note feed = dispatch_feed_at_entry [OF assms(1) Suc.prems, of base m]
  have step: "?serve (Suc n) (at_entry base m bs p) (asked_entry base m p) = ?serve n w' st'"
    if "dispatch_feed (at_entry base m bs p) (Some (bs ! p)) = Some (w', st')" for w' st' n
  proof (rule serve_step)
    show "dispatch_need (asked_entry base m p) = Some (base + 2 + (m - 1) * 4 + of_nat p)"
      by (simp add: asked_entry_def)
  qed (use mem [OF Suc.prems] that in simp_all)
  show ?case
  proof (cases "p = 3")
    case True
    then have f: "dispatch_feed (at_entry base m bs p) (Some (bs ! p))
        = Some (at_entry base m bs p, DispatchDone (u32_le bs))" using feed by simp
    have "?serve (Suc (Suc 0)) (at_entry base m bs p) (asked_entry base m p)
        = Some (Served (DispatchDone (u32_le bs)))"
      unfolding step [OF f] by simp
    then show ?thesis ..
  next
    case False
    then have "dispatch_feed (at_entry base m bs p) (Some (bs ! p))
        = Some (at_entry base m bs (p + 1), asked_entry base m (p + 1))" using feed by simp
    note st = step [OF this]
    have "k = 4 - (p + 1)" "p + 1 < 4" using Suc.hyps(2) Suc.prems False by simp_all
    from Suc.hyps(1) [OF this] obtain fuel where
      "?serve fuel (at_entry base m bs (p + 1)) (asked_entry base m (p + 1))
        = Some (Served (DispatchDone (u32_le bs)))" ..
    then show ?thesis using st [of fuel] by (intro exI [of _ "Suc fuel"]) (simp del: serve.simps)
  qed
qed simp

lemma serve_dispatch_header:
  assumes b: "nth_opt blob (unat table) = Some lo" "nth_opt blob (unat (table + 1)) = Some hi"
    and n: "u16_le [lo, hi] = of_nat n" "n < 65536"
    and r: "unat m \<le> n \<Longrightarrow> serve dispatch_feed dispatch_need blob fuel
        (at_entry table m bs 0) (asked_entry table m 0) = Some r"
      "n < unat m \<Longrightarrow> r = Served OutOfRange"
  shows "\<exists>fuel. serve dispatch_feed dispatch_need blob fuel
      (dispatch_walk_new table m) (DNeedByte table) = Some r"
proof -
  let ?serve = "serve dispatch_feed dispatch_need blob" and ?w0 = "dispatch_walk_new table m"
  let ?w1 = "?w0\<lparr>dw_stage := DCountHi lo\<rparr>"
  have c: "(ucast (of_nat n :: u16) :: u32) < m \<longleftrightarrow> n < unat m"
    using n(2) by (simp add: word_less_nat_alt unat_of_nat)
  have "dispatch_feed ?w0 (Some lo) = Some (?w1, DNeedByte (table + 1))"
    by (simp add: dispatch_feed.simps dispatch_walk_new_def)
  then have s0: "?serve (Suc k) ?w0 (DNeedByte table) = ?serve k ?w1 (DNeedByte (table + 1))" for k
    using b(1) by simp
  have "dispatch_feed ?w1 (Some hi) =
      (if n < unat m then Some (?w1, OutOfRange)
       else Some (at_entry table m bs 0, asked_entry table m 0))"
    using c n by (simp add: dispatch_feed.simps dispatch_walk_new_def at_entry_def asked_entry_def
        entry_addr_def replicate_four)
  then have s1: "?serve (Suc k) ?w1 (DNeedByte (table + 1)) =
      (if n < unat m then ?serve k ?w1 OutOfRange
       else ?serve k (at_entry table m bs 0) (asked_entry table m 0))" for k
    using b(2) by simp
  have "?serve (Suc (Suc (if n < unat m then Suc 0 else fuel))) ?w0 (DNeedByte table) = Some r"
    unfolding s0 s1 using r by simp
  then show ?thesis ..
qed

lemma dispatch_lookup_table:
  assumes m: "0 < unat m" and len: "length es < 65536"
    and blob: "blob = pre @ dispatch_table_bytes es @ post"
    and base: "length pre = unat table"
    and fit: "unat table + length (dispatch_table_bytes es) < 2 ^ 32"
  shows "dispatch_lookup blob table m =
     Some (Served (if unat m \<le> length es then DispatchDone (es ! (unat m - 1)) else OutOfRange))"
proof -
  let ?serve = "serve dispatch_feed dispatch_need blob"
  let ?r = "Served (if unat m \<le> length es then DispatchDone (es ! (unat m - 1)) else OutOfRange)"
  obtain lo hi where le: "le_u16 (of_nat (length es)) = [lo, hi]"
      "u16_le [lo, hi] = of_nat (length es)"
    using le_u16_two by blast
  note b = dispatch_table_bytes_nth [OF blob base fit le(1)]
  let ?bs = "le_u32 (es ! (unat m - 1))"
  have "\<exists>fuel. unat m \<le> length es \<longrightarrow>
      ?serve fuel (at_entry table m ?bs 0) (asked_entry table m 0) = Some ?r"
  proof (cases "unat m \<le> length es")
    case True
    have "unat (m - 1) = unat m - 1" using m by (simp add: unat_minus_one unat_gt_0)
    then have "of_nat (unat m - 1) = (of_nat (unat (m - 1)) :: u32)" by simp
    then have k1: "m - 1 = of_nat (unat m - 1)" by simp
    have "table + of_nat (2 + k * 4 + p) = table + 2 + of_nat k * 4 + of_nat p" for k p
      by (simp add: algebra_simps)
    then have "table + of_nat (2 + (unat m - 1) * 4 + p) = table + 2 + (m - 1) * 4 + of_nat p" for p
      unfolding k1 .
    then have "nth_opt blob (unat (table + 2 + (m - 1) * 4 + of_nat p)) = Some (?bs ! p)" if "p < 4" for p
      using b(3) [of "unat m - 1" p] True m that by (metis Suc_diff_1 Suc_le_lessD)
    from serve_dispatch_entry [OF _ this, of 0] True show ?thesis by simp
  qed simp
  then obtain fuel where "unat m \<le> length es \<Longrightarrow>
      ?serve fuel (at_entry table m ?bs 0) (asked_entry table m 0) = Some ?r" by blast
  then obtain k where k: "?serve k (dispatch_walk_new table m) (DNeedByte table) = Some ?r"
    using serve_dispatch_header [OF b(1,2) le(2) len, of m fuel ?bs ?r] by fastforce
  obtain r where "dispatch_lookup blob table m = Some r" using dispatch_lookup_total by blast
  then show ?thesis
    using serve_agree [OF k] by (auto simp: dispatch_lookup_def dispatch_feed_fresh simp del: serve.simps)
qed

end
