(* ===== verification/Frames.thy ===== *)
theory Frames
  imports Walks
begin

text \<open>
  Frame descriptors (\<open>crates/core/src/vm/frame.rs\<close>): the decoded form, the byte-at-a-time
  walk that loads one over the bus, and the encoder \<open>descriptor_bytes\<close>.
\<close>

record frame_entry =
  phys :: u8
  rmap :: "u16 list"
  wmap :: "u16 list"

record frame_descriptor =
  entries :: "frame_entry list"
  exits :: "u32 list"

datatype frame_step = FNeedByte u32 | FrameDone frame_descriptor | FMalformed

datatype field =
    FArity
  | FExitCount
  | FPhys
  | FRmapLen
  | FRmapEntry u16
  | FWmapLen
  | FWmapEntry u16
  | FExit u16

fun field_width :: "field \<Rightarrow> nat" where
  "field_width FArity = 1"
| "field_width FPhys = 1"
| "field_width FExitCount = 2"
| "field_width FRmapLen = 2"
| "field_width (FRmapEntry _) = 2"
| "field_width FWmapLen = 2"
| "field_width (FWmapEntry _) = 2"
| "field_width (FExit _) = 4"

record frame_walk =
  fw_base :: u32
  fw_consumed :: u32
  fw_pending :: "u8 list"
  fw_field :: field
  fw_exit_count :: u16
  fw_arity :: u8
  fw_entries :: "frame_entry list"
  fw_cur :: "frame_entry option"
  fw_exits :: "u32 list"

definition frame_walk_new :: "u32 \<Rightarrow> frame_walk" where
  "frame_walk_new base =
     \<lparr>fw_base = base, fw_consumed = 0, fw_pending = [], fw_field = FArity,
      fw_exit_count = 0, fw_arity = 0, fw_entries = [], fw_cur = None, fw_exits = []\<rparr>"

definition need_next :: "frame_walk \<Rightarrow> frame_step" where
  "need_next w = FNeedByte (fw_base w + fw_consumed w)"

definition frame_done :: "frame_walk \<Rightarrow> frame_walk \<times> frame_step" where
  "frame_done w =
     (w\<lparr>fw_entries := [], fw_exits := []\<rparr>,
      FrameDone \<lparr>entries = fw_entries w, exits = fw_exits w\<rparr>)"

text \<open>
  \<open>finish_entry\<close> panics without an entry under construction; its \<open>Option\<close> result is
  \<open>Some\<close> when the descriptor is complete.
\<close>

definition finish_entry :: "frame_walk \<Rightarrow> (frame_walk \<times> frame_step option) option" where
  "finish_entry w =
     (case fw_cur w of
        None \<Rightarrow> None
      | Some entry \<Rightarrow>
          let w1 = w\<lparr>fw_cur := None, fw_entries := fw_entries w @ [entry]\<rparr> in
          if length (fw_entries w1) < unat (fw_arity w1) then
            Some (w1\<lparr>fw_field := FPhys\<rparr>, None)
          else if fw_exit_count w1 > 0 then
            Some (w1\<lparr>fw_field := FExit (fw_exit_count w1)\<rparr>, None)
          else (case frame_done w1 of (w2, st) \<Rightarrow> Some (w2, Some st)))"

definition finish_or_next :: "frame_walk \<Rightarrow> (frame_walk \<times> frame_step) option" where
  "finish_or_next w =
     (case finish_entry w of
        None \<Rightarrow> None
      | Some (w', Some st) \<Rightarrow> Some (w', st)
      | Some (w', None) \<Rightarrow> Some (w', need_next w'))"

text \<open>A complete field of the descriptor, by the field the walk is in.\<close>

fun frame_field :: "frame_walk \<Rightarrow> u8 list \<Rightarrow> field \<Rightarrow> (frame_walk \<times> frame_step) option" where
  "frame_field w raw FArity =
     (let w1 = w\<lparr>fw_arity := raw ! 0\<rparr> in
      if fw_arity w1 = 0 \<or> fw_arity w1 > 16 then Some (w1, FMalformed)
      else let w2 = w1\<lparr>fw_field := FExitCount\<rparr> in Some (w2, need_next w2))"
| "frame_field w raw FExitCount =
     (let w1 = w\<lparr>fw_exit_count := u16_le raw, fw_field := FPhys\<rparr> in Some (w1, need_next w1))"
| "frame_field w raw FPhys =
     (let w1 = w\<lparr>fw_cur := Some \<lparr>phys = raw ! 0, rmap = [], wmap = []\<rparr>,
                 fw_field := FRmapLen\<rparr> in Some (w1, need_next w1))"
| "frame_field w raw FRmapLen =
     (let len = u16_le raw;
          w1 = w\<lparr>fw_field := (if len = 0 then FWmapLen else FRmapEntry len)\<rparr>
      in Some (w1, need_next w1))"
| "frame_field w raw (FRmapEntry remaining) =
     (case fw_cur w of
        None \<Rightarrow> None
      | Some entry \<Rightarrow>
          let w1 = w\<lparr>fw_cur := Some (entry\<lparr>rmap := rmap entry @ [u16_le raw]\<rparr>),
                     fw_field := (if remaining = 1 then FWmapLen
                                  else FRmapEntry (remaining - 1))\<rparr>
          in Some (w1, need_next w1))"
| "frame_field w raw FWmapLen =
     (let len = u16_le raw in
      if len = 0 then finish_or_next w
      else let w1 = w\<lparr>fw_field := FWmapEntry len\<rparr> in Some (w1, need_next w1))"
| "frame_field w raw (FWmapEntry remaining) =
     (case fw_cur w of
        None \<Rightarrow> None
      | Some entry \<Rightarrow>
          let w1 = w\<lparr>fw_cur := Some (entry\<lparr>wmap := wmap entry @ [u16_le raw]\<rparr>)\<rparr> in
          if remaining = 1 then finish_or_next w1
          else let w2 = w1\<lparr>fw_field := FWmapEntry (remaining - 1)\<rparr> in Some (w2, need_next w2))"
| "frame_field w raw (FExit remaining) =
     (let w1 = w\<lparr>fw_exits := fw_exits w @ [u32_le raw]\<rparr> in
      if remaining = 1 then Some (frame_done w1)
      else let w2 = w1\<lparr>fw_field := FExit (remaining - 1)\<rparr> in Some (w2, need_next w2))"

definition frame_feed :: "frame_walk \<Rightarrow> u8 option \<Rightarrow> (frame_walk \<times> frame_step) option" where
  "frame_feed w byte =
     (case byte of
        None \<Rightarrow> Some (w, if fw_consumed w = 0 then need_next w else FMalformed)
      | Some b \<Rightarrow>
          let w1 = w\<lparr>fw_pending := fw_pending w @ [b], fw_consumed := fw_consumed w + 1\<rparr> in
          if length (fw_pending w1) < field_width (fw_field w1) then Some (w1, need_next w1)
          else frame_field (w1\<lparr>fw_pending := []\<rparr>) (fw_pending w1) (fw_field w1))"

section \<open>The walk keeps the contract\<close>

fun frame_need :: "frame_step \<Rightarrow> u32 option" where
  "frame_need (FNeedByte a) = Some a"
| "frame_need _ = None"

definition left_entries :: "frame_walk \<Rightarrow> nat" where
  "left_entries w = unat (fw_arity w) - length (fw_entries w)"

text \<open>Between the arity byte and the exit vector an entry is outstanding.\<close>

definition in_entries :: "frame_walk \<Rightarrow> bool" where
  "in_entries w \<longleftrightarrow> unat (fw_arity w) \<le> 16 \<and> length (fw_entries w) < unat (fw_arity w)"

fun field_wf :: "frame_walk \<Rightarrow> field \<Rightarrow> bool" where
  "field_wf w FArity \<longleftrightarrow> fw_entries w = []"
| "field_wf w FExitCount \<longleftrightarrow> in_entries w"
| "field_wf w FPhys \<longleftrightarrow> in_entries w"
| "field_wf w FRmapLen \<longleftrightarrow> in_entries w \<and> fw_cur w \<noteq> None"
| "field_wf w (FRmapEntry r) \<longleftrightarrow> in_entries w \<and> fw_cur w \<noteq> None \<and> 0 < unat r"
| "field_wf w FWmapLen \<longleftrightarrow> in_entries w \<and> fw_cur w \<noteq> None"
| "field_wf w (FWmapEntry r) \<longleftrightarrow> in_entries w \<and> fw_cur w \<noteq> None \<and> 0 < unat r"
| "field_wf w (FExit r) \<longleftrightarrow>
     0 < length (fw_entries w) \<and> length (fw_entries w) \<le> 16 \<and> 0 < unat r"

definition frame_wf :: "frame_walk \<Rightarrow> bool" where
  "frame_wf w \<longleftrightarrow> field_wf w (fw_field w) \<and> length (fw_pending w) < field_width (fw_field w)"

text \<open>An upper bound of the bytes a walk still asks for, field by field.\<close>

fun field_rank :: "frame_walk \<Rightarrow> field \<Rightarrow> nat" where
  "field_rank w FArity = 16 * 262152 + 262152"
| "field_rank w FExitCount = 16 * 262152 + 262148"
| "field_rank w FPhys = (left_entries w - 1) * 262152 + unat (fw_exit_count w) * 4 + 262150"
| "field_rank w FRmapLen = (left_entries w - 1) * 262152 + unat (fw_exit_count w) * 4 + 262148"
| "field_rank w (FRmapEntry r) =
     (left_entries w - 1) * 262152 + unat (fw_exit_count w) * 4 + 131074 + 2 * unat r"
| "field_rank w FWmapLen = (left_entries w - 1) * 262152 + unat (fw_exit_count w) * 4 + 131074"
| "field_rank w (FWmapEntry r) =
     (left_entries w - 1) * 262152 + unat (fw_exit_count w) * 4 + 2 * unat r"
| "field_rank w (FExit r) = 4 * unat r"

definition frame_rank :: "frame_walk \<Rightarrow> nat" where
  "frame_rank w = field_rank w (fw_field w) - length (fw_pending w)"

text \<open>A finished descriptor has between one and sixteen entries.\<close>

definition descriptor_ok :: "frame_descriptor \<Rightarrow> bool" where
  "descriptor_ok d \<longleftrightarrow> 0 < length (entries d) \<and> length (entries d) \<le> 16"

text \<open>What one feed guarantees: it does not panic; if the walk asks on, it is well-formed and
  its rank is below a bound; if it finishes, the descriptor has a legal arity.\<close>

definition feed_good :: "nat \<Rightarrow> (frame_walk \<times> frame_step) option \<Rightarrow> bool" where
  "feed_good n res \<longleftrightarrow>
     (case res of None \<Rightarrow> False
      | Some (w', FNeedByte a) \<Rightarrow> frame_wf w' \<and> frame_rank w' < n
      | Some (w', FrameDone d) \<Rightarrow> descriptor_ok d
      | Some (w', FMalformed) \<Rightarrow> True)"

lemma feed_good_need:
  "frame_wf w \<Longrightarrow> frame_rank w < n \<Longrightarrow> feed_good n (Some (w, need_next w))"
  by (simp add: feed_good_def need_next_def)

lemma unat_minus_one_u16: "0 < unat (r :: u16) \<Longrightarrow> unat (r - 1) = unat r - 1"
  by (simp add: unat_minus_one unat_gt_0)

lemma unat_ne_one_u16: "0 < unat (r :: u16) \<Longrightarrow> r \<noteq> 1 \<Longrightarrow> 1 < unat r"
  using word_unat_eq_iff [of r 1] by simp

lemma finish_or_next_good:
  assumes "in_entries w" and "fw_cur w \<noteq> None" and "fw_pending w = []"
    and n: "(left_entries w - 1) * 262152 + unat (fw_exit_count w) * 4 < n"
  shows "feed_good n (finish_or_next w)"
proof -
  obtain e where e: "fw_cur w = Some e" using assms(2) by blast
  consider (more) "Suc (length (fw_entries w)) < unat (fw_arity w)"
    | (exits) "Suc (length (fw_entries w)) = unat (fw_arity w)" "0 < fw_exit_count w"
    | (fin) "Suc (length (fw_entries w)) = unat (fw_arity w)" "fw_exit_count w = 0"
    using assms(1) unfolding in_entries_def word_gt_0 by (metis Suc_lessI)
  then show ?thesis
  proof cases
    case more
    have "left_entries w - 1 = Suc (unat (fw_arity w) - Suc (Suc (length (fw_entries w))))"
      using more by (simp add: left_entries_def)
    with n have "(unat (fw_arity w) - Suc (Suc (length (fw_entries w)))) * 262152
        + unat (fw_exit_count w) * 4 + 262150 < n"
      by simp
    with more assms e show ?thesis
      by (auto simp: finish_or_next_def finish_entry_def Let_def in_entries_def left_entries_def
          frame_wf_def frame_rank_def intro!: feed_good_need)
  next
    case exits
    then have "0 < unat (fw_exit_count w)" by (simp add: unat_gt_0 word_gt_0)
    with exits n assms e show ?thesis
      by (auto simp: finish_or_next_def finish_entry_def Let_def in_entries_def left_entries_def
          frame_wf_def frame_rank_def intro!: feed_good_need)
  next
    case fin
    then show ?thesis using assms e
      by (auto simp: finish_or_next_def finish_entry_def Let_def frame_done_def feed_good_def
          in_entries_def descriptor_ok_def)
  qed
qed

lemma frame_field_good:
  assumes wf: "field_wf w f" and p: "fw_pending w = []" and len: "length raw = field_width f"
    and n: "field_rank w f \<le> n + length raw - 1" "0 < n"
  shows "feed_good n (frame_field w raw f)"
proof (cases f)
  case FArity
  have "unat (raw ! 0) \<le> 16" if "\<not> raw ! 0 > 16" using that by (simp add: word_less_nat_alt)
  with FArity wf p n len show ?thesis
    by (auto simp: Let_def in_entries_def frame_wf_def frame_rank_def feed_good_def unat_gt_0
        need_next_def)
next
  case FExitCount
  have ec: "unat (u16_le raw) * 4 \<le> 262140" using u16_bound [of "u16_le raw"] by linarith
  have "left_entries w - 1 \<le> 15" using wf FExitCount by (auto simp: in_entries_def left_entries_def)
  then have "(left_entries w - 1) * 262152 \<le> 15 * 262152" by (rule mult_le_mono1)
  with FExitCount wf p n ec len show ?thesis
    by (auto simp: Let_def in_entries_def left_entries_def frame_wf_def frame_rank_def
        intro!: feed_good_need)
next
  case FPhys
  with wf p n len show ?thesis
    by (auto simp: Let_def in_entries_def left_entries_def frame_wf_def frame_rank_def
        intro!: feed_good_need)
next
  case FRmapLen
  have "2 * unat (u16_le raw) \<le> 131070" using u16_bound [of "u16_le raw"] by linarith
  with FRmapLen wf p n len show ?thesis
    by (auto simp: Let_def in_entries_def left_entries_def frame_wf_def frame_rank_def unat_gt_0
        intro!: feed_good_need)
next
  case (FRmapEntry r)
  then have "0 < unat r" using wf by simp
  note r = unat_minus_one_u16 [OF this] unat_ne_one_u16 [OF this] this
  from FRmapEntry wf p n len r show ?thesis
    by (auto simp: Let_def in_entries_def left_entries_def frame_wf_def frame_rank_def
        intro!: feed_good_need split: option.split)
next
  case FWmapLen
  have u: "2 * unat (u16_le raw) \<le> 131070" using u16_bound [of "u16_le raw"] by linarith
  show ?thesis
  proof (cases "u16_le raw = 0")
    case True
    with FWmapLen wf p n len show ?thesis by (auto intro!: finish_or_next_good)
  next
    case False
    with u FWmapLen wf p n len show ?thesis
      by (auto simp: Let_def in_entries_def left_entries_def frame_wf_def frame_rank_def unat_gt_0
          intro!: feed_good_need)
  qed
next
  case (FWmapEntry r)
  then have "0 < unat r" using wf by simp
  note r = unat_minus_one_u16 [OF this] unat_ne_one_u16 [OF this] this
  obtain e where e: "fw_cur w = Some e" using FWmapEntry wf by auto
  show ?thesis
  proof (cases "r = 1")
    case True
    with FWmapEntry wf p n len e show ?thesis
      by (auto simp: Let_def in_entries_def left_entries_def intro!: finish_or_next_good)
  next
    case False
    with FWmapEntry wf p n len e r show ?thesis
      by (auto simp: Let_def in_entries_def left_entries_def frame_wf_def frame_rank_def
          intro!: feed_good_need)
  qed
next
  case (FExit r)
  then have "0 < unat r" using wf by simp
  note r = unat_minus_one_u16 [OF this] unat_ne_one_u16 [OF this] this
  show ?thesis
  proof (cases "r = 1")
    case True
    with FExit wf show ?thesis
      by (auto simp: Let_def frame_done_def feed_good_def descriptor_ok_def)
  next
    case False
    with FExit wf p n len r show ?thesis
      by (auto simp: Let_def frame_wf_def frame_rank_def intro!: feed_good_need)
  qed
qed

lemma field_rank_pos: "field_wf w f \<Longrightarrow> field_width f \<le> field_rank w f"
  by (cases f) auto

lemma field_wf_cong:
  "field_wf (w\<lparr>fw_pending := p, fw_consumed := k\<rparr>) f = field_wf w f"
  "field_rank (w\<lparr>fw_pending := p, fw_consumed := k\<rparr>) f = field_rank w f"
  "field_wf (w\<lparr>fw_consumed := k, fw_pending := p\<rparr>) f = field_wf w f"
  "field_rank (w\<lparr>fw_consumed := k, fw_pending := p\<rparr>) f = field_rank w f"
  by (cases f; simp add: in_entries_def left_entries_def)+

lemma frame_feed_good:
  assumes wf: "frame_wf w"
  shows "feed_good (frame_rank w) (frame_feed w (Some b))"
proof -
  let ?f = "fw_field w" and ?p = "fw_pending w"
  have fwf: "field_wf w ?f" and lt: "length ?p < field_width ?f" using wf by (auto simp: frame_wf_def)
  note pos = field_rank_pos [OF fwf]
  let ?w1 = "w\<lparr>fw_pending := ?p @ [b], fw_consumed := fw_consumed w + 1\<rparr>"
  show ?thesis
  proof (cases "length (?p @ [b]) < field_width ?f")
    case True
    then have "frame_wf ?w1" and "frame_rank ?w1 < frame_rank w"
      using fwf pos by (auto simp: frame_wf_def frame_rank_def field_wf_cong)
    with True show ?thesis by (auto simp: frame_feed_def Let_def intro: feed_good_need)
  next
    case False
    then have len: "length (?p @ [b]) = field_width ?f" using lt by simp
    let ?w2 = "w\<lparr>fw_consumed := fw_consumed w + 1, fw_pending := []\<rparr>"
    have "feed_good (frame_rank w) (frame_field ?w2 (?p @ [b]) ?f)"
      by (rule frame_field_good)
        (use fwf len pos lt in \<open>auto simp: field_wf_cong frame_rank_def\<close>)
    then show ?thesis using False by (simp add: frame_feed_def Let_def)
  qed
qed

interpretation fw: byte_walk frame_feed frame_need frame_wf frame_rank
proof unfold_locales
  fix w b w' st a
  assume wf: "frame_wf w"
  note good = frame_feed_good [OF wf, of b]
  show "\<exists>w' st. frame_feed w (Some b) = Some (w', st)"
    using good by (auto simp: feed_good_def split: option.splits)
  assume "frame_feed w (Some b) = Some (w', st)" and "frame_need st = Some a"
  with good show "frame_wf w'" and "frame_rank w' < frame_rank w"
    by (auto simp: feed_good_def split: frame_step.splits)
qed

lemma frame_feed_done_ok:
  "frame_wf w \<Longrightarrow> frame_feed w (Some b) = Some (w', FrameDone d) \<Longrightarrow> descriptor_ok d"
  using frame_feed_good [of w b] by (simp add: feed_good_def)

lemma frame_wf_new [simp]: "frame_wf (frame_walk_new base)"
  by (simp add: frame_wf_def frame_walk_new_def)

lemma frame_feed_fresh:
  "frame_feed (frame_walk_new base) None = Some (frame_walk_new base, FNeedByte base)"
  by (simp add: frame_feed_def need_next_def frame_walk_new_def)

section \<open>The encoder\<close>

definition map_bytes :: "u16 list \<Rightarrow> u8 list" where
  "map_bytes ms = le_u16 (of_nat (length ms)) @ concat (map le_u16 ms)"

definition entry_bytes :: "frame_entry \<Rightarrow> u8 list" where
  "entry_bytes e = phys e # map_bytes (rmap e) @ map_bytes (wmap e)"

definition descriptor_bytes :: "frame_entry list \<Rightarrow> u32 list \<Rightarrow> u8 list" where
  "descriptor_bytes es xs =
     of_nat (length es) # le_u16 (of_nat (length xs)) @ concat (map entry_bytes es)
       @ concat (map le_u32 xs)"


section \<open>The loader reads back what the encoder wrote\<close>

text \<open>The automaton run over a list of bytes; a byte after the end is refused.\<close>

fun feed_bytes :: "frame_walk \<Rightarrow> u8 list \<Rightarrow> (frame_walk \<times> frame_step) option" where
  "feed_bytes w [] = Some (w, need_next w)"
| "feed_bytes w (b # bs) =
     (case frame_feed w (Some b) of
        Some (w', FNeedByte a) \<Rightarrow> feed_bytes w' bs
      | Some (w', st) \<Rightarrow> if bs = [] then Some (w', st) else None
      | None \<Rightarrow> None)"

lemma feed_bytes_append:
  "feed_bytes w xs = Some (w', FNeedByte a) \<Longrightarrow> feed_bytes w (xs @ ys) = feed_bytes w' ys"
  by (induction xs arbitrary: w) (auto simp: need_next_def split: option.splits prod.splits frame_step.splits if_splits)

lemma finish_or_next_keeps:
  assumes "finish_or_next w = Some (w', FNeedByte a)"
  shows "fw_base w' = fw_base w \<and> fw_consumed w' = fw_consumed w \<and> a = fw_base w + fw_consumed w"
  using assms
  by (auto simp: finish_or_next_def finish_entry_def Let_def need_next_def frame_done_def
      split: option.splits if_splits)

lemma frame_field_keeps:
  "frame_field w raw f = Some (w', FNeedByte a) \<Longrightarrow>
     fw_base w' = fw_base w \<and> fw_consumed w' = fw_consumed w \<and> a = fw_base w + fw_consumed w"
  by (cases f)
    (auto simp: Let_def need_next_def frame_done_def dest: finish_or_next_keeps
      split: option.splits if_splits)

lemma frame_feed_keeps:
  "frame_feed w (Some b) = Some (w', FNeedByte a) \<Longrightarrow>
     fw_base w' = fw_base w \<and> fw_consumed w' = fw_consumed w + 1 \<and>
     a = fw_base w + fw_consumed w + 1"
  by (auto simp: frame_feed_def Let_def need_next_def add.assoc dest!: frame_field_keeps
      split: if_splits)

text \<open>Serving the walk from memory is feeding it the bytes that lie there.\<close>

lemma serve_feed_bytes:
  assumes "feed_bytes w bs = Some (w', st)" and "frame_need st = None"
    and mem: "\<And>i. i < length bs \<Longrightarrow>
      nth_opt blob (unat (fw_base w + fw_consumed w + of_nat i)) = Some (bs ! i)"
  shows "\<exists>fuel. serve frame_feed frame_need blob fuel w (need_next w) = Some (Served st)"
  using assms
proof (induction bs arbitrary: w)
  case Nil
  then show ?case by (auto simp: need_next_def)
next
  case (Cons b bs)
  let ?serve = "serve frame_feed frame_need blob"
  have b: "nth_opt blob (unat (fw_base w + fw_consumed w)) = Some b" using Cons.prems(3) [of 0] by simp
  obtain w1 st1 where f: "frame_feed w (Some b) = Some (w1, st1)"
    using Cons.prems(1) by (auto split: option.splits)
  have step: "?serve (Suc n) w (need_next w) = ?serve n w1 st1" for n
    using b f by (simp add: need_next_def)
  show ?case
  proof (cases st1)
    case (FNeedByte a)
    note k = frame_feed_keeps [OF f [unfolded FNeedByte]]
    have "feed_bytes w1 bs = Some (w', st)" using Cons.prems(1) f FNeedByte by simp
    moreover have "nth_opt blob (unat (fw_base w1 + fw_consumed w1 + of_nat i)) = Some (bs ! i)"
      if "i < length bs" for i
      using Cons.prems(3) [of "Suc i"] that k by (simp add: algebra_simps)
    ultimately obtain fuel where "?serve fuel w1 (need_next w1) = Some (Served st)"
      using Cons.IH Cons.prems(2) by blast
    moreover have "need_next w1 = st1" using k FNeedByte by (simp add: need_next_def algebra_simps)
    ultimately have "?serve (Suc fuel) w (need_next w) = Some (Served st)" unfolding step by simp
    then show ?thesis ..
  next
    case (FrameDone d)
    then have "st = st1" using Cons.prems(1) f by (auto split: if_splits)
    then have "?serve (Suc (Suc 0)) w (need_next w) = Some (Served st)"
      unfolding step using FrameDone by simp
    then show ?thesis ..
  next
    case FMalformed
    then have "st = st1" using Cons.prems(1) f by (auto split: if_splits)
    then have "?serve (Suc (Suc 0)) w (need_next w) = Some (Served st)"
      unfolding step using FMalformed by simp
    then show ?thesis ..
  qed
qed

text \<open>A whole field at once.\<close>

lemma feed_bytes_field:
  assumes "fw_pending w = []" and "length raw = field_width (fw_field w)"
  shows "feed_bytes w raw =
    frame_field (w\<lparr>fw_consumed := fw_consumed w + of_nat (length raw), fw_pending := []\<rparr>) raw (fw_field w)"
proof -
  let ?w = "\<lambda>k. w\<lparr>fw_consumed := fw_consumed w + k, fw_pending := []\<rparr>"
  have need: "(case frame_field v raw' f of None \<Rightarrow> None
      | Some (w', FNeedByte a) \<Rightarrow> feed_bytes w' []
      | Some (w', FrameDone d) \<Rightarrow> if ([] :: u8 list) = [] then Some (w', FrameDone d) else None
      | Some (w', FMalformed) \<Rightarrow> if ([] :: u8 list) = [] then Some (w', FMalformed) else None)
      = frame_field v raw' f" for v raw' f
  proof (cases "frame_field v raw' f")
    case (Some p)
    obtain w' st where p: "p = (w', st)" by fastforce
    show ?thesis
    proof (cases st)
      case (FNeedByte a)
      with Some p have "frame_field v raw' f = Some (w', FNeedByte a)" by simp
      from frame_field_keeps [OF this] this show ?thesis by (simp add: need_next_def)
    qed (use Some p in simp_all)
  qed simp
  consider "field_width (fw_field w) = 1" | "field_width (fw_field w) = 2"
    | "field_width (fw_field w) = 4"
    by (cases "fw_field w") auto
  then show ?thesis
  proof cases
    case 1
    then obtain a where raw: "raw = [a]" using assms(2) by (auto simp: length_Suc_conv)
    show ?thesis using 1 assms(1) need [of "?w 1" raw "fw_field w"]
      by (simp add: raw frame_feed_def Let_def)
  next
    case 2
    then obtain a b where raw: "raw = [a, b]"
      using assms(2) by (auto simp: length_Suc_conv numeral_eq_Suc)
    show ?thesis using 2 assms(1) need [of "?w 2" raw "fw_field w"]
      by (simp add: raw frame_feed_def Let_def need_next_def add.assoc)
  next
    case 3
    then obtain a b c d where raw: "raw = [a, b, c, d]"
      using assms(2) by (auto simp: length_Suc_conv numeral_eq_Suc)
    show ?thesis using 3 assms(1) need [of "?w 4" raw "fw_field w"]
      by (simp add: raw frame_feed_def Let_def need_next_def add.assoc)
  qed
qed


text \<open>The walk between two fields.\<close>

definition fstate ::
  "u32 \<Rightarrow> u32 \<Rightarrow> field \<Rightarrow> u16 \<Rightarrow> u8 \<Rightarrow> frame_entry list \<Rightarrow> frame_entry option \<Rightarrow> u32 list \<Rightarrow> frame_walk" where
  "fstate base k f xc ar es cur xs =
     \<lparr>fw_base = base, fw_consumed = k, fw_pending = [], fw_field = f, fw_exit_count = xc,
      fw_arity = ar, fw_entries = es, fw_cur = cur, fw_exits = xs\<rparr>"

lemma fstate_field:
  "length raw = field_width f \<Longrightarrow>
     feed_bytes (fstate base k f xc ar es cur xs) raw =
       frame_field (fstate base (k + of_nat (length raw)) f xc ar es cur xs) raw f"
  using feed_bytes_field [of "fstate base k f xc ar es cur xs" raw] by (simp add: fstate_def)

lemma fstate_field_then:
  assumes "length raw = field_width f"
    and "frame_field (fstate base (k + of_nat (length raw)) f xc ar es cur xs) raw f
      = Some (w', need_next w')"
  shows "feed_bytes (fstate base k f xc ar es cur xs) (raw @ rest) = feed_bytes w' rest"
  using feed_bytes_append [of _ raw w' _ rest] fstate_field [OF assms(1)] assms(2)
  by (simp add: need_next_def)

lemma word_of_nat_suc_minus [simp]: "(of_nat (Suc n) :: u16) - 1 = of_nat n"
  by simp

lemma of_nat_eq_0_u16: "n < 65536 \<Longrightarrow> (of_nat n :: u16) = 0 \<longleftrightarrow> n = 0"
  using of_nat_eq_u16 [of n 0] by simp

lemma of_nat_suc_eq_1_u16: "Suc n < 65536 \<Longrightarrow> (of_nat (Suc n) :: u16) = 1 \<longleftrightarrow> n = 0"
  using of_nat_eq_0_u16 [of n] by simp

lemma feed_rmap_entries:
  "ms \<noteq> [] \<Longrightarrow> length ms < 65536 \<Longrightarrow>
     \<exists>k'. feed_bytes (fstate base k (FRmapEntry (of_nat (length ms))) xc ar es (Some e) xs)
            (concat (map le_u16 ms) @ rest) =
          feed_bytes (fstate base k' FWmapLen xc ar es (Some (e\<lparr>rmap := rmap e @ ms\<rparr>)) xs) rest"
proof (induction ms arbitrary: k e)
  case (Cons m ms)
  let ?f = "if ms = [] then FWmapLen else FRmapEntry (of_nat (length ms))"
  let ?w = "fstate base (k + 2) ?f xc ar es (Some (e\<lparr>rmap := rmap e @ [m]\<rparr>)) xs"
  have "frame_field (fstate base (k + 2) (FRmapEntry (of_nat (length (m # ms)))) xc ar es (Some e) xs)
      (le_u16 m) (FRmapEntry (of_nat (length (m # ms)))) = Some (?w, need_next ?w)"
    using of_nat_suc_eq_1_u16 [of "length ms"] Cons.prems(2) by (simp add: fstate_def Let_def)
  then have st: "feed_bytes (fstate base k (FRmapEntry (of_nat (length (m # ms)))) xc ar es (Some e) xs)
      (concat (map le_u16 (m # ms)) @ rest) = feed_bytes ?w (concat (map le_u16 ms) @ rest)"
    by (simp add: fstate_field_then)
  show ?case
  proof (cases "ms = []")
    case True
    show ?thesis unfolding st using True by auto
  next
    case False
    with Cons.IH [of "k + 2" "e\<lparr>rmap := rmap e @ [m]\<rparr>"] Cons.prems(2) show ?thesis
      unfolding st by simp
  qed
qed simp

lemma feed_rmap:
  assumes "length ms < 65536"
  shows "\<exists>k'. feed_bytes (fstate base k FRmapLen xc ar es (Some e) xs) (map_bytes ms @ rest) =
    feed_bytes (fstate base k' FWmapLen xc ar es (Some (e\<lparr>rmap := rmap e @ ms\<rparr>)) xs) rest"
proof -
  let ?f = "if ms = [] then FWmapLen else FRmapEntry (of_nat (length ms))"
  let ?w = "fstate base (k + 2) ?f xc ar es (Some e) xs"
  have "frame_field (fstate base (k + 2) FRmapLen xc ar es (Some e) xs)
      (le_u16 (of_nat (length ms))) FRmapLen = Some (?w, need_next ?w)"
    using of_nat_eq_0_u16 [OF assms] by (simp add: fstate_def Let_def)
  then have st: "feed_bytes (fstate base k FRmapLen xc ar es (Some e) xs) (map_bytes ms @ rest) =
      feed_bytes ?w (concat (map le_u16 ms) @ rest)"
    by (simp add: map_bytes_def fstate_field_then)
  show ?thesis
  proof (cases "ms = []")
    case True
    then show ?thesis unfolding st by auto
  next
    case False
    then show ?thesis unfolding st using feed_rmap_entries [OF False assms] by simp
  qed
qed

text \<open>The write map ends an entry, so its last field finishes the entry.\<close>

lemma feed_wmap_entries:
  "ms \<noteq> [] \<Longrightarrow> length ms < 65536 \<Longrightarrow>
     \<exists>k' f'. feed_bytes (fstate base k (FWmapEntry (of_nat (length ms))) xc ar es (Some e) xs)
            (concat (map le_u16 ms)) =
          finish_or_next (fstate base k' f' xc ar es (Some (e\<lparr>wmap := wmap e @ ms\<rparr>)) xs)"
proof (induction ms arbitrary: k e)
  case (Cons m ms)
  let ?f = "FWmapEntry (of_nat (length (m # ms)))" and ?e = "e\<lparr>wmap := wmap e @ [m]\<rparr>"
  show ?case
  proof (cases "ms = []")
    case True
    have "frame_field (fstate base (k + 2) ?f xc ar es (Some e) xs) (le_u16 m) ?f
        = finish_or_next (fstate base (k + 2) ?f xc ar es (Some ?e) xs)"
      using True by (simp add: fstate_def Let_def)
    then show ?thesis using True by (auto simp: fstate_field)
  next
    case False
    let ?w = "fstate base (k + 2) (FWmapEntry (of_nat (length ms))) xc ar es (Some ?e) xs"
    have "frame_field (fstate base (k + 2) ?f xc ar es (Some e) xs) (le_u16 m) ?f
        = Some (?w, need_next ?w)"
      using of_nat_suc_eq_1_u16 [of "length ms"] Cons.prems(2) False by (simp add: fstate_def Let_def)
    then have "feed_bytes (fstate base k ?f xc ar es (Some e) xs) (concat (map le_u16 (m # ms)))
        = feed_bytes ?w (concat (map le_u16 ms))"
      by (simp add: fstate_field_then)
    with Cons.IH [of "k + 2" ?e] Cons.prems(2) False show ?thesis by simp
  qed
qed simp

lemma feed_wmap:
  assumes "length ms < 65536"
  shows "\<exists>k' f'. feed_bytes (fstate base k FWmapLen xc ar es (Some e) xs) (map_bytes ms) =
    finish_or_next (fstate base k' f' xc ar es (Some (e\<lparr>wmap := wmap e @ ms\<rparr>)) xs)"
proof (cases "ms = []")
  case True
  then have "feed_bytes (fstate base k FWmapLen xc ar es (Some e) xs) (map_bytes ms)
      = finish_or_next (fstate base (k + 2) FWmapLen xc ar es (Some e) xs)"
    by (simp add: map_bytes_def fstate_field Let_def)
  then show ?thesis using True by auto
next
  case False
  let ?w = "fstate base (k + 2) (FWmapEntry (of_nat (length ms))) xc ar es (Some e) xs"
  have "frame_field (fstate base (k + 2) FWmapLen xc ar es (Some e) xs)
      (le_u16 (of_nat (length ms))) FWmapLen = Some (?w, need_next ?w)"
    using of_nat_eq_0_u16 [OF assms] False by (simp add: fstate_def Let_def)
  then have "feed_bytes (fstate base k FWmapLen xc ar es (Some e) xs) (map_bytes ms) =
      feed_bytes ?w (concat (map le_u16 ms))"
    by (simp add: map_bytes_def fstate_field_then)
  with feed_wmap_entries [OF False assms] show ?thesis by simp
qed

definition entry_fits :: "frame_entry \<Rightarrow> bool" where
  "entry_fits e \<longleftrightarrow> length (rmap e) < 65536 \<and> length (wmap e) < 65536"

lemma feed_entry:
  assumes "entry_fits e"
  shows "\<exists>k' f'. feed_bytes (fstate base k FPhys xc ar es cur xs) (entry_bytes e) =
    finish_or_next (fstate base k' f' xc ar es (Some e) xs)"
proof -
  let ?e = "\<lparr>phys = phys e, rmap = [], wmap = []\<rparr>"
  let ?w = "fstate base (k + 1) FRmapLen xc ar es (Some ?e) xs"
  have "frame_field (fstate base (k + 1) FPhys xc ar es cur xs) [phys e] FPhys = Some (?w, need_next ?w)"
    by (simp add: fstate_def Let_def)
  then have "feed_bytes (fstate base k FPhys xc ar es cur xs) (entry_bytes e)
      = feed_bytes ?w (map_bytes (rmap e) @ map_bytes (wmap e))"
    using fstate_field_then [of "[phys e]"] by (simp add: entry_bytes_def)
  have same: "\<lparr>phys = phys e, rmap = rmap e, wmap = wmap e\<rparr> = e" by simp
  note \<open>feed_bytes (fstate base k FPhys xc ar es cur xs) (entry_bytes e) = _\<close>
  also obtain k1 where "feed_bytes ?w (map_bytes (rmap e) @ map_bytes (wmap e)) =
      feed_bytes (fstate base k1 FWmapLen xc ar es (Some (?e\<lparr>rmap := rmap e\<rparr>)) xs) (map_bytes (wmap e))"
    using feed_rmap [of "rmap e" base "k + 1" xc ar es ?e xs] assms by (auto simp: entry_fits_def)
  also obtain k2 f where "feed_bytes (fstate base k1 FWmapLen xc ar es (Some (?e\<lparr>rmap := rmap e\<rparr>)) xs)
      (map_bytes (wmap e)) = finish_or_next (fstate base k2 f xc ar es (Some e) xs)"
    using feed_wmap [of "wmap e" base k1 xc ar es "?e\<lparr>rmap := rmap e\<rparr>" xs] assms
    by (auto simp: entry_fits_def same)
  finally show ?thesis by blast
qed

text \<open>All entries: with exits to follow the walk stands before them, otherwise it is done.\<close>

lemma feed_entry_more:
  assumes "entry_fits e" and "Suc (length es) < unat ar"
  shows "\<exists>k'. feed_bytes (fstate base k FPhys xc ar es cur xs) (entry_bytes e @ rest) =
    feed_bytes (fstate base k' FPhys xc ar (es @ [e]) None xs) rest"
proof -
  obtain k1 f where "feed_bytes (fstate base k FPhys xc ar es cur xs) (entry_bytes e) =
      finish_or_next (fstate base k1 f xc ar es (Some e) xs)"
    using feed_entry [OF assms(1)] by blast
  moreover have "finish_or_next (fstate base k1 f xc ar es (Some e) xs) =
      Some (fstate base k1 FPhys xc ar (es @ [e]) None xs,
        need_next (fstate base k1 FPhys xc ar (es @ [e]) None xs))"
    using assms(2) by (simp add: finish_or_next_def finish_entry_def fstate_def Let_def)
  ultimately show ?thesis by (metis feed_bytes_append need_next_def)
qed

lemma feed_entry_last_exits:
  assumes "entry_fits e" and "Suc (length es) = unat ar" and "0 < xc"
  shows "\<exists>k'. feed_bytes (fstate base k FPhys xc ar es cur xs) (entry_bytes e @ rest) =
    feed_bytes (fstate base k' (FExit xc) xc ar (es @ [e]) None xs) rest"
proof -
  obtain k1 f where "feed_bytes (fstate base k FPhys xc ar es cur xs) (entry_bytes e) =
      finish_or_next (fstate base k1 f xc ar es (Some e) xs)"
    using feed_entry [OF assms(1)] by blast
  moreover have "finish_or_next (fstate base k1 f xc ar es (Some e) xs) =
      Some (fstate base k1 (FExit xc) xc ar (es @ [e]) None xs,
        need_next (fstate base k1 (FExit xc) xc ar (es @ [e]) None xs))"
    using assms(2,3) by (simp add: finish_or_next_def finish_entry_def fstate_def Let_def)
  ultimately show ?thesis by (metis feed_bytes_append need_next_def)
qed

lemma feed_entry_last_done:
  assumes "entry_fits e" and "Suc (length es) = unat ar"
  shows "\<exists>w'. feed_bytes (fstate base k FPhys 0 ar es cur xs) (entry_bytes e) =
    Some (w', FrameDone \<lparr>entries = es @ [e], exits = xs\<rparr>)"
proof -
  obtain k1 f where "feed_bytes (fstate base k FPhys 0 ar es cur xs) (entry_bytes e) =
      finish_or_next (fstate base k1 f 0 ar es (Some e) xs)"
    using feed_entry [OF assms(1)] by blast
  then show ?thesis
    using assms(2)
    by (simp add: finish_or_next_def finish_entry_def fstate_def Let_def frame_done_def)
qed

lemma feed_entries_exits:
  "es \<noteq> [] \<Longrightarrow> \<forall>e \<in> set es. entry_fits e \<Longrightarrow> length es0 + length es = unat ar \<Longrightarrow> 0 < xc \<Longrightarrow>
    \<exists>k'. feed_bytes (fstate base k FPhys xc ar es0 cur xs) (concat (map entry_bytes es) @ rest) =
      feed_bytes (fstate base k' (FExit xc) xc ar (es0 @ es) None xs) rest"
proof (induction es arbitrary: k es0 cur)
  case (Cons e es)
  show ?case
  proof (cases "es = []")
    case True
    with Cons.prems feed_entry_last_exits [of e es0 ar xc base k cur xs rest] show ?thesis by simp
  next
    case False
    then have "Suc (length es0) < unat ar" using Cons.prems(3) by (cases es) auto
    then obtain k1 where "feed_bytes (fstate base k FPhys xc ar es0 cur xs)
        (entry_bytes e @ concat (map entry_bytes es) @ rest) =
        feed_bytes (fstate base k1 FPhys xc ar (es0 @ [e]) None xs) (concat (map entry_bytes es) @ rest)"
      using feed_entry_more Cons.prems(2) by (metis list.set_intros(1))
    with Cons.IH [OF False, of "es0 @ [e]" k1 None] Cons.prems show ?thesis by auto
  qed
qed simp

lemma feed_entries_done:
  "es \<noteq> [] \<Longrightarrow> \<forall>e \<in> set es. entry_fits e \<Longrightarrow> length es0 + length es = unat ar \<Longrightarrow>
    \<exists>w'. feed_bytes (fstate base k FPhys 0 ar es0 cur xs) (concat (map entry_bytes es)) =
      Some (w', FrameDone \<lparr>entries = es0 @ es, exits = xs\<rparr>)"
proof (induction es arbitrary: k es0 cur)
  case (Cons e es)
  show ?case
  proof (cases "es = []")
    case True
    with Cons.prems feed_entry_last_done [of e es0 ar base k cur xs] show ?thesis by simp
  next
    case False
    then have "Suc (length es0) < unat ar" using Cons.prems(3) by (cases es) auto
    then obtain k1 where "feed_bytes (fstate base k FPhys 0 ar es0 cur xs)
        (entry_bytes e @ concat (map entry_bytes es)) =
        feed_bytes (fstate base k1 FPhys 0 ar (es0 @ [e]) None xs) (concat (map entry_bytes es))"
      using feed_entry_more Cons.prems(2) by (metis list.set_intros(1))
    with Cons.IH [OF False, of "es0 @ [e]" k1 None] Cons.prems show ?thesis by auto
  qed
qed simp

lemma feed_exits:
  "xs \<noteq> [] \<Longrightarrow> length xs < 65536 \<Longrightarrow>
    \<exists>w'. feed_bytes (fstate base k (FExit (of_nat (length xs))) xc ar es cur xs0) (concat (map le_u32 xs)) =
      Some (w', FrameDone \<lparr>entries = es, exits = xs0 @ xs\<rparr>)"
proof (induction xs arbitrary: k xs0)
  case (Cons x xs)
  let ?f = "FExit (of_nat (length (x # xs)))"
  show ?case
  proof (cases "xs = []")
    case True
    then have "feed_bytes (fstate base k ?f xc ar es cur xs0) (concat (map le_u32 (x # xs)))
        = frame_field (fstate base (k + 4) ?f xc ar es cur xs0) (le_u32 x) ?f"
      by (simp add: fstate_field)
    with True show ?thesis by (simp add: frame_done_def Let_def fstate_def)
  next
    case False
    let ?w = "fstate base (k + 4) (FExit (of_nat (length xs))) xc ar es cur (xs0 @ [x])"
    have "frame_field (fstate base (k + 4) ?f xc ar es cur xs0) (le_u32 x) ?f = Some (?w, need_next ?w)"
      using of_nat_suc_eq_1_u16 [of "length xs"] Cons.prems(2) False by (simp add: fstate_def Let_def)
    then have "feed_bytes (fstate base k ?f xc ar es cur xs0) (concat (map le_u32 (x # xs)))
        = feed_bytes ?w (concat (map le_u32 xs))"
      by (simp add: fstate_field_then)
    with Cons.IH [of "k + 4" "xs0 @ [x]"] Cons.prems(2) False show ?thesis by simp
  qed
qed simp

text \<open>A descriptor the wire format can hold.\<close>

definition descriptor_fits :: "frame_descriptor \<Rightarrow> bool" where
  "descriptor_fits d \<longleftrightarrow> descriptor_ok d \<and> (\<forall>e \<in> set (entries d). entry_fits e) \<and> length (exits d) < 65536"

lemma feed_descriptor:
  assumes "descriptor_fits d"
  shows "\<exists>w'. feed_bytes (frame_walk_new base) (descriptor_bytes (entries d) (exits d)) =
    Some (w', FrameDone d)"
proof -
  let ?es = "entries d" and ?xs = "exits d"
  have d: "\<lparr>entries = ?es, exits = ?xs\<rparr> = d" by simp
  let ?ar = "of_nat (length ?es) :: u8" and ?xc = "of_nat (length ?xs) :: u16"
  have len: "?es \<noteq> []" "length ?es \<le> 16" "\<forall>e \<in> set ?es. entry_fits e" "length ?xs < 65536"
    using assms by (auto simp: descriptor_fits_def descriptor_ok_def)
  have ar: "unat ?ar = length ?es" using len(2) by (simp add: unat_of_nat)
  have xc: "?xc = 0 \<longleftrightarrow> ?xs = []" using of_nat_eq_0_u16 [OF len(4)] by simp
  let ?w0 = "fstate base 0 FArity 0 0 [] None []" and ?w1 = "fstate base 1 FExitCount 0 ?ar [] None []"
    and ?w2 = "fstate base 3 FPhys ?xc ?ar [] None []"
  have "\<not> ?ar > 16" and "?ar \<noteq> 0"
    using len(1,2) ar by (simp_all add: word_less_nat_alt word_unat_eq_iff)
  then have "frame_field (fstate base 1 FArity 0 0 [] None []) [?ar] FArity = Some (?w1, need_next ?w1)"
    by (simp add: fstate_def Let_def)
  then have s1: "feed_bytes ?w0 (?ar # rest) = feed_bytes ?w1 rest" for rest
    using fstate_field_then [of "[?ar]" FArity base 0] by simp
  have "frame_field (fstate base 3 FExitCount 0 ?ar [] None []) (le_u16 ?xc) FExitCount
      = Some (?w2, need_next ?w2)"
    by (simp add: fstate_def Let_def)
  then have s2: "feed_bytes ?w1 (le_u16 ?xc @ rest) = feed_bytes ?w2 rest" for rest
    using fstate_field_then [of "le_u16 ?xc" FExitCount base 1] by simp
  have w0: "frame_walk_new base = ?w0" by (simp add: frame_walk_new_def fstate_def)
  have st: "feed_bytes (frame_walk_new base) (descriptor_bytes ?es ?xs) =
      feed_bytes ?w2 (concat (map entry_bytes ?es) @ concat (map le_u32 ?xs))"
    unfolding w0 descriptor_bytes_def s1 s2 ..
  show ?thesis
  proof (cases "?xs = []")
    case True
    then have "\<lparr>entries = ?es, exits = []\<rparr> = d" by (cases d) simp
    moreover obtain w' where "feed_bytes (fstate base 3 FPhys 0 ?ar [] None []) (concat (map entry_bytes ?es))
        = Some (w', FrameDone \<lparr>entries = ?es, exits = []\<rparr>)"
      using feed_entries_done [OF len(1,3), of "[]" ?ar base 3 None "[]"] ar by auto
    ultimately have "feed_bytes (fstate base 3 FPhys 0 ?ar [] None []) (concat (map entry_bytes ?es))
        = Some (w', FrameDone d)" by metis
    with True show ?thesis unfolding st by simp
  next
    case False
    then have "0 < ?xc" using xc by (simp add: word_gt_0)
    then obtain k where "feed_bytes ?w2 (concat (map entry_bytes ?es) @ concat (map le_u32 ?xs)) =
        feed_bytes (fstate base k (FExit ?xc) ?xc ?ar ?es None []) (concat (map le_u32 ?xs))"
      using feed_entries_exits [OF len(1,3), of "[]" ?ar ?xc base 3 None "[]"] ar by auto
    then show ?thesis unfolding st using feed_exits [OF False len(4), of base k ?xc ?ar ?es None "[]"] d by simp
  qed
qed

text \<open>
  A whole load, as \<open>cenr\<close> and an identity restore perform it; the fuel is above the rank of a
  fresh walk.
\<close>

definition frame_load :: "u8 list \<Rightarrow> u32 \<Rightarrow> frame_step served option" where
  "frame_load blob base =
     (case frame_feed (frame_walk_new base) None of
        None \<Rightarrow> None
      | Some (w, st) \<Rightarrow> serve frame_feed frame_need blob 4456600 w st)"

lemma frame_load_total: "\<exists>r. frame_load blob base = Some r"
proof -
  have "frame_rank (frame_walk_new base) + 1 < 4456600"
    by (simp add: frame_rank_def frame_walk_new_def)
  from fw.serve_total [OF frame_wf_new this] show ?thesis
    by (simp add: frame_load_def frame_feed_fresh del: serve.simps)
qed

lemma frame_load_descriptor_lemma:
  assumes "descriptor_fits d"
    and blob: "blob = pre @ descriptor_bytes (entries d) (exits d) @ post"
    and base: "length pre = unat base"
    and fit: "unat base + length (descriptor_bytes (entries d) (exits d)) \<le> 2 ^ 32"
  shows "frame_load blob base = Some (Served (FrameDone d))"
proof -
  let ?bs = "descriptor_bytes (entries d) (exits d)" and ?w = "frame_walk_new base"
  obtain w' where f: "feed_bytes ?w ?bs = Some (w', FrameDone d)"
    using feed_descriptor [OF assms(1)] by blast
  have "nth_opt blob (unat (fw_base ?w + fw_consumed ?w + of_nat i)) = Some (?bs ! i)"
    if "i < length ?bs" for i
  proof -
    have "unat (base + of_nat i) = length pre + i"
      using that fit base by (simp add: unat_add_small)
    then show ?thesis using that by (simp add: blob nth_append frame_walk_new_def)
  qed
  from serve_feed_bytes [OF f _ this] obtain fuel where
    k: "serve frame_feed frame_need blob fuel ?w (need_next ?w) = Some (Served (FrameDone d))" by auto
  moreover have "need_next ?w = FNeedByte base" by (simp add: need_next_def frame_walk_new_def)
  moreover obtain r where "frame_load blob base = Some r" using frame_load_total by blast
  ultimately show ?thesis
    using serve_agree [OF k] by (auto simp: frame_load_def frame_feed_fresh simp del: serve.simps)
qed

text \<open>
  C7: a frame descriptor is loaded as it was encoded. Wherever \<open>descriptor_bytes\<close> of a descriptor
  of 1 to 16 virtual tapes lies in the table ROM, the byte-at-a-time load started at its offset
  ends with that descriptor, maps, holes and exits included.
\<close>

theorem frame_load_descriptor:
  assumes "descriptor_fits d"
    and blob: "blob = pre @ descriptor_bytes (entries d) (exits d) @ post"
    and base: "length pre = unat base"
    and fit: "unat base + length (descriptor_bytes (entries d) (exits d)) \<le> 2 ^ 32"
  shows "frame_load blob base = Some (Served (FrameDone d))"
  by (rule frame_load_descriptor_lemma [OF assms])

theorem frame_load_descriptor_witness:
  "frame_load (9 # descriptor_bytes [\<lparr>phys = 3, rmap = [1, 0, 0xFFFF], wmap = [2]\<rparr>] [7]) 1 =
     Some (Served (FrameDone \<lparr>entries = [\<lparr>phys = 3, rmap = [1, 0, 0xFFFF], wmap = [2]\<rparr>], exits = [7]\<rparr>))"
  using frame_load_descriptor [of "\<lparr>entries = [\<lparr>phys = 3, rmap = [1, 0, 0xFFFF], wmap = [2]\<rparr>], exits = [7]\<rparr>"
      "9 # descriptor_bytes [\<lparr>phys = 3, rmap = [1, 0, 0xFFFF], wmap = [2]\<rparr>] [7]" "[9]" "[]" 1]
  by (simp add: descriptor_fits_def descriptor_ok_def entry_fits_def descriptor_bytes_def entry_bytes_def
      map_bytes_def)

end
