(* ===== verification/Vm_Core.thy ===== *)
theory Vm_Core
  imports Arch_Iface Walks Frames
begin

text \<open>
  The sans-I/O processor core (\<open>crates/core/src/vm/core.rs\<close>): a transition function from
  bus responses to bus requests. \<open>resume\<close> is the whole transition; it is composed, as the
  source composes it, of the opcode and operand fetch, the settling of the request in flight
  and the issue of the next micro-op. The result is an \<open>option\<close>: \<open>None\<close> where the source
  would panic (an \<open>expect\<close> or an index out of range). Theory \<open>Core_Safety\<close> proves that no
  reachable state does.
\<close>

section \<open>The state\<close>

datatype pending =
    PNone
  | PMove
  | PWrite
  | PLatch u32 u8
  | PReadSlot u8 u8
  | PEntCheck u32
  | PPush u32
  | PPop
  | PMatch match_walk
  | PDispatch dispatch_walk
  | PEntCheckFrame u32 u32
  | PPushFrame u32 u32
  | PComposeRead u32 u32 "u8 list"
  | PDirectoryRead u32 u32 "u8 list"
  | PFrameLoad frame_walk u32
  | PPopPair "u32 option"

datatype phase =
    FetchOpcode
  | FetchOperand u8 operand_kind "u8 list"
  | Execute "micro_op list" pending
  | StepAck
  | Done

record frames_meta =
  fm_base :: u32
  composites :: u16
  sites :: u16

record core =
  c_ip :: u32
  c_instr_start :: u32
  c_mr :: u32
  c_tr :: "u32 list"
  c_tr_len :: u8
  c_phase :: phase
  c_brk_pending :: bool
  c_device_count :: u8
  c_frames :: "frames_meta option"
  c_fr :: u32
  c_frame_cache :: "frame_descriptor option"
  c_fr_stack :: "u32 list"

definition core_new :: "u32 \<Rightarrow> core" where
  "core_new entry =
     \<lparr>c_ip = entry, c_instr_start = entry, c_mr = 0, c_tr = replicate 16 0, c_tr_len = 0,
      c_phase = FetchOpcode, c_brk_pending = False, c_device_count = 1, c_frames = None,
      c_fr = 0, c_frame_cache = None, c_fr_stack = []\<rparr>"

definition with_device_count :: "u8 \<Rightarrow> core \<Rightarrow> core" where
  "with_device_count n c = c\<lparr>c_device_count := n\<rparr>"

definition with_frames :: "frames_meta \<Rightarrow> core \<Rightarrow> core" where
  "with_frames m c = c\<lparr>c_frames := Some m\<rparr>"

definition frames_on :: "core \<Rightarrow> bool" where
  "frames_on c \<longleftrightarrow> c_frames c \<noteq> None"

definition mf :: "core \<Rightarrow> bool" where
  "mf c \<longleftrightarrow> c_mr c \<noteq> 0"

definition set_mf :: "bool \<Rightarrow> core \<Rightarrow> core" where
  "set_mf b c = c\<lparr>c_mr := (if b then 1 else 0)\<rparr>"

definition set_mr :: "u32 \<Rightarrow> core \<Rightarrow> core" where
  "set_mr v c = c\<lparr>c_mr := v\<rparr>"

text \<open>The latched prefix of TR; slicing past the register would panic.\<close>

definition latched :: "core \<Rightarrow> u32 list option" where
  "latched c =
     (if unat (c_tr_len c) \<le> length (c_tr c) then Some (take (unat (c_tr_len c)) (c_tr c))
      else None)"

definition code_read :: "core \<Rightarrow> core_event" where
  "code_read c = Request (CodeRead (c_ip c))"

definition trap_with :: "core \<Rightarrow> trap \<Rightarrow> core \<times> core_event" where
  "trap_with c t = (c\<lparr>c_phase := Done\<rparr>, EvTrap t)"

definition start :: "core \<Rightarrow> core \<times> core_event" where
  "start c = (let c' = c\<lparr>c_instr_start := c_ip c, c_phase := FetchOpcode\<rparr> in (c', code_read c'))"

section \<open>Frames\<close>

text \<open>The inner option is the source's \<open>Option\<close>; the outer one is the \<open>expect\<close>.\<close>

definition active_frame :: "core \<Rightarrow> frame_descriptor option option" where
  "active_frame c =
     (if c_fr c = 0 then Some None
      else case c_frame_cache c of None \<Rightarrow> None | Some d \<Rightarrow> Some (Some d))"

definition phys_dev :: "core \<Rightarrow> u8 \<Rightarrow> (trap + u8) option" where
  "phys_dev c dev =
     (case active_frame c of
        None \<Rightarrow> None
      | Some None \<Rightarrow> Some (Inr dev)
      | Some (Some d) \<Rightarrow>
          (case nth_opt (entries d) (unat dev) of
             Some e \<Rightarrow> Some (Inr (phys e))
           | None \<Rightarrow> Some (Inl (BadOperand (c_instr_start c)))))"

definition map_symbol :: "u16 list \<Rightarrow> u32 \<Rightarrow> trap \<Rightarrow> trap + u32" where
  "map_symbol m s t =
     (if m = [] then Inr s
      else case nth_opt m (unat s) of
             Some v \<Rightarrow> if v \<noteq> 0xFFFF then Inr (ucast v) else Inl t
           | None \<Rightarrow> Inl t)"

definition virt_symbol :: "core \<Rightarrow> u8 \<Rightarrow> u32 \<Rightarrow> (trap + u32) option" where
  "virt_symbol c vdev s =
     (case active_frame c of
        None \<Rightarrow> None
      | Some None \<Rightarrow> Some (Inr s)
      | Some (Some d) \<Rightarrow>
          (case nth_opt (entries d) (unat vdev) of
             None \<Rightarrow> None
           | Some e \<Rightarrow> Some (map_symbol (rmap e) s (UnmappedRead (c_instr_start c)))))"

definition phys_symbol :: "core \<Rightarrow> u8 \<Rightarrow> u32 \<Rightarrow> (trap + u32) option" where
  "phys_symbol c vdev v =
     (case active_frame c of
        None \<Rightarrow> None
      | Some None \<Rightarrow> Some (Inr v)
      | Some (Some d) \<Rightarrow>
          (case nth_opt (entries d) (unat vdev) of
             None \<Rightarrow> None
           | Some e \<Rightarrow> Some (map_symbol (wmap e) v (UnmappedWrite (c_instr_start c)))))"

definition jump_target :: "core \<Rightarrow> i32 \<Rightarrow> trap + u32" where
  "jump_target c off =
     (let target = uint (c_ip c) + sint off in
      if 0 \<le> target \<and> target < 2 ^ 32 then Inr (of_int target)
      else Inl (CodeOutOfBounds (c_instr_start c)))"

definition start_compose_read ::
  "core \<Rightarrow> micro_op list \<Rightarrow> u32 \<Rightarrow> u32 \<Rightarrow> (core \<times> core_event) option" where
  "start_compose_read c ops then_ip site =
     (case c_frames c of
        None \<Rightarrow> None
      | Some meta \<Rightarrow>
          Some (if unat site \<ge> unat (sites meta) then trap_with c (BadOperand (c_instr_start c))
           else let addr0 = unat (fm_base meta) + 4 + unat (composites meta) * 4
                    + (unat (c_fr c) * unat (sites meta) + unat site) * 2 in
             if addr0 \<ge> 2 ^ 32 then trap_with c (TableOutOfBounds (c_instr_start c))
             else (c\<lparr>c_phase := Execute ops (PComposeRead then_ip (of_nat addr0) [])\<rparr>,
                   Request (FrameRead (of_nat addr0)))))"

text \<open>\<open>fr - 1\<close> is a \<open>u64\<close> subtraction: with \<open>fr = 0\<close> it would overflow.\<close>

definition start_directory_read ::
  "core \<Rightarrow> micro_op list \<Rightarrow> u32 \<Rightarrow> (core \<times> core_event) option" where
  "start_directory_read c ops then_ip =
     (case c_frames c of
        None \<Rightarrow> None
      | Some meta \<Rightarrow>
          if c_fr c = 0 then None
          else let addr0 = unat (fm_base meta) + 4 + (unat (c_fr c) - 1) * 4 in
            Some (if addr0 \<ge> 2 ^ 32 then trap_with c (TableOutOfBounds (c_instr_start c))
              else (c\<lparr>c_phase := Execute ops (PDirectoryRead then_ip (of_nat addr0) [])\<rparr>,
                    Request (FrameRead (of_nat addr0)))))"

definition start_frame_load ::
  "core \<Rightarrow> micro_op list \<Rightarrow> u32 \<Rightarrow> u32 \<Rightarrow> (core \<times> core_event) option" where
  "start_frame_load c ops offset then_ip =
     (case frame_feed (frame_walk_new offset) None of
        Some (walk, FNeedByte addr) \<Rightarrow>
          Some (c\<lparr>c_phase := Execute ops (PFrameLoad walk then_ip)\<rparr>, Request (FrameRead addr))
      | _ \<Rightarrow> None)"

section \<open>Settling the request in flight\<close>

text \<open>
  The first half of \<open>step_execute\<close>: either execution goes on with the remaining micro-ops, or
  the transition ends with an event. The phase has already been replaced by \<open>Done\<close>.
\<close>

datatype settled = Proceed core | Leave core core_event

definition leave :: "core \<times> core_event \<Rightarrow> settled" where
  "leave r = Leave (fst r) (snd r)"

definition fail :: "core \<Rightarrow> trap \<Rightarrow> settled option" where
  "fail c t = Some (leave (trap_with c t))"

text \<open>A response of the wrong type is a driver protocol violation.\<close>

definition protocol_violation :: "core \<Rightarrow> settled option" where
  "protocol_violation c = fail c (CodeOutOfBounds (c_ip c))"

definition request_in :: "core \<Rightarrow> micro_op list \<Rightarrow> pending \<Rightarrow> bus_request \<Rightarrow> settled option" where
  "request_in c ops p req = Some (Leave (c\<lparr>c_phase := Execute ops p\<rparr>) (Request req))"

definition settle_ack :: "core \<Rightarrow> bus_response \<Rightarrow> settled option" where
  "settle_ack c resp =
     (case resp of
        BusOk \<Rightarrow> Some (Proceed c)
      | BusFault fault \<Rightarrow> fail c (DeviceTrap fault)
      | _ \<Rightarrow> protocol_violation c)"

definition settle_latch :: "core \<Rightarrow> u32 \<Rightarrow> u8 \<Rightarrow> bus_response \<Rightarrow> settled option" where
  "settle_latch c match_index vdev resp =
     (case resp of
        BusSymbol s \<Rightarrow>
          (case virt_symbol c vdev s of
             None \<Rightarrow> None
           | Some (Inr v) \<Rightarrow> Some (Proceed (c\<lparr>c_mr := (if v = match_index then 1 else 0)\<rparr>))
           | Some (Inl t) \<Rightarrow> fail c t)
      | BusFault fault \<Rightarrow> fail c (DeviceTrap fault)
      | _ \<Rightarrow> protocol_violation c)"

definition settle_read_slot :: "core \<Rightarrow> u8 \<Rightarrow> u8 \<Rightarrow> bus_response \<Rightarrow> settled option" where
  "settle_read_slot c slot vdev resp =
     (case resp of
        BusSymbol s \<Rightarrow>
          (case virt_symbol c vdev s of
             None \<Rightarrow> None
           | Some (Inr v) \<Rightarrow>
               if unat slot < length (c_tr c)
               then Some (Proceed (c\<lparr>c_tr := (c_tr c)[unat slot := v],
                                     c_tr_len := max (c_tr_len c) (slot + 1)\<rparr>))
               else None
           | Some (Inl t) \<Rightarrow> fail c t)
      | BusFault fault \<Rightarrow> fail c (DeviceTrap fault)
      | _ \<Rightarrow> protocol_violation c)"

text \<open>\<open>EntCheck\<close> and \<open>EntCheckFrame\<close> differ in what the push is for.\<close>

definition settle_ent_check ::
  "arch \<Rightarrow> core \<Rightarrow> micro_op list \<Rightarrow> u32 \<Rightarrow> pending \<Rightarrow> bus_response \<Rightarrow> settled option" where
  "settle_ent_check a c ops target push resp =
     (case resp of
        Byte b \<Rightarrow>
          if is_entry_marker a b then request_in c ops push (StackPush (c_ip c))
          else fail c (CallTargetNotEntry target)
      | OutOfCode \<Rightarrow> fail c (CallTargetNotEntry target)
      | _ \<Rightarrow> protocol_violation c)"

definition settle_push :: "core \<Rightarrow> u32 \<Rightarrow> bus_response \<Rightarrow> settled option" where
  "settle_push c target resp =
     (case resp of
        BusOk \<Rightarrow>
          let c1 = (if frames_on c then c\<lparr>c_fr_stack := c_fr_stack c @ [c_fr c]\<rparr> else c)
          in Some (Proceed (c1\<lparr>c_ip := target\<rparr>))
      | StackFull \<Rightarrow> fail c StackOverflow
      | _ \<Rightarrow> protocol_violation c)"

definition settle_pop :: "core \<Rightarrow> bus_response \<Rightarrow> settled option" where
  "settle_pop c resp =
     (case resp of
        BusValue v \<Rightarrow> Some (Proceed (c\<lparr>c_ip := v\<rparr>))
      | StackEmpty \<Rightarrow> fail c StackUnderflow
      | _ \<Rightarrow> protocol_violation c)"

definition settle_push_frame ::
  "core \<Rightarrow> micro_op list \<Rightarrow> u32 \<Rightarrow> u32 \<Rightarrow> bus_response \<Rightarrow> settled option" where
  "settle_push_frame c ops target site resp =
     (case resp of
        BusOk \<Rightarrow>
          map_option leave
            (start_compose_read (c\<lparr>c_fr_stack := c_fr_stack c @ [c_fr c]\<rparr>) ops target site)
      | StackFull \<Rightarrow> fail c StackOverflow
      | _ \<Rightarrow> protocol_violation c)"

definition settle_compose_read ::
  "core \<Rightarrow> micro_op list \<Rightarrow> u32 \<Rightarrow> u32 \<Rightarrow> u8 list \<Rightarrow> bus_response \<Rightarrow> settled option" where
  "settle_compose_read c ops then_ip addr0 buf resp =
     (case resp of
        Byte b \<Rightarrow>
          let buf' = buf @ [b] in
          if length buf' < 2 then
            request_in c ops (PComposeRead then_ip addr0 buf')
              (FrameRead (addr0 + of_nat (length buf')))
          else let composite = u16_le (take 2 buf') in
            (case c_frames c of
               None \<Rightarrow> None
             | Some meta \<Rightarrow>
                 if composite = 0 \<or> composite > composites meta
                 then fail c (BadOperand (c_instr_start c))
                 else map_option leave
                   (start_directory_read (c\<lparr>c_fr := ucast composite\<rparr>) ops then_ip))
      | OutOfTable \<Rightarrow> fail c (TableOutOfBounds (c_instr_start c))
      | _ \<Rightarrow> protocol_violation c)"

definition settle_directory_read ::
  "core \<Rightarrow> micro_op list \<Rightarrow> u32 \<Rightarrow> u32 \<Rightarrow> u8 list \<Rightarrow> bus_response \<Rightarrow> settled option" where
  "settle_directory_read c ops then_ip addr0 buf resp =
     (case resp of
        Byte b \<Rightarrow>
          let buf' = buf @ [b] in
          if length buf' < 4 then
            request_in c ops (PDirectoryRead then_ip addr0 buf')
              (FrameRead (addr0 + of_nat (length buf')))
          else map_option leave (start_frame_load c ops (u32_le (take 4 buf')) then_ip)
      | OutOfTable \<Rightarrow> fail c (TableOutOfBounds (c_instr_start c))
      | _ \<Rightarrow> protocol_violation c)"

definition settle_frame_load ::
  "core \<Rightarrow> micro_op list \<Rightarrow> frame_walk \<Rightarrow> u32 \<Rightarrow> bus_response \<Rightarrow> settled option" where
  "settle_frame_load c ops walk then_ip resp =
     (case resp of
        Byte b \<Rightarrow>
          (case frame_feed walk (Some b) of
             None \<Rightarrow> None
           | Some (walk', FNeedByte addr) \<Rightarrow>
               request_in c ops (PFrameLoad walk' then_ip) (FrameRead addr)
           | Some (walk', FrameDone d) \<Rightarrow>
               Some (Proceed (c\<lparr>c_frame_cache := Some d, c_ip := then_ip\<rparr>))
           | Some (walk', FMalformed) \<Rightarrow> fail c (TableOutOfBounds (c_instr_start c)))
      | OutOfTable \<Rightarrow> fail c (TableOutOfBounds (c_instr_start c))
      | _ \<Rightarrow> protocol_violation c)"

text \<open>\<open>Vec::pop\<close> on the FR stack; an empty stack restores the identity frame.\<close>

definition pop_or_zero :: "u32 list \<Rightarrow> u32 \<times> u32 list" where
  "pop_or_zero xs = (if xs = [] then (0, []) else (last xs, butlast xs))"

definition settle_pop_pair ::
  "core \<Rightarrow> micro_op list \<Rightarrow> u32 option \<Rightarrow> bus_response \<Rightarrow> settled option" where
  "settle_pop_pair c ops exit_to resp =
     (case resp of
        BusValue v \<Rightarrow>
          (case pop_or_zero (c_fr_stack c) of (restored, stk) \<Rightarrow>
             let then_ip = (case exit_to of Some e \<Rightarrow> e | None \<Rightarrow> v);
                 reload = (restored \<noteq> 0 \<and> (exit_to \<noteq> None \<or> restored \<noteq> c_fr c));
                 c1 = c\<lparr>c_fr_stack := stk,
                         c_frame_cache := (if restored = 0 then None else c_frame_cache c),
                         c_fr := restored\<rparr>
             in if reload then map_option leave (start_directory_read c1 ops then_ip)
                else Some (Proceed (c1\<lparr>c_ip := then_ip\<rparr>)))
      | StackEmpty \<Rightarrow> fail c StackUnderflow
      | _ \<Rightarrow> protocol_violation c)"

definition settle_match ::
  "core \<Rightarrow> micro_op list \<Rightarrow> match_walk \<Rightarrow> bus_response \<Rightarrow> settled option" where
  "settle_match c ops walk resp =
     (case resp of
        Byte b \<Rightarrow>
          (case latched c of
             None \<Rightarrow> None
           | Some regs \<Rightarrow>
               (case match_feed walk (Some b) regs of
                  None \<Rightarrow> None
                | Some (walk', NeedByte addr) \<Rightarrow>
                    request_in c ops (PMatch walk') (TableRead addr)
                | Some (walk', WalkDone m) \<Rightarrow> Some (Proceed (c\<lparr>c_mr := m\<rparr>))
                | Some (walk', Malformed) \<Rightarrow> fail c (BadOperand (c_instr_start c))))
      | OutOfTable \<Rightarrow> fail c (TableOutOfBounds (c_instr_start c))
      | _ \<Rightarrow> protocol_violation c)"

definition settle_dispatch ::
  "core \<Rightarrow> micro_op list \<Rightarrow> dispatch_walk \<Rightarrow> bus_response \<Rightarrow> settled option" where
  "settle_dispatch c ops walk resp =
     (case resp of
        Byte b \<Rightarrow>
          (case dispatch_feed walk (Some b) of
             None \<Rightarrow> None
           | Some (walk', DNeedByte addr) \<Rightarrow>
               request_in c ops (PDispatch walk') (TableRead addr)
           | Some (walk', DispatchDone target) \<Rightarrow> Some (Proceed (c\<lparr>c_ip := target\<rparr>))
           | Some (walk', OutOfRange) \<Rightarrow> fail c (DispatchOutOfRange (c_instr_start c)))
      | OutOfTable \<Rightarrow> fail c (TableOutOfBounds (c_instr_start c))
      | _ \<Rightarrow> protocol_violation c)"

fun settle :: "arch \<Rightarrow> core \<Rightarrow> micro_op list \<Rightarrow> pending \<Rightarrow> bus_response \<Rightarrow> settled option" where
  "settle a c ops PNone resp = Some (Proceed c)"
| "settle a c ops PMove resp = settle_ack c resp"
| "settle a c ops PWrite resp = settle_ack c resp"
| "settle a c ops (PLatch match_index vdev) resp = settle_latch c match_index vdev resp"
| "settle a c ops (PReadSlot slot vdev) resp = settle_read_slot c slot vdev resp"
| "settle a c ops (PEntCheck target) resp = settle_ent_check a c ops target (PPush target) resp"
| "settle a c ops (PPush target) resp = settle_push c target resp"
| "settle a c ops PPop resp = settle_pop c resp"
| "settle a c ops (PEntCheckFrame target site) resp =
     settle_ent_check a c ops target (PPushFrame target site) resp"
| "settle a c ops (PPushFrame target site) resp = settle_push_frame c ops target site resp"
| "settle a c ops (PComposeRead then_ip addr0 buf) resp =
     settle_compose_read c ops then_ip addr0 buf resp"
| "settle a c ops (PDirectoryRead then_ip addr0 buf) resp =
     settle_directory_read c ops then_ip addr0 buf resp"
| "settle a c ops (PFrameLoad walk then_ip) resp = settle_frame_load c ops walk then_ip resp"
| "settle a c ops (PPopPair exit_to) resp = settle_pop_pair c ops exit_to resp"
| "settle a c ops (PMatch walk) resp = settle_match c ops walk resp"
| "settle a c ops (PDispatch walk) resp = settle_dispatch c ops walk resp"

section \<open>Issuing the next micro-op\<close>

text \<open>
  One round of the issue loop: the micro-op is consumed and the loop continues, or it puts a
  request on the bus, or it ends the transition.
\<close>

datatype issued = Continue core "micro_op list" | Await bus_request pending | Exit core core_event

definition exit_trap :: "core \<Rightarrow> trap \<Rightarrow> issued option" where
  "exit_trap c t = (case trap_with c t of (c', e) \<Rightarrow> Some (Exit c' e))"

definition on_dev :: "core \<Rightarrow> u8 \<Rightarrow> (u8 \<Rightarrow> issued) \<Rightarrow> issued option" where
  "on_dev c dev k =
     (case phys_dev c dev of
        None \<Rightarrow> None
      | Some (Inr p) \<Rightarrow> Some (k p)
      | Some (Inl t) \<Rightarrow> exit_trap c t)"

definition issue_write :: "core \<Rightarrow> u8 \<Rightarrow> u32 \<Rightarrow> issued option" where
  "issue_write c dev index =
     (case phys_dev c dev of
        None \<Rightarrow> None
      | Some (Inl t) \<Rightarrow> exit_trap c t
      | Some (Inr p) \<Rightarrow>
          (case phys_symbol c dev index of
             None \<Rightarrow> None
           | Some (Inl t) \<Rightarrow> exit_trap c t
           | Some (Inr v) \<Rightarrow> Some (Await (DeviceWrite p v) PWrite)))"

definition issue_jump :: "core \<Rightarrow> i32 \<Rightarrow> micro_op list \<Rightarrow> issued option" where
  "issue_jump c off ops =
     (case jump_target c off of
        Inr t \<Rightarrow> Some (Continue (c\<lparr>c_ip := t\<rparr>) ops)
      | Inl t \<Rightarrow> exit_trap c t)"

definition issue_call :: "core \<Rightarrow> i32 \<Rightarrow> (u32 \<Rightarrow> pending) \<Rightarrow> issued option" where
  "issue_call c off p =
     (case jump_target c off of
        Inr target \<Rightarrow> Some (Await (CodeRead target) (p target))
      | Inl t \<Rightarrow> exit_trap c t)"

definition read_all_ops :: "u8 \<Rightarrow> micro_op list" where
  "read_all_ops width = map (\<lambda>i. MRead (of_nat i) (of_nat i)) [0..<unat width]"

definition issue_read_all :: "core \<Rightarrow> micro_op list \<Rightarrow> issued option" where
  "issue_read_all c ops =
     (case active_frame c of
        None \<Rightarrow> None
      | Some fr_opt \<Rightarrow>
          let width = (case fr_opt of Some d \<Rightarrow> of_nat (length (entries d))
                                    | None \<Rightarrow> c_device_count c)
          in Some (Continue (c\<lparr>c_tr_len := 0\<rparr>) (read_all_ops width @ ops)))"

definition issue_match_table :: "core \<Rightarrow> u32 \<Rightarrow> issued option" where
  "issue_match_table c table =
     (case latched c of
        None \<Rightarrow> None
      | Some regs \<Rightarrow>
          (case match_feed (match_walk_new table) None regs of
             None \<Rightarrow> None
           | Some (walk, NeedByte addr) \<Rightarrow> Some (Await (TableRead addr) (PMatch walk))
           | Some (walk, _) \<Rightarrow> exit_trap c (BadOperand (c_instr_start c))))"

definition issue_dispatch :: "core \<Rightarrow> u32 \<Rightarrow> issued option" where
  "issue_dispatch c table =
     (if c_mr c = 0 then exit_trap c (NoTransition (c_instr_start c))
      else case dispatch_feed (dispatch_walk_new table (c_mr c)) None of
             None \<Rightarrow> None
           | Some (walk, DNeedByte addr) \<Rightarrow> Some (Await (TableRead addr) (PDispatch walk))
           | Some (walk, _) \<Rightarrow> exit_trap c (BadOperand (c_instr_start c)))"

definition issue_retx :: "core \<Rightarrow> u8 \<Rightarrow> issued option" where
  "issue_retx c k =
     (case active_frame c of
        None \<Rightarrow> None
      | Some fr_opt \<Rightarrow>
          (case (case fr_opt of None \<Rightarrow> None | Some d \<Rightarrow> nth_opt (exits d) (unat k)) of
             None \<Rightarrow> exit_trap c (ExitOutOfRange (c_instr_start c))
           | Some x \<Rightarrow> Some (Await StackPop (PPopPair (Some x)))))"

fun raised :: "raised_trap_kind \<Rightarrow> u32 \<Rightarrow> trap" where
  "raised RaisedUnmappedRead at = UnmappedRead at"
| "raised RaisedUnmappedWrite at = UnmappedWrite at"

fun issue_op :: "core \<Rightarrow> micro_op \<Rightarrow> micro_op list \<Rightarrow> issued option" where
  "issue_op c MNop ops = Some (Continue c ops)"
| "issue_op c MBrk ops = Some (Continue (c\<lparr>c_brk_pending := True\<rparr>) ops)"
| "issue_op c MStop ops = Some (Exit (c\<lparr>c_phase := Done\<rparr>) EvStop)"
| "issue_op c MHalt ops = Some (Exit (c\<lparr>c_phase := Done\<rparr>) EvHalt)"
| "issue_op c (Raise kind) ops = exit_trap c (raised kind (c_instr_start c))"
| "issue_op c (MoveLeft dev) ops = on_dev c dev (\<lambda>p. Await (DeviceMoveLeft p) PMove)"
| "issue_op c (MoveRight dev) ops = on_dev c dev (\<lambda>p. Await (DeviceMoveRight p) PMove)"
| "issue_op c (MWrite dev index) ops = issue_write c dev index"
| "issue_op c (LatchMatch match_index) ops =
     on_dev c 0 (\<lambda>p. Await (DeviceRead p) (PLatch match_index 0))"
| "issue_op c (MRead dev slot) ops =
     (if slot \<ge> 16 then exit_trap c (BadOperand (c_instr_start c))
      else on_dev c dev (\<lambda>p. Await (DeviceRead p) (PReadSlot slot dev)))"
| "issue_op c (JumpRel off) ops = issue_jump c off ops"
| "issue_op c (JumpRelIf off when_match) ops =
     (if (c_mr c \<noteq> 0) = when_match then issue_jump c off ops else Some (Continue c ops))"
| "issue_op c (MCall off) ops = issue_call c off PEntCheck"
| "issue_op c MRet ops = Some (Await StackPop (if frames_on c then PPopPair None else PPop))"
| "issue_op c (MatchTable table) ops = issue_match_table c table"
| "issue_op c ReadAll ops = issue_read_all c ops"
| "issue_op c (CallFrame rel site) ops =
     (if \<not> frames_on c then exit_trap c (ProfileViolation (c_instr_start c))
      else issue_call c rel (\<lambda>target. PEntCheckFrame target site))"
| "issue_op c (RetX k) ops =
     (if \<not> frames_on c then exit_trap c (ProfileViolation (c_instr_start c))
      else issue_retx c k)"
| "issue_op c (DispatchJump table) ops = issue_dispatch c table"

text \<open>
  The loop itself. It terminates: every micro-op is consumed, and \<open>ReadAll\<close> is replaced by at
  most 255 reads, of which the first already leaves the loop.
\<close>

fun op_weight :: "micro_op \<Rightarrow> nat" where
  "op_weight ReadAll = 300"
| "op_weight _ = 1"

definition ops_weight :: "micro_op list \<Rightarrow> nat" where
  "ops_weight ops = sum_list (map op_weight ops)"

lemma ops_weight_simps [simp]:
  "ops_weight [] = 0" "ops_weight (x # xs) = op_weight x + ops_weight xs"
  "ops_weight (xs @ ys) = ops_weight xs + ops_weight ys"
  by (simp_all add: ops_weight_def)

lemma op_weight_pos [simp]: "0 < op_weight x"
  by (cases x) auto

lemma ops_weight_read_all: "ops_weight (read_all_ops n) < 256"
proof -
  have "ops_weight (read_all_ops n) = unat n"
    by (simp add: ops_weight_def read_all_ops_def comp_def sum_list_triv)
  then show ?thesis by simp
qed

lemma issue_op_weight:
  assumes "issue_op c x ops = Some (Continue c' ops')"
  shows "ops_weight ops' < ops_weight (x # ops)"
proof (cases "x = ReadAll")
  case True
  with assms obtain n where "ops' = read_all_ops n @ ops"
    by (auto simp: issue_read_all_def split: option.splits)
  with True ops_weight_read_all [of n] show ?thesis by simp
next
  case False
  with assms have "ops' = ops"
    by (cases x) (auto simp: issue_jump_def issue_call_def issue_write_def issue_retx_def
        issue_match_table_def issue_dispatch_def on_dev_def exit_trap_def trap_with_def
        split: option.splits sum.splits prod.splits if_splits walk_step.splits dispatch_step.splits)
  then show ?thesis by simp
qed

definition retire :: "core \<Rightarrow> core \<times> core_event" where
  "retire c =
     (c\<lparr>c_phase := StepAck, c_brk_pending := False\<rparr>, if c_brk_pending c then EvBreak else EvStep)"

function issue :: "core \<Rightarrow> micro_op list \<Rightarrow> (core \<times> core_event) option" where
  "issue c [] = Some (retire c)"
| "issue c (x # ops) =
     (case issue_op c x ops of
        None \<Rightarrow> None
      | Some (Continue c' ops') \<Rightarrow> issue c' ops'
      | Some (Await req p) \<Rightarrow> Some (c\<lparr>c_phase := Execute ops p\<rparr>, Request req)
      | Some (Exit c' e) \<Rightarrow> Some (c', e))"
  by pat_completeness auto
termination
  by (relation "measure (\<lambda>(c, ops). ops_weight ops)") (auto dest: issue_op_weight)

text \<open>\<open>step_execute\<close>: called in the \<open>Execute\<close> phase only, else \<open>unreachable!\<close>.\<close>

definition step_execute :: "arch \<Rightarrow> core \<Rightarrow> bus_response \<Rightarrow> (core \<times> core_event) option" where
  "step_execute a c resp =
     (case c_phase c of
        Execute ops p \<Rightarrow>
          (case settle a (c\<lparr>c_phase := Done\<rparr>) ops p resp of
             None \<Rightarrow> None
           | Some (Leave c' e) \<Rightarrow> Some (c', e)
           | Some (Proceed c') \<Rightarrow> issue c' ops)
      | _ \<Rightarrow> None)"

section \<open>Fetch\<close>

definition finish_fetch :: "arch \<Rightarrow> core \<Rightarrow> u8 \<Rightarrow> operand \<Rightarrow> (core \<times> core_event) option" where
  "finish_fetch a c opcode oper =
     (case lower a opcode oper of
        Inr ops \<Rightarrow> step_execute a (c\<lparr>c_phase := Execute ops PNone\<rparr>) BusOk
      | Inl _ \<Rightarrow> Some (trap_with c (BadOperand (c_instr_start c))))"

definition terminated :: "u8 \<Rightarrow> bool" where
  "terminated b \<longleftrightarrow> b AND 0x80 \<noteq> 0"

definition payload :: "u8 \<Rightarrow> u32" where
  "payload b = ucast (b AND 0x7F)"

text \<open>Whether the operand is complete after its latest byte.\<close>

fun operand_complete :: "operand_kind \<Rightarrow> u8 list \<Rightarrow> u8 \<Rightarrow> bool" where
  "operand_complete KNone buf b = True"
| "operand_complete KRelI8 buf b = (length buf = 1)"
| "operand_complete KImm8 buf b = (length buf = 1)"
| "operand_complete KRelI32 buf b = (length buf = 4)"
| "operand_complete KTableRef buf b = (length buf = 4)"
| "operand_complete KFramedCall buf b = (length buf = 8)"
| "operand_complete KSymbolVec buf b = terminated b"
| "operand_complete KMoveVec buf b = terminated b"
| "operand_complete KWriteMoveVec buf b = (length (filter terminated buf) = 2)"

text \<open>The decoded operand; \<open>None\<close> where a slice or the \<open>expect\<close> of the split would panic.\<close>

definition write_move_operand :: "u8 list \<Rightarrow> operand option" where
  "write_move_operand buf =
     (if \<exists>b \<in> set buf. terminated b then
        (let split = length (takeWhile (\<lambda>b. \<not> terminated b) buf) + 1 in
         Some (OWriteMove (map payload (take split buf)) (map payload (drop split buf))))
      else None)"

fun decode_operand :: "operand_kind \<Rightarrow> u8 list \<Rightarrow> operand option" where
  "decode_operand KNone buf = Some ONone"
| "decode_operand KRelI8 buf = map_option OI8 (nth_opt buf 0)"
| "decode_operand KImm8 buf = map_option OImm (nth_opt buf 0)"
| "decode_operand KRelI32 buf =
     (if 4 \<le> length buf then Some (OI32 (u32_le (take 4 buf))) else None)"
| "decode_operand KTableRef buf =
     (if 4 \<le> length buf then Some (OTable (u32_le (take 4 buf))) else None)"
| "decode_operand KFramedCall buf =
     (if 8 \<le> length buf
      then Some (OFramedCall (u32_le (take 4 buf)) (u32_le (take 4 (drop 4 buf)))) else None)"
| "decode_operand KSymbolVec buf = Some (OSymbols (map payload buf))"
| "decode_operand KMoveVec buf = Some (OSymbols (map payload buf))"
| "decode_operand KWriteMoveVec buf = write_move_operand buf"

definition on_operand_byte ::
  "arch \<Rightarrow> core \<Rightarrow> u8 \<Rightarrow> operand_kind \<Rightarrow> u8 list \<Rightarrow> bus_response \<Rightarrow> (core \<times> core_event) option" where
  "on_operand_byte a c opcode kind buf resp =
     (case resp of
        Byte b \<Rightarrow>
          let buf' = buf @ [b]; c1 = c\<lparr>c_ip := c_ip c + 1\<rparr> in
          if \<not> operand_complete kind buf' b then
            (let c2 = c1\<lparr>c_phase := FetchOperand opcode kind buf'\<rparr> in Some (c2, code_read c2))
          else (case decode_operand kind buf' of
                  None \<Rightarrow> None
                | Some oper \<Rightarrow> finish_fetch a c1 opcode oper)
      | _ \<Rightarrow> Some (trap_with c (CodeOutOfBounds (c_ip c))))"

definition on_opcode :: "arch \<Rightarrow> core \<Rightarrow> bus_response \<Rightarrow> (core \<times> core_event) option" where
  "on_opcode a c resp =
     (case resp of
        Byte b \<Rightarrow>
          (case operand_kind a b of
             None \<Rightarrow> Some (trap_with c (InvalidOpcode b (c_ip c)))
           | Some kind \<Rightarrow>
               let c1 = c\<lparr>c_ip := c_ip c + 1\<rparr> in
               if kind = KNone then finish_fetch a c1 b ONone
               else let c2 = c1\<lparr>c_phase := FetchOperand b kind []\<rparr> in Some (c2, code_read c2))
      | _ \<Rightarrow> Some (trap_with c (CodeOutOfBounds (c_ip c))))"

section \<open>The transition\<close>

definition resume :: "arch \<Rightarrow> core \<Rightarrow> bus_response \<Rightarrow> (core \<times> core_event) option" where
  "resume a c resp =
     (let c0 = c\<lparr>c_phase := Done\<rparr> in
      case c_phase c of
        FetchOpcode \<Rightarrow> on_opcode a c0 resp
      | FetchOperand opcode kind buf \<Rightarrow> on_operand_byte a c0 opcode kind buf resp
      | Execute ops p \<Rightarrow> step_execute a (c0\<lparr>c_phase := Execute ops p\<rparr>) resp
      | StepAck \<Rightarrow> Some (start c0)
      | Done \<Rightarrow> Some (trap_with c0 (CodeOutOfBounds (c_ip c))))"

end
