(* ===== verification/Core_Safety.thy ===== *)
theory Core_Safety
  imports Vm_Core
begin

text \<open>
  The processor core never panics. An invariant of the reachable states is stated, shown to
  hold at reset and to be kept by every transition, for every instruction table and for every
  response a driver may give, protocol violations included; under it \<open>resume\<close> always returns.
\<close>

section \<open>The invariant\<close>

definition tr_ok :: "core \<Rightarrow> bool" where
  "tr_ok c \<longleftrightarrow> length (c_tr c) = 16 \<and> unat (c_tr_len c) \<le> 16"

definition cache_ok :: "core \<Rightarrow> bool" where
  "cache_ok c \<longleftrightarrow> (\<forall>d. c_frame_cache c = Some d \<longrightarrow> descriptor_ok d)"

definition stack_ok :: "core \<Rightarrow> bool" where
  "stack_ok c \<longleftrightarrow> (c_fr_stack c \<noteq> [] \<longrightarrow> frames_on c)"

text \<open>A non-identity frame is loaded, except while it is being loaded.\<close>

definition frame_ok :: "core \<Rightarrow> bool" where
  "frame_ok c \<longleftrightarrow> (c_fr c \<noteq> 0 \<longrightarrow> frames_on c \<and> c_frame_cache c \<noteq> None)"

definition dev_ok :: "core \<Rightarrow> u8 \<Rightarrow> bool" where
  "dev_ok c vdev \<longleftrightarrow>
     (c_fr c \<noteq> 0 \<longrightarrow> (\<forall>d. c_frame_cache c = Some d \<longrightarrow> unat vdev < length (entries d)))"

fun pending_ok :: "core \<Rightarrow> pending \<Rightarrow> bool" where
  "pending_ok c (PLatch m vdev) \<longleftrightarrow> frame_ok c \<and> dev_ok c vdev"
| "pending_ok c (PReadSlot slot vdev) \<longleftrightarrow> frame_ok c \<and> dev_ok c vdev \<and> unat slot < 16"
| "pending_ok c (PMatch w) \<longleftrightarrow> frame_ok c \<and> match_wf (take (unat (c_tr_len c)) (c_tr c)) w"
| "pending_ok c (PDispatch w) \<longleftrightarrow> frame_ok c \<and> dispatch_wf w"
| "pending_ok c (PEntCheckFrame t s) \<longleftrightarrow> frame_ok c \<and> frames_on c"
| "pending_ok c (PPushFrame t s) \<longleftrightarrow> frame_ok c \<and> frames_on c"
| "pending_ok c (PComposeRead t k buf) \<longleftrightarrow> frames_on c"
| "pending_ok c (PDirectoryRead t k buf) \<longleftrightarrow> frames_on c"
| "pending_ok c (PFrameLoad w t) \<longleftrightarrow> frames_on c \<and> frame_wf w"
| "pending_ok c (PPopPair x) \<longleftrightarrow> frame_ok c \<and> frames_on c"
| "pending_ok c PPop \<longleftrightarrow> frame_ok c \<and> \<not> frames_on c"
| "pending_ok c _ \<longleftrightarrow> frame_ok c"

definition base_ok :: "core \<Rightarrow> bool" where
  "base_ok c \<longleftrightarrow> tr_ok c \<and> cache_ok c \<and> stack_ok c"

definition core_ok :: "core \<Rightarrow> bool" where
  "core_ok c \<longleftrightarrow> base_ok c \<and>
     (case c_phase c of
        Done \<Rightarrow> True
      | Execute ops p \<Rightarrow> pending_ok c p
      | _ \<Rightarrow> frame_ok c)"

lemmas ok_defs = base_ok_def tr_ok_def cache_ok_def stack_ok_def frame_ok_def frames_on_def

lemma pending_ok_phase [simp]: "pending_ok (c\<lparr>c_phase := ph\<rparr>) p = pending_ok c p"
  by (cases p) (auto simp: frame_ok_def frames_on_def dev_ok_def)

lemma ok_phase [simp]:
  "base_ok (c\<lparr>c_phase := ph\<rparr>) = base_ok c"
  "frame_ok (c\<lparr>c_phase := ph\<rparr>) = frame_ok c"
  "frames_on (c\<lparr>c_phase := ph\<rparr>) = frames_on c"
  by (auto simp: ok_defs)

lemma ok_ip [simp]:
  "base_ok (c\<lparr>c_ip := i\<rparr>) = base_ok c"
  "frame_ok (c\<lparr>c_ip := i\<rparr>) = frame_ok c"
  "base_ok (c\<lparr>c_instr_start := i\<rparr>) = base_ok c"
  "frame_ok (c\<lparr>c_instr_start := i\<rparr>) = frame_ok c"
  "base_ok (c\<lparr>c_mr := m\<rparr>) = base_ok c"
  "frame_ok (c\<lparr>c_mr := m\<rparr>) = frame_ok c"
  "base_ok (c\<lparr>c_brk_pending := b\<rparr>) = base_ok c"
  "frame_ok (c\<lparr>c_brk_pending := b\<rparr>) = frame_ok c"
  "frame_ok (c\<lparr>c_tr_len := l\<rparr>) = frame_ok c"
  "frame_ok (c\<lparr>c_tr := v\<rparr>) = frame_ok c"
  "frame_ok (c\<lparr>c_fr_stack := s\<rparr>) = frame_ok c"
  by (auto simp: ok_defs)

lemma core_ok_Done [simp]: "core_ok (c\<lparr>c_phase := Done\<rparr>) = base_ok c"
  by (simp add: core_ok_def)

lemma core_ok_Execute [simp]: "core_ok (c\<lparr>c_phase := Execute ops p\<rparr>) \<longleftrightarrow> base_ok c \<and> pending_ok c p"
  by (simp add: core_ok_def)

lemma core_ok_base: "core_ok c \<Longrightarrow> base_ok c"
  by (simp add: core_ok_def)

section \<open>Settling keeps it\<close>

definition settled_ok :: "settled option \<Rightarrow> bool" where
  "settled_ok r \<longleftrightarrow>
     (case r of None \<Rightarrow> False
      | Some (Proceed c') \<Rightarrow> base_ok c' \<and> frame_ok c'
      | Some (Leave c' e) \<Rightarrow> core_ok c')"

lemma settled_ok_simps [simp]:
  "settled_ok (Some (Proceed c')) \<longleftrightarrow> base_ok c' \<and> frame_ok c'"
  "settled_ok (Some (Leave c' e)) \<longleftrightarrow> core_ok c'"
  "settled_ok None \<longleftrightarrow> False"
  by (auto simp: settled_ok_def)

lemma fail_ok [simp]: "base_ok c \<Longrightarrow> settled_ok (fail c t)"
  by (simp add: fail_def leave_def trap_with_def)

lemma protocol_violation_ok [simp]: "base_ok c \<Longrightarrow> settled_ok (protocol_violation c)"
  by (simp add: protocol_violation_def)

lemma request_in_ok [simp]: "base_ok c \<Longrightarrow> pending_ok c p \<Longrightarrow> settled_ok (request_in c ops p req)"
  by (simp add: request_in_def)

lemma active_frame_ok: "frame_ok c \<Longrightarrow> \<exists>f. active_frame c = Some f"
  by (auto simp: frame_ok_def active_frame_def)

lemma virt_symbol_ok: "frame_ok c \<Longrightarrow> dev_ok c vdev \<Longrightarrow> \<exists>r. virt_symbol c vdev s = Some r"
  by (auto simp: frame_ok_def dev_ok_def virt_symbol_def active_frame_def split: option.splits)

lemma start_compose_read_ok:
  "base_ok c \<Longrightarrow> frames_on c \<Longrightarrow> settled_ok (map_option leave (start_compose_read c ops t s))"
  by (auto simp: start_compose_read_def frames_on_def Let_def leave_def trap_with_def)

lemma start_directory_read_ok:
  "base_ok c \<Longrightarrow> frames_on c \<Longrightarrow> c_fr c \<noteq> 0 \<Longrightarrow>
     settled_ok (map_option leave (start_directory_read c ops t))"
  by (auto simp: start_directory_read_def frames_on_def Let_def leave_def trap_with_def)

lemma start_frame_load_ok:
  "base_ok c \<Longrightarrow> frames_on c \<Longrightarrow> settled_ok (map_option leave (start_frame_load c ops off t))"
  by (simp add: start_frame_load_def frame_feed_fresh leave_def)

lemma settle_ack_ok: "base_ok c \<Longrightarrow> frame_ok c \<Longrightarrow> settled_ok (settle_ack c resp)"
  by (cases resp) (auto simp: settle_ack_def)

lemma settle_latch_ok:
  "base_ok c \<Longrightarrow> pending_ok c (PLatch m vdev) \<Longrightarrow> settled_ok (settle_latch c m vdev resp)"
  using virt_symbol_ok [of c vdev]
  by (cases resp) (auto simp: settle_latch_def split: option.split sum.split)

lemma tr_len_max: "unat (l :: u8) \<le> 16 \<Longrightarrow> unat (s :: u8) < 16 \<Longrightarrow> unat (max l (s + 1)) \<le> 16"
  by (simp add: max_def unat_word_ariths)

lemma settle_read_slot_ok:
  "base_ok c \<Longrightarrow> pending_ok c (PReadSlot slot vdev) \<Longrightarrow> settled_ok (settle_read_slot c slot vdev resp)"
  using virt_symbol_ok [of c vdev] tr_len_max [of "c_tr_len c" slot]
  by (cases resp)
    (auto simp: settle_read_slot_def base_ok_def tr_ok_def cache_ok_def stack_ok_def frames_on_def
      frame_ok_def split: option.split sum.split)

lemma settle_ent_check_ok:
  "base_ok c \<Longrightarrow> pending_ok c p \<Longrightarrow> settled_ok (settle_ent_check a c ops t p resp)"
  by (cases resp) (auto simp: settle_ent_check_def)

lemma settle_push_ok: "base_ok c \<Longrightarrow> frame_ok c \<Longrightarrow> settled_ok (settle_push c t resp)"
  by (cases resp) (auto simp: settle_push_def Let_def ok_defs)

lemma settle_pop_ok: "base_ok c \<Longrightarrow> frame_ok c \<Longrightarrow> settled_ok (settle_pop c resp)"
  by (cases resp) (auto simp: settle_pop_def)

lemma base_ok_push [simp]: "base_ok c \<Longrightarrow> frames_on c \<Longrightarrow> base_ok (c\<lparr>c_fr_stack := s\<rparr>)"
  by (simp add: ok_defs)

lemma frames_on_push [simp]:
  "frames_on (c\<lparr>c_fr_stack := s\<rparr>) = frames_on c" "frames_on (c\<lparr>c_fr := f\<rparr>) = frames_on c"
  "base_ok (c\<lparr>c_fr := f\<rparr>) = base_ok c"
  by (simp_all add: ok_defs)

lemma settle_push_frame_ok:
  "base_ok c \<Longrightarrow> pending_ok c (PPushFrame t s) \<Longrightarrow> settled_ok (settle_push_frame c ops t s resp)"
  by (cases resp) (auto simp: settle_push_frame_def start_compose_read_ok)

lemma settle_compose_read_ok:
  assumes "base_ok c" "frames_on c"
  shows "settled_ok (settle_compose_read c ops t k buf resp)"
proof (cases resp)
  case (Byte b)
  obtain m where m: "c_frames c = Some m" using assms(2) by (auto simp: frames_on_def)
  have "(ucast (x :: u16) :: u32) \<noteq> 0" if "x \<noteq> 0" for x
    using that by (simp add: word_unat_eq_iff)
  then show ?thesis using assms m Byte
    by (simp add: settle_compose_read_def Let_def start_directory_read_ok)
qed (use assms in \<open>auto simp: settle_compose_read_def\<close>)

lemma settle_directory_read_ok:
  "base_ok c \<Longrightarrow> frames_on c \<Longrightarrow> settled_ok (settle_directory_read c ops t k buf resp)"
  by (cases resp) (auto simp: settle_directory_read_def Let_def start_frame_load_ok)

lemma settle_frame_load_ok:
  assumes "base_ok c" "pending_ok c (PFrameLoad w t)"
  shows "settled_ok (settle_frame_load c ops w t resp)"
proof (cases resp)
  case (Byte b)
  have wf: "frame_wf w" using assms(2) by simp
  obtain w' st where f: "frame_feed w (Some b) = Some (w', st)" using fw.feed_total [OF wf] by blast
  show ?thesis
  proof (cases st)
    case (FNeedByte a)
    then have "frame_wf w'" using fw.feed_wf [OF wf f] by simp
    then show ?thesis using assms Byte f FNeedByte by (simp add: settle_frame_load_def)
  next
    case (FrameDone d)
    then have "descriptor_ok d" using frame_feed_done_ok [OF wf] f by simp
    then show ?thesis using assms Byte f FrameDone by (simp add: settle_frame_load_def ok_defs)
  next
    case FMalformed
    then show ?thesis using assms Byte f by (simp add: settle_frame_load_def)
  qed
qed (use assms in \<open>auto simp: settle_frame_load_def\<close>)

lemma settle_pop_pair_ok:
  assumes "base_ok c" "pending_ok c (PPopPair x)"
  shows "settled_ok (settle_pop_pair c ops x resp)"
proof (cases resp)
  case (BusValue v)
  obtain r stk where p: "pop_or_zero (c_fr_stack c) = (r, stk)" by fastforce
  let ?c1 = "c\<lparr>c_fr_stack := stk, c_frame_cache := (if r = 0 then None else c_frame_cache c), c_fr := r\<rparr>"
  have b: "base_ok ?c1" and on: "frames_on ?c1" using assms by (auto simp: ok_defs)
  have "frame_ok ?c1" if "r = 0 \<or> r = c_fr c"
    using that assms by (auto simp: ok_defs)
  then show ?thesis using start_directory_read_ok [OF b on] b BusValue p
    by (auto simp: settle_pop_pair_def Let_def) (auto simp: ok_defs)
qed (use assms in \<open>auto simp: settle_pop_pair_def\<close>)

lemma latched_ok: "base_ok c \<Longrightarrow> latched c = Some (take (unat (c_tr_len c)) (c_tr c))"
  by (simp add: latched_def base_ok_def tr_ok_def)

lemma settle_match_ok:
  assumes "base_ok c" "pending_ok c (PMatch w)"
  shows "settled_ok (settle_match c ops w resp)"
proof (cases resp)
  case (Byte b)
  let ?tr = "take (unat (c_tr_len c)) (c_tr c)"
  have wf: "match_wf ?tr w" using assms(2) by simp
  obtain w' st where f: "match_feed w (Some b) ?tr = Some (w', st)"
    using mw.feed_total [OF wf] by blast
  have "match_wf ?tr w'" if "walk_need st = Some a" for a using mw.feed_wf [OF wf f that] .
  then show ?thesis using assms Byte f
    by (cases st) (auto simp: settle_match_def latched_ok)
qed (use assms in \<open>auto simp: settle_match_def\<close>)

lemma settle_dispatch_ok:
  assumes "base_ok c" "pending_ok c (PDispatch w)"
  shows "settled_ok (settle_dispatch c ops w resp)"
proof (cases resp)
  case (Byte b)
  have wf: "dispatch_wf w" using assms(2) by simp
  obtain w' st where f: "dispatch_feed w (Some b) = Some (w', st)"
    using dw.feed_total [OF wf] by blast
  have "dispatch_wf w'" if "dispatch_need st = Some a" for a using dw.feed_wf [OF wf f that] .
  then show ?thesis using assms Byte f
    by (cases st) (auto simp: settle_dispatch_def)
qed (use assms in \<open>auto simp: settle_dispatch_def\<close>)

lemma settle_ok:
  "base_ok c \<Longrightarrow> pending_ok c p \<Longrightarrow> settled_ok (settle a c ops p resp)"
  by (cases p)
    (simp_all add: settle_ack_ok settle_latch_ok settle_read_slot_ok settle_ent_check_ok settle_push_ok
      settle_pop_ok settle_push_frame_ok settle_compose_read_ok settle_directory_read_ok
      settle_frame_load_ok settle_pop_pair_ok settle_match_ok settle_dispatch_ok)

section \<open>Issuing keeps it\<close>

definition issued_ok :: "core \<Rightarrow> issued option \<Rightarrow> bool" where
  "issued_ok c r \<longleftrightarrow>
     (case r of None \<Rightarrow> False
      | Some (Continue c' ops) \<Rightarrow> base_ok c' \<and> frame_ok c'
      | Some (Await req p) \<Rightarrow> pending_ok c p
      | Some (Exit c' e) \<Rightarrow> core_ok c')"

lemma issued_ok_simps [simp]:
  "issued_ok c None \<longleftrightarrow> False"
  "issued_ok c (Some (Continue c' ops)) \<longleftrightarrow> base_ok c' \<and> frame_ok c'"
  "issued_ok c (Some (Await req p)) \<longleftrightarrow> pending_ok c p"
  "issued_ok c (Some (Exit c' e)) \<longleftrightarrow> core_ok c'"
  by (auto simp: issued_ok_def)

lemma exit_trap_ok [simp]: "base_ok c \<Longrightarrow> issued_ok c' (exit_trap c t)"
  by (simp add: exit_trap_def trap_with_def)

lemma phys_dev_ok:
  assumes "frame_ok c"
  shows "(\<exists>p. phys_dev c dev = Some (Inr p) \<and> dev_ok c dev) \<or> (\<exists>t. phys_dev c dev = Some (Inl t))"
  using assms
  by (auto simp: phys_dev_def active_frame_def frame_ok_def dev_ok_def split: option.splits)

lemma on_dev_ok:
  "base_ok c \<Longrightarrow> frame_ok c \<Longrightarrow> (\<And>p. dev_ok c dev \<Longrightarrow> issued_ok c (Some (k p))) \<Longrightarrow>
     issued_ok c (on_dev c dev k)"
  using phys_dev_ok [of c dev] by (auto simp: on_dev_def)

lemma phys_symbol_ok: "frame_ok c \<Longrightarrow> dev_ok c vdev \<Longrightarrow> \<exists>r. phys_symbol c vdev v = Some r"
  by (auto simp: frame_ok_def dev_ok_def phys_symbol_def active_frame_def split: option.splits)

lemma issue_write_ok: "base_ok c \<Longrightarrow> frame_ok c \<Longrightarrow> issued_ok c (issue_write c dev v)"
  using phys_dev_ok [of c dev] phys_symbol_ok [of c dev v]
  by (auto simp: issue_write_def split: sum.split)

lemma issue_jump_ok: "base_ok c \<Longrightarrow> frame_ok c \<Longrightarrow> issued_ok c (issue_jump c off ops)"
  by (auto simp: issue_jump_def split: sum.split)

lemma issue_call_ok: "base_ok c \<Longrightarrow> (\<And>t. pending_ok c (p t)) \<Longrightarrow> issued_ok c (issue_call c off p)"
  by (auto simp: issue_call_def split: sum.split)

lemma base_ok_tr_len_0 [simp]: "base_ok c \<Longrightarrow> base_ok (c\<lparr>c_tr_len := 0\<rparr>)"
  by (simp add: ok_defs)

lemma issue_read_all_ok: "base_ok c \<Longrightarrow> frame_ok c \<Longrightarrow> issued_ok c (issue_read_all c ops)"
  using active_frame_ok [of c] by (auto simp: issue_read_all_def Let_def)

lemma issue_retx_ok:
  "base_ok c \<Longrightarrow> frame_ok c \<Longrightarrow> frames_on c \<Longrightarrow> issued_ok c (issue_retx c k)"
  using active_frame_ok [of c] by (auto simp: issue_retx_def split: option.split)

lemma issue_match_table_ok: "base_ok c \<Longrightarrow> frame_ok c \<Longrightarrow> issued_ok c (issue_match_table c t)"
  by (simp add: issue_match_table_def latched_ok match_feed_fresh)

lemma issue_dispatch_ok: "base_ok c \<Longrightarrow> frame_ok c \<Longrightarrow> issued_ok c (issue_dispatch c t)"
  by (simp add: issue_dispatch_def dispatch_feed_fresh)

lemma issue_op_ok:
  assumes "base_ok c" and "frame_ok c"
  shows "issued_ok c (issue_op c x ops)"
  using assms
  by (cases x)
    (auto simp: on_dev_ok issue_write_ok issue_jump_ok issue_call_ok issue_read_all_ok issue_retx_ok
      issue_match_table_ok issue_dispatch_ok word_less_nat_alt not_le word_le_nat_alt)

definition result_ok :: "(core \<times> core_event) option \<Rightarrow> bool" where
  "result_ok r \<longleftrightarrow> (case r of None \<Rightarrow> False | Some (c', e) \<Rightarrow> core_ok c')"

lemma result_ok_simps [simp]:
  "result_ok None \<longleftrightarrow> False" "result_ok (Some (c', e)) \<longleftrightarrow> core_ok c'"
  "result_ok (Some p) \<longleftrightarrow> core_ok (fst p)"
  by (auto simp: result_ok_def split: prod.split)

lemma retire_ok [simp]: "base_ok c \<Longrightarrow> frame_ok c \<Longrightarrow> core_ok (fst (retire c))"
  by (simp add: retire_def core_ok_def)

lemma issue_ok: "base_ok c \<Longrightarrow> frame_ok c \<Longrightarrow> result_ok (issue c ops)"
proof (induction c ops rule: issue.induct)
  case (2 c x ops)
  note ok = issue_op_ok [OF 2(2,3), of x ops]
  show ?case
  proof (cases "issue_op c x ops")
    case None
    with ok show ?thesis by simp
  next
    case (Some r)
    with ok 2 show ?thesis by (cases r) auto
  qed
qed simp

section \<open>Every transition keeps it\<close>

lemma step_execute_ok:
  assumes "base_ok c" and "c_phase c = Execute ops p" and "pending_ok c p"
  shows "result_ok (step_execute a c resp)"
proof -
  have "settled_ok (settle a (c\<lparr>c_phase := Done\<rparr>) ops p resp)"
    by (rule settle_ok) (use assms in simp_all)
  then show ?thesis using assms(2)
    by (auto simp: step_execute_def settled_ok_def issue_ok split: option.splits settled.splits)
qed

lemma finish_fetch_ok: "base_ok c \<Longrightarrow> frame_ok c \<Longrightarrow> result_ok (finish_fetch a c opc oper)"
  by (auto simp: finish_fetch_def trap_with_def split: sum.split intro!: step_execute_ok)

lemma decode_complete: "operand_complete kind buf b \<Longrightarrow> \<exists>oper. decode_operand kind buf = Some oper"
proof (cases kind)
  case KWriteMoveVec
  assume "operand_complete kind buf b"
  with KWriteMoveVec have "filter terminated buf \<noteq> []" by auto
  then show ?thesis using KWriteMoveVec by (auto simp: write_move_operand_def filter_empty_conv)
qed auto

lemma on_operand_byte_ok:
  assumes "base_ok c" "frame_ok c"
  shows "result_ok (on_operand_byte a c opc kind buf resp)"
proof (cases resp)
  case (Byte b)
  show ?thesis
  proof (cases "operand_complete kind (buf @ [b]) b")
    case True
    with decode_complete [OF True] Byte assms finish_fetch_ok show ?thesis
      by (auto simp: on_operand_byte_def Let_def)
  next
    case False
    with Byte assms show ?thesis by (simp add: on_operand_byte_def Let_def core_ok_def)
  qed
qed (use assms in \<open>auto simp: on_operand_byte_def trap_with_def\<close>)

lemma on_opcode_ok:
  assumes "base_ok c" "frame_ok c"
  shows "result_ok (on_opcode a c resp)"
  using assms
  by (cases resp)
    (auto simp: on_opcode_def Let_def trap_with_def core_ok_def finish_fetch_ok split: option.split)

lemma resume_ok:
  assumes "core_ok c"
  shows "result_ok (resume a c resp)"
proof (cases "c_phase c")
  case FetchOpcode
  then show ?thesis using assms by (simp add: resume_def core_ok_def on_opcode_ok)
next
  case (FetchOperand opc kind buf)
  then show ?thesis using assms by (simp add: resume_def core_ok_def on_operand_byte_ok)
next
  case (Execute ops p)
  then show ?thesis using assms
    by (auto simp: resume_def core_ok_def intro!: step_execute_ok)
next
  case StepAck
  then show ?thesis using assms by (simp add: resume_def core_ok_def start_def Let_def)
next
  case Done
  then show ?thesis using assms by (simp add: resume_def core_ok_def trap_with_def)
qed

lemma start_ok: "base_ok c \<Longrightarrow> frame_ok c \<Longrightarrow> core_ok (fst (start c))"
  by (simp add: start_def Let_def core_ok_def)

section \<open>Reachable states\<close>

text \<open>
  A machine at reset with any number of devices and with or without the frames profile, then
  any sequence of bus responses.
\<close>

definition core_reset :: "u32 \<Rightarrow> u8 \<Rightarrow> frames_meta option \<Rightarrow> core" where
  "core_reset entry devices meta =
     (let c = with_device_count devices (core_new entry) in
      case meta of None \<Rightarrow> c | Some m \<Rightarrow> with_frames m c)"

inductive core_reach :: "arch \<Rightarrow> core \<Rightarrow> bool" for a where
  reach_start: "core_reach a (fst (start (core_reset entry devices meta)))"
| reach_step: "core_reach a c \<Longrightarrow> resume a c resp = Some (c', e) \<Longrightarrow> core_reach a c'"

lemma core_reset_ok: "base_ok (core_reset entry devices meta)" "frame_ok (core_reset entry devices meta)"
  by (auto simp: core_reset_def core_new_def with_device_count_def with_frames_def Let_def ok_defs
      split: option.split)

lemma core_reach_ok: "core_reach a c \<Longrightarrow> core_ok c"
proof (induction rule: core_reach.induct)
  case (reach_start entry devices meta)
  show ?case by (intro start_ok core_reset_ok)
next
  case (reach_step c resp c' e)
  then show ?case using resume_ok [of c a resp] by simp
qed

end
