(* ===== verification/Core_Progress.thy ===== *)
theory Core_Progress
  imports Core_Safety
begin

text \<open>
  What the core asks for, and that it asks only finitely often. Every request matches the phase
  the core waits in, so that a driver which answers requests never meets a protocol violation;
  and between two instruction boundaries a rank falls with every request.
\<close>

section \<open>Requests match the phase\<close>

fun asks :: "pending \<Rightarrow> bus_request \<Rightarrow> bool" where
  "asks PNone r = False"
| "asks PMove r = (\<exists>d. r = DeviceMoveLeft d \<or> r = DeviceMoveRight d)"
| "asks PWrite r = (\<exists>d i. r = DeviceWrite d i)"
| "asks (PLatch m v) r = (\<exists>d. r = DeviceRead d)"
| "asks (PReadSlot s v) r = (\<exists>d. r = DeviceRead d)"
| "asks (PEntCheck t) r = (r = CodeRead t)"
| "asks (PPush t) r = (\<exists>x. r = StackPush x)"
| "asks PPop r = (r = StackPop)"
| "asks (PMatch w) r = (\<exists>x. r = TableRead x)"
| "asks (PDispatch w) r = (\<exists>x. r = TableRead x)"
| "asks (PEntCheckFrame t s) r = (r = CodeRead t)"
| "asks (PPushFrame t s) r = (\<exists>x. r = StackPush x)"
| "asks (PComposeRead t k buf) r = (\<exists>x. r = FrameRead x)"
| "asks (PDirectoryRead t k buf) r = (\<exists>x. r = FrameRead x)"
| "asks (PFrameLoad w t) r = (\<exists>x. r = FrameRead x)"
| "asks (PPopPair x) r = (r = StackPop)"

text \<open>The event a core has just reported, against the phase it is left in.\<close>

fun event_ok :: "core \<Rightarrow> core_event \<Rightarrow> bool" where
  "event_ok c (Request r) \<longleftrightarrow>
     (case c_phase c of
        FetchOpcode \<Rightarrow> r = CodeRead (c_ip c)
      | FetchOperand opc kind buf \<Rightarrow> r = CodeRead (c_ip c)
      | Execute ops p \<Rightarrow> asks p r
      | _ \<Rightarrow> False)"
| "event_ok c EvStep \<longleftrightarrow> c_phase c = StepAck"
| "event_ok c EvBreak \<longleftrightarrow> c_phase c = StepAck"
| "event_ok c _ \<longleftrightarrow> c_phase c = Done"

lemma trap_with_event_ok [simp]: "event_ok (fst (trap_with c t)) (snd (trap_with c t))"
  by (simp add: trap_with_def)

text \<open>The rank of a pending request, and of a core that executes.\<close>

fun pending_rank :: "pending \<Rightarrow> nat" where
  "pending_rank PNone = 0"
| "pending_rank PMove = 1"
| "pending_rank PWrite = 1"
| "pending_rank (PLatch m v) = 1"
| "pending_rank (PReadSlot s v) = 1"
| "pending_rank (PEntCheck t) = 2"
| "pending_rank (PPush t) = 1"
| "pending_rank PPop = 1"
| "pending_rank (PMatch w) = 1 + match_rank w"
| "pending_rank (PDispatch w) = 1 + dispatch_rank w"
| "pending_rank (PEntCheckFrame t s) = 4456621"
| "pending_rank (PPushFrame t s) = 4456620"
| "pending_rank (PComposeRead t k buf) = 4456610 + (2 - length buf)"
| "pending_rank (PDirectoryRead t k buf) = 4456600 + (4 - length buf)"
| "pending_rank (PFrameLoad w t) = 1 + frame_rank w"
| "pending_rank (PPopPair x) = 4456620"

definition exec_rank :: "micro_op list \<Rightarrow> pending \<Rightarrow> nat" where
  "exec_rank ops p = ops_weight ops * 5000000 + pending_rank p"

lemma frame_rank_new [simp]: "frame_rank (frame_walk_new b) = 4456584"
  by (simp add: frame_rank_def frame_walk_new_def)

section \<open>Settling\<close>

text \<open>A settled request leaves with a matching event, and a further request has a lower rank.\<close>

definition settled_falls :: "nat \<Rightarrow> micro_op list \<Rightarrow> settled option \<Rightarrow> bool" where
  "settled_falls n ops r \<longleftrightarrow>
     (case r of
        Some (Leave c' e) \<Rightarrow> event_ok c' e \<and>
          (\<forall>req. e = Request req \<longrightarrow> (\<exists>p. c_phase c' = Execute ops p \<and> pending_rank p < n))
      | _ \<Rightarrow> True)"

lemma settled_falls_simps [simp]:
  "settled_falls n ops None"
  "settled_falls n ops (Some (Proceed c'))"
  "settled_falls n ops (fail c t)"
  "settled_falls n ops (protocol_violation c)"
  by (simp_all add: settled_falls_def fail_def leave_def trap_with_def protocol_violation_def)

lemma request_in_falls [simp]:
  "settled_falls n ops (request_in c ops p req) \<longleftrightarrow> asks p req \<and> pending_rank p < n"
  by (auto simp: settled_falls_def request_in_def)

lemma start_falls:
  "4456612 < n \<Longrightarrow> settled_falls n ops (map_option leave (start_compose_read c ops t s))"
  "4456604 < n \<Longrightarrow> settled_falls n ops (map_option leave (start_directory_read c ops t))"
  "4456585 < n \<Longrightarrow> settled_falls n ops (map_option leave (start_frame_load c ops off t))"
  by (auto simp: settled_falls_def start_compose_read_def start_directory_read_def
      start_frame_load_def frame_feed_fresh leave_def Let_def trap_with_def split: option.split)

lemma settle_ack_falls [simp]: "settled_falls n ops (settle_ack c resp)"
  by (cases resp) (auto simp: settle_ack_def)

lemma settle_latch_falls [simp]: "settled_falls n ops (settle_latch c m v resp)"
  by (cases resp) (auto simp: settle_latch_def split: option.split sum.split)

lemma settle_read_slot_falls [simp]: "settled_falls n ops (settle_read_slot c s v resp)"
  by (cases resp) (auto simp: settle_read_slot_def split: option.split sum.split)

lemma settle_push_falls [simp]: "settled_falls n ops (settle_push c t resp)"
  by (cases resp) (auto simp: settle_push_def Let_def)

lemma settle_pop_falls [simp]: "settled_falls n ops (settle_pop c resp)"
  by (cases resp) (auto simp: settle_pop_def)

lemma settle_ent_check_falls:
  "asks p (StackPush (c_ip c)) \<Longrightarrow> pending_rank p < n \<Longrightarrow> settled_falls n ops (settle_ent_check a c ops t p resp)"
  by (cases resp) (auto simp: settle_ent_check_def)

lemma settle_push_frame_falls: "4456612 < n \<Longrightarrow> settled_falls n ops (settle_push_frame c ops t s resp)"
  by (cases resp) (auto simp: settle_push_frame_def start_falls)

lemma settle_compose_read_falls:
  "settled_falls (4456610 + (2 - length buf)) ops (settle_compose_read c ops t k buf resp)"
  by (cases resp) (auto simp: settle_compose_read_def Let_def start_falls split: option.split)

lemma settle_directory_read_falls:
  "settled_falls (4456600 + (4 - length buf)) ops (settle_directory_read c ops t k buf resp)"
  by (cases resp) (auto simp: settle_directory_read_def Let_def start_falls split: option.split)

lemma settle_pop_pair_falls: "4456604 < n \<Longrightarrow> settled_falls n ops (settle_pop_pair c ops x resp)"
  by (cases resp) (auto simp: settle_pop_pair_def Let_def start_falls split: prod.split)

lemma settle_frame_load_falls:
  assumes "frame_wf w"
  shows "settled_falls (1 + frame_rank w) ops (settle_frame_load c ops w t resp)"
proof (cases resp)
  case (Byte b)
  obtain w' st where f: "frame_feed w (Some b) = Some (w', st)" using fw.feed_total [OF assms] by blast
  then show ?thesis using Byte fw.feed_rank [OF assms f]
    by (cases st) (auto simp: settle_frame_load_def)
qed (auto simp: settle_frame_load_def)

lemma settle_match_falls:
  assumes "match_wf (take (unat (c_tr_len c)) (c_tr c)) w"
  shows "settled_falls (1 + match_rank w) ops (settle_match c ops w resp)"
proof (cases resp)
  case (Byte b)
  obtain w' st where f: "match_feed w (Some b) (take (unat (c_tr_len c)) (c_tr c)) = Some (w', st)"
    using mw.feed_total [OF assms] by blast
  then show ?thesis using Byte mw.feed_rank [OF assms f]
    by (cases st) (auto simp: settle_match_def latched_def)
qed (auto simp: settle_match_def)

lemma settle_dispatch_falls:
  assumes "dispatch_wf w"
  shows "settled_falls (1 + dispatch_rank w) ops (settle_dispatch c ops w resp)"
proof (cases resp)
  case (Byte b)
  obtain w' st where f: "dispatch_feed w (Some b) = Some (w', st)" using dw.feed_total [OF assms] by blast
  then show ?thesis using Byte dw.feed_rank [OF assms f]
    by (cases st) (auto simp: settle_dispatch_def)
qed (auto simp: settle_dispatch_def)

lemma settle_falls: "pending_ok c p \<Longrightarrow> settled_falls (pending_rank p) ops (settle a c ops p resp)"
  using settle_compose_read_falls settle_directory_read_falls
  by (cases p)
    (simp_all add: settle_ent_check_falls settle_push_frame_falls settle_pop_pair_falls
      settle_frame_load_falls [simplified] settle_match_falls [simplified]
      settle_dispatch_falls [simplified])

section \<open>Issuing\<close>

definition result_falls :: "nat \<Rightarrow> (core \<times> core_event) option \<Rightarrow> bool" where
  "result_falls n r \<longleftrightarrow>
     (case r of None \<Rightarrow> True
      | Some (c', e) \<Rightarrow> event_ok c' e \<and>
          (\<forall>req. e = Request req \<longrightarrow> (\<exists>ops p. c_phase c' = Execute ops p \<and> exec_rank ops p < n)))"

lemma result_falls_simps [simp]:
  "result_falls n None"
  "result_falls n (Some (trap_with c t))"
  "result_falls n (Some (retire c))"
  by (simp_all add: result_falls_def trap_with_def retire_def)

lemma result_falls_mono: "result_falls n r \<Longrightarrow> n \<le> m \<Longrightarrow> result_falls m r"
  by (fastforce simp: result_falls_def split: option.splits)

lemma issue_op_awaits:
  assumes "issue_op c x ops = Some (Await req p)"
  shows "asks p req \<and> pending_rank p < 5000000"
  using assms
  by (cases x)
    (auto simp: issue_write_def issue_jump_def issue_call_def issue_read_all_def issue_match_table_def
      issue_dispatch_def issue_retx_def on_dev_def exit_trap_def trap_with_def Let_def
      match_feed_fresh dispatch_feed_fresh
      split: option.splits sum.splits if_splits)

lemma issue_op_exits:
  assumes "issue_op c x ops = Some (Exit c' e)"
  shows "event_ok c' e \<and> (\<forall>req. e \<noteq> Request req)"
  using assms
  by (cases x)
    (auto simp: issue_write_def issue_jump_def issue_call_def issue_read_all_def issue_match_table_def
      issue_dispatch_def issue_retx_def on_dev_def exit_trap_def trap_with_def Let_def
      match_feed_fresh dispatch_feed_fresh
      split: option.splits sum.splits if_splits)

lemma issue_falls: "result_falls (ops_weight ops * 5000000) (issue c ops)"
proof (induction c ops rule: issue.induct)
  case (2 c x ops)
  show ?case
  proof (cases "issue_op c x ops")
    case (Some r)
    show ?thesis
    proof (cases r)
      case (Continue c' ops')
      have "result_falls (ops_weight ops' * 5000000) (issue c' ops')"
        using 2 [OF Some Continue] .
      moreover have "ops_weight ops' * 5000000 \<le> ops_weight (x # ops) * 5000000"
        using issue_op_weight [of c x ops c' ops'] Some Continue by simp
      ultimately show ?thesis using Some Continue result_falls_mono by (simp del: ops_weight_simps)
    next
      case (Await req p)
      have a: "asks p req" "pending_rank p < 5000000" using issue_op_awaits Some Await by blast+
      have "ops_weight ops + 1 \<le> ops_weight (x # ops)" using op_weight_pos [of x] by (simp add: Suc_le_eq)
      then have "(ops_weight ops + 1) * 5000000 \<le> ops_weight (x # ops) * 5000000" by (rule mult_le_mono1)
      then have "exec_rank ops p < ops_weight (x # ops) * 5000000" using a(2) by (simp add: exec_rank_def)
      then show ?thesis using Some Await a(1) by (simp add: result_falls_def)
    next
      case (Exit c' e)
      then show ?thesis using Some issue_op_exits by (auto simp: result_falls_def)
    qed
  qed simp
qed simp

section \<open>A transition\<close>

lemma step_execute_falls:
  assumes "c_phase c = Execute ops p" and "pending_ok c p"
  shows "result_falls (exec_rank ops p) (step_execute a c resp)"
proof -
  have "pending_ok (c\<lparr>c_phase := Done\<rparr>) p" using assms(2) by simp
  note s = settle_falls [OF this, of ops a resp]
  show ?thesis
  proof (cases "settle a (c\<lparr>c_phase := Done\<rparr>) ops p resp")
    case (Some r)
    show ?thesis
    proof (cases r)
      case (Proceed c')
      have "result_falls (exec_rank ops p) (issue c' ops)"
        using issue_falls by (rule result_falls_mono) (simp add: exec_rank_def)
      then show ?thesis using Some Proceed assms(1) by (simp add: step_execute_def)
    next
      case (Leave c' e)
      then show ?thesis using Some s assms(1)
        by (auto simp: step_execute_def settled_falls_def result_falls_def exec_rank_def)
    qed
  qed (simp add: step_execute_def assms(1))
qed

text \<open>The rank of a core: fetching ranks above executing, and falls with every code byte.\<close>

definition phase_rank :: "core \<Rightarrow> nat \<times> nat" where
  "phase_rank c =
     (case c_phase c of
        FetchOpcode \<Rightarrow> (2, 2 ^ 32 - unat (c_ip c))
      | FetchOperand opc kind buf \<Rightarrow> (2, 2 ^ 32 - unat (c_ip c))
      | Execute ops p \<Rightarrow> (1, exec_rank ops p)
      | _ \<Rightarrow> (0, 0))"

definition rank_less :: "((nat \<times> nat) \<times> (nat \<times> nat)) set" where
  "rank_less = less_than <*lex*> less_than"

lemma wf_rank_less: "wf rank_less"
  by (simp add: rank_less_def wf_lex_prod)

text \<open>What a transition guarantees.\<close>

definition falls_from :: "core \<Rightarrow> (core \<times> core_event) option \<Rightarrow> bool" where
  "falls_from c r \<longleftrightarrow>
     (case r of None \<Rightarrow> True
      | Some (c', e) \<Rightarrow> event_ok c' e \<and>
          (\<forall>req. e = Request req \<longrightarrow> (phase_rank c', phase_rank c) \<in> rank_less))"

lemma falls_from_exec:
  "result_falls n r \<Longrightarrow> fst (phase_rank c) = 2 \<or> phase_rank c = (1, n) \<Longrightarrow> falls_from c r"
  by (cases "phase_rank c")
    (fastforce simp: result_falls_def falls_from_def rank_less_def phase_rank_def split: option.splits)

lemma finish_fetch_falls:
  assumes "base_ok c" "frame_ok c" "fst (phase_rank c0) = 2"
  shows "falls_from c0 (finish_fetch a c opc oper)"
proof (cases "lower a opc oper")
  case (Inl t)
  then show ?thesis by (simp add: finish_fetch_def falls_from_def trap_with_def)
next
  case (Inr ops)
  have "result_falls (exec_rank ops PNone) (step_execute a (c\<lparr>c_phase := Execute ops PNone\<rparr>) BusOk)"
    using assms(2) by (intro step_execute_falls) simp_all
  then show ?thesis using Inr assms(3) by (simp add: finish_fetch_def falls_from_exec)
qed

lemma fetch_rank:
  assumes "unat (c_ip c) + 1 < 2 ^ 32"
  shows "2 ^ 32 - unat (c_ip c + 1) < (2 :: nat) ^ 32 - unat (c_ip c)"
proof -
  have "unat (c_ip c + 1) = unat (c_ip c) + 1" using assms by (simp add: unat_word_ariths)
  then show ?thesis using assms by simp
qed

lemma resume_falls:
  assumes ok: "core_ok c" and ph: "c_phase c \<noteq> StepAck" "c_phase c \<noteq> Done"
    and fetch: "\<And>b. resp = Byte b \<Longrightarrow> (\<forall>ops p. c_phase c \<noteq> Execute ops p) \<Longrightarrow> unat (c_ip c) + 1 < 2 ^ 32"
  shows "falls_from c (resume a c resp)"
proof (cases "c_phase c")
  case FetchOpcode
  then have b: "base_ok c" "frame_ok c" and r: "phase_rank c = (2, 2 ^ 32 - unat (c_ip c))"
    using ok by (simp_all add: core_ok_def phase_rank_def)
  show ?thesis
  proof (cases resp)
    case (Byte x)
    have lt: "2 ^ 32 - unat (c_ip c + 1) < (2 :: nat) ^ 32 - unat (c_ip c)"
      using fetch [OF Byte] FetchOpcode fetch_rank by simp
    have "falls_from c (finish_fetch a (c\<lparr>c_phase := Done, c_ip := c_ip c + 1\<rparr>) x ONone)"
      using b r by (intro finish_fetch_falls) simp_all
    then show ?thesis
      using FetchOpcode Byte r lt
      by (auto simp: resume_def on_opcode_def Let_def falls_from_def trap_with_def rank_less_def
          phase_rank_def code_read_def split: option.split)
  qed (simp_all add: resume_def FetchOpcode on_opcode_def falls_from_def trap_with_def)
next
  case (FetchOperand opc kind buf)
  then have b: "base_ok c" "frame_ok c" and r: "phase_rank c = (2, 2 ^ 32 - unat (c_ip c))"
    using ok by (simp_all add: core_ok_def phase_rank_def)
  show ?thesis
  proof (cases resp)
    case (Byte x)
    have lt: "2 ^ 32 - unat (c_ip c + 1) < (2 :: nat) ^ 32 - unat (c_ip c)"
      using fetch [OF Byte] FetchOperand fetch_rank by simp
    have "falls_from c (finish_fetch a (c\<lparr>c_phase := Done, c_ip := c_ip c + 1\<rparr>) opc oper)" for oper
      using b r by (intro finish_fetch_falls) simp_all
    note complete = this
    show ?thesis
    proof (cases "operand_complete kind (buf @ [x]) x")
      case True
      then show ?thesis
        using FetchOperand Byte complete
        by (cases "decode_operand kind (buf @ [x])")
          (simp_all add: resume_def on_operand_byte_def Let_def, simp add: falls_from_def)
    next
      case False
      then show ?thesis
        using FetchOperand Byte r lt
        by (simp add: resume_def on_operand_byte_def Let_def falls_from_def rank_less_def
            phase_rank_def code_read_def)
    qed
  qed (simp_all add: resume_def FetchOperand on_operand_byte_def falls_from_def trap_with_def)
next
  case (Execute ops p)
  then have p: "pending_ok c p" and r: "phase_rank c = (1, exec_rank ops p)"
    using ok by (simp_all add: core_ok_def phase_rank_def)
  have "result_falls (exec_rank ops p) (step_execute a (c\<lparr>c_phase := Done, c_phase := Execute ops p\<rparr>) resp)"
    using p by (intro step_execute_falls) simp_all
  then show ?thesis using Execute r by (simp add: resume_def falls_from_exec)
qed (use ph in simp_all)

section \<open>The frame-register stack\<close>

text \<open>
  Only a completed push or pop touches the stack of saved frame registers, and nothing turns
  the frames profile on or off.
\<close>

fun fr_stack_after :: "core \<Rightarrow> pending \<Rightarrow> bus_response \<Rightarrow> u32 list" where
  "fr_stack_after c (PPush t) BusOk =
     (if frames_on c then c_fr_stack c @ [c_fr c] else c_fr_stack c)"
| "fr_stack_after c (PPushFrame t s) BusOk = c_fr_stack c @ [c_fr c]"
| "fr_stack_after c (PPopPair x) (BusValue v) = butlast (c_fr_stack c)"
| "fr_stack_after c p resp = c_fr_stack c"

definition keeps_stack :: "core \<Rightarrow> u32 list \<Rightarrow> (core \<times> core_event) option \<Rightarrow> bool" where
  "keeps_stack c stk r \<longleftrightarrow>
     (\<forall>c' e. r = Some (c', e) \<longrightarrow> c_frames c' = c_frames c \<and> c_fr_stack c' = stk)"

definition settled_keeps :: "core \<Rightarrow> u32 list \<Rightarrow> settled option \<Rightarrow> bool" where
  "settled_keeps c stk r \<longleftrightarrow>
     (case r of None \<Rightarrow> True
      | Some (Leave c' e) \<Rightarrow> c_frames c' = c_frames c \<and> c_fr_stack c' = stk
      | Some (Proceed c') \<Rightarrow> c_frames c' = c_frames c \<and> c_fr_stack c' = stk)"

lemma settled_keeps_simps [simp]:
  "settled_keeps c stk None"
  "settled_keeps c stk (Some (Proceed c')) \<longleftrightarrow> c_frames c' = c_frames c \<and> c_fr_stack c' = stk"
  "settled_keeps c stk (fail c' t) \<longleftrightarrow> c_frames c' = c_frames c \<and> c_fr_stack c' = stk"
  "settled_keeps c stk (protocol_violation c') \<longleftrightarrow> c_frames c' = c_frames c \<and> c_fr_stack c' = stk"
  "settled_keeps c stk (request_in c' ops p req) \<longleftrightarrow> c_frames c' = c_frames c \<and> c_fr_stack c' = stk"
  by (simp_all add: settled_keeps_def fail_def leave_def trap_with_def protocol_violation_def
      request_in_def)

lemma start_keeps:
  "c_frames c' = c_frames c \<Longrightarrow> c_fr_stack c' = stk \<Longrightarrow>
     settled_keeps c stk (map_option leave (start_compose_read c' ops t s))"
  "c_frames c' = c_frames c \<Longrightarrow> c_fr_stack c' = stk \<Longrightarrow>
     settled_keeps c stk (map_option leave (start_directory_read c' ops t))"
  "c_frames c' = c_frames c \<Longrightarrow> c_fr_stack c' = stk \<Longrightarrow>
     settled_keeps c stk (map_option leave (start_frame_load c' ops off t))"
  by (auto simp: settled_keeps_def start_compose_read_def start_directory_read_def
      start_frame_load_def frame_feed_fresh leave_def Let_def trap_with_def split: option.split)

lemma settle_simple_keeps:
  "settled_keeps c (c_fr_stack c) (settle_ack c resp)"
  "settled_keeps c (c_fr_stack c) (settle_latch c m v resp)"
  "settled_keeps c (c_fr_stack c) (settle_read_slot c s v resp)"
  "settled_keeps c (c_fr_stack c) (settle_ent_check a c ops t p resp)"
  "settled_keeps c (c_fr_stack c) (settle_pop c resp)"
  by (cases resp; auto simp: settle_ack_def settle_latch_def settle_read_slot_def
      settle_ent_check_def settle_pop_def split: option.split sum.split)+

lemma settle_table_keeps:
  "settled_keeps c (c_fr_stack c) (settle_match c ops w resp)"
  "settled_keeps c (c_fr_stack c) (settle_dispatch c ops d resp)"
  "settled_keeps c (c_fr_stack c) (settle_frame_load c ops f t resp)"
  by (cases resp; auto simp: settle_match_def settle_dispatch_def settle_frame_load_def
      split: option.split walk_step.split dispatch_step.split frame_step.split)+

lemma settle_read_keeps:
  "settled_keeps c (c_fr_stack c) (settle_compose_read c ops t k buf resp)"
  "settled_keeps c (c_fr_stack c) (settle_directory_read c ops t k buf resp)"
  by (cases resp; auto simp: settle_compose_read_def settle_directory_read_def Let_def start_keeps
      split: option.split)+

lemma settle_stack_keeps:
  "settled_keeps c (fr_stack_after c (PPush t) resp) (settle_push c t resp)"
  "settled_keeps c (fr_stack_after c (PPushFrame t s) resp) (settle_push_frame c ops t s resp)"
  "settled_keeps c (fr_stack_after c (PPopPair x) resp) (settle_pop_pair c ops x resp)"
  by (cases resp; auto simp: settle_push_def settle_push_frame_def settle_pop_pair_def pop_or_zero_def
      Let_def start_keeps)+

lemma settle_keeps: "settled_keeps c (fr_stack_after c p resp) (settle a c ops p resp)"
proof (cases p)
  case (PPush t)
  then show ?thesis using settle_stack_keeps(1) by simp
next
  case (PPushFrame t s)
  then show ?thesis using settle_stack_keeps(2) by simp
next
  case (PPopPair x)
  then show ?thesis using settle_stack_keeps(3) by simp
qed (simp_all add: settle_simple_keeps settle_table_keeps settle_read_keeps)

lemma issue_op_keeps:
  "issue_op c x ops = Some (Continue c' ops') \<Longrightarrow> c_frames c' = c_frames c \<and> c_fr_stack c' = c_fr_stack c"
  "issue_op c x ops = Some (Exit c' e) \<Longrightarrow> c_frames c' = c_frames c \<and> c_fr_stack c' = c_fr_stack c"
  by (cases x;
      auto simp: issue_write_def issue_jump_def issue_call_def issue_read_all_def issue_match_table_def
        issue_dispatch_def issue_retx_def on_dev_def exit_trap_def trap_with_def Let_def
        match_feed_fresh dispatch_feed_fresh
      split: option.splits sum.splits if_splits)+

lemma issue_keeps: "keeps_stack c (c_fr_stack c) (issue c ops)"
proof (induction c ops rule: issue.induct)
  case (2 c x ops)
  show ?case
  proof (cases "issue_op c x ops")
    case (Some r)
    show ?thesis
    proof (cases r)
      case (Continue c' ops')
      note k = issue_op_keeps(1) [OF Some [unfolded Continue]]
      show ?thesis using 2 [OF Some Continue] Some Continue by (simp add: keeps_stack_def k)
    next
      case (Exit c' e)
      show ?thesis using issue_op_keeps(2) [OF Some [unfolded Exit]] Some Exit by (simp add: keeps_stack_def)
    qed (use Some in \<open>simp add: keeps_stack_def\<close>)
  qed (simp add: keeps_stack_def)
qed (simp add: keeps_stack_def retire_def)

lemma step_execute_keeps:
  assumes "c_phase c = Execute ops p"
  shows "keeps_stack c (fr_stack_after (c\<lparr>c_phase := Done\<rparr>) p resp) (step_execute a c resp)"
  using settle_keeps [of "c\<lparr>c_phase := Done\<rparr>" p resp a ops] issue_keeps
  by (fastforce simp: step_execute_def assms keeps_stack_def settled_keeps_def
      split: option.splits settled.splits)

lemma fr_stack_after_phase [simp]: "fr_stack_after (c\<lparr>c_phase := ph\<rparr>) p resp = fr_stack_after c p resp"
  by (cases p; cases resp) simp_all

lemma finish_fetch_keeps:
  assumes "finish_fetch a c opc oper = Some (c', e)"
  shows "c_frames c' = c_frames c \<and> c_fr_stack c' = c_fr_stack c"
proof (cases "lower a opc oper")
  case (Inr ops)
  then show ?thesis
    using assms step_execute_keeps [of "c\<lparr>c_phase := Execute ops PNone\<rparr>" ops PNone BusOk a]
    by (simp add: finish_fetch_def keeps_stack_def)
qed (use assms in \<open>auto simp: finish_fetch_def trap_with_def\<close>)

lemma resume_stack:
  assumes "resume a c resp = Some (c', e)"
  shows "c_frames c' = c_frames c \<and> c_fr_stack c' =
    (case c_phase c of Execute ops p \<Rightarrow> fr_stack_after c p resp | _ \<Rightarrow> c_fr_stack c)"
proof (cases "c_phase c")
  case FetchOpcode
  then show ?thesis using assms
    by (cases resp)
      (auto simp: resume_def on_opcode_def trap_with_def Let_def dest!: finish_fetch_keeps
        split: option.splits if_splits)
next
  case (FetchOperand opc kind buf)
  then show ?thesis using assms
    by (cases resp)
      (auto simp: resume_def on_operand_byte_def trap_with_def Let_def dest!: finish_fetch_keeps
        split: option.splits if_splits)
next
  case (Execute ops p)
  have "keeps_stack (c\<lparr>c_phase := Done, c_phase := Execute ops p\<rparr>) (fr_stack_after c p resp)
      (step_execute a (c\<lparr>c_phase := Done, c_phase := Execute ops p\<rparr>) resp)"
    using step_execute_keeps [of "c\<lparr>c_phase := Done, c_phase := Execute ops p\<rparr>" ops p resp a] by simp
  then show ?thesis using assms Execute by (simp add: resume_def keeps_stack_def)
next
  case StepAck
  then show ?thesis using assms by (auto simp: resume_def start_def Let_def)
next
  case Done
  then show ?thesis using assms by (auto simp: resume_def trap_with_def)
qed

end
