(* ===== verification/Ordered_Map.thy ===== *)
theory Ordered_Map
  imports Prelude
begin

text \<open>
  \<open>BTreeMap\<close>: an association list sorted by key, with the contract a client relies on as a
  locale. The tapes keep their pages and cells in one, the debugger its breakpoints.
\<close>

section \<open>The contract of a map\<close>

locale key_store =
  fixes ok :: "'m \<Rightarrow> bool"
    and get :: "'m \<Rightarrow> 'k \<Rightarrow> 'v option"
    and put :: "'k \<Rightarrow> 'v \<Rightarrow> 'm \<Rightarrow> 'm"
    and del :: "'k \<Rightarrow> 'm \<Rightarrow> 'm"
  assumes get_put: "ok m \<Longrightarrow> get (put k v m) = (get m)(k := Some v)"
    and get_del: "ok m \<Longrightarrow> get (del k m) = (get m)(k := None)"
    and ok_put: "ok m \<Longrightarrow> ok (put k v m)"
    and ok_del: "ok m \<Longrightarrow> ok (del k m)"
begin

lemma get_put_same: "ok m \<Longrightarrow> get (put k v m) k = Some v"
  by (simp add: get_put)

lemma put_put: "ok m \<Longrightarrow> get (put k v (put k v' m)) = get (put k v m)"
  by (simp add: get_put ok_put)

lemma put_del: "ok m \<Longrightarrow> get (put k v (del k m)) = get (put k v m)"
  by (simp add: get_put get_del ok_del)

lemma del_put: "ok m \<Longrightarrow> get (del k (put k v m)) = get (del k m)"
  by (simp add: get_put get_del ok_put)

text \<open>An update of a key leaves every property of all other entries.\<close>

lemma ran_put: "ok m \<Longrightarrow> \<forall>k' v'. get m k' = Some v' \<longrightarrow> P k' v' \<Longrightarrow> P k v \<Longrightarrow>
    \<forall>k' v'. get (put k v m) k' = Some v' \<longrightarrow> P k' v'"
  by (simp add: get_put)

lemma ran_del: "ok m \<Longrightarrow> \<forall>k' v'. get m k' = Some v' \<longrightarrow> P k' v' \<Longrightarrow>
    \<forall>k' v'. get (del k m) k' = Some v' \<longrightarrow> P k' v'"
  by (simp add: get_del)

end

section \<open>Sorted association lists\<close>

definition om_ok :: "('k :: linorder \<times> 'v) list \<Rightarrow> bool" where
  "om_ok m \<longleftrightarrow> sorted_wrt (<) (map fst m)"

definition om_get :: "('k :: linorder \<times> 'v) list \<Rightarrow> 'k \<Rightarrow> 'v option" where
  "om_get m = map_of m"

fun om_put :: "'k :: linorder \<Rightarrow> 'v \<Rightarrow> ('k \<times> 'v) list \<Rightarrow> ('k \<times> 'v) list" where
  "om_put k v [] = [(k, v)]"
| "om_put k v ((k', v') # m) =
     (if k < k' then (k, v) # (k', v') # m
      else if k = k' then (k, v) # m
      else (k', v') # om_put k v m)"

definition om_del :: "'k :: linorder \<Rightarrow> ('k \<times> 'v) list \<Rightarrow> ('k \<times> 'v) list" where
  "om_del k m = filter (\<lambda>p. fst p \<noteq> k) m"

lemma om_ok_Nil [simp]: "om_ok []"
  by (simp add: om_ok_def)

lemma om_get_Nil [simp]: "om_get [] k = None"
  by (simp add: om_get_def)

lemma set_om_put: "fst ` set (om_put k v m) = insert k (fst ` set m)"
  by (induction k v m rule: om_put.induct) auto

lemma om_ok_put: "om_ok m \<Longrightarrow> om_ok (om_put k v m)"
proof (induction k v m rule: om_put.induct)
  case (2 k v k' v' m)
  then show ?case using set_om_put [of k v m] by (auto simp: om_ok_def)
qed (simp add: om_ok_def)

lemma om_ok_del: "om_ok m \<Longrightarrow> om_ok (om_del k m)"
  by (induction m) (auto simp: om_ok_def om_del_def)

lemma om_get_put: "om_get (om_put k v m) = (om_get m)(k := Some v)"
  by (induction k v m rule: om_put.induct) (auto simp: om_get_def)

lemma om_get_del: "om_get (om_del k m) = (om_get m)(k := None)"
  by (induction m) (auto simp: om_get_def om_del_def)

interpretation om: key_store om_ok om_get om_put om_del
  by unfold_locales (simp_all add: om_get_put om_get_del om_ok_put om_ok_del)

lemma om_get_Some_iff: "om_ok m \<Longrightarrow> om_get m k = Some v \<longleftrightarrow> (k, v) \<in> set m"
  by (auto simp: om_get_def om_ok_def strict_sorted_iff map_of_eq_Some_iff)

text \<open>Two maps with the same entries are the same list.\<close>

lemma om_ext:
  assumes "om_ok m" "om_ok m'" "om_get m = om_get m'"
  shows "m = m'"
proof -
  have d: "distinct (map fst m)" "distinct (map fst m')" and s: "sorted (map fst m)" "sorted (map fst m')"
    using assms(1,2) by (simp_all add: om_ok_def strict_sorted_iff)
  have "p \<in> set m \<longleftrightarrow> p \<in> set m'" for p
    using om_get_Some_iff [OF assms(1)] om_get_Some_iff [OF assms(2)] assms(3) by (cases p) metis
  then have "set m = set m'" by blast
  then have k: "map fst m = map fst m'" using d s by (intro sorted_distinct_set_unique) auto
  have "m ! i = m' ! i" if "i < length m" for i
  proof -
    have l: "length m = length m'" using k by (metis length_map)
    have f: "fst (m ! i) = fst (m' ! i)" using k that l by (metis nth_map)
    have "om_get m (fst (m ! i)) = Some (snd (m ! i))" "om_get m' (fst (m' ! i)) = Some (snd (m' ! i))"
      using that l om_get_Some_iff [OF assms(1)] om_get_Some_iff [OF assms(2)] by auto
    then show ?thesis using assms(3) f by (simp add: prod_eq_iff)
  qed
  moreover have "length m = length m'" using k by (metis length_map)
  ultimately show ?thesis by (simp add: list_eq_iff_nth_eq)
qed

end
