(* ===== verification/Tapes.thy ===== *)
theory Tapes
  imports Bus Ordered_Map
begin

text \<open>
  The tape devices (\<open>crates/core/src/vm/devices\<close>): the two-symbol \<open>InfiniteTape\<close> packed into
  pages of 64 cells, the \<open>WideTape\<close> of symbol indices, the ring-shaped \<open>AnnularTape\<close> and the
  \<open>StrictTape\<close> decorator. The \<open>Tape\<close> trait is a locale with its contract: every tape is a total
  function from positions to symbols with a head, on a line of \<open>i64\<close> positions or on a ring.
  Each device interprets it, and so does the sum of them that stands for \<open>dyn Tape\<close>.
  An \<open>option\<close> result is \<open>None\<close> where an index of the source is out of range.
\<close>

section \<open>Heads\<close>

text \<open>A tape without a span is a line of \<open>i64\<close> positions, one with a span a ring.\<close>

fun step_right :: "nat option \<Rightarrow> int \<Rightarrow> int" where
  "step_right None h = wrap_i64 (h + 1)"
| "step_right (Some n) h = (if h = int n - 1 then 0 else h + 1)"

fun step_left :: "nat option \<Rightarrow> int \<Rightarrow> int" where
  "step_left None h = wrap_i64 (h - 1)"
| "step_left (Some n) h = (if h = 0 then int n - 1 else h - 1)"

fun position_ok :: "nat option \<Rightarrow> int \<Rightarrow> bool" where
  "position_ok None h = in_i64 h"
| "position_ok (Some n) h = (0 \<le> h \<and> h < int n \<and> n < 2 ^ 32)"

lemma step_right_left: "position_ok s h \<Longrightarrow> step_left s (step_right s h) = h"
  by (cases s) auto

lemma step_left_right: "position_ok s h \<Longrightarrow> step_right s (step_left s h) = h"
  by (cases s) auto

lemma position_ok_step:
  "position_ok s h \<Longrightarrow> position_ok s (step_right s h)"
  "position_ok s h \<Longrightarrow> position_ok s (step_left s h)"
  by (cases s; auto)+

lemma position_in_i64: "position_ok s h \<Longrightarrow> in_i64 h"
  by (cases s) (auto simp: in_i64_def)

section \<open>The contract of a tape\<close>

locale tape =
  fixes ok :: "'t \<Rightarrow> bool"
    and span :: "'t \<Rightarrow> nat option"
    and size :: "'t \<Rightarrow> u32"
    and cells :: "'t \<Rightarrow> int \<Rightarrow> u32"
    and head :: "'t \<Rightarrow> int"
    and left :: "'t \<Rightarrow> 't"
    and right :: "'t \<Rightarrow> 't"
    and read :: "'t \<Rightarrow> u32 option"
    and store :: "'t \<Rightarrow> u32 \<Rightarrow> (device_fault + 't) option"
  assumes head_ok: "ok t \<Longrightarrow> position_ok (span t) (head t)"
    and ok_left: "ok t \<Longrightarrow> ok (left t)"
    and ok_right: "ok t \<Longrightarrow> ok (right t)"
    and head_left: "ok t \<Longrightarrow> head (left t) = step_left (span t) (head t)"
    and head_right: "ok t \<Longrightarrow> head (right t) = step_right (span t) (head t)"
    and cells_left: "ok t \<Longrightarrow> cells (left t) = cells t"
    and cells_right: "ok t \<Longrightarrow> cells (right t) = cells t"
    and span_left: "ok t \<Longrightarrow> span (left t) = span t"
    and span_right: "ok t \<Longrightarrow> span (right t) = span t"
    and size_left: "ok t \<Longrightarrow> size (left t) = size t"
    and size_right: "ok t \<Longrightarrow> size (right t) = size t"
    and read_cell: "ok t \<Longrightarrow> read t = Some (cells t (head t))"
    and cell_bound: "ok t \<Longrightarrow> cells t p < size t"
    and write_total: "ok t \<Longrightarrow> store t i \<noteq> None"
    and write_outside: "ok t \<Longrightarrow> size t \<le> i \<Longrightarrow> store t i = Some (Inl (IndexOutsideAlphabet i))"
    and write_done: "ok t \<Longrightarrow> store t i = Some (Inr t') \<Longrightarrow>
      ok t' \<and> i < size t \<and> cells t' = (cells t)(head t := i) \<and> head t' = head t
        \<and> span t' = span t \<and> size t' = size t"
begin

lemma left_right: "ok t \<Longrightarrow> head (left (right t)) = head t \<and> cells (left (right t)) = cells t"
  by (simp add: head_left head_right ok_right span_right cells_left cells_right step_right_left head_ok)

lemma right_left: "ok t \<Longrightarrow> head (right (left t)) = head t \<and> cells (right (left t)) = cells t"
  by (simp add: head_left head_right ok_left span_left cells_left cells_right step_left_right head_ok)

lemma read_after_write: "ok t \<Longrightarrow> store t i = Some (Inr t') \<Longrightarrow> read t' = Some i"
  using write_done [of t i t'] by (simp add: read_cell)

text \<open>What is written survives a step away and back.\<close>

lemma read_back:
  assumes "ok t" "store t i = Some (Inr t')"
  shows "read (left (right t')) = Some i" "read (right (left t')) = Some i"
  using assms write_done [OF assms] left_right [of t'] right_left [of t']
  by (simp_all add: read_cell ok_left ok_right)

lemma read_in_alphabet: "ok t \<Longrightarrow> read t = Some s \<Longrightarrow> s < size t"
  using cell_bound [of t] by (auto simp: read_cell)

end

section \<open>Bits of a page\<close>

text \<open>\<open>1u64 << bit\<close> and the three bit operations of the packed tapes.\<close>

definition mask_of :: "nat \<Rightarrow> 64 word" where
  "mask_of b = push_bit b 1"

definition bit_set :: "64 word \<Rightarrow> nat \<Rightarrow> bool" where
  "bit_set w b \<longleftrightarrow> w AND mask_of b \<noteq> 0"

lemma bit_mask_of: "bit (mask_of b) i \<longleftrightarrow> i = b \<and> b < 64"
  by (auto simp: mask_of_def bit_exp_iff)

lemma bit_set_iff [simp]: "bit_set w b \<longleftrightarrow> bit w b"
proof
  assume "bit_set w b"
  then obtain i where "bit (w AND mask_of b) i" by (auto simp: bit_set_def bit_eq_iff)
  then show "bit w b" by (auto simp: bit_and_iff bit_mask_of)
next
  assume "bit w b"
  moreover then have "b < 64" using bit_imp_le_length [of w b] by simp
  ultimately have "bit (w AND mask_of b) b" by (simp add: bit_and_iff bit_mask_of)
  then show "bit_set w b" by (metis bit_set_def bit_0_eq bot_apply bot_bool_def)
qed

lemma bit_or_mask: "b < 64 \<Longrightarrow> bit (w OR mask_of b) i \<longleftrightarrow> i = b \<or> bit w i"
  by (auto simp: bit_or_iff bit_mask_of)

lemma bit_and_not_mask: "b < 64 \<Longrightarrow> bit (w AND NOT (mask_of b)) i \<longleftrightarrow> i \<noteq> b \<and> bit w i"
  by (auto simp: bit_and_iff bit_not_iff bit_mask_of dest: bit_imp_le_length)

lemma or_mask_nonzero: "b < 64 \<Longrightarrow> w OR mask_of b \<noteq> 0"
  using bit_or_mask [of b w b] by auto

section \<open>The infinite two-symbol tape\<close>

record inf_tape =
  it_pages :: "(int \<times> 64 word) list"
  it_head :: int

definition it_new :: inf_tape where
  "it_new = \<lparr>it_pages = [], it_head = 0\<rparr>"

text \<open>\<open>div_euclid\<close> and \<open>rem_euclid\<close> by 64 are \<open>div\<close> and \<open>mod\<close>.\<close>

definition page_of :: "int \<Rightarrow> int" where "page_of c = c div 64"
definition bit_of :: "int \<Rightarrow> nat" where "bit_of c = nat (c mod 64)"

definition it_get :: "inf_tape \<Rightarrow> int \<Rightarrow> bool" where
  "it_get t c =
     (case om_get (it_pages t) (page_of c) of None \<Rightarrow> False | Some bits \<Rightarrow> bit_set bits (bit_of c))"

definition it_set :: "inf_tape \<Rightarrow> int \<Rightarrow> bool \<Rightarrow> inf_tape" where
  "it_set t c marked =
     (let pg = page_of c; b = bit_of c in
      if marked then
        t\<lparr>it_pages :=
            om_put pg ((case om_get (it_pages t) pg of None \<Rightarrow> 0 | Some w \<Rightarrow> w) OR mask_of b) (it_pages t)\<rparr>
      else (case om_get (it_pages t) pg of
              None \<Rightarrow> t
            | Some w \<Rightarrow>
                let w' = w AND NOT (mask_of b) in
                if w' = 0 then t\<lparr>it_pages := om_del pg (it_pages t)\<rparr>
                else t\<lparr>it_pages := om_put pg w' (it_pages t)\<rparr>))"

definition it_from_cells :: "bool list \<Rightarrow> int \<Rightarrow> int \<Rightarrow> inf_tape" where
  "it_from_cells ms first head_at =
     foldl (\<lambda>t (i, m). if m then it_set t (wrap_i64 (first + int i)) True else t)
       \<lparr>it_pages = [], it_head = head_at\<rparr> (enumerate 0 ms)"

definition it_page_count :: "inf_tape \<Rightarrow> nat" where
  "it_page_count t = length (it_pages t)"

definition it_marked_cells :: "inf_tape \<Rightarrow> int list" where
  "it_marked_cells t =
     sort (concat (map (\<lambda>(pg, bits).
       map (\<lambda>b. wrap_i64 (pg * 64 + int b)) (filter (bit_set bits) [0..<64])) (it_pages t)))"

definition it_left :: "inf_tape \<Rightarrow> inf_tape" where
  "it_left t = t\<lparr>it_head := wrap_i64 (it_head t - 1)\<rparr>"

definition it_right :: "inf_tape \<Rightarrow> inf_tape" where
  "it_right t = t\<lparr>it_head := wrap_i64 (it_head t + 1)\<rparr>"

definition it_read :: "inf_tape \<Rightarrow> u32" where
  "it_read t = (if it_get t (it_head t) then 1 else 0)"

definition it_alphabet_size :: u32 where "it_alphabet_size = 2"

definition it_write :: "inf_tape \<Rightarrow> u32 \<Rightarrow> device_fault + inf_tape" where
  "it_write t i =
     (if i \<ge> it_alphabet_size then Inl (IndexOutsideAlphabet i)
      else Inr (it_set t (it_head t) (i = 1)))"

definition it_eq :: "inf_tape \<Rightarrow> inf_tape \<Rightarrow> bool" where
  "it_eq a b \<longleftrightarrow> it_marked_cells a = it_marked_cells b \<and> it_head a = it_head b"

subsection \<open>Its invariant\<close>

definition page_in :: "int \<Rightarrow> bool" where
  "page_in pg \<longleftrightarrow> - (2 ^ 57) \<le> pg \<and> pg < 2 ^ 57"

definition it_ok :: "inf_tape \<Rightarrow> bool" where
  "it_ok t \<longleftrightarrow> in_i64 (it_head t) \<and> om_ok (it_pages t)
     \<and> (\<forall>pg w. om_get (it_pages t) pg = Some w \<longrightarrow> page_in pg \<and> w \<noteq> 0)"

lemma it_ok_pages [simp]: "it_ok t \<Longrightarrow> om_ok (it_pages t)"
  by (simp add: it_ok_def)

lemma page_in_page_of: "in_i64 c \<Longrightarrow> page_in (page_of c)"
  by (auto simp: in_i64_def page_in_def page_of_def)

lemma bit_of_bound [simp]: "bit_of c < 64"
  by (simp add: bit_of_def)

lemma same_cell_iff: "page_of c = page_of c' \<and> bit_of c = bit_of c' \<longleftrightarrow> c = c'"
proof
  assume "page_of c = page_of c' \<and> bit_of c = bit_of c'"
  then have "c div 64 = c' div 64" "c mod 64 = c' mod 64"
    by (auto simp: page_of_def bit_of_def eq_nat_nat_iff)
  then show "c = c'" by (metis div_mult_mod_eq)
qed simp

lemma cell_of_page: "page_of (pg * 64 + int b) = pg" "bit_of (pg * 64 + int b) = b" if "b < 64"
  using that by (simp_all add: page_of_def bit_of_def)

lemma it_get_set:
  assumes "om_ok (it_pages t)"
  shows "it_get (it_set t c m) c' = (if c' = c then m else it_get t c')"
proof -
  have ne: "bit_of c' \<noteq> bit_of c" if "c' \<noteq> c" "page_of c' = page_of c"
    using that same_cell_iff [of c' c] by blast
  show ?thesis
    using ne assms
    by (auto simp: it_get_def it_set_def Let_def om.get_put om.get_del bit_or_mask bit_and_not_mask
        split: option.split)
      (metis bit_0_eq bit_and_not_mask bit_of_bound bot_apply bot_bool_def)+
qed

lemma it_ok_set:
  assumes "it_ok t" "in_i64 c"
  shows "it_ok (it_set t c m)"
  using assms page_in_page_of [OF assms(2)] or_mask_nonzero [of "bit_of c"]
  by (auto simp: it_ok_def it_set_def Let_def om.get_put om.get_del om.ok_put om.ok_del
      split: option.split if_splits)

lemma it_head_set [simp]: "it_head (it_set t c m) = it_head t"
  by (simp add: it_set_def Let_def split: option.split)

definition it_cells :: "inf_tape \<Rightarrow> int \<Rightarrow> u32" where
  "it_cells t c = (if it_get t c then 1 else 0)"

interpretation inf: tape it_ok "\<lambda>_. None" "\<lambda>_. it_alphabet_size" it_cells it_head it_left it_right
  "\<lambda>t. Some (it_read t)" "\<lambda>t i. Some (it_write t i)"
proof unfold_locales
  fix t t' i
  assume ok: "it_ok t" and w: "Some (it_write t i) = Some (Inr t')"
  then have lt: "i < 2" and t': "t' = it_set t (it_head t) (i = 1)"
    by (auto simp: it_write_def it_alphabet_size_def not_le split: if_splits)
  have "i = 0 \<or> i = 1"
  proof -
    have "unat i = 0 \<or> unat i = 1" using lt by (auto simp: word_less_nat_alt)
    then show ?thesis by (metis unsigned_0 unsigned_1 word_unat_eq_iff)
  qed
  then have "it_cells t' = (it_cells t)(it_head t := i)"
    using ok by (auto simp: it_cells_def t' it_get_set it_ok_def fun_eq_iff)
  moreover have "in_i64 (it_head t)" using ok by (simp add: it_ok_def)
  then have "it_ok t'" unfolding t' using ok by (intro it_ok_set)
  ultimately show "it_ok t' \<and> i < it_alphabet_size \<and> it_cells t' = (it_cells t)(it_head t := i)
      \<and> it_head t' = it_head t \<and> (None :: nat option) = None \<and> it_alphabet_size = it_alphabet_size"
    using lt by (simp add: t' it_alphabet_size_def)
qed (auto simp: it_ok_def it_left_def it_right_def it_cells_def it_get_def it_read_def it_write_def
    it_alphabet_size_def)

subsection \<open>The representation is canonical\<close>

lemma it_page_bit:
  "it_ok t \<Longrightarrow> b < 64 \<Longrightarrow>
     (case om_get (it_pages t) pg of None \<Rightarrow> False | Some w \<Rightarrow> bit w b) = it_get t (pg * 64 + int b)"
  by (simp add: it_get_def cell_of_page split: option.split)

lemma page_ext:
  fixes x y :: "64 word option"
  assumes "\<And>n. (case x of None \<Rightarrow> False | Some w \<Rightarrow> bit w n) = (case y of None \<Rightarrow> False | Some w \<Rightarrow> bit w n)"
    and "x \<noteq> Some 0" "y \<noteq> Some 0"
  shows "x = y"
proof -
  have zero: "w = 0" if "\<And>n. \<not> bit w n" for w :: "64 word" using that by (auto intro: bit_eqI)
  show ?thesis
  proof (cases x; cases y)
    fix v w
    assume "x = Some v" "y = Some w"
    with assms(1) have "bit v n = bit w n" for n by simp
    then have "v = w" by (auto intro: bit_eqI)
    with \<open>x = Some v\<close> \<open>y = Some w\<close> show ?thesis by simp
  qed (use assms zero in auto)
qed

text \<open>Two tapes with the same cells and head are the same value: no page is ever blank.\<close>

lemma it_ext:
  assumes "it_ok a" "it_ok b" "it_get a = it_get b" "it_head a = it_head b"
  shows "a = b"
proof -
  have "om_get (it_pages a) pg = om_get (it_pages b) pg" for pg
  proof -
    let ?bits = "\<lambda>t n. (case om_get (it_pages t) pg of None \<Rightarrow> False | Some w \<Rightarrow> bit w n)"
    have "?bits a n = ?bits b n" for n
    proof (cases "n < 64")
      case True
      then show ?thesis using it_page_bit [OF assms(1)] it_page_bit [OF assms(2)] assms(3) by metis
    next
      case False
      then show ?thesis by (auto split: option.split dest: bit_imp_le_length)
    qed
    moreover have "om_get (it_pages a) pg \<noteq> Some 0" "om_get (it_pages b) pg \<noteq> Some 0"
      using assms(1,2) by (auto simp: it_ok_def)
    ultimately show ?thesis by (intro page_ext)
  qed
  then have "it_pages a = it_pages b" using assms(1,2) by (intro om_ext) (auto simp: it_ok_def)
  then show ?thesis using assms(4) by (cases a; cases b) simp
qed

lemma set_marked_cells:
  assumes "it_ok t"
  shows "set (it_marked_cells t) = {c. in_i64 c \<and> it_get t c}"
proof -
  have cell: "wrap_i64 (pg * 64 + int b) = pg * 64 + int b \<and> in_i64 (pg * 64 + int b)"
    if "om_get (it_pages t) pg = Some w" "b < 64" for pg w b
  proof -
    have "page_in pg" using assms that by (auto simp: it_ok_def)
    then have "in_i64 (pg * 64 + int b)" using that(2) by (auto simp: page_in_def in_i64_def)
    then show ?thesis by simp
  qed
  have ok: "om_ok (it_pages t)" using assms by (simp add: it_ok_def)
  have "c \<in> set (it_marked_cells t) \<longleftrightarrow>
      (\<exists>pg w b. om_get (it_pages t) pg = Some w \<and> b < 64 \<and> bit w b \<and> c = pg * 64 + int b)" for c
    using cell by (force simp: it_marked_cells_def om_get_Some_iff [OF ok])
  moreover have "(\<exists>pg w b. om_get (it_pages t) pg = Some w \<and> b < 64 \<and> bit w b \<and> c = pg * 64 + int b)
      \<longleftrightarrow> in_i64 c \<and> it_get t c" for c
  proof
    assume "\<exists>pg w b. om_get (it_pages t) pg = Some w \<and> b < 64 \<and> bit w b \<and> c = pg * 64 + int b"
    then show "in_i64 c \<and> it_get t c" using cell by (auto simp: it_get_def cell_of_page)
  next
    assume c: "in_i64 c \<and> it_get t c"
    then obtain w where "om_get (it_pages t) (page_of c) = Some w" "bit w (bit_of c)"
      by (auto simp: it_get_def split: option.splits)
    moreover have "c = page_of c * 64 + int (bit_of c)" by (simp add: page_of_def bit_of_def)
    ultimately show "\<exists>pg w b. om_get (it_pages t) pg = Some w \<and> b < 64 \<and> bit w b \<and> c = pg * 64 + int b"
      using bit_of_bound by blast
  qed
  ultimately show ?thesis by blast
qed

lemma it_get_in_i64: "it_ok t \<Longrightarrow> it_get t c \<Longrightarrow> in_i64 c"
proof -
  assume ok: "it_ok t" and g: "it_get t c"
  then have "page_in (page_of c)" by (auto simp: it_get_def it_ok_def split: option.splits)
  then show ?thesis by (auto simp: page_in_def page_of_def in_i64_def)
qed

text \<open>The source's \<open>PartialEq\<close> is equality of values.\<close>

lemma it_eq_iff:
  assumes "it_ok a" "it_ok b"
  shows "it_eq a b \<longleftrightarrow> a = b"
proof
  assume "it_eq a b"
  then have m: "set (it_marked_cells a) = set (it_marked_cells b)" and h: "it_head a = it_head b"
    by (simp_all add: it_eq_def)
  have "it_get a c = it_get b c" for c
    using m it_get_in_i64 [OF assms(1)] it_get_in_i64 [OF assms(2)]
    unfolding set_marked_cells [OF assms(1)] set_marked_cells [OF assms(2)] by blast
  then show "a = b" using assms h by (intro it_ext) auto
qed (simp add: it_eq_def)

subsection \<open>Snapshots\<close>

text \<open>\<open>TapeSnapshot\<close> of \<open>formats/tapeblock.rs\<close>: an optional alphabet of glyphs, as UTF-8 bytes.\<close>

record tape_snapshot =
  ts_origin :: int
  ts_cells :: "u8 list"
  ts_head :: int
  ts_alphabet :: "u8 list list option"

definition it_from_snapshot :: "tape_snapshot \<Rightarrow> device_fault + inf_tape" where
  "it_from_snapshot s =
     (case find (\<lambda>c. c > 1) (ts_cells s) of
        Some bad \<Rightarrow> Inl (IndexOutsideAlphabet (ucast bad))
      | None \<Rightarrow> Inr (it_from_cells (map (\<lambda>c. c = 1) (ts_cells s)) (ts_origin s) (ts_head s)))"

text \<open>The bounds of the dense part: the marked cells and the head.\<close>

definition lowest :: "int list \<Rightarrow> int \<Rightarrow> int" where
  "lowest marks at = min (case marks of [] \<Rightarrow> at | m # _ \<Rightarrow> m) at"

definition highest :: "int list \<Rightarrow> int \<Rightarrow> int" where
  "highest marks at = max (if marks = [] then at else last marks) at"

definition it_to_snapshot :: "inf_tape \<Rightarrow> tape_snapshot" where
  "it_to_snapshot t =
     (let marks = it_marked_cells t; lo = lowest marks (it_head t); hi = highest marks (it_head t) in
      \<lparr>ts_origin = lo, ts_cells = map (\<lambda>c. if it_get t c then 1 else 0) [lo..hi],
       ts_head = it_head t, ts_alphabet = None\<rparr>)"

lemma lowest_le: "sorted marks \<Longrightarrow> m \<in> set marks \<Longrightarrow> lowest marks at \<le> m" "lowest marks at \<le> at"
  by (cases marks; auto simp: lowest_def)+

lemma highest_ge: "sorted marks \<Longrightarrow> m \<in> set marks \<Longrightarrow> m \<le> highest marks at" "at \<le> highest marks at"
  by (cases marks rule: rev_cases; auto simp: highest_def sorted_append)+

lemma lowest_in: "\<forall>m \<in> set marks. in_i64 m \<Longrightarrow> in_i64 at \<Longrightarrow> in_i64 (lowest marks at)"
  by (cases marks) (auto simp: lowest_def in_i64_def)

lemma highest_in: "\<forall>m \<in> set marks. in_i64 m \<Longrightarrow> in_i64 at \<Longrightarrow> in_i64 (highest marks at)"
  by (auto simp: highest_def in_i64_def max_def)

lemma it_ok_blank: "in_i64 h \<Longrightarrow> it_ok \<lparr>it_pages = [], it_head = h\<rparr>"
  by (simp add: it_ok_def)

text \<open>Filling a tape cell by cell.\<close>

lemma it_fill:
  assumes "it_ok t" and "\<And>i. i < n + length ms \<Longrightarrow> in_i64 (first + int i)"
  shows "it_ok (foldl (\<lambda>t (i, m). if m then it_set t (wrap_i64 (first + int i)) True else t) t (enumerate n ms))
    \<and> it_head (foldl (\<lambda>t (i, m). if m then it_set t (wrap_i64 (first + int i)) True else t) t (enumerate n ms))
        = it_head t
    \<and> (\<forall>c. it_get (foldl (\<lambda>t (i, m). if m then it_set t (wrap_i64 (first + int i)) True else t) t (enumerate n ms)) c
        \<longleftrightarrow> (\<exists>i < length ms. ms ! i \<and> c = first + int (n + i)) \<or> it_get t c)"
    (is "?P t n ms")
  using assms
proof (induction ms arbitrary: t n)
  case (Cons m ms)
  let ?t = "if m then it_set t (first + int n) True else t"
  have c: "in_i64 (first + int n)" using Cons.prems(2) [of n] by simp
  have t: "it_ok ?t" "it_head ?t = it_head t"
    and g: "it_get ?t x \<longleftrightarrow> m \<and> x = first + int n \<or> it_get t x" for x
    using Cons.prems(1) c by (auto simp: it_ok_set it_get_set)
  have "?P ?t (Suc n) ms" by (rule Cons.IH) (use t Cons.prems(2) in auto)
  moreover have "(\<exists>i < length (m # ms). (m # ms) ! i \<and> x = first + int (n + i)) \<longleftrightarrow>
      m \<and> x = first + int n \<or> (\<exists>i < length ms. ms ! i \<and> x = first + int (Suc n + i))" for x
    by (auto simp: less_Suc_eq_0_disj)
  ultimately show ?case using c t(2) g by auto
qed simp

lemma it_from_cells_props:
  assumes "in_i64 at" and "\<And>i. i < length ms \<Longrightarrow> in_i64 (first + int i)"
  shows "it_ok (it_from_cells ms first at)" "it_head (it_from_cells ms first at) = at"
    "it_get (it_from_cells ms first at) c \<longleftrightarrow> (\<exists>i < length ms. ms ! i \<and> c = first + int i)"
  using it_fill [OF it_ok_blank [OF assms(1)], of 0 ms first] assms(2)
  by (auto simp: it_from_cells_def it_get_def)

lemma sorted_marked: "sorted (it_marked_cells t)"
  by (simp add: it_marked_cells_def)

text \<open>
  The snapshot of an infinite tape is the tape. Reading back what \<open>to_snapshot\<close> writes gives
  the same pages and the same head, for every tape of the program, marks at the ends of the
  coordinate range included.
\<close>

theorem it_snapshot_roundtrip:
  assumes "it_ok t"
  shows "it_from_snapshot (it_to_snapshot t) = Inr t"
proof -
  let ?m = "it_marked_cells t" and ?h = "it_head t"
  let ?lo = "lowest ?m ?h" and ?hi = "highest ?m ?h"
  have m: "set ?m = {c. it_get t c}"
    using set_marked_cells [OF assms] it_get_in_i64 [OF assms] by auto
  have h: "in_i64 ?h" using assms by (simp add: it_ok_def)
  have all: "\<forall>c \<in> set ?m. in_i64 c" using set_marked_cells [OF assms] by auto
  have lo: "in_i64 ?lo" and hi: "in_i64 ?hi" using lowest_in [OF all h] highest_in [OF all h] by auto
  have le: "?lo \<le> ?hi" using lowest_le(2) [of ?m ?h] highest_ge(2) [of ?h ?m] by linarith
  define ms where "ms = map (it_get t) [?lo..?hi]"
  have in_range: "in_i64 (?lo + int i)" if "i < length ms" for i
    using that lo hi by (auto simp: ms_def in_i64_def)
  note p = it_from_cells_props [OF h, of ms ?lo, OF in_range]
  have "it_get (it_from_cells ms ?lo ?h) c \<longleftrightarrow> it_get t c" for c
  proof -
    have "(\<exists>i < length ms. ms ! i \<and> c = ?lo + int i) \<longleftrightarrow> ?lo \<le> c \<and> c \<le> ?hi \<and> it_get t c"
    proof
      assume "\<exists>i < length ms. ms ! i \<and> c = ?lo + int i"
      then show "?lo \<le> c \<and> c \<le> ?hi \<and> it_get t c" by (auto simp: ms_def nth_upto)
    next
      assume c: "?lo \<le> c \<and> c \<le> ?hi \<and> it_get t c"
      then have "nat (c - ?lo) < length ms \<and> ms ! nat (c - ?lo) \<and> c = ?lo + int (nat (c - ?lo))"
        by (simp add: ms_def nth_upto)
      then show "\<exists>i < length ms. ms ! i \<and> c = ?lo + int i" by blast
    qed
    moreover have "it_get t c \<Longrightarrow> ?lo \<le> c \<and> c \<le> ?hi"
      using m lowest_le(1) [OF sorted_marked] highest_ge(1) [OF sorted_marked] by auto
    ultimately show ?thesis using p(3) [of c] by blast
  qed
  then have "it_from_cells ms ?lo ?h = t" using p(1,2) assms by (intro it_ext) auto
  moreover have "find (\<lambda>c. c > 1) (ts_cells (it_to_snapshot t)) = None"
    by (auto simp: it_to_snapshot_def find_None_iff Let_def)
  moreover have "map (\<lambda>c. c = 1) (ts_cells (it_to_snapshot t)) = ms"
    by (simp add: it_to_snapshot_def Let_def ms_def comp_def)
  ultimately show ?thesis
    by (simp add: it_from_snapshot_def) (simp add: it_to_snapshot_def Let_def)
qed

theorem it_snapshot_roundtrip_witness:
  "it_from_snapshot (it_to_snapshot (it_from_cells [True, False, True] (- 65) 3)) =
     Inr (it_from_cells [True, False, True] (- 65) 3)"
proof (rule it_snapshot_roundtrip)
  have "in_i64 3" by (simp add: in_i64_def)
  then show "it_ok (it_from_cells [True, False, True] (- 65) 3)"
    using it_from_cells_props [of 3 "[True, False, True]" "- 65"] by (simp add: in_i64_def)
qed

section \<open>The wide tape\<close>

record wide_tape =
  wt_map :: "(int \<times> u32) list"
  wt_width :: u32
  wt_head :: int

text \<open>The constructor asserts its width.\<close>

definition wt_new :: "u32 \<Rightarrow> wide_tape option" where
  "wt_new width =
     (if 1 \<le> width \<and> width \<le> 256 then Some \<lparr>wt_map = [], wt_width = width, wt_head = 0\<rparr> else None)"

definition wt_nonblank_cells :: "wide_tape \<Rightarrow> int list" where
  "wt_nonblank_cells t = sort (map fst (wt_map t))"

definition wt_get :: "wide_tape \<Rightarrow> int \<Rightarrow> u32" where
  "wt_get t c = (case om_get (wt_map t) c of None \<Rightarrow> 0 | Some v \<Rightarrow> v)"

definition wt_set :: "wide_tape \<Rightarrow> int \<Rightarrow> u32 \<Rightarrow> wide_tape" where
  "wt_set t c i =
     (if i = 0 then t\<lparr>wt_map := om_del c (wt_map t)\<rparr> else t\<lparr>wt_map := om_put c i (wt_map t)\<rparr>)"

definition wt_from_snapshot :: "tape_snapshot \<Rightarrow> u32 \<Rightarrow> (device_fault + wide_tape) option" where
  "wt_from_snapshot s width =
     (case find (\<lambda>c. ucast c \<ge> width) (ts_cells s) of
        Some bad \<Rightarrow> Some (Inl (IndexOutsideAlphabet (ucast bad)))
      | None \<Rightarrow>
          (case wt_new width of
             None \<Rightarrow> None
           | Some t \<Rightarrow>
               Some (Inr (foldl (\<lambda>t (i, cell). wt_set t (wrap_i64 (ts_origin s + int i)) (ucast cell))
                 (t\<lparr>wt_head := ts_head s\<rparr>) (enumerate 0 (ts_cells s))))))"

text \<open>Narrowing a cell to a byte panics on an index above 255.\<close>

fun narrow_cells :: "u32 list \<Rightarrow> u8 list option" where
  "narrow_cells [] = Some []"
| "narrow_cells (v # vs) =
     (if v \<le> 255 then map_option ((#) (ucast v)) (narrow_cells vs) else None)"

definition wt_to_snapshot :: "wide_tape \<Rightarrow> tape_snapshot option" where
  "wt_to_snapshot t =
     (let marks = wt_nonblank_cells t; lo = lowest marks (wt_head t); hi = highest marks (wt_head t) in
      map_option (\<lambda>cs. \<lparr>ts_origin = lo, ts_cells = cs, ts_head = wt_head t, ts_alphabet = None\<rparr>)
        (narrow_cells (map (wt_get t) [lo..hi])))"

definition wt_eq :: "wide_tape \<Rightarrow> wide_tape \<Rightarrow> bool" where
  "wt_eq a b \<longleftrightarrow> wt_map a = wt_map b \<and> wt_head a = wt_head b"

definition wt_left :: "wide_tape \<Rightarrow> wide_tape" where
  "wt_left t = t\<lparr>wt_head := wrap_i64 (wt_head t - 1)\<rparr>"

definition wt_right :: "wide_tape \<Rightarrow> wide_tape" where
  "wt_right t = t\<lparr>wt_head := wrap_i64 (wt_head t + 1)\<rparr>"

definition wt_read :: "wide_tape \<Rightarrow> u32" where
  "wt_read t = wt_get t (wt_head t)"

definition wt_write :: "wide_tape \<Rightarrow> u32 \<Rightarrow> device_fault + wide_tape" where
  "wt_write t i =
     (if i \<ge> wt_width t then Inl (IndexOutsideAlphabet i) else Inr (wt_set t (wt_head t) i))"

subsection \<open>Its invariant\<close>

definition wt_ok :: "wide_tape \<Rightarrow> bool" where
  "wt_ok t \<longleftrightarrow> in_i64 (wt_head t) \<and> om_ok (wt_map t) \<and> 1 \<le> wt_width t \<and> wt_width t \<le> 256
     \<and> (\<forall>c v. om_get (wt_map t) c = Some v \<longrightarrow> in_i64 c \<and> v \<noteq> 0 \<and> v < wt_width t)"

lemma wt_ok_map [simp]: "wt_ok t \<Longrightarrow> om_ok (wt_map t)"
  by (simp add: wt_ok_def)

lemma wt_get_set: "om_ok (wt_map t) \<Longrightarrow> wt_get (wt_set t c i) = (wt_get t)(c := i)"
  by (auto simp: wt_get_def wt_set_def om.get_put om.get_del fun_eq_iff)

lemma wt_set_keeps [simp]: "wt_head (wt_set t c i) = wt_head t" "wt_width (wt_set t c i) = wt_width t"
  by (simp_all add: wt_set_def)

lemma wt_ok_set: "wt_ok t \<Longrightarrow> in_i64 c \<Longrightarrow> i < wt_width t \<Longrightarrow> wt_ok (wt_set t c i)"
  by (auto simp: wt_ok_def wt_set_def om.get_put om.get_del om.ok_put om.ok_del split: if_splits)

lemma wt_get_bound: "wt_ok t \<Longrightarrow> wt_get t c < wt_width t"
  by (auto simp: wt_ok_def wt_get_def split: option.split) (simp add: word_less_nat_alt word_le_nat_alt)

interpretation wide: tape wt_ok "\<lambda>_. None" wt_width wt_get wt_head wt_left wt_right
  "\<lambda>t. Some (wt_read t)" "\<lambda>t i. Some (wt_write t i)"
proof unfold_locales
  fix t t' i
  assume ok: "wt_ok t" and w: "Some (wt_write t i) = Some (Inr t')"
  then have lt: "i < wt_width t" and t': "t' = wt_set t (wt_head t) i"
    by (auto simp: wt_write_def not_le split: if_splits)
  have "in_i64 (wt_head t)" using ok by (simp add: wt_ok_def)
  then have "wt_ok t'" using ok lt by (simp add: t' wt_ok_set)
  then show "wt_ok t' \<and> i < wt_width t \<and> wt_get t' = (wt_get t)(wt_head t := i)
      \<and> wt_head t' = wt_head t \<and> (None :: nat option) = None \<and> wt_width t' = wt_width t"
    using ok lt by (simp add: t' wt_get_set)
qed (auto simp: wt_ok_def wt_left_def wt_right_def wt_get_def fun_eq_iff wt_read_def wt_write_def
    intro: wt_get_bound [unfolded wt_ok_def wt_get_def])

lemma wt_ext:
  assumes "wt_ok a" "wt_ok b" "wt_get a = wt_get b" "wt_head a = wt_head b" "wt_width a = wt_width b"
  shows "a = b"
proof -
  have "om_get (wt_map a) c = om_get (wt_map b) c" for c
    using fun_cong [OF assms(3), of c] assms(1,2)
    by (auto simp: wt_get_def wt_ok_def split: option.splits)
  then have "wt_map a = wt_map b" using assms(1,2) by (intro om_ext) auto
  then show ?thesis using assms(4,5) by (cases a; cases b) simp
qed

lemma wt_fill:
  assumes "wt_ok t" and "\<And>i. i < n + length cs \<Longrightarrow> in_i64 (first + int i)"
    and "\<forall>c \<in> set cs. ucast c < wt_width t"
  shows "wt_ok (foldl (\<lambda>t (i, c). wt_set t (wrap_i64 (first + int i)) (ucast c)) t (enumerate n cs))
    \<and> wt_head (foldl (\<lambda>t (i, c). wt_set t (wrap_i64 (first + int i)) (ucast c)) t (enumerate n cs)) = wt_head t
    \<and> wt_width (foldl (\<lambda>t (i, c). wt_set t (wrap_i64 (first + int i)) (ucast c)) t (enumerate n cs)) = wt_width t
    \<and> (\<forall>x. wt_get (foldl (\<lambda>t (i, c). wt_set t (wrap_i64 (first + int i)) (ucast c)) t (enumerate n cs)) x =
         (if first + int n \<le> x \<and> x < first + int (n + length cs) then ucast (cs ! nat (x - first - int n))
          else wt_get t x))"
    (is "?P t n cs")
  using assms
proof (induction cs arbitrary: t n)
  case (Cons c cs)
  let ?t = "wt_set t (first + int n) (ucast c)"
  have i: "in_i64 (first + int n)" using Cons.prems(2) [of n] by simp
  have t: "wt_ok ?t" using Cons.prems(1,3) i by (simp add: wt_ok_set)
  have "?P ?t (Suc n) cs" by (rule Cons.IH) (use t Cons.prems(2,3) in auto)
  moreover have "(c # cs) ! nat (x - first - int n) = cs ! nat (x - first - int (Suc n))"
    if "first + int (Suc n) \<le> x" for x
  proof -
    have "nat (x - first - int n) = Suc (nat (x - first - int (Suc n)))" using that by simp
    then show ?thesis by simp
  qed
  ultimately show ?case using i Cons.prems(1) by (auto simp: wt_get_set)
next
  case Nil
  then show ?case by auto
qed

lemma narrow_cells_fits: "\<forall>v \<in> set vs. v \<le> 255 \<Longrightarrow> narrow_cells vs = Some (map ucast vs)"
  by (induction vs) auto

lemma ucast_narrow: "v \<le> (255 :: u32) \<Longrightarrow> ucast (ucast v :: u8) = v"
  by (simp only: word_unat_eq_iff unat_ucast_u8)
    (simp add: unsigned_ucast_eq word_le_nat_alt take_bit_nat_eq_self_iff)

lemma set_nonblank:
  assumes "wt_ok t"
  shows "set (wt_nonblank_cells t) = {c. wt_get t c \<noteq> 0}"
proof -
  have "set (wt_nonblank_cells t) = dom (om_get (wt_map t))"
    by (simp add: wt_nonblank_cells_def om_get_def dom_map_of_conv_image_fst)
  also have "\<dots> = {c. wt_get t c \<noteq> 0}"
    using assms by (auto simp: wt_get_def wt_ok_def split: option.splits)
  finally show ?thesis .
qed

text \<open>
  The snapshot of a wide tape is the tape. \<open>to_snapshot\<close> never meets an index that does not
  fit a byte, and reading its result back over the same alphabet gives the same tape.
\<close>

theorem wt_snapshot_roundtrip:
  assumes "wt_ok t"
  shows "\<exists>s. wt_to_snapshot t = Some s \<and> wt_from_snapshot s (wt_width t) = Some (Inr t)"
proof -
  let ?m = "wt_nonblank_cells t" and ?h = "wt_head t"
  let ?lo = "lowest ?m ?h" and ?hi = "highest ?m ?h"
  note m = set_nonblank [OF assms]
  have sm: "sorted ?m" by (simp add: wt_nonblank_cells_def)
  have h: "in_i64 ?h" and wd: "1 \<le> wt_width t" "wt_width t \<le> 256" using assms by (auto simp: wt_ok_def)
  have all: "\<forall>c \<in> set ?m. in_i64 c"
    using assms m by (auto simp: wt_ok_def wt_get_def split: option.splits)
  have lo: "in_i64 ?lo" and hi: "in_i64 ?hi" using lowest_in [OF all h] highest_in [OF all h] by auto
  have le: "?lo \<le> ?hi" using lowest_le(2) [of ?m ?h] highest_ge(2) [of ?h ?m] by linarith
  have byte: "wt_get t c \<le> 255" for c
    using wt_get_bound [OF assms, of c] wd(2) by (simp add: word_less_nat_alt word_le_nat_alt)
  define cs where "cs = map (\<lambda>c. ucast (wt_get t c) :: u8) [?lo..?hi]"
  have widen: "ucast (cs ! i) = wt_get t (?lo + int i)" if "i < length cs" for i
    using that byte by (simp add: cs_def nth_upto ucast_narrow)
  have snap: "wt_to_snapshot t =
      Some \<lparr>ts_origin = ?lo, ts_cells = cs, ts_head = ?h, ts_alphabet = None\<rparr>" (is "_ = Some ?s")
    using byte by (simp add: wt_to_snapshot_def Let_def cs_def narrow_cells_fits comp_def)
  have inside: "ucast c < wt_width t" if "c \<in> set cs" for c
    using that byte wt_get_bound [OF assms] by (auto simp: cs_def ucast_narrow)
  then have nobad: "find (\<lambda>c. ucast c \<ge> wt_width t) cs = None"
    by (auto simp: find_None_iff not_le)
  let ?blank = "\<lparr>wt_map = [], wt_width = wt_width t, wt_head = ?h\<rparr>"
  let ?filled = "foldl (\<lambda>t (i, c). wt_set t (wrap_i64 (?lo + int i)) (ucast c)) ?blank (enumerate 0 cs)"
  have "wt_ok ?blank" using h wd by (simp add: wt_ok_def)
  moreover have "in_i64 (?lo + int i)" if "i < 0 + length cs" for i
    using that lo hi by (auto simp: cs_def in_i64_def)
  ultimately have p: "wt_ok ?filled \<and> wt_head ?filled = ?h \<and> wt_width ?filled = wt_width t \<and>
      (\<forall>x. wt_get ?filled x = (if ?lo + int 0 \<le> x \<and> x < ?lo + int (0 + length cs)
        then ucast (cs ! nat (x - ?lo - int 0)) else wt_get ?blank x))"
    using wt_fill [of ?blank 0 cs ?lo] inside by auto
  have "wt_get ?filled x = wt_get t x" for x
  proof (cases "?lo \<le> x \<and> x \<le> ?hi")
    case True
    then have "nat (x - ?lo) < length cs" by (simp add: cs_def)
    with p widen [of "nat (x - ?lo)"] True show ?thesis by (simp add: cs_def)
  next
    case False
    then have "wt_get t x = 0" using m lowest_le(1) [OF sm, of x] highest_ge(1) [OF sm, of x] by blast
    with False p show ?thesis by (auto simp: cs_def wt_get_def)
  qed
  then have "?filled = t" using p assms by (intro wt_ext) auto
  then have "wt_from_snapshot ?s (wt_width t) = Some (Inr t)"
    using nobad wd by (simp add: wt_from_snapshot_def wt_new_def)
  with snap show ?thesis by blast
qed

theorem wt_snapshot_roundtrip_witness:
  "\<exists>s. wt_to_snapshot (wt_set \<lparr>wt_map = [], wt_width = 5, wt_head = 2\<rparr> 7 4) = Some s"
proof -
  have "wt_ok (wt_set \<lparr>wt_map = [], wt_width = 5, wt_head = 2\<rparr> 7 4)"
    by (auto simp: wt_ok_def wt_set_def om_ok_def om_get_def in_i64_def split: if_splits)
  from wt_snapshot_roundtrip [OF this] show ?thesis by blast
qed

section \<open>The annular tape\<close>

record ann_tape =
  an_words :: "64 word list"
  an_size :: u32
  an_head :: u32

text \<open>\<open>new\<close> asserts a cell; \<open>get\<close> indexes the word vector.\<close>

definition an_new :: "u32 \<Rightarrow> ann_tape option" where
  "an_new n =
     (if n > 0
      then Some \<lparr>an_words = replicate ((unat n + 63) div 64) 0, an_size = n, an_head = 0\<rparr>
      else None)"

definition an_get :: "ann_tape \<Rightarrow> u32 \<Rightarrow> bool option" where
  "an_get t at = map_option (\<lambda>w. bit_set w (unat at mod 64)) (nth_opt (an_words t) (unat at div 64))"

definition an_alphabet_size :: u32 where "an_alphabet_size = 2"

definition an_left :: "ann_tape \<Rightarrow> ann_tape" where
  "an_left t = t\<lparr>an_head := (if an_head t = 0 then an_size t - 1 else an_head t - 1)\<rparr>"

definition an_right :: "ann_tape \<Rightarrow> ann_tape" where
  "an_right t = t\<lparr>an_head := (if an_head t = an_size t - 1 then 0 else an_head t + 1)\<rparr>"

definition an_read :: "ann_tape \<Rightarrow> u32 option" where
  "an_read t = map_option (\<lambda>b. if b then 1 else 0) (an_get t (an_head t))"

definition an_write :: "ann_tape \<Rightarrow> u32 \<Rightarrow> (device_fault + ann_tape) option" where
  "an_write t i =
     (if i \<ge> an_alphabet_size then Some (Inl (IndexOutsideAlphabet i))
      else let k = unat (an_head t) div 64; b = unat (an_head t) mod 64 in
        (case nth_opt (an_words t) k of
           None \<Rightarrow> None
         | Some w \<Rightarrow>
             let w' = (if i = 1 then w OR mask_of b else w AND NOT (mask_of b)) in
             Some (Inr (t\<lparr>an_words := (an_words t)[k := w']\<rparr>))))"

definition an_ok :: "ann_tape \<Rightarrow> bool" where
  "an_ok t \<longleftrightarrow> an_head t < an_size t \<and> length (an_words t) = (unat (an_size t) + 63) div 64"

definition an_cells :: "ann_tape \<Rightarrow> int \<Rightarrow> u32" where
  "an_cells t p =
     (if 0 \<le> p \<and> p < int (unat (an_size t)) \<and> bit (an_words t ! (nat p div 64)) (nat p mod 64) then 1 else 0)"

definition an_position :: "ann_tape \<Rightarrow> int" where
  "an_position t = int (unat (an_head t))"

lemma an_word_in: "n < m \<Longrightarrow> n div 64 < (m + 63) div (64 :: nat)"
  by (simp add: less_mult_imp_div_less div_less_mono)

lemma an_new_ok: "an_new n = Some t \<Longrightarrow> an_ok t"
  by (auto simp: an_new_def an_ok_def split: if_splits)

lemma ring_nat:
  "h < s \<Longrightarrow> int (if h = 0 then s - 1 else h - 1) = step_left (Some s) (int h)"
  "h < s \<Longrightarrow> int (if h = s - 1 then 0 else h + 1) = step_right (Some s) (int h)"
  by auto

lemma an_left_head:
  assumes "an_head t < an_size t"
  shows "an_head (an_left t) < an_size t"
    and "int (unat (an_head (an_left t))) = step_left (Some (unat (an_size t))) (int (unat (an_head t)))"
proof -
  have s: "an_size t \<noteq> 0" using assms by auto
  have "unat (an_size t - 1) = unat (an_size t) - 1" using s by (simp add: unat_minus_one)
  moreover have "an_head t \<noteq> 0 \<Longrightarrow> unat (an_head t - 1) = unat (an_head t) - 1"
    by (simp add: unat_minus_one)
  moreover have lt: "unat (an_head t) < unat (an_size t)" using assms by (simp add: word_less_nat_alt)
  ultimately have n: "unat (an_head (an_left t)) =
      (if unat (an_head t) = 0 then unat (an_size t) - 1 else unat (an_head t) - 1)"
    by (auto simp: an_left_def unat_eq_zero)
  show "int (unat (an_head (an_left t))) = step_left (Some (unat (an_size t))) (int (unat (an_head t)))"
    unfolding n by (rule ring_nat(1) [OF lt])
  show "an_head (an_left t) < an_size t" using lt unfolding word_less_nat_alt n by auto
qed

lemma an_right_head:
  assumes "an_head t < an_size t"
  shows "an_head (an_right t) < an_size t"
    and "int (unat (an_head (an_right t))) = step_right (Some (unat (an_size t))) (int (unat (an_head t)))"
proof -
  have s: "an_size t \<noteq> 0" using assms by auto
  have lt: "unat (an_head t) < unat (an_size t)" using assms by (simp add: word_less_nat_alt)
  have m: "unat (an_size t - 1) = unat (an_size t) - 1" using s by (simp add: unat_minus_one)
  have e: "an_head t = an_size t - 1 \<longleftrightarrow> unat (an_head t) = unat (an_size t) - 1"
    using m word_unat_eq_iff [of "an_head t" "an_size t - 1"] by simp
  have i: "unat (an_head t + 1) = unat (an_head t) + 1" if "an_head t \<noteq> an_size t - 1"
    using lt less_trans [OF _ u32_bound [of "an_size t"], of "unat (an_head t) + 1"] that e
    by (simp add: unat_word_ariths)
  have n: "unat (an_head (an_right t)) =
      (if unat (an_head t) = unat (an_size t) - 1 then 0 else unat (an_head t) + 1)"
    using e i by (auto simp: an_right_def)
  show "int (unat (an_head (an_right t))) = step_right (Some (unat (an_size t))) (int (unat (an_head t)))"
    unfolding n by (rule ring_nat(2) [OF lt])
  show "an_head (an_right t) < an_size t" using lt unfolding word_less_nat_alt n by auto
qed

lemma an_cells_write:
  assumes ok: "an_ok t" and lt: "i < 2"
    and w': "w' = (if i = 1 then w OR mask_of (unat (an_head t) mod 64) else w AND NOT (mask_of (unat (an_head t) mod 64)))"
    and w: "an_words t ! (unat (an_head t) div 64) = w"
  shows "an_cells (t\<lparr>an_words := (an_words t)[unat (an_head t) div 64 := w']\<rparr>) = (an_cells t)(an_position t := i)"
proof
  fix p
  let ?h = "unat (an_head t)" and ?s = "unat (an_size t)"
  have hs: "?h < ?s" and len: "length (an_words t) = (?s + 63) div 64"
    using ok by (simp_all add: an_ok_def word_less_nat_alt)
  have hs': "uint (an_head t) < uint (an_size t)" using ok by (simp add: an_ok_def word_less_def)
  have i: "i = 0 \<or> i = 1"
  proof -
    have "unat i = 0 \<or> unat i = 1" using lt by (auto simp: word_less_nat_alt)
    then show ?thesis by (metis unsigned_0 unsigned_1 word_unat_eq_iff)
  qed
  have k: "?h div 64 < length (an_words t)" using an_word_in [OF hs] len by simp
  have b: "bit w' n = (if n = ?h mod 64 then i = 1 else bit w n)" if "n < 64" for n
    using i by (auto simp: w' bit_or_mask bit_and_not_mask)
  show "an_cells (t\<lparr>an_words := (an_words t)[?h div 64 := w']\<rparr>) p = ((an_cells t)(an_position t := i)) p"
  proof (cases "0 \<le> p \<and> p < int ?s")
    case False
    then have "p \<noteq> an_position t" using hs' by (auto simp: an_position_def)
    with False show ?thesis by (auto simp: an_cells_def)
  next
    case True
    let ?p = "nat p"
    have pos: "p = an_position t \<longleftrightarrow> ?p = ?h"
      using True unfolding an_position_def by (metis nat_int int_nat_eq)
    have same: "?p = ?h \<longleftrightarrow> ?p div 64 = ?h div 64 \<and> ?p mod 64 = ?h mod 64"
      by (metis div_mult_mod_eq)
    have word: "(an_words t)[?h div 64 := w'] ! (?p div 64) =
        (if ?p div 64 = ?h div 64 then w' else an_words t ! (?p div 64))"
      using k by (simp add: nth_list_update)
    have "bit ((an_words t)[?h div 64 := w'] ! (?p div 64)) (?p mod 64) =
        (if ?p = ?h then i = 1 else bit (an_words t ! (?p div 64)) (?p mod 64))"
      unfolding word using same b [of "?p mod 64"] w by auto
    then show ?thesis using True i pos by (auto simp: an_cells_def)
  qed
qed

interpretation ann: tape an_ok "\<lambda>t. Some (unat (an_size t))" "\<lambda>_. an_alphabet_size" an_cells an_position
  an_left an_right an_read an_write
proof unfold_locales
  fix t
  assume ok: "an_ok t"
  then have lt: "an_head t < an_size t" and len: "length (an_words t) = (unat (an_size t) + 63) div 64"
    by (simp_all add: an_ok_def)
  have hs: "unat (an_head t) < unat (an_size t)" using lt by (simp add: word_less_nat_alt)
  have k: "unat (an_head t) div 64 < length (an_words t)" using an_word_in [OF hs] len by simp
  show "position_ok (Some (unat (an_size t))) (an_position t)"
    using lt u32_bound [of "an_size t"] by (simp add: an_position_def word_less_def)
  show "an_ok (an_left t)" "an_ok (an_right t)"
    using ok an_left_head(1) [OF lt] an_right_head(1) [OF lt]
    by (simp_all add: an_ok_def an_left_def an_right_def)
  show "an_position (an_left t) = step_left (Some (unat (an_size t))) (an_position t)"
    "an_position (an_right t) = step_right (Some (unat (an_size t))) (an_position t)"
    unfolding an_position_def by (rule an_left_head(2) [OF lt], rule an_right_head(2) [OF lt])
  show "an_read t = Some (an_cells t (an_position t))"
    using k lt by (simp add: an_read_def an_get_def an_cells_def an_position_def word_less_def)
  show "an_write t i \<noteq> None" for i
    using k by (simp add: an_write_def Let_def)
  show "an_alphabet_size \<le> i \<Longrightarrow> an_write t i = Some (Inl (IndexOutsideAlphabet i))" for i
    by (simp add: an_write_def)
  fix i t'
  assume w: "an_write t i = Some (Inr t')"
  then have i: "i < 2" by (auto simp: an_write_def an_alphabet_size_def not_le split: if_splits)
  let ?k = "unat (an_head t) div 64" and ?b = "unat (an_head t) mod 64"
  let ?w' = "if i = 1 then an_words t ! ?k OR mask_of ?b else an_words t ! ?k AND NOT (mask_of ?b)"
  have t': "t' = t\<lparr>an_words := (an_words t)[?k := ?w']\<rparr>"
    using w k i by (simp add: an_write_def an_alphabet_size_def Let_def split: if_splits)
  have "an_cells t' = (an_cells t)(an_position t := i)"
    unfolding t' by (rule an_cells_write [OF ok i refl refl])
  then show "an_ok t' \<and> i < an_alphabet_size \<and> an_cells t' = (an_cells t)(an_position t := i) \<and>
      an_position t' = an_position t \<and> Some (unat (an_size t')) = Some (unat (an_size t)) \<and>
      an_alphabet_size = an_alphabet_size"
    using ok i by (simp add: t' an_ok_def an_position_def an_alphabet_size_def)
qed (auto simp: an_left_def an_right_def an_cells_def an_alphabet_size_def fun_eq_iff)

section \<open>dyn Tape\<close>

datatype tape_dev =
    Infinite inf_tape
  | Wide wide_tape
  | Annular ann_tape
  | Strict tape_dev

fun tape_alphabet_size :: "tape_dev \<Rightarrow> u32" where
  "tape_alphabet_size (Infinite t) = it_alphabet_size"
| "tape_alphabet_size (Wide t) = wt_width t"
| "tape_alphabet_size (Annular t) = an_alphabet_size"
| "tape_alphabet_size (Strict t) = tape_alphabet_size t"

fun tape_left :: "tape_dev \<Rightarrow> tape_dev" where
  "tape_left (Infinite t) = Infinite (it_left t)"
| "tape_left (Wide t) = Wide (wt_left t)"
| "tape_left (Annular t) = Annular (an_left t)"
| "tape_left (Strict t) = Strict (tape_left t)"

fun tape_right :: "tape_dev \<Rightarrow> tape_dev" where
  "tape_right (Infinite t) = Infinite (it_right t)"
| "tape_right (Wide t) = Wide (wt_right t)"
| "tape_right (Annular t) = Annular (an_right t)"
| "tape_right (Strict t) = Strict (tape_right t)"

fun tape_read :: "tape_dev \<Rightarrow> u32 option" where
  "tape_read (Infinite t) = Some (it_read t)"
| "tape_read (Wide t) = Some (wt_read t)"
| "tape_read (Annular t) = an_read t"
| "tape_read (Strict t) = tape_read t"

fun tape_write :: "tape_dev \<Rightarrow> u32 \<Rightarrow> (device_fault + tape_dev) option" where
  "tape_write (Infinite t) i = Some (map_sum id Infinite (it_write t i))"
| "tape_write (Wide t) i = Some (map_sum id Wide (wt_write t i))"
| "tape_write (Annular t) i = map_option (map_sum id Annular) (an_write t i)"
| "tape_write (Strict t) i =
     (if i < tape_alphabet_size t then
        (case tape_read t of
           None \<Rightarrow> None
         | Some s \<Rightarrow>
             if s = i then Some (Inl StrictCellViolation)
             else map_option (map_sum id Strict) (tape_write t i))
      else map_option (map_sum id Strict) (tape_write t i))"

fun tape_head :: "tape_dev \<Rightarrow> int" where
  "tape_head (Infinite t) = it_head t"
| "tape_head (Wide t) = wt_head t"
| "tape_head (Annular t) = an_position t"
| "tape_head (Strict t) = tape_head t"

fun tape_ok :: "tape_dev \<Rightarrow> bool" where
  "tape_ok (Infinite t) = it_ok t"
| "tape_ok (Wide t) = wt_ok t"
| "tape_ok (Annular t) = an_ok t"
| "tape_ok (Strict t) = tape_ok t"

fun tape_span :: "tape_dev \<Rightarrow> nat option" where
  "tape_span (Infinite t) = None"
| "tape_span (Wide t) = None"
| "tape_span (Annular t) = Some (unat (an_size t))"
| "tape_span (Strict t) = tape_span t"

fun tape_cells :: "tape_dev \<Rightarrow> int \<Rightarrow> u32" where
  "tape_cells (Infinite t) = it_cells t"
| "tape_cells (Wide t) = wt_get t"
| "tape_cells (Annular t) = an_cells t"
| "tape_cells (Strict t) = tape_cells t"

lemma tape_moves:
  "tape_ok t \<Longrightarrow> position_ok (tape_span t) (tape_head t) \<and> tape_ok (tape_left t) \<and> tape_ok (tape_right t)
     \<and> tape_head (tape_left t) = step_left (tape_span t) (tape_head t)
     \<and> tape_head (tape_right t) = step_right (tape_span t) (tape_head t)
     \<and> tape_cells (tape_left t) = tape_cells t \<and> tape_cells (tape_right t) = tape_cells t
     \<and> tape_span (tape_left t) = tape_span t \<and> tape_span (tape_right t) = tape_span t
     \<and> tape_alphabet_size (tape_left t) = tape_alphabet_size t
     \<and> tape_alphabet_size (tape_right t) = tape_alphabet_size t
     \<and> tape_read t = Some (tape_cells t (tape_head t)) \<and> tape_cells t p < tape_alphabet_size t"
proof (induction t)
  case (Infinite t)
  then have ok: "it_ok t" by simp
  show ?case
    using inf.head_ok [OF ok] inf.ok_left [OF ok] inf.ok_right [OF ok] inf.head_left [OF ok]
      inf.head_right [OF ok] inf.cells_left [OF ok] inf.cells_right [OF ok] inf.read_cell [OF ok]
      inf.cell_bound [OF ok, of p]
    by simp
next
  case (Wide t)
  then have ok: "wt_ok t" by simp
  show ?case
    using wide.head_ok [OF ok] wide.ok_left [OF ok] wide.ok_right [OF ok] wide.head_left [OF ok]
      wide.head_right [OF ok] wide.cells_left [OF ok] wide.cells_right [OF ok] wide.read_cell [OF ok]
      wide.cell_bound [OF ok, of p] wide.size_left [OF ok] wide.size_right [OF ok]
    by simp
next
  case (Annular t)
  then have ok: "an_ok t" by simp
  show ?case
    using ann.head_ok [OF ok] ann.ok_left [OF ok] ann.ok_right [OF ok] ann.head_left [OF ok]
      ann.head_right [OF ok] ann.cells_left [OF ok] ann.cells_right [OF ok] ann.read_cell [OF ok]
      ann.cell_bound [OF ok, of p] ann.span_left [OF ok] ann.span_right [OF ok]
    by simp
qed simp

lemma tape_writes:
  "tape_ok t \<Longrightarrow> tape_write t i \<noteq> None
     \<and> (tape_alphabet_size t \<le> i \<longrightarrow> tape_write t i = Some (Inl (IndexOutsideAlphabet i)))
     \<and> (\<forall>t'. tape_write t i = Some (Inr t') \<longrightarrow>
          tape_ok t' \<and> i < tape_alphabet_size t \<and> tape_cells t' = (tape_cells t)(tape_head t := i)
          \<and> tape_head t' = tape_head t \<and> tape_span t' = tape_span t
          \<and> tape_alphabet_size t' = tape_alphabet_size t)"
proof (induction t)
  case (Infinite t)
  then have ok: "it_ok t" by simp
  show ?case using inf.write_outside [OF ok] inf.write_done [OF ok, of i]
    by (cases "it_write t i") auto
next
  case (Wide t)
  then have ok: "wt_ok t" by simp
  show ?case using wide.write_outside [OF ok] wide.write_done [OF ok, of i]
    by (cases "wt_write t i") auto
next
  case (Annular t)
  then have ok: "an_ok t" by simp
  obtain r where r: "an_write t i = Some r" using ann.write_total [OF ok] by blast
  show ?case using ann.write_outside [OF ok] ann.write_done [OF ok, of i] r
    by (cases r) auto
next
  case (Strict t)
  then have ok: "tape_ok t" by simp
  obtain r where r: "tape_write t i = Some r" using Strict by auto
  have rd: "tape_read t = Some (tape_cells t (tape_head t))" using tape_moves [OF ok] by simp
  show ?case using Strict.IH [OF ok] r rd by (cases r) (auto simp: not_less)
qed

interpretation dyn: tape tape_ok tape_span tape_alphabet_size tape_cells tape_head tape_left tape_right
  tape_read tape_write
proof unfold_locales
  fix t
  assume ok: "tape_ok t"
  note m = tape_moves [OF ok]
  show "position_ok (tape_span t) (tape_head t)" "tape_ok (tape_left t)" "tape_ok (tape_right t)"
    "tape_head (tape_left t) = step_left (tape_span t) (tape_head t)"
    "tape_head (tape_right t) = step_right (tape_span t) (tape_head t)"
    "tape_cells (tape_left t) = tape_cells t" "tape_cells (tape_right t) = tape_cells t"
    "tape_span (tape_left t) = tape_span t" "tape_span (tape_right t) = tape_span t"
    "tape_alphabet_size (tape_left t) = tape_alphabet_size t"
    "tape_alphabet_size (tape_right t) = tape_alphabet_size t"
    "tape_read t = Some (tape_cells t (tape_head t))"
    using m by blast+
  show "tape_cells t p < tape_alphabet_size t" for p using tape_moves [OF ok] by blast
  show "tape_write t i \<noteq> None" for i using tape_writes [OF ok] by blast
  show "tape_alphabet_size t \<le> i \<Longrightarrow> tape_write t i = Some (Inl (IndexOutsideAlphabet i))" for i
    using tape_writes [OF ok] by blast
  show "tape_write t i = Some (Inr t') \<Longrightarrow> tape_ok t' \<and> i < tape_alphabet_size t \<and>
      tape_cells t' = (tape_cells t)(tape_head t := i) \<and> tape_head t' = tape_head t \<and>
      tape_span t' = tape_span t \<and> tape_alphabet_size t' = tape_alphabet_size t" for i t'
    using tape_writes [OF ok, of i] by blast
qed

section \<open>Poke\<close>

text \<open>
  The two loops of \<open>Tape::poke\<close>. The walk out reports whether it landed on the position; it
  gives up when it is back where it started.
\<close>

partial_function (option) poke_seek :: "tape_dev \<Rightarrow> int \<Rightarrow> int \<Rightarrow> (bool \<times> tape_dev) option" where
  "poke_seek t pos origin =
     (if tape_head t = pos then Some (True, t)
      else let t' = (if tape_head t < pos then tape_right t else tape_left t) in
        if tape_head t' = origin then Some (False, t') else poke_seek t' pos origin)"

partial_function (option) poke_return :: "tape_dev \<Rightarrow> int \<Rightarrow> tape_dev option" where
  "poke_return t origin =
     (if tape_head t = origin then Some t
      else poke_return (if tape_head t < origin then tape_right t else tape_left t) origin)"

definition poke :: "tape_dev \<Rightarrow> int \<Rightarrow> u32 \<Rightarrow> ((device_fault + unit) \<times> tape_dev) option" where
  "poke t pos i =
     (let origin = tape_head t in
      case poke_seek t pos origin of
        None \<Rightarrow> None
      | Some (False, t1) \<Rightarrow> Some (Inl (PositionUnreachable pos), t1)
      | Some (True, t1) \<Rightarrow>
          (case tape_write t1 i of
             None \<Rightarrow> None
           | Some (Inl f) \<Rightarrow> map_option (Pair (Inl f)) (poke_return t1 origin)
           | Some (Inr t2) \<Rightarrow> map_option (Pair (Inr ())) (poke_return t2 origin)))"

lemma write_faults:
  "tape_write t i = Some (Inl f) \<Longrightarrow>
     f = IndexOutsideAlphabet i \<and> tape_alphabet_size t \<le> i \<or> f = StrictCellViolation"
  by (induction t)
    (auto simp: it_write_def wt_write_def an_write_def it_alphabet_size_def an_alphabet_size_def Let_def
      split: if_splits option.splits sum.splits)

text \<open>What the walks keep.\<close>

definition same_tape :: "tape_dev \<Rightarrow> tape_dev \<Rightarrow> bool" where
  "same_tape t t' \<longleftrightarrow> tape_ok t' \<and> tape_span t' = tape_span t \<and> tape_cells t' = tape_cells t
     \<and> tape_alphabet_size t' = tape_alphabet_size t"

lemma same_tape_refl: "tape_ok t \<Longrightarrow> same_tape t t"
  by (simp add: same_tape_def)

lemma same_tape_trans: "same_tape t t' \<Longrightarrow> same_tape t' t'' \<Longrightarrow> same_tape t t''"
  by (simp add: same_tape_def)

lemma same_tape_move: "tape_ok t \<Longrightarrow> same_tape t (tape_right t)" "tape_ok t \<Longrightarrow> same_tape t (tape_left t)"
  by (simp_all add: same_tape_def dyn.ok_left dyn.ok_right dyn.span_left dyn.span_right
      dyn.cells_left dyn.cells_right dyn.size_left dyn.size_right)

text \<open>One step towards a position that exists does not wrap.\<close>

lemma step_towards:
  "position_ok s h \<Longrightarrow> position_ok s p \<Longrightarrow> h < p \<Longrightarrow> step_right s h = h + 1"
  "position_ok s h \<Longrightarrow> position_ok s p \<Longrightarrow> p < h \<Longrightarrow> step_left s h = h - 1"
  by (cases s; auto simp: in_i64_def)+

lemma seek_reaches:
  assumes "tape_ok t" "position_ok (tape_span t) pos"
    and "origin \<le> tape_head t \<and> tape_head t \<le> pos \<or> pos \<le> tape_head t \<and> tape_head t \<le> origin"
  shows "\<exists>t'. poke_seek t pos origin = Some (True, t') \<and> same_tape t t' \<and> tape_head t' = pos"
  using assms
proof (induction "nat \<bar>pos - tape_head t\<bar>" arbitrary: t)
  case 0
  then have "tape_head t = pos" by simp
  then show ?case using 0 by (subst poke_seek.simps) (simp add: same_tape_refl)
next
  case (Suc n)
  let ?t = "if tape_head t < pos then tape_right t else tape_left t"
  have ne: "tape_head t \<noteq> pos" using Suc.hyps(2) by auto
  note ok = Suc.prems(1) and h = dyn.head_ok [OF Suc.prems(1)]
  have hd: "tape_head ?t = (if tape_head t < pos then tape_head t + 1 else tape_head t - 1)"
    using step_towards [OF h Suc.prems(2)] ne ok by (simp add: dyn.head_left dyn.head_right)
  have same: "same_tape t ?t" using same_tape_move [OF ok] by simp
  have "n = nat \<bar>pos - tape_head ?t\<bar>" using Suc.hyps(2) hd ne by auto
  moreover have "tape_ok ?t" "position_ok (tape_span ?t) pos"
    using same Suc.prems(2) by (auto simp: same_tape_def)
  moreover have "origin \<le> tape_head ?t \<and> tape_head ?t \<le> pos \<or> pos \<le> tape_head ?t \<and> tape_head ?t \<le> origin"
    using Suc.prems(3) hd ne by auto
  ultimately obtain t' where t': "poke_seek ?t pos origin = Some (True, t')" "same_tape ?t t'" "tape_head t' = pos"
    using Suc.hyps(1) [of ?t] by blast
  moreover have "tape_head ?t \<noteq> origin" using Suc.prems(3) hd ne by auto
  ultimately show ?case using ne same_tape_trans [OF same t'(2)]
    by (subst poke_seek.simps) (simp add: Let_def)
qed

lemma return_reaches:
  assumes "tape_ok t" "position_ok (tape_span t) origin"
  shows "\<exists>t'. poke_return t origin = Some t' \<and> same_tape t t' \<and> tape_head t' = origin"
  using assms
proof (induction "nat \<bar>origin - tape_head t\<bar>" arbitrary: t)
  case 0
  then have "tape_head t = origin" by simp
  then show ?case using 0 by (subst poke_return.simps) (simp add: same_tape_refl)
next
  case (Suc n)
  let ?t = "if tape_head t < origin then tape_right t else tape_left t"
  have ne: "tape_head t \<noteq> origin" using Suc.hyps(2) by auto
  note ok = Suc.prems(1) and h = dyn.head_ok [OF Suc.prems(1)]
  have hd: "tape_head ?t = (if tape_head t < origin then tape_head t + 1 else tape_head t - 1)"
    using step_towards [OF h Suc.prems(2)] ne ok by (simp add: dyn.head_left dyn.head_right)
  have same: "same_tape t ?t" using same_tape_move [OF ok] by simp
  have "n = nat \<bar>origin - tape_head ?t\<bar>" using Suc.hyps(2) hd ne by auto
  moreover have "tape_ok ?t" "position_ok (tape_span ?t) origin"
    using same Suc.prems(2) by (auto simp: same_tape_def)
  ultimately obtain t' where t': "poke_return ?t origin = Some t'" "same_tape ?t t'" "tape_head t' = origin"
    using Suc.hyps(1) [of ?t] by blast
  then show ?case using ne same_tape_trans [OF same t'(2)] by (subst poke_return.simps) simp
qed

text \<open>A position off a ring: the walk closes the lap.\<close>

definition lap_left :: "nat \<Rightarrow> int \<Rightarrow> int \<Rightarrow> int \<Rightarrow> nat" where
  "lap_left n origin pos h =
     nat ((if h < pos then (if h < origin then origin - h else origin - h + int n)
           else (if origin < h then h - origin else h - origin + int n)) - 1)"

lemma seek_laps:
  assumes "tape_ok t" "tape_span t = Some n" "\<not> position_ok (Some n) pos" "0 \<le> origin" "origin < int n"
  shows "\<exists>t'. poke_seek t pos origin = Some (False, t') \<and> same_tape t t' \<and> tape_head t' = origin"
  using assms
proof (induction "lap_left n origin pos (tape_head t)" arbitrary: t rule: less_induct)
  case less
  let ?t = "if tape_head t < pos then tape_right t else tape_left t"
  note ok = less.prems(1)
  have h: "0 \<le> tape_head t" "tape_head t < int n" and n: "n < 2 ^ 32"
    using dyn.head_ok [OF ok] less.prems(2) by auto
  have far: "pos < 0 \<or> int n \<le> pos" using less.prems(3) n by auto
  then have ne: "tape_head t \<noteq> pos" using h by auto
  have same: "same_tape t ?t" using same_tape_move [OF ok] by simp
  have hd: "tape_head ?t = (if tape_head t < pos then step_right (Some n) (tape_head t)
      else step_left (Some n) (tape_head t))"
    using ok less.prems(2) by (simp add: dyn.head_left dyn.head_right)
  show ?case
  proof (cases "tape_head ?t = origin")
    case True
    then show ?thesis using ne same by (subst poke_seek.simps) (simp add: Let_def)
  next
    case False
    have "lap_left n origin pos (tape_head ?t) < lap_left n origin pos (tape_head t)"
      using False h far less.prems(4,5) unfolding hd lap_left_def by (auto split: if_splits)
    moreover have "tape_ok ?t" "tape_span ?t = Some n" using same less.prems(2) by (auto simp: same_tape_def)
    ultimately obtain t' where t': "poke_seek ?t pos origin = Some (False, t')" "same_tape ?t t'"
        "tape_head t' = origin"
      using less.hyps [of ?t] less.prems(3-5) by blast
    then show ?thesis using ne False same_tape_trans [OF same t'(2)]
      by (subst poke_seek.simps) (simp add: Let_def)
  qed
qed

text \<open>
  C15: a poke always returns, and the head is where it was. It writes exactly the cell it was
  given, or reports a fault and changes no cell; it reports the position as unreachable exactly
  when the tape is a ring and the position is off it.
\<close>

theorem poke_spec:
  assumes "tape_ok t" and "in_i64 pos"
  shows "\<exists>r t'. poke t pos i = Some (r, t') \<and> tape_ok t' \<and> tape_head t' = tape_head t \<and>
    tape_cells t' = (case r of Inr _ \<Rightarrow> (tape_cells t)(pos := i) | Inl _ \<Rightarrow> tape_cells t) \<and>
    (r = Inl (PositionUnreachable pos) \<longleftrightarrow> \<not> position_ok (tape_span t) pos)"
proof (cases "position_ok (tape_span t) pos")
  case True
  obtain t1 where t1: "poke_seek t pos (tape_head t) = Some (True, t1)" "same_tape t t1" "tape_head t1 = pos"
    using seek_reaches [OF assms(1) True, of "tape_head t"] by force
  have ok1: "tape_ok t1" using t1(2) by (simp add: same_tape_def)
  have o: "position_ok (tape_span t1) (tape_head t)"
    using dyn.head_ok [OF assms(1)] t1(2) by (simp add: same_tape_def)
  obtain r where r: "tape_write t1 i = Some r" using dyn.write_total [OF ok1] by blast
  show ?thesis
  proof (cases r)
    case (Inl f)
    obtain t2 where "poke_return t1 (tape_head t) = Some t2" "same_tape t1 t2" "tape_head t2 = tape_head t"
      using return_reaches [OF ok1 o] by blast
    moreover have "f \<noteq> PositionUnreachable pos"
      using write_faults [OF r [unfolded Inl]] by auto
    ultimately show ?thesis using t1 r Inl True by (auto simp: poke_def same_tape_def)
  next
    case (Inr t2)
    note w = dyn.write_done [OF ok1 r [unfolded Inr]]
    obtain t3 where "poke_return t2 (tape_head t) = Some t3" "same_tape t2 t3" "tape_head t3 = tape_head t"
      using return_reaches [of t2 "tape_head t"] w o by auto
    then show ?thesis using t1 r Inr True w by (auto simp: poke_def same_tape_def)
  qed
next
  case False
  then obtain n where n: "tape_span t = Some n" using assms(2) by (cases "tape_span t") auto
  have h: "0 \<le> tape_head t" "tape_head t < int n" using dyn.head_ok [OF assms(1)] n by auto
  obtain t' where "poke_seek t pos (tape_head t) = Some (False, t')" "same_tape t t'" "tape_head t' = tape_head t"
    using seek_laps [OF assms(1) n _ h] False n by auto
  then show ?thesis using False by (auto simp: poke_def same_tape_def)
qed

theorem poke_spec_witness:
  "\<exists>r t'. poke (Infinite it_new) 3 1 = Some (r, t') \<and> tape_head t' = 0"
  using poke_spec [of "Infinite it_new" 3 1]
  by (auto simp: it_new_def it_ok_def om_ok_def in_i64_def)

section \<open>Storing and reading back\<close>

text \<open>
  C14: a tape is a store of symbols. On every device, decorated or not, a write either changes
  exactly the cell under the head, and reading gives the symbol back even after a step away and
  back in either direction, or it reports a fault; it faults on every index outside the alphabet,
  and a strict tape faults on the symbol the cell already holds.
\<close>

theorem tape_stores:
  assumes "tape_ok t"
  shows "\<exists>r. tape_write t i = Some r
    \<and> (case r of
         Inr t' \<Rightarrow> tape_ok t' \<and> i < tape_alphabet_size t \<and> tape_head t' = tape_head t
           \<and> tape_cells t' = (tape_cells t)(tape_head t := i) \<and> tape_read t' = Some i
           \<and> tape_read (tape_left (tape_right t')) = Some i \<and> tape_read (tape_right (tape_left t')) = Some i
       | Inl f \<Rightarrow> f = StrictCellViolation \<or> (f = IndexOutsideAlphabet i \<and> tape_alphabet_size t \<le> i))
    \<and> (tape_alphabet_size t \<le> i \<longrightarrow> r = Inl (IndexOutsideAlphabet i))
    \<and> (i < tape_alphabet_size t \<and> tape_cells t (tape_head t) = i \<longrightarrow>
         tape_write (Strict t) i = Some (Inl StrictCellViolation))"
proof -
  obtain r where r: "tape_write t i = Some r" using dyn.write_total [OF assms] by blast
  have strict: "tape_write (Strict t) i = Some (Inl StrictCellViolation)"
    if "i < tape_alphabet_size t" "tape_cells t (tape_head t) = i"
    using that dyn.read_cell [OF assms] by simp
  show ?thesis
  proof (cases r)
    case (Inl f)
    then show ?thesis using r strict dyn.write_outside [OF assms, of i] write_faults [OF r [unfolded Inl]]
      by (cases "tape_alphabet_size t \<le> i") auto
  next
    case (Inr t')
    note w = r [unfolded Inr]
    show ?thesis using r Inr strict dyn.write_done [OF assms w] dyn.read_after_write [OF assms w]
        dyn.read_back [OF assms w] by auto
  qed
qed

theorem tape_stores_witness:
  "\<exists>r. tape_write (Strict (Infinite it_new)) 1 = Some r"
  using tape_stores [of "Strict (Infinite it_new)" 1]
  by (auto simp: it_new_def it_ok_def om_ok_def in_i64_def)

end
