(* ===== verification/Driver.thy ===== *)
theory Driver
  imports Core_Progress Tapes
begin

text \<open>
  The synchronous driver (\<open>crates/core/src/vm/driver.rs\<close>): it answers the requests of the core
  from the code, the return stack, the tapes and the table ROM, accounts tacts and steps and
  enforces the limits. The counters are \<open>u64\<close>s and their sums wrap around, as in a release build (a debug
  build panics there). The loops are \<open>partial_function\<close>s, so that a run that panics or never returns has
  the value \<open>None\<close>; \<open>serve_event_returns\<close> and \<open>run_loop_returns\<close> prove that neither happens, the latter
  under a step limit, or under a tact limit that the tact counters can reach without wrapping around.
\<close>

section \<open>The state\<close>

type_synonym u64 = "64 word"

record return_stack =
  rs_entries :: "u32 list"
  rs_capacity :: nat

definition stack_new :: "nat \<Rightarrow> return_stack" where
  "stack_new cap = \<lparr>rs_entries = [], rs_capacity = cap\<rparr>"

definition stack_depth :: "return_stack \<Rightarrow> nat" where
  "stack_depth s = length (rs_entries s)"

definition stack_push :: "return_stack \<Rightarrow> u32 \<Rightarrow> bool \<times> return_stack" where
  "stack_push s v =
     (if length (rs_entries s) = rs_capacity s then (False, s)
      else (True, s\<lparr>rs_entries := rs_entries s @ [v]\<rparr>))"

definition stack_pop :: "return_stack \<Rightarrow> u32 option \<times> return_stack" where
  "stack_pop s =
     (if rs_entries s = [] then (None, s)
      else (Some (last (rs_entries s)), s\<lparr>rs_entries := butlast (rs_entries s)\<rparr>))"

record tact_profile =
  move_cost :: u32
  read_cost :: u32
  write_cost :: u32
  table_read_cost :: u32
  frame_load_cost :: u32

definition electronic :: tact_profile where
  "electronic =
     \<lparr>move_cost = 1, read_cost = 1, write_cost = 1, table_read_cost = 1, frame_load_cost = 1\<rparr>"

record run_limits =
  max_steps :: "u64 option"
  max_tacts :: "u64 option"

record run_stats =
  st_steps :: u64
  core_tacts :: u64
  stall_tacts :: u64

definition stats_new :: run_stats where
  "stats_new = \<lparr>st_steps = 0, core_tacts = 0, stall_tacts = 0\<rparr>"

definition total_tacts :: "run_stats \<Rightarrow> u64" where
  "total_tacts s = core_tacts s + stall_tacts s"

datatype outcome = Stopped | Halted | Trapped trap

record run_result =
  r_outcome :: outcome
  r_stats :: run_stats
  r_ip :: u32
  r_stack :: "u32 list"

datatype step_event = Retired | Break | Finished outcome

text \<open>What a run is given, and what it changes.\<close>

record env =
  e_arch :: arch
  e_code :: "u8 list"
  e_tables :: "u8 list"
  e_profile :: tact_profile
  e_limits :: run_limits

record vm =
  v_core :: core
  v_stack :: return_stack
  v_devs :: "tape_dev list"
  v_stats :: run_stats

definition over :: "u64 option \<Rightarrow> u64 \<Rightarrow> bool" where
  "over limit n = (case limit of None \<Rightarrow> False | Some m \<Rightarrow> n \<ge> m)"

definition over_tacts :: "run_limits \<Rightarrow> run_stats \<Rightarrow> bool" where
  "over_tacts l s = over (max_tacts l) (total_tacts s)"

definition tick_core :: "vm \<Rightarrow> vm" where
  "tick_core v = v\<lparr>v_stats := (v_stats v)\<lparr>core_tacts := core_tacts (v_stats v) + 1\<rparr>\<rparr>"

definition tick_stall :: "u32 \<Rightarrow> vm \<Rightarrow> vm" where
  "tick_stall cost v = v\<lparr>v_stats := (v_stats v)\<lparr>stall_tacts := stall_tacts (v_stats v) + ucast cost\<rparr>\<rparr>"

section \<open>Answering a request\<close>

definition answer_code :: "env \<Rightarrow> u32 \<Rightarrow> vm \<Rightarrow> bus_response \<times> vm" where
  "answer_code e addr v =
     (case nth_opt (e_code e) (unat addr) of
        Some b \<Rightarrow> (Byte b, tick_core v)
      | None \<Rightarrow> (OutOfCode, v))"

definition answer_table :: "env \<Rightarrow> u32 \<Rightarrow> u32 \<Rightarrow> vm \<Rightarrow> bus_response \<times> vm" where
  "answer_table e cost addr v =
     (case nth_opt (e_tables e) (unat addr) of
        Some b \<Rightarrow> (Byte b, tick_stall cost v)
      | None \<Rightarrow> (OutOfTable, v))"

definition answer_push :: "u32 \<Rightarrow> vm \<Rightarrow> bus_response \<times> vm" where
  "answer_push value v =
     (case stack_push (v_stack v) value of
        (True, s) \<Rightarrow> (BusOk, tick_core (v\<lparr>v_stack := s\<rparr>))
      | (False, s) \<Rightarrow> (StackFull, v\<lparr>v_stack := s\<rparr>))"

definition answer_pop :: "vm \<Rightarrow> bus_response \<times> vm" where
  "answer_pop v =
     (case stack_pop (v_stack v) of
        (Some value, s) \<Rightarrow> (BusValue value, tick_core (v\<lparr>v_stack := s\<rparr>))
      | (None, s) \<Rightarrow> (StackEmpty, v\<lparr>v_stack := s\<rparr>))"

definition answer_move :: "(tape_dev \<Rightarrow> tape_dev) \<Rightarrow> u32 \<Rightarrow> u8 \<Rightarrow> vm \<Rightarrow> bus_response \<times> vm" where
  "answer_move step cost dev v =
     (case nth_opt (v_devs v) (unat dev) of
        Some d \<Rightarrow> (BusOk, tick_stall cost (v\<lparr>v_devs := (v_devs v)[unat dev := step d]\<rparr>))
      | None \<Rightarrow> (BusFault (NoSuchDevice dev), v))"

definition answer_read :: "u32 \<Rightarrow> u8 \<Rightarrow> vm \<Rightarrow> (bus_response \<times> vm) option" where
  "answer_read cost dev v =
     (case nth_opt (v_devs v) (unat dev) of
        Some d \<Rightarrow>
          (case tape_read d of None \<Rightarrow> None | Some s \<Rightarrow> Some (BusSymbol s, tick_stall cost v))
      | None \<Rightarrow> Some (BusFault (NoSuchDevice dev), v))"

definition answer_write :: "u32 \<Rightarrow> u8 \<Rightarrow> u32 \<Rightarrow> vm \<Rightarrow> (bus_response \<times> vm) option" where
  "answer_write cost dev index v =
     (case nth_opt (v_devs v) (unat dev) of
        Some d \<Rightarrow>
          (case tape_write d index of
             None \<Rightarrow> None
           | Some (Inl fault) \<Rightarrow> Some (BusFault fault, v)
           | Some (Inr d') \<Rightarrow>
               Some (BusOk, tick_stall cost (v\<lparr>v_devs := (v_devs v)[unat dev := d']\<rparr>)))
      | None \<Rightarrow> Some (BusFault (NoSuchDevice dev), v))"

fun answer :: "env \<Rightarrow> bus_request \<Rightarrow> vm \<Rightarrow> (bus_response \<times> vm) option" where
  "answer e (CodeRead addr) v = Some (answer_code e addr v)"
| "answer e (StackPush value) v = Some (answer_push value v)"
| "answer e StackPop v = Some (answer_pop v)"
| "answer e (DeviceMoveLeft dev) v = Some (answer_move tape_left (move_cost (e_profile e)) dev v)"
| "answer e (DeviceMoveRight dev) v = Some (answer_move tape_right (move_cost (e_profile e)) dev v)"
| "answer e (DeviceRead dev) v = answer_read (read_cost (e_profile e)) dev v"
| "answer e (DeviceWrite dev index) v = answer_write (write_cost (e_profile e)) dev index v"
| "answer e (TableRead addr) v = Some (answer_table e (table_read_cost (e_profile e)) addr v)"
| "answer e (FrameRead addr) v = Some (answer_table e (frame_load_cost (e_profile e)) addr v)"

section \<open>One instruction\<close>

text \<open>An instruction boundary: steps, execute base, limits.\<close>

definition retire_step :: "env \<Rightarrow> vm \<Rightarrow> step_event \<Rightarrow> step_event \<times> vm" where
  "retire_step e v ev =
     (let v1 = v\<lparr>v_stats := (v_stats v)\<lparr>st_steps := st_steps (v_stats v) + 1,
                   core_tacts := core_tacts (v_stats v) + 1\<rparr>\<rparr> in
      if over (max_steps (e_limits e)) (st_steps (v_stats v1)) then (Finished (Trapped StepLimit), v1)
      else if over_tacts (e_limits e) (v_stats v1) then (Finished (Trapped TactLimit), v1)
      else (ev, v1))"

partial_function (option) serve_event :: "env \<Rightarrow> vm \<Rightarrow> core_event \<Rightarrow> (step_event \<times> vm) option" where
  "serve_event e v event =
     (case event of
        Request request \<Rightarrow>
          (case answer e request v of
             None \<Rightarrow> None
           | Some (response, v1) \<Rightarrow>
               if over_tacts (e_limits e) (v_stats v1)
               then Some (Finished (Trapped TactLimit), v1)
               else (case resume (e_arch e) (v_core v1) response of
                       None \<Rightarrow> None
                     | Some (c', event') \<Rightarrow> serve_event e (v1\<lparr>v_core := c'\<rparr>) event'))
      | EvStep \<Rightarrow> Some (retire_step e v Retired)
      | EvBreak \<Rightarrow> Some (retire_step e v Break)
      | EvStop \<Rightarrow> Some (Finished Stopped, v)
      | EvHalt \<Rightarrow> Some (Finished Halted, v)
      | EvTrap t \<Rightarrow> Some (Finished (Trapped t), v))"

definition step_instruction :: "env \<Rightarrow> bool \<Rightarrow> vm \<Rightarrow> (step_event \<times> vm) option" where
  "step_instruction e started v =
     (case (if started then resume (e_arch e) (v_core v) BusOk else Some (start (v_core v))) of
        None \<Rightarrow> None
      | Some (c', event) \<Rightarrow> serve_event e (v\<lparr>v_core := c'\<rparr>) event)"

section \<open>A whole run\<close>

definition result_of :: "outcome \<Rightarrow> vm \<Rightarrow> run_result" where
  "result_of oc v =
     \<lparr>r_outcome = oc, r_stats = v_stats v, r_ip = c_instr_start (v_core v),
      r_stack = rs_entries (v_stack v)\<rparr>"

partial_function (option) run_loop :: "env \<Rightarrow> bool \<Rightarrow> vm \<Rightarrow> (run_result \<times> vm) option" where
  "run_loop e started v =
     (case step_instruction e started v of
        None \<Rightarrow> None
      | Some (Finished oc, v') \<Rightarrow> Some (result_of oc v', v')
      | Some (_, v') \<Rightarrow> run_loop e True v')"

definition run :: "env \<Rightarrow> core \<Rightarrow> return_stack \<Rightarrow> tape_dev list \<Rightarrow> (run_result \<times> vm) option" where
  "run e c s devs = run_loop e False \<lparr>v_core = c, v_stack = s, v_devs = devs, v_stats = stats_new\<rparr>"

declare serve_event.simps [code] run_loop.simps [code]

section \<open>The invariant of the driver\<close>

text \<open>
  The core is safe, the tapes are well-formed, the return stack is within its capacity.
\<close>

definition vm_ok :: "vm \<Rightarrow> bool" where
  "vm_ok v \<longleftrightarrow> core_ok (v_core v) \<and> (\<forall>d \<in> set (v_devs v). tape_ok d)
     \<and> length (rs_entries (v_stack v)) \<le> rs_capacity (v_stack v)"

lemma vm_ok_ticks [simp]: "vm_ok (tick_core v) = vm_ok v" "vm_ok (tick_stall n v) = vm_ok v"
  by (simp_all add: vm_ok_def tick_core_def tick_stall_def)

lemma ticks_keep [simp]:
  "v_core (tick_core v) = v_core v" "v_core (tick_stall n v) = v_core v"
  "v_stack (tick_core v) = v_stack v" "v_stack (tick_stall n v) = v_stack v"
  "v_devs (tick_core v) = v_devs v" "v_devs (tick_stall n v) = v_devs v"
  by (simp_all add: tick_core_def tick_stall_def)

lemma set_update_ok: "\<forall>x \<in> set xs. P x \<Longrightarrow> P y \<Longrightarrow> \<forall>x \<in> set (xs[i := y]). P x"
  by (auto dest!: subsetD [OF set_update_subset_insert])

text \<open>A request is always answered, and answering leaves the core alone.\<close>

lemma answer_ok:
  assumes "vm_ok v"
  shows "\<exists>resp v'. answer e req v = Some (resp, v') \<and> vm_ok v' \<and> v_core v' = v_core v"
proof -
  have dev: "tape_ok d" if "nth_opt (v_devs v) k = Some d" for k d
    using assms that by (auto simp: vm_ok_def)
  have upd: "vm_ok (v\<lparr>v_devs := (v_devs v)[k := d]\<rparr>)" if "tape_ok d" for k d
    using assms that set_update_ok [of "v_devs v" tape_ok d k] by (simp add: vm_ok_def)
  have move: "\<exists>resp v'. answer_move f cost k v = (resp, v') \<and> vm_ok v' \<and> v_core v' = v_core v"
    if "\<And>d. tape_ok d \<Longrightarrow> tape_ok (f d)" for f cost k
  proof (cases "nth_opt (v_devs v) (unat k)")
    case (Some d)
    with upd [OF that [OF dev [OF Some]]] show ?thesis by (simp add: answer_move_def)
  qed (use assms in \<open>simp add: answer_move_def\<close>)
  show ?thesis
  proof (cases req)
    case (DeviceMoveLeft k)
    then show ?thesis using move [of tape_left] dyn.ok_left by simp
  next
    case (DeviceMoveRight k)
    then show ?thesis using move [of tape_right] dyn.ok_right by simp
  next
    case (DeviceRead k)
    then show ?thesis using assms dyn.read_cell dev by (auto simp: answer_read_def split: option.split)
  next
    case (DeviceWrite k i)
    show ?thesis
    proof (cases "nth_opt (v_devs v) (unat k)")
      case (Some d)
      obtain r where r: "tape_write d i = Some r" using dyn.write_total [OF dev [OF Some]] by blast
      have "tape_ok d'" if "r = Inr d'" for d'
        using dyn.write_done [OF dev [OF Some]] r that by blast
      then show ?thesis using assms DeviceWrite Some r upd by (cases r) (auto simp: answer_write_def)
    qed (use assms DeviceWrite in \<open>simp add: answer_write_def\<close>)
  qed (use assms in
      \<open>auto simp: answer_code_def answer_table_def answer_push_def answer_pop_def stack_push_def stack_pop_def vm_ok_def split: option.split\<close>)
qed

text \<open>
  Under the frames profile the saved frame registers are one per return address, whenever the
  core reports an event of its own.
\<close>

definition paired :: "vm \<Rightarrow> bool" where
  "paired v \<longleftrightarrow> (frames_on (v_core v) \<longrightarrow>
     length (c_fr_stack (v_core v)) = length (rs_entries (v_stack v)))"

lemma answer_keeps_stack:
  assumes "answer e req v = Some (resp, v')" and "\<forall>x. req \<noteq> StackPush x" and "req \<noteq> StackPop"
  shows "v_stack v' = v_stack v"
  using assms
  by (cases req)
    (auto simp: answer_code_def answer_table_def answer_move_def answer_read_def answer_write_def
      split: option.splits sum.splits)

lemma answer_push_stack:
  "answer e (StackPush x) v = Some (resp, v') \<Longrightarrow>
     resp = BusOk \<and> length (rs_entries (v_stack v')) = length (rs_entries (v_stack v)) + 1
     \<or> resp = StackFull \<and> v_stack v' = v_stack v"
  by (auto simp: answer_push_def stack_push_def split: if_splits)

lemma answer_pop_stack:
  "answer e StackPop v = Some (resp, v') \<Longrightarrow>
     (\<exists>x. resp = BusValue x) \<and> length (rs_entries (v_stack v)) = length (rs_entries (v_stack v')) + 1
     \<or> resp = StackEmpty \<and> v_stack v' = v_stack v"
  by (auto simp: answer_pop_def stack_pop_def split: if_splits)

lemma served_paired:
  assumes p: "paired v" and ev: "event_ok (v_core v) (Request req)" and ok: "core_ok (v_core v)"
    and a: "answer e req v = Some (resp, v1)" and c: "v_core v1 = v_core v"
    and r: "resume (e_arch e) (v_core v1) resp = Some (c', event')"
  shows "paired (v1\<lparr>v_core := c'\<rparr>)"
proof -
  let ?c = "v_core v"
  note rs = resume_stack [OF r, unfolded c]
  then have on: "frames_on c' = frames_on ?c" by (simp add: frames_on_def)
  show ?thesis
  proof (cases "\<exists>ops pd. c_phase ?c = Execute ops pd")
    case False
    then have "req = CodeRead (c_ip ?c)" and "c_fr_stack c' = c_fr_stack ?c"
      using ev rs by (auto split: phase.splits)
    then show ?thesis using p on answer_keeps_stack [OF a] by (simp add: paired_def)
  next
    case True
    then obtain ops pd where ph: "c_phase ?c = Execute ops pd" by blast
    then have asks: "asks pd req" and pok: "pending_ok ?c pd" and stk: "c_fr_stack c' = fr_stack_after ?c pd resp"
      using ev ok rs by (simp_all add: core_ok_def)
    show ?thesis
    proof (cases pd)
      case (PPush t)
      then obtain x where "req = StackPush x" using asks by auto
      from answer_push_stack [OF a [unfolded this]] show ?thesis
        using PPush stk p on pok by (auto simp: paired_def)
    next
      case (PPushFrame t s)
      then obtain x where "req = StackPush x" using asks by auto
      from answer_push_stack [OF a [unfolded this]] show ?thesis
        using PPushFrame stk p on pok by (auto simp: paired_def)
    next
      case (PPopPair x)
      then have "req = StackPop" using asks by simp
      from answer_pop_stack [OF a [unfolded this]] show ?thesis
        using PPopPair stk p on by (auto simp: paired_def)
    next
      case PPop
      then show ?thesis using pok on by (auto simp: paired_def)
    qed (use asks stk p on answer_keeps_stack [OF a] in \<open>auto simp: paired_def\<close>)
  qed
qed

section \<open>Counting without wrapping around\<close>

text \<open>
  The tacts spent, not as the counters tell them but as numbers; a tact limit that leaves room for one
  more request of any cost, and counters that have not used that room up.
\<close>

definition tacts_used :: "run_stats \<Rightarrow> nat" where
  "tacts_used s = unat (core_tacts s) + unat (stall_tacts s)"

definition safe_tact_limit :: "run_limits \<Rightarrow> bool" where
  "safe_tact_limit l \<longleftrightarrow> (\<exists>m. max_tacts l = Some m \<and> unat m + 2 ^ 32 \<le> 2 ^ 64)"

definition tact_room :: "run_limits \<Rightarrow> run_stats \<Rightarrow> bool" where
  "tact_room l s \<longleftrightarrow> safe_tact_limit l \<and> tacts_used s + 2 ^ 32 \<le> 2 ^ 64"

lemma total_tacts_used: "tacts_used s < 2 ^ 64 \<Longrightarrow> unat (total_tacts s) = tacts_used s"
  by (simp add: total_tacts_def tacts_used_def unat_word_ariths)

lemma room_total: "tact_room l s \<Longrightarrow> unat (total_tacts s) = tacts_used s"
  by (rule total_tacts_used) (simp add: tact_room_def)

text \<open>Spending at most the cost of one request; what is within the limit then has room again.\<close>

definition spends :: "run_stats \<Rightarrow> nat \<Rightarrow> run_stats \<Rightarrow> bool" where
  "spends s n s' \<longleftrightarrow> n < 2 ^ 32 \<and> (tacts_used s + n < 2 ^ 64 \<longrightarrow> tacts_used s' = tacts_used s + n)"

lemma spends_within:
  assumes "spends s n s'" "tact_room l s" "\<not> over_tacts l s'"
  shows "tacts_used s' = tacts_used s + n" "tact_room l s'"
proof -
  show u: "tacts_used s' = tacts_used s + n" using assms(1,2) by (simp add: spends_def tact_room_def)
  obtain m where m: "max_tacts l = Some m" "unat m + 2 ^ 32 \<le> 2 ^ 64"
    using assms(2) by (auto simp: tact_room_def safe_tact_limit_def)
  have "tacts_used s' < 2 ^ 64" using u assms(1,2) by (simp add: spends_def tact_room_def)
  then have "tacts_used s' < unat m"
    using assms(3) m(1) total_tacts_used [of s'] by (simp add: over_tacts_def over_def word_le_nat_alt)
  then show "tact_room l s'" using m by (auto simp: tact_room_def safe_tact_limit_def)
qed

lemma spends_core: "spends s 1 (s\<lparr>st_steps := k, core_tacts := core_tacts s + 1\<rparr>)"
  and spends_core_only: "spends s 1 (s\<lparr>core_tacts := core_tacts s + 1\<rparr>)"
  by (auto simp: spends_def tacts_used_def unat_word_ariths)

lemma spends_stall: "spends s (unat (c :: u32)) (s\<lparr>stall_tacts := stall_tacts s + ucast c\<rparr>)"
proof -
  have lt: "unat c < 2 ^ 32" by (rule order_less_le_trans [OF unsigned_less]) simp
  have "unat c < 2 ^ 64" by (rule order_less_le_trans [OF unsigned_less]) simp
  then have c: "unat (ucast c :: u64) = unat c" by (simp add: unsigned_ucast_eq take_bit_nat_eq_self_iff)
  show ?thesis using lt by (auto simp: spends_def tacts_used_def unat_word_ariths c)
qed

text \<open>Without that room a limit can be missed: two tacts short of the largest limit, a cost of five wraps past it.\<close>

lemma tact_limit_missed:
  fixes l :: run_limits and s :: run_stats
  defines "l \<equiv> \<lparr>max_steps = None, max_tacts = Some (2 ^ 64 - 1)\<rparr>"
    and "s \<equiv> \<lparr>st_steps = 0, core_tacts = 2, stall_tacts = 2 ^ 64 - 5\<rparr>"
  shows "\<not> over_tacts l s" "\<not> over_tacts l (s\<lparr>stall_tacts := stall_tacts s + ucast (5 :: u32)\<rparr>)"
  by (simp_all add: l_def s_def over_tacts_def over_def total_tacts_def)

lemma spends_nothing: "spends s 0 s"
  by (simp add: spends_def)

section \<open>An instruction always completes\<close>

definition driver_ok :: "env \<Rightarrow> vm \<Rightarrow> bool" where
  "driver_ok e v \<longleftrightarrow> vm_ok v \<and> paired v"

text \<open>What serving up to the next boundary guarantees.\<close>

definition boundary :: "env \<Rightarrow> vm \<Rightarrow> step_event \<Rightarrow> vm \<Rightarrow> bool" where
  "boundary e v ev v' \<longleftrightarrow>
     vm_ok v' \<and> st_steps (v_stats v') \<in> {st_steps (v_stats v), st_steps (v_stats v) + 1}
     \<and> rs_capacity (v_stack v') = rs_capacity (v_stack v)
     \<and> ((\<forall>oc. ev \<noteq> Finished oc) \<longrightarrow>
          paired v' \<and> c_phase (v_core v') = StepAck
          \<and> st_steps (v_stats v') = st_steps (v_stats v) + 1
          \<and> (tact_room (e_limits e) (v_stats v) \<longrightarrow>
               tacts_used (v_stats v) < tacts_used (v_stats v') \<and> tact_room (e_limits e) (v_stats v'))
          \<and> \<not> over (max_steps (e_limits e)) (st_steps (v_stats v'))
          \<and> \<not> over_tacts (e_limits e) (v_stats v'))"

lemma retire_step_boundary:
  assumes "vm_ok v" "paired v" "c_phase (v_core v) = StepAck"
  shows "boundary e v (fst (retire_step e v ev)) (snd (retire_step e v ev))"
proof -
  let ?s = "(v_stats v)\<lparr>st_steps := st_steps (v_stats v) + 1, core_tacts := core_tacts (v_stats v) + 1\<rparr>"
  have "spends (v_stats v) 1 ?s" by (rule spends_core)
  from spends_within [OF this, of "e_limits e"]
  have "tacts_used (v_stats v) < tacts_used ?s \<and> tact_room (e_limits e) ?s"
    if "tact_room (e_limits e) (v_stats v)" "\<not> over_tacts (e_limits e) ?s" using that by simp
  then show ?thesis
    using assms by (auto simp: retire_step_def boundary_def Let_def vm_ok_def paired_def)
qed

lemma ticks_spend:
  "\<exists>n. spends (v_stats v) n (v_stats (tick_core v))" "\<exists>n. spends (v_stats v) n (v_stats (tick_stall c v))"
  "\<exists>n. spends (v_stats v) n (v_stats v)"
  using spends_core_only [of "v_stats v"] spends_stall [of "v_stats v" c] spends_nothing [of "v_stats v"]
  by (auto simp: tick_core_def tick_stall_def)

lemma spends_update [simp]:
  "v_stats (tick_core (v\<lparr>v_stack := s\<rparr>)) = v_stats (tick_core v)"
  "v_stats (tick_stall c (v\<lparr>v_devs := ds\<rparr>)) = v_stats (tick_stall c v)"
  "st_steps (v_stats (tick_core v)) = st_steps (v_stats v)" "st_steps (v_stats (tick_stall c v)) = st_steps (v_stats v)"
  by (simp_all add: tick_core_def tick_stall_def)

lemma answer_stats:
  assumes "answer e req v = Some (resp, v')"
  shows "st_steps (v_stats v') = st_steps (v_stats v) \<and> (\<exists>n. spends (v_stats v) n (v_stats v'))
    \<and> rs_capacity (v_stack v') = rs_capacity (v_stack v)"
  using assms
  by (cases req)
    (auto simp: answer_code_def answer_table_def answer_move_def answer_read_def answer_write_def
      answer_push_def answer_pop_def stack_push_def stack_pop_def ticks_spend
      split: option.splits sum.splits prod.splits bool.splits if_splits)

lemma boundary_trans:
  "boundary e v1 ev v' \<Longrightarrow> st_steps (v_stats v1) = st_steps (v_stats v) \<Longrightarrow>
     (tact_room (e_limits e) (v_stats v) \<Longrightarrow>
        tacts_used (v_stats v) \<le> tacts_used (v_stats v1) \<and> tact_room (e_limits e) (v_stats v1)) \<Longrightarrow>
     rs_capacity (v_stack v1) = rs_capacity (v_stack v) \<Longrightarrow> boundary e v ev v'"
  by (auto simp: boundary_def)

lemma answer_code_byte:
  "answer e (CodeRead at) v = Some (Byte b, v') \<Longrightarrow> unat at < length (e_code e)"
  by (auto simp: answer_code_def split: option.splits)

lemma serve_event_returns:
  assumes code: "length (e_code e) < 2 ^ 32"
  shows "vm_ok v \<Longrightarrow> paired v \<Longrightarrow> event_ok (v_core v) event \<Longrightarrow>
    \<exists>ev v'. serve_event e v event = Some (ev, v') \<and> boundary e v ev v'"
proof (induction "phase_rank (v_core v)" arbitrary: v event rule: wf_induct_rule [OF wf_rank_less])
  case (1 v event)
  show ?case
  proof (cases event)
    case (Request req)
    obtain resp v1 where a: "answer e req v = Some (resp, v1)" and ok1: "vm_ok v1" and c1: "v_core v1 = v_core v"
      using answer_ok [OF 1(2)] by blast
    note stats = answer_stats [OF a]
    show ?thesis
    proof (cases "over_tacts (e_limits e) (v_stats v1)")
      case True
      then have "serve_event e v event = Some (Finished (Trapped TactLimit), v1)"
        using Request a by (subst serve_event.simps) simp
      moreover have "boundary e v (Finished (Trapped TactLimit)) v1"
        using ok1 stats by (simp add: boundary_def)
      ultimately show ?thesis by blast
    next
      case False
      have cok: "core_ok (v_core v)" using 1(2) by (simp add: vm_ok_def)
      obtain c' event' where r: "resume (e_arch e) (v_core v1) resp = Some (c', event')" and c'ok: "core_ok c'"
        using resume_ok [OF cok, of "e_arch e" resp] c1
        by (cases "resume (e_arch e) (v_core v) resp") auto
      have ph: "c_phase (v_core v) \<noteq> StepAck" "c_phase (v_core v) \<noteq> Done"
        using 1(4) Request by (auto split: phase.splits)
      have "falls_from (v_core v) (resume (e_arch e) (v_core v) resp)"
      proof (rule resume_falls [OF cok ph])
        fix b
        assume "resp = Byte b" and "\<forall>ops p. c_phase (v_core v) \<noteq> Execute ops p"
        then have "req = CodeRead (c_ip (v_core v))" using 1(4) Request by (auto split: phase.splits)
        with answer_code_byte a \<open>resp = Byte b\<close> have "unat (c_ip (v_core v)) < length (e_code e)" by blast
        then show "unat (c_ip (v_core v)) + 1 < 2 ^ 32" using code by linarith
      qed
      then have ev': "event_ok c' event'"
        and falls: "\<And>req'. event' = Request req' \<Longrightarrow> (phase_rank c', phase_rank (v_core v)) \<in> rank_less"
        using r c1 by (auto simp: falls_from_def)
      let ?v = "v1\<lparr>v_core := c'\<rparr>"
      have ok': "vm_ok ?v" using ok1 c'ok by (simp add: vm_ok_def)
      have pr: "paired ?v" using served_paired [OF 1(3) _ cok a c1 r] 1(4) Request by simp
      have st: "serve_event e v event = serve_event e ?v event'"
        using Request a r False by (subst serve_event.simps) simp
      have "\<exists>ev v'. serve_event e ?v event' = Some (ev, v') \<and> boundary e ?v ev v'"
      proof (cases "\<exists>req'. event' = Request req'")
        case True
        then have "(phase_rank (v_core ?v), phase_rank (v_core v)) \<in> rank_less" using falls by auto
        from 1(1) [OF this ok' pr] ev' show ?thesis by simp
      next
        case False
        then show ?thesis
          using retire_step_boundary [OF ok' pr, of e] ev' ok'
          by (cases event'; subst serve_event.simps)
            (auto simp: boundary_def intro!: exI [of _ "fst (retire_step e ?v _)"]
              exI [of _ "snd (retire_step e ?v _)"])
      qed
      then obtain ev v' where "serve_event e ?v event' = Some (ev, v')" and "boundary e ?v ev v'" by blast
      moreover have "tacts_used (v_stats v) \<le> tacts_used (v_stats v1) \<and> tact_room (e_limits e) (v_stats v1)"
        if "tact_room (e_limits e) (v_stats v)" using stats spends_within [OF _ that False] by auto
      then have "boundary e v ev v'"
        by (intro boundary_trans [OF \<open>boundary e ?v ev v'\<close>]) (use stats in simp_all)
      ultimately show ?thesis using st by auto
    qed
  next
    case EvStep
    then show ?thesis using retire_step_boundary [OF 1(2,3), of e Retired] 1(4)
      by (subst serve_event.simps) (simp, metis prod.collapse)
  next
    case EvBreak
    then show ?thesis using retire_step_boundary [OF 1(2,3), of e Break] 1(4)
      by (subst serve_event.simps) (simp, metis prod.collapse)
  next
    case EvStop
    then show ?thesis using 1(2) by (subst serve_event.simps) (simp add: boundary_def)
  next
    case EvHalt
    then show ?thesis using 1(2) by (subst serve_event.simps) (simp add: boundary_def)
  next
    case (EvTrap t)
    then show ?thesis using 1(2) by (subst serve_event.simps) (simp add: boundary_def)
  qed
qed

text \<open>
  A driver about to execute an instruction: before the first one the core is at reset, later it
  has retired one.
\<close>

definition ready :: "bool \<Rightarrow> vm \<Rightarrow> bool" where
  "ready started v \<longleftrightarrow> vm_ok v \<and> paired v \<and>
     (if started then c_phase (v_core v) = StepAck else frame_ok (v_core v))"

lemma boundary_ready: "boundary e v ev v' \<Longrightarrow> \<forall>oc. ev \<noteq> Finished oc \<Longrightarrow> ready True v'"
  by (simp add: boundary_def ready_def)

lemma start_event: "event_ok (fst (start c)) (snd (start c))"
  by (simp add: start_def Let_def code_read_def)

lemma begin_instruction:
  assumes "ready started v"
  shows "\<exists>c' event. (if started then resume (e_arch e) (v_core v) BusOk else Some (start (v_core v)))
      = Some (c', event) \<and> vm_ok (v\<lparr>v_core := c'\<rparr>) \<and> paired (v\<lparr>v_core := c'\<rparr>) \<and> event_ok c' event"
proof -
  let ?c = "v_core v"
  have b: "base_ok ?c" using assms by (simp add: ready_def vm_ok_def core_ok_def)
  have f: "frame_ok ?c" using assms by (auto simp: ready_def vm_ok_def core_ok_def split: if_splits)
  have st: "(if started then resume (e_arch e) ?c BusOk else Some (start ?c)) =
      Some (start (if started then ?c\<lparr>c_phase := Done\<rparr> else ?c))"
    using assms by (simp add: ready_def resume_def)
  let ?s = "start (if started then ?c\<lparr>c_phase := Done\<rparr> else ?c)"
  have "core_ok (fst ?s)" using b f by (auto intro!: start_ok)
  moreover have "c_fr_stack (fst ?s) = c_fr_stack ?c" "frames_on (fst ?s) = frames_on ?c"
    by (simp_all add: start_def Let_def frames_on_def)
  ultimately have "vm_ok (v\<lparr>v_core := fst ?s\<rparr>)" "paired (v\<lparr>v_core := fst ?s\<rparr>)"
    using assms by (simp_all add: ready_def vm_ok_def paired_def)
  then show ?thesis unfolding st using start_event [of "if started then ?c\<lparr>c_phase := Done\<rparr> else ?c"]
    by (metis prod.collapse)
qed

lemma step_boundary:
  assumes "length (e_code e) < 2 ^ 32" and "ready started v"
  shows "\<exists>ev v'. step_instruction e started v = Some (ev, v') \<and> boundary e v ev v'"
proof -
  obtain c' event where s: "(if started then resume (e_arch e) (v_core v) BusOk else Some (start (v_core v)))
      = Some (c', event)" and ok: "vm_ok (v\<lparr>v_core := c'\<rparr>)" "paired (v\<lparr>v_core := c'\<rparr>)" "event_ok c' event"
    using begin_instruction [OF assms(2)] by blast
  obtain ev v' where "serve_event e (v\<lparr>v_core := c'\<rparr>) event = Some (ev, v')"
      and b: "boundary e (v\<lparr>v_core := c'\<rparr>) ev v'"
    using serve_event_returns [OF assms(1) ok(1,2)] ok(3) by fastforce
  then have "step_instruction e started v = Some (ev, v')" by (simp add: step_instruction_def s)
  moreover have "boundary e v ev v'" by (rule boundary_trans [OF b]) simp_all
  ultimately show ?thesis by blast
qed

section \<open>A limited run always returns\<close>

text \<open>
  A step limit, or a tact limit out of reach of the wrap-around; and counters that have not used up
  the room below the wrap-around.
\<close>

definition limited :: "run_limits \<Rightarrow> bool" where
  "limited l \<longleftrightarrow> max_steps l \<noteq> None \<or> safe_tact_limit l"

definition roomy :: "run_limits \<Rightarrow> run_stats \<Rightarrow> bool" where
  "roomy l s \<longleftrightarrow> (if max_steps l = None then tact_room l s else unat (st_steps s) + 1 < 2 ^ 64)"

lemma roomy_new: "limited l \<Longrightarrow> roomy l stats_new"
  by (auto simp: limited_def roomy_def stats_new_def tact_room_def tacts_used_def)

definition fuel_left :: "run_limits \<Rightarrow> run_stats \<Rightarrow> nat" where
  "fuel_left l s =
     (case max_steps l of
        Some m \<Rightarrow> unat m - unat (st_steps s)
      | None \<Rightarrow> (case max_tacts l of Some m \<Rightarrow> unat m - tacts_used s | None \<Rightarrow> 0))"

lemma boundary_fuel:
  assumes "boundary e v ev v'" "\<forall>oc. ev \<noteq> Finished oc" "roomy (e_limits e) (v_stats v)"
  shows "fuel_left (e_limits e) (v_stats v') < fuel_left (e_limits e) (v_stats v)"
    "roomy (e_limits e) (v_stats v')"
proof -
  let ?l = "e_limits e" and ?s = "v_stats v" and ?s' = "v_stats v'"
  have b: "st_steps ?s' = st_steps ?s + 1" "\<not> over (max_steps ?l) (st_steps ?s')" "\<not> over_tacts ?l ?s'"
    and t: "tact_room ?l ?s \<Longrightarrow> tacts_used ?s < tacts_used ?s' \<and> tact_room ?l ?s'"
    using assms(1,2) unfolding boundary_def by blast+
  have "fuel_left ?l ?s' < fuel_left ?l ?s \<and> roomy ?l ?s'"
  proof (cases "max_steps ?l")
    case (Some m)
    have u: "unat (st_steps ?s') = unat (st_steps ?s) + 1"
      using b(1) assms(3) Some by (simp add: roomy_def unat_word_ariths)
    moreover have "unat (st_steps ?s') < unat m"
      using b(2) Some by (simp add: over_def not_le word_less_nat_alt)
    moreover have "unat m < 2 ^ 64" by (rule order_less_le_trans [OF unsigned_less]) simp
    ultimately show ?thesis using Some by (simp add: fuel_left_def roomy_def)
  next
    case None
    then have r: "tact_room ?l ?s" using assms(3) by (simp add: roomy_def)
    then obtain m where m: "max_tacts ?l = Some m" "unat m + 2 ^ 32 \<le> 2 ^ 64"
      by (auto simp: tact_room_def safe_tact_limit_def)
    have "tacts_used ?s' < unat m"
      using b(3) m(1) t [OF r] total_tacts_used [of ?s']
      by (simp add: over_tacts_def over_def not_le word_less_nat_alt tact_room_def)
    moreover have "tacts_used ?s < tacts_used ?s'" "tact_room ?l ?s'" using t [OF r] by simp_all
    ultimately show ?thesis using None m(1) by (simp add: fuel_left_def roomy_def diff_less_mono2)
  qed
  then show "fuel_left ?l ?s' < fuel_left ?l ?s" "roomy ?l ?s'" by simp_all
qed

definition run_good :: "env \<Rightarrow> vm \<Rightarrow> (run_result \<times> vm) option \<Rightarrow> bool" where
  "run_good e v r \<longleftrightarrow>
     (\<exists>res v'. r = Some (res, v') \<and> vm_ok v' \<and> r_stats res = v_stats v' \<and>
        r_stack res = rs_entries (v_stack v') \<and>
        rs_capacity (v_stack v') = rs_capacity (v_stack v) \<and>
        (\<forall>m. max_steps (e_limits e) = Some m \<longrightarrow>
           st_steps (r_stats res) \<le> max m (st_steps (v_stats v) + 1)))"

lemma run_loop_returns:
  assumes code: "length (e_code e) < 2 ^ 32"
  shows "ready started v \<Longrightarrow> roomy (e_limits e) (v_stats v) \<Longrightarrow> run_good e v (run_loop e started v)"
proof (induction "fuel_left (e_limits e) (v_stats v)" arbitrary: v started rule: less_induct)
  case less
  obtain ev v1 where s: "step_instruction e started v = Some (ev, v1)" and b: "boundary e v ev v1"
    using step_boundary [OF code less.prems(1)] by blast
  show ?case
  proof (cases "\<exists>oc. ev = Finished oc")
    case True
    then obtain oc where "ev = Finished oc" by blast
    then have "run_loop e started v = Some (result_of oc v1, v1)"
      using s by (subst run_loop.simps) simp
    moreover have "st_steps (v_stats v1) \<le> max m (st_steps (v_stats v) + 1)" if "max_steps (e_limits e) = Some m" for m
    proof -
      have "unat (st_steps (v_stats v)) + 1 < 2 ^ 64" using less.prems(2) that by (simp add: roomy_def)
      then have "st_steps (v_stats v) \<le> st_steps (v_stats v) + 1" by (simp add: word_le_nat_alt unat_word_ariths)
      then show ?thesis using b by (auto simp: boundary_def le_max_iff_disj)
    qed
    ultimately show ?thesis using b by (auto simp: run_good_def result_of_def boundary_def)
  next
    case False
    then have nf: "\<forall>oc. ev \<noteq> Finished oc" by blast
    have good: "run_good e v1 (run_loop e True v1)"
      by (rule less.hyps [OF boundary_fuel(1) [OF b nf less.prems(2)] boundary_ready [OF b nf]
            boundary_fuel(2) [OF b nf less.prems(2)]])
    have same: "run_loop e started v = run_loop e True v1"
      using s nf by (subst run_loop.simps) (cases ev, simp_all)
    have le: "max m (st_steps (v_stats v1) + 1) \<le> max m (st_steps (v_stats v) + 1)"
      if "max_steps (e_limits e) = Some m" for m
    proof -
      have "st_steps (v_stats v1) < m" using b nf that by (auto simp: boundary_def over_def)
      then have "st_steps (v_stats v1) + 1 \<le> m" by (rule inc_le)
      then show ?thesis by (simp add: le_max_iff_disj)
    qed
    have cap: "rs_capacity (v_stack v1) = rs_capacity (v_stack v)" using b by (simp add: boundary_def)
    obtain res v' where g: "run_loop e True v1 = Some (res, v')" "vm_ok v'" "r_stats res = v_stats v'"
        "r_stack res = rs_entries (v_stack v')" "rs_capacity (v_stack v') = rs_capacity (v_stack v1)"
      and st: "\<And>m. max_steps (e_limits e) = Some m \<Longrightarrow> st_steps (r_stats res) \<le> max m (st_steps (v_stats v1) + 1)"
      using good unfolding run_good_def by blast
    show ?thesis
      unfolding run_good_def using g same cap order_trans [OF st le]
      by (intro exI [of _ res] exI [of _ v']) simp
  qed
qed

section \<open>A fresh machine\<close>

text \<open>What the assembly of a machine hands to \<open>run\<close>.\<close>

definition fresh_vm :: "u32 \<Rightarrow> u8 \<Rightarrow> frames_meta option \<Rightarrow> nat \<Rightarrow> tape_dev list \<Rightarrow> vm" where
  "fresh_vm entry devices meta cap devs =
     \<lparr>v_core = core_reset entry devices meta, v_stack = stack_new cap, v_devs = devs,
      v_stats = stats_new\<rparr>"

lemma fresh_ready: "\<forall>d \<in> set devs. tape_ok d \<Longrightarrow> ready False (fresh_vm entry devices meta cap devs)"
proof -
  have c: "c_phase (core_reset entry devices meta) = FetchOpcode"
    "c_fr_stack (core_reset entry devices meta) = []"
    by (auto simp: core_reset_def core_new_def with_device_count_def with_frames_def Let_def
        split: option.split)
  assume "\<forall>d \<in> set devs. tape_ok d"
  with core_reset_ok [of entry devices meta] c show ?thesis
    by (simp add: ready_def fresh_vm_def vm_ok_def core_ok_def paired_def stack_new_def)
qed

lemma fresh_run:
  "run e (core_reset entry devices meta) (stack_new cap) devs =
     run_loop e False (fresh_vm entry devices meta cap devs)"
  by (simp add: run_def fresh_vm_def)

end
