(* ===== verification/Micro_Semantics.thy ===== *)
theory Micro_Semantics
  imports Driver
begin

text \<open>
  The abstract specification of the base profile: what each micro-op does to a machine, in one
  step, with no bus, no phases and no table walks. The refinement theorem says that the core of
  \<open>vm/core.rs\<close> served by the driver of \<open>vm/driver.rs\<close> does exactly that: a micro-op sequence
  ends with the same outcome, the same tapes, the same return stack and the same registers.
\<close>

section \<open>The abstract machine\<close>

record mach =
  m_ip :: u32
  m_mr :: u32
  m_tr :: "u32 list"
  m_len :: u8
  m_brk :: bool
  m_stack :: return_stack
  m_devs :: "tape_dev list"

datatype flow = Next mach | Ends outcome mach

definition crash :: "trap \<Rightarrow> mach \<Rightarrow> flow" where
  "crash t m = Ends (Trapped t) m"

definition on_tape :: "mach \<Rightarrow> u8 \<Rightarrow> (tape_dev \<Rightarrow> flow) \<Rightarrow> flow" where
  "on_tape m d k =
     (case nth_opt (m_devs m) (unat d) of
        None \<Rightarrow> crash (DeviceTrap (NoSuchDevice d)) m
      | Some t \<Rightarrow> k t)"

definition set_tape :: "mach \<Rightarrow> u8 \<Rightarrow> tape_dev \<Rightarrow> mach" where
  "set_tape m d t = m\<lparr>m_devs := (m_devs m)[unat d := t]\<rparr>"

definition symbol_at :: "tape_dev \<Rightarrow> u32" where
  "symbol_at t = tape_cells t (tape_head t)"

definition m_jump :: "u32 \<Rightarrow> i32 \<Rightarrow> (u32 \<Rightarrow> flow) \<Rightarrow> mach \<Rightarrow> flow" where
  "m_jump at off k m =
     (let target = uint (m_ip m) + sint off in
      if 0 \<le> target \<and> target < 2 ^ 32 then k (of_int target) else crash (CodeOutOfBounds at) m)"

definition m_read :: "u32 \<Rightarrow> u8 \<Rightarrow> u8 \<Rightarrow> mach \<Rightarrow> flow" where
  "m_read at d slot m =
     (if slot \<ge> 16 then crash (BadOperand at) m
      else on_tape m d (\<lambda>t. Next (m\<lparr>m_tr := (m_tr m)[unat slot := symbol_at t],
                                   m_len := max (m_len m) (slot + 1)\<rparr>)))"

fun m_reads :: "u32 \<Rightarrow> u8 list \<Rightarrow> mach \<Rightarrow> flow" where
  "m_reads at [] m = Next m"
| "m_reads at (d # ds) m =
     (case m_read at d d m of Next m' \<Rightarrow> m_reads at ds m' | Ends oc m' \<Rightarrow> Ends oc m')"

text \<open>A call checks the marker at its target, then pushes the return address.\<close>

definition m_call :: "env \<Rightarrow> u32 \<Rightarrow> mach \<Rightarrow> flow" where
  "m_call e target m =
     (case nth_opt (e_code e) (unat target) of
        None \<Rightarrow> crash (CallTargetNotEntry target) m
      | Some b \<Rightarrow>
          if \<not> is_entry_marker (e_arch e) b then crash (CallTargetNotEntry target) m
          else (case stack_push (m_stack m) (m_ip m) of
                  (True, s) \<Rightarrow> Next (m\<lparr>m_stack := s, m_ip := target\<rparr>)
                | (False, s) \<Rightarrow> crash StackOverflow m))"

definition m_ret :: "mach \<Rightarrow> flow" where
  "m_ret m =
     (case stack_pop (m_stack m) of
        (Some v, s) \<Rightarrow> Next (m\<lparr>m_stack := s, m_ip := v\<rparr>)
      | (None, s) \<Rightarrow> crash StackUnderflow m)"

definition m_match :: "env \<Rightarrow> u32 \<Rightarrow> u32 \<Rightarrow> mach \<Rightarrow> flow" where
  "m_match e at table m =
     (case match_lookup (e_tables e) (take (unat (m_len m)) (m_tr m)) table of
        Some (Served (WalkDone r)) \<Rightarrow> Next (m\<lparr>m_mr := r\<rparr>)
      | Some OffTable \<Rightarrow> crash (TableOutOfBounds at) m
      | _ \<Rightarrow> crash (BadOperand at) m)"

definition m_dispatch :: "env \<Rightarrow> u32 \<Rightarrow> u32 \<Rightarrow> mach \<Rightarrow> flow" where
  "m_dispatch e at table m =
     (if m_mr m = 0 then crash (NoTransition at) m
      else case dispatch_lookup (e_tables e) table (m_mr m) of
             Some (Served (DispatchDone target)) \<Rightarrow> Next (m\<lparr>m_ip := target\<rparr>)
           | Some OffTable \<Rightarrow> crash (TableOutOfBounds at) m
           | _ \<Rightarrow> crash (DispatchOutOfRange at) m)"

text \<open>
  One micro-op of the instruction at \<open>at\<close>, on a machine of \<open>n\<close> tapes without the frames
  profile.
\<close>

fun micro :: "env \<Rightarrow> u8 \<Rightarrow> u32 \<Rightarrow> micro_op \<Rightarrow> mach \<Rightarrow> flow" where
  "micro e n at (MoveLeft d) m = on_tape m d (\<lambda>t. Next (set_tape m d (tape_left t)))"
| "micro e n at (MoveRight d) m = on_tape m d (\<lambda>t. Next (set_tape m d (tape_right t)))"
| "micro e n at (MWrite d i) m =
     on_tape m d (\<lambda>t. case tape_write t i of
       Some (Inr t') \<Rightarrow> Next (set_tape m d t')
     | Some (Inl f) \<Rightarrow> crash (DeviceTrap f) m
     | None \<Rightarrow> Next m)"
| "micro e n at (MRead d slot) m = m_read at d slot m"
| "micro e n at (LatchMatch k) m =
     on_tape m 0 (\<lambda>t. Next (m\<lparr>m_mr := (if symbol_at t = k then 1 else 0)\<rparr>))"
| "micro e n at (JumpRel off) m = m_jump at off (\<lambda>t. Next (m\<lparr>m_ip := t\<rparr>)) m"
| "micro e n at (JumpRelIf off when) m =
     (if (m_mr m \<noteq> 0) = when then m_jump at off (\<lambda>t. Next (m\<lparr>m_ip := t\<rparr>)) m else Next m)"
| "micro e n at (MCall off) m = m_jump at off (\<lambda>t. m_call e t m) m"
| "micro e n at MRet m = m_ret m"
| "micro e n at (MatchTable table) m = m_match e at table m"
| "micro e n at (DispatchJump table) m = m_dispatch e at table m"
| "micro e n at (Raise kind) m = crash (raised kind at) m"
| "micro e n at ReadAll m = m_reads at (map of_nat [0..<unat n]) (m\<lparr>m_len := 0\<rparr>)"
| "micro e n at (CallFrame rel site) m = crash (ProfileViolation at) m"
| "micro e n at (RetX k) m = crash (ProfileViolation at) m"
| "micro e n at MStop m = Ends Stopped m"
| "micro e n at MHalt m = Ends Halted m"
| "micro e n at MBrk m = Next (m\<lparr>m_brk := True\<rparr>)"
| "micro e n at MNop m = Next m"

fun micros :: "env \<Rightarrow> u8 \<Rightarrow> u32 \<Rightarrow> micro_op list \<Rightarrow> mach \<Rightarrow> flow" where
  "micros e n at [] m = Next m"
| "micros e n at (x # xs) m =
     (case micro e n at x m of Next m' \<Rightarrow> micros e n at xs m' | Ends oc m' \<Rightarrow> Ends oc m')"

lemma micros_append:
  "micros e n at (xs @ ys) m =
     (case micros e n at xs m of Next m' \<Rightarrow> micros e n at ys m' | Ends oc m' \<Rightarrow> Ends oc m')"
  by (induction xs arbitrary: m) (auto split: flow.split)

lemma m_reads_micros: "m_reads at ds m = micros e n at (map (\<lambda>d. MRead d d) ds) m"
  by (induction ds arbitrary: m) (auto split: flow.split)

section \<open>The machine a core and its driver stand for\<close>

definition abs_vm :: "vm \<Rightarrow> mach" where
  "abs_vm v =
     \<lparr>m_ip = c_ip (v_core v), m_mr = c_mr (v_core v), m_tr = c_tr (v_core v),
      m_len = c_tr_len (v_core v), m_brk = c_brk_pending (v_core v), m_stack = v_stack v,
      m_devs = v_devs v\<rparr>"

text \<open>
  The setting of the refinement: between two micro-ops, without the frames profile and without
  a limit on tacts.
\<close>

definition base_run :: "env \<Rightarrow> vm \<Rightarrow> bool" where
  "base_run e v \<longleftrightarrow>
     c_phase (v_core v) = Done \<and> base_ok (v_core v) \<and> frame_ok (v_core v)
     \<and> \<not> frames_on (v_core v) \<and> (\<forall>d \<in> set (v_devs v). tape_ok d)
     \<and> length (rs_entries (v_stack v)) \<le> rs_capacity (v_stack v)
     \<and> max_tacts (e_limits e) = None"

lemma no_tact_limit: "max_tacts l = None \<Longrightarrow> \<not> over_tacts l s"
  by (simp add: over_tacts_def over_def)

text \<open>Executing the rest of an instruction: issue, then serve to the boundary.\<close>

definition serve_ops :: "env \<Rightarrow> vm \<Rightarrow> micro_op list \<Rightarrow> (step_event \<times> vm) option" where
  "serve_ops e v ops =
     (case issue (v_core v) ops of
        None \<Rightarrow> None
      | Some (c', event) \<Rightarrow> serve_event e (v\<lparr>v_core := c'\<rparr>) event)"

text \<open>What stays: the profile, the instruction and the step count.\<close>

definition same_setting :: "vm \<Rightarrow> vm \<Rightarrow> bool" where
  "same_setting v v' \<longleftrightarrow>
     c_frames (v_core v') = c_frames (v_core v) \<and> c_device_count (v_core v') = c_device_count (v_core v)
     \<and> c_instr_start (v_core v') = c_instr_start (v_core v) \<and> c_fr (v_core v') = c_fr (v_core v)
     \<and> st_steps (v_stats v') = st_steps (v_stats v)"

definition refines :: "env \<Rightarrow> vm \<Rightarrow> micro_op list \<Rightarrow> (step_event \<times> vm) option \<Rightarrow> flow \<Rightarrow> bool" where
  "refines e v ops r f \<longleftrightarrow>
     (case f of
        Next m' \<Rightarrow> (\<exists>v'. r = serve_ops e v' ops \<and> base_run e v' \<and> abs_vm v' = m' \<and> same_setting v v')
      | Ends oc m' \<Rightarrow> (\<exists>v'. r = Some (Finished oc, v') \<and> abs_vm v' = m'))"


section \<open>One request\<close>

lemma answer_core:
  "answer e req (v\<lparr>v_core := c\<rparr>) = map_option (\<lambda>(r, v1). (r, v1\<lparr>v_core := c\<rparr>)) (answer e req v)"
  by (cases req)
    (simp_all add: answer_code_def answer_table_def answer_move_def answer_read_def answer_write_def
      answer_push_def answer_pop_def stack_push_def stack_pop_def tick_core_def tick_stall_def
      split: option.split sum.split)

lemma serve_pending:
  assumes "c_phase (v_core v) = Done" and "max_tacts (e_limits e) = None"
  shows "serve_event e (v\<lparr>v_core := (v_core v)\<lparr>c_phase := Execute ops p\<rparr>\<rparr>) (Request req) =
    (case answer e req v of
       None \<Rightarrow> None
     | Some (resp, v1) \<Rightarrow>
         (case settle (e_arch e) (v_core v) ops p resp of
            None \<Rightarrow> None
          | Some (Leave c' ev) \<Rightarrow> serve_event e (v1\<lparr>v_core := c'\<rparr>) ev
          | Some (Proceed c') \<Rightarrow> serve_ops e (v1\<lparr>v_core := c'\<rparr>) ops))"
proof -
  let ?c = "(v_core v)\<lparr>c_phase := Execute ops p\<rparr>"
  have d: "(v_core v)\<lparr>c_phase := Done\<rparr> = v_core v" using assms(1) by simp
  have "resume (e_arch e) ?c resp =
      (case settle (e_arch e) (v_core v) ops p resp of
         None \<Rightarrow> None
       | Some (Leave c' ev) \<Rightarrow> Some (c', ev)
       | Some (Proceed c') \<Rightarrow> issue c' ops)" for resp
    by (simp add: resume_def step_execute_def d)
  then show ?thesis
    by (subst serve_event.simps)
      (auto simp: answer_core no_tact_limit [OF assms(2)] serve_ops_def
        split: option.split settled.split)
qed

lemma serve_issue:
  assumes "issue_op (v_core v) x ops = Some (Await req p)"
  shows "serve_ops e v (x # ops) =
    serve_event e (v\<lparr>v_core := (v_core v)\<lparr>c_phase := Execute ops p\<rparr>\<rparr>) (Request req)"
  using assms by (simp add: serve_ops_def)

lemma serve_continue:
  assumes "issue_op (v_core v) x ops = Some (Continue c' ops')"
  shows "serve_ops e v (x # ops) = serve_ops e (v\<lparr>v_core := c'\<rparr>) ops'"
  using assms by (auto simp: serve_ops_def split: option.split)

lemma serve_trap:
  assumes "issue_op (v_core v) x ops = Some (Exit c' (EvTrap t))"
  shows "serve_ops e v (x # ops) = Some (Finished (Trapped t), v\<lparr>v_core := c'\<rparr>)"
  using assms by (simp add: serve_ops_def serve_event.simps)

lemma serve_event_trap: "serve_event e v (EvTrap t) = Some (Finished (Trapped t), v)"
  by (subst serve_event.simps) simp

lemma base_run_fr: "base_run e v \<Longrightarrow> c_fr (v_core v) = 0"
  by (auto simp: base_run_def frame_ok_def)

lemma base_identity:
  assumes "base_run e v"
  shows "phys_dev (v_core v) d = Some (Inr d)" "phys_symbol (v_core v) d s = Some (Inr s)"
    "virt_symbol (v_core v) d s = Some (Inr s)" "active_frame (v_core v) = Some None"
  using base_run_fr [OF assms]
  by (simp_all add: phys_dev_def phys_symbol_def virt_symbol_def active_frame_def)

section \<open>The device micro-ops\<close>

lemma refinesI_next:
  "r = serve_ops e v' ops \<Longrightarrow> base_run e v' \<Longrightarrow> abs_vm v' = m' \<Longrightarrow> same_setting v v' \<Longrightarrow>
     refines e v ops r (Next m')"
  by (auto simp: refines_def)

lemma refinesI_crash:
  "r = Some (Finished (Trapped t), v') \<Longrightarrow> abs_vm v' = m' \<Longrightarrow> refines e v ops r (crash t m')"
  by (auto simp: refines_def crash_def)

lemma abs_phase [simp]: "abs_vm (v\<lparr>v_core := (v_core v)\<lparr>c_phase := ph\<rparr>\<rparr>) = abs_vm v"
  by (simp add: abs_vm_def)

lemma abs_ticks [simp]: "abs_vm (tick_core v) = abs_vm v" "abs_vm (tick_stall n v) = abs_vm v"
  by (simp_all add: abs_vm_def)

lemma tick_stall_setting [simp]:
  "same_setting v (tick_stall n v') = same_setting v v'" "same_setting v (tick_core v') = same_setting v v'"
  "base_run e (tick_stall n v) = base_run e v" "base_run e (tick_core v) = base_run e v"
  by (simp_all add: same_setting_def base_run_def)

lemma same_setting_refl [simp]: "same_setting v v"
  by (simp add: same_setting_def)

text \<open>A micro-op whose request is acknowledged.\<close>

lemma refines_await_ok:
  assumes base: "base_run e v" and i: "issue_op (v_core v) x ops = Some (Await req p)"
    and a: "answer e req v = Some (resp, v1)" and st: "settle (e_arch e) (v_core v) ops p resp = Some (Proceed c')"
    and ok: "base_run e (v1\<lparr>v_core := c'\<rparr>)" "abs_vm (v1\<lparr>v_core := c'\<rparr>) = m'"
      "same_setting v (v1\<lparr>v_core := c'\<rparr>)"
  shows "refines e v ops (serve_ops e v (x # ops)) (Next m')"
proof (rule refinesI_next)
  have "c_phase (v_core v) = Done" "max_tacts (e_limits e) = None" using base by (simp_all add: base_run_def)
  from serve_pending [OF this] show "serve_ops e v (x # ops) = serve_ops e (v1\<lparr>v_core := c'\<rparr>) ops"
    using serve_issue [OF i] a st by simp
qed (use ok in simp_all)

text \<open>A micro-op whose response traps.\<close>

lemma refines_await_trap:
  assumes base: "base_run e v" and i: "issue_op (v_core v) x ops = Some (Await req p)"
    and a: "answer e req v = Some (resp, v1)" and st: "settle (e_arch e) (v_core v) ops p resp = fail (v_core v) t"
    and ok: "abs_vm (v1\<lparr>v_core := v_core v\<rparr>) = m'"
  shows "refines e v ops (serve_ops e v (x # ops)) (crash t m')"
proof (rule refinesI_crash)
  have ph: "c_phase (v_core v) = Done" "max_tacts (e_limits e) = None" using base by (simp_all add: base_run_def)
  from serve_pending [OF this]
  show "serve_ops e v (x # ops) = Some (Finished (Trapped t), v1\<lparr>v_core := (v_core v)\<lparr>c_phase := Done\<rparr>\<rparr>)"
    using serve_issue [OF i] a st by (simp add: fail_def leave_def trap_with_def serve_event_trap)
  show "abs_vm (v1\<lparr>v_core := (v_core v)\<lparr>c_phase := Done\<rparr>\<rparr>) = m'" using ok by (simp add: abs_vm_def)
qed

lemma base_run_devs:
  "base_run e v \<Longrightarrow> nth_opt (v_devs v) k = Some t \<Longrightarrow> tape_ok t"
  "base_run e v \<Longrightarrow> tape_ok t \<Longrightarrow> base_run e (v\<lparr>v_devs := (v_devs v)[k := t]\<rparr>)"
  using set_update_ok [of "v_devs v" tape_ok t k] by (auto simp: base_run_def)

lemma v_core_same [simp]: "v1\<lparr>v_core := c\<rparr>\<lparr>v_core := c'\<rparr> = v1\<lparr>v_core := c'\<rparr>"
  by simp

lemma move_refines:
  assumes base: "base_run e v" and keep: "\<And>t. tape_ok t \<Longrightarrow> tape_ok (f t)"
    and i: "issue_op (v_core v) x ops = Some (Await req PMove)"
    and a: "answer e req v = Some (answer_move f cost d v)"
  shows "refines e v ops (serve_ops e v (x # ops)) (on_tape (abs_vm v) d (\<lambda>t. Next (set_tape (abs_vm v) d (f t))))"
proof (cases "nth_opt (v_devs v) (unat d)")
  case None
  then show ?thesis
    using a by (auto simp: on_tape_def abs_vm_def answer_move_def settle_ack_def
        intro!: refines_await_trap [OF base i])
next
  case (Some t)
  let ?v = "v\<lparr>v_devs := (v_devs v)[unat d := f t]\<rparr>"
  have "refines e v ops (serve_ops e v (x # ops)) (Next (set_tape (abs_vm v) d (f t)))"
  proof (rule refines_await_ok [OF base i])
    show "answer e req v = Some (BusOk, tick_stall cost ?v)" using a Some by (simp add: answer_move_def)
    show "settle (e_arch e) (v_core v) ops PMove BusOk = Some (Proceed (v_core v))"
      by (simp add: settle_ack_def)
    have same: "(tick_stall cost ?v)\<lparr>v_core := v_core v\<rparr> = tick_stall cost ?v"
      by (simp add: tick_stall_def)
    show "base_run e ((tick_stall cost ?v)\<lparr>v_core := v_core v\<rparr>)"
      unfolding same using base_run_devs(2) [OF base keep [OF base_run_devs(1) [OF base Some]]] by simp
    show "abs_vm ((tick_stall cost ?v)\<lparr>v_core := v_core v\<rparr>) = set_tape (abs_vm v) d (f t)"
      unfolding same by (simp add: abs_vm_def set_tape_def)
    show "same_setting v ((tick_stall cost ?v)\<lparr>v_core := v_core v\<rparr>)"
      unfolding same by (simp add: same_setting_def)
  qed
  then show ?thesis using Some by (simp add: on_tape_def abs_vm_def)
qed

lemma write_refines:
  assumes base: "base_run e v"
  shows "refines e v ops (serve_ops e v (MWrite d i # ops)) (micro e n at (MWrite d i) (abs_vm v))"
proof (cases "nth_opt (v_devs v) (unat d)")
  case None
  have "issue_op (v_core v) (MWrite d i) ops = Some (Await (DeviceWrite d i) PWrite)"
    by (simp add: issue_write_def base_identity [OF base])
  from refines_await_trap [OF base this, where t = "DeviceTrap (NoSuchDevice d)"] None show ?thesis
    by (simp add: answer_write_def settle_ack_def on_tape_def abs_vm_def)
next
  case (Some t)
  have iss: "issue_op (v_core v) (MWrite d i) ops = Some (Await (DeviceWrite d i) PWrite)"
    by (simp add: issue_write_def base_identity [OF base])
  note ok = base_run_devs(1) [OF base Some]
  obtain r where r: "tape_write t i = Some r" using dyn.write_total [OF ok] by blast
  show ?thesis
  proof (cases r)
    case (Inl f)
    from refines_await_trap [OF base iss, where t = "DeviceTrap f"] Inl r Some show ?thesis
      by (simp add: answer_write_def settle_ack_def on_tape_def abs_vm_def)
  next
    case (Inr t')
    have ok': "tape_ok t'" using dyn.write_done [OF ok r [unfolded Inr]] by blast
    let ?v = "v\<lparr>v_devs := (v_devs v)[unat d := t']\<rparr>" and ?cost = "write_cost (e_profile e)"
    have same: "(tick_stall ?cost ?v)\<lparr>v_core := v_core v\<rparr> = tick_stall ?cost ?v"
      by (simp add: tick_stall_def)
    have "refines e v ops (serve_ops e v (MWrite d i # ops)) (Next (set_tape (abs_vm v) d t'))"
    proof (rule refines_await_ok [OF base iss])
      show "answer e (DeviceWrite d i) v = Some (BusOk, tick_stall ?cost ?v)"
        using Some r Inr by (simp add: answer_write_def)
      show "settle (e_arch e) (v_core v) ops PWrite BusOk = Some (Proceed (v_core v))"
        by (simp add: settle_ack_def)
      show "base_run e ((tick_stall ?cost ?v)\<lparr>v_core := v_core v\<rparr>)"
        unfolding same using base_run_devs(2) [OF base ok'] by simp
    qed (unfold same, simp_all add: abs_vm_def set_tape_def same_setting_def)
    then show ?thesis using Some r Inr by (simp add: on_tape_def abs_vm_def)
  qed
qed

lemma base_run_core:
  "base_run e v \<Longrightarrow> c_phase c = Done \<Longrightarrow> base_ok c \<Longrightarrow> c_fr c = 0 \<Longrightarrow> c_frames c = c_frames (v_core v) \<Longrightarrow>
     base_run e (v\<lparr>v_core := c\<rparr>)"
  by (simp add: base_run_def frame_ok_def frames_on_def)

text \<open>A read of a tape that is there.\<close>

lemma read_answer:
  assumes "base_run e v" "nth_opt (v_devs v) (unat d) = Some t"
  shows "answer e (DeviceRead d) v = Some (BusSymbol (symbol_at t), tick_stall (read_cost (e_profile e)) v)"
  using base_run_devs(1) [OF assms] assms(2)
  by (simp add: answer_read_def dyn.read_cell symbol_at_def)

lemma tick_stall_core: "(tick_stall n v)\<lparr>v_core := c\<rparr> = tick_stall n (v\<lparr>v_core := c\<rparr>)"
  by (simp add: tick_stall_def)

lemma read_refines:
  assumes base: "base_run e v"
  shows "refines e v ops (serve_ops e v (MRead d slot # ops))
    (micro e n (c_instr_start (v_core v)) (MRead d slot) (abs_vm v))"
proof (cases "slot \<ge> 16")
  case True
  then have "issue_op (v_core v) (MRead d slot) ops =
      Some (Exit ((v_core v)\<lparr>c_phase := Done\<rparr>) (EvTrap (BadOperand (c_instr_start (v_core v)))))"
    by (simp add: exit_trap_def trap_with_def)
  from serve_trap [OF this] True show ?thesis by (auto simp: m_read_def intro!: refinesI_crash)
next
  case False
  have iss: "issue_op (v_core v) (MRead d slot) ops = Some (Await (DeviceRead d) (PReadSlot slot d))"
    using False by (simp add: on_dev_def base_identity [OF base])
  show ?thesis
  proof (cases "nth_opt (v_devs v) (unat d)")
    case None
    from refines_await_trap [OF base iss, where t = "DeviceTrap (NoSuchDevice d)"] None False
    show ?thesis by (simp add: answer_read_def settle_read_slot_def m_read_def on_tape_def abs_vm_def)
  next
    case (Some t)
    have tr: "length (c_tr (v_core v)) = 16" "unat (c_tr_len (v_core v)) \<le> 16" and b: "base_ok (v_core v)"
      using base by (simp_all add: base_run_def base_ok_def tr_ok_def)
    have sl: "unat slot < 16" using False by (simp add: word_le_nat_alt)
    let ?c = "(v_core v)\<lparr>c_tr := (c_tr (v_core v))[unat slot := symbol_at t],
                         c_tr_len := max (c_tr_len (v_core v)) (slot + 1)\<rparr>"
    have "base_ok ?c"
      using b sl tr tr_len_max [OF tr(2) sl] by (simp add: base_ok_def tr_ok_def cache_ok_def stack_ok_def frames_on_def)
    then have ok: "base_run e (v\<lparr>v_core := ?c\<rparr>)"
      using base base_run_fr [OF base] by (intro base_run_core) (simp_all add: base_run_def)
    have "refines e v ops (serve_ops e v (MRead d slot # ops)) (Next (abs_vm (v\<lparr>v_core := ?c\<rparr>)))"
    proof (rule refines_await_ok [OF base iss read_answer [OF base Some]])
      show "settle (e_arch e) (v_core v) ops (PReadSlot slot d) (BusSymbol (symbol_at t)) = Some (Proceed ?c)"
        using tr sl by (simp add: settle_read_slot_def base_identity [OF base])
    qed (use ok in \<open>simp_all add: tick_stall_core, simp add: same_setting_def\<close>)
    then show ?thesis using Some False by (simp add: m_read_def on_tape_def abs_vm_def)
  qed
qed

lemma latch_refines:
  assumes base: "base_run e v"
  shows "refines e v ops (serve_ops e v (LatchMatch k # ops)) (micro e n at (LatchMatch k) (abs_vm v))"
proof -
  have iss: "issue_op (v_core v) (LatchMatch k) ops = Some (Await (DeviceRead 0) (PLatch k 0))"
    by (simp add: on_dev_def base_identity [OF base])
  show ?thesis
  proof (cases "nth_opt (v_devs v) (unat (0 :: u8))")
    case None
    from refines_await_trap [OF base iss, where t = "DeviceTrap (NoSuchDevice 0)"] None
    show ?thesis by (simp add: answer_read_def settle_latch_def on_tape_def abs_vm_def)
  next
    case (Some t)
    let ?c = "(v_core v)\<lparr>c_mr := (if symbol_at t = k then 1 else 0)\<rparr>"
    have ok: "base_run e (v\<lparr>v_core := ?c\<rparr>)"
      using base base_run_fr [OF base] by (intro base_run_core) (simp_all add: base_run_def)
    have "refines e v ops (serve_ops e v (LatchMatch k # ops)) (Next (abs_vm (v\<lparr>v_core := ?c\<rparr>)))"
    proof (rule refines_await_ok [OF base iss read_answer [OF base Some]])
      show "settle (e_arch e) (v_core v) ops (PLatch k 0) (BusSymbol (symbol_at t)) = Some (Proceed ?c)"
        by (simp add: settle_latch_def base_identity [OF base])
    qed (use ok in \<open>simp_all add: tick_stall_core, simp add: same_setting_def\<close>)
    then show ?thesis using Some by (simp add: on_tape_def abs_vm_def)
  qed
qed

section \<open>Micro-ops that stay in the core\<close>

lemma refines_continue:
  assumes base: "base_run e v" and "issue_op (v_core v) x ops = Some (Continue c' ops)"
    and "c_phase c' = Done" "base_ok c'" "c_fr c' = 0" "c_frames c' = c_frames (v_core v)"
    and "same_setting v (v\<lparr>v_core := c'\<rparr>)"
  shows "refines e v ops (serve_ops e v (x # ops)) (Next (abs_vm (v\<lparr>v_core := c'\<rparr>)))"
  using serve_continue [OF assms(2)] base_run_core [OF base assms(3-6)] assms(7)
  by (intro refinesI_next) simp_all

lemma exit_trap_refines:
  assumes "issue_op (v_core v) x ops = exit_trap (v_core v) t"
  shows "refines e v ops (serve_ops e v (x # ops)) (crash t (abs_vm v))"
proof -
  have "issue_op (v_core v) x ops = Some (Exit ((v_core v)\<lparr>c_phase := Done\<rparr>) (EvTrap t))"
    using assms by (simp add: exit_trap_def trap_with_def)
  from serve_trap [OF this] show ?thesis by (rule refinesI_crash) simp
qed

lemma base_run_facts:
  assumes "base_run e v"
  shows "c_phase (v_core v) = Done" "base_ok (v_core v)" "c_fr (v_core v) = 0" "\<not> frames_on (v_core v)"
    "max_tacts (e_limits e) = None"
  using assms base_run_fr [OF assms] by (simp_all add: base_run_def)

lemma jump_refines:
  assumes base: "base_run e v" and i: "issue_op (v_core v) x ops = issue_jump (v_core v) off ops"
  shows "refines e v ops (serve_ops e v (x # ops))
    (m_jump (c_instr_start (v_core v)) off (\<lambda>t. Next ((abs_vm v)\<lparr>m_ip := t\<rparr>)) (abs_vm v))"
proof -
  note f = base_run_facts [OF base]
  let ?t = "uint (c_ip (v_core v)) + sint off"
  show ?thesis
  proof (cases "0 \<le> ?t \<and> ?t < 2 ^ 32")
    case True
    have "refines e v ops (serve_ops e v (x # ops))
        (Next (abs_vm (v\<lparr>v_core := (v_core v)\<lparr>c_ip := of_int ?t\<rparr>\<rparr>)))"
      by (rule refines_continue [OF base])
        (use i True f in \<open>simp_all add: issue_jump_def jump_target_def Let_def same_setting_def\<close>)
    then show ?thesis using True by (simp add: m_jump_def abs_vm_def)
  next
    case False
    then have "issue_op (v_core v) x ops = exit_trap (v_core v) (CodeOutOfBounds (c_instr_start (v_core v)))"
      using i by (auto simp: issue_jump_def jump_target_def Let_def)
    from exit_trap_refines [OF this] False show ?thesis by (auto simp: m_jump_def abs_vm_def)
  qed
qed

section \<open>Calls and returns\<close>

lemma same_setting_trans: "same_setting v v1 \<Longrightarrow> same_setting v1 v2 \<Longrightarrow> same_setting v v2"
  by (simp add: same_setting_def)

lemma refines_shift: "refines e v1 ops r f \<Longrightarrow> same_setting v v1 \<Longrightarrow> refines e v ops r f"
  by (auto simp: refines_def intro: same_setting_trans split: flow.splits)

text \<open>A settled request that goes on with another one.\<close>

lemma serve_pending_again:
  assumes "base_run e v" and "answer e req v = Some (resp, v1)"
    and "settle (e_arch e) (v_core v) ops p resp = request_in (v_core v) ops p' req'"
    and "v_core v1 = v_core v"
  shows "serve_event e (v\<lparr>v_core := (v_core v)\<lparr>c_phase := Execute ops p\<rparr>\<rparr>) (Request req) =
    serve_event e (v1\<lparr>v_core := (v_core v1)\<lparr>c_phase := Execute ops p'\<rparr>\<rparr>) (Request req')"
  using serve_pending [OF base_run_facts(1,5) [OF assms(1)]] assms(2-4) by (simp add: request_in_def)

lemma serve_pending_trap:
  assumes "base_run e v" and "answer e req v = Some (resp, v1)" and "v_core v1 = v_core v"
    and "settle (e_arch e) (v_core v) ops p resp = fail (v_core v) t" and "abs_vm v1 = abs_vm v"
  shows "refines e v ops (serve_event e (v\<lparr>v_core := (v_core v)\<lparr>c_phase := Execute ops p\<rparr>\<rparr>) (Request req))
    (crash t (abs_vm v))"
proof (rule refinesI_crash)
  show "serve_event e (v\<lparr>v_core := (v_core v)\<lparr>c_phase := Execute ops p\<rparr>\<rparr>) (Request req)
      = Some (Finished (Trapped t), v1\<lparr>v_core := (v_core v1)\<lparr>c_phase := Done\<rparr>\<rparr>)"
    using serve_pending [OF base_run_facts(1,5) [OF assms(1)]] assms(2-4)
    by (simp add: fail_def leave_def trap_with_def serve_event_trap)
  show "abs_vm (v1\<lparr>v_core := (v_core v1)\<lparr>c_phase := Done\<rparr>\<rparr>) = abs_vm v" using assms(5) by simp
qed

lemma serve_pending_done:
  assumes "base_run e v" and "answer e req v = Some (resp, v1)" and "v_core v1 = v_core v"
    and "settle (e_arch e) (v_core v) ops p resp = Some (Proceed c')"
    and "base_run e (v1\<lparr>v_core := c'\<rparr>)" "abs_vm (v1\<lparr>v_core := c'\<rparr>) = m'" "same_setting v (v1\<lparr>v_core := c'\<rparr>)"
  shows "refines e v ops (serve_event e (v\<lparr>v_core := (v_core v)\<lparr>c_phase := Execute ops p\<rparr>\<rparr>) (Request req))
    (Next m')"
  by (rule refinesI_next)
    (use serve_pending [OF base_run_facts(1,5) [OF assms(1)]] assms in simp_all)

lemma push_refines:
  assumes base: "base_run e v" and m: "m_ip (abs_vm v) = ret"
  shows "refines e v ops
    (serve_event e (v\<lparr>v_core := (v_core v)\<lparr>c_phase := Execute ops (PPush target)\<rparr>\<rparr>) (Request (StackPush ret)))
    (case stack_push (m_stack (abs_vm v)) ret of
       (True, s) \<Rightarrow> Next ((abs_vm v)\<lparr>m_stack := s, m_ip := target\<rparr>)
     | (False, s) \<Rightarrow> crash StackOverflow (abs_vm v))"
proof -
  note f = base_run_facts [OF base]
  show ?thesis
  proof (cases "length (rs_entries (v_stack v)) = rs_capacity (v_stack v)")
    case True
    then have a: "answer e (StackPush ret) v = Some (StackFull, v)"
      by (simp add: answer_push_def stack_push_def)
    have "refines e v ops
        (serve_event e (v\<lparr>v_core := (v_core v)\<lparr>c_phase := Execute ops (PPush target)\<rparr>\<rparr>) (Request (StackPush ret)))
        (crash StackOverflow (abs_vm v))"
      by (rule serve_pending_trap [OF base a]) (simp_all add: settle_push_def)
    then show ?thesis using True by (simp add: stack_push_def abs_vm_def)
  next
    case False
    let ?s = "(v_stack v)\<lparr>rs_entries := rs_entries (v_stack v) @ [ret]\<rparr>"
    let ?v = "tick_core (v\<lparr>v_stack := ?s\<rparr>)" and ?c = "(v_core v)\<lparr>c_ip := target\<rparr>"
    have a: "answer e (StackPush ret) v = Some (BusOk, ?v)"
      using False by (simp add: answer_push_def stack_push_def)
    have eq: "?v\<lparr>v_core := ?c\<rparr> = tick_core (v\<lparr>v_stack := ?s, v_core := ?c\<rparr>)" by (simp add: tick_core_def)
    have "refines e v ops
        (serve_event e (v\<lparr>v_core := (v_core v)\<lparr>c_phase := Execute ops (PPush target)\<rparr>\<rparr>) (Request (StackPush ret)))
        (Next ((abs_vm v)\<lparr>m_stack := ?s, m_ip := target\<rparr>))"
    proof (rule serve_pending_done [OF base a])
      show "settle (e_arch e) (v_core v) ops (PPush target) BusOk = Some (Proceed ?c)"
        using f by (simp add: settle_push_def)
      show "base_run e (?v\<lparr>v_core := ?c\<rparr>)"
        unfolding eq using base False by (simp add: base_run_def frames_on_def)
    qed (unfold eq, simp_all add: abs_vm_def same_setting_def)
    then show ?thesis using False by (simp add: stack_push_def abs_vm_def)
  qed
qed

lemma call_refines:
  assumes base: "base_run e v"
  shows "refines e v ops (serve_ops e v (MCall off # ops))
    (micro e n (c_instr_start (v_core v)) (MCall off) (abs_vm v))"
proof -
  note f = base_run_facts [OF base]
  let ?t = "uint (c_ip (v_core v)) + sint off"
  show ?thesis
  proof (cases "0 \<le> ?t \<and> ?t < 2 ^ 32")
    case False
    then have "issue_op (v_core v) (MCall off) ops = exit_trap (v_core v) (CodeOutOfBounds (c_instr_start (v_core v)))"
      by (auto simp: issue_call_def jump_target_def Let_def)
    from exit_trap_refines [OF this] False show ?thesis by (auto simp: m_jump_def abs_vm_def)
  next
    case True
    define target where "target = (of_int ?t :: u32)"
    have iss: "serve_ops e v (MCall off # ops) =
        serve_event e (v\<lparr>v_core := (v_core v)\<lparr>c_phase := Execute ops (PEntCheck target)\<rparr>\<rparr>)
          (Request (CodeRead target))"
      using True by (intro serve_issue) (simp add: issue_call_def jump_target_def Let_def target_def)
    have goal: "micro e n (c_instr_start (v_core v)) (MCall off) (abs_vm v) = m_call e target (abs_vm v)"
      using True by (simp add: m_jump_def abs_vm_def target_def)
    show ?thesis
    proof (cases "nth_opt (e_code e) (unat target)")
      case None
      then have a: "answer e (CodeRead target) v = Some (OutOfCode, v)" by (simp add: answer_code_def)
      have "refines e v ops (serve_ops e v (MCall off # ops)) (crash (CallTargetNotEntry target) (abs_vm v))"
        unfolding iss by (rule serve_pending_trap [OF base a]) (simp_all add: settle_ent_check_def)
      then show ?thesis unfolding goal m_call_def None by simp
    next
      case (Some b)
      then have a: "answer e (CodeRead target) v = Some (Byte b, tick_core v)" by (simp add: answer_code_def)
      show ?thesis
      proof (cases "is_entry_marker (e_arch e) b")
        case False
        have "refines e v ops (serve_ops e v (MCall off # ops)) (crash (CallTargetNotEntry target) (abs_vm v))"
          unfolding iss by (rule serve_pending_trap [OF base a]) (simp_all add: settle_ent_check_def False)
        then show ?thesis unfolding goal m_call_def Some using False by simp
      next
        case True
        have "serve_ops e v (MCall off # ops) = serve_event e
            ((tick_core v)\<lparr>v_core := (v_core (tick_core v))\<lparr>c_phase := Execute ops (PPush target)\<rparr>\<rparr>)
            (Request (StackPush (c_ip (v_core v))))"
          unfolding iss by (rule serve_pending_again [OF base a]) (simp_all add: settle_ent_check_def True)
        moreover have "base_run e (tick_core v)" and ip: "m_ip (abs_vm (tick_core v)) = c_ip (v_core v)"
          using base by simp_all (simp add: abs_vm_def)
        have tk: "abs_vm (tick_core v) = abs_vm v" by simp
        note push_refines [OF \<open>base_run e (tick_core v)\<close> ip, of ops target, unfolded tk]
        moreover have "m_ip (abs_vm v) = c_ip (v_core v)" by (simp add: abs_vm_def)
        ultimately have "refines e (tick_core v) ops (serve_ops e v (MCall off # ops)) (m_call e target (abs_vm v))"
          unfolding m_call_def Some using True by simp
        then show ?thesis unfolding goal by (rule refines_shift) simp
      qed
    qed
  qed
qed

lemma ret_refines:
  assumes base: "base_run e v"
  shows "refines e v ops (serve_ops e v (MRet # ops)) (micro e n at MRet (abs_vm v))"
proof -
  note f = base_run_facts [OF base]
  have iss: "issue_op (v_core v) MRet ops = Some (Await StackPop PPop)" using f by simp
  show ?thesis
  proof (cases "rs_entries (v_stack v) = []")
    case True
    then have a: "answer e StackPop v = Some (StackEmpty, v)" by (simp add: answer_pop_def stack_pop_def)
    have "refines e v ops (serve_ops e v (MRet # ops)) (crash StackUnderflow (abs_vm v))"
      by (rule refines_await_trap [OF base iss a]) (simp_all add: settle_pop_def)
    then show ?thesis using True by (simp add: m_ret_def stack_pop_def abs_vm_def)
  next
    case False
    let ?s = "(v_stack v)\<lparr>rs_entries := butlast (rs_entries (v_stack v))\<rparr>"
      and ?c = "(v_core v)\<lparr>c_ip := last (rs_entries (v_stack v))\<rparr>"
    let ?v = "tick_core (v\<lparr>v_stack := ?s\<rparr>)"
    have a: "answer e StackPop v = Some (BusValue (last (rs_entries (v_stack v))), ?v)"
      using False by (simp add: answer_pop_def stack_pop_def)
    have eq: "?v\<lparr>v_core := ?c\<rparr> = tick_core (v\<lparr>v_stack := ?s, v_core := ?c\<rparr>)" by (simp add: tick_core_def)
    have "refines e v ops (serve_ops e v (MRet # ops))
        (Next ((abs_vm v)\<lparr>m_stack := ?s, m_ip := last (rs_entries (v_stack v))\<rparr>))"
    proof (rule refines_await_ok [OF base iss a])
      show "settle (e_arch e) (v_core v) ops PPop (BusValue (last (rs_entries (v_stack v)))) = Some (Proceed ?c)"
        by (simp add: settle_pop_def)
      show "base_run e (?v\<lparr>v_core := ?c\<rparr>)"
        unfolding eq using base by (auto simp: base_run_def frames_on_def)
    qed (unfold eq, simp_all add: abs_vm_def same_setting_def)
    then show ?thesis using False by (simp add: m_ret_def stack_pop_def abs_vm_def)
  qed
qed

section \<open>The table micro-ops\<close>

text \<open>What the answer of a served walk means to the machine.\<close>

fun match_flow :: "u32 \<Rightarrow> walk_step served \<Rightarrow> mach \<Rightarrow> flow" where
  "match_flow at (Served (WalkDone r)) m = Next (m\<lparr>m_mr := r\<rparr>)"
| "match_flow at OffTable m = crash (TableOutOfBounds at) m"
| "match_flow at (Served _) m = crash (BadOperand at) m"

fun dispatch_flow :: "u32 \<Rightarrow> dispatch_step served \<Rightarrow> mach \<Rightarrow> flow" where
  "dispatch_flow at (Served (DispatchDone t)) m = Next (m\<lparr>m_ip := t\<rparr>)"
| "dispatch_flow at OffTable m = crash (TableOutOfBounds at) m"
| "dispatch_flow at (Served _) m = crash (DispatchOutOfRange at) m"

lemma base_latched:
  "base_run e v \<Longrightarrow> latched (v_core v) = Some (take (unat (m_len (abs_vm v))) (m_tr (abs_vm v)))"
  by (simp add: base_run_def latched_ok abs_vm_def)

text \<open>The driver's loop over a match walk is \<open>serve\<close>.\<close>

lemma serve_match_refines:
  assumes "base_run e v" and "tr = take (unat (m_len (abs_vm v))) (m_tr (abs_vm v))"
    and "serve (\<lambda>w b. match_feed w b tr) walk_need (e_tables e) fuel w (NeedByte a) = Some r"
  shows "refines e v ops
    (serve_event e (v\<lparr>v_core := (v_core v)\<lparr>c_phase := Execute ops (PMatch w)\<rparr>\<rparr>) (Request (TableRead a)))
    (match_flow (c_instr_start (v_core v)) r (abs_vm v))"
  using assms
proof (induction fuel arbitrary: v w a)
  case (Suc fuel)
  note base = Suc.prems(1) and f = base_run_facts [OF Suc.prems(1)]
  let ?E = "serve_event e (v\<lparr>v_core := (v_core v)\<lparr>c_phase := Execute ops (PMatch w)\<rparr>\<rparr>) (Request (TableRead a))"
    and ?at = "c_instr_start (v_core v)"
  have lt: "latched (v_core v) = Some tr" using base_latched [OF base] Suc.prems(2) by simp
  show ?case
  proof (cases "nth_opt (e_tables e) (unat a)")
    case None
    then have a: "answer e (TableRead a) v = Some (OutOfTable, v)" by (simp add: answer_table_def)
    have "refines e v ops ?E (crash (TableOutOfBounds ?at) (abs_vm v))"
      by (rule serve_pending_trap [OF base a]) (simp_all add: settle_match_def)
    moreover have "r = OffTable" using Suc.prems(3) None by simp
    ultimately show ?thesis by simp
  next
    case (Some b)
    let ?v = "tick_stall (table_read_cost (e_profile e)) v"
    have a: "answer e (TableRead a) v = Some (Byte b, ?v)" using Some by (simp add: answer_table_def)
    obtain w' st where fd: "match_feed w (Some b) tr = Some (w', st)"
      using Suc.prems(3) Some by (cases "match_feed w (Some b) tr") auto
    have rest: "serve (\<lambda>w b. match_feed w b tr) walk_need (e_tables e) fuel w' st = Some r"
      using Suc.prems(3) Some fd by simp
    show ?thesis
    proof (cases st)
      case (NeedByte a')
      have "?E = serve_event e (?v\<lparr>v_core := (v_core ?v)\<lparr>c_phase := Execute ops (PMatch w')\<rparr>\<rparr>)
          (Request (TableRead a'))"
        by (rule serve_pending_again [OF base a]) (simp_all add: settle_match_def lt fd NeedByte)
      moreover have "refines e ?v ops
          (serve_event e (?v\<lparr>v_core := (v_core ?v)\<lparr>c_phase := Execute ops (PMatch w')\<rparr>\<rparr>) (Request (TableRead a')))
          (match_flow (c_instr_start (v_core ?v)) r (abs_vm ?v))"
        by (rule Suc.IH) (use base Suc.prems(2) rest NeedByte in simp_all)
      ultimately have "refines e ?v ops ?E (match_flow ?at r (abs_vm v))" by simp
      then show ?thesis by (rule refines_shift) simp
    next
      case (WalkDone x)
      then have r: "r = Served (WalkDone x)" using rest by (cases fuel) simp_all
      let ?c = "(v_core v)\<lparr>c_mr := x\<rparr>"
      have "refines e v ops ?E (Next ((abs_vm v)\<lparr>m_mr := x\<rparr>))"
      proof (rule serve_pending_done [OF base a])
        show "settle (e_arch e) (v_core v) ops (PMatch w) (Byte b) = Some (Proceed ?c)"
          by (simp add: settle_match_def lt fd WalkDone)
        have "base_run e (v\<lparr>v_core := ?c\<rparr>)" using f by (intro base_run_core [OF base]) simp_all
        then show "base_run e (?v\<lparr>v_core := ?c\<rparr>)" by (simp add: tick_stall_core)
      qed (simp_all add: tick_stall_core, simp_all add: abs_vm_def same_setting_def)
      then show ?thesis by (simp add: r)
    next
      case Malformed
      then have r: "r = Served Malformed" using rest by (cases fuel) simp_all
      have "refines e v ops ?E (crash (BadOperand ?at) (abs_vm v))"
        by (rule serve_pending_trap [OF base a]) (simp_all add: settle_match_def lt fd Malformed)
      then show ?thesis by (simp add: r)
    qed
  qed
qed simp

lemma serve_dispatch_refines:
  assumes "base_run e v"
    and "serve dispatch_feed dispatch_need (e_tables e) fuel w (DNeedByte a) = Some r"
  shows "refines e v ops
    (serve_event e (v\<lparr>v_core := (v_core v)\<lparr>c_phase := Execute ops (PDispatch w)\<rparr>\<rparr>) (Request (TableRead a)))
    (dispatch_flow (c_instr_start (v_core v)) r (abs_vm v))"
  using assms
proof (induction fuel arbitrary: v w a)
  case (Suc fuel)
  note base = Suc.prems(1) and f = base_run_facts [OF Suc.prems(1)]
  let ?E = "serve_event e (v\<lparr>v_core := (v_core v)\<lparr>c_phase := Execute ops (PDispatch w)\<rparr>\<rparr>) (Request (TableRead a))"
    and ?at = "c_instr_start (v_core v)"
  show ?case
  proof (cases "nth_opt (e_tables e) (unat a)")
    case None
    then have a: "answer e (TableRead a) v = Some (OutOfTable, v)" by (simp add: answer_table_def)
    have "refines e v ops ?E (crash (TableOutOfBounds ?at) (abs_vm v))"
      by (rule serve_pending_trap [OF base a]) (simp_all add: settle_dispatch_def)
    moreover have "r = OffTable" using Suc.prems(2) None by simp
    ultimately show ?thesis by simp
  next
    case (Some b)
    let ?v = "tick_stall (table_read_cost (e_profile e)) v"
    have a: "answer e (TableRead a) v = Some (Byte b, ?v)" using Some by (simp add: answer_table_def)
    obtain w' st where fd: "dispatch_feed w (Some b) = Some (w', st)"
      using Suc.prems(2) Some by (cases "dispatch_feed w (Some b)") auto
    have rest: "serve dispatch_feed dispatch_need (e_tables e) fuel w' st = Some r"
      using Suc.prems(2) Some fd by simp
    show ?thesis
    proof (cases st)
      case (DNeedByte a')
      have "?E = serve_event e (?v\<lparr>v_core := (v_core ?v)\<lparr>c_phase := Execute ops (PDispatch w')\<rparr>\<rparr>)
          (Request (TableRead a'))"
        by (rule serve_pending_again [OF base a]) (simp_all add: settle_dispatch_def fd DNeedByte)
      moreover have "refines e ?v ops
          (serve_event e (?v\<lparr>v_core := (v_core ?v)\<lparr>c_phase := Execute ops (PDispatch w')\<rparr>\<rparr>) (Request (TableRead a')))
          (dispatch_flow (c_instr_start (v_core ?v)) r (abs_vm ?v))"
        by (rule Suc.IH) (use base rest DNeedByte in simp_all)
      ultimately have "refines e ?v ops ?E (dispatch_flow ?at r (abs_vm v))" by simp
      then show ?thesis by (rule refines_shift) simp
    next
      case (DispatchDone x)
      then have r: "r = Served (DispatchDone x)" using rest by (cases fuel) simp_all
      let ?c = "(v_core v)\<lparr>c_ip := x\<rparr>"
      have "refines e v ops ?E (Next ((abs_vm v)\<lparr>m_ip := x\<rparr>))"
      proof (rule serve_pending_done [OF base a])
        show "settle (e_arch e) (v_core v) ops (PDispatch w) (Byte b) = Some (Proceed ?c)"
          by (simp add: settle_dispatch_def fd DispatchDone)
        have "base_run e (v\<lparr>v_core := ?c\<rparr>)" using f by (intro base_run_core [OF base]) simp_all
        then show "base_run e (?v\<lparr>v_core := ?c\<rparr>)" by (simp add: tick_stall_core)
      qed (simp_all add: tick_stall_core, simp_all add: abs_vm_def same_setting_def)
      then show ?thesis by (simp add: r)
    next
      case OutOfRange
      then have r: "r = Served OutOfRange" using rest by (cases fuel) simp_all
      have "refines e v ops ?E (crash (DispatchOutOfRange ?at) (abs_vm v))"
        by (rule serve_pending_trap [OF base a]) (simp_all add: settle_dispatch_def fd OutOfRange)
      then show ?thesis by (simp add: r)
    qed
  qed
qed simp

lemma match_lookup_flow:
  assumes "match_lookup (e_tables e) (take (unat (m_len m)) (m_tr m)) table = Some r"
  shows "m_match e at table m = match_flow at r m"
  using assms by (cases r; cases "case r of Served s \<Rightarrow> s | OffTable \<Rightarrow> Malformed")
    (auto simp: m_match_def split: served.splits)

lemma dispatch_lookup_flow:
  assumes "dispatch_lookup (e_tables e) table (m_mr m) = Some r" and "m_mr m \<noteq> 0"
  shows "m_dispatch e at table m = dispatch_flow at r m"
  using assms by (cases r; cases "case r of Served s \<Rightarrow> s | OffTable \<Rightarrow> OutOfRange")
    (auto simp: m_dispatch_def split: served.splits)

lemma match_refines:
  assumes base: "base_run e v"
  shows "refines e v ops (serve_ops e v (MatchTable table # ops))
    (micro e n (c_instr_start (v_core v)) (MatchTable table) (abs_vm v))"
proof -
  let ?tr = "take (unat (m_len (abs_vm v))) (m_tr (abs_vm v))"
  obtain r where r: "match_lookup (e_tables e) ?tr table = Some r" using match_lookup_total by blast
  then have s: "serve (\<lambda>w b. match_feed w b ?tr) walk_need (e_tables e) 1200010
      (match_walk_new table) (NeedByte table) = Some r"
    by (simp add: match_lookup_def match_feed_fresh)
  have "serve_ops e v (MatchTable table # ops) =
      serve_event e (v\<lparr>v_core := (v_core v)\<lparr>c_phase := Execute ops (PMatch (match_walk_new table))\<rparr>\<rparr>)
        (Request (TableRead table))"
    by (rule serve_issue) (simp add: issue_match_table_def base_latched [OF base] match_feed_fresh)
  with serve_match_refines [OF base refl s] match_lookup_flow [OF r] show ?thesis by simp
qed

lemma dispatch_refines:
  assumes base: "base_run e v"
  shows "refines e v ops (serve_ops e v (DispatchJump table # ops))
    (micro e n (c_instr_start (v_core v)) (DispatchJump table) (abs_vm v))"
proof (cases "c_mr (v_core v) = 0")
  case True
  then have "issue_op (v_core v) (DispatchJump table) ops = exit_trap (v_core v) (NoTransition (c_instr_start (v_core v)))"
    by (simp add: issue_dispatch_def)
  from exit_trap_refines [OF this] True show ?thesis by (simp add: m_dispatch_def abs_vm_def)
next
  case False
  let ?mr = "m_mr (abs_vm v)"
  have mr: "?mr = c_mr (v_core v)" by (simp add: abs_vm_def)
  obtain r where r: "dispatch_lookup (e_tables e) table ?mr = Some r" using dispatch_lookup_total by blast
  then have s: "serve dispatch_feed dispatch_need (e_tables e) 8
      (dispatch_walk_new table ?mr) (DNeedByte table) = Some r"
    by (simp add: dispatch_lookup_def dispatch_feed_fresh)
  have "serve_ops e v (DispatchJump table # ops) =
      serve_event e (v\<lparr>v_core := (v_core v)\<lparr>c_phase := Execute ops (PDispatch (dispatch_walk_new table ?mr))\<rparr>\<rparr>)
        (Request (TableRead table))"
    using False by (intro serve_issue) (simp add: issue_dispatch_def dispatch_feed_fresh mr)
  with serve_dispatch_refines [OF base s] dispatch_lookup_flow [OF r] False show ?thesis by (simp add: mr)
qed

section \<open>Sequences\<close>

definition op_refines :: "env \<Rightarrow> micro_op \<Rightarrow> bool" where
  "op_refines e x \<longleftrightarrow>
     (\<forall>v ops. base_run e v \<longrightarrow>
        refines e v ops (serve_ops e v (x # ops))
          (micro e (c_device_count (v_core v)) (c_instr_start (v_core v)) x (abs_vm v)))"

lemma refines_seq:
  "\<forall>x \<in> set xs. op_refines e x \<Longrightarrow> base_run e v \<Longrightarrow>
     refines e v ops (serve_ops e v (xs @ ops))
       (micros e (c_device_count (v_core v)) (c_instr_start (v_core v)) xs (abs_vm v))"
proof (induction xs arbitrary: v)
  case Nil
  then show ?case by (auto intro!: refinesI_next)
next
  case (Cons x xs)
  let ?m = "micro e (c_device_count (v_core v)) (c_instr_start (v_core v)) x (abs_vm v)"
  have one: "refines e v (xs @ ops) (serve_ops e v (x # xs @ ops)) ?m"
    using Cons.prems by (simp add: op_refines_def)
  show ?case
  proof (cases ?m)
    case (Next m')
    then obtain v' where v': "serve_ops e v (x # xs @ ops) = serve_ops e v' (xs @ ops)"
        "base_run e v'" "abs_vm v' = m'" "same_setting v v'"
      using one by (auto simp: refines_def)
    have "refines e v' ops (serve_ops e v' (xs @ ops))
        (micros e (c_device_count (v_core v')) (c_instr_start (v_core v')) xs (abs_vm v'))"
      using Cons.IH Cons.prems(1) v'(2) by simp
    then have "refines e v ops (serve_ops e v' (xs @ ops))
        (micros e (c_device_count (v_core v')) (c_instr_start (v_core v')) xs m')"
      unfolding v'(3) by (rule refines_shift) (rule v'(4))
    then show ?thesis using v'(1,4) Next by (simp add: same_setting_def)
  next
    case (Ends oc m')
    with one show ?thesis by (auto simp: refines_def)
  qed
qed

lemma read_all_refines:
  assumes base: "base_run e v"
  shows "refines e v ops (serve_ops e v (ReadAll # ops))
    (micro e (c_device_count (v_core v)) (c_instr_start (v_core v)) ReadAll (abs_vm v))"
proof -
  note f = base_run_facts [OF base]
  let ?c = "(v_core v)\<lparr>c_tr_len := 0\<rparr>" and ?xs = "read_all_ops (c_device_count (v_core v))"
  let ?v = "v\<lparr>v_core := ?c\<rparr>"
  have "serve_ops e v (ReadAll # ops) = serve_ops e ?v (?xs @ ops)"
    by (rule serve_continue) (simp add: issue_read_all_def base_identity [OF base])
  moreover have base': "base_run e ?v" by (rule base_run_core [OF base]) (use f in simp_all)
  have "op_refines e x" if "x \<in> set ?xs" for x
    using that read_refines by (auto simp: op_refines_def read_all_ops_def)
  then have "refines e ?v ops (serve_ops e ?v (?xs @ ops))
      (micros e (c_device_count (v_core ?v)) (c_instr_start (v_core ?v)) ?xs (abs_vm ?v))"
    using base' by (intro refines_seq) blast+
  moreover have "?xs = map (\<lambda>d. MRead d d) (map of_nat [0..<unat (c_device_count (v_core v))])"
    by (simp add: read_all_ops_def)
  moreover have "abs_vm ?v = (abs_vm v)\<lparr>m_len := 0\<rparr>" by (simp add: abs_vm_def)
  ultimately have "refines e ?v ops (serve_ops e v (ReadAll # ops))
      (m_reads (c_instr_start (v_core v)) (map of_nat [0..<unat (c_device_count (v_core v))])
        ((abs_vm v)\<lparr>m_len := 0\<rparr>))"
    by (simp add: m_reads_micros [of _ _ _ e "c_device_count (v_core v)"])
  then have "refines e ?v ops (serve_ops e v (ReadAll # ops))
      (micro e (c_device_count (v_core v)) (c_instr_start (v_core v)) ReadAll (abs_vm v))"
    by simp
  then show ?thesis by (rule refines_shift) (simp add: same_setting_def)
qed

text \<open>Every micro-op does what the specification says.\<close>

lemma end_refines:
  "issue_op (v_core v) x ops = Some (Exit ((v_core v)\<lparr>c_phase := Done\<rparr>) EvStop) \<Longrightarrow>
     refines e v ops (serve_ops e v (x # ops)) (Ends Stopped (abs_vm v))"
  "issue_op (v_core v) x ops = Some (Exit ((v_core v)\<lparr>c_phase := Done\<rparr>) EvHalt) \<Longrightarrow>
     refines e v ops (serve_ops e v (x # ops)) (Ends Halted (abs_vm v))"
  by (auto simp: serve_ops_def serve_event.simps refines_def
      intro!: exI [of _ "v\<lparr>v_core := (v_core v)\<lparr>c_phase := Done\<rparr>\<rparr>"])

lemma every_op_refines: "op_refines e x"
  unfolding op_refines_def
proof (intro allI impI)
  fix v ops
  assume base: "base_run e v"
  note f = base_run_facts [OF base]
  let ?at = "c_instr_start (v_core v)" and ?n = "c_device_count (v_core v)"
  show "refines e v ops (serve_ops e v (x # ops)) (micro e ?n ?at x (abs_vm v))"
  proof (cases x)
    case (MoveLeft d)
    have "issue_op (v_core v) x ops = Some (Await (DeviceMoveLeft d) PMove)"
      by (simp add: MoveLeft on_dev_def base_identity [OF base])
    from move_refines [OF base _ this, of tape_left] show ?thesis by (simp add: MoveLeft dyn.ok_left)
  next
    case (MoveRight d)
    have "issue_op (v_core v) x ops = Some (Await (DeviceMoveRight d) PMove)"
      by (simp add: MoveRight on_dev_def base_identity [OF base])
    from move_refines [OF base _ this, of tape_right] show ?thesis by (simp add: MoveRight dyn.ok_right)
  next
    case (MWrite d i)
    show ?thesis unfolding MWrite by (rule write_refines [OF base])
  next
    case (MRead d s)
    show ?thesis unfolding MRead by (rule read_refines [OF base])
  next
    case (LatchMatch k)
    show ?thesis unfolding LatchMatch by (rule latch_refines [OF base])
  next
    case (JumpRel off)
    have "issue_op (v_core v) x ops = issue_jump (v_core v) off ops" by (simp add: JumpRel)
    from jump_refines [OF base this] show ?thesis by (simp add: JumpRel)
  next
    case (JumpRelIf off b)
    show ?thesis
    proof (cases "(c_mr (v_core v) \<noteq> 0) = b")
      case True
      then have "issue_op (v_core v) x ops = issue_jump (v_core v) off ops" by (simp add: JumpRelIf)
      from jump_refines [OF base this] True show ?thesis by (simp add: JumpRelIf abs_vm_def)
    next
      case False
      then have "issue_op (v_core v) x ops = Some (Continue (v_core v) ops)" by (auto simp: JumpRelIf)
      from refines_continue [OF base this] f False show ?thesis by (auto simp: JumpRelIf abs_vm_def)
    qed
  next
    case (MCall off)
    show ?thesis unfolding MCall by (rule call_refines [OF base])
  next
    case MRet
    show ?thesis unfolding MRet by (rule ret_refines [OF base])
  next
    case (MatchTable t)
    show ?thesis unfolding MatchTable by (rule match_refines [OF base])
  next
    case (DispatchJump t)
    show ?thesis unfolding DispatchJump by (rule dispatch_refines [OF base])
  next
    case (Raise k)
    from exit_trap_refines [of v x ops "raised k ?at"] show ?thesis by (simp add: Raise)
  next
    case ReadAll
    show ?thesis unfolding ReadAll by (rule read_all_refines [OF base])
  next
    case (CallFrame r s)
    from exit_trap_refines [of v x ops "ProfileViolation ?at"] f show ?thesis by (simp add: CallFrame)
  next
    case (RetX k)
    from exit_trap_refines [of v x ops "ProfileViolation ?at"] f show ?thesis by (simp add: RetX)
  next
    case MStop
    from end_refines(1) [of v x ops] show ?thesis by (simp add: MStop)
  next
    case MHalt
    from end_refines(2) [of v x ops] show ?thesis by (simp add: MHalt)
  next
    case MBrk
    let ?c = "(v_core v)\<lparr>c_brk_pending := True\<rparr>"
    have "issue_op (v_core v) x ops = Some (Continue ?c ops)" by (simp add: MBrk)
    from refines_continue [OF base this] f
    have "refines e v ops (serve_ops e v (x # ops)) (Next (abs_vm (v\<lparr>v_core := ?c\<rparr>)))"
      by (simp add: same_setting_def)
    then show ?thesis by (simp add: MBrk abs_vm_def)
  next
    case MNop
    have "issue_op (v_core v) x ops = Some (Continue (v_core v) ops)" by (simp add: MNop)
    from refines_continue [OF base this] f show ?thesis by (simp add: MNop)
  qed
qed

text \<open>A whole micro-op sequence, to the instruction boundary.\<close>

lemma serve_ops_retire:
  "serve_ops e v [] =
     Some (retire_step e (v\<lparr>v_core := fst (retire (v_core v))\<rparr>) (if c_brk_pending (v_core v) then Break else Retired))"
  by (simp add: serve_ops_def retire_def serve_event.simps)

lemma micros_refined:
  assumes base: "base_run e v"
  shows "case micros e (c_device_count (v_core v)) (c_instr_start (v_core v)) ops (abs_vm v) of
      Next m' \<Rightarrow> (\<exists>v'. serve_ops e v ops = Some (retire_step e v' (if m_brk m' then Break else Retired))
        \<and> abs_vm v' = m'\<lparr>m_brk := False\<rparr> \<and> same_setting v v')
    | Ends oc m' \<Rightarrow> (\<exists>v'. serve_ops e v ops = Some (Finished oc, v') \<and> abs_vm v' = m')"
proof -
  let ?f = "micros e (c_device_count (v_core v)) (c_instr_start (v_core v)) ops (abs_vm v)"
  have r: "refines e v [] (serve_ops e v ops) ?f"
    using refines_seq [OF _ base, of ops "[]"] every_op_refines by simp
  show ?thesis
  proof (cases ?f)
    case (Next m')
    then obtain v' where v': "serve_ops e v ops = serve_ops e v' []" "abs_vm v' = m'" "same_setting v v'"
      using r by (auto simp: refines_def)
    let ?v = "v'\<lparr>v_core := fst (retire (v_core v'))\<rparr>"
    have b: "m_brk m' = c_brk_pending (v_core v')" using v'(2) by (auto simp: abs_vm_def)
    have "serve_ops e v ops = Some (retire_step e ?v (if m_brk m' then Break else Retired))"
      using v'(1) b by (simp add: serve_ops_retire)
    moreover have "abs_vm ?v = m'\<lparr>m_brk := False\<rparr>" using v'(2) by (auto simp: abs_vm_def retire_def)
    moreover have "same_setting v ?v" using v'(3) by (simp add: same_setting_def retire_def)
    ultimately show ?thesis using Next by auto
  next
    case (Ends oc m')
    then show ?thesis using r by (auto simp: refines_def)
  qed
qed

end
