(* ===== verification/Operand_Codec.thy ===== *)
theory Operand_Codec
  imports Vm_Core
begin

text \<open>
  \<open>encode_operand\<close> (\<open>crates/core/src/vm/arch.rs\<close>) and the byte-wise operand fetch of the core
  are inverse: fed the encoded bytes, the core asks for exactly those bytes and lowers the
  encoded operand.
\<close>

section \<open>Seven-bit payloads\<close>

lemma small_u32_cases:
  assumes "(s :: u32) \<le> 0x7F"
  shows "s \<in> of_nat ` {0..<128}"
proof -
  have "unat s < 128" using assms by (simp add: word_le_nat_alt)
  moreover have "s = of_nat (unat s)" by simp
  ultimately show ?thesis by (metis atLeastLessThan_iff image_eqI zero_le)
qed

lemma payload_table:
  "\<forall>n \<in> set [0..<128].
     \<not> terminated (byte_of (of_nat n)) \<and> payload (byte_of (of_nat n)) = of_nat n
     \<and> terminated (byte_of (of_nat n) OR 0x80) \<and> payload (byte_of (of_nat n) OR 0x80) = of_nat n"
  by (simp add: upt_rec byte_of_def terminated_def payload_def)

lemma payload_small:
  assumes "s \<le> 0x7F"
  shows "\<not> terminated (byte_of s)" "payload (byte_of s) = s"
    "terminated (byte_of s OR 0x80)" "payload (byte_of s OR 0x80) = s"
  using small_u32_cases [OF assms] payload_table by auto

lemma group_facts:
  assumes "\<forall>s \<in> set (init @ [l]). s \<le> 0x7F"
  shows "\<forall>b \<in> set (map byte_of init). \<not> terminated b" "terminated (byte_of l OR 0x80)"
    "map payload (encode_group l init) = init @ [l]"
  using assms payload_small by (auto simp: encode_group_def map_idI)

lemma split_last_Some:
  "split_last xs = Some (l, init) \<longleftrightarrow> xs = init @ [l]"
  by (auto simp: split_last_def)

section \<open>The bytes of an operand\<close>

text \<open>Which operand kinds carry which operands.\<close>

fun carries :: "operand_kind \<Rightarrow> operand \<Rightarrow> bool" where
  "carries KRelI8 (OI8 v) = True"
| "carries KRelI32 (OI32 v) = True"
| "carries KSymbolVec (OSymbols vs) = True"
| "carries KTableRef (OTable v) = True"
| "carries KMoveVec (OSymbols vs) = True"
| "carries KImm8 (OImm v) = True"
| "carries KFramedCall (OFramedCall r t) = True"
| "carries KWriteMoveVec (OWriteMove ws ms) = True"
| "carries _ _ = False"

text \<open>The operand ends exactly at its last byte.\<close>

definition ends_exactly :: "operand_kind \<Rightarrow> u8 list \<Rightarrow> bool" where
  "ends_exactly kind bs \<longleftrightarrow>
     bs \<noteq> [] \<and> operand_complete kind bs (last bs) \<and>
     (\<forall>xs y zs. bs = xs @ [y] @ zs \<longrightarrow> zs \<noteq> [] \<longrightarrow> \<not> operand_complete kind (xs @ [y]) y)"

lemma ends_exactly_fixed:
  assumes "\<And>buf b. operand_complete kind buf b \<longleftrightarrow> length buf = n" and "0 < n" and "length bs = n"
  shows "ends_exactly kind bs"
  using assms by (auto simp: ends_exactly_def)

lemma ends_exactly_group:
  assumes "\<And>buf b. operand_complete kind buf b \<longleftrightarrow> terminated b"
    and "\<forall>b \<in> set init. \<not> terminated b" and "terminated l"
  shows "ends_exactly kind (init @ [l])"
  unfolding ends_exactly_def
proof (intro conjI allI impI)
  fix xs y zs
  assume eq: "init @ [l] = xs @ [y] @ zs" and "zs \<noteq> []"
  obtain zs' z where "zs = zs' @ [z]" using \<open>zs \<noteq> []\<close> by (cases zs rule: rev_cases) auto
  with eq have "init @ [l] = (xs @ y # zs') @ [z]" by simp
  then have "init = xs @ y # zs'" by (simp only: append1_eq_conv)
  then have "y \<in> set init" by simp
  with assms(2) show "\<not> operand_complete kind (xs @ [y]) y" unfolding assms(1) by blast
next
  show "operand_complete kind (init @ [l]) (last (init @ [l]))"
    unfolding assms(1) using assms(3) by simp
qed simp

lemma ends_exactly_two_groups:
  assumes w: "\<forall>b \<in> set ws. \<not> terminated b" "terminated w"
    and m: "\<forall>b \<in> set ms. \<not> terminated b" "terminated m"
  shows "ends_exactly KWriteMoveVec ((ws @ [w]) @ (ms @ [m]))"
  unfolding ends_exactly_def
proof (intro conjI allI impI)
  have no: "filter terminated ws = []" "filter terminated ms = []"
    using w(1) m(1) by (auto simp: filter_empty_conv)
  show "operand_complete KWriteMoveVec ((ws @ [w]) @ (ms @ [m])) (last ((ws @ [w]) @ (ms @ [m])))"
    using no w(2) m(2) by simp
  fix xs y zs
  assume eq: "(ws @ [w]) @ (ms @ [m]) = xs @ [y] @ zs" and "zs \<noteq> []"
  obtain zs' z where "zs = zs' @ [z]" using \<open>zs \<noteq> []\<close> by (cases zs rule: rev_cases) auto
  with eq have "((ws @ [w]) @ ms) @ [m] = (xs @ [y] @ zs') @ [z]" by simp
  then have "(ws @ [w]) @ ms = xs @ [y] @ zs'" by (simp only: append1_eq_conv)
  moreover have "length (filter terminated ((ws @ [w]) @ ms)) = 1" using no w(2) by simp
  ultimately have "length (filter terminated (xs @ [y] @ zs')) = 1" by metis
  then show "\<not> operand_complete KWriteMoveVec (xs @ [y]) y" by auto
qed simp

lemma write_move_operand_groups:
  assumes "\<forall>b \<in> set ws. \<not> terminated b" "terminated w"
  shows "write_move_operand ((ws @ [w]) @ ms) = Some (OWriteMove (map payload (ws @ [w])) (map payload ms))"
proof -
  have "takeWhile (\<lambda>b. \<not> terminated b) ((ws @ [w]) @ ms) = ws"
    using assms by (simp add: takeWhile_append2 takeWhile_tail)
  then show ?thesis using assms(2) unfolding write_move_operand_def by (simp add: Let_def)
qed

lemma encode_symbols_bytes:
  assumes "encode_symbols vs = Inr bs"
  obtains init l where "vs = init @ [l]" "bs = encode_group l init" "\<forall>s \<in> set (init @ [l]). s \<le> 0x7F"
proof -
  obtain l init where sp: "split_last vs = Some (l, init)"
    using assms by (auto simp: encode_symbols_def split: option.splits)
  then have "vs = init @ [l]" by (simp add: split_last_Some)
  moreover have "bs = encode_group l init" "\<forall>s \<in> set vs. s \<le> 0x7F"
    using assms sp by (auto simp: encode_symbols_def split: if_splits)
  ultimately show ?thesis using that by blast
qed

lemma encode_write_move_bytes:
  assumes "encode_write_move ws ms = Inr bs"
  obtains wi wl mi ml where "ws = wi @ [wl]" "ms = mi @ [ml]"
    "bs = encode_group wl wi @ encode_group ml mi"
    "\<forall>s \<in> set (wi @ [wl]). s \<le> 0x7F" "\<forall>s \<in> set (mi @ [ml]). s \<le> 0x7F"
proof -
  obtain wl wi ml mi where sp: "split_last ws = Some (wl, wi)" "split_last ms = Some (ml, mi)"
    using assms by (auto simp: encode_write_move_def split: option.splits if_splits)
  then have "ws = wi @ [wl]" "ms = mi @ [ml]" by (simp_all add: split_last_Some)
  moreover have "bs = encode_group wl wi @ encode_group ml mi" "\<forall>s \<in> set ws. s \<le> 0x7F"
    and m: "\<forall>s \<in> set ms. s \<le> 2"
    using assms sp by (auto simp: encode_write_move_def not_less split: if_splits)
  moreover have "\<forall>s \<in> set ms. s \<le> 0x7F"
  proof
    fix s
    assume "s \<in> set ms"
    with m have "s \<le> 2" by blast
    also have "(2 :: u32) \<le> 0x7F" by simp
    finally show "s \<le> 0x7F" .
  qed
  ultimately show ?thesis using that by metis
qed

lemma encode_decode:
  assumes "encode_operand oper = Inr bs" and "carries kind oper"
  shows "ends_exactly kind bs \<and> decode_operand kind bs = Some oper"
proof (cases oper)
  case (OI8 v)
  with assms have "kind = KRelI8" by (cases kind) auto
  with assms OI8 show ?thesis by (auto intro!: ends_exactly_fixed [where n = 1])
next
  case (OI32 v)
  with assms have "kind = KRelI32" by (cases kind) auto
  with assms OI32 show ?thesis by (auto intro!: ends_exactly_fixed [where n = 4])
next
  case (OTable v)
  with assms have "kind = KTableRef" by (cases kind) auto
  with assms OTable show ?thesis by (auto intro!: ends_exactly_fixed [where n = 4])
next
  case (OImm v)
  with assms have "kind = KImm8" by (cases kind) auto
  with assms OImm show ?thesis by (auto intro!: ends_exactly_fixed [where n = 1])
next
  case (OFramedCall r t)
  with assms have "kind = KFramedCall" by (cases kind) auto
  with assms OFramedCall show ?thesis by (auto intro!: ends_exactly_fixed [where n = 8])
next
  case (OSymbols vs)
  with assms obtain init l where vs: "vs = init @ [l]" "bs = encode_group l init"
      and le: "\<forall>s \<in> set (init @ [l]). s \<le> 0x7F"
    by (auto elim: encode_symbols_bytes)
  have "kind = KSymbolVec \<or> kind = KMoveVec" using assms(2) OSymbols by (cases kind) auto
  with vs OSymbols group_facts [OF le] show ?thesis
    by (auto simp: encode_group_def intro!: ends_exactly_group)
next
  case (OWriteMove ws ms)
  with assms obtain wi wl mi ml where e: "ws = wi @ [wl]" "ms = mi @ [ml]"
      "bs = encode_group wl wi @ encode_group ml mi"
      and le: "\<forall>s \<in> set (wi @ [wl]). s \<le> 0x7F" "\<forall>s \<in> set (mi @ [ml]). s \<le> 0x7F"
    by (auto elim: encode_write_move_bytes)
  note g = group_facts [OF le(1)] group_facts [OF le(2)]
  have "kind = KWriteMoveVec" using assms(2) OWriteMove by (cases kind) auto
  moreover have "ends_exactly KWriteMoveVec bs"
    unfolding e(3) encode_group_def using g by (intro ends_exactly_two_groups) simp_all
  moreover have "write_move_operand bs = Some (OWriteMove ws ms)"
  proof -
    have "write_move_operand bs = Some (OWriteMove (map payload (encode_group wl wi))
        (map payload (encode_group ml mi)))"
      unfolding e(3) encode_group_def by (rule write_move_operand_groups) (use g in simp_all)
    then show ?thesis unfolding g e(1,2) .
  qed
  ultimately show ?thesis using OWriteMove by simp
qed (use assms in \<open>cases kind; simp\<close>)

section \<open>The core fetches what was encoded\<close>

text \<open>
  The core fed a run of code bytes. After each byte but the last it has to ask for the next
  code byte, and at the address it stands at.
\<close>

fun fetch_bytes :: "arch \<Rightarrow> core \<Rightarrow> u8 list \<Rightarrow> (core \<times> core_event) option" where
  "fetch_bytes a c [] = None"
| "fetch_bytes a c [b] = resume a c (Byte b)"
| "fetch_bytes a c (b # b' # bs) =
     (case resume a c (Byte b) of
        Some (c', Request (CodeRead at)) \<Rightarrow>
          if at = c_ip c + 1 then fetch_bytes a c' (b' # bs) else None
      | _ \<Rightarrow> None)"

lemma fetch_operand_bytes:
  assumes "c_phase c = FetchOperand opc kind pre" and "bs \<noteq> []" and "ends_exactly kind (pre @ bs)"
    and "decode_operand kind (pre @ bs) = Some oper"
  shows "fetch_bytes a c bs =
    finish_fetch a (c\<lparr>c_phase := Done, c_ip := c_ip c + of_nat (length bs)\<rparr>) opc oper"
  using assms
proof (induction bs arbitrary: c pre)
  case (Cons b bs)
  show ?case
  proof (cases bs)
    case Nil
    then have "operand_complete kind (pre @ [b]) b" using Cons.prems(3) by (simp add: ends_exactly_def)
    then show ?thesis using Nil Cons.prems by (simp add: resume_def on_operand_byte_def Let_def)
  next
    case (Cons b' bs')
    then have "\<not> operand_complete kind (pre @ [b]) b"
      using Cons.prems(3) unfolding ends_exactly_def by auto
    then have r: "resume a c (Byte b) =
        Some (c\<lparr>c_ip := c_ip c + 1, c_phase := FetchOperand opc kind (pre @ [b])\<rparr>,
          Request (CodeRead (c_ip c + 1)))"
      using Cons.prems(1) by (simp add: resume_def on_operand_byte_def Let_def code_read_def)
    let ?c = "c\<lparr>c_ip := c_ip c + 1, c_phase := FetchOperand opc kind (pre @ [b])\<rparr>"
    have "fetch_bytes a ?c bs =
        finish_fetch a (?c\<lparr>c_phase := Done, c_ip := c_ip ?c + of_nat (length bs)\<rparr>) opc oper"
      using Cons.prems Cons by (intro Cons.IH [of _ "pre @ [b]"]) simp_all
    also have "?c\<lparr>c_phase := Done, c_ip := c_ip ?c + of_nat (length bs)\<rparr> =
        c\<lparr>c_phase := Done, c_ip := c_ip c + of_nat (length (b # bs))\<rparr>"
      by (simp add: add.assoc)
    finally show ?thesis using r Cons by simp
  qed
qed simp

text \<open>
  An instruction is executed as it was encoded. If the opcode has an operand kind and
  \<open>encode_operand\<close> accepts an operand of that kind, then a core about to fetch an opcode that
  is fed the opcode and the encoded bytes asks for exactly these bytes in order and goes on to
  lower that very operand, with \<open>ip\<close> behind the instruction.
\<close>

theorem instruction_fetch:
  assumes "c_phase c = FetchOpcode" and "operand_kind a opc = Some kind"
    and "encode_operand oper = Inr bs" and "kind = KNone \<and> oper = ONone \<or> carries kind oper"
  shows "fetch_bytes a c (opc # bs) =
    finish_fetch a (c\<lparr>c_phase := Done, c_ip := c_ip c + of_nat (length (opc # bs))\<rparr>) opc oper"
proof (cases "kind = KNone")
  case True
  with assms have "oper = ONone" "bs = []" by (cases oper; auto)+
  with True assms show ?thesis by (simp add: resume_def on_opcode_def Let_def)
next
  case False
  with assms(4) have "carries kind oper" by blast
  from encode_decode [OF assms(3) this] have e: "ends_exactly kind bs" "decode_operand kind bs = Some oper"
    by simp_all
  then obtain b bs' where bs: "bs = b # bs'" by (auto simp: ends_exactly_def neq_Nil_conv)
  let ?c = "c\<lparr>c_ip := c_ip c + 1, c_phase := FetchOperand opc kind []\<rparr>"
  have "resume a c (Byte opc) = Some (?c, Request (CodeRead (c_ip c + 1)))"
    using assms(1,2) False by (simp add: resume_def on_opcode_def Let_def code_read_def)
  moreover have "fetch_bytes a ?c bs =
      finish_fetch a (?c\<lparr>c_phase := Done, c_ip := c_ip ?c + of_nat (length bs)\<rparr>) opc oper"
    using e bs by (intro fetch_operand_bytes [where pre = "[]"]) simp_all
  ultimately show ?thesis using bs by (simp add: add.assoc)
qed

end
