(* ===== verification/Instruction_Step.thy ===== *)
theory Instruction_Step
  imports Micro_Semantics Operand_Codec
begin

text \<open>
  From the bytes of an instruction to its effect: the driver steps one instruction by fetching
  the opcode and the encoded operand from the code image and executing what they lower to. With
  the refinement of the micro-ops, a step of \<open>vm/driver.rs\<close> on an encoded instruction is the
  specification \<open>micros\<close> of its lowering.
\<close>

section \<open>Fetching through the driver\<close>

definition ticked :: "nat \<Rightarrow> vm \<Rightarrow> vm" where
  "ticked n v = v\<lparr>v_stats := (v_stats v)\<lparr>core_tacts := core_tacts (v_stats v) + of_nat n\<rparr>\<rparr>"

lemma ticked_simps [simp]:
  "ticked 0 v = v" "ticked n (tick_core v) = ticked (Suc n) v"
  "v_core (ticked n v) = v_core v" "v_devs (ticked n v) = v_devs v" "v_stack (ticked n v) = v_stack v"
  "st_steps (v_stats (ticked n v)) = st_steps (v_stats v)"
  by (simp_all add: ticked_def tick_core_def)

lemma ticked_core: "ticked n (v\<lparr>v_core := c\<rparr>) = (ticked n v)\<lparr>v_core := c\<rparr>"
  by (simp add: ticked_def)

lemma tick_core_core: "tick_core (v\<lparr>v_core := c\<rparr>) = (tick_core v)\<lparr>v_core := c\<rparr>"
  by (simp add: tick_core_def)

definition serve_result :: "env \<Rightarrow> vm \<Rightarrow> (core \<times> core_event) option \<Rightarrow> (step_event \<times> vm) option" where
  "serve_result e v r =
     (case r of None \<Rightarrow> None | Some (c, event) \<Rightarrow> serve_event e (v\<lparr>v_core := c\<rparr>) event)"

text \<open>The code image holds the bytes \<open>bs\<close> at \<open>at\<close>.\<close>

definition holds_at :: "u8 list \<Rightarrow> u32 \<Rightarrow> u8 list \<Rightarrow> bool" where
  "holds_at code at bs \<longleftrightarrow>
     unat at + length bs < 2 ^ 32 \<and> (\<exists>pre post. code = pre @ bs @ post \<and> length pre = unat at)"

lemma holds_at_first:
  assumes "holds_at code at (b # bs)"
  shows "nth_opt code (unat at) = Some b" and "holds_at code (at + 1) bs"
proof -
  obtain pre post where c: "code = pre @ (b # bs) @ post" "length pre = unat at"
    using assms by (auto simp: holds_at_def)
  show "nth_opt code (unat at) = Some b" using c by (simp add: nth_append)
  have fit: "unat at + 1 < 2 ^ 32" using assms by (simp add: holds_at_def)
  then have u: "unat (at + 1) = unat at + 1" using unat_add_small [of at 1] by simp
  have "code = (pre @ [b]) @ bs @ post" using c by simp
  then show "holds_at code (at + 1) bs"
    unfolding holds_at_def using assms c(2) u
    by (intro conjI exI [of _ "pre @ [b]"] exI [of _ post]) (simp_all add: holds_at_def)
qed

lemma serve_code_byte:
  assumes "nth_opt (e_code e) (unat (c_ip (v_core v))) = Some b" "max_tacts (e_limits e) = None"
  shows "serve_event e v (Request (CodeRead (c_ip (v_core v)))) =
    serve_result e (tick_core v) (resume (e_arch e) (v_core v) (Byte b))"
  using assms by (subst serve_event.simps)
    (simp add: answer_code_def no_tact_limit serve_result_def)

lemma serve_operand:
  assumes "c_phase (v_core v) = FetchOperand opc kind pre" "bs \<noteq> []" "ends_exactly kind (pre @ bs)"
    and "decode_operand kind (pre @ bs) = Some oper" "max_tacts (e_limits e) = None"
    and "holds_at (e_code e) (c_ip (v_core v)) bs"
  shows "serve_event e v (Request (CodeRead (c_ip (v_core v)))) =
    serve_result e (ticked (length bs) v)
      (finish_fetch (e_arch e) ((v_core v)\<lparr>c_phase := Done, c_ip := c_ip (v_core v) + of_nat (length bs)\<rparr>) opc oper)"
  using assms
proof (induction bs arbitrary: v pre)
  case (Cons b bs)
  let ?c = "v_core v"
  note at = holds_at_first [OF Cons.prems(6)]
  note first = serve_code_byte [OF at(1) Cons.prems(5)]
  show ?case
  proof (cases bs)
    case Nil
    then have "operand_complete kind (pre @ [b]) b" using Cons.prems(3) by (simp add: ends_exactly_def)
    then show ?thesis using Nil Cons.prems(1,4)
      by (simp add: first resume_def on_operand_byte_def Let_def ticked_def tick_core_def)
  next
    case (Cons b' bs')
    then have "\<not> operand_complete kind (pre @ [b]) b"
      using Cons.prems(3) unfolding ends_exactly_def by auto
    then have r: "resume (e_arch e) ?c (Byte b) =
        Some (?c\<lparr>c_ip := c_ip ?c + 1, c_phase := FetchOperand opc kind (pre @ [b])\<rparr>,
          Request (CodeRead (c_ip ?c + 1)))"
      using Cons.prems(1) by (simp add: resume_def on_operand_byte_def Let_def code_read_def)
    let ?v = "(tick_core v)\<lparr>v_core := ?c\<lparr>c_ip := c_ip ?c + 1, c_phase := FetchOperand opc kind (pre @ [b])\<rparr>\<rparr>"
    have "serve_event e ?v (Request (CodeRead (c_ip (v_core ?v)))) =
        serve_result e (ticked (length bs) ?v)
          (finish_fetch (e_arch e) ((v_core ?v)\<lparr>c_phase := Done, c_ip := c_ip (v_core ?v) + of_nat (length bs)\<rparr>) opc oper)"
      using Cons.prems Cons at(2) by (intro Cons.IH [of _ "pre @ [b]"]) simp_all
    moreover have "(v_core ?v)\<lparr>c_phase := Done, c_ip := c_ip (v_core ?v) + of_nat (length bs)\<rparr> =
        ?c\<lparr>c_phase := Done, c_ip := c_ip ?c + of_nat (length (b # bs))\<rparr>"
      by (simp add: add.assoc)
    moreover have "serve_result e (ticked (length bs) ?v) x = serve_result e (ticked (length (b # bs)) v) x" for x
      by (simp add: serve_result_def ticked_core split: option.split)
    moreover have "serve_event e v (Request (CodeRead (c_ip ?c))) =
        serve_event e ?v (Request (CodeRead (c_ip (v_core ?v))))"
      using first r by (simp add: serve_result_def)
    ultimately show ?thesis by (simp only:)
  qed
qed simp

text \<open>After a fetch, the micro-ops run on the core behind the instruction.\<close>

lemma serve_finish:
  assumes "lower (e_arch e) opc oper = Inr ops" "c_phase c = Done"
  shows "serve_result e v (finish_fetch (e_arch e) c opc oper) = serve_ops e (v\<lparr>v_core := c\<rparr>) ops"
proof -
  have "c\<lparr>c_phase := Done\<rparr> = c" using assms(2) by simp
  then have "step_execute (e_arch e) (c\<lparr>c_phase := Execute ops PNone\<rparr>) BusOk = issue c ops"
    by (simp add: step_execute_def)
  then show ?thesis using assms(1) by (simp add: finish_fetch_def serve_result_def serve_ops_def split: option.split)
qed

definition encodes :: "arch \<Rightarrow> u8 \<Rightarrow> operand \<Rightarrow> u8 list \<Rightarrow> bool" where
  "encodes a opc oper bs \<longleftrightarrow>
     (\<exists>kind rest. operand_kind a opc = Some kind \<and> encode_operand oper = Inr rest \<and> bs = opc # rest
        \<and> (kind = KNone \<and> oper = ONone \<or> carries kind oper))"

definition behind :: "nat \<Rightarrow> core \<Rightarrow> core" where
  "behind n c = c\<lparr>c_phase := Done, c_instr_start := c_ip c, c_ip := c_ip c + of_nat n\<rparr>"

lemma behind_started:
  "c_instr_start c = c_ip c \<Longrightarrow> behind n c = c\<lparr>c_phase := Done, c_ip := c_ip c + of_nat n\<rparr>"
  by (cases c) (simp add: behind_def)

lemma serve_encoded:
  assumes enc: "encodes (e_arch e) opc oper bs" and low: "lower (e_arch e) opc oper = Inr ops"
    and lim: "max_tacts (e_limits e) = None" and code: "holds_at (e_code e) (c_ip (v_core v)) bs"
    and ph: "c_phase (v_core v) = FetchOpcode" and st: "c_instr_start (v_core v) = c_ip (v_core v)"
  shows "serve_event e v (Request (CodeRead (c_ip (v_core v)))) =
    serve_ops e (ticked (length bs) v\<lparr>v_core := behind (length bs) (v_core v)\<rparr>) ops"
proof -
  let ?c = "v_core v"
  obtain kind rest where k: "operand_kind (e_arch e) opc = Some kind" "encode_operand oper = Inr rest"
      "bs = opc # rest" "kind = KNone \<and> oper = ONone \<or> carries kind oper"
    using enc by (auto simp: encodes_def)
  note at = holds_at_first [OF code [unfolded k(3)]]
  note first = serve_code_byte [OF at(1) lim]
  show ?thesis
  proof (cases "kind = KNone")
    case True
    then have "oper = ONone" "rest = []" using k(2,4) by (cases oper; auto)+
    then show ?thesis using True k ph low serve_finish [OF low, of "behind 1 ?c" "tick_core v"]
      by (simp add: first resume_def on_opcode_def Let_def behind_started [OF st] ticked_def tick_core_def)
  next
    case False
    then have c: "carries kind oper" using k(4) by blast
    from encode_decode [OF k(2) c] have e: "ends_exactly kind rest" "decode_operand kind rest = Some oper"
      by simp_all
    then have ne: "rest \<noteq> []" by (simp add: ends_exactly_def)
    let ?v = "(tick_core v)\<lparr>v_core := ?c\<lparr>c_phase := FetchOperand opc kind [], c_ip := c_ip ?c + 1\<rparr>\<rparr>"
    have r: "resume (e_arch e) ?c (Byte opc) = Some (v_core ?v, Request (CodeRead (c_ip (v_core ?v))))"
      using False k(1) ph by (simp add: resume_def on_opcode_def Let_def code_read_def)
    have "serve_event e ?v (Request (CodeRead (c_ip (v_core ?v)))) =
        serve_result e (ticked (length rest) ?v)
          (finish_fetch (e_arch e) ((v_core ?v)\<lparr>c_phase := Done, c_ip := c_ip (v_core ?v) + of_nat (length rest)\<rparr>) opc oper)"
      using ne e lim at(2) by (intro serve_operand [where pre = "[]"]) simp_all
    also have "\<dots> = serve_ops e ((ticked (length rest) ?v)
        \<lparr>v_core := (v_core ?v)\<lparr>c_phase := Done, c_ip := c_ip (v_core ?v) + of_nat (length rest)\<rparr>\<rparr>) ops"
      by (rule serve_finish [OF low]) simp
    also have "(ticked (length rest) ?v)
        \<lparr>v_core := (v_core ?v)\<lparr>c_phase := Done, c_ip := c_ip (v_core ?v) + of_nat (length rest)\<rparr>\<rparr>
      = ticked (length bs) v\<lparr>v_core := behind (length bs) ?c\<rparr>"
      using k(3) by (simp add: ticked_core behind_started [OF st] add.assoc)
    finally show ?thesis using first r by (simp add: serve_result_def)
  qed
qed

section \<open>A step of the driver\<close>

text \<open>What a step has done when it retires an instruction: one step more, then the limit.\<close>

definition step_verdict :: "env \<Rightarrow> vm \<Rightarrow> step_event \<Rightarrow> step_event" where
  "step_verdict e v ev =
     (if over (max_steps (e_limits e)) (st_steps (v_stats v) + 1) then Finished (Trapped StepLimit) else ev)"

text \<open>
  The result of a step against what the specification says: the same outcome on the same machine;
  an instruction that goes on is counted and has its break request answered.
\<close>

definition same_machine :: "vm \<Rightarrow> vm \<Rightarrow> bool" where
  "same_machine v v' \<longleftrightarrow>
     c_frames (v_core v') = c_frames (v_core v) \<and> c_device_count (v_core v') = c_device_count (v_core v)"

definition agrees :: "env \<Rightarrow> vm \<Rightarrow> (step_event \<times> vm) option \<Rightarrow> flow \<Rightarrow> bool" where
  "agrees e v r f \<longleftrightarrow>
     (case f of
        Next m' \<Rightarrow> (\<exists>v'. r = Some (step_verdict e v (if m_brk m' then Break else Retired), v')
          \<and> abs_vm v' = m'\<lparr>m_brk := False\<rparr> \<and> st_steps (v_stats v') = st_steps (v_stats v) + 1
          \<and> same_machine v v')
      | Ends oc m' \<Rightarrow> (\<exists>v'. r = Some (Finished oc, v') \<and> abs_vm v' = m'))"

lemma ready_base:
  assumes "ready started v" "\<not> frames_on (v_core v)"
  shows "base_ok (v_core v)" "frame_ok (v_core v)" "c_fr (v_core v) = 0"
    "\<forall>d \<in> set (v_devs v). tape_ok d" "length (rs_entries (v_stack v)) \<le> rs_capacity (v_stack v)"
proof -
  show b: "base_ok (v_core v)" using assms by (simp add: ready_def vm_ok_def core_ok_def)
  show f: "frame_ok (v_core v)" using assms by (auto simp: ready_def vm_ok_def core_ok_def split: if_splits)
  show "c_fr (v_core v) = 0" using f assms(2) by (auto simp: frame_ok_def)
qed (use assms in \<open>simp_all add: ready_def vm_ok_def\<close>)

lemma step_encoded:
  assumes rdy: "ready started v" and off: "\<not> frames_on (v_core v)"
    and enc: "encodes (e_arch e) opc oper bs" and low: "lower (e_arch e) opc oper = Inr ops"
    and lim: "max_tacts (e_limits e) = None" and code: "holds_at (e_code e) (c_ip (v_core v)) bs"
  shows "agrees e v (step_instruction e started v)
    (micros e (c_device_count (v_core v)) (c_ip (v_core v)) ops
      ((abs_vm v)\<lparr>m_ip := c_ip (v_core v) + of_nat (length bs)\<rparr>))"
proof -
  let ?c = "v_core v" and ?len = "length bs"
  let ?s = "?c\<lparr>c_instr_start := c_ip ?c, c_phase := FetchOpcode\<rparr>"
  let ?w = "v\<lparr>v_core := ?s\<rparr>"
  let ?v = "ticked ?len ?w\<lparr>v_core := behind ?len ?s\<rparr>"
  note b = ready_base [OF rdy off]
  have "step_instruction e started v = serve_event e ?w (Request (CodeRead (c_ip ?s)))"
    using rdy by (auto simp: step_instruction_def ready_def resume_def start_def Let_def code_read_def)
  also have "\<dots> = serve_ops e ?v ops"
    using serve_encoded [OF enc low lim, of ?w] code by simp
  finally have s: "step_instruction e started v = serve_ops e ?v ops" .
  have base: "base_run e ?v"
    using b off lim by (simp add: base_run_def behind_def ok_defs)
  have m: "abs_vm ?v = (abs_vm v)\<lparr>m_ip := c_ip ?c + of_nat ?len\<rparr>"
    by (simp add: abs_vm_def behind_def)
  have f: "c_device_count (v_core ?v) = c_device_count ?c" "c_instr_start (v_core ?v) = c_ip ?c"
    by (simp_all add: behind_def)
  have st: "st_steps (v_stats ?v) = st_steps (v_stats v)" by simp
  note r = micros_refined [OF base, of ops, unfolded m f]
  show ?thesis
  proof (cases "micros e (c_device_count ?c) (c_ip ?c) ops ((abs_vm v)\<lparr>m_ip := c_ip ?c + of_nat ?len\<rparr>)")
    case (Next m')
    let ?ev = "if m_brk m' then Break else Retired"
    obtain v' where v': "serve_ops e ?v ops = Some (retire_step e v' ?ev)"
        "abs_vm v' = m'\<lparr>m_brk := False\<rparr>" "same_setting ?v v'"
      using r Next by auto
    then have n: "st_steps (v_stats v') = st_steps (v_stats v)" using st by (simp add: same_setting_def)
    have "fst (retire_step e v' ?ev) = step_verdict e v ?ev"
      using n by (simp add: retire_step_def step_verdict_def Let_def no_tact_limit [OF lim])
    moreover have "abs_vm (snd (retire_step e v' ?ev)) = abs_vm v'"
      "st_steps (v_stats (snd (retire_step e v' ?ev))) = st_steps (v_stats v) + 1"
      using n by (simp_all add: retire_step_def Let_def abs_vm_def)
    moreover have "same_machine v (snd (retire_step e v' ?ev))"
      using v'(3) by (simp add: retire_step_def Let_def same_machine_def same_setting_def behind_def)
    ultimately show ?thesis using s v'(1,2) Next
      by (cases "retire_step e v' ?ev") (simp add: agrees_def)
  next
    case (Ends oc m')
    then show ?thesis using r s by (simp add: agrees_def)
  qed
qed

section \<open>A whole program\<close>

text \<open>
  A listing of a program: instructions with their addresses. The reference run executes them one
  after the other on the machine; it has no opinion where the listing says nothing.
\<close>

type_synonym listing = "(u32 \<times> u8 \<times> operand) list"

definition instruction_bytes :: "u8 \<Rightarrow> operand \<Rightarrow> u8 list" where
  "instruction_bytes opc oper = (case encode_operand oper of Inl _ \<Rightarrow> [] | Inr bs \<Rightarrow> opc # bs)"

definition fetchable :: "arch \<Rightarrow> u8 \<Rightarrow> operand \<Rightarrow> bool" where
  "fetchable a opc oper \<longleftrightarrow>
     (case operand_kind a opc of
        None \<Rightarrow> False
      | Some kind \<Rightarrow> (kind = KNone \<and> oper = ONone \<or> carries kind oper)
          \<and> (case encode_operand oper of Inl _ \<Rightarrow> False | Inr _ \<Rightarrow> True))"

lemma fetchable_encodes: "fetchable a opc oper \<Longrightarrow> encodes a opc oper (instruction_bytes opc oper)"
  by (auto simp: fetchable_def encodes_def instruction_bytes_def split: option.splits sum.splits)

text \<open>The listing tells what the code image holds.\<close>

definition listed :: "arch \<Rightarrow> u8 list \<Rightarrow> listing \<Rightarrow> bool" where
  "listed a code p \<longleftrightarrow>
     (\<forall>(at, opc, oper) \<in> set p. fetchable a opc oper \<and>
        (let bs = instruction_bytes opc oper in
         unat at + length bs < 2 ^ 32 \<and> unat at + length bs \<le> length code
         \<and> take (length bs) (drop (unat at) code) = bs))"

lemma holds_at_slice:
  assumes "unat at + length bs < 2 ^ 32" "unat at + length bs \<le> length code"
    "take (length bs) (drop (unat at) code) = bs"
  shows "holds_at code at bs"
  unfolding holds_at_def
proof (intro conjI exI)
  have "code = take (unat at) code @ take (length bs) (drop (unat at) code) @ drop (length bs) (drop (unat at) code)"
    by (simp only: append_take_drop_id)
  then show "code = take (unat at) code @ bs @ drop (length bs) (drop (unat at) code)" using assms(3) by simp
qed (use assms in simp_all)

fun listing_run :: "env \<Rightarrow> u8 \<Rightarrow> listing \<Rightarrow> nat \<Rightarrow> mach \<Rightarrow> (outcome \<times> mach) option" where
  "listing_run e n p 0 m = None"
| "listing_run e n p (Suc k) m =
     (case map_of p (m_ip m) of
        None \<Rightarrow> None
      | Some (opc, oper) \<Rightarrow>
          (case lower (e_arch e) opc oper of
             Inl _ \<Rightarrow> None
           | Inr ops \<Rightarrow>
               (case micros e n (m_ip m) ops
                    (m\<lparr>m_ip := m_ip m + of_nat (length (instruction_bytes opc oper))\<rparr>) of
                  Ends oc m' \<Rightarrow> Some (oc, m')
                | Next m' \<Rightarrow> listing_run e n p k (m'\<lparr>m_brk := False\<rparr>))))"

lemma run_listing:
  assumes code: "length (e_code e) < 2 ^ 32" and lst: "listed (e_arch e) (e_code e) p"
    and lim: "max_tacts (e_limits e) = None"
  shows "ready started v \<Longrightarrow> \<not> frames_on (v_core v) \<Longrightarrow>
    \<forall>s. max_steps (e_limits e) = Some s \<longrightarrow> unat (st_steps (v_stats v)) + k < unat s \<Longrightarrow>
    listing_run e (c_device_count (v_core v)) p k (abs_vm v) = Some (oc, m') \<Longrightarrow>
    \<exists>res v'. run_loop e started v = Some (res, v') \<and> r_outcome res = oc \<and> abs_vm v' = m'"
proof (induction k arbitrary: started v)
  case (Suc k)
  let ?c = "v_core v" and ?m = "abs_vm v"
  have ip: "m_ip ?m = c_ip ?c" by (simp add: abs_vm_def)
  obtain opc oper where at: "map_of p (c_ip ?c) = Some (opc, oper)"
    using Suc.prems(4) ip by (auto split: option.splits)
  then have mem: "(c_ip ?c, opc, oper) \<in> set p" by (rule map_of_SomeD)
  let ?bs = "instruction_bytes opc oper"
  have enc: "encodes (e_arch e) opc oper ?bs" and held: "holds_at (e_code e) (c_ip ?c) ?bs"
    using bspec [OF lst [unfolded listed_def] mem]
    by (auto simp: Let_def intro!: fetchable_encodes holds_at_slice)
  obtain ops where low: "lower (e_arch e) opc oper = Inr ops"
    using Suc.prems(4) ip at by (auto split: sum.splits)
  let ?f = "micros e (c_device_count ?c) (c_ip ?c) ops (?m\<lparr>m_ip := c_ip ?c + of_nat (length ?bs)\<rparr>)"
  have agr: "agrees e v (step_instruction e started v) ?f"
    by (rule step_encoded [OF Suc.prems(1,2) enc low lim held])
  show ?case
  proof (cases ?f)
    case (Ends oc1 m1)
    then have e: "oc1 = oc" "m1 = m'" using Suc.prems(4) ip at low by simp_all
    then obtain v' where "step_instruction e started v = Some (Finished oc, v')" "abs_vm v' = m'"
      using agr Ends by (auto simp: agrees_def)
    then show ?thesis by (subst run_loop.simps) (auto simp: result_of_def)
  next
    case (Next m1)
    let ?ev = "if m_brk m1 then Break else Retired"
    obtain v' where v': "step_instruction e started v = Some (step_verdict e v ?ev, v')"
        "abs_vm v' = m1\<lparr>m_brk := False\<rparr>" "st_steps (v_stats v') = st_steps (v_stats v) + 1" "same_machine v v'"
      using agr Next by (auto simp: agrees_def)
    have count: "unat (st_steps (v_stats v) + 1) = unat (st_steps (v_stats v)) + 1" if "max_steps (e_limits e) = Some s" for s
    proof -
      have "unat s < 2 ^ 64" by (rule order_less_le_trans [OF unsigned_less]) simp
      then show ?thesis using Suc.prems(3) that by (auto simp: unat_word_ariths)
    qed
    have verdict: "step_verdict e v ?ev = ?ev"
      using Suc.prems(3) count by (auto simp: step_verdict_def over_def word_le_nat_alt split: option.split)
    have "boundary e v ?ev v'"
      using step_boundary [OF code Suc.prems(1)] v'(1) verdict by auto
    then have rdy: "ready True v'" by (rule boundary_ready) simp
    have off: "\<not> frames_on (v_core v')" using Suc.prems(2) v'(4) by (simp add: same_machine_def frames_on_def)
    have lim': "\<forall>s. max_steps (e_limits e) = Some s \<longrightarrow> unat (st_steps (v_stats v')) + k < unat s"
      using Suc.prems(3) v'(3) count by auto
    have "listing_run e (c_device_count (v_core v')) p k (abs_vm v') = Some (oc, m')"
      using Suc.prems(4) ip at low Next v'(2,4) by (simp add: same_machine_def)
    from Suc.IH [OF rdy off lim' this]
    show ?thesis using v'(1) verdict by (subst run_loop.simps) (auto split: if_splits)
  qed
qed simp

end
