(* ===== verification/Isa_Operands.thy ===== *)
theory Isa_Operands
  imports Arch_Iface
begin

text \<open>
  How both instruction tables read a decoded operand (the closures at the head of the two
  \<open>lower\<close> functions): the payload of the expected shape, or \<open>BadOperand\<close>.
\<close>

definition bad_operand :: "trap + 'a" where
  "bad_operand = Inl (BadOperand 0)"

fun off32 :: "operand \<Rightarrow> trap + i32" where
  "off32 (OI32 v) = Inr v"
| "off32 _ = bad_operand"

fun off8 :: "operand \<Rightarrow> trap + i32" where
  "off8 (OI8 v) = Inr (scast v)"
| "off8 _ = bad_operand"

fun table_of :: "operand \<Rightarrow> trap + u32" where
  "table_of (OTable v) = Inr v"
| "table_of _ = bad_operand"

fun imm_of :: "operand \<Rightarrow> trap + u8" where
  "imm_of (OImm v) = Inr v"
| "imm_of _ = bad_operand"

text \<open>\<open>vec![f(x?)]\<close>.\<close>

definition single :: "('a \<Rightarrow> micro_op) \<Rightarrow> trap + 'a \<Rightarrow> trap + micro_op list" where
  "single f r = map_sum id (\<lambda>x. [f x]) r"

lemma single_simps [simp]: "single f (Inr x) = Inr [f x]" "single f (Inl t) = Inl t"
  by (simp_all add: single_def)

text \<open>The operand an opcode of the given kind is fetched with.\<close>

definition fetched_as :: "operand_kind \<Rightarrow> operand \<Rightarrow> bool" where
  "fetched_as kind oper \<longleftrightarrow>
     (case kind of
        KNone \<Rightarrow> oper = ONone
      | KRelI8 \<Rightarrow> (\<exists>v. oper = OI8 v)
      | KRelI32 \<Rightarrow> (\<exists>v. oper = OI32 v)
      | KSymbolVec \<Rightarrow> (\<exists>vs. oper = OSymbols vs \<and> vs \<noteq> [] \<and> (\<forall>v \<in> set vs. v \<le> 0x7F))
      | KMoveVec \<Rightarrow> (\<exists>vs. oper = OSymbols vs \<and> vs \<noteq> [] \<and> (\<forall>v \<in> set vs. v \<le> 0x7F))
      | KTableRef \<Rightarrow> (\<exists>v. oper = OTable v)
      | KImm8 \<Rightarrow> (\<exists>v. oper = OImm v)
      | KFramedCall \<Rightarrow> (\<exists>r t. oper = OFramedCall r t)
      | KWriteMoveVec \<Rightarrow> (\<exists>ws ms. oper = OWriteMove ws ms \<and> ws \<noteq> [] \<and> ms \<noteq> []
          \<and> (\<forall>v \<in> set ws \<union> set ms. v \<le> 0x7F)))"

end
