(* ===== verification/Bytes_Io.thy ===== *)
theory Bytes_Io
  imports Prelude
begin

text \<open>
  The byte cursor and writer helpers of the container formats (\<open>crates/core/src/formats/io.rs\<close>,
  \<open>mod.rs\<close>), and what the format theories share: parsers that thread the cursor and stop at the
  first error, the relation between a parser and the bytes it reads a value from, and the
  \<open>codec\<close> interface of a value with an encoder and a parser that inverts it.
\<close>

section \<open>Errors and the cursor\<close>

datatype format_error =
    BadMagic
  | BadCrc (stored: u32) (computed: u32)
  | UnsupportedVersion u16
  | Truncated
  | MalformedFile string
  | AlphabetTooWide nat nat

definition ARCH_PM1 :: u8 where "ARCH_PM1 = 0x01"
definition ARCH_TM1 :: u8 where "ARCH_TM1 = 0x02"
definition PROFILE_BASE :: u8 where "PROFILE_BASE = 0"
definition PROFILE_FRAMES :: u8 where "PROFILE_FRAMES = 1"

record reader =
  rd_buf :: "u8 list"
  rd_pos :: nat

definition rd_new :: "u8 list \<Rightarrow> reader" where
  "rd_new buf = \<lparr>rd_buf = buf, rd_pos = 0\<rparr>"

type_synonym 'a parser = "reader \<Rightarrow> format_error + ('a \<times> reader)"

text \<open>The \<open>?\<close> operator: go on with the value, or return the error.\<close>

definition and_then :: "'a parser \<Rightarrow> ('a \<Rightarrow> 'b parser) \<Rightarrow> 'b parser" where
  "and_then p k r = (case p r of Inl e \<Rightarrow> Inl e | Inr (x, r') \<Rightarrow> k x r')"

definition yields :: "'a \<Rightarrow> 'a parser" where
  "yields x r = Inr (x, r)"

definition refuse :: "format_error \<Rightarrow> 'a parser" where
  "refuse e r = Inl e"

text \<open>A check between two reads.\<close>

definition check :: "bool \<Rightarrow> format_error \<Rightarrow> 'a parser \<Rightarrow> 'a parser" where
  "check bad e p = (if bad then refuse e else p)"

fun repeat :: "nat \<Rightarrow> 'a parser \<Rightarrow> 'a list parser" where
  "repeat 0 p = yields []"
| "repeat (Suc n) p = and_then p (\<lambda>x. and_then (repeat n p) (\<lambda>xs. yields (x # xs)))"

definition rd_bytes :: "nat \<Rightarrow> u8 list parser" where
  "rd_bytes n r =
     (if rd_pos r + n > length (rd_buf r) then Inl Truncated
      else Inr (take n (drop (rd_pos r) (rd_buf r)), r\<lparr>rd_pos := rd_pos r + n\<rparr>))"

definition rd_u8 :: "u8 parser" where
  "rd_u8 = and_then (rd_bytes 1) (\<lambda>bs. yields (bs ! 0))"

definition rd_u16 :: "u16 parser" where
  "rd_u16 = and_then (rd_bytes 2) (\<lambda>bs. yields (u16_le bs))"

definition rd_u32 :: "u32 parser" where
  "rd_u32 = and_then (rd_bytes 4) (\<lambda>bs. yields (u32_le bs))"

definition le_i64 :: "int \<Rightarrow> u8 list" where
  "le_i64 i = to_le 8 (nat (i mod 2 ^ 64))"

definition i64_le :: "u8 list \<Rightarrow> int" where
  "i64_le bs = wrap_i64 (int (from_le bs))"

definition rd_i64 :: "int parser" where
  "rd_i64 = and_then (rd_bytes 8) (\<lambda>bs. yields (i64_le bs))"

definition rd_finish :: "unit parser" where
  "rd_finish r =
     (if rd_pos r = length (rd_buf r) then Inr ((), r) else Inl (MalformedFile ''trailing bytes''))"

definition put_u16 :: "u8 list \<Rightarrow> u16 \<Rightarrow> u8 list" where
  "put_u16 out v = out @ le_u16 v"

definition put_u32 :: "u8 list \<Rightarrow> u32 \<Rightarrow> u8 list" where
  "put_u32 out v = out @ le_u32 v"

definition put_i64 :: "u8 list \<Rightarrow> int \<Rightarrow> u8 list" where
  "put_i64 out v = out @ le_i64 v"

text \<open>\<open>u16::try_from(n).expect(..)\<close> and its like: \<open>None\<close> is the panic.\<close>

definition try_u8 :: "nat \<Rightarrow> u8 option" where
  "try_u8 n = (if n < 2 ^ 8 then Some (of_nat n) else None)"

definition try_u16 :: "nat \<Rightarrow> u16 option" where
  "try_u16 n = (if n < 2 ^ 16 then Some (of_nat n) else None)"

definition try_u32 :: "nat \<Rightarrow> u32 option" where
  "try_u32 n = (if n < 2 ^ 32 then Some (of_nat n) else None)"

lemma le_i64_i64 [simp]: "in_i64 i \<Longrightarrow> i64_le (le_i64 i) = i"
proof -
  assume i: "in_i64 i"
  have "nat (i mod 2 ^ 64) < 256 ^ 8" by (simp add: nat_less_iff)
  then have "from_le (le_i64 i) = nat (i mod 2 ^ 64)" by (simp add: le_i64_def from_le_to_le)
  then have "i64_le (le_i64 i) = wrap_i64 (i mod 2 ^ 64)" by (simp add: i64_le_def)
  also have "\<dots> = wrap_i64 i" by (simp add: wrap_i64_def mod_simps)
  finally show ?thesis using i by simp
qed

lemma length_le_i64 [simp]: "length (le_i64 i) = 8"
  by (simp add: le_i64_def)

section \<open>What a parser reads a value from\<close>

definition reads :: "'a parser \<Rightarrow> u8 list \<Rightarrow> 'a \<Rightarrow> bool" where
  "reads p bs x \<longleftrightarrow>
     (\<forall>pre post. p \<lparr>rd_buf = pre @ bs @ post, rd_pos = length pre\<rparr> =
        Inr (x, \<lparr>rd_buf = pre @ bs @ post, rd_pos = length pre + length bs\<rparr>))"

named_theorems reads_intros \<open>parsers and the bytes they read\<close>

lemma reads_at:
  "reads p bs x \<Longrightarrow>
     p \<lparr>rd_buf = pre @ bs @ post, rd_pos = length pre\<rparr> =
       Inr (x, \<lparr>rd_buf = pre @ bs @ post, rd_pos = length pre + length bs\<rparr>)"
  by (simp add: reads_def)

lemma reads_yields [reads_intros]: "reads (yields x) [] x"
  by (simp add: reads_def yields_def)

lemma reads_then:
  assumes "reads p bs x" "reads (k x) cs y"
  shows "reads (and_then p k) (bs @ cs) y"
  unfolding reads_def
proof (intro allI)
  fix pre post
  have "p \<lparr>rd_buf = pre @ bs @ cs @ post, rd_pos = length pre\<rparr> =
      Inr (x, \<lparr>rd_buf = pre @ bs @ cs @ post, rd_pos = length pre + length bs\<rparr>)"
    by (rule reads_at [OF assms(1)])
  moreover have "k x \<lparr>rd_buf = (pre @ bs) @ cs @ post, rd_pos = length (pre @ bs)\<rparr> =
      Inr (y, \<lparr>rd_buf = (pre @ bs) @ cs @ post, rd_pos = length (pre @ bs) + length cs\<rparr>)"
    by (rule reads_at [OF assms(2)])
  ultimately show "and_then p k \<lparr>rd_buf = pre @ (bs @ cs) @ post, rd_pos = length pre\<rparr> =
      Inr (y, \<lparr>rd_buf = pre @ (bs @ cs) @ post, rd_pos = length pre + length (bs @ cs)\<rparr>)"
    by (simp add: and_then_def add.assoc)
qed

text \<open>The last parser of a sequence, which reads nothing more.\<close>

lemma reads_last:
  assumes "reads p bs x" "reads (k x) [] y"
  shows "reads (and_then p k) bs y"
  using reads_then [of p bs x k "[]" y, OF assms] by simp

lemma reads_check [reads_intros]: "\<not> bad \<Longrightarrow> reads p bs x \<Longrightarrow> reads (check bad e p) bs x"
  by (simp add: check_def)

lemma reads_bytes [reads_intros]: "length bs = n \<Longrightarrow> reads (rd_bytes n) bs bs"
  by (simp add: reads_def rd_bytes_def)

lemma reads_u8 [reads_intros]: "reads rd_u8 [b] b"
  unfolding rd_u8_def
  by (rule reads_last [OF reads_bytes]) (simp_all add: reads_yields)

lemma reads_u16 [reads_intros]: "reads rd_u16 (le_u16 w) w"
  unfolding rd_u16_def
  by (rule reads_last [OF reads_bytes]) (simp_all add: reads_yields)

lemma reads_u32 [reads_intros]: "reads rd_u32 (le_u32 w) w"
  unfolding rd_u32_def
  by (rule reads_last [OF reads_bytes]) (simp_all add: reads_yields)

lemma reads_i64 [reads_intros]: "in_i64 i \<Longrightarrow> reads rd_i64 (le_i64 i) i"
  unfolding rd_i64_def
  by (rule reads_last [OF reads_bytes]) (simp_all add: reads_yields)

section \<open>What a parser makes of a file\<close>

definition completes :: "'a parser \<Rightarrow> u8 list \<Rightarrow> 'a \<Rightarrow> bool" where
  "completes p bs x \<longleftrightarrow> (\<forall>pre. \<exists>r. p \<lparr>rd_buf = pre @ bs, rd_pos = length pre\<rparr> = Inr (x, r))"

lemma completes_new: "completes p bs x \<Longrightarrow> map_sum id fst (p (rd_new bs)) = Inr x"
  unfolding completes_def rd_new_def by (metis append_Nil fst_conv list.size(3) map_sum.simps(2))

lemma completes_then:
  assumes "reads p bs x" "completes (k x) cs y"
  shows "completes (and_then p k) (bs @ cs) y"
  unfolding completes_def
proof
  fix pre
  obtain r where "k x \<lparr>rd_buf = (pre @ bs) @ cs, rd_pos = length (pre @ bs)\<rparr> = Inr (y, r)"
    using assms(2) unfolding completes_def by blast
  then show "\<exists>r. and_then p k \<lparr>rd_buf = pre @ bs @ cs, rd_pos = length pre\<rparr> = Inr (y, r)"
    using reads_at [OF assms(1), of pre cs] by (simp add: and_then_def)
qed

lemma completes_yields: "completes (yields x) bs x"
  by (simp add: completes_def yields_def)

lemma completes_check: "\<not> bad \<Longrightarrow> completes p bs x \<Longrightarrow> completes (check bad e p) bs x"
  by (simp add: check_def)

lemma completes_finish: "completes (k ()) [] x \<Longrightarrow> completes (and_then rd_finish k) [] x"
  by (simp add: completes_def and_then_def rd_finish_def)

text \<open>One field after the other.\<close>

lemma completes_fields:
  "completes (k1 b) cs y \<Longrightarrow> completes (and_then rd_u8 k1) ([b] @ cs) y"
  "completes (k2 v) cs y \<Longrightarrow> completes (and_then rd_u16 k2) (le_u16 v @ cs) y"
  "completes (k3 w) cs y \<Longrightarrow> completes (and_then rd_u32 k3) (le_u32 w @ cs) y"
  "in_i64 i \<Longrightarrow> completes (k4 i) cs y \<Longrightarrow> completes (and_then rd_i64 k4) (le_i64 i @ cs) y"
  "length bs = n \<Longrightarrow> completes (k5 bs) cs y \<Longrightarrow> completes (and_then (rd_bytes n) k5) (bs @ cs) y"
  by (rule completes_then, rule reads_u8 reads_u16 reads_u32 reads_i64 reads_bytes, assumption+)+

lemmas completes_intros = completes_fields completes_finish completes_check completes_yields

text \<open>What a successful parse went through.\<close>

lemma and_then_Inr:
  "and_then p k r = Inr (y, r') \<longleftrightarrow> (\<exists>x r1. p r = Inr (x, r1) \<and> k x r1 = Inr (y, r'))"
  by (auto simp: and_then_def split: sum.splits)

lemma check_Inr: "check bad e p r = Inr y \<longleftrightarrow> \<not> bad \<and> p r = Inr y"
  by (simp add: check_def refuse_def)

lemma yields_Inr: "yields x r = Inr (y, r') \<longleftrightarrow> y = x \<and> r' = r"
  by (auto simp: yields_def)

lemma refuse_Inr: "refuse e r = Inr y \<longleftrightarrow> False"
  by (simp add: refuse_def)

lemma repeat_length: "repeat n p r = Inr (xs, r') \<Longrightarrow> length xs = n"
  by (induction n arbitrary: xs r r') (auto simp: yields_Inr and_then_Inr)

lemma rd_bytes_length: "rd_bytes n r = Inr (bs, r') \<Longrightarrow> length bs = n"
  by (auto simp: rd_bytes_def split: if_splits)

lemmas parse_Inr = and_then_Inr check_Inr yields_Inr refuse_Inr

section \<open>Codecs\<close>

locale codec =
  fixes fits :: "'a \<Rightarrow> bool"
    and enc :: "'a \<Rightarrow> u8 list"
    and dec :: "'a parser"
  assumes reads_enc: "fits x \<Longrightarrow> reads dec (enc x) x"
begin

lemma reads_list: "\<forall>x \<in> set xs. fits x \<Longrightarrow> reads (repeat (length xs) dec) (concat (map enc xs)) xs"
proof (induction xs)
  case (Cons x xs)
  have "reads (and_then dec (\<lambda>x. and_then (repeat (length xs) dec) (\<lambda>xs. yields (x # xs))))
      (enc x @ concat (map enc xs)) (x # xs)"
    using Cons by (intro reads_then [where x = x] reads_enc reads_last [where x = xs] reads_yields) simp_all
  then show ?case by simp
qed (simp add: reads_yields)

text \<open>An encoding determines its value.\<close>

lemma enc_inj: "fits x \<Longrightarrow> fits y \<Longrightarrow> enc x = enc y \<Longrightarrow> x = y"
  using reads_at [OF reads_enc [of x], of "[]" "[]"] reads_at [OF reads_enc [of y], of "[]" "[]"] by simp

text \<open>No encoding is a proper prefix of another.\<close>

lemma enc_prefix_free:
  assumes "fits x" "fits y" "enc x @ cs = enc y @ ds"
  shows "x = y \<and> cs = ds"
proof -
  have "x = y"
    using reads_at [OF reads_enc [OF assms(1)], of "[]" cs] reads_at [OF reads_enc [OF assms(2)], of "[]" ds] assms(3)
    by simp
  with assms(3) show ?thesis by simp
qed

end

interpretation u8_codec: codec "\<lambda>_. True" "\<lambda>b. [b]" rd_u8
  by unfold_locales (rule reads_u8)

interpretation u16_codec: codec "\<lambda>_. True" le_u16 rd_u16
  by unfold_locales (rule reads_u16)

interpretation u32_codec: codec "\<lambda>_. True" le_u32 rd_u32
  by unfold_locales (rule reads_u32)

interpretation i64_codec: codec in_i64 le_i64 rd_i64
  by unfold_locales (rule reads_i64)

end
