(* ===== verification/Pm1.thy ===== *)
theory Pm1
  imports Isa_Operands Micro_Semantics Bytes_Io
begin

text \<open>
  The PM-1 instruction set (\<open>post-machine/src/arch/mod.rs\<close>): opcodes, operand kinds and the
  lowering to micro-ops, as an \<open>arch\<close>. The reference semantics \<open>pm_exec\<close> says what each
  instruction of \<open>docs/pmt/isa.md\<close> does to a machine; the lowering is proved to do that.
\<close>

section \<open>Opcodes\<close>

definition PM_NOP :: u8 where "PM_NOP = 0x01"
definition PM_STP :: u8 where "PM_STP = 0x02"
definition PM_HLT :: u8 where "PM_HLT = 0x03"
definition PM_LFT :: u8 where "PM_LFT = 0x04"
definition PM_RGT :: u8 where "PM_RGT = 0x05"
definition PM_WR :: u8 where "PM_WR = 0x06"
definition PM_WRL :: u8 where "PM_WRL = 0x07"
definition PM_WRR :: u8 where "PM_WRR = 0x0F"
definition PM_JMP :: u8 where "PM_JMP = 0x08"
definition PM_JM :: u8 where "PM_JM = 0x09"
definition PM_JNM :: u8 where "PM_JNM = 0x0A"
definition PM_CALL :: u8 where "PM_CALL = 0x0B"
definition PM_RET :: u8 where "PM_RET = 0x0C"
definition PM_ENT :: u8 where "PM_ENT = 0x0D"
definition PM_BRK :: u8 where "PM_BRK = 0x0E"
definition PM_JMP_S :: u8 where "PM_JMP_S = 0x18"
definition PM_JM_S :: u8 where "PM_JM_S = 0x19"
definition PM_JNM_S :: u8 where "PM_JNM_S = 0x1A"
definition PM_CALL_S :: u8 where "PM_CALL_S = 0x1B"

lemmas pm_opcodes =
  PM_NOP_def PM_STP_def PM_HLT_def PM_LFT_def PM_RGT_def PM_WR_def PM_WRL_def PM_WRR_def
  PM_JMP_def PM_JM_def PM_JNM_def PM_CALL_def PM_RET_def PM_ENT_def PM_BRK_def
  PM_JMP_S_def PM_JM_S_def PM_JNM_S_def PM_CALL_S_def

definition MARK :: u32 where "MARK = 1"

section \<open>The table\<close>

definition pm_operand_kind :: "u8 \<Rightarrow> operand_kind option" where
  "pm_operand_kind opcode =
     (if opcode \<in> {PM_NOP, PM_STP, PM_HLT, PM_LFT, PM_RGT, PM_RET, PM_ENT, PM_BRK} then Some KNone
      else if opcode \<in> {PM_WR, PM_WRL, PM_WRR} then Some KSymbolVec
      else if opcode \<in> {PM_JMP, PM_JM, PM_JNM, PM_CALL} then Some KRelI32
      else if opcode \<in> {PM_JMP_S, PM_JM_S, PM_JNM_S, PM_CALL_S} then Some KRelI8
      else None)"

text \<open>\<open>Operand::Symbols(s) if s.len() == 1\<close>.\<close>

fun one_symbol :: "operand \<Rightarrow> trap + u32" where
  "one_symbol (OSymbols [s]) = Inr s"
| "one_symbol _ = bad_operand"

definition pm_lower :: "u8 \<Rightarrow> operand \<Rightarrow> trap + micro_op list" where
  "pm_lower opcode oper =
     (if opcode \<in> {PM_NOP, PM_ENT} then Inr [MNop]
      else if opcode = PM_STP then Inr [MStop]
      else if opcode = PM_HLT then Inr [MHalt]
      else if opcode = PM_BRK then Inr [MBrk]
      else if opcode = PM_LFT then Inr [MoveLeft 0, LatchMatch MARK]
      else if opcode = PM_RGT then Inr [MoveRight 0, LatchMatch MARK]
      else if opcode = PM_WR then
        map_sum id (\<lambda>s. [MWrite 0 s, LatchMatch MARK]) (one_symbol oper)
      else if opcode = PM_WRL then
        map_sum id (\<lambda>s. [MWrite 0 s, MoveLeft 0, LatchMatch MARK]) (one_symbol oper)
      else if opcode = PM_WRR then
        map_sum id (\<lambda>s. [MWrite 0 s, MoveRight 0, LatchMatch MARK]) (one_symbol oper)
      else if opcode = PM_JMP then single JumpRel (off32 oper)
      else if opcode = PM_JMP_S then single JumpRel (off8 oper)
      else if opcode = PM_JM then single (\<lambda>v. JumpRelIf v True) (off32 oper)
      else if opcode = PM_JM_S then single (\<lambda>v. JumpRelIf v True) (off8 oper)
      else if opcode = PM_JNM then single (\<lambda>v. JumpRelIf v False) (off32 oper)
      else if opcode = PM_JNM_S then single (\<lambda>v. JumpRelIf v False) (off8 oper)
      else if opcode = PM_CALL then single MCall (off32 oper)
      else if opcode = PM_CALL_S then single MCall (off8 oper)
      else if opcode = PM_RET then Inr [MRet]
      else Inl (InvalidOpcode opcode 0))"

definition pm_is_entry_marker :: "u8 \<Rightarrow> bool" where
  "pm_is_entry_marker b \<longleftrightarrow> b = PM_ENT"

definition pm1 :: arch where
  "pm1 = \<lparr>arch_id = ARCH_PM1, operand_kind = pm_operand_kind, lower = pm_lower,
          is_entry_marker = pm_is_entry_marker\<rparr>"

lemma pm1_simps [simp]:
  "arch_id pm1 = ARCH_PM1" "operand_kind pm1 = pm_operand_kind" "lower pm1 = pm_lower"
  "is_entry_marker pm1 = pm_is_entry_marker"
  by (simp_all add: pm1_def)

section \<open>The instruction set as the manual has it\<close>

datatype pm_instr =
    PNop | PStp | PHlt | PLft | PRgt | PWr u32 | PWrl u32 | PWrr u32
  | PJmp i32 | PJm i32 | PJnm i32 | PCall i32 | PRet | PEnt | PBrk

text \<open>Every tape instruction latches whether the head is on a mark.\<close>

definition latched_mark :: "mach \<Rightarrow> flow" where
  "latched_mark m = on_tape m 0 (\<lambda>t. Next (m\<lparr>m_mr := (if symbol_at t = MARK then 1 else 0)\<rparr>))"

fun bind_flow :: "flow \<Rightarrow> (mach \<Rightarrow> flow) \<Rightarrow> flow" where
  "bind_flow (Next m) k = k m"
| "bind_flow (Ends oc m) k = Ends oc m"

definition write_cell :: "u32 \<Rightarrow> mach \<Rightarrow> flow" where
  "write_cell s m =
     on_tape m 0 (\<lambda>t. case tape_write t s of
       Some (Inr t') \<Rightarrow> Next (set_tape m 0 t')
     | Some (Inl f) \<Rightarrow> crash (DeviceTrap f) m
     | None \<Rightarrow> Next m)"

definition move_head :: "(tape_dev \<Rightarrow> tape_dev) \<Rightarrow> mach \<Rightarrow> flow" where
  "move_head step m = on_tape m 0 (\<lambda>t. Next (set_tape m 0 (step t)))"

definition wr_cell :: "u32 \<Rightarrow> mach \<Rightarrow> flow" where
  "wr_cell s m = bind_flow (write_cell s m) latched_mark"

definition step_head :: "(tape_dev \<Rightarrow> tape_dev) \<Rightarrow> mach \<Rightarrow> flow" where
  "step_head step m = bind_flow (move_head step m) latched_mark"

fun pm_exec :: "env \<Rightarrow> u32 \<Rightarrow> pm_instr \<Rightarrow> mach \<Rightarrow> flow" where
  "pm_exec e at PNop m = Next m"
| "pm_exec e at PEnt m = Next m"
| "pm_exec e at PBrk m = Next (m\<lparr>m_brk := True\<rparr>)"
| "pm_exec e at PStp m = Ends Stopped m"
| "pm_exec e at PHlt m = Ends Halted m"
| "pm_exec e at PLft m = step_head tape_left m"
| "pm_exec e at PRgt m = step_head tape_right m"
| "pm_exec e at (PWr s) m = wr_cell s m"
| "pm_exec e at (PWrl s) m = bind_flow (wr_cell s m) (step_head tape_left)"
| "pm_exec e at (PWrr s) m = bind_flow (wr_cell s m) (step_head tape_right)"
| "pm_exec e at (PJmp off) m = m_jump at off (\<lambda>t. Next (m\<lparr>m_ip := t\<rparr>)) m"
| "pm_exec e at (PJm off) m =
     (if m_mr m \<noteq> 0 then m_jump at off (\<lambda>t. Next (m\<lparr>m_ip := t\<rparr>)) m else Next m)"
| "pm_exec e at (PJnm off) m =
     (if m_mr m = 0 then m_jump at off (\<lambda>t. Next (m\<lparr>m_ip := t\<rparr>)) m else Next m)"
| "pm_exec e at (PCall off) m = m_jump at off (\<lambda>t. m_call e t m) m"
| "pm_exec e at PRet m = m_ret m"

text \<open>The opcode table of the manual, the short forms included.\<close>

definition pm_decode :: "u8 \<Rightarrow> operand \<Rightarrow> pm_instr option" where
  "pm_decode opcode oper =
     (case oper of
        OSymbols [s] \<Rightarrow> map_of [(0x06, PWr s), (0x07, PWrl s), (0x0F, PWrr s)] opcode
      | OI32 v \<Rightarrow> map_of [(0x08, PJmp v), (0x09, PJm v), (0x0A, PJnm v), (0x0B, PCall v)] opcode
      | OI8 v \<Rightarrow> map_of [(0x18, PJmp (scast v)), (0x19, PJm (scast v)), (0x1A, PJnm (scast v)),
                       (0x1B, PCall (scast v))] opcode
      | ONone \<Rightarrow> map_of [(0x01, PNop), (0x02, PStp), (0x03, PHlt), (0x04, PLft), (0x05, PRgt),
                       (0x0C, PRet), (0x0D, PEnt), (0x0E, PBrk)] opcode
      | _ \<Rightarrow> None)"

section \<open>The lowering\<close>

lemma bind_on_tape:
  "bind_flow (on_tape m d k) f = on_tape m d (\<lambda>t. bind_flow (k t) f)"
  by (simp add: on_tape_def crash_def split: option.split)

lemma on_tape_set_tape: "nth_opt (m_devs m) (unat d) \<noteq> None \<Longrightarrow>
  on_tape (set_tape m d t) d k = k t"
  by (auto simp: on_tape_def set_tape_def split: option.split)

text \<open>The latch between the two halves of a fused instruction is overwritten.\<close>

lemma latch_then_step:
  "bind_flow (latched_mark m) (step_head step) = step_head step m"
  by (simp add: latched_mark_def step_head_def move_head_def on_tape_def set_tape_def crash_def
      split: option.split)

lemma bind_assoc: "bind_flow (bind_flow f g) h = bind_flow f (\<lambda>m. bind_flow (g m) h)"
  by (cases f) simp_all

lemma wr_then_step: "bind_flow (wr_cell s m) (step_head step) = bind_flow (write_cell s m) (step_head step)"
  by (simp add: wr_cell_def bind_assoc latch_then_step)

lemma micros_bind:
  "micros e n at (x # xs) m = bind_flow (micro e n at x m) (micros e n at xs)"
  by (cases "micro e n at x m") simp_all

lemma micros_last: "micros e n at [x] m = micro e n at x m"
  by (simp split: flow.split)

lemma micro_write: "micro e n at (MWrite 0 s) m = write_cell s m"
  by (simp add: write_cell_def)

lemma micro_move:
  "micro e n at (MoveLeft 0) m = move_head tape_left m"
  "micro e n at (MoveRight 0) m = move_head tape_right m"
  by (simp_all add: move_head_def)

lemma micro_latch: "micro e n at (LatchMatch MARK) m = latched_mark m"
  by (simp add: latched_mark_def)

lemma pm_micros:
  "micros e n at [MoveLeft 0, LatchMatch MARK] m = step_head tape_left m"
  "micros e n at [MoveRight 0, LatchMatch MARK] m = step_head tape_right m"
  "micros e n at [MWrite 0 s, LatchMatch MARK] m = wr_cell s m"
  "micros e n at [MWrite 0 s, MoveLeft 0, LatchMatch MARK] m = bind_flow (wr_cell s m) (step_head tape_left)"
  "micros e n at [MWrite 0 s, MoveRight 0, LatchMatch MARK] m = bind_flow (wr_cell s m) (step_head tape_right)"
  unfolding micros_bind [of _ _ _ _ "_ # _"] micros_last micro_write micro_move micro_latch
    wr_then_step
  by (simp_all only: step_head_def [abs_def] wr_cell_def)

lemma pm_decode_lower:
  assumes "pm_decode opc oper = Some i"
  shows "\<exists>ops. pm_lower opc oper = Inr ops \<and> (\<forall>e n at m. micros e n at ops m = pm_exec e at i m)"
proof -
  note simps = pm_lower_def pm_opcodes micros_last pm_micros
  show ?thesis
  proof (cases oper)
    case (OSymbols ss)
    then obtain s where "ss = [s]" using assms by (auto simp: pm_decode_def split: list.splits)
    with assms OSymbols show ?thesis unfolding pm_decode_def
      by (auto dest!: map_of_SomeD simp: simps simp del: micros.simps micro.simps map_of.simps)
  next
    case (OI32 v)
    with assms show ?thesis unfolding pm_decode_def
      by (auto dest!: map_of_SomeD simp: simps simp del: micros.simps map_of.simps)
  next
    case (OI8 v)
    with assms show ?thesis unfolding pm_decode_def
      by (auto dest!: map_of_SomeD simp: simps simp del: micros.simps map_of.simps)
  next
    case ONone
    then have "map_of [(0x01, PNop), (0x02, PStp), (0x03, PHlt), (0x04, PLft), (0x05, PRgt),
        (0x0C, PRet), (0x0D, PEnt), (0x0E, PBrk)] opc = Some i"
      using assms by (simp add: pm_decode_def)
    from map_of_SomeD [OF this] consider "opc = 0x01" "i = PNop" | "opc = 0x02" "i = PStp"
      | "opc = 0x03" "i = PHlt" | "opc = 0x04" "i = PLft" | "opc = 0x05" "i = PRgt"
      | "opc = 0x0C" "i = PRet" | "opc = 0x0D" "i = PEnt" | "opc = 0x0E" "i = PBrk"
      by auto
    then show ?thesis by cases (simp_all add: simps del: micros.simps)
  qed (use assms in \<open>simp_all add: pm_decode_def\<close>)
qed

text \<open>What PM-1 refuses: a vector that is not one symbol.\<close>

lemma pm_refused:
  assumes "pm_operand_kind opc = Some kind" "fetched_as kind oper" "pm_decode opc oper = None"
  shows "pm_lower opc oper = Inl (BadOperand 0) \<and> kind = KSymbolVec \<and>
    (\<exists>ss. oper = OSymbols ss \<and> length ss \<noteq> 1)"
proof -
  consider "kind = KNone" "opc \<in> {0x01, 0x02, 0x03, 0x04, 0x05, 0x0C, 0x0D, 0x0E}"
    | "kind = KSymbolVec" "opc \<in> {0x06, 0x07, 0x0F}"
    | "kind = KRelI32" "opc \<in> {0x08, 0x09, 0x0A, 0x0B}"
    | "kind = KRelI8" "opc \<in> {0x18, 0x19, 0x1A, 0x1B}"
    using assms(1) unfolding pm_operand_kind_def pm_opcodes by (auto split: if_split_asm)
  then show ?thesis
  proof cases
    case 2
    then obtain ss where ss: "oper = OSymbols ss" using assms(2) by (auto simp: fetched_as_def)
    have "length ss \<noteq> 1"
    proof
      assume "length ss = 1"
      then obtain s where "ss = [s]" by (cases ss) auto
      with 2 assms(3) ss show False by (auto simp: pm_decode_def)
    qed
    moreover have "one_symbol oper = Inl (BadOperand 0)"
      using ss calculation by (cases "(oper)" rule: one_symbol.cases) (auto simp: bad_operand_def)
    ultimately show ?thesis using 2 ss by (auto simp: pm_lower_def pm_opcodes)
  qed (use assms(2,3) in \<open>auto simp: fetched_as_def pm_decode_def\<close>)
qed

section \<open>The properties of the table\<close>

text \<open>
  C10: every PM-1 instruction lowers to what the manual says it does. An opcode with an operand of
  its kind lowers to micro-ops whose effect is that of the decoded instruction: every tape
  instruction ends with the match flag telling whether the head is on a mark, the fused
  write-and-move instructions are the write followed by the move. The only operand refused is a
  symbol vector that is not one symbol.
\<close>

theorem pm_lowering:
  assumes "operand_kind pm1 opc = Some kind" and "fetched_as kind oper"
  shows "case pm_decode opc oper of
      Some i \<Rightarrow> \<exists>ops. lower pm1 opc oper = Inr ops \<and> (\<forall>e n at m. micros e n at ops m = pm_exec e at i m)
    | None \<Rightarrow> lower pm1 opc oper = Inl (BadOperand 0) \<and> (\<exists>ss. oper = OSymbols ss \<and> length ss \<noteq> 1)"
proof (cases "pm_decode opc oper")
  case None
  with assms pm_refused [of opc kind oper] show ?thesis by auto
next
  case (Some i)
  with pm_decode_lower [OF this] show ?thesis by auto
qed

theorem pm_lowering_witness:
  "\<exists>ops. lower pm1 0x07 (OSymbols [1]) = Inr ops \<and> (\<forall>e n at m. micros e n at ops m = pm_exec e at (PWrl 1) m)"
  using pm_lowering [of "0x07" KSymbolVec "OSymbols [1]"]
  by (simp add: pm_operand_kind_def pm_opcodes fetched_as_def pm_decode_def)

text \<open>
  The fused instructions are equivalent to the pairs they stand for. On every machine \<open>wrl s\<close>
  does what \<open>wr s\<close> followed by \<open>lft\<close> does, and \<open>wrr s\<close> what \<open>wr s\<close> followed by \<open>rgt\<close> does,
  faults and the match flag included.
\<close>

theorem pm_fused:
  "\<exists>wr wrl wrr lft rgt.
     lower pm1 PM_WR (OSymbols [s]) = Inr wr \<and> lower pm1 PM_WRL (OSymbols [s]) = Inr wrl
     \<and> lower pm1 PM_WRR (OSymbols [s]) = Inr wrr \<and> lower pm1 PM_LFT ONone = Inr lft
     \<and> lower pm1 PM_RGT ONone = Inr rgt
     \<and> micros e n at wrl m = micros e n at (wr @ lft) m
     \<and> micros e n at wrr m = micros e n at (wr @ rgt) m"
proof -
  have seq: "micros e n at (xs @ ys) m = bind_flow (micros e n at xs m) (micros e n at ys)" for xs ys
    by (cases "micros e n at xs m") (simp_all add: micros_append)
  have "lower pm1 PM_WR (OSymbols [s]) = Inr [MWrite 0 s, LatchMatch MARK]"
    "lower pm1 PM_WRL (OSymbols [s]) = Inr [MWrite 0 s, MoveLeft 0, LatchMatch MARK]"
    "lower pm1 PM_WRR (OSymbols [s]) = Inr [MWrite 0 s, MoveRight 0, LatchMatch MARK]"
    "lower pm1 PM_LFT ONone = Inr [MoveLeft 0, LatchMatch MARK]"
    "lower pm1 PM_RGT ONone = Inr [MoveRight 0, LatchMatch MARK]"
    by (simp_all add: pm_lower_def pm_opcodes)
  moreover have "micros e n at [MoveLeft 0, LatchMatch MARK] = step_head tape_left"
    "micros e n at [MoveRight 0, LatchMatch MARK] = step_head tape_right"
    by (rule ext, simp only: pm_micros)+
  ultimately show ?thesis by (simp only: seq pm_micros sum.inject ex_simps simp_thms)
qed

end
