(* ===== verification/Tm1.thy ===== *)
theory Tm1
  imports Isa_Operands Micro_Semantics Bytes_Io
begin

text \<open>
  The TM-1 instruction set (\<open>turing-machine/src/arch/mod.rs\<close>): opcodes, operand kinds and the
  lowering to micro-ops, as an \<open>arch\<close>. The vector instructions are proved against a reference
  that updates a whole row of tapes at once, and the read-match-dispatch sequence that compiles a
  transition against the table it was compiled from.
\<close>

section \<open>Opcodes\<close>

definition TM_NOP :: u8 where "TM_NOP = 0x01"
definition TM_STP :: u8 where "TM_STP = 0x02"
definition TM_HLT :: u8 where "TM_HLT = 0x03"
definition TM_RD :: u8 where "TM_RD = 0x04"
definition TM_MTC :: u8 where "TM_MTC = 0x05"
definition TM_DJMP :: u8 where "TM_DJMP = 0x06"
definition TM_WR :: u8 where "TM_WR = 0x07"
definition TM_JMP :: u8 where "TM_JMP = 0x08"
definition TM_JM :: u8 where "TM_JM = 0x09"
definition TM_JNM :: u8 where "TM_JNM = 0x0A"
definition TM_CALL :: u8 where "TM_CALL = 0x0B"
definition TM_RET :: u8 where "TM_RET = 0x0C"
definition TM_ENT :: u8 where "TM_ENT = 0x0D"
definition TM_BRK :: u8 where "TM_BRK = 0x0E"
definition TM_MOV :: u8 where "TM_MOV = 0x0F"
definition TM_WRMV :: u8 where "TM_WRMV = 0x12"
definition TM_TRAP :: u8 where "TM_TRAP = 0x11"
definition TM_CALL_M :: u8 where "TM_CALL_M = 0x13"
definition TM_RETX :: u8 where "TM_RETX = 0x14"
definition TM_CALL_S :: u8 where "TM_CALL_S = 0x1B"

lemmas tm_opcodes =
  TM_NOP_def TM_STP_def TM_HLT_def TM_RD_def TM_MTC_def TM_DJMP_def TM_WR_def TM_JMP_def
  TM_JM_def TM_JNM_def TM_CALL_def TM_RET_def TM_ENT_def TM_BRK_def TM_MOV_def TM_WRMV_def
  TM_TRAP_def TM_CALL_M_def TM_RETX_def TM_CALL_S_def

definition KEEP :: u32 where "KEEP = 0x7F"
definition STAY :: u32 where "STAY = 0"
definition LEFT :: u32 where "LEFT = 1"
definition RIGHT :: u32 where "RIGHT = 2"

section \<open>The table\<close>

definition tm_operand_kind :: "u8 \<Rightarrow> operand_kind option" where
  "tm_operand_kind opcode =
     (if opcode \<in> {TM_NOP, TM_STP, TM_HLT, TM_RD, TM_RET, TM_ENT, TM_BRK} then Some KNone
      else if opcode \<in> {TM_MTC, TM_DJMP} then Some KTableRef
      else if opcode = TM_WR then Some KSymbolVec
      else if opcode = TM_MOV then Some KMoveVec
      else if opcode = TM_WRMV then Some KWriteMoveVec
      else if opcode \<in> {TM_TRAP, TM_RETX} then Some KImm8
      else if opcode = TM_CALL_M then Some KFramedCall
      else if opcode \<in> {TM_JMP, TM_JM, TM_JNM, TM_CALL} then Some KRelI32
      else if opcode = TM_CALL_S then Some KRelI8
      else None)"

text \<open>The two loops over \<open>(0u8..).zip(..)\<close>, and the width check before them.\<close>

fun write_ops :: "u8 \<Rightarrow> u32 list \<Rightarrow> trap + micro_op list" where
  "write_ops dev [] = Inr []"
| "write_ops dev (v # vs) =
     (if v = KEEP then write_ops (dev + 1) vs
      else if v > KEEP then bad_operand
      else map_sum id ((#) (MWrite dev v)) (write_ops (dev + 1) vs))"

fun move_ops :: "u8 \<Rightarrow> u32 list \<Rightarrow> trap + micro_op list" where
  "move_ops dev [] = Inr []"
| "move_ops dev (m # ms) =
     (if m = STAY then move_ops (dev + 1) ms
      else if m = LEFT then map_sum id ((#) (MoveLeft dev)) (move_ops (dev + 1) ms)
      else if m = RIGHT then map_sum id ((#) (MoveRight dev)) (move_ops (dev + 1) ms)
      else bad_operand)"

definition width_ok :: "u32 list \<Rightarrow> bool" where
  "width_ok vs \<longleftrightarrow> 1 \<le> length vs \<and> length vs \<le> 16"

definition lower_wr :: "operand \<Rightarrow> trap + micro_op list" where
  "lower_wr oper =
     (case oper of
        OSymbols s \<Rightarrow> if width_ok s then write_ops 0 s else bad_operand
      | _ \<Rightarrow> bad_operand)"

definition lower_mov :: "operand \<Rightarrow> trap + micro_op list" where
  "lower_mov oper =
     (case oper of
        OSymbols s \<Rightarrow> if width_ok s then move_ops 0 s else bad_operand
      | _ \<Rightarrow> bad_operand)"

definition lower_wrmv :: "operand \<Rightarrow> trap + micro_op list" where
  "lower_wrmv oper =
     (case oper of
        OWriteMove ws ms \<Rightarrow>
          if length ws \<noteq> length ms \<or> \<not> width_ok ws then bad_operand
          else (case write_ops 0 ws of
                  Inl t \<Rightarrow> Inl t
                | Inr xs \<Rightarrow> map_sum id ((@) xs) (move_ops 0 ms))
      | _ \<Rightarrow> bad_operand)"

definition lower_trap :: "operand \<Rightarrow> trap + micro_op list" where
  "lower_trap oper =
     (case imm_of oper of
        Inl t \<Rightarrow> Inl t
      | Inr k \<Rightarrow>
          if k = 0 then Inr [Raise RaisedUnmappedRead]
          else if k = 1 then Inr [Raise RaisedUnmappedWrite]
          else bad_operand)"

definition lower_call_m :: "operand \<Rightarrow> trap + micro_op list" where
  "lower_call_m oper =
     (case oper of OFramedCall rel table \<Rightarrow> Inr [CallFrame rel table] | _ \<Rightarrow> bad_operand)"

definition tm_lower :: "u8 \<Rightarrow> operand \<Rightarrow> trap + micro_op list" where
  "tm_lower opcode oper =
     (if opcode \<in> {TM_NOP, TM_ENT} then Inr [MNop]
      else if opcode = TM_STP then Inr [MStop]
      else if opcode = TM_HLT then Inr [MHalt]
      else if opcode = TM_BRK then Inr [MBrk]
      else if opcode = TM_RET then Inr [MRet]
      else if opcode = TM_RD then Inr [ReadAll]
      else if opcode = TM_MTC then single MatchTable (table_of oper)
      else if opcode = TM_DJMP then single DispatchJump (table_of oper)
      else if opcode = TM_WR then lower_wr oper
      else if opcode = TM_MOV then lower_mov oper
      else if opcode = TM_WRMV then lower_wrmv oper
      else if opcode = TM_TRAP then lower_trap oper
      else if opcode = TM_CALL_M then lower_call_m oper
      else if opcode = TM_RETX then single RetX (imm_of oper)
      else if opcode = TM_JMP then single JumpRel (off32 oper)
      else if opcode = TM_JM then single (\<lambda>v. JumpRelIf v True) (off32 oper)
      else if opcode = TM_JNM then single (\<lambda>v. JumpRelIf v False) (off32 oper)
      else if opcode = TM_CALL then single MCall (off32 oper)
      else if opcode = TM_CALL_S then single MCall (off8 oper)
      else Inl (InvalidOpcode opcode 0))"

definition tm_is_entry_marker :: "u8 \<Rightarrow> bool" where
  "tm_is_entry_marker b \<longleftrightarrow> b = TM_ENT"

definition tm1 :: arch where
  "tm1 = \<lparr>arch_id = ARCH_TM1, operand_kind = tm_operand_kind, lower = tm_lower,
          is_entry_marker = tm_is_entry_marker\<rparr>"

text \<open>\<open>Tm1::new\<close> asserts the tape count; the table itself does not depend on it.\<close>

definition tm1_new :: "u8 \<Rightarrow> arch option" where
  "tm1_new tape_count = (if 1 \<le> tape_count \<and> tape_count \<le> 16 then Some tm1 else None)"

lemma tm1_simps [simp]:
  "arch_id tm1 = ARCH_TM1" "operand_kind tm1 = tm_operand_kind" "lower tm1 = tm_lower"
  "is_entry_marker tm1 = tm_is_entry_marker"
  by (simp_all add: tm1_def)

section \<open>Rows of tapes\<close>

text \<open>
  The reference of the vector instructions, on the tapes from device \<open>k\<close> on: the fault that
  ends the row, if any, and the tapes it leaves.
\<close>

fun put_row :: "u8 \<Rightarrow> u32 list \<Rightarrow> tape_dev list \<Rightarrow> device_fault option \<times> tape_dev list" where
  "put_row k [] ts = (None, ts)"
| "put_row k (v # vs) [] = (if v = KEEP then put_row (k + 1) vs [] else (Some (NoSuchDevice k), []))"
| "put_row k (v # vs) (t # ts) =
     (if v = KEEP then apsnd ((#) t) (put_row (k + 1) vs ts)
      else case tape_write t v of
             Some (Inl f) \<Rightarrow> (Some f, t # ts)
           | Some (Inr t') \<Rightarrow> apsnd ((#) t') (put_row (k + 1) vs ts)
           | None \<Rightarrow> apsnd ((#) t) (put_row (k + 1) vs ts))"

definition shifted :: "u32 \<Rightarrow> tape_dev \<Rightarrow> tape_dev" where
  "shifted m t = (if m = LEFT then tape_left t else if m = RIGHT then tape_right t else t)"

fun shift_row :: "u8 \<Rightarrow> u32 list \<Rightarrow> tape_dev list \<Rightarrow> device_fault option \<times> tape_dev list" where
  "shift_row k [] ts = (None, ts)"
| "shift_row k (m # ms) [] = (if m = STAY then shift_row (k + 1) ms [] else (Some (NoSuchDevice k), []))"
| "shift_row k (m # ms) (t # ts) = apsnd ((#) (shifted m t)) (shift_row (k + 1) ms ts)"

definition with_tapes :: "mach \<Rightarrow> device_fault option \<times> tape_dev list \<Rightarrow> flow" where
  "with_tapes m r =
     (case r of
        (None, ts) \<Rightarrow> Next (m\<lparr>m_devs := ts\<rparr>)
      | (Some f, ts) \<Rightarrow> crash (DeviceTrap f) (m\<lparr>m_devs := ts\<rparr>))"

section \<open>The vector instructions\<close>

definition splits_at :: "u8 \<Rightarrow> tape_dev list \<Rightarrow> tape_dev list \<Rightarrow> bool" where
  "splits_at k pre ts \<longleftrightarrow> length pre = unat k \<or> (ts = [] \<and> length pre \<le> unat k)"

lemma u8_succ: "unat (k :: u8) + Suc n < 256 \<Longrightarrow> unat (k + 1) = Suc (unat k)"
  by (simp add: unat_word_ariths)

lemma splits_next:
  assumes "splits_at k pre (t # ts)" "unat k + Suc n < 256"
  shows "splits_at (k + 1) (pre @ [t']) ts"
  using assms u8_succ by (auto simp: splits_at_def)

lemma splits_past:
  assumes "splits_at k pre []" "unat k + Suc n < 256"
  shows "splits_at (k + 1) pre []"
  using assms u8_succ [of k n] by (auto simp: splits_at_def)

lemma at_split:
  "length pre = i \<Longrightarrow> (pre @ t # ts) ! i = t" "length pre = i \<Longrightarrow> (pre @ t # ts)[i := t'] = pre @ t' # ts"
  by auto

lemma on_tape_here:
  "splits_at k pre (t # ts) \<Longrightarrow> on_tape (m\<lparr>m_devs := pre @ t # ts\<rparr>) k f = f t"
  by (auto simp: splits_at_def on_tape_def at_split split: option.split)

lemma on_tape_past:
  "splits_at k pre [] \<Longrightarrow> on_tape (m\<lparr>m_devs := pre\<rparr>) k f = crash (DeviceTrap (NoSuchDevice k)) (m\<lparr>m_devs := pre\<rparr>)"
  by (auto simp: splits_at_def on_tape_def split: option.split)

lemma set_tape_here:
  "splits_at k pre (t # ts) \<Longrightarrow>
     set_tape (m\<lparr>m_devs := pre @ t # ts\<rparr>) k t' = m\<lparr>m_devs := (pre @ [t']) @ ts\<rparr>"
  by (auto simp: splits_at_def set_tape_def at_split)

lemma with_tapes_cons:
  "apsnd ((@) pre) (apsnd ((#) t) r) = apsnd (\<lambda>ts. pre @ t # ts) r"
  "apsnd ((@) (pre @ [t])) r = apsnd (\<lambda>ts. pre @ t # ts) r"
  by (cases r; simp)+

lemma write_row:
  assumes "write_ops k vs = Inr ops" "splits_at k pre ts" "unat k + length vs < 256"
  shows "micros e n at ops (m\<lparr>m_devs := pre @ ts\<rparr>) = with_tapes m (apsnd ((@) pre) (put_row k vs ts))"
  using assms
proof (induction vs arbitrary: k pre ts ops)
  case Nil
  then show ?case by (simp add: with_tapes_def)
next
  case (Cons v vs)
  have fit: "unat (k + 1) + length vs < 256" and k: "unat k + Suc (length vs) < 256"
    using Cons.prems(3) u8_succ [of k "length vs"] by simp_all
  show ?case
  proof (cases "v = KEEP")
    case True
    then have ops: "write_ops (k + 1) vs = Inr ops" using Cons.prems(1) by simp
    show ?thesis
    proof (cases ts)
      case Nil
      then show ?thesis using Cons.IH [OF ops splits_past fit, of pre] Cons.prems(2) k True by simp
    next
      case (Cons t ts')
      then show ?thesis
        using Cons.IH [OF ops splits_next fit, of pre t ts' _ t] Cons.prems(2) k True
        by (simp add: with_tapes_cons)
    qed
  next
    case False
    then obtain xs where xs: "write_ops (k + 1) vs = Inr xs" "ops = MWrite k v # xs"
      using Cons.prems(1) by (auto simp: bad_operand_def split: if_splits)
    show ?thesis
    proof (cases ts)
      case Nil
      then show ?thesis using Cons.prems(2) False xs
        by (simp add: on_tape_past crash_def with_tapes_def)
    next
      case (Cons t ts')
      note here = Cons.prems(2) [unfolded Cons]
      note rest = Cons.IH [OF xs(1) splits_next [OF here k] fit]
      show ?thesis
      proof (cases "tape_write t v")
        case None
        then show ?thesis using rest [of t] xs(2) False Cons
          by (simp add: on_tape_here [OF here] with_tapes_cons)
      next
        case (Some r)
        then show ?thesis using rest xs(2) False Cons
          by (cases r) (simp_all add: on_tape_here [OF here] set_tape_here [OF here] with_tapes_cons,
              simp add: crash_def with_tapes_def)
      qed
    qed
  qed
qed

lemma move_row:
  assumes "move_ops k ms = Inr ops" "splits_at k pre ts" "unat k + length ms < 256"
  shows "micros e n at ops (m\<lparr>m_devs := pre @ ts\<rparr>) = with_tapes m (apsnd ((@) pre) (shift_row k ms ts))"
  using assms
proof (induction ms arbitrary: k pre ts ops)
  case Nil
  then show ?case by (simp add: with_tapes_def)
next
  case (Cons v ms)
  have fit: "unat (k + 1) + length ms < 256" and k: "unat k + Suc (length ms) < 256"
    using Cons.prems(3) u8_succ [of k "length ms"] by simp_all
  consider "v = STAY" | "v = LEFT" | "v = RIGHT" using Cons.prems(1)
    by (auto simp: bad_operand_def split: if_splits)
  then show ?case
  proof cases
    case 1
    then have ops: "move_ops (k + 1) ms = Inr ops" using Cons.prems(1) by simp
    show ?thesis
    proof (cases ts)
      case Nil
      then show ?thesis using Cons.IH [OF ops splits_past fit, of pre] Cons.prems(2) k 1 by simp
    next
      case (Cons t ts')
      then show ?thesis
        using Cons.IH [OF ops splits_next fit, of pre t ts' _ t] Cons.prems(2) k 1
        by (simp add: with_tapes_cons shifted_def STAY_def LEFT_def RIGHT_def)
    qed
  next
    case 2
    then obtain xs where xs: "move_ops (k + 1) ms = Inr xs" "ops = MoveLeft k # xs"
      using Cons.prems(1) by (auto simp: STAY_def LEFT_def)
    show ?thesis
    proof (cases ts)
      case Nil
      then show ?thesis using Cons.prems(2) 2 xs
        by (simp add: on_tape_past crash_def with_tapes_def STAY_def LEFT_def)
    next
      case (Cons t ts')
      note here = Cons.prems(2) [unfolded Cons]
      show ?thesis using Cons.IH [OF xs(1) splits_next [OF here k] fit] xs(2) 2 Cons
        by (simp add: on_tape_here [OF here] set_tape_here [OF here] with_tapes_cons shifted_def)
    qed
  next
    case 3
    then obtain xs where xs: "move_ops (k + 1) ms = Inr xs" "ops = MoveRight k # xs"
      using Cons.prems(1) by (auto simp: STAY_def LEFT_def RIGHT_def)
    show ?thesis
    proof (cases ts)
      case Nil
      then show ?thesis using Cons.prems(2) 3 xs
        by (simp add: on_tape_past crash_def with_tapes_def STAY_def RIGHT_def)
    next
      case (Cons t ts')
      note here = Cons.prems(2) [unfolded Cons]
      show ?thesis using Cons.IH [OF xs(1) splits_next [OF here k] fit] xs(2) 3 Cons
        by (simp add: on_tape_here [OF here] set_tape_here [OF here] with_tapes_cons shifted_def
            LEFT_def RIGHT_def)
    qed
  qed
qed

section \<open>The vector read\<close>

lemma m_reads_snoc:
  "m_reads at (ds @ [d]) m = (case m_reads at ds m of Next m' \<Rightarrow> m_read at d d m' | Ends oc m' \<Rightarrow> Ends oc m')"
  by (induction ds arbitrary: m) (auto split: flow.split)

text \<open>What \<open>rd\<close> leaves in the tuple register.\<close>

definition latched_row :: "nat \<Rightarrow> mach \<Rightarrow> mach" where
  "latched_row n m =
     m\<lparr>m_tr := map symbol_at (take n (m_devs m)) @ drop n (m_tr m), m_len := of_nat n\<rparr>"

lemma drop_update_head: "n < length xs \<Longrightarrow> length ys = n \<Longrightarrow> (ys @ drop n xs)[n := y] = ys @ y # drop (Suc n) xs"
  by (simp add: list_update_append Cons_nth_drop_Suc [symmetric])

lemma reads_row:
  assumes "length (m_tr m) = 16" "n \<le> 16" "n \<le> length (m_devs m)"
  shows "m_reads at (map of_nat [0..<n]) (m\<lparr>m_len := 0\<rparr>) = Next (latched_row n m)"
  using assms(2,3)
proof (induction n)
  case 0
  then show ?case by (simp add: latched_row_def)
next
  case (Suc n)
  let ?m = "latched_row n m"
  have n: "unat (of_nat n :: u8) = n" using Suc.prems(1) by (simp add: unat_of_nat)
  then have small: "\<not> 16 \<le> (of_nat n :: u8)" using Suc.prems(1) by (simp add: word_le_nat_alt)
  have len: "max (of_nat n) (of_nat n + 1) = (of_nat (Suc n) :: u8)"
  proof -
    have "unat (of_nat (Suc n) :: u8) = Suc n" using Suc.prems(1) by (simp add: unat_of_nat del: of_nat_Suc)
    then have "(of_nat n :: u8) \<le> of_nat (Suc n)" using n by (simp add: word_le_nat_alt del: of_nat_Suc)
    then show ?thesis by (simp add: max_def add.commute)
  qed
  have "map symbol_at (take (Suc n) (m_devs m)) = map symbol_at (take n (m_devs m)) @ [symbol_at (m_devs m ! n)]"
    using Suc.prems(2) by (simp add: take_Suc_conv_app_nth)
  then have "m_read at (of_nat n) (of_nat n) ?m = Next (latched_row (Suc n) m)"
    using Suc.prems assms(1) n small len
    by (simp add: m_read_def on_tape_def latched_row_def drop_update_head del: of_nat_Suc)
  then show ?case using Suc by (simp add: m_reads_snoc)
qed

section \<open>A transition\<close>

text \<open>
  Read, match, dispatch against the tables a transition is compiled to: the machine goes to the
  label of the first row that matches the symbols under the heads; with no such row it traps.
\<close>

definition goes_to :: "u32 \<Rightarrow> u8 list list \<Rightarrow> u32 list \<Rightarrow> mach \<Rightarrow> flow" where
  "goes_to at rows labels m =
     (let k = first_match (take (unat (m_len m)) (m_tr m)) rows; m1 = m\<lparr>m_mr := of_nat k\<rparr> in
      if k = 0 then crash (NoTransition at) m1 else Next (m1\<lparr>m_ip := labels ! (k - 1)\<rparr>))"

lemma first_match_le: "first_match tr rows \<le> length rows"
  by (induction rows) (auto split: nat.split)

lemma match_then_dispatch:
  assumes width: "0 < width" "width \<le> 16" "width \<le> unat (m_len m)" "unat (m_len m) \<le> length (m_tr m)"
    and rows: "\<forall>r \<in> set rows. length r = width" "length rows < 65536" "length labels = length rows"
    and mblob: "e_tables e = pre @ match_table_bytes width rows @ post" "length pre = unat mt"
      "unat mt + length (match_table_bytes width rows) < 2 ^ 32"
    and dblob: "e_tables e = pre' @ dispatch_table_bytes labels @ post'" "length pre' = unat dt"
      "unat dt + length (dispatch_table_bytes labels) < 2 ^ 32"
  shows "micros e n at [MatchTable mt, DispatchJump dt] m = goes_to at rows labels m"
proof -
  let ?tr = "take (unat (m_len m)) (m_tr m)"
  let ?k = "first_match ?tr rows"
  have "match_lookup (e_tables e) ?tr mt = Some (Served (WalkDone (of_nat ?k)))"
    using match_lookup_table [OF width(1,2) _ rows(1,2) mblob, of ?tr] width(3,4) by simp
  then have m: "m_match e at mt m = Next (m\<lparr>m_mr := of_nat ?k\<rparr>)" by (simp add: m_match_def)
  have "?k \<le> length rows" by (rule first_match_le)
  then have k: "unat (of_nat ?k :: u32) = ?k" using rows(2) by (simp add: unat_of_nat)
  show ?thesis
  proof (cases "?k = 0")
    case True
    then show ?thesis using m by (simp add: m_dispatch_def goes_to_def crash_def)
  next
    case False
    then have nz: "(of_nat ?k :: u32) \<noteq> 0" using k by (metis unat_0)
    have "dispatch_lookup (e_tables e) dt (of_nat ?k) = Some (Served (DispatchDone (labels ! (?k - 1))))"
      using dispatch_lookup_table [OF _ _ dblob, of "of_nat ?k"] False k rows(2,3) \<open>?k \<le> length rows\<close>
      by simp
    then show ?thesis using m nz False by (simp add: m_dispatch_def goes_to_def Let_def)
  qed
qed

section \<open>Which operands lower\<close>

lemma write_ops_total: "\<forall>v \<in> set vs. v \<le> 0x7F \<Longrightarrow> \<exists>ops. write_ops k vs = Inr ops"
proof (induction vs arbitrary: k)
  case (Cons v vs)
  then obtain ops where "write_ops (k + 1) vs = Inr ops" by fastforce
  then show ?case using Cons.prems by (auto simp: KEEP_def)
qed simp

lemma move_ops_total: "\<forall>m \<in> set ms. m \<le> 2 \<Longrightarrow> \<exists>ops. move_ops k ms = Inr ops"
proof (induction ms arbitrary: k)
  case (Cons m ms)
  then obtain ops where "move_ops (k + 1) ms = Inr ops" by fastforce
  moreover have "m = STAY \<or> m = LEFT \<or> m = RIGHT"
  proof -
    have "unat m \<le> 2" using Cons.prems by (simp add: word_le_nat_alt)
    then have "unat m = unat STAY \<or> unat m = unat LEFT \<or> unat m = unat RIGHT"
      by (auto simp: STAY_def LEFT_def RIGHT_def)
    then show ?thesis by (simp only: word_unat_eq_iff)
  qed
  ultimately show ?case by auto
qed simp

lemma apsnd_nil [simp]: "apsnd ((@) []) r = r"
  by (cases r) simp

lemma same_tapes [simp]: "m\<lparr>m_devs := m_devs m\<rparr> = (m :: mach)"
  by (cases m) simp

lemma wrmv_ops:
  "write_ops 0 ws = Inr xs \<Longrightarrow> move_ops 0 ms = Inr ys \<Longrightarrow> length ws = length ms \<Longrightarrow> width_ok ws \<Longrightarrow>
     tm_lower TM_WRMV (OWriteMove ws ms) = Inr (xs @ ys) \<and> tm_lower TM_WR (OSymbols ws) = Inr xs
     \<and> tm_lower TM_MOV (OSymbols ms) = Inr ys"
  by (simp add: tm_lower_def tm_opcodes lower_wrmv_def lower_wr_def lower_mov_def width_ok_def)

definition tm_refuses :: "u8 \<Rightarrow> operand \<Rightarrow> bool" where
  "tm_refuses opc oper \<longleftrightarrow>
     (case oper of
        OSymbols vs \<Rightarrow> \<not> width_ok vs \<or> (opc = TM_MOV \<and> (\<exists>d \<in> set vs. d > 2))
      | OWriteMove ws ms \<Rightarrow> length ws \<noteq> length ms \<or> \<not> width_ok ws \<or> (\<exists>d \<in> set ms. d > 2)
      | OImm k \<Rightarrow> opc = TM_TRAP \<and> k > 1
      | _ \<Rightarrow> False)"

lemma write_ops_bad: "\<forall>v \<in> set vs. v \<le> 0x7F \<Longrightarrow> write_ops k vs \<noteq> bad_operand"
  using write_ops_total [of vs k] by (auto simp: bad_operand_def)

lemma move_ops_bad: "\<exists>d \<in> set ms. d > 2 \<Longrightarrow> move_ops k ms = bad_operand"
proof (induction ms arbitrary: k)
  case (Cons m ms)
  show ?case
  proof (cases "\<exists>d \<in> set ms. d > 2")
    case True
    then show ?thesis using Cons.IH by (simp add: bad_operand_def)
  next
    case False
    then have "m > 2" using Cons.prems by simp
    then have "m \<noteq> STAY \<and> m \<noteq> LEFT \<and> m \<noteq> RIGHT" by (auto simp: STAY_def LEFT_def RIGHT_def)
    then show ?thesis by simp
  qed
qed simp

lemma lower_wr_cases:
  "\<forall>v \<in> set vs. v \<le> 0x7F \<Longrightarrow>
     if \<not> width_ok vs then lower_wr (OSymbols vs) = bad_operand else \<exists>ops. lower_wr (OSymbols vs) = Inr ops"
  using write_ops_total by (simp add: lower_wr_def)

lemma lower_mov_cases:
  "if \<not> width_ok vs \<or> (\<exists>d \<in> set vs. d > 2) then lower_mov (OSymbols vs) = bad_operand
   else \<exists>ops. lower_mov (OSymbols vs) = Inr ops"
  using move_ops_total [of vs 0] move_ops_bad [of vs 0] by (auto simp: lower_mov_def not_less)

lemma lower_wrmv_cases:
  "\<forall>v \<in> set ws \<union> set ms. v \<le> 0x7F \<Longrightarrow>
     if length ws \<noteq> length ms \<or> \<not> width_ok ws \<or> (\<exists>d \<in> set ms. d > 2)
     then lower_wrmv (OWriteMove ws ms) = bad_operand else \<exists>ops. lower_wrmv (OWriteMove ws ms) = Inr ops"
  using write_ops_total [of ws 0] move_ops_total [of ms 0] move_ops_bad [of ms 0]
  by (cases "\<exists>d \<in> set ms. d > 2") (auto simp: lower_wrmv_def bad_operand_def not_less)

lemma lower_trap_cases:
  "if k > 1 then lower_trap (OImm k) = bad_operand else \<exists>ops. lower_trap (OImm k) = Inr ops"
proof -
  have "k = 0 \<or> k = 1" if "\<not> k > 1"
  proof -
    have "unat k \<le> 1" using that by (simp add: word_le_nat_alt not_less)
    then have "unat k = unat (0 :: u8) \<or> unat k = unat (1 :: u8)" by auto
    then show ?thesis by (simp only: word_unat_eq_iff)
  qed
  then show ?thesis by (auto simp: lower_trap_def)
qed

lemma tm_lower_known:
  assumes "tm_operand_kind opc = Some kind" "fetched_as kind oper"
  shows "if tm_refuses opc oper then tm_lower opc oper = bad_operand else \<exists>ops. tm_lower opc oper = Inr ops"
proof -
  consider "kind = KNone" "opc \<in> {0x01, 0x02, 0x03, 0x04, 0x0C, 0x0D, 0x0E}"
    | "kind = KTableRef" "opc \<in> {0x05, 0x06}" | "kind = KSymbolVec" "opc = 0x07"
    | "kind = KMoveVec" "opc = 0x0F" | "kind = KWriteMoveVec" "opc = 0x12"
    | "kind = KImm8" "opc \<in> {0x11, 0x14}" | "kind = KFramedCall" "opc = 0x13"
    | "kind = KRelI32" "opc \<in> {0x08, 0x09, 0x0A, 0x0B}" | "kind = KRelI8" "opc = 0x1B"
    using assms(1) unfolding tm_operand_kind_def tm_opcodes by (auto split: if_split_asm)
  then show ?thesis
  proof cases
    case 3
    then obtain vs where vs: "oper = OSymbols vs" "\<forall>v \<in> set vs. v \<le> 0x7F"
      using assms(2) by (auto simp: fetched_as_def)
    from lower_wr_cases [OF vs(2)] 3 vs(1) show ?thesis by (simp add: tm_lower_def tm_refuses_def tm_opcodes)
  next
    case 4
    then obtain vs where vs: "oper = OSymbols vs" using assms(2) by (auto simp: fetched_as_def)
    from lower_mov_cases [of vs] 4 vs show ?thesis by (simp add: tm_lower_def tm_refuses_def tm_opcodes)
  next
    case 5
    then obtain ws ms where w: "oper = OWriteMove ws ms" "\<forall>v \<in> set ws \<union> set ms. v \<le> 0x7F"
      using assms(2) by (auto simp: fetched_as_def)
    from lower_wrmv_cases [OF w(2)] 5 w(1) show ?thesis by (simp add: tm_lower_def tm_refuses_def tm_opcodes)
  next
    case 6
    then obtain k where k: "oper = OImm k" using assms(2) by (auto simp: fetched_as_def)
    from lower_trap_cases [of k] 6 k show ?thesis by (auto simp: tm_lower_def tm_refuses_def tm_opcodes)
  next
    case 1
    then have "oper = ONone" using assms(2) by (simp add: fetched_as_def)
    with 1(2) show ?thesis by (elim insertE emptyE) (simp_all add: tm_lower_def tm_refuses_def tm_opcodes)
  next
    case 2
    then obtain v where "oper = OTable v" using assms(2) by (auto simp: fetched_as_def)
    with 2(2) show ?thesis by (elim insertE emptyE) (simp_all add: tm_lower_def tm_refuses_def tm_opcodes)
  next
    case 7
    then obtain r t where "oper = OFramedCall r t" using assms(2) by (auto simp: fetched_as_def)
    with 7(2) show ?thesis by (simp add: tm_lower_def tm_refuses_def tm_opcodes lower_call_m_def)
  next
    case 8
    then obtain v where "oper = OI32 v" using assms(2) by (auto simp: fetched_as_def)
    with 8(2) show ?thesis by (elim insertE emptyE) (simp_all add: tm_lower_def tm_refuses_def tm_opcodes)
  next
    case 9
    then obtain v where "oper = OI8 v" using assms(2) by (auto simp: fetched_as_def)
    with 9(2) show ?thesis by (simp add: tm_lower_def tm_refuses_def tm_opcodes)
  qed
qed

lemma tm_lower_unknown:
  assumes "tm_operand_kind opc = None"
  shows "tm_lower opc oper = Inl (InvalidOpcode opc 0)"
proof -
  have "opc \<notin> {TM_NOP, TM_STP, TM_HLT, TM_RD, TM_RET, TM_ENT, TM_BRK}" "opc \<notin> {TM_MTC, TM_DJMP}"
    "opc \<noteq> TM_WR" "opc \<noteq> TM_MOV" "opc \<noteq> TM_WRMV" "opc \<notin> {TM_TRAP, TM_RETX}" "opc \<noteq> TM_CALL_M"
    "opc \<notin> {TM_JMP, TM_JM, TM_JNM, TM_CALL}" "opc \<noteq> TM_CALL_S"
    using assms unfolding tm_operand_kind_def by (auto split: if_split_asm)
  then show ?thesis by (simp add: tm_lower_def)
qed

section \<open>The properties of the table\<close>

text \<open>
  C11: the vector instructions act on whole rows of tapes. A \<open>wrmv\<close> of two vectors of one width
  from 1 to 16, with symbols up to \<open>0x7F\<close> (keep) and move codes up to 2, is \<open>wr\<close> followed by
  \<open>mov\<close>: first every tape that is not kept is written, up to the first fault, then every tape
  moves by its code; a vector wider than the machine faults with the first device it names that
  does not exist.
\<close>

theorem tm_vector_rows:
  assumes "length ws = length ms" and "width_ok ws"
    and "\<forall>v \<in> set ws. v \<le> 0x7F" and "\<forall>d \<in> set ms. d \<le> 2"
  shows "\<exists>wr mov wrmv. lower tm1 TM_WR (OSymbols ws) = Inr wr \<and> lower tm1 TM_MOV (OSymbols ms) = Inr mov
    \<and> lower tm1 TM_WRMV (OWriteMove ws ms) = Inr wrmv
    \<and> micros e n at wr m = with_tapes m (put_row 0 ws (m_devs m))
    \<and> micros e n at mov m = with_tapes m (shift_row 0 ms (m_devs m))
    \<and> micros e n at wrmv m = (case put_row 0 ws (m_devs m) of
         (None, ts) \<Rightarrow> with_tapes m (shift_row 0 ms ts) | r \<Rightarrow> with_tapes m r)"
proof -
  obtain xs ys where ops: "write_ops 0 ws = Inr xs" "move_ops 0 ms = Inr ys"
    using write_ops_total [OF assms(3)] move_ops_total [OF assms(4)] by blast
  have w: "unat (0 :: u8) + length ws < 256" "unat (0 :: u8) + length ms < 256"
    using assms(1,2) by (simp_all add: width_ok_def)
  have put: "micros e n at xs m = with_tapes m (put_row 0 ws (m_devs m))" for m
    using write_row [OF ops(1) _ w(1), of "[]" "m_devs m" e n at m] by (simp add: splits_at_def)
  have shift: "micros e n at ys m = with_tapes m (shift_row 0 ms (m_devs m))" for m
    using move_row [OF ops(2) _ w(2), of "[]" "m_devs m" e n at m] by (simp add: splits_at_def)
  have "micros e n at (xs @ ys) m = (case put_row 0 ws (m_devs m) of
         (None, ts) \<Rightarrow> with_tapes m (shift_row 0 ms ts) | r \<Rightarrow> with_tapes m r)"
    by (simp add: micros_append put with_tapes_def shift crash_def split: prod.split option.split)
  with wrmv_ops [OF ops assms(1,2)] put shift show ?thesis by auto
qed

definition two_tapes :: mach where
  "two_tapes = \<lparr>m_ip = 0, m_mr = 0, m_tr = replicate 16 0, m_len = 0, m_brk = False,
     m_stack = stack_new 1, m_devs = [Infinite it_new, Infinite it_new]\<rparr>"

theorem tm_vector_rows_witness:
  "\<forall>e at. \<exists>wr. lower tm1 TM_WR (OSymbols [1, 0x7F]) = Inr wr
    \<and> micros e 2 at wr two_tapes = with_tapes two_tapes (put_row 0 [1, 0x7F] (m_devs two_tapes))"
proof (intro allI)
  fix e at
  show "\<exists>wr. lower tm1 TM_WR (OSymbols [1, 0x7F]) = Inr wr
    \<and> micros e 2 at wr two_tapes = with_tapes two_tapes (put_row 0 [1, 0x7F] (m_devs two_tapes))"
    using tm_vector_rows [of "[1, 0x7F]" "[2, 0]" e 2 at two_tapes] by (auto simp: width_ok_def)
qed

text \<open>
  \<open>rd\<close> latches the machine. On a machine of at most sixteen tapes, all of them present, it
  puts the symbol under every head into the tuple register in the order of the tapes, sets its
  width to the number of tapes and changes nothing else.
\<close>

theorem tm_read_latches:
  assumes "length (m_tr m) = 16" and "n \<le> 16" and "unat n \<le> length (m_devs m)"
  shows "\<exists>ops. lower tm1 TM_RD ONone = Inr ops
    \<and> micros e n at ops m = Next (m\<lparr>m_tr := map symbol_at (take (unat n) (m_devs m)) @ drop (unat n) (m_tr m),
        m_len := n\<rparr>)"
proof -
  have "unat n \<le> 16" using assms(2) by (simp add: word_le_nat_alt)
  from reads_row [OF assms(1) this assms(3)] show ?thesis
    by (simp add: tm_lower_def tm_opcodes latched_row_def)
qed

theorem tm_read_latches_witness:
  "\<forall>e at. \<exists>ops m'. lower tm1 TM_RD ONone = Inr ops \<and> micros e 2 at ops two_tapes = Next m' \<and> m_len m' = 2"
proof (intro allI)
  fix e at
  show "\<exists>ops m'. lower tm1 TM_RD ONone = Inr ops \<and> micros e 2 at ops two_tapes = Next m' \<and> m_len m' = 2"
    using tm_read_latches [of two_tapes 2 e at] by (auto simp: two_tapes_def)
qed

text \<open>
  C12: a compiled transition takes the row it was written for. On a machine with a latched tuple,
  \<open>mtc\<close> followed by \<open>djmp\<close>, on tables that hold the encoded rows and their labels, jumps to
  the label of the first row that matches the tuple, a wildcard matching every symbol, and traps
  with \<open>NoTransition\<close> when no row does.
\<close>

theorem tm_transition:
  assumes "0 < width" "width \<le> 16" "width \<le> unat (m_len m)" "unat (m_len m) \<le> length (m_tr m)"
    and "\<forall>r \<in> set rows. length r = width" "length rows < 65536" "length labels = length rows"
    and "e_tables e = pre @ match_table_bytes width rows @ post" "length pre = unat mt"
      "unat mt + length (match_table_bytes width rows) < 2 ^ 32"
    and "e_tables e = pre' @ dispatch_table_bytes labels @ post'" "length pre' = unat dt"
      "unat dt + length (dispatch_table_bytes labels) < 2 ^ 32"
  shows "\<exists>mtc djmp. lower tm1 TM_MTC (OTable mt) = Inr mtc \<and> lower tm1 TM_DJMP (OTable dt) = Inr djmp
    \<and> micros e n at (mtc @ djmp) m = goes_to at rows labels m"
  using match_then_dispatch [OF assms] by (simp add: tm_lower_def tm_opcodes)

definition one_row_env :: env where
  "one_row_env = \<lparr>e_arch = tm1, e_code = [], e_tables = match_table_bytes 1 [[1]] @ dispatch_table_bytes [7],
     e_profile = electronic, e_limits = \<lparr>max_steps = None, max_tacts = None\<rparr>\<rparr>"

definition latched_one :: mach where
  "latched_one = two_tapes\<lparr>m_tr := 1 # replicate 15 0, m_len := 1\<rparr>"

theorem tm_transition_witness:
  "\<exists>mtc djmp. lower tm1 TM_MTC (OTable 0) = Inr mtc \<and> lower tm1 TM_DJMP (OTable 4) = Inr djmp
    \<and> micros one_row_env 1 0 (mtc @ djmp) latched_one = Next (latched_one\<lparr>m_mr := 1, m_ip := 7\<rparr>)"
proof -
  have "goes_to 0 [[1]] [7] latched_one = Next (latched_one\<lparr>m_mr := 1, m_ip := 7\<rparr>)"
    by (simp add: goes_to_def latched_one_def two_tapes_def Let_def)
  moreover have "length (match_table_bytes 1 [[1]]) = 4" "length (dispatch_table_bytes [7]) = 6"
    by (simp_all add: match_table_bytes_def dispatch_table_bytes_def)
  ultimately show ?thesis
    using tm_transition [of 1 latched_one "[[1]]" "[7]" one_row_env "[]" "dispatch_table_bytes [7]" 0
        "match_table_bytes 1 [[1]]" "[]" 4 1 0]
    by (simp add: latched_one_def two_tapes_def one_row_env_def)
qed

text \<open>
  C13: lowering a fetched TM-1 instruction succeeds or refuses a malformed operand, for the
  documented reasons only: a vector that is empty or wider than sixteen, two vectors of different
  widths, a move code above 2, a trap kind other than 0 and 1. It never reports a known opcode as
  invalid, and an unknown one always.
\<close>

theorem tm_lowering_total:
  "case operand_kind tm1 opc of
     None \<Rightarrow> lower tm1 opc oper = Inl (InvalidOpcode opc 0)
   | Some kind \<Rightarrow> fetched_as kind oper \<longrightarrow>
       (if tm_refuses opc oper then lower tm1 opc oper = Inl (BadOperand 0)
        else \<exists>ops. lower tm1 opc oper = Inr ops)"
  using tm_lower_known tm_lower_unknown by (auto simp: bad_operand_def split: option.split)

theorem tm_lowering_total_witness:
  "\<exists>ops. lower tm1 0x0F (OSymbols [2, 0]) = Inr ops"
  using tm_lowering_total [of "0x0F" "OSymbols [2, 0]"]
  by (simp add: tm_operand_kind_def tm_opcodes fetched_as_def tm_refuses_def width_ok_def)

end
