(* ===== verification/Processor.thy ===== *)
theory Processor
  imports Instruction_Step Pm1 Tm1
begin

text \<open>
  What the virtual machine guarantees as a whole: the core never panics, an instruction always
  completes, a limited run always returns, the two return stacks stay paired, and a run of a
  listed program is the run of its specification. The component theories hold the lemmas; here
  they are stated for the machine a loader builds, and applied to small programs.
\<close>

section \<open>Small machines for the witnesses\<close>

definition small_env :: "u8 list \<Rightarrow> run_limits \<Rightarrow> env" where
  "small_env code l =
     \<lparr>e_arch = pm1, e_code = code, e_tables = [], e_profile = electronic, e_limits = l\<rparr>"

definition ten_steps :: run_limits where
  "ten_steps = \<lparr>max_steps = Some 10, max_tacts = None\<rparr>"

definition no_limits :: run_limits where
  "no_limits = \<lparr>max_steps = None, max_tacts = None\<rparr>"

text \<open>\<open>ent; wr 1; rgt; stp\<close>.\<close>

definition mark_and_stop :: "u8 list" where
  "mark_and_stop = [0x0D, 0x06, 0x81, 0x05, 0x02]"

lemma blank_tape_ok [simp]: "it_ok it_new"
  by (simp add: it_new_def it_ok_def om_ok_def in_i64_def)

section \<open>The core\<close>

text \<open>
  C3: the core never panics. From reset, whatever responses a driver gives, protocol violations
  included, every further response is answered with an event, and the registers stay in range:
  the tuple register has sixteen slots with at most sixteen latched, and a non-identity frame
  register always has its descriptor loaded unless the machine is done or still loading it.
\<close>

theorem core_never_panics:
  assumes "core_reach a c"
  shows "\<exists>c' ev. resume a c resp = Some (c', ev) \<and> core_ok c'"
  using resume_ok [OF core_reach_ok [OF assms], of a resp]
  by (cases "resume a c resp") auto

theorem core_never_panics_witness:
  "\<exists>c' ev. resume pm1 (fst (start (core_reset 0 1 None))) (BusSymbol 7) = Some (c', ev) \<and> core_ok c'"
  by (rule core_never_panics [OF reach_start])

text \<open>
  C5: an instruction always completes. The driver, before its first instruction or after one it
  has retired, serves requests until the next boundary and returns; a step that does not finish
  the run leaves it ready for the next one, counts one step, and has passed neither limit. Under a
  tact limit of at most \<open>2 ^ 64 - 2 ^ 32\<close>, and from counters whose sum is no larger, the counters do
  not wrap around, their sum has grown, and it is again no larger than that.
\<close>

theorem instruction_completes:
  assumes "length (e_code e) < 2 ^ 32" and "ready started v"
  shows "\<exists>ev v'. step_instruction e started v = Some (ev, v') \<and> vm_ok v' \<and>
    ((\<exists>oc. ev = Finished oc) \<or>
     ready True v' \<and> st_steps (v_stats v') = st_steps (v_stats v) + 1
     \<and> (tact_room (e_limits e) (v_stats v) \<longrightarrow>
          total_tacts (v_stats v) < total_tacts (v_stats v') \<and> tact_room (e_limits e) (v_stats v'))
     \<and> \<not> over (max_steps (e_limits e)) (st_steps (v_stats v')) \<and> \<not> over_tacts (e_limits e) (v_stats v'))"
proof -
  obtain ev v' where s: "step_instruction e started v = Some (ev, v')" and b: "boundary e v ev v'"
    using step_boundary [OF assms] by blast
  have "(\<exists>oc. ev = Finished oc) \<or>
     ready True v' \<and> st_steps (v_stats v') = st_steps (v_stats v) + 1
     \<and> (tact_room (e_limits e) (v_stats v) \<longrightarrow>
          total_tacts (v_stats v) < total_tacts (v_stats v') \<and> tact_room (e_limits e) (v_stats v'))
     \<and> \<not> over (max_steps (e_limits e)) (st_steps (v_stats v')) \<and> \<not> over_tacts (e_limits e) (v_stats v')"
  proof (cases "\<exists>oc. ev = Finished oc")
    case False
    then have nf: "\<forall>oc. ev \<noteq> Finished oc" by blast
    then have st: "st_steps (v_stats v') = st_steps (v_stats v) + 1"
      and lim: "\<not> over (max_steps (e_limits e)) (st_steps (v_stats v'))" "\<not> over_tacts (e_limits e) (v_stats v')"
      and room: "tact_room (e_limits e) (v_stats v) \<longrightarrow>
          tacts_used (v_stats v) < tacts_used (v_stats v') \<and> tact_room (e_limits e) (v_stats v')"
      using b unfolding boundary_def by blast+
    have "tact_room (e_limits e) (v_stats v) \<longrightarrow>
        total_tacts (v_stats v) < total_tacts (v_stats v') \<and> tact_room (e_limits e) (v_stats v')"
      using room room_total by (metis word_less_nat_alt)
    then show ?thesis using boundary_ready [OF b nf] st lim by blast
  qed blast
  then show ?thesis using s b by (auto simp: boundary_def)
qed

definition few_tacts :: run_limits where
  "few_tacts = \<lparr>max_steps = None, max_tacts = Some 100\<rparr>"

lemma few_tacts_safe [simp]: "safe_tact_limit few_tacts" "limited few_tacts" "max_steps few_tacts = None"
  by (simp_all add: few_tacts_def safe_tact_limit_def limited_def)

lemma first_step_retires:
  "map_option fst (step_instruction (small_env mark_and_stop few_tacts) False (fresh_vm 0 1 None 8 [Infinite it_new]))
     = Some Retired"
  by code_simp

theorem instruction_completes_witness:
  "\<exists>v'. step_instruction (small_env mark_and_stop few_tacts) False (fresh_vm 0 1 None 8 [Infinite it_new])
     = Some (Retired, v') \<and> vm_ok v' \<and> total_tacts (v_stats v') > 0"
proof -
  have "tact_room few_tacts (v_stats (fresh_vm 0 1 None 8 [Infinite it_new]))"
    by (simp add: tact_room_def fresh_vm_def stats_new_def tacts_used_def)
  then show ?thesis
    using instruction_completes [of "small_env mark_and_stop few_tacts" False
        "fresh_vm 0 1 None 8 [Infinite it_new]"] fresh_ready [of "[Infinite it_new]" 0 1 None 8] first_step_retires
    by (auto simp: small_env_def mark_and_stop_def fresh_vm_def stats_new_def total_tacts_def)
qed

text \<open>
  C4: a run with a step limit, or with a tact limit of at most \<open>2 ^ 64 - 2 ^ 32\<close>, always returns, on any
  code, tables and devices and with any costs; the tact limit must leave room for one more request,
  since the \<open>u64\<close> counters wrap around. With a step limit the run has retired at most that many
  instructions (one when the limit is zero), and the return stack is never deeper than its capacity.
\<close>

theorem limited_run_returns:
  assumes "length (e_code e) < 2 ^ 32" and "limited (e_limits e)" and "\<forall>d \<in> set devs. tape_ok d"
  shows "\<exists>res v'. run e (core_reset entry n meta) (stack_new cap) devs = Some (res, v')
    \<and> (\<forall>m. max_steps (e_limits e) = Some m \<longrightarrow> st_steps (r_stats res) \<le> max m 1)
    \<and> length (r_stack res) \<le> cap"
proof -
  have "run_good e (fresh_vm entry n meta cap devs) (run_loop e False (fresh_vm entry n meta cap devs))"
    by (rule run_loop_returns [OF assms(1) fresh_ready [OF assms(3)]])
      (simp add: fresh_vm_def roomy_new [OF assms(2)])
  then show ?thesis unfolding fresh_run run_good_def
    by (auto simp: fresh_vm_def stats_new_def stack_new_def vm_ok_def)
qed

theorem limited_run_returns_witness:
  "(\<exists>res v'. run (small_env mark_and_stop ten_steps) (core_reset 0 1 None) (stack_new 8) [Infinite it_new]
     = Some (res, v') \<and> st_steps (r_stats res) \<le> 10)
   \<and> (\<exists>res v'. run (small_env mark_and_stop few_tacts) (core_reset 0 1 None) (stack_new 8) [Infinite it_new] = Some (res, v'))"
  using limited_run_returns [of "small_env mark_and_stop ten_steps" "[Infinite it_new]" 0 1 None 8]
    limited_run_returns [of "small_env mark_and_stop few_tacts" "[Infinite it_new]" 0 1 None 8]
  by (auto simp: small_env_def mark_and_stop_def ten_steps_def limited_def)

text \<open>
  C6: under the frames profile the saved frame registers and the return addresses stay paired.
  When an instruction retires, there is one saved frame register per return address, provided
  there was before it.
\<close>

theorem stacks_stay_paired:
  assumes "length (e_code e) < 2 ^ 32" and "ready started v" and "frames_on (v_core v')"
    and "step_instruction e started v = Some (ev, v')" and "ev = Retired \<or> ev = Break"
  shows "length (c_fr_stack (v_core v')) = length (rs_entries (v_stack v'))
    \<and> length (rs_entries (v_stack v')) \<le> rs_capacity (v_stack v)"
proof -
  have "boundary e v ev v'" using step_boundary [OF assms(1,2)] assms(4) by auto
  then show ?thesis using assms(3,5) by (auto simp: boundary_def paired_def vm_ok_def)
qed

section \<open>The specification\<close>

text \<open>
  C2: the core served by the driver implements the specification of the micro-ops. On the base
  profile without a tact limit, a sequence of micro-ops ends with the outcome the specification
  gives, with the same tapes, return stack and registers; if it runs to its end, the instruction
  retires, as a break if it asked for one.
\<close>

theorem core_implements_spec:
  assumes "base_run e v"
  shows "case micros e (c_device_count (v_core v)) (c_instr_start (v_core v)) ops (abs_vm v) of
      Next m' \<Rightarrow> (\<exists>v'. serve_ops e v ops = Some (retire_step e v' (if m_brk m' then Break else Retired))
        \<and> abs_vm v' = m'\<lparr>m_brk := False\<rparr>)
    | Ends oc m' \<Rightarrow> (\<exists>v'. serve_ops e v ops = Some (Finished oc, v') \<and> abs_vm v' = m')"
  using micros_refined [OF assms, of ops] by (auto split: flow.split)

definition idle_vm :: vm where
  "idle_vm = (fresh_vm 0 1 None 8 [Infinite it_new])\<lparr>v_core := (core_reset 0 1 None)\<lparr>c_phase := Done\<rparr>\<rparr>"

lemma idle_vm_base: "base_run (small_env mark_and_stop no_limits) idle_vm"
  by (simp add: base_run_def idle_vm_def small_env_def no_limits_def fresh_vm_def stack_new_def
      core_reset_def core_new_def with_device_count_def ok_defs)

theorem core_implements_spec_witness:
  "\<exists>v'. serve_ops (small_env mark_and_stop no_limits) idle_vm [MRet] = Some (Finished (Trapped StackUnderflow), v')"
  using core_implements_spec [OF idle_vm_base, of "[MRet]"]
  by (auto simp: idle_vm_def fresh_vm_def abs_vm_def stack_new_def m_ret_def stack_pop_def crash_def)

text \<open>
  C1: a whole program. If a listing says what the code image holds, and the specification of the
  listed instructions, run from the state of a fresh machine, ends with an outcome, then the
  virtual machine without limits returns with that outcome, and with the tapes and the return
  stack the specification ends with.
\<close>

theorem run_of_listing:
  assumes "length (e_code e) < 2 ^ 32" and "listed (e_arch e) (e_code e) p"
    and "e_limits e = no_limits" and "\<forall>d \<in> set devs. tape_ok d"
    and "listing_run e n p k (abs_vm (fresh_vm entry n None cap devs)) = Some (oc, m')"
  shows "\<exists>res v'. run e (core_reset entry n None) (stack_new cap) devs = Some (res, v')
    \<and> r_outcome res = oc \<and> v_devs v' = m_devs m' \<and> v_stack v' = m_stack m'"
proof -
  let ?v = "fresh_vm entry n None cap devs"
  have c: "c_device_count (v_core ?v) = n" "\<not> frames_on (v_core ?v)"
    by (simp_all add: fresh_vm_def core_reset_def core_new_def with_device_count_def frames_on_def)
  obtain res v' where r: "run_loop e False ?v = Some (res, v')" "r_outcome res = oc" "abs_vm v' = m'"
    using run_listing [OF assms(1,2) _ fresh_ready [OF assms(4)] c(2), of k oc m'] assms(3,5) c(1)
    by (auto simp: no_limits_def)
  then have "v_devs v' = m_devs m'" "v_stack v' = m_stack m'" by (auto simp: abs_vm_def)
  then show ?thesis using r by (auto simp: fresh_run)
qed

text \<open>The program of the witnesses, listed.\<close>

definition mark_listing :: listing where
  "mark_listing = [(0, 0x0D, ONone), (1, 0x06, OSymbols [1]), (3, 0x05, ONone), (4, 0x02, ONone)]"

lemma mark_listed: "listed pm1 mark_and_stop mark_listing"
  by (simp add: listed_def mark_and_stop_def mark_listing_def fetchable_def instruction_bytes_def
      pm_operand_kind_def pm_opcodes encode_symbols_def split_last_def encode_group_def byte_of_def)

lemma mark_run:
  "map_option (\<lambda>(oc, m). (oc, map tape_head (m_devs m), map (\<lambda>t. tape_cells t 0) (m_devs m)))
     (listing_run (small_env mark_and_stop no_limits) 1 mark_listing 4
       (abs_vm (fresh_vm 0 1 None 8 [Infinite it_new]))) = Some (Stopped, [1], [1])"
  by code_simp

theorem run_of_listing_witness:
  "\<exists>res v'. run (small_env mark_and_stop no_limits) (core_reset 0 1 None) (stack_new 8) [Infinite it_new]
     = Some (res, v') \<and> r_outcome res = Stopped \<and> map tape_head (v_devs v') = [1]
     \<and> map (\<lambda>t. tape_cells t 0) (v_devs v') = [1]"
proof -
  obtain m' where m': "listing_run (small_env mark_and_stop no_limits) 1 mark_listing 4
       (abs_vm (fresh_vm 0 1 None 8 [Infinite it_new])) = Some (Stopped, m')"
      "map tape_head (m_devs m') = [1]" "map (\<lambda>t. tape_cells t 0) (m_devs m') = [1]"
    using mark_run by auto
  have "length (e_code (small_env mark_and_stop no_limits)) < 2 ^ 32"
    "listed (e_arch (small_env mark_and_stop no_limits)) (e_code (small_env mark_and_stop no_limits)) mark_listing"
    "e_limits (small_env mark_and_stop no_limits) = no_limits" "\<forall>d \<in> set [Infinite it_new]. tape_ok d"
    using mark_listed by (simp_all add: small_env_def mark_and_stop_def)
  from run_of_listing [OF this m'(1)] show ?thesis using m'(2,3) by auto
qed

section \<open>The stacks under the frames profile\<close>

definition framed_vm :: vm where
  "framed_vm = fresh_vm 0 1 (Some \<lparr>fm_base = 0, composites = 1, sites = 1\<rparr>) 8 []"

lemma framed_step:
  "map_option (\<lambda>(ev, v'). (ev, frames_on (v_core v')))
     (step_instruction (small_env mark_and_stop ten_steps) False framed_vm) = Some (Retired, True)"
  by code_simp

theorem stacks_stay_paired_witness:
  "\<exists>v'. step_instruction (small_env mark_and_stop ten_steps) False framed_vm = Some (Retired, v')
     \<and> length (c_fr_stack (v_core v')) = length (rs_entries (v_stack v'))"
proof -
  obtain v' where v': "step_instruction (small_env mark_and_stop ten_steps) False framed_vm = Some (Retired, v')"
      "frames_on (v_core v')"
    using framed_step by auto
  have "length (e_code (small_env mark_and_stop ten_steps)) < 2 ^ 32" "ready False framed_vm"
    by (simp_all add: small_env_def mark_and_stop_def framed_vm_def fresh_ready)
  from stacks_stay_paired [OF this v'(2,1)] v'(1) show ?thesis by auto
qed

section \<open>The instruction sets\<close>

definition fetching_core :: core where
  "fetching_core = fst (start (core_reset 0 1 None))"

lemma le_u32_back: "le_u32 (- 5) = [0xFB, 0xFF, 0xFF, 0xFF]"
proof -
  have four: "(4 :: nat) = Suc (Suc (Suc (Suc 0)))" by simp
  show ?thesis unfolding le_u32_def four by simp
qed

lemma fetching_core_facts:
  "c_phase fetching_core = FetchOpcode" "operand_kind pm1 0x08 = Some KRelI32"
  "encode_operand (OI32 (- 5)) = Inr [0xFB, 0xFF, 0xFF, 0xFF]"
  by (simp_all add: fetching_core_def start_def Let_def pm_operand_kind_def pm_opcodes le_u32_back)

theorem instruction_fetch_witness:
  "fetch_bytes pm1 fetching_core [0x08, 0xFB, 0xFF, 0xFF, 0xFF] =
     finish_fetch pm1 (fetching_core\<lparr>c_phase := Done,
       c_ip := c_ip fetching_core + of_nat (length [0x08 :: u8, 0xFB, 0xFF, 0xFF, 0xFF])\<rparr>) 0x08 (OI32 (- 5))"
  by (rule instruction_fetch [OF fetching_core_facts]) simp

section \<open>The table engine\<close>

text \<open>
  C8: a match table selects its first matching row. On a table of at most 65535 rows of one width
  between 1 and 16, anywhere in the table ROM, the walk of the processor answers the 1-based index
  of the first row every byte of which equals the latched symbol or is the wildcard, and 0 when
  there is none.
\<close>

theorem match_selects_first_row:
  assumes "0 < width" "width \<le> 16" "width \<le> length tr"
    and "\<forall>r \<in> set rows. length r = width" "length rows < 65536"
    and "blob = pre @ match_table_bytes width rows @ post" and "length pre = unat table"
    and "unat table + length (match_table_bytes width rows) < 2 ^ 32"
  shows "match_lookup blob tr table = Some (Served (WalkDone (of_nat (first_match tr rows))))"
  by (rule match_lookup_table [OF assms])

theorem match_selects_first_row_witness:
  "match_lookup (match_table_bytes 2 [[1, 2], [1, 0x7F]]) [1, 9] 0 = Some (Served (WalkDone 2))"
  using match_selects_first_row [of 2 "[1, 9]" "[[1, 2], [1, 0x7F]]"
      "match_table_bytes 2 [[1, 2], [1, 0x7F]]" "[]" "[]" 0]
  by (simp add: match_table_bytes_def)

text \<open>
  C9: a dispatch table selects the entry of the match register. On a table of at most 65535
  entries the walk answers entry \<open>MR - 1\<close>, and reports the register out of range exactly when it
  exceeds the number of entries.
\<close>

theorem dispatch_selects_entry:
  assumes "0 < unat m" and "length es < 65536"
    and "blob = pre @ dispatch_table_bytes es @ post" and "length pre = unat table"
    and "unat table + length (dispatch_table_bytes es) < 2 ^ 32"
  shows "dispatch_lookup blob table m =
     Some (Served (if unat m \<le> length es then DispatchDone (es ! (unat m - 1)) else OutOfRange))"
  by (rule dispatch_lookup_table [OF assms])

theorem dispatch_selects_entry_witness:
  "dispatch_lookup (dispatch_table_bytes [0x11111111, 0x22222222]) 0 2 = Some (Served (DispatchDone 0x22222222))"
  using dispatch_selects_entry [of 2 "[0x11111111, 0x22222222]"
      "dispatch_table_bytes [0x11111111, 0x22222222]" "[]" "[]" 0]
  by (simp add: dispatch_table_bytes_def)

end
