(* ===== verification/Crc32.thy ===== *)
theory Crc32
  imports Bytes_Io
begin

text \<open>
  The checksum of the container formats (\<open>crates/core/src/formats/crc32.rs\<close>). A stamped buffer
  verifies, and changing any one byte of a buffer that verifies is noticed: one round of the
  checksum is injective, so a difference that has entered the register never leaves it.
\<close>

section \<open>The checksum\<close>

definition crc_round :: "u32 \<Rightarrow> u32" where
  "crc_round c = drop_bit 1 c XOR (0xEDB88320 AND - (c AND 1))"

definition crc_byte :: "u32 \<Rightarrow> u8 \<Rightarrow> u32" where
  "crc_byte c b = (crc_round ^^ 8) (c XOR ucast b)"

definition crc32 :: "u8 list \<Rightarrow> u32" where
  "crc32 data = NOT (foldl crc_byte 0xFFFFFFFF data)"

text \<open>\<open>buf[at..at + 4].fill(0)\<close> and \<open>copy_from_slice\<close>; out of range they panic.\<close>

definition splice4 :: "u8 list \<Rightarrow> nat \<Rightarrow> u8 list \<Rightarrow> u8 list" where
  "splice4 buf at bs = take at buf @ bs @ drop (at + 4) buf"

definition stamp_crc :: "u8 list \<Rightarrow> nat \<Rightarrow> u8 list option" where
  "stamp_crc buf at =
     (if at + 4 \<le> length buf
      then let z = splice4 buf at [0, 0, 0, 0] in Some (splice4 z at (le_u32 (crc32 z)))
      else None)"

definition verify_crc :: "u8 list \<Rightarrow> nat \<Rightarrow> format_error + unit" where
  "verify_crc buf at =
     (if length buf < at + 4 then Inl Truncated
      else let found = u32_le (take 4 (drop at buf)); c = crc32 (splice4 buf at [0, 0, 0, 0]) in
        if found \<noteq> c then Inl (BadCrc found c) else Inr ())"

section \<open>Stamping\<close>

lemma splice4_splice4 [simp]:
  "at + 4 \<le> length buf \<Longrightarrow> length bs = 4 \<Longrightarrow> splice4 (splice4 buf at bs) at cs = splice4 buf at cs"
  by (simp add: splice4_def)

lemma length_splice4 [simp]: "at + 4 \<le> length buf \<Longrightarrow> length bs = 4 \<Longrightarrow> length (splice4 buf at bs) = length buf"
  by (simp add: splice4_def)

lemma slice_splice4 [simp]:
  "at + 4 \<le> length buf \<Longrightarrow> length bs = 4 \<Longrightarrow> take 4 (drop at (splice4 buf at bs)) = bs"
  by (simp add: splice4_def)

lemma stamped_verifies: "stamp_crc buf at = Some out \<Longrightarrow> verify_crc out at = Inr ()"
  by (auto simp: stamp_crc_def verify_crc_def Let_def split: if_splits)

lemma stamp_shape:
  "stamp_crc (pre @ [0, 0, 0, 0] @ post) (length pre) =
     Some (pre @ le_u32 (crc32 (pre @ [0, 0, 0, 0] @ post)) @ post)"
  by (simp add: stamp_crc_def splice4_def)

section \<open>A changed byte is noticed\<close>

lemma low_bit_mask: "- (c AND 1 :: u32) = (if bit c 0 then - 1 else 0)"
  by (simp add: and_one_eq mod_2_eq_odd bit_0)

lemma crc_round_high_bit: "bit (crc_round c) 31 = bit c 0"
  using bit_imp_le_length [of c 32] by (auto simp: crc_round_def low_bit_mask bit_simps)

lemma xor_cancel: "a XOR b = a' XOR (b :: u32) \<longleftrightarrow> a = a'"
proof
  assume "a XOR b = a' XOR b"
  then have "(a XOR b) XOR b = (a' XOR b) XOR b" by simp
  then show "a = a'" by (simp add: xor.assoc)
qed simp

lemma crc_round_inj: "inj crc_round"
proof
  fix a b :: u32
  assume eq: "crc_round a = crc_round b"
  have b0: "bit a 0 = bit b 0"
    using crc_round_high_bit [of a] crc_round_high_bit [of b] eq by simp
  then have "- (a AND 1) = - (b AND 1)" by (simp only: low_bit_mask)
  with eq have d: "drop_bit 1 a = drop_bit 1 b"
    by (simp add: crc_round_def xor_cancel)
  have s: "bit a (Suc n) = bit b (Suc n)" for n
    using arg_cong [OF d, of "\<lambda>w. bit w n"] by (simp add: bit_drop_bit_eq)
  show "a = b"
  proof (rule bit_eqI)
    fix n
    show "bit a n = bit b n" by (cases n) (use b0 s in auto)
  qed
qed

lemma crc_byte_inj: "crc_byte a b = crc_byte a' b' \<longleftrightarrow> a XOR ucast b = a' XOR ucast b'"
  unfolding crc_byte_def using inj_fn [OF crc_round_inj] by (simp add: inj_eq)

lemma crc_byte_state: "crc_byte a b = crc_byte a' b \<longleftrightarrow> a = a'"
  by (simp add: crc_byte_inj xor_cancel)

lemma crc_byte_data: "crc_byte a b = crc_byte a b' \<longleftrightarrow> b = b'"
proof -
  have "a XOR ucast b = a XOR ucast b' \<longleftrightarrow> (ucast b :: u32) = ucast b'"
    using xor_cancel [of "ucast b" a "ucast b'"] by (simp add: xor.commute)
  also have "\<dots> \<longleftrightarrow> b = b'"
  proof
    assume "(ucast b :: u32) = ucast b'"
    then have "unat (ucast b :: u32) = unat (ucast b' :: u32)" by simp
    then show "b = b'" unfolding unat_ucast_u8 by (rule u8_eqI)
  qed simp
  finally show ?thesis by (simp add: crc_byte_inj)
qed

lemma foldl_crc_inj: "foldl crc_byte a xs = foldl crc_byte a' xs \<longleftrightarrow> a = a'"
  by (induction xs arbitrary: a a') (simp_all add: crc_byte_state)

lemma crc32_update:
  assumes "i < length xs" "b \<noteq> xs ! i"
  shows "crc32 (xs[i := b]) \<noteq> crc32 xs"
proof -
  let ?s = "foldl crc_byte 0xFFFFFFFF (take i xs)"
  have "xs = take i xs @ xs ! i # drop (Suc i) xs" using assms(1) by (rule id_take_nth_drop)
  then have a: "foldl crc_byte 0xFFFFFFFF xs = foldl crc_byte (crc_byte ?s (xs ! i)) (drop (Suc i) xs)"
    by (metis foldl_append foldl_Cons)
  have "xs[i := b] = take i xs @ b # drop (Suc i) xs" using assms(1) by (rule upd_conv_take_nth_drop)
  then have b: "foldl crc_byte 0xFFFFFFFF (xs[i := b]) = foldl crc_byte (crc_byte ?s b) (drop (Suc i) xs)"
    by simp
  show ?thesis using assms(2) unfolding crc32_def a b by (simp add: foldl_crc_inj crc_byte_data)
qed

lemma splice4_update:
  assumes "at + 4 \<le> length buf" "length zs = 4"
  shows "splice4 (buf[i := b]) at zs =
    (if at \<le> i \<and> i < at + 4 then splice4 buf at zs else (splice4 buf at zs)[i := b])"
proof -
  consider "i < at" | "at \<le> i" "i < at + 4" | "at + 4 \<le> i" by linarith
  then show ?thesis
  proof cases
    case 3
    then have "i - at - 4 = i - (at + 4)" "\<not> i - at < 4" by simp_all
    with 3 assms show ?thesis
      by (simp add: splice4_def list_update_append drop_update_swap)
  next
    case 2
    with assms show ?thesis by (simp add: splice4_def take_update_cancel)
  qed (use assms in \<open>simp add: splice4_def list_update_append take_update_swap\<close>)
qed

text \<open>Any one byte, in the checksum field or outside it.\<close>

lemma verify_notices:
  assumes ok: "verify_crc buf at = Inr ()" and i: "i < length buf" and b: "b \<noteq> buf ! i"
  shows "\<exists>s c. verify_crc (buf[i := b]) at = Inl (BadCrc s c)"
proof -
  have len: "at + 4 \<le> length buf" and eq: "u32_le (take 4 (drop at buf)) = crc32 (splice4 buf at [0, 0, 0, 0])"
    using ok by (auto simp: verify_crc_def Let_def split: if_splits)
  let ?z = "splice4 buf at [0, 0, 0, 0]"
  have "u32_le (take 4 (drop at (buf[i := b]))) \<noteq> crc32 (splice4 (buf[i := b]) at [0, 0, 0, 0])"
  proof (cases "at \<le> i \<and> i < at + 4")
    case True
    have "take 4 (drop at (buf[i := b])) = (take 4 (drop at buf))[i - at := b]"
      using True by (simp add: drop_update_swap take_update_swap)
    also have "\<dots> \<noteq> take 4 (drop at buf)"
    proof
      assume "(take 4 (drop at buf))[i - at := b] = take 4 (drop at buf)"
      then have "(take 4 (drop at buf))[i - at := b] ! (i - at) = take 4 (drop at buf) ! (i - at)" by simp
      moreover have "i - at < 4" "i - at < length (take 4 (drop at buf))" "at + (i - at) = i"
        using True len by auto
      ultimately show False using b by (simp add: nth_list_update_eq)
    qed
    finally have "take 4 (drop at (buf[i := b])) \<noteq> take 4 (drop at buf)" .
    moreover have "length (take 4 (drop at (buf[i := b]))) = 4" "length (take 4 (drop at buf)) = 4"
      using len by simp_all
    ultimately have "u32_le (take 4 (drop at (buf[i := b]))) \<noteq> u32_le (take 4 (drop at buf))"
      by (metis le_u32_u32_le)
    then show ?thesis using eq True len by (simp add: splice4_update)
  next
    case False
    then have "take 4 (drop at (buf[i := b])) = take 4 (drop at buf)"
      by (cases "i < at") (simp_all add: drop_update_swap take_update_cancel)
    moreover have "?z ! i = buf ! i" "i < length ?z"
      using False len i by (auto simp: splice4_def nth_append)
    then have "crc32 (?z[i := b]) \<noteq> crc32 ?z" using b by (intro crc32_update) simp_all
    ultimately show ?thesis using eq False len by (simp add: splice4_update)
  qed
  then show ?thesis using len by (simp add: verify_crc_def Let_def)
qed

section \<open>Containers\<close>

text \<open>
  The prologue of every container's \<open>from_bytes\<close>: the magic, the checksum, then the body, read
  from behind the magic.
\<close>

definition open_container :: "u8 list \<Rightarrow> nat \<Rightarrow> 'a parser \<Rightarrow> u8 list \<Rightarrow> format_error + 'a" where
  "open_container magic at body bytes =
     (if length bytes < 3 then Inl Truncated
      else if take 3 bytes \<noteq> magic then Inl BadMagic
      else case verify_crc bytes at of
             Inl e \<Rightarrow> Inl e
           | Inr _ \<Rightarrow> map_sum id fst (body (rd_new (drop 3 bytes))))"

lemma open_container_Inr:
  "open_container magic at body bs = Inr x \<longleftrightarrow>
     3 \<le> length bs \<and> take 3 bs = magic \<and> verify_crc bs at = Inr ()
     \<and> (\<exists>r. body (rd_new (drop 3 bs)) = Inr (x, r))"
  by (auto simp: open_container_def split: sum.splits)

lemma open_container_damage:
  assumes "open_container magic at body bs = Inr x" "i < length bs" "b \<noteq> bs ! i"
  shows "open_container magic at body (bs[i := b]) = Inl BadMagic
    \<or> (\<exists>s c. open_container magic at body (bs[i := b]) = Inl (BadCrc s c))"
proof -
  have v: "verify_crc bs at = Inr ()" and n: "3 \<le> length bs"
    using assms(1) by (simp_all add: open_container_Inr)
  obtain s c where "verify_crc (bs[i := b]) at = Inl (BadCrc s c)"
    using verify_notices [OF v assms(2,3)] by blast
  then show ?thesis using n by (simp add: open_container_def)
qed

lemma open_stamped:
  assumes "length magic = 3" "3 + length head = at" "\<And>crc. completes body (head @ le_u32 crc @ rest) x"
  shows "\<exists>bs. stamp_crc (magic @ head @ [0, 0, 0, 0] @ rest) at = Some bs \<and> open_container magic at body bs = Inr x"
proof -
  let ?c = "crc32 ((magic @ head) @ [0, 0, 0, 0] @ rest)"
  let ?bs = "magic @ head @ le_u32 ?c @ rest"
  have at: "length (magic @ head) = at" using assms by simp
  have s: "stamp_crc (magic @ head @ [0, 0, 0, 0] @ rest) at = Some ?bs"
    using stamp_shape [of "magic @ head" rest] unfolding at by simp
  have "open_container magic at body ?bs = map_sum id fst (body (rd_new (head @ le_u32 ?c @ rest)))"
    using stamped_verifies [OF s] assms(1) by (simp add: open_container_def)
  also have "\<dots> = Inr x" by (rule completes_new [OF assms(3)])
  finally have "open_container magic at body ?bs = Inr x" .
  with s show ?thesis by blast
qed

end
