(* ===== verification/Wire.thy ===== *)
theory Wire
  imports Crc32
begin

text \<open>
  What the larger containers share: Rust strings as their UTF-8 bytes, writers that thread the
  output and may panic on a length that does not fit its field, and the relation between a writer
  and the parser that reads its bytes back. The \<open>wire\<close> interface is a kind of value with such a
  pair; its client lemmas carry the pair to sequences of values.
\<close>

section \<open>Strings\<close>

text \<open>A \<open>String\<close> is its UTF-8 bytes; \<open>utf8_ok\<close> is the test of \<open>std::str::from_utf8\<close>.\<close>

type_synonym utf8 = "u8 list"

definition utf8_tail :: "u8 \<Rightarrow> bool" where
  "utf8_tail b \<longleftrightarrow> 0x80 \<le> b \<and> b \<le> 0xBF"

fun utf8_ok :: "utf8 \<Rightarrow> bool" where
  "utf8_ok [] = True"
| "utf8_ok (a # bs) =
     (if a \<le> 0x7F then utf8_ok bs
      else if 0xC2 \<le> a \<and> a \<le> 0xDF then
        (case bs of b # cs \<Rightarrow> utf8_tail b \<and> utf8_ok cs | _ \<Rightarrow> False)
      else if 0xE0 \<le> a \<and> a \<le> 0xEF then
        (case bs of
           b # c # ds \<Rightarrow>
             (if a = 0xE0 then 0xA0 \<le> b \<and> b \<le> 0xBF
              else if a = 0xED then 0x80 \<le> b \<and> b \<le> 0x9F else utf8_tail b)
             \<and> utf8_tail c \<and> utf8_ok ds
         | _ \<Rightarrow> False)
      else if 0xF0 \<le> a \<and> a \<le> 0xF4 then
        (case bs of
           b # c # d # es \<Rightarrow>
             (if a = 0xF0 then 0x90 \<le> b \<and> b \<le> 0xBF
              else if a = 0xF4 then 0x80 \<le> b \<and> b \<le> 0x8F else utf8_tail b)
             \<and> utf8_tail c \<and> utf8_tail d \<and> utf8_ok es
         | _ \<Rightarrow> False)
      else False)"

text \<open>Plain ASCII is UTF-8.\<close>

lemma utf8_ascii: "\<forall>b \<in> set s. b \<le> 0x7F \<Longrightarrow> utf8_ok s"
  by (induction s) simp_all

section \<open>Writers\<close>

text \<open>A writer appends to the output; \<open>None\<close> is the panic of an \<open>expect\<close>.\<close>

type_synonym writer = "u8 list \<Rightarrow> u8 list option"

definition emit :: "u8 list \<Rightarrow> writer" where
  "emit bs out = Some (out @ bs)"

definition emit_u8 :: "u8 \<Rightarrow> writer" where
  "emit_u8 b = emit [b]"

definition emit_u16 :: "u16 \<Rightarrow> writer" where
  "emit_u16 v out = Some (put_u16 out v)"

definition emit_u32 :: "u32 \<Rightarrow> writer" where
  "emit_u32 v out = Some (put_u32 out v)"

definition emit_i64 :: "int \<Rightarrow> writer" where
  "emit_i64 v out = Some (put_i64 out v)"

definition count_u8 :: "nat \<Rightarrow> writer" where
  "count_u8 n = (case try_u8 n of None \<Rightarrow> (\<lambda>_. None) | Some v \<Rightarrow> emit_u8 v)"

definition count_u16 :: "nat \<Rightarrow> writer" where
  "count_u16 n = (case try_u16 n of None \<Rightarrow> (\<lambda>_. None) | Some v \<Rightarrow> emit_u16 v)"

definition count_u32 :: "nat \<Rightarrow> writer" where
  "count_u32 n = (case try_u32 n of None \<Rightarrow> (\<lambda>_. None) | Some v \<Rightarrow> emit_u32 v)"

text \<open>One statement after the other, and a loop over a list.\<close>

fun in_order :: "writer list \<Rightarrow> writer" where
  "in_order [] out = Some out"
| "in_order (w # ws) out = (case w out of None \<Rightarrow> None | Some out' \<Rightarrow> in_order ws out')"

definition each :: "('a \<Rightarrow> writer) \<Rightarrow> 'a list \<Rightarrow> writer" where
  "each f xs = in_order (map f xs)"

text \<open>A byte string with a \<open>u32\<close> length, a string with a \<open>u16\<close> length.\<close>

definition emit_blob :: "u8 list \<Rightarrow> writer" where
  "emit_blob bs = in_order [count_u32 (length bs), emit bs]"

definition emit_str :: "utf8 \<Rightarrow> writer" where
  "emit_str s = in_order [count_u16 (length s), emit s]"

definition rd_blob :: "u8 list parser" where
  "rd_blob = and_then rd_u32 (\<lambda>n. and_then (rd_bytes (unat n)) yields)"

definition rd_str :: "string \<Rightarrow> utf8 parser" where
  "rd_str msg =
     and_then rd_u16 (\<lambda>n. and_then (rd_bytes (unat n)) (\<lambda>raw.
       check (\<not> utf8_ok raw) (MalformedFile msg) (yields raw)))"

text \<open>A value or an error computed between two reads.\<close>

definition lift_res :: "format_error + 'a \<Rightarrow> 'a parser" where
  "lift_res x r = map_sum id (\<lambda>v. (v, r)) x"

section \<open>A writer and its parser\<close>

definition writes :: "writer \<Rightarrow> u8 list \<Rightarrow> bool" where
  "writes w bs \<longleftrightarrow> (\<forall>out. w out = Some (out @ bs))"

definition coupled :: "writer \<Rightarrow> 'a parser \<Rightarrow> 'a \<Rightarrow> bool" where
  "coupled w p x \<longleftrightarrow> (\<exists>bs. writes w bs \<and> reads p bs x)"

named_theorems coupled_intros \<open>writers and the parsers that read their bytes\<close>

lemma coupledI: "writes w bs \<Longrightarrow> reads p bs x \<Longrightarrow> coupled w p x"
  by (auto simp: coupled_def)

lemma writes_in_order: "writes w bs \<Longrightarrow> writes (in_order ws) cs \<Longrightarrow> writes (in_order (w # ws)) (bs @ cs)"
  by (simp add: writes_def)

lemma coupled_nil [coupled_intros]: "coupled (in_order []) (yields x) x"
  by (rule coupledI [of _ "[]"]) (simp_all add: writes_def reads_yields)

lemma coupled_then:
  assumes "coupled w p x" "coupled (in_order ws) (k x) y"
  shows "coupled (in_order (w # ws)) (and_then p k) y"
proof -
  obtain bs cs where b: "writes w bs" "reads p bs x" "writes (in_order ws) cs" "reads (k x) cs y"
    using assms unfolding coupled_def by blast
  show ?thesis
  proof (rule coupledI)
    show "writes (in_order (w # ws)) (bs @ cs)" using b(1,3) by (rule writes_in_order)
    show "reads (and_then p k) (bs @ cs) y" by (rule reads_then [where x = x]) (rule b)+
  qed
qed

lemma coupled_check: "\<not> bad \<Longrightarrow> coupled w p x \<Longrightarrow> coupled w (check bad e p) x"
  by (simp add: check_def)

lemma writes_prims:
  "writes (emit bs) bs" "writes (emit_u8 b) [b]" "writes (emit_u16 v) (le_u16 v)"
  "writes (emit_u32 w) (le_u32 w)" "writes (emit_i64 i) (le_i64 i)"
  by (simp_all add: writes_def emit_def emit_u8_def emit_u16_def emit_u32_def emit_i64_def
      put_u16_def put_u32_def put_i64_def)

lemma coupled_prims [coupled_intros]:
  "length bs = n \<Longrightarrow> coupled (emit bs) (rd_bytes n) bs" "coupled (emit_u8 b) rd_u8 b"
  "coupled (emit_u16 v) rd_u16 v" "coupled (emit_u32 w) rd_u32 w"
  "in_i64 i \<Longrightarrow> coupled (emit_i64 i) rd_i64 i"
  by (rule coupledI, rule writes_prims, rule reads_u8 reads_u16 reads_u32 reads_i64 reads_bytes, assumption?)+

lemma coupled_counts [coupled_intros]:
  "n < 2 ^ 8 \<Longrightarrow> coupled (count_u8 n) rd_u8 (of_nat n)"
  "n < 2 ^ 16 \<Longrightarrow> coupled (count_u16 n) rd_u16 (of_nat n)"
  "n < 2 ^ 32 \<Longrightarrow> coupled (count_u32 n) rd_u32 (of_nat n)"
  by (simp_all add: count_u8_def count_u16_def count_u32_def try_u8_def try_u16_def try_u32_def coupled_prims)

lemma unat_counts [simp]:
  "n < 2 ^ 8 \<Longrightarrow> unat (of_nat n :: u8) = n"
  "n < 2 ^ 16 \<Longrightarrow> unat (of_nat n :: u16) = n"
  "n < 2 ^ 32 \<Longrightarrow> unat (of_nat n :: u32) = n"
  by (simp_all add: unat_of_nat)

lemma coupled_lift [coupled_intros]: "x = Inr v \<Longrightarrow> coupled (in_order ws) (k v) y \<Longrightarrow>
    coupled (in_order ws) (and_then (lift_res x) k) y"
proof -
  assume "x = Inr v" "coupled (in_order ws) (k v) y"
  moreover have "and_then (lift_res (Inr v)) k = k v"
    by (rule ext) (simp add: and_then_def lift_res_def)
  ultimately show ?thesis by simp
qed

text \<open>
  Loops. The writer of an element may know more than the value read back, so the loop is over the
  written items and the values are their images.
\<close>

lemma coupled_each:
  "(\<And>x. x \<in> set xs \<Longrightarrow> coupled (f x) p (g x)) \<Longrightarrow> length xs = n \<Longrightarrow>
    coupled (each f xs) (repeat n p) (map g xs)"
proof (induction xs arbitrary: n)
  case Nil
  then show ?case by (simp add: each_def coupled_nil del: in_order.simps)
next
  case (Cons a xs)
  have "coupled (each f xs) (repeat (length xs) p) (map g xs)" using Cons by simp
  then have tail: "coupled (in_order [each f xs]) (and_then (repeat (length xs) p) (\<lambda>ys. yields (g a # ys))) (g a # map g xs)"
    by (rule coupled_then) (rule coupled_nil)
  have "coupled (f a) p (g a)" using Cons.prems(1) by simp
  from coupled_then [OF this, where k = "\<lambda>y. and_then (repeat (length xs) p) (\<lambda>ys. yields (y # ys))"]
  have "coupled (in_order [f a, each f xs]) (repeat (Suc (length xs)) p) (g a # map g xs)"
    using tail by simp
  moreover have "in_order [f a, each f xs] = each f (a # xs)"
    by (rule ext) (simp add: each_def split: option.split)
  ultimately show ?case using Cons.prems(2) by auto
qed

section \<open>Interfaces of values on the wire\<close>

locale wire =
  fixes ok :: "'a \<Rightarrow> bool"
    and put :: "'a \<Rightarrow> writer"
    and parse :: "'a parser"
  assumes reads_back: "ok x \<Longrightarrow> coupled (put x) parse x"
begin

lemma reads_back_list: "\<forall>x \<in> set xs. ok x \<Longrightarrow> length xs = n \<Longrightarrow> coupled (each put xs) (repeat n parse) xs"
  using coupled_each [of xs put parse "\<lambda>x. x" n] reads_back by simp

lemma never_panics: "ok x \<Longrightarrow> \<exists>bs. put x out = Some (out @ bs)"
  using reads_back [of x] by (auto simp: coupled_def writes_def)

end

lemma coupled_blob [coupled_intros]: "length bs < 2 ^ 32 \<Longrightarrow> coupled (emit_blob bs) rd_blob bs"
  unfolding emit_blob_def rd_blob_def
  by (intro coupled_then [where x = "of_nat (length bs)"] coupled_then [where x = bs] coupled_intros) simp_all

lemma coupled_str [coupled_intros]:
  "utf8_ok s \<Longrightarrow> length s < 2 ^ 16 \<Longrightarrow> coupled (emit_str s) (rd_str msg) s"
  unfolding emit_str_def rd_str_def
  by (intro coupled_then [where x = "of_nat (length s)"] coupled_then [where x = s] coupled_check coupled_intros) simp_all

interpretation u8_wire: wire "\<lambda>_. True" emit_u8 rd_u8
  by unfold_locales (rule coupled_prims)

interpretation u32_wire: wire "\<lambda>_. True" emit_u32 rd_u32
  by unfold_locales (rule coupled_prims)

interpretation blob_wire: wire "\<lambda>bs. length bs < 2 ^ 32" emit_blob rd_blob
  by unfold_locales (rule coupled_blob)

interpretation str_wire: wire "\<lambda>s. utf8_ok s \<and> length s < 2 ^ 16" emit_str "rd_str msg" for msg
  by unfold_locales (simp add: coupled_str)

section \<open>Whole files\<close>

text \<open>The rest of a file, up to \<open>finish\<close> and what is checked after it.\<close>

definition file_of :: "writer list \<Rightarrow> 'a parser \<Rightarrow> 'a \<Rightarrow> bool" where
  "file_of ws p x \<longleftrightarrow> (\<exists>bs. writes (in_order ws) bs \<and> completes p bs x)"

lemma file_then:
  assumes "coupled w p v" "file_of ws (k v) x"
  shows "file_of (w # ws) (and_then p k) x"
proof -
  obtain bs cs where b: "writes w bs" "reads p bs v" "writes (in_order ws) cs" "completes (k v) cs x"
    using assms unfolding coupled_def file_of_def by blast
  then have "writes (in_order (w # ws)) (bs @ cs)" by (intro writes_in_order)
  moreover have "completes (and_then p k) (bs @ cs) x"
    by (rule completes_then [where x = v]) (rule b)+
  ultimately show ?thesis unfolding file_of_def by blast
qed

lemma file_check: "\<not> bad \<Longrightarrow> file_of ws p x \<Longrightarrow> file_of ws (check bad e p) x"
  by (simp add: check_def)

lemma file_finish: "completes (k ()) [] x \<Longrightarrow> file_of [] (and_then rd_finish k) x"
  unfolding file_of_def by (auto simp: writes_def intro!: completes_finish)

lemma file_cong: "file_of ws p x \<Longrightarrow> in_order ws' = in_order ws \<Longrightarrow> file_of ws' p x"
  by (simp add: file_of_def)

lemma completes_lift: "x = Inr v \<Longrightarrow> completes (k v) bs y \<Longrightarrow> completes (and_then (lift_res x) k) bs y"
  by (simp add: completes_def and_then_def lift_res_def)

lemma in_order_append:
  "in_order (ws @ vs) out = (case in_order ws out of None \<Rightarrow> None | Some out' \<Rightarrow> in_order vs out')"
  by (induction ws arbitrary: out) (simp_all split: option.split)

lemma in_order_flat: "in_order (in_order ws # vs) = in_order (ws @ vs)"
  by (rule ext) (simp add: in_order_append)

lemma in_order_concat: "in_order (map in_order wss) out = in_order (concat wss) out"
  by (induction wss arbitrary: out) (simp_all add: in_order_append split: option.split)

lemma in_order_one: "in_order [w] = w"
  by (rule ext) (simp split: option.split)

lemma and_then_assoc: "and_then (and_then p f) k = and_then p (\<lambda>x. and_then (f x) k)"
  by (rule ext) (simp add: and_then_def split: sum.split)

lemma and_then_yields: "and_then (yields x) k = k x"
  by (rule ext) (simp add: and_then_def yields_def)

lemma le_u32_zero: "le_u32 0 = [0, 0, 0, 0]"
proof -
  have four: "(4 :: nat) = Suc (Suc (Suc (Suc 0)))" by simp
  show ?thesis unfolding le_u32_def four by simp
qed

text \<open>Header, zeroed checksum field, rest; then the stamp. \<open>p\<close> reads the rest.\<close>

lemma container_round_trip:
  assumes "length magic = 3" "writes (in_order hs) head" "3 + length head = at" "file_of ws p x"
    and "\<And>bs crc. completes p bs x \<Longrightarrow> completes body (head @ le_u32 crc @ bs) x"
  shows "\<exists>out bs. in_order (emit magic # hs @ emit_u32 0 # ws) [] = Some out \<and> stamp_crc out at = Some bs
    \<and> open_container magic at body bs = Inr x"
proof -
  obtain rest where r: "writes (in_order ws) rest" "completes p rest x" using assms(4) by (auto simp: file_of_def)
  have "in_order (emit magic # hs @ emit_u32 0 # ws) [] = Some (magic @ head @ [0, 0, 0, 0] @ rest)"
    using assms(2) r(1)
    by (simp add: in_order_append writes_def emit_def emit_u32_def put_u32_def le_u32_zero)
  then show ?thesis using open_stamped [OF assms(1,3), of body rest x] assms(5) [OF r(2)] by auto
qed

section \<open>Field by field\<close>

lemma in_order_nested:
  "in_order (in_order [] # vs) = in_order vs"
  "in_order (in_order (w # ws) # vs) = in_order (w # in_order ws # vs)"
  "in_order (w # in_order [] # vs) = in_order (w # vs)"
  by (rule ext, simp split: option.split)+

text \<open>The steps of a fixed layout: each rule consumes one field of the writer and of the parser.\<close>

lemma coupled_fields:
  "coupled (in_order ws) (k1 b) y \<Longrightarrow> coupled (in_order (emit_u8 b # ws)) (and_then rd_u8 k1) y"
  "coupled (in_order ws) (k2 v) y \<Longrightarrow> coupled (in_order (emit_u16 v # ws)) (and_then rd_u16 k2) y"
  "coupled (in_order ws) (k3 w) y \<Longrightarrow> coupled (in_order (emit_u32 w # ws)) (and_then rd_u32 k3) y"
  "in_i64 i \<Longrightarrow> coupled (in_order ws) (k4 i) y \<Longrightarrow> coupled (in_order (emit_i64 i # ws)) (and_then rd_i64 k4) y"
  "length bs = n \<Longrightarrow> coupled (in_order ws) (k5 bs) y \<Longrightarrow> coupled (in_order (emit bs # ws)) (and_then (rd_bytes n) k5) y"
  "n < 2 ^ 8 \<Longrightarrow> coupled (in_order ws) (k1 (of_nat n)) y \<Longrightarrow> coupled (in_order (count_u8 n # ws)) (and_then rd_u8 k1) y"
  "n < 2 ^ 16 \<Longrightarrow> coupled (in_order ws) (k2 (of_nat n)) y \<Longrightarrow> coupled (in_order (count_u16 n # ws)) (and_then rd_u16 k2) y"
  "n < 2 ^ 32 \<Longrightarrow> coupled (in_order ws) (k3 (of_nat n)) y \<Longrightarrow> coupled (in_order (count_u32 n # ws)) (and_then rd_u32 k3) y"
  by (rule coupled_then, rule coupled_intros, assumption, assumption | rule coupled_then, rule coupled_intros, assumption)+

lemma file_fields:
  "file_of ws (k1 b) y \<Longrightarrow> file_of (emit_u8 b # ws) (and_then rd_u8 k1) y"
  "file_of ws (k2 v) y \<Longrightarrow> file_of (emit_u16 v # ws) (and_then rd_u16 k2) y"
  "file_of ws (k3 w) y \<Longrightarrow> file_of (emit_u32 w # ws) (and_then rd_u32 k3) y"
  "n < 2 ^ 8 \<Longrightarrow> file_of ws (k1 (of_nat n)) y \<Longrightarrow> file_of (count_u8 n # ws) (and_then rd_u8 k1) y"
  "n < 2 ^ 32 \<Longrightarrow> file_of ws (k3 (of_nat n)) y \<Longrightarrow> file_of (count_u32 n # ws) (and_then rd_u32 k3) y"
  by (rule file_then, rule coupled_intros, assumption, assumption | rule file_then, rule coupled_intros, assumption)+

lemma coupled_nested:
  "coupled (in_order vs) p y \<Longrightarrow> coupled (in_order (in_order [] # vs)) p y"
  "coupled (in_order (w # in_order ws # vs)) p y \<Longrightarrow> coupled (in_order (in_order (w # ws) # vs)) p y"
  by (simp_all only: in_order_nested)

lemma file_nested:
  "file_of vs p y \<Longrightarrow> file_of (in_order [] # vs) p y"
  "file_of (w # in_order ws # vs) p y \<Longrightarrow> file_of (in_order (w # ws) # vs) p y"
  by (simp_all only: file_of_def in_order_nested)

lemmas coupled_steps = coupled_fields coupled_nested coupled_nil
lemmas file_steps = file_fields file_nested

section \<open>What a parser ensures of the value it reads\<close>

definition ensures :: "'a parser \<Rightarrow> ('a \<Rightarrow> bool) \<Rightarrow> bool" where
  "ensures p P \<longleftrightarrow> (\<forall>r x r'. p r = Inr (x, r') \<longrightarrow> P x)"

lemma ensures_weaken: "ensures p P \<Longrightarrow> (\<And>x. P x \<Longrightarrow> Q x) \<Longrightarrow> ensures p Q"
  by (auto simp: ensures_def)

lemma ensures_then:
  "ensures p P \<Longrightarrow> (\<And>x. P x \<Longrightarrow> ensures (k x) Q) \<Longrightarrow> ensures (and_then p k) Q"
  unfolding ensures_def and_then_Inr by blast

lemma ensures_check: "(\<not> bad \<Longrightarrow> ensures p P) \<Longrightarrow> ensures (check bad e p) P"
  by (simp add: check_def ensures_def refuse_def)

lemma ensures_yields: "P x \<Longrightarrow> ensures (yields x) P"
  by (simp add: ensures_def yields_def)

lemma ensures_refuse: "ensures (refuse e) P"
  by (simp add: ensures_def refuse_def)

lemma ensures_any: "ensures p (\<lambda>_. True)"
  by (simp add: ensures_def)

lemma ensures_bytes: "ensures (rd_bytes n) (\<lambda>bs. length bs = n)"
  by (simp add: ensures_def rd_bytes_length)

lemma ensures_i64: "ensures rd_i64 in_i64"
  unfolding rd_i64_def
  by (rule ensures_then [OF ensures_any]) (simp add: ensures_yields i64_le_def)

lemma ensures_lift: "(\<And>v. x = Inr v \<Longrightarrow> P v) \<Longrightarrow> ensures (lift_res x) P"
  by (cases x) (simp_all add: ensures_def lift_res_def)

lemma ensures_lift_then: "(\<And>v. x = Inr v \<Longrightarrow> ensures (k v) Q) \<Longrightarrow> ensures (and_then (lift_res x) k) Q"
  by (rule ensures_then [OF ensures_lift [where P = "\<lambda>v. x = Inr v"]])

lemma unat_width: "unat (a :: u8) < 2 ^ 8" "unat (b :: u16) < 2 ^ 16" "unat (c :: u32) < 2 ^ 32"
  using unsigned_less [of a] unsigned_less [of b] unsigned_less [of c] by simp_all

lemma ensures_str: "ensures (rd_str msg) (\<lambda>s. utf8_ok s \<and> length s < 2 ^ 16)"
  unfolding rd_str_def
  by (intro ensures_then [OF ensures_any] ensures_then [OF ensures_bytes] ensures_check ensures_yields)
    (use unat_width(2) in auto)

lemma ensures_blob: "ensures rd_blob (\<lambda>bs. length bs < 2 ^ 32)"
  unfolding rd_blob_def
  by (intro ensures_then [OF ensures_any] ensures_then [OF ensures_bytes] ensures_yields)
    (use unat_width(3) in auto)

lemma ensures_repeat: "ensures p P \<Longrightarrow> ensures (repeat n p) (\<lambda>xs. length xs = n \<and> (\<forall>x \<in> set xs. P x))"
proof (induction n)
  case (Suc n)
  show ?case unfolding repeat.simps
    by (rule ensures_then [OF Suc.prems], rule ensures_then [OF Suc.IH [OF Suc.prems]])
      (simp add: ensures_yields)
qed (simp add: ensures_yields)

lemma open_container_ensures: "open_container magic at body bs = Inr x \<Longrightarrow> ensures body P \<Longrightarrow> P x"
  by (auto simp: open_container_Inr ensures_def)

section \<open>Counted sequences\<close>

lemma coupled_counted:
  assumes "length xs < 2 ^ 32" "coupled (each f xs) (repeat (length xs) p) ys" "coupled (in_order ws) (k ys) x"
  shows "coupled (in_order (count_u32 (length xs) # each f xs # ws))
    (and_then rd_u32 (\<lambda>n. and_then (repeat (unat n) p) k)) x"
  using assms by (intro coupled_fields) (simp_all add: coupled_then [where x = ys])

lemma file_counted:
  assumes "length xs < 2 ^ 32" "length xs = m" "coupled (each f xs') (repeat m p) ys"
    and "file_of ws (k (of_nat m) ys) x"
  shows "file_of (in_order [count_u32 (length xs), each f xs'] # ws)
    (and_then rd_u32 (\<lambda>n. and_then (repeat (unat n) p) (k n))) x"
proof -
  have "file_of (each f xs' # ws) (and_then (repeat m p) (k (of_nat m))) x"
    by (rule file_then [where v = ys]) (rule assms)+
  then have "file_of (count_u32 (length xs) # each f xs' # ws)
      (and_then rd_u32 (\<lambda>n. and_then (repeat (unat n) p) (k n))) x"
    using assms(1,2) by (intro file_fields) simp_all
  then show ?thesis by (simp only: file_of_def in_order_flat append.simps)
qed

end
