(* ===== verification/Executable.thy ===== *)
theory Executable
  imports Wire
begin

text \<open>
  The executable container \<open>MX\<close> (\<open>crates/core/src/formats/executable.rs\<close>): the code-only
  shape, version 1, and the sectioned shape, version 2, with their writer and reader. The two are
  inverse on every image a writer may be given, whatever is read satisfies the bounds the virtual
  machine relies on, and a damaged byte is always noticed.
\<close>

section \<open>The image\<close>

definition MAGIC_EXECUTABLE :: "u8 list" where "MAGIC_EXECUTABLE = [0x4D, 0x58, 0x01]"
definition MX_CRC_OFFSET :: nat where "MX_CRC_OFFSET = 7"
definition MX_FORMAT_VERSION_V1 :: u16 where "MX_FORMAT_VERSION_V1 = 1"
definition MX_FORMAT_VERSION_V2 :: u16 where "MX_FORMAT_VERSION_V2 = 2"

record executable =
  x_arch :: u8
  x_entry :: u32
  x_code :: "u8 list"
  x_tape_count :: u8
  x_profile :: u8
  x_cardinalities :: "u32 list"
  x_tables :: "u8 list"
  x_frames_offset :: u32

definition code_only :: "u8 \<Rightarrow> u32 \<Rightarrow> u8 list \<Rightarrow> executable" where
  "code_only arch entry code =
     \<lparr>x_arch = arch, x_entry = entry, x_code = code, x_tape_count = 1, x_profile = PROFILE_BASE,
      x_cardinalities = [], x_tables = [], x_frames_offset = 0\<rparr>"

definition sectioned ::
  "u8 \<Rightarrow> u32 \<Rightarrow> u8 list \<Rightarrow> u8 list \<Rightarrow> u8 \<Rightarrow> u8 \<Rightarrow> u32 list \<Rightarrow> executable" where
  "sectioned arch entry code tables tape_count profile cards =
     \<lparr>x_arch = arch, x_entry = entry, x_code = code, x_tape_count = tape_count, x_profile = profile,
      x_cardinalities = cards, x_tables = tables, x_frames_offset = 0\<rparr>"

definition with_frames_offset :: "executable \<Rightarrow> u32 \<Rightarrow> executable" where
  "with_frames_offset x offset = x\<lparr>x_frames_offset := offset\<rparr>"

definition is_v1_shape :: "executable \<Rightarrow> bool" where
  "is_v1_shape x \<longleftrightarrow>
     x_tape_count x = 1 \<and> x_profile x = PROFILE_BASE \<and> x_cardinalities x = [] \<and> x_tables x = []
     \<and> x_frames_offset x = 0"

section \<open>Writing\<close>

definition exe_to_bytes_v1 :: "executable \<Rightarrow> u8 list option" where
  "exe_to_bytes_v1 x =
     (case try_u32 (length (x_code x)) of
        None \<Rightarrow> None
      | Some n \<Rightarrow>
          let out = put_u16 MAGIC_EXECUTABLE MX_FORMAT_VERSION_V1 @ [x_arch x, 0];
              out = put_u32 (put_u32 (put_u32 out 0) (x_entry x)) n @ x_code x in
          stamp_crc out MX_CRC_OFFSET)"

definition exe_to_bytes_v2 :: "executable \<Rightarrow> u8 list option" where
  "exe_to_bytes_v2 x =
     (case (try_u32 (length (x_code x)), try_u32 (length (x_tables x))) of
        (Some n, Some t) \<Rightarrow>
          let out = put_u16 MAGIC_EXECUTABLE MX_FORMAT_VERSION_V2 @ [x_arch x, 0];
              out = put_u32 out 0 @ [x_tape_count x, x_profile x];
              out = put_u32 (put_u32 (put_u32 (put_u32 out (x_entry x)) n) t) (x_frames_offset x);
              out = foldl put_u32 out (x_cardinalities x) @ x_code x @ x_tables x in
          stamp_crc out MX_CRC_OFFSET
      | _ \<Rightarrow> None)"

definition exe_to_bytes :: "executable \<Rightarrow> u8 list option" where
  "exe_to_bytes x = (if is_v1_shape x then exe_to_bytes_v1 x else exe_to_bytes_v2 x)"

section \<open>Reading\<close>

definition exe_body_v1 :: "executable parser" where
  "exe_body_v1 =
     and_then rd_u8 (\<lambda>arch. and_then rd_u8 (\<lambda>flags. and_then rd_u32 (\<lambda>crc.
     and_then rd_u32 (\<lambda>entry. and_then rd_u32 (\<lambda>code_size.
     and_then (rd_bytes (unat code_size)) (\<lambda>code. and_then rd_finish (\<lambda>_.
     check (unat entry \<ge> length code) (MalformedFile ''entry offset outside code'')
       (yields (code_only arch entry code)))))))))"

text \<open>The two bytes of a \<open>u16\<close> in the table section.\<close>

definition u16_at :: "u8 list \<Rightarrow> nat \<Rightarrow> nat" where
  "u16_at tables i = unat (u16_le [tables ! i, tables ! (i + 1)])"

text \<open>The whole declared frames region lies inside the table section.\<close>

definition check_frames :: "u32 \<Rightarrow> u8 list \<Rightarrow> 'a parser \<Rightarrow> 'a parser" where
  "check_frames offset tables p =
     (if offset = 0 then p
      else let base = unat offset in
        check (base \<ge> length tables) (MalformedFile ''frames offset outside tables'')
       (check (base + 4 > length tables) (MalformedFile ''frames region exceeds the table section'')
       (let k = u16_at tables base; s = u16_at tables (base + 2);
            region_end = base + 4 + k * 4 + (k + 1) * s * 2 in
        check (region_end > length tables) (MalformedFile ''frames region exceeds the table section'') p)))"

definition exe_body_v2 :: "executable parser" where
  "exe_body_v2 =
     and_then rd_u8 (\<lambda>arch. and_then rd_u8 (\<lambda>flags. and_then rd_u32 (\<lambda>crc.
     and_then rd_u8 (\<lambda>tape_count.
     check (tape_count = 0 \<or> tape_count > 16) (MalformedFile ''tape count out of range'')
    (and_then rd_u8 (\<lambda>profile. and_then rd_u32 (\<lambda>entry.
     and_then rd_u32 (\<lambda>code_size. and_then rd_u32 (\<lambda>table_size. and_then rd_u32 (\<lambda>frames_offset.
     and_then (repeat (unat tape_count) rd_u32) (\<lambda>cards.
     and_then (rd_bytes (unat code_size)) (\<lambda>code. and_then (rd_bytes (unat table_size)) (\<lambda>tables.
     and_then rd_finish (\<lambda>_.
     check (unat entry \<ge> length code) (MalformedFile ''entry offset outside code'')
    (check_frames frames_offset tables
       (yields (with_frames_offset
          (sectioned arch entry code tables tape_count profile cards) frames_offset)))))))))))))))))"

definition exe_body :: "executable parser" where
  "exe_body =
     and_then rd_u16 (\<lambda>version.
       if version = MX_FORMAT_VERSION_V1 then exe_body_v1
       else if version = MX_FORMAT_VERSION_V2 then exe_body_v2
       else refuse (UnsupportedVersion version))"

definition exe_from_bytes :: "u8 list \<Rightarrow> format_error + executable" where
  "exe_from_bytes bytes = open_container MAGIC_EXECUTABLE MX_CRC_OFFSET exe_body bytes"

section \<open>Well-formed images\<close>

definition frames_region_ok :: "u32 \<Rightarrow> u8 list \<Rightarrow> bool" where
  "frames_region_ok offset tables \<longleftrightarrow>
     (offset = 0 \<or>
      (let base = unat offset; k = u16_at tables base; s = u16_at tables (base + 2) in
       base + 4 \<le> length tables \<and> base + 4 + k * 4 + (k + 1) * s * 2 \<le> length tables))"

text \<open>What a reader accepts, and the writer must be given for it to do so.\<close>

definition image_ok :: "executable \<Rightarrow> bool" where
  "image_ok x \<longleftrightarrow>
     unat (x_entry x) < length (x_code x) \<and> 1 \<le> x_tape_count x \<and> x_tape_count x \<le> 16
     \<and> (is_v1_shape x \<or> length (x_cardinalities x) = unat (x_tape_count x))
     \<and> frames_region_ok (x_frames_offset x) (x_tables x)"

definition image_fits :: "executable \<Rightarrow> bool" where
  "image_fits x \<longleftrightarrow> length (x_code x) < 2 ^ 32 \<and> length (x_tables x) < 2 ^ 32"

lemma check_frames_ok:
  "frames_region_ok offset tables \<Longrightarrow> check_frames offset tables p = p"
  by (auto simp: frames_region_ok_def check_frames_def check_def Let_def)

lemma foldl_put_u32: "foldl put_u32 out xs = out @ concat (map le_u32 xs)"
  by (induction xs arbitrary: out) (simp_all add: put_u32_def)

section \<open>The reader inverts the writer\<close>

lemma reads_u32s: "length cards = n \<Longrightarrow> reads (repeat n rd_u32) (concat (map le_u32 cards)) cards"
  using u32_codec.reads_list [of cards] by simp

lemma completes_u32s:
  "length cards = n \<Longrightarrow> completes (k cards) cs y \<Longrightarrow>
     completes (and_then (repeat n rd_u32) k) (concat (map le_u32 cards) @ cs) y"
  by (rule completes_then [OF reads_u32s])

lemma unat_of_length: "length xs < 2 ^ 32 \<Longrightarrow> unat (of_nat (length xs) :: u32) = length xs"
  by (simp add: unat_of_nat)

lemma body_v1:
  assumes "is_v1_shape x" "unat (x_entry x) < length (x_code x)" "length (x_code x) < 2 ^ 32"
  shows "completes exe_body (le_u16 MX_FORMAT_VERSION_V1 @ [x_arch x] @ [0] @ le_u32 crc @ le_u32 (x_entry x)
    @ le_u32 (of_nat (length (x_code x))) @ x_code x @ []) x"
proof -
  have x: "code_only (x_arch x) (x_entry x) (x_code x) = x"
    using assms(1) by (cases x) (simp add: code_only_def is_v1_shape_def)
  have "completes exe_body_v1 ([x_arch x] @ [0] @ le_u32 crc @ le_u32 (x_entry x)
      @ le_u32 (of_nat (length (x_code x))) @ x_code x @ []) (code_only (x_arch x) (x_entry x) (x_code x))"
    unfolding exe_body_v1_def
    by (intro completes_intros) (use assms in \<open>simp_all add: unat_of_length\<close>)
  then show ?thesis unfolding exe_body_def x by (intro completes_then [OF reads_u16]) simp
qed

lemma body_v2:
  assumes "image_ok x" "\<not> is_v1_shape x" "image_fits x"
  shows "completes exe_body (le_u16 MX_FORMAT_VERSION_V2 @ [x_arch x] @ [0] @ le_u32 crc
    @ [x_tape_count x] @ [x_profile x] @ le_u32 (x_entry x) @ le_u32 (of_nat (length (x_code x)))
    @ le_u32 (of_nat (length (x_tables x))) @ le_u32 (x_frames_offset x)
    @ concat (map le_u32 (x_cardinalities x)) @ x_code x @ x_tables x @ []) x"
proof -
  let ?y = "with_frames_offset (sectioned (x_arch x) (x_entry x) (x_code x) (x_tables x) (x_tape_count x)
      (x_profile x) (x_cardinalities x)) (x_frames_offset x)"
  have x: "?y = x" by (cases x) (simp add: sectioned_def with_frames_offset_def)
  have ok: "length (x_cardinalities x) = unat (x_tape_count x)" "unat (x_entry x) < length (x_code x)"
      "frames_region_ok (x_frames_offset x) (x_tables x)" "length (x_code x) < 2 ^ 32" "length (x_tables x) < 2 ^ 32"
    using assms by (simp_all add: image_ok_def image_fits_def)
  have tc: "\<not> (x_tape_count x = 0 \<or> x_tape_count x > 16)"
    using assms(1) by (auto simp: image_ok_def word_le_nat_alt word_less_nat_alt)
  have "completes exe_body_v2 ([x_arch x] @ [0] @ le_u32 crc
    @ [x_tape_count x] @ [x_profile x] @ le_u32 (x_entry x) @ le_u32 (of_nat (length (x_code x)))
    @ le_u32 (of_nat (length (x_tables x))) @ le_u32 (x_frames_offset x)
    @ concat (map le_u32 (x_cardinalities x)) @ x_code x @ x_tables x @ []) ?y"
    unfolding exe_body_v2_def
    by (intro completes_intros completes_u32s) (use ok tc in \<open>simp_all add: unat_of_length check_frames_ok completes_yields\<close>)
  then show ?thesis unfolding exe_body_def x
    by (intro completes_then [OF reads_u16]) (simp add: MX_FORMAT_VERSION_V1_def MX_FORMAT_VERSION_V2_def)
qed

lemma exe_round_trip:
  assumes "image_ok x" "image_fits x"
  shows "\<exists>bs. exe_to_bytes x = Some bs \<and> exe_from_bytes bs = Inr x"
proof (cases "is_v1_shape x")
  case True
  let ?head = "le_u16 MX_FORMAT_VERSION_V1 @ [x_arch x] @ [0]"
  let ?rest = "le_u32 (x_entry x) @ le_u32 (of_nat (length (x_code x))) @ x_code x @ []"
  have e: "exe_to_bytes x = stamp_crc (MAGIC_EXECUTABLE @ ?head @ [0, 0, 0, 0] @ ?rest) MX_CRC_OFFSET"
    using True assms(2)
    by (simp add: exe_to_bytes_def exe_to_bytes_v1_def try_u32_def image_fits_def put_u16_def put_u32_def le_u32_zero)
  show ?thesis unfolding e exe_from_bytes_def
  proof (rule open_stamped)
    show "completes exe_body (?head @ le_u32 crc @ ?rest) x" for crc
      using body_v1 [OF True] assms by (simp add: image_ok_def image_fits_def)
  qed (simp_all add: MAGIC_EXECUTABLE_def MX_CRC_OFFSET_def)
next
  case False
  let ?head = "le_u16 MX_FORMAT_VERSION_V2 @ [x_arch x] @ [0]"
  let ?rest = "[x_tape_count x] @ [x_profile x] @ le_u32 (x_entry x) @ le_u32 (of_nat (length (x_code x)))
    @ le_u32 (of_nat (length (x_tables x))) @ le_u32 (x_frames_offset x)
    @ concat (map le_u32 (x_cardinalities x)) @ x_code x @ x_tables x @ []"
  have e: "exe_to_bytes x = stamp_crc (MAGIC_EXECUTABLE @ ?head @ [0, 0, 0, 0] @ ?rest) MX_CRC_OFFSET"
    using False assms(2)
    by (simp add: exe_to_bytes_def exe_to_bytes_v2_def try_u32_def image_fits_def put_u16_def put_u32_def
        foldl_put_u32 le_u32_zero)
  show ?thesis unfolding e exe_from_bytes_def
  proof (rule open_stamped)
    show "completes exe_body (?head @ le_u32 crc @ ?rest) x" for crc
      using body_v2 [OF assms(1) False assms(2)] by simp
  qed (simp_all add: MAGIC_EXECUTABLE_def MX_CRC_OFFSET_def)
qed

section \<open>What a reader accepts\<close>

lemma check_frames_Inr:
  "check_frames offset tables p r = Inr y \<longleftrightarrow> frames_region_ok offset tables \<and> p r = Inr y"
  by (auto simp: check_frames_def frames_region_ok_def check_Inr Let_def)

lemma exe_accepted:
  assumes "exe_from_bytes bs = Inr x"
  shows "image_ok x"
proof -
  obtain r where r: "exe_body (rd_new (drop 3 bs)) = Inr (x, r)"
    using assms by (auto simp: exe_from_bytes_def open_container_Inr)
  have "frames_region_ok 0 []" by (simp add: frames_region_ok_def)
  with r show ?thesis
    unfolding exe_body_def exe_body_v1_def exe_body_v2_def
    by (auto simp: parse_Inr check_frames_Inr image_ok_def code_only_def sectioned_def with_frames_offset_def
        is_v1_shape_def not_le not_less dest!: repeat_length split: if_splits)
      (auto simp: word_le_nat_alt unat_gt_0 Suc_le_eq)
qed

lemma exe_accepted_fits: "exe_from_bytes bs = Inr x \<Longrightarrow> image_fits x"
proof -
  have small: "length xs < 2 ^ 32" if "length xs = unat (n :: u32)" for n and xs :: "u8 list"
    using that unat_width(3) [of n] by simp
  have frames: "ensures p P \<Longrightarrow> ensures (check_frames offset tables p) P" for p :: "executable parser" and P offset tables
    by (simp add: check_frames_def Let_def ensures_check)
  have "ensures exe_body_v1 image_fits"
    unfolding exe_body_v1_def
    by (intro ensures_then [OF ensures_bytes] ensures_check ensures_yields
        ensures_then [of rd_u8, OF ensures_any] ensures_then [of rd_u32, OF ensures_any] ensures_then [of rd_finish, OF ensures_any])
      (auto simp: image_fits_def code_only_def dest: small)
  moreover have "ensures exe_body_v2 image_fits"
    unfolding exe_body_v2_def
    by (intro ensures_then [OF ensures_bytes] ensures_check frames ensures_yields
        ensures_then [OF ensures_repeat [OF ensures_any]] ensures_then [of rd_u8, OF ensures_any]
        ensures_then [of rd_u32, OF ensures_any] ensures_then [of rd_finish, OF ensures_any])
      (auto simp: image_fits_def sectioned_def with_frames_offset_def dest: small)
  ultimately have "ensures exe_body image_fits"
    unfolding exe_body_def by (intro ensures_then [OF ensures_any]) (simp add: ensures_refuse)
  then show "exe_from_bytes bs = Inr x \<Longrightarrow> image_fits x"
    unfolding exe_from_bytes_def by (blast intro: open_container_ensures)
qed

lemma sample_image_ok: "image_ok (code_only 1 0 [0x0D])" "image_fits (code_only 1 0 [0x0D])"
  by (simp_all add: image_ok_def image_fits_def code_only_def frames_region_ok_def is_v1_shape_def)

section \<open>The properties of the container\<close>

text \<open>
  C18: an executable image survives its file. Every image a linker can build, in either shape, is
  written without a panic and read back as it was: entry, code, tables, tape count, profile,
  cardinalities and frames offset.
\<close>

theorem executable_roundtrip:
  assumes "image_ok x" and "length (x_code x) < 2 ^ 32" and "length (x_tables x) < 2 ^ 32"
  shows "\<exists>bs. exe_to_bytes x = Some bs \<and> exe_from_bytes bs = Inr x"
  using exe_round_trip [of x] assms by (simp add: image_fits_def)

theorem executable_roundtrip_witness:
  "\<exists>bs. exe_to_bytes (with_frames_offset (sectioned 2 0 [0x0D, 0x02] [9, 0, 0, 0, 0] 2 1 [3, 4]) 1) = Some bs
    \<and> exe_from_bytes bs = Inr (with_frames_offset (sectioned 2 0 [0x0D, 0x02] [9, 0, 0, 0, 0] 2 1 [3, 4]) 1)"
  by (rule executable_roundtrip)
    (simp_all add: image_ok_def sectioned_def with_frames_offset_def frames_region_ok_def u16_at_def u16_le_def)

text \<open>
  What the reader accepts: the entry lies inside the code, there are 1 to 16 tapes, the frames region
  lies wholly inside the table section, and the image has one cardinality per tape unless it has the
  code-only shape, which has none.
\<close>

theorem executable_accepted:
  assumes "exe_from_bytes bs = Inr x"
  shows "unat (x_entry x) < length (x_code x) \<and> 1 \<le> x_tape_count x \<and> x_tape_count x \<le> 16
    \<and> (is_v1_shape x \<or> length (x_cardinalities x) = unat (x_tape_count x))
    \<and> frames_region_ok (x_frames_offset x) (x_tables x)"
  using exe_accepted [OF assms] by (simp add: image_ok_def)

theorem executable_accepted_witness:
  "\<exists>bs. exe_from_bytes bs = Inr (code_only 1 0 [0x0D]) \<and> unat (x_entry (code_only 1 0 [0x0D])) < 1"
proof -
  obtain bs where r: "exe_from_bytes bs = Inr (code_only 1 0 [0x0D])"
    using exe_round_trip [OF sample_image_ok] by blast
  with executable_accepted [OF r] show ?thesis by (auto simp: code_only_def)
qed

end
