(* ===== verification/Machine.thy ===== *)
theory Machine
  imports Driver Executable
begin

text \<open>
  The loader and the runs it starts (\<open>crates/core/src/vm/machine.rs\<close>): an executable image and a
  registry of architectures make a machine, or a load error; a machine runs against tape devices
  that match the image's header. An image that was read from a file and loads can be run safely,
  and its frames region lies where the processor will look for it.
\<close>

section \<open>Loading\<close>

type_synonym arch_registry = "arch list"

definition registry_get :: "arch_registry \<Rightarrow> u8 \<Rightarrow> arch option" where
  "registry_get reg aid = find (\<lambda>a. arch_id a = aid) reg"

definition registry_register :: "arch_registry \<Rightarrow> arch \<Rightarrow> arch_registry" where
  "registry_register reg a = reg @ [a]"

datatype load_error =
    UnknownArch u8
  | EntryNotEntryMarker u32
  | UnsupportedProfile u8

record run_options =
  ro_stack_depth :: nat
  ro_profile :: tact_profile
  ro_limits :: run_limits

definition default_options :: run_options where
  "default_options =
     \<lparr>ro_stack_depth = 1024, ro_profile = electronic, ro_limits = \<lparr>max_steps = None, max_tacts = None\<rparr>\<rparr>"

datatype run_setup_error =
    DeviceCount u8 nat
  | AlphabetMismatch u8 u32 u32

record machine =
  mc_arch :: arch
  mc_code :: "u8 list"
  mc_entry :: u32
  mc_tables :: "u8 list"
  mc_tape_count :: u8
  mc_profile :: u8
  mc_cardinalities :: "u32 list"
  mc_frames_offset :: u32

definition with_arch :: "arch \<Rightarrow> u8 list \<Rightarrow> u32 \<Rightarrow> load_error + machine" where
  "with_arch a code entry =
     (case nth_opt code (unat entry) of
        Some byte \<Rightarrow>
          if is_entry_marker a byte
          then Inr \<lparr>mc_arch = a, mc_code = code, mc_entry = entry, mc_tables = [], mc_tape_count = 1,
            mc_profile = PROFILE_BASE, mc_cardinalities = [], mc_frames_offset = 0\<rparr>
          else Inl (EntryNotEntryMarker entry)
      | None \<Rightarrow> Inl (EntryNotEntryMarker entry))"

definition from_executable :: "executable \<Rightarrow> arch_registry \<Rightarrow> load_error + machine" where
  "from_executable exe reg =
     (case registry_get reg (x_arch exe) of
        None \<Rightarrow> Inl (UnknownArch (x_arch exe))
      | Some a \<Rightarrow>
          if x_profile exe > PROFILE_FRAMES then Inl (UnsupportedProfile (x_profile exe))
          else map_sum id
            (\<lambda>m. m\<lparr>mc_tables := x_tables exe, mc_tape_count := x_tape_count exe, mc_profile := x_profile exe,
                   mc_cardinalities := x_cardinalities exe, mc_frames_offset := x_frames_offset exe\<rparr>)
            (with_arch a (x_code exe) (x_entry exe)))"

section \<open>Running\<close>

definition meta_u16 :: "u8 list \<Rightarrow> nat \<Rightarrow> u16" where
  "meta_u16 tables p =
     (case (nth_opt tables p, nth_opt tables (p + 1)) of
        (Some lo, Some hi) \<Rightarrow> u16_le [lo, hi]
      | _ \<Rightarrow> 0)"

definition frames_meta_of :: "machine \<Rightarrow> frames_meta" where
  "frames_meta_of m =
     (let base = unat (mc_frames_offset m) in
      \<lparr>fm_base = mc_frames_offset m, composites = meta_u16 (mc_tables m) base,
       sites = meta_u16 (mc_tables m) (base + 2)\<rparr>)"

definition build_core :: "machine \<Rightarrow> core" where
  "build_core m =
     (let c = with_device_count (mc_tape_count m) (core_new (mc_entry m)) in
      if mc_profile m = PROFILE_FRAMES then with_frames (frames_meta_of m) c else c)"

definition machine_env :: "machine \<Rightarrow> run_options \<Rightarrow> env" where
  "machine_env m opts =
     \<lparr>e_arch = mc_arch m, e_code = mc_code m, e_tables = mc_tables m, e_profile = ro_profile opts,
      e_limits = ro_limits opts\<rparr>"

text \<open>
  The initial mark of a single-tape machine: \<open>devices[0].read() == 1\<close>. Without a device the index
  panics.
\<close>

definition latch_mark :: "tape_dev list \<Rightarrow> core \<Rightarrow> core option" where
  "latch_mark devs c =
     (case nth_opt devs 0 of
        None \<Rightarrow> None
      | Some d \<Rightarrow> (case tape_read d of None \<Rightarrow> None | Some s \<Rightarrow> Some (set_mf (s = 1) c)))"

definition drive :: "machine \<Rightarrow> tape_dev list \<Rightarrow> run_options \<Rightarrow> bool \<Rightarrow> (run_result \<times> vm) option" where
  "drive m devs opts preload_mark =
     (case (if preload_mark then latch_mark devs (build_core m) else Some (build_core m)) of
        None \<Rightarrow> None
      | Some c \<Rightarrow> run (machine_env m opts) c (stack_new (ro_stack_depth opts)) devs)"

definition machine_run :: "machine \<Rightarrow> tape_dev \<Rightarrow> run_options \<Rightarrow> (run_result \<times> vm) option" where
  "machine_run m d opts = drive m [d] opts True"

text \<open>The first device, from index \<open>i\<close>, whose alphabet is not the declared one.\<close>

fun check_alphabets :: "nat \<Rightarrow> (tape_dev \<times> u32) list \<Rightarrow> (run_setup_error + unit) option" where
  "check_alphabets i [] = Some (Inr ())"
| "check_alphabets i ((d, expected) # rest) =
     (if tape_alphabet_size d \<noteq> expected
      then (case try_u8 i of
              None \<Rightarrow> None
            | Some t \<Rightarrow> Some (Inl (AlphabetMismatch t expected (tape_alphabet_size d))))
      else check_alphabets (i + 1) rest)"

definition run_tapes ::
  "machine \<Rightarrow> tape_dev list \<Rightarrow> run_options \<Rightarrow> (run_setup_error + run_result \<times> vm) option" where
  "run_tapes m devs opts =
     (if length devs \<noteq> unat (mc_tape_count m)
      then Some (Inl (DeviceCount (mc_tape_count m) (length devs)))
      else case (if mc_cardinalities m = [] then Some (Inr ())
                 else check_alphabets 0 (zip devs (mc_cardinalities m))) of
             None \<Rightarrow> None
           | Some (Inl e) \<Rightarrow> Some (Inl e)
           | Some (Inr _) \<Rightarrow> map_option Inr (drive m devs opts False))"

section \<open>What the loader checks\<close>

lemma build_core_reset:
  "build_core m = core_reset (mc_entry m) (mc_tape_count m)
     (if mc_profile m = PROFILE_FRAMES then Some (frames_meta_of m) else None)"
  by (simp add: build_core_def core_reset_def Let_def)

lemma ready_set_mf: "ready started v \<Longrightarrow> ready started (v\<lparr>v_core := set_mf b (v_core v)\<rparr>)"
proof -
  have f: "core_ok (set_mf b c) = core_ok c" "frame_ok (set_mf b c) = frame_ok c"
    "c_phase (set_mf b c) = c_phase c" for c
  proof -
    have "pending_ok (c\<lparr>c_mr := x\<rparr>) p = pending_ok c p" for p x
      by (cases p) (auto simp: frame_ok_def frames_on_def dev_ok_def)
    then show "core_ok (set_mf b c) = core_ok c"
      by (simp add: core_ok_def set_mf_def ok_defs split: phase.split)
  qed (simp_all add: set_mf_def frame_ok_def frames_on_def)
  have "paired (v\<lparr>v_core := set_mf b (v_core v)\<rparr>) = paired v"
    by (simp add: paired_def frames_on_def set_mf_def)
  then show "ready started v \<Longrightarrow> ready started (v\<lparr>v_core := set_mf b (v_core v)\<rparr>)"
    by (simp add: ready_def vm_ok_def f)
qed

lemma latched_ready:
  "\<forall>d \<in> set devs. tape_ok d \<Longrightarrow>
     ready False \<lparr>v_core = set_mf b (core_reset entry n meta), v_stack = stack_new cap, v_devs = devs, v_stats = stats_new\<rparr>"
  using ready_set_mf [OF fresh_ready [of devs entry n meta cap], of b] by (simp add: fresh_vm_def)

lemma from_executable_Inr:
  "from_executable x reg = Inr m \<longleftrightarrow>
     (\<exists>a. registry_get reg (x_arch x) = Some a \<and> x_profile x \<le> PROFILE_FRAMES
        \<and> unat (x_entry x) < length (x_code x) \<and> is_entry_marker a (x_code x ! unat (x_entry x))
        \<and> m = \<lparr>mc_arch = a, mc_code = x_code x, mc_entry = x_entry x, mc_tables = x_tables x,
            mc_tape_count = x_tape_count x, mc_profile = x_profile x, mc_cardinalities = x_cardinalities x,
            mc_frames_offset = x_frames_offset x\<rparr>)"
  by (auto simp: from_executable_def with_arch_def not_le split: option.split)

lemma registry_get_Some: "registry_get reg aid = Some a \<Longrightarrow> a \<in> set reg \<and> arch_id a = aid"
  by (auto simp: registry_get_def find_Some_iff)

text \<open>A drive of well-formed devices under limits returns.\<close>

lemma drive_returns:
  assumes "length (mc_code m) < 2 ^ 32" "limited (ro_limits opts)" "\<forall>d \<in> set devs. tape_ok d"
    and "preload \<longrightarrow> devs \<noteq> []"
  shows "\<exists>res v'. drive m devs opts preload = Some (res, v') \<and> vm_ok v'
    \<and> length (r_stack res) \<le> ro_stack_depth opts"
proof -
  let ?e = "machine_env m opts"
  have lim: "length (e_code ?e) < 2 ^ 32" "limited (e_limits ?e)" using assms by (simp_all add: machine_env_def)
  have good: "\<exists>res v'. run ?e c (stack_new (ro_stack_depth opts)) devs = Some (res, v') \<and> vm_ok v'
      \<and> length (r_stack res) \<le> ro_stack_depth opts"
    if "ready False \<lparr>v_core = c, v_stack = stack_new (ro_stack_depth opts), v_devs = devs, v_stats = stats_new\<rparr>" for c
    using run_loop_returns [OF lim(1) that] roomy_new [OF lim(2)] by (auto simp: run_def run_good_def vm_ok_def stack_new_def)
  show ?thesis
  proof (cases preload)
    case True
    then obtain d ds where d: "devs = d # ds" using assms(4) by (cases devs) auto
    then have "tape_read d = Some (tape_cells d (tape_head d))" using assms(3) by (intro dyn.read_cell) simp
    then have "latch_mark devs (build_core m) = Some (set_mf (tape_cells d (tape_head d) = 1) (build_core m))"
      by (simp add: latch_mark_def d)
    then show ?thesis using True good [OF latched_ready [OF assms(3)]] by (simp add: drive_def build_core_reset)
  next
    case False
    then show ?thesis using good [OF fresh_ready [OF assms(3), unfolded fresh_vm_def]]
      by (simp add: drive_def build_core_reset)
  qed
qed

lemma check_alphabets_ok:
  "check_alphabets i ps = Some (Inr ()) \<longleftrightarrow> (\<forall>(d, n) \<in> set ps. tape_alphabet_size d = n)"
  by (induction ps arbitrary: i) (auto split: option.splits if_splits)

lemma check_alphabets_total:
  "i + length ps \<le> 2 ^ 8 \<Longrightarrow> check_alphabets i ps \<noteq> None"
  by (induction ps arbitrary: i) (auto simp: try_u8_def)

lemma check_alphabets_first:
  "check_alphabets i ps = Some (Inl e) \<Longrightarrow>
     \<exists>k < length ps. (\<forall>j < k. tape_alphabet_size (fst (ps ! j)) = snd (ps ! j))
       \<and> tape_alphabet_size (fst (ps ! k)) \<noteq> snd (ps ! k)
       \<and> e = AlphabetMismatch (of_nat (i + k)) (snd (ps ! k)) (tape_alphabet_size (fst (ps ! k)))"
proof (induction ps arbitrary: i)
  case (Cons p ps)
  obtain d n where p: "p = (d, n)" by (cases p)
  show ?case
  proof (cases "tape_alphabet_size d = n")
    case True
    then obtain k where "k < length ps" "\<forall>j < k. tape_alphabet_size (fst (ps ! j)) = snd (ps ! j)"
        "tape_alphabet_size (fst (ps ! k)) \<noteq> snd (ps ! k)"
        "e = AlphabetMismatch (of_nat (Suc i + k)) (snd (ps ! k)) (tape_alphabet_size (fst (ps ! k)))"
      using Cons p by fastforce
    then show ?thesis using True p by (intro exI [of _ "Suc k"]) (auto simp: less_Suc_eq_0_disj)
  next
    case False
    then show ?thesis using Cons.prems p
      by (intro exI [of _ 0]) (auto simp: try_u8_def split: if_splits option.splits)
  qed
qed simp

section \<open>The properties of the loader\<close>

text \<open>The devices fit the header of the image.\<close>

definition devices_match :: "machine \<Rightarrow> tape_dev list \<Rightarrow> bool" where
  "devices_match m devs \<longleftrightarrow>
     length devs = unat (mc_tape_count m)
     \<and> (\<forall>(d, n) \<in> set (zip devs (mc_cardinalities m)). tape_alphabet_size d = n)"

lemma run_tapes_returns:
  assumes "length (mc_code m) < 2 ^ 32" "limited (ro_limits opts)" "\<forall>d \<in> set devs. tape_ok d"
  shows "\<exists>r. run_tapes m devs opts = Some r \<and>
    (if devices_match m devs
     then \<exists>res v'. r = Inr (res, v') \<and> vm_ok v' \<and> length (r_stack res) \<le> ro_stack_depth opts
     else \<exists>e. r = Inl e)"
proof (cases "length devs = unat (mc_tape_count m)")
  case False
  then show ?thesis by (simp add: run_tapes_def devices_match_def)
next
  case True
  let ?ps = "zip devs (mc_cardinalities m)"
  obtain res v' where d: "drive m devs opts False = Some (res, v')" "vm_ok v'" "length (r_stack res) \<le> ro_stack_depth opts"
    using drive_returns [OF assms, of False] by auto
  have "length ?ps \<le> unat (mc_tape_count m)" using True by simp
  also have "\<dots> < 2 ^ 8" by (rule unat_width)
  finally have "check_alphabets 0 ?ps \<noteq> None" by (intro check_alphabets_total) simp
  then obtain c where c: "check_alphabets 0 ?ps = Some c" by blast
  show ?thesis
  proof (cases "devices_match m devs")
    case ok: True
    then have "c = Inr ()" using c check_alphabets_ok [of 0 ?ps] by (simp add: devices_match_def)
    then show ?thesis using True ok c d by (simp add: run_tapes_def)
  next
    case bad: False
    then have "mc_cardinalities m \<noteq> []" "c \<noteq> Inr ()"
      using True c check_alphabets_ok [of 0 ?ps] by (auto simp: devices_match_def)
    then obtain e where "c = Inl e" by (cases c) auto
    then show ?thesis using True bad c \<open>mc_cardinalities m \<noteq> []\<close> by (simp add: run_tapes_def)
  qed
qed

lemma loaded_fits:
  assumes "exe_from_bytes bs = Inr x" "from_executable x reg = Inr m"
  shows "length (mc_code m) < 2 ^ 32" "length (mc_tables m) < 2 ^ 32"
    "frames_region_ok (mc_frames_offset m) (mc_tables m)" "mc_tape_count m = x_tape_count x"
    "mc_cardinalities m = x_cardinalities x"
  using exe_accepted_fits [OF assms(1)] exe_accepted [OF assms(1)] assms(2)
  by (auto simp: from_executable_Inr image_fits_def image_ok_def)

text \<open>
  C25: a file that is read and loads can be run. For every file the reader accepts and every
  registry it loads with, \<open>run_tapes\<close> under a step limit, or under a tact limit of at most
  \<open>2 ^ 64 - 2 ^ 32\<close>, neither panics nor diverges on well-formed devices: it runs if the devices match the header, with the return stack within its depth, and
  reports a setup error if they do not.
\<close>

theorem loaded_file_runs:
  assumes "exe_from_bytes bs = Inr x" and "from_executable x reg = Inr m"
    and "limited (ro_limits opts)" and "\<forall>d \<in> set devs. tape_ok d"
  shows "\<exists>r. run_tapes m devs opts = Some r \<and>
    (if length devs = unat (x_tape_count x)
        \<and> (\<forall>(d, n) \<in> set (zip devs (x_cardinalities x)). tape_alphabet_size d = n)
     then \<exists>res v'. r = Inr (res, v') \<and> vm_ok v' \<and> length (r_stack res) \<le> ro_stack_depth opts
     else \<exists>e. r = Inl e)"
  using run_tapes_returns [OF loaded_fits(1) [OF assms(1,2)] assms(3,4)]
  unfolding devices_match_def loaded_fits(4,5) [OF assms(1,2)] .

text \<open>
  C26: the loader reports the documented error, in the documented order: an architecture that is not
  registered, else a profile above the frames profile, else an entry that is not an entry marker of
  the architecture; otherwise the machine carries the image.
\<close>

theorem load_errors:
  "case from_executable x reg of
     Inl (UnknownArch n) \<Rightarrow> n = x_arch x \<and> (\<forall>a \<in> set reg. arch_id a \<noteq> n)
   | Inl (UnsupportedProfile p) \<Rightarrow> p = x_profile x \<and> 1 < p \<and> (\<exists>a \<in> set reg. arch_id a = x_arch x)
   | Inl (EntryNotEntryMarker i) \<Rightarrow>
       i = x_entry x \<and> x_profile x \<le> 1
       \<and> (\<exists>a \<in> set reg. arch_id a = x_arch x
            \<and> (unat i < length (x_code x) \<longrightarrow> \<not> is_entry_marker a (x_code x ! unat i)))
   | Inr m \<Rightarrow>
       mc_arch m \<in> set reg \<and> arch_id (mc_arch m) = x_arch x \<and> x_profile x \<le> 1
       \<and> unat (x_entry x) < length (x_code x) \<and> is_entry_marker (mc_arch m) (x_code x ! unat (x_entry x))
       \<and> mc_code m = x_code x \<and> mc_entry m = x_entry x \<and> mc_tables m = x_tables x
       \<and> mc_tape_count m = x_tape_count x \<and> mc_profile m = x_profile x
       \<and> mc_cardinalities m = x_cardinalities x \<and> mc_frames_offset m = x_frames_offset x"
proof (cases "registry_get reg (x_arch x)")
  case None
  then have "\<forall>a \<in> set reg. arch_id a \<noteq> x_arch x" by (auto simp: registry_get_def find_None_iff)
  then show ?thesis using None by (simp add: from_executable_def)
next
  case (Some a)
  note a = registry_get_Some [OF Some]
  show ?thesis
  proof (cases "1 < x_profile x")
    case True
    then show ?thesis using Some a by (auto simp: from_executable_def PROFILE_FRAMES_def)
  next
    case False
    then show ?thesis using Some a
      by (cases "unat (x_entry x) < length (x_code x)";
          cases "is_entry_marker a (x_code x ! unat (x_entry x))")
        (auto simp: from_executable_def with_arch_def PROFILE_FRAMES_def not_less)
  qed
qed

section \<open>The frames region of a loaded machine\<close>

lemma meta_u16_at: "p + 1 < length tables \<Longrightarrow> unat (meta_u16 tables p) = u16_at tables p"
  by (simp add: meta_u16_def u16_at_def)

lemma frames_region_bounds:
  assumes "frames_region_ok offset tables" "offset \<noteq> 0"
  shows "unat offset + 4 + u16_at tables (unat offset) * 4
    + (u16_at tables (unat offset) + 1) * u16_at tables (unat offset + 2) * 2 \<le> length tables"
    "unat offset + 4 \<le> length tables"
  using assms by (simp_all add: frames_region_ok_def Let_def)

text \<open>Entry \<open>i\<close> of row \<open>r\<close> of a table of rows of \<open>s\<close> entries.\<close>

lemma row_major_bound:
  assumes "r \<le> (k :: nat)" "i < s"
  shows "r * s + i < (k + 1) * s"
proof -
  have "r * s + i < r * s + s" using assms(2) by simp
  also have "\<dots> = (r + 1) * s" by simp
  also have "\<dots> \<le> (k + 1) * s" using assms(1) by (intro mult_right_mono) simp_all
  finally show ?thesis .
qed

lemma region_arith:
  "b + 4 + a + R * 2 \<le> (l :: nat) \<Longrightarrow> q < R \<Longrightarrow> b + 4 + a + q * 2 + 2 \<le> l"
  "b + 4 + k * 4 + z \<le> (l :: nat) \<Longrightarrow> r \<le> k \<Longrightarrow> 0 < r \<Longrightarrow> b + 4 + (r - 1) * 4 + 4 \<le> l"
  by simp_all

text \<open>
  C27: the processor looks for frames inside the table section. In a machine loaded from an accepted
  file with a frames region, while the frame register names an existing composite, the compose-table
  read of an existing call site and the directory read of the current composite ask for bytes that
  all lie inside the tables; a site that does not exist is refused.
\<close>

theorem frame_reads_inside:
  assumes "exe_from_bytes bs = Inr x" and "from_executable x reg = Inr m" and "mc_frames_offset m \<noteq> 0"
    and "c_frames c = Some (frames_meta_of m)" and "unat (c_fr c) \<le> unat (composites (frames_meta_of m))"
  shows "(\<exists>c' ev. start_compose_read c ops ip site = Some (c', ev) \<and>
      (if unat site < unat (sites (frames_meta_of m))
       then \<exists>a. ev = Request (FrameRead a) \<and> unat a + 2 \<le> length (mc_tables m)
       else ev = EvTrap (BadOperand (c_instr_start c))))
    \<and> (c_fr c \<noteq> 0 \<longrightarrow> (\<exists>c' a. start_directory_read c ops ip = Some (c', Request (FrameRead a))
      \<and> unat a + 4 \<le> length (mc_tables m)))"
proof -
  let ?meta = "frames_meta_of m"
  let ?base = "unat (mc_frames_offset m)"
  let ?k = "u16_at (mc_tables m) ?base"
  let ?s = "u16_at (mc_tables m) (?base + 2)"
  note fits = loaded_fits [OF assms(1,2)]
  note r = frames_region_bounds [OF fits(3) assms(3)]
  have meta: "fm_base ?meta = mc_frames_offset m" "unat (composites ?meta) = ?k" "unat (sites ?meta) = ?s"
    using r(2) by (simp_all add: frames_meta_of_def Let_def meta_u16_at)
  have compose: "?base + 4 + ?k * 4 + (unat (c_fr c) * ?s + unat site) * 2 + 2 \<le> length (mc_tables m)"
    if "unat site < ?s"
    by (rule region_arith(1) [OF r(1) row_major_bound]) (use assms(5) that meta in simp_all)
  have directory: "?base + 4 + (unat (c_fr c) - 1) * 4 + 4 \<le> length (mc_tables m)" if "c_fr c \<noteq> 0"
    by (rule region_arith(2) [OF r(1)]) (use assms(5) that meta in \<open>simp_all add: unat_gt_0\<close>)
  define at where "at = ?base + 4 + ?k * 4 + (unat (c_fr c) * ?s + unat site) * 2"
  define dir where "dir = ?base + 4 + (unat (c_fr c) - 1) * 4"
  have fit: "n < 2 ^ 32 \<and> unat (of_nat n :: u32) = n" if "n + 2 \<le> length (mc_tables m)" for n
    using that fits(2) by simp
  have "\<exists>c' ev. start_compose_read c ops ip site = Some (c', ev) \<and>
      (if unat site < ?s then \<exists>a. ev = Request (FrameRead a) \<and> unat a + 2 \<le> length (mc_tables m)
       else ev = EvTrap (BadOperand (c_instr_start c)))"
    unfolding start_compose_read_def assms(4) option.case meta at_def [symmetric] Let_def
    by (cases "unat site < ?s") (use compose [folded at_def] fit [of at] in \<open>auto simp: trap_with_def\<close>)
  moreover have "\<exists>c' a. start_directory_read c ops ip = Some (c', Request (FrameRead a)) \<and> unat a + 4 \<le> length (mc_tables m)"
    if "c_fr c \<noteq> 0"
    unfolding start_directory_read_def assms(4) option.case meta dir_def [symmetric] Let_def
    using directory [OF that, folded dir_def] fit [of dir] that by auto
  ultimately show ?thesis unfolding meta by blast
qed

section \<open>A loaded machine for the witnesses\<close>

text \<open>One tape, the frames profile, one composite and one call site; any byte is an entry.\<close>

definition any_arch :: arch where
  "any_arch = \<lparr>arch_id = ARCH_TM1, operand_kind = (\<lambda>_. Some KNone), lower = (\<lambda>_ _. Inr [MStop]),
     is_entry_marker = (\<lambda>_. True)\<rparr>"

definition framed_image :: executable where
  "framed_image = with_frames_offset
     (sectioned ARCH_TM1 0 [0] [0, 1, 0, 1, 0, 0, 0, 0, 0, 1, 0, 1, 0] 1 PROFILE_FRAMES [2]) 1"

lemma framed_image_read: "\<exists>bs. exe_from_bytes bs = Inr framed_image"
  using exe_round_trip [of framed_image]
  by (auto simp: framed_image_def image_ok_def image_fits_def sectioned_def with_frames_offset_def
      frames_region_ok_def u16_at_def u16_le_def is_v1_shape_def PROFILE_FRAMES_def PROFILE_BASE_def)

definition framed_machine :: machine where
  "framed_machine =
     \<lparr>mc_arch = any_arch, mc_code = [0], mc_entry = 0, mc_tables = [0, 1, 0, 1, 0, 0, 0, 0, 0, 1, 0, 1, 0],
      mc_tape_count = 1, mc_profile = PROFILE_FRAMES, mc_cardinalities = [2], mc_frames_offset = 1\<rparr>"

lemma framed_image_loads: "from_executable framed_image [any_arch] = Inr framed_machine"
  by (simp add: from_executable_Inr framed_image_def framed_machine_def with_frames_offset_def sectioned_def
      registry_get_def any_arch_def)

definition stepped :: run_options where
  "stepped = default_options\<lparr>ro_limits := \<lparr>max_steps = Some 10, max_tacts = None\<rparr>\<rparr>"

lemma new_tape_ok: "tape_ok (Infinite it_new)"
  by (simp add: it_new_def it_ok_def om_ok_def in_i64_def)

theorem loaded_file_runs_witness:
  "(\<exists>bs. exe_from_bytes bs = Inr framed_image) \<and> from_executable framed_image [any_arch] = Inr framed_machine
   \<and> (\<exists>res v'. run_tapes framed_machine [Infinite it_new] stepped = Some (Inr (res, v')) \<and> length (r_stack res) \<le> 1024)"
proof -
  obtain bs where r: "exe_from_bytes bs = Inr framed_image" using framed_image_read by blast
  have "limited (ro_limits stepped)" "\<forall>d \<in> set [Infinite it_new]. tape_ok d"
    using new_tape_ok by (simp_all add: stepped_def limited_def)
  from loaded_file_runs [OF r framed_image_loads this]
  show ?thesis using r framed_image_loads
    by (auto simp: framed_image_def sectioned_def with_frames_offset_def it_alphabet_size_def stepped_def default_options_def)
qed

theorem load_errors_witness:
  "from_executable framed_image [any_arch] = Inr framed_machine \<and> mc_code framed_machine = x_code framed_image"
  using load_errors [of framed_image "[any_arch]"] framed_image_loads by simp

theorem frame_reads_inside_witness:
  "\<exists>c' a. start_compose_read (build_core framed_machine) [] 0 0 = Some (c', Request (FrameRead a))
    \<and> unat a + 2 \<le> 13"
proof -
  obtain bs where r: "exe_from_bytes bs = Inr framed_image" using framed_image_read by blast
  have s: "unat (sites (frames_meta_of framed_machine)) = 1"
    by (simp add: frames_meta_of_def framed_machine_def meta_u16_def u16_le_def)
  have "mc_frames_offset framed_machine \<noteq> 0" "c_frames (build_core framed_machine) = Some (frames_meta_of framed_machine)"
    "unat (c_fr (build_core framed_machine)) \<le> unat (composites (frames_meta_of framed_machine))"
    by (simp_all add: framed_machine_def build_core_def with_frames_def with_device_count_def core_new_def Let_def)
  from frame_reads_inside [OF r framed_image_loads this, of "[]" 0 0]
  show ?thesis using s by (auto simp: framed_machine_def)
qed

end
