(* ===== verification/Debugger.thy ===== *)
theory Debugger
  imports Machine Pm1
begin

text \<open>
  The synchronous debugger session (\<open>crates/core/src/vm/debug.rs\<close>): single steps, stepping over
  and out, running to a breakpoint or through a budget. Every motion executes whole instructions
  of the run it debugs, so however a session is driven, it is the run after some number of instructions.
  The session's image (architecture, code, tables, profile, limits) is the driver's \<open>env\<close>.
\<close>

section \<open>The session\<close>

datatype pause_cause =
    PauseStep
  | PauseBreakpoint u32
  | PauseBrk
  | PauseManual
  | PauseTrap trap

datatype debug_event = Paused pause_cause | DebugFinished outcome

record session =
  ds_env :: env
  ds_core :: core
  ds_stack :: return_stack
  ds_stats :: run_stats
  ds_breakpoints :: "u32 set"
  ds_started :: bool
  ds_latch :: bool
  ds_finished :: "outcome option"
  ds_trap_reported :: bool

definition session_new :: "env \<Rightarrow> core \<Rightarrow> return_stack \<Rightarrow> session" where
  "session_new e c s =
     \<lparr>ds_env = e\<lparr>e_tables := []\<rparr>, ds_core = c, ds_stack = s, ds_stats = stats_new, ds_breakpoints = {},
      ds_started = False, ds_latch = True, ds_finished = None, ds_trap_reported = False\<rparr>"

definition session_with_tables :: "u8 list \<Rightarrow> session \<Rightarrow> session" where
  "session_with_tables tables s = s\<lparr>ds_env := (ds_env s)\<lparr>e_tables := tables\<rparr>, ds_latch := False\<rparr>"

definition add_breakpoint :: "u32 \<Rightarrow> session \<Rightarrow> session" where
  "add_breakpoint a s = s\<lparr>ds_breakpoints := insert a (ds_breakpoints s)\<rparr>"

definition remove_breakpoint :: "u32 \<Rightarrow> session \<Rightarrow> session" where
  "remove_breakpoint a s = s\<lparr>ds_breakpoints := ds_breakpoints s - {a}\<rparr>"

definition session_ip :: "session \<Rightarrow> u32" where
  "session_ip s =
     (case ds_finished s of
        Some (Trapped _) \<Rightarrow> c_instr_start (ds_core s)
      | _ \<Rightarrow> c_ip (ds_core s))"

definition session_set_mf :: "bool \<Rightarrow> session \<Rightarrow> session" where
  "session_set_mf b s = s\<lparr>ds_core := set_mf b (ds_core s)\<rparr>"

definition session_set_mr :: "u32 \<Rightarrow> session \<Rightarrow> session" where
  "session_set_mr r s = s\<lparr>ds_core := set_mr r (ds_core s)\<rparr>"

definition session_depth :: "session \<Rightarrow> nat" where
  "session_depth s = stack_depth (ds_stack s)"

section \<open>Motions\<close>

definition session_vm :: "session \<Rightarrow> core \<Rightarrow> tape_dev list \<Rightarrow> vm" where
  "session_vm s c devs = \<lparr>v_core = c, v_stack = ds_stack s, v_devs = devs, v_stats = ds_stats s\<rparr>"

text \<open>The core the next instruction starts from: the initial mark is latched before the first.\<close>

definition first_latch :: "session \<Rightarrow> tape_dev list \<Rightarrow> core option" where
  "first_latch s devs =
     (if \<not> ds_started s \<and> ds_latch s then latch_mark devs (ds_core s) else Some (ds_core s))"

definition advance :: "session \<Rightarrow> tape_dev list \<Rightarrow> (step_event \<times> session \<times> tape_dev list) option" where
  "advance s devs =
     (case first_latch s devs of
        None \<Rightarrow> None
      | Some c \<Rightarrow>
          (case step_instruction (ds_env s) (ds_started s) (session_vm s c devs) of
             None \<Rightarrow> None
           | Some (ev, v) \<Rightarrow>
               let s = s\<lparr>ds_core := v_core v, ds_stack := v_stack v, ds_stats := v_stats v, ds_started := True\<rparr>;
                   s = (case ev of Finished oc \<Rightarrow> s\<lparr>ds_finished := Some oc\<rparr> | _ \<Rightarrow> s) in
               Some (ev, s, v_devs v)))"

definition gate :: "session \<Rightarrow> debug_event option" where
  "gate s = map_option DebugFinished (ds_finished s)"

definition settle_event :: "session \<Rightarrow> step_event \<Rightarrow> pause_cause \<Rightarrow> debug_event \<times> session" where
  "settle_event s ev cause_on_retire =
     (case ev of
        Retired \<Rightarrow> (Paused cause_on_retire, s)
      | Break \<Rightarrow> (Paused PauseBrk, s)
      | Finished oc \<Rightarrow>
          (case oc of
             Trapped t \<Rightarrow>
               if \<not> ds_trap_reported s then (Paused (PauseTrap t), s\<lparr>ds_trap_reported := True\<rparr>)
               else (DebugFinished oc, s)
           | _ \<Rightarrow> (DebugFinished oc, s)))"

type_synonym motion_result = "(debug_event \<times> session \<times> tape_dev list) option"

definition settled :: "session \<Rightarrow> step_event \<Rightarrow> tape_dev list \<Rightarrow> motion_result" where
  "settled s ev devs = (let (dev, s') = settle_event s ev PauseStep in Some (dev, s', devs))"

definition step_in_tapes :: "session \<Rightarrow> tape_dev list \<Rightarrow> motion_result" where
  "step_in_tapes s devs =
     (case gate s of
        Some done \<Rightarrow> Some (done, s, devs)
      | None \<Rightarrow>
          (case advance s devs of
             None \<Rightarrow> None
           | Some (ev, s', devs') \<Rightarrow> settled s' ev devs'))"

text \<open>The loop of \<open>run_until_tapes\<close>; the budget, when there is one, is at least 1.\<close>

partial_function (option) run_until_loop ::
  "nat option \<Rightarrow> nat option \<Rightarrow> session \<Rightarrow> tape_dev list \<Rightarrow> motion_result" where
  "run_until_loop until_depth budget s devs =
     (case advance s devs of
        None \<Rightarrow> None
      | Some (ev, s', devs') \<Rightarrow>
          if ev = Retired
          then if (case until_depth of Some target \<Rightarrow> session_depth s' \<le> target | None \<Rightarrow> False)
               then Some (Paused PauseStep, s', devs')
               else if (case budget of Some b \<Rightarrow> b - 1 = 0 | None \<Rightarrow> False)
               then Some (Paused PauseManual, s', devs')
               else if c_ip (ds_core s') \<in> ds_breakpoints s'
               then Some (Paused (PauseBreakpoint (c_ip (ds_core s'))), s', devs')
               else run_until_loop until_depth (map_option (\<lambda>b. b - 1) budget) s' devs'
          else settled s' ev devs')"

declare run_until_loop.simps [code]

definition run_until_tapes ::
  "session \<Rightarrow> tape_dev list \<Rightarrow> nat option \<Rightarrow> nat option \<Rightarrow> motion_result" where
  "run_until_tapes s devs until_depth budget =
     (case gate s of
        Some done \<Rightarrow> Some (done, s, devs)
      | None \<Rightarrow>
          if budget = Some 0 then Some (Paused PauseManual, s, devs)
          else run_until_loop until_depth budget s devs)"

definition continue_tapes :: "session \<Rightarrow> tape_dev list \<Rightarrow> motion_result" where
  "continue_tapes s devs = run_until_tapes s devs None None"

definition run_steps_tapes :: "session \<Rightarrow> tape_dev list \<Rightarrow> nat \<Rightarrow> motion_result" where
  "run_steps_tapes s devs budget = run_until_tapes s devs None (Some budget)"

definition step_over_tapes :: "session \<Rightarrow> tape_dev list \<Rightarrow> motion_result" where
  "step_over_tapes s devs =
     (case gate s of
        Some done \<Rightarrow> Some (done, s, devs)
      | None \<Rightarrow>
          (case advance s devs of
             None \<Rightarrow> None
           | Some (ev, s', devs') \<Rightarrow>
               if session_depth s' > session_depth s \<and> ev = Retired
               then run_until_tapes s' devs' (Some (session_depth s)) None
               else settled s' ev devs'))"

definition step_out_tapes :: "session \<Rightarrow> tape_dev list \<Rightarrow> motion_result" where
  "step_out_tapes s devs =
     (if session_depth s = 0 then continue_tapes s devs
      else run_until_tapes s devs (Some (session_depth s - 1)) None)"

text \<open>The single-device forms.\<close>

definition step_in :: "session \<Rightarrow> tape_dev \<Rightarrow> motion_result" where
  "step_in s d = step_in_tapes s [d]"

definition continue_run :: "session \<Rightarrow> tape_dev \<Rightarrow> motion_result" where
  "continue_run s d = continue_tapes s [d]"

definition run_steps :: "session \<Rightarrow> tape_dev \<Rightarrow> nat \<Rightarrow> motion_result" where
  "run_steps s d budget = run_steps_tapes s [d] budget"

definition step_over :: "session \<Rightarrow> tape_dev \<Rightarrow> motion_result" where
  "step_over s d = step_over_tapes s [d]"

definition step_out :: "session \<Rightarrow> tape_dev \<Rightarrow> motion_result" where
  "step_out s d = step_out_tapes s [d]"

text \<open>The sessions a machine makes.\<close>

definition machine_debug :: "machine \<Rightarrow> run_options \<Rightarrow> session" where
  "machine_debug m opts = session_new (machine_env m opts) (build_core m) (stack_new (ro_stack_depth opts))"

definition machine_debug_tapes :: "machine \<Rightarrow> run_options \<Rightarrow> session" where
  "machine_debug_tapes m opts = session_with_tables (mc_tables m) (machine_debug m opts)"

section \<open>Where a session is\<close>

text \<open>
  The run after \<open>k\<close> instructions, with its outcome if the last of them ended it; nothing if it ended before.
\<close>

fun run_prefix :: "env \<Rightarrow> nat \<Rightarrow> bool \<Rightarrow> vm \<Rightarrow> (outcome option \<times> vm) option" where
  "run_prefix e 0 started v = Some (None, v)"
| "run_prefix e (Suc k) started v =
     (case step_instruction e started v of
        None \<Rightarrow> None
      | Some (Finished oc, v') \<Rightarrow> if k = 0 then Some (Some oc, v') else None
      | Some (_, v') \<Rightarrow> run_prefix e k True v')"

lemma run_prefix_Suc:
  "run_prefix e k started v = Some (None, v1) \<Longrightarrow>
   run_prefix e (Suc k) started v =
     (case step_instruction e (started \<or> 0 < k) v1 of
        None \<Rightarrow> None
      | Some (Finished oc, v') \<Rightarrow> Some (Some oc, v')
      | Some (_, v') \<Rightarrow> Some (None, v'))"
proof (induction k arbitrary: started v)
  case 0
  then show ?case by (simp split: option.split prod.split step_event.split)
next
  case (Suc k)
  obtain ev v2 where st: "step_instruction e started v = Some (ev, v2)" and go: "run_prefix e k True v2 = Some (None, v1)"
    and nf: "\<forall>oc. ev \<noteq> Finished oc"
    using Suc.prems by (auto split: option.splits prod.splits step_event.splits if_splits)
  have "run_prefix e (Suc (Suc k)) started v = run_prefix e (Suc k) True v2"
    using st nf by (subst run_prefix.simps(2)) (cases ev, simp_all)
  then show ?case using Suc.IH [OF go] by simp
qed

lemma run_prefix_ends:
  "run_prefix e k started v = Some (Some oc, v') \<Longrightarrow> run_loop e started v = Some (result_of oc v', v')"
proof (induction k arbitrary: started v)
  case (Suc k)
  then show ?case
    by (subst run_loop.simps) (auto split: option.splits prod.splits step_event.splits if_splits)
qed simp

text \<open>The session \<open>s\<close>, begun as \<open>s0\<close>, is its run after \<open>k\<close> instructions.\<close>

definition at_prefix :: "session \<Rightarrow> tape_dev list \<Rightarrow> nat \<Rightarrow> session \<Rightarrow> tape_dev list \<Rightarrow> bool" where
  "at_prefix s0 devs0 k s devs \<longleftrightarrow>
     ds_env s = ds_env s0 \<and> ds_latch s = ds_latch s0
     \<and> (if k = 0
        then ds_started s = ds_started s0 \<and> ds_finished s = ds_finished s0
          \<and> session_vm s (ds_core s) devs = session_vm s0 (ds_core s0) devs0
        else ds_started s
          \<and> (\<exists>c. first_latch s0 devs0 = Some c \<and>
                run_prefix (ds_env s0) k (ds_started s0) (session_vm s0 c devs0)
                  = Some (ds_finished s, session_vm s (ds_core s) devs)))"

lemma at_prefix_start: "at_prefix s devs 0 s devs"
  by (simp add: at_prefix_def)

lemma at_prefix_marks [simp]:
  "at_prefix s0 devs0 k (s\<lparr>ds_trap_reported := b\<rparr>) devs = at_prefix s0 devs0 k s devs"
  "at_prefix s0 devs0 k (s\<lparr>ds_breakpoints := bs\<rparr>) devs = at_prefix s0 devs0 k s devs"
  by (simp_all add: at_prefix_def session_vm_def)

lemma advance_Some:
  assumes "advance s devs = Some (ev, s', devs')"
  obtains c v where "first_latch s devs = Some c"
    "step_instruction (ds_env s) (ds_started s) (session_vm s c devs) = Some (ev, v)"
    "ds_env s' = ds_env s" "ds_core s' = v_core v" "ds_stack s' = v_stack v" "ds_stats s' = v_stats v"
    "ds_started s'" "devs' = v_devs v" "ds_breakpoints s' = ds_breakpoints s" "ds_latch s' = ds_latch s"
    "ds_finished s' = (case ev of Finished oc \<Rightarrow> Some oc | _ \<Rightarrow> ds_finished s)"
  using assms by (auto simp: advance_def Let_def split: option.splits step_event.splits)

lemma advance_prefix:
  assumes "advance s devs = Some (ev, s', devs')" "ds_finished s = None" "at_prefix s0 devs0 k s devs"
  shows "at_prefix s0 devs0 (Suc k) s' devs'"
proof -
  obtain c v where a: "first_latch s devs = Some c"
    "step_instruction (ds_env s) (ds_started s) (session_vm s c devs) = Some (ev, v)"
    "ds_env s' = ds_env s" "ds_core s' = v_core v" "ds_stack s' = v_stack v" "ds_stats s' = v_stats v"
    "ds_started s'" "devs' = v_devs v" "ds_latch s' = ds_latch s"
    "ds_finished s' = (case ev of Finished oc \<Rightarrow> Some oc | _ \<Rightarrow> ds_finished s)"
    using assms(1) by (rule advance_Some)
  have v: "session_vm s' (v_core v) devs' = v" using a by (simp add: session_vm_def)
  have e: "ds_env s = ds_env s0" "ds_latch s = ds_latch s0" using assms(3) by (simp_all add: at_prefix_def)
  show ?thesis
  proof (cases "k = 0")
    case True
    then have s: "ds_started s = ds_started s0" "session_vm s (ds_core s) devs = session_vm s0 (ds_core s0) devs0"
      using assms(3) by (simp_all add: at_prefix_def)
    then have "first_latch s0 devs0 = Some c" "session_vm s0 c devs0 = session_vm s c devs"
      using a(1) e by (auto simp: first_latch_def session_vm_def split: if_splits)
    then show ?thesis
      using a e s v assms(2) True
      by (cases ev) (simp_all add: at_prefix_def)
  next
    case False
    then obtain c0 where p: "first_latch s0 devs0 = Some c0"
        "run_prefix (ds_env s0) k (ds_started s0) (session_vm s0 c0 devs0) = Some (None, session_vm s (ds_core s) devs)"
      and st: "ds_started s" using assms(2,3) by (auto simp: at_prefix_def)
    then have "c = ds_core s" using a(1) by (simp add: first_latch_def)
    then show ?thesis
      using run_prefix_Suc [OF p(2)] a e p(1) v st False assms(2)
      by (cases ev) (simp_all add: at_prefix_def)
  qed
qed

lemma settled_prefix:
  "settled s ev devs = Some r \<Longrightarrow> at_prefix s0 devs0 k s devs \<Longrightarrow> at_prefix s0 devs0 k (fst (snd r)) (snd (snd r))"
  by (auto simp: settled_def settle_event_def split: step_event.splits outcome.splits if_splits)

lemma run_until_loop_prefix:
  assumes "run_until_loop u b s devs = Some r"
  shows "ds_finished s = None \<longrightarrow> at_prefix s0 devs0 k s devs \<longrightarrow>
    (\<exists>k' > k. at_prefix s0 devs0 k' (fst (snd r)) (snd (snd r)))"
  using assms
proof (induction arbitrary: k rule: run_until_loop.raw_induct [rotated -1, consumes 1, case_names step])
  case (step loop u b s devs r)
  show ?case
  proof (intro impI)
    assume fin: "ds_finished s = None" and at: "at_prefix s0 devs0 k s devs"
    obtain ev s1 devs1 where a: "advance s devs = Some (ev, s1, devs1)"
      using step(2) by (auto split: option.splits)
    note p = advance_prefix [OF a fin at]
    show "\<exists>k' > k. at_prefix s0 devs0 k' (fst (snd r)) (snd (snd r))"
    proof (cases "ev = Retired")
      case True
      have "ds_finished s1 = None" using advance_Some [OF a] True fin by fastforce
      moreover have "r = (Paused PauseStep, s1, devs1) \<or> r = (Paused PauseManual, s1, devs1)
          \<or> r = (Paused (PauseBreakpoint (c_ip (ds_core s1))), s1, devs1)
          \<or> loop u (map_option (\<lambda>b. b - 1) b) s1 devs1 = Some r"
        using step(2) a True by (auto split: if_splits option.splits)
      ultimately show ?thesis using p step(1) [of u "map_option (\<lambda>b. b - 1) b" s1 devs1 r "Suc k"]
        by (metis Suc_lessD fst_conv lessI snd_conv)
    next
      case False
      then show ?thesis using step(2) a settled_prefix [OF _ p] by (intro exI [of _ "Suc k"]) simp
    qed
  qed
qed

lemma run_until_prefix:
  assumes "run_until_tapes s devs u b = Some r" "at_prefix s0 devs0 k s devs"
  shows "\<exists>k' \<ge> k. at_prefix s0 devs0 k' (fst (snd r)) (snd (snd r)) \<and> (ds_finished s = None \<and> b \<noteq> Some 0 \<longrightarrow> k < k')"
proof (cases "ds_finished s = None \<and> b \<noteq> Some 0")
  case True
  then have "run_until_loop u b s devs = Some r" using assms(1) by (simp add: run_until_tapes_def gate_def)
  from run_until_loop_prefix [OF this, of s0 devs0 k] show ?thesis
    using True assms(2) by (meson less_imp_le_nat)
next
  case False
  then show ?thesis using assms
    by (intro exI [of _ k]) (auto simp: run_until_tapes_def gate_def split: option.splits)
qed

section \<open>Any sequence of commands\<close>

datatype motion = StepIn | ContinueRun | RunSteps nat | StepOver | StepOut

fun perform :: "motion \<Rightarrow> session \<Rightarrow> tape_dev list \<Rightarrow> motion_result" where
  "perform StepIn s devs = step_in_tapes s devs"
| "perform ContinueRun s devs = continue_tapes s devs"
| "perform (RunSteps n) s devs = run_steps_tapes s devs n"
| "perform StepOver s devs = step_over_tapes s devs"
| "perform StepOut s devs = step_out_tapes s devs"

text \<open>A user moves, and sets and clears breakpoints in between.\<close>

datatype command = Move motion | BreakAt u32 | Unbreak u32

fun obey :: "command \<Rightarrow> session \<Rightarrow> tape_dev list \<Rightarrow> (session \<times> tape_dev list) option" where
  "obey (Move mo) s devs = map_option snd (perform mo s devs)"
| "obey (BreakAt a) s devs = Some (add_breakpoint a s, devs)"
| "obey (Unbreak a) s devs = Some (remove_breakpoint a s, devs)"

fun obey_all :: "command list \<Rightarrow> session \<Rightarrow> tape_dev list \<Rightarrow> (session \<times> tape_dev list) option" where
  "obey_all [] s devs = Some (s, devs)"
| "obey_all (c # cs) s devs = Option.bind (obey c s devs) (\<lambda>(s', devs'). obey_all cs s' devs')"

text \<open>The commands that execute something.\<close>

fun moving :: "command \<Rightarrow> bool" where
  "moving (Move mo) \<longleftrightarrow> mo \<noteq> RunSteps 0"
| "moving _ \<longleftrightarrow> False"

lemma step_over_prefix:
  assumes "step_over_tapes s devs = Some r" "at_prefix s0 devs0 k s devs" "ds_finished s = None"
  shows "\<exists>k' > k. at_prefix s0 devs0 k' (fst (snd r)) (snd (snd r))"
proof -
  obtain ev s1 devs1 where a: "advance s devs = Some (ev, s1, devs1)"
    using assms(1,3) by (auto simp: step_over_tapes_def gate_def split: option.splits)
  note p = advance_prefix [OF a assms(3,2)]
  show ?thesis
  proof (cases "session_depth s1 > session_depth s \<and> ev = Retired")
    case True
    then have "run_until_tapes s1 devs1 (Some (session_depth s)) None = Some r"
      using assms(1,3) a by (simp add: step_over_tapes_def gate_def)
    from run_until_prefix [OF this p] show ?thesis by (meson Suc_le_lessD)
  next
    case False
    then have "settled s1 ev devs1 = Some r"
      using assms(1,3) a by (auto simp: step_over_tapes_def gate_def)
    from settled_prefix [OF this p] show ?thesis by blast
  qed
qed

lemma perform_prefix:
  assumes "perform mo s devs = Some r" "at_prefix s0 devs0 k s devs"
  shows "\<exists>k' \<ge> k. at_prefix s0 devs0 k' (fst (snd r)) (snd (snd r)) \<and> (ds_finished s = None \<and> mo \<noteq> RunSteps 0 \<longrightarrow> k < k')"
proof (cases "ds_finished s")
  case (Some oc)
  then have "snd r = (s, devs)" using assms(1)
    by (cases mo) (auto simp: step_in_tapes_def continue_tapes_def run_steps_tapes_def step_over_tapes_def
        step_out_tapes_def run_until_tapes_def gate_def split: if_splits)
  then show ?thesis using Some assms(2) by auto
next
  case None
  show ?thesis
  proof (cases mo)
    case StepIn
    then obtain ev s1 devs1 where a: "advance s devs = Some (ev, s1, devs1)" "settled s1 ev devs1 = Some r"
      using assms(1) None by (auto simp: step_in_tapes_def gate_def split: option.splits)
    from settled_prefix [OF a(2) advance_prefix [OF a(1) None assms(2)]]
    show ?thesis by (intro exI [of _ "Suc k"]) simp
  next
    case StepOver
    then show ?thesis using step_over_prefix [OF _ assms(2) None] assms(1) by (auto intro: less_imp_le_nat)
  next
    case ContinueRun
    then show ?thesis using run_until_prefix [OF _ assms(2), of None None r] assms(1) by (simp add: continue_tapes_def)
  next
    case (RunSteps n)
    then show ?thesis using run_until_prefix [OF _ assms(2), of None "Some n" r] assms(1) by (simp add: run_steps_tapes_def)
  next
    case StepOut
    then show ?thesis
      using run_until_prefix [OF _ assms(2), of None None r] run_until_prefix [OF _ assms(2), of "Some (session_depth s - 1)" None r]
        assms(1) by (simp add: step_out_tapes_def continue_tapes_def split: if_splits)
  qed
qed

lemma obey_prefix:
  assumes "obey c s devs = Some (s', devs')" "at_prefix s0 devs0 k s devs"
  shows "\<exists>k' \<ge> k. at_prefix s0 devs0 k' s' devs' \<and> (ds_finished s = None \<and> moving c \<longrightarrow> k < k')"
proof (cases c)
  case (Move mo)
  then obtain ev where "perform mo s devs = Some (ev, s', devs')" using assms(1) by auto
  from perform_prefix [OF this assms(2)] show ?thesis using Move by simp
qed (use assms in \<open>auto simp: add_breakpoint_def remove_breakpoint_def\<close>)

text \<open>A finished session stays finished.\<close>

lemma obey_finished: "obey c s devs = Some (s', devs') \<Longrightarrow> ds_finished s = Some oc \<Longrightarrow> ds_finished s' = Some oc"
proof (cases c)
  case (Move mo)
  assume "obey c s devs = Some (s', devs')" "ds_finished s = Some oc"
  then show ?thesis using Move
    by (cases mo) (auto simp: step_in_tapes_def continue_tapes_def run_steps_tapes_def step_over_tapes_def
        step_out_tapes_def run_until_tapes_def gate_def split: if_splits)
qed (auto simp: add_breakpoint_def remove_breakpoint_def)

lemma obey_all_finished: "obey_all cs s devs = Some (s', devs') \<Longrightarrow> ds_finished s = Some oc \<Longrightarrow> ds_finished s' = Some oc"
proof (induction cs arbitrary: s devs)
  case (Cons c cs)
  then obtain s1 devs1 where "obey c s devs = Some (s1, devs1)" "obey_all cs s1 devs1 = Some (s', devs')"
    by (auto split: bind_splits)
  then show ?case using Cons.IH Cons.prems(2) obey_finished by blast
qed simp

lemma obey_all_prefix:
  "obey_all cs s devs = Some (s', devs') \<Longrightarrow> at_prefix s0 devs0 k s devs \<Longrightarrow>
     \<exists>k' \<ge> k. at_prefix s0 devs0 k' s' devs' \<and> (ds_finished s' = None \<longrightarrow> k + length (filter moving cs) \<le> k')"
proof (induction cs arbitrary: s devs k)
  case (Cons c cs)
  obtain s1 devs1 where o1: "obey c s devs = Some (s1, devs1)" and o2: "obey_all cs s1 devs1 = Some (s', devs')"
    using Cons.prems(1) by (auto split: bind_splits)
  obtain k1 where k1: "k \<le> k1" "at_prefix s0 devs0 k1 s1 devs1" "ds_finished s = None \<and> moving c \<longrightarrow> k < k1"
    using obey_prefix [OF o1 Cons.prems(2)] by blast
  from Cons.IH [OF o2 k1(2)] obtain k2 where "k1 \<le> k2 \<and> at_prefix s0 devs0 k2 s' devs'
      \<and> (ds_finished s' = None \<longrightarrow> k1 + length (filter moving cs) \<le> k2)" ..
  then have k2: "k1 \<le> k2" "at_prefix s0 devs0 k2 s' devs'"
    "ds_finished s' = None \<longrightarrow> k1 + length (filter moving cs) \<le> k2" by simp_all
  have "ds_finished s = None" if "ds_finished s' = None"
    using obey_all_finished [OF Cons.prems(1)] that by (cases "ds_finished s") auto
  then have "ds_finished s' = None \<longrightarrow> k + length (filter moving (c # cs)) \<le> k2" using k1(3) k1(1) k2(3) by auto
  then show ?case using order_trans [OF k1(1) k2(1)] k2(2) by (intro exI [of _ k2]) simp
qed auto

section \<open>Motions return\<close>

text \<open>A session that is finished or about to execute an instruction it can execute.\<close>

definition session_ok :: "session \<Rightarrow> tape_dev list \<Rightarrow> bool" where
  "session_ok s devs \<longleftrightarrow>
     length (e_code (ds_env s)) < 2 ^ 32
     \<and> (ds_finished s = None \<longrightarrow>
          (\<exists>c. first_latch s devs = Some c \<and> ready (ds_started s) (session_vm s c devs)))"

lemma session_ok_reported [simp]: "session_ok (s\<lparr>ds_trap_reported := b\<rparr>) devs = session_ok s devs"
  by (simp add: session_ok_def first_latch_def session_vm_def)

lemma advance_returns:
  assumes "session_ok s devs" "ds_finished s = None"
  shows "\<exists>ev s' devs'. advance s devs = Some (ev, s', devs') \<and> session_ok s' devs' \<and> ds_env s' = ds_env s
    \<and> ds_breakpoints s' = ds_breakpoints s
    \<and> ((\<forall>oc. ev \<noteq> Finished oc) \<longrightarrow> ds_finished s' = None
         \<and> st_steps (ds_stats s') = st_steps (ds_stats s) + 1
         \<and> (roomy (e_limits (ds_env s)) (ds_stats s) \<longrightarrow> roomy (e_limits (ds_env s)) (ds_stats s')
              \<and> fuel_left (e_limits (ds_env s)) (ds_stats s') < fuel_left (e_limits (ds_env s)) (ds_stats s)))"
proof -
  let ?e = "ds_env s"
  obtain c where c: "first_latch s devs = Some c" "ready (ds_started s) (session_vm s c devs)"
    and code: "length (e_code ?e) < 2 ^ 32"
    using assms by (auto simp: session_ok_def)
  obtain ev v where st: "step_instruction ?e (ds_started s) (session_vm s c devs) = Some (ev, v)"
      and b: "boundary ?e (session_vm s c devs) ev v"
    using step_boundary [OF code c(2)] by blast
  let ?s0 = "s\<lparr>ds_core := v_core v, ds_stack := v_stack v, ds_stats := v_stats v, ds_started := True\<rparr>"
  have v: "session_vm ?s0 (v_core v) (v_devs v) = v" by (simp add: session_vm_def)
  show ?thesis
  proof (cases "\<exists>oc. ev = Finished oc")
    case True
    then obtain oc where "ev = Finished oc" by blast
    then have "advance s devs = Some (ev, ?s0\<lparr>ds_finished := Some oc\<rparr>, v_devs v)"
      using c(1) st by (simp add: advance_def)
    then show ?thesis using code True by (auto simp: session_ok_def)
  next
    case False
    then have nf: "\<forall>oc. ev \<noteq> Finished oc" by blast
    have a: "advance s devs = Some (ev, ?s0, v_devs v)"
      using c(1) st False by (cases ev) (auto simp: advance_def)
    have "ready True v" by (rule boundary_ready [OF b nf])
    then have "session_ok ?s0 (v_devs v)" using code v by (simp add: session_ok_def first_latch_def)
    moreover have "roomy (e_limits ?e) (ds_stats s) \<longrightarrow> roomy (e_limits ?e) (v_stats v)
        \<and> fuel_left (e_limits ?e) (v_stats v) < fuel_left (e_limits ?e) (ds_stats s)"
      using boundary_fuel [OF b nf] by (simp add: session_vm_def)
    moreover have "st_steps (v_stats v) = st_steps (ds_stats s) + 1" using b nf by (simp add: boundary_def session_vm_def)
    ultimately show ?thesis using a assms(2) by simp
  qed
qed

text \<open>
  A session under a limit whose counters have not used up the room below the wrap-around, or a
  finished one.
\<close>

definition session_roomy :: "session \<Rightarrow> bool" where
  "session_roomy s \<longleftrightarrow> ds_finished s \<noteq> None \<or> roomy (e_limits (ds_env s)) (ds_stats s)"

lemma session_roomy_reported [simp]: "session_roomy (s\<lparr>ds_trap_reported := b\<rparr>) = session_roomy s"
  by (simp add: session_roomy_def)

text \<open>A session in good order after a motion, with the room it had.\<close>

definition in_order :: "session \<Rightarrow> session \<Rightarrow> tape_dev list \<Rightarrow> bool" where
  "in_order s s' devs' \<longleftrightarrow> session_ok s' devs' \<and> ds_env s' = ds_env s \<and> (session_roomy s \<longrightarrow> session_roomy s')"

lemma in_order_trans: "in_order s s1 d1 \<Longrightarrow> in_order s1 s2 d2 \<Longrightarrow> in_order s s2 d2"
  by (simp add: in_order_def)

lemma in_order_refl: "session_ok s devs \<Longrightarrow> in_order s s devs"
  by (simp add: in_order_def)

lemma advance_in_order:
  assumes "session_ok s devs" "ds_finished s = None"
  obtains ev s' devs' where "advance s devs = Some (ev, s', devs')" "in_order s s' devs'"
    "(\<forall>oc. ev \<noteq> Finished oc) \<Longrightarrow> ds_finished s' = None"
    "(\<forall>oc. ev \<noteq> Finished oc) \<Longrightarrow> session_roomy s \<Longrightarrow>
       fuel_left (e_limits (ds_env s)) (ds_stats s') < fuel_left (e_limits (ds_env s)) (ds_stats s)"
proof -
  obtain ev s' devs' where a: "advance s devs = Some (ev, s', devs')" "session_ok s' devs'" "ds_env s' = ds_env s"
    and nf: "(\<forall>oc. ev \<noteq> Finished oc) \<longrightarrow> ds_finished s' = None
         \<and> (roomy (e_limits (ds_env s)) (ds_stats s) \<longrightarrow> roomy (e_limits (ds_env s)) (ds_stats s')
              \<and> fuel_left (e_limits (ds_env s)) (ds_stats s') < fuel_left (e_limits (ds_env s)) (ds_stats s))"
    using advance_returns [OF assms] by blast
  have "ds_finished s' \<noteq> None" if "\<exists>oc. ev = Finished oc"
    using advance_Some [OF a(1)] that by fastforce
  then have "session_roomy s \<longrightarrow> session_roomy s'" using nf a(3) assms(2) by (auto simp: session_roomy_def)
  then show thesis using that [OF a(1)] a(2,3) nf assms(2) by (simp add: in_order_def session_roomy_def)
qed

lemma settled_returns:
  "session_ok s devs \<Longrightarrow> \<exists>dev s' devs'. settled s ev devs = Some (dev, s', devs') \<and> in_order s s' devs'"
  by (auto simp: settled_def settle_event_def in_order_def session_roomy_def split: step_event.split outcome.split)

text \<open>With a budget or a limit the loop ends.\<close>

definition loop_fuel :: "nat option \<Rightarrow> session \<Rightarrow> nat" where
  "loop_fuel b s = (case b of Some n \<Rightarrow> n | None \<Rightarrow> fuel_left (e_limits (ds_env s)) (ds_stats s))"

lemma run_until_loop_returns:
  "session_ok s devs \<Longrightarrow> ds_finished s = None \<Longrightarrow> (case b of Some n \<Rightarrow> 0 < n | None \<Rightarrow> session_roomy s) \<Longrightarrow>
     \<exists>dev s' devs'. run_until_loop u b s devs = Some (dev, s', devs') \<and> in_order s s' devs'"
proof (induction "loop_fuel b s" arbitrary: b s devs rule: less_induct)
  case less
  obtain ev s1 devs1 where a: "advance s devs = Some (ev, s1, devs1)" and o1: "in_order s s1 devs1"
    and nf: "(\<forall>oc. ev \<noteq> Finished oc) \<Longrightarrow> ds_finished s1 = None"
    and fl: "(\<forall>oc. ev \<noteq> Finished oc) \<Longrightarrow> session_roomy s \<Longrightarrow>
       fuel_left (e_limits (ds_env s)) (ds_stats s1) < fuel_left (e_limits (ds_env s)) (ds_stats s)"
    using advance_in_order [OF less.prems(1,2)] by blast
  have ok: "session_ok s1 devs1" and env: "ds_env s1 = ds_env s" using o1 by (simp_all add: in_order_def)
  show ?case
  proof (cases "ev = Retired")
    case False
    obtain dev s' devs' where "settled s1 ev devs1 = Some (dev, s', devs')" "in_order s1 s' devs'"
      using settled_returns [OF ok] by blast
    then show ?thesis using a False in_order_trans [OF o1] by (subst run_until_loop.simps) auto
  next
    case True
    note n = nf [unfolded True, simplified] fl [unfolded True, simplified]
    show ?thesis
    proof (cases "case b of Some k \<Rightarrow> k - 1 = 0 | None \<Rightarrow> False")
      case True
      then show ?thesis using a o1 \<open>ev = Retired\<close> by (subst run_until_loop.simps) auto
    next
      case False
      let ?b = "map_option (\<lambda>b. b - 1) b"
      have "loop_fuel ?b s1 < loop_fuel b s" "case ?b of Some n \<Rightarrow> 0 < n | None \<Rightarrow> session_roomy s1"
        using False n(2) less.prems(3) env o1 by (auto simp: loop_fuel_def in_order_def split: option.splits)
      from less.hyps [OF this(1) ok n(1) this(2)]
      obtain dev s' devs' where "run_until_loop u ?b s1 devs1 = Some (dev, s', devs')" "in_order s1 s' devs'" by blast
      then show ?thesis using a o1 in_order_trans [OF o1] \<open>ev = Retired\<close> False by (subst run_until_loop.simps) auto
    qed
  qed
qed

definition bounded_motion :: "motion \<Rightarrow> bool" where
  "bounded_motion m \<longleftrightarrow> (case m of StepIn \<Rightarrow> True | RunSteps _ \<Rightarrow> True | _ \<Rightarrow> False)"

lemma run_until_returns:
  assumes "session_ok s devs" "b = None \<longrightarrow> session_roomy s"
  shows "\<exists>dev s' devs'. run_until_tapes s devs u b = Some (dev, s', devs') \<and> in_order s s' devs'"
proof (cases "ds_finished s = None \<and> b \<noteq> Some 0")
  case True
  then have "case b of Some n \<Rightarrow> 0 < n | None \<Rightarrow> session_roomy s"
    using assms(2) by (cases b) auto
  then show ?thesis using run_until_loop_returns [OF assms(1)] True by (simp add: run_until_tapes_def gate_def)
qed (use assms(1) in_order_refl in \<open>auto simp: run_until_tapes_def gate_def split: option.splits\<close>)

lemma perform_returns:
  assumes ok: "session_ok s devs" and b: "bounded_motion m \<or> session_roomy s"
  shows "\<exists>dev s' devs'. perform m s devs = Some (dev, s', devs') \<and> in_order s s' devs'"
proof (cases "ds_finished s")
  case (Some oc)
  then show ?thesis using in_order_refl [OF ok]
    by (cases m) (auto simp: step_in_tapes_def continue_tapes_def run_steps_tapes_def step_over_tapes_def
        step_out_tapes_def run_until_tapes_def gate_def)
next
  case None
  obtain ev s1 devs1 where a: "advance s devs = Some (ev, s1, devs1)" and o1: "in_order s s1 devs1"
    using advance_in_order [OF ok None] by blast
  then have ok1: "session_ok s1 devs1" by (simp add: in_order_def)
  obtain dev2 s2 d2 where st: "settled s1 ev devs1 = Some (dev2, s2, d2)" "in_order s s2 d2"
    using settled_returns [OF ok1] in_order_trans [OF o1] by blast
  show ?thesis
  proof (cases m)
    case StepIn
    then show ?thesis using None a st by (simp add: step_in_tapes_def gate_def)
  next
    case StepOver
    then have "session_roomy s1" using b o1 by (simp add: bounded_motion_def in_order_def)
    then obtain dev3 s3 d3 where "run_until_tapes s1 devs1 (Some (session_depth s)) None = Some (dev3, s3, d3)" "in_order s s3 d3"
      using run_until_returns [OF ok1, of None] in_order_trans [OF o1] by blast
    then show ?thesis
      using StepOver None a st by (simp add: step_over_tapes_def gate_def)
  qed (use b run_until_returns [OF ok] in \<open>auto simp: bounded_motion_def continue_tapes_def run_steps_tapes_def step_out_tapes_def\<close>)
qed

section \<open>Why a motion paused\<close>

lemma settled_not_step: "ev \<noteq> Retired \<Longrightarrow> settled s ev devs = Some (Paused p, s', devs') \<Longrightarrow>
    p = PauseBrk \<or> (\<exists>t. p = PauseTrap t)"
  by (auto simp: settled_def settle_event_def split: step_event.splits outcome.splits if_splits)

lemma loop_pause:
  assumes "run_until_loop u b s devs = Some r"
  shows "(fst r = Paused PauseStep \<longrightarrow> (\<exists>t. u = Some t \<and> session_depth (fst (snd r)) \<le> t))
    \<and> (\<forall>a. fst r = Paused (PauseBreakpoint a) \<longrightarrow>
         a = c_ip (ds_core (fst (snd r))) \<and> a \<in> ds_breakpoints s)
    \<and> (fst r = Paused PauseManual \<longrightarrow> b \<noteq> None)"
  using assms
proof (induction rule: run_until_loop.raw_induct [rotated -1, consumes 1, case_names step])
  case (step loop u b s devs r)
  obtain ev s1 devs1 where a: "advance s devs = Some (ev, s1, devs1)"
    using step(2) by (auto split: option.splits)
  have bps: "ds_breakpoints s1 = ds_breakpoints s" using a by (rule advance_Some)
  show ?case
  proof (cases "ev = Retired")
    case False
    then show ?thesis using step(2) a settled_not_step [OF False, of s1 devs1] by (cases r) auto
  next
    case True
    let ?n = "map_option (\<lambda>n. n - 1) b"
    let ?up = "case u of Some t \<Rightarrow> session_depth s1 \<le> t | None \<Rightarrow> False"
    let ?dry = "case b of Some n \<Rightarrow> n - 1 = 0 | None \<Rightarrow> False"
    have go: "(if ?up then Some (Paused PauseStep, s1, devs1)
        else if ?dry then Some (Paused PauseManual, s1, devs1)
        else if c_ip (ds_core s1) \<in> ds_breakpoints s1 then Some (Paused (PauseBreakpoint (c_ip (ds_core s1))), s1, devs1)
        else loop u ?n s1 devs1) = Some r"
      using step(2) by (simp only: a True option.case prod.case if_True simp_thms)
    show ?thesis
    proof -
      consider (up) ?up | (dry) "\<not> ?up" ?dry | (brk) "\<not> ?up" "\<not> ?dry" "c_ip (ds_core s1) \<in> ds_breakpoints s1"
        | (on) "\<not> ?up" "\<not> ?dry" "c_ip (ds_core s1) \<notin> ds_breakpoints s1" by argo
      then show ?thesis
      proof cases
        case up
        then have "r = (Paused PauseStep, s1, devs1)" using go by (simp only: if_True option.inject)
        then show ?thesis using up by (cases u) simp_all
      next
        case dry
        then have "r = (Paused PauseManual, s1, devs1)" using go by (simp only: if_True if_False option.inject)
        then show ?thesis using dry by (cases b) simp_all
      next
        case brk
        then have "r = (Paused (PauseBreakpoint (c_ip (ds_core s1))), s1, devs1)"
          using go by (simp only: if_True if_False option.inject)
        then show ?thesis using brk bps by simp
      next
        case on
        then have "loop u ?n s1 devs1 = Some r" using go by (simp only: if_False)
        then show ?thesis using step(1) [of u ?n s1 devs1 r] bps by simp
      qed
    qed
  qed
qed

text \<open>A budget that runs dry has retired exactly that many instructions.\<close>

lemma loop_budget:
  "session_ok s devs \<Longrightarrow> ds_finished s = None \<Longrightarrow> run_until_loop u (Some (Suc n)) s devs = Some (Paused PauseManual, s', devs') \<Longrightarrow>
     st_steps (ds_stats s') = st_steps (ds_stats s) + of_nat (Suc n)"
proof (induction n arbitrary: s devs)
  case (0 s devs)
  obtain ev s1 devs1 where a: "advance s devs = Some (ev, s1, devs1)"
    and st: "(\<forall>oc. ev \<noteq> Finished oc) \<longrightarrow> st_steps (ds_stats s1) = st_steps (ds_stats s) + 1"
    using advance_returns [OF 0(1,2)] by blast
  have r: "ev = Retired" using 0(3) a settled_not_step [of ev s1 devs1 PauseManual]
    by (subst (asm) run_until_loop.simps) (auto split: if_splits)
  then show ?case using 0(3) a st by (subst (asm) run_until_loop.simps) (auto split: if_splits)
next
  case (Suc n s devs)
  obtain ev s1 devs1 where a: "advance s devs = Some (ev, s1, devs1)" and ok: "session_ok s1 devs1"
    and st: "(\<forall>oc. ev \<noteq> Finished oc) \<longrightarrow> ds_finished s1 = None \<and> st_steps (ds_stats s1) = st_steps (ds_stats s) + 1"
    using advance_returns [OF Suc.prems(1,2)] by blast
  have r: "ev = Retired" using Suc.prems(3) a settled_not_step [of ev s1 devs1 PauseManual]
    by (subst (asm) run_until_loop.simps) (auto split: if_splits)
  then have "run_until_loop u (Some (Suc n)) s1 devs1 = Some (Paused PauseManual, s', devs')"
    using Suc.prems(3) a by (subst (asm) run_until_loop.simps) (auto split: if_splits)
  then show ?case using Suc.IH [OF ok] st r by simp
qed

section \<open>The properties of the debugger\<close>

lemma tapes_session_facts:
  fixes m :: machine and opts :: run_options
  defines "s \<equiv> machine_debug_tapes m opts"
  shows "ds_env s = machine_env m opts" "\<not> ds_started s" "\<not> ds_latch s" "ds_finished s = None"
    "first_latch s devs = Some (build_core m)" "ds_stats s = stats_new" "ds_core s = build_core m"
    "session_vm s (build_core m) devs =
        \<lparr>v_core = build_core m, v_stack = stack_new (ro_stack_depth opts), v_devs = devs, v_stats = stats_new\<rparr>"
  by (simp_all add: s_def machine_debug_tapes_def machine_debug_def session_with_tables_def session_new_def
      machine_env_def session_vm_def first_latch_def)

lemma tapes_session:
  assumes "\<forall>d \<in> set devs. tape_ok d" "length (mc_code m) < 2 ^ 32"
  shows "session_ok (machine_debug_tapes m opts) devs"
proof -
  let ?s = "machine_debug_tapes m opts"
  have "ready False (session_vm ?s (build_core m) devs)"
    unfolding tapes_session_facts(8) unfolding build_core_reset by (rule fresh_ready [OF assms(1), unfolded fresh_vm_def])
  then show ?thesis
    using assms(2) by (simp add: session_ok_def tapes_session_facts(1,2,5) machine_env_def)
qed

lemma fresh_session_roomy: "limited (ro_limits opts) \<Longrightarrow> session_roomy (machine_debug_tapes m opts)"
  by (simp add: session_roomy_def tapes_session_facts machine_env_def roomy_new)

text \<open>The virtual machine as a run of a loaded machine starts with it.\<close>

definition first_vm :: "machine \<Rightarrow> run_options \<Rightarrow> tape_dev list \<Rightarrow> vm" where
  "first_vm m opts devs =
     \<lparr>v_core = build_core m, v_stack = stack_new (ro_stack_depth opts), v_devs = devs, v_stats = stats_new\<rparr>"

text \<open>
  C22: a debugged run is the run. Take a session over the tapes of a machine and give it any sequence of
  motions, with breakpoints set and cleared in between. Then the session is the machine's own run after
  some number \<open>k\<close> of instructions: core, return stack, tapes and statistics are those of the run at that
  point, and it is finished if the run is. While it is not finished, every motion, except one with a
  spent budget, has executed at least one instruction; when it is finished, the machine's own run returns
  with the outcome and the state of the session.
\<close>

theorem debugger_is_run:
  assumes "obey_all cs (machine_debug_tapes m opts) devs = Some (s, devs')"
  shows "\<exists>k. run_prefix (machine_env m opts) k False (first_vm m opts devs)
        = Some (ds_finished s, session_vm s (ds_core s) devs')
    \<and> (ds_finished s = None \<longrightarrow> length (filter moving cs) \<le> k)
    \<and> (\<forall>oc. ds_finished s = Some oc \<longrightarrow> drive m devs opts False
         = Some (result_of oc (session_vm s (ds_core s) devs'), session_vm s (ds_core s) devs'))"
proof -
  let ?s = "machine_debug_tapes m opts"
  note f = tapes_session_facts [of m opts]
  obtain k where k: "at_prefix ?s devs k s devs'" "ds_finished s = None \<longrightarrow> length (filter moving cs) \<le> k"
    using obey_all_prefix [OF assms at_prefix_start] by auto
  have p: "run_prefix (machine_env m opts) k False (first_vm m opts devs) = Some (ds_finished s, session_vm s (ds_core s) devs')"
    using k(1) f(2,4,7) by (cases k) (auto simp: at_prefix_def f(1,5,8) first_vm_def split: if_splits)
  have fin: "drive m devs opts False = Some (result_of oc (session_vm s (ds_core s) devs'), session_vm s (ds_core s) devs')"
    if "ds_finished s = Some oc" for oc
    using run_prefix_ends [OF p [unfolded that]] by (simp add: drive_def run_def first_vm_def)
  show ?thesis using p k(2) by (intro exI [of _ k] conjI allI impI) (simp_all add: fin)
qed

text \<open>
  C23: a motion returns. A session in good order, which a fresh one is and every motion leaves, answers
  a single step and a budgeted run in any case. It answers every motion under a step limit, or under a
  tact limit of at most \<open>2 ^ 64 - 2 ^ 32\<close>, as long as its counters have room below the wrap-around; a
  fresh session has that room and every motion leaves it, unless the session has finished.
\<close>

theorem motion_returns:
  assumes "session_ok s devs" and "bounded_motion mo \<or> session_roomy s"
  shows "\<exists>ev s' devs'. perform mo s devs = Some (ev, s', devs') \<and> session_ok s' devs' \<and> ds_env s' = ds_env s
    \<and> (session_roomy s \<longrightarrow> session_roomy s')"
  using perform_returns [OF assms] by (auto simp: in_order_def)

lemma until_pause:
  assumes "run_until_tapes s devs u b = Some (ev, s', devs')" and fin: "ds_finished s = None"
  shows "(ev = Paused PauseStep \<longrightarrow> (\<exists>t. u = Some t \<and> session_depth s' \<le> t))
    \<and> (\<forall>a. ev = Paused (PauseBreakpoint a) \<longrightarrow> a = c_ip (ds_core s') \<and> a \<in> ds_breakpoints s)
    \<and> (\<forall>n. b = Some n \<and> ev = Paused PauseManual \<and> session_ok s devs \<longrightarrow> st_steps (ds_stats s') = st_steps (ds_stats s) + of_nat n)"
proof (cases "b = Some 0")
  case False
  then have r: "run_until_loop u b s devs = Some (ev, s', devs')" using assms by (simp add: run_until_tapes_def gate_def)
  have "st_steps (ds_stats s') = st_steps (ds_stats s) + of_nat n"
    if "b = Some n" "ev = Paused PauseManual" "session_ok s devs" for n
    using loop_budget [OF that(3) fin, of u "n - 1" s' devs'] r that False by (cases n) auto
  then show ?thesis using loop_pause [OF r] by auto
qed (use assms in \<open>auto simp: run_until_tapes_def gate_def\<close>)

lemma settled_pause:
  assumes "settled s1 e1 d1 = Some (ev, s', devs')"
  shows "(ev = Paused PauseStep \<longrightarrow> e1 = Retired \<and> s' = s1) \<and> (\<forall>x. ev \<noteq> Paused (PauseBreakpoint x))"
  using assms by (auto simp: settled_def settle_event_def split: step_event.splits outcome.splits if_splits)

text \<open>
  C24: a pause means what it says. A step-over that completes is no deeper than it began, a step-out
  that completes is strictly shallower, a spent budget has retired exactly that many instructions, a
  breakpoint pause is at a breakpoint about to be executed; and a finished session reports its outcome
  and changes nothing.
\<close>

theorem pause_meaning:
  assumes "session_ok s devs" and "perform mo s devs = Some (ev, s', devs')"
  shows "(mo = StepOver \<and> ev = Paused PauseStep \<longrightarrow> session_depth s' \<le> session_depth s)
    \<and> (mo = StepOut \<and> ev = Paused PauseStep \<longrightarrow> session_depth s' < session_depth s)
    \<and> (\<forall>n. mo = RunSteps n \<and> ev = Paused PauseManual \<longrightarrow> st_steps (ds_stats s') = st_steps (ds_stats s) + of_nat n)
    \<and> (\<forall>a. ev = Paused (PauseBreakpoint a) \<longrightarrow> a = c_ip (ds_core s') \<and> a \<in> ds_breakpoints s)
    \<and> (\<forall>oc. ds_finished s = Some oc \<longrightarrow> ev = DebugFinished oc \<and> s' = s \<and> devs' = devs)"
proof (cases "ds_finished s")
  case (Some oc)
  then show ?thesis using assms(2)
    by (cases mo) (auto simp: step_in_tapes_def continue_tapes_def run_steps_tapes_def step_over_tapes_def
        step_out_tapes_def run_until_tapes_def gate_def split: if_splits)
next
  case None
  obtain e1 s1 d1 where a: "advance s devs = Some (e1, s1, d1)" and bps: "ds_breakpoints s1 = ds_breakpoints s"
    and nf: "(\<forall>oc. e1 \<noteq> Finished oc) \<longrightarrow> ds_finished s1 = None"
    using advance_returns [OF assms(1) None] by blast
  note st = settled_pause [of s1 e1 d1 ev s' devs'] and until = until_pause [where ev = ev and s' = s' and devs' = devs']
  show ?thesis
  proof (cases mo)
    case StepIn
    then show ?thesis using assms(2) None a st by (simp add: step_in_tapes_def gate_def)
  next
    case ContinueRun
    then show ?thesis using until [of s devs None None] assms(2) None by (simp add: continue_tapes_def)
  next
    case (RunSteps n)
    then show ?thesis using until [of s devs None "Some n"] assms None by (simp add: run_steps_tapes_def)
  next
    case StepOut
    show ?thesis
    proof (cases "session_depth s")
      case 0
      then show ?thesis using StepOut until [of s devs None None] assms(2) None
        by (simp add: step_out_tapes_def continue_tapes_def)
    next
      case (Suc k)
      then show ?thesis using StepOut until [of s devs "Some k" None] assms(2) None
        by (simp add: step_out_tapes_def continue_tapes_def less_Suc_eq_le)
    qed
  next
    case StepOver
    then show ?thesis using assms(2) None a st until [of s1 d1 "Some (session_depth s)" None] nf bps
      by (auto simp: step_over_tapes_def gate_def split: if_splits)
  qed
qed

section \<open>A debugged program for the witnesses\<close>

lemma framed_session: "session_ok (machine_debug_tapes framed_machine stepped) [Infinite it_new]"
  by (rule tapes_session) (simp_all add: new_tape_ok framed_machine_def del: tape_ok.simps)

text \<open>\<open>ent; wr 1; rgt; stp\<close> on the PM-1, stopped by a breakpoint after the mark is written.\<close>

definition marking_machine :: machine where
  "marking_machine =
     \<lparr>mc_arch = pm1, mc_code = [0x0D, 0x06, 0x81, 0x05, 0x02], mc_entry = 0, mc_tables = [], mc_tape_count = 1,
      mc_profile = PROFILE_BASE, mc_cardinalities = [2], mc_frames_offset = 0\<rparr>"

lemma marking_session_pauses:
  "(case obey_all [Move StepIn, BreakAt 3, Move ContinueRun] (machine_debug_tapes marking_machine stepped) [Infinite it_new] of
      Some (s, devs) \<Rightarrow> ds_finished s = None \<and> c_ip (ds_core s) = 3 \<and> map (\<lambda>t. tape_cells t 0) devs = [1]
    | None \<Rightarrow> False)"
  by code_simp

lemma marking_session_ends:
  "(case obey_all [Move StepIn, BreakAt 3, Move ContinueRun, Unbreak 3, Move (RunSteps 3)]
        (machine_debug_tapes marking_machine stepped) [Infinite it_new] of
      Some (s, devs) \<Rightarrow> ds_finished s = Some Stopped
    | None \<Rightarrow> False)"
  by code_simp

theorem debugger_is_run_witness:
  "(\<exists>k v. run_prefix (machine_env marking_machine stepped) k False (first_vm marking_machine stepped [Infinite it_new])
        = Some (None, v) \<and> 2 \<le> k \<and> c_ip (v_core v) = 3)
   \<and> (\<exists>res v. drive marking_machine [Infinite it_new] stepped False = Some (res, v) \<and> r_outcome res = Stopped)"
proof
  obtain s devs where p: "obey_all [Move StepIn, BreakAt 3, Move ContinueRun] (machine_debug_tapes marking_machine stepped) [Infinite it_new]
      = Some (s, devs)" "ds_finished s = None" "c_ip (ds_core s) = 3"
    using marking_session_pauses by (auto split: option.splits)
  show "\<exists>k v. run_prefix (machine_env marking_machine stepped) k False (first_vm marking_machine stepped [Infinite it_new])
        = Some (None, v) \<and> 2 \<le> k \<and> c_ip (v_core v) = 3"
    using debugger_is_run [OF p(1)] p(2,3) by (elim exE conjE) (intro exI conjI, auto simp: session_vm_def)
  obtain s' devs' where q: "obey_all [Move StepIn, BreakAt 3, Move ContinueRun, Unbreak 3, Move (RunSteps 3)]
        (machine_debug_tapes marking_machine stepped) [Infinite it_new] = Some (s', devs')" "ds_finished s' = Some Stopped"
    using marking_session_ends by (auto split: option.splits)
  show "\<exists>res v. drive marking_machine [Infinite it_new] stepped False = Some (res, v) \<and> r_outcome res = Stopped"
    using debugger_is_run [OF q(1)] q(2) by (auto simp: result_of_def)
qed

theorem motion_returns_witness:
  "\<exists>ev s' devs'. perform ContinueRun (machine_debug_tapes framed_machine stepped) [Infinite it_new] = Some (ev, s', devs')
     \<and> session_ok s' devs' \<and> session_roomy s'"
proof -
  have "session_roomy (machine_debug_tapes framed_machine stepped)"
    by (rule fresh_session_roomy) (simp add: stepped_def limited_def)
  then show ?thesis using motion_returns [OF framed_session, of ContinueRun] by auto
qed

definition stopped_at_3 :: session where
  "stopped_at_3 = add_breakpoint 3 (machine_debug_tapes marking_machine stepped)"

lemma stopped_at_3_ok: "session_ok stopped_at_3 [Infinite it_new]"
proof -
  have "session_ok (machine_debug_tapes marking_machine stepped) [Infinite it_new]"
    by (rule tapes_session) (simp_all add: new_tape_ok marking_machine_def del: tape_ok.simps)
  moreover have "session_ok (add_breakpoint a s) devs = session_ok s devs" for a s devs
    by (simp add: add_breakpoint_def session_ok_def first_latch_def session_vm_def)
  ultimately show ?thesis by (simp add: stopped_at_3_def)
qed

lemma stopped_at_3_pause:
  "map_option fst (perform ContinueRun stopped_at_3 [Infinite it_new]) = Some (Paused (PauseBreakpoint 3))"
  by code_simp

theorem pause_meaning_witness:
  "\<exists>s' devs'. perform ContinueRun stopped_at_3 [Infinite it_new] = Some (Paused (PauseBreakpoint 3), s', devs')
    \<and> c_ip (ds_core s') = 3"
proof -
  obtain s' devs' where p: "perform ContinueRun stopped_at_3 [Infinite it_new] = Some (Paused (PauseBreakpoint 3), s', devs')"
    using stopped_at_3_pause by auto
  then show ?thesis using pause_meaning [OF stopped_at_3_ok p] by auto
qed

end
