(* ===== verification/Object_File.thy ===== *)
theory Object_File
  imports Wire
begin

text \<open>
  The object container \<open>MO\<close> (\<open>crates/core/src/formats/object.rs\<close>): symbols, code blobs, call
  relocations and the optional debug section of version 2, and the generic-routine sections of
  version 3. The writer interns every name in a string pool; the reader checks every index. The
  two are inverse on the objects the reader can produce. The \<open>debug_assert\<close>s of the writer are
  absent from a release build and from the model.
\<close>

section \<open>Objects\<close>

definition MAGIC_OBJECT :: "u8 list" where "MAGIC_OBJECT = [0x4D, 0x4F, 0x01]"
definition OBJECT_FORMAT_VERSION_V2 :: u16 where "OBJECT_FORMAT_VERSION_V2 = 2"
definition OBJECT_FORMAT_VERSION_V3 :: u16 where "OBJECT_FORMAT_VERSION_V3 = 3"
definition MO_CRC_OFFSET :: nat where "MO_CRC_OFFSET = 7"
definition EXTERNAL_BLOB :: u32 where "EXTERNAL_BLOB = 0xFFFFFFFF"
definition FLAG_HAS_DEBUG :: u8 where "FLAG_HAS_DEBUG = 0x01"
definition FLAG_HAS_SIGNATURES :: u8 where "FLAG_HAS_SIGNATURES = 0x02"
definition FLAG_HAS_TABLES :: u8 where "FLAG_HAS_TABLES = 0x04"
definition FLAG_HAS_VARIANTS :: u8 where "FLAG_HAS_VARIANTS = 0x08"
definition FLAG_PROGRAM_VOLATILE :: u8 where "FLAG_PROGRAM_VOLATILE = 0x10"

datatype blob_variant = Normal | Volatile | Both

datatype symbol_def = Defined u32 | Local u32 | External

record symbol =
  sym_name :: utf8
  sym_def :: symbol_def

record relocation =
  rl_blob :: u32
  rl_offset :: u32
  rl_symbol :: u32

record blob_debug =
  bd_labels :: "(utf8 \<times> u32) list"
  bd_lines :: "(u32 \<times> u32) list"

record routine_sig =
  sig_arity :: u8
  sig_cards :: "u32 list"

record table_fixup =
  fx_blob :: u32
  fx_offset :: u32
  fx_table_offset :: u32

record map_pair =
  mp_src :: u32
  mp_dst :: u32
  mp_one_way :: bool

record tape_binding =
  bind_caller_tape :: u8
  bind_pairs :: "map_pair list"

record bound_call =
  bc_blob :: u32
  bc_offset :: u32
  bc_symbol :: u32
  bc_binding :: "tape_binding list"

record object_file =
  ob_arch :: u8
  ob_symbols :: "symbol list"
  ob_blobs :: "u8 list list"
  ob_relocations :: "relocation list"
  ob_debug :: "blob_debug list option"
  ob_signatures :: "routine_sig list option"
  ob_table_blobs :: "u8 list list option"
  ob_table_fixups :: "table_fixup list"
  ob_bound_calls :: "bound_call list"
  ob_variants :: "blob_variant list option"
  ob_program_volatile :: bool

definition object_v2 ::
  "u8 \<Rightarrow> symbol list \<Rightarrow> u8 list list \<Rightarrow> relocation list \<Rightarrow> blob_debug list option \<Rightarrow> object_file" where
  "object_v2 arch symbols blobs relocations debug =
     \<lparr>ob_arch = arch, ob_symbols = symbols, ob_blobs = blobs, ob_relocations = relocations,
      ob_debug = debug, ob_signatures = None, ob_table_blobs = None, ob_table_fixups = [],
      ob_bound_calls = [], ob_variants = None, ob_program_volatile = False\<rparr>"

definition is_v2_shape :: "object_file \<Rightarrow> bool" where
  "is_v2_shape ob \<longleftrightarrow>
     ob_signatures ob = None \<and> ob_table_blobs ob = None \<and> ob_table_fixups ob = []
     \<and> ob_bound_calls ob = [] \<and> ob_variants ob = None \<and> \<not> ob_program_volatile ob"

section \<open>The string pool\<close>

fun position :: "utf8 \<Rightarrow> utf8 list \<Rightarrow> nat option" where
  "position s [] = None"
| "position s (x # xs) = (if x = s then Some 0 else map_option Suc (position s xs))"

definition intern :: "utf8 list \<Rightarrow> utf8 \<Rightarrow> u32 \<times> utf8 list" where
  "intern strings s =
     (case position s strings of
        Some i \<Rightarrow> (of_nat i, strings)
      | None \<Rightarrow> (of_nat (length (strings @ [s]) - 1), strings @ [s]))"

fun intern_all :: "utf8 list \<Rightarrow> utf8 list \<Rightarrow> u32 list \<times> utf8 list" where
  "intern_all pool [] = ([], pool)"
| "intern_all pool (s # ss) =
     (let (i, pool) = intern pool s; (is, pool) = intern_all pool ss in (i # is, pool))"

fun intern_lists :: "utf8 list \<Rightarrow> utf8 list list \<Rightarrow> u32 list list \<times> utf8 list" where
  "intern_lists pool [] = ([], pool)"
| "intern_lists pool (ss # sss) =
     (let (is, pool) = intern_all pool ss; (iss, pool) = intern_lists pool sss in (is # iss, pool))"

definition symbol_names :: "object_file \<Rightarrow> utf8 list" where
  "symbol_names ob = map sym_name (ob_symbols ob)"

definition label_names :: "object_file \<Rightarrow> utf8 list list" where
  "label_names ob = (case ob_debug ob of None \<Rightarrow> [] | Some ds \<Rightarrow> map (\<lambda>d. map fst (bd_labels d)) ds)"

text \<open>The indices of the symbol names, of the label names of each blob, and the pool.\<close>

definition intern_names :: "object_file \<Rightarrow> u32 list \<times> u32 list list \<times> utf8 list" where
  "intern_names ob =
     (let (names, pool) = intern_all [] (symbol_names ob);
          (labels, pool) = intern_lists pool (label_names ob) in
      (names, labels, pool))"

section \<open>Writing\<close>

definition put_strings :: "utf8 list \<Rightarrow> writer" where
  "put_strings strings = in_order [count_u32 (length strings), each emit_str strings]"

definition put_symbol :: "symbol \<times> u32 \<Rightarrow> writer" where
  "put_symbol = (\<lambda>(symb, name_idx). in_order
     (emit_u32 name_idx #
      (case sym_def symb of
         Defined blob \<Rightarrow> [emit_u8 1, emit_u32 blob]
       | Local blob \<Rightarrow> [emit_u8 2, emit_u32 blob]
       | External \<Rightarrow> [emit_u8 0, emit_u32 EXTERNAL_BLOB])))"

definition put_symbols :: "symbol list \<Rightarrow> u32 list \<Rightarrow> writer" where
  "put_symbols symbols names = in_order [count_u32 (length symbols), each put_symbol (zip symbols names)]"

definition put_blobs :: "u8 list list \<Rightarrow> writer" where
  "put_blobs blobs = in_order [count_u32 (length blobs), each emit_blob blobs]"

definition put_reloc :: "relocation \<Rightarrow> writer" where
  "put_reloc rl = in_order [emit_u32 (rl_blob rl), emit_u32 (rl_offset rl), emit_u32 (rl_symbol rl)]"

definition put_relocs :: "relocation list \<Rightarrow> writer" where
  "put_relocs relocations = in_order [count_u32 (length relocations), each put_reloc relocations]"

definition put_label :: "(utf8 \<times> u32) \<times> u32 \<Rightarrow> writer" where
  "put_label = (\<lambda>((_, offset), name_idx). in_order [emit_u32 name_idx, emit_u32 offset])"

definition put_line :: "u32 \<times> u32 \<Rightarrow> writer" where
  "put_line = (\<lambda>(code_offset, line). in_order [emit_u32 code_offset, emit_u32 line])"

definition put_blob_debug :: "blob_debug \<times> u32 list \<Rightarrow> writer" where
  "put_blob_debug = (\<lambda>(d, names). in_order
     [count_u32 (length (bd_labels d)), each put_label (zip (bd_labels d) names),
      count_u32 (length (bd_lines d)), each put_line (bd_lines d)])"

definition put_debug :: "blob_debug list option \<Rightarrow> u32 list list \<Rightarrow> writer" where
  "put_debug debug names =
     (case debug of
        None \<Rightarrow> in_order []
      | Some per_blob \<Rightarrow> each put_blob_debug (zip per_blob names))"

text \<open>The sections both versions share.\<close>

definition put_common :: "object_file \<Rightarrow> writer list" where
  "put_common ob =
     (let (names, labels, pool) = intern_names ob in
      [put_strings pool, put_symbols (ob_symbols ob) names, put_blobs (ob_blobs ob),
       put_relocs (ob_relocations ob), put_debug (ob_debug ob) labels])"

definition obj_header :: "u16 \<Rightarrow> u8 \<Rightarrow> u8 \<Rightarrow> writer list" where
  "obj_header version arch flags =
     [emit MAGIC_OBJECT, emit_u16 version, emit_u8 arch, emit_u8 flags, emit_u32 0]"

definition stamp_object :: "u8 list option \<Rightarrow> u8 list option" where
  "stamp_object r = (case r of None \<Rightarrow> None | Some out \<Rightarrow> stamp_crc out MO_CRC_OFFSET)"

definition obj_to_bytes_v2 :: "object_file \<Rightarrow> u8 list option" where
  "obj_to_bytes_v2 ob =
     stamp_object (in_order
       (obj_header OBJECT_FORMAT_VERSION_V2 (ob_arch ob) (if ob_debug ob \<noteq> None then FLAG_HAS_DEBUG else 0)
        @ put_common ob) [])"

definition obj_flags_v3 :: "object_file \<Rightarrow> u8" where
  "obj_flags_v3 ob =
     (let flags = 0 :: u8;
          flags = (if ob_debug ob \<noteq> None then flags OR FLAG_HAS_DEBUG else flags);
          flags = (if ob_signatures ob \<noteq> None then flags OR FLAG_HAS_SIGNATURES else flags);
          flags = (if ob_table_blobs ob \<noteq> None then flags OR FLAG_HAS_TABLES else flags);
          flags = (if ob_variants ob \<noteq> None then flags OR FLAG_HAS_VARIANTS else flags) in
      if ob_program_volatile ob then flags OR FLAG_PROGRAM_VOLATILE else flags)"

definition put_signature :: "routine_sig \<Rightarrow> writer" where
  "put_signature sig = in_order [emit_u8 (sig_arity sig), each emit_u32 (sig_cards sig)]"

definition put_signatures :: "routine_sig list option \<Rightarrow> writer" where
  "put_signatures sigs = (case sigs of None \<Rightarrow> in_order [] | Some ss \<Rightarrow> each put_signature ss)"

definition put_tables :: "u8 list list option \<Rightarrow> writer" where
  "put_tables tables = (case tables of None \<Rightarrow> in_order [] | Some ts \<Rightarrow> each emit_blob ts)"

definition put_variant :: "blob_variant \<Rightarrow> writer" where
  "put_variant v = emit_u8 (case v of Normal \<Rightarrow> 0 | Volatile \<Rightarrow> 1 | Both \<Rightarrow> 2)"

definition put_variants :: "blob_variant list option \<Rightarrow> writer" where
  "put_variants variants =
     (case variants of
        None \<Rightarrow> in_order []
      | Some vs \<Rightarrow> in_order [count_u32 (length vs), each put_variant vs])"

definition put_fixup :: "table_fixup \<Rightarrow> writer" where
  "put_fixup fx = in_order [emit_u32 (fx_blob fx), emit_u32 (fx_offset fx), emit_u32 (fx_table_offset fx)]"

definition put_fixups :: "table_fixup list \<Rightarrow> writer" where
  "put_fixups fixups = in_order [count_u32 (length fixups), each put_fixup fixups]"

definition put_pair :: "map_pair \<Rightarrow> writer" where
  "put_pair p = in_order [emit_u32 (mp_src p), emit_u32 (mp_dst p), emit_u8 (if mp_one_way p then 1 else 0)]"

definition put_binding :: "tape_binding \<Rightarrow> writer" where
  "put_binding t =
     in_order [emit_u8 (bind_caller_tape t), count_u16 (length (bind_pairs t)), each put_pair (bind_pairs t)]"

definition put_bound_call :: "bound_call \<Rightarrow> writer" where
  "put_bound_call c =
     in_order [emit_u32 (bc_blob c), emit_u32 (bc_offset c), emit_u32 (bc_symbol c),
       count_u8 (length (bc_binding c)), each put_binding (bc_binding c)]"

definition put_bound_calls :: "bound_call list \<Rightarrow> writer" where
  "put_bound_calls calls = in_order [count_u32 (length calls), each put_bound_call calls]"

definition obj_to_bytes_v3 :: "object_file \<Rightarrow> u8 list option" where
  "obj_to_bytes_v3 ob =
     stamp_object (in_order
       (obj_header OBJECT_FORMAT_VERSION_V3 (ob_arch ob) (obj_flags_v3 ob) @ put_common ob
        @ [put_signatures (ob_signatures ob), put_tables (ob_table_blobs ob), put_variants (ob_variants ob),
           put_fixups (ob_table_fixups ob), put_bound_calls (ob_bound_calls ob)]) [])"

definition obj_to_bytes :: "object_file \<Rightarrow> u8 list option" where
  "obj_to_bytes ob = (if is_v2_shape ob then obj_to_bytes_v2 ob else obj_to_bytes_v3 ob)"

section \<open>Reading\<close>

definition name_of :: "utf8 list \<Rightarrow> u32 \<Rightarrow> format_error + utf8" where
  "name_of strings idx =
     (case nth_opt strings (unat idx) of
        Some s \<Rightarrow> Inr s
      | None \<Rightarrow> Inl (MalformedFile ''string index out of range''))"

definition rd_raw_symbol :: "(u32 \<times> u8 \<times> u32) parser" where
  "rd_raw_symbol =
     and_then rd_u32 (\<lambda>name_idx. and_then rd_u8 (\<lambda>kind. and_then rd_u32 (\<lambda>blob.
       yields (name_idx, kind, blob))))"

definition rd_reloc :: "relocation parser" where
  "rd_reloc =
     and_then rd_u32 (\<lambda>blob. and_then rd_u32 (\<lambda>offset. and_then rd_u32 (\<lambda>symbol.
       yields \<lparr>rl_blob = blob, rl_offset = offset, rl_symbol = symbol\<rparr>)))"

definition rd_label :: "utf8 list \<Rightarrow> (utf8 \<times> u32) parser" where
  "rd_label strings =
     and_then rd_u32 (\<lambda>idx. and_then (lift_res (name_of strings idx)) (\<lambda>name.
     and_then rd_u32 (\<lambda>offset. yields (name, offset))))"

definition rd_line :: "(u32 \<times> u32) parser" where
  "rd_line = and_then rd_u32 (\<lambda>code_offset. and_then rd_u32 (\<lambda>line. yields (code_offset, line)))"

definition rd_blob_debug :: "utf8 list \<Rightarrow> blob_debug parser" where
  "rd_blob_debug strings =
     and_then rd_u32 (\<lambda>label_count. and_then (repeat (unat label_count) (rd_label strings)) (\<lambda>labels.
     and_then rd_u32 (\<lambda>line_count. and_then (repeat (unat line_count) rd_line) (\<lambda>lines.
       yields \<lparr>bd_labels = labels, bd_lines = lines\<rparr>))))"

definition section_if :: "bool \<Rightarrow> 'a parser \<Rightarrow> 'a option parser" where
  "section_if present p = (if present then and_then p (\<lambda>x. yields (Some x)) else yields None)"

definition has_flag :: "u8 \<Rightarrow> u8 \<Rightarrow> bool" where
  "has_flag flags f \<longleftrightarrow> flags AND f \<noteq> 0"

definition rd_card :: "u32 parser" where
  "rd_card = and_then rd_u32 (\<lambda>c. check (c = 0) (MalformedFile ''zero cardinality'') (yields c))"

definition rd_signature :: "routine_sig parser" where
  "rd_signature =
     and_then rd_u8 (\<lambda>arity.
     check (\<not> (1 \<le> arity \<and> arity \<le> 16)) (MalformedFile ''signature arity out of range'')
    (and_then (repeat (unat arity) rd_card) (\<lambda>cards. yields \<lparr>sig_arity = arity, sig_cards = cards\<rparr>)))"

definition rd_variant :: "blob_variant parser" where
  "rd_variant =
     and_then rd_u8 (\<lambda>tag.
       if tag = 0 then yields Normal else if tag = 1 then yields Volatile
       else if tag = 2 then yields Both else refuse (MalformedFile ''unknown blob variant tag''))"

definition rd_variants :: "nat \<Rightarrow> blob_variant list parser" where
  "rd_variants blob_count =
     and_then rd_u32 (\<lambda>n. check (unat n \<noteq> blob_count) (MalformedFile ''variants section length mismatch'')
       (repeat (unat n) rd_variant))"

definition rd_fixup :: "u8 list list \<Rightarrow> u8 list list option \<Rightarrow> table_fixup parser" where
  "rd_fixup blobs table_blobs =
     and_then rd_u32 (\<lambda>blob. and_then rd_u32 (\<lambda>offset. and_then rd_u32 (\<lambda>table_offset.
     (case nth_opt blobs (unat blob) of
        None \<Rightarrow> refuse (MalformedFile ''fixup out of range'')
      | Some code \<Rightarrow>
     check (unat offset + 4 > length code) (MalformedFile ''fixup out of range'')
    (case table_blobs of
        None \<Rightarrow> refuse (MalformedFile ''fixup out of range'')
      | Some tables \<Rightarrow>
    (case nth_opt tables (unat blob) of
        None \<Rightarrow> refuse (MalformedFile ''fixup out of range'')
      | Some table \<Rightarrow>
     check (unat table_offset \<ge> length table) (MalformedFile ''fixup out of range'')
       (yields \<lparr>fx_blob = blob, fx_offset = offset, fx_table_offset = table_offset\<rparr>)))))))"

definition rd_pair :: "map_pair parser" where
  "rd_pair =
     and_then rd_u32 (\<lambda>src. and_then rd_u32 (\<lambda>dst. and_then rd_u8 (\<lambda>flags_byte.
     check (flags_byte AND NOT 1 \<noteq> 0) (MalformedFile ''reserved map-pair flags'')
       (yields \<lparr>mp_src = src, mp_dst = dst, mp_one_way = flags_byte AND 1 \<noteq> 0\<rparr>))))"

definition rd_binding :: "tape_binding parser" where
  "rd_binding =
     and_then rd_u8 (\<lambda>caller_tape.
     check (caller_tape \<ge> 16) (MalformedFile ''caller tape index out of range'')
    (and_then rd_u16 (\<lambda>pair_count. and_then (repeat (unat pair_count) rd_pair) (\<lambda>pairs.
       yields \<lparr>bind_caller_tape = caller_tape, bind_pairs = pairs\<rparr>))))"

definition rd_bound_call :: "u8 list list \<Rightarrow> nat \<Rightarrow> nat \<Rightarrow> bound_call parser" where
  "rd_bound_call blobs blob_count symbol_count =
     and_then rd_u32 (\<lambda>blob. and_then rd_u32 (\<lambda>offset. and_then rd_u32 (\<lambda>symbol.
     and_then rd_u8 (\<lambda>tape_count.
     check (unat blob \<ge> blob_count) (MalformedFile ''bound call blob index out of range'')
    (check (unat offset + 4 > length (blobs ! unat blob)) (MalformedFile ''bound call offset out of range'')
    (check (unat symbol \<ge> symbol_count) (MalformedFile ''bound call symbol index out of range'')
    (and_then (repeat (unat tape_count) rd_binding) (\<lambda>binding.
       yields \<lparr>bc_blob = blob, bc_offset = offset, bc_symbol = symbol, bc_binding = binding\<rparr>))))))))"

type_synonym v3_parts =
  "routine_sig list option \<times> u8 list list option \<times> blob_variant list option
   \<times> table_fixup list \<times> bound_call list"

definition rd_v3_sections :: "u8 \<Rightarrow> nat \<Rightarrow> nat \<Rightarrow> u8 list list \<Rightarrow> v3_parts parser" where
  "rd_v3_sections flags blob_count symbol_count blobs =
     and_then (section_if (has_flag flags FLAG_HAS_SIGNATURES) (repeat blob_count rd_signature)) (\<lambda>signatures.
     and_then (section_if (has_flag flags FLAG_HAS_TABLES) (repeat blob_count rd_blob)) (\<lambda>table_blobs.
     and_then (section_if (has_flag flags FLAG_HAS_VARIANTS) (rd_variants blob_count)) (\<lambda>variants.
     and_then rd_u32 (\<lambda>fixup_count.
     and_then (repeat (unat fixup_count) (rd_fixup blobs table_blobs)) (\<lambda>table_fixups.
     and_then rd_u32 (\<lambda>bound_call_count.
     and_then (repeat (unat bound_call_count) (rd_bound_call blobs blob_count symbol_count)) (\<lambda>bound_calls.
       yields (signatures, table_blobs, variants, table_fixups, bound_calls))))))))"

definition rd_parts :: "u16 \<Rightarrow> u8 \<Rightarrow> nat \<Rightarrow> nat \<Rightarrow> u8 list list \<Rightarrow> v3_parts parser" where
  "rd_parts version flags blob_count symbol_count blobs =
     (if version \<ge> OBJECT_FORMAT_VERSION_V3 then rd_v3_sections flags blob_count symbol_count blobs
      else check
        (has_flag flags (FLAG_HAS_SIGNATURES OR FLAG_HAS_TABLES OR FLAG_HAS_VARIANTS OR FLAG_PROGRAM_VOLATILE))
        (MalformedFile ''v3 flags in pre-v3 object'')
        (yields (None, None, None, [], [])))"

definition resolve_symbol :: "utf8 list \<Rightarrow> nat \<Rightarrow> u32 \<times> u8 \<times> u32 \<Rightarrow> format_error + symbol" where
  "resolve_symbol strings blob_count = (\<lambda>(name_idx, kind, blob).
     (case name_of strings name_idx of
        Inl e \<Rightarrow> Inl e
      | Inr name \<Rightarrow>
          if kind = 0 then
            (if blob \<noteq> EXTERNAL_BLOB then Inl (MalformedFile ''external symbol carries a blob'')
             else Inr \<lparr>sym_name = name, sym_def = External\<rparr>)
          else if kind = 1 then
            (if unat blob \<ge> blob_count then Inl (MalformedFile ''symbol blob index out of range'')
             else Inr \<lparr>sym_name = name, sym_def = Defined blob\<rparr>)
          else if kind = 2 then
            (if unat blob \<ge> blob_count then Inl (MalformedFile ''symbol blob index out of range'')
             else Inr \<lparr>sym_name = name, sym_def = Local blob\<rparr>)
          else Inl (MalformedFile ''unknown symbol kind'')))"

fun resolve_symbols :: "utf8 list \<Rightarrow> nat \<Rightarrow> (u32 \<times> u8 \<times> u32) list \<Rightarrow> format_error + symbol list" where
  "resolve_symbols strings blob_count [] = Inr []"
| "resolve_symbols strings blob_count (raw # raws) =
     (case resolve_symbol strings blob_count raw of
        Inl e \<Rightarrow> Inl e
      | Inr symb \<Rightarrow> map_sum id ((#) symb) (resolve_symbols strings blob_count raws))"

fun check_relocs :: "u8 list list \<Rightarrow> nat \<Rightarrow> relocation list \<Rightarrow> format_error + unit" where
  "check_relocs blobs symbol_count [] = Inr ()"
| "check_relocs blobs symbol_count (rl # rls) =
     (case nth_opt blobs (unat (rl_blob rl)) of
        None \<Rightarrow> Inl (MalformedFile ''relocation blob index out of range'')
      | Some blob \<Rightarrow>
          if unat (rl_symbol rl) \<ge> symbol_count then Inl (MalformedFile ''relocation symbol index out of range'')
          else if unat (rl_offset rl) + 4 > length blob then Inl (MalformedFile ''relocation outside blob'')
          else check_relocs blobs symbol_count rls)"

text \<open>From the debug section to the end, and what is checked there.\<close>

definition obj_tail ::
  "u16 \<Rightarrow> u8 \<Rightarrow> u8 \<Rightarrow> utf8 list \<Rightarrow> nat \<Rightarrow> (u32 \<times> u8 \<times> u32) list \<Rightarrow> nat \<Rightarrow> u8 list list \<Rightarrow> relocation list
    \<Rightarrow> object_file parser" where
  "obj_tail version arch flags strings symbol_count raw_symbols blob_count blobs relocations =
     and_then (section_if (has_flag flags FLAG_HAS_DEBUG) (repeat blob_count (rd_blob_debug strings))) (\<lambda>debug.
     and_then (rd_parts version flags blob_count symbol_count blobs)
       (\<lambda>(signatures, table_blobs, variants, table_fixups, bound_calls).
     and_then rd_finish (\<lambda>_.
     and_then (lift_res (resolve_symbols strings (length blobs) raw_symbols)) (\<lambda>symbols.
     and_then (lift_res (check_relocs blobs (length symbols) relocations)) (\<lambda>_.
       yields \<lparr>ob_arch = arch, ob_symbols = symbols, ob_blobs = blobs, ob_relocations = relocations,
         ob_debug = debug, ob_signatures = signatures, ob_table_blobs = table_blobs,
         ob_table_fixups = table_fixups, ob_bound_calls = bound_calls, ob_variants = variants,
         ob_program_volatile = has_flag flags FLAG_PROGRAM_VOLATILE\<rparr>)))))"

definition obj_rest :: "u16 \<Rightarrow> u8 \<Rightarrow> u8 \<Rightarrow> object_file parser" where
  "obj_rest version arch flags =
     and_then rd_u32 (\<lambda>string_count.
     and_then (repeat (unat string_count) (rd_str ''string not utf-8'')) (\<lambda>strings.
     and_then rd_u32 (\<lambda>symbol_count. and_then (repeat (unat symbol_count) rd_raw_symbol) (\<lambda>raw_symbols.
     and_then rd_u32 (\<lambda>blob_count. and_then (repeat (unat blob_count) rd_blob) (\<lambda>blobs.
     and_then rd_u32 (\<lambda>reloc_count. and_then (repeat (unat reloc_count) rd_reloc) (\<lambda>relocations.
       obj_tail version arch flags strings (unat symbol_count) raw_symbols (unat blob_count) blobs relocations))))))))"

definition obj_body :: "object_file parser" where
  "obj_body =
     and_then rd_u16 (\<lambda>version.
     check (\<not> (1 \<le> version \<and> version \<le> OBJECT_FORMAT_VERSION_V3)) (UnsupportedVersion version)
    (and_then rd_u8 (\<lambda>arch. and_then rd_u8 (\<lambda>flags. and_then rd_u32 (\<lambda>crc.
       obj_rest version arch flags)))))"

definition obj_from_bytes :: "u8 list \<Rightarrow> format_error + object_file" where
  "obj_from_bytes bytes = open_container MAGIC_OBJECT MO_CRC_OFFSET obj_body bytes"

end
