(* ===== verification/Object_Codec.thy ===== *)
theory Object_Codec
  imports Object_File
begin

text \<open>
  The object container's reader inverts its writer, and accepts only objects that satisfy the
  invariants listed at \<open>ObjectFile\<close> that can be checked without an architecture.
\<close>

section \<open>Valid objects\<close>

definition name_ok :: "utf8 \<Rightarrow> bool" where
  "name_ok s \<longleftrightarrow> utf8_ok s \<and> length s < 2 ^ 16"

definition symbol_ok :: "u8 list list \<Rightarrow> symbol \<Rightarrow> bool" where
  "symbol_ok blobs s \<longleftrightarrow>
     name_ok (sym_name s)
     \<and> (case sym_def s of
          Defined b \<Rightarrow> unat b < length blobs | Local b \<Rightarrow> unat b < length blobs | External \<Rightarrow> True)"

text \<open>The four bytes at \<open>offset\<close> lie inside the blob.\<close>

definition hole_ok :: "u8 list list \<Rightarrow> u32 \<Rightarrow> u32 \<Rightarrow> bool" where
  "hole_ok blobs blob offset \<longleftrightarrow> unat blob < length blobs \<and> unat offset + 4 \<le> length (blobs ! unat blob)"

definition reloc_ok :: "u8 list list \<Rightarrow> nat \<Rightarrow> relocation \<Rightarrow> bool" where
  "reloc_ok blobs n rl \<longleftrightarrow> hole_ok blobs (rl_blob rl) (rl_offset rl) \<and> unat (rl_symbol rl) < n"

definition debug_ok :: "blob_debug \<Rightarrow> bool" where
  "debug_ok d \<longleftrightarrow>
     (\<forall>(s, _) \<in> set (bd_labels d). name_ok s) \<and> length (bd_labels d) < 2 ^ 32 \<and> length (bd_lines d) < 2 ^ 32"

definition sig_ok :: "routine_sig \<Rightarrow> bool" where
  "sig_ok s \<longleftrightarrow>
     1 \<le> sig_arity s \<and> sig_arity s \<le> 16 \<and> length (sig_cards s) = unat (sig_arity s)
     \<and> (\<forall>c \<in> set (sig_cards s). c \<noteq> 0)"

definition fixup_ok :: "u8 list list \<Rightarrow> u8 list list option \<Rightarrow> table_fixup \<Rightarrow> bool" where
  "fixup_ok blobs tables fx \<longleftrightarrow>
     hole_ok blobs (fx_blob fx) (fx_offset fx)
     \<and> (case tables of
          None \<Rightarrow> False
        | Some ts \<Rightarrow> unat (fx_blob fx) < length ts \<and> unat (fx_table_offset fx) < length (ts ! unat (fx_blob fx)))"

definition binding_ok :: "tape_binding \<Rightarrow> bool" where
  "binding_ok t \<longleftrightarrow> bind_caller_tape t < 16 \<and> length (bind_pairs t) < 2 ^ 16"

definition call_ok :: "u8 list list \<Rightarrow> nat \<Rightarrow> bound_call \<Rightarrow> bool" where
  "call_ok blobs n c \<longleftrightarrow>
     hole_ok blobs (bc_blob c) (bc_offset c) \<and> unat (bc_symbol c) < n
     \<and> length (bc_binding c) < 2 ^ 8 \<and> (\<forall>t \<in> set (bc_binding c). binding_ok t)"

text \<open>An optional section with one entry per blob.\<close>

definition parallel_ok :: "nat \<Rightarrow> ('a \<Rightarrow> bool) \<Rightarrow> 'a list option \<Rightarrow> bool" where
  "parallel_ok n ok xs \<longleftrightarrow> (case xs of None \<Rightarrow> True | Some ys \<Rightarrow> length ys = n \<and> (\<forall>y \<in> set ys. ok y))"

definition object_names :: "object_file \<Rightarrow> utf8 set" where
  "object_names ob = set (symbol_names ob) \<union> set (concat (label_names ob))"

definition object_ok :: "object_file \<Rightarrow> bool" where
  "object_ok ob \<longleftrightarrow>
     (let blobs = ob_blobs ob; n = length (ob_symbols ob) in
      (\<forall>s \<in> set (ob_symbols ob). symbol_ok blobs s)
      \<and> (\<forall>rl \<in> set (ob_relocations ob). reloc_ok blobs n rl)
      \<and> parallel_ok (length blobs) debug_ok (ob_debug ob)
      \<and> parallel_ok (length blobs) sig_ok (ob_signatures ob)
      \<and> parallel_ok (length blobs) (\<lambda>t. length t < 2 ^ 32) (ob_table_blobs ob)
      \<and> parallel_ok (length blobs) (\<lambda>_. True) (ob_variants ob)
      \<and> (\<forall>fx \<in> set (ob_table_fixups ob). fixup_ok blobs (ob_table_blobs ob) fx)
      \<and> (\<forall>c \<in> set (ob_bound_calls ob). call_ok blobs n c))"

text \<open>Every count and length fits its field of the file.\<close>

definition object_fits :: "object_file \<Rightarrow> bool" where
  "object_fits ob \<longleftrightarrow>
     length (ob_symbols ob) < 2 ^ 32 \<and> length (ob_blobs ob) < 2 ^ 32 \<and> length (ob_relocations ob) < 2 ^ 32
     \<and> length (ob_table_fixups ob) < 2 ^ 32 \<and> length (ob_bound_calls ob) < 2 ^ 32
     \<and> (\<forall>b \<in> set (ob_blobs ob). length b < 2 ^ 32) \<and> card (object_names ob) < 2 ^ 32"

section \<open>Interning\<close>

definition named :: "utf8 list \<Rightarrow> u32 \<Rightarrow> utf8 \<Rightarrow> bool" where
  "named pool i s \<longleftrightarrow> unat i < length pool \<and> pool ! unat i = s"

text \<open>What interning makes of a pool.\<close>

definition grown :: "utf8 list \<Rightarrow> utf8 list \<Rightarrow> utf8 set \<Rightarrow> bool" where
  "grown pool pool' new \<longleftrightarrow>
     (\<exists>more. pool' = pool @ more) \<and> set pool' = set pool \<union> new \<and> (distinct pool \<longrightarrow> distinct pool')"

lemma grown_refl: "grown pool pool {}"
  by (simp add: grown_def)

lemma grown_trans: "grown a b s \<Longrightarrow> grown b c t \<Longrightarrow> grown a c (s \<union> t)"
  by (auto simp: grown_def)

lemma grown_length: "grown a b s \<Longrightarrow> length a \<le> length b"
  by (auto simp: grown_def)

lemma named_grown: "named a i s \<Longrightarrow> grown a b t \<Longrightarrow> named b i s"
  by (auto simp: named_def grown_def nth_append)

lemma named_list_grown: "list_all2 (named a) is ss \<Longrightarrow> grown a b t \<Longrightarrow> list_all2 (named b) is ss"
  by (erule list_all2_mono) (rule named_grown)

lemma position_Some: "position s xs = Some i \<Longrightarrow> i < length xs \<and> xs ! i = s"
  by (induction xs arbitrary: i) (auto split: if_splits)

lemma position_None: "position s xs = None \<longleftrightarrow> s \<notin> set xs"
  by (induction xs) auto

lemma intern_grown: "intern pool s = (i, pool') \<Longrightarrow> grown pool pool' {s}"
  by (auto simp: intern_def grown_def position_None split: option.splits dest!: position_Some)

lemma intern_named: "intern pool s = (i, pool') \<Longrightarrow> length pool' < 2 ^ 32 \<Longrightarrow> named pool' i s"
  by (auto simp: intern_def named_def unat_of_nat split: option.splits dest!: position_Some)

lemma intern_all_grown: "intern_all pool ss = (is, pool') \<Longrightarrow> grown pool pool' (set ss)"
proof (induction ss arbitrary: pool "is")
  case (Cons s ss)
  obtain i mid js where "intern pool s = (i, mid)" "intern_all mid ss = (js, pool')"
    using Cons.prems by (auto simp: Let_def split: prod.splits)
  then show ?case using grown_trans [OF intern_grown Cons.IH] by fastforce
qed (simp add: grown_refl)

lemma intern_all_named:
  "intern_all pool ss = (is, pool') \<Longrightarrow> length pool' < 2 ^ 32 \<Longrightarrow> list_all2 (named pool') is ss"
proof (induction ss arbitrary: pool "is")
  case (Cons s ss)
  obtain i mid js where m: "intern pool s = (i, mid)" "intern_all mid ss = (js, pool')" "is = i # js"
    using Cons.prems(1) by (auto simp: Let_def split: prod.splits)
  note g = intern_all_grown [OF m(2)]
  have "named mid i s" using intern_named [OF m(1)] grown_length [OF g] Cons.prems(2) by simp
  then show ?case using Cons.IH [OF m(2) Cons.prems(2)] named_grown g m(3) by auto
qed simp

lemma intern_lists_grown: "intern_lists pool sss = (iss, pool') \<Longrightarrow> grown pool pool' (set (concat sss))"
proof (induction sss arbitrary: pool iss)
  case (Cons ss sss)
  obtain i mid js where "intern_all pool ss = (i, mid)" "intern_lists mid sss = (js, pool')"
    using Cons.prems by (auto simp: Let_def split: prod.splits)
  then show ?case using grown_trans [OF intern_all_grown Cons.IH] by fastforce
qed (simp add: grown_refl)

lemma intern_lists_named:
  "intern_lists pool sss = (iss, pool') \<Longrightarrow> length pool' < 2 ^ 32 \<Longrightarrow>
     list_all2 (list_all2 (named pool')) iss sss"
proof (induction sss arbitrary: pool iss)
  case (Cons ss sss)
  obtain i mid js where m: "intern_all pool ss = (i, mid)" "intern_lists mid sss = (js, pool')" "iss = i # js"
    using Cons.prems(1) by (auto simp: Let_def split: prod.splits)
  note g = intern_lists_grown [OF m(2)]
  have "list_all2 (named mid) i ss" using intern_all_named [OF m(1)] grown_length [OF g] Cons.prems(2) by simp
  then show ?case using Cons.IH [OF m(2) Cons.prems(2)] named_list_grown g m(3) by auto
qed simp

lemma intern_names_pool:
  assumes "intern_names ob = (names, labels, pool)" "card (object_names ob) < 2 ^ 32"
  shows "length pool < 2 ^ 32" "set pool = object_names ob"
    "list_all2 (named pool) names (symbol_names ob)"
    "list_all2 (list_all2 (named pool)) labels (label_names ob)"
proof -
  obtain mid where m: "intern_all [] (symbol_names ob) = (names, mid)"
      "intern_lists mid (label_names ob) = (labels, pool)"
    using assms(1) by (auto simp: intern_names_def Let_def split: prod.splits)
  note g = intern_lists_grown [OF m(2)]
  have "grown [] pool (object_names ob)"
    using grown_trans [OF intern_all_grown [OF m(1)] g] by (simp add: object_names_def)
  then have p: "set pool = object_names ob" "distinct pool" by (simp_all add: grown_def)
  then show len: "length pool < 2 ^ 32" using assms(2) distinct_card by metis
  show "set pool = object_names ob" by (rule p)
  show "list_all2 (named pool) names (symbol_names ob)"
    using intern_all_named [OF m(1)] grown_length [OF g] len by (auto intro: named_list_grown [OF _ g])
  show "list_all2 (list_all2 (named pool)) labels (label_names ob)"
    by (rule intern_lists_named [OF m(2) len])
qed

lemma intern_names_distinct: "intern_names ob = (names, labels, pool) \<Longrightarrow> distinct pool"
proof -
  assume "intern_names ob = (names, labels, pool)"
  then obtain mid where "intern_all [] (symbol_names ob) = (names, mid)" "intern_lists mid (label_names ob) = (labels, pool)"
    by (auto simp: intern_names_def Let_def split: prod.splits)
  then show ?thesis using intern_all_grown intern_lists_grown by (fastforce simp: grown_def)
qed

lemma name_of_named: "named pool i s \<Longrightarrow> name_of pool i = Inr s"
  by (simp add: named_def name_of_def)

section \<open>Each kind of entry\<close>

lemma coupled_reloc: "coupled (put_reloc rl) rd_reloc rl"
proof -
  have "coupled (put_reloc rl) rd_reloc
      \<lparr>rl_blob = rl_blob rl, rl_offset = rl_offset rl, rl_symbol = rl_symbol rl\<rparr>"
    unfolding put_reloc_def rd_reloc_def by (intro coupled_steps)
  then show ?thesis by (cases rl) simp
qed

lemma coupled_line: "coupled (put_line l) rd_line l"
proof -
  obtain a b where "l = (a, b)" by (cases l)
  then show ?thesis by (simp only: put_line_def rd_line_def prod.case) (intro coupled_steps)
qed

lemma coupled_signature: "sig_ok s \<Longrightarrow> coupled (put_signature s) rd_signature s"
proof -
  assume s: "sig_ok s"
  have card: "coupled (emit_u32 c) rd_card c" if "c \<noteq> 0" for c
  proof -
    have "coupled (in_order [emit_u32 c]) rd_card c"
      unfolding rd_card_def using that by (intro coupled_steps coupled_check)
    then show ?thesis by (simp only: in_order_one)
  qed
  have "coupled (each emit_u32 (sig_cards s)) (repeat (unat (sig_arity s)) rd_card) (map (\<lambda>c. c) (sig_cards s))"
    using s by (intro coupled_each card) (auto simp: sig_ok_def)
  then have c: "coupled (each emit_u32 (sig_cards s)) (repeat (unat (sig_arity s)) rd_card) (sig_cards s)" by simp
  have "coupled (put_signature s) rd_signature \<lparr>sig_arity = sig_arity s, sig_cards = sig_cards s\<rparr>"
    unfolding put_signature_def rd_signature_def using s
    by (intro coupled_steps coupled_check coupled_then [OF c]) (simp add: sig_ok_def)
  then show ?thesis by (cases s) simp
qed

lemma coupled_variant: "coupled (put_variant v) rd_variant v"
proof -
  have "coupled (in_order [put_variant v]) rd_variant v"
    unfolding put_variant_def rd_variant_def
    by (intro coupled_fields) (cases v; simp add: coupled_nil del: in_order.simps)
  then show ?thesis by (simp only: in_order_one)
qed

lemma coupled_fixup: "fixup_ok blobs tables fx \<Longrightarrow> coupled (put_fixup fx) (rd_fixup blobs tables) fx"
proof -
  assume "fixup_ok blobs tables fx"
  then have "coupled (put_fixup fx) (rd_fixup blobs tables)
      \<lparr>fx_blob = fx_blob fx, fx_offset = fx_offset fx, fx_table_offset = fx_table_offset fx\<rparr>"
    unfolding put_fixup_def rd_fixup_def
    by (intro coupled_fields)
      (auto simp: fixup_ok_def hole_ok_def not_le split: option.splits intro!: coupled_check coupled_nil)
  then show ?thesis by (cases fx) simp
qed

lemma coupled_pair: "coupled (put_pair p) rd_pair p"
proof -
  have "coupled (put_pair p) rd_pair \<lparr>mp_src = mp_src p, mp_dst = mp_dst p, mp_one_way = mp_one_way p\<rparr>"
    unfolding put_pair_def rd_pair_def
    by (intro coupled_fields) (cases "mp_one_way p"; simp add: check_def coupled_nil del: in_order.simps)
  then show ?thesis by (cases p) simp
qed

interpretation pair_wire: wire "\<lambda>_. True" put_pair rd_pair
  by unfold_locales (rule coupled_pair)

lemma coupled_binding: "binding_ok t \<Longrightarrow> coupled (put_binding t) rd_binding t"
proof -
  assume t: "binding_ok t"
  have p: "coupled (each put_pair (bind_pairs t)) (repeat (length (bind_pairs t)) rd_pair) (bind_pairs t)"
    by (rule pair_wire.reads_back_list) simp_all
  have "coupled (put_binding t) rd_binding \<lparr>bind_caller_tape = bind_caller_tape t, bind_pairs = bind_pairs t\<rparr>"
    unfolding put_binding_def rd_binding_def using t p
    by (intro coupled_fields coupled_check coupled_then [where x = "bind_pairs t"] coupled_nil)
      (auto simp: binding_ok_def not_le)
  then show ?thesis by (cases t) simp
qed

interpretation binding_wire: wire binding_ok put_binding rd_binding
  by unfold_locales (rule coupled_binding)

lemma coupled_call:
  "call_ok blobs n c \<Longrightarrow> coupled (put_bound_call c) (rd_bound_call blobs (length blobs) n) c"
proof -
  assume c: "call_ok blobs n c"
  have b: "coupled (each put_binding (bc_binding c)) (repeat (length (bc_binding c)) rd_binding) (bc_binding c)"
    using c by (intro binding_wire.reads_back_list) (auto simp: call_ok_def)
  have "coupled (put_bound_call c) (rd_bound_call blobs (length blobs) n)
      \<lparr>bc_blob = bc_blob c, bc_offset = bc_offset c, bc_symbol = bc_symbol c, bc_binding = bc_binding c\<rparr>"
    unfolding put_bound_call_def rd_bound_call_def using c b
    by (intro coupled_fields coupled_check coupled_then [where x = "bc_binding c"] coupled_nil)
      (auto simp: call_ok_def hole_ok_def not_le)
  then show ?thesis by (cases c) simp
qed

interpretation reloc_wire: wire "\<lambda>_. True" put_reloc rd_reloc
  by unfold_locales (rule coupled_reloc)

interpretation line_wire: wire "\<lambda>_. True" put_line rd_line
  by unfold_locales (rule coupled_line)

interpretation signature_wire: wire sig_ok put_signature rd_signature
  by unfold_locales (rule coupled_signature)

interpretation variant_wire: wire "\<lambda>_. True" put_variant rd_variant
  by unfold_locales (rule coupled_variant)

interpretation fixup_wire: wire "fixup_ok blobs tables" put_fixup "rd_fixup blobs tables" for blobs tables
  by unfold_locales (rule coupled_fixup)

interpretation call_wire: wire "call_ok blobs n" put_bound_call "rd_bound_call blobs (length blobs) n" for blobs n
  by unfold_locales (rule coupled_call)

section \<open>Sections that name strings\<close>

lemma coupled_strings:
  "\<forall>s \<in> set pool. name_ok s \<Longrightarrow> coupled (each emit_str pool) (repeat (length pool) (rd_str msg)) pool"
  by (rule str_wire.reads_back_list) (simp_all add: name_ok_def)

text \<open>What is read of a symbol before its name and its blob are resolved.\<close>

definition raw_of :: "symbol \<times> u32 \<Rightarrow> u32 \<times> u8 \<times> u32" where
  "raw_of = (\<lambda>(s, i). case sym_def s of
     Defined b \<Rightarrow> (i, 1, b) | Local b \<Rightarrow> (i, 2, b) | External \<Rightarrow> (i, 0, EXTERNAL_BLOB))"

lemma coupled_symbol: "coupled (put_symbol si) rd_raw_symbol (raw_of si)"
proof (cases si)
  case (Pair s i)
  then show ?thesis unfolding put_symbol_def rd_raw_symbol_def raw_of_def
    by (cases "sym_def s"; simp only: prod.case symbol_def.case; intro coupled_steps)
qed

lemma resolve_raw:
  "named pool i (sym_name s) \<Longrightarrow> symbol_ok blobs s \<Longrightarrow> resolve_symbol pool (length blobs) (raw_of (s, i)) = Inr s"
  by (cases s; cases "sym_def s") (auto simp: resolve_symbol_def raw_of_def symbol_ok_def name_of_named not_le)

lemma resolve_raws:
  "list_all2 (named pool) is (map sym_name ss) \<Longrightarrow> \<forall>s \<in> set ss. symbol_ok blobs s \<Longrightarrow>
     resolve_symbols pool (length blobs) (map raw_of (zip ss is)) = Inr ss"
proof (induction ss arbitrary: "is")
  case (Cons s ss)
  then obtain i js where "is = i # js" "named pool i (sym_name s)" "list_all2 (named pool) js (map sym_name ss)"
    by (auto simp: list_all2_Cons2)
  with Cons show ?case by (simp add: resolve_raw)
qed simp

lemma check_relocs_ok: "check_relocs blobs n rls = Inr () \<longleftrightarrow> (\<forall>rl \<in> set rls. reloc_ok blobs n rl)"
  by (induction rls) (auto simp: reloc_ok_def hole_ok_def not_le split: option.splits)

lemma coupled_label:
  "named pool i (fst l) \<Longrightarrow> coupled (put_label (l, i)) (rd_label pool) l"
proof (cases l)
  case (Pair s off)
  assume "named pool i (fst l)"
  then have n: "name_of pool i = Inr s" using Pair by (simp add: name_of_named)
  show ?thesis unfolding Pair put_label_def rd_label_def prod.case
    by (intro coupled_steps coupled_lift [OF n])
qed

lemma coupled_labels:
  assumes "list_all2 (named pool) is (map fst ls)"
  shows "coupled (each put_label (zip ls is)) (repeat (length ls) (rd_label pool)) ls"
proof -
  have len: "length is = length ls" using list_all2_lengthD [OF assms] by simp
  have "coupled (each put_label (zip ls is)) (repeat (length ls) (rd_label pool)) (map fst (zip ls is))"
  proof (rule coupled_each)
    fix x
    assume "x \<in> set (zip ls is)"
    then obtain k where "k < length ls" "x = (ls ! k, is ! k)" using len by (auto simp: in_set_zip)
    then show "coupled (put_label x) (rd_label pool) (fst x)"
      using list_all2_nthD [OF assms, of k] len by (simp add: coupled_label)
  qed (simp add: len)
  then show ?thesis using len by simp
qed

lemma coupled_blob_debug:
  assumes "list_all2 (named pool) is (map fst (bd_labels d))" "debug_ok d"
  shows "coupled (put_blob_debug (d, is)) (rd_blob_debug pool) d"
proof -
  note l = coupled_labels [OF assms(1)]
  have n: "coupled (each put_line (bd_lines d)) (repeat (length (bd_lines d)) rd_line) (bd_lines d)"
    by (rule line_wire.reads_back_list) simp_all
  have "coupled (put_blob_debug (d, is)) (rd_blob_debug pool) \<lparr>bd_labels = bd_labels d, bd_lines = bd_lines d\<rparr>"
    unfolding put_blob_debug_def rd_blob_debug_def prod.case using assms(2) l n
    by (intro coupled_fields coupled_then [where x = "bd_labels d"] coupled_then [where x = "bd_lines d"] coupled_nil)
      (simp_all add: debug_ok_def)
  then show ?thesis by (cases d) simp
qed

lemma coupled_debugs:
  assumes "list_all2 (list_all2 (named pool)) iss (map (\<lambda>d. map fst (bd_labels d)) ds)" "\<forall>d \<in> set ds. debug_ok d"
  shows "coupled (each put_blob_debug (zip ds iss)) (repeat (length ds) (rd_blob_debug pool)) ds"
proof -
  have len: "length iss = length ds" using list_all2_lengthD [OF assms(1)] by simp
  have "coupled (each put_blob_debug (zip ds iss)) (repeat (length ds) (rd_blob_debug pool)) (map fst (zip ds iss))"
  proof (rule coupled_each)
    fix x
    assume "x \<in> set (zip ds iss)"
    then obtain k where "k < length ds" "x = (ds ! k, iss ! k)" using len by (auto simp: in_set_zip)
    then show "coupled (put_blob_debug x) (rd_blob_debug pool) (fst x)"
      using list_all2_nthD [OF assms(1), of k] assms(2) len by (simp add: coupled_blob_debug)
  qed (simp add: len)
  then show ?thesis using len by simp
qed

section \<open>Optional sections\<close>

lemma coupled_absent: "coupled (in_order []) (section_if False p) None"
  by (simp only: section_if_def if_False) (rule coupled_nil)

lemma coupled_present: "coupled w p x \<Longrightarrow> coupled w (section_if True p) (Some x)"
proof -
  assume "coupled w p x"
  from coupled_then [OF this, where k = "\<lambda>x. yields (Some x)" and ws = "[]" and y = "Some x"]
  have "coupled (in_order [w]) (section_if True p) (Some x)"
    by (simp add: section_if_def coupled_nil del: in_order.simps)
  then show ?thesis by (simp only: in_order_one)
qed

lemma coupled_parallel:
  assumes "parallel_ok n ok xs" "\<And>ys. xs = Some ys \<Longrightarrow> coupled (w ys) p ys"
  shows "coupled (case xs of None \<Rightarrow> in_order [] | Some ys \<Rightarrow> w ys) (section_if (xs \<noteq> None) p) xs"
  using assms by (cases xs) (simp_all add: coupled_absent coupled_present del: in_order.simps)

lemma flags_v3 [simp]:
  "has_flag (obj_flags_v3 ob) FLAG_HAS_DEBUG \<longleftrightarrow> ob_debug ob \<noteq> None"
  "has_flag (obj_flags_v3 ob) FLAG_HAS_SIGNATURES \<longleftrightarrow> ob_signatures ob \<noteq> None"
  "has_flag (obj_flags_v3 ob) FLAG_HAS_TABLES \<longleftrightarrow> ob_table_blobs ob \<noteq> None"
  "has_flag (obj_flags_v3 ob) FLAG_HAS_VARIANTS \<longleftrightarrow> ob_variants ob \<noteq> None"
  "has_flag (obj_flags_v3 ob) FLAG_PROGRAM_VOLATILE \<longleftrightarrow> ob_program_volatile ob"
  by (auto simp: has_flag_def obj_flags_v3_def Let_def FLAG_HAS_DEBUG_def FLAG_HAS_SIGNATURES_def
      FLAG_HAS_TABLES_def FLAG_HAS_VARIANTS_def FLAG_PROGRAM_VOLATILE_def)

lemma flags_v2 [simp]:
  "has_flag (if b then FLAG_HAS_DEBUG else 0) FLAG_HAS_DEBUG \<longleftrightarrow> b"
  "\<not> has_flag (if b then FLAG_HAS_DEBUG else 0)
     (FLAG_HAS_SIGNATURES OR FLAG_HAS_TABLES OR FLAG_HAS_VARIANTS OR FLAG_PROGRAM_VOLATILE)"
  "\<not> has_flag (if b then FLAG_HAS_DEBUG else 0) FLAG_PROGRAM_VOLATILE"
  by (simp_all add: has_flag_def FLAG_HAS_DEBUG_def FLAG_HAS_SIGNATURES_def
      FLAG_HAS_TABLES_def FLAG_HAS_VARIANTS_def FLAG_PROGRAM_VOLATILE_def)

section \<open>The reader inverts the writer\<close>

definition parts_of :: "object_file \<Rightarrow> v3_parts" where
  "parts_of ob = (ob_signatures ob, ob_table_blobs ob, ob_variants ob, ob_table_fixups ob, ob_bound_calls ob)"

lemma coupled_debug_section:
  assumes "object_ok ob" "list_all2 (list_all2 (named pool)) labels (label_names ob)"
  shows "coupled (put_debug (ob_debug ob) labels)
    (section_if (ob_debug ob \<noteq> None) (repeat (length (ob_blobs ob)) (rd_blob_debug pool))) (ob_debug ob)"
  unfolding put_debug_def
proof (rule coupled_parallel)
  show p: "parallel_ok (length (ob_blobs ob)) debug_ok (ob_debug ob)"
    using assms(1) by (simp add: object_ok_def Let_def)
  show "coupled (each put_blob_debug (zip ds labels)) (repeat (length (ob_blobs ob)) (rd_blob_debug pool)) ds"
    if "ob_debug ob = Some ds" for ds
    using coupled_debugs [of pool labels ds] p assms(2) that by (simp add: label_names_def parallel_ok_def)
qed

lemma file_object:
  assumes ok: "object_ok ob" and fits: "object_fits ob"
    and w: "coupled w (rd_parts version flags (length (ob_blobs ob)) (length (ob_symbols ob)) (ob_blobs ob)) (parts_of ob)"
    and flags: "has_flag flags FLAG_HAS_DEBUG \<longleftrightarrow> ob_debug ob \<noteq> None"
      "has_flag flags FLAG_PROGRAM_VOLATILE \<longleftrightarrow> ob_program_volatile ob"
  shows "file_of (put_common ob @ [w]) (obj_rest version (ob_arch ob) flags) ob"
proof -
  obtain names labels pool where i: "intern_names ob = (names, labels, pool)" by (cases "intern_names ob")
  have "card (object_names ob) < 2 ^ 32" using fits by (simp add: object_fits_def)
  note pool = intern_names_pool [OF i this]
  have len: "length (ob_symbols ob) < 2 ^ 32" "length (ob_blobs ob) < 2 ^ 32" "length (ob_relocations ob) < 2 ^ 32"
    and small: "\<forall>b \<in> set (ob_blobs ob). length b < 2 ^ 32"
    using fits by (simp_all add: object_fits_def)
  have syms: "\<forall>s \<in> set (ob_symbols ob). symbol_ok (ob_blobs ob) s"
    and relocs: "\<forall>rl \<in> set (ob_relocations ob). reloc_ok (ob_blobs ob) (length (ob_symbols ob)) rl"
    and debugs: "parallel_ok (length (ob_blobs ob)) debug_ok (ob_debug ob)"
    using ok by (simp_all add: object_ok_def Let_def)
  have "\<forall>s \<in> set pool. name_ok s"
    unfolding pool(2) object_names_def symbol_names_def label_names_def using syms debugs
    by (fastforce simp: symbol_ok_def parallel_ok_def debug_ok_def split: option.splits)
  then have strings: "coupled (each emit_str pool) (repeat (length pool) (rd_str ''string not utf-8'')) pool"
    by (rule coupled_strings)
  have nsym: "length names = length (ob_symbols ob)"
    using list_all2_lengthD [OF pool(3)] by (simp add: symbol_names_def)
  have raws: "coupled (each put_symbol (zip (ob_symbols ob) names)) (repeat (length (ob_symbols ob)) rd_raw_symbol)
      (map raw_of (zip (ob_symbols ob) names))"
    by (rule coupled_each) (simp_all add: coupled_symbol nsym)
  have blobs: "coupled (each emit_blob (ob_blobs ob)) (repeat (length (ob_blobs ob)) rd_blob) (ob_blobs ob)"
    using small by (rule blob_wire.reads_back_list) simp
  have rls: "coupled (each put_reloc (ob_relocations ob)) (repeat (length (ob_relocations ob)) rd_reloc) (ob_relocations ob)"
    by (rule reloc_wire.reads_back_list) simp_all
  have resolved: "resolve_symbols pool (length (ob_blobs ob)) (map raw_of (zip (ob_symbols ob) names)) = Inr (ob_symbols ob)"
    using pool(3) syms by (intro resolve_raws) (simp_all add: symbol_names_def)
  have checked: "check_relocs (ob_blobs ob) (length (ob_symbols ob)) (ob_relocations ob) = Inr ()"
    using relocs by (simp add: check_relocs_ok)
  have whole: "completes (yields \<lparr>ob_arch = ob_arch ob, ob_symbols = ob_symbols ob, ob_blobs = ob_blobs ob,
      ob_relocations = ob_relocations ob, ob_debug = ob_debug ob, ob_signatures = ob_signatures ob,
      ob_table_blobs = ob_table_blobs ob, ob_table_fixups = ob_table_fixups ob, ob_bound_calls = ob_bound_calls ob,
      ob_variants = ob_variants ob, ob_program_volatile = ob_program_volatile ob\<rparr>) [] ob"
    by (cases ob) (simp add: completes_yields)
  note debug = coupled_debug_section [OF ok pool(4)]
  show ?thesis
    unfolding put_common_def i Let_def prod.case append.simps put_strings_def put_symbols_def put_blobs_def
      put_relocs_def obj_rest_def obj_tail_def unat_counts(3) [OF len(1)]
    by (intro file_counted [OF pool(1) refl strings] file_counted [OF len(1) refl raws]
        file_counted [OF len(2) refl blobs] file_counted [OF len(3) refl rls])
      (use debug w flags len resolved checked whole in
        \<open>auto simp: parts_of_def intro!: file_then [where v = "ob_debug ob"] file_then [where v = "parts_of ob"]
          file_finish completes_lift\<close>)
qed

text \<open>The header, the zeroed checksum field and the stamp.\<close>

lemma object_container:
  assumes "file_of ws (obj_rest version arch flags) ob" "1 \<le> version" "version \<le> OBJECT_FORMAT_VERSION_V3"
  shows "\<exists>bs. stamp_object (in_order (obj_header version arch flags @ ws) []) = Some bs \<and> obj_from_bytes bs = Inr ob"
proof -
  have "\<exists>out bs. in_order (emit MAGIC_OBJECT # [emit_u16 version, emit_u8 arch, emit_u8 flags] @ emit_u32 0 # ws) [] = Some out
      \<and> stamp_crc out MO_CRC_OFFSET = Some bs \<and> open_container MAGIC_OBJECT MO_CRC_OFFSET obj_body bs = Inr ob"
  proof (rule container_round_trip [OF _ _ _ assms(1)])
    show "writes (in_order [emit_u16 version, emit_u8 arch, emit_u8 flags]) (le_u16 version @ [arch] @ [flags])"
      by (simp add: writes_def emit_u16_def emit_u8_def emit_def put_u16_def)
    show "completes obj_body ((le_u16 version @ [arch] @ [flags]) @ le_u32 crc @ bs) ob"
      if "completes (obj_rest version arch flags) bs ob" for bs crc
      unfolding obj_body_def append_assoc using that assms(2,3)
      by (intro completes_fields completes_check) simp_all
  qed (simp_all add: MAGIC_OBJECT_def MO_CRC_OFFSET_def)
  then show ?thesis by (auto simp: stamp_object_def obj_header_def obj_from_bytes_def simp del: in_order.simps)
qed

lemma obj_round_trip_v2:
  assumes "object_ok ob" "object_fits ob" "is_v2_shape ob"
  shows "\<exists>bs. obj_to_bytes_v2 ob = Some bs \<and> obj_from_bytes bs = Inr ob"
proof -
  let ?flags = "if ob_debug ob \<noteq> None then FLAG_HAS_DEBUG else 0"
  have "parts_of ob = (None, None, None, [], [])" using assms(3) by (simp add: parts_of_def is_v2_shape_def)
  then have "coupled (in_order []) (rd_parts OBJECT_FORMAT_VERSION_V2 ?flags (length (ob_blobs ob))
      (length (ob_symbols ob)) (ob_blobs ob)) (parts_of ob)"
    by (simp only: rd_parts_def flags_v2(2))
      (simp add: OBJECT_FORMAT_VERSION_V2_def OBJECT_FORMAT_VERSION_V3_def check_def coupled_nil del: in_order.simps)
  then have "file_of (put_common ob @ [in_order []]) (obj_rest OBJECT_FORMAT_VERSION_V2 (ob_arch ob) ?flags) ob"
    using assms(3) by (intro file_object assms) (simp_all add: is_v2_shape_def)
  then have "file_of (put_common ob) (obj_rest OBJECT_FORMAT_VERSION_V2 (ob_arch ob) ?flags) ob"
    by (rule file_cong) (rule ext, simp add: in_order_append split: option.split)
  then show ?thesis unfolding obj_to_bytes_v2_def
    by (rule object_container) (simp_all add: OBJECT_FORMAT_VERSION_V2_def OBJECT_FORMAT_VERSION_V3_def)
qed

lemma coupled_v3_sections:
  assumes "object_ok ob" "object_fits ob"
  shows "coupled (in_order [put_signatures (ob_signatures ob), put_tables (ob_table_blobs ob), put_variants (ob_variants ob),
      put_fixups (ob_table_fixups ob), put_bound_calls (ob_bound_calls ob)])
    (rd_v3_sections (obj_flags_v3 ob) (length (ob_blobs ob)) (length (ob_symbols ob)) (ob_blobs ob)) (parts_of ob)"
proof -
  let ?n = "length (ob_blobs ob)"
  have len: "length (ob_table_fixups ob) < 2 ^ 32" "length (ob_bound_calls ob) < 2 ^ 32" "?n < 2 ^ 32"
    using assms(2) by (simp_all add: object_fits_def)
  have par: "parallel_ok ?n sig_ok (ob_signatures ob)" "parallel_ok ?n (\<lambda>t. length t < 2 ^ 32) (ob_table_blobs ob)"
      "parallel_ok ?n (\<lambda>_. True) (ob_variants ob)"
    and fx: "\<forall>f \<in> set (ob_table_fixups ob). fixup_ok (ob_blobs ob) (ob_table_blobs ob) f"
    and calls: "\<forall>c \<in> set (ob_bound_calls ob). call_ok (ob_blobs ob) (length (ob_symbols ob)) c"
    using assms(1) by (simp_all add: object_ok_def Let_def)
  have sigs: "coupled (put_signatures (ob_signatures ob))
      (section_if (ob_signatures ob \<noteq> None) (repeat ?n rd_signature)) (ob_signatures ob)"
    unfolding put_signatures_def using par(1)
    by (intro coupled_parallel [OF par(1)] signature_wire.reads_back_list) (simp_all add: parallel_ok_def)
  have tables: "coupled (put_tables (ob_table_blobs ob))
      (section_if (ob_table_blobs ob \<noteq> None) (repeat ?n rd_blob)) (ob_table_blobs ob)"
    unfolding put_tables_def using par(2)
    by (intro coupled_parallel [OF par(2)] blob_wire.reads_back_list) (simp_all add: parallel_ok_def)
  have variants: "coupled (put_variants (ob_variants ob))
      (section_if (ob_variants ob \<noteq> None) (rd_variants ?n)) (ob_variants ob)"
    unfolding put_variants_def
  proof (rule coupled_parallel [OF par(3)])
    fix vs
    assume "ob_variants ob = Some vs"
    then have n: "length vs = ?n" using par(3) by (simp add: parallel_ok_def)
    have "coupled (each put_variant vs) (repeat ?n rd_variant) vs"
      using n by (intro variant_wire.reads_back_list) simp_all
    then have "coupled (in_order [each put_variant vs]) (repeat ?n rd_variant) vs" by (simp only: in_order_one)
    then show "coupled (in_order [count_u32 (length vs), each put_variant vs]) (rd_variants ?n) vs"
      unfolding rd_variants_def using len(3) n by (intro coupled_fields coupled_check) simp_all
  qed
  have fixups: "coupled (each put_fixup (ob_table_fixups ob))
      (repeat (length (ob_table_fixups ob)) (rd_fixup (ob_blobs ob) (ob_table_blobs ob))) (ob_table_fixups ob)"
    using fx by (rule fixup_wire.reads_back_list) simp
  have bound: "coupled (each put_bound_call (ob_bound_calls ob))
      (repeat (length (ob_bound_calls ob)) (rd_bound_call (ob_blobs ob) ?n (length (ob_symbols ob)))) (ob_bound_calls ob)"
    using calls by (rule call_wire.reads_back_list) simp
  show ?thesis
    unfolding rd_v3_sections_def put_fixups_def put_bound_calls_def flags_v3 parts_of_def
    using len fixups bound
    by (intro coupled_then [OF sigs] coupled_then [OF tables] coupled_then [OF variants] coupled_steps
        coupled_then [where x = "ob_table_fixups ob"] coupled_then [where x = "ob_bound_calls ob"])
      simp_all
qed

lemma obj_round_trip_v3:
  assumes "object_ok ob" "object_fits ob"
  shows "\<exists>bs. obj_to_bytes_v3 ob = Some bs \<and> obj_from_bytes bs = Inr ob"
proof -
  let ?vs = "[put_signatures (ob_signatures ob), put_tables (ob_table_blobs ob), put_variants (ob_variants ob),
      put_fixups (ob_table_fixups ob), put_bound_calls (ob_bound_calls ob)]"
  have "coupled (in_order ?vs) (rd_parts OBJECT_FORMAT_VERSION_V3 (obj_flags_v3 ob) (length (ob_blobs ob))
      (length (ob_symbols ob)) (ob_blobs ob)) (parts_of ob)"
    unfolding rd_parts_def using coupled_v3_sections [OF assms] by simp
  then have "file_of (put_common ob @ [in_order ?vs]) (obj_rest OBJECT_FORMAT_VERSION_V3 (ob_arch ob) (obj_flags_v3 ob)) ob"
    by (rule file_object [OF assms]) simp_all
  then have "file_of (put_common ob @ ?vs) (obj_rest OBJECT_FORMAT_VERSION_V3 (ob_arch ob) (obj_flags_v3 ob)) ob"
    by (rule file_cong) (rule ext, simp add: in_order_append in_order_one split: option.split)
  then show ?thesis unfolding obj_to_bytes_v3_def
    by (rule object_container) (simp_all add: OBJECT_FORMAT_VERSION_V3_def)
qed

lemma obj_round_trip:
  "object_ok ob \<Longrightarrow> object_fits ob \<Longrightarrow> \<exists>bs. obj_to_bytes ob = Some bs \<and> obj_from_bytes bs = Inr ob"
  using obj_round_trip_v2 obj_round_trip_v3 by (simp add: obj_to_bytes_def)

section \<open>What the reader accepts\<close>

lemmas ensures_word = ensures_any [of rd_u8] ensures_any [of rd_u16] ensures_any [of rd_u32]

lemma ensures_counted8:
  "ensures p P \<Longrightarrow> (\<And>n xs. length xs = unat n \<Longrightarrow> \<forall>x \<in> set xs. P x \<Longrightarrow> ensures (k n xs) Q) \<Longrightarrow>
     ensures (and_then rd_u8 (\<lambda>n. and_then (repeat (unat n) p) (k n))) Q"
  by (rule ensures_then [OF ensures_any], rule ensures_then [OF ensures_repeat]) auto

lemma ensures_counted16:
  "ensures p P \<Longrightarrow> (\<And>n xs. length xs = unat n \<Longrightarrow> \<forall>x \<in> set xs. P x \<Longrightarrow> ensures (k n xs) Q) \<Longrightarrow>
     ensures (and_then rd_u16 (\<lambda>n. and_then (repeat (unat n) p) (k n))) Q"
  by (rule ensures_then [OF ensures_any], rule ensures_then [OF ensures_repeat]) auto

lemma ensures_counted:
  "ensures p P \<Longrightarrow> (\<And>n xs. length xs = unat n \<Longrightarrow> \<forall>x \<in> set xs. P x \<Longrightarrow> ensures (k n xs) Q) \<Longrightarrow>
     ensures (and_then rd_u32 (\<lambda>n. and_then (repeat (unat n) p) (k n))) Q"
  by (rule ensures_then [OF ensures_any], rule ensures_then [OF ensures_repeat]) auto

lemma name_of_Inr: "name_of strings i = Inr s \<Longrightarrow> s \<in> set strings"
  by (auto simp: name_of_def split: option.splits)

lemma ensures_label: "ensures (rd_label strings) (\<lambda>l. fst l \<in> set strings)"
  unfolding rd_label_def
  by (intro ensures_then [OF ensures_any] ensures_then [OF ensures_lift] ensures_yields) (auto dest: name_of_Inr)

lemma ensures_blob_debug:
  "\<forall>s \<in> set strings. name_ok s \<Longrightarrow>
     ensures (rd_blob_debug strings) (\<lambda>d. debug_ok d \<and> fst ` set (bd_labels d) \<subseteq> set strings)"
  unfolding rd_blob_debug_def
  by (intro ensures_counted [OF ensures_label] ensures_counted [OF ensures_any] ensures_yields)
    (use unat_width(3) in \<open>force simp: debug_ok_def\<close>)

lemma ensures_signature: "ensures rd_signature sig_ok"
proof -
  have "ensures rd_card (\<lambda>c. c \<noteq> 0)"
    unfolding rd_card_def by (intro ensures_then [OF ensures_any] ensures_check ensures_yields)
  then show ?thesis unfolding rd_signature_def
    by (intro ensures_then [of rd_u8, OF ensures_any] ensures_check ensures_then [OF ensures_repeat] ensures_yields)
      (auto simp: sig_ok_def)
qed

lemma ensures_option:
  "(\<And>x. nth_opt xs i = Some x \<Longrightarrow> ensures (p x) P) \<Longrightarrow>
     ensures (case nth_opt xs i of None \<Rightarrow> refuse e | Some x \<Rightarrow> p x) P"
  by (simp split: option.split add: ensures_refuse)

lemma ensures_fixup: "ensures (rd_fixup blobs tables) (fixup_ok blobs tables)"
proof (cases tables)
  case None
  show ?thesis unfolding rd_fixup_def None option.case
    by (intro ensures_then [OF ensures_any] ensures_option ensures_check ensures_refuse)
next
  case (Some ts)
  show ?thesis unfolding rd_fixup_def Some option.case
    by (intro ensures_then [OF ensures_any] ensures_option ensures_check ensures_yields)
      (auto simp: fixup_ok_def hole_ok_def not_less not_le)
qed

lemma ensures_binding: "ensures rd_binding binding_ok"
  unfolding rd_binding_def
  by (rule ensures_then [OF ensures_any], rule ensures_check, rule ensures_counted16 [OF ensures_any], rule ensures_yields)
    (use unat_width(2) in \<open>simp add: binding_ok_def not_le\<close>)

lemma ensures_call:
  "ensures (rd_bound_call blobs (length blobs) n) (call_ok blobs n)"
proof -
  have "length xs < 2 ^ 8" if "length xs = unat (m :: u8)" for m and xs :: "tape_binding list"
    using that unat_width(1) [of m] by simp
  then show ?thesis unfolding rd_bound_call_def
    by (intro ensures_then [of rd_u32, OF ensures_any] ensures_then [of rd_u8, OF ensures_any] ensures_check
        ensures_then [OF ensures_repeat [OF ensures_binding]] ensures_yields)
      (auto simp: call_ok_def hole_ok_def not_le not_less)
qed

lemma ensures_section:
  "ensures p (\<lambda>ys. length ys = n \<and> (\<forall>y \<in> set ys. ok y)) \<Longrightarrow> ensures (section_if b p) (parallel_ok n ok)"
  unfolding section_if_def
  by (auto intro!: ensures_yields ensures_then simp: parallel_ok_def)

lemma ensures_variants: "ensures (rd_variants n) (\<lambda>vs. length vs = n \<and> (\<forall>v \<in> set vs. True))"
  unfolding rd_variants_def
  by (intro ensures_then [OF ensures_any] ensures_check ensures_weaken [OF ensures_repeat [OF ensures_any]]) auto

text \<open>The invariants of the sections of version 3.\<close>

definition parts_ok :: "u8 list list \<Rightarrow> nat \<Rightarrow> v3_parts \<Rightarrow> bool" where
  "parts_ok blobs n = (\<lambda>(sigs, tables, variants, fixups, calls).
     parallel_ok (length blobs) sig_ok sigs \<and> parallel_ok (length blobs) (\<lambda>t. length t < 2 ^ 32) tables
     \<and> parallel_ok (length blobs) (\<lambda>_. True) variants
     \<and> (\<forall>fx \<in> set fixups. fixup_ok blobs tables fx) \<and> length fixups < 2 ^ 32
     \<and> (\<forall>c \<in> set calls. call_ok blobs n c) \<and> length calls < 2 ^ 32)"

lemma ensures_v3_sections: "ensures (rd_v3_sections flags (length blobs) n blobs) (parts_ok blobs n)"
  unfolding rd_v3_sections_def
  by (intro ensures_then [OF ensures_section [OF ensures_repeat [OF ensures_signature]]]
      ensures_then [OF ensures_section [OF ensures_repeat [OF ensures_blob]]]
      ensures_then [OF ensures_section [OF ensures_variants]]
      ensures_counted [OF ensures_fixup] ensures_counted [OF ensures_call] ensures_yields)
    (use unat_width(3) in \<open>simp add: parts_ok_def\<close>)

lemma ensures_parts: "ensures (rd_parts version flags (length blobs) n blobs) (parts_ok blobs n)"
proof -
  have "parts_ok blobs n (None, None, None, [], [])" by (simp add: parts_ok_def parallel_ok_def)
  then show ?thesis by (simp add: rd_parts_def ensures_v3_sections ensures_check ensures_yields)
qed

lemma resolve_symbol_Inr:
  "resolve_symbol strings (length blobs) raw = Inr s \<Longrightarrow> \<forall>t \<in> set strings. name_ok t \<Longrightarrow>
     symbol_ok blobs s \<and> sym_name s \<in> set strings"
  by (auto simp: resolve_symbol_def symbol_ok_def not_le split: prod.splits sum.splits if_splits dest!: name_of_Inr)

lemma resolve_symbols_Inr:
  "resolve_symbols strings (length blobs) raws = Inr ss \<Longrightarrow> \<forall>t \<in> set strings. name_ok t \<Longrightarrow>
     length ss = length raws \<and> (\<forall>s \<in> set ss. symbol_ok blobs s \<and> sym_name s \<in> set strings)"
proof (induction raws arbitrary: ss)
  case (Cons raw raws)
  obtain s ts where "resolve_symbol strings (length blobs) raw = Inr s"
      "resolve_symbols strings (length blobs) raws = Inr ts" "ss = s # ts"
    using Cons.prems(1) by (auto split: sum.splits)
  with Cons.IH [OF this(2) Cons.prems(2)] resolve_symbol_Inr [OF this(1) Cons.prems(2)] show ?case by simp
qed simp

lemma ensures_debug_section:
  assumes "\<forall>s \<in> set strings. name_ok s"
  shows "ensures (section_if b (repeat n (rd_blob_debug strings)))
    (\<lambda>ds. parallel_ok n (\<lambda>d. debug_ok d \<and> fst ` set (bd_labels d) \<subseteq> set strings) ds)"
  by (rule ensures_section [OF ensures_repeat [OF ensures_blob_debug [OF assms]]])

lemma object_parts:
  assumes strings: "\<forall>s \<in> set strings. name_ok s" "length strings < 2 ^ 32"
    and raws: "length raws < 2 ^ 32"
    and blobs: "length blobs < 2 ^ 32" "\<forall>b \<in> set blobs. length b < 2 ^ 32"
    and rls: "length rls < 2 ^ 32" "check_relocs blobs (length ss) rls = Inr ()"
    and ds: "parallel_ok (length blobs) (\<lambda>d. debug_ok d \<and> fst ` set (bd_labels d) \<subseteq> set strings) ds"
    and parts: "parts_ok blobs (length raws) (sigs, tables, variants, fixups, calls)"
    and ss: "resolve_symbols strings (length blobs) raws = Inr ss"
    and ob: "ob = \<lparr>ob_arch = arch, ob_symbols = ss, ob_blobs = blobs, ob_relocations = rls,
         ob_debug = ds, ob_signatures = sigs, ob_table_blobs = tables, ob_table_fixups = fixups,
         ob_bound_calls = calls, ob_variants = variants, ob_program_volatile = volatile\<rparr>"
  shows "object_ok ob \<and> object_fits ob"
proof -
  have s: "length ss = length raws" "\<forall>s \<in> set ss. symbol_ok blobs s \<and> sym_name s \<in> set strings"
    using resolve_symbols_Inr [OF ss strings(1)] by simp_all
  have "object_names ob \<subseteq> set strings"
    using s(2) ds
    by (fastforce simp: ob object_names_def symbol_names_def label_names_def parallel_ok_def split: option.splits)
  then have "card (object_names ob) \<le> card (set strings)" by (simp add: card_mono)
  also have "\<dots> \<le> length strings" by (rule card_length)
  finally have "card (object_names ob) < 2 ^ 32" using strings(2) by simp
  moreover have "parallel_ok (length blobs) debug_ok ds"
    using ds by (simp add: parallel_ok_def split: option.splits)
  ultimately show ?thesis
    using s raws blobs rls parts by (simp add: ob object_ok_def object_fits_def parts_ok_def check_relocs_ok)
qed

lemma ensures_tail:
  assumes "\<forall>s \<in> set strings. name_ok s" "length strings < 2 ^ 32" "length raws < 2 ^ 32"
    and "length blobs < 2 ^ 32" "\<forall>b \<in> set blobs. length b < 2 ^ 32" "length rls < 2 ^ 32"
  shows "ensures (obj_tail version arch flags strings (length raws) raws (length blobs) blobs rls)
    (\<lambda>ob. object_ok ob \<and> object_fits ob)"
  unfolding obj_tail_def
proof (rule ensures_then [OF ensures_debug_section [OF assms(1)]], rule ensures_then [OF ensures_parts], clarify,
    rule ensures_then [OF ensures_any], rule ensures_lift_then, rule ensures_lift_then, rule ensures_yields)
  fix ds sigs tables variants fixups calls ss u
  assume a: "parallel_ok (length blobs) (\<lambda>d. debug_ok d \<and> fst ` set (bd_labels d) \<subseteq> set strings) ds"
    "parts_ok blobs (length raws) (sigs, tables, variants, fixups, calls)"
    "resolve_symbols strings (length blobs) raws = Inr ss" "check_relocs blobs (length ss) rls = Inr u"
  then show "object_ok \<lparr>ob_arch = arch, ob_symbols = ss, ob_blobs = blobs, ob_relocations = rls,
       ob_debug = ds, ob_signatures = sigs, ob_table_blobs = tables, ob_table_fixups = fixups,
       ob_bound_calls = calls, ob_variants = variants,
       ob_program_volatile = has_flag flags FLAG_PROGRAM_VOLATILE\<rparr> \<and>
     object_fits \<lparr>ob_arch = arch, ob_symbols = ss, ob_blobs = blobs, ob_relocations = rls,
       ob_debug = ds, ob_signatures = sigs, ob_table_blobs = tables, ob_table_fixups = fixups,
       ob_bound_calls = calls, ob_variants = variants,
       ob_program_volatile = has_flag flags FLAG_PROGRAM_VOLATILE\<rparr>"
    using object_parts [OF assms(1-5,6) _ a(1,2,3) refl] by simp
qed

lemma ensures_rest: "ensures (obj_rest version arch flags) (\<lambda>ob. object_ok ob \<and> object_fits ob)"
proof -
  have str: "ensures (rd_str ''string not utf-8'') name_ok"
    by (rule ensures_weaken [OF ensures_str]) (simp add: name_ok_def)
  have tail: "ensures (obj_tail version arch flags strings (unat n2) raws (unat n3) blobs rls)
      (\<lambda>ob. object_ok ob \<and> object_fits ob)"
    if "length strings = unat n1" "\<forall>s \<in> set strings. name_ok s" "length raws = unat n2"
      "length blobs = unat n3" "\<forall>b \<in> set blobs. length b < 2 ^ 32" "length rls = unat n4"
    for n1 n2 n3 n4 :: u32 and strings raws blobs rls
    using ensures_tail [of strings raws blobs rls] that
      unat_width(3) [of n1] unat_width(3) [of n2] unat_width(3) [of n3] unat_width(3) [of n4] by simp
  show ?thesis unfolding obj_rest_def
    by (rule ensures_counted [OF str], rule ensures_counted [OF ensures_any], rule ensures_counted [OF ensures_blob],
        rule ensures_counted [OF ensures_any], rule tail)
qed

lemma ensures_body: "ensures obj_body (\<lambda>ob. object_ok ob \<and> object_fits ob)"
  unfolding obj_body_def
  by (rule ensures_then [OF ensures_any], rule ensures_check, rule ensures_then [OF ensures_any],
      rule ensures_then [OF ensures_any], rule ensures_then [OF ensures_any], rule ensures_rest)

lemma obj_accepts: "obj_from_bytes bs = Inr ob \<Longrightarrow> object_ok ob \<and> object_fits ob"
  using open_container_ensures [OF _ ensures_body] unfolding obj_from_bytes_def by blast

section \<open>The properties of the container\<close>

definition sample_object :: object_file where
  "sample_object =
     \<lparr>ob_arch = ARCH_TM1,
      ob_symbols = [\<lparr>sym_name = [0x6D], sym_def = Defined 0\<rparr>, \<lparr>sym_name = [0x66], sym_def = External\<rparr>,
        \<lparr>sym_name = [0x6D], sym_def = Local 0\<rparr>],
      ob_blobs = [[0x0D, 0x0B, 0, 0, 0, 0, 0x02]],
      ob_relocations = [\<lparr>rl_blob = 0, rl_offset = 2, rl_symbol = 1\<rparr>],
      ob_debug = Some [\<lparr>bd_labels = [([0x66], 1)], bd_lines = [(0, 3), (1, 4)]\<rparr>],
      ob_signatures = Some [\<lparr>sig_arity = 1, sig_cards = [2]\<rparr>],
      ob_table_blobs = Some [[1, 0]],
      ob_table_fixups = [\<lparr>fx_blob = 0, fx_offset = 2, fx_table_offset = 1\<rparr>],
      ob_bound_calls = [\<lparr>bc_blob = 0, bc_offset = 2, bc_symbol = 1,
        bc_binding = [\<lparr>bind_caller_tape = 3, bind_pairs = [\<lparr>mp_src = 0, mp_dst = 1, mp_one_way = True\<rparr>]\<rparr>]\<rparr>],
      ob_variants = Some [Both], ob_program_volatile = True\<rparr>"

lemma sample_object_ok: "object_ok sample_object" "object_fits sample_object"
proof -
  show "object_ok sample_object"
    by (simp add: sample_object_def object_ok_def symbol_ok_def name_ok_def reloc_ok_def hole_ok_def parallel_ok_def
        debug_ok_def sig_ok_def fixup_ok_def call_ok_def binding_ok_def)
  have "object_names sample_object = {[0x6D], [0x66]}"
    by (auto simp: sample_object_def object_names_def symbol_names_def label_names_def)
  then show "object_fits sample_object" by (simp add: sample_object_def object_fits_def)
qed

text \<open>
  C16: an object survives its file. Every object that satisfies the documented invariants and whose
  counts fit their fields is written without a panic, in the version its shape asks for, and read
  back as it was, with every symbol and label name found again through the string pool.
\<close>

theorem object_roundtrip:
  assumes "object_ok ob" and "object_fits ob"
  shows "\<exists>bs. obj_to_bytes ob = Some bs \<and> obj_from_bytes bs = Inr ob"
  by (rule obj_round_trip [OF assms])

theorem object_roundtrip_witness:
  "\<exists>bs. obj_to_bytes sample_object = Some bs \<and> obj_from_bytes bs = Inr sample_object"
  by (rule object_roundtrip [OF sample_object_ok])

text \<open>
  An object that breaks the documented invariants on the contents of a blob: its blob has no
  instruction before the hole of its relocation, begins with 0, and has a label far outside.
\<close>

definition loose_object :: object_file where
  "loose_object = object_v2 1 [\<lparr>sym_name = [0x66], sym_def = Defined 0\<rparr>] [[0, 0, 0, 0]]
     [\<lparr>rl_blob = 0, rl_offset = 0, rl_symbol = 0\<rparr>] (Some [\<lparr>bd_labels = [([0x78], 100)], bd_lines = []\<rparr>])"

lemma loose_object_accepted: "\<exists>bs. obj_to_bytes loose_object = Some bs \<and> obj_from_bytes bs = Inr loose_object"
proof (rule obj_round_trip)
  show "object_ok loose_object"
    by (simp add: loose_object_def object_v2_def object_ok_def symbol_ok_def name_ok_def reloc_ok_def hole_ok_def
        parallel_ok_def debug_ok_def)
  have "card (object_names loose_object) \<le> length (symbol_names loose_object @ concat (label_names loose_object))"
    unfolding object_names_def set_append [symmetric] by (rule card_length)
  then show "object_fits loose_object"
    by (simp add: loose_object_def object_v2_def object_fits_def symbol_names_def label_names_def)
qed

text \<open>
  C17: everything in an accepted object points inside it. Every defined or local symbol names a blob;
  every relocation, fixup and bound call names a blob with four bytes at its offset, and a symbol or an
  offset of a table that is there; the optional sections, when present, have one entry per blob; the
  signatures are well-formed, the names are UTF-8, every count fits its field; so the object can be
  written and read again. Nothing is said about what the bytes of a blob mean: that a hole is the
  operand of a far call, that a blob begins with the entry opcode, and where labels and lines lie, is
  documented beside these invariants, but the reader does not check it (\<open>loose_object_accepted\<close>).
\<close>

theorem object_accepted:
  assumes "obj_from_bytes bs = Inr ob"
  shows "object_ok ob \<and> object_fits ob \<and> (\<exists>bs'. obj_to_bytes ob = Some bs' \<and> obj_from_bytes bs' = Inr ob)"
  using obj_accepts [OF assms] obj_round_trip by blast

theorem object_accepted_witness:
  "\<exists>bs. obj_from_bytes bs = Inr sample_object \<and> object_ok sample_object"
proof -
  obtain bs where r: "obj_from_bytes bs = Inr sample_object" using obj_round_trip [OF sample_object_ok] by blast
  with object_accepted [OF r] show ?thesis by blast
qed

text \<open>
  The string pool of a written object has no name twice, holds exactly the names of the symbols
  and labels, and gives every symbol and every label the index of its name.
\<close>

theorem object_string_pool:
  assumes "intern_names ob = (names, labels, pool)" and "card (object_names ob) < 2 ^ 32"
  shows "distinct pool \<and> set pool = object_names ob
    \<and> list_all2 (\<lambda>i s. name_of pool i = Inr s) names (symbol_names ob)
    \<and> list_all2 (list_all2 (\<lambda>i s. name_of pool i = Inr s)) labels (label_names ob)"
proof -
  note p = intern_names_pool [OF assms]
  have "list_all2 (\<lambda>i s. name_of pool i = Inr s) is ss" if "list_all2 (named pool) is ss" for "is" ss
    using that by (rule list_all2_mono) (rule name_of_named)
  then show ?thesis using p(2-4) intern_names_distinct [OF assms(1)] list_all2_mono [OF p(4)] by blast
qed

theorem object_string_pool_witness:
  "intern_names sample_object = ([0, 1, 0], [[1]], [[0x6D], [0x66]]) \<and> distinct [[0x6D], [0x66 :: u8]]"
proof -
  have i: "intern_names sample_object = ([0, 1, 0], [[1]], [[0x6D], [0x66]])"
    by (simp add: intern_names_def sample_object_def symbol_names_def label_names_def intern_def)
  have "card (object_names sample_object) < 2 ^ 32" using sample_object_ok(2) by (simp add: object_fits_def)
  from object_string_pool [OF i this] i show ?thesis by simp
qed

end
