(* ===== verification/Tape_Block.thy ===== *)
theory Tape_Block
  imports Wire Tapes
begin

text \<open>
  The tape-block container \<open>MT\<close> (\<open>crates/core/src/formats/tapeblock.rs\<close>): version 1, where every
  tape uses the alphabet of the block, and version 2, where a tape may carry its own. The writer may
  refuse an alphabet that is too wide; on every other block of a valid shape the reader inverts it,
  and the reader accepts valid shapes only.
\<close>

section \<open>Blocks\<close>

definition MAGIC_TAPEBLOCK :: "u8 list" where "MAGIC_TAPEBLOCK = [0x4D, 0x54, 0x01]"
definition MT_CRC_OFFSET :: nat where "MT_CRC_OFFSET = 6"
definition MT_FORMAT_VERSION_V1 :: u16 where "MT_FORMAT_VERSION_V1 = 1"
definition MT_FORMAT_VERSION_V2 :: u16 where "MT_FORMAT_VERSION_V2 = 2"

record tape_block =
  tb_alphabet :: "utf8 list"
  tb_tapes :: "tape_snapshot list"

definition tb_is_v1_shape :: "tape_block \<Rightarrow> bool" where
  "tb_is_v1_shape b \<longleftrightarrow> list_all (\<lambda>t. ts_alphabet t = None) (tb_tapes b)"

section \<open>Writing\<close>

text \<open>A writer that may also refuse: the \<open>?\<close> operator stops at the first error.\<close>

type_synonym try_writer = "u8 list \<Rightarrow> (format_error + u8 list) option"

definition infallible :: "writer \<Rightarrow> try_writer" where
  "infallible w out = map_option Inr (w out)"

fun tries :: "try_writer list \<Rightarrow> try_writer" where
  "tries [] out = Some (Inr out)"
| "tries (w # ws) out =
     (case w out of
        None \<Rightarrow> None
      | Some (Inl e) \<Rightarrow> Some (Inl e)
      | Some (Inr out') \<Rightarrow> tries ws out')"

definition glyph_count :: "utf8 list \<Rightarrow> format_error + u8" where
  "glyph_count glyphs =
     (case try_u8 (length glyphs) of
        Some n \<Rightarrow> Inr n
      | None \<Rightarrow> Inl (AlphabetTooWide (length glyphs) 255))"

definition write_glyphs :: "utf8 list \<Rightarrow> try_writer" where
  "write_glyphs glyphs out =
     (case glyph_count glyphs of
        Inl e \<Rightarrow> Some (Inl e)
      | Inr n \<Rightarrow> infallible (in_order [emit_u8 n, each emit_str glyphs]) out)"

definition put_tape :: "tape_snapshot \<Rightarrow> writer" where
  "put_tape t =
     in_order [emit_i64 (ts_origin t), count_u32 (length (ts_cells t)), emit (ts_cells t), emit_i64 (ts_head t)]"

definition put_tape_v2 :: "tape_snapshot \<Rightarrow> try_writer" where
  "put_tape_v2 t =
     tries [infallible (put_tape t),
       (case ts_alphabet t of None \<Rightarrow> infallible (emit_u8 0) | Some own \<Rightarrow> write_glyphs own)]"

definition stamped :: "(format_error + u8 list) option \<Rightarrow> (format_error + u8 list) option" where
  "stamped r =
     (case r of Some (Inr out) \<Rightarrow> map_option Inr (stamp_crc out MT_CRC_OFFSET) | _ \<Rightarrow> r)"

text \<open>The glyph loop of version 1 is the one of \<open>write_glyphs\<close>, written in line.\<close>

definition tb_to_bytes_v1 :: "tape_block \<Rightarrow> (format_error + u8 list) option" where
  "tb_to_bytes_v1 b =
     stamped (tries
       [infallible (in_order [emit MAGIC_TAPEBLOCK, emit_u16 MT_FORMAT_VERSION_V1, emit_u8 0, emit_u32 0]),
        write_glyphs (tb_alphabet b),
        infallible (in_order [count_u8 (length (tb_tapes b)), each put_tape (tb_tapes b)])] [])"

definition tb_to_bytes_v2 :: "tape_block \<Rightarrow> (format_error + u8 list) option" where
  "tb_to_bytes_v2 b =
     stamped (tries
       [infallible (in_order [emit MAGIC_TAPEBLOCK, emit_u16 MT_FORMAT_VERSION_V2, emit_u8 0, emit_u32 0]),
        write_glyphs (tb_alphabet b),
        infallible (count_u8 (length (tb_tapes b))),
        tries (map put_tape_v2 (tb_tapes b))] [])"

definition tb_to_bytes :: "tape_block \<Rightarrow> (format_error + u8 list) option" where
  "tb_to_bytes b = (if tb_is_v1_shape b then tb_to_bytes_v1 b else tb_to_bytes_v2 b)"

section \<open>Reading\<close>

definition read_glyphs :: "nat \<Rightarrow> utf8 list parser" where
  "read_glyphs count = repeat count (rd_str ''glyph not utf-8'')"

definition cells_outside :: "u8 list \<Rightarrow> nat \<Rightarrow> bool" where
  "cells_outside cells n \<longleftrightarrow> list_ex (\<lambda>c. n \<le> unat c) cells"

definition rd_tape_v1 :: "nat \<Rightarrow> tape_snapshot parser" where
  "rd_tape_v1 alphabet_count =
     and_then rd_i64 (\<lambda>origin. and_then rd_u32 (\<lambda>n. and_then (rd_bytes (unat n)) (\<lambda>cells.
     and_then rd_i64 (\<lambda>head.
     check (cells_outside cells alphabet_count) (MalformedFile ''cell index outside alphabet'')
       (yields \<lparr>ts_origin = origin, ts_cells = cells, ts_head = head, ts_alphabet = None\<rparr>)))))"

definition rd_own :: "nat \<Rightarrow> utf8 list option parser" where
  "rd_own own_count =
     (if own_count = 0 then yields None
      else and_then (read_glyphs own_count) (\<lambda>own. yields (Some own)))"

definition effective :: "utf8 list \<Rightarrow> utf8 list option \<Rightarrow> utf8 list" where
  "effective block_alphabet own = (case own of Some a \<Rightarrow> a | None \<Rightarrow> block_alphabet)"

definition rd_tape_v2 :: "utf8 list \<Rightarrow> tape_snapshot parser" where
  "rd_tape_v2 block_alphabet =
     and_then rd_i64 (\<lambda>origin. and_then rd_u32 (\<lambda>n. and_then (rd_bytes (unat n)) (\<lambda>cells.
     and_then rd_i64 (\<lambda>head. and_then rd_u8 (\<lambda>own_count. and_then (rd_own (unat own_count)) (\<lambda>own.
     check (effective block_alphabet own = []) (MalformedFile ''empty alphabet'')
    (check (cells_outside cells (length (effective block_alphabet own)))
       (MalformedFile ''cell index outside alphabet'')
       (yields \<lparr>ts_origin = origin, ts_cells = cells, ts_head = head, ts_alphabet = own\<rparr>))))))))"

definition tb_rest_v2 :: "tape_block parser" where
  "tb_rest_v2 =
     and_then rd_u8 (\<lambda>block_count. and_then (read_glyphs (unat block_count)) (\<lambda>block_alphabet.
     and_then rd_u8 (\<lambda>tape_count.
     check (tape_count = 0) (MalformedFile ''no tapes'')
    (and_then (repeat (unat tape_count) (rd_tape_v2 block_alphabet)) (\<lambda>tapes. and_then rd_finish (\<lambda>_.
       yields \<lparr>tb_alphabet = block_alphabet, tb_tapes = tapes\<rparr>))))))"

definition tb_rest_v1 :: "tape_block parser" where
  "tb_rest_v1 =
     and_then rd_u8 (\<lambda>alphabet_count.
     check (alphabet_count = 0) (MalformedFile ''empty alphabet'')
    (and_then (read_glyphs (unat alphabet_count)) (\<lambda>alphabet. and_then rd_u8 (\<lambda>tape_count.
     check (tape_count = 0) (MalformedFile ''no tapes'')
    (and_then (repeat (unat tape_count) (rd_tape_v1 (unat alphabet_count))) (\<lambda>tapes. and_then rd_finish (\<lambda>_.
       yields \<lparr>tb_alphabet = alphabet, tb_tapes = tapes\<rparr>)))))))"

definition tb_body_v2 :: "tape_block parser" where
  "tb_body_v2 = and_then rd_u8 (\<lambda>flags. and_then rd_u32 (\<lambda>crc. tb_rest_v2))"

definition tb_body_v1 :: "tape_block parser" where
  "tb_body_v1 = and_then rd_u8 (\<lambda>flags. and_then rd_u32 (\<lambda>crc. tb_rest_v1))"

definition tb_body :: "tape_block parser" where
  "tb_body =
     and_then rd_u16 (\<lambda>version.
       if version = MT_FORMAT_VERSION_V1 then tb_body_v1
       else if version = MT_FORMAT_VERSION_V2 then tb_body_v2
       else refuse (UnsupportedVersion version))"

definition tb_from_bytes :: "u8 list \<Rightarrow> format_error + tape_block" where
  "tb_from_bytes bytes = open_container MAGIC_TAPEBLOCK MT_CRC_OFFSET tb_body bytes"

section \<open>Valid blocks\<close>

definition glyphs_ok :: "utf8 list \<Rightarrow> bool" where
  "glyphs_ok a \<longleftrightarrow> length a < 2 ^ 8 \<and> (\<forall>s \<in> set a. utf8_ok s \<and> length s < 2 ^ 16)"

definition snapshot_ok :: "utf8 list \<Rightarrow> tape_snapshot \<Rightarrow> bool" where
  "snapshot_ok block t \<longleftrightarrow>
     in_i64 (ts_origin t) \<and> in_i64 (ts_head t) \<and> length (ts_cells t) < 2 ^ 32
     \<and> (\<forall>own. ts_alphabet t = Some own \<longrightarrow> own \<noteq> [] \<and> glyphs_ok own)
     \<and> effective block (ts_alphabet t) \<noteq> []
     \<and> (\<forall>c \<in> set (ts_cells t). unat c < length (effective block (ts_alphabet t)))"

definition block_ok :: "tape_block \<Rightarrow> bool" where
  "block_ok b \<longleftrightarrow>
     glyphs_ok (tb_alphabet b) \<and> tb_tapes b \<noteq> [] \<and> length (tb_tapes b) < 2 ^ 8
     \<and> (\<forall>t \<in> set (tb_tapes b). snapshot_ok (tb_alphabet b) t)"

section \<open>The reader inverts the writer\<close>

lemma tries_infallible: "tries (map infallible ws) = infallible (in_order ws)"
proof (rule ext)
  show "tries (map infallible ws) out = infallible (in_order ws) out" for out
    by (induction ws arbitrary: out) (simp_all add: infallible_def split: option.split)
qed

lemma write_glyphs_fits:
  "length a < 2 ^ 8 \<Longrightarrow>
     write_glyphs a = infallible (in_order [emit_u8 (of_nat (length a)), each emit_str a])"
  by (rule ext) (simp add: write_glyphs_def glyph_count_def try_u8_def)

lemma coupled_glyphs:
  "glyphs_ok a \<Longrightarrow> length a = n \<Longrightarrow> coupled (each emit_str a) (read_glyphs n) a"
  unfolding read_glyphs_def glyphs_ok_def by (intro str_wire.reads_back_list) simp_all

text \<open>The alphabet of its own that a tape may have, and the whole tape.\<close>

definition own_writer :: "utf8 list option \<Rightarrow> writer" where
  "own_writer own =
     (case own of
        None \<Rightarrow> emit_u8 0
      | Some a \<Rightarrow> in_order [emit_u8 (of_nat (length a)), each emit_str a])"

lemma put_tape_v2_writer:
  "snapshot_ok block t \<Longrightarrow> put_tape_v2 t = infallible (in_order [put_tape t, own_writer (ts_alphabet t)])"
  unfolding put_tape_v2_def tries_infallible [symmetric]
  by (auto simp: snapshot_ok_def glyphs_ok_def own_writer_def write_glyphs_fits split: option.split)

lemma cells_inside: "(\<forall>c \<in> set cells. unat c < n) \<Longrightarrow> \<not> cells_outside cells n"
  by (auto simp: cells_outside_def list_ex_iff)

text \<open>The fields before a tape's alphabet.\<close>

lemma coupled_cells:
  assumes "snapshot_ok block t"
    and "coupled (in_order ws) (k (ts_origin t) (ts_cells t) (ts_head t)) y"
  shows "coupled (in_order (put_tape t # ws))
    (and_then rd_i64 (\<lambda>origin. and_then rd_u32 (\<lambda>n. and_then (rd_bytes (unat n)) (\<lambda>cells.
     and_then rd_i64 (\<lambda>head. k origin cells head))))) y"
  unfolding put_tape_def
  by (intro coupled_steps) (use assms in \<open>simp_all add: snapshot_ok_def in_order_nested\<close>)

lemma coupled_tape_v1:
  assumes "snapshot_ok block t" "ts_alphabet t = None" "length block = n"
  shows "coupled (put_tape t) (rd_tape_v1 n) t"
proof -
  have "\<not> cells_outside (ts_cells t) n"
    using assms by (simp add: snapshot_ok_def effective_def cells_inside)
  then have "coupled (in_order [put_tape t]) (rd_tape_v1 n)
      \<lparr>ts_origin = ts_origin t, ts_cells = ts_cells t, ts_head = ts_head t, ts_alphabet = None\<rparr>"
    unfolding rd_tape_v1_def by (intro coupled_cells [OF assms(1)] coupled_check coupled_nil)
  then show ?thesis using assms(2) unfolding in_order_one by (cases t) simp
qed

lemma coupled_own:
  assumes "snapshot_ok block t" "coupled (in_order ws) (k (ts_alphabet t)) y"
  shows "coupled (in_order (own_writer (ts_alphabet t) # ws))
    (and_then rd_u8 (\<lambda>own_count. and_then (rd_own (unat own_count)) k)) y"
proof (cases "ts_alphabet t")
  case None
  then show ?thesis using assms(2)
    by (auto simp: own_writer_def rd_own_def and_then_yields intro!: coupled_fields)
next
  case (Some a)
  then have a: "glyphs_ok a" "a \<noteq> []" "length a < 2 ^ 8"
    using assms by (simp_all add: snapshot_ok_def glyphs_ok_def)
  have "coupled (in_order (each emit_str a # ws)) (and_then (read_glyphs (length a)) (\<lambda>x. k (Some x))) y"
    using assms(2) Some a by (intro coupled_then [where x = a] coupled_glyphs) simp_all
  then show ?thesis
    using a unfolding own_writer_def Some option.case
    by (intro coupled_steps) (simp add: rd_own_def and_then_yields and_then_assoc in_order_nested)
qed

lemma coupled_tape_v2:
  assumes "snapshot_ok block t"
  shows "coupled (in_order [put_tape t, own_writer (ts_alphabet t)]) (rd_tape_v2 block) t"
proof -
  have ok: "effective block (ts_alphabet t) \<noteq> []"
      "\<not> cells_outside (ts_cells t) (length (effective block (ts_alphabet t)))"
    using assms by (simp_all add: snapshot_ok_def cells_inside)
  have "coupled (in_order [put_tape t, own_writer (ts_alphabet t)]) (rd_tape_v2 block)
     \<lparr>ts_origin = ts_origin t, ts_cells = ts_cells t, ts_head = ts_head t, ts_alphabet = ts_alphabet t\<rparr>"
    unfolding rd_tape_v2_def
    by (intro coupled_cells [OF assms] coupled_own [OF assms] coupled_check coupled_nil ok)
  then show ?thesis by (cases t) simp
qed

lemma write_glyphs_ok:
  "glyphs_ok a \<Longrightarrow> write_glyphs a = infallible (in_order [emit_u8 (of_nat (length a)), each emit_str a])"
  by (simp add: glyphs_ok_def write_glyphs_fits)

lemma nonzero_count: "0 < n \<Longrightarrow> n < 2 ^ 8 \<Longrightarrow> (of_nat n :: u8) \<noteq> 0"
  by (metis less_numeral_extra(3) unat_0 unat_counts(1))

text \<open>The tapes up to the end of the file.\<close>

lemma file_tapes:
  assumes "block_ok b" "\<And>t. t \<in> set (tb_tapes b) \<Longrightarrow> coupled (f t) p t"
  shows "file_of [count_u8 (length (tb_tapes b)), each f (tb_tapes b)]
    (and_then rd_u8 (\<lambda>tape_count. check (tape_count = 0) e
      (and_then (repeat (unat tape_count) p) (\<lambda>tapes. and_then rd_finish (\<lambda>_.
        yields \<lparr>tb_alphabet = tb_alphabet b, tb_tapes = tapes\<rparr>))))) b"
proof -
  let ?n = "length (tb_tapes b)"
  have n: "?n < 2 ^ 8" "(of_nat ?n :: u8) \<noteq> 0" using assms(1) by (simp_all add: block_ok_def nonzero_count)
  have "coupled (each f (tb_tapes b)) (repeat ?n p) (map (\<lambda>t. t) (tb_tapes b))"
    using assms(2) by (rule coupled_each) simp_all
  then have "coupled (each f (tb_tapes b)) (repeat ?n p) (tb_tapes b)" by simp
  moreover have "completes (yields \<lparr>tb_alphabet = tb_alphabet b, tb_tapes = tb_tapes b\<rparr>) [] b"
    by (cases b) (simp add: completes_yields)
  ultimately have "file_of [each f (tb_tapes b)] (and_then (repeat ?n p) (\<lambda>tapes. and_then rd_finish (\<lambda>_.
        yields \<lparr>tb_alphabet = tb_alphabet b, tb_tapes = tapes\<rparr>))) b"
    by (intro file_then [where v = "tb_tapes b"] file_finish) simp_all
  then show ?thesis using n by (intro file_steps file_check) simp_all
qed

text \<open>All pieces of a writer that refuses nothing, and the header of a version.\<close>

lemma tries_in_order:
  "tries [infallible (in_order a), infallible (in_order b), infallible (in_order c)] out =
     infallible (in_order (a @ b @ c)) out"
  using tries_infallible [of "map in_order [a, b, c]"] in_order_concat [of "[a, b, c]"]
  by (simp add: infallible_def)

lemma tb_file:
  assumes "file_of ws p b" "tb_body_p = and_then rd_u8 (\<lambda>flags. and_then rd_u32 (\<lambda>crc. p))"
    and "and_then rd_u16 (\<lambda>version. sel version) = tb_body" "sel v = tb_body_p"
  shows "\<exists>bs. stamped (infallible (in_order ([emit MAGIC_TAPEBLOCK, emit_u16 v, emit_u8 0, emit_u32 0] @ ws)) [])
      = Some (Inr bs) \<and> tb_from_bytes bs = Inr b"
proof -
  have "\<exists>out bs. in_order (emit MAGIC_TAPEBLOCK # [emit_u16 v, emit_u8 0] @ emit_u32 0 # ws) [] = Some out
      \<and> stamp_crc out MT_CRC_OFFSET = Some bs \<and> open_container MAGIC_TAPEBLOCK MT_CRC_OFFSET tb_body bs = Inr b"
  proof (rule container_round_trip [OF _ _ _ assms(1)])
    show "writes (in_order [emit_u16 v, emit_u8 0]) (le_u16 v @ [0])"
      by (simp add: writes_def emit_u16_def emit_u8_def emit_def put_u16_def)
    show "completes tb_body ((le_u16 v @ [0]) @ le_u32 crc @ bs) b" if "completes p bs b" for bs crc
      unfolding assms(3) [symmetric] append_assoc
      by (intro completes_fields) (unfold assms(2,4), intro completes_fields that)
  qed (simp_all add: MAGIC_TAPEBLOCK_def MT_CRC_OFFSET_def)
  then show ?thesis by (auto simp: stamped_def infallible_def tb_from_bytes_def simp del: in_order.simps)
qed

lemma tb_round_trip_v1:
  assumes "block_ok b" "tb_is_v1_shape b"
  shows "\<exists>bs. tb_to_bytes_v1 b = Some (Inr bs) \<and> tb_from_bytes bs = Inr b"
proof -
  let ?a = "tb_alphabet b"
  let ?ws = "[emit_u8 (of_nat (length ?a)), each emit_str ?a]
    @ [count_u8 (length (tb_tapes b)), each put_tape (tb_tapes b)]"
  have a: "glyphs_ok ?a" and tapes: "tb_tapes b \<noteq> []"
    and t: "\<And>t. t \<in> set (tb_tapes b) \<Longrightarrow> snapshot_ok ?a t \<and> ts_alphabet t = None"
    using assms by (simp_all add: block_ok_def tb_is_v1_shape_def list_all_iff)
  have "?a \<noteq> []" using t [of "hd (tb_tapes b)"] tapes by (auto simp: snapshot_ok_def effective_def)
  with a have n: "(of_nat (length ?a) :: u8) \<noteq> 0" "unat (of_nat (length ?a) :: u8) = length ?a"
    by (simp_all add: glyphs_ok_def nonzero_count)
  have "file_of ?ws tb_rest_v1 b"
    unfolding tb_rest_v1_def append.simps using n a t
    by (intro file_fields(1) file_check file_then [where v = ?a] file_tapes [OF assms(1)])
      (simp_all add: coupled_glyphs coupled_tape_v1 [of ?a])
  from tb_file [OF this tb_body_v1_def tb_body_def [symmetric], of MT_FORMAT_VERSION_V1]
  show ?thesis unfolding tb_to_bytes_v1_def write_glyphs_ok [OF a] tries_in_order by simp
qed

lemma tb_round_trip_v2:
  assumes "block_ok b" "\<not> tb_is_v1_shape b"
  shows "\<exists>bs. tb_to_bytes_v2 b = Some (Inr bs) \<and> tb_from_bytes bs = Inr b"
proof -
  let ?a = "tb_alphabet b"
  let ?tape = "\<lambda>t. in_order [put_tape t, own_writer (ts_alphabet t)]"
  let ?ws = "[emit_u8 (of_nat (length ?a)), each emit_str ?a] @ [count_u8 (length (tb_tapes b)), each ?tape (tb_tapes b)]"
  have a: "glyphs_ok ?a" and t: "\<And>t. t \<in> set (tb_tapes b) \<Longrightarrow> snapshot_ok ?a t"
    using assms by (simp_all add: block_ok_def)
  then have n: "unat (of_nat (length ?a) :: u8) = length ?a" by (simp add: glyphs_ok_def)
  have "file_of ?ws tb_rest_v2 b"
    unfolding tb_rest_v2_def append.simps using n a t
    by (intro file_fields(1) file_check file_then [where v = ?a] file_tapes [OF assms(1)])
      (simp_all add: coupled_glyphs coupled_tape_v2 del: in_order.simps)
  from tb_file [OF this tb_body_v2_def tb_body_def [symmetric], of MT_FORMAT_VERSION_V2]
  have r: "\<exists>bs. stamped (infallible (in_order ([emit MAGIC_TAPEBLOCK, emit_u16 MT_FORMAT_VERSION_V2, emit_u8 0, emit_u32 0] @ ?ws)) [])
      = Some (Inr bs) \<and> tb_from_bytes bs = Inr b"
    by (simp add: MT_FORMAT_VERSION_V1_def MT_FORMAT_VERSION_V2_def del: in_order.simps)
  have "map put_tape_v2 (tb_tapes b) = map infallible (map ?tape (tb_tapes b))"
    using t put_tape_v2_writer by auto
  then have m: "tries (map put_tape_v2 (tb_tapes b)) = infallible (each ?tape (tb_tapes b))"
    by (simp only: tries_infallible each_def)
  have "tries [infallible (in_order h), infallible (in_order g), infallible c, infallible d] out =
      infallible (in_order (h @ g @ [c, d])) out" for h g c d out
    using tries_infallible [of "map in_order [h, g] @ [c, d]"] in_order_concat [of "[h, g, [c], [d]]"]
    by (simp add: infallible_def in_order_one)
  with r show ?thesis unfolding tb_to_bytes_v2_def write_glyphs_ok [OF a] m by simp
qed

lemma tb_round_trip:
  "block_ok b \<Longrightarrow> \<exists>bs. tb_to_bytes b = Some (Inr bs) \<and> tb_from_bytes bs = Inr b"
  using tb_round_trip_v1 tb_round_trip_v2 by (simp add: tb_to_bytes_def)

section \<open>What the reader accepts\<close>

lemma ensures_glyphs: "ensures (read_glyphs n) (\<lambda>a. length a = n \<and> (\<forall>s \<in> set a. utf8_ok s \<and> length s < 2 ^ 16))"
  unfolding read_glyphs_def by (rule ensures_repeat [OF ensures_str])

lemma glyphs_okI:
  "length a = unat (n :: u8) \<and> (\<forall>s \<in> set a. utf8_ok s \<and> length s < 2 ^ 16) \<Longrightarrow> glyphs_ok a"
  using unat_width(1) [of n] by (simp add: glyphs_ok_def)

lemma inside_cells: "\<not> cells_outside cells n \<Longrightarrow> c \<in> set cells \<Longrightarrow> unat c < n"
  by (auto simp: cells_outside_def list_ex_iff not_le)

lemma ensures_own:
  "ensures (rd_own (unat (n :: u8))) (\<lambda>own. \<forall>a. own = Some a \<longrightarrow> a \<noteq> [] \<and> glyphs_ok a)"
  unfolding rd_own_def
  by (auto intro!: ensures_yields ensures_then [OF ensures_glyphs] glyphs_okI)

lemma length_u32: "length xs = unat (n :: u32) \<Longrightarrow> length xs < 2 ^ 32"
  using unat_width(3) [of n] by simp

lemma ensures_tape_v1:
  "block \<noteq> [] \<Longrightarrow> ensures (rd_tape_v1 (length block)) (snapshot_ok block)"
  unfolding rd_tape_v1_def
  by (intro ensures_then [OF ensures_i64] ensures_then [OF ensures_any] ensures_then [OF ensures_bytes]
        ensures_check ensures_yields)
    (use length_u32 in \<open>auto simp: snapshot_ok_def effective_def inside_cells\<close>)

lemma ensures_tape_v2: "ensures (rd_tape_v2 block) (snapshot_ok block)"
  unfolding rd_tape_v2_def
  by (intro ensures_then [OF ensures_i64] ensures_then [of rd_u32, OF ensures_any] ensures_then [OF ensures_bytes]
        ensures_then [of rd_u8, OF ensures_any] ensures_then [OF ensures_own] ensures_check ensures_yields)
    (use length_u32 in \<open>auto simp: snapshot_ok_def inside_cells\<close>)

lemma ensures_tapes:
  assumes "glyphs_ok a" "ensures p (snapshot_ok a)"
  shows "ensures (and_then rd_u8 (\<lambda>tape_count. check (tape_count = 0) e
      (and_then (repeat (unat tape_count) p) (\<lambda>tapes. and_then rd_finish (\<lambda>_.
        yields \<lparr>tb_alphabet = a, tb_tapes = tapes\<rparr>))))) block_ok"
proof (intro ensures_then [of rd_u8, OF ensures_any] ensures_check
    ensures_then [OF ensures_repeat [OF assms(2)]] ensures_then [of rd_finish, OF ensures_any] ensures_yields)
  fix n :: u8 and ts
  assume "n \<noteq> 0" "length ts = unat n \<and> (\<forall>t \<in> set ts. snapshot_ok a t)"
  then show "block_ok \<lparr>tb_alphabet = a, tb_tapes = ts\<rparr>"
    using assms(1) unat_width(1) [of n] unat_gt_0 [of n] by (auto simp: block_ok_def)
qed

lemma ensures_rest_v1: "ensures tb_rest_v1 block_ok"
  unfolding tb_rest_v1_def
proof (rule ensures_then [OF ensures_any], rule ensures_check, rule ensures_then [OF ensures_glyphs])
  fix n :: u8 and a
  assume "n \<noteq> 0" and a: "length a = unat n \<and> (\<forall>s \<in> set a. utf8_ok s \<and> length s < 2 ^ 16)"
  then have "a \<noteq> []" using unat_gt_0 [of n] by auto
  then have "ensures (rd_tape_v1 (unat n)) (snapshot_ok a)" using ensures_tape_v1 [of a] a by simp
  then show "ensures (and_then rd_u8 (\<lambda>tape_count. check (tape_count = 0) (MalformedFile ''no tapes'')
      (and_then (repeat (unat tape_count) (rd_tape_v1 (unat n))) (\<lambda>tapes. and_then rd_finish (\<lambda>_.
        yields \<lparr>tb_alphabet = a, tb_tapes = tapes\<rparr>))))) block_ok"
    using glyphs_okI [OF a] by (intro ensures_tapes)
qed

lemma ensures_rest_v2: "ensures tb_rest_v2 block_ok"
  unfolding tb_rest_v2_def
proof (rule ensures_then [OF ensures_any], rule ensures_then [OF ensures_glyphs])
  fix n :: u8 and a
  assume "length a = unat n \<and> (\<forall>s \<in> set a. utf8_ok s \<and> length s < 2 ^ 16)"
  then show "ensures (and_then rd_u8 (\<lambda>tape_count. check (tape_count = 0) (MalformedFile ''no tapes'')
      (and_then (repeat (unat tape_count) (rd_tape_v2 a)) (\<lambda>tapes. and_then rd_finish (\<lambda>_.
        yields \<lparr>tb_alphabet = a, tb_tapes = tapes\<rparr>))))) block_ok"
    by (intro ensures_tapes ensures_tape_v2 glyphs_okI)
qed

lemma tb_accepts: "tb_from_bytes bs = Inr b \<Longrightarrow> block_ok b"
  unfolding tb_from_bytes_def
  by (erule open_container_ensures)
    (auto simp: tb_body_def tb_body_v1_def tb_body_v2_def
      intro!: ensures_then [of rd_u16, OF ensures_any] ensures_then [of rd_u8, OF ensures_any]
        ensures_then [of rd_u32, OF ensures_any] ensures_rest_v1 ensures_rest_v2 ensures_refuse)

section \<open>What the writer refuses\<close>

definition alphabets :: "tape_block \<Rightarrow> utf8 list list" where
  "alphabets b = tb_alphabet b # List.map_filter ts_alphabet (tb_tapes b)"

lemma tries_Inl:
  "tries ws out = Some (Inl e) \<Longrightarrow> \<exists>w \<in> set ws. \<exists>out'. w out' = Some (Inl e)"
  by (induction ws arbitrary: out) (fastforce split: option.splits sum.splits)+

lemma infallible_Inl: "infallible w out \<noteq> Some (Inl e)"
  by (simp add: infallible_def)

lemma write_glyphs_Inl:
  "write_glyphs a out = Some (Inl e) \<Longrightarrow> e = AlphabetTooWide (length a) 255 \<and> 255 < length a"
  by (auto simp: write_glyphs_def glyph_count_def try_u8_def infallible_Inl split: if_splits option.splits)

lemma put_tape_v2_Inl:
  "put_tape_v2 t out = Some (Inl e) \<Longrightarrow>
     \<exists>a. ts_alphabet t = Some a \<and> e = AlphabetTooWide (length a) 255 \<and> 255 < length a"
  unfolding put_tape_v2_def
  by (drule tries_Inl) (auto simp: infallible_Inl dest!: write_glyphs_Inl split: option.splits)

lemma stamped_Inl: "stamped r = Some (Inl e) \<Longrightarrow> r = Some (Inl e)"
  by (auto simp: stamped_def split: option.splits sum.splits)

lemma tb_refuses:
  assumes "tb_to_bytes b = Some (Inl e)"
  shows "\<exists>a \<in> set (alphabets b). e = AlphabetTooWide (length a) 255 \<and> 255 < length a"
proof -
  have own: "a \<in> set (alphabets b)" if "t \<in> set (tb_tapes b)" "ts_alphabet t = Some a" for t a
    using that by (force simp: alphabets_def List.map_filter_def image_iff)
  have block: "tb_alphabet b \<in> set (alphabets b)" by (simp add: alphabets_def)
  show ?thesis
  proof (cases "tb_is_v1_shape b")
    case True
    then show ?thesis using assms block unfolding tb_to_bytes_def tb_to_bytes_v1_def
      by (auto simp: infallible_Inl simp del: tries.simps dest!: stamped_Inl tries_Inl write_glyphs_Inl)
  next
    case False
    then show ?thesis using assms block own unfolding tb_to_bytes_def tb_to_bytes_v2_def
      by (auto simp: infallible_Inl simp del: tries.simps dest!: stamped_Inl tries_Inl write_glyphs_Inl put_tape_v2_Inl) blast+
  qed
qed

section \<open>The properties of the container\<close>

definition sample_block :: tape_block where
  "sample_block = \<lparr>tb_alphabet = [[0x20], [0x2A]],
     tb_tapes = [\<lparr>ts_origin = - 1, ts_cells = [1, 0, 1], ts_head = 1, ts_alphabet = None\<rparr>,
       \<lparr>ts_origin = 0, ts_cells = [2], ts_head = 0, ts_alphabet = Some [[0x5F], [0xC3, 0xA9], [0x62]]\<rparr>]\<rparr>"

lemma sample_block_ok: "block_ok sample_block"
  by (simp add: sample_block_def block_ok_def glyphs_ok_def snapshot_ok_def effective_def in_i64_def utf8_tail_def)

text \<open>
  C19: a tape block survives its file. A block of a valid shape, with shared or with per-tape
  alphabets, is written without a panic and read back as it was.
\<close>

theorem tapeblock_roundtrip:
  assumes "block_ok b"
  shows "\<exists>bs. tb_to_bytes b = Some (Inr bs) \<and> tb_from_bytes bs = Inr b"
  by (rule tb_round_trip [OF assms])

theorem tapeblock_roundtrip_witness:
  "\<exists>bs. tb_to_bytes sample_block = Some (Inr bs) \<and> tb_from_bytes bs = Inr sample_block"
  by (rule tapeblock_roundtrip [OF sample_block_ok])

text \<open>
  C20: the reader accepts valid blocks only, so what it has read can be written again. From an
  accepted file: at least one tape, every effective alphabet non-empty, every cell inside it, every
  glyph UTF-8, every coordinate an \<open>i64\<close>.
\<close>

theorem tapeblock_accepted:
  assumes "tb_from_bytes bs = Inr b"
  shows "block_ok b \<and> (\<exists>bs'. tb_to_bytes b = Some (Inr bs') \<and> tb_from_bytes bs' = Inr b)"
  using tb_accepts [OF assms] tb_round_trip by blast

theorem tapeblock_accepted_witness:
  "\<exists>bs. tb_from_bytes bs = Inr sample_block \<and> block_ok sample_block"
  using tb_round_trip [OF sample_block_ok] tapeblock_accepted by blast

text \<open>
  The only error of the writer is an alphabet with more than 255 symbols, of the block or of a
  tape, and it is reported with its size.
\<close>

theorem tapeblock_writer_error:
  assumes "tb_to_bytes b = Some (Inl e)"
  shows "\<exists>a \<in> set (alphabets b). e = AlphabetTooWide (length a) 255 \<and> 255 < length a"
  by (rule tb_refuses [OF assms])

theorem tapeblock_writer_error_witness:
  "tb_to_bytes \<lparr>tb_alphabet = replicate 256 [0x61], tb_tapes = []\<rparr> = Some (Inl (AlphabetTooWide 256 255))
   \<and> (\<exists>a \<in> set (alphabets \<lparr>tb_alphabet = replicate 256 [0x61], tb_tapes = []\<rparr>).
        AlphabetTooWide 256 255 = AlphabetTooWide (length a) 255 \<and> 255 < length a)"
proof -
  have r: "tb_to_bytes \<lparr>tb_alphabet = replicate 256 [0x61], tb_tapes = []\<rparr> = Some (Inl (AlphabetTooWide 256 255))"
    by (simp add: tb_to_bytes_def tb_is_v1_shape_def tb_to_bytes_v1_def stamped_def infallible_def emit_def
        emit_u8_def emit_u16_def emit_u32_def write_glyphs_def glyph_count_def try_u8_def)
  with tapeblock_writer_error [OF r] show ?thesis by blast
qed

end
