(* ===== verification/Pm_Ir.thy ===== *)
theory Pm_Ir
  imports Prelude
begin

text \<open>
  The intermediate representation of the PM-1 compiler (\<open>crates/post-machine/src/ir.rs\<close>): a control-flow
  graph per function, and the structural invariant every optimizer pass preserves
  (\<open>validate_function\<close>). Block ids are natural numbers: a program has fewer than \<open>2 ^ 32\<close> blocks.
  Names are strings; line numbers are carried as the source has them.
\<close>

section \<open>Programs\<close>

datatype ir_op =
    Lft u32
  | Rgt u32
  | Wr u32 u32
  | WrLft u32 u32
  | WrRgt u32 u32
  | Brk u32
  | Call string u32

datatype ir_term =
    FallThrough nat
  | Goto nat
  | Check nat nat
  | Return
  | Halt
  | TailCall string

record ir_block =
  b_id :: nat
  b_labels :: "u32 list"
  b_line :: u32
  b_ops :: "ir_op list"
  b_term :: ir_term
  b_term_line :: u32

record ir_function =
  fn_name :: string
  fn_line :: u32
  fn_blocks :: "ir_block list"
  fn_local :: bool

record ir_program =
  ir_version :: u32
  ir_functions :: "ir_function list"

definition IR_VERSION :: u32 where "IR_VERSION = 4"

section \<open>Targets\<close>

text \<open>The match on a terminator that every walk over the graph repeats.\<close>

fun targets :: "ir_term \<Rightarrow> nat list" where
  "targets (FallThrough i) = [i]"
| "targets (Goto i) = [i]"
| "targets (Check m b) = [m, b]"
| "targets Return = []"
| "targets Halt = []"
| "targets (TailCall n) = []"

text \<open>Rewriting every target, as the passes that retarget a terminator do.\<close>

fun retarget :: "(nat \<Rightarrow> nat) \<Rightarrow> ir_term \<Rightarrow> ir_term" where
  "retarget g (FallThrough i) = FallThrough (g i)"
| "retarget g (Goto i) = Goto (g i)"
| "retarget g (Check m b) = Check (g m) (g b)"
| "retarget g Return = Return"
| "retarget g Halt = Halt"
| "retarget g (TailCall n) = TailCall n"

lemma targets_retarget [simp]: "targets (retarget g t) = map g (targets t)"
  by (cases t) simp_all

lemma retarget_leaf [simp]:
  "retarget g t = Return \<longleftrightarrow> t = Return" "retarget g t = Halt \<longleftrightarrow> t = Halt"
  "retarget g t = TailCall n \<longleftrightarrow> t = TailCall n"
  "retarget g t = Goto j \<longleftrightarrow> (\<exists>i. t = Goto i \<and> j = g i)"
  "retarget g t = FallThrough j \<longleftrightarrow> (\<exists>i. t = FallThrough i \<and> j = g i)"
  by (cases t; auto)+

lemma retarget_cong [fundef_cong]:
  "t = t' \<Longrightarrow> (\<And>i. i \<in> set (targets t') \<Longrightarrow> g i = g' i) \<Longrightarrow> retarget g t = retarget g' t'"
  by (cases t') simp_all

lemma retarget_id [simp]: "retarget (\<lambda>i. i) t = t"
  by (cases t) simp_all

text \<open>Changing all blocks of a function.\<close>

definition map_blocks :: "(ir_block \<Rightarrow> ir_block) \<Rightarrow> ir_function \<Rightarrow> ir_function" where
  "map_blocks h f = f\<lparr>fn_blocks := map h (fn_blocks f)\<rparr>"

lemma map_blocks_simps [simp]:
  "fn_name (map_blocks h f) = fn_name f" "fn_blocks (map_blocks h f) = map h (fn_blocks f)"
  "fn_local (map_blocks h f) = fn_local f" "fn_line (map_blocks h f) = fn_line f"
  by (simp_all add: map_blocks_def)

section \<open>Looking a block up\<close>

text \<open>\<open>index\<close>, the map from ids to positions the passes collect, and the block it leads to.\<close>

definition block_ids :: "ir_function \<Rightarrow> nat list" where
  "block_ids f = map b_id (fn_blocks f)"

definition block_index :: "ir_function \<Rightarrow> nat \<Rightarrow> nat option" where
  "block_index f = map_of (rev (zip (block_ids f) [0..<length (fn_blocks f)]))"

definition block_at :: "ir_function \<Rightarrow> nat \<Rightarrow> ir_block option" where
  "block_at f i = map_option ((!) (fn_blocks f)) (block_index f i)"

section \<open>The structural invariant\<close>

definition valid_fn :: "ir_function \<Rightarrow> bool" where
  "valid_fn f \<longleftrightarrow> fn_blocks f \<noteq> [] \<and> distinct (block_ids f)
     \<and> (\<forall>b \<in> set (fn_blocks f). \<forall>i \<in> set (targets (b_term b)). i \<in> set (block_ids f))"

text \<open>\<open>validate_function\<close>: its three errors, in its order.\<close>

datatype ir_error =
    NoBlocks string
  | DuplicateBlockId string nat
  | MissingTarget string nat nat

fun first_duplicate :: "nat set \<Rightarrow> ir_block list \<Rightarrow> nat option" where
  "first_duplicate ids [] = None"
| "first_duplicate ids (b # bs) =
     (if b_id b \<in> ids then Some (b_id b) else first_duplicate (insert (b_id b) ids) bs)"

fun first_missing :: "nat set \<Rightarrow> ir_block list \<Rightarrow> (nat \<times> nat) option" where
  "first_missing ids [] = None"
| "first_missing ids (b # bs) =
     (case find (\<lambda>i. i \<notin> ids) (targets (b_term b)) of
        Some i \<Rightarrow> Some (b_id b, i)
      | None \<Rightarrow> first_missing ids bs)"

definition validate_function :: "ir_function \<Rightarrow> ir_error + unit" where
  "validate_function f =
     (if fn_blocks f = [] then Inl (NoBlocks (fn_name f))
      else case first_duplicate {} (fn_blocks f) of
             Some i \<Rightarrow> Inl (DuplicateBlockId (fn_name f) i)
           | None \<Rightarrow>
               (case first_missing (set (block_ids f)) (fn_blocks f) of
                  Some (b, i) \<Rightarrow> Inl (MissingTarget (fn_name f) b i)
                | None \<Rightarrow> Inr ()))"

lemma first_duplicate_None:
  "first_duplicate ids bs = None \<longleftrightarrow> distinct (map b_id bs) \<and> ids \<inter> set (map b_id bs) = {}"
  by (induction bs arbitrary: ids) auto

lemma find_SomeD: "find P xs = Some x \<Longrightarrow> x \<in> set xs \<and> P x"
  by (auto simp: find_Some_iff)

lemma first_missing_None:
  "first_missing ids bs = None \<longleftrightarrow> (\<forall>b \<in> set bs. set (targets (b_term b)) \<subseteq> ids)"
proof (induction bs)
  case (Cons b bs)
  show ?case
  proof (cases "find (\<lambda>i. i \<notin> ids) (targets (b_term b))")
    case None
    then have "set (targets (b_term b)) \<subseteq> ids" by (auto simp: find_None_iff)
    then show ?thesis using Cons None by simp
  next
    case (Some i)
    then have "i \<in> set (targets (b_term b))" "i \<notin> ids" by (auto dest: find_SomeD)
    then show ?thesis using Some by auto
  qed
qed simp

lemma validate_valid: "validate_function f = Inr () \<longleftrightarrow> valid_fn f"
proof -
  have "validate_function f = Inr () \<longleftrightarrow> fn_blocks f \<noteq> [] \<and> first_duplicate {} (fn_blocks f) = None
      \<and> first_missing (set (block_ids f)) (fn_blocks f) = None"
    by (auto simp: validate_function_def split: option.split)
  then show ?thesis by (auto simp: valid_fn_def block_ids_def first_duplicate_None first_missing_None subset_iff)
qed

subsection \<open>Blocks of a valid function\<close>

lemma valid_nonempty: "valid_fn f \<Longrightarrow> fn_blocks f \<noteq> []" by (simp add: valid_fn_def)

lemma block_index_Some:
  assumes "distinct (block_ids f)"
  shows "block_index f i = Some k \<longleftrightarrow> k < length (fn_blocks f) \<and> b_id (fn_blocks f ! k) = i"
proof -
  let ?z = "zip (block_ids f) [0..<length (fn_blocks f)]"
  have len: "length (block_ids f) = length (fn_blocks f)" by (simp add: block_ids_def)
  have "distinct (map fst (rev ?z))" using assms by (simp add: rev_map [symmetric] len)
  then have "block_index f i = Some k \<longleftrightarrow> (i, k) \<in> set ?z"
    unfolding block_index_def by (subst map_of_eq_Some_iff) auto
  also have "\<dots> \<longleftrightarrow> k < length (fn_blocks f) \<and> b_id (fn_blocks f ! k) = i"
    using len by (auto simp: set_zip block_ids_def intro: exI [of _ k])
  finally show ?thesis .
qed

lemma block_at_Some:
  assumes "distinct (block_ids f)"
  shows "block_at f i = Some b \<longleftrightarrow> b \<in> set (fn_blocks f) \<and> b_id b = i"
  using assms by (auto simp: block_at_def block_index_Some in_set_conv_nth)

lemma block_at_None:
  assumes "distinct (block_ids f)"
  shows "block_at f i = None \<longleftrightarrow> i \<notin> set (block_ids f)"
proof -
  have "block_at f i = None \<longleftrightarrow> (\<nexists>b. block_at f i = Some b)" by simp
  then show ?thesis using block_at_Some [OF assms, of i] by (auto simp: block_ids_def)
qed

lemma block_at_map:
  assumes "\<And>b. b_id (h b) = b_id b"
  shows "block_at (map_blocks h f) i = map_option h (block_at f i)"
proof -
  have "block_index (map_blocks h f) = block_index f"
    using assms by (simp add: block_index_def block_ids_def comp_def)
  moreover have "k < length (fn_blocks f)" if "block_index f i = Some k" for k
    using map_of_SomeD [OF that [unfolded block_index_def]] by (auto simp: set_zip)
  ultimately show ?thesis by (cases "block_index f i") (simp_all add: block_at_def)
qed

lemma block_ids_map [simp]: "(\<And>b. b_id (h b) = b_id b) \<Longrightarrow> block_ids (map_blocks h f) = block_ids f"
  by (simp add: block_ids_def comp_def)

lemma valid_map:
  assumes "valid_fn f" "\<And>b. b_id (h b) = b_id b"
    and "\<And>b i. b \<in> set (fn_blocks f) \<Longrightarrow> i \<in> set (targets (b_term (h b))) \<Longrightarrow> i \<in> set (block_ids f)"
  shows "valid_fn (map_blocks h f)"
  using assms by (auto simp: valid_fn_def)

lemma valid_target:
  assumes "valid_fn f" "b \<in> set (fn_blocks f)" "i \<in> set (targets (b_term b))"
  shows "\<exists>b'. block_at f i = Some b' \<and> b' \<in> set (fn_blocks f) \<and> b_id b' = i"
proof -
  have "distinct (block_ids f)" "i \<in> set (block_ids f)" using assms by (auto simp: valid_fn_def)
  then show ?thesis using block_at_None [of f i] block_at_Some [of f i] by (cases "block_at f i") auto
qed

end
