(* ===== verification/Pmc_Codegen.thy ===== *)
theory Pmc_Codegen
  imports Pm_Ir
begin

text \<open>
  Code generation: from the intermediate representation to assembly text
  (\<open>crates/post-machine/src/codegen.rs\<close>, with \<open>grid_line\<close> of \<open>crates/core/src/asm/disassembler.rs\<close>). The
  code writes each line as text; here a line is first a value, which \<open>line_text\<close> renders, so that the
  generated program can be run. \<open>None\<close> is a panic.
\<close>

section \<open>Numbers as text\<close>

definition digit_char :: "nat \<Rightarrow> char" where
  "digit_char d = (''0123456789'' ! d)"

fun show_nat :: "nat \<Rightarrow> string" where
  "show_nat n = (if n < 10 then [digit_char n] else show_nat (n div 10) @ [digit_char (n mod 10)])"

declare show_nat.simps [simp del]

definition show_u32 :: "u32 \<Rightarrow> string" where
  "show_u32 w = show_nat (unat w)"

section \<open>The grid\<close>

definition MNEMONIC_COL :: nat where "MNEMONIC_COL = 8"

definition OPERAND_COL :: nat where "OPERAND_COL = 16"

definition spaces :: "nat \<Rightarrow> string" where
  "spaces n = replicate n CHR '' ''"

definition trim_end :: "string \<Rightarrow> string" where
  "trim_end s = rev (dropWhile ((=) CHR '' '') (rev s))"

text \<open>The mnemonic and the operand, laid out from the mnemonic column.\<close>

definition grid_body :: "string \<Rightarrow> string \<Rightarrow> string" where
  "grid_body mnemonic operand =
     (let body = spaces MNEMONIC_COL @ mnemonic in
      trim_end
        (if operand \<noteq> [] then
           (if length body < OPERAND_COL then body @ spaces (OPERAND_COL - length body)
            else body @ '' '') @ operand
         else body))"

definition grid_line :: "string option \<Rightarrow> string \<Rightarrow> string \<Rightarrow> string" where
  "grid_line lbl mnemonic operand =
     (let body = grid_body mnemonic operand in
      case lbl of
        None \<Rightarrow> body
      | Some l \<Rightarrow>
          if length l + 1 \<ge> MNEMONIC_COL then l @ '':'' @ [CHR 0x0A] @ body
          else
            (let field = l @ '':'' in
             field @ spaces (MNEMONIC_COL - length field) @ drop MNEMONIC_COL body))"

section \<open>Lines\<close>

datatype pma_line =
    FuncLine string bool
  | LabelLine string
  | InstrLine string string

fun line_text :: "pma_line \<Rightarrow> string" where
  "line_text (FuncLine n loc) = ''.func '' @ n @ (if loc then '' local'' else '''')"
| "line_text (LabelLine l) = l @ '':''"
| "line_text (InstrLine m oper) = grid_line None m oper"

record codegen_options =
  strip_debugger :: bool

record pma_output =
  po_text :: string
  po_line_map :: "(u32 \<times> u32) list"

text \<open>The emitter; line numbers are 1-based and \<open>0\<close> stands for no source line.\<close>

record emitter =
  em_lines :: "string list"
  em_line_map :: "(u32 \<times> u32) list"

definition em_push :: "string \<Rightarrow> u32 \<Rightarrow> emitter \<Rightarrow> emitter" where
  "em_push text pmc_line e =
     (let e = e\<lparr>em_lines := em_lines e @ [text]\<rparr> in
      if pmc_line \<noteq> 0
      then e\<lparr>em_line_map := em_line_map e @ [(of_nat (length (em_lines e)), pmc_line)]\<rparr>
      else e)"

section \<open>Functions\<close>

definition block_name :: "ir_block \<Rightarrow> string" where
  "block_name b =
     (case b_labels b of
        l # _ \<Rightarrow> ''L'' @ show_u32 l
      | [] \<Rightarrow> ''B'' @ show_nat (b_id b))"

definition block_names :: "ir_function \<Rightarrow> nat \<Rightarrow> string option" where
  "block_names f = map_of (rev (map (\<lambda>b. (b_id b, block_name b)) (fn_blocks f)))"

text \<open>\<open>next_id\<close>, the blocks after this one given.\<close>

fun next_id :: "ir_block list \<Rightarrow> nat option" where
  "next_id [] = None"
| "next_id (b # bs) = Some (b_id b)"

text \<open>Pass 1: the blocks a jump will name.\<close>

fun term_refs :: "nat option \<Rightarrow> ir_term \<Rightarrow> nat set" where
  "term_refs next (FallThrough i) = (if next \<noteq> Some i then {i} else {})"
| "term_refs next (Goto i) = (if next \<noteq> Some i then {i} else {})"
| "term_refs next (Check m b) =
     (if next = Some b then {m} else if next = Some m then {b} else {m, b})"
| "term_refs next t = {}"

fun referenced :: "ir_block list \<Rightarrow> nat set" where
  "referenced [] = {}"
| "referenced (b # bs) = term_refs (next_id bs) (b_term b) \<union> referenced bs"

text \<open>Pass 2.\<close>

definition label_lines :: "nat set \<Rightarrow> ir_block \<Rightarrow> (pma_line \<times> u32) list" where
  "label_lines refs b =
     (if b_id b \<in> refs then
        (if b_labels b = [] then [(LabelLine (''B'' @ show_nat (b_id b)), 0)]
         else map (\<lambda>l. (LabelLine (''L'' @ show_u32 l), 0)) (b_labels b))
      else [])"

fun op_lines :: "codegen_options \<Rightarrow> ir_op \<Rightarrow> (pma_line \<times> u32) list" where
  "op_lines o' (Lft l) = [(InstrLine ''lft'' '''', l)]"
| "op_lines o' (Rgt l) = [(InstrLine ''rgt'' '''', l)]"
| "op_lines o' (Wr i l) = [(InstrLine ''wr'' (show_u32 i), l)]"
| "op_lines o' (WrLft i l) = [(InstrLine ''wrl'' (show_u32 i), l)]"
| "op_lines o' (WrRgt i l) = [(InstrLine ''wrr'' (show_u32 i), l)]"
| "op_lines o' (Brk l) = (if strip_debugger o' then [] else [(InstrLine ''brk'' '''', l)])"
| "op_lines o' (Call n l) = [(InstrLine ''call'' n, l)]"

text \<open>\<open>target\<close> of a block that is not there panics.\<close>

definition jump_line :: "(nat \<Rightarrow> string option) \<Rightarrow> string \<Rightarrow> nat \<Rightarrow> u32 \<Rightarrow> (pma_line \<times> u32) list option" where
  "jump_line names m i l = map_option (\<lambda>n. [(InstrLine m n, l)]) (names i)"

fun term_lines ::
  "ir_function \<Rightarrow> (nat \<Rightarrow> string option) \<Rightarrow> nat option \<Rightarrow> ir_term \<Rightarrow> u32 \<Rightarrow> (pma_line \<times> u32) list option" where
  "term_lines f names next (FallThrough i) l =
     (if next \<noteq> Some i then jump_line names ''jmp'' i l else Some [])"
| "term_lines f names next (Goto i) l =
     (if next \<noteq> Some i then jump_line names ''jmp'' i l else Some [])"
| "term_lines f names next (Check m b) l =
     (if next = Some b then jump_line names ''jm'' m l
      else if next = Some m then jump_line names ''jnm'' b l
      else
        Option.bind (jump_line names ''jm'' m l)
          (\<lambda>xs. map_option ((@) xs) (jump_line names ''jmp'' b l)))"
| "term_lines f names next Return l =
     Some [(InstrLine (if fn_name f = ''main'' then ''stp'' else ''ret'') '''', l)]"
| "term_lines f names next Halt l = Some [(InstrLine ''hlt'' '''', l)]"
| "term_lines f names next (TailCall n) l = Some [(InstrLine ''jmp'' (''@'' @ n), l)]"

fun block_lines ::
  "codegen_options \<Rightarrow> ir_function \<Rightarrow> (nat \<Rightarrow> string option) \<Rightarrow> nat set \<Rightarrow> ir_block list
     \<Rightarrow> (pma_line \<times> u32) list option" where
  "block_lines o' f names refs [] = Some []"
| "block_lines o' f names refs (b # bs) =
     Option.bind (term_lines f names (next_id bs) (b_term b) (b_term_line b)) (\<lambda>ts.
       map_option (\<lambda>rest. label_lines refs b @ concat (map (op_lines o') (b_ops b)) @ ts @ rest)
         (block_lines o' f names refs bs))"

definition function_lines :: "codegen_options \<Rightarrow> ir_function \<Rightarrow> (pma_line \<times> u32) list option" where
  "function_lines o' f =
     map_option ((#) (FuncLine (fn_name f) (fn_local f), fn_line f))
       (block_lines o' f (block_names f) (referenced (fn_blocks f)) (fn_blocks f))"

definition push_line :: "pma_line \<times> u32 \<Rightarrow> emitter \<Rightarrow> emitter" where
  "push_line x e = em_push (line_text (fst x)) (snd x) e"

definition emit_function :: "ir_function \<Rightarrow> codegen_options \<Rightarrow> emitter \<Rightarrow> emitter option" where
  "emit_function f o' e = map_option (\<lambda>xs. fold push_line xs e) (function_lines o' f)"

section \<open>Programs\<close>

fun emit_functions :: "ir_function list \<Rightarrow> codegen_options \<Rightarrow> emitter \<Rightarrow> emitter option" where
  "emit_functions [] o' e = Some e"
| "emit_functions (f # fs) o' e = Option.bind (emit_function f o' e) (emit_functions fs o')"

definition join_lines :: "string list \<Rightarrow> string" where
  "join_lines ls = concat (map (\<lambda>l. l @ [CHR 0x0A]) (butlast ls)) @ (if ls = [] then [] else last ls)"

definition emit_program :: "ir_program \<Rightarrow> codegen_options \<Rightarrow> pma_output option" where
  "emit_program ir o' =
     map_option
       (\<lambda>e. \<lparr>po_text = join_lines (em_lines e) @ [CHR 0x0A], po_line_map = em_line_map e\<rparr>)
       (emit_functions (ir_functions ir) o' \<lparr>em_lines = [], em_line_map = []\<rparr>)"

end
