(* ===== verification/Ir_Semantics.thy ===== *)
theory Ir_Semantics
  imports Pm_Ir Bus
begin

text \<open>
  What a program in the intermediate representation does: the specification the optimizer passes are
  measured against (the equivalence contract of \<open>crates/post-machine/src/optimizer/mod.rs\<close>). The tape
  is any device: its four operations may fault and may change its state in any way, so that a device
  which records its transactions makes the whole access sequence part of the final state. A run ends
  with the machine's termination kind and final state, the states seen at every \<open>brk\<close> included; the
  return stack has no bound, as the contract leaves resource traps out.

  The semantics is given twice: as a big-step relation, for the proofs, and as an interpreter, which
  computes; \<open>interp_exec\<close> says they agree, non-termination included.
\<close>

declare split_paired_Ex [simp del] split_paired_All [simp del]

section \<open>Devices and states\<close>

record 'd device =
  d_left :: "'d \<Rightarrow> (device_fault \<times> 'd) + 'd"
  d_right :: "'d \<Rightarrow> (device_fault \<times> 'd) + 'd"
  d_write :: "u32 \<Rightarrow> 'd \<Rightarrow> (device_fault \<times> 'd) + 'd"
  d_read :: "'d \<Rightarrow> (device_fault \<times> 'd) + (u32 \<times> 'd)"

text \<open>The tape, the match flag, and what a debugger has seen at the breakpoints so far.\<close>

record 'd ir_state =
  s_dev :: 'd
  s_mf :: bool
  s_seen :: "('d \<times> bool) list"

type_synonym 'd answer = "(device_fault \<times> 'd ir_state) + 'd ir_state"

fun on_ok :: "'e + 'a \<Rightarrow> ('a \<Rightarrow> 'e + 'b) \<Rightarrow> 'e + 'b" where
  "on_ok (Inl e) k = Inl e"
| "on_ok (Inr x) k = k x"

lemma on_ok_assoc: "on_ok (on_ok x f) g = on_ok x (\<lambda>y. on_ok (f y) g)"
  by (cases x) simp_all

definition touch :: "('d \<Rightarrow> (device_fault \<times> 'd) + 'd) \<Rightarrow> 'd ir_state \<Rightarrow> 'd answer" where
  "touch g s =
     (case g (s_dev s) of
        Inl (e, d) \<Rightarrow> Inl (e, s\<lparr>s_dev := d\<rparr>)
      | Inr d \<Rightarrow> Inr (s\<lparr>s_dev := d\<rparr>))"

text \<open>Every tape instruction ends by latching the match flag from the cell under the head.\<close>

definition latch_cell :: "'d device \<Rightarrow> 'd ir_state \<Rightarrow> 'd answer" where
  "latch_cell D s =
     (case d_read D (s_dev s) of
        Inl (e, d) \<Rightarrow> Inl (e, s\<lparr>s_dev := d\<rparr>)
      | Inr (v, d) \<Rightarrow> Inr (s\<lparr>s_dev := d, s_mf := (v = 1)\<rparr>))"

fun act :: "'d device \<Rightarrow> ir_op \<Rightarrow> 'd ir_state \<Rightarrow> 'd answer" where
  "act D (Lft l) s = on_ok (touch (d_left D) s) (latch_cell D)"
| "act D (Rgt l) s = on_ok (touch (d_right D) s) (latch_cell D)"
| "act D (Wr i l) s = on_ok (touch (d_write D i) s) (latch_cell D)"
| "act D (WrLft i l) s =
     on_ok (on_ok (touch (d_write D i) s) (touch (d_left D))) (latch_cell D)"
| "act D (WrRgt i l) s =
     on_ok (on_ok (touch (d_write D i) s) (touch (d_right D))) (latch_cell D)"
| "act D (Brk l) s = Inr (s\<lparr>s_seen := s_seen s @ [(s_dev s, s_mf s)]\<rparr>)"
| "act D (Call n l) s = Inr s"

fun called :: "ir_op \<Rightarrow> string option" where
  "called (Call n l) = Some n"
| "called op = None"

text \<open>Where a terminator goes on, given the match flag; the name it jumps to; how it ends.\<close>

fun goes :: "ir_term \<Rightarrow> bool \<Rightarrow> nat option" where
  "goes (FallThrough i) mf = Some i"
| "goes (Goto i) mf = Some i"
| "goes (Check m b) mf = Some (if mf then m else b)"
| "goes t mf = None"

fun tail_callee :: "ir_term \<Rightarrow> string option" where
  "tail_callee (TailCall n) = Some n"
| "tail_callee t = None"

datatype 'd result =
    Back "'d ir_state"
  | Stops "'d ir_state"
  | Halts "'d ir_state"
  | Faults device_fault "'d ir_state"

fun leaves :: "ir_function \<Rightarrow> ir_term \<Rightarrow> 'd ir_state \<Rightarrow> 'd result option" where
  "leaves f Return s = Some (if fn_name f = ''main'' then Stops s else Back s)"
| "leaves f Halt s = Some (Halts s)"
| "leaves f t s = None"

lemma term_kinds:
  "(\<exists>i. goes t mf = Some i) \<and> tail_callee t = None \<and> leaves f t s = None
   \<or> (\<exists>n. t = TailCall n \<and> goes t mf = None \<and> leaves f t s = None)
   \<or> (\<exists>r. leaves f t s = Some r) \<and> goes t mf = None \<and> tail_callee t = None"
  by (cases t) simp_all

lemma goes_targets: "goes t mf = Some i \<Longrightarrow> i \<in> set (targets t)"
  by (cases t) (auto split: if_splits)

lemma goes_retarget [simp]: "goes (retarget g t) mf = map_option g (goes t mf)"
  by (cases t) simp_all

lemma tail_callee_retarget [simp]: "tail_callee (retarget g t) = tail_callee t"
  by (cases t) simp_all

lemma leaves_retarget [simp]: "leaves f (retarget g t) = leaves f t"
  by (cases t) (auto simp: fun_eq_iff)

lemma leaves_name: "fn_name f = fn_name f' \<Longrightarrow> leaves f t s = leaves f' t s"
  by (cases t) simp_all

section \<open>Programs and points\<close>

text \<open>A linked program: what every name stands for.\<close>

type_synonym linkage = "string \<Rightarrow> ir_function option"

type_synonym point = "ir_op list \<times> ir_term"

definition point_of :: "ir_block \<Rightarrow> point" where
  "point_of b = (b_ops b, b_term b)"

lemma point_of_parts [simp]: "fst (point_of b) = b_ops b" "snd (point_of b) = b_term b"
  by (simp_all add: point_of_def)

definition entry_point :: "ir_function \<Rightarrow> point option" where
  "entry_point f = (case fn_blocks f of [] \<Rightarrow> None | b # bs \<Rightarrow> Some (point_of b))"

definition callee_of :: "linkage \<Rightarrow> string \<Rightarrow> (ir_function \<times> point) option" where
  "callee_of E n =
     (case E n of
        None \<Rightarrow> None
      | Some g \<Rightarrow> map_option (Pair g) (entry_point g))"

lemma callee_of_Some: "callee_of E n = Some (g, p) \<longleftrightarrow> E n = Some g \<and> entry_point g = Some p"
  by (cases p) (auto simp: callee_of_def split: option.splits)

section \<open>The interpreter\<close>

partial_function (option) interp ::
  "'d device \<Rightarrow> linkage \<Rightarrow> ir_function \<Rightarrow> point \<Rightarrow> 'd ir_state \<Rightarrow> 'd result option" where
  "interp D E f p s =
     (case fst p of
        op # ops \<Rightarrow>
          (case called op of
             Some n \<Rightarrow>
               (case callee_of E n of
                  None \<Rightarrow> None
                | Some (g, q) \<Rightarrow>
                    Option.bind (interp D E g q s)
                      (\<lambda>r. case r of Back s' \<Rightarrow> interp D E f (ops, snd p) s' | _ \<Rightarrow> Some r))
           | None \<Rightarrow>
               (case act D op s of
                  Inl (e, s') \<Rightarrow> Some (Faults e s')
                | Inr s' \<Rightarrow> interp D E f (ops, snd p) s'))
      | [] \<Rightarrow>
          (case goes (snd p) (s_mf s) of
             Some i \<Rightarrow>
               (case block_at f i of
                  None \<Rightarrow> None
                | Some b \<Rightarrow> interp D E f (point_of b) s)
           | None \<Rightarrow>
               (case tail_callee (snd p) of
                  Some n \<Rightarrow>
                    (case callee_of E n of
                       None \<Rightarrow> None
                     | Some (g, q) \<Rightarrow> interp D E g q s)
                | None \<Rightarrow> leaves f (snd p) s)))"

declare interp.simps [code]

text \<open>Running the function of a name.\<close>

definition run_fn :: "'d device \<Rightarrow> linkage \<Rightarrow> string \<Rightarrow> 'd ir_state \<Rightarrow> 'd result option" where
  "run_fn D E n s =
     (case callee_of E n of
        None \<Rightarrow> None
      | Some (g, q) \<Rightarrow> interp D E g q s)"

section \<open>The relation\<close>

inductive exec ::
  "'d device \<Rightarrow> linkage \<Rightarrow> ir_function \<Rightarrow> point \<Rightarrow> 'd ir_state \<Rightarrow> 'd result \<Rightarrow> bool"
  for D :: "'d device" and E :: linkage where
  exec_act: "\<lbrakk>called op = None; act D op s = Inr s'; exec D E f (ops, t) s' r\<rbrakk>
    \<Longrightarrow> exec D E f (op # ops, t) s r"
| exec_fault: "\<lbrakk>called op = None; act D op s = Inl (e, s')\<rbrakk>
    \<Longrightarrow> exec D E f (op # ops, t) s (Faults e s')"
| exec_call: "\<lbrakk>called op = Some n; callee_of E n = Some (g, q); exec D E g q s (Back s');
      exec D E f (ops, t) s' r\<rbrakk>
    \<Longrightarrow> exec D E f (op # ops, t) s r"
| exec_call_ends: "\<lbrakk>called op = Some n; callee_of E n = Some (g, q); exec D E g q s r; \<forall>s'. r \<noteq> Back s'\<rbrakk>
    \<Longrightarrow> exec D E f (op # ops, t) s r"
| exec_goes: "\<lbrakk>goes t (s_mf s) = Some i; block_at f i = Some b; exec D E f (point_of b) s r\<rbrakk>
    \<Longrightarrow> exec D E f ([], t) s r"
| exec_tail: "\<lbrakk>tail_callee t = Some n; callee_of E n = Some (g, q); exec D E g q s r\<rbrakk>
    \<Longrightarrow> exec D E f ([], t) s r"
| exec_leaves: "leaves f t s = Some r \<Longrightarrow> exec D E f ([], t) s r"

text \<open>What a call of a name comes to.\<close>

definition calls :: "'d device \<Rightarrow> linkage \<Rightarrow> string \<Rightarrow> 'd ir_state \<Rightarrow> 'd result \<Rightarrow> bool" where
  "calls D E n s r \<longleftrightarrow> (\<exists>g q. callee_of E n = Some (g, q) \<and> exec D E g q s r)"

lemma interp_sound: "interp D E f p s = Some r \<Longrightarrow> exec D E f p s r"
proof (induction rule: interp.raw_induct [rotated -1, consumes 1, case_names step])
  case (step rec D E f p s r)
  obtain ops t where p: "p = (ops, t)" by (cases p)
  show ?case
  proof (cases ops)
    case (Cons op rest)
    show ?thesis
    proof (cases "called op")
      case None
      then show ?thesis using step p Cons
        by (auto split: sum.splits prod.splits intro: exec_act exec_fault)
    next
      case (Some n)
      then obtain g q r1 where g: "callee_of E n = Some (g, q)" "rec D E g q s = Some r1"
        and r: "(case r1 of Back s' \<Rightarrow> rec D E f (rest, t) s' | _ \<Rightarrow> Some r1) = Some r"
        using step(2) unfolding p Cons fst_conv snd_conv list.case Some option.case
        by (auto split: option.splits bind_splits)
      have "exec D E g q s r1" by (rule step(1) [OF g(2)])
      then have sub: "exec D E g q s r1" .
      show ?thesis
      proof (cases "\<exists>s'. r1 = Back s'")
        case True
        then obtain s' where s': "r1 = Back s'" by blast
        then have "exec D E f (rest, t) s' r" using r step(1) by simp
        then show ?thesis using exec_call [OF Some g(1)] sub s' p Cons by simp
      next
        case False
        then have "r1 = r" using r by (cases r1) simp_all
        then show ?thesis using exec_call_ends [OF Some g(1) sub] False p Cons by simp
      qed
    qed
  next
    case Nil
    then show ?thesis using step(2) p
      by (auto split: option.splits
          intro: exec_goes [OF _ _ step(1)] exec_tail [OF _ _ step(1)] exec_leaves)
  qed
qed

lemma interp_complete: "exec D E f p s r \<Longrightarrow> interp D E f p s = Some r"
proof (induction rule: exec.induct)
  case (exec_call op n g q s s' f ops t r)
  then show ?case by (subst interp.simps) simp
next
  case (exec_call_ends op n g q s r f ops t)
  then show ?case by (subst interp.simps) (simp split: result.splits)
next
  case (exec_tail t n g q s r f)
  then have "goes t (s_mf s) = None" by (cases t) simp_all
  then show ?case using exec_tail by (subst interp.simps) simp
next
  case (exec_leaves f t s r)
  then show ?case by (subst interp.simps) (cases t; simp)
qed (subst interp.simps, simp)+

lemma interp_exec: "interp D E f p s = Some r \<longleftrightarrow> exec D E f p s r"
  using interp_sound interp_complete by blast

lemma exec_deterministic: "exec D E f p s r \<Longrightarrow> exec D E f p s r' \<Longrightarrow> r = r'"
  using interp_complete [of D E f p s r] interp_complete [of D E f p s r'] by simp

lemma run_fn_calls: "run_fn D E n s = Some r \<longleftrightarrow> calls D E n s r"
  by (auto simp: run_fn_def calls_def interp_exec split: option.splits)

text \<open>Equal behaviour of all calls, divergence included, is equality of \<open>run_fn\<close>.\<close>

lemma run_fn_eqI: "(\<And>r. calls D E n s r \<longleftrightarrow> calls D E' n s r) \<Longrightarrow> run_fn D E n s = run_fn D E' n s"
  by (rule option.expand) (metis option.exhaust_sel run_fn_calls option.sel not_None_eq)+

end
