(* ===== verification/Pma_Semantics.thy ===== *)
theory Pma_Semantics
  imports Pmc_Codegen Ir_Semantics
begin

text \<open>
  What generated assembly does: the meaning of the lines of \<open>Pmc_Codegen\<close> under the instruction set of
  PM-1, on any device. A function's code is the list of lines up to the next \<open>.func\<close>; the program point
  is the list of lines still to come. As in \<open>Ir_Semantics\<close> there are an interpreter and a relation.
\<close>

section \<open>Numbers read back\<close>

definition digit_value :: "char \<Rightarrow> nat option" where
  "digit_value c =
     (let v = of_char c in if 48 \<le> v \<and> v \<le> 57 then Some (v - 48) else None)"

fun read_digits :: "nat \<Rightarrow> string \<Rightarrow> nat option" where
  "read_digits acc [] = Some acc"
| "read_digits acc (c # cs) = Option.bind (digit_value c) (\<lambda>d. read_digits (10 * acc + d) cs)"

definition read_u32 :: "string \<Rightarrow> u32 option" where
  "read_u32 s = map_option of_nat (read_digits 0 s)"

lemma digit_cases: "d < 10 \<Longrightarrow> d \<in> {0, 1, 2, 3, 4, 5, 6, 7, 8, 9 :: nat}"
  by (simp; arith)

lemma digit_value_char: "d < 10 \<Longrightarrow> digit_value (digit_char d) = Some d"
  by (drule digit_cases) (elim insertE emptyE; simp add: digit_value_def digit_char_def of_char_def)

lemma read_digits_append:
  "read_digits acc (xs @ ys) = Option.bind (read_digits acc xs) (\<lambda>a. read_digits a ys)"
  by (induction xs arbitrary: acc) (auto split: bind_splits simp: bind_eq_None_conv)

lemma read_show_nat: "read_digits 0 (show_nat n) = Some n"
proof (induction n rule: show_nat.induct)
  case (1 n)
  then show ?case
    by (subst show_nat.simps) (auto simp: read_digits_append digit_value_char)
qed

lemma show_nat_inj: "show_nat m = show_nat n \<longleftrightarrow> m = n"
  by (metis read_show_nat option.inject)

lemma read_show_u32 [simp]: "read_u32 (show_u32 w) = Some w"
  by (simp add: read_u32_def show_u32_def read_show_nat)

lemma show_u32_inj: "show_u32 v = show_u32 w \<longleftrightarrow> v = w"
  by (metis read_show_u32 option.inject)

section \<open>Instructions\<close>

text \<open>What an instruction line does; operations are those of the intermediate representation.\<close>

datatype pma_instr =
    PDo ir_op
  | PJump string
  | PIf bool string
  | PTail string
  | PStop
  | PRet
  | PHalt

fun pma_jump :: "string \<Rightarrow> pma_instr" where
  "pma_jump oper = (case oper of c # n \<Rightarrow> if c = CHR ''@'' then PTail n else PJump oper | [] \<Rightarrow> PJump oper)"

definition pma_decode :: "string \<Rightarrow> string \<Rightarrow> pma_instr option" where
  "pma_decode m oper =
     (if m = ''lft'' then Some (PDo (Lft 0))
      else if m = ''rgt'' then Some (PDo (Rgt 0))
      else if m = ''wr'' then map_option (\<lambda>i. PDo (Wr i 0)) (read_u32 oper)
      else if m = ''wrl'' then map_option (\<lambda>i. PDo (WrLft i 0)) (read_u32 oper)
      else if m = ''wrr'' then map_option (\<lambda>i. PDo (WrRgt i 0)) (read_u32 oper)
      else if m = ''brk'' then Some (PDo (Brk 0))
      else if m = ''call'' then Some (PDo (Call oper 0))
      else if m = ''jmp'' then Some (pma_jump oper)
      else if m = ''jm'' then Some (PIf True oper)
      else if m = ''jnm'' then Some (PIf False oper)
      else if m = ''stp'' then Some PStop
      else if m = ''ret'' then Some PRet
      else if m = ''hlt'' then Some PHalt
      else None)"

section \<open>Programs\<close>

type_synonym pma_code = "pma_line list"

type_synonym pma_linkage = "string \<Rightarrow> pma_code option"

text \<open>The lines after the first label of a name.\<close>

definition after_label :: "string \<Rightarrow> pma_code \<Rightarrow> pma_code option" where
  "after_label l code =
     (case dropWhile (\<lambda>x. x \<noteq> LabelLine l) code of [] \<Rightarrow> None | x # xs \<Rightarrow> Some xs)"

fun is_func :: "pma_line \<Rightarrow> bool" where
  "is_func (FuncLine n loc) \<longleftrightarrow> True"
| "is_func x \<longleftrightarrow> False"

text \<open>The functions of a listing: the first \<open>.func\<close> of a name and the lines up to the next.\<close>

fun code_of :: "pma_line list \<Rightarrow> pma_linkage" where
  "code_of [] n = None"
| "code_of (FuncLine m loc # xs) n = (if m = n then Some (takeWhile (\<lambda>x. \<not> is_func x) xs) else code_of xs n)"
| "code_of (x # xs) n = code_of xs n"

definition pma_linked :: "pma_linkage \<Rightarrow> pma_line list \<Rightarrow> pma_linkage" where
  "pma_linked rest xs n = (case code_of xs n of Some c \<Rightarrow> Some c | None \<Rightarrow> rest n)"

section \<open>Runs\<close>

partial_function (option) pma_interp ::
  "'d device \<Rightarrow> pma_linkage \<Rightarrow> pma_code \<Rightarrow> pma_code \<Rightarrow> 'd ir_state \<Rightarrow> 'd result option" where
  "pma_interp D E code p s =
     (case p of
        [] \<Rightarrow> None
      | x # q \<Rightarrow>
          (case x of
             FuncLine n loc \<Rightarrow> None
           | LabelLine l \<Rightarrow> pma_interp D E code q s
           | InstrLine m oper \<Rightarrow>
               (case pma_decode m oper of
                  None \<Rightarrow> None
                | Some (PDo op) \<Rightarrow>
                    (case called op of
                       Some n \<Rightarrow>
                         (case E n of
                            None \<Rightarrow> None
                          | Some c \<Rightarrow>
                              Option.bind (pma_interp D E c c s)
                                (\<lambda>r. case r of Back s' \<Rightarrow> pma_interp D E code q s' | _ \<Rightarrow> Some r))
                     | None \<Rightarrow>
                         (case act D op s of
                            Inl (e, s') \<Rightarrow> Some (Faults e s')
                          | Inr s' \<Rightarrow> pma_interp D E code q s'))
                | Some (PJump l) \<Rightarrow>
                    (case after_label l code of None \<Rightarrow> None | Some q' \<Rightarrow> pma_interp D E code q' s)
                | Some (PIf b l) \<Rightarrow>
                    (if s_mf s = b then
                       (case after_label l code of None \<Rightarrow> None | Some q' \<Rightarrow> pma_interp D E code q' s)
                     else pma_interp D E code q s)
                | Some (PTail n) \<Rightarrow> (case E n of None \<Rightarrow> None | Some c \<Rightarrow> pma_interp D E c c s)
                | Some PStop \<Rightarrow> Some (Stops s)
                | Some PRet \<Rightarrow> Some (Back s)
                | Some PHalt \<Rightarrow> Some (Halts s))))"

declare pma_interp.simps [code]

definition pma_run :: "'d device \<Rightarrow> pma_linkage \<Rightarrow> string \<Rightarrow> 'd ir_state \<Rightarrow> 'd result option" where
  "pma_run D E n s = (case E n of None \<Rightarrow> None | Some c \<Rightarrow> pma_interp D E c c s)"

inductive pma_exec ::
  "'d device \<Rightarrow> pma_linkage \<Rightarrow> pma_code \<Rightarrow> pma_code \<Rightarrow> 'd ir_state \<Rightarrow> 'd result \<Rightarrow> bool"
  for D :: "'d device" and E :: pma_linkage where
  pma_label: "pma_exec D E code q s r \<Longrightarrow> pma_exec D E code (LabelLine l # q) s r"
| pma_act: "\<lbrakk>pma_decode m oper = Some (PDo op); called op = None; act D op s = Inr s';
      pma_exec D E code q s' r\<rbrakk> \<Longrightarrow> pma_exec D E code (InstrLine m oper # q) s r"
| pma_fault: "\<lbrakk>pma_decode m oper = Some (PDo op); called op = None; act D op s = Inl (e, s')\<rbrakk>
    \<Longrightarrow> pma_exec D E code (InstrLine m oper # q) s (Faults e s')"
| pma_call: "\<lbrakk>pma_decode m oper = Some (PDo op); called op = Some n; E n = Some c;
      pma_exec D E c c s (Back s'); pma_exec D E code q s' r\<rbrakk>
    \<Longrightarrow> pma_exec D E code (InstrLine m oper # q) s r"
| pma_call_ends: "\<lbrakk>pma_decode m oper = Some (PDo op); called op = Some n; E n = Some c;
      pma_exec D E c c s r; \<forall>s'. r \<noteq> Back s'\<rbrakk>
    \<Longrightarrow> pma_exec D E code (InstrLine m oper # q) s r"
| pma_jumps: "\<lbrakk>pma_decode m oper = Some (PJump l) \<or> pma_decode m oper = Some (PIf (s_mf s) l);
      after_label l code = Some q'; pma_exec D E code q' s r\<rbrakk>
    \<Longrightarrow> pma_exec D E code (InstrLine m oper # q) s r"
| pma_passes: "\<lbrakk>pma_decode m oper = Some (PIf (\<not> s_mf s) l); pma_exec D E code q s r\<rbrakk>
    \<Longrightarrow> pma_exec D E code (InstrLine m oper # q) s r"
| pma_tail: "\<lbrakk>pma_decode m oper = Some (PTail n); E n = Some c; pma_exec D E c c s r\<rbrakk>
    \<Longrightarrow> pma_exec D E code (InstrLine m oper # q) s r"
| pma_stop: "pma_decode m oper = Some PStop \<Longrightarrow> pma_exec D E code (InstrLine m oper # q) s (Stops s)"
| pma_ret: "pma_decode m oper = Some PRet \<Longrightarrow> pma_exec D E code (InstrLine m oper # q) s (Back s)"
| pma_halt: "pma_decode m oper = Some PHalt \<Longrightarrow> pma_exec D E code (InstrLine m oper # q) s (Halts s)"

lemma pma_interp_complete: "pma_exec D E code p s r \<Longrightarrow> pma_interp D E code p s = Some r"
proof (induction rule: pma_exec.induct)
  case (pma_call_ends m oper op n c s r code q)
  then show ?case by (subst pma_interp.simps) (simp split: result.splits)
next
  case (pma_jumps m oper l s code q' r q)
  then show ?case by (subst pma_interp.simps) auto
qed (subst pma_interp.simps, simp)+

lemma pma_interp_sound: "pma_interp D E code p s = Some r \<Longrightarrow> pma_exec D E code p s r"
proof (induction rule: pma_interp.raw_induct [rotated -1, consumes 1, case_names step])
  case (step rec D E code p s r)
  show ?case
  proof (cases p)
    case Nil
    then show ?thesis using step(2) by simp
  next
    case p: (Cons x q)
    show ?thesis
    proof (cases x)
      case (InstrLine m oper)
      then obtain i where i: "pma_decode m oper = Some i" using step(2) p by (auto split: option.splits)
      show ?thesis
      proof (cases i)
        case (PDo op)
        show ?thesis
        proof (cases "called op")
          case None
          then show ?thesis using step(2) p InstrLine i PDo
            by (auto split: sum.splits prod.splits intro: pma_fault pma_act [OF _ _ _ step(1)])
        next
          case (Some n)
          then obtain c r1 where c: "E n = Some c" "rec D E c c s = Some r1"
            and r: "(case r1 of Back s' \<Rightarrow> rec D E code q s' | _ \<Rightarrow> Some r1) = Some r"
            using step(2) p InstrLine i PDo by (auto split: option.splits bind_splits)
          have sub: "pma_exec D E c c s r1" by (rule step(1) [OF c(2)])
          show ?thesis
          proof (cases "\<exists>s'. r1 = Back s'")
            case True
            then obtain s' where "r1 = Back s'" by blast
            then show ?thesis using pma_call [of m oper op n E c D s s' code q r] i PDo Some c(1) sub r step(1) p InstrLine
              by simp
          next
            case False
            then have "r1 = r" using r by (cases r1) simp_all
            then show ?thesis using pma_call_ends [of m oper op n E c D s r code q] i PDo Some c(1) sub False p InstrLine
              by simp
          qed
        qed
      next
        case (PJump l)
        then show ?thesis using step(2) p InstrLine i
          by (auto split: option.splits intro: pma_jumps [OF _ _ step(1)])
      next
        case (PIf b l)
        then show ?thesis using step(2) p InstrLine i
          by (auto split: option.splits if_splits intro: pma_jumps [OF _ _ step(1)] pma_passes [OF _ step(1)])
      next
        case (PTail n)
        then show ?thesis using step(2) p InstrLine i
          by (auto split: option.splits intro: pma_tail [OF _ _ step(1)])
      qed (use step(2) p InstrLine i in \<open>auto intro: pma_stop pma_ret pma_halt\<close>)
    qed (use step p in \<open>auto intro: pma_label\<close>)
  qed
qed

lemma pma_run_exec: "pma_run D E n s = Some r \<longleftrightarrow> (\<exists>c. E n = Some c \<and> pma_exec D E c c s r)"
  using pma_interp_sound pma_interp_complete by (fastforce simp: pma_run_def split: option.splits)

end
