(* ===== verification/Ir_Simulation.thy ===== *)
theory Ir_Simulation
  imports Ir_Semantics
begin

text \<open>
  The proof principle of the optimizer passes. A run is cut into steps within one function, a call
  being one step; a pass is correct if every step of the program before it is matched by steps of
  the program after it, and the other way round. \<open>simulation\<close> turns such a step-by-step match of one
  transformed function into a statement about all calls of the linked program, in which any set of
  functions may have been transformed and recursion goes through the transformed ones.
\<close>

section \<open>Steps within a function\<close>

inductive istep ::
  "'d device \<Rightarrow> (string \<Rightarrow> 'd ir_state \<Rightarrow> 'd result \<Rightarrow> bool) \<Rightarrow> ir_function \<Rightarrow> point \<Rightarrow> 'd ir_state
     \<Rightarrow> 'd result + point \<times> 'd ir_state \<Rightarrow> bool"
  for D :: "'d device" and C :: "string \<Rightarrow> 'd ir_state \<Rightarrow> 'd result \<Rightarrow> bool" and f :: ir_function where
  istep_act: "called op = None \<Longrightarrow> act D op s = Inr s' \<Longrightarrow> istep D C f (op # ops, t) s (Inr ((ops, t), s'))"
| istep_fault: "called op = None \<Longrightarrow> act D op s = Inl (e, s') \<Longrightarrow> istep D C f (op # ops, t) s (Inl (Faults e s'))"
| istep_call: "called op = Some n \<Longrightarrow> C n s (Back s') \<Longrightarrow> istep D C f (op # ops, t) s (Inr ((ops, t), s'))"
| istep_call_ends: "called op = Some n \<Longrightarrow> C n s r \<Longrightarrow> \<forall>s'. r \<noteq> Back s' \<Longrightarrow> istep D C f (op # ops, t) s (Inl r)"
| istep_goes: "goes t (s_mf s) = Some i \<Longrightarrow> block_at f i = Some b \<Longrightarrow> istep D C f ([], t) s (Inr (point_of b, s))"
| istep_tail: "tail_callee t = Some n \<Longrightarrow> C n s r \<Longrightarrow> istep D C f ([], t) s (Inl r)"
| istep_leaves: "leaves f t s = Some r \<Longrightarrow> istep D C f ([], t) s (Inl r)"

inductive_cases istep_opE: "istep D C f (op # ops, t) s x"
inductive_cases istep_termE: "istep D C f ([], t) s x"

lemma istep_TailCall: "C n s r \<Longrightarrow> istep D C f ([], TailCall n) s (Inl r)"
  by (rule istep_tail [of _ n]) simp_all

lemma istep_Call:
  "C n s (Back s') \<Longrightarrow> istep D C f (Call n l # ops, t) s (Inr ((ops, t), s'))"
  "C n s r \<Longrightarrow> \<forall>s'. r \<noteq> Back s' \<Longrightarrow> istep D C f (Call n l # ops, t) s (Inl r)"
  by (rule istep_call [of _ n] istep_call_ends [of _ n]; simp)+

lemma istep_to:
  "block_at f i = Some b \<Longrightarrow> istep D C f ([], Goto i) s (Inr (point_of b, s))"
  "block_at f i = Some b \<Longrightarrow> istep D C f ([], FallThrough i) s (Inr (point_of b, s))"
  by (rule istep_goes [of _ _ i]; simp)+

lemma istep_mono:
  assumes "istep D C f p s x" "\<And>n r. C n s r \<Longrightarrow> C' n s r"
  shows "istep D C' f p s x"
  using assms(1) by cases (auto intro: istep.intros assms(2))

lemma exec_end: "istep D (calls D E) f p s (Inl r) \<Longrightarrow> exec D E f p s r"
  by (cases rule: istep.cases, assumption)
    (auto simp: calls_def intro: exec_fault exec_call_ends exec_tail exec_leaves)

lemma exec_step: "istep D (calls D E) f p s (Inr (p', s')) \<Longrightarrow> exec D E f p' s' r \<Longrightarrow> exec D E f p s r"
  by (cases rule: istep.cases, assumption) (auto simp: calls_def intro: exec_act exec_call exec_goes)

definition reach ::
  "'d device \<Rightarrow> linkage \<Rightarrow> ir_function \<Rightarrow> point \<Rightarrow> 'd ir_state \<Rightarrow> point \<Rightarrow> 'd ir_state \<Rightarrow> bool" where
  "reach D E f p s p' s' \<longleftrightarrow>
     (\<lambda>(p, s) (p', s'). istep D (calls D E) f p s (Inr (p', s')))\<^sup>*\<^sup>* (p, s) (p', s')"

lemma reach_refl [simp, intro]: "reach D E f p s p s"
  by (simp add: reach_def)

lemma reach_step: "istep D (calls D E) f p s (Inr (p', s')) \<Longrightarrow> reach D E f p s p' s'"
  by (simp add: reach_def r_into_rtranclp)

lemma reach_trans: "reach D E f p s p' s' \<Longrightarrow> reach D E f p' s' p'' s'' \<Longrightarrow> reach D E f p s p'' s''"
  unfolding reach_def by (rule rtranclp_trans)

lemma reach_next: "istep D (calls D E) f p s (Inr (p', s')) \<Longrightarrow> reach D E f p' s' p'' s'' \<Longrightarrow> reach D E f p s p'' s''"
  by (rule reach_trans [OF reach_step])

lemma exec_reach:
  assumes "reach D E f p s p' s'" "exec D E f p' s' r"
  shows "exec D E f p s r"
proof -
  have "exec D E f (fst q) (snd q) r"
    if "(\<lambda>(p, s) (p', s'). istep D (calls D E) f p s (Inr (p', s')))\<^sup>*\<^sup>* q (p', s')" for q
    using that
    by (induction rule: converse_rtranclp_induct) (auto intro: assms(2) exec_step)
  then show ?thesis using assms(1) by (fastforce simp: reach_def)
qed

section \<open>Matching a step\<close>

definition matched ::
  "'d device \<Rightarrow> linkage \<Rightarrow> (point \<Rightarrow> 'd ir_state \<Rightarrow> point \<Rightarrow> 'd ir_state \<Rightarrow> bool) \<Rightarrow> ir_function
     \<Rightarrow> point \<Rightarrow> 'd ir_state \<Rightarrow> 'd result + point \<times> 'd ir_state \<Rightarrow> bool" where
  "matched D E K f p s x \<longleftrightarrow>
     (case x of
        Inl r \<Rightarrow> exec D E f p s r
      | Inr (p1, s1) \<Rightarrow> \<exists>p1' s1'. reach D E f p s p1' s1' \<and> K p1 s1 p1' s1')"

lemma matched_end: "istep D (calls D E) f p s (Inl r) \<Longrightarrow> matched D E K f p s (Inl r)"
  by (simp add: matched_def exec_end)

lemma matched_exec: "exec D E f p s r \<Longrightarrow> matched D E K f p s (Inl r)"
  by (simp add: matched_def)

lemma matched_stay: "K p1 s1 p s \<Longrightarrow> matched D E K f p s (Inr (p1, s1))"
  unfolding matched_def sum.case prod.case using reach_refl by blast

lemma matched_step:
  "istep D (calls D E) f p s (Inr (p1', s1')) \<Longrightarrow> K p1 s1 p1' s1' \<Longrightarrow> matched D E K f p s (Inr (p1, s1))"
  unfolding matched_def sum.case prod.case by (intro exI conjI reach_step)

lemma matched_same:
  assumes "istep D (calls D E) f p s x" "\<And>p1 s1. K p1 s1 p1 s1"
  shows "matched D E K f p s x"
proof (cases x)
  case (Inr y)
  obtain p1 s1 where "y = (p1, s1)" by (cases y)
  then show ?thesis using Inr assms matched_step [of D E f p s p1 s1 K p1 s1] by simp
qed (use assms(1) in \<open>simp add: matched_end\<close>)

lemma matched_mono:
  "matched D E K f p s x \<Longrightarrow> (\<And>p1 s1 p2 s2. K p1 s1 p2 s2 \<Longrightarrow> L p1 s1 p2 s2) \<Longrightarrow> matched D E L f p s x"
  unfolding matched_def by (cases x) (simp, fastforce split: prod.splits)

lemma matched_first:
  "reach D E f p s p' s' \<Longrightarrow> matched D E K f p' s' x \<Longrightarrow> matched D E K f p s x"
  by (auto simp: matched_def intro: exec_reach reach_trans split: sum.splits)

text \<open>The same instruction, whatever source line it stems from.\<close>

fun same_instr :: "ir_op \<Rightarrow> ir_op \<Rightarrow> bool" where
  "same_instr (Lft _) (Lft _) \<longleftrightarrow> True"
| "same_instr (Rgt _) (Rgt _) \<longleftrightarrow> True"
| "same_instr (Wr i _) (Wr j _) \<longleftrightarrow> i = j"
| "same_instr (WrLft i _) (WrLft j _) \<longleftrightarrow> i = j"
| "same_instr (WrRgt i _) (WrRgt j _) \<longleftrightarrow> i = j"
| "same_instr (Brk _) (Brk _) \<longleftrightarrow> True"
| "same_instr (Call n _) (Call m _) \<longleftrightarrow> n = m"
| "same_instr _ _ \<longleftrightarrow> False"

lemma same_instr_refl [simp]: "same_instr op op"
  by (cases op) simp_all

lemma same_instr_sym: "same_instr a b \<Longrightarrow> same_instr b a"
  by (cases a; cases b) simp_all

lemma same_instr_trans: "same_instr a b \<Longrightarrow> same_instr b c \<Longrightarrow> same_instr a c"
  by (cases a; cases b; cases c) simp_all

lemma same_instr_act: "same_instr a b \<Longrightarrow> act D a s = act D b s"
  by (cases a; cases b) simp_all

lemma same_instr_called: "same_instr a b \<Longrightarrow> called a = called b"
  by (cases a; cases b) simp_all

text \<open>Where both programs are at the same instruction they step alike.\<close>

lemma matched_op:
  assumes st: "istep D C f (op # ops, t) s x" and same: "same_instr op op'"
    and C: "\<And>n r. C n s r \<Longrightarrow> calls D E n s r"
    and K: "\<And>s1. K (ops, t) s1 (ops', t') s1"
  shows "matched D E K f' (op' # ops', t') s x"
proof (rule istep_opE [OF st])
  fix s' assume a: "x = Inr ((ops, t), s')" "called op = None" "act D op s = Inr s'"
  have "istep D (calls D E) f' (op' # ops', t') s (Inr ((ops', t'), s'))"
    using a(2,3) by (intro istep_act) (simp_all add: same_instr_act [OF same, symmetric] same_instr_called [OF same])
  then show ?thesis unfolding a(1) by (rule matched_step) (rule K)
next
  fix e s' assume a: "x = Inl (Faults e s')" "called op = None" "act D op s = Inl (e, s')"
  have "istep D (calls D E) f' (op' # ops', t') s (Inl (Faults e s'))"
    using a(2,3) by (intro istep_fault) (simp_all add: same_instr_act [OF same, symmetric] same_instr_called [OF same])
  then show ?thesis unfolding a(1) by (rule matched_end)
next
  fix n s' assume a: "x = Inr ((ops, t), s')" "called op = Some n" "C n s (Back s')"
  have "istep D (calls D E) f' (op' # ops', t') s (Inr ((ops', t'), s'))"
    using a(2,3) same_instr_called [OF same] C by (intro istep_call) auto
  then show ?thesis unfolding a(1) by (rule matched_step) (rule K)
next
  fix n r assume a: "x = Inl r" "called op = Some n" "C n s r" "\<forall>s'. r \<noteq> Back s'"
  have "istep D (calls D E) f' (op' # ops', t') s (Inl r)"
    using a(2-4) same_instr_called [OF same] C by (intro istep_call_ends) auto
  then show ?thesis unfolding a(1) by (rule matched_end)
qed

text \<open>At the end of the operations the two may differ in where they go on.\<close>

lemma matched_term:
  assumes st: "istep D C f ([], t) s x"
    and tail: "tail_callee t' = tail_callee t" and leave: "leaves f' t' s = leaves f t s"
    and C: "\<And>n r. C n s r \<Longrightarrow> calls D E n s r"
    and goes: "\<And>i b. goes t (s_mf s) = Some i \<Longrightarrow> block_at f i = Some b \<Longrightarrow>
      matched D E K f' ([], t') s (Inr (point_of b, s))"
  shows "matched D E K f' ([], t') s x"
proof (rule istep_termE [OF st])
  fix i b assume "x = Inr (point_of b, s)" "goes t (s_mf s) = Some i" "block_at f i = Some b"
  then show ?thesis using goes by simp
next
  fix n r assume "x = Inl r" "tail_callee t = Some n" "C n s r"
  then show ?thesis using tail C by (auto intro: matched_end [OF istep_tail])
next
  fix r assume "x = Inl r" "leaves f t s = Some r"
  then show ?thesis using leave by (auto intro: matched_end [OF istep_leaves])
qed

section \<open>Invariants of the state\<close>

definition keeps :: "'d device \<Rightarrow> ('d ir_state \<Rightarrow> bool) \<Rightarrow> bool" where
  "keeps D G \<longleftrightarrow> (\<forall>op s s'. G s \<longrightarrow> act D op s = Inr s' \<longrightarrow> G s')"

lemma keeps_True [simp]: "keeps D (\<lambda>_. True)"
  by (simp add: keeps_def)

lemma exec_keeps:
  assumes "keeps D G"
  shows "exec D E f p s r \<Longrightarrow> G s \<Longrightarrow> r = Back s' \<Longrightarrow> G s'"
proof (induction arbitrary: s' rule: exec.induct)
  case (exec_leaves f t s r)
  then show ?case by (cases t) (auto split: if_splits)
qed (use assms in \<open>auto simp: keeps_def\<close>)

lemma istep_keeps:
  assumes "keeps D G" "istep D C f p s (Inr (p', s'))" "G s" "\<And>n s r. C n s r \<Longrightarrow> calls D E n s r"
  shows "G s'"
  using assms(2)
proof (cases rule: istep.cases)
  case (istep_act op ops t)
  then show ?thesis using assms(1,3) unfolding keeps_def by blast
next
  case (istep_call op n ops t)
  then have "calls D E n s (Back s')" using assms(4) by simp
  then show ?thesis using assms(3) unfolding calls_def by (blast intro: exec_keeps [OF assms(1)])
qed (use assms(3) in auto)

section \<open>The simulation principle\<close>

text \<open>A linked program and another in which some functions have been transformed.\<close>

definition transformed ::
  "(ir_function \<Rightarrow> ir_function \<Rightarrow> bool) \<Rightarrow> linkage \<Rightarrow> linkage \<Rightarrow> bool" where
  "transformed T E E' \<longleftrightarrow> (\<forall>n. rel_option (\<lambda>f f'. f' = f \<or> T f f') (E n) (E' n))"

lemma transformed_conv: "transformed T E E' \<Longrightarrow> transformed (\<lambda>f f'. T f' f) E' E"
  unfolding transformed_def
proof
  fix n assume "\<forall>n. rel_option (\<lambda>f f'. f' = f \<or> T f f') (E n) (E' n)"
  then have "rel_option (\<lambda>f f'. f' = f \<or> T f f') (E n) (E' n)" ..
  then show "rel_option (\<lambda>f f'. f' = f \<or> T f' f) (E' n) (E n)"
    by (cases "E n"; cases "E' n") auto
qed

lemma transformed_callee:
  assumes "transformed T E E'" "callee_of E n = Some (g, q)"
    and entry: "\<And>f f' p. T f f' \<Longrightarrow> entry_point f = Some p \<Longrightarrow> \<exists>p'. entry_point f' = Some p' \<and> L f f' p p'"
  shows "\<exists>g' q'. callee_of E' n = Some (g', q') \<and> (g' = g \<and> q' = q \<or> T g g' \<and> L g g' q q')"
proof -
  have g: "E n = Some g" "entry_point g = Some q" using assms(2) by (simp_all add: callee_of_Some)
  then have "rel_option (\<lambda>f f'. f' = f \<or> T f f') (Some g) (E' n)"
    using assms(1) unfolding transformed_def by metis
  then obtain g' where g': "E' n = Some g'" "g' = g \<or> T g g'" by (auto simp: option_rel_Some1)
  then show ?thesis using g entry [of g g' q] by (auto simp: callee_of_Some)
qed

text \<open>
  What a pass has to show: the entries of a function before and after it are related, and from
  related points every step of the one is matched by the other. Calls are given by any \<open>C\<close> that is
  part of what both programs' calls come to. The relation may speak of the matching program's calls,
  so it is given the linkage of that program.
\<close>

type_synonym 'd point_rel =
  "linkage \<Rightarrow> ir_function \<Rightarrow> ir_function \<Rightarrow> point \<Rightarrow> 'd ir_state \<Rightarrow> point \<Rightarrow> 'd ir_state \<Rightarrow> bool"

definition enters ::
  "('d ir_state \<Rightarrow> bool) \<Rightarrow> (ir_function \<Rightarrow> ir_function \<Rightarrow> bool) \<Rightarrow> 'd point_rel \<Rightarrow> bool" where
  "enters G T K \<longleftrightarrow>
     (\<forall>f f' p. T f f' \<longrightarrow> entry_point f = Some p \<longrightarrow>
        (\<exists>p'. entry_point f' = Some p' \<and> (\<forall>E s. G s \<longrightarrow> K E f f' p s p' s)))"

definition call_part ::
  "'d device \<Rightarrow> ('d ir_state \<Rightarrow> bool) \<Rightarrow> linkage \<Rightarrow> linkage
     \<Rightarrow> (string \<Rightarrow> 'd ir_state \<Rightarrow> 'd result \<Rightarrow> bool) \<Rightarrow> bool" where
  "call_part D G E E' C \<longleftrightarrow> (\<forall>n s r. C n s r \<longrightarrow> calls D E n s r \<and> (G s \<longrightarrow> calls D E' n s r))"

definition simulates_at ::
  "linkage \<Rightarrow> linkage \<Rightarrow> 'd device \<Rightarrow> ('d ir_state \<Rightarrow> bool) \<Rightarrow> (ir_function \<Rightarrow> ir_function \<Rightarrow> bool)
     \<Rightarrow> 'd point_rel \<Rightarrow> bool" where
  "simulates_at E E' D G T K \<longleftrightarrow>
     (\<forall>C f f' p s p' s' x. T f f' \<longrightarrow> K E' f f' p s p' s' \<longrightarrow> G s \<longrightarrow> call_part D G E E' C \<longrightarrow>
        istep D C f p s x \<longrightarrow> matched D E' (K E' f f') f' p' s' x)"

definition simulates ::
  "'d device \<Rightarrow> ('d ir_state \<Rightarrow> bool) \<Rightarrow> (ir_function \<Rightarrow> ir_function \<Rightarrow> bool) \<Rightarrow> 'd point_rel \<Rightarrow> bool" where
  "simulates D G T K \<longleftrightarrow> (\<forall>E E'. simulates_at E E' D G T K)"

lemma entersI:
  "(\<And>f f' p. T f f' \<Longrightarrow> entry_point f = Some p \<Longrightarrow>
     \<exists>p'. entry_point f' = Some p' \<and> (\<forall>E s. G s \<longrightarrow> K E f f' p s p' s)) \<Longrightarrow> enters G T K"
  by (simp add: enters_def)

lemma simulates_atI:
  "(\<And>C f f' p s p' s' x. T f f' \<Longrightarrow> K E' f f' p s p' s' \<Longrightarrow> G s \<Longrightarrow> call_part D G E E' C \<Longrightarrow>
     istep D C f p s x \<Longrightarrow> matched D E' (K E' f f') f' p' s' x) \<Longrightarrow> simulates_at E E' D G T K"
  unfolding simulates_at_def by blast

lemma simulatesI:
  "(\<And>E E' C f f' p s p' s' x. T f f' \<Longrightarrow> K E' f f' p s p' s' \<Longrightarrow> G s \<Longrightarrow> call_part D G E E' C \<Longrightarrow>
     istep D C f p s x \<Longrightarrow> matched D E' (K E' f f') f' p' s' x) \<Longrightarrow> simulates D G T K"
  unfolding simulates_def by (blast intro: simulates_atI)

lemma call_partD:
  "call_part D G E E' C \<Longrightarrow> C n s r \<Longrightarrow> calls D E n s r"
  "call_part D G E E' C \<Longrightarrow> G s \<Longrightarrow> C n s r \<Longrightarrow> calls D E' n s r"
  by (simp_all add: call_part_def)

lemma simulation:
  assumes inv: "keeps D G" and env: "transformed T E E'"
    and entry: "enters G T K" and step: "simulates_at E E' D G T K"
  shows "calls D E n s r \<Longrightarrow> G s \<Longrightarrow> calls D E' n s r"
proof -
  define C where "C n s r \<longleftrightarrow> calls D E n s r \<and> (G s \<longrightarrow> calls D E' n s r)" for n s r
  define M where "M f p s f' p' s' \<longleftrightarrow> f' = f \<and> p' = p \<and> s' = s \<or> T f f' \<and> K E' f f' p s p' s'" for f p s f' p' s'
  have C: "\<And>n s r. C n s r \<Longrightarrow> calls D E n s r" "\<And>n s r. C n s r \<Longrightarrow> G s \<Longrightarrow> calls D E' n s r"
    by (simp_all add: C_def)
  have M_entry: "\<exists>g' q'. callee_of E' n = Some (g', q') \<and> (\<forall>s. G s \<longrightarrow> M g q s g' q' s)"
    if "callee_of E n = Some (g, q)" for n g q
  proof -
    have "\<exists>p'. entry_point f' = Some p' \<and> (\<forall>s. G s \<longrightarrow> K E' f f' p s p' s)"
      if "T f f'" "entry_point f = Some p" for f f' p
      using entry that unfolding enters_def by blast
    from transformed_callee [where L = "\<lambda>f f' p p'. \<forall>s. G s \<longrightarrow> K E' f f' p s p' s", OF env that this]
    show ?thesis by (auto simp: M_def)
  qed
  have M_step: "matched D E' (\<lambda>p s p' s'. M f p s f' p' s') f' p' s' x"
    if "M f p s f' p' s'" "istep D C f p s x" "G s" for f p s f' p' s' x
    using that(1) [unfolded M_def]
  proof
    assume "f' = f \<and> p' = p \<and> s' = s"
    moreover have "istep D (calls D E') f p s x"
    proof (rule istep_mono [OF that(2)])
      fix n r assume "C n s r"
      then show "calls D E' n s r" using that(3) by (rule C(2))
    qed
    ultimately show ?thesis by (simp add: matched_same M_def)
  next
    assume T: "T f f' \<and> K E' f f' p s p' s'"
    moreover have "call_part D G E E' C" using C by (simp add: call_part_def)
    ultimately have "matched D E' (K E' f f') f' p' s' x" using step that(2,3) unfolding simulates_at_def by blast
    then show ?thesis by (rule matched_mono) (simp add: M_def T)
  qed
  have M_go: "exec D E' f' p' s' r"
    if "matched D E' (\<lambda>p s p' s'. M f p s f' p' s') f' p' s' (Inr (p1, s1))"
      "G s1" "\<And>p1' s1'. G s1 \<Longrightarrow> M f p1 s1 f' p1' s1' \<Longrightarrow> exec D E' f' p1' s1' r" for f f' p' s' p1 s1 r
    using that by (auto simp: matched_def intro: exec_reach simp del: split_paired_Ex split_paired_All)
  have main: "exec D E f p s r \<Longrightarrow> G s \<Longrightarrow> M f p s f' p' s' \<Longrightarrow> exec D E' f' p' s' r" for f p s r f' p' s'
  proof (induction arbitrary: f' p' s' rule: exec.induct)
    case (exec_act op s s1 f ops t r)
    have i: "istep D C f (op # ops, t) s (Inr ((ops, t), s1))" by (rule istep_act [OF exec_act(1,2)])
    have "G s1" by (rule istep_keeps [OF inv i exec_act.prems(1) C(1)])
    with M_step [OF exec_act.prems(2) i exec_act.prems(1)] show ?case by (rule M_go) (rule exec_act.IH)
  next
    case (exec_fault op s e s1 f ops t)
    show ?case
      using M_step [OF exec_fault.prems(2) istep_fault [OF exec_fault(1,2)] exec_fault.prems(1)]
      by (simp add: matched_def)
  next
    case (exec_call op n g q s s1 f ops t r)
    obtain g' q' where g': "callee_of E' n = Some (g', q')" "M g q s g' q' s"
      using M_entry [OF exec_call(2)] exec_call.prems by blast
    have "C n s (Back s1)" unfolding C_def calls_def
      using exec_call(2,3) g'(1) exec_call.IH(1) [OF exec_call.prems(1) g'(2)] by blast
    then have i: "istep D C f (op # ops, t) s (Inr ((ops, t), s1))" by (rule istep_call [OF exec_call(1)])
    have "G s1" by (rule istep_keeps [OF inv i exec_call.prems(1) C(1)])
    with M_step [OF exec_call.prems(2) i exec_call.prems(1)] show ?case by (rule M_go) (rule exec_call.IH(2))
  next
    case (exec_call_ends op n g q s r f ops t)
    obtain g' q' where g': "callee_of E' n = Some (g', q')" "M g q s g' q' s"
      using M_entry [OF exec_call_ends(2)] exec_call_ends.prems by blast
    have "C n s r" unfolding C_def calls_def
      using exec_call_ends(2,3) g'(1) exec_call_ends.IH(1) [OF exec_call_ends.prems(1) g'(2)] by blast
    then have i: "istep D C f (op # ops, t) s (Inl r)"
      by (rule istep_call_ends [where t = t and ops = ops, OF exec_call_ends(1) _ exec_call_ends(4)])
    show ?case using M_step [OF exec_call_ends.prems(2) i exec_call_ends.prems(1)] by (simp add: matched_def)
  next
    case (exec_goes t s i f b r)
    have i: "istep D C f ([], t) s (Inr (point_of b, s))" by (rule istep_goes [OF exec_goes(1,2)])
    from M_step [OF exec_goes.prems(2) i exec_goes.prems(1)] exec_goes.prems(1)
    show ?case by (rule M_go) (rule exec_goes.IH)
  next
    case (exec_tail t n g q s r f)
    obtain g' q' where g': "callee_of E' n = Some (g', q')" "M g q s g' q' s"
      using M_entry [OF exec_tail(2)] exec_tail.prems by blast
    have "C n s r" unfolding C_def calls_def
      using exec_tail(2,3) g'(1) exec_tail.IH [OF exec_tail.prems(1) g'(2)] by blast
    then have i: "istep D C f ([], t) s (Inl r)" by (rule istep_tail [OF exec_tail(1)])
    show ?case using M_step [OF exec_tail.prems(2) i exec_tail.prems(1)] by (simp add: matched_def)
  next
    case (exec_leaves f t s r)
    have i: "istep D C f ([], t) s (Inl r)" by (rule istep_leaves [OF exec_leaves(1)])
    show ?case using M_step [OF exec_leaves.prems(2) i exec_leaves.prems(1)] by (simp add: matched_def)
  qed
  assume "calls D E n s r" "G s"
  then show "calls D E' n s r" using M_entry main unfolding calls_def by metis
qed

text \<open>Both directions, for the functions of two linked programs.\<close>

definition same_calls :: "'d device \<Rightarrow> ('d ir_state \<Rightarrow> bool) \<Rightarrow> linkage \<Rightarrow> linkage \<Rightarrow> bool" where
  "same_calls D G E E' \<longleftrightarrow> (\<forall>n s. G s \<longrightarrow> run_fn D E n s = run_fn D E' n s)"

lemma same_callsI:
  assumes "\<And>n s r. G s \<Longrightarrow> calls D E n s r \<Longrightarrow> calls D E' n s r"
    and "\<And>n s r. G s \<Longrightarrow> calls D E' n s r \<Longrightarrow> calls D E n s r"
  shows "same_calls D G E E'"
  using assms unfolding same_calls_def by (blast intro: run_fn_eqI)

lemma same_calls_at:
  assumes "keeps D G" "transformed T E E'"
    and "enters G T K" "simulates_at E E' D G T K"
    and "enters G (\<lambda>f' f. T f f') L" "simulates_at E' E D G (\<lambda>f' f. T f f') L"
  shows "same_calls D G E E'"
  using simulation [OF assms(1-4)] simulation [OF assms(1) transformed_conv [OF assms(2)] assms(5,6)]
  by (blast intro: same_callsI)

lemma same_calls_simulation:
  assumes "keeps D G" "transformed T E E'"
    and "enters G T K" "simulates D G T K"
    and "enters G (\<lambda>f' f. T f f') L" "simulates D G (\<lambda>f' f. T f f') L"
  shows "same_calls D G E E'"
  by (rule same_calls_at [OF assms(1-3) _ assms(5)]) (use assms(4,6) in \<open>simp_all add: simulates_def\<close>)

lemma same_calls_refl [simp, intro]: "same_calls D G E E"
  by (simp add: same_calls_def)

lemma same_calls_trans: "same_calls D G E E' \<Longrightarrow> same_calls D G E' E'' \<Longrightarrow> same_calls D G E E''"
  by (simp add: same_calls_def)

lemma same_calls_weaken: "same_calls D G E E' \<Longrightarrow> (\<And>s. G' s \<Longrightarrow> G s) \<Longrightarrow> same_calls D G' E E'"
  by (auto simp: same_calls_def)

end
