(* ===== verification/Pass_Base.thy ===== *)
theory Pass_Base
  imports Ir_Simulation
begin

text \<open>
  What the passes of \<open>crates/post-machine/src/optimizer\<close> share: the shape of a pass (a function and its
  change count), a module linked with the rest of a program, the invariant every pass keeps, and the
  two smallest passes, \<open>check-fold\<close> (\<open>check_fold.rs\<close>) and \<open>tail-call\<close> (\<open>tail_call.rs\<close>).
\<close>

lemma list_all2_left: "list_all2 P xs ys \<Longrightarrow> x \<in> set xs \<Longrightarrow> \<exists>y \<in> set ys. P x y"
  by (induction rule: list_all2_induct) auto

section \<open>Modules\<close>

text \<open>A module's functions, linked with whatever the rest of the program defines.\<close>

definition linked :: "linkage \<Rightarrow> ir_function list \<Rightarrow> linkage" where
  "linked rest fs n =
     (case find (\<lambda>f. fn_name f = n) fs of
        Some f \<Rightarrow> Some f
      | None \<Rightarrow> rest n)"

text \<open>
  A pass of the pipeline rewrites a function and says how much it changed; \<open>None\<close> is a panic (a
  terminator without a block) or a loop that does not end.
\<close>

type_synonym pass_result = "(ir_function \<times> nat) option"

lemma transformed_linked:
  assumes "list_all2 (\<lambda>f f'. fn_name f' = fn_name f \<and> (f' = f \<or> T f f')) fs fs'"
  shows "transformed T (linked rest fs) (linked rest fs')"
  unfolding transformed_def
proof
  fix n
  have "rel_option (\<lambda>f f'. f' = f \<or> T f f') (find (\<lambda>f. fn_name f = n) fs) (find (\<lambda>f. fn_name f = n) fs')"
    using assms by (induction rule: list_all2_induct) auto
  then show "rel_option (\<lambda>f f'. f' = f \<or> T f f') (linked rest fs n) (linked rest fs' n)"
    by (cases "find (\<lambda>f. fn_name f = n) fs"; cases "find (\<lambda>f. fn_name f = n) fs'")
      (auto simp: linked_def option.rel_refl)
qed

text \<open>
  A change of one function that no caller in any program notices; a pass that is simulated in both
  directions makes only such changes, and they can be iterated and applied to a whole module.
\<close>

definition sound_change ::
  "'d device \<Rightarrow> ('d ir_state \<Rightarrow> bool) \<Rightarrow> (ir_function \<Rightarrow> ir_function \<Rightarrow> bool) \<Rightarrow> bool" where
  "sound_change D G T \<longleftrightarrow>
     (\<forall>rest fs f f' gs. T f f' \<longrightarrow>
        fn_name f' = fn_name f \<and> same_calls D G (linked rest (fs @ f # gs)) (linked rest (fs @ f' # gs)))"

lemma sound_changeI:
  assumes "keeps D G" "\<And>f f'. T f f' \<Longrightarrow> fn_name f' = fn_name f"
    and "enters G T K" "simulates D G T K"
    and "enters G (\<lambda>f' f. T f f') L" "simulates D G (\<lambda>f' f. T f f') L"
  shows "sound_change D G T"
  unfolding sound_change_def
proof (intro allI impI conjI)
  fix rest fs f f' gs assume T: "T f f'"
  then show "fn_name f' = fn_name f" by (rule assms(2))
  with T have "list_all2 (\<lambda>f f'. fn_name f' = fn_name f \<and> (f' = f \<or> T f f')) (fs @ f # gs) (fs @ f' # gs)"
    by (intro list_all2_appendI) (auto intro: list.rel_refl)
  with assms(1) show "same_calls D G (linked rest (fs @ f # gs)) (linked rest (fs @ f' # gs))"
    by (rule same_calls_simulation [OF _ transformed_linked assms(3-6)])
qed

lemma sound_change_mono: "sound_change D G U \<Longrightarrow> (\<And>f f'. T f f' \<Longrightarrow> U f f') \<Longrightarrow> sound_change D G T"
  by (simp add: sound_change_def)

lemma sound_change_eq: "sound_change D G (=)"
  by (simp add: sound_change_def)

lemma sound_change_comp: "sound_change D G T \<Longrightarrow> sound_change D G U \<Longrightarrow> sound_change D G (T OO U)"
  unfolding sound_change_def by (metis same_calls_trans relcomppE)

lemma sound_change_star:
  assumes "sound_change D G T"
  shows "sound_change D G T\<^sup>*\<^sup>*"
  unfolding sound_change_def
proof (intro allI impI)
  fix rest fs f f' gs assume "T\<^sup>*\<^sup>* f f'"
  then show "fn_name f' = fn_name f \<and> same_calls D G (linked rest (fs @ f # gs)) (linked rest (fs @ f' # gs))"
    using assms unfolding sound_change_def
    by (induction rule: rtranclp_induct) (auto intro: same_calls_trans)
qed

lemma sound_change_weaken:
  "sound_change D G T \<Longrightarrow> (\<And>s. G' s \<Longrightarrow> G s) \<Longrightarrow> sound_change D G' T"
  unfolding sound_change_def by (meson same_calls_weaken)

text \<open>A whole module.\<close>

lemma sound_module:
  assumes "sound_change D G T" "list_all2 T fs fs'"
  shows "same_calls D G (linked rest fs) (linked rest fs')"
proof -
  have "list_all2 T fs fs' \<Longrightarrow> same_calls D G (linked rest (gs @ fs)) (linked rest (gs @ fs'))" for gs fs fs'
  proof (induction fs fs' arbitrary: gs rule: list_all2_induct)
    case (Cons f fs f' fs')
    have "same_calls D G (linked rest (gs @ f # fs)) (linked rest (gs @ f' # fs))"
      using assms(1) Cons(1) unfolding sound_change_def by blast
    moreover have "same_calls D G (linked rest (gs @ f' # fs)) (linked rest (gs @ f' # fs'))"
      using Cons.IH [of "gs @ [f']"] by simp
    ultimately show ?case by (rule same_calls_trans)
  qed simp
  from this [OF assms(2), of "[]"] show ?thesis by simp
qed

lemma sound_module_names:
  assumes "sound_change D G T" "list_all2 T fs fs'"
  shows "map fn_name fs' = map fn_name fs"
  using assms(2) by (induction rule: list_all2_induct) (use assms(1) in \<open>auto simp: sound_change_def\<close>)

section \<open>The invariant of a module\<close>

text \<open>
  What lowering produces and every pass keeps: the structural invariant, and symbols of the two-symbol
  alphabet.
\<close>

definition op_symbols_ok :: "ir_op \<Rightarrow> bool" where
  "op_symbols_ok op \<longleftrightarrow> (case op of Wr i _ \<Rightarrow> i \<le> 1 | WrLft i _ \<Rightarrow> i \<le> 1 | WrRgt i _ \<Rightarrow> i \<le> 1 | _ \<Rightarrow> True)"

definition symbols_ok :: "ir_function \<Rightarrow> bool" where
  "symbols_ok f \<longleftrightarrow> (\<forall>b \<in> set (fn_blocks f). \<forall>op \<in> set (b_ops b). op_symbols_ok op)"

definition fn_ok :: "ir_function \<Rightarrow> bool" where
  "fn_ok f \<longleftrightarrow> valid_fn f \<and> symbols_ok f"

lemma fn_ok_map:
  assumes "fn_ok f" "\<And>b. b_id (h b) = b_id b"
    and "\<And>b. b \<in> set (fn_blocks f) \<Longrightarrow> set (targets (b_term (h b))) \<subseteq> set (block_ids f)"
    and "\<And>b op. b \<in> set (fn_blocks f) \<Longrightarrow> op \<in> set (b_ops (h b)) \<Longrightarrow> op_symbols_ok op"
  shows "fn_ok (map_blocks h f)"
  using assms by (auto simp: fn_ok_def symbols_ok_def intro!: valid_map)

lemma fn_ok_targets: "fn_ok f \<Longrightarrow> b \<in> set (fn_blocks f) \<Longrightarrow> set (targets (b_term b)) \<subseteq> set (block_ids f)"
  by (auto simp: fn_ok_def valid_fn_def)

lemma fn_ok_symbols: "fn_ok f \<Longrightarrow> b \<in> set (fn_blocks f) \<Longrightarrow> op \<in> set (b_ops b) \<Longrightarrow> op_symbols_ok op"
  by (auto simp: fn_ok_def symbols_ok_def)

lemma fn_ok_shrink:
  assumes "fn_ok f" "\<And>b. b_id (h b) = b_id b" "\<And>b. set (targets (b_term (h b))) \<subseteq> set (targets (b_term b))"
    "\<And>b. set (b_ops (h b)) \<subseteq> set (b_ops b)"
  shows "fn_ok (map_blocks h f)"
  using assms(1,2)
proof (rule fn_ok_map)
  fix b op assume b: "b \<in> set (fn_blocks f)"
  then show "set (targets (b_term (h b))) \<subseteq> set (block_ids f)"
    using assms(3) [of b] fn_ok_targets [OF assms(1)] by blast
  show "op_symbols_ok op" if "op \<in> set (b_ops (h b))"
    using that b assms(4) [of b] fn_ok_symbols [OF assms(1)] by blast
qed

lemma fn_ok_distinct: "fn_ok f \<Longrightarrow> distinct (block_ids f)"
  by (simp add: fn_ok_def valid_fn_def)

lemma fn_ok_nonempty: "fn_ok f \<Longrightarrow> fn_blocks f \<noteq> []"
  by (simp add: fn_ok_def valid_fn_def)

section \<open>Passes that rewrite block by block\<close>

definition run_blocks :: "(ir_block \<Rightarrow> ir_block \<times> nat) \<Rightarrow> ir_function \<Rightarrow> ir_function \<times> nat" where
  "run_blocks h f = (map_blocks (\<lambda>b. fst (h b)) f, sum_list (map (\<lambda>b. snd (h b)) (fn_blocks f)))"

lemma fst_run_blocks [simp]: "fst (run_blocks h f) = map_blocks (\<lambda>b. fst (h b)) f"
  by (simp add: run_blocks_def)

lemma entry_point_map:
  "entry_point (map_blocks h f) = map_option (\<lambda>b. point_of (h b)) (nth_opt (fn_blocks f) 0)"
  "entry_point f = map_option point_of (nth_opt (fn_blocks f) 0)"
  by (cases "fn_blocks f"; simp add: entry_point_def nth_opt_def)+

text \<open>Where control enters a rewritten function.\<close>

lemma enters_map:
  assumes T: "\<And>f f'. T f f' \<Longrightarrow> f' = map_blocks h f"
    and K: "\<And>E f f' b s. T f f' \<Longrightarrow> b \<in> set (fn_blocks f) \<Longrightarrow> G s \<Longrightarrow> K E f f' (point_of b) s (point_of (h b)) s"
  shows "enters G T K"
proof (rule entersI)
  fix f f' p assume t: "T f f'" and p: "entry_point f = Some p"
  then show "\<exists>p'. entry_point f' = Some p' \<and> (\<forall>E s. G s \<longrightarrow> K E f f' p s p' s)"
    using T [OF t] K [OF t] by (cases "fn_blocks f") (auto simp: entry_point_def)
qed

lemma enters_map_back:
  assumes T: "\<And>f f'. T f f' \<Longrightarrow> f' = map_blocks h f"
    and K: "\<And>E f f' b s. T f f' \<Longrightarrow> b \<in> set (fn_blocks f) \<Longrightarrow> G s \<Longrightarrow> L E f' f (point_of (h b)) s (point_of b) s"
  shows "enters G (\<lambda>f' f. T f f') L"
proof (rule entersI)
  fix f' f p' assume t: "T f f'" and p: "entry_point f' = Some p'"
  then show "\<exists>p. entry_point f = Some p \<and> (\<forall>E s. G s \<longrightarrow> L E f' f p' s p s)"
    using T [OF t] K [OF t] by (cases "fn_blocks f") (auto simp: entry_point_def)
qed

text \<open>
  For such passes: the same terminator leads to the block before and after, and the same instruction
  to states reached by the same step.
\<close>

lemma matched_term_map:
  assumes st: "istep D C f ([], t) s x" and f': "f' = map_blocks h f" and ids: "\<And>b. b_id (h b) = b_id b"
    and tail: "tail_callee t' = tail_callee t" and leave: "leaves f t' s = leaves f t s"
    and goes: "goes t' (s_mf s) = goes t (s_mf s)"
    and C: "\<And>n r. C n s r \<Longrightarrow> calls D E n s r"
    and K: "\<And>i b. goes t (s_mf s) = Some i \<Longrightarrow> block_at f i = Some b \<Longrightarrow> K (point_of b) s (point_of (h b)) s"
  shows "matched D E K f' ([], t') s x"
proof (rule matched_term [OF st tail _ C])
  show "leaves f' t' s = leaves f t s" using leaves_name [of f' f t' s] leave f' by simp
  fix i b assume "goes t (s_mf s) = Some i" "block_at f i = Some b"
  then show "matched D E K f' ([], t') s (Inr (point_of b, s))"
    using K goes block_at_map [of h f i, OF ids] by (auto simp: f' intro!: matched_step [OF istep_goes])
qed

lemma matched_term_back:
  assumes st: "istep D C f' ([], t') s x" and f': "f' = map_blocks h f" and ids: "\<And>b. b_id (h b) = b_id b"
    and tail: "tail_callee t' = tail_callee t" and leave: "leaves f t' s = leaves f t s"
    and goes: "goes t' (s_mf s) = goes t (s_mf s)"
    and C: "\<And>n r. C n s r \<Longrightarrow> calls D E n s r"
    and K: "\<And>i b. goes t (s_mf s) = Some i \<Longrightarrow> block_at f i = Some b \<Longrightarrow> K (point_of (h b)) s (point_of b) s"
  shows "matched D E K f ([], t) s x"
proof (rule matched_term [OF st tail [symmetric] _ C])
  show "leaves f t s = leaves f' t' s" using leaves_name [of f' f t' s] leave f' by simp
  fix i b' assume "goes t' (s_mf s) = Some i" "block_at f' i = Some b'"
  then show "matched D E K f ([], t) s (Inr (point_of b', s))"
    using K goes block_at_map [of h f i, OF ids] by (auto simp: f' intro!: matched_step [OF istep_goes])
qed

lemma matched_op_step:
  assumes st: "istep D C f (op # ops, t) s x" and same: "same_instr op op'"
    and C: "\<And>n r. C n s r \<Longrightarrow> calls D E n s r"
    and K: "\<And>s1. x = Inr ((ops, t), s1) \<Longrightarrow> K (ops, t) s1 (ops', t') s1"
  shows "matched D E K f' (op' # ops', t') s x"
proof -
  have "matched D E (\<lambda>p1 s1 p2 s2. p1 = (ops, t) \<and> p2 = (ops', t') \<and> s2 = s1) f' (op' # ops', t') s x"
    by (rule matched_op [OF st same C]) simp_all
  then show ?thesis using K by (auto simp: matched_def split: sum.splits)
qed

section \<open>check-fold\<close>

definition check_fold_block :: "ir_block \<Rightarrow> ir_block \<times> nat" where
  "check_fold_block b =
     (case b_term b of
        Check marked blank \<Rightarrow> if marked = blank then (b\<lparr>b_term := Goto marked\<rparr>, 1) else (b, 0)
      | _ \<Rightarrow> (b, 0))"

definition check_fold_run :: "ir_function \<Rightarrow> ir_function \<times> nat" where
  "check_fold_run f = run_blocks check_fold_block f"

definition folded :: "ir_term \<Rightarrow> ir_term" where
  "folded t = (case t of Check m b \<Rightarrow> if m = b then Goto m else t | _ \<Rightarrow> t)"

lemma folded_sem [simp]:
  "goes (folded t) = goes t" "tail_callee (folded t) = tail_callee t" "leaves f (folded t) = leaves f t"
  "set (targets (folded t)) = set (targets t)"
  by (cases t; auto simp: folded_def fun_eq_iff)+

lemma check_fold_block_simps [simp]:
  "b_id (fst (check_fold_block b)) = b_id b" "b_ops (fst (check_fold_block b)) = b_ops b"
  "b_term (fst (check_fold_block b)) = folded (b_term b)"
  by (simp_all add: check_fold_block_def folded_def split: ir_term.split)

lemma check_fold_ok: "fn_ok f \<Longrightarrow> fn_ok (fst (check_fold_run f))"
  by (simp add: check_fold_run_def) (rule fn_ok_map, auto dest: fn_ok_targets fn_ok_symbols)

text \<open>Passes that change terminators without changing what they do.\<close>

definition retermed :: "(ir_term \<Rightarrow> ir_term) \<Rightarrow> 'd point_rel" where
  "retermed tr E f f' p s p' s' \<longleftrightarrow> s' = s \<and> p' = (fst p, tr (snd p))"

definition retermed_back :: "(ir_term \<Rightarrow> ir_term) \<Rightarrow> 'd point_rel" where
  "retermed_back tr E f' f p' s' p s \<longleftrightarrow> s' = s \<and> p' = (fst p, tr (snd p))"

lemma term_pass:
  fixes D :: "'d device"
  assumes T: "\<And>f f'. T f f' \<Longrightarrow> f' = map_blocks h f"
    and id: "\<And>b. b_id (h b) = b_id b" and pt: "\<And>b. point_of (h b) = (b_ops b, tr (b_term b))"
    and sem: "\<And>t. goes (tr t) = goes t" "\<And>t. tail_callee (tr t) = tail_callee t"
      "\<And>f t. leaves f (tr t) = (leaves f t :: 'd ir_state \<Rightarrow> 'd result option)"
  shows "enters G T (retermed tr :: 'd point_rel)" "simulates D G T (retermed tr)"
    and "enters G (\<lambda>f' f. T f f') (retermed_back tr :: 'd point_rel)" "simulates D G (\<lambda>f' f. T f f') (retermed_back tr)"
proof -
  have at: "block_at (map_blocks h f) i = map_option h (block_at f i)" for f i by (rule block_at_map [OF id])
  have lv: "leaves (map_blocks h f) (tr t) s = leaves f t s" for f t and s :: "'d ir_state"
    using sem(3) [of "map_blocks h f" t] leaves_name [of "map_blocks h f" f t s] by simp
  show "enters G T (retermed tr :: 'd point_rel)"
    by (rule entersI) (auto dest!: T simp: retermed_def entry_point_map pt)
  show "enters G (\<lambda>f' f. T f f') (retermed_back tr :: 'd point_rel)"
    by (rule entersI) (auto dest!: T simp: retermed_back_def entry_point_map pt)
  show "simulates D G T (retermed tr)"
  proof (rule simulatesI)
    fix E E' C f f' p x and s s' :: "'d ir_state" and p'
    assume f': "T f f'" and K: "retermed tr E' f f' p s p' s'" and "G s" and C: "call_part D G E E' C"
      and st: "istep D C f p s x"
    note C = call_partD(2) [OF C \<open>G s\<close>] and f' = T [OF f']
    obtain ops t where p: "p = (ops, t)" by (cases p)
    have p': "p' = (ops, tr t)" "s' = s" using K p by (simp_all add: retermed_def)
    show "matched D E' (retermed tr E' f f') f' p' s' x"
    proof (cases ops)
      case Nil
      show ?thesis unfolding p' Nil f'
        by (rule matched_term [OF st [unfolded p Nil] sem(2) lv C])
          (auto simp: sem(1) at pt retermed_def intro!: matched_step [OF istep_goes])
    next
      case (Cons op rest)
      show ?thesis unfolding p' Cons
        by (rule matched_op [OF st [unfolded p Cons] same_instr_refl C]) (auto simp: retermed_def)
    qed
  qed
  show "simulates D G (\<lambda>f' f. T f f') (retermed_back tr)"
  proof (rule simulatesI)
    fix E E' C f f' p x and s s' :: "'d ir_state" and p'
    assume f': "T f f'" and K: "retermed_back tr E' f' f p' s' p s" and "G s'" and C: "call_part D G E E' C"
      and st: "istep D C f' p' s' x"
    note C = call_partD(2) [OF C \<open>G s'\<close>] and f' = T [OF f']
    obtain ops t where p: "p = (ops, t)" by (cases p)
    have p': "p' = (ops, tr t)" "s' = s" using K p by (simp_all add: retermed_back_def)
    show "matched D E' (retermed_back tr E' f' f) f p s x"
    proof (cases ops)
      case Nil
      show ?thesis unfolding p Nil
        by (rule matched_term [OF st [unfolded p' Nil f'] sem(2) [symmetric] lv [symmetric] C [unfolded p']])
          (auto simp: sem(1) at pt retermed_back_def f' intro!: matched_step [OF istep_goes])
    next
      case (Cons op rest)
      show ?thesis unfolding p Cons p'
        by (rule matched_op [OF st [unfolded p' Cons] same_instr_refl C [unfolded p']]) (auto simp: retermed_back_def)
    qed
  qed
qed

lemma check_fold_sound: "sound_change D (\<lambda>_. True) (\<lambda>f f'. f' = fst (check_fold_run f))"
proof -
  have pt: "point_of (fst (check_fold_block b)) = (b_ops b, folded (b_term b))" for b
    by (simp add: point_of_def)
  show ?thesis
    by (rule sound_changeI [OF keeps_True _ term_pass [of _ "\<lambda>b. fst (check_fold_block b)" folded]])
      (auto simp: pt check_fold_run_def)
qed

section \<open>tail-call\<close>

definition tail_call_block :: "ir_block \<Rightarrow> ir_block \<times> nat" where
  "tail_call_block b =
     (if b_term b = Return \<and> b_ops b \<noteq> [] then
        (case last (b_ops b) of
           Call n l \<Rightarrow> (b\<lparr>b_ops := butlast (b_ops b), b_term := TailCall n\<rparr>, 1)
         | _ \<Rightarrow> (b, 0))
      else (b, 0))"

definition tail_call_run :: "ir_function \<Rightarrow> ir_function \<times> nat" where
  "tail_call_run f = (if fn_name f = ''main'' then (f, 0) else run_blocks tail_call_block f)"

text \<open>What it does to a point.\<close>

fun tail_called :: "point \<Rightarrow> point" where
  "tail_called ([], t) = ([], t)"
| "tail_called ([Call n l], Return) = ([], TailCall n)"
| "tail_called (op # ops, t) = (op # fst (tail_called (ops, t)), snd (tail_called (ops, t)))"

lemma tail_called_same: "t \<noteq> Return \<or> ops = [] \<or> called (last ops) = None \<Longrightarrow> tail_called (ops, t) = (ops, t)"
  by (induction "(ops, t)" arbitrary: ops rule: tail_called.induct) (auto split: if_splits)

lemma tail_called_last: "tail_called (ops @ [Call n l], Return) = (ops, TailCall n)"
proof (induction ops)
  case (Cons op ops)
  then show ?case by (cases "ops @ [Call n l]"; cases op) auto
qed simp

lemma tail_called_cons:
  "tail_called (op # ops, t) = (op # fst (tail_called (ops, t)), snd (tail_called (ops, t)))
     \<or> (\<exists>n l. op = Call n l \<and> ops = [] \<and> t = Return)"
  by (cases "(op # ops, t)" rule: tail_called.cases) auto

lemma point_of_tail_call: "point_of (fst (tail_call_block b)) = tail_called (point_of b)"
proof (cases "b_term b = Return \<and> b_ops b \<noteq> [] \<and> called (last (b_ops b)) \<noteq> None")
  case True
  then obtain n l where c: "last (b_ops b) = Call n l" by (cases "last (b_ops b)") auto
  then have "b_ops b = butlast (b_ops b) @ [Call n l]" using True by (metis append_butlast_last_id)
  then show ?thesis using True c tail_called_last [of "butlast (b_ops b)" n l]
    by (simp add: tail_call_block_def point_of_def)
next
  case False
  then show ?thesis using tail_called_same [of "b_term b" "b_ops b"]
    by (auto simp: tail_call_block_def point_of_def split: ir_op.split)
qed

lemma tail_call_id [simp]: "b_id (fst (tail_call_block b)) = b_id b"
  by (simp add: tail_call_block_def split: ir_op.split)

lemma tail_call_ok: "fn_ok f \<Longrightarrow> fn_ok (fst (tail_call_run f))"
proof -
  assume f: "fn_ok f"
  have "set (targets (b_term (fst (tail_call_block b)))) \<subseteq> set (targets (b_term b))"
    "set (b_ops (fst (tail_call_block b))) \<subseteq> set (b_ops b)" for b
    by (auto simp: tail_call_block_def split: ir_op.split dest: in_set_butlastD)
  then have "fn_ok (map_blocks (\<lambda>b. fst (tail_call_block b)) f)"
    using f by (intro fn_ok_shrink) simp_all
  then show ?thesis using f by (simp add: tail_call_run_def)
qed

definition tail_call_change :: "ir_function \<Rightarrow> ir_function \<Rightarrow> bool" where
  "tail_call_change f f' \<longleftrightarrow> fn_name f \<noteq> ''main'' \<and> f' = map_blocks (\<lambda>b. fst (tail_call_block b)) f"

text \<open>Before the pass the callee has returned and the caller is about to; after it the callee's return is the last one.\<close>

definition tail_fwd :: "'d device \<Rightarrow> 'd point_rel" where
  "tail_fwd D E f f' p s p' s' \<longleftrightarrow> p' = tail_called p \<and> s' = s
     \<or> (\<exists>n. p = ([], Return) \<and> p' = ([], TailCall n) \<and> calls D E n s' (Back s))"

definition tail_bwd :: "'d point_rel" where
  "tail_bwd E f' f p' s' p s \<longleftrightarrow> p' = tail_called p \<and> s' = s"

lemma tail_call_at:
  "block_at (map_blocks (\<lambda>b. fst (tail_call_block b)) f) i = map_option (\<lambda>b. fst (tail_call_block b)) (block_at f i)"
  by (rule block_at_map) simp

lemma tail_call_fwd: "enters G tail_call_change (tail_fwd D)" "simulates D G tail_call_change (tail_fwd D)"
proof -
  show "enters G tail_call_change (tail_fwd D)"
    by (rule entersI) (auto simp: tail_call_change_def tail_fwd_def entry_point_map point_of_tail_call)
  show "simulates D G tail_call_change (tail_fwd D)"
  proof (rule simulatesI)
    fix E E' C f f' p x and s s' :: "'a ir_state" and p'
    assume T: "tail_call_change f f'" and K: "tail_fwd D E' f f' p s p' s'" and "G s"
      and C: "call_part D G E E' C" and st: "istep D C f p s x"
    note C = call_partD(2) [OF C \<open>G s\<close>]
    have f': "fn_name f \<noteq> ''main''" "f' = map_blocks (\<lambda>b. fst (tail_call_block b)) f"
      using T by (simp_all add: tail_call_change_def)
    obtain ops t where p: "p = (ops, t)" by (cases p)
    consider (pending) n where "p = ([], Return)" "p' = ([], TailCall n)" "calls D E' n s' (Back s)"
      | (same) "p' = tail_called p" "s' = s" using K unfolding tail_fwd_def by blast
    then show "matched D E' (tail_fwd D E' f f') f' p' s' x"
    proof cases
      case (pending n)
      then have "x = Inl (Back s)" using st f'(1) by (auto elim: istep_termE)
      moreover have "istep D (calls D E') f' ([], TailCall n) s' (Inl (Back s))"
        using pending(3) by (rule istep_TailCall)
      ultimately show ?thesis using pending(2) by (simp add: matched_end)
    next
      case same
      show ?thesis
      proof (cases ops)
        case Nil
        show ?thesis unfolding same p Nil tail_called.simps
          by (rule matched_term [OF st [unfolded p Nil] refl _ C])
            (auto simp: f' tail_call_at tail_fwd_def point_of_tail_call intro!: leaves_name matched_step [OF istep_goes])
      next
        case (Cons op rest)
        from tail_called_cons [of op rest t] show ?thesis
        proof
          assume q: "tail_called (op # rest, t) = (op # fst (tail_called (rest, t)), snd (tail_called (rest, t)))"
          show ?thesis unfolding same p Cons q
            by (rule matched_op [OF st [unfolded p Cons] same_instr_refl C]) (auto simp: tail_fwd_def)
        next
          assume "\<exists>n l. op = Call n l \<and> rest = [] \<and> t = Return"
          then obtain n l where o: "op = Call n l" "rest = []" "t = Return" by blast
          show ?thesis using st unfolding same p Cons o tail_called.simps
            by (elim istep_opE) (auto simp: tail_fwd_def dest: C intro!: matched_stay matched_end istep_TailCall)
        qed
      qed
    qed
  qed
qed

lemma tail_call_bwd:
  "enters G (\<lambda>f' f. tail_call_change f f') (tail_bwd :: 'd point_rel)"
  "simulates (D :: 'd device) G (\<lambda>f' f. tail_call_change f f') tail_bwd"
proof -
  show "enters G (\<lambda>f' f. tail_call_change f f') (tail_bwd :: 'd point_rel)"
    by (rule entersI) (auto simp: tail_call_change_def tail_bwd_def entry_point_map point_of_tail_call)
  show "simulates D G (\<lambda>f' f. tail_call_change f f') tail_bwd"
  proof (rule simulatesI)
    fix E E' C f f' p x and s s' :: "'d ir_state" and p'
    assume T: "tail_call_change f f'" and K: "tail_bwd E' f' f p' s' p s" and "G s'"
      and C: "call_part D G E E' C" and st: "istep D C f' p' s' x"
    note C = call_partD(2) [OF C \<open>G s'\<close>]
    have f': "fn_name f \<noteq> ''main''" "f' = map_blocks (\<lambda>b. fst (tail_call_block b)) f"
      using T by (simp_all add: tail_call_change_def)
    obtain ops t where p: "p = (ops, t)" by (cases p)
    have same: "p' = tail_called p" "s' = s" using K by (simp_all add: tail_bwd_def)
    show "matched D E' (tail_bwd E' f' f) f p s x"
    proof (cases ops)
      case Nil
      show ?thesis unfolding p Nil
        by (rule matched_term [OF st [unfolded same p Nil tail_called.simps] refl _ C [unfolded same]])
          (auto simp: f' tail_call_at tail_bwd_def point_of_tail_call intro!: leaves_name matched_step [OF istep_goes])
    next
      case (Cons op rest)
      from tail_called_cons [of op rest t] show ?thesis
      proof
        assume q: "tail_called (op # rest, t) = (op # fst (tail_called (rest, t)), snd (tail_called (rest, t)))"
        show ?thesis unfolding p Cons
          by (rule matched_op [OF st [unfolded same p Cons q] same_instr_refl C [unfolded same]])
            (auto simp: tail_bwd_def)
      next
        assume "\<exists>n l. op = Call n l \<and> rest = [] \<and> t = Return"
        then obtain n l where o: "op = Call n l" "rest = []" "t = Return" by blast
        obtain r where r: "x = Inl r" "calls D E' n s r"
          using st unfolding same p Cons o tail_called.simps
          by (elim istep_termE) (auto dest: C [unfolded same])
        have "exec D E' f (op # rest, t) s r"
        proof (cases "\<exists>s1. r = Back s1")
          case True
          then obtain s1 where "r = Back s1" by blast
          then show ?thesis using r(2) f'(1) o
            by (auto intro!: exec_step [OF istep_Call(1)] exec_leaves)
        next
          case False
          then show ?thesis using r(2) o by (auto intro!: exec_end istep_Call(2))
        qed
        then show ?thesis unfolding p Cons r(1) by (rule matched_exec)
      qed
    qed
  qed
qed

lemma tail_call_sound: "sound_change D (\<lambda>_. True) (\<lambda>f f'. f' = fst (tail_call_run f))"
proof -
  have "sound_change D (\<lambda>_. True) tail_call_change"
    by (rule sound_changeI [OF keeps_True _ tail_call_fwd tail_call_bwd]) (simp add: tail_call_change_def)
  from sound_change_star [OF this] show ?thesis
    by (rule sound_change_mono) (auto simp: tail_call_run_def tail_call_change_def)
qed

end
