(* ===== verification/Pass_Jumps.thy ===== *)
theory Pass_Jumps
  imports Pass_Base
begin

text \<open>
  The passes that rewire or delete jumps: \<open>jump-threading\<close> (\<open>jump_threading.rs\<close>) and \<open>dce\<close> (\<open>dce.rs\<close>) of
  \<open>crates/post-machine/src/optimizer\<close>. A \<open>HashMap\<close> collected from an iterator is the association list
  read from its end, a work list of the source is a list with its top in front.
\<close>

section \<open>jump-threading\<close>

definition forwards_to :: "ir_block \<Rightarrow> nat option" where
  "forwards_to b =
     (if b_ops b = [] then (case b_term b of Goto i \<Rightarrow> Some i | FallThrough i \<Rightarrow> Some i | _ \<Rightarrow> None)
      else None)"

definition forward_list :: "ir_function \<Rightarrow> (nat \<times> nat) list" where
  "forward_list f =
     rev (concat (map (\<lambda>b. case forwards_to b of Some i \<Rightarrow> [(b_id b, i)] | None \<Rightarrow> []) (fn_blocks f)))"

function resolve_loop :: "(nat \<times> nat) list \<Rightarrow> nat \<Rightarrow> nat set \<Rightarrow> nat \<Rightarrow> nat" where
  "resolve_loop fw first seen cur =
     (case map_of fw cur of
        None \<Rightarrow> cur
      | Some nxt \<Rightarrow>
          if cur \<in> seen then first
          else resolve_loop fw first (insert cur seen) nxt)"
  by pat_completeness auto
termination
proof (relation "measure (\<lambda>(fw, first, seen, cur). card (set (map fst fw) - seen))")
  fix fw :: "(nat \<times> nat) list" and first cur nxt :: nat and seen :: "nat set"
  assume "map_of fw cur = Some nxt" "cur \<notin> seen"
  then have "cur \<in> set (map fst fw) - seen" by (auto dest!: map_of_SomeD simp: image_iff intro: bexI [of _ "(cur, nxt)"])
  then have "card (set (map fst fw) - insert cur seen) < card (set (map fst fw) - seen)"
    by (intro psubset_card_mono) auto
  then show "((fw, first, insert cur seen, nxt), (fw, first, seen, cur))
      \<in> measure (\<lambda>(fw, first, seen, cur). card (set (map fst fw) - seen))" by simp
qed simp

declare resolve_loop.simps [simp del]

definition resolved :: "(nat \<times> nat) list \<Rightarrow> nat \<Rightarrow> nat" where
  "resolved fw i = resolve_loop fw i {} i"

text \<open>\<open>retarget\<close>: every target of the terminator, counting the ones that move.\<close>

definition thread_block :: "(nat \<times> nat) list \<Rightarrow> ir_block \<Rightarrow> ir_block \<times> nat" where
  "thread_block fw b =
     (b\<lparr>b_term := retarget (resolved fw) (b_term b)\<rparr>,
      length (filter (\<lambda>i. resolved fw i \<noteq> i) (targets (b_term b))))"

definition jump_threading_run :: "ir_function \<Rightarrow> ir_function \<times> nat" where
  "jump_threading_run f = run_blocks (thread_block (forward_list f)) f"

subsection \<open>Where a chain of forwarders ends\<close>

text \<open>\<open>forwarded fw n i k\<close>: following \<open>n\<close> forwarders from \<open>i\<close> leads to \<open>k\<close>.\<close>

fun forwarded :: "(nat \<times> nat) list \<Rightarrow> nat \<Rightarrow> nat \<Rightarrow> nat \<Rightarrow> bool" where
  "forwarded fw 0 i k \<longleftrightarrow> i = k"
| "forwarded fw (Suc n) i k \<longleftrightarrow> (case map_of fw i of Some j \<Rightarrow> forwarded fw n j k | None \<Rightarrow> False)"

definition ends_at :: "(nat \<times> nat) list \<Rightarrow> nat \<Rightarrow> nat \<Rightarrow> nat \<Rightarrow> bool" where
  "ends_at fw n i k \<longleftrightarrow> forwarded fw n i k \<and> map_of fw k = None"

lemma ends_at_unique: "ends_at fw n i k \<Longrightarrow> ends_at fw m i k' \<Longrightarrow> m = n"
proof (induction n arbitrary: i m)
  case 0
  then show ?case by (cases m) (auto simp: ends_at_def)
next
  case (Suc n)
  then show ?case by (cases m) (auto simp: ends_at_def split: option.splits)
qed

lemma ends_at_step:
  "ends_at fw (Suc n) i k \<longleftrightarrow> (\<exists>j. map_of fw i = Some j \<and> ends_at fw n j k)"
  by (auto simp: ends_at_def split: option.splits)

lemma resolve_loop_end:
  "ends_at fw n cur k \<Longrightarrow> \<forall>x \<in> seen. \<forall>m \<le> n. \<not> ends_at fw m x k \<Longrightarrow> resolve_loop fw first seen cur = k"
proof (induction n arbitrary: cur seen)
  case 0
  then have "cur = k" "map_of fw k = None" by (auto simp: ends_at_def)
  then show ?case by (simp add: resolve_loop.simps)
next
  case (Suc n)
  obtain j where j: "map_of fw cur = Some j" "ends_at fw n j k" using Suc.prems(1) by (auto simp: ends_at_step)
  have "cur \<notin> seen" using Suc.prems by blast
  moreover have "\<forall>x \<in> insert cur seen. \<forall>m \<le> n. \<not> ends_at fw m x k"
    using Suc.prems ends_at_unique [OF Suc.prems(1)] by fastforce
  ultimately show ?case using Suc.IH [OF j(2)] j(1) by (subst resolve_loop.simps) simp
qed

lemma resolve_loop_cases:
  "resolve_loop fw first seen cur = first \<or> (\<exists>n. ends_at fw n cur (resolve_loop fw first seen cur))"
proof (induction fw first seen cur rule: resolve_loop.induct)
  case (1 fw first seen cur)
  show ?case
  proof (cases "map_of fw cur")
    case None
    then have "ends_at fw 0 cur (resolve_loop fw first seen cur)"
      by (simp add: ends_at_def resolve_loop.simps)
    then show ?thesis by blast
  next
    case (Some j)
    show ?thesis
    proof (cases "cur \<in> seen")
      case True
      then show ?thesis using Some by (simp add: resolve_loop.simps)
    next
      case False
      have "resolve_loop fw first seen cur = resolve_loop fw first (insert cur seen) j"
        using Some False by (subst resolve_loop.simps) simp
      then show ?thesis using 1 [OF Some False] Some ends_at_step by metis
    qed
  qed
qed

lemma resolved_end: "ends_at fw n i k \<Longrightarrow> resolved fw i = k"
  by (simp add: resolved_def resolve_loop_end)

lemma resolved_cases:
  obtains (stays) "resolved fw i = i" "\<And>n k. \<not> ends_at fw n i k" | (ends) n where "ends_at fw n i (resolved fw i)"
proof (cases "\<exists>n k. ends_at fw n i k")
  case True
  then show ?thesis using resolved_end ends by metis
next
  case False
  then show ?thesis using stays resolve_loop_cases [of fw i "{}" i] by (auto simp: resolved_def)
qed

subsection \<open>Forwarders as blocks\<close>

lemma forward_Some:
  assumes "distinct (block_ids f)"
  shows "map_of (forward_list f) i = Some j \<longleftrightarrow> (\<exists>b. block_at f i = Some b \<and> forwards_to b = Some j)"
proof -
  let ?pair = "\<lambda>b. case forwards_to b of Some i \<Rightarrow> [(b_id b, i)] | None \<Rightarrow> []"
  have keys: "map fst (concat (map ?pair bs)) = map b_id (filter (\<lambda>b. forwards_to b \<noteq> None) bs)" for bs
    by (induction bs) (auto split: option.splits)
  have "distinct (map fst (forward_list f))"
    using assms unfolding forward_list_def rev_map [symmetric] distinct_rev keys
    by (simp add: block_ids_def distinct_map_filter)
  then have "map_of (forward_list f) i = Some j \<longleftrightarrow> (i, j) \<in> set (forward_list f)" by simp
  also have "\<dots> \<longleftrightarrow> (\<exists>b \<in> set (fn_blocks f). b_id b = i \<and> forwards_to b = Some j)"
  proof -
    have "(i, j) \<in> set (?pair b) \<longleftrightarrow> b_id b = i \<and> forwards_to b = Some j" for b
      by (auto split: option.splits)
    then show ?thesis by (simp add: forward_list_def)
  qed
  finally show ?thesis using assms by (auto simp: block_at_Some)
qed

lemma forwards_to_Some: "forwards_to b = Some j \<longleftrightarrow> point_of b = ([], Goto j) \<or> point_of b = ([], FallThrough j)"
  by (auto simp: forwards_to_def point_of_def split: ir_term.splits)

text \<open>A chain that starts at a block ends at one.\<close>

lemma chain_block:
  assumes "valid_fn f"
  shows "ends_at (forward_list f) n i k \<Longrightarrow> block_at f i = Some b \<Longrightarrow>
    \<exists>b'. block_at f k = Some b' \<and> reach D E f (point_of b) s (point_of b') s"
proof (induction n arbitrary: i b)
  case 0
  then show ?case by (auto simp: ends_at_def)
next
  case (Suc n)
  have d: "distinct (block_ids f)" using assms by (simp add: valid_fn_def)
  obtain j where j: "map_of (forward_list f) i = Some j" "ends_at (forward_list f) n j k"
    using Suc.prems(1) by (auto simp: ends_at_step)
  then have pt: "point_of b = ([], Goto j) \<or> point_of b = ([], FallThrough j)"
    using Suc.prems(2) by (simp add: forward_Some [OF d] forwards_to_Some)
  then have "j \<in> set (targets (b_term b))" by (auto simp: point_of_def)
  moreover have "b \<in> set (fn_blocks f)" using Suc.prems(2) by (simp add: block_at_Some [OF d])
  ultimately obtain b1 where b1: "block_at f j = Some b1" using valid_target [OF assms] by blast
  then obtain b' where b': "block_at f k = Some b'" "reach D E f (point_of b1) s (point_of b') s"
    using Suc.IH [OF j(2)] by blast
  have "reach D E f (point_of b) s (point_of b1) s" using pt b1 istep_to reach_step by metis
  then show ?case using b' reach_trans by blast
qed

subsection \<open>It preserves behaviour\<close>

lemma thread_block_simps [simp]:
  "b_id (fst (thread_block fw b)) = b_id b" "b_ops (fst (thread_block fw b)) = b_ops b"
  "b_term (fst (thread_block fw b)) = retarget (resolved fw) (b_term b)"
  by (simp_all add: thread_block_def)

abbreviation threaded :: "(nat \<times> nat) list \<Rightarrow> point \<Rightarrow> point" where
  "threaded fw p \<equiv> (fst p, retarget (resolved fw) (snd p))"

lemma point_of_thread: "point_of (fst (thread_block fw b)) = threaded fw (point_of b)"
  by (simp add: point_of_def)

definition thread_change :: "ir_function \<Rightarrow> ir_function \<Rightarrow> bool" where
  "thread_change f f' \<longleftrightarrow> valid_fn f \<and> f' = fst (jump_threading_run f)"

lemma thread_at:
  "block_at (fst (jump_threading_run f)) i = map_option (\<lambda>b. fst (thread_block (forward_list f) b)) (block_at f i)"
  unfolding jump_threading_run_def fst_run_blocks by (rule block_at_map) simp

text \<open>While the old program walks a chain, the new one waits at its end.\<close>

definition thread_fwd :: "'d point_rel" where
  "thread_fwd E f f' p s p' s' \<longleftrightarrow> s' = s \<and>
     (p' = threaded (forward_list f) p
      \<or> (\<exists>n j k b. (p = ([], Goto j) \<or> p = ([], FallThrough j)) \<and> ends_at (forward_list f) n j k
            \<and> block_at f k = Some b \<and> p' = threaded (forward_list f) (point_of b)))"

definition thread_bwd :: "'d point_rel" where
  "thread_bwd E f' f p' s' p s \<longleftrightarrow> s' = s \<and> p' = threaded (forward_list f) p"

lemma thread_fwd_block:
  assumes "valid_fn f" "ends_at (forward_list f) n i k" "block_at f i = Some b" "block_at f k = Some b'"
  shows "thread_fwd E f f' (point_of b) s (threaded (forward_list f) (point_of b')) s"
proof (cases n)
  case 0
  then have "b' = b" using assms by (simp add: ends_at_def)
  then show ?thesis by (simp add: thread_fwd_def)
next
  case (Suc m)
  then obtain j where j: "map_of (forward_list f) i = Some j" "ends_at (forward_list f) m j k"
    using assms(2) by (auto simp: ends_at_step)
  then have "point_of b = ([], Goto j) \<or> point_of b = ([], FallThrough j)"
    using assms(1,3) by (simp add: valid_fn_def forward_Some forwards_to_Some)
  then show ?thesis using j(2) assms(4) unfolding thread_fwd_def by blast
qed

lemma thread_fwd_sim: "enters G thread_change thread_fwd" "simulates D G thread_change thread_fwd"
proof -
  show "enters G thread_change thread_fwd"
    by (rule entersI)
      (auto simp: thread_change_def thread_fwd_def jump_threading_run_def entry_point_map point_of_thread)
  show "simulates D G thread_change thread_fwd"
  proof (rule simulatesI)
    fix E E' C f f' p x and s s' :: "'a ir_state" and p'
    assume T: "thread_change f f'" and K: "thread_fwd E' f f' p s p' s'" and "G s"
      and C: "call_part D G E E' C" and st: "istep D C f p s x"
    note C = call_partD(2) [OF C \<open>G s\<close>]
    let ?fw = "forward_list f"
    have f: "valid_fn f" and f': "f' = fst (jump_threading_run f)" and s': "s' = s"
      using T K by (simp_all add: thread_change_def thread_fwd_def)
    consider (lag) n j k b where "p = ([], Goto j) \<or> p = ([], FallThrough j)" "ends_at ?fw n j k"
        "block_at f k = Some b" "p' = threaded ?fw (point_of b)"
      | (same) "p' = threaded ?fw p" using K unfolding thread_fwd_def by blast
    then show "matched D E' (thread_fwd E' f f') f' p' s' x"
    proof cases
      case (lag n j k b)
      obtain bj where bj: "block_at f j = Some bj" "x = Inr (point_of bj, s)"
        using lag(1) st by (auto elim!: istep_termE)
      show ?thesis unfolding bj(2) lag(4) s'
        by (rule matched_stay) (rule thread_fwd_block [OF f lag(2) bj(1) lag(3)])
    next
      case same
      obtain ops t where p: "p = (ops, t)" by (cases p)
      show ?thesis
      proof (cases ops)
        case (Cons op rest)
        show ?thesis unfolding same p Cons fst_conv snd_conv s'
          by (rule matched_op [OF st [unfolded p Cons] same_instr_refl C]) (auto simp: thread_fwd_def)
      next
        case Nil
        have goes: "matched D E' (thread_fwd E' f f') f' ([], retarget (resolved ?fw) t) s (Inr (point_of b, s))"
          if g: "goes t (s_mf s) = Some i" and b: "block_at f i = Some b" for i b
        proof (cases rule: resolved_cases [of ?fw i])
          case stays
          then show ?thesis using g b
            by (intro matched_step [OF istep_goes]) (auto simp: f' thread_at point_of_thread thread_fwd_def)
        next
          case (ends n)
          obtain bk where bk: "block_at f (resolved ?fw i) = Some bk"
            using chain_block [OF f ends b] by blast
          show ?thesis
          proof (rule matched_step [OF istep_goes])
            show "goes (retarget (resolved ?fw) t) (s_mf s) = Some (resolved ?fw i)" using g by simp
            show "block_at f' (resolved ?fw i) = Some (fst (thread_block ?fw bk))" using bk by (simp add: f' thread_at)
            show "thread_fwd E' f f' (point_of b) s (point_of (fst (thread_block ?fw bk))) s"
              unfolding point_of_thread by (rule thread_fwd_block [OF f ends b bk])
          qed
        qed
        show ?thesis unfolding same p Nil fst_conv snd_conv s'
          by (rule matched_term [OF st [unfolded p Nil] _ _ C goes])
            (auto intro: leaves_name simp: f' jump_threading_run_def)
      qed
    qed
  qed
qed

lemma thread_bwd_sim:
  "enters G (\<lambda>f' f. thread_change f f') (thread_bwd :: 'd point_rel)"
  "simulates (D :: 'd device) G (\<lambda>f' f. thread_change f f') thread_bwd"
proof -
  show "enters G (\<lambda>f' f. thread_change f f') (thread_bwd :: 'd point_rel)"
    by (rule entersI)
      (auto simp: thread_change_def thread_bwd_def jump_threading_run_def entry_point_map point_of_thread)
  show "simulates D G (\<lambda>f' f. thread_change f f') thread_bwd"
  proof (rule simulatesI)
    fix E E' C f f' p x and s s' :: "'d ir_state" and p'
    assume T: "thread_change f f'" and K: "thread_bwd E' f' f p' s' p s" and "G s'"
      and C: "call_part D G E E' C" and st: "istep D C f' p' s' x"
    let ?fw = "forward_list f"
    have f: "valid_fn f" and f': "f' = fst (jump_threading_run f)" and same: "s' = s" "p' = threaded ?fw p"
      using T K by (simp_all add: thread_change_def thread_bwd_def)
    note C = call_partD(2) [OF C \<open>G s'\<close>, unfolded same]
    obtain ops t where p: "p = (ops, t)" by (cases p)
    note st = st [unfolded same p fst_conv snd_conv]
    show "matched D E' (thread_bwd E' f' f) f p s x"
    proof (cases ops)
      case (Cons op rest)
      show ?thesis unfolding p Cons
        by (rule matched_op [OF st [unfolded Cons] same_instr_refl C]) (auto simp: thread_bwd_def)
    next
      case Nil
      have goes: "matched D E' (thread_bwd E' f' f) f ([], t) s (Inr (point_of b', s))"
        if g': "goes (retarget (resolved ?fw) t) (s_mf s) = Some k" and b': "block_at f' k = Some b'" for k b'
      proof -
        obtain i where i: "goes t (s_mf s) = Some i" "k = resolved ?fw i" using g' by auto
        obtain b where b: "block_at f k = Some b" "b' = fst (thread_block ?fw b)"
          using b' by (auto simp: f' thread_at)
        have K: "thread_bwd E' f' f (point_of b') s (point_of b) s" unfolding b(2) by (simp add: thread_bwd_def point_of_thread)
        show ?thesis
        proof (cases rule: resolved_cases [of ?fw i])
          case stays
          then show ?thesis using i b K by (intro matched_step [OF istep_goes]) auto
        next
          case (ends n)
          have "map_of ?fw k = None" using ends i(2) by (simp add: ends_at_def)
          obtain bi where bi: "block_at f i = Some bi"
          proof (cases n)
            case 0
            then show ?thesis using ends i(2) b(1) that by (simp add: ends_at_def)
          next
            case (Suc m)
            then show ?thesis using ends f that by (auto simp: ends_at_step forward_Some valid_fn_def)
          qed
          have "reach D E' f (point_of bi) s (point_of b) s"
            using chain_block [OF f ends bi] b(1) i(2) by fastforce
          moreover have "istep D (calls D E') f ([], t) s (Inr (point_of bi, s))" by (rule istep_goes [OF i(1) bi])
          ultimately have "reach D E' f ([], t) s (point_of b) s" using reach_next by blast
          then show ?thesis by (rule matched_first) (rule matched_stay, rule K)
        qed
      qed
      show ?thesis unfolding p Nil
        by (rule matched_term [OF st [unfolded Nil] _ _ C goes])
          (auto intro: leaves_name simp: f' jump_threading_run_def)
    qed
  qed
qed

lemma jump_threading_sound:
  "sound_change D (\<lambda>_. True) (\<lambda>f f'. valid_fn f \<and> f' = fst (jump_threading_run f))"
  using sound_changeI [OF keeps_True _ thread_fwd_sim thread_bwd_sim]
  by (simp add: thread_change_def [abs_def] jump_threading_run_def)

lemma jump_threading_ok:
  assumes "fn_ok f"
  shows "fn_ok (fst (jump_threading_run f))"
  unfolding jump_threading_run_def fst_run_blocks
proof (rule fn_ok_map [OF assms])
  fix b assume b: "b \<in> set (fn_blocks f)"
  have f: "valid_fn f" using assms by (simp add: fn_ok_def)
  show "set (targets (b_term (fst (thread_block (forward_list f) b)))) \<subseteq> set (block_ids f)"
  proof
    fix k assume "k \<in> set (targets (b_term (fst (thread_block (forward_list f) b))))"
    then obtain i where i: "i \<in> set (targets (b_term b))" "k = resolved (forward_list f) i" by auto
    obtain bi where bi: "block_at f i = Some bi" using valid_target [OF f b i(1)] by blast
    show "k \<in> set (block_ids f)"
    proof (cases rule: resolved_cases [of "forward_list f" i])
      case stays
      then show ?thesis using i fn_ok_targets [OF assms b] by auto
    next
      case (ends n)
      have "block_at f k \<noteq> None" using chain_block [OF f ends bi, of undefined undefined undefined] i(2) by auto
      then show ?thesis using block_at_None [OF fn_ok_distinct [OF assms]] by simp
    qed
  qed
qed (auto dest: fn_ok_symbols [OF assms])

section \<open>dce\<close>

text \<open>The walk over what the entry reaches; \<open>index[&id]\<close> of an absent id panics.\<close>

function reach_loop :: "ir_function \<Rightarrow> nat set \<Rightarrow> nat list \<Rightarrow> nat set option" where
  "reach_loop f seen [] = Some seen"
| "reach_loop f seen (i # work) =
     (if i \<in> seen then reach_loop f seen work
      else case block_at f i of
             None \<Rightarrow> None
           | Some b \<Rightarrow> reach_loop f (insert i seen) (rev (targets (b_term b)) @ work))"
  by pat_completeness auto
termination
proof (relation "measures [\<lambda>(f, seen, work). card (set (block_ids f) - seen), \<lambda>(f, seen, work). length work]")
  fix f :: ir_function and seen :: "nat set" and i work b
  assume "i \<notin> seen" "block_at f i = Some b"
  then have "i \<in> set (block_ids f) - seen"
    by (auto simp: block_at_def block_index_def dest!: map_of_SomeD set_zip_leftD)
  then have "card (set (block_ids f) - insert i seen) < card (set (block_ids f) - seen)"
    by (intro psubset_card_mono) auto
  then show "((f, insert i seen, rev (targets (b_term b)) @ work), (f, seen, i # work))
      \<in> measures [\<lambda>(f, seen, work). card (set (block_ids f) - seen), \<lambda>(f, seen, work). length work]" by simp
qed simp_all

definition dce_run :: "ir_function \<Rightarrow> pass_result" where
  "dce_run f =
     (case fn_blocks f of
        [] \<Rightarrow> None
      | b # _ \<Rightarrow>
          (case reach_loop f {} [b_id b] of
             None \<Rightarrow> None
           | Some seen \<Rightarrow>
               (let kept = filter (\<lambda>b. b_id b \<in> seen) (fn_blocks f)
                in Some (f\<lparr>fn_blocks := kept\<rparr>, length (fn_blocks f) - length kept))))"

subsection \<open>What it keeps\<close>

definition closed_in :: "ir_function \<Rightarrow> nat set \<Rightarrow> nat set \<Rightarrow> bool" where
  "closed_in f seen S \<longleftrightarrow> (\<forall>i \<in> seen. \<forall>b. block_at f i = Some b \<longrightarrow> set (targets (b_term b)) \<subseteq> S)"

lemma reach_loop_closed:
  "reach_loop f seen work = Some S \<Longrightarrow> closed_in f seen (seen \<union> set work) \<Longrightarrow>
     closed_in f S S \<and> seen \<union> set work \<subseteq> S"
proof (induction f seen work rule: reach_loop.induct)
  case (2 f seen i work)
  show ?case
  proof (cases "i \<in> seen")
    case True
    then show ?thesis using 2 by (simp add: insert_absorb)
  next
    case False
    then obtain b where b: "block_at f i = Some b"
      and r: "reach_loop f (insert i seen) (rev (targets (b_term b)) @ work) = Some S"
      using 2 by (auto split: option.splits)
    have "closed_in f (insert i seen) (insert i seen \<union> set (rev (targets (b_term b)) @ work))"
      unfolding closed_in_def
    proof (intro ballI allI impI)
      fix j b' assume "j \<in> insert i seen" "block_at f j = Some b'"
      then show "set (targets (b_term b')) \<subseteq> insert i seen \<union> set (rev (targets (b_term b)) @ work)"
        using "2.prems"(2) b by (cases "j = i") (auto simp: closed_in_def)
    qed
    from "2.IH"(2) [OF False b r this] show ?thesis by auto
  qed
qed simp

lemma reach_loop_returns:
  "valid_fn f \<Longrightarrow> set work \<subseteq> set (block_ids f) \<Longrightarrow> \<exists>S. reach_loop f seen work = Some S"
proof (induction f seen work rule: reach_loop.induct)
  case (2 f seen i work)
  show ?case
  proof (cases "i \<in> seen")
    case False
    have d: "distinct (block_ids f)" using 2 by (simp add: valid_fn_def)
    then obtain b where b: "block_at f i = Some b" using 2 block_at_None [OF d, of i] by auto
    then have "set (targets (b_term b)) \<subseteq> set (block_ids f)"
      using 2 by (auto simp: block_at_Some [OF d] valid_fn_def)
    then show ?thesis using 2 False b by simp
  qed (use 2 in simp)
qed simp

text \<open>A function cut down to a closed set of blocks that has the entry.\<close>

definition dce_change :: "ir_function \<Rightarrow> ir_function \<Rightarrow> bool" where
  "dce_change f f' \<longleftrightarrow> valid_fn f \<and>
     (\<exists>S. f' = f\<lparr>fn_blocks := filter (\<lambda>b. b_id b \<in> S) (fn_blocks f)\<rparr> \<and> b_id (hd (fn_blocks f)) \<in> S \<and> closed_in f S S)"

lemma dce_run_change:
  assumes "valid_fn f"
  shows "\<exists>f' n. dce_run f = Some (f', n) \<and> dce_change f f'"
proof -
  obtain b bs where b: "fn_blocks f = b # bs" using assms by (cases "fn_blocks f") (auto simp: valid_fn_def)
  have "set [b_id b] \<subseteq> set (block_ids f)" using b by (simp add: block_ids_def)
  then obtain S where S: "reach_loop f {} [b_id b] = Some S" using reach_loop_returns [OF assms] by blast
  have "closed_in f S S" "b_id b \<in> S" using reach_loop_closed [OF S] by (auto simp: closed_in_def)
  moreover have "\<exists>n. dce_run f = Some (f\<lparr>fn_blocks := filter (\<lambda>b. b_id b \<in> S) (fn_blocks f)\<rparr>, n)"
    unfolding dce_run_def b list.case S option.case Let_def by blast
  ultimately show ?thesis using assms b unfolding dce_change_def by fastforce
qed

lemma dce_change_facts:
  assumes "dce_change f f'"
  shows "fn_name f' = fn_name f" "entry_point f' = entry_point f" "valid_fn f'"
    "i \<in> set (block_ids f') \<Longrightarrow> block_at f' i = block_at f i"
    "b \<in> set (fn_blocks f') \<Longrightarrow> set (targets (b_term b)) \<subseteq> set (block_ids f')"
    "set (fn_blocks f') \<subseteq> set (fn_blocks f)"
proof -
  obtain S where f: "valid_fn f" "f' = f\<lparr>fn_blocks := filter (\<lambda>b. b_id b \<in> S) (fn_blocks f)\<rparr>"
      "b_id (hd (fn_blocks f)) \<in> S" "closed_in f S S" using assms by (auto simp: dce_change_def)
  obtain b0 bs where b0: "fn_blocks f = b0 # bs" using f(1) by (cases "fn_blocks f") (auto simp: valid_fn_def)
  have d: "distinct (block_ids f)" using f(1) by (simp add: valid_fn_def)
  then have d': "distinct (block_ids f')" using f(2) by (simp add: block_ids_def distinct_map_filter)
  show "fn_name f' = fn_name f" "entry_point f' = entry_point f" using f b0 by (simp_all add: entry_point_def)
  show sub: "set (fn_blocks f') \<subseteq> set (fn_blocks f)" using f by auto
  show at: "block_at f' i = block_at f i" if i: "i \<in> set (block_ids f')" for i
  proof -
    obtain b where "block_at f' i = Some b" using i block_at_None [OF d', of i] by auto
    then show ?thesis using sub block_at_Some [OF d, of i b] block_at_Some [OF d', of i b] by auto
  qed
  have ids: "i \<in> set (block_ids f')" if "i \<in> S" "i \<in> set (block_ids f)" for i
    using that f(2) by (auto simp: block_ids_def)
  show tg: "set (targets (b_term b)) \<subseteq> set (block_ids f')" if b: "b \<in> set (fn_blocks f')" for b
  proof -
    have "b_id b \<in> S" "b \<in> set (fn_blocks f)" using b f(2) by auto
    then have "set (targets (b_term b)) \<subseteq> S" "set (targets (b_term b)) \<subseteq> set (block_ids f)"
      using f(1,4) block_at_Some [OF d, of "b_id b" b] by (auto simp: closed_in_def valid_fn_def)
    then show ?thesis using ids by blast
  qed
  show "valid_fn f'" using d' tg b0 f by (auto simp: valid_fn_def)
qed

definition dce_rel :: "ir_function \<Rightarrow> point \<Rightarrow> bool" where
  "dce_rel f' p \<longleftrightarrow> set (targets (snd p)) \<subseteq> set (block_ids f')"

definition dce_fwd :: "'d point_rel" where
  "dce_fwd E f f' p s p' s' \<longleftrightarrow> s' = s \<and> p' = p \<and> dce_rel f' p"

definition dce_bwd :: "'d point_rel" where
  "dce_bwd E f' f p' s' p s \<longleftrightarrow> s' = s \<and> p' = p \<and> dce_rel f' p"

lemma dce_entry: "dce_change f f' \<Longrightarrow> entry_point f' = Some p \<Longrightarrow> dce_rel f' p"
  using dce_change_facts(5) [of f f' "hd (fn_blocks f')"]
  by (auto simp: entry_point_def dce_rel_def split: list.splits)

lemma dce_next:
  assumes T: "dce_change f f'" and p: "dce_rel f' ([], t)" and g: "goes t mf = Some i"
  shows "block_at f' i = block_at f i" "block_at f' i = Some b \<Longrightarrow> dce_rel f' (point_of b)"
proof -
  have i: "i \<in> set (block_ids f')" using p goes_targets [OF g] by (auto simp: dce_rel_def)
  then show "block_at f' i = block_at f i" by (rule dce_change_facts(4) [OF T])
  show "dce_rel f' (point_of b)" if "block_at f' i = Some b"
    using that dce_change_facts(3,5) [OF T] by (auto simp: dce_rel_def valid_fn_def block_at_Some)
qed

lemma dce_sims:
  "enters G dce_change (dce_fwd :: 'd point_rel)" "simulates (D :: 'd device) G dce_change dce_fwd"
  "enters G (\<lambda>f' f. dce_change f f') (dce_bwd :: 'd point_rel)" "simulates D G (\<lambda>f' f. dce_change f f') dce_bwd"
proof -
  show "enters G dce_change (dce_fwd :: 'd point_rel)"
    by (rule entersI) (auto simp: dce_fwd_def dce_change_facts(2) intro: dce_entry)
  show "enters G (\<lambda>f' f. dce_change f f') (dce_bwd :: 'd point_rel)"
    by (rule entersI) (auto simp: dce_bwd_def dce_change_facts(2) intro: dce_entry)
  show "simulates D G dce_change dce_fwd"
  proof (rule simulatesI)
    fix E E' C f f' p x and s s' :: "'d ir_state" and p'
    assume T: "dce_change f f'" and K: "dce_fwd E' f f' p s p' s'" and "G s"
      and C: "call_part D G E E' C" and st: "istep D C f p s x"
    note C = call_partD(2) [OF C \<open>G s\<close>]
    obtain ops t where p: "p = (ops, t)" by (cases p)
    have K: "s' = s" "p' = (ops, t)" "dce_rel f' (ops, t)" using K p by (simp_all add: dce_fwd_def)
    show "matched D E' (dce_fwd E' f f') f' p' s' x"
    proof (cases ops)
      case Nil
      note K = K [unfolded Nil]
      show ?thesis unfolding K(1,2)
        by (rule matched_term [OF st [unfolded p Nil] refl leaves_name [OF dce_change_facts(1) [OF T]] C])
          (auto intro!: matched_step [OF istep_goes] simp: dce_next [OF T K(3)] dce_fwd_def)
    next
      case (Cons op rest)
      show ?thesis unfolding K(1,2) Cons
        by (rule matched_op [OF st [unfolded p Cons] same_instr_refl C]) (use K in \<open>auto simp: dce_fwd_def dce_rel_def\<close>)
    qed
  qed
  show "simulates D G (\<lambda>f' f. dce_change f f') dce_bwd"
  proof (rule simulatesI)
    fix E E' C f f' p x and s s' :: "'d ir_state" and p'
    assume T: "dce_change f f'" and K: "dce_bwd E' f' f p' s' p s" and "G s'"
      and C: "call_part D G E E' C" and st: "istep D C f' p' s' x"
    note C = call_partD(2) [OF C \<open>G s'\<close>]
    obtain ops t where p: "p' = (ops, t)" by (cases p')
    have K: "s = s'" "p = (ops, t)" "dce_rel f' (ops, t)" using K p by (simp_all add: dce_bwd_def)
    show "matched D E' (dce_bwd E' f' f) f p s x"
    proof (cases ops)
      case Nil
      note K = K [unfolded Nil]
      show ?thesis unfolding K(1,2)
        by (rule matched_term [OF st [unfolded p Nil] refl leaves_name [OF dce_change_facts(1) [OF T, symmetric]] C])
          (auto intro!: matched_step [OF istep_goes] simp: dce_next [OF T K(3)] dce_bwd_def)
    next
      case (Cons op rest)
      show ?thesis unfolding K(1,2) Cons
        by (rule matched_op [OF st [unfolded p Cons] same_instr_refl C]) (use K in \<open>auto simp: dce_bwd_def dce_rel_def\<close>)
    qed
  qed
qed

lemma dce_ok: "fn_ok f \<Longrightarrow> dce_change f f' \<Longrightarrow> fn_ok f'"
  using dce_change_facts(3,6) [of f f'] by (auto simp: fn_ok_def symbols_ok_def)

lemma dce_sound: "sound_change D (\<lambda>_. True) dce_change"
  by (rule sound_changeI [OF keeps_True _ dce_sims]) (rule dce_change_facts(1))

end
