(* ===== verification/Pass_Tails.thy ===== *)
theory Pass_Tails
  imports Pass_Base
begin

text \<open>
  \<open>tail-merge\<close> (\<open>crates/post-machine/src/optimizer/tail_merge.rs\<close>): equal blocks are merged, and a return
  followed by an empty returning block falls through into it. \<open>same_op\<close> is also what \<open>tail-sink\<close>
  compares by.
\<close>

section \<open>tail-merge\<close>

fun same_op :: "ir_op \<Rightarrow> ir_op \<Rightarrow> bool" where
  "same_op (Lft _) (Lft _) \<longleftrightarrow> True"
| "same_op (Rgt _) (Rgt _) \<longleftrightarrow> True"
| "same_op (Brk _) (Brk _) \<longleftrightarrow> True"
| "same_op (Wr x _) (Wr y _) \<longleftrightarrow> x = y"
| "same_op (Call x _) (Call y _) \<longleftrightarrow> x = y"
| "same_op _ _ \<longleftrightarrow> False"

definition same_block :: "ir_block \<Rightarrow> ir_block \<Rightarrow> bool" where
  "same_block a b \<longleftrightarrow> length (b_ops a) = length (b_ops b)
     \<and> list_all (\<lambda>(x, y). same_op x y) (zip (b_ops a) (b_ops b)) \<and> b_term a = b_term b"

text \<open>The first pair of equal blocks, as (duplicate, keeper).\<close>

definition find_duplicate :: "ir_function \<Rightarrow> (nat \<times> nat) option" where
  "find_duplicate f =
     (let bs = fn_blocks f; n = length bs in
      map_option (\<lambda>(i, j). (b_id (bs ! j), b_id (bs ! i)))
        (find (\<lambda>(i, j). same_block (bs ! i) (bs ! j))
          (concat (map (\<lambda>i. map (Pair i) [Suc i..<n]) [0..<n]))))"

definition redirect :: "nat \<Rightarrow> nat \<Rightarrow> nat \<Rightarrow> nat" where
  "redirect dup keeper i = (if i = dup then keeper else i)"

definition merge_into :: "nat \<Rightarrow> nat \<Rightarrow> ir_function \<Rightarrow> ir_function" where
  "merge_into dup keeper f =
     f\<lparr>fn_blocks :=
         filter (\<lambda>b. b_id b \<noteq> dup)
           (map (\<lambda>b. b\<lparr>b_term := retarget (redirect dup keeper) (b_term b)\<rparr>) (fn_blocks f))\<rparr>"

lemma find_duplicate_Some:
  assumes "find_duplicate f = Some (dup, keeper)"
  shows "\<exists>i j. i < j \<and> j < length (fn_blocks f) \<and> same_block (fn_blocks f ! i) (fn_blocks f ! j)
    \<and> dup = b_id (fn_blocks f ! j) \<and> keeper = b_id (fn_blocks f ! i)"
proof -
  let ?bs = "fn_blocks f"
  obtain i j where f: "find (\<lambda>(i, j). same_block (?bs ! i) (?bs ! j))
        (concat (map (\<lambda>i. map (Pair i) [Suc i..<length ?bs]) [0..<length ?bs])) = Some (i, j)"
      and d: "dup = b_id (?bs ! j)" "keeper = b_id (?bs ! i)"
    using assms by (auto simp: find_duplicate_def Let_def)
  from find_SomeD [OF f] d show ?thesis by (intro exI [of _ i] exI [of _ j]) auto
qed

function dedup_loop :: "ir_function \<Rightarrow> nat \<Rightarrow> ir_function \<times> nat" where
  "dedup_loop f changes =
     (case find_duplicate f of
        None \<Rightarrow> (f, changes)
      | Some (dup, keeper) \<Rightarrow> dedup_loop (merge_into dup keeper f) (changes + 1))"
  by pat_completeness auto
termination
proof (relation "measure (\<lambda>(f, changes). length (fn_blocks f))")
  fix f :: ir_function and changes dup keeper :: nat and q
  assume "find_duplicate f = Some q" "(dup, keeper) = q"
  then have "dup \<in> b_id ` set (fn_blocks f)" using find_duplicate_Some [of f dup keeper] by auto
  then have "length (filter (\<lambda>b. b_id b \<noteq> dup) (fn_blocks f)) < length (fn_blocks f)"
    by (auto intro!: length_filter_less)
  then show "((merge_into dup keeper f, changes + 1), (f, changes)) \<in> measure (\<lambda>(f, changes). length (fn_blocks f))"
    by (simp add: merge_into_def filter_map comp_def)
qed simp

declare dedup_loop.simps [simp del]

text \<open>Return-chaining, from the first block on; a block's successor is still as it was.\<close>

fun chain_returns :: "ir_block list \<Rightarrow> ir_block list \<times> nat" where
  "chain_returns (a # b # bs) =
     (let (rest, n) = chain_returns (b # bs) in
      if b_term a = Return \<and> b_ops b = [] \<and> b_term b = Return
      then (a\<lparr>b_term := FallThrough (b_id b)\<rparr> # rest, n + 1)
      else (a # rest, n))"
| "chain_returns bs = (bs, 0)"

definition tail_merge_run :: "ir_function \<Rightarrow> ir_function \<times> nat" where
  "tail_merge_run f =
     (let (f1, n) = dedup_loop f 0; (bs, m) = chain_returns (fn_blocks f1)
      in (f1\<lparr>fn_blocks := bs\<rparr>, n + m))"

subsection \<open>Merging two equal blocks\<close>

lemma same_op_instr: "same_op a b \<Longrightarrow> same_instr a b"
  by (cases a; cases b) simp_all

lemma same_block_instrs: "same_block a b \<Longrightarrow> list_all2 same_instr (b_ops a) (b_ops b) \<and> b_term a = b_term b"
  by (auto simp: same_block_def list_all2_iff list_all_iff intro: same_op_instr)

abbreviation same_instrs :: "ir_op list \<Rightarrow> ir_op list \<Rightarrow> bool" where
  "same_instrs \<equiv> list_all2 same_instr"

lemma same_instrs_refl [simp]: "same_instrs ops ops"
  by (simp add: list_all2_refl)

lemma same_instrs_sym: "same_instrs a b \<Longrightarrow> same_instrs b a"
  by (induction rule: list_all2_induct) (auto intro: same_instr_sym)

definition merge_change :: "ir_function \<Rightarrow> ir_function \<Rightarrow> bool" where
  "merge_change f f' \<longleftrightarrow> fn_ok f \<and> (\<exists>dup keeper. find_duplicate f = Some (dup, keeper) \<and> f' = merge_into dup keeper f)"

text \<open>The blocks of the merged function.\<close>

definition merging ::
  "ir_function \<Rightarrow> ir_function \<Rightarrow> nat \<Rightarrow> nat \<Rightarrow> ir_block \<Rightarrow> ir_block \<Rightarrow> bool" where
  "merging f f' dup keeper bd bk \<longleftrightarrow> fn_ok f \<and> f' = merge_into dup keeper f
     \<and> block_at f dup = Some bd \<and> block_at f keeper = Some bk
     \<and> same_instrs (b_ops bk) (b_ops bd) \<and> b_term bk = b_term bd
     \<and> dup \<noteq> keeper \<and> dup \<noteq> b_id (hd (fn_blocks f))"

abbreviation moved_block :: "nat \<Rightarrow> nat \<Rightarrow> ir_block \<Rightarrow> ir_block" where
  "moved_block dup keeper b \<equiv> b\<lparr>b_term := retarget (redirect dup keeper) (b_term b)\<rparr>"

lemma merging_facts:
  assumes M: "merging f f' dup keeper bd bk"
  shows ids': "block_ids f' = filter (\<lambda>i. i \<noteq> dup) (block_ids f)"
    and distinct': "distinct (block_ids f')"
    and at': "i \<noteq> dup \<Longrightarrow> block_at f' i = map_option (moved_block dup keeper) (block_at f i)"
    and name': "fn_name f' = fn_name f"
    and entry': "entry_point f = Some p \<Longrightarrow> entry_point f' = Some (fst p, retarget (redirect dup keeper) (snd p))"
    and ok': "fn_ok f'"
proof -
  have ok: "fn_ok f" and new: "f' = merge_into dup keeper f"
    and keeper_block: "block_at f keeper = Some bk"
    and apart: "dup \<noteq> keeper" "dup \<noteq> b_id (hd (fn_blocks f))"
    using M by (simp_all add: merging_def)
  note d = fn_ok_distinct [OF ok]
  show ids': "block_ids f' = filter (\<lambda>i. i \<noteq> dup) (block_ids f)"
    by (simp add: new merge_into_def block_ids_def filter_map comp_def)
  show distinct': "distinct (block_ids f')" using d by (simp add: ids')
  show "block_at f' i = map_option (moved_block dup keeper) (block_at f i)" if i: "i \<noteq> dup"
  proof (cases "block_at f i")
    case None
    then have "block_at f' i = None" using block_at_None [OF d] block_at_None [OF distinct'] by (simp add: ids')
    then show ?thesis using None by simp
  next
    case (Some b)
    then have "moved_block dup keeper b \<in> set (fn_blocks f')" "b_id (moved_block dup keeper b) = i"
      using i by (auto simp: new merge_into_def block_at_Some [OF d])
    then show ?thesis using Some by (simp add: block_at_Some [OF distinct'])
  qed
  show "fn_name f' = fn_name f" by (simp add: new merge_into_def)
  show "entry_point f' = Some (fst p, retarget (redirect dup keeper) (snd p))" if "entry_point f = Some p"
    using that apart(2) by (auto simp: entry_point_def new merge_into_def point_of_def split: list.splits)
  show "fn_ok f'"
  proof -
    have hd: "fn_blocks f \<noteq> []" by (rule fn_ok_nonempty [OF ok])
    have "keeper \<in> set (block_ids f')"
      using keeper_block apart(1) block_at_None [OF d, of keeper] by (auto simp: ids')
    then have "redirect dup keeper i \<in> set (block_ids f')" if "i \<in> set (block_ids f)" for i
      using that by (auto simp: ids' redirect_def)
    then have "\<forall>b \<in> set (fn_blocks f'). set (targets (b_term b)) \<subseteq> set (block_ids f')"
      using fn_ok_targets [OF ok] by (fastforce simp: new merge_into_def)
    moreover have "fn_blocks f' \<noteq> []" using hd apart(2) by (cases "fn_blocks f") (auto simp: new merge_into_def)
    moreover have "symbols_ok f'" using ok by (auto simp: fn_ok_def symbols_ok_def new merge_into_def)
    ultimately show ?thesis using distinct' by (auto simp: fn_ok_def valid_fn_def)
  qed
qed

text \<open>Going to a block and going to where it was moved.\<close>

lemma moved_target:
  assumes M: "merging f f' dup keeper bd bk" and b: "block_at f i = Some b"
  obtains b' where "block_at f' (redirect dup keeper i) = Some b'" "same_instrs (b_ops b) (b_ops b')"
    "b_term b' = retarget (redirect dup keeper) (b_term b)"
proof (cases "i = dup")
  case True
  have "keeper \<noteq> dup" using M by (auto simp: merging_def)
  then have "block_at f' (redirect dup keeper i) = Some (moved_block dup keeper bk)" "b = bd"
    using merging_facts(3) [OF M, of keeper] M b True by (simp_all add: redirect_def merging_def)
  then show ?thesis using M that by (auto simp: merging_def intro: same_instrs_sym)
next
  case False
  then have "block_at f' (redirect dup keeper i) = Some (moved_block dup keeper b)"
    using merging_facts(3) [OF M] b by (simp add: redirect_def)
  then show ?thesis using that by simp
qed

lemma merge_change_merging:
  assumes "merge_change f f'"
  obtains dup keeper bd bk where "merging f f' dup keeper bd bk"
proof -
  obtain dup keeper where fd: "find_duplicate f = Some (dup, keeper)" "f' = merge_into dup keeper f" and ok: "fn_ok f"
    using assms by (auto simp: merge_change_def)
  obtain i j where ij: "i < j" "j < length (fn_blocks f)" "same_block (fn_blocks f ! i) (fn_blocks f ! j)"
      "dup = b_id (fn_blocks f ! j)" "keeper = b_id (fn_blocks f ! i)"
    using find_duplicate_Some [OF fd(1)] by blast
  note d = fn_ok_distinct [OF ok]
  have neq: "b_id (fn_blocks f ! a) \<noteq> b_id (fn_blocks f ! b)" if "a < b" "b < length (fn_blocks f)" for a b
    using d that nth_eq_iff_index_eq [OF d, of a b] by (simp add: block_ids_def)
  have "merging f f' dup keeper (fn_blocks f ! j) (fn_blocks f ! i)"
    unfolding merging_def
  proof (intro conjI)
    show "block_at f dup = Some (fn_blocks f ! j)" "block_at f keeper = Some (fn_blocks f ! i)"
      using ij by (simp_all add: block_at_Some [OF d])
    show "same_instrs (b_ops (fn_blocks f ! i)) (b_ops (fn_blocks f ! j))"
      "b_term (fn_blocks f ! i) = b_term (fn_blocks f ! j)" using same_block_instrs [OF ij(3)] by simp_all
    show "dup \<noteq> keeper" using neq [OF ij(1,2)] ij(4,5) by simp
    show "dup \<noteq> b_id (hd (fn_blocks f))"
      using neq [of 0 j] ij fn_ok_nonempty [OF ok] by (simp add: hd_conv_nth)
  qed (use ok fd(2) in simp_all)
  then show ?thesis by (rule that)
qed

definition merge_points :: "ir_function \<Rightarrow> ir_function \<Rightarrow> point \<Rightarrow> point \<Rightarrow> bool" where
  "merge_points f f' p p' \<longleftrightarrow> (\<exists>dup keeper bd bk. merging f f' dup keeper bd bk
     \<and> same_instrs (fst p) (fst p') \<and> snd p' = retarget (redirect dup keeper) (snd p))"

definition merge_fwd :: "'d point_rel" where
  "merge_fwd E f f' p s p' s' \<longleftrightarrow> s' = s \<and> merge_points f f' p p'"

definition merge_bwd :: "'d point_rel" where
  "merge_bwd E f' f p' s' p s \<longleftrightarrow> s' = s \<and> merge_points f f' p p'"

lemma merge_entry:
  assumes "merge_change f f'"
  shows "entry_point f = Some p \<Longrightarrow> \<exists>p'. entry_point f' = Some p' \<and> merge_points f f' p p'"
    "entry_point f' = Some p' \<Longrightarrow> \<exists>p. entry_point f = Some p \<and> merge_points f f' p p'"
proof -
  obtain dup keeper bd bk where M: "merging f f' dup keeper bd bk" by (rule merge_change_merging [OF assms])
  show fwd: "\<exists>p'. entry_point f' = Some p' \<and> merge_points f f' p p'" if "entry_point f = Some p" for p
    using merging_facts(5) [OF M that] M unfolding merge_points_def by fastforce
  have "fn_blocks f \<noteq> []" using M fn_ok_nonempty by (auto simp: merging_def)
  then obtain p where p: "entry_point f = Some p" by (cases "fn_blocks f") (auto simp: entry_point_def)
  then show "\<exists>p. entry_point f = Some p \<and> merge_points f f' p p'" if "entry_point f' = Some p'"
    using fwd [OF p] that by auto
qed

lemma merge_sims:
  "enters G merge_change (merge_fwd :: 'd point_rel)" "simulates (D :: 'd device) G merge_change merge_fwd"
  "enters G (\<lambda>f' f. merge_change f f') (merge_bwd :: 'd point_rel)"
  "simulates D G (\<lambda>f' f. merge_change f f') merge_bwd"
proof -
  show "enters G merge_change (merge_fwd :: 'd point_rel)"
    by (rule entersI) (auto simp: merge_fwd_def dest: merge_entry(1))
  show "enters G (\<lambda>f' f. merge_change f f') (merge_bwd :: 'd point_rel)"
    by (rule entersI) (auto simp: merge_bwd_def dest: merge_entry(2))
  show "simulates D G merge_change merge_fwd"
  proof (rule simulatesI)
    fix E E' C f f' p x and s s' :: "'d ir_state" and p'
    assume K: "merge_fwd E' f f' p s p' s'" and "G s" and C: "call_part D G E E' C" and st: "istep D C f p s x"
    note C = call_partD(2) [OF C \<open>G s\<close>]
    obtain ops t ops' t' where p: "p = (ops, t)" "p' = (ops', t')" by (cases p; cases p')
    obtain dup keeper bd bk where M: "merging f f' dup keeper bd bk" and s': "s' = s"
        and ops: "same_instrs ops ops'" and t': "t' = retarget (redirect dup keeper) t"
      using K p by (auto simp: merge_fwd_def merge_points_def)
    show "matched D E' (merge_fwd E' f f') f' p' s' x"
    proof (cases ops)
      case Nil
      then have [simp]: "ops' = []" using ops by simp
      have "matched D E' (merge_fwd E' f f') f' ([], t') s (Inr (point_of b, s))"
        if g: "goes t (s_mf s) = Some i" and b: "block_at f i = Some b" for i b
      proof -
        obtain b' where b': "block_at f' (redirect dup keeper i) = Some b'" "same_instrs (b_ops b) (b_ops b')"
          "b_term b' = retarget (redirect dup keeper) (b_term b)" by (rule moved_target [OF M b])
        show ?thesis
          by (rule matched_step [OF istep_goes [OF _ b'(1)]])
            (use g t' b' M in \<open>auto simp: merge_fwd_def merge_points_def\<close>)
      qed
      then show ?thesis unfolding s' p \<open>ops' = []\<close>
        by (intro matched_term [OF st [unfolded p Nil] _ _ C])
          (auto simp: t' intro: leaves_name merging_facts(4) [OF M])
    next
      case (Cons op rest)
      then obtain op' rest' where o: "ops' = op' # rest'" "same_instr op op'" "same_instrs rest rest'"
        using ops by (auto simp: list_all2_Cons1)
      show ?thesis unfolding s' p o(1)
        by (rule matched_op [OF st [unfolded p Cons] o(2) C])
          (use M o t' in \<open>auto simp: merge_fwd_def merge_points_def\<close>)
    qed
  qed
  show "simulates D G (\<lambda>f' f. merge_change f f') merge_bwd"
  proof (rule simulatesI)
    fix E E' C f f' p x and s s' :: "'d ir_state" and p'
    assume K: "merge_bwd E' f' f p' s' p s" and "G s'" and C: "call_part D G E E' C" and st: "istep D C f' p' s' x"
    note C = call_partD(2) [OF C \<open>G s'\<close>]
    obtain ops t ops' t' where p: "p = (ops, t)" "p' = (ops', t')" by (cases p; cases p')
    obtain dup keeper bd bk where M: "merging f f' dup keeper bd bk" and s': "s' = s"
        and ops: "same_instrs ops ops'" and t': "t' = retarget (redirect dup keeper) t"
      using K p by (auto simp: merge_bwd_def merge_points_def)
    note C = C [unfolded s']
    show "matched D E' (merge_bwd E' f' f) f p s x"
    proof (cases ops)
      case Nil
      then have ops': "ops' = []" using ops by simp
      have "matched D E' (merge_bwd E' f' f) f ([], t) s (Inr (point_of b', s))"
        if g: "goes t' (s_mf s) = Some k" and b': "block_at f' k = Some b'" for k b'
      proof -
        obtain i where i: "goes t (s_mf s) = Some i" "k = redirect dup keeper i" using g t' by auto
        have "i \<in> set (targets t)" using i(1) by (rule goes_targets)
        obtain b where b: "block_at f i = Some b"
          using b' M merging_facts(3) [OF M, of i] i(2) by (cases "i = dup") (auto simp: redirect_def merging_def)
        obtain b2 where b2: "block_at f' k = Some b2" "same_instrs (b_ops b) (b_ops b2)"
          "b_term b2 = retarget (redirect dup keeper) (b_term b)" using moved_target [OF M b] i(2) by metis
        show ?thesis
          by (rule matched_step [OF istep_goes [OF i(1) b]])
            (use b' b2 M in \<open>auto simp: merge_bwd_def merge_points_def\<close>)
      qed
      then show ?thesis unfolding p Nil
        by (intro matched_term [OF st [unfolded s' p ops'] _ _ C])
          (auto simp: t' intro: leaves_name merging_facts(4) [OF M, symmetric])
    next
      case (Cons op rest)
      then obtain op' rest' where o: "ops' = op' # rest'" "same_instr op op'" "same_instrs rest rest'"
        using ops by (auto simp: list_all2_Cons1)
      show ?thesis unfolding p Cons
        by (rule matched_op [OF st [unfolded s' p o(1)] same_instr_sym [OF o(2)] C])
          (use M o t' in \<open>auto simp: merge_bwd_def merge_points_def\<close>)
    qed
  qed
qed

lemma merge_sound: "sound_change D (\<lambda>_. True) merge_change"
proof (rule sound_changeI [OF keeps_True _ merge_sims])
  fix f f' assume "merge_change f f'"
  then show "fn_name f' = fn_name f" by (rule merge_change_merging) (rule merging_facts(4))
qed

lemma merge_ok: "merge_change f f' \<Longrightarrow> fn_ok f'"
  by (erule merge_change_merging) (rule merging_facts(6))

lemma dedup_loop_changes:
  "fn_ok f \<Longrightarrow> merge_change\<^sup>*\<^sup>* f (fst (dedup_loop f n)) \<and> fn_ok (fst (dedup_loop f n))"
proof (induction f n rule: dedup_loop.induct)
  case (1 f n)
  show ?case
  proof (cases "find_duplicate f")
    case None
    then show ?thesis using 1 by (subst (1 2) dedup_loop.simps) simp
  next
    case (Some q)
    obtain dup keeper where q: "q = (dup, keeper)" by (cases q)
    have m: "merge_change f (merge_into dup keeper f)" using Some q 1(2) by (auto simp: merge_change_def)
    then show ?thesis using 1(1) [OF Some q [symmetric]] merge_ok [OF m] Some q
      by (subst (1 2) dedup_loop.simps) (auto intro: converse_rtranclp_into_rtranclp)
  qed
qed

subsection \<open>Return-chaining\<close>

text \<open>A terminator that only leads to a return.\<close>

inductive chained :: "ir_function \<Rightarrow> ir_term \<Rightarrow> bool" for f :: ir_function where
  chained_return: "chained f Return"
| chained_next: "block_at f i = Some b \<Longrightarrow> b_ops b = [] \<Longrightarrow> chained f (b_term b) \<Longrightarrow> chained f (FallThrough i)"

definition chain_function :: "ir_function \<Rightarrow> ir_function" where
  "chain_function f = f\<lparr>fn_blocks := fst (chain_returns (fn_blocks f))\<rparr>"

lemma chain_returns_ids: "map b_id (fst (chain_returns bs)) = map b_id bs"
  by (induction bs rule: chain_returns.induct) (auto simp: Let_def split: prod.splits)

lemma chain_returns_Nil: "fst (chain_returns bs) = [] \<longleftrightarrow> bs = []"
  by (cases bs rule: chain_returns.cases) (auto split: prod.splits)

definition chain_block :: "ir_function \<Rightarrow> ir_block \<Rightarrow> ir_block \<Rightarrow> bool" where
  "chain_block f' b b' \<longleftrightarrow> b_id b' = b_id b \<and> b_ops b' = b_ops b
     \<and> (b_term b' = b_term b \<or> b_term b = Return \<and> chained f' (b_term b'))"

lemma chain_returns_blocks:
  assumes d: "distinct (block_ids f')"
  shows "set (fst (chain_returns bs)) \<subseteq> set (fn_blocks f') \<Longrightarrow>
    list_all2 (chain_block f') bs (fst (chain_returns bs))"
proof (induction bs rule: chain_returns.induct)
  case (1 a b bs)
  obtain rest n where r: "chain_returns (b # bs) = (rest, n)" by (cases "chain_returns (b # bs)")
  then have sub: "set rest \<subseteq> set (fn_blocks f')" and "rest \<noteq> []"
    using "1.prems" chain_returns_Nil [of "b # bs"] by (auto split: if_splits)
  then have IH: "list_all2 (chain_block f') (b # bs) rest" using 1(1) r by simp
  then obtain b' bs' where rest: "rest = b' # bs'" "chain_block f' b b'" by (auto simp: list_all2_Cons1)
  have "chained f' (FallThrough (b_id b))" if "b_ops b = []" "b_term b = Return"
  proof (rule chained_next)
    show "block_at f' (b_id b) = Some b'" using rest sub by (auto simp: block_at_Some [OF d] chain_block_def)
    show "b_ops b' = []" "chained f' (b_term b')" using rest(2) that by (auto simp: chain_block_def intro: chained_return)
  qed
  then have "chain_block f' a (a\<lparr>b_term := FallThrough (b_id b)\<rparr>)"
    if "b_term a = Return" "b_ops b = []" "b_term b = Return" using that by (simp add: chain_block_def)
  moreover have "chain_block f' a a" by (simp add: chain_block_def)
  ultimately show ?case using r IH by simp
qed (auto simp: chain_block_def)

lemma chain_blocks:
  assumes "distinct (block_ids f)"
  shows "distinct (block_ids (chain_function f))"
    "list_all2 (chain_block (chain_function f)) (fn_blocks f) (fn_blocks (chain_function f))"
proof -
  show d: "distinct (block_ids (chain_function f))"
    using assms by (simp add: chain_function_def block_ids_def chain_returns_ids)
  show "list_all2 (chain_block (chain_function f)) (fn_blocks f) (fn_blocks (chain_function f))"
    using chain_returns_blocks [OF d, of "fn_blocks f"] by (simp add: chain_function_def)
qed

lemma chain_at:
  assumes d: "distinct (block_ids f)"
  shows "block_at f i = Some b \<Longrightarrow> \<exists>b'. block_at (chain_function f) i = Some b' \<and> chain_block (chain_function f) b b'"
    "block_at (chain_function f) i = Some b' \<Longrightarrow> \<exists>b. block_at f i = Some b \<and> chain_block (chain_function f) b b'"
proof -
  note c = chain_blocks [OF d]
  show "block_at f i = Some b \<Longrightarrow> \<exists>b'. block_at (chain_function f) i = Some b' \<and> chain_block (chain_function f) b b'"
    using list_all2_left [OF c(2), of b] by (auto simp: block_at_Some [OF d] block_at_Some [OF c(1)] chain_block_def)
  show "block_at (chain_function f) i = Some b' \<Longrightarrow> \<exists>b. block_at f i = Some b \<and> chain_block (chain_function f) b b'"
    using list_all2_right [OF c(2), of b'] by (auto simp: block_at_Some [OF d] block_at_Some [OF c(1)] chain_block_def)
qed

definition chain_change :: "ir_function \<Rightarrow> ir_function \<Rightarrow> bool" where
  "chain_change f f' \<longleftrightarrow> fn_ok f \<and> f' = chain_function f"

definition chain_points :: "ir_function \<Rightarrow> point \<Rightarrow> point \<Rightarrow> bool" where
  "chain_points f' p p' \<longleftrightarrow> fst p' = fst p \<and> (snd p' = snd p \<or> snd p = Return \<and> chained f' (snd p'))"

definition chain_fwd :: "'d point_rel" where
  "chain_fwd E f f' p s p' s' \<longleftrightarrow> s' = s \<and> chain_points f' p p'"

definition chain_bwd :: "'d point_rel" where
  "chain_bwd E f' f p' s' p s \<longleftrightarrow> s' = s \<and> chain_points f' p p'"

lemma chain_block_points: "chain_block f' b b' \<Longrightarrow> chain_points f' (point_of b) (point_of b')"
  by (auto simp: chain_block_def chain_points_def)

lemma chain_entry:
  assumes "chain_change f f'"
  shows "entry_point f = Some p \<Longrightarrow> \<exists>p'. entry_point f' = Some p' \<and> chain_points f' p p'"
    "entry_point f' = Some p' \<Longrightarrow> \<exists>p. entry_point f = Some p \<and> chain_points f' p p'"
proof -
  have ok: "fn_ok f" and f': "f' = chain_function f" using assms by (simp_all add: chain_change_def)
  have "list_all2 (chain_block f') (fn_blocks f) (fn_blocks f')"
    unfolding f' by (rule chain_blocks(2)) (rule fn_ok_distinct [OF ok])
  then show "entry_point f = Some p \<Longrightarrow> \<exists>p'. entry_point f' = Some p' \<and> chain_points f' p p'"
    "entry_point f' = Some p' \<Longrightarrow> \<exists>p. entry_point f = Some p \<and> chain_points f' p p'"
    by (auto simp: entry_point_def list_all2_Cons1 list_all2_Cons2 chain_block_points split: list.splits)
qed

lemma chained_exec:
  assumes "chained f' t" "leaves f' Return s = Some r"
  shows "exec D E f' ([], t) s r"
  using assms(1)
proof (induction rule: chained.induct)
  case chained_return
  show ?case by (rule exec_leaves [OF assms(2)])
next
  case (chained_next i b)
  then have "exec D E f' (point_of b) s r" by (simp add: point_of_def)
  then show ?case by (rule exec_goes [rotated -1]) (use chained_next in simp_all)
qed

lemma chain_sims:
  "enters G chain_change (chain_fwd :: 'd point_rel)" "simulates (D :: 'd device) G chain_change chain_fwd"
  "enters G (\<lambda>f' f. chain_change f f') (chain_bwd :: 'd point_rel)"
  "simulates D G (\<lambda>f' f. chain_change f f') chain_bwd"
proof -
  show "enters G chain_change (chain_fwd :: 'd point_rel)"
    by (rule entersI) (auto simp: chain_fwd_def dest: chain_entry(1))
  show "enters G (\<lambda>f' f. chain_change f f') (chain_bwd :: 'd point_rel)"
    by (rule entersI) (auto simp: chain_bwd_def dest: chain_entry(2))
  show "simulates D G chain_change chain_fwd"
  proof (rule simulatesI)
    fix E E' C f f' p x and s s' :: "'d ir_state" and p'
    assume T: "chain_change f f'" and K: "chain_fwd E' f f' p s p' s'" and "G s"
      and C: "call_part D G E E' C" and st: "istep D C f p s x"
    note C = call_partD(2) [OF C \<open>G s\<close>]
    have d: "distinct (block_ids f)" and f': "f' = chain_function f"
      using T fn_ok_distinct by (auto simp: chain_change_def)
    have name: "fn_name f' = fn_name f" by (simp add: f' chain_function_def)
    obtain ops t t' where p: "p = (ops, t)" "p' = (ops, t')" and s': "s' = s"
        and t': "t' = t \<or> t = Return \<and> chained f' t'"
      using K by (cases p; cases p') (auto simp: chain_fwd_def chain_points_def)
    show "matched D E' (chain_fwd E' f f') f' p' s' x"
    proof (cases ops)
      case (Cons op rest)
      show ?thesis unfolding s' p Cons
        by (rule matched_op [OF st [unfolded p Cons] same_instr_refl C])
          (use t' in \<open>auto simp: chain_fwd_def chain_points_def\<close>)
    next
      case Nil
      show ?thesis
      proof (cases "t' = t")
        case True
        have "matched D E' (chain_fwd E' f f') f' ([], t) s (Inr (point_of b, s))"
          if "goes t (s_mf s) = Some i" "block_at f i = Some b" for i b
          using chain_at(1) [OF d that(2)] that(1)
          by (auto simp: f' chain_fwd_def chain_block_points intro!: matched_step [OF istep_goes])
        then show ?thesis unfolding s' p Nil True
          by (intro matched_term [OF st [unfolded p Nil] refl leaves_name [OF name] C])
      next
        case False
        then have c: "t = Return" "chained f' t'" using t' by simp_all
        obtain r where r: "x = Inl r" "leaves f Return s = Some r"
          using st unfolding p Nil c(1) by (auto elim!: istep_termE)
        then have "exec D E' f' ([], t') s r" using c(2) leaves_name [OF name, of Return s] by (intro chained_exec) simp_all
        then show ?thesis unfolding s' p Nil r(1) by (rule matched_exec)
      qed
    qed
  qed
  show "simulates D G (\<lambda>f' f. chain_change f f') chain_bwd"
  proof (rule simulatesI)
    fix E E' C f f' p x and s s' :: "'d ir_state" and p'
    assume T: "chain_change f f'" and K: "chain_bwd E' f' f p' s' p s" and "G s'"
      and C: "call_part D G E E' C" and st: "istep D C f' p' s' x"
    note C = call_partD(2) [OF C \<open>G s'\<close>]
    have d: "distinct (block_ids f)" and f': "f' = chain_function f"
      using T fn_ok_distinct by (auto simp: chain_change_def)
    have name: "fn_name f = fn_name f'" by (simp add: f' chain_function_def)
    obtain ops t t' where p: "p = (ops, t)" "p' = (ops, t')" and s': "s' = s"
        and t': "t' = t \<or> t = Return \<and> chained f' t'"
      using K by (cases p; cases p') (auto simp: chain_bwd_def chain_points_def)
    note C = C [unfolded s'] and st = st [unfolded s' p]
    show "matched D E' (chain_bwd E' f' f) f p s x"
    proof (cases ops)
      case (Cons op rest)
      show ?thesis unfolding p Cons
        by (rule matched_op [OF st [unfolded Cons] same_instr_refl C])
          (use t' in \<open>auto simp: chain_bwd_def chain_points_def\<close>)
    next
      case Nil
      show ?thesis
      proof (cases "t' = t")
        case True
        have "matched D E' (chain_bwd E' f' f) f ([], t) s (Inr (point_of b', s))"
          if "goes t' (s_mf s) = Some i" "block_at f' i = Some b'" for i b'
          using chain_at(2) [OF d that(2) [unfolded f']] that(1) True
          by (auto simp: f' chain_bwd_def chain_block_points intro!: matched_step [OF istep_goes])
        then show ?thesis unfolding p Nil
          by (intro matched_term [OF st [unfolded Nil] _ _ C]) (simp_all add: True leaves_name [OF name])
      next
        case False
        then obtain i b where c: "t = Return" "t' = FallThrough i" "block_at f' i = Some b" "b_ops b = []"
            "chained f' (b_term b)"
          using t' by (auto elim: chained.cases)
        then have "x = Inr (point_of b, s)" using st unfolding Nil by (auto elim!: istep_termE)
        moreover have "chain_bwd E' f' f (point_of b) s ([], Return) s"
          using c by (simp add: chain_bwd_def chain_points_def)
        ultimately show ?thesis unfolding p Nil c(1) by (simp add: matched_stay)
      qed
    qed
  qed
qed

lemma chain_sound: "sound_change D (\<lambda>_. True) chain_change"
  by (rule sound_changeI [OF keeps_True _ chain_sims]) (auto simp: chain_change_def chain_function_def)

lemma chained_targets: "chained f t \<Longrightarrow> distinct (block_ids f) \<Longrightarrow> set (targets t) \<subseteq> set (block_ids f)"
  by (induction rule: chained.induct) (auto simp: block_at_Some block_ids_def)

lemma chain_ok:
  assumes ok: "fn_ok f"
  shows "fn_ok (chain_function f)"
proof -
  note d = fn_ok_distinct [OF ok]
  note c = chain_blocks [OF d]
  have ids: "block_ids (chain_function f) = block_ids f"
    by (simp add: chain_function_def block_ids_def chain_returns_ids)
  have "set (targets (b_term b')) \<subseteq> set (block_ids f) \<and> (\<forall>op \<in> set (b_ops b'). op_symbols_ok op)"
    if b': "b' \<in> set (fn_blocks (chain_function f))" for b'
  proof -
    obtain b where b: "b \<in> set (fn_blocks f)" "chain_block (chain_function f) b b'"
      using list_all2_right [OF c(2) b'] by blast
    then show ?thesis
      using fn_ok_targets [OF ok b(1)] fn_ok_symbols [OF ok b(1)] chained_targets [OF _ c(1)] ids
      by (auto simp: chain_block_def)
  qed
  then show ?thesis using c(1) fn_ok_nonempty [OF ok] ids
    by (auto simp: fn_ok_def valid_fn_def symbols_ok_def chain_function_def chain_returns_Nil)
qed

subsection \<open>The whole pass\<close>

lemma tail_merge_run_chain: "fst (tail_merge_run f) = chain_function (fst (dedup_loop f 0))"
  by (simp add: tail_merge_run_def chain_function_def split: prod.splits)

lemma tail_merge_ok: "fn_ok f \<Longrightarrow> fn_ok (fst (tail_merge_run f))"
  by (simp add: tail_merge_run_chain chain_ok dedup_loop_changes)

lemma tail_merge_sound:
  "sound_change D (\<lambda>_. True) (\<lambda>f f'. fn_ok f \<and> f' = fst (tail_merge_run f))"
proof (rule sound_change_mono [OF sound_change_comp [OF sound_change_star [OF merge_sound] chain_sound]])
  fix f f' assume f: "fn_ok f \<and> f' = fst (tail_merge_run f)"
  then have "merge_change\<^sup>*\<^sup>* f (fst (dedup_loop f 0))" "chain_change (fst (dedup_loop f 0)) f'"
    using dedup_loop_changes [of f 0] by (auto simp: tail_merge_run_chain chain_change_def)
  then show "(merge_change\<^sup>*\<^sup>* OO chain_change) f f'" by (rule relcomppI)
qed

end
