(* ===== verification/Pass_Sink.thy ===== *)
theory Pass_Sink
  imports Pass_Tails
begin

text \<open>
  \<open>tail-sink\<close> (\<open>crates/post-machine/src/optimizer/tail_sink.rs\<close>): a common suffix of the two blocks that
  jump to a join moves into the join. The predecessor census is the two counts the source keeps in
  maps; the join is the first block that qualifies.
\<close>

section \<open>The pass\<close>

fun is_brk :: "ir_op \<Rightarrow> bool" where
  "is_brk (Brk _) \<longleftrightarrow> True"
| "is_brk _ \<longleftrightarrow> False"

function common_suffix_from :: "ir_op list \<Rightarrow> ir_op list \<Rightarrow> nat \<Rightarrow> nat" where
  "common_suffix_from a b n =
     (if n < length a \<and> n < length b then
        (let x = a ! (length a - 1 - n); y = b ! (length b - 1 - n) in
         if is_brk x \<or> is_brk y then n
         else if \<not> same_op x y then n
         else common_suffix_from a b (n + 1))
      else n)"
  by pat_completeness auto
termination by (relation "measure (\<lambda>(a, b, n). length a - n)") auto

declare common_suffix_from.simps [simp del]

definition common_suffix_len :: "ir_op list \<Rightarrow> ir_op list \<Rightarrow> nat" where
  "common_suffix_len a b = common_suffix_from a b 0"

definition jump_to :: "nat \<Rightarrow> ir_term \<Rightarrow> bool" where
  "jump_to j t \<longleftrightarrow> t = Goto j \<or> t = FallThrough j"

definition jump_preds :: "ir_function \<Rightarrow> nat \<Rightarrow> nat list" where
  "jump_preds f j = map b_id (filter (\<lambda>b. jump_to j (b_term b)) (fn_blocks f))"

fun check_edges :: "nat \<Rightarrow> ir_term \<Rightarrow> nat" where
  "check_edges j (Check m b) = (if m = j then 1 else 0) + (if b = j then 1 else 0)"
| "check_edges j _ = 0"

definition other_edges :: "ir_function \<Rightarrow> nat \<Rightarrow> nat" where
  "other_edges f j =
     (if b_id (hd (fn_blocks f)) = j then 1 else 0)
     + sum_list (map (\<lambda>b. check_edges j (b_term b)) (fn_blocks f))"

text \<open>One block as a join: the positions of the arms and of the join, and the suffix length.\<close>

definition sink_at :: "ir_function \<Rightarrow> nat \<Rightarrow> (nat \<times> nat \<times> nat \<times> nat) option" where
  "sink_at f j =
     (if other_edges f j \<noteq> 0 then None
      else case jump_preds f j of
        [a, b] \<Rightarrow>
          if a = b \<or> a = j \<or> b = j then None
          else (case (block_index f a, block_index f b, block_index f j) of
                  (Some ai, Some bi, Some ji) \<Rightarrow>
                    (let n = common_suffix_len (b_ops (fn_blocks f ! ai)) (b_ops (fn_blocks f ! bi))
                     in if 2 \<le> n then Some (ai, bi, ji, n) else None)
                | _ \<Rightarrow> None)
      | _ \<Rightarrow> None)"

fun first_some :: "('a \<Rightarrow> 'b option) \<Rightarrow> 'a list \<Rightarrow> 'b option" where
  "first_some g [] = None"
| "first_some g (x # xs) = (case g x of Some y \<Rightarrow> Some y | None \<Rightarrow> first_some g xs)"

definition find_sink :: "ir_function \<Rightarrow> (nat \<times> nat \<times> nat \<times> nat) option" where
  "find_sink f = first_some (\<lambda>b. sink_at f (b_id b)) (fn_blocks f)"

definition update_ops :: "nat \<Rightarrow> (ir_op list \<Rightarrow> ir_op list) \<Rightarrow> ir_block list \<Rightarrow> ir_block list" where
  "update_ops i g bs = bs[i := (bs ! i)\<lparr>b_ops := g (b_ops (bs ! i))\<rparr>]"

definition drop_last :: "nat \<Rightarrow> 'a list \<Rightarrow> 'a list" where
  "drop_last n xs = take (length xs - n) xs"

definition tail_sink_run :: "ir_function \<Rightarrow> pass_result" where
  "tail_sink_run f =
     (if fn_blocks f = [] then None
      else case find_sink f of
        None \<Rightarrow> Some (f, 0)
      | Some (ai, bi, ji, n) \<Rightarrow>
          (let opsA = b_ops (fn_blocks f ! ai); suffix = drop (length opsA - n) opsA in
           Some (f\<lparr>fn_blocks :=
                     update_ops ji ((@) suffix)
                       (update_ops bi (drop_last n) (update_ops ai (drop_last n) (fn_blocks f)))\<rparr>, n)))"

section \<open>What a join looks like\<close>

lemma common_suffix_from_spec:
  assumes "n \<le> length a" "n \<le> length b" "same_instrs (drop (length a - n) a) (drop (length b - n) b)"
  shows "let m = common_suffix_from a b n in
    m \<le> length a \<and> m \<le> length b \<and> same_instrs (drop (length a - m) a) (drop (length b - m) b)"
  using assms
proof (induction a b n rule: common_suffix_from.induct)
  case (1 a b n)
  let ?x = "a ! (length a - 1 - n)" and ?y = "b ! (length b - 1 - n)"
  show ?case
  proof (cases "n < length a \<and> n < length b \<and> \<not> is_brk ?x \<and> \<not> is_brk ?y \<and> same_op ?x ?y")
    case True
    then have n: "n < length a" "n < length b" by simp_all
    have "drop (length a - (n + 1)) a = ?x # drop (length a - n) a"
      "drop (length b - (n + 1)) b = ?y # drop (length b - n) b"
      using n Cons_nth_drop_Suc [of "length a - 1 - n" a] Cons_nth_drop_Suc [of "length b - 1 - n" b]
      by (simp_all add: Suc_diff_Suc)
    then have "same_instrs (drop (length a - (n + 1)) a) (drop (length b - (n + 1)) b)"
      using True "1.prems"(3) by (simp add: same_op_instr)
    then have "let m = common_suffix_from a b (n + 1) in
        m \<le> length a \<and> m \<le> length b \<and> same_instrs (drop (length a - m) a) (drop (length b - m) b)"
      using "1.IH" [of ?x ?y] True n by simp
    moreover have "common_suffix_from a b n = common_suffix_from a b (n + 1)"
      by (subst common_suffix_from.simps) (use True in \<open>simp add: Let_def\<close>)
    ultimately show ?thesis by (simp only:)
  next
    case False
    then have "common_suffix_from a b n = n" by (subst common_suffix_from.simps) (auto simp: Let_def)
    then show ?thesis using "1.prems" by simp
  qed
qed

lemma common_suffix_len_spec:
  "common_suffix_len a b \<le> length a" "common_suffix_len a b \<le> length b"
  "same_instrs (drop (length a - common_suffix_len a b) a) (drop (length b - common_suffix_len a b) b)"
  using common_suffix_from_spec [of 0 a b] by (simp_all add: common_suffix_len_def Let_def)

lemma first_some_Some: "first_some g xs = Some y \<Longrightarrow> \<exists>x \<in> set xs. g x = Some y"
  by (induction xs) (auto split: option.splits)

lemma check_edges_targets: "\<not> jump_to j t \<Longrightarrow> check_edges j t = 0 \<Longrightarrow> j \<notin> set (targets t)"
  by (cases t) (auto simp: jump_to_def split: if_splits)

text \<open>
  The arms \<open>A\<close>, \<open>B\<close> and the join \<open>J\<close> of a function, with the suffix both arms end in; the new function,
  block by block.
\<close>

record join =
  jn_a :: nat
  jn_b :: nat
  jn_j :: nat
  jn_len :: nat
  jn_suffix :: "ir_op list"

definition sunk_block :: "join \<Rightarrow> ir_block \<Rightarrow> ir_block" where
  "sunk_block J b =
     (if b_id b = jn_a J \<or> b_id b = jn_b J then b\<lparr>b_ops := drop_last (jn_len J) (b_ops b)\<rparr>
      else if b_id b = jn_j J then b\<lparr>b_ops := jn_suffix J @ b_ops b\<rparr>
      else b)"

definition sinks :: "join \<Rightarrow> ir_function \<Rightarrow> ir_function \<Rightarrow> bool" where
  "sinks J f f' \<longleftrightarrow> fn_ok f \<and> f' = map_blocks (sunk_block J) f
     \<and> b_id (hd (fn_blocks f)) \<noteq> jn_j J \<and> jn_a J \<noteq> jn_j J \<and> jn_b J \<noteq> jn_j J
     \<and> (\<exists>bj. block_at f (jn_j J) = Some bj)
     \<and> (\<forall>op \<in> set (jn_suffix J). op_symbols_ok op)
     \<and> (\<forall>b \<in> set (fn_blocks f).
          if b_id b = jn_a J \<or> b_id b = jn_b J
          then jump_to (jn_j J) (b_term b)
             \<and> same_instrs (drop (length (b_ops b) - jn_len J) (b_ops b)) (jn_suffix J)
          else jn_j J \<notin> set (targets (b_term b)))"

definition sink_change :: "ir_function \<Rightarrow> ir_function \<Rightarrow> bool" where
  "sink_change f f' \<longleftrightarrow> (\<exists>J. sinks J f f')"

lemma sunk_block_id [simp]: "b_id (sunk_block J b) = b_id b" "b_term (sunk_block J b) = b_term b"
  by (simp_all add: sunk_block_def)

definition ops_at :: "nat \<Rightarrow> (ir_op list \<Rightarrow> ir_op list) \<Rightarrow> ir_block \<Rightarrow> ir_block" where
  "ops_at c g b = (if b_id b = c then b\<lparr>b_ops := g (b_ops b)\<rparr> else b)"

lemma ops_at_id [simp]: "b_id (ops_at c g b) = b_id b"
  by (simp add: ops_at_def)

lemma update_ops_map:
  assumes "distinct (map b_id bs)" "i < length bs" "b_id (bs ! i) = c"
  shows "update_ops i g bs = map (ops_at c g) bs"
proof (rule nth_equalityI)
  fix k assume "k < length (update_ops i g bs)"
  then have k: "k < length bs" by (simp add: update_ops_def)
  have "b_id (bs ! k) = b_id (bs ! i) \<longleftrightarrow> k = i"
    using nth_eq_iff_index_eq [OF assms(1), of k i] k assms(2) by simp
  then show "update_ops i g bs ! k = map (ops_at c g) bs ! k"
    using k assms(3) by (auto simp: update_ops_def nth_list_update ops_at_def)
qed (simp add: update_ops_def)

lemma tail_sink_change:
  assumes ok: "fn_ok f" and "tail_sink_run f = Some (f', n)"
  shows "f' = f \<or> sink_change f f'"
proof (cases "find_sink f")
  case None
  then show ?thesis using assms fn_ok_nonempty [OF ok] by (simp add: tail_sink_run_def)
next
  case (Some q)
  note d = fn_ok_distinct [OF ok]
  obtain j0 where j0: "j0 \<in> set (fn_blocks f)" "sink_at f (b_id j0) = Some q"
    using first_some_Some [OF Some [unfolded find_sink_def]] by blast
  let ?j = "b_id j0"
  obtain a b where preds: "jump_preds f ?j = [a, b]" and ab: "a \<noteq> b" "a \<noteq> ?j" "b \<noteq> ?j"
    and oth: "other_edges f ?j = 0"
    using j0(2) by (auto simp: sink_at_def split: if_splits list.splits)
  then obtain ai bi ji where idx: "block_index f a = Some ai" "block_index f b = Some bi" "block_index f ?j = Some ji"
    and q: "q = (ai, bi, ji, common_suffix_len (b_ops (fn_blocks f ! ai)) (b_ops (fn_blocks f ! bi)))"
    using j0(2) by (auto simp: sink_at_def Let_def split: if_splits option.splits)
  let ?bs = "fn_blocks f" and ?n = "common_suffix_len (b_ops (fn_blocks f ! ai)) (b_ops (fn_blocks f ! bi))"
  let ?suf = "drop (length (b_ops (?bs ! ai)) - ?n) (b_ops (?bs ! ai))"
  define J where "J = \<lparr>jn_a = a, jn_b = b, jn_j = ?j, jn_len = ?n, jn_suffix = ?suf\<rparr>"
  have J: "jn_a J = a" "jn_b J = b" "jn_j J = ?j" "jn_len J = ?n" "jn_suffix J = ?suf" by (simp_all add: J_def)
  have pos: "ai < length ?bs" "b_id (?bs ! ai) = a" "bi < length ?bs" "b_id (?bs ! bi) = b"
      "ji < length ?bs" "b_id (?bs ! ji) = ?j"
    using idx by (auto simp: block_index_Some [OF d])
  have dm: "distinct (map b_id (map h ?bs))" if "\<And>b. b_id (h b) = b_id b" for h :: "ir_block \<Rightarrow> ir_block"
    using d that by (simp add: block_ids_def comp_def)
  have at: "b0 = ?bs ! k" if "b0 \<in> set ?bs" "b_id b0 = b_id (?bs ! k)" "k < length ?bs" for b0 k
    using that d by (auto simp: block_ids_def distinct_map inj_on_def)
  have new: "f' = map_blocks (sunk_block J) f"
  proof -
    have "update_ops ai (drop_last ?n) ?bs = map (ops_at a (drop_last ?n)) ?bs"
      using pos dm [of "\<lambda>b. b"] by (intro update_ops_map) simp_all
    moreover have "update_ops bi (drop_last ?n) (map (ops_at a (drop_last ?n)) ?bs)
        = map (ops_at b (drop_last ?n)) (map (ops_at a (drop_last ?n)) ?bs)"
      using pos dm [of "ops_at a (drop_last ?n)"] by (intro update_ops_map) simp_all
    moreover have "update_ops ji ((@) ?suf) (map (ops_at b (drop_last ?n)) (map (ops_at a (drop_last ?n)) ?bs))
        = map (ops_at ?j ((@) ?suf)) (map (ops_at b (drop_last ?n)) (map (ops_at a (drop_last ?n)) ?bs))"
      using pos dm [of "\<lambda>x. ops_at b (drop_last ?n) (ops_at a (drop_last ?n) x)"]
      by (intro update_ops_map) (simp_all add: comp_def)
    ultimately have "f' = f\<lparr>fn_blocks := map (\<lambda>x. ops_at ?j ((@) ?suf) (ops_at b (drop_last ?n) (ops_at a (drop_last ?n) x))) ?bs\<rparr>"
      using assms(2) fn_ok_nonempty [OF ok] by (auto simp: tail_sink_run_def Some q Let_def comp_def)
    moreover have "ops_at ?j ((@) ?suf) (ops_at b (drop_last ?n) (ops_at a (drop_last ?n) x)) = sunk_block J x" for x
      using ab by (simp add: ops_at_def sunk_block_def J)
    ultimately show ?thesis by (simp add: map_blocks_def)
  qed
  have other: "b_id (hd ?bs) \<noteq> ?j" "\<forall>x \<in> set ?bs. check_edges ?j (b_term x) = 0"
    using oth by (auto simp: other_edges_def split: if_splits)
  have jumps: "b_id ` {x \<in> set ?bs. jump_to ?j (b_term x)} = {a, b}"
    using arg_cong [OF preds, of set] by (simp add: jump_preds_def)
  have blocks: "if b_id x = a \<or> b_id x = b
      then jump_to ?j (b_term x) \<and> same_instrs (drop (length (b_ops x) - ?n) (b_ops x)) ?suf
      else ?j \<notin> set (targets (b_term x))" if x: "x \<in> set ?bs" for x
  proof (cases "b_id x = a \<or> b_id x = b")
    case True
    then have "b_id x \<in> b_id ` {x \<in> set ?bs. jump_to ?j (b_term x)}" unfolding jumps by simp
    then obtain y where "y \<in> set ?bs" "jump_to ?j (b_term y)" "b_id y = b_id x" by auto
    then have "jump_to ?j (b_term x)" using x d by (auto simp: block_ids_def distinct_map inj_on_def)
    moreover have "x = ?bs ! ai \<or> x = ?bs ! bi" using True at [OF x] pos by metis
    ultimately show ?thesis using True common_suffix_len_spec(3) [of "b_ops (?bs ! ai)" "b_ops (?bs ! bi)"]
      by (auto intro: same_instrs_sym)
  next
    case False
    have "b_id x \<in> {a, b}" if "jump_to ?j (b_term x)" unfolding jumps [symmetric] using x that by simp
    then have "\<not> jump_to ?j (b_term x)" using False by auto
    then show ?thesis using False check_edges_targets other(2) x by simp
  qed
  have "\<forall>op \<in> set ?suf. op_symbols_ok op"
    using fn_ok_symbols [OF ok nth_mem [OF pos(1)]] by (auto dest: in_set_dropD)
  then have "sinks J f f'"
    using ok new other(1) ab blocks j0(1) unfolding sinks_def J by (auto simp: block_at_Some [OF d])
  then show ?thesis unfolding sink_change_def by blast
qed

section \<open>It preserves behaviour\<close>

lemma sunk_at: "block_at (map_blocks (sunk_block J) f) i = map_option (sunk_block J) (block_at f i)"
  by (rule block_at_map) simp

text \<open>
  Away from the arms the two programs are at the same point; in an arm the suffix is still to come;
  in the suffix the new program is already in the join.
\<close>

definition sink_points :: "join \<Rightarrow> ir_function \<Rightarrow> point \<Rightarrow> point \<Rightarrow> bool" where
  "sink_points J f p p' \<longleftrightarrow>
     (p' = p \<and> jn_j J \<notin> set (targets (snd p)))
     \<or> (\<exists>pre suf t. p = (pre @ suf, t) \<and> p' = (pre, t) \<and> jump_to (jn_j J) t \<and> same_instrs suf (jn_suffix J))
     \<or> (\<exists>ops ops' t bj. p = (ops, t) \<and> p' = (ops' @ b_ops bj, b_term bj) \<and> jump_to (jn_j J) t
          \<and> same_instrs ops ops' \<and> block_at f (jn_j J) = Some bj)"

definition sink_fwd :: "'d point_rel" where
  "sink_fwd E f f' p s p' s' \<longleftrightarrow> s' = s \<and> (\<exists>J. sinks J f f' \<and> sink_points J f p p')"

definition sink_bwd :: "'d point_rel" where
  "sink_bwd E f' f p' s' p s \<longleftrightarrow> s' = s \<and> (\<exists>J. sinks J f f' \<and> sink_points J f p p')"

lemma jump_to_facts:
  "jump_to j t \<Longrightarrow> goes t mf = Some j" "jump_to j t \<Longrightarrow> tail_callee t = None" "jump_to j t \<Longrightarrow> leaves f t s = None"
  by (auto simp: jump_to_def)

lemma jump_step: "jump_to j t \<Longrightarrow> block_at f j = Some b \<Longrightarrow> istep D C f ([], t) s (Inr (point_of b, s))"
  by (rule istep_goes [OF jump_to_facts(1)])

lemma jump_step_only:
  "istep D C f ([], t) s x \<Longrightarrow> jump_to j t \<Longrightarrow> block_at f j = Some b \<Longrightarrow> x = Inr (point_of b, s)"
  by (auto elim!: istep_termE simp: jump_to_def)

lemma sunk_block_points:
  assumes J: "sinks J f f'" and b: "b \<in> set (fn_blocks f)" and neq: "b_id b \<noteq> jn_j J"
  shows "sink_points J f (point_of b) (point_of (sunk_block J b))"
proof (cases "b_id b = jn_a J \<or> b_id b = jn_b J")
  case True
  then have t: "jump_to (jn_j J) (b_term b)"
    and suf: "same_instrs (drop (length (b_ops b) - jn_len J) (b_ops b)) (jn_suffix J)"
    using J b unfolding sinks_def by (metis (no_types, lifting))+
  let ?k = "length (b_ops b) - jn_len J"
  have "point_of b = (take ?k (b_ops b) @ drop ?k (b_ops b), b_term b)" by (simp add: point_of_def)
  moreover have "point_of (sunk_block J b) = (take ?k (b_ops b), b_term b)"
    using True by (simp add: point_of_def sunk_block_def drop_last_def)
  ultimately show ?thesis using t suf unfolding sink_points_def by blast
next
  case False
  then have "jn_j J \<notin> set (targets (b_term b))" using J b unfolding sinks_def by (metis (no_types, lifting))
  then show ?thesis using False neq by (simp add: sink_points_def sunk_block_def)
qed

lemma sunk_join:
  assumes "sinks J f f'" "block_at f (jn_j J) = Some bj"
  shows "block_at f' (jn_j J) = Some (sunk_block J bj)" "point_of (sunk_block J bj) = (jn_suffix J @ b_ops bj, b_term bj)"
    "sink_points J f (point_of bj) (point_of bj)"
proof -
  have f: "fn_ok f" "f' = map_blocks (sunk_block J) f" and neq: "jn_a J \<noteq> jn_j J" "jn_b J \<noteq> jn_j J"
    using assms by (simp_all add: sinks_def)
  have bj: "bj \<in> set (fn_blocks f)" "b_id bj = jn_j J" using assms(2) block_at_Some [OF fn_ok_distinct [OF f(1)]] by simp_all
  show "block_at f' (jn_j J) = Some (sunk_block J bj)" by (simp add: f(2) sunk_at assms(2))
  show "point_of (sunk_block J bj) = (jn_suffix J @ b_ops bj, b_term bj)"
    using bj neq by (simp add: point_of_def sunk_block_def)
  have "jn_j J \<notin> set (targets (b_term bj))" using assms(1) bj neq unfolding sinks_def by (metis (no_types, lifting))
  then show "sink_points J f (point_of bj) (point_of bj)" by (simp add: sink_points_def)
qed

lemma sink_entry:
  assumes "sink_change f f'"
  shows "entry_point f = Some p \<Longrightarrow> \<exists>p'. entry_point f' = Some p' \<and> (\<exists>J. sinks J f f' \<and> sink_points J f p p')"
    "entry_point f' = Some p' \<Longrightarrow> \<exists>p. entry_point f = Some p \<and> (\<exists>J. sinks J f f' \<and> sink_points J f p p')"
proof -
  obtain J where J: "sinks J f f'" using assms by (auto simp: sink_change_def)
  then have f: "fn_ok f" "f' = map_blocks (sunk_block J) f" "b_id (hd (fn_blocks f)) \<noteq> jn_j J" by (simp_all add: sinks_def)
  obtain b bs where b: "fn_blocks f = b # bs" using fn_ok_nonempty [OF f(1)] by (cases "fn_blocks f") auto
  have "sink_points J f (point_of b) (point_of (sunk_block J b))" using f(3) b by (intro sunk_block_points [OF J]) auto
  then show "entry_point f = Some p \<Longrightarrow> \<exists>p'. entry_point f' = Some p' \<and> (\<exists>J. sinks J f f' \<and> sink_points J f p p')"
    "entry_point f' = Some p' \<Longrightarrow> \<exists>p. entry_point f = Some p \<and> (\<exists>J. sinks J f f' \<and> sink_points J f p p')"
    using J b by (auto simp: f(2) entry_point_def)
qed

lemma sink_same_fwd:
  assumes J: "sinks J f f'" and p: "jn_j J \<notin> set (targets (snd p))"
    and C: "\<And>n r. C n s r \<Longrightarrow> calls D E n s r" and st: "istep D C f p s x"
  shows "matched D E (sink_fwd E f f') f' p s x"
proof -
  have f: "fn_ok f" "f' = map_blocks (sunk_block J) f" using J by (simp_all add: sinks_def)
  obtain ops t where q: "p = (ops, t)" by (cases p)
  show ?thesis
  proof (cases ops)
    case (Cons op rest)
    show ?thesis unfolding q Cons
      by (rule matched_op [OF st [unfolded q Cons] same_instr_refl C])
        (use J p q in \<open>auto simp: sink_fwd_def sink_points_def\<close>)
  next
    case Nil
    have "matched D E (sink_fwd E f f') f' ([], t) s (Inr (point_of b, s))"
      if g: "goes t (s_mf s) = Some i" and b: "block_at f i = Some b" for i b
    proof (rule matched_step [OF istep_goes [OF g]])
      show "block_at f' i = Some (sunk_block J b)" using b by (simp add: f(2) sunk_at)
      have "i \<noteq> jn_j J" using goes_targets [OF g] p q by auto
      then show "sink_fwd E f f' (point_of b) s (point_of (sunk_block J b)) s"
        using J b sunk_block_points [OF J] block_at_Some [OF fn_ok_distinct [OF f(1)]] by (auto simp: sink_fwd_def)
    qed
    then show ?thesis unfolding q Nil
      by (intro matched_term [OF st [unfolded q Nil] refl leaves_name C]) (simp_all add: f(2))
  qed
qed

lemma sink_same_bwd:
  assumes J: "sinks J f f'" and p: "jn_j J \<notin> set (targets (snd p))"
    and C: "\<And>n r. C n s r \<Longrightarrow> calls D E n s r" and st: "istep D C f' p s x"
  shows "matched D E (sink_bwd E f' f) f p s x"
proof -
  have f: "fn_ok f" "f' = map_blocks (sunk_block J) f" using J by (simp_all add: sinks_def)
  obtain ops t where q: "p = (ops, t)" by (cases p)
  show ?thesis
  proof (cases ops)
    case (Cons op rest)
    show ?thesis unfolding q Cons
      by (rule matched_op [OF st [unfolded q Cons] same_instr_refl C])
        (use J p q in \<open>auto simp: sink_bwd_def sink_points_def\<close>)
  next
    case Nil
    have "matched D E (sink_bwd E f' f) f ([], t) s (Inr (point_of b', s))"
      if g: "goes t (s_mf s) = Some i" and b': "block_at f' i = Some b'" for i b'
    proof -
      obtain b where b: "block_at f i = Some b" "b' = sunk_block J b" using b' by (auto simp: f(2) sunk_at)
      have "i \<noteq> jn_j J" using goes_targets [OF g] p q by auto
      then have "sink_bwd E f' f (point_of b') s (point_of b) s"
        using J b sunk_block_points [OF J] block_at_Some [OF fn_ok_distinct [OF f(1)]] by (auto simp: sink_bwd_def)
      then show ?thesis by (rule matched_step [OF istep_goes [OF g b(1)]])
    qed
    then show ?thesis unfolding q Nil
      by (intro matched_term [OF st [unfolded q Nil] refl leaves_name C]) (simp_all add: f(2))
  qed
qed

lemma sink_fwd_sim: "enters G sink_change (sink_fwd :: 'd point_rel)" "simulates (D :: 'd device) G sink_change sink_fwd"
proof -
  show "enters G sink_change (sink_fwd :: 'd point_rel)"
    by (rule entersI) (use sink_entry(1) in \<open>unfold sink_fwd_def, blast\<close>)
  show "simulates D G sink_change sink_fwd"
  proof (rule simulatesI)
    fix E E' C f f' p x and s s' :: "'d ir_state" and p'
    assume K: "sink_fwd E' f f' p s p' s'" and "G s" and C: "call_part D G E E' C" and st: "istep D C f p s x"
    note C = call_partD(2) [OF C \<open>G s\<close>]
    obtain J where J: "sinks J f f'" and pts: "sink_points J f p p'" and s': "s' = s" using K by (auto simp: sink_fwd_def)
    obtain bj where bj: "block_at f (jn_j J) = Some bj" using J by (auto simp: sinks_def)
    have in_suffix: "matched D E' (sink_fwd E' f f') f' (ops' @ b_ops bj, b_term bj) s x"
      if p: "p = (ops, t)" and t: "jump_to (jn_j J) t" and ops: "same_instrs ops ops'" for ops ops' t
    proof (cases ops)
      case Nil
      then have "ops' = []" using ops by simp
      moreover have "x = Inr (point_of bj, s)" using st p Nil t bj by (auto intro: jump_step_only)
      moreover have "sink_fwd E' f f' (point_of bj) s (point_of bj) s" using J sunk_join(3) [OF J bj] by (auto simp: sink_fwd_def)
      ultimately show ?thesis by (simp add: matched_stay point_of_def)
    next
      case (Cons op rest)
      then obtain op' rest' where o: "ops' = op' # rest'" "same_instr op op'" "same_instrs rest rest'"
        using ops by (auto simp: list_all2_Cons1)
      show ?thesis unfolding o(1) append_Cons
        by (rule matched_op [OF st [unfolded p Cons] o(2) C]) (use J o(3) t bj in \<open>auto simp: sink_fwd_def sink_points_def\<close>)
    qed
    show "matched D E' (sink_fwd E' f f') f' p' s' x"
      using pts unfolding sink_points_def s'
    proof (elim disjE exE conjE)
      assume "p' = p" "jn_j J \<notin> set (targets (snd p))"
      then show "matched D E' (sink_fwd E' f f') f' p' s x" using sink_same_fwd [OF J _ C st] by simp
    next
      fix pre suf t assume p: "p = (pre @ suf, t)" "p' = (pre, t)" and t: "jump_to (jn_j J) t"
        and suf: "same_instrs suf (jn_suffix J)"
      show "matched D E' (sink_fwd E' f f') f' p' s x"
      proof (cases pre)
        case Nil
        have "reach D E' f' ([], t) s (jn_suffix J @ b_ops bj, b_term bj) s"
          using jump_step [OF t sunk_join(1) [OF J bj]] sunk_join(2) [OF J bj] by (intro reach_step) simp
        then show ?thesis unfolding p(2) Nil
          by (rule matched_first) (rule in_suffix [OF _ t suf], simp add: p(1) Nil)
      next
        case (Cons op rest)
        show ?thesis unfolding p(2) Cons
          by (rule matched_op [OF st [unfolded p(1) Cons append_Cons] same_instr_refl C])
            (use J t suf in \<open>auto simp: sink_fwd_def sink_points_def\<close>)
      qed
    next
      fix ops ops' t b assume "p = (ops, t)" "p' = (ops' @ b_ops b, b_term b)" "jump_to (jn_j J) t"
        "same_instrs ops ops'" "block_at f (jn_j J) = Some b"
      then show "matched D E' (sink_fwd E' f f') f' p' s x" using in_suffix bj by simp
    qed
  qed
qed

lemma sink_bwd_sim:
  "enters G (\<lambda>f' f. sink_change f f') (sink_bwd :: 'd point_rel)"
  "simulates (D :: 'd device) G (\<lambda>f' f. sink_change f f') sink_bwd"
proof -
  show "enters G (\<lambda>f' f. sink_change f f') (sink_bwd :: 'd point_rel)"
    by (rule entersI) (use sink_entry(2) in \<open>unfold sink_bwd_def, blast\<close>)
  show "simulates D G (\<lambda>f' f. sink_change f f') sink_bwd"
  proof (rule simulatesI)
    fix E E' C f f' p x and s s' :: "'d ir_state" and p'
    assume K: "sink_bwd E' f' f p' s' p s" and "G s'" and C: "call_part D G E E' C" and st: "istep D C f' p' s' x"
    obtain J where J: "sinks J f f'" and pts: "sink_points J f p p'" and s': "s' = s" using K by (auto simp: sink_bwd_def)
    note C = call_partD(2) [OF C \<open>G s'\<close>, unfolded s'] and st = st [unfolded s']
    obtain bj where bj: "block_at f (jn_j J) = Some bj" using J by (auto simp: sinks_def)
    show "matched D E' (sink_bwd E' f' f) f p s x"
      using pts unfolding sink_points_def
    proof (elim disjE exE conjE)
      assume "p' = p" "jn_j J \<notin> set (targets (snd p))"
      then show "matched D E' (sink_bwd E' f' f) f p s x" using sink_same_bwd [OF J _ C] st by simp
    next
      fix pre suf t assume p: "p = (pre @ suf, t)" "p' = (pre, t)" and t: "jump_to (jn_j J) t"
        and suf: "same_instrs suf (jn_suffix J)"
      show "matched D E' (sink_bwd E' f' f) f p s x"
      proof (cases pre)
        case Nil
        have "x = Inr ((jn_suffix J @ b_ops bj, b_term bj), s)"
          using jump_step_only [OF st [unfolded p(2) Nil] t sunk_join(1) [OF J bj]] sunk_join(2) [OF J bj] by simp
        moreover have "sink_bwd E' f' f (jn_suffix J @ b_ops bj, b_term bj) s (suf, t) s"
          using J t suf bj unfolding sink_bwd_def sink_points_def by blast
        ultimately show ?thesis unfolding p(1) Nil by (simp add: matched_stay)
      next
        case (Cons op rest)
        show ?thesis unfolding p(1) Cons append_Cons
          by (rule matched_op [OF st [unfolded p(2) Cons] same_instr_refl C])
            (use J t suf in \<open>auto simp: sink_bwd_def sink_points_def\<close>)
      qed
    next
      fix ops ops' t b assume p: "p = (ops, t)" "p' = (ops' @ b_ops b, b_term b)" and t: "jump_to (jn_j J) t"
        and ops: "same_instrs ops ops'" and b: "block_at f (jn_j J) = Some b"
      have [simp]: "b = bj" using b bj by simp
      show "matched D E' (sink_bwd E' f' f) f p s x"
      proof (cases ops)
        case Nil
        then have "p' = point_of bj" using ops p by (simp add: point_of_def)
        then have "matched D E' (sink_bwd E' f' f) f (point_of bj) s x"
          using sink_same_bwd [OF J _ C] st sunk_join(3) [OF J bj] J bj
          by (auto simp: sinks_def block_at_Some [OF fn_ok_distinct])
        moreover have "reach D E' f ([], t) s (point_of bj) s" by (rule reach_step) (rule jump_step [OF t bj])
        ultimately show ?thesis unfolding p(1) Nil using matched_first by blast
      next
        case (Cons op rest)
        then obtain op' rest' where o: "ops' = op' # rest'" "same_instr op op'" "same_instrs rest rest'"
          using ops by (auto simp: list_all2_Cons1)
        show ?thesis unfolding p(1) Cons
          by (rule matched_op [OF st [unfolded p(2) o(1) append_Cons] same_instr_sym [OF o(2)] C])
            (use J o(3) t bj in \<open>auto simp: sink_bwd_def sink_points_def\<close>)
      qed
    qed
  qed
qed

lemma sink_ok: "sink_change f f' \<Longrightarrow> fn_ok f'"
proof -
  assume "sink_change f f'"
  then obtain J where J: "fn_ok f" "f' = map_blocks (sunk_block J) f" "\<forall>op \<in> set (jn_suffix J). op_symbols_ok op"
    by (auto simp: sink_change_def sinks_def)
  show "fn_ok f'" unfolding J(2)
  proof (rule fn_ok_map [OF J(1)])
    fix b op assume "b \<in> set (fn_blocks f)" "op \<in> set (b_ops (sunk_block J b))"
    then show "op_symbols_ok op"
      using J(3) fn_ok_symbols [OF J(1)] by (auto simp: sunk_block_def drop_last_def dest: in_set_takeD split: if_splits)
  qed (use fn_ok_targets [OF J(1)] in auto)
qed

lemma tail_sink_returns:
  assumes "fn_ok f"
  shows "\<exists>f' n. tail_sink_run f = Some (f', n)"
  using fn_ok_nonempty [OF assms]
  by (cases "find_sink f") (auto simp: tail_sink_run_def Let_def)

lemma tail_sink_ok: "fn_ok f \<Longrightarrow> tail_sink_run f = Some (f', n) \<Longrightarrow> fn_ok f'"
  using tail_sink_change sink_ok by blast

lemma tail_sink_sound:
  "sound_change D (\<lambda>_. True) (\<lambda>f f'. fn_ok f \<and> (\<exists>n. tail_sink_run f = Some (f', n)))"
proof -
  have "sound_change D (\<lambda>_. True) sink_change"
    by (rule sound_changeI [OF keeps_True _ sink_fwd_sim sink_bwd_sim]) (auto simp: sink_change_def sinks_def)
  from sound_change_star [OF this] show ?thesis
    by (rule sound_change_mono) (auto dest: tail_sink_change)
qed

end
