(* ===== verification/Dataflow.thy ===== *)
theory Dataflow
  imports Pass_Base
begin

text \<open>
  The analysis behind the value-based passes (\<open>crates/post-machine/src/optimizer/dataflow.rs\<close>): what is
  known of the match flag and the cell under the head at every block entry. The map from block ids to
  facts is a partial function, the work list has its top in front; the loop's termination is part of
  its definition. \<open>edge_facts\<close> are the edges a block pushes.
\<close>

section \<open>The analysis\<close>

datatype fact =
    Uncoupled
  | Coupled "u32 option"

definition fact_merge :: "fact \<Rightarrow> fact \<Rightarrow> fact" where
  "fact_merge x y =
     (case (x, y) of
        (Coupled a, Coupled b) \<Rightarrow> Coupled (if a = b then a else None)
      | _ \<Rightarrow> Uncoupled)"

definition fact_cell :: "fact \<Rightarrow> u32 option" where
  "fact_cell x = (case x of Coupled c \<Rightarrow> c | Uncoupled \<Rightarrow> None)"

definition transfer_op :: "fact \<Rightarrow> ir_op \<Rightarrow> fact" where
  "transfer_op x op =
     (case op of
        Lft _ \<Rightarrow> Coupled None
      | Rgt _ \<Rightarrow> Coupled None
      | WrLft _ _ \<Rightarrow> Coupled None
      | WrRgt _ _ \<Rightarrow> Coupled None
      | Wr i _ \<Rightarrow> Coupled (Some i)
      | Call _ _ \<Rightarrow> (case x of Coupled _ \<Rightarrow> Coupled None | Uncoupled \<Rightarrow> Uncoupled)
      | Brk _ \<Rightarrow> (case x of Coupled _ \<Rightarrow> Coupled None | Uncoupled \<Rightarrow> Uncoupled))"

definition transfer_ops :: "fact \<Rightarrow> ir_op list \<Rightarrow> fact" where
  "transfer_ops x ops = foldl transfer_op x ops"

fun edge_facts :: "fact \<Rightarrow> ir_term \<Rightarrow> (nat \<times> fact) list" where
  "edge_facts x (FallThrough i) = [(i, x)]"
| "edge_facts x (Goto i) = [(i, x)]"
| "edge_facts x (Check marked blank) =
     (case x of
        Coupled _ \<Rightarrow> [(marked, Coupled (Some 1)), (blank, Coupled (Some 0))]
      | Uncoupled \<Rightarrow> [(marked, Uncoupled), (blank, Uncoupled)])"
| "edge_facts x t = []"

type_synonym facts = "nat \<Rightarrow> fact option"

definition push_fact :: "nat \<times> fact \<Rightarrow> facts \<times> nat list \<Rightarrow> facts \<times> nat list" where
  "push_fact e st =
     (let (target, x) = e; (entry, work) = st;
          merged = (case entry target of Some old \<Rightarrow> fact_merge old x | None \<Rightarrow> x)
      in if entry target \<noteq> Some merged then (entry(target \<mapsto> merged), target # work) else (entry, work))"

text \<open>How far a fact can still fall, over every id the graph mentions.\<close>

definition fact_height :: "fact option \<Rightarrow> nat" where
  "fact_height x =
     (case x of None \<Rightarrow> 3 | Some (Coupled (Some _)) \<Rightarrow> 2 | Some (Coupled None) \<Rightarrow> 1 | Some Uncoupled \<Rightarrow> 0)"

definition mentioned :: "ir_function \<Rightarrow> nat set" where
  "mentioned f = set (block_ids f) \<union> (\<Union>b \<in> set (fn_blocks f). set (targets (b_term b)))"

definition facts_height :: "ir_function \<Rightarrow> facts \<Rightarrow> nat" where
  "facts_height f entry = (\<Sum>i \<in> mentioned f. fact_height (entry i))"

lemma finite_mentioned [simp]: "finite (mentioned f)"
  by (simp add: mentioned_def)

lemma push_fact_height:
  assumes "target \<in> mentioned f"
  shows "push_fact (target, x) (entry, work) = (entry, work)
    \<or> facts_height f (fst (push_fact (target, x) (entry, work))) < facts_height f entry"
proof (cases "entry target = Some (case entry target of Some old \<Rightarrow> fact_merge old x | None \<Rightarrow> x)")
  case False
  let ?m = "case entry target of Some old \<Rightarrow> fact_merge old x | None \<Rightarrow> x"
  have "fact_height (Some ?m) < fact_height (entry target)"
    using False by (auto simp: fact_height_def fact_merge_def split: option.splits fact.splits if_splits)
  then have "facts_height f (entry(target \<mapsto> ?m)) < facts_height f entry"
    unfolding facts_height_def by (intro sum_strict_mono_ex1) (use assms in auto)
  then show ?thesis using False by (simp add: push_fact_def)
qed (simp add: push_fact_def)

lemma fold_push_height:
  assumes "\<forall>e \<in> set es. fst e \<in> mentioned f"
  shows "fold push_fact es st = st \<or> facts_height f (fst (fold push_fact es st)) < facts_height f (fst st)"
  using assms
proof (induction es arbitrary: st)
  case (Cons e es)
  obtain i x where e: "e = (i, x)" by (cases e)
  obtain entry work where st: "st = (entry, work)" by (cases st)
  have "push_fact e st = st \<or> facts_height f (fst (push_fact e st)) < facts_height f (fst st)"
    using push_fact_height [of i f x entry work] Cons.prems e st by auto
  then show ?case using Cons.IH [of "push_fact e st"] Cons.prems by auto
qed simp

lemma edge_facts_targets: "e \<in> set (edge_facts x t) \<Longrightarrow> fst e \<in> set (targets t)"
  by (cases t; cases x) auto

lemma block_at_in: "block_at f i = Some b \<Longrightarrow> b \<in> set (fn_blocks f)"
  by (auto simp: block_at_def block_index_def set_zip dest!: map_of_SomeD)

function facts_loop :: "ir_function \<Rightarrow> facts \<Rightarrow> nat list \<Rightarrow> facts option" where
  "facts_loop f entry [] = Some entry"
| "facts_loop f entry (i # work) =
     (case (block_at f i, entry i) of
        (Some b, Some x) \<Rightarrow>
          (let st = fold push_fact (edge_facts (transfer_ops x (b_ops b)) (b_term b)) (entry, work)
           in facts_loop f (fst st) (snd st))
      | _ \<Rightarrow> None)"
  by pat_completeness auto
termination
proof (relation "measures [\<lambda>(f, entry, work). facts_height f entry, \<lambda>(f, entry, work). length work]")
  fix f :: ir_function and entry :: facts and i work b' x b x' st
  assume q: "(b', x) = (block_at f i, entry i)" "b' = Some b" "x = Some x'"
    and st: "st = fold push_fact (edge_facts (transfer_ops x' (b_ops b)) (b_term b)) (entry, work)"
  have "block_at f i = Some b" using q by auto
  then have "b \<in> set (fn_blocks f)" by (rule block_at_in)
  then have "\<forall>e \<in> set (edge_facts (transfer_ops x' (b_ops b)) (b_term b)). fst e \<in> mentioned f"
    by (auto simp: mentioned_def dest!: edge_facts_targets)
  from fold_push_height [OF this, of "(entry, work)"]
  show "((f, fst st, snd st), (f, entry, i # work))
      \<in> measures [\<lambda>(f, entry, work). facts_height f entry, \<lambda>(f, entry, work). length work]"
    unfolding st
    by (cases "fold push_fact (edge_facts (transfer_ops x' (b_ops b)) (b_term b)) (entry, work)") auto
qed simp

declare facts_loop.simps(2) [simp del]

definition block_entry_facts :: "ir_function \<Rightarrow> facts option" where
  "block_entry_facts f =
     (case fn_blocks f of
        [] \<Rightarrow> None
      | b # _ \<Rightarrow> facts_loop f [b_id b \<mapsto> Uncoupled] [b_id b])"

section \<open>It ends in a fixpoint\<close>

definition fact_le :: "fact \<Rightarrow> fact \<Rightarrow> bool" where
  "fact_le x y \<longleftrightarrow> y = Uncoupled \<or> x = y \<or> (y = Coupled None \<and> x \<noteq> Uncoupled)"

lemma fact_le_refl [simp]: "fact_le x x" by (simp add: fact_le_def)

lemma fact_le_trans: "fact_le x y \<Longrightarrow> fact_le y z \<Longrightarrow> fact_le x z"
  by (auto simp: fact_le_def)

lemma fact_le_merge: "fact_le x (fact_merge x y)" "fact_le y (fact_merge x y)"
  by (auto simp: fact_le_def fact_merge_def split: fact.splits)

text \<open>Every edge fact is covered by the fact of its target.\<close>

definition covered :: "facts \<Rightarrow> fact \<Rightarrow> point \<Rightarrow> bool" where
  "covered entry x p \<longleftrightarrow>
     (\<forall>(i, y) \<in> set (edge_facts (transfer_ops x (fst p)) (snd p)). \<exists>z. entry i = Some z \<and> fact_le y z)"

definition grows :: "facts \<times> nat list \<Rightarrow> facts \<times> nat list \<Rightarrow> bool" where
  "grows st st' \<longleftrightarrow> set (snd st) \<subseteq> set (snd st')
     \<and> (\<forall>i x. fst st i = Some x \<longrightarrow> (\<exists>y. fst st' i = Some y \<and> fact_le x y))
     \<and> (\<forall>i. fst st' i \<noteq> fst st i \<longrightarrow> i \<in> set (snd st'))"

lemma grows_refl [simp]: "grows st st" by (simp add: grows_def)

lemma grows_trans:
  assumes "grows st st'" "grows st' st''"
  shows "grows st st''"
  unfolding grows_def
proof (intro conjI allI impI)
  show "set (snd st) \<subseteq> set (snd st'')" using assms by (auto simp: grows_def)
  show "\<exists>y. fst st'' i = Some y \<and> fact_le x y" if "fst st i = Some x" for i x
    using assms that fact_le_trans unfolding grows_def by meson
  show "i \<in> set (snd st'')" if "fst st'' i \<noteq> fst st i" for i
    using assms that unfolding grows_def by (metis subsetD)
qed

lemma push_fact_grows:
  "grows st (push_fact (i, x) st) \<and> (\<exists>y. fst (push_fact (i, x) st) i = Some y \<and> fact_le x y)"
proof -
  obtain entry work where st: "st = (entry, work)" by (cases st)
  show ?thesis
  proof (cases "entry i")
    case None
    then show ?thesis by (auto simp: st push_fact_def grows_def)
  next
    case (Some old)
    have "fact_le old (fact_merge old x)" "fact_le x (fact_merge old x)" by (rule fact_le_merge)+
    then show ?thesis using Some by (cases "old = fact_merge old x") (auto simp: st push_fact_def grows_def Let_def)
  qed
qed

lemma fold_push_grows:
  "grows st (fold push_fact es st)
   \<and> (\<forall>(i, x) \<in> set es. \<exists>y. fst (fold push_fact es st) i = Some y \<and> fact_le x y)"
proof (induction es arbitrary: st)
  case (Cons e es)
  obtain i x where e: "e = (i, x)" by (cases e)
  have a: "grows st (push_fact e st)" "\<exists>y. fst (push_fact e st) i = Some y \<and> fact_le x y"
    using push_fact_grows [of st i x] e by simp_all
  have b: "grows (push_fact e st) (fold push_fact es (push_fact e st))"
    "\<forall>(i, x) \<in> set es. \<exists>y. fst (fold push_fact es (push_fact e st)) i = Some y \<and> fact_le x y"
    using Cons.IH by blast+
  have "\<exists>y. fst (fold push_fact es (push_fact e st)) i = Some y \<and> fact_le x y"
    using a(2) b(1) fact_le_trans unfolding grows_def by meson
  then show ?case using grows_trans [OF a(1) b(1)] b(2) e by simp
qed simp

text \<open>The loop's invariant: what is not waiting is covered.\<close>

definition settled_facts :: "ir_function \<Rightarrow> facts \<Rightarrow> nat list \<Rightarrow> bool" where
  "settled_facts f entry work \<longleftrightarrow>
     (\<forall>i x b. entry i = Some x \<longrightarrow> i \<notin> set work \<longrightarrow> block_at f i = Some b \<longrightarrow> covered entry x (point_of b))"

lemma covered_grows: "covered (fst st) x p \<Longrightarrow> grows st st' \<Longrightarrow> covered (fst st') x p"
  unfolding covered_def grows_def using fact_le_trans by fast


lemma facts_loop_result:
  "facts_loop f entry work = Some facts \<Longrightarrow> settled_facts f entry work \<Longrightarrow>
     settled_facts f facts [] \<and> (\<forall>i x. entry i = Some x \<longrightarrow> (\<exists>y. facts i = Some y \<and> fact_le x y))"
proof (induction f entry work rule: facts_loop.induct)
  case (2 f entry i work)
  obtain b x where b: "block_at f i = Some b" "entry i = Some x"
    using "2.prems"(1) by (auto simp: facts_loop.simps split: option.splits)
  define st where "st = fold push_fact (edge_facts (transfer_ops x (b_ops b)) (b_term b)) (entry, work)"
  have r: "facts_loop f (fst st) (snd st) = Some facts"
    using "2.prems"(1) b by (simp add: facts_loop.simps st_def Let_def)
  have g: "grows (entry, work) st"
    and e: "\<forall>(j, y) \<in> set (edge_facts (transfer_ops x (b_ops b)) (b_term b)). \<exists>z. fst st j = Some z \<and> fact_le y z"
    using fold_push_grows [of "(entry, work)"] by (simp_all add: st_def)
  have "settled_facts f (fst st) (snd st)"
    unfolding settled_facts_def
  proof (intro allI impI)
    fix j y c assume j: "fst st j = Some y" "j \<notin> set (snd st)" "block_at f j = Some c"
    have "fst st j = entry j" using g j(2) unfolding grows_def by fastforce
    then have same: "entry j = Some y" "j \<notin> set work" using g j by (auto simp: grows_def)
    show "covered (fst st) y (point_of c)"
    proof (cases "j = i")
      case True
      then show ?thesis using same b j e by (simp add: covered_def point_of_def)
    next
      case False
      then have "covered entry y (point_of c)" using "2.prems"(2) same j by (simp add: settled_facts_def)
      then show ?thesis using covered_grows [of "(entry, work)", OF _ g] by simp
    qed
  qed
  then have "settled_facts f facts [] \<and> (\<forall>i x. fst st i = Some x \<longrightarrow> (\<exists>y. facts i = Some y \<and> fact_le x y))"
    using "2.IH" [OF refl b st_def r] by blast
  then show ?case using g fact_le_trans unfolding grows_def by (metis fst_conv)
qed simp

lemma fold_push_work: "set (snd (fold push_fact es st)) \<subseteq> set (snd st) \<union> fst ` set es"
proof (induction es arbitrary: st)
  case (Cons e es)
  have "set (snd (push_fact e st)) \<subseteq> insert (fst e) (set (snd st))"
    by (cases e; cases st) (auto simp: push_fact_def Let_def)
  then show ?case using Cons.IH [of "push_fact e st"] by auto
qed simp

lemma facts_loop_returns:
  "valid_fn f \<Longrightarrow> \<forall>i \<in> set work. i \<in> set (block_ids f) \<and> entry i \<noteq> None \<Longrightarrow> \<exists>facts. facts_loop f entry work = Some facts"
proof (induction f entry work rule: facts_loop.induct)
  case (2 f entry i work)
  have d: "distinct (block_ids f)" using 2(2) by (simp add: valid_fn_def)
  obtain b x where b: "block_at f i = Some b" "entry i = Some x"
    using 2(3) block_at_None [OF d, of i] by auto
  define es where "es = edge_facts (transfer_ops x (b_ops b)) (b_term b)"
  define st where "st = fold push_fact es (entry, work)"
  have ids: "fst ` set es \<subseteq> set (block_ids f)"
    using 2(2) block_at_in [OF b(1)] edge_facts_targets unfolding es_def valid_fn_def by blast
  have work: "set (snd st) \<subseteq> set work \<union> fst ` set es" using fold_push_work [of es "(entry, work)"] by (simp add: st_def)
  have g: "grows (entry, work) st" and e: "\<forall>(i, x) \<in> set es. \<exists>y. fst st i = Some y \<and> fact_le x y"
    using fold_push_grows [of "(entry, work)" es] by (simp_all add: st_def)
  have "\<forall>j \<in> set (snd st). j \<in> set (block_ids f) \<and> fst st j \<noteq> None"
  proof
    fix j assume "j \<in> set (snd st)"
    then consider "j \<in> set work" | "j \<in> fst ` set es" using work by blast
    then show "j \<in> set (block_ids f) \<and> fst st j \<noteq> None"
    proof cases
      case 1
      then show ?thesis using 2(3) g by (fastforce simp: grows_def)
    next
      case 2
      then show ?thesis using ids e by fastforce
    qed
  qed
  then have "\<exists>facts. facts_loop f (fst st) (snd st) = Some facts"
    using 2(1) [OF refl b st_def [unfolded es_def] 2(2)] by blast
  then show ?case using b by (simp add: facts_loop.simps Let_def st_def es_def)
qed simp

text \<open>What the passes use: a fact for the entry, and every fact covered along every edge.\<close>

lemma block_entry_facts_fixpoint:
  assumes "valid_fn f"
  shows "\<exists>facts. block_entry_facts f = Some facts \<and> facts (b_id (hd (fn_blocks f))) = Some Uncoupled
    \<and> (\<forall>i x b. facts i = Some x \<longrightarrow> block_at f i = Some b \<longrightarrow> covered facts x (point_of b))"
proof -
  obtain b bs where b: "fn_blocks f = b # bs" using assms by (cases "fn_blocks f") (auto simp: valid_fn_def)
  let ?e = "[b_id b \<mapsto> Uncoupled]"
  obtain facts where r: "facts_loop f ?e [b_id b] = Some facts"
    using facts_loop_returns [OF assms, of "[b_id b]" ?e] b by (auto simp: block_ids_def)
  have "settled_facts f ?e [b_id b]" by (simp add: settled_facts_def)
  note res = facts_loop_result [OF r this]
  then obtain y where "facts (b_id b) = Some y" "fact_le Uncoupled y" by (metis fun_upd_same)
  then have "facts (b_id b) = Some Uncoupled" by (auto simp: fact_le_def)
  then show ?thesis using res r b by (auto simp: block_entry_facts_def settled_facts_def)
qed

end
