(* ===== verification/Mark_Store.thy ===== *)
theory Mark_Store
  imports Dataflow Tapes
begin

text \<open>
  Devices on which the value-based passes are sound. The equivalence contract of
  \<open>crates/post-machine/src/optimizer/mod.rs\<close> is stated for PM-1's default tape: what was written reads
  back, reading and moving change nothing, a step back returns to the cell, and the two-symbol alphabet
  is the only reason for a fault. The locale \<open>mark_store\<close> is that contract; the infinite tape of
  \<open>crates/core/src/vm/devices/infinite_tape.rs\<close> meets it. Within it: the match-flag coupling, and the
  soundness of the facts of \<open>Dataflow\<close>.
\<close>

lemma u32_le_1: "(w :: u32) \<le> 1 \<longleftrightarrow> w = 0 \<or> w = 1"
proof
  assume "w \<le> 1"
  then have "unat w = 0 \<or> unat w = 1" by (auto simp: word_le_nat_alt)
  then show "w = 0 \<or> w = 1" by (metis unsigned_0 unsigned_1 word_unat_eq_iff)
qed auto

section \<open>The contract\<close>

locale mark_store =
  fixes D :: "'d device"
    and ok :: "'d \<Rightarrow> bool"
    and cell :: "'d \<Rightarrow> u32"
  assumes read_cell: "ok d \<Longrightarrow> d_read D d = Inr (cell d, d)"
    and cell_binary: "ok d \<Longrightarrow> cell d \<le> 1"
    and left_ok: "ok d \<Longrightarrow> \<exists>d'. d_left D d = Inr d' \<and> ok d' \<and> d_right D d' = Inr d"
    and right_ok: "ok d \<Longrightarrow> \<exists>d'. d_right D d = Inr d' \<and> ok d' \<and> d_left D d' = Inr d"
    and write_in: "ok d \<Longrightarrow> i \<le> 1 \<Longrightarrow> \<exists>d'. d_write D i d = Inr d'"
    and write_done: "ok d \<Longrightarrow> d_write D i d = Inr d' \<Longrightarrow> ok d' \<and> cell d' = i"
    and write_same: "ok d \<Longrightarrow> d_write D (cell d) d = Inr d"
    and write_again: "ok d \<Longrightarrow> d_write D i d = Inr d' \<Longrightarrow> j \<le> 1 \<Longrightarrow> d_write D j d' = d_write D j d"
begin

definition stored :: "'d ir_state \<Rightarrow> bool" where
  "stored s \<longleftrightarrow> ok (s_dev s)"

text \<open>The match-flag coupling: the flag tells whether the head is on a mark.\<close>

definition coupled :: "'d ir_state \<Rightarrow> bool" where
  "coupled s \<longleftrightarrow> ok (s_dev s) \<and> s_mf s = (cell (s_dev s) = 1)"

lemma coupled_stored: "coupled s \<Longrightarrow> stored s"
  by (simp add: coupled_def stored_def)

text \<open>Landing on a cell and latching it.\<close>

definition landed :: "'d ir_state \<Rightarrow> 'd \<Rightarrow> 'd ir_state" where
  "landed s d = s\<lparr>s_dev := d, s_mf := (cell d = 1)\<rparr>"

lemma landed_coupled: "ok d \<Longrightarrow> coupled (landed s d)"
  by (simp add: landed_def coupled_def)

lemma landed_simps [simp]:
  "s_dev (landed s d) = d" "s_mf (landed s d) = (cell d = 1)" "s_seen (landed s d) = s_seen s"
  "landed (landed s d) d' = landed s d'"
  by (simp_all add: landed_def)

lemma landed_self: "coupled s \<Longrightarrow> landed s (s_dev s) = s"
  by (cases s) (auto simp: landed_def coupled_def)

lemma latch_landed: "ok d \<Longrightarrow> latch_cell D (s\<lparr>s_dev := d\<rparr>) = Inr (landed s d)"
  by (simp add: latch_cell_def read_cell landed_def)

lemma act_Lft: "stored s \<Longrightarrow> d_left D (s_dev s) = Inr d \<Longrightarrow> act D (Lft l) s = Inr (landed s d) \<and> ok d"
  using left_ok [of "s_dev s"] latch_landed [of d s] by (auto simp: stored_def touch_def)

lemma act_Rgt: "stored s \<Longrightarrow> d_right D (s_dev s) = Inr d \<Longrightarrow> act D (Rgt l) s = Inr (landed s d) \<and> ok d"
  using right_ok [of "s_dev s"] latch_landed [of d s] by (auto simp: stored_def touch_def)

lemma act_Wr:
  "stored s \<Longrightarrow> d_write D i (s_dev s) = Inr d \<Longrightarrow> act D (Wr i l) s = Inr (landed s d) \<and> ok d \<and> cell d = i"
  using write_done [of "s_dev s" i d] latch_landed [of d s] by (simp add: stored_def touch_def)

lemma act_Wr_fault:
  "d_write D i (s_dev s) = Inl (e, d) \<Longrightarrow> act D (Wr i l) s = Inl (e, s\<lparr>s_dev := d\<rparr>)
     \<and> act D (WrLft i l) s = Inl (e, s\<lparr>s_dev := d\<rparr>) \<and> act D (WrRgt i l) s = Inl (e, s\<lparr>s_dev := d\<rparr>)"
  by (simp add: touch_def)

lemma act_Wr_done: "act D (Wr i l) s = Inr s' \<Longrightarrow> \<exists>d. d_write D i (s_dev s) = Inr d"
  by (cases "d_write D i (s_dev s)") (auto simp: touch_def)

text \<open>A fused instruction is its two halves.\<close>

lemma act_WrLft: "act D (Wr i l) s = Inr s' \<Longrightarrow> stored s \<Longrightarrow> act D (WrLft i l) s = act D (Lft k) s'"
proof -
  assume a: "act D (Wr i l) s = Inr s'" and s: "stored s"
  obtain d where d: "d_write D i (s_dev s) = Inr d" using act_Wr_done [OF a] by blast
  then have s': "s' = landed s d" "ok d" using a act_Wr [OF s d] by simp_all
  obtain d' where "d_left D d = Inr d'" "ok d'" using left_ok [OF s'(2)] by blast
  then show ?thesis using d s' latch_landed [of d' s] latch_landed [of d' s'] by (simp add: touch_def landed_def)
qed

lemma act_WrRgt: "act D (Wr i l) s = Inr s' \<Longrightarrow> stored s \<Longrightarrow> act D (WrRgt i l) s = act D (Rgt k) s'"
proof -
  assume a: "act D (Wr i l) s = Inr s'" and s: "stored s"
  obtain d where d: "d_write D i (s_dev s) = Inr d" using act_Wr_done [OF a] by blast
  then have s': "s' = landed s d" "ok d" using a act_Wr [OF s d] by simp_all
  obtain d' where "d_right D d = Inr d'" "ok d'" using right_ok [OF s'(2)] by blast
  then show ?thesis using d s' latch_landed [of d' s] latch_landed [of d' s'] by (simp add: touch_def landed_def)
qed

text \<open>What an operation leaves: a stored state, coupled by every tape instruction.\<close>

lemma act_result:
  assumes "stored s" "act D op s = Inr s'"
  shows "stored s' \<and> (coupled s' \<or> s_dev s' = s_dev s \<and> s_mf s' = s_mf s \<and> ((\<exists>l. op = Brk l) \<or> called op \<noteq> None))
    \<and> (\<forall>i l. op = Wr i l \<longrightarrow> cell (s_dev s') = i)"
proof -
  have ok: "ok (s_dev s)" using assms(1) by (simp add: stored_def)
  obtain dl dr where m: "d_left D (s_dev s) = Inr dl" "d_right D (s_dev s) = Inr dr"
    using left_ok [OF ok] right_ok [OF ok] by blast
  have wr: "coupled s'' \<and> cell (s_dev s'') = i" if w: "act D (Wr i l) s = Inr s''" for i l s''
  proof -
    obtain d where d: "d_write D i (s_dev s) = Inr d" using act_Wr_done [OF w] by blast
    then show ?thesis using w act_Wr [OF assms(1) d] landed_coupled by auto
  qed
  have fused: "\<exists>s1. act D (Wr i l) s = Inr s1" if "act D (WrLft i l) s = Inr s' \<or> act D (WrRgt i l) s = Inr s'" for i l
  proof (cases "d_write D i (s_dev s)")
    case (Inr d)
    then show ?thesis using act_Wr [OF assms(1)] by blast
  qed (use that in \<open>auto simp: touch_def\<close>)
  have move: "coupled s'' " if "stored s1" "act D (Lft k) s1 = Inr s'' \<or> act D (Rgt k) s1 = Inr s''" for s1 s'' k
    using that left_ok [of "s_dev s1"] right_ok [of "s_dev s1"] act_Lft [OF that(1)] act_Rgt [OF that(1)] landed_coupled
    by (auto simp: stored_def simp del: act.simps)
  show ?thesis
  proof (cases op)
    case (WrLft i l)
    then obtain s1 where s1: "act D (Wr i l) s = Inr s1" using fused assms(2) by blast
    then have "act D (Lft l) s1 = Inr s'" using act_WrLft [OF s1 assms(1)] assms(2) WrLft by simp
    then show ?thesis using move [of s1 l s'] wr [OF s1] coupled_stored WrLft by auto
  next
    case (WrRgt i l)
    then obtain s1 where s1: "act D (Wr i l) s = Inr s1" using fused assms(2) by blast
    then have "act D (Rgt l) s1 = Inr s'" using act_WrRgt [OF s1 assms(1)] assms(2) WrRgt by simp
    then show ?thesis using move [of s1 l s'] wr [OF s1] coupled_stored WrRgt by auto
  next
    case (Lft l)
    then show ?thesis using move [OF assms(1), of l s'] assms(2) coupled_stored by auto
  next
    case (Rgt l)
    then show ?thesis using move [OF assms(1), of l s'] assms(2) coupled_stored by auto
  next
    case (Wr i l)
    then show ?thesis using wr [of i l s'] assms(2) coupled_stored by auto
  qed (use assms in \<open>auto simp: stored_def\<close>)
qed

lemma keeps_stored: "keeps D stored"
  using act_result unfolding keeps_def by blast

lemma keeps_coupled: "keeps D coupled"
  unfolding keeps_def
proof (intro allI impI)
  fix op s s' assume s: "coupled s" "act D op s = Inr s'"
  then show "coupled s'" using act_result [OF coupled_stored [OF s(1)] s(2)] s(1)
    by (auto simp: coupled_def stored_def)
qed

section \<open>Facts\<close>

definition holds :: "fact \<Rightarrow> 'd ir_state \<Rightarrow> bool" where
  "holds x s \<longleftrightarrow>
     (case x of Uncoupled \<Rightarrow> True | Coupled c \<Rightarrow> coupled s \<and> (\<forall>i. c = Some i \<longrightarrow> cell (s_dev s) = i))"

lemma holds_le: "fact_le x y \<Longrightarrow> holds x s \<Longrightarrow> holds y s"
  by (auto simp: fact_le_def holds_def split: fact.splits)

lemma holds_cell: "holds x s \<Longrightarrow> fact_cell x = Some i \<Longrightarrow> coupled s \<and> cell (s_dev s) = i"
  by (auto simp: holds_def fact_cell_def split: fact.splits)

lemma transfer_act:
  assumes "stored s" "holds x s" "called op = None" "act D op s = Inr s'"
  shows "holds (transfer_op x op) s'"
  using act_result [OF assms(1,4)] assms(2,3)
  by (cases op) (auto simp: transfer_op_def holds_def coupled_def stored_def split: fact.splits)

lemma transfer_call:
  assumes "holds x s" "called op = Some n" "calls D E n s (Back s')"
  shows "holds (transfer_op x op) s'"
proof -
  have "coupled s'" if "coupled s"
    using assms(3) that exec_keeps [OF keeps_coupled] by (auto simp: calls_def)
  then show ?thesis using assms(1,2)
    by (cases op) (auto simp: transfer_op_def holds_def split: fact.splits)
qed

lemma edge_holds:
  assumes "stored s" "holds x s" "goes t (s_mf s) = Some i"
  shows "\<exists>y. (i, y) \<in> set (edge_facts x t) \<and> holds y s"
proof (cases t)
  case (Check m b)
  show ?thesis
  proof (cases x)
    case Uncoupled
    then show ?thesis using assms Check by (auto simp: holds_def split: if_splits)
  next
    case (Coupled c)
    then have c: "coupled s" using assms(2) by (simp add: holds_def)
    have "cell (s_dev s) \<noteq> 1 \<Longrightarrow> cell (s_dev s) = 0"
      using cell_binary [of "s_dev s"] assms(1) by (auto simp: stored_def u32_le_1)
    then show ?thesis using assms(3) Check Coupled c by (auto simp: holds_def coupled_def split: if_splits)
  qed
qed (use assms in \<open>auto split: if_splits\<close>)

text \<open>Going on along an edge of a covered point: the fact of the block that is entered holds.\<close>

lemma covered_next:
  assumes "stored s" "holds x s" "covered facts x ([], t)" "goes t (s_mf s) = Some i"
  shows "\<exists>y. facts i = Some y \<and> holds y s"
proof -
  obtain y where y: "(i, y) \<in> set (edge_facts x t)" "holds y s" using edge_holds [OF assms(1,2,4)] by blast
  then obtain z where "facts i = Some z" "fact_le y z"
    using assms(3) by (fastforce simp: covered_def transfer_ops_def)
  then show ?thesis using y(2) holds_le by blast
qed

end

lemma covered_Cons: "covered facts x (op # ops, t) \<longleftrightarrow> covered facts (transfer_op x op) (ops, t)"
  by (simp add: covered_def transfer_ops_def)

section \<open>The infinite tape\<close>

definition infinite_device :: "inf_tape device" where
  "infinite_device =
     \<lparr>d_left = \<lambda>t. Inr (it_left t), d_right = \<lambda>t. Inr (it_right t),
      d_write = \<lambda>i t. (case it_write t i of Inl e \<Rightarrow> Inl (e, t) | Inr t' \<Rightarrow> Inr t'),
      d_read = \<lambda>t. Inr (it_read t, t)\<rparr>"

lemma it_write_in: "i \<le> 1 \<Longrightarrow> it_write t i = Inr (it_set t (it_head t) (i = 1))"
  by (auto simp: it_write_def it_alphabet_size_def u32_le_1)

lemma it_write_Inr: "it_write t i = Inr t' \<Longrightarrow> i \<le> 1 \<and> t' = it_set t (it_head t) (i = 1)"
proof -
  assume "it_write t i = Inr t'"
  then have "i < 2" "t' = it_set t (it_head t) (i = 1)"
    by (auto simp: it_write_def it_alphabet_size_def not_le split: if_splits)
  moreover have "i \<le> 1" using \<open>i < 2\<close> by (auto simp: word_less_nat_alt word_le_nat_alt)
  ultimately show ?thesis by simp
qed

lemma it_ok_head: "it_ok t \<Longrightarrow> in_i64 (it_head t)"
  by (simp add: it_ok_def)

lemma it_set_same: "it_ok t \<Longrightarrow> in_i64 c \<Longrightarrow> it_get t c = m \<Longrightarrow> it_set t c m = t"
  by (rule it_ext) (auto simp: it_ok_set it_get_set fun_eq_iff)

lemma it_set_again: "it_ok t \<Longrightarrow> in_i64 c \<Longrightarrow> it_set (it_set t c m) c m' = it_set t c m'"
  by (rule it_ext) (auto simp: it_ok_set it_get_set fun_eq_iff)

lemma it_moves_ok: "it_ok t \<Longrightarrow> it_ok (it_left t) \<and> it_ok (it_right t)"
  by (simp add: it_ok_def it_left_def it_right_def)

lemma it_moves_back: "it_ok t \<Longrightarrow> it_left (it_right t) = t \<and> it_right (it_left t) = t"
  by (simp add: it_ok_def it_left_def it_right_def)

interpretation inf_store: mark_store infinite_device it_ok it_read
proof
  fix d i j d' assume ok: "it_ok d"
  note h = it_ok_head [OF ok]
  show "d_read infinite_device d = Inr (it_read d, d)" by (simp add: infinite_device_def)
  show "it_read d \<le> 1" by (simp add: it_read_def)
  show "\<exists>d'. d_left infinite_device d = Inr d' \<and> it_ok d' \<and> d_right infinite_device d' = Inr d"
    "\<exists>d'. d_right infinite_device d = Inr d' \<and> it_ok d' \<and> d_left infinite_device d' = Inr d"
    using it_moves_ok [OF ok] it_moves_back [OF ok] by (simp_all add: infinite_device_def)
  show "\<exists>d'. d_write infinite_device i d = Inr d'" if "i \<le> 1"
    using that by (simp add: infinite_device_def it_write_in)
  show "d_write infinite_device (it_read d) d = Inr d"
    using it_set_same [OF ok h refl]
    by (cases "it_get d (it_head d)") (simp_all add: infinite_device_def it_write_in it_read_def)
  assume "d_write infinite_device i d = Inr d'"
  then have i: "i \<le> 1" "d' = it_set d (it_head d) (i = 1)"
    using it_write_Inr by (auto simp: infinite_device_def split: sum.splits)
  then show "it_ok d' \<and> it_read d' = i"
    using it_ok_set [OF ok h] ok by (auto simp: it_read_def it_get_set u32_le_1)
  show "d_write infinite_device j d' = d_write infinite_device j d" if "j \<le> 1"
    using that i it_set_again [OF ok h] by (simp add: infinite_device_def it_write_in)
qed

end
