(* ===== verification/Pass_Values.thy ===== *)
theory Pass_Values
  imports Mark_Store
begin

text \<open>
  The two passes that act on the facts of \<open>Dataflow\<close>: \<open>branch-fold\<close>
  (\<open>crates/post-machine/src/optimizer/branch_fold.rs\<close>) and \<open>cell-state\<close> (\<open>cell_state.rs\<close>). Both are sound
  on every device of the contract \<open>mark_store\<close>, from any stored state: what they rely on is what the
  facts say, and the facts start from nothing known.
\<close>

section \<open>branch-fold\<close>

definition branch_fold_block :: "facts \<Rightarrow> ir_block \<Rightarrow> ir_block \<times> nat" where
  "branch_fold_block entries b =
     (case entries (b_id b) of
        None \<Rightarrow> (b, 0)
      | Some entry_fact \<Rightarrow>
          (case b_term b of
             Check marked blank \<Rightarrow>
               (case fact_cell (transfer_ops entry_fact (b_ops b)) of
                  Some s \<Rightarrow> (b\<lparr>b_term := Goto (if s = 1 then marked else blank)\<rparr>, 1)
                | None \<Rightarrow> (b, 0))
           | _ \<Rightarrow> (b, 0)))"

definition branch_fold_run :: "ir_function \<Rightarrow> pass_result" where
  "branch_fold_run f = map_option (\<lambda>entries. run_blocks (branch_fold_block entries) f) (block_entry_facts f)"

text \<open>What it does to a terminator, and the change of a function.\<close>

definition fold_check :: "fact \<Rightarrow> ir_term \<Rightarrow> ir_term" where
  "fold_check x t =
     (case (t, fact_cell x) of
        (Check marked blank, Some v) \<Rightarrow> Goto (if v = 1 then marked else blank)
      | _ \<Rightarrow> t)"

definition fold_point :: "fact \<Rightarrow> point \<Rightarrow> point" where
  "fold_point x p = (fst p, fold_check (transfer_ops x (fst p)) (snd p))"

abbreviation fold_block :: "facts \<Rightarrow> ir_block \<Rightarrow> ir_block" where
  "fold_block entries b \<equiv> fst (branch_fold_block entries b)"

text \<open>A pass that rewrites every block by the facts of its entry.\<close>

definition fact_change :: "(facts \<Rightarrow> ir_block \<Rightarrow> ir_block) \<Rightarrow> facts \<Rightarrow> ir_function \<Rightarrow> ir_function \<Rightarrow> bool" where
  "fact_change h entries f f' \<longleftrightarrow> valid_fn f \<and> block_entry_facts f = Some entries \<and> f' = map_blocks (h entries) f"

definition by_facts :: "(fact \<Rightarrow> point \<Rightarrow> point) \<Rightarrow> facts \<Rightarrow> (ir_block \<Rightarrow> ir_block) \<Rightarrow> bool" where
  "by_facts R entries h \<longleftrightarrow> (\<forall>b x. entries (b_id b) = Some x \<longrightarrow> point_of (h b) = R x (point_of b))"

lemma fold_check_sem [simp]:
  "tail_callee (fold_check x t) = tail_callee t" "leaves f (fold_check x t) = leaves f t"
  "set (targets (fold_check x t)) \<subseteq> set (targets t)"
  by (cases t; cases "fact_cell x"; simp add: fold_check_def fun_eq_iff)+

lemma branch_fold_id [simp]: "b_id (fst (branch_fold_block entries b)) = b_id b"
  by (simp add: branch_fold_block_def split: option.split ir_term.split)

lemma branch_fold_ops [simp]: "b_ops (fst (branch_fold_block entries b)) = b_ops b"
  by (simp add: branch_fold_block_def split: option.split ir_term.split)

lemma branch_fold_term:
  "b_term (fst (branch_fold_block entries b)) =
     (case entries (b_id b) of
        None \<Rightarrow> b_term b
      | Some x \<Rightarrow> fold_check (transfer_ops x (b_ops b)) (b_term b))"
  by (simp add: branch_fold_block_def fold_check_def split: option.split ir_term.split)

lemma branch_fold_returns: "valid_fn f \<Longrightarrow> \<exists>r. branch_fold_run f = Some r"
  using block_entry_facts_fixpoint [of f] by (auto simp: branch_fold_run_def)

lemma branch_fold_ok: "fn_ok f \<Longrightarrow> branch_fold_run f = Some (f', n) \<Longrightarrow> fn_ok f'"
proof -
  assume f: "fn_ok f" and r: "branch_fold_run f = Some (f', n)"
  obtain entries where "f' = map_blocks (fold_block entries) f"
    using r by (auto simp: branch_fold_run_def run_blocks_def)
  moreover have "fn_ok (map_blocks (fold_block entries) f)"
    by (rule fn_ok_shrink [OF f]) (simp_all add: branch_fold_term split: option.split)
  ultimately show ?thesis by simp
qed

text \<open>What the facts give when control enters a block: used by both passes.\<close>

lemma entry_fact_enters:
  assumes "valid_fn f" "block_entry_facts f = Some entries" "entry_point f = Some p"
  shows "\<exists>b. hd (fn_blocks f) = b \<and> p = point_of b \<and> entries (b_id b) = Some Uncoupled
    \<and> covered entries Uncoupled (point_of b)"
proof -
  obtain b bs where b: "fn_blocks f = b # bs" using assms(1) by (cases "fn_blocks f") (auto simp: valid_fn_def)
  have "block_at f (b_id b) = Some b"
    using assms(1) b block_at_Some [of f "b_id b" b] by (simp add: valid_fn_def)
  then show ?thesis
    using block_entry_facts_fixpoint [OF assms(1)] assms(2,3) b by (auto simp: entry_point_def)
qed

lemma entry_fact_covers:
  assumes "valid_fn f" "block_entry_facts f = Some entries" "block_at f i = Some b" "entries i = Some x"
  shows "b_id b = i \<and> covered entries x (point_of b)"
  using block_entry_facts_fixpoint [OF assms(1)] assms block_at_Some [of f i b] by (auto simp: valid_fn_def)

context mark_store
begin

lemma transfer_istep:
  assumes "istep D C f (op # ops, t) s (Inr (q, s1))" "\<And>n r. C n s r \<Longrightarrow> calls D E n s r"
    and "stored s" "holds x s"
  shows "holds (transfer_op x op) s1"
  using assms(1)
proof (cases rule: istep.cases)
  case (istep_call n)
  then show ?thesis using transfer_call [OF assms(4)] assms(2) by blast
next
  case istep_act
  then show ?thesis using assms(3,4) transfer_act by blast
qed

lemma fold_check_goes: "holds x s \<Longrightarrow> goes (fold_check x t) (s_mf s) = goes t (s_mf s)"
proof (cases "fact_cell x")
  case (Some v)
  assume "holds x s"
  then have "s_mf s = (v = 1)" using holds_cell [OF _ Some] by (auto simp: coupled_def)
  then show ?thesis using Some by (cases t) (simp_all add: fold_check_def)
qed (cases t; simp add: fold_check_def)

text \<open>
  A pass that rewrites every block by its facts: before and after it control is at corresponding
  points, and what is known at the point holds.
\<close>

definition fact_rel :: "(fact \<Rightarrow> point \<Rightarrow> point) \<Rightarrow> facts \<Rightarrow> 'd point_rel" where
  "fact_rel R entries E f f' p s p' s' \<longleftrightarrow> s' = s \<and> (\<exists>x. holds x s \<and> covered entries x p \<and> p' = R x p)"

lemma fact_rel_block:
  assumes "fact_change h entries f f'" "by_facts R entries (h entries)"
    and "block_at f i = Some b" "entries i = Some x" "holds x s"
  shows "fact_rel R entries E f f' (point_of b) s (point_of (h entries b)) s"
  using entry_fact_covers [of f entries i b x] assms unfolding fact_change_def fact_rel_def by_facts_def by blast

lemma fact_rel_entry:
  assumes "fact_change h entries f f'" "by_facts R entries (h entries)" "entry_point f = Some p"
  shows "\<exists>p'. entry_point f' = Some p' \<and> (\<forall>E s. fact_rel R entries E f f' p s p' s)"
proof -
  have f': "valid_fn f" "block_entry_facts f = Some entries" "f' = map_blocks (h entries) f"
    using assms(1) by (auto simp: fact_change_def)
  obtain b where b: "hd (fn_blocks f) = b" "p = point_of b" "entries (b_id b) = Some Uncoupled"
    "covered entries Uncoupled (point_of b)"
    using entry_fact_enters [OF f'(1,2) assms(3)] by blast
  have "fn_blocks f \<noteq> []" using f'(1) by (simp add: valid_fn_def)
  then have "entry_point f' = Some (point_of (h entries b))"
    using b(1) by (cases "fn_blocks f") (auto simp: f'(3) entry_point_def)
  moreover have "fact_rel R entries E f f' p s (point_of (h entries b)) s" for E s
    using b assms(2) by (auto simp: fact_rel_def by_facts_def holds_def intro!: exI [of _ Uncoupled])
  ultimately show ?thesis by blast
qed

lemma fact_enters:
  assumes "by_facts R entries (h entries)"
  shows "enters stored (fact_change h entries) (fact_rel R entries)"
    and "enters stored (\<lambda>f' f. fact_change h entries f f') (\<lambda>E f' f p' s' p s. fact_rel R entries E f f' p s p' s')"
proof -
  show "enters stored (fact_change h entries) (fact_rel R entries)"
    by (rule entersI) (use fact_rel_entry assms in blast)
  show "enters stored (\<lambda>f' f. fact_change h entries f f') (\<lambda>E f' f p' s' p s. fact_rel R entries E f f' p s p' s')"
  proof (rule entersI)
    fix f' f p' assume T: "fact_change h entries f f'" and p': "entry_point f' = Some p'"
    then obtain p where "entry_point f = Some p"
      by (cases "entry_point f") (auto simp: fact_change_def entry_point_def split: list.splits)
    with fact_rel_entry [OF T assms this] p'
    show "\<exists>p. entry_point f = Some p \<and> (\<forall>E s. stored s \<longrightarrow> fact_rel R entries E f f' p s p' s)"
      by (metis option.inject)
  qed
qed

section \<open>branch-fold is sound\<close>

lemma fold_by_facts: "by_facts fold_point entries (fold_block entries)"
  by (simp add: by_facts_def fold_point_def point_of_def branch_fold_term)

lemma fold_step:
  assumes "istep D C f (op # ops, t) s (Inr ((ops, t), s1))" "\<And>n r. C n s r \<Longrightarrow> calls D E n s r" "stored s"
    and "holds x s" "covered entries x (op # ops, t)"
  shows "fact_rel fold_point entries E' f f' (ops, t) s1 (ops, fold_check (transfer_ops x (op # ops)) t) s1"
  unfolding fact_rel_def fold_point_def
  by (intro conjI exI [of _ "transfer_op x op"])
    (use transfer_istep [OF assms(1-4)] assms(5) in \<open>simp_all add: covered_Cons transfer_ops_def\<close>)

lemma branch_fold_fwd:
  "simulates D stored (fact_change fold_block entries) (fact_rel fold_point entries)"
proof -
  show "simulates D stored (fact_change fold_block entries) (fact_rel fold_point entries)"
  proof (rule simulatesI)
    fix E E' C f f' p x and s s' :: "'d ir_state" and p'
    assume T: "fact_change fold_block entries f f'" and K: "fact_rel fold_point entries E' f f' p s p' s'" and G: "stored s"
      and C: "call_part D stored E E' C" and st: "istep D C f p s x"
    note C = call_partD(1) [OF C] call_partD(2) [OF C G]
    obtain ops t where p: "p = (ops, t)" by (cases p)
    obtain y where y: "holds y s" "covered entries y (ops, t)" "p' = (ops, fold_check (transfer_ops y ops) t)" "s' = s"
      using K p by (cases p') (auto simp: fact_rel_def fold_point_def)
    show "matched D E' (fact_rel fold_point entries E' f f') f' p' s' x"
    proof (cases ops)
      case Nil
      show ?thesis unfolding y Nil
      proof (rule matched_term_map [OF st [unfolded p Nil], where h = "fold_block entries"])
        show "f' = map_blocks (fold_block entries) f" using T by (simp add: fact_change_def)
        show "goes (fold_check (transfer_ops y []) t) (s_mf s) = goes t (s_mf s)"
          using y(1) by (simp add: transfer_ops_def fold_check_goes)
        fix i b assume "goes t (s_mf s) = Some i" "block_at f i = Some b"
        then show "fact_rel fold_point entries E' f f' (point_of b) s (point_of (fold_block entries b)) s"
          using covered_next [OF G y(1)] y(2) Nil fact_rel_block [OF T fold_by_facts] by blast
      qed (use C in simp_all)
    next
      case (Cons op rest)
      show ?thesis unfolding y Cons
        by (rule matched_op_step [OF st [unfolded p Cons] same_instr_refl C(2)])
          (use fold_step [OF _ C(1) G y(1)] st y(2) p Cons in auto)
    qed
  qed
qed

lemma branch_fold_bwd:
  "simulates D stored (\<lambda>f' f. fact_change fold_block entries f f')
     (\<lambda>E f' f p' s' p s. fact_rel fold_point entries E f f' p s p' s')"
proof -
  show "simulates D stored (\<lambda>f' f. fact_change fold_block entries f f') (\<lambda>E f' f p' s' p s. fact_rel fold_point entries E f f' p s p' s')"
  proof (rule simulatesI)
    fix E E' C f' f p' x and s' s :: "'d ir_state" and p
    assume T: "fact_change fold_block entries f f'" and K: "fact_rel fold_point entries E' f f' p s p' s'" and G: "stored s'"
      and C: "call_part D stored E E' C" and st: "istep D C f' p' s' x"
    note C = call_partD(1) [OF C] call_partD(2) [OF C G]
    obtain ops t where p: "p = (ops, t)" by (cases p)
    obtain y where y: "holds y s" "covered entries y (ops, t)" "p' = (ops, fold_check (transfer_ops y ops) t)" "s' = s"
      using K p by (cases p') (auto simp: fact_rel_def fold_point_def)
    show "matched D E' (\<lambda>p' s' p s. fact_rel fold_point entries E' f f' p s p' s') f p s x"
    proof (cases ops)
      case Nil
      show ?thesis unfolding p Nil
      proof (rule matched_term_back [OF st [unfolded y Nil], where h = "fold_block entries"])
        show "f' = map_blocks (fold_block entries) f" using T by (simp add: fact_change_def)
        show "goes (fold_check (transfer_ops y []) t) (s_mf s) = goes t (s_mf s)"
          using y(1) by (simp add: transfer_ops_def fold_check_goes)
        fix i b assume "goes t (s_mf s) = Some i" "block_at f i = Some b"
        then show "fact_rel fold_point entries E' f f' (point_of b) s (point_of (fold_block entries b)) s"
          using covered_next [OF G [unfolded y] y(1)] y(2) Nil fact_rel_block [OF T fold_by_facts] by blast
      qed (use C y in simp_all)
    next
      case (Cons op rest)
      show ?thesis unfolding p Cons
      proof (rule matched_op_step [OF st [unfolded y Cons] same_instr_refl C(2) [unfolded y]])
        fix s1 assume x: "x = Inr ((rest, fold_check (transfer_ops y (op # rest)) t), s1)"
        have "istep D C f (op # rest, t) s (Inr ((rest, t), s1))"
          using st unfolding x y Cons by (elim istep_opE) (auto intro: istep.intros)
        then show "fact_rel fold_point entries E' f f' (rest, t) s1 (rest, fold_check (transfer_ops y (op # rest)) t) s1"
          using fold_step [OF _ C(1) G [unfolded y] y(1)] y(2,4) Cons by blast
      qed
    qed
  qed
qed

lemma branch_fold_sound: "sound_change D stored (\<lambda>f f'. valid_fn f \<and> (\<exists>n. branch_fold_run f = Some (f', n)))"
proof -
  have "sound_change D stored (fact_change fold_block entries)" for entries
    by (rule sound_changeI [OF keeps_stored _ fact_enters(1) branch_fold_fwd fact_enters(2) branch_fold_bwd])
      (simp_all add: fact_change_def fold_by_facts)
  then show ?thesis
    unfolding sound_change_def by (auto simp: branch_fold_run_def fact_change_def run_blocks_def)
qed

end

section \<open>cell-state\<close>

text \<open>Rule 1: a write of what the cell provably holds is dropped.\<close>

definition redundant :: "fact \<Rightarrow> ir_op \<Rightarrow> bool" where
  "redundant x op \<longleftrightarrow> (case op of Wr i _ \<Rightarrow> fact_cell x = Some i | _ \<Rightarrow> False)"

fun keep_writes :: "fact \<Rightarrow> ir_op list \<Rightarrow> ir_op list \<times> nat" where
  "keep_writes x [] = ([], 0)"
| "keep_writes x (op # ops) =
     (if redundant x op then (let (kept, changes) = keep_writes x ops in (kept, changes + 1))
      else (let (kept, changes) = keep_writes (transfer_op x op) ops in (op # kept, changes)))"

lemma redundant_iff: "redundant x op \<longleftrightarrow> (\<exists>i l. op = Wr i l \<and> fact_cell x = Some i)"
  by (cases op) (auto simp: redundant_def)

lemma keep_writes_Cons:
  "redundant x op \<Longrightarrow> fst (keep_writes x (op # ops)) = fst (keep_writes x ops)"
  "\<not> redundant x op \<Longrightarrow> fst (keep_writes x (op # ops)) = op # fst (keep_writes (transfer_op x op) ops)"
  by (simp_all add: case_prod_beta Let_def)

text \<open>Rule 2: the positions of the writes overwritten before anything could observe them.\<close>

fun dead_stores :: "nat \<Rightarrow> nat option \<Rightarrow> ir_op list \<Rightarrow> nat list" where
  "dead_stores i pending [] = []"
| "dead_stores i pending (Wr j l # ops) =
     (case pending of
        Some p \<Rightarrow> p # dead_stores (i + 1) (Some i) ops
      | None \<Rightarrow> dead_stores (i + 1) (Some i) ops)"
| "dead_stores i pending (op # ops) = dead_stores (i + 1) None ops"

definition drop_stores :: "ir_op list \<Rightarrow> ir_op list \<times> nat" where
  "drop_stores kept =
     (let dead = dead_stores 0 None kept in
      if dead \<noteq> [] then (map snd (filter (\<lambda>(i, _). i \<notin> set dead) (enumerate 0 kept)), length dead)
      else (kept, 0))"

definition cell_state_block :: "facts \<Rightarrow> ir_block \<Rightarrow> ir_block \<times> nat" where
  "cell_state_block entries b =
     (case entries (b_id b) of
        None \<Rightarrow> (b, 0)
      | Some entry_fact \<Rightarrow>
          (let (kept, dropped) = keep_writes entry_fact (b_ops b); (ops, dead) = drop_stores kept
           in (b\<lparr>b_ops := ops\<rparr>, dropped + dead)))"

definition cell_state_run :: "ir_function \<Rightarrow> pass_result" where
  "cell_state_run f = map_option (\<lambda>entries. run_blocks (cell_state_block entries) f) (block_entry_facts f)"

subsection \<open>The two rules apart\<close>

definition is_wr :: "ir_op \<Rightarrow> bool" where
  "is_wr op \<longleftrightarrow> (case op of Wr _ _ \<Rightarrow> True | _ \<Rightarrow> False)"

lemma is_wr_simps [simp]:
  "is_wr (Wr i l)" "\<not> is_wr (Lft l)" "\<not> is_wr (Rgt l)" "\<not> is_wr (WrLft i l)" "\<not> is_wr (WrRgt i l)"
  "\<not> is_wr (Brk l)" "\<not> is_wr (Call n l)"
  by (simp_all add: is_wr_def)

lemma is_wr_iff: "is_wr op \<longleftrightarrow> (\<exists>i l. op = Wr i l)"
  by (cases op) simp_all

text \<open>The index scan drops exactly the writes right before another write.\<close>

fun drop_dead :: "ir_op list \<Rightarrow> ir_op list" where
  "drop_dead [] = []"
| "drop_dead (op # ops) =
     (if is_wr op \<and> ops \<noteq> [] \<and> is_wr (hd ops) then drop_dead ops else op # drop_dead ops)"

lemma dead_stores_from: "d \<in> set (dead_stores k p ops) \<Longrightarrow> k \<le> d \<or> p = Some d"
  by (induction k p ops rule: dead_stores.induct) (auto split: option.splits)

lemma dead_stores_pending:
  "p < k \<Longrightarrow> p \<in> set (dead_stores k (Some p) ops) \<longleftrightarrow> ops \<noteq> [] \<and> is_wr (hd ops)"
  by (cases "(k, Some p, ops)" rule: dead_stores.cases) (auto dest!: dead_stores_from)

definition retain_from :: "nat \<Rightarrow> nat set \<Rightarrow> ir_op list \<Rightarrow> ir_op list" where
  "retain_from k dead ops = map snd (filter (\<lambda>(i, _). i \<notin> dead) (enumerate k ops))"

lemma retain_from_simps [simp]:
  "retain_from k dead [] = []"
  "retain_from k dead (op # ops) =
     (if k \<in> dead then retain_from (Suc k) dead ops else op # retain_from (Suc k) dead ops)"
  by (simp_all add: retain_from_def)

lemma retain_from_insert: "p < k \<Longrightarrow> retain_from k (insert p dead) ops = retain_from k dead ops"
  by (induction ops arbitrary: k) auto

lemma retain_dead:
  "(\<And>q. p = Some q \<Longrightarrow> q < k) \<Longrightarrow> retain_from k (set (dead_stores k p ops)) ops = drop_dead ops"
proof (induction k p ops rule: dead_stores.induct)
  case (2 k p i l ops)
  let ?d = "set (dead_stores (Suc k) (Some k) ops)"
  have ih: "retain_from (Suc k) ?d ops = drop_dead ops" using 2 by (cases p) simp_all
  have k: "k \<in> ?d \<longleftrightarrow> ops \<noteq> [] \<and> is_wr (hd ops)" by (rule dead_stores_pending) simp
  show ?case
  proof (cases p)
    case None
    then show ?thesis using ih k by simp
  next
    case (Some q)
    then have "q < k" using 2(3) by simp
    then show ?thesis using Some ih k retain_from_insert [of q "Suc k"] by simp
  qed
qed (auto dest: dead_stores_from)

lemma drop_dead_none: "dead_stores k p ops = [] \<Longrightarrow> (\<And>q. p = Some q \<Longrightarrow> q < k) \<Longrightarrow> drop_dead ops = ops"
proof -
  have "retain_from k {} ops = ops" for k by (induction ops arbitrary: k) simp_all
  then show "dead_stores k p ops = [] \<Longrightarrow> (\<And>q. p = Some q \<Longrightarrow> q < k) \<Longrightarrow> drop_dead ops = ops"
    using retain_dead [of p k ops] by simp
qed

lemma drop_stores_dead: "fst (drop_stores ops) = drop_dead ops"
  using retain_dead [of None 0 ops] drop_dead_none [of 0 None ops]
  by (simp add: drop_stores_def Let_def retain_from_def)

lemma keep_writes_subset: "set (fst (keep_writes x ops)) \<subseteq> set ops"
  by (induction x ops rule: keep_writes.induct) (auto simp: case_prod_beta Let_def)

lemma drop_dead_subset: "set (drop_dead ops) \<subseteq> set ops"
  by (induction ops) auto

text \<open>So a run is rule 1 in every block with a fact, then rule 2 in the same blocks.\<close>

definition keep_block :: "facts \<Rightarrow> ir_block \<Rightarrow> ir_block" where
  "keep_block entries b =
     (case entries (b_id b) of None \<Rightarrow> b | Some x \<Rightarrow> b\<lparr>b_ops := fst (keep_writes x (b_ops b))\<rparr>)"

definition drop_block :: "facts \<Rightarrow> ir_block \<Rightarrow> ir_block" where
  "drop_block entries b =
     (case entries (b_id b) of None \<Rightarrow> b | Some x \<Rightarrow> b\<lparr>b_ops := drop_dead (b_ops b)\<rparr>)"

lemma keep_block_simps [simp]:
  "b_id (keep_block entries b) = b_id b" "b_term (keep_block entries b) = b_term b"
  "b_id (drop_block entries b) = b_id b" "b_term (drop_block entries b) = b_term b"
  by (simp_all add: keep_block_def drop_block_def split: option.split)

lemma cell_state_split: "fst (cell_state_block entries b) = drop_block entries (keep_block entries b)"
  by (simp add: cell_state_block_def keep_block_def drop_block_def case_prod_beta Let_def drop_stores_dead
      split: option.split)

lemma keep_block_subset: "set (b_ops (keep_block entries b)) \<subseteq> set (b_ops b)"
  using keep_writes_subset by (simp add: keep_block_def split: option.split)

lemma drop_block_subset: "set (b_ops (drop_block entries b)) \<subseteq> set (b_ops b)"
  using drop_dead_subset by (simp add: drop_block_def split: option.split)

lemma keep_ok: "fn_ok f \<Longrightarrow> fn_ok (map_blocks (keep_block entries) f)"
  by (rule fn_ok_shrink) (simp_all add: keep_block_subset)

lemma drop_ok: "fn_ok f \<Longrightarrow> fn_ok (map_blocks (drop_block entries) f)"
  by (rule fn_ok_shrink) (simp_all add: drop_block_subset)

lemma map_blocks_comp: "map_blocks h (map_blocks g f) = map_blocks (\<lambda>b. h (g b)) f"
  by (simp add: map_blocks_def comp_def)

lemma cell_state_blocks:
  "map_blocks (\<lambda>b. fst (cell_state_block entries b)) f = map_blocks (drop_block entries) (map_blocks (keep_block entries) f)"
  by (simp add: map_blocks_comp cell_state_split)

lemma cell_state_returns: "valid_fn f \<Longrightarrow> \<exists>r. cell_state_run f = Some r"
  using block_entry_facts_fixpoint [of f] by (auto simp: cell_state_run_def)

lemma cell_state_ok: "fn_ok f \<Longrightarrow> cell_state_run f = Some (f', n) \<Longrightarrow> fn_ok f'"
  by (auto simp: cell_state_run_def run_blocks_def cell_state_blocks intro: drop_ok keep_ok)

subsection \<open>Rule 1 is sound\<close>

definition kept_point :: "fact \<Rightarrow> point \<Rightarrow> point" where
  "kept_point x p = (fst (keep_writes x (fst p)), snd p)"

lemma kept_by_facts: "by_facts kept_point entries (keep_block entries)"
  by (simp add: by_facts_def kept_point_def point_of_def keep_block_def)

context mark_store
begin

lemma redundant_write:
  assumes "holds x s" "fact_cell x = Some i"
  shows "act D (Wr i l) s = Inr s"
proof -
  have c: "coupled s" "cell (s_dev s) = i" using holds_cell [OF assms] by simp_all
  then have "d_write D i (s_dev s) = Inr (s_dev s)" using write_same by (auto simp: coupled_def)
  then show ?thesis using act_Wr [OF coupled_stored [OF c(1)]] landed_self [OF c(1)] by simp
qed

text \<open>Past the dropped writes both are at the same instruction, or at the end.\<close>

lemma kept_skip:
  assumes "holds x s" "covered entries x (ops, t)"
  shows "\<exists>ops2 y. reach D E f (ops, t) s (ops2, t) s \<and> holds y s \<and> covered entries y (ops2, t)
    \<and> fst (keep_writes x ops) = (case ops2 of [] \<Rightarrow> [] | op # rest \<Rightarrow> op # fst (keep_writes (transfer_op y op) rest))"
  using assms
proof (induction x ops rule: keep_writes.induct)
  case (1 x)
  then show ?case by (intro exI [of _ "[]"] exI [of _ x]) simp
next
  case (2 x op ops)
  show ?case
  proof (cases "redundant x op")
    case True
    then obtain i l where op: "op = Wr i l" "fact_cell x = Some i" by (auto simp: redundant_iff)
    have c: "x = Coupled (Some i)" using op(2) by (simp add: fact_cell_def split: fact.splits)
    have st: "istep D (calls D E) f (op # ops, t) s (Inr ((ops, t), s))"
      unfolding op(1) by (rule istep_act) (simp, rule redundant_write [OF "2.prems"(1) op(2)])
    have cov: "covered entries x (ops, t)" using "2.prems"(2) op c by (simp add: covered_Cons transfer_op_def)
    note kw = keep_writes_Cons(1) [OF True]
    obtain ops2 y where y: "reach D E f (ops, t) s (ops2, t) s" "holds y s" "covered entries y (ops2, t)"
      "fst (keep_writes x ops) = (case ops2 of [] \<Rightarrow> [] | op # rest \<Rightarrow> op # fst (keep_writes (transfer_op y op) rest))"
      using "2.IH"(1) [OF True "2.prems"(1) cov] by blast
    show ?thesis unfolding kw
      by (intro exI [of _ ops2] exI [of _ y] conjI reach_next [OF st y(1)] y(2-4))
  next
    case False
    then have "fst (keep_writes x (op # ops)) = op # fst (keep_writes (transfer_op x op) ops)"
      by (rule keep_writes_Cons)
    then show ?thesis using "2.prems" by (intro exI [of _ "op # ops"] exI [of _ x]) simp
  qed
qed

lemma kept_step:
  assumes "istep D C f (op # ops, t) s (Inr ((ops, t), s1))" "\<And>n r. C n s r \<Longrightarrow> calls D E n s r" "stored s"
    and "holds x s" "covered entries x (op # ops, t)"
  shows "fact_rel kept_point entries E' f f' (ops, t) s1 (fst (keep_writes (transfer_op x op) ops), t) s1"
  unfolding fact_rel_def kept_point_def
  by (intro conjI exI [of _ "transfer_op x op"])
    (use transfer_istep [OF assms(1-4)] assms(5) in \<open>simp_all add: covered_Cons\<close>)

lemma keep_fwd: "simulates D stored (fact_change keep_block entries) (fact_rel kept_point entries)"
proof (rule simulatesI)
  fix E E' C f f' p x and s s' :: "'d ir_state" and p'
  assume T: "fact_change keep_block entries f f'" and K: "fact_rel kept_point entries E' f f' p s p' s'"
    and G: "stored s" and C: "call_part D stored E E' C" and st: "istep D C f p s x"
  note C = call_partD(1) [OF C] call_partD(2) [OF C G]
  obtain ops t where p: "p = (ops, t)" by (cases p)
  obtain y where y: "holds y s" "covered entries y (ops, t)" "p' = (fst (keep_writes y ops), t)" "s' = s"
    using K p by (cases p') (auto simp: fact_rel_def kept_point_def)
  show "matched D E' (fact_rel kept_point entries E' f f') f' p' s' x"
  proof (cases ops)
    case Nil
    show ?thesis unfolding y Nil keep_writes.simps fst_conv
    proof (rule matched_term_map [OF st [unfolded p Nil], where h = "keep_block entries"])
      show "f' = map_blocks (keep_block entries) f" using T by (simp add: fact_change_def)
      fix i b assume "goes t (s_mf s) = Some i" "block_at f i = Some b"
      then show "fact_rel kept_point entries E' f f' (point_of b) s (point_of (keep_block entries b)) s"
        using covered_next [OF G y(1)] y(2) Nil fact_rel_block [OF T kept_by_facts] by blast
    qed (use C in simp_all)
  next
    case (Cons op rest)
    show ?thesis
    proof (cases "redundant y op")
      case True
      then obtain i l where op: "op = Wr i l" "fact_cell y = Some i" by (auto simp: redundant_iff)
      have c: "y = Coupled (Some i)" using op(2) by (simp add: fact_cell_def split: fact.splits)
      have a: "act D op s = Inr s" using redundant_write [OF y(1) op(2)] op(1) by simp
      have "x = Inr ((rest, t), s)"
        using st a op(1) unfolding p Cons by (elim istep_opE) simp_all
      moreover have "covered entries y (rest, t)" using y(2) op c Cons by (simp add: covered_Cons transfer_op_def)
      then have "fact_rel kept_point entries E' f f' (rest, t) s p' s'"
        using y keep_writes_Cons(1) [OF True] Cons by (auto simp: fact_rel_def kept_point_def)
      ultimately show ?thesis using y(4) by (simp add: matched_stay)
    next
      case False
      then have p': "p' = (op # fst (keep_writes (transfer_op y op) rest), t)"
        using y(3) Cons keep_writes_Cons(2) by simp
      show ?thesis unfolding p' y(4)
        by (rule matched_op_step [OF st [unfolded p Cons] same_instr_refl C(2)])
          (use kept_step [OF _ C(1) G y(1)] st y(2) p Cons in auto)
    qed
  qed
qed

lemma keep_bwd:
  "simulates D stored (\<lambda>f' f. fact_change keep_block entries f f')
     (\<lambda>E f' f p' s' p s. fact_rel kept_point entries E f f' p s p' s')"
proof (rule simulatesI)
  fix E E' C f' f p' x and s' s :: "'d ir_state" and p
  assume T: "fact_change keep_block entries f f'" and K: "fact_rel kept_point entries E' f f' p s p' s'"
    and G: "stored s'" and C: "call_part D stored E E' C" and st: "istep D C f' p' s' x"
  note C = call_partD(1) [OF C] call_partD(2) [OF C G]
  obtain ops t where p: "p = (ops, t)" by (cases p)
  obtain y where y: "holds y s" "covered entries y (ops, t)" "p' = (fst (keep_writes y ops), t)" "s' = s"
    using K p by (cases p') (auto simp: fact_rel_def kept_point_def)
  obtain ops2 z where z: "reach D E' f (ops, t) s (ops2, t) s" "holds z s" "covered entries z (ops2, t)"
    "fst (keep_writes y ops) = (case ops2 of [] \<Rightarrow> [] | op # rest \<Rightarrow> op # fst (keep_writes (transfer_op z op) rest))"
    using kept_skip [OF y(1,2)] by blast
  have "matched D E' (\<lambda>p' s' p s. fact_rel kept_point entries E' f f' p s p' s') f (ops2, t) s x"
  proof (cases ops2)
    case Nil
    have p': "p' = ([], t)" using z(4) Nil y(3) by simp
    show ?thesis unfolding Nil
    proof (rule matched_term_back [OF st [unfolded p' y(4)], where h = "keep_block entries"])
      show "f' = map_blocks (keep_block entries) f" using T by (simp add: fact_change_def)
      fix i b assume "goes t (s_mf s) = Some i" "block_at f i = Some b"
      then show "fact_rel kept_point entries E' f f' (point_of b) s (point_of (keep_block entries b)) s"
        using covered_next [OF G [unfolded y(4)] z(2)] z(3) Nil fact_rel_block [OF T kept_by_facts] by blast
    qed (use C y in simp_all)
  next
    case (Cons op rest)
    have p': "p' = (op # fst (keep_writes (transfer_op z op) rest), t)" using z(4) Cons y(3) by simp
    show ?thesis unfolding Cons
    proof (rule matched_op_step [OF st [unfolded p' y(4)] same_instr_refl C(2) [unfolded y(4)]])
      fix s1 assume x: "x = Inr ((fst (keep_writes (transfer_op z op) rest), t), s1)"
      have "istep D C f (op # rest, t) s (Inr ((rest, t), s1))"
        using st unfolding x p' y(4) by (elim istep_opE) (auto intro: istep.intros)
      then show "fact_rel kept_point entries E' f f' (rest, t) s1 (fst (keep_writes (transfer_op z op) rest), t) s1"
        using kept_step [OF _ C(1) G [unfolded y(4)] z(2)] y(4) z(3) Cons by blast
    qed
  qed
  then show "matched D E' (\<lambda>p' s' p s. fact_rel kept_point entries E' f f' p s p' s') f p s x"
    using matched_first [OF z(1)] p by simp
qed

lemma keep_sound: "sound_change D stored (fact_change keep_block entries)"
  by (rule sound_changeI [OF keeps_stored _ fact_enters(1) keep_fwd fact_enters(2) keep_bwd])
    (simp_all add: fact_change_def kept_by_facts)

end

subsection \<open>Rule 2 is sound\<close>

definition drop_change :: "facts \<Rightarrow> ir_function \<Rightarrow> ir_function \<Rightarrow> bool" where
  "drop_change entries f f' \<longleftrightarrow> symbols_ok f \<and> f' = map_blocks (drop_block entries) f"

text \<open>Within a block, either the stores are being dropped or nothing is.\<close>

definition dropping :: "bool \<Rightarrow> ir_op list \<Rightarrow> ir_op list" where
  "dropping here ops = (if here then drop_dead ops else ops)"

lemma drop_block_ops: "b_ops (drop_block entries b) = dropping (entries (b_id b) \<noteq> None) (b_ops b)"
  by (simp add: drop_block_def dropping_def split: option.split)

text \<open>A writing prefix that has been dropped, and the operation it has been dropped for.\<close>

lemma dropping_shape:
  "dropping here ops = op # rest' \<Longrightarrow> \<exists>ws rest. ops = ws @ op # rest \<and> (\<forall>w \<in> set ws. is_wr w)
     \<and> (ws \<noteq> [] \<longrightarrow> is_wr op) \<and> rest' = dropping here rest"
proof (cases here)
  case True
  have "drop_dead ops = op # rest' \<Longrightarrow> \<exists>ws rest. ops = ws @ op # rest \<and> (\<forall>w \<in> set ws. is_wr w)
     \<and> (ws \<noteq> [] \<longrightarrow> is_wr op) \<and> rest' = drop_dead rest"
  proof (induction ops)
    case (Cons a ops)
    show ?case
    proof (cases "is_wr a \<and> ops \<noteq> [] \<and> is_wr (hd ops)")
      case True
      then obtain ws rest where w: "ops = ws @ op # rest" "\<forall>w \<in> set ws. is_wr w" "rest' = drop_dead rest"
        "ws \<noteq> [] \<longrightarrow> is_wr op"
        using Cons by auto
      moreover have "is_wr op" using True w by (cases "ws = []") auto
      ultimately show ?thesis using True by (intro exI [of _ "a # ws"] exI [of _ rest]) simp
    next
      case False
      then have "a = op" "rest' = drop_dead ops" using Cons.prems by (auto split: if_splits)
      then show ?thesis by (intro exI [of _ "[]"] exI [of _ ops]) simp
    qed
  qed simp
  then show "dropping here ops = op # rest' \<Longrightarrow> ?thesis" using True by (simp add: dropping_def)
qed (auto simp: dropping_def)

lemma drop_dead_nil: "drop_dead ops = [] \<longleftrightarrow> ops = []"
  by (induction ops) auto

lemma dropping_nil [simp]: "dropping here [] = []" "dropping here ops = [] \<longleftrightarrow> ops = []"
  by (simp_all add: dropping_def drop_dead_nil)

lemma dropping_Cons:
  "dropping here (op # ops) = op # dropping here ops
   \<or> is_wr op \<and> ops \<noteq> [] \<and> is_wr (hd ops) \<and> dropping here (op # ops) = dropping here ops"
  by (simp add: dropping_def)

context mark_store
begin

lemma write_total: "stored s \<Longrightarrow> is_wr w \<Longrightarrow> op_symbols_ok w \<Longrightarrow> \<exists>s1. act D w s = Inr s1 \<and> stored s1"
proof -
  assume s: "stored s" and w: "is_wr w" "op_symbols_ok w"
  obtain i l where i: "w = Wr i l" "i \<le> 1" using w by (auto simp: is_wr_iff op_symbols_ok_def)
  obtain d where "d_write D i (s_dev s) = Inr d" using write_in [of "s_dev s" i] s i(2) by (auto simp: stored_def)
  then have "act D w s = Inr (landed s d) \<and> ok d" using act_Wr [OF s] i(1) by blast
  then show ?thesis using coupled_stored [OF landed_coupled] by blast
qed

lemma write_over:
  assumes "stored s" "is_wr w" "is_wr v" "op_symbols_ok v" "act D w s = Inr s1"
  shows "act D v s1 = act D v s"
proof -
  obtain i l j k where w: "w = Wr i l" "v = Wr j k" "j \<le> 1" using assms(2-4) by (auto simp: is_wr_iff op_symbols_ok_def)
  obtain d where d: "d_write D i (s_dev s) = Inr d" using act_Wr_done assms(5) w(1) by blast
  have s1: "s1 = landed s d" "ok d" using act_Wr [OF assms(1) d, of l] assms(5) w(1) by simp_all
  have ok: "ok (s_dev s)" using assms(1) by (simp add: stored_def)
  obtain d' where d': "d_write D j (s_dev s) = Inr d'" using write_in [OF ok w(3)] by blast
  then have "d_write D j (s_dev s1) = Inr d'" using write_again [OF ok d w(3)] s1 by simp
  moreover have "stored s1" using s1 coupled_stored [OF landed_coupled] by simp
  ultimately show ?thesis using act_Wr [OF assms(1) d', of k] act_Wr [of s1 j d' k] s1 w(2) by simp
qed

text \<open>Running the dropped writes: the operation they were dropped for does the same after them.\<close>

lemma run_writes:
  assumes "stored s" "\<forall>w \<in> set ws. is_wr w \<and> op_symbols_ok w" "ws \<noteq> [] \<longrightarrow> is_wr op" "op_symbols_ok op"
  shows "\<exists>s1. reach D E f (ws @ ops, t) s (ops, t) s1 \<and> stored s1 \<and> (ws = [] \<longrightarrow> s1 = s) \<and> (ws \<noteq> [] \<longrightarrow> act D op s1 = act D op s)"
  using assms(1-3)
proof (induction ws arbitrary: s)
  case (Cons w ws)
  have w: "is_wr w" "op_symbols_ok w" "is_wr op" using Cons.prems by simp_all
  obtain s1 where s1: "act D w s = Inr s1" "stored s1" using write_total [OF Cons.prems(1) w(1,2)] by blast
  obtain s2 where s2: "reach D E f (ws @ ops, t) s1 (ops, t) s2" "stored s2" "ws = [] \<longrightarrow> s2 = s1"
    "ws \<noteq> [] \<longrightarrow> act D op s2 = act D op s1"
    using Cons.IH [OF s1(2)] Cons.prems by auto
  have "istep D (calls D E) f ((w # ws) @ ops, t) s (Inr ((ws @ ops, t), s1))"
    using s1(1) w(1) by (auto simp: is_wr_iff intro!: istep_act)
  moreover have "act D op s1 = act D op s" by (rule write_over [OF Cons.prems(1) w(1,3) assms(4) s1(1)])
  ultimately show ?case using s2 by (intro exI [of _ s2]) (auto intro: reach_next)
qed auto

text \<open>A pending store has been made on the one side only.\<close>

definition drop_rel :: "'d point_rel" where
  "drop_rel E f f' p s p' s' \<longleftrightarrow> (\<forall>op \<in> set (fst p). op_symbols_ok op) \<and> stored s' \<and> snd p' = snd p
     \<and> (\<exists>here. fst p' = dropping here (fst p)
         \<and> (s' = s \<or> (\<exists>w. is_wr w \<and> op_symbols_ok w \<and> act D w s' = Inr s) \<and> fst p \<noteq> [] \<and> is_wr (hd (fst p))))"

lemma drop_rel_start:
  "\<forall>op \<in> set ops. op_symbols_ok op \<Longrightarrow> stored s \<Longrightarrow> drop_rel E f f' (ops, t) s (dropping here ops, t) s"
  by (auto simp: drop_rel_def)

lemma drop_rel_block:
  "symbols_ok f \<Longrightarrow> b \<in> set (fn_blocks f) \<Longrightarrow> stored s \<Longrightarrow>
     drop_rel E f f' (point_of b) s (point_of (drop_block entries b)) s"
  by (auto simp: drop_rel_def drop_block_ops symbols_ok_def)

lemma drop_enters:
  "enters stored (drop_change entries) drop_rel"
  "enters stored (\<lambda>f' f. drop_change entries f f') (\<lambda>E f' f p' s' p s. drop_rel E f f' p s p' s' \<and> s' = s)"
proof -
  have e: "\<exists>b \<in> set (fn_blocks f). p = point_of b \<and> entry_point (map_blocks (drop_block entries) f) = Some (point_of (drop_block entries b))"
    if "entry_point f = Some p" for f p
    using that by (cases "fn_blocks f") (auto simp: entry_point_def)
  show "enters stored (drop_change entries) drop_rel"
  proof (rule entersI)
    fix f f' p assume T: "drop_change entries f f'" "entry_point f = Some p"
    from e [OF T(2)] obtain b where "b \<in> set (fn_blocks f)" "p = point_of b"
      "entry_point (map_blocks (drop_block entries) f) = Some (point_of (drop_block entries b))" by blast
    then show "\<exists>p'. entry_point f' = Some p' \<and> (\<forall>E s. stored s \<longrightarrow> drop_rel E f f' p s p' s)"
      using T(1) drop_rel_block by (auto simp: drop_change_def)
  qed
  show "enters stored (\<lambda>f' f. drop_change entries f f') (\<lambda>E f' f p' s' p s. drop_rel E f f' p s p' s' \<and> s' = s)"
  proof (rule entersI)
    fix f' f p' assume T: "drop_change entries f f'" and p': "entry_point f' = Some p'"
    then obtain p where p: "entry_point f = Some p"
      by (cases "entry_point f") (auto simp: drop_change_def entry_point_def split: list.splits)
    from e [OF p] obtain b where "b \<in> set (fn_blocks f)" "p = point_of b"
      "entry_point (map_blocks (drop_block entries) f) = Some (point_of (drop_block entries b))" by blast
    then show "\<exists>p. entry_point f = Some p \<and> (\<forall>E s. stored s \<longrightarrow> drop_rel E f f' p s p' s \<and> s = s)"
      using T p p' drop_rel_block by (auto simp: drop_change_def)
  qed
qed

lemma istep_transport:
  assumes "istep D C f (op # ops, t) s x" "s1 = s \<or> called op = None \<and> act D op s1 = act D op s"
  shows "istep D C f (op # ops, t) s1 x"
  using assms by (elim istep_opE) (auto intro: istep.intros)

lemma drop_fwd: "simulates D stored (drop_change entries) drop_rel"
proof (rule simulatesI)
  fix E E' C f f' p x and s s' :: "'d ir_state" and p'
  assume T: "drop_change entries f f'" and K: "drop_rel E' f f' p s p' s'"
    and G: "stored s" and C: "call_part D stored E E' C" and st: "istep D C f p s x"
  obtain ops t where p: "p = (ops, t)" by (cases p)
  have k: "\<forall>op \<in> set ops. op_symbols_ok op" "stored s'" using K p by (auto simp: drop_rel_def)
  obtain here where here: "p' = (dropping here ops, t)"
    and pending: "s' = s \<or> (\<exists>w. is_wr w \<and> op_symbols_ok w \<and> act D w s' = Inr s) \<and> ops \<noteq> [] \<and> is_wr (hd ops)"
    using K p by (cases p') (auto simp: drop_rel_def)
  show "matched D E' (drop_rel E' f f') f' p' s' x"
  proof (cases ops)
    case Nil
    then have s': "s' = s" using pending by simp
    have f: "symbols_ok f" "f' = map_blocks (drop_block entries) f" using T by (simp_all add: drop_change_def)
    show ?thesis unfolding here Nil s' dropping_nil
      by (rule matched_term_map [OF st [unfolded p Nil] f(2)])
        (use call_partD(2) [OF C G] drop_rel_block [OF f(1) _ G] block_at_in in auto)
  next
    case (Cons op rest)
    have same: "s' = s \<or> called op = None \<and> act D op s' = act D op s"
    proof (cases "s' = s")
      case False
      then obtain w where w: "is_wr w" "act D w s' = Inr s" "is_wr op" using pending Cons by auto
      then have "act D op s = act D op s'" using write_over [OF k(2) w(1,3) _ w(2)] k(1) Cons by simp
      then show ?thesis using w(3) by (auto simp: is_wr_iff)
    qed simp
    note st' = istep_transport [OF st [unfolded p Cons] same]
    from dropping_Cons [of here op rest] show ?thesis
    proof
      assume d: "dropping here (op # rest) = op # dropping here rest"
      show ?thesis unfolding here Cons d
      proof (rule matched_op_step [OF st' same_instr_refl call_partD(2) [OF C k(2)]])
        fix s1 assume x: "x = Inr ((rest, t), s1)"
        have "stored s1" by (rule istep_keeps [OF keeps_stored st' [unfolded x] k(2) call_partD(1) [OF C]])
        then show "drop_rel E' f f' (rest, t) s1 (dropping here rest, t) s1"
          using k(1) Cons by (intro drop_rel_start) simp_all
      qed
    next
      assume d: "is_wr op \<and> rest \<noteq> [] \<and> is_wr (hd rest) \<and> dropping here (op # rest) = dropping here rest"
      obtain s1 where s1: "act D op s' = Inr s1" "stored s1"
        using write_total [OF k(2)] d k(1) Cons by auto
      have "x = Inr ((rest, t), s1)" using st' s1(1) d by (elim istep_opE) (auto simp: is_wr_iff)
      moreover have "drop_rel E' f f' (rest, t) s1 p' s'"
        using k d s1 Cons here by (auto simp: drop_rel_def intro!: exI [of _ here])
      ultimately show ?thesis by (simp add: matched_stay)
    qed
  qed
qed

lemma drop_bwd:
  "simulates D stored (\<lambda>f' f. drop_change entries f f') (\<lambda>E f' f p' s' p s. drop_rel E f f' p s p' s' \<and> s' = s)"
proof (rule simulatesI)
  fix E E' C f' f p' x and s' s :: "'d ir_state" and p
  assume T: "drop_change entries f f'" and K: "drop_rel E' f f' p s p' s' \<and> s' = s"
    and G: "stored s'" and C: "call_part D stored E E' C" and st: "istep D C f' p' s' x"
  obtain ops t where p: "p = (ops, t)" by (cases p)
  have k: "\<forall>op \<in> set ops. op_symbols_ok op" "s' = s" using K p by (auto simp: drop_rel_def)
  obtain here where here: "p' = (dropping here ops, t)" using K p by (cases p') (auto simp: drop_rel_def)
  let ?K = "\<lambda>p' s' p s. drop_rel E' f f' p s p' s' \<and> s' = s"
  show "matched D E' ?K f p s x"
  proof (cases "dropping here ops")
    case Nil
    then have ops: "ops = []" by simp
    have f: "symbols_ok f" "f' = map_blocks (drop_block entries) f" using T by (simp_all add: drop_change_def)
    show ?thesis unfolding p ops
      by (rule matched_term_back [OF st [unfolded here Nil k(2)] f(2)])
        (use call_partD(2) [OF C G [unfolded k(2)]] drop_rel_block [OF f(1) _ G [unfolded k(2)]] block_at_in in auto)
  next
    case (Cons op rest')
    obtain ws rest where w: "ops = ws @ op # rest" "\<forall>w \<in> set ws. is_wr w" "ws \<noteq> [] \<longrightarrow> is_wr op"
      "rest' = dropping here rest"
      using dropping_shape [OF Cons] by blast
    obtain s1 where s1: "reach D E' f (ws @ op # rest, t) s (op # rest, t) s1" "stored s1" "ws = [] \<longrightarrow> s1 = s"
      "ws \<noteq> [] \<longrightarrow> act D op s1 = act D op s"
      using run_writes [OF G [unfolded k(2)] _ w(3), of E' f "op # rest" t] w(1,2) k(1) by auto
    have "s1 = s' \<or> called op = None \<and> act D op s1 = act D op s'"
      using s1(3,4) w(3) k(2) by (cases "ws = []") (auto simp: is_wr_iff)
    note st' = istep_transport [OF st [unfolded here Cons] this]
    have "matched D E' ?K f (op # rest, t) s1 x"
    proof (rule matched_op_step [OF st' same_instr_refl call_partD(2) [OF C s1(2)]])
      fix s2 assume x: "x = Inr ((rest', t), s2)"
      have "stored s2" by (rule istep_keeps [OF keeps_stored st' [unfolded x] s1(2) call_partD(1) [OF C]])
      then show "drop_rel E' f f' (rest, t) s2 (rest', t) s2 \<and> s2 = s2"
        using k(1) w(1,4) drop_rel_start [of rest s2 E' f f' t here] by simp
    qed
    then show ?thesis using matched_first [OF s1(1)] p w(1) by simp
  qed
qed

lemma drop_sound: "sound_change D stored (drop_change entries)"
  by (rule sound_changeI [OF keeps_stored _ drop_enters(1) drop_fwd drop_enters(2) drop_bwd])
    (simp add: drop_change_def)

lemma cell_state_sound: "sound_change D stored (\<lambda>f f'. fn_ok f \<and> (\<exists>n. cell_state_run f = Some (f', n)))"
proof -
  have "sound_change D stored (fact_change keep_block entries OO drop_change entries)" for entries
    by (rule sound_change_comp [OF keep_sound drop_sound])
  moreover have "\<exists>entries. (fact_change keep_block entries OO drop_change entries) f f'"
    if "fn_ok f" "cell_state_run f = Some (f', n)" for f f' n
    using that keep_ok [OF that(1)]
    by (auto simp: cell_state_run_def run_blocks_def cell_state_blocks fn_ok_def fact_change_def drop_change_def
        intro!: relcomppI)
  ultimately show ?thesis unfolding sound_change_def by blast
qed

end

end
