(* ===== verification/Pass_Moves.thy ===== *)
theory Pass_Moves
  imports Mark_Store
begin

text \<open>
  The two passes on adjacent tape instructions: \<open>fuse-tape-ops\<close>
  (\<open>crates/post-machine/src/optimizer/fuse_tape_ops.rs\<close>), which turns a write and a move into one
  instruction, and \<open>move-elim\<close> (\<open>move_elim.rs\<close>), which deletes a move and the move back. The first is
  sound from every stored state, the second where the match flag is coupled at the start.
\<close>

section \<open>fuse-tape-ops\<close>

fun fuse_ops :: "ir_op list \<Rightarrow> ir_op list \<times> nat" where
  "fuse_ops [] = ([], 0)"
| "fuse_ops (Wr i l # Lft k # ops) = (let (fused, n) = fuse_ops ops in (WrLft i l # fused, n + 1))"
| "fuse_ops (Wr i l # Rgt k # ops) = (let (fused, n) = fuse_ops ops in (WrRgt i l # fused, n + 1))"
| "fuse_ops (op # ops) = (let (fused, n) = fuse_ops ops in (op # fused, n))"

definition fuse_block :: "ir_block \<Rightarrow> ir_block \<times> nat" where
  "fuse_block b = (b\<lparr>b_ops := fst (fuse_ops (b_ops b))\<rparr>, snd (fuse_ops (b_ops b)))"

definition fuse_tape_ops_run :: "ir_function \<Rightarrow> ir_function \<times> nat" where
  "fuse_tape_ops_run f = run_blocks fuse_block f"

text \<open>The pairs it looks for.\<close>

definition fuses :: "u32 \<Rightarrow> u32 \<Rightarrow> ir_op \<Rightarrow> ir_op \<Rightarrow> bool" where
  "fuses i l mv wm \<longleftrightarrow> (\<exists>k. mv = Lft k) \<and> wm = WrLft i l \<or> (\<exists>k. mv = Rgt k) \<and> wm = WrRgt i l"

lemma fuses_called: "fuses i l mv wm \<Longrightarrow> called mv = None \<and> called wm = None"
  by (auto simp: fuses_def)

lemma fuse_Cons:
  "fst (fuse_ops (op # ops)) = op # fst (fuse_ops ops)
   \<or> (\<exists>i l mv rest wm. op = Wr i l \<and> ops = mv # rest \<and> fuses i l mv wm
        \<and> fst (fuse_ops (op # ops)) = wm # fst (fuse_ops rest))"
  by (cases "op # ops" rule: fuse_ops.cases) (auto simp: fuses_def case_prod_beta Let_def)

lemma fuse_nil: "fst (fuse_ops ops) = [] \<longleftrightarrow> ops = []"
proof (cases ops)
  case (Cons op rest)
  then show ?thesis using fuse_Cons [of op rest] by auto
qed simp

lemma fuse_symbols: "\<forall>op \<in> set ops. op_symbols_ok op \<Longrightarrow> op \<in> set (fst (fuse_ops ops)) \<Longrightarrow> op_symbols_ok op"
  by (induction ops rule: fuse_ops.induct) (auto simp: case_prod_beta Let_def op_symbols_ok_def)

lemma fuse_block_simps [simp]:
  "b_id (fst (fuse_block b)) = b_id b" "b_term (fst (fuse_block b)) = b_term b"
  "b_ops (fst (fuse_block b)) = fst (fuse_ops (b_ops b))"
  by (simp_all add: fuse_block_def)

lemma fuse_ok: "fn_ok f \<Longrightarrow> fn_ok (fst (fuse_tape_ops_run f))"
  unfolding fuse_tape_ops_run_def fst_run_blocks
  by (rule fn_ok_map) (auto dest: fn_ok_targets fn_ok_symbols intro: fuse_symbols)

context mark_store
begin

lemma fused_act:
  assumes "fuses i l mv wm" "stored s"
  shows "act D (Wr i l) s = Inr s1 \<Longrightarrow> act D wm s = act D mv s1"
    and "act D (Wr i l) s = Inl e \<Longrightarrow> act D wm s = Inl e"
proof -
  show "act D (Wr i l) s = Inr s1 \<Longrightarrow> act D wm s = act D mv s1"
    using assms act_WrLft [of i l s s1] act_WrRgt [of i l s s1] by (auto simp: fuses_def simp del: act.simps)
  assume f: "act D (Wr i l) s = Inl e"
  obtain e' d where "d_write D i (s_dev s) = Inl (e', d)"
  proof (cases "d_write D i (s_dev s)")
    case (Inr d)
    then show ?thesis using f act_Wr [OF assms(2) Inr] by simp
  qed (use that in force)
  then show "act D wm s = Inl e" using f assms(1) by (auto simp: fuses_def touch_def)
qed

definition fuse_rel :: "'d point_rel" where
  "fuse_rel E f f' p s p' s' \<longleftrightarrow> snd p' = snd p \<and> stored s'
     \<and> (s' = s \<and> fst p' = fst (fuse_ops (fst p))
        \<or> (\<exists>i l mv rest wm. fuses i l mv wm \<and> fst p = mv # rest \<and> fst p' = wm # fst (fuse_ops rest)
             \<and> act D (Wr i l) s' = Inr s))"

lemma fuse_rel_start: "stored s \<Longrightarrow> fuse_rel E f f' (ops, t) s (fst (fuse_ops ops), t) s"
  by (simp add: fuse_rel_def)

lemma fuse_rel_block: "stored s \<Longrightarrow> fuse_rel E f f' (point_of b) s (point_of (fst (fuse_block b))) s"
  by (simp add: fuse_rel_def)

definition fuse_change :: "ir_function \<Rightarrow> ir_function \<Rightarrow> bool" where
  "fuse_change f f' \<longleftrightarrow> f' = map_blocks (\<lambda>b. fst (fuse_block b)) f"

definition fuse_back :: "'d point_rel" where
  "fuse_back E f' f p' s' p s \<longleftrightarrow> s' = s \<and> snd p' = snd p \<and> fst p' = fst (fuse_ops (fst p))"

lemma fuse_enters:
  "enters stored fuse_change fuse_rel"
  "enters stored (\<lambda>f' f. fuse_change f f') fuse_back"
  by (rule enters_map [where h = "\<lambda>b. fst (fuse_block b)"] enters_map_back [where h = "\<lambda>b. fst (fuse_block b)"];
      simp add: fuse_change_def fuse_rel_block fuse_back_def)+

lemma fuse_fwd: "simulates D stored fuse_change fuse_rel"
proof (rule simulatesI)
  fix E E' C f f' p x and s s' :: "'d ir_state" and p'
  assume T: "fuse_change f f'" and K: "fuse_rel E' f f' p s p' s'"
    and G: "stored s" and C: "call_part D stored E E' C" and st: "istep D C f p s x"
  note f' = T [unfolded fuse_change_def] and C' = call_partD(2) [OF C G]
  have next_ok: "stored s1" if "x = Inr (q, s1)" for q s1
    using istep_keeps [OF keeps_stored st [unfolded that] G call_partD(1) [OF C]] .
  obtain ops t where p: "p = (ops, t)" by (cases p)
  show "matched D E' (fuse_rel E' f f') f' p' s' x"
  proof (cases "\<exists>i l mv rest wm. fuses i l mv wm \<and> fst p = mv # rest \<and> fst p' = wm # fst (fuse_ops rest)
      \<and> act D (Wr i l) s' = Inr s")
    case True
    then obtain i l mv rest wm where q: "fuses i l mv wm" "ops = mv # rest" "p' = (wm # fst (fuse_ops rest), t)"
      "act D (Wr i l) s' = Inr s" using K p by (cases p') (auto simp: fuse_rel_def)
    have s': "stored s'" using K by (simp add: fuse_rel_def)
    have a: "act D wm s' = act D mv s" by (rule fused_act(1) [OF q(1) s' q(4)])
    note st = st [unfolded p q(2)]
    show ?thesis
    proof (rule istep_opE [OF st])
      fix s1 assume x: "x = Inr ((rest, t), s1)" "act D mv s = Inr s1"
      have i: "istep D (calls D E') f' (wm # fst (fuse_ops rest), t) s' (Inr ((fst (fuse_ops rest), t), s1))"
        using a x(2) fuses_called [OF q(1)] by (intro istep_act) simp_all
      show ?thesis unfolding x(1) q(3) by (rule matched_step [OF i]) (rule fuse_rel_start [OF next_ok [OF x(1)]])
    next
      fix e s1 assume x: "x = Inl (Faults e s1)" "act D mv s = Inl (e, s1)"
      have "istep D (calls D E') f' (wm # fst (fuse_ops rest), t) s' (Inl (Faults e s1))"
        using a x(2) fuses_called [OF q(1)] by (intro istep_fault) simp_all
      then show ?thesis unfolding x(1) q(3) by (rule matched_end)
    qed (use fuses_called [OF q(1)] in simp_all)
  next
    case False
    then have same: "s' = s" "p' = (fst (fuse_ops ops), t)"
      using K p by (cases p'; auto simp: fuse_rel_def)+
    show ?thesis
    proof (cases ops)
      case Nil
      show ?thesis unfolding same Nil fuse_ops.simps fst_conv
        by (rule matched_term_map [OF st [unfolded p Nil] f']) (use C' fuse_rel_block [OF G] in auto)
    next
      case (Cons op rest)
      from fuse_Cons [of op rest] show ?thesis
      proof
        assume q: "fst (fuse_ops (op # rest)) = op # fst (fuse_ops rest)"
        show ?thesis unfolding same Cons q
          by (rule matched_op_step [OF st [unfolded p Cons] same_instr_refl C'])
            (simp, use next_ok fuse_rel_start in blast)
      next
        assume "\<exists>i l mv rest2 wm. op = Wr i l \<and> rest = mv # rest2 \<and> fuses i l mv wm
          \<and> fst (fuse_ops (op # rest)) = wm # fst (fuse_ops rest2)"
        then obtain i l mv rest2 wm where q: "op = Wr i l" "rest = mv # rest2" "fuses i l mv wm"
          "fst (fuse_ops (op # rest)) = wm # fst (fuse_ops rest2)" by blast
        show ?thesis
        proof (rule istep_opE [OF st [unfolded p Cons]])
          fix s1 assume x: "x = Inr ((rest, t), s1)" "act D op s = Inr s1"
          have "fuse_rel E' f f' (rest, t) s1 p' s'"
            using q x(2) G same Cons unfolding fuse_rel_def by auto
          then show ?thesis unfolding x(1) by (rule matched_stay)
        next
          fix e s1 assume x: "x = Inl (Faults e s1)" "act D op s = Inl (e, s1)"
          have "act D wm s = Inl (e, s1)" by (rule fused_act(2) [OF q(3) G]) (use x(2) q(1) in simp)
          then have "istep D (calls D E') f' (wm # fst (fuse_ops rest2), t) s (Inl (Faults e s1))"
            using fuses_called [OF q(3)] by (intro istep_fault) simp_all
          then show ?thesis unfolding x(1) same Cons q(4) by (rule matched_end)
        qed (use q(1) in simp_all)
      qed
    qed
  qed
qed

lemma fuse_bwd: "simulates D stored (\<lambda>f' f. fuse_change f f') fuse_back"
proof (rule simulatesI)
  fix E E' C f' f p' x and s' s :: "'d ir_state" and p
  assume T: "fuse_change f f'" and K: "fuse_back E' f' f p' s' p s"
    and G: "stored s'" and C: "call_part D stored E E' C" and st: "istep D C f' p' s' x"
  note f' = T [unfolded fuse_change_def]
  obtain ops t where p: "p = (ops, t)" by (cases p)
  have same: "s' = s" "p' = (fst (fuse_ops ops), t)" using K p by (cases p'; simp add: fuse_back_def)+
  note C' = call_partD(2) [OF C G [unfolded same]]
  show "matched D E' (fuse_back E' f' f) f p s x"
  proof (cases ops)
    case Nil
    show ?thesis unfolding p Nil
      by (rule matched_term_back [OF st [unfolded same Nil fuse_ops.simps fst_conv] f'])
        (use C' in \<open>auto simp: fuse_back_def\<close>)
  next
    case (Cons op rest)
    from fuse_Cons [of op rest] show ?thesis
    proof
      assume q: "fst (fuse_ops (op # rest)) = op # fst (fuse_ops rest)"
      show ?thesis unfolding p Cons
        by (rule matched_op_step [OF st [unfolded same Cons q] same_instr_refl C']) (simp_all add: fuse_back_def)
    next
      assume "\<exists>i l mv rest2 wm. op = Wr i l \<and> rest = mv # rest2 \<and> fuses i l mv wm
        \<and> fst (fuse_ops (op # rest)) = wm # fst (fuse_ops rest2)"
      then obtain i l mv rest2 wm where q: "op = Wr i l" "rest = mv # rest2" "fuses i l mv wm"
        "fst (fuse_ops (op # rest)) = wm # fst (fuse_ops rest2)" by blast
      note st = st [unfolded same Cons q(4)]
      note c = fuses_called [OF q(3)]
      show ?thesis
      proof (cases "act D (Wr i l) s")
        case (Inl e)
        then have "act D wm s = Inl e" using fused_act(2) [OF q(3) G [unfolded same]] by blast
        then have "x = Inl (Faults (fst e) (snd e))" using st c by (elim istep_opE) auto
        moreover have "istep D (calls D E') f (op # rest, t) s (Inl (Faults (fst e) (snd e)))"
          using Inl q(1) by (intro istep_fault) simp_all
        ultimately show ?thesis unfolding p Cons by (simp add: matched_end)
      next
        case (Inr s1)
        have a: "act D wm s = act D mv s1" by (rule fused_act(1) [OF q(3) G [unfolded same] Inr])
        have "istep D (calls D E') f (op # rest, t) s (Inr ((rest, t), s1))"
          using Inr q(1) by (intro istep_act) simp_all
        then have go: "reach D E' f (op # rest, t) s (rest, t) s1" by (rule reach_step)
        show ?thesis unfolding p Cons
        proof (rule matched_first [OF go])
          show "matched D E' (fuse_back E' f' f) f (rest, t) s1 x"
          proof (rule istep_opE [OF st])
            fix s2 assume x: "x = Inr ((fst (fuse_ops rest2), t), s2)" "act D wm s = Inr s2"
            have "istep D (calls D E') f (mv # rest2, t) s1 (Inr ((rest2, t), s2))"
              using a x(2) c by (intro istep_act) simp_all
            then show ?thesis unfolding x(1) q(2) by (rule matched_step) (simp add: fuse_back_def)
          next
            fix e s2 assume x: "x = Inl (Faults e s2)" "act D wm s = Inl (e, s2)"
            have "istep D (calls D E') f (mv # rest2, t) s1 (Inl (Faults e s2))"
              using a x(2) c by (intro istep_fault) simp_all
            then show ?thesis unfolding x(1) q(2) by (rule matched_end)
          qed (use c in simp_all)
        qed
      qed
    qed
  qed
qed

lemma fuse_sound: "sound_change D stored (\<lambda>f f'. f' = fst (fuse_tape_ops_run f))"
  by (rule sound_change_mono [OF sound_changeI [OF keeps_stored _ fuse_enters(1) fuse_fwd fuse_enters(2) fuse_bwd]])
    (simp_all add: fuse_change_def fuse_tape_ops_run_def)

end

section \<open>move-elim\<close>

definition is_inverse_pair :: "ir_op \<Rightarrow> ir_op \<Rightarrow> bool" where
  "is_inverse_pair a b \<longleftrightarrow>
     (case (a, b) of (Rgt _, Lft _) \<Rightarrow> True | (Lft _, Rgt _) \<Rightarrow> True | _ \<Rightarrow> False)"

text \<open>Whether the match flag is read before it is latched again, past operation \<open>i\<close> of a block.\<close>

definition relatches :: "ir_op \<Rightarrow> bool" where
  "relatches op \<longleftrightarrow> (case op of Brk _ \<Rightarrow> False | Call _ _ \<Rightarrow> False | _ \<Rightarrow> True)"

lemma block_index_id: "block_index f i = Some k \<Longrightarrow> i \<in> set (block_ids f)"
  by (auto simp: block_index_def dest!: map_of_SomeD set_zip_leftD)

lemma unseen_decreases:
  "block_index f i = Some k \<Longrightarrow> i \<notin> seen \<Longrightarrow>
     card (set (block_ids f) - insert i seen) < card (set (block_ids f) - seen)"
  using block_index_id [of f i k] by (intro psubset_card_mono) auto

function mf_dead_after :: "ir_function \<Rightarrow> nat \<Rightarrow> nat \<Rightarrow> nat set \<Rightarrow> bool" where
  "mf_dead_after f k i seen =
     (let b = fn_blocks f ! k in
      case drop i (b_ops b) of
        op # _ \<Rightarrow> relatches op
      | [] \<Rightarrow>
          (case b_term b of
             Check _ _ \<Rightarrow> False
           | Return \<Rightarrow> True
           | Halt \<Rightarrow> True
           | TailCall _ \<Rightarrow> False
           | FallThrough to \<Rightarrow>
               if to \<in> seen then True
               else (case block_index f to of
                       Some k' \<Rightarrow> mf_dead_after f k' 0 (insert to seen)
                     | None \<Rightarrow> False)
           | Goto to \<Rightarrow>
               if to \<in> seen then True
               else (case block_index f to of
                       Some k' \<Rightarrow> mf_dead_after f k' 0 (insert to seen)
                     | None \<Rightarrow> False)))"
  by pat_completeness auto

termination
  by (relation "measure (\<lambda>(f, _, _, seen). card (set (block_ids f) - seen))") (simp_all add: unseen_decreases)

declare mf_dead_after.simps [simp del]

text \<open>One scan: the first pair whose deletion is licensed, by block and position.\<close>

fun scan_ops :: "ir_function \<Rightarrow> nat \<Rightarrow> fact \<Rightarrow> nat \<Rightarrow> ir_op list \<Rightarrow> nat option" where
  "scan_ops f k x i (a # b # ops) =
     (if is_inverse_pair a b \<and> (x \<noteq> Uncoupled \<or> mf_dead_after f k (i + 2) {}) then Some i
      else scan_ops f k (transfer_op x a) (i + 1) (b # ops))"
| "scan_ops f k x i ops = None"

fun scan_blocks :: "ir_function \<Rightarrow> facts \<Rightarrow> nat \<Rightarrow> ir_block list \<Rightarrow> (nat \<times> nat) option" where
  "scan_blocks f entries k [] = None"
| "scan_blocks f entries k (b # bs) =
     (case entries (b_id b) of
        None \<Rightarrow> scan_blocks f entries (k + 1) bs
      | Some x \<Rightarrow>
          (case scan_ops f k x 0 (b_ops b) of
             Some i \<Rightarrow> Some (k, i)
           | None \<Rightarrow> scan_blocks f entries (k + 1) bs))"

definition find_first_sound_pair :: "ir_function \<Rightarrow> (nat \<times> nat) option option" where
  "find_first_sound_pair f = map_option (\<lambda>entries. scan_blocks f entries 0 (fn_blocks f)) (block_entry_facts f)"

definition drain_pair :: "ir_function \<Rightarrow> nat \<Rightarrow> nat \<Rightarrow> ir_function" where
  "drain_pair f k i =
     (let b = fn_blocks f ! k
      in f\<lparr>fn_blocks := (fn_blocks f)[k := b\<lparr>b_ops := take i (b_ops b) @ drop (i + 2) (b_ops b)\<rparr>]\<rparr>)"

text \<open>A found pair lies within its block.\<close>

definition pair_at :: "ir_function \<Rightarrow> nat \<Rightarrow> nat \<Rightarrow> bool" where
  "pair_at f k i \<longleftrightarrow> k < length (fn_blocks f)
     \<and> (\<exists>pre a b post. b_ops (fn_blocks f ! k) = pre @ a # b # post \<and> length pre = i \<and> is_inverse_pair a b)"

lemma scan_ops_pair:
  "scan_ops f k x j ops = Some i \<Longrightarrow>
     \<exists>pre a b post. ops = pre @ a # b # post \<and> i = j + length pre \<and> is_inverse_pair a b"
proof (induction f k x j ops rule: scan_ops.induct)
  case (1 f k x j a b ops)
  show ?case
  proof (cases "is_inverse_pair a b \<and> (x \<noteq> Uncoupled \<or> mf_dead_after f k (j + 2) {})")
    case True
    then show ?thesis using "1.prems" by (intro exI [of _ "[]"]) auto
  next
    case False
    then obtain pre c d post where "b # ops = pre @ c # d # post" "i = j + 1 + length pre" "is_inverse_pair c d"
      using 1 by auto
    then show ?thesis by (intro exI [of _ "a # pre"] exI [of _ c] exI [of _ d] exI [of _ post]) simp
  qed
qed simp_all

lemma scan_blocks_pair:
  "scan_blocks f entries k bs = Some (n, i) \<Longrightarrow> drop k (fn_blocks f) = bs \<Longrightarrow> pair_at f n i"
proof (induction f entries k bs rule: scan_blocks.induct)
  case (2 f entries k b bs)
  have k: "k < length (fn_blocks f)" using "2.prems"(2) by (metis drop_eq_Nil2 leI list.distinct(1))
  then have b: "fn_blocks f ! k = b" "drop (k + 1) (fn_blocks f) = bs"
    using "2.prems"(2) Cons_nth_drop_Suc [OF k] by simp_all
  show ?case
  proof (cases "entries (b_id b)")
    case None
    then show ?thesis using 2 b by simp
  next
    case (Some x)
    show ?thesis
    proof (cases "scan_ops f k x 0 (b_ops b)")
      case None
      then show ?thesis using 2 b Some by simp
    next
      case (Some j)
      then have "n = k" "i = j" using "2.prems"(1) \<open>entries (b_id b) = Some x\<close> by simp_all
      then show ?thesis using scan_ops_pair [OF Some] k b by (fastforce simp: pair_at_def)
    qed
  qed
qed simp

lemma found_pair: "find_first_sound_pair f = Some (Some (k, i)) \<Longrightarrow> pair_at f k i"
  by (auto simp: find_first_sound_pair_def intro: scan_blocks_pair)

definition fn_ops :: "ir_function \<Rightarrow> nat" where
  "fn_ops f = sum_list (map (\<lambda>b. length (b_ops b)) (fn_blocks f))"

text \<open>The deletion, block list and operations spelt out.\<close>

lemma pair_atE:
  assumes "pair_at f k i"
  obtains xs c ys pre a b post where "fn_blocks f = xs @ c # ys" "b_ops c = pre @ a # b # post"
    "is_inverse_pair a b" "fn_blocks (drain_pair f k i) = xs @ c\<lparr>b_ops := pre @ post\<rparr> # ys"
proof -
  obtain pre a b post where k: "k < length (fn_blocks f)" and o: "b_ops (fn_blocks f ! k) = pre @ a # b # post"
    "length pre = i" "is_inverse_pair a b" using assms by (auto simp: pair_at_def)
  let ?xs = "take k (fn_blocks f)" and ?ys = "drop (Suc k) (fn_blocks f)"
  have "fn_blocks f = ?xs @ fn_blocks f ! k # ?ys" using k by (rule id_take_nth_drop)
  moreover have "fn_blocks (drain_pair f k i) = ?xs @ (fn_blocks f ! k)\<lparr>b_ops := pre @ post\<rparr> # ?ys"
    using k o by (simp add: drain_pair_def Let_def upd_conv_take_nth_drop)
  ultimately show ?thesis using o that by blast
qed

lemma drain_shrinks: "pair_at f k i \<Longrightarrow> fn_ops (drain_pair f k i) < fn_ops f"
  by (elim pair_atE) (simp add: fn_ops_def)

function move_elim_loop :: "ir_function \<Rightarrow> nat \<Rightarrow> pass_result" where
  "move_elim_loop f changes =
     (case find_first_sound_pair f of
        None \<Rightarrow> None
      | Some None \<Rightarrow> Some (f, changes)
      | Some (Some (k, i)) \<Rightarrow> move_elim_loop (drain_pair f k i) (changes + 1))"
  by pat_completeness auto
termination
  by (relation "measure (\<lambda>(f, _). fn_ops f)") (simp_all add: drain_shrinks found_pair)

declare move_elim_loop.simps [simp del]

definition move_elim_run :: "ir_function \<Rightarrow> pass_result" where
  "move_elim_run f = move_elim_loop f 0"

lemma drain_name [simp]: "fn_name (drain_pair f k i) = fn_name f"
  by (simp add: drain_pair_def Let_def)

definition drop_pair_block :: "nat \<Rightarrow> ir_op list \<Rightarrow> ir_block \<Rightarrow> ir_block" where
  "drop_pair_block i ops b = (if b_id b = i then b\<lparr>b_ops := ops\<rparr> else b)"

lemma drop_pair_id [simp]: "b_id (drop_pair_block i ops b) = b_id b" "b_term (drop_pair_block i ops b) = b_term b"
  by (simp_all add: drop_pair_block_def)

text \<open>Deleting one pair, as a change of the block with its id.\<close>

definition pair_change :: "ir_function \<Rightarrow> ir_function \<Rightarrow> bool" where
  "pair_change f f' \<longleftrightarrow> (\<exists>c pre a b post. c \<in> set (fn_blocks f) \<and> distinct (block_ids f)
     \<and> b_ops c = pre @ a # b # post \<and> is_inverse_pair a b \<and> f' = map_blocks (drop_pair_block (b_id c) (pre @ post)) f)"

lemma drain_change:
  assumes "pair_at f k i" "distinct (block_ids f)"
  shows "pair_change f (drain_pair f k i)"
proof -
  obtain xs c ys pre a b post where q: "fn_blocks f = xs @ c # ys" "b_ops c = pre @ a # b # post"
    "is_inverse_pair a b" "fn_blocks (drain_pair f k i) = xs @ c\<lparr>b_ops := pre @ post\<rparr> # ys"
    using assms(1) by (rule pair_atE)
  have "b_id c \<notin> b_id ` (set xs \<union> set ys)" using assms(2) by (simp add: q(1) block_ids_def image_Un)
  then have "\<forall>x \<in> set xs \<union> set ys. b_id x \<noteq> b_id c" by (metis image_eqI)
  then have "map (drop_pair_block (b_id c) (pre @ post)) (xs @ ys) = xs @ ys"
    by (intro map_idI) (auto simp: drop_pair_block_def)
  then have "fn_blocks (drain_pair f k i) = map (drop_pair_block (b_id c) (pre @ post)) (fn_blocks f)"
    unfolding q(1,4) by (simp add: drop_pair_block_def)
  then have "drain_pair f k i = map_blocks (drop_pair_block (b_id c) (pre @ post)) f"
    by (simp add: drain_pair_def Let_def map_blocks_def)
  then show ?thesis unfolding pair_change_def using q assms(2) by fastforce
qed

lemma pair_change_ok: "pair_change f f' \<Longrightarrow> fn_ok f \<Longrightarrow> fn_ok f'"
proof -
  assume "pair_change f f'" and f: "fn_ok f"
  then obtain c pre a b post where c: "c \<in> set (fn_blocks f)" "b_ops c = pre @ a # b # post"
    "f' = map_blocks (drop_pair_block (b_id c) (pre @ post)) f"
    unfolding pair_change_def by blast
  show ?thesis unfolding c(3)
  proof (rule fn_ok_map [OF f])
    fix b' op assume b': "b' \<in> set (fn_blocks f)" and op: "op \<in> set (b_ops (drop_pair_block (b_id c) (pre @ post) b'))"
    then have "op \<in> set (b_ops b') \<or> op \<in> set (b_ops c)" using c(2) by (auto simp: drop_pair_block_def split: if_splits)
    then show "op_symbols_ok op" using fn_ok_symbols [OF f] b' c(1) by blast
  qed (use fn_ok_targets [OF f] in auto)
qed

lemma move_elim_result:
  "fn_ok f \<Longrightarrow> move_elim_loop f n = Some (f', n') \<Longrightarrow> pair_change\<^sup>*\<^sup>* f f' \<and> fn_ok f'"
proof (induction f n rule: move_elim_loop.induct)
  case (1 f n)
  show ?case
  proof (cases "find_first_sound_pair f")
    case None
    then show ?thesis using 1 by (simp add: move_elim_loop.simps)
  next
    case (Some r)
    show ?thesis
    proof (cases r)
      case None
      then show ?thesis using 1 Some by (simp add: move_elim_loop.simps)
    next
      case (Some ki)
      obtain k i where ki: "ki = (k, i)" by (cases ki)
      have find: "find_first_sound_pair f = Some (Some (k, i))"
        using \<open>find_first_sound_pair f = Some r\<close> Some ki by simp
      have c: "pair_change f (drain_pair f k i)"
        by (rule drain_change [OF found_pair [OF find] fn_ok_distinct [OF 1(2)]])
      have "pair_change\<^sup>*\<^sup>* (drain_pair f k i) f' \<and> fn_ok f'"
        by (rule "1.IH" [OF find refl refl]) (use pair_change_ok [OF c] 1(2,3) find in \<open>simp_all add: move_elim_loop.simps\<close>)
      then show ?thesis using c by (auto intro: converse_rtranclp_into_rtranclp)
    qed
  qed
qed

lemma move_elim_returns: "fn_ok f \<Longrightarrow> \<exists>r. move_elim_loop f n = Some r"
proof (induction f n rule: move_elim_loop.induct)
  case (1 f n)
  have "valid_fn f" using 1(2) by (simp add: fn_ok_def)
  then obtain r where r: "find_first_sound_pair f = Some r"
    using block_entry_facts_fixpoint by (fastforce simp: find_first_sound_pair_def)
  show ?case
  proof (cases r)
    case None
    then show ?thesis using r by (simp add: move_elim_loop.simps)
  next
    case (Some ki)
    obtain k i where ki: "ki = (k, i)" by (cases ki)
    have find: "find_first_sound_pair f = Some (Some (k, i))" using r Some ki by simp
    have "fn_ok (drain_pair f k i)"
      using pair_change_ok [OF drain_change [OF found_pair [OF find] fn_ok_distinct [OF 1(2)]] 1(2)] .
    then show ?thesis using "1.IH" [OF find refl refl] find by (simp add: move_elim_loop.simps)
  qed
qed

context mark_store
begin

lemma inverse_pair_act:
  assumes "is_inverse_pair a b" "coupled s"
  shows "\<exists>s1. act D a s = Inr s1 \<and> act D b s1 = Inr s \<and> called a = None \<and> called b = None"
proof -
  have s: "stored s" and ok: "ok (s_dev s)" and self: "landed s (s_dev s) = s"
    using assms(2) coupled_stored landed_self by (auto simp: stored_def)
  consider k l where "a = Lft k" "b = Rgt l" | k l where "a = Rgt k" "b = Lft l"
    using assms(1) by (cases a; cases b) (auto simp: is_inverse_pair_def)
  then show ?thesis
  proof cases
    case 1
    obtain d where d: "d_left D (s_dev s) = Inr d" "ok d" "d_right D d = Inr (s_dev s)" using left_ok [OF ok] by blast
    have "act D a s = Inr (landed s d)" using act_Lft [OF s d(1)] 1 by blast
    moreover have "act D b (landed s d) = Inr s"
      using act_Rgt [of "landed s d" "s_dev s" l] d 1 coupled_stored [OF landed_coupled] self by simp
    ultimately show ?thesis using 1 by simp
  next
    case 2
    obtain d where d: "d_right D (s_dev s) = Inr d" "ok d" "d_left D d = Inr (s_dev s)" using right_ok [OF ok] by blast
    have "act D a s = Inr (landed s d)" using act_Rgt [OF s d(1)] 2 by blast
    moreover have "act D b (landed s d) = Inr s"
      using act_Lft [of "landed s d" "s_dev s" l] d 2 coupled_stored [OF landed_coupled] self by simp
    ultimately show ?thesis using 2 by simp
  qed
qed

text \<open>Ahead of the pair, between its halves, or where nothing has been deleted.\<close>

definition pair_rel :: "'d point_rel" where
  "pair_rel E f f' p s p' s' \<longleftrightarrow> coupled s' \<and> snd p' = snd p
     \<and> (s' = s \<and> fst p' = fst p
        \<or> s' = s \<and> (\<exists>pre a b post. is_inverse_pair a b \<and> fst p = pre @ a # b # post \<and> fst p' = pre @ post)
        \<or> (\<exists>a b. is_inverse_pair a b \<and> fst p = b # fst p' \<and> act D a s' = Inr s))"

definition pair_back :: "'d point_rel" where
  "pair_back E f' f p' s' p s \<longleftrightarrow> s' = s \<and> snd p' = snd p
     \<and> (fst p' = fst p \<or> (\<exists>pre a b post. is_inverse_pair a b \<and> fst p = pre @ a # b # post \<and> fst p' = pre @ post))"

lemma pair_rel_back: "pair_back E f' f p' s' p s \<Longrightarrow> coupled s \<Longrightarrow> pair_rel E f f' p s p' s'"
  by (auto simp: pair_rel_def pair_back_def)

lemma pair_change_map:
  "pair_change f f' \<Longrightarrow> \<exists>h. f' = map_blocks h f \<and> (\<forall>b. b_id (h b) = b_id b \<and> b_term (h b) = b_term b)
     \<and> (\<forall>b \<in> set (fn_blocks f). \<forall>s E. coupled s \<longrightarrow> pair_back E f' f (point_of (h b)) s (point_of b) s)"
proof -
  assume "pair_change f f'"
  then obtain c pre a b post where c: "c \<in> set (fn_blocks f)" "distinct (block_ids f)"
    "b_ops c = pre @ a # b # post" "is_inverse_pair a b" "f' = map_blocks (drop_pair_block (b_id c) (pre @ post)) f"
    unfolding pair_change_def by blast
  have "pair_back E' f' f (point_of (drop_pair_block (b_id c) (pre @ post) x)) s (point_of x) s"
    if x: "x \<in> set (fn_blocks f)" for x s E'
  proof (cases "b_id x = b_id c")
    case True
    then have "x = c" using x c(1,2) block_at_Some [OF c(2)] by (metis option.inject)
    then show ?thesis using c(3,4) by (auto simp: pair_back_def drop_pair_block_def)
  qed (simp add: pair_back_def drop_pair_block_def)
  then show ?thesis using c(5) by (intro exI [of _ "drop_pair_block (b_id c) (pre @ post)"]) simp
qed

lemma pair_enters:
  "enters coupled pair_change pair_rel"
  "enters coupled (\<lambda>f' f. pair_change f f') pair_back"
proof -
  have e: "\<exists>h. entry_point f' = map_option (\<lambda>b. point_of (h b)) (nth_opt (fn_blocks f) 0)
      \<and> (\<forall>b \<in> set (fn_blocks f). \<forall>s E. coupled s \<longrightarrow> pair_back E f' f (point_of (h b)) s (point_of b) s)"
    if "pair_change f f'" for f f'
    using pair_change_map [OF that] by (auto simp: entry_point_map(1))
  show "enters coupled pair_change pair_rel"
  proof (rule entersI)
    fix f f' p assume t: "pair_change f f'" and p: "entry_point f = Some p"
    obtain b bs where b: "fn_blocks f = b # bs" "p = point_of b" using p by (cases "fn_blocks f") (auto simp: entry_point_def)
    obtain h where h: "entry_point f' = map_option (\<lambda>b. point_of (h b)) (nth_opt (fn_blocks f) 0)"
      "\<forall>b \<in> set (fn_blocks f). \<forall>s E. coupled s \<longrightarrow> pair_back E f' f (point_of (h b)) s (point_of b) s"
      using e [OF t] by blast
    have "entry_point f' = Some (point_of (h b))" using h(1) b(1) by (simp add: nth_opt_def)
    moreover have "pair_rel E f f' p s (point_of (h b)) s" if "coupled s" for E s
      using h(2) b pair_rel_back that by simp
    ultimately show "\<exists>p'. entry_point f' = Some p' \<and> (\<forall>E s. coupled s \<longrightarrow> pair_rel E f f' p s p' s)"
      by blast
  qed
  show "enters coupled (\<lambda>f' f. pair_change f f') pair_back"
  proof (rule entersI)
    fix f' f p' assume t: "pair_change f f'" and p: "entry_point f' = Some p'"
    obtain h where h: "entry_point f' = map_option (\<lambda>b. point_of (h b)) (nth_opt (fn_blocks f) 0)"
      "\<forall>b \<in> set (fn_blocks f). \<forall>s E. coupled s \<longrightarrow> pair_back E f' f (point_of (h b)) s (point_of b) s"
      using e [OF t] by blast
    then obtain b bs where b: "fn_blocks f = b # bs" "p' = point_of (h b)"
      using p by (cases "fn_blocks f") (auto simp: nth_opt_def)
    then show "\<exists>p. entry_point f = Some p \<and> (\<forall>E s. coupled s \<longrightarrow> pair_back E f' f p' s p s)"
      using h(2) by (simp add: entry_point_def)
  qed
qed

text \<open>Steps where the two programs are at the same instruction.\<close>

lemma pair_same_fwd:
  assumes "pair_change f f'" "coupled s" "istep D C f (ops, t) s x" "\<And>n r. C n s r \<Longrightarrow> calls D E' n s r"
    and "\<And>n s r. C n s r \<Longrightarrow> calls D E n s r"
  shows "matched D E' (pair_rel E' f f') f' (ops, t) s x"
proof -
  obtain h where h: "f' = map_blocks h f" "\<forall>b. b_id (h b) = b_id b \<and> b_term (h b) = b_term b"
    "\<forall>b \<in> set (fn_blocks f). \<forall>s E. coupled s \<longrightarrow> pair_back E f' f (point_of (h b)) s (point_of b) s"
    using pair_change_map [OF assms(1)] by blast
  show ?thesis
  proof (cases ops)
    case Nil
    show ?thesis unfolding Nil
    proof (rule matched_term_map [OF assms(3) [unfolded Nil] h(1)])
      fix i b assume "block_at f i = Some b"
      then show "pair_rel E' f f' (point_of b) s (point_of (h b)) s"
        using h(3) assms(2) block_at_in pair_rel_back by blast
    qed (use h(2) assms(4) in simp_all)
  next
    case (Cons op rest)
    show ?thesis unfolding Cons
    proof (rule matched_op_step [OF assms(3) [unfolded Cons] same_instr_refl assms(4)])
      fix s1 assume x: "x = Inr ((rest, t), s1)"
      have "coupled s1" by (rule istep_keeps [OF keeps_coupled assms(3) [unfolded x] assms(2,5)])
      then show "pair_rel E' f f' (rest, t) s1 (rest, t) s1" by (simp add: pair_rel_def)
    qed
  qed
qed

lemma pair_same_bwd:
  assumes "pair_change f f'" "coupled s" "istep D C f' (ops, t) s x" "\<And>n r. C n s r \<Longrightarrow> calls D E n s r"
  shows "matched D E (pair_back E f' f) f (ops, t) s x"
proof -
  obtain h where h: "f' = map_blocks h f" "\<forall>b. b_id (h b) = b_id b \<and> b_term (h b) = b_term b"
    "\<forall>b \<in> set (fn_blocks f). \<forall>s E. coupled s \<longrightarrow> pair_back E f' f (point_of (h b)) s (point_of b) s"
    using pair_change_map [OF assms(1)] by blast
  show ?thesis
  proof (cases ops)
    case Nil
    show ?thesis unfolding Nil
    proof (rule matched_term_back [OF assms(3) [unfolded Nil] h(1)])
      fix i b assume "block_at f i = Some b"
      then show "pair_back E f' f (point_of (h b)) s (point_of b) s" using h(3) assms(2) block_at_in by blast
    qed (use h(2) assms(4) in simp_all)
  next
    case (Cons op rest)
    show ?thesis unfolding Cons
      by (rule matched_op_step [OF assms(3) [unfolded Cons] same_instr_refl assms(4)]) (simp_all add: pair_back_def)
  qed
qed

lemma pair_fwd: "simulates D coupled pair_change pair_rel"
proof (rule simulatesI)
  fix E E' C f f' p x and s s' :: "'d ir_state" and p'
  assume T: "pair_change f f'" and K: "pair_rel E' f f' p s p' s'"
    and G: "coupled s" and C: "call_part D coupled E E' C" and st: "istep D C f p s x"
  note C = call_partD(1) [OF C] call_partD(2) [OF C G]
  obtain ops t where p: "p = (ops, t)" by (cases p)
  consider (same) "s' = s" "p' = (ops, t)"
    | (ahead) pre a b post where "s' = s" "is_inverse_pair a b" "ops = pre @ a # b # post" "p' = (pre @ post, t)"
    | (between) a b ops' where "is_inverse_pair a b" "ops = b # ops'" "p' = (ops', t)" "act D a s' = Inr s" "coupled s'"
    using K p unfolding pair_rel_def by (cases p') auto
  then show "matched D E' (pair_rel E' f f') f' p' s' x"
  proof cases
    case same
    then show ?thesis using pair_same_fwd [OF T G st [unfolded p] C(2,1)] by simp
  next
    case ahead
    show ?thesis
    proof (cases pre)
      case Nil
      obtain s1 where s1: "act D a s = Inr s1" "called a = None" using inverse_pair_act [OF ahead(2) G] by blast
      have "x = Inr ((b # post, t), s1)" using st s1 unfolding p ahead(3) Nil by (auto elim: istep_opE)
      moreover have "pair_rel E' f f' (b # post, t) s1 p' s'"
        using ahead Nil s1(1) G by (auto simp: pair_rel_def)
      ultimately show ?thesis by (simp add: matched_stay)
    next
      case (Cons op rest)
      show ?thesis unfolding ahead(1,4) Cons append_Cons
      proof (rule matched_op_step [OF st [unfolded p ahead(3) Cons append_Cons] same_instr_refl C(2)])
        fix s1 assume x: "x = Inr ((rest @ a # b # post, t), s1)"
        have "coupled s1" by (rule istep_keeps [OF keeps_coupled st [unfolded x] G C(1)])
        then show "pair_rel E' f f' (rest @ a # b # post, t) s1 (rest @ post, t) s1"
          using ahead(2) by (auto simp: pair_rel_def)
      qed simp
    qed
  next
    case between
    have b: "act D b s = Inr s'" "called b = None"
      using inverse_pair_act [OF between(1,5)] between(4) by auto
    have "x = Inr ((ops', t), s')" using st b unfolding p between(2) by (auto elim: istep_opE)
    moreover have "pair_rel E' f f' (ops', t) s' p' s'" using between by (simp add: pair_rel_def)
    ultimately show ?thesis by (simp add: matched_stay)
  qed
qed

lemma pair_bwd: "simulates D coupled (\<lambda>f' f. pair_change f f') pair_back"
proof (rule simulatesI)
  fix E E' C f' f p' x and s' s :: "'d ir_state" and p
  assume T: "pair_change f f'" and K: "pair_back E' f' f p' s' p s"
    and G: "coupled s'" and C: "call_part D coupled E E' C" and st: "istep D C f' p' s' x"
  obtain ops t where p: "p = (ops, t)" by (cases p)
  have s': "s' = s" using K by (simp add: pair_back_def)
  note C = call_partD(2) [OF C G [unfolded s']] and G = G [unfolded s']
  consider (same) "p' = (ops, t)"
    | (ahead) pre a b post where "is_inverse_pair a b" "ops = pre @ a # b # post" "p' = (pre @ post, t)"
    using K p unfolding pair_back_def by (cases p') auto
  then show "matched D E' (pair_back E' f' f) f p s x"
  proof cases
    case same
    then show ?thesis using pair_same_bwd [OF T G _ C] st s' p by simp
  next
    case ahead
    show ?thesis
    proof (cases pre)
      case Nil
      obtain s1 where s1: "act D a s = Inr s1" "act D b s1 = Inr s" "called a = None" "called b = None"
        using inverse_pair_act [OF ahead(1) G] by blast
      have "reach D E' f (a # b # post, t) s (post, t) s"
        by (rule reach_next [OF istep_act [OF s1(3,1)] reach_step [OF istep_act [OF s1(4,2)]]])
      moreover have "matched D E' (pair_back E' f' f) f (post, t) s x"
        using pair_same_bwd [OF T G _ C] st s' ahead(3) Nil by simp
      ultimately show ?thesis unfolding p ahead(2) Nil append_Nil by (rule matched_first)
    next
      case (Cons op rest)
      show ?thesis unfolding p ahead(2) Cons append_Cons
        by (rule matched_op_step [OF st [unfolded ahead(3) Cons append_Cons s'] same_instr_refl C])
          (use ahead(1) in \<open>auto simp: pair_back_def\<close>)
    qed
  qed
qed

lemma move_elim_sound: "sound_change D coupled (\<lambda>f f'. fn_ok f \<and> (\<exists>n. move_elim_run f = Some (f', n)))"
proof -
  have "sound_change D coupled pair_change"
    by (rule sound_changeI [OF keeps_coupled _ pair_enters(1) pair_fwd pair_enters(2) pair_bwd])
      (auto simp: pair_change_def)
  from sound_change_star [OF this] show ?thesis
    by (rule sound_change_mono) (auto simp: move_elim_run_def dest: move_elim_result)
qed

end

end
