(* ===== verification/Pass_Inline.thy ===== *)
theory Pass_Inline
  imports Dataflow
begin

text \<open>
  The program-level pass \<open>inline\<close> (\<open>crates/post-machine/src/optimizer/inline.rs\<close>): small leaf functions,
  and leaf functions with a single call, are spliced into their call sites within the module. The
  hash map of candidates, collected from an iterator, is an association list read from its end.
  \<open>splice\<close> is \<open>None\<close> where the code panics: a callee without blocks, a target outside it, a tail call.
\<close>

section \<open>Candidates\<close>

definition INLINE_MAX_OPS :: nat where "INLINE_MAX_OPS = 6"

definition leaf_op :: "ir_op \<Rightarrow> bool" where
  "leaf_op op \<longleftrightarrow> (case op of Call _ _ \<Rightarrow> False | Brk _ \<Rightarrow> False | _ \<Rightarrow> True)"

definition is_leaf_without_brk :: "ir_function \<Rightarrow> bool" where
  "is_leaf_without_brk f \<longleftrightarrow>
     list_all (\<lambda>b. (case b_term b of TailCall _ \<Rightarrow> False | _ \<Rightarrow> True) \<and> list_all leaf_op (b_ops b)) (fn_blocks f)"

definition op_count :: "ir_function \<Rightarrow> nat" where
  "op_count f = sum_list (map (\<lambda>b. length (b_ops b)) (fn_blocks f))"

text \<open>How often a name is called, by calls and tail calls.\<close>

definition call_counts :: "ir_function list \<Rightarrow> string \<Rightarrow> nat" where
  "call_counts fs n =
     sum_list (map (\<lambda>f. sum_list (map (\<lambda>b.
        length (filter (\<lambda>op. called op = Some n) (b_ops b)) + (if b_term b = TailCall n then 1 else 0))
        (fn_blocks f))) fs)"

definition is_candidate :: "ir_function list \<Rightarrow> nat \<Rightarrow> ir_function \<Rightarrow> bool" where
  "is_candidate fs cap f \<longleftrightarrow>
     fn_name f \<noteq> ''main'' \<and> is_leaf_without_brk f \<and> (op_count f \<le> cap \<or> call_counts fs (fn_name f) = 1)"

definition candidates :: "ir_function list \<Rightarrow> nat \<Rightarrow> linkage" where
  "candidates fs cap = map_of (rev (map (\<lambda>f. (fn_name f, f)) (filter (is_candidate fs cap) fs)))"

section \<open>Splicing\<close>

definition is_site :: "ir_function \<Rightarrow> linkage \<Rightarrow> ir_op \<Rightarrow> bool" where
  "is_site f cands op \<longleftrightarrow> (case op of Call n _ \<Rightarrow> n \<noteq> fn_name f \<and> cands n \<noteq> None | _ \<Rightarrow> False)"

text \<open>The first call of a candidate, by block and position.\<close>

fun site_op :: "ir_function \<Rightarrow> linkage \<Rightarrow> nat \<Rightarrow> ir_op list \<Rightarrow> nat option" where
  "site_op f cands i [] = None"
| "site_op f cands i (op # ops) = (if is_site f cands op then Some i else site_op f cands (i + 1) ops)"

fun site_block :: "ir_function \<Rightarrow> linkage \<Rightarrow> nat \<Rightarrow> ir_block list \<Rightarrow> (nat \<times> nat) option" where
  "site_block f cands k [] = None"
| "site_block f cands k (b # bs) =
     (case site_op f cands 0 (b_ops b) of
        Some i \<Rightarrow> Some (k, i)
      | None \<Rightarrow> site_block f cands (k + 1) bs)"

definition find_site :: "ir_function \<Rightarrow> linkage \<Rightarrow> (nat \<times> nat) option" where
  "find_site f cands = site_block f cands 0 (fn_blocks f)"

definition next_block_id :: "ir_function \<Rightarrow> nat" where
  "next_block_id f = (if fn_blocks f = [] then 0 else Max (set (block_ids f))) + 1"

text \<open>The callee's blocks under fresh ids, its returns going on after the call.\<close>

definition clone_term :: "(nat \<Rightarrow> nat option) \<Rightarrow> nat \<Rightarrow> ir_term \<Rightarrow> ir_term option" where
  "clone_term id_map cont t =
     (case t of
        FallThrough to \<Rightarrow> map_option FallThrough (id_map to)
      | Goto to \<Rightarrow> map_option Goto (id_map to)
      | Check marked blank \<Rightarrow>
          (case (id_map marked, id_map blank) of
             (Some m, Some b) \<Rightarrow> Some (Check m b)
           | _ \<Rightarrow> None)
      | Return \<Rightarrow> Some (Goto cont)
      | Halt \<Rightarrow> Some Halt
      | TailCall _ \<Rightarrow> None)"

definition clone_block :: "(nat \<Rightarrow> nat option) \<Rightarrow> nat \<Rightarrow> ir_block \<Rightarrow> ir_block option" where
  "clone_block id_map cont b =
     (case (id_map (b_id b), clone_term id_map cont (b_term b)) of
        (Some i, Some t) \<Rightarrow> Some (b\<lparr>b_id := i, b_labels := [], b_term := t\<rparr>)
      | _ \<Rightarrow> None)"

definition callee_ids :: "nat \<Rightarrow> ir_function \<Rightarrow> nat \<Rightarrow> nat option" where
  "callee_ids next_id g =
     map_of (rev (zip (block_ids g) (map (\<lambda>k. next_id + 1 + k) [0..<length (fn_blocks g)])))"

definition splice :: "ir_function \<Rightarrow> nat \<Rightarrow> nat \<Rightarrow> linkage \<Rightarrow> ir_function option" where
  "splice f k i cands =
     (let next_id = next_block_id f; site = fn_blocks f ! k in
      case b_ops site ! i of
        Call n line \<Rightarrow>
          (case cands n of
             None \<Rightarrow> None
           | Some g \<Rightarrow>
               (case fn_blocks g of
                  [] \<Rightarrow> None
                | entry # _ \<Rightarrow>
                    (case (callee_ids next_id g (b_id entry),
                           those (map (clone_block (callee_ids next_id g) next_id) (fn_blocks g))) of
                       (Some to, Some clones) \<Rightarrow>
                         (let cont = \<lparr>b_id = next_id, b_labels = [], b_line = line, b_ops = drop (i + 1) (b_ops site),
                                      b_term = b_term site, b_term_line = b_term_line site\<rparr>;
                              head = site\<lparr>b_ops := take i (b_ops site), b_term := Goto to, b_term_line := line\<rparr>
                          in Some (f\<lparr>fn_blocks := take k (fn_blocks f) @ head # clones @ cont # drop (k + 1) (fn_blocks f)\<rparr>))
                     | _ \<Rightarrow> None)))
      | _ \<Rightarrow> None)"

section \<open>The pass\<close>

partial_function (option) inline_loop :: "linkage \<Rightarrow> ir_function \<Rightarrow> nat \<Rightarrow> pass_result" where
  "inline_loop cands f changes =
     (case find_site f cands of
        None \<Rightarrow> Some (f, changes)
      | Some (k, i) \<Rightarrow>
          Option.bind (splice f k i cands) (\<lambda>f'. inline_loop cands f' (changes + 1)))"

declare inline_loop.simps [code]

fun inline_functions :: "linkage \<Rightarrow> ir_function list \<Rightarrow> nat \<Rightarrow> (ir_function list \<times> nat) option" where
  "inline_functions cands [] changes = Some ([], changes)"
| "inline_functions cands (f # fs) changes =
     (case inline_loop cands f changes of
        None \<Rightarrow> None
      | Some (f', n) \<Rightarrow> map_option (\<lambda>(fs', m). (f' # fs', m)) (inline_functions cands fs n))"

definition inline_run :: "nat option \<Rightarrow> ir_function list \<Rightarrow> (ir_function list \<times> nat) option" where
  "inline_run inline_cap fs =
     (let cap = (case inline_cap of Some c \<Rightarrow> c | None \<Rightarrow> INLINE_MAX_OPS)
      in inline_functions (candidates fs cap) fs 0)"

section \<open>What a splice does\<close>

text \<open>The result, with the parts named.\<close>

definition spliced :: "ir_function \<Rightarrow> ir_function \<Rightarrow> ir_function \<Rightarrow> bool" where
  "spliced g f f' \<longleftrightarrow> fn_name f' = fn_name f \<and>
     (\<exists>xs site ys pre l post head clones cont ids entry es to.
        fn_blocks f = xs @ site # ys \<and> b_ops site = pre @ Call (fn_name g) l # post
        \<and> fn_blocks g = entry # es \<and> ids (b_id entry) = Some to
        \<and> those (map (clone_block ids (b_id cont)) (fn_blocks g)) = Some clones
        \<and> fn_blocks f' = xs @ head # clones @ cont # ys
        \<and> b_id head = b_id site \<and> point_of head = (pre, Goto to)
        \<and> point_of cont = (post, b_term site)
        \<and> distinct (block_ids f') \<and> dom ids \<subseteq> set (block_ids g))"

lemma site_op_found:
  "site_op f cands j ops = Some i \<Longrightarrow> \<exists>pre op post. ops = pre @ op # post \<and> i = j + length pre \<and> is_site f cands op"
proof (induction ops arbitrary: j)
  case (Cons a ops)
  show ?case
  proof (cases "is_site f cands a")
    case True
    then show ?thesis using Cons.prems by (intro exI [of _ "[]"]) auto
  next
    case False
    then obtain pre op post where "ops = pre @ op # post" "i = j + 1 + length pre" "is_site f cands op"
      using Cons by fastforce
    then show ?thesis by (intro exI [of _ "a # pre"] exI [of _ op] exI [of _ post]) simp
  qed
qed simp

lemma site_block_found:
  "site_block f cands k bs = Some (n, i) \<Longrightarrow>
     \<exists>xs b ys. bs = xs @ b # ys \<and> n = k + length xs \<and> site_op f cands 0 (b_ops b) = Some i"
proof (induction bs arbitrary: k)
  case (Cons c bs)
  show ?case
  proof (cases "site_op f cands 0 (b_ops c)")
    case None
    then obtain xs b ys where "bs = xs @ b # ys" "n = k + 1 + length xs" "site_op f cands 0 (b_ops b) = Some i"
      using Cons by fastforce
    then show ?thesis by (intro exI [of _ "c # xs"] exI [of _ b] exI [of _ ys]) simp
  next
    case (Some j)
    then show ?thesis using Cons.prems by (intro exI [of _ "[]"]) auto
  qed
qed simp

lemma find_site_found:
  assumes "find_site f cands = Some (k, i)"
  shows "\<exists>xs site ys pre n l post g. fn_blocks f = xs @ site # ys \<and> k = length xs
    \<and> b_ops site = pre @ Call n l # post \<and> i = length pre \<and> n \<noteq> fn_name f \<and> cands n = Some g"
proof -
  obtain xs b ys where b: "fn_blocks f = xs @ b # ys" "k = length xs" "site_op f cands 0 (b_ops b) = Some i"
    using site_block_found [OF assms [unfolded find_site_def]] by auto
  obtain pre op post where o: "b_ops b = pre @ op # post" "i = length pre" "is_site f cands op"
    using site_op_found [OF b(3)] by auto
  obtain n l g where "op = Call n l" "n \<noteq> fn_name f" "cands n = Some g"
    using o(3) by (cases op) (auto simp: is_site_def)
  then show ?thesis using b o by blast
qed

lemma those_Some: "those xs = Some ys \<longleftrightarrow> xs = map Some ys"
  by (induction xs arbitrary: ys) (auto split: option.splits)

lemma candidates_Some:
  "candidates fs cap n = Some g \<Longrightarrow> g \<in> set fs \<and> fn_name g = n \<and> is_candidate fs cap g"
  by (auto simp: candidates_def dest!: map_of_SomeD)

lemma callee_ids_at:
  assumes "distinct (block_ids g)" "k < length (fn_blocks g)"
  shows "callee_ids m g (b_id (fn_blocks g ! k)) = Some (m + 1 + k)"
proof -
  let ?z = "zip (block_ids g) (map (\<lambda>k. m + 1 + k) [0..<length (fn_blocks g)])"
  have len: "length (block_ids g) = length (fn_blocks g)" by (simp add: block_ids_def)
  have "distinct (map fst (rev ?z))" using assms(1) by (simp add: rev_map [symmetric] len)
  moreover have "(b_id (fn_blocks g ! k), m + 1 + k) \<in> set (rev ?z)"
    using assms(2) len by (auto simp: set_zip block_ids_def intro!: exI [of _ k])
  ultimately show ?thesis unfolding callee_ids_def by (metis map_of_is_SomeI)
qed

lemma callee_ids_Some:
  assumes "distinct (block_ids g)" "callee_ids m g j = Some i"
  shows "\<exists>k < length (fn_blocks g). j = b_id (fn_blocks g ! k) \<and> i = m + 1 + k"
  using map_of_SomeD [OF assms(2) [unfolded callee_ids_def]] by (auto simp: set_zip block_ids_def)

text \<open>A leaf's terminators can be cloned.\<close>

lemma clone_term_total:
  assumes "\<forall>i \<in> set (targets t). ids i \<noteq> None" "\<forall>n. t \<noteq> TailCall n"
  shows "\<exists>t'. clone_term ids cont t = Some t'"
  using assms by (cases t) (auto simp: clone_term_def)

lemma clone_term_Some:
  assumes "clone_term ids cont t = Some t'"
  shows "(\<forall>mf. goes t' mf = (if t = Return then Some cont else Option.bind (goes t mf) ids))
    \<and> tail_callee t' = None \<and> tail_callee t = None \<and> (t \<noteq> Return \<longrightarrow> leaves f t' s = leaves f t s)
    \<and> set (targets t') \<subseteq> insert cont {i. \<exists>j \<in> set (targets t). ids j = Some i}"
  using assms by (cases t) (auto simp: clone_term_def split: option.splits)

lemma clone_goes: "clone_term ids cont t = Some t' \<Longrightarrow> t \<noteq> Return \<Longrightarrow> goes t mf = Some i \<Longrightarrow> goes t' mf = ids i"
  by (cases t) (auto simp: clone_term_def split: option.splits if_splits)

lemma clone_goes_back: "clone_term ids cont t = Some t' \<Longrightarrow> t \<noteq> Return \<Longrightarrow> goes t' mf = Option.bind (goes t mf) ids"
  by (cases t) (auto simp: clone_term_def split: option.splits)

lemma clone_block_Some:
  assumes "clone_block ids cont b = Some b'"
  shows "ids (b_id b) = Some (b_id b') \<and> b_ops b' = b_ops b \<and> clone_term ids cont (b_term b) = Some (b_term b')"
  using assms by (auto simp: clone_block_def split: option.splits)

lemma clone_list:
  assumes "those (map (clone_block ids cont) bs) = Some clones"
  shows "length clones = length bs \<and> (\<forall>k < length bs. clone_block ids cont (bs ! k) = Some (clones ! k))"
proof -
  have eq: "map (clone_block ids cont) bs = map Some clones" using assms by (simp add: those_Some)
  then have len: "length clones = length bs" by (metis length_map)
  moreover have "clone_block ids cont (bs ! k) = Some (clones ! k)" if "k < length bs" for k
    using arg_cong [OF eq, of "\<lambda>xs. xs ! k"] that len by simp
  ultimately show ?thesis by blast
qed

lemma clone_ids:
  assumes "distinct (block_ids g)" "those (map (clone_block (callee_ids m g) m) (fn_blocks g)) = Some clones"
  shows "map b_id clones = map (\<lambda>k. m + 1 + k) [0..<length (fn_blocks g)]"
proof (rule nth_equalityI)
  show "length (map b_id clones) = length (map (\<lambda>k. m + 1 + k) [0..<length (fn_blocks g)])"
    using clone_list [OF assms(2)] by simp
  fix k assume "k < length (map b_id clones)"
  then have k: "k < length (fn_blocks g)" using clone_list [OF assms(2)] by simp
  then have "clone_block (callee_ids m g) m (fn_blocks g ! k) = Some (clones ! k)"
    using clone_list [OF assms(2)] by blast
  then show "map b_id clones ! k = map (\<lambda>k. m + 1 + k) [0..<length (fn_blocks g)] ! k"
    using clone_block_Some callee_ids_at [OF assms(1) k, of m] clone_list [OF assms(2)] k by fastforce
qed

lemma next_block_id_fresh: "i \<in> set (block_ids f) \<Longrightarrow> i < next_block_id f"
proof -
  assume i: "i \<in> set (block_ids f)"
  then have "fn_blocks f \<noteq> []" by (auto simp: block_ids_def)
  moreover have "i \<le> Max (set (block_ids f))" using i by (intro Max_ge) simp_all
  ultimately show ?thesis by (simp add: next_block_id_def)
qed

lemma splice_spliced:
  assumes f: "distinct (block_ids f)" and g: "distinct (block_ids g)" "fn_name g = n"
    and site: "fn_blocks f = xs @ site # ys" "k = length xs" "b_ops site = pre @ Call n l # post" "i = length pre"
      "cands n = Some g"
    and res: "splice f k i cands = Some f'"
  shows "spliced g f f'"
proof -
  let ?m = "next_block_id f" and ?ids = "callee_ids (next_block_id f) g"
  obtain entry es where e: "fn_blocks g = entry # es"
    using res site by (cases "fn_blocks g") (auto simp: splice_def Let_def nth_append)
  obtain to clones where c: "?ids (b_id entry) = Some to" "those (map (clone_block ?ids ?m) (fn_blocks g)) = Some clones"
    using res site e by (auto simp: splice_def Let_def nth_append split: option.splits)
  define cont where "cont = \<lparr>b_id = ?m, b_labels = [], b_line = l, b_ops = post, b_term = b_term site,
    b_term_line = b_term_line site\<rparr>"
  define head where "head = site\<lparr>b_ops := pre, b_term := Goto to, b_term_line := l\<rparr>"
  have f': "f' = f\<lparr>fn_blocks := xs @ head # clones @ cont # ys\<rparr>"
    using res c unfolding splice_def Let_def by (simp add: site e nth_append head_def cont_def)
  have ids: "map b_id clones = map (\<lambda>k. ?m + 1 + k) [0..<length (fn_blocks g)]" by (rule clone_ids [OF g(1) c(2)])
  have "?m \<notin> set (map b_id clones)" unfolding ids by auto
  moreover have "distinct (map b_id clones)" unfolding ids by (simp add: distinct_map inj_on_def)
  moreover have "set (map b_id clones) \<inter> set (block_ids f) = {}"
  proof -
    have "j \<notin> set (block_ids f)" if "j \<in> set (map b_id clones)" for j
      using that next_block_id_fresh [of j f] unfolding ids by auto
    then show ?thesis by blast
  qed
  moreover have "?m \<notin> set (block_ids f)" using next_block_id_fresh [of ?m f] by blast
  ultimately have "distinct (block_ids f')"
    using f unfolding f' block_ids_def site(1) by (auto simp: head_def cont_def)
  note d = this
  have h: "b_id head = b_id site" "point_of head = (pre, Goto to)" "point_of cont = (post, b_term site)" "b_id cont = ?m"
    by (simp_all add: head_def cont_def point_of_def)
  have "fn_name f' = fn_name f" "fn_blocks f' = xs @ head # clones @ cont # ys" by (simp_all add: f')
  moreover have "b_ops site = pre @ Call (fn_name g) l # post" using site(3) g(2) by simp
  moreover have "those (map (clone_block ?ids (b_id cont)) (fn_blocks g)) = Some clones" using c(2) h(4) by simp
  moreover have "dom ?ids \<subseteq> set (block_ids g)"
    using callee_ids_Some [OF g(1), of "next_block_id f"] by (fastforce simp: block_ids_def)
  ultimately show ?thesis
    unfolding spliced_def using site(1) e c(1) h(1-3) d by blast
qed

lemma splice_total:
  assumes g: "valid_fn g" "is_leaf_without_brk g"
    and site: "fn_blocks f = xs @ site # ys" "k = length xs" "b_ops site = pre @ Call n l # post" "i = length pre"
      "cands n = Some g"
  shows "\<exists>f'. splice f k i cands = Some f'"
proof -
  let ?m = "next_block_id f" and ?ids = "callee_ids (next_block_id f) g"
  have d: "distinct (block_ids g)" using g(1) by (simp add: valid_fn_def)
  obtain entry es where e: "fn_blocks g = entry # es" using g(1) by (cases "fn_blocks g") (auto simp: valid_fn_def)
  have ids: "?ids j \<noteq> None" if "j \<in> set (block_ids g)" for j
    using that callee_ids_at [OF d] by (auto simp: block_ids_def in_set_conv_nth)
  have "clone_block ?ids ?m b \<noteq> None" if b: "b \<in> set (fn_blocks g)" for b
  proof -
    have "\<exists>t'. clone_term ?ids ?m (b_term b) = Some t'"
      by (rule clone_term_total) (use b g ids in \<open>auto simp: valid_fn_def is_leaf_without_brk_def list_all_iff\<close>)
    then show ?thesis using ids [of "b_id b"] b by (auto simp: clone_block_def block_ids_def)
  qed
  then have "those (map (clone_block ?ids ?m) bs) \<noteq> None" if "set bs \<subseteq> set (fn_blocks g)" for bs
    using that by (induction bs) (auto split: option.splits)
  then have "those (map (clone_block ?ids ?m) (fn_blocks g)) \<noteq> None" by blast
  moreover have "?ids (b_id entry) \<noteq> None" using ids e by (simp add: block_ids_def)
  ultimately show ?thesis using site e by (auto simp: splice_def Let_def nth_append split: option.splits)
qed

lemma spliced_ok:
  assumes "spliced g f f'" "fn_ok f" "fn_ok g"
  shows "fn_ok f'"
proof -
  obtain xs site ys pre l post head clones cont ids entry es to where q:
    "fn_blocks f = xs @ site # ys" "b_ops site = pre @ Call (fn_name g) l # post"
    "fn_blocks g = entry # es" "ids (b_id entry) = Some to"
    "those (map (clone_block ids (b_id cont)) (fn_blocks g)) = Some clones"
    "fn_blocks f' = xs @ head # clones @ cont # ys" "b_id head = b_id site" "point_of head = (pre, Goto to)"
    "point_of cont = (post, b_term site)" "distinct (block_ids f')" "dom ids \<subseteq> set (block_ids g)"
    using assms(1) unfolding spliced_def by blast
  note cl = clone_list [OF q(5)]
  have old: "i \<in> set (block_ids f')" if "i \<in> set (block_ids f)" for i
    using that q(1,6,7) by (auto simp: block_ids_def)
  have new: "i \<in> set (block_ids f')" if j: "ids j = Some i" "j \<in> set (block_ids g)" for i j
  proof -
    obtain k where k: "k < length (fn_blocks g)" "j = b_id (fn_blocks g ! k)"
      using j(2) by (auto simp: block_ids_def in_set_conv_nth)
    then have "i = b_id (clones ! k)" using cl clone_block_Some j(1) by fastforce
    then show ?thesis using k cl q(6) by (auto simp: block_ids_def)
  qed
  have parts: "b_ops head = pre" "b_term head = Goto to" "b_ops cont = post" "b_term cont = b_term site"
    using q(8,9) by (auto simp: point_of_def)
  have cases: "b \<in> set xs \<union> set ys \<or> b = head \<or> b = cont \<or> (\<exists>k < length (fn_blocks g). b = clones ! k)"
    if "b \<in> set (fn_blocks f')" for b
    using that q(6) cl by (auto simp: in_set_conv_nth)
  have site: "site \<in> set (fn_blocks f)" and inf: "\<And>b. b \<in> set xs \<union> set ys \<Longrightarrow> b \<in> set (fn_blocks f)"
    using q(1) by auto
  have "set (targets (b_term b)) \<subseteq> set (block_ids f')" if "b \<in> set (fn_blocks f')" for b
    using cases [OF that]
  proof (elim disjE exE conjE)
    assume "b \<in> set xs \<union> set ys"
    then show ?thesis using fn_ok_targets [OF assms(2) inf] old by blast
  next
    assume "b = head"
    then show ?thesis using parts new [OF q(4)] q(3) by (simp add: block_ids_def)
  next
    assume "b = cont"
    then show ?thesis using parts fn_ok_targets [OF assms(2) site] old by auto
  next
    fix k assume k: "k < length (fn_blocks g)" "b = clones ! k"
    then have "clone_term ids (b_id cont) (b_term (fn_blocks g ! k)) = Some (b_term b)"
      using cl clone_block_Some by blast
    moreover have "set (targets (b_term (fn_blocks g ! k))) \<subseteq> set (block_ids g)"
      using fn_ok_targets [OF assms(3) nth_mem [OF k(1)]] .
    moreover have "b_id cont \<in> set (block_ids f')" using q(6) by (simp add: block_ids_def)
    ultimately show ?thesis using clone_term_Some new by blast
  qed
  moreover have "op_symbols_ok op" if "b \<in> set (fn_blocks f')" "op \<in> set (b_ops b)" for b op
    using cases [OF that(1)]
  proof (elim disjE exE conjE)
    assume "b \<in> set xs \<union> set ys"
    then show ?thesis using fn_ok_symbols [OF assms(2) inf] that(2) by blast
  next
    fix k assume k: "k < length (fn_blocks g)" "b = clones ! k"
    then have "b_ops b = b_ops (fn_blocks g ! k)" using cl clone_block_Some by blast
    then show ?thesis using fn_ok_symbols [OF assms(3) nth_mem [OF k(1)]] that(2) by simp
  qed (use parts that(2) q(2) fn_ok_symbols [OF assms(2) site] in auto)
  ultimately show ?thesis
    using q(6,10) by (auto simp: fn_ok_def valid_fn_def symbols_ok_def)
qed

section \<open>A splice is not noticed\<close>

text \<open>Where every block of the caller and of the callee has gone.\<close>

definition inlined ::
  "ir_function \<Rightarrow> ir_function \<Rightarrow> ir_function \<Rightarrow> ir_op list \<Rightarrow> u32 \<Rightarrow> ir_op list \<Rightarrow> ir_term
     \<Rightarrow> nat \<Rightarrow> nat \<Rightarrow> (nat \<Rightarrow> nat option) \<Rightarrow> bool" where
  "inlined g f f' pre l post t to cont ids \<longleftrightarrow>
     (\<forall>i b. block_at f i = Some b \<longrightarrow>
        (\<exists>b'. block_at f' i = Some b' \<and> (point_of b' = point_of b
           \<or> point_of b = (pre @ Call (fn_name g) l # post, t) \<and> point_of b' = (pre, Goto to))))
     \<and> (\<forall>p. entry_point f = Some p \<longrightarrow> entry_point f' = Some p
          \<or> p = (pre @ Call (fn_name g) l # post, t) \<and> entry_point f' = Some (pre, Goto to))
     \<and> (\<exists>b. block_at f' cont = Some b \<and> point_of b = (post, t)) \<and> set (targets t) \<subseteq> set (block_ids f)
     \<and> (\<forall>j b. block_at g j = Some b \<longrightarrow> (\<exists>i b'. ids j = Some i \<and> block_at f' i = Some b' \<and> b_ops b' = b_ops b
          \<and> clone_term ids cont (b_term b) = Some (b_term b')))
     \<and> (\<exists>b j. entry_point g = Some (point_of b) \<and> block_at g j = Some b \<and> ids j = Some to)
     \<and> (\<forall>j i. ids j = Some i \<longrightarrow> block_at g j \<noteq> None)"

lemma spliced_inlined:
  assumes "spliced g f f'" "fn_ok f" "fn_ok g"
  shows "\<exists>pre l post t to cont ids. inlined g f f' pre l post t to cont ids"
proof -
  obtain xs site ys pre l post head clones cont ids entry es to where q:
    "fn_blocks f = xs @ site # ys" "b_ops site = pre @ Call (fn_name g) l # post"
    "fn_blocks g = entry # es" "ids (b_id entry) = Some to"
    "those (map (clone_block ids (b_id cont)) (fn_blocks g)) = Some clones"
    "fn_blocks f' = xs @ head # clones @ cont # ys" "b_id head = b_id site" "point_of head = (pre, Goto to)"
    "point_of cont = (post, b_term site)" "distinct (block_ids f')" "dom ids \<subseteq> set (block_ids g)"
    using assms(1) unfolding spliced_def by blast
  note at' = block_at_Some [OF q(10)] and at = block_at_Some [OF fn_ok_distinct [OF assms(2)]]
    and atg = block_at_Some [OF fn_ok_distinct [OF assms(3)]]
  have site: "point_of site = (pre @ Call (fn_name g) l # post, b_term site)" using q(2) by (simp add: point_of_def)
  have head: "block_at f' (b_id site) = Some head" unfolding at' using q(6,7) by simp
  have "\<exists>b'. block_at f' i = Some b' \<and> (point_of b' = point_of b
     \<or> point_of b = (pre @ Call (fn_name g) l # post, b_term site) \<and> point_of b' = (pre, Goto to))"
    if b: "block_at f i = Some b" for i b
  proof (cases "b = site")
    case True
    then show ?thesis using head site q(8) b at by auto
  next
    case False
    then have "block_at f' i = Some b" using b q(1,6) unfolding at at' by auto
    then show ?thesis by simp
  qed
  moreover have "entry_point f = Some p \<longrightarrow> entry_point f' = Some p
      \<or> p = (pre @ Call (fn_name g) l # post, b_term site) \<and> entry_point f' = Some (pre, Goto to)" for p
    using q(1,6,8) site by (cases xs) (auto simp: entry_point_def)
  moreover have "\<exists>b. block_at f' (b_id cont) = Some b \<and> point_of b = (post, b_term site)"
    using q(6,9) by (intro exI [of _ cont]) (simp add: at')
  moreover have "set (targets (b_term site)) \<subseteq> set (block_ids f)"
    by (rule fn_ok_targets [OF assms(2)]) (simp add: q(1))
  moreover have "\<exists>i b'. ids j = Some i \<and> block_at f' i = Some b' \<and> b_ops b' = b_ops b
      \<and> clone_term ids (b_id cont) (b_term b) = Some (b_term b')" if b: "block_at g j = Some b" for j b
  proof -
    obtain k where k: "k < length (fn_blocks g)" "b = fn_blocks g ! k" "b_id b = j"
      using b unfolding atg by (auto simp: in_set_conv_nth)
    have c: "clone_block ids (b_id cont) b = Some (clones ! k)" "k < length clones"
      using clone_list [OF q(5)] k by simp_all
    have "clones ! k \<in> set (fn_blocks f')" using q(6) c(2) by simp
    then show ?thesis using clone_block_Some [OF c(1)] k(3) by (intro exI [of _ "b_id (clones ! k)"]) (auto simp: at')
  qed
  moreover have "\<exists>b j. entry_point g = Some (point_of b) \<and> block_at g j = Some b \<and> ids j = Some to"
    using q(3,4) by (intro exI [of _ entry] exI [of _ "b_id entry"]) (simp add: entry_point_def atg)
  moreover have "\<forall>j i. ids j = Some i \<longrightarrow> block_at g j \<noteq> None"
    using q(11) block_at_None [OF fn_ok_distinct [OF assms(3)]] by blast
  ultimately have "inlined g f f' pre l post (b_term site) to (b_id cont) ids"
    unfolding inlined_def by blast
  then show ?thesis by blast
qed

definition clone_of :: "(nat \<Rightarrow> nat option) \<Rightarrow> nat \<Rightarrow> point \<Rightarrow> point \<Rightarrow> bool" where
  "clone_of ids cont q q' \<longleftrightarrow> (\<forall>op \<in> set (fst q). leaf_op op) \<and> fst q' = fst q
     \<and> clone_term ids cont (snd q) = Some (snd q')"

lemma leaf_op_called: "leaf_op op \<Longrightarrow> called op = None"
  by (cases op) (simp_all add: leaf_op_def)

text \<open>A run of the callee, replayed in the caller.\<close>

lemma inlined_next:
  assumes "inlined g f f' pre l post t to cont ids" "is_leaf_without_brk g" "block_at g j = Some b"
  shows "\<exists>i b'. ids j = Some i \<and> block_at f' i = Some b' \<and> clone_of ids cont (point_of b) (point_of b')"
  using assms block_at_in [OF assms(3)]
  by (fastforce simp: inlined_def clone_of_def is_leaf_without_brk_def list_all_iff)

lemma inlined_entry:
  assumes "inlined g f f' pre l post t to cont ids" "is_leaf_without_brk g"
  shows "\<exists>q b'. entry_point g = Some q \<and> block_at f' to = Some b' \<and> clone_of ids cont q (point_of b')"
proof -
  obtain b j where b: "entry_point g = Some (point_of b)" "block_at g j = Some b" "ids j = Some to"
    using assms(1) unfolding inlined_def by blast
  then show ?thesis using inlined_next [OF assms b(2)] by auto
qed

lemma clone_exec:
  assumes I: "inlined g f f' pre l post t to cont ids" and leaf: "is_leaf_without_brk g" "fn_name g \<noteq> ''main''"
    and ex: "exec D E g q s r" and q: "clone_of ids cont q q'"
  shows "(\<forall>s1. r = Back s1 \<longrightarrow> reach D E f' q' s (post, t) s1) \<and> ((\<forall>s1. r \<noteq> Back s1) \<longrightarrow> exec D E f' q' s r)"
proof -
  have cont: "\<exists>b. block_at f' cont = Some b \<and> point_of b = (post, t)" using I by (simp add: inlined_def)
  have "exec D E h q s r \<Longrightarrow> h = g \<Longrightarrow> clone_of ids cont q q' \<Longrightarrow>
    (\<forall>s1. r = Back s1 \<longrightarrow> reach D E f' q' s (post, t) s1) \<and> ((\<forall>s1. r \<noteq> Back s1) \<longrightarrow> exec D E f' q' s r)" for h q q' s r
  proof (induction arbitrary: q' rule: exec.induct)
    case (exec_act op s s' h ops u r)
    then obtain u' where q': "q' = (op # ops, u')" "clone_of ids cont (ops, u) (ops, u')"
      by (cases q') (auto simp: clone_of_def)
    have "istep D (calls D E) f' q' s (Inr ((ops, u'), s'))"
      unfolding q' by (rule istep_act [OF exec_act(1,2)])
    then show ?case using exec_act.IH [OF exec_act.prems(1) q'(2)] by (auto intro: reach_next exec_step)
  next
    case (exec_fault op s e s' h ops u)
    then obtain u' where "q' = (op # ops, u')" by (cases q') (auto simp: clone_of_def)
    then show ?case using exec_fault by (auto intro: exec.exec_fault)
  next
    case (exec_goes u s i h b r)
    then obtain u' where q': "q' = ([], u')" "clone_term ids cont u = Some u'"
      by (cases q') (auto simp: clone_of_def)
    have u: "u \<noteq> Return" using exec_goes(1) by auto
    obtain i' b' where i': "ids i = Some i'" "block_at f' i' = Some b'" "clone_of ids cont (point_of b) (point_of b')"
      using inlined_next [OF I leaf(1)] exec_goes(2) exec_goes.prems(1) by blast
    have "goes u' (s_mf s) = Some i'" using clone_goes [OF q'(2) u exec_goes(1)] i'(1) by simp
    then have "istep D (calls D E) f' q' s (Inr (point_of b', s))" unfolding q' by (rule istep_goes) (rule i'(2))
    then show ?case using exec_goes.IH [OF exec_goes.prems(1) i'(3)] by (auto intro: reach_next exec_step)
  next
    case (exec_leaves h u s r)
    then obtain u' where q': "q' = ([], u')" "clone_term ids cont u = Some u'"
      by (cases q') (auto simp: clone_of_def)
    show ?case
    proof (cases "u = Return")
      case True
      then have r: "r = Back s" using exec_leaves leaf(2) by simp
      have "goes u' (s_mf s) = Some cont" using clone_term_Some [OF q'(2)] True by simp
      then have "istep D (calls D E) f' q' s (Inr ((post, t), s))"
        unfolding q' using cont istep_goes [of u' s cont f' _ D "calls D E"] by auto
      then show ?thesis using r by (simp add: reach_step)
    next
      case False
      then have u: "u = Halt" "r = Halts s" using exec_leaves by (cases u; auto)+
      then have "u' = Halt" using q'(2) by (simp add: clone_term_def)
      then show ?thesis using u(2) q'(1) by (auto intro: exec.exec_leaves)
    qed
  next
    case exec_call
    then show ?case by (auto simp: clone_of_def dest: leaf_op_called)
  next
    case exec_call_ends
    then show ?case by (auto simp: clone_of_def dest: leaf_op_called)
  next
    case exec_tail
    then show ?case by (auto simp: clone_of_def dest: clone_term_Some)
  qed
  from this [OF ex refl q] show ?thesis .
qed

text \<open>Before the splice a point has the call, after it the jump into the clone.\<close>

definition inline_fwd :: "ir_function \<Rightarrow> 'd point_rel" where
  "inline_fwd g E f f' p s p' s' \<longleftrightarrow> s' = s
     \<and> (p' = p \<or> (\<exists>pre pre2 l post t to cont ids. inlined g f f' pre l post t to cont ids
           \<and> p = (pre2 @ Call (fn_name g) l # post, t) \<and> p' = (pre2, Goto to)))"

definition inline_bwd :: "'d device \<Rightarrow> ir_function \<Rightarrow> 'd point_rel" where
  "inline_bwd D g E f' f p' s' p s \<longleftrightarrow> set (targets (snd p)) \<subseteq> set (block_ids f)
     \<and> (s' = s \<and> p' = p
        \<or> (\<exists>pre pre2 l post t to cont ids. inlined g f f' pre l post t to cont ids
             \<and> (s' = s \<and> p = (pre2 @ Call (fn_name g) l # post, t) \<and> p' = (pre2, Goto to)
                \<or> p = (Call (fn_name g) l # post, t)
                  \<and> (\<exists>q. clone_of ids cont q p' \<and> (\<forall>r. exec D E g q s' r \<longrightarrow> calls D E (fn_name g) s r)))))"

definition inline_change :: "ir_function \<Rightarrow> ir_function \<Rightarrow> ir_function \<Rightarrow> bool" where
  "inline_change g f f' \<longleftrightarrow> fn_ok f \<and> fn_ok g \<and> fn_name f' = fn_name f
     \<and> (\<exists>pre l post t to cont ids. inlined g f f' pre l post t to cont ids)"

lemma inline_enters: "enters G (inline_change g) (inline_fwd g)"
proof (rule entersI)
  fix f f' p assume T: "inline_change g f f'" and p: "entry_point f = Some p"
  then obtain pre l post t to cont ids where I: "inlined g f f' pre l post t to cont ids"
    unfolding inline_change_def by blast
  then consider "entry_point f' = Some p"
    | "p = (pre @ Call (fn_name g) l # post, t)" "entry_point f' = Some (pre, Goto to)"
    using p unfolding inlined_def by blast
  then show "\<exists>p'. entry_point f' = Some p' \<and> (\<forall>E s. G s \<longrightarrow> inline_fwd g E f f' p s p' s)"
    using I unfolding inline_fwd_def by cases blast+
qed

lemma entry_targets: "fn_ok f \<Longrightarrow> entry_point f = Some p \<Longrightarrow> set (targets (snd p)) \<subseteq> set (block_ids f)"
  using fn_ok_targets [of f "hd (fn_blocks f)"] by (cases "fn_blocks f") (auto simp: entry_point_def)

lemma inline_enters_back: "enters G (\<lambda>f' f. inline_change g f f') (inline_bwd D g)"
proof (rule entersI)
  fix f' f p' assume T: "inline_change g f f'" and p': "entry_point f' = Some p'"
  then obtain pre l post t to cont ids where I: "inlined g f f' pre l post t to cont ids" and f: "fn_ok f"
    unfolding inline_change_def by blast
  obtain p where p: "entry_point f = Some p"
    using fn_ok_nonempty [OF f] by (cases "fn_blocks f") (auto simp: entry_point_def)
  note tg = entry_targets [OF f p]
  from I consider "entry_point f' = Some p"
    | "p = (pre @ Call (fn_name g) l # post, t)" "entry_point f' = Some (pre, Goto to)"
    using p unfolding inlined_def by blast
  then have "inline_bwd D g E f' f p' s p s" for E s
  proof cases
    case 1
    then show ?thesis using p' tg by (simp add: inline_bwd_def)
  next
    case 2
    then have "p' = (pre, Goto to)" using p' by simp
    then show ?thesis using I 2(1) tg unfolding inline_bwd_def by blast
  qed
  then show "\<exists>p. entry_point f = Some p \<and> (\<forall>E s. G s \<longrightarrow> inline_bwd D g E f' f p' s p s)" using p by blast
qed

lemma inline_at_fwd:
  assumes E': "E' (fn_name g) = Some g" and leaf: "is_leaf_without_brk g" "fn_name g \<noteq> ''main''"
  shows "simulates_at E E' D (\<lambda>_. True) (inline_change g) (inline_fwd g)"
proof (rule simulates_atI)
  fix C f f' p x and s s' :: "'a ir_state" and p'
  assume T: "inline_change g f f'" and K: "inline_fwd g E' f f' p s p' s'"
    and C: "call_part D (\<lambda>_. True) E E' C" and st: "istep D C f p s x"
  note C' = call_partD(2) [OF C TrueI]
  obtain ops t where p: "p = (ops, t)" by (cases p)
  obtain pre1 l1 post1 t1 to1 cont1 ids1 where I1: "inlined g f f' pre1 l1 post1 t1 to1 cont1 ids1"
    and name: "fn_name f' = fn_name f" using T unfolding inline_change_def by blast
  have s': "s' = s" using K by (simp add: inline_fwd_def)
  let ?K = "inline_fwd g E' f f'"
  from K consider (same) "p' = (ops, t)"
    | (ahead) pre pre2 l post to cont ids where "inlined g f f' pre l post t to cont ids"
      "ops = pre2 @ Call (fn_name g) l # post" "p' = (pre2, Goto to)"
    unfolding inline_fwd_def p by blast
  then show "matched D E' ?K f' p' s' x"
  proof cases
    case same
    show ?thesis
    proof (cases ops)
      case Nil
      show ?thesis unfolding s' same Nil
      proof (rule matched_term [OF st [unfolded p Nil] refl leaves_name [OF name] C'])
        fix i b assume i: "goes t (s_mf s) = Some i" "block_at f i = Some b"
        obtain b' where b': "block_at f' i = Some b'" "point_of b' = point_of b
            \<or> point_of b = (pre1 @ Call (fn_name g) l1 # post1, t1) \<and> point_of b' = (pre1, Goto to1)"
          using I1 i(2) unfolding inlined_def by blast
        have "?K (point_of b) s (point_of b') s" using b'(2) I1 unfolding inline_fwd_def by metis
        then show "matched D E' ?K f' ([], t) s (Inr (point_of b, s))"
          by (rule matched_step [OF istep_goes [where b = b', OF i(1) b'(1)]])
      qed simp
    next
      case (Cons op rest)
      show ?thesis unfolding s' same Cons
        by (rule matched_op [OF st [unfolded p Cons] same_instr_refl C']) (simp_all add: inline_fwd_def)
    qed
  next
    case ahead
    show ?thesis
    proof (cases pre2)
      case Nil
      obtain q b' where q: "entry_point g = Some q" "block_at f' to = Some b'" "clone_of ids cont q (point_of b')"
        using inlined_entry [OF ahead(1) leaf(1)] by blast
      have go: "reach D E' f' ([], Goto to) s (point_of b') s"
        by (rule reach_step [OF istep_goes [OF _ q(2)]]) simp
      have run: "(\<forall>s1. r = Back s1 \<longrightarrow> reach D E' f' (point_of b') s (post, t) s1)
          \<and> ((\<forall>s1. r \<noteq> Back s1) \<longrightarrow> exec D E' f' (point_of b') s r)" if "C (fn_name g) s r" for r
      proof -
        have "exec D E' g q s r" using C' [OF that] E' q(1) by (simp add: calls_def callee_of_def)
        then show ?thesis by (rule clone_exec [OF ahead(1) leaf _ q(3)])
      qed
      have ops: "ops = Call (fn_name g) l # post" using ahead(2) Nil by simp
      show ?thesis unfolding s' ahead(3) Nil
      proof (rule istep_opE [OF st [unfolded p ops]])
        fix n s1 assume x: "x = Inr ((post, t), s1)" "called (Call (fn_name g) l) = Some n" "C n s (Back s1)"
        have "reach D E' f' (point_of b') s (post, t) s1" using run [of "Back s1"] x by simp
        moreover have "?K (post, t) s1 (post, t) s1" by (simp add: inline_fwd_def)
        ultimately show "matched D E' ?K f' ([], Goto to) s x"
          unfolding x(1) matched_def sum.case prod.case using reach_trans [OF go] by blast
      next
        fix n r assume x: "x = Inl r" "called (Call (fn_name g) l) = Some n" "C n s r" "\<forall>s'. r \<noteq> Back s'"
        have "exec D E' f' (point_of b') s r" using run [of r] x by simp
        then show "matched D E' ?K f' ([], Goto to) s x" unfolding x(1) by (intro matched_exec exec_reach [OF go])
      qed simp_all
    next
      case (Cons op rest)
      show ?thesis unfolding s' ahead(3) Cons
        by (rule matched_op [OF st [unfolded p ahead(2) Cons append_Cons] same_instr_refl C'])
          (use ahead in \<open>auto simp: inline_fwd_def\<close>)
    qed
  qed
qed

text \<open>A step within the clone: the caller before the splice waits at its call, or the call is over.\<close>

lemma clone_step_back:
  assumes I: "inlined g f f' pre l post t to cont ids" and leaf: "is_leaf_without_brk g" "fn_name g \<noteq> ''main''"
    and q: "clone_of ids cont q p'" and run: "\<forall>r. exec D E g q s' r \<longrightarrow> calls D E (fn_name g) s r"
    and tg: "set (targets t) \<subseteq> set (block_ids f)" and st: "istep D C f' p' s' x"
  shows "matched D E (inline_bwd D g E f' f) f (Call (fn_name g) l # post, t) s x"
proof -
  obtain ops u u' where p': "q = (ops, u)" "p' = (ops, u')" "clone_term ids cont u = Some u'"
    using q by (cases q; cases p') (auto simp: clone_of_def)
  have inside: "inline_bwd D g E f' f p2' s2 (Call (fn_name g) l # post, t) s"
    if "clone_of ids cont q2 p2'" "\<And>r. exec D E g q2 s2 r \<Longrightarrow> exec D E g q s' r" for q2 p2' s2
  proof -
    have "\<forall>r. exec D E g q2 s2 r \<longrightarrow> calls D E (fn_name g) s r" using that(2) run by blast
    then show ?thesis using that(1) I tg unfolding inline_bwd_def
      by (intro conjI disjI2 exI [of _ pre] exI [of _ "[]"] exI [of _ l] exI [of _ post] exI [of _ t]
          exI [of _ to] exI [of _ cont] exI [of _ ids] exI [of _ q2]) simp_all
  qed
  show ?thesis
  proof (cases ops)
    case (Cons op rest)
    have op: "called op = None" using q p' Cons by (simp add: clone_of_def leaf_op_called)
    show ?thesis
    proof (rule istep_opE [OF st [unfolded p' Cons]])
      fix s1 assume x: "x = Inr ((rest, u'), s1)" "act D op s' = Inr s1"
      have "clone_of ids cont (rest, u) (rest, u')" using q p' Cons by (simp add: clone_of_def)
      moreover have "exec D E g q s' r" if "exec D E g (rest, u) s1 r" for r
        unfolding p' Cons using op x(2) that by (rule exec_act)
      ultimately show ?thesis unfolding x(1) by (intro matched_stay inside)
    next
      fix e s1 assume x: "x = Inl (Faults e s1)" "act D op s' = Inl (e, s1)"
      have "exec D E g q s' (Faults e s1)" unfolding p' Cons using op x(2) by (rule exec_fault)
      then have "calls D E (fn_name g) s (Faults e s1)" using run by blast
      then show ?thesis unfolding x(1) by (intro matched_end istep_Call) simp_all
    qed (use op in simp_all)
  next
    case Nil
    show ?thesis
    proof (cases "u = Return")
      case True
      then have u': "u' = Goto cont" using p'(3) by (simp add: clone_term_def)
      obtain b where b: "block_at f' cont = Some b" "point_of b = (post, t)" using I unfolding inlined_def by blast
      then have x: "x = Inr ((post, t), s')" using st unfolding p' Nil u' by (elim istep_termE) simp_all
      have "exec D E g q s' (Back s')" unfolding p' Nil True using leaf(2) by (intro exec_leaves) simp
      then have "istep D (calls D E) f (Call (fn_name g) l # post, t) s (Inr ((post, t), s'))"
        using run by (intro istep_Call) blast
      then show ?thesis unfolding x by (rule matched_step) (simp add: inline_bwd_def tg)
    next
      case False
      note u = clone_term_Some [OF p'(3)]
      show ?thesis
      proof (rule istep_termE [OF st [unfolded p' Nil]])
        fix i' b' assume x: "x = Inr (point_of b', s')" "goes u' (s_mf s') = Some i'" "block_at f' i' = Some b'"
        obtain i where i: "goes u (s_mf s') = Some i" "ids i = Some i'"
          using clone_goes_back [OF p'(3) False] x(2) by (auto simp: bind_eq_Some_conv)
        obtain b where b: "block_at g i = Some b" using I i(2) unfolding inlined_def by blast
        then have "clone_of ids cont (point_of b) (point_of b')" using inlined_next [OF I leaf(1)] i(2) x(3) by fastforce
        moreover have "exec D E g q s' r" if "exec D E g (point_of b) s' r" for r
          unfolding p' Nil using i(1) b that by (rule exec_goes)
        ultimately show ?thesis unfolding x(1) by (intro matched_stay inside)
      next
        fix n r assume "tail_callee u' = Some n"
        then show ?thesis using u by simp
      next
        fix r assume x: "x = Inl r" "leaves f' u' s' = Some r"
        then have "u = Halt" "r = Halts s'" using p'(3) False by (cases u; auto simp: clone_term_def split: option.splits)+
        then have "exec D E g q s' r" unfolding p' Nil by (intro exec_leaves) simp
        then have "calls D E (fn_name g) s r" using run by blast
        then show ?thesis unfolding x(1) using \<open>r = Halts s'\<close> by (intro matched_end istep_Call) simp_all
      qed
    qed
  qed
qed

lemma inline_at_bwd:
  assumes E: "E (fn_name g) = Some g" and leaf: "is_leaf_without_brk g" "fn_name g \<noteq> ''main''"
  shows "simulates_at E' E D (\<lambda>_. True) (\<lambda>f' f. inline_change g f f') (inline_bwd D g)"
proof (rule simulates_atI)
  fix C f' f p' x and s' s :: "'a ir_state" and p
  assume T: "inline_change g f f'" and K: "inline_bwd D g E f' f p' s' p s"
    and C: "call_part D (\<lambda>_. True) E' E C" and st0: "istep D C f' p' s' x"
  note C' = call_partD(2) [OF C TrueI]
  have st: "istep D (calls D E) f' p' s' x" by (rule istep_mono [OF st0 C'])
  obtain ops t where p: "p = (ops, t)" by (cases p)
  obtain pre1 l1 post1 t1 to1 cont1 ids1 where I1: "inlined g f f' pre1 l1 post1 t1 to1 cont1 ids1"
    and f: "fn_name f' = fn_name f" "fn_ok f" using T unfolding inline_change_def by blast
  have tg: "set (targets t) \<subseteq> set (block_ids f)" using K p by (simp add: inline_bwd_def)
  let ?K = "inline_bwd D g E f' f"
  from K consider (same) "p' = (ops, t)" "s' = s"
    | (ahead) pre pre2 l post to cont ids where "inlined g f f' pre l post t to cont ids" "s' = s"
      "ops = pre2 @ Call (fn_name g) l # post" "p' = (pre2, Goto to)"
    | (clone) pre l post to cont ids q where "inlined g f f' pre l post t to cont ids"
      "ops = Call (fn_name g) l # post" "clone_of ids cont q p'" "\<forall>r. exec D E g q s' r \<longrightarrow> calls D E (fn_name g) s r"
    unfolding inline_bwd_def p by blast
  then show "matched D E ?K f p s x"
  proof cases
    case same
    show ?thesis
    proof (cases ops)
      case Nil
      show ?thesis unfolding p Nil
      proof (rule matched_term [OF st [unfolded same Nil] refl leaves_name [OF f(1) [symmetric]]])
        fix i b' assume i: "goes t (s_mf s) = Some i" "block_at f' i = Some b'"
        have "i \<in> set (block_ids f)" using goes_targets [OF i(1)] tg by blast
        then obtain b where b: "block_at f i = Some b"
          using block_at_None [OF fn_ok_distinct [OF f(2)], of i] by auto
        have b': "point_of b' = point_of b
            \<or> point_of b = (pre1 @ Call (fn_name g) l1 # post1, t1) \<and> point_of b' = (pre1, Goto to1)"
          using I1 b i(2) unfolding inlined_def by fastforce
        have "set (targets (b_term b)) \<subseteq> set (block_ids f)" by (rule fn_ok_targets [OF f(2) block_at_in [OF b]])
        then have "?K (point_of b') s (point_of b) s" using b' I1 unfolding inline_bwd_def by (metis point_of_parts(2))
        then show "matched D E ?K f ([], t) s (Inr (point_of b', s))"
          by (rule matched_step [OF istep_goes [where b = b, OF i(1) b]])
      qed
    next
      case (Cons op rest)
      show ?thesis unfolding p Cons
        by (rule matched_op [OF st [unfolded same Cons] same_instr_refl]) (simp_all add: inline_bwd_def tg)
    qed
  next
    case ahead
    show ?thesis
    proof (cases pre2)
      case Nil
      obtain q b' where q: "entry_point g = Some q" "block_at f' to = Some b'" "clone_of ids cont q (point_of b')"
        using inlined_entry [OF ahead(1) leaf(1)] by blast
      have x: "x = Inr (point_of b', s)" using st q(2) unfolding ahead(2,4) Nil by (elim istep_termE) simp_all
      have "calls D E (fn_name g) s r" if "exec D E g q s r" for r
        using that E q(1) by (auto simp: calls_def callee_of_def)
      then have "?K (point_of b') s (ops, t) s"
        using ahead(1,3) Nil q(3) tg unfolding inline_bwd_def by (metis append_Nil snd_conv)
      then show ?thesis unfolding x p by (rule matched_stay)
    next
      case (Cons op rest)
      have K1: "?K (rest, Goto to) s1 (rest @ Call (fn_name g) l # post, t) s1" for s1
        using ahead(1) tg unfolding inline_bwd_def by (metis snd_conv)
      show ?thesis unfolding p ahead(3) Cons append_Cons
        by (rule matched_op [OF st [unfolded ahead(2,4) Cons] same_instr_refl]) (simp_all add: K1)
    qed
  next
    case clone
    show ?thesis unfolding p clone(2)
      by (rule clone_step_back [OF clone(1) leaf clone(3,4) tg st])
  qed
qed

section \<open>The whole pass\<close>

definition leaf_candidates :: "linkage \<Rightarrow> bool" where
  "leaf_candidates cands \<longleftrightarrow>
     (\<forall>n g. cands n = Some g \<longrightarrow> fn_name g = n \<and> fn_ok g \<and> is_leaf_without_brk g \<and> n \<noteq> ''main'')"

lemma leaf_candidatesD:
  "leaf_candidates cands \<Longrightarrow> cands n = Some g \<Longrightarrow> fn_name g = n \<and> fn_ok g \<and> is_leaf_without_brk g \<and> n \<noteq> ''main''"
  by (simp add: leaf_candidates_def)

lemma linked_other: "n \<noteq> fn_name f \<Longrightarrow> fn_name f' = fn_name f \<Longrightarrow> linked rest (fs @ f # gs) n = linked rest (fs @ f' # gs) n"
  by (induction fs) (auto simp: linked_def)

lemma splice_same_calls:
  assumes E: "linked rest (fs @ f # gs) (fn_name g) = Some g" and g: "fn_ok g" "is_leaf_without_brk g" "fn_name g \<noteq> ''main''"
    and f: "fn_ok f" "fn_name g \<noteq> fn_name f" and sp: "spliced g f f'"
  shows "same_calls D (\<lambda>_. True) (linked rest (fs @ f # gs)) (linked rest (fs @ f' # gs))"
proof -
  have name: "fn_name f' = fn_name f" using sp by (simp add: spliced_def)
  have E': "linked rest (fs @ f' # gs) (fn_name g) = Some g" using E linked_other [OF f(2) name] by metis
  have T: "inline_change g f f'"
    using spliced_inlined [OF sp f(1) g(1)] name f(1) g(1) by (auto simp: inline_change_def)
  have "list_all2 (\<lambda>f f'. fn_name f' = fn_name f \<and> (f' = f \<or> inline_change g f f')) (fs @ f # gs) (fs @ f' # gs)"
    using T name by (intro list_all2_appendI) (auto intro: list.rel_refl)
  from same_calls_at [OF keeps_True transformed_linked [OF this] inline_enters
      inline_at_fwd [where E' = "linked rest (fs @ f' # gs)", OF E' g(2,3)] inline_enters_back
      inline_at_bwd [where E = "linked rest (fs @ f # gs)", OF E g(2,3)]]
  show ?thesis .
qed

definition calls_left :: "ir_function \<Rightarrow> nat" where
  "calls_left f = sum_list (map (\<lambda>b. length (filter (\<lambda>op. called op \<noteq> None) (b_ops b))) (fn_blocks f))"

lemma spliced_calls_left:
  assumes "spliced g f f'" "is_leaf_without_brk g"
  shows "calls_left f' < calls_left f"
proof -
  obtain xs site ys pre l post head clones cont ids entry es to where q:
    "fn_blocks f = xs @ site # ys" "b_ops site = pre @ Call (fn_name g) l # post"
    "fn_blocks g = entry # es" "ids (b_id entry) = Some to"
    "those (map (clone_block ids (b_id cont)) (fn_blocks g)) = Some clones"
    "fn_blocks f' = xs @ head # clones @ cont # ys" "point_of head = (pre, Goto to)"
    "point_of cont = (post, b_term site)"
    using assms(1) unfolding spliced_def by blast
  have "filter (\<lambda>op. called op \<noteq> None) (b_ops b) = []" if b: "b \<in> set clones" for b
  proof -
    obtain k where k: "k < length (fn_blocks g)" "b = clones ! k"
      using b clone_list [OF q(5)] by (auto simp: in_set_conv_nth)
    then have "b_ops b = b_ops (fn_blocks g ! k)" using clone_list [OF q(5)] clone_block_Some by blast
    moreover have "\<forall>op \<in> set (b_ops (fn_blocks g ! k)). leaf_op op"
      using assms(2) nth_mem [OF k(1)] by (simp add: is_leaf_without_brk_def list_all_iff)
    ultimately show ?thesis by (auto simp: filter_empty_conv dest: leaf_op_called)
  qed
  then have "sum_list (map (\<lambda>b. length (filter (\<lambda>op. called op \<noteq> None) (b_ops b))) clones) = 0" by simp
  moreover have "b_ops head = pre" "b_ops cont = post" using q(7,8) by (simp_all add: point_of_def)
  ultimately show ?thesis using q(2) by (simp add: calls_left_def q(1,6))
qed

lemma found_splice:
  assumes "leaf_candidates cands" "fn_ok f" "find_site f cands = Some (k, i)"
  shows "\<exists>g f'. cands (fn_name g) = Some g \<and> fn_name g \<noteq> fn_name f \<and> splice f k i cands = Some f' \<and> spliced g f f'"
proof -
  obtain xs site ys pre n l post g where q: "fn_blocks f = xs @ site # ys" "k = length xs"
    "b_ops site = pre @ Call n l # post" "i = length pre" "n \<noteq> fn_name f" "cands n = Some g"
    using find_site_found [OF assms(3)] by blast
  have g: "fn_name g = n" "fn_ok g" "is_leaf_without_brk g" using leaf_candidatesD [OF assms(1) q(6)] by simp_all
  have "valid_fn g" using g(2) by (simp add: fn_ok_def)
  from splice_total [where cands = cands, OF this g(3) q(1-4,6)] obtain f' where f': "splice f k i cands = Some f'" ..
  have "spliced g f f'"
    by (rule splice_spliced [OF fn_ok_distinct [OF assms(2)] fn_ok_distinct [OF g(2)] g(1) q(1-4) q(6) f'])
  then show ?thesis using g(1) q(5,6) f' by blast
qed

lemma inline_loop_returns:
  "leaf_candidates cands \<Longrightarrow> fn_ok f \<Longrightarrow> \<exists>r. inline_loop cands f n = Some r"
proof (induction "calls_left f" arbitrary: f n rule: less_induct)
  case less
  show ?case
  proof (cases "find_site f cands")
    case None
    then show ?thesis by (simp add: inline_loop.simps)
  next
    case (Some ki)
    obtain k i where ki: "ki = (k, i)" by (cases ki)
    obtain g f' where g: "cands (fn_name g) = Some g" "splice f k i cands = Some f'" "spliced g f f'"
      using found_splice [OF less.prems Some [unfolded ki]] by blast
    note leaf = leaf_candidatesD [OF less.prems(1) g(1)]
    have "calls_left f' < calls_left f" using spliced_calls_left [OF g(3)] leaf by blast
    moreover have "fn_ok f'" using spliced_ok [OF g(3) less.prems(2)] leaf by blast
    ultimately obtain r where "inline_loop cands f' (n + 1) = Some r" using less.hyps less.prems(1) by blast
    then show ?thesis using Some ki g(2) by (subst inline_loop.simps) simp
  qed
qed

lemma inline_loop_result:
  assumes "leaf_candidates cands"
  shows "inline_loop cands f n = Some (f', n') \<Longrightarrow> fn_ok f \<Longrightarrow>
    (\<And>m g. cands m = Some g \<Longrightarrow> m \<noteq> fn_name f \<Longrightarrow> linked rest (fs @ f # gs) m = Some g) \<Longrightarrow>
    fn_ok f' \<and> fn_name f' = fn_name f \<and> same_calls D (\<lambda>_. True) (linked rest (fs @ f # gs)) (linked rest (fs @ f' # gs))"
proof (induction "calls_left f" arbitrary: f n rule: less_induct)
  case less
  show ?case
  proof (cases "find_site f cands")
    case None
    then show ?thesis using less.prems by (simp add: inline_loop.simps)
  next
    case (Some ki)
    obtain k i where ki: "ki = (k, i)" by (cases ki)
    obtain g f1 where g: "cands (fn_name g) = Some g" "fn_name g \<noteq> fn_name f" "splice f k i cands = Some f1" "spliced g f f1"
      using found_splice [OF assms less.prems(2) Some [unfolded ki]] by blast
    note leaf = leaf_candidatesD [OF assms g(1)]
    have name: "fn_name f1 = fn_name f" using g(4) by (simp add: spliced_def)
    have r: "inline_loop cands f1 (n + 1) = Some (f', n')"
      using less.prems(1) Some ki g(3) by (subst (asm) inline_loop.simps) simp
    have ok: "fn_ok f1" using spliced_ok [OF g(4) less.prems(2)] leaf by blast
    have "linked rest (fs @ f1 # gs) m = Some h" if "cands m = Some h" "m \<noteq> fn_name f1" for m h
      using that less.prems(3) linked_other [of m f f1 rest fs gs] name by simp
    with less.hyps [OF spliced_calls_left [OF g(4)] r ok] leaf
    have "fn_ok f' \<and> fn_name f' = fn_name f1
        \<and> same_calls D (\<lambda>_. True) (linked rest (fs @ f1 # gs)) (linked rest (fs @ f' # gs))" by blast
    moreover have "same_calls D (\<lambda>_. True) (linked rest (fs @ f # gs)) (linked rest (fs @ f1 # gs))"
      by (rule splice_same_calls [OF less.prems(3) [OF g(1,2)] _ _ _ less.prems(2) g(2,4)]) (use leaf in blast)+
    ultimately show ?thesis using name by (auto intro: same_calls_trans)
  qed
qed

text \<open>A leaf has no site of its own, so a candidate is never changed.\<close>

lemma leaf_no_site:
  assumes "is_leaf_without_brk f"
  shows "find_site f cands = None"
proof (cases "find_site f cands")
  case (Some ki)
  then obtain xs site ys pre n l post where "fn_blocks f = xs @ site # ys" "b_ops site = pre @ Call n l # post"
    using find_site_found [of f cands "fst ki" "snd ki"] by auto
  then show ?thesis using assms by (simp add: is_leaf_without_brk_def leaf_op_def)
qed simp

lemma linked_find:
  "distinct (map fn_name (fs @ f # gs)) \<Longrightarrow> linked rest (fs @ f # gs) (fn_name f) = Some f"
  by (induction fs) (auto simp: linked_def)

lemma inline_functions_result:
  assumes "leaf_candidates cands"
  shows "inline_functions cands gs n = Some (gs', n') \<Longrightarrow> \<forall>f \<in> set gs. fn_ok f \<Longrightarrow> distinct (map fn_name (fs @ gs)) \<Longrightarrow>
    (\<And>m g. cands m = Some g \<Longrightarrow> linked rest (fs @ gs) m = Some g) \<Longrightarrow>
    (\<forall>f \<in> set gs'. fn_ok f) \<and> map fn_name gs' = map fn_name gs
      \<and> same_calls D (\<lambda>_. True) (linked rest (fs @ gs)) (linked rest (fs @ gs'))"
proof (induction gs arbitrary: fs gs' n n')
  case (Cons f gs)
  obtain f' k gs1 m where r: "inline_loop cands f n = Some (f', k)" "inline_functions cands gs k = Some (gs1, m)"
    "gs' = f' # gs1" using Cons.prems(1) by (auto split: option.splits)
  have f: "fn_ok f' \<and> fn_name f' = fn_name f
      \<and> same_calls D (\<lambda>_. True) (linked rest (fs @ f # gs)) (linked rest (fs @ f' # gs))"
    by (rule inline_loop_result [OF assms r(1)]) (use Cons.prems in auto)
  have res: "linked rest ((fs @ [f']) @ gs) j = Some g" if c: "cands j = Some g" for j g
  proof (cases "j = fn_name f")
    case True
    have "g = f" using Cons.prems(4) [OF c] linked_find [OF Cons.prems(3)] True by simp
    then have "is_leaf_without_brk f" using leaf_candidatesD [OF assms c] by simp
    then have "f' = f" using r(1) leaf_no_site [of f cands] by (simp add: inline_loop.simps)
    then show ?thesis using Cons.prems(4) [OF c] by simp
  next
    case False
    then show ?thesis using Cons.prems(4) [OF c] linked_other [of j f f' rest fs gs] f by simp
  qed
  have "(\<forall>f \<in> set gs1. fn_ok f) \<and> map fn_name gs1 = map fn_name gs
      \<and> same_calls D (\<lambda>_. True) (linked rest ((fs @ [f']) @ gs)) (linked rest ((fs @ [f']) @ gs1))"
    by (rule Cons.IH [OF r(2)]) (use Cons.prems f res in auto)
  then show ?case using f r(3) by (auto intro: same_calls_trans)
qed simp

text \<open>The candidates the pass collects are such leaves, and the module's own functions.\<close>

lemma candidates_resolve:
  assumes "\<forall>f \<in> set fs. fn_ok f" "distinct (map fn_name fs)"
  shows "leaf_candidates (candidates fs cap)"
    and "candidates fs cap n = Some g \<Longrightarrow> linked rest fs n = Some g"
proof -
  show "leaf_candidates (candidates fs cap)"
    using candidates_Some assms(1) unfolding leaf_candidates_def is_candidate_def by blast
  assume "candidates fs cap n = Some g"
  then have g: "g \<in> set fs" "fn_name g = n" using candidates_Some by blast+
  obtain xs ys where "fs = xs @ g # ys" using split_list [OF g(1)] by blast
  then show "linked rest fs n = Some g" using linked_find [of xs g ys rest] assms(2) g(2) by simp
qed

lemma inline_functions_returns:
  "leaf_candidates cands \<Longrightarrow> \<forall>f \<in> set fs. fn_ok f \<Longrightarrow> \<exists>r. inline_functions cands fs n = Some r"
proof (induction fs arbitrary: n)
  case (Cons f fs)
  then obtain f' k where k: "inline_loop cands f n = Some (f', k)" using inline_loop_returns [of cands f n] by auto
  obtain r where "inline_functions cands fs k = Some r" using Cons by fastforce
  then show ?case using k by simp
qed simp

lemma inline_run_returns:
  "\<forall>f \<in> set fs. fn_ok f \<Longrightarrow> distinct (map fn_name fs) \<Longrightarrow> \<exists>r. inline_run inline_cap fs = Some r"
  unfolding inline_run_def Let_def by (rule inline_functions_returns [OF candidates_resolve(1)])

lemma inline_run_sound:
  assumes "\<forall>f \<in> set fs. fn_ok f" "distinct (map fn_name fs)" "inline_run inline_cap fs = Some (fs', n)"
  shows "(\<forall>f \<in> set fs'. fn_ok f) \<and> map fn_name fs' = map fn_name fs
    \<and> same_calls D (\<lambda>_. True) (linked rest fs) (linked rest fs')"
  using inline_functions_result [OF candidates_resolve(1) [OF assms(1,2)]
      assms(3) [unfolded inline_run_def Let_def] assms(1), of "[]" rest D]
    candidates_resolve(2) [OF assms(1,2)] assms(2) by simp

end
