(* ===== verification/Optimizer.thy ===== *)
theory Optimizer
  imports Pass_Jumps Pass_Sink Pass_Values Pass_Moves Pass_Inline
begin

text \<open>
  The pass driver (\<open>crates/post-machine/src/optimizer/mod.rs\<close>) and the properties of the optimizer as a
  whole. The pass tables are lists of names and functions, the set of disabled names is a set of
  strings, and the mutable program, report and snapshots are threaded through a record. The checks
  that debug builds make between the passes are not part of the model; that they would succeed is
  part of what is proved.
\<close>

section \<open>Options and report\<close>

datatype opt_level = O0 | O1

record opt_options =
  oo_level :: opt_level
  oo_disabled :: "string set"
  oo_capture :: bool
  oo_inline_cap :: "nat option"

record pass_change =
  pc_pass :: string
  pc_function :: string
  pc_changes :: nat

record opt_report =
  or_rounds :: nat
  or_changes :: "pass_change list"

section \<open>The pipeline\<close>

definition PIPELINE :: "(string \<times> (ir_function \<Rightarrow> pass_result)) list" where
  "PIPELINE =
     [(''check-fold'', \<lambda>f. Some (check_fold_run f)),
      (''jump-threading'', \<lambda>f. Some (jump_threading_run f)),
      (''cell-state'', cell_state_run),
      (''branch-fold'', branch_fold_run),
      (''tail-sink'', tail_sink_run),
      (''tail-call'', \<lambda>f. Some (tail_call_run f)),
      (''tail-merge'', \<lambda>f. Some (tail_merge_run f)),
      (''dce'', dce_run),
      (''move-elim'', move_elim_run),
      (''fuse-tape-ops'', \<lambda>f. Some (fuse_tape_ops_run f))]"

definition PROGRAM_PIPELINE :: "(string \<times> (opt_options \<Rightarrow> ir_function list \<Rightarrow> (ir_function list \<times> nat) option)) list" where
  "PROGRAM_PIPELINE = [(''inline'', \<lambda>options. inline_run (oo_inline_cap options))]"

definition MAX_ROUNDS :: nat where "MAX_ROUNDS = 10"

definition pass_names :: "string list" where
  "pass_names = map fst PROGRAM_PIPELINE @ map fst PIPELINE"

definition gated_pass_names :: "string list" where
  "gated_pass_names = [''cell-state'', ''branch-fold'', ''fuse-tape-ops'', ''move-elim'']"

section \<open>The driver\<close>

text \<open>What the loop mutates: the program, the report's changes, the snapshots.\<close>

record opt_state =
  os_ir :: ir_program
  os_changes :: "pass_change list"
  os_snapshots :: "(string \<times> ir_program) list"

definition after :: "string \<Rightarrow> string" where
  "after name = ''after:'' @ name"

definition capture_if :: "bool \<Rightarrow> string \<Rightarrow> opt_state \<Rightarrow> opt_state" where
  "capture_if c name st = (if c then st\<lparr>os_snapshots := os_snapshots st @ [(after name, os_ir st)]\<rparr> else st)"

definition set_functions :: "ir_function list \<Rightarrow> opt_state \<Rightarrow> opt_state" where
  "set_functions fs st = st\<lparr>os_ir := (os_ir st)\<lparr>ir_functions := fs\<rparr>\<rparr>"

definition push_changes :: "pass_change list \<Rightarrow> opt_state \<Rightarrow> opt_state" where
  "push_changes cs st = st\<lparr>os_changes := os_changes st @ cs\<rparr>"

fun program_passes ::
  "opt_options \<Rightarrow> (string \<times> (opt_options \<Rightarrow> ir_function list \<Rightarrow> (ir_function list \<times> nat) option)) list
     \<Rightarrow> opt_state \<times> nat \<Rightarrow> (opt_state \<times> nat) option" where
  "program_passes options [] (st, done_changes) = Some (st, done_changes)"
| "program_passes options ((name, pass) # passes) (st, done_changes) =
     (if name \<in> oo_disabled options then program_passes options passes (st, done_changes)
      else case pass options (ir_functions (os_ir st)) of
             None \<Rightarrow> None
           | Some (fs, n) \<Rightarrow>
               (let st1 = set_functions fs st;
                    st2 = (if n > 0
                           then capture_if (oo_capture options) name
                             (push_changes [\<lparr>pc_pass = name, pc_function = ''(module)'', pc_changes = n\<rparr>] st1)
                           else st1)
                in program_passes options passes (st2, done_changes + n)))"

text \<open>One pass over all functions: the functions, the changes to report, and their sum.\<close>

fun run_functions ::
  "string \<Rightarrow> (ir_function \<Rightarrow> pass_result) \<Rightarrow> ir_function list \<Rightarrow> (ir_function list \<times> pass_change list \<times> nat) option" where
  "run_functions name pass [] = Some ([], [], 0)"
| "run_functions name pass (f # fs) =
     (case pass f of
        None \<Rightarrow> None
      | Some (f', n) \<Rightarrow>
          (case run_functions name pass fs of
             None \<Rightarrow> None
           | Some (fs', cs, m) \<Rightarrow>
               Some (f' # fs', (if n > 0 then [\<lparr>pc_pass = name, pc_function = fn_name f', pc_changes = n\<rparr>] else []) @ cs,
                 n + m)))"

fun function_passes ::
  "opt_options \<Rightarrow> (string \<times> (ir_function \<Rightarrow> pass_result)) list \<Rightarrow> opt_state \<times> nat \<Rightarrow> (opt_state \<times> nat) option" where
  "function_passes options [] (st, done_changes) = Some (st, done_changes)"
| "function_passes options ((name, pass) # passes) (st, done_changes) =
     (if name \<in> oo_disabled options then function_passes options passes (st, done_changes)
      else case run_functions name pass (ir_functions (os_ir st)) of
             None \<Rightarrow> None
           | Some (fs, cs, n) \<Rightarrow>
               function_passes options passes
                 (capture_if (oo_capture options \<and> n > 0) name (push_changes cs (set_functions fs st)), done_changes + n))"

function optimize_loop :: "opt_options \<Rightarrow> nat \<Rightarrow> opt_state \<Rightarrow> (nat \<times> opt_state) option" where
  "optimize_loop options rounds st =
     (case program_passes options PROGRAM_PIPELINE (st, 0) of
        None \<Rightarrow> None
      | Some round1 \<Rightarrow>
          (case function_passes options PIPELINE round1 of
             None \<Rightarrow> None
           | Some (st', round_changes) \<Rightarrow>
               if round_changes = 0 \<or> rounds + 1 \<ge> MAX_ROUNDS then Some (rounds + 1, st')
               else optimize_loop options (rounds + 1) st'))"
  by pat_completeness auto
termination
  by (relation "measure (\<lambda>(_, rounds, _). MAX_ROUNDS - rounds)") auto

declare optimize_loop.simps [simp del]

text \<open>The program, its report and the snapshots; \<open>None\<close> is a panic.\<close>

definition optimize ::
  "ir_program \<Rightarrow> opt_options \<Rightarrow> (string \<times> ir_program) list
     \<Rightarrow> (ir_program \<times> (string \<times> ir_program) list \<times> opt_report) option" where
  "optimize ir options snapshots =
     (if oo_level options = O0 then Some (ir, snapshots, \<lparr>or_rounds = 0, or_changes = []\<rparr>)
      else map_option
        (\<lambda>(rounds, st). (os_ir st, os_snapshots st, \<lparr>or_rounds = rounds, or_changes = os_changes st\<rparr>))
        (optimize_loop options 0 \<lparr>os_ir = ir, os_changes = [], os_snapshots = snapshots\<rparr>))"

section \<open>What every pass guarantees\<close>

definition good_pass :: "'d device \<Rightarrow> ('d ir_state \<Rightarrow> bool) \<Rightarrow> (ir_function \<Rightarrow> pass_result) \<Rightarrow> bool" where
  "good_pass D G pass \<longleftrightarrow> (\<forall>f. fn_ok f \<longrightarrow> (\<exists>f' n. pass f = Some (f', n) \<and> fn_ok f'))
     \<and> sound_change D G (\<lambda>f f'. fn_ok f \<and> (\<exists>n. pass f = Some (f', n)))"

lemma good_passI:
  assumes "\<And>f. fn_ok f \<Longrightarrow> \<exists>r. pass f = Some r" "\<And>f f' n. fn_ok f \<Longrightarrow> pass f = Some (f', n) \<Longrightarrow> fn_ok f'"
    and "sound_change D G T" "\<And>f f' n. fn_ok f \<Longrightarrow> pass f = Some (f', n) \<Longrightarrow> T f f'"
  shows "good_pass D G pass"
  unfolding good_pass_def
proof (intro conjI allI impI)
  fix f assume f: "fn_ok f"
  then obtain f' n where r: "pass f = Some (f', n)" using assms(1) by fastforce
  then show "\<exists>f' n. pass f = Some (f', n) \<and> fn_ok f'" using assms(2) [OF f r] by blast
next
  show "sound_change D G (\<lambda>f f'. fn_ok f \<and> (\<exists>n. pass f = Some (f', n)))"
    by (rule sound_change_mono [OF assms(3)]) (use assms(4) in blast)
qed

lemma good_pass_weaken: "good_pass D G pass \<Longrightarrow> (\<And>s. G' s \<Longrightarrow> G s) \<Longrightarrow> good_pass D G' pass"
  unfolding good_pass_def using sound_change_weaken by blast

lemma fn_ok_valid: "fn_ok f \<Longrightarrow> valid_fn f" by (simp add: fn_ok_def)

text \<open>On any device, from any state: the passes that are not gated.\<close>

lemma good_plain_passes:
  "good_pass D (\<lambda>_. True) (\<lambda>f. Some (check_fold_run f))"
  "good_pass D (\<lambda>_. True) (\<lambda>f. Some (jump_threading_run f))"
  "good_pass D (\<lambda>_. True) tail_sink_run"
  "good_pass D (\<lambda>_. True) (\<lambda>f. Some (tail_call_run f))"
  "good_pass D (\<lambda>_. True) (\<lambda>f. Some (tail_merge_run f))"
  "good_pass D (\<lambda>_. True) dce_run"
proof -
  show "good_pass D (\<lambda>_. True) (\<lambda>f. Some (check_fold_run f))"
    by (rule good_passI [OF _ _ check_fold_sound]) (auto dest: check_fold_ok)
  show "good_pass D (\<lambda>_. True) (\<lambda>f. Some (jump_threading_run f))"
    by (rule good_passI [OF _ _ jump_threading_sound]) (auto dest: jump_threading_ok fn_ok_valid)
  show "good_pass D (\<lambda>_. True) tail_sink_run"
    by (rule good_passI [OF _ _ tail_sink_sound]) (use tail_sink_returns tail_sink_ok in blast)+
  show "good_pass D (\<lambda>_. True) (\<lambda>f. Some (tail_call_run f))"
    by (rule good_passI [OF _ _ tail_call_sound]) (auto dest: tail_call_ok)
  show "good_pass D (\<lambda>_. True) (\<lambda>f. Some (tail_merge_run f))"
    by (rule good_passI [OF _ _ tail_merge_sound]) (auto dest: tail_merge_ok)
  show "good_pass D (\<lambda>_. True) dce_run"
    by (rule good_passI [OF _ _ dce_sound]) (use dce_run_change fn_ok_valid dce_ok in fastforce)+
qed

context mark_store
begin

lemma good_tape_passes:
  "good_pass D coupled cell_state_run" "good_pass D coupled branch_fold_run"
  "good_pass D coupled move_elim_run" "good_pass D coupled (\<lambda>f. Some (fuse_tape_ops_run f))"
proof -
  note w = good_pass_weaken [OF _ coupled_stored]
  show "good_pass D coupled cell_state_run"
    by (rule w [OF good_passI [OF _ _ cell_state_sound]])
      (use cell_state_returns [OF fn_ok_valid] cell_state_ok in blast)+
  show "good_pass D coupled branch_fold_run"
    by (rule w [OF good_passI [OF _ _ branch_fold_sound]])
      (use branch_fold_returns [OF fn_ok_valid] branch_fold_ok fn_ok_valid in blast)+
  show "good_pass D coupled move_elim_run"
  proof (rule good_passI [OF _ _ move_elim_sound])
    fix f f' n assume f: "fn_ok f"
    then show "\<exists>r. move_elim_run f = Some r" unfolding move_elim_run_def by (rule move_elim_returns)
    assume r: "move_elim_run f = Some (f', n)"
    show "fn_ok f'" using move_elim_result [OF f r [unfolded move_elim_run_def]] by blast
    show "fn_ok f \<and> (\<exists>n. move_elim_run f = Some (f', n))" using f r by blast
  qed
  show "good_pass D coupled (\<lambda>f. Some (fuse_tape_ops_run f))"
    by (rule w [OF good_passI [OF _ _ fuse_sound]]) (auto dest: fuse_ok)
qed

end

section \<open>The whole pipeline\<close>

text \<open>
  Two modules with the same names that no linked program can tell apart, the second one well-formed;
  and a state of the driver in which the program and every new snapshot is such a module.
\<close>

definition equivalent ::
  "'d device \<Rightarrow> ('d ir_state \<Rightarrow> bool) \<Rightarrow> linkage \<Rightarrow> ir_program \<Rightarrow> ir_program \<Rightarrow> bool" where
  "equivalent D G rest ir ir' \<longleftrightarrow>
     ir_version ir' = ir_version ir \<and> (\<forall>f \<in> set (ir_functions ir'). fn_ok f)
     \<and> map fn_name (ir_functions ir') = map fn_name (ir_functions ir)
     \<and> same_calls D G (linked rest (ir_functions ir)) (linked rest (ir_functions ir'))"

definition opt_inv ::
  "'d device \<Rightarrow> ('d ir_state \<Rightarrow> bool) \<Rightarrow> linkage \<Rightarrow> ir_program \<Rightarrow> (string \<times> ir_program) list \<Rightarrow> opt_state \<Rightarrow> bool" where
  "opt_inv D G rest ir snaps st \<longleftrightarrow> equivalent D G rest ir (os_ir st)
     \<and> (\<exists>new. os_snapshots st = snaps @ new \<and> (\<forall>(name, p) \<in> set new. equivalent D G rest ir p))"

lemma equivalent_functions:
  assumes "equivalent D G rest ir p" "\<forall>f \<in> set fs. fn_ok f" "map fn_name fs = map fn_name (ir_functions p)"
    and "same_calls D G (linked rest (ir_functions p)) (linked rest fs)"
  shows "equivalent D G rest ir (p\<lparr>ir_functions := fs\<rparr>)"
  using assms by (auto simp: equivalent_def intro: same_calls_trans)

lemma opt_inv_set:
  "opt_inv D G rest ir snaps st \<Longrightarrow> equivalent D G rest ir ((os_ir st)\<lparr>ir_functions := fs\<rparr>) \<Longrightarrow>
     opt_inv D G rest ir snaps (set_functions fs st)"
  by (simp add: opt_inv_def set_functions_def)

lemma opt_inv_push [simp]: "opt_inv D G rest ir snaps (push_changes cs st) = opt_inv D G rest ir snaps st"
  by (simp add: opt_inv_def push_changes_def)

lemma opt_inv_capture: "opt_inv D G rest ir snaps st \<Longrightarrow> opt_inv D G rest ir snaps (capture_if c name st)"
  by (auto simp: opt_inv_def capture_if_def)

lemma run_functions_good:
  assumes "good_pass D G pass"
  shows "\<forall>f \<in> set fs. fn_ok f \<Longrightarrow>
    \<exists>fs' cs n. run_functions name pass fs = Some (fs', cs, n) \<and> (\<forall>f \<in> set fs'. fn_ok f)
      \<and> list_all2 (\<lambda>f f'. fn_ok f \<and> (\<exists>n. pass f = Some (f', n))) fs fs'"
proof (induction fs)
  case (Cons f fs)
  obtain f' n where "pass f = Some (f', n)" "fn_ok f'" using assms Cons.prems by (auto simp: good_pass_def)
  moreover obtain fs' cs m where "run_functions name pass fs = Some (fs', cs, m)" "\<forall>f \<in> set fs'. fn_ok f"
    "list_all2 (\<lambda>f f'. fn_ok f \<and> (\<exists>n. pass f = Some (f', n))) fs fs'"
    using Cons by auto
  ultimately show ?case using Cons.prems by auto
qed simp

lemma run_functions_equivalent:
  assumes "good_pass D G pass" "equivalent D G rest ir p"
  shows "\<exists>fs cs n. run_functions name pass (ir_functions p) = Some (fs, cs, n)
    \<and> equivalent D G rest ir (p\<lparr>ir_functions := fs\<rparr>)"
proof -
  let ?T = "\<lambda>f f'. fn_ok f \<and> (\<exists>n. pass f = Some (f', n))"
  obtain fs cs n where fs: "run_functions name pass (ir_functions p) = Some (fs, cs, n)" "\<forall>f \<in> set fs. fn_ok f"
    "list_all2 ?T (ir_functions p) fs"
    using run_functions_good [OF assms(1), of "ir_functions p" name] assms(2) by (auto simp: equivalent_def)
  have s: "sound_change D G ?T" using assms(1) by (simp add: good_pass_def)
  show ?thesis
    using fs(1) equivalent_functions [OF assms(2) fs(2) sound_module_names [OF s fs(3)] sound_module [OF s fs(3)]] by blast
qed

definition enabled :: "opt_options \<Rightarrow> (string \<times> 'a) list \<Rightarrow> 'a set" where
  "enabled options passes = {pass. \<exists>name. (name, pass) \<in> set passes \<and> name \<notin> oo_disabled options}"

lemma enabled_Cons:
  "enabled options ((name, pass) # passes) =
     (if name \<in> oo_disabled options then enabled options passes else insert pass (enabled options passes))"
  by (auto simp: enabled_def)

lemma function_passes_inv:
  "\<forall>pass \<in> enabled options passes. good_pass D G pass \<Longrightarrow> opt_inv D G rest ir snaps st \<Longrightarrow>
     \<exists>st' n. function_passes options passes (st, m) = Some (st', n) \<and> opt_inv D G rest ir snaps st'"
proof (induction passes arbitrary: st m)
  case (Cons np passes)
  obtain name pass where np: "np = (name, pass)" by (cases np)
  show ?case
  proof (cases "name \<in> oo_disabled options")
    case True
    then show ?thesis using Cons np by (simp add: enabled_Cons)
  next
    case False
    have good: "good_pass D G pass" "\<forall>pass \<in> enabled options passes. good_pass D G pass"
      using Cons.prems(1) np False by (simp_all add: enabled_Cons)
    obtain fs cs n where fs: "run_functions name pass (ir_functions (os_ir st)) = Some (fs, cs, n)"
      "equivalent D G rest ir ((os_ir st)\<lparr>ir_functions := fs\<rparr>)"
      using run_functions_equivalent [OF good(1), of rest ir "os_ir st" name] Cons.prems(2) by (auto simp: opt_inv_def)
    have "opt_inv D G rest ir snaps
        (capture_if (oo_capture options \<and> n > 0) name (push_changes cs (set_functions fs st)))"
      using opt_inv_set [OF Cons.prems(2) fs(2)] by (intro opt_inv_capture) simp
    from Cons.IH [OF good(2) this] show ?thesis using fs(1) np False by simp
  qed
qed simp

lemma inline_equivalent:
  assumes "distinct (map fn_name (ir_functions ir))" "equivalent D G rest ir p"
  shows "\<exists>fs n. inline_run inline_cap (ir_functions p) = Some (fs, n) \<and> equivalent D G rest ir (p\<lparr>ir_functions := fs\<rparr>)"
proof -
  have p: "\<forall>f \<in> set (ir_functions p). fn_ok f" "distinct (map fn_name (ir_functions p))"
    using assms by (simp_all add: equivalent_def)
  obtain fs n where fs: "inline_run inline_cap (ir_functions p) = Some (fs, n)"
    using inline_run_returns [OF p, of inline_cap] by auto
  have r: "\<forall>f \<in> set fs. fn_ok f" "map fn_name fs = map fn_name (ir_functions p)"
    "same_calls D (\<lambda>_. True) (linked rest (ir_functions p)) (linked rest fs)"
    using inline_run_sound [OF p fs, of D rest] by simp_all
  have "same_calls D G (linked rest (ir_functions p)) (linked rest fs)" by (rule same_calls_weaken [OF r(3)]) simp
  then show ?thesis using fs equivalent_functions [OF assms(2) r(1,2)] by blast
qed

lemma program_passes_inv:
  assumes "distinct (map fn_name (ir_functions ir))" "opt_inv D G rest ir snaps st"
  shows "\<exists>st' n. program_passes options PROGRAM_PIPELINE (st, m) = Some (st', n) \<and> opt_inv D G rest ir snaps st'"
proof (cases "''inline'' \<in> oo_disabled options")
  case False
  obtain fs n where fs: "inline_run (oo_inline_cap options) (ir_functions (os_ir st)) = Some (fs, n)"
    "equivalent D G rest ir ((os_ir st)\<lparr>ir_functions := fs\<rparr>)"
    using inline_equivalent [OF assms(1), of D G rest "os_ir st" "oo_inline_cap options"] assms(2) by (auto simp: opt_inv_def)
  have "opt_inv D G rest ir snaps (set_functions fs st)" by (rule opt_inv_set [OF assms(2) fs(2)])
  moreover have "opt_inv D G rest ir snaps (capture_if (oo_capture options) ''inline'' (push_changes cs (set_functions fs st)))" for cs
    using calculation by (intro opt_inv_capture) simp
  ultimately show ?thesis using fs(1) False by (simp add: PROGRAM_PIPELINE_def Let_def)
qed (use assms(2) in \<open>simp add: PROGRAM_PIPELINE_def\<close>)

lemma optimize_loop_inv:
  assumes "distinct (map fn_name (ir_functions ir))" "\<forall>pass \<in> enabled options PIPELINE. good_pass D G pass"
  shows "opt_inv D G rest ir snaps st \<Longrightarrow> rounds < MAX_ROUNDS \<Longrightarrow>
    \<exists>rounds' st'. optimize_loop options rounds st = Some (rounds', st') \<and> opt_inv D G rest ir snaps st'
      \<and> 0 < rounds' \<and> rounds' \<le> MAX_ROUNDS"
proof (induction "MAX_ROUNDS - rounds" arbitrary: rounds st rule: less_induct)
  case less
  obtain st1 n1 where 1: "program_passes options PROGRAM_PIPELINE (st, 0) = Some (st1, n1)" "opt_inv D G rest ir snaps st1"
    using program_passes_inv [OF assms(1) less.prems(1)] by blast
  obtain st2 n2 where 2: "function_passes options PIPELINE (st1, n1) = Some (st2, n2)" "opt_inv D G rest ir snaps st2"
    using function_passes_inv [OF assms(2) 1(2)] by blast
  show ?case
  proof (cases "n2 = 0 \<or> rounds + 1 \<ge> MAX_ROUNDS")
    case True
    then have "optimize_loop options rounds st = Some (rounds + 1, st2)"
      using 1(1) 2(1) by (subst optimize_loop.simps) simp
    then show ?thesis using 2(2) less.prems(2) by auto
  next
    case False
    then have "optimize_loop options rounds st = optimize_loop options (rounds + 1) st2"
      using 1(1) 2(1) by (subst optimize_loop.simps) simp
    then show ?thesis using less.hyps [of "rounds + 1" st2] 2(2) False less.prems(2) by auto
  qed
qed

lemma optimize_inv:
  assumes "distinct (map fn_name (ir_functions ir))" "\<forall>f \<in> set (ir_functions ir). fn_ok f"
    and "\<forall>pass \<in> enabled options PIPELINE. good_pass D G pass"
  shows "\<exists>ir' new report. optimize ir options snaps = Some (ir', snaps @ new, report) \<and> or_rounds report \<le> MAX_ROUNDS
    \<and> equivalent D G rest ir ir' \<and> (\<forall>(name, p) \<in> set new. equivalent D G rest ir p)"
proof (cases "oo_level options")
  case O0
  then show ?thesis using assms(2) by (intro exI [of _ ir] exI [of _ "[]"]) (simp add: optimize_def equivalent_def)
next
  case O1
  let ?st = "\<lparr>os_ir = ir, os_changes = [], os_snapshots = snaps\<rparr>"
  have "opt_inv D G rest ir snaps ?st" using assms(2) by (simp add: opt_inv_def equivalent_def)
  from optimize_loop_inv [OF assms(1,3) this, of 0] obtain rounds st where
    r: "optimize_loop options 0 ?st = Some (rounds, st)" "opt_inv D G rest ir snaps st" "rounds \<le> MAX_ROUNDS"
    by (auto simp: MAX_ROUNDS_def)
  then obtain new where "os_snapshots st = snaps @ new" "\<forall>(name, p) \<in> set new. equivalent D G rest ir p"
    by (auto simp: opt_inv_def)
  then show ?thesis using r O1 by (auto simp: optimize_def opt_inv_def)
qed

lemma optimize_equivalent:
  assumes "distinct (map fn_name (ir_functions ir))" "\<forall>f \<in> set (ir_functions ir). fn_ok f"
    and "\<forall>pass \<in> enabled options PIPELINE. good_pass D G pass"
    and "optimize ir options snaps = Some (ir', snaps', report)"
  shows "equivalent D G rest ir ir'"
proof -
  obtain ir2 new report2 where "optimize ir options snaps = Some (ir2, snaps @ new, report2)" "equivalent D G rest ir ir2"
    using optimize_inv [OF assms(1-3)] by blast
  then show ?thesis using assms(4) by simp
qed

text \<open>Which passes may run.\<close>

lemma pipeline_names: "(name, pass) \<in> set PIPELINE \<Longrightarrow> name \<notin> set gated_pass_names \<Longrightarrow> good_pass D (\<lambda>_. True) pass"
proof -
  assume "(name, pass) \<in> set PIPELINE" "name \<notin> set gated_pass_names"
  then have "pass \<in> {\<lambda>f. Some (check_fold_run f), \<lambda>f. Some (jump_threading_run f), tail_sink_run,
      \<lambda>f. Some (tail_call_run f), \<lambda>f. Some (tail_merge_run f), dce_run}"
    by (auto simp: PIPELINE_def gated_pass_names_def)
  then show "good_pass D (\<lambda>_. True) pass" using good_plain_passes [of D] by blast
qed

lemma gated_good:
  assumes "set gated_pass_names \<subseteq> oo_disabled options"
  shows "\<forall>pass \<in> enabled options PIPELINE. good_pass D (\<lambda>_. True) pass"
  using assms pipeline_names unfolding enabled_def by blast

context mark_store
begin

lemma pipeline_good: "\<forall>pass \<in> enabled options PIPELINE. good_pass D coupled pass"
proof -
  have "good_pass D coupled pass" if "(name, pass) \<in> set PIPELINE" for name pass
  proof (cases "name \<in> set gated_pass_names")
    case True
    then have "pass \<in> {cell_state_run, branch_fold_run, move_elim_run, \<lambda>f. Some (fuse_tape_ops_run f)}"
      using that by (auto simp: PIPELINE_def gated_pass_names_def)
    then show ?thesis using good_tape_passes by blast
  next
    case False
    show ?thesis by (rule good_pass_weaken [OF pipeline_names [OF that False]]) simp
  qed
  then show ?thesis unfolding enabled_def by blast
qed

end

end
