(* ===== verification/Optimizer_Labels.thy ===== *)
theory Optimizer_Labels
  imports Optimizer "HOL-Library.Multiset"
begin

text \<open>
  The optimizer makes no label of its own: whatever passes run, no label of the source names two blocks
  of a function afterwards. Code generation relies on it, for labels become names in the assembly.
\<close>

definition fn_labels :: "ir_function \<Rightarrow> u32 list" where
  "fn_labels f = concat (map b_labels (fn_blocks f))"

definition labels_ok :: "ir_function \<Rightarrow> bool" where
  "labels_ok f \<longleftrightarrow> distinct (fn_labels f)"

definition no_new_labels :: "ir_function \<Rightarrow> ir_function \<Rightarrow> bool" where
  "no_new_labels f f' \<longleftrightarrow> mset (fn_labels f') \<subseteq># mset (fn_labels f)"

lemma no_new_labels_refl [simp]: "no_new_labels f f"
  by (simp add: no_new_labels_def)

lemma no_new_labels_trans: "no_new_labels f g \<Longrightarrow> no_new_labels g h \<Longrightarrow> no_new_labels f h"
  unfolding no_new_labels_def by (rule subset_mset.order_trans)

lemma no_new_labels_ok: "no_new_labels f f' \<Longrightarrow> labels_ok f \<Longrightarrow> labels_ok f'"
proof -
  assume new: "no_new_labels f f'" and ok: "labels_ok f"
  have "count (mset (fn_labels f)) l \<le> 1" for l
    using ok unfolding labels_ok_def distinct_count_atmost_1 by simp
  then have le: "\<forall>l. count (mset (fn_labels f')) l \<le> 1"
    using mset_subset_eq_count [OF new [unfolded no_new_labels_def]] order_trans by blast
  have "distinct xs" if "\<forall>l. count (mset xs) l \<le> 1" for xs :: "u32 list"
    using that
  proof (induction xs)
    case (Cons x xs)
    have "\<forall>l. count (mset xs) l \<le> 1"
    proof
      fix l show "count (mset xs) l \<le> 1"
        by (rule order_trans [OF _ Cons.prems [rule_format, of l]]) simp
    qed
    moreover have "count (mset xs) x = 0" using Cons.prems [rule_format, of x] by simp
    ultimately show ?case using Cons.IH by (simp add: count_eq_zero_iff)
  qed simp
  then show "labels_ok f'" using le by (simp add: labels_ok_def)
qed

section \<open>The passes\<close>

lemma same_labels_map: "(\<And>b. b_labels (h b) = b_labels b) \<Longrightarrow> no_new_labels f (map_blocks h f)"
  by (simp add: no_new_labels_def fn_labels_def comp_def)

lemma same_labels_blocks:
  assumes "map b_labels (fn_blocks f') = map b_labels (fn_blocks f)"
  shows "no_new_labels f f'"
  using assms by (simp add: no_new_labels_def fn_labels_def)

lemma labels_filter: "mset (concat (map b_labels (filter P bs))) \<subseteq># mset (concat (map b_labels bs))"
  by (induction bs) (auto intro: subset_mset.add_increasing)

lemma check_fold_labels: "no_new_labels f (fst (check_fold_run f))"
  unfolding check_fold_run_def fst_run_blocks
  by (rule same_labels_map) (simp add: check_fold_block_def split: ir_term.split)

lemma tail_call_labels: "no_new_labels f (fst (tail_call_run f))"
proof (cases "fn_name f = ''main''")
  case False
  then have "fst (tail_call_run f) = map_blocks (\<lambda>b. fst (tail_call_block b)) f" by (simp add: tail_call_run_def)
  then show ?thesis by (auto simp: tail_call_block_def intro: same_labels_map split: ir_op.split)
qed (simp add: tail_call_run_def)

lemma jump_threading_labels: "no_new_labels f (fst (jump_threading_run f))"
  unfolding jump_threading_run_def fst_run_blocks by (rule same_labels_map) (simp add: thread_block_def)

lemma dce_labels: "dce_run f = Some (f', n) \<Longrightarrow> no_new_labels f f'"
proof -
  assume "dce_run f = Some (f', n)"
  then obtain S where "f' = f\<lparr>fn_blocks := filter (\<lambda>b. b_id b \<in> S) (fn_blocks f)\<rparr>"
    by (auto simp del: reach_loop.simps simp: dce_run_def Let_def split: list.splits option.splits)
  then show ?thesis by (simp add: no_new_labels_def fn_labels_def labels_filter)
qed

lemma chain_returns_labels: "map b_labels (fst (chain_returns bs)) = map b_labels bs"
  by (induction bs rule: chain_returns.induct) (auto simp: Let_def split: prod.split)

lemma merge_labels: "no_new_labels f (merge_into dup keeper f)"
proof -
  let ?bs = "map (\<lambda>b. b\<lparr>b_term := retarget (redirect dup keeper) (b_term b)\<rparr>) (fn_blocks f)"
  have "map b_labels ?bs = map b_labels (fn_blocks f)" by simp
  then show ?thesis using labels_filter [of "\<lambda>b. b_id b \<noteq> dup" ?bs]
    by (simp only: no_new_labels_def fn_labels_def merge_into_def) simp
qed

lemma dedup_labels: "no_new_labels f (fst (dedup_loop f n))"
proof (induction f n rule: dedup_loop.induct)
  case (1 f n)
  show ?case
  proof (cases "find_duplicate f")
    case None
    then show ?thesis by (subst dedup_loop.simps) simp
  next
    case (Some q)
    then obtain dup keeper where q: "q = (dup, keeper)" by (cases q)
    have "dedup_loop f n = dedup_loop (merge_into dup keeper f) (n + 1)"
      using Some q by (subst dedup_loop.simps) simp
    then have "no_new_labels (merge_into dup keeper f) (fst (dedup_loop f n))"
      using "1.IH" [OF Some q [symmetric]] by simp
    then show ?thesis by (rule no_new_labels_trans [OF merge_labels])
  qed
qed

lemma tail_merge_labels: "no_new_labels f (fst (tail_merge_run f))"
proof -
  obtain f1 n where f1: "dedup_loop f 0 = (f1, n)" by (cases "dedup_loop f 0")
  then have "no_new_labels f f1" using dedup_labels [of f 0] by simp
  moreover have "no_new_labels f1 (fst (tail_merge_run f))"
    by (rule same_labels_blocks)
      (use chain_returns_labels [of "fn_blocks f1"] in
        \<open>cases "chain_returns (fn_blocks f1)"; simp add: tail_merge_run_def f1 Let_def\<close>)
  ultimately show ?thesis by (rule no_new_labels_trans)
qed

lemma update_labels: "map b_labels (update_ops i g bs) = map b_labels bs"
  by (simp add: update_ops_def map_update list_update_beyond)
    (metis list_update_beyond list_update_id length_map not_le nth_map)

lemma tail_sink_labels: "tail_sink_run f = Some (f', n) \<Longrightarrow> no_new_labels f f'"
  by (auto simp: tail_sink_run_def Let_def update_labels intro!: same_labels_blocks split: if_splits option.splits)

lemma cell_state_labels: "cell_state_run f = Some (f', n) \<Longrightarrow> no_new_labels f f'"
  by (auto simp: cell_state_run_def run_blocks_def cell_state_block_def intro!: same_labels_map split: option.splits prod.splits)

lemma branch_fold_labels: "branch_fold_run f = Some (f', n) \<Longrightarrow> no_new_labels f f'"
  by (auto simp: branch_fold_run_def run_blocks_def branch_fold_block_def intro!: same_labels_map
      split: option.splits ir_term.splits)

lemma fuse_labels: "no_new_labels f (fst (fuse_tape_ops_run f))"
  unfolding fuse_tape_ops_run_def fst_run_blocks by (rule same_labels_map) (simp add: fuse_block_def)

lemma drain_labels: "no_new_labels f (drain_pair f k i)"
  by (rule same_labels_blocks) (simp add: drain_pair_def Let_def map_update,
    metis list_update_beyond list_update_id length_map not_le nth_map)

lemma move_elim_labels: "move_elim_loop f n = Some (f', n') \<Longrightarrow> no_new_labels f f'"
proof (induction f n rule: move_elim_loop.induct)
  case (1 f n)
  obtain r where r: "find_first_sound_pair f = Some r"
    using "1.prems" by (cases "find_first_sound_pair f") (simp_all add: move_elim_loop.simps [of f n])
  show ?case
  proof (cases r)
    case None
    then show ?thesis using "1.prems" r by (simp add: move_elim_loop.simps [of f n])
  next
    case (Some q)
    obtain k i where q: "q = (k, i)" by (cases q)
    have "no_new_labels (drain_pair f k i) f'"
      using "1.IH" [OF r Some q [symmetric]] "1.prems" r Some q by (simp add: move_elim_loop.simps [of f n])
    then show ?thesis by (rule no_new_labels_trans [OF drain_labels])
  qed
qed

lemma splice_labels:
  assumes "find_site f cands = Some (k, i)" "splice f k i cands = Some f'"
  shows "no_new_labels f f'"
proof -
  obtain xs site ys where f: "fn_blocks f = xs @ site # ys" "k = length xs"
    using find_site_found [OF assms(1)] by blast
  have none: "\<forall>c \<in> set cs. b_labels c = []" if "those (map (clone_block ids nx) bs) = Some cs" for ids nx bs cs
    using that
  proof (induction bs arbitrary: cs)
    case (Cons b bs)
    then show ?case by (auto simp: clone_block_def split: option.splits)
  qed simp
  have one: "b_labels c = []" if "clone_block ids nx b = Some c" for ids nx b c
    using that by (auto simp: clone_block_def split: option.splits)
  obtain to clones line where f': "fn_blocks f' = xs @ site\<lparr>b_ops := take i (b_ops site), b_term := Goto to, b_term_line := line\<rparr>
      # clones @ \<lparr>b_id = next_block_id f, b_labels = [], b_line = line, b_ops = drop (i + 1) (b_ops site),
                   b_term = b_term site, b_term_line = b_term_line site\<rparr> # ys"
    and clones: "\<forall>c \<in> set clones. b_labels c = []"
    using assms(2) f by (fastforce simp: splice_def Let_def nth_append dest: one none
        split: ir_op.splits option.splits list.splits)
  from clones have "concat (map b_labels clones) = []" by simp
  then show ?thesis using f(1) f' by (simp add: no_new_labels_def fn_labels_def)
qed

lemma inline_loop_labels: "inline_loop cands f n = Some r \<Longrightarrow> no_new_labels f (fst r)"
proof (induction rule: inline_loop.raw_induct [rotated -1, consumes 1, case_names step])
  case (step rec cands f n r)
  show ?case
  proof (cases "find_site f cands")
    case None
    then show ?thesis using step(2) by auto
  next
    case (Some q)
    obtain k i where q: "q = (k, i)" by (cases q)
    then obtain f1 where f1: "splice f k i cands = Some f1" "rec cands f1 (n + 1) = Some r"
      using step(2) Some by (auto split: bind_splits)
    then show ?thesis
      using no_new_labels_trans [OF splice_labels [of f cands k i f1] step(1) [OF f1(2)]] Some q by simp
  qed
qed

lemma inline_functions_labels:
  "inline_functions cands fs n = Some (fs', n') \<Longrightarrow> list_all2 no_new_labels fs fs'"
proof (induction fs arbitrary: n fs')
  case (Cons f fs)
  then show ?case by (auto split: option.splits dest: inline_loop_labels)
qed simp

section \<open>The driver\<close>

definition module_labels_ok :: "ir_function list \<Rightarrow> bool" where
  "module_labels_ok fs \<longleftrightarrow> (\<forall>f \<in> set fs. labels_ok f)"

lemma module_labels: "list_all2 no_new_labels fs fs' \<Longrightarrow> module_labels_ok fs \<Longrightarrow> module_labels_ok fs'"
  by (induction rule: list_all2_induct) (auto simp: module_labels_ok_def dest: no_new_labels_ok)

lemma pipeline_labels: "(name, pass) \<in> set PIPELINE \<Longrightarrow> pass f = Some (f', n) \<Longrightarrow> no_new_labels f f'"
proof -
  assume "(name, pass) \<in> set PIPELINE" and r: "pass f = Some (f', n)"
  then consider "pass = (\<lambda>f. Some (check_fold_run f))" | "pass = (\<lambda>f. Some (jump_threading_run f))" | "pass = cell_state_run"
    | "pass = branch_fold_run" | "pass = tail_sink_run" | "pass = (\<lambda>f. Some (tail_call_run f))"
    | "pass = (\<lambda>f. Some (tail_merge_run f))" | "pass = dce_run" | "pass = move_elim_run"
    | "pass = (\<lambda>f. Some (fuse_tape_ops_run f))"
    unfolding PIPELINE_def by auto
  then show ?thesis
  proof cases
    case 1 then show ?thesis using r check_fold_labels [of f] by simp
  next case 2 then show ?thesis using r jump_threading_labels [of f] by simp
  next case 3 then show ?thesis using r cell_state_labels by simp
  next case 4 then show ?thesis using r branch_fold_labels by simp
  next case 5 then show ?thesis using r tail_sink_labels by simp
  next case 6 then show ?thesis using r tail_call_labels [of f] by simp
  next case 7 then show ?thesis using r tail_merge_labels [of f] by simp
  next case 8 then show ?thesis using r dce_labels by simp
  next case 9 then show ?thesis using r move_elim_labels by (simp add: move_elim_run_def)
  next case 10 then show ?thesis using r fuse_labels [of f] by simp
  qed
qed

lemma run_functions_labels:
  assumes "\<And>f f' n. pass f = Some (f', n) \<Longrightarrow> no_new_labels f f'"
  shows "run_functions name pass fs = Some (fs', cs, n) \<Longrightarrow> list_all2 no_new_labels fs fs'"
  by (induction fs arbitrary: fs' cs n) (auto split: option.splits dest: assms)

lemma driver_functions [simp]:
  "ir_functions (os_ir (set_functions fs st)) = fs" "os_ir (push_changes cs st) = os_ir st"
  "os_ir (capture_if c name st) = os_ir st"
  by (simp_all add: set_functions_def push_changes_def capture_if_def)

lemma function_passes_labels:
  "set passes \<subseteq> set PIPELINE \<Longrightarrow> module_labels_ok (ir_functions (os_ir st)) \<Longrightarrow>
     function_passes options passes (st, m) = Some (st', n) \<Longrightarrow> module_labels_ok (ir_functions (os_ir st'))"
proof (induction passes arbitrary: st m)
  case (Cons np passes)
  obtain name pass where np: "np = (name, pass)" by (cases np)
  show ?case
  proof (cases "name \<in> oo_disabled options")
    case True
    then show ?thesis using Cons np by auto
  next
    case False
    obtain fs cs k where fs: "run_functions name pass (ir_functions (os_ir st)) = Some (fs, cs, k)"
      and rest: "function_passes options passes
        (capture_if (oo_capture options \<and> k > 0) name (push_changes cs (set_functions fs st)), m + k) = Some (st', n)"
      using Cons.prems(3) np False by (auto split: option.splits)
    have "list_all2 no_new_labels (ir_functions (os_ir st)) fs"
      by (rule run_functions_labels [OF pipeline_labels [of name pass] fs]) (use Cons.prems(1) np in auto)
    from module_labels [OF this Cons.prems(2)] show ?thesis
      by (intro Cons.IH [OF _ _ rest]) (use Cons.prems(1) in auto)
  qed
qed simp

lemma program_passes_labels:
  assumes "module_labels_ok (ir_functions (os_ir st))" "program_passes options PROGRAM_PIPELINE (st, m) = Some (st', n)"
  shows "module_labels_ok (ir_functions (os_ir st'))"
proof (cases "''inline'' \<in> oo_disabled options")
  case True
  then show ?thesis using assms by (simp add: PROGRAM_PIPELINE_def)
next
  case False
  then obtain fs k where fs: "inline_run (oo_inline_cap options) (ir_functions (os_ir st)) = Some (fs, k)"
    and st': "os_ir st' = os_ir (set_functions fs st)"
    using assms(2) by (auto simp: PROGRAM_PIPELINE_def Let_def split: option.splits if_splits)
  have "list_all2 no_new_labels (ir_functions (os_ir st)) fs"
    using fs inline_functions_labels by (auto simp: inline_run_def Let_def)
  from module_labels [OF this assms(1)] show ?thesis by (simp add: st')
qed

lemma optimize_loop_labels:
  "module_labels_ok (ir_functions (os_ir st)) \<Longrightarrow> optimize_loop options rounds st = Some (r, st') \<Longrightarrow>
     module_labels_ok (ir_functions (os_ir st'))"
proof (induction options rounds st rule: optimize_loop.induct)
  case (1 options rounds st)
  obtain st1 n1 where 1: "program_passes options PROGRAM_PIPELINE (st, 0) = Some (st1, n1)"
    using "1.prems"(2) by (auto simp: optimize_loop.simps [of options rounds st] split: option.splits)
  obtain st2 n2 where 2: "function_passes options PIPELINE (st1, n1) = Some (st2, n2)"
    using "1.prems"(2) 1 by (auto simp: optimize_loop.simps [of options rounds st] split: option.splits)
  have ok: "module_labels_ok (ir_functions (os_ir st2))"
    using function_passes_labels [OF order_refl program_passes_labels [OF "1.prems"(1) 1] 2] .
  show ?case
  proof (cases "n2 = 0 \<or> rounds + 1 \<ge> MAX_ROUNDS")
    case True
    then show ?thesis using "1.prems"(2) 1 2 ok by (simp add: optimize_loop.simps [of options rounds st])
  next
    case False
    then have "optimize_loop options (rounds + 1) st2 = Some (r, st')"
      using "1.prems"(2) 1 2 by (simp add: optimize_loop.simps [of options rounds st])
    then show ?thesis using "1.IH" [OF 1 2 refl False ok] by simp
  qed
qed

lemma optimize_labels:
  assumes "module_labels_ok (ir_functions ir)" "optimize ir options snaps = Some (ir', snaps', report)"
  shows "module_labels_ok (ir_functions ir')"
  using assms optimize_loop_labels [of "\<lparr>os_ir = ir, os_changes = [], os_snapshots = snaps\<rparr>" options 0]
  by (auto simp: optimize_def split: if_splits)

end
