(* ===== verification/Diagnostics.thy ===== *)
theory Diagnostics
  imports Prelude
begin

text \<open>
  Positions and findings (\<open>crates/core/src/diagnostics.rs\<close>), shared by the compiler and the assembler.
\<close>

record pos =
  pos_line :: u32
  pos_col :: u32

record span =
  sp_start :: pos
  sp_end :: pos

definition span_new :: "u32 \<Rightarrow> u32 \<Rightarrow> u32 \<Rightarrow> u32 \<Rightarrow> span" where
  "span_new l c l' c' = \<lparr>sp_start = \<lparr>pos_line = l, pos_col = c\<rparr>, sp_end = \<lparr>pos_line = l', pos_col = c'\<rparr>\<rparr>"

definition span_point :: "u32 \<Rightarrow> u32 \<Rightarrow> span" where
  "span_point l c = span_new l c l (c + 1)"

datatype applicability = MachineApplicable | MaybeIncorrect

record edit =
  ed_span :: span
  ed_replacement :: string

record code_fix =
  fx_description :: string
  fx_applicability :: applicability
  fx_edits :: "edit list"

record diagnostic =
  dg_code :: string
  dg_span :: span
  dg_message :: string
  dg_fix :: "code_fix option"

end
