(* ===== verification/Pmc_Ast.thy ===== *)
theory Pmc_Ast
  imports Pm_Ir Diagnostics
begin

text \<open>
  The syntax tree of the \<open>.pmc\<close> language (\<open>crates/post-machine/src/parser.rs\<close>) and the compiler's fatal errors
  (\<open>crates/post-machine/src/compiler.rs\<close>). The well-formedness predicates state what the parser has
  checked by the time a tree exists: the position rules of comma groups, unique labels, spans beside
  label successors.
\<close>

section \<open>Errors\<close>

datatype compile_error_kind =
    LexError string
  | Expected string string
  | ReservedName string string
  | UnknownCommand string
  | BuiltinCalled string
  | EmptyBuiltinParens string
  | DuplicateName string string
  | DuplicateLabel u32
  | UndefinedLabel u32
  | GotoReturn
  | GroupPosition string
  | DanglingLabel u32
  | Internal string
  | NestedExport
  | DuplicateBinding string
  | KeywordNeedsName string
  | KeywordInBody string
  | SingleColonInPath
  | TopLevelStatement string
  | DanglingDocRun
  | DocLineOrder
  | UnknownAttribute string
  | DuplicateAttribute
  | VolatileNotOnMain string

record compile_error =
  ce_span :: span
  ce_kind :: compile_error_kind

text \<open>A stage that may panic or fail.\<close>

type_synonym 'a compiled = "(compile_error + 'a) option"

definition compile_then :: "'a compiled \<Rightarrow> ('a \<Rightarrow> 'b compiled) \<Rightarrow> 'b compiled" where
  "compile_then c k = (case c of None \<Rightarrow> None | Some (Inl e) \<Rightarrow> Some (Inl e) | Some (Inr x) \<Rightarrow> k x)"

lemma compile_then_simps [simp]:
  "compile_then None k = None" "compile_then (Some (Inl e)) k = Some (Inl e)" "compile_then (Some (Inr x)) k = k x"
  by (simp_all add: compile_then_def)

lemma compile_then_Inr:
  "compile_then c k = Some (Inr y) \<longleftrightarrow> (\<exists>x. c = Some (Inr x) \<and> k x = Some (Inr y))"
  by (auto simp: compile_then_def split: option.splits sum.splits)

lemma compile_then_Inl:
  "compile_then c k = Some (Inl e) \<longleftrightarrow> c = Some (Inl e) \<or> (\<exists>x. c = Some (Inr x) \<and> k x = Some (Inl e))"
  by (auto simp: compile_then_def split: option.splits sum.splits)

section \<open>The tree\<close>

record label =
  l_value :: u32
  l_span :: span
  l_written :: string

datatype builtin = BLeft | BRight | BMark | BUnmark

datatype successor = ToNext | ToLabel u32 | ToReturn

datatype check_arm = ArmLabel u32 | ArmReturn

text \<open>
  An item: the command with its successor, the span of the parentheses, the span and the spelling of the
  label inside, the line.
\<close>

datatype item =
    BuiltinItem builtin successor "span option" "span option" "string option" u32
  | DebuggerItem u32
  | CallItem string span successor "span option" "span option" "string option" u32
  | CheckItem check_arm check_arm span span span "string option" "string option" u32
  | HaltItem u32
  | GotoItem u32 span string u32

record statement =
  st_labels :: "label list"
  st_items :: "item list"
  st_line :: u32
  st_span :: span

record fn_doc =
  fd_paragraphs :: "string list"
  fd_attention :: "string list"
  fd_deprecated :: "string option"

text \<open>A function with the definitions nested in it.\<close>

datatype pmc_fn = PmcFn
  (pf_name: string) (pf_line: u32) (pf_col: u32) (pf_name_span: span) (pf_body: "statement list")
  (pf_exported: bool) (pf_volatile: bool) (pf_local: bool) (pf_nested: "pmc_fn list")
  (pf_ns: "string list") (pf_doc: "fn_doc option")

record import =
  im_path :: "string list"
  im_alias :: "string option"
  im_alias_span :: "span option"
  im_line :: u32
  im_ns :: "string list"
  im_span :: span

record pmc_program =
  pp_functions :: "pmc_fn list"
  pp_imports :: "import list"

section \<open>What the parser guarantees\<close>

fun bare :: "item \<Rightarrow> bool" where
  "bare (BuiltinItem w sc a b c l) \<longleftrightarrow> sc = ToNext"
| "bare (DebuggerItem l) \<longleftrightarrow> True"
| "bare (CallItem n sp sc a b c l) \<longleftrightarrow> sc = ToNext"
| "bare it \<longleftrightarrow> False"

text \<open>\<open>succ_label_span\<close> is there whenever the successor is a label.\<close>

fun spans_ok :: "item \<Rightarrow> bool" where
  "spans_ok (BuiltinItem w (ToLabel i) a b c l) \<longleftrightarrow> b \<noteq> None"
| "spans_ok (CallItem n sp (ToLabel i) a b c l) \<longleftrightarrow> b \<noteq> None"
| "spans_ok it \<longleftrightarrow> True"

definition stmt_ok :: "statement \<Rightarrow> bool" where
  "stmt_ok st \<longleftrightarrow> st_items st \<noteq> [] \<and> list_all bare (butlast (st_items st)) \<and> spans_ok (last (st_items st))"

definition stmt_labels :: "statement \<Rightarrow> u32 list" where
  "stmt_labels st = map l_value (st_labels st)"

definition body_labels :: "statement list \<Rightarrow> u32 list" where
  "body_labels sts = concat (map stmt_labels sts)"

definition body_ok :: "statement list \<Rightarrow> bool" where
  "body_ok sts \<longleftrightarrow> list_all stmt_ok sts \<and> distinct (body_labels sts)"

lemma body_labels_simps [simp]:
  "body_labels [] = []" "body_labels (st # sts) = stmt_labels st @ body_labels sts"
  "body_labels (xs @ ys) = body_labels xs @ body_labels ys"
  by (simp_all add: body_labels_def)

text \<open>The labels a statement refers to, in the order the compiler resolves them, with their spans.\<close>

fun refers :: "item \<Rightarrow> (u32 \<times> span) list" where
  "refers (BuiltinItem w (ToLabel i) a (Some sp) c l) = [(i, sp)]"
| "refers (CallItem n nsp (ToLabel i) a (Some sp) c l) = [(i, sp)]"
| "refers (CheckItem m b sp msp bsp mw bw l) =
     (case m of ArmLabel i \<Rightarrow> [(i, msp)] | ArmReturn \<Rightarrow> [])
     @ (case b of ArmLabel i \<Rightarrow> [(i, bsp)] | ArmReturn \<Rightarrow> [])"
| "refers (GotoItem i sp w l) = [(i, sp)]"
| "refers it = []"

definition body_refers :: "statement list \<Rightarrow> (u32 \<times> span) list" where
  "body_refers sts = concat (map (\<lambda>st. refers (last (st_items st))) sts)"

lemma body_refers_simps [simp]:
  "body_refers [] = []"
  "body_refers (st # sts) = refers (last (st_items st)) @ body_refers sts"
  by (simp_all add: body_refers_def)

end
