(* ===== verification/Pmc_Semantics.thy ===== *)
theory Pmc_Semantics
  imports Pmc_Ast Ir_Semantics
begin

text \<open>
  What a \<open>.pmc\<close> program means (\<open>docs/pmt/language.md\<close>, the statement table): the specification that
  lowering is measured against. A run is at an item of a statement with the statements after it still
  to come; a command acts on the tape and goes on to its successor, the next item, a labelled statement
  or the return. \<open>check\<close> asks for the cell as the latest access latched it, as the machine does. The
  tape, the state and the kinds of termination are those of the intermediate representation.
\<close>

section \<open>Commands\<close>

fun builtin_act :: "'d device \<Rightarrow> builtin \<Rightarrow> 'd ir_state \<Rightarrow> 'd answer" where
  "builtin_act D BLeft s = on_ok (touch (d_left D) s) (latch_cell D)"
| "builtin_act D BRight s = on_ok (touch (d_right D) s) (latch_cell D)"
| "builtin_act D BMark s = on_ok (touch (d_write D 1) s) (latch_cell D)"
| "builtin_act D BUnmark s = on_ok (touch (d_write D 0) s) (latch_cell D)"

fun item_act :: "'d device \<Rightarrow> item \<Rightarrow> 'd ir_state \<Rightarrow> 'd answer" where
  "item_act D (BuiltinItem w sc a b c l) s = builtin_act D w s"
| "item_act D (DebuggerItem l) s = Inr (s\<lparr>s_seen := s_seen s @ [(s_dev s, s_mf s)]\<rparr>)"
| "item_act D it s = Inr s"

fun item_callee :: "item \<Rightarrow> string option" where
  "item_callee (CallItem n sp sc a b c l) = Some n"
| "item_callee it = None"

fun arm_succ :: "check_arm \<Rightarrow> successor" where
  "arm_succ (ArmLabel i) = ToLabel i"
| "arm_succ ArmReturn = ToReturn"

text \<open>Where an item goes on, given the match flag; \<open>halt\<close> does not.\<close>

fun item_succ :: "item \<Rightarrow> bool \<Rightarrow> successor option" where
  "item_succ (BuiltinItem w sc a b c l) mf = Some sc"
| "item_succ (DebuggerItem l) mf = Some ToNext"
| "item_succ (CallItem n sp sc a b c l) mf = Some sc"
| "item_succ (CheckItem m bl sp msp bsp mw bw l) mf = Some (arm_succ (if mf then m else bl))"
| "item_succ (GotoItem i sp w l) mf = Some (ToLabel i)"
| "item_succ (HaltItem l) mf = None"

section \<open>Places\<close>

type_synonym src_point = "item list \<times> statement list"

fun from_label :: "u32 \<Rightarrow> statement list \<Rightarrow> src_point option" where
  "from_label i [] = None"
| "from_label i (st # sts) =
     (if i \<in> set (stmt_labels st) then Some (st_items st, sts) else from_label i sts)"

text \<open>The end of the body is the place where a function returns.\<close>

fun succ_point :: "pmc_fn \<Rightarrow> src_point \<Rightarrow> successor \<Rightarrow> src_point option" where
  "succ_point f p ToNext = Some p"
| "succ_point f p (ToLabel i) = from_label i (pf_body f)"
| "succ_point f p ToReturn = Some ([], [])"

text \<open>A call starts at the first item of the body.\<close>

definition src_entry :: "pmc_fn \<Rightarrow> src_point" where
  "src_entry f = (case pf_body f of [] \<Rightarrow> ([], []) | st # sts \<Rightarrow> (st_items st, sts))"

definition returned :: "pmc_fn \<Rightarrow> 'd ir_state \<Rightarrow> 'd result" where
  "returned f s = (if pf_name f = ''main'' then Stops s else Back s)"

type_synonym src_linkage = "string \<Rightarrow> pmc_fn option"

section \<open>Runs\<close>

partial_function (option) src_interp ::
  "'d device \<Rightarrow> src_linkage \<Rightarrow> pmc_fn \<Rightarrow> src_point \<Rightarrow> 'd ir_state \<Rightarrow> 'd result option" where
  "src_interp D E f p s =
     (case fst p of
        [] \<Rightarrow>
          (case snd p of
             [] \<Rightarrow> Some (returned f s)
           | st # sts \<Rightarrow> src_interp D E f (st_items st, sts) s)
      | it # its \<Rightarrow>
          (case item_callee it of
             Some n \<Rightarrow>
               (case E n of
                  None \<Rightarrow> None
                | Some g \<Rightarrow>
                    Option.bind (src_interp D E g (src_entry g) s)
                      (\<lambda>r. case r of
                             Back s' \<Rightarrow>
                               (case Option.bind (item_succ it (s_mf s')) (succ_point f (its, snd p)) of
                                  None \<Rightarrow> None
                                | Some q \<Rightarrow> src_interp D E f q s')
                           | _ \<Rightarrow> Some r))
           | None \<Rightarrow>
               (case item_act D it s of
                  Inl (e, s') \<Rightarrow> Some (Faults e s')
                | Inr s' \<Rightarrow>
                    (case item_succ it (s_mf s') of
                       None \<Rightarrow> Some (Halts s')
                     | Some sc \<Rightarrow>
                         (case succ_point f (its, snd p) sc of
                            None \<Rightarrow> None
                          | Some q \<Rightarrow> src_interp D E f q s')))))"

declare src_interp.simps [code]

definition src_run :: "'d device \<Rightarrow> src_linkage \<Rightarrow> string \<Rightarrow> 'd ir_state \<Rightarrow> 'd result option" where
  "src_run D E n s = (case E n of None \<Rightarrow> None | Some g \<Rightarrow> src_interp D E g (src_entry g) s)"

inductive src_exec ::
  "'d device \<Rightarrow> src_linkage \<Rightarrow> pmc_fn \<Rightarrow> src_point \<Rightarrow> 'd ir_state \<Rightarrow> 'd result \<Rightarrow> bool"
  for D :: "'d device" and E :: src_linkage where
  src_done: "src_exec D E f ([], []) s (returned f s)"
| src_next: "src_exec D E f (st_items st, sts) s r \<Longrightarrow> src_exec D E f ([], st # sts) s r"
| src_act: "\<lbrakk>item_callee it = None; item_act D it s = Inr s'; item_succ it (s_mf s') = Some sc;
      succ_point f (its, sts) sc = Some q; src_exec D E f q s' r\<rbrakk>
    \<Longrightarrow> src_exec D E f (it # its, sts) s r"
| src_halt: "\<lbrakk>item_callee it = None; item_act D it s = Inr s'; item_succ it (s_mf s') = None\<rbrakk>
    \<Longrightarrow> src_exec D E f (it # its, sts) s (Halts s')"
| src_fault: "\<lbrakk>item_callee it = None; item_act D it s = Inl (e, s')\<rbrakk>
    \<Longrightarrow> src_exec D E f (it # its, sts) s (Faults e s')"
| src_call: "\<lbrakk>item_callee it = Some n; E n = Some g; src_exec D E g (src_entry g) s (Back s');
      item_succ it (s_mf s') = Some sc; succ_point f (its, sts) sc = Some q; src_exec D E f q s' r\<rbrakk>
    \<Longrightarrow> src_exec D E f (it # its, sts) s r"
| src_call_ends: "\<lbrakk>item_callee it = Some n; E n = Some g; src_exec D E g (src_entry g) s r;
      \<forall>s'. r \<noteq> Back s'\<rbrakk>
    \<Longrightarrow> src_exec D E f (it # its, sts) s r"

lemma src_interp_sound: "src_interp D E f p s = Some r \<Longrightarrow> src_exec D E f p s r"
proof (induction rule: src_interp.raw_induct [rotated -1, consumes 1, case_names step])
  case (step rec D E f p s r)
  obtain items sts where p: "p = (items, sts)" by (cases p)
  show ?case
  proof (cases items)
    case Nil
    then show ?thesis using step p by (auto split: list.splits intro: src_exec.intros)
  next
    case (Cons it its)
    show ?thesis
    proof (cases "item_callee it")
      case None
      then show ?thesis using step(2) unfolding p Cons
        by (auto split: sum.splits prod.splits option.splits
            intro: src_fault src_halt src_act [OF _ _ _ _ step(1)])
    next
      case (Some n)
      then obtain g r1 where g: "E n = Some g" "rec D E g (src_entry g) s = Some r1"
        and r: "(case r1 of
             Back s' \<Rightarrow> (case Option.bind (item_succ it (s_mf s')) (succ_point f (its, sts)) of
                None \<Rightarrow> None | Some q \<Rightarrow> rec D E f q s')
           | _ \<Rightarrow> Some r1) = Some r"
        using step(2) unfolding p Cons fst_conv snd_conv list.case Some option.case
        by (auto split: option.splits bind_splits)
      have sub: "src_exec D E g (src_entry g) s r1" by (rule step(1) [OF g(2)])
      show ?thesis
      proof (cases "\<exists>s'. r1 = Back s'")
        case True
        then obtain s' where s': "r1 = Back s'" by blast
        then obtain sc q where sc: "item_succ it (s_mf s') = Some sc" "succ_point f (its, sts) sc = Some q"
          "rec D E f q s' = Some r" using r by (auto split: option.splits bind_splits)
        have "src_exec D E f (it # its, sts) s r"
          by (rule src_call [OF Some g(1) sub [unfolded s'] sc(1,2) step(1) [OF sc(3)]])
        then show ?thesis using p Cons by simp
      next
        case False
        then have "r1 = r" using r by (cases r1) simp_all
        then show ?thesis using src_call_ends [OF Some, of E g] g(1) sub False p Cons by simp
      qed
    qed
  qed
qed

lemma src_interp_complete: "src_exec D E f p s r \<Longrightarrow> src_interp D E f p s = Some r"
proof (induction rule: src_exec.induct)
  case (src_call_ends it n g s r f its sts)
  then show ?case by (subst src_interp.simps) (simp split: result.splits)
qed (subst src_interp.simps, simp)+

lemma src_interp_exec: "src_interp D E f p s = Some r \<longleftrightarrow> src_exec D E f p s r"
  using src_interp_sound src_interp_complete by blast

lemma src_run_exec: "src_run D E n s = Some r \<longleftrightarrow> (\<exists>g. E n = Some g \<and> src_exec D E g (src_entry g) s r)"
  by (simp add: src_run_def src_interp_exec split: option.splits)

end
