(* ===== verification/Pmc_Lowering.thy ===== *)
theory Pmc_Lowering
  imports Pmc_Semantics Pass_Jumps
begin

text \<open>
  Lowering: from the syntax tree to the intermediate representation (\<open>lower\<close> and \<open>lower_function\<close> in
  \<open>crates/post-machine/src/ir.rs\<close>), with the resolution of labels and the unreachable-code warnings. A
  block is numbered by the count of blocks before it, a natural number. \<open>None\<close> is a panic of the code.
\<close>

section \<open>Block boundaries\<close>

text \<open>\<open>terminates\<close>: does this statement end its basic block?\<close>

fun item_terminates :: "item \<Rightarrow> bool" where
  "item_terminates (BuiltinItem w sc a b c l) \<longleftrightarrow> sc \<noteq> ToNext"
| "item_terminates (CallItem n sp sc a b c l) \<longleftrightarrow> sc \<noteq> ToNext"
| "item_terminates (DebuggerItem l) \<longleftrightarrow> False"
| "item_terminates it \<longleftrightarrow> True"

definition terminates :: "statement \<Rightarrow> bool option" where
  "terminates st = (if st_items st = [] then None else Some (item_terminates (last (st_items st))))"

text \<open>The vector \<open>starts\<close>, the previous statement passed along.\<close>

fun block_starts :: "statement option \<Rightarrow> statement list \<Rightarrow> bool list option" where
  "block_starts prev [] = Some []"
| "block_starts prev (st # sts) =
     Option.bind
       (case prev of
          None \<Rightarrow> Some True
        | Some pr \<Rightarrow> if st_labels st \<noteq> [] then Some True else terminates pr)
       (\<lambda>s. map_option ((#) s) (block_starts (Some st) sts))"

text \<open>\<open>block_of_stmt\<close>, with \<open>n_blocks\<close> counted along.\<close>

fun number_blocks :: "nat \<Rightarrow> bool list \<Rightarrow> nat list" where
  "number_blocks n [] = []"
| "number_blocks n (s # ss) =
     (let n' = (if s then n + 1 else n) in (n' - 1) # number_blocks n' ss)"

definition count_blocks :: "bool list \<Rightarrow> nat" where
  "count_blocks ss = length (filter id ss)"

type_synonym marked_stmt = "statement \<times> bool \<times> nat"

fun label_blocks :: "marked_stmt list \<Rightarrow> (u32 \<Rightarrow> nat option) \<Rightarrow> (u32 \<Rightarrow> nat option)" where
  "label_blocks [] m = m"
| "label_blocks ((st, s, i) # zs) m =
     label_blocks zs (fold (\<lambda>l m. m(l_value l \<mapsto> i)) (st_labels st) m)"

section \<open>Statements\<close>

definition resolve_label :: "(u32 \<Rightarrow> nat option) \<Rightarrow> u32 \<Rightarrow> span \<Rightarrow> compile_error + nat" where
  "resolve_label lb i sp =
     (case lb i of
        Some b \<Rightarrow> Inr b
      | None \<Rightarrow> Inl \<lparr>ce_span = sp, ce_kind = UndefinedLabel i\<rparr>)"

fun item_op :: "item \<Rightarrow> ir_op option" where
  "item_op (BuiltinItem BLeft sc a b c l) = Some (Lft l)"
| "item_op (BuiltinItem BRight sc a b c l) = Some (Rgt l)"
| "item_op (BuiltinItem BMark sc a b c l) = Some (Wr 1 l)"
| "item_op (BuiltinItem BUnmark sc a b c l) = Some (Wr 0 l)"
| "item_op (DebuggerItem l) = Some (Brk l)"
| "item_op (CallItem n sp sc a b c l) = Some (Call n l)"
| "item_op it = None"

definition items_ops :: "item list \<Rightarrow> ir_op list" where
  "items_ops its = List.map_filter item_op its"

text \<open>An arm of a \<open>check\<close>; the flag is \<open>exit_used\<close>.\<close>

fun lower_arm :: "(u32 \<Rightarrow> nat option) \<Rightarrow> nat \<Rightarrow> check_arm \<Rightarrow> span \<Rightarrow> bool \<Rightarrow> compile_error + nat \<times> bool" where
  "lower_arm lb ex (ArmLabel i) sp used = on_ok (resolve_label lb i sp) (\<lambda>b. Inr (b, used))"
| "lower_arm lb ex ArmReturn sp used = Inr (ex, True)"

fun lower_succ :: "(u32 \<Rightarrow> nat option) \<Rightarrow> successor \<Rightarrow> span option \<Rightarrow> bool \<Rightarrow> (ir_term option \<times> bool) compiled" where
  "lower_succ lb (ToLabel i) None used = None"
| "lower_succ lb (ToLabel i) (Some sp) used =
     Some (on_ok (resolve_label lb i sp) (\<lambda>b. Inr (Some (Goto b), used)))"
| "lower_succ lb ToReturn sp used = Some (Inr (Some Return, used))"
| "lower_succ lb ToNext sp used = Some (Inr (None, used))"

text \<open>How the last item closes the block, if it does.\<close>

fun lower_close :: "(u32 \<Rightarrow> nat option) \<Rightarrow> nat \<Rightarrow> item \<Rightarrow> bool \<Rightarrow> (ir_term option \<times> bool) compiled" where
  "lower_close lb ex (GotoItem i sp w l) used =
     Some (on_ok (resolve_label lb i sp) (\<lambda>b. Inr (Some (Goto b), used)))"
| "lower_close lb ex (HaltItem l) used = Some (Inr (Some Halt, used))"
| "lower_close lb ex (CheckItem m bl sp msp bsp mw bw l) used =
     Some (on_ok (lower_arm lb ex m msp used) (\<lambda>(i, used).
       on_ok (lower_arm lb ex bl bsp used) (\<lambda>(j, used). Inr (Some (Check i j), used))))"
| "lower_close lb ex (BuiltinItem w sc a lsp c l) used = lower_succ lb sc lsp used"
| "lower_close lb ex (CallItem n sp sc a lsp c l) used = lower_succ lb sc lsp used"
| "lower_close lb ex (DebuggerItem l) used = Some (Inr (None, used))"

text \<open>The mutable variables of the loop.\<close>

record lowering =
  lw_blocks :: "ir_block list"
  lw_spans :: "(nat \<times> span) list"
  lw_current :: "ir_block option"
  lw_exit :: bool

definition open_block :: "statement \<Rightarrow> nat \<Rightarrow> lowering \<Rightarrow> lowering" where
  "open_block st i w = w\<lparr>lw_spans := lw_spans w @ [(i, st_span st)],
     lw_current := Some \<lparr>b_id = i, b_labels = stmt_labels st, b_line = st_line st, b_ops = [],
       b_term = Return, b_term_line = 0\<rparr>\<rparr>"

definition close_block :: "ir_block \<Rightarrow> ir_term \<Rightarrow> statement \<Rightarrow> lowering \<Rightarrow> lowering" where
  "close_block b t st w =
     w\<lparr>lw_blocks := lw_blocks w @ [b\<lparr>b_term := t, b_term_line := st_line st\<rparr>], lw_current := None\<rparr>"

fun lower_stmts :: "(u32 \<Rightarrow> nat option) \<Rightarrow> nat \<Rightarrow> marked_stmt list \<Rightarrow> lowering \<Rightarrow> lowering compiled" where
  "lower_stmts lb ex [] w = Some (Inr w)"
| "lower_stmts lb ex ((st, start, i) # rest) w =
     (let w = (if start then open_block st i w else w) in
      case lw_current w of
        None \<Rightarrow> None
      | Some b0 \<Rightarrow>
          (let b = b0\<lparr>b_ops := b_ops b0 @ items_ops (st_items st)\<rparr> in
           if st_items st = [] then None
           else
             compile_then (lower_close lb ex (last (st_items st)) (lw_exit w)) (\<lambda>(close, used).
               (let w = w\<lparr>lw_exit := used\<rparr> in
                lower_stmts lb ex rest
                  (case close of
                     Some t \<Rightarrow> close_block b t st w
                   | None \<Rightarrow>
                       (case rest of
                          [] \<Rightarrow> close_block b Return st w
                        | (st', start', i') # _ \<Rightarrow>
                            if start' then close_block b (FallThrough i') st w
                            else w\<lparr>lw_current := Some b\<rparr>))))))"

section \<open>Functions\<close>

definition exit_block :: "nat \<Rightarrow> ir_block" where
  "exit_block i = \<lparr>b_id = i, b_labels = [], b_line = 0, b_ops = [], b_term = Return, b_term_line = 0\<rparr>"

definition unreachable_warning :: "pmc_fn \<Rightarrow> span \<Rightarrow> diagnostic" where
  "unreachable_warning f sp = \<lparr>dg_code = ''unreachable-code'', dg_span = sp,
     dg_message = ''unreachable code in `'' @ pf_name f @ ''`'', dg_fix = None\<rparr>"

text \<open>\<open>block_spans[&b.id]\<close> of an absent id panics.\<close>

fun unreachable_warnings :: "pmc_fn \<Rightarrow> (nat \<times> span) list \<Rightarrow> nat set \<Rightarrow> ir_block list \<Rightarrow> diagnostic list option" where
  "unreachable_warnings f spans seen [] = Some []"
| "unreachable_warnings f spans seen (b # bs) =
     (if b_id b \<notin> seen \<and> b_line b \<noteq> 0 then
        (case map_of (rev spans) (b_id b) of
           None \<Rightarrow> None
         | Some sp \<Rightarrow>
             map_option ((#) (unreachable_warning f sp)) (unreachable_warnings f spans seen bs))
      else unreachable_warnings f spans seen bs)"

definition ir_function_of :: "pmc_fn \<Rightarrow> ir_block list \<Rightarrow> ir_function" where
  "ir_function_of f bs = \<lparr>fn_name = pf_name f, fn_line = pf_line f, fn_blocks = bs, fn_local = pf_local f\<rparr>"

definition marked_stmts :: "statement list \<Rightarrow> bool list \<Rightarrow> marked_stmt list" where
  "marked_stmts sts ss = zip sts (zip ss (number_blocks 0 ss))"

definition lower_function :: "pmc_fn \<Rightarrow> diagnostic list \<Rightarrow> (ir_function \<times> diagnostic list) compiled" where
  "lower_function f warnings =
     (if pf_body f = [] then Some (Inr (ir_function_of f [exit_block 0], warnings))
      else
        (case block_starts None (pf_body f) of
           None \<Rightarrow> None
         | Some ss \<Rightarrow>
             (let zs = marked_stmts (pf_body f) ss;
                  ex = count_blocks ss;
                  w0 = \<lparr>lw_blocks = [], lw_spans = [], lw_current = None, lw_exit = False\<rparr>
              in
              compile_then (lower_stmts (label_blocks zs Map.empty) ex zs w0) (\<lambda>w.
                (let bs = lw_blocks w @ (if lw_exit w then [exit_block ex] else []);
                     g = ir_function_of f bs
                 in
                 case bs of
                   [] \<Rightarrow> None
                 | b # _ \<Rightarrow>
                     (case reach_loop g {} [b_id b] of
                        None \<Rightarrow> None
                      | Some seen \<Rightarrow>
                          (case unreachable_warnings f (lw_spans w) seen bs of
                             None \<Rightarrow> None
                           | Some ws \<Rightarrow> Some (Inr (g, warnings @ ws)))))))))"

fun lower_functions :: "pmc_fn list \<Rightarrow> ir_function list \<Rightarrow> diagnostic list \<Rightarrow> (ir_function list \<times> diagnostic list) compiled" where
  "lower_functions [] gs warnings = Some (Inr (gs, warnings))"
| "lower_functions (f # fs) gs warnings =
     compile_then (lower_function f warnings) (\<lambda>(g, warnings). lower_functions fs (gs @ [g]) warnings)"

definition lower :: "pmc_program \<Rightarrow> (ir_program \<times> diagnostic list) compiled" where
  "lower p =
     compile_then (lower_functions (pp_functions p) [] []) (\<lambda>(gs, warnings).
       Some (Inr (\<lparr>ir_version = IR_VERSION, ir_functions = gs\<rparr>, warnings)))"

end
