(* ===== verification/Pmc_Lowering_Correct.thy ===== *)
theory Pmc_Lowering_Correct
  imports Pmc_Lowering
begin

text \<open>
  Lowering is correct. First what the loop over the statements computes, as equations on the list of
  statements marked with their blocks; from it, that lowering returns, with an error exactly when a label
  is undefined, and that the functions it returns are well-formed. Then the match of the two semantics:
  a place in the source corresponds to the operations left in its block.
\<close>

section \<open>Closing a block\<close>

fun uses_exit :: "item \<Rightarrow> bool" where
  "uses_exit (CheckItem m b sp msp bsp mw bw l) \<longleftrightarrow> m = ArmReturn \<or> b = ArmReturn"
| "uses_exit it \<longleftrightarrow> False"

definition undefined_label :: "(u32 \<Rightarrow> nat option) \<Rightarrow> (u32 \<times> span) list \<Rightarrow> compile_error option" where
  "undefined_label lb refs =
     map_option (\<lambda>(i, sp). \<lparr>ce_span = sp, ce_kind = UndefinedLabel i\<rparr>) (find (\<lambda>(i, sp). lb i = None) refs)"

lemma undefined_label_simps [simp]:
  "undefined_label lb [] = None"
  "undefined_label lb ((i, sp) # refs) =
     (if lb i = None then Some \<lparr>ce_span = sp, ce_kind = UndefinedLabel i\<rparr> else undefined_label lb refs)"
  by (simp_all add: undefined_label_def)

lemma undefined_label_append:
  "undefined_label lb (xs @ ys) = (case undefined_label lb xs of None \<Rightarrow> undefined_label lb ys | Some e \<Rightarrow> Some e)"
  by (induction xs) auto

lemma undefined_label_None: "undefined_label lb refs = None \<longleftrightarrow> (\<forall>(i, sp) \<in> set refs. lb i \<noteq> None)"
  by (auto simp: undefined_label_def find_None_iff)

text \<open>The terminator of an item whose labels are defined.\<close>

fun arm_block :: "(u32 \<Rightarrow> nat option) \<Rightarrow> nat \<Rightarrow> check_arm \<Rightarrow> nat" where
  "arm_block lb ex (ArmLabel i) = the (lb i)"
| "arm_block lb ex ArmReturn = ex"

fun succ_term :: "(u32 \<Rightarrow> nat option) \<Rightarrow> successor \<Rightarrow> ir_term option" where
  "succ_term lb ToNext = None"
| "succ_term lb (ToLabel i) = Some (Goto (the (lb i)))"
| "succ_term lb ToReturn = Some Return"

fun closing :: "(u32 \<Rightarrow> nat option) \<Rightarrow> nat \<Rightarrow> item \<Rightarrow> ir_term option" where
  "closing lb ex (GotoItem i sp w l) = Some (Goto (the (lb i)))"
| "closing lb ex (HaltItem l) = Some Halt"
| "closing lb ex (CheckItem m b sp msp bsp mw bw l) = Some (Check (arm_block lb ex m) (arm_block lb ex b))"
| "closing lb ex (BuiltinItem w sc a b c l) = succ_term lb sc"
| "closing lb ex (CallItem n sp sc a b c l) = succ_term lb sc"
| "closing lb ex (DebuggerItem l) = None"

lemma closing_terminates: "closing lb ex it = None \<longleftrightarrow> \<not> item_terminates it"
proof (cases it)
  case (BuiltinItem w sc a b c l)
  then show ?thesis by (cases sc) simp_all
next
  case (CallItem n sp sc a b c l)
  then show ?thesis by (cases sc) simp_all
qed simp_all

lemma lower_arm_eq:
  "lower_arm lb ex arm sp used =
     (case arm of
        ArmReturn \<Rightarrow> Inr (ex, True)
      | ArmLabel i \<Rightarrow> (case lb i of None \<Rightarrow> Inl \<lparr>ce_span = sp, ce_kind = UndefinedLabel i\<rparr> | Some b \<Rightarrow> Inr (b, used)))"
  by (cases arm) (auto simp: resolve_label_def split: option.split)

lemma lower_close_eq:
  assumes "spans_ok it"
  shows "lower_close lb ex it used =
    (case undefined_label lb (refers it) of
       Some e \<Rightarrow> Some (Inl e)
     | None \<Rightarrow> Some (Inr (closing lb ex it, used \<or> uses_exit it)))"
proof (cases it)
  case (BuiltinItem w sc a b c l)
  then show ?thesis using assms by (cases sc; cases b) (auto simp: resolve_label_def split: option.split)
next
  case (CallItem n sp sc a b c l)
  then show ?thesis using assms by (cases sc; cases b) (auto simp: resolve_label_def split: option.split)
next
  case (CheckItem m b sp msp bsp mw bw l)
  then show ?thesis
    by (auto simp: lower_arm_eq split: check_arm.split option.split)
qed (auto simp: resolve_label_def split: option.split)

section \<open>The blocks of a list of statements\<close>

abbreviation z_items :: "marked_stmt \<Rightarrow> item list" where "z_items z \<equiv> st_items (fst z)"
abbreviation z_start :: "marked_stmt \<Rightarrow> bool" where "z_start z \<equiv> fst (snd z)"
abbreviation z_block :: "marked_stmt \<Rightarrow> nat" where "z_block z \<equiv> snd (snd z)"

fun block_rest :: "(u32 \<Rightarrow> nat option) \<Rightarrow> nat \<Rightarrow> marked_stmt list \<Rightarrow> ir_op list \<times> ir_term \<times> u32" where
  "block_rest lb ex [] = ([], Return, 0)"
| "block_rest lb ex (z # rest) =
     (let ops = items_ops (z_items z); line = st_line (fst z) in
      case closing lb ex (last (z_items z)) of
        Some t \<Rightarrow> (ops, t, line)
      | None \<Rightarrow>
          (case rest of
             [] \<Rightarrow> (ops, Return, line)
           | z' # _ \<Rightarrow>
               if z_start z' then (ops, FallThrough (z_block z'), line)
               else (ops @ fst (block_rest lb ex rest), snd (block_rest lb ex rest))))"

definition fill :: "ir_block \<Rightarrow> ir_op list \<times> ir_term \<times> u32 \<Rightarrow> ir_block" where
  "fill b r = b\<lparr>b_ops := b_ops b @ fst r, b_term := fst (snd r), b_term_line := snd (snd r)\<rparr>"

definition new_block :: "statement \<Rightarrow> nat \<Rightarrow> ir_block" where
  "new_block st i = \<lparr>b_id = i, b_labels = stmt_labels st, b_line = st_line st, b_ops = [], b_term = Return, b_term_line = 0\<rparr>"

fun new_blocks :: "(u32 \<Rightarrow> nat option) \<Rightarrow> nat \<Rightarrow> marked_stmt list \<Rightarrow> ir_block list" where
  "new_blocks lb ex [] = []"
| "new_blocks lb ex (z # rest) =
     (if z_start z then [fill (new_block (fst z) (z_block z)) (block_rest lb ex (z # rest))] else [])
     @ new_blocks lb ex rest"

text \<open>What \<open>starts\<close> has seen to: the statement after the end of a block starts one, and so does a labelled one.\<close>

fun chained :: "marked_stmt list \<Rightarrow> bool" where
  "chained (z # z' # zs) \<longleftrightarrow>
     (z_start z' \<longleftrightarrow> item_terminates (last (z_items z)) \<or> st_labels (fst z') \<noteq> []) \<and> chained (z' # zs)"
| "chained zs \<longleftrightarrow> True"

definition ready :: "marked_stmt list \<Rightarrow> lowering \<Rightarrow> bool" where
  "ready zs w \<longleftrightarrow> (case zs of [] \<Rightarrow> lw_current w = None | z # _ \<Rightarrow> (lw_current w = None) = z_start z)"

definition opened :: "lowering \<Rightarrow> marked_stmt list \<Rightarrow> (u32 \<Rightarrow> nat option) \<Rightarrow> nat \<Rightarrow> ir_block list" where
  "opened w zs lb ex = (case lw_current w of None \<Rightarrow> [] | Some b \<Rightarrow> [fill b (block_rest lb ex zs)])"

definition z_spans :: "marked_stmt list \<Rightarrow> (nat \<times> span) list" where
  "z_spans zs = map (\<lambda>z. (z_block z, st_span (fst z))) (filter z_start zs)"

abbreviation zs_refers :: "marked_stmt list \<Rightarrow> (u32 \<times> span) list" where
  "zs_refers zs \<equiv> body_refers (map fst zs)"

lemma lower_stmts_step:
  assumes z: "stmt_ok (fst z)" and ready: "ready (z # rest) w" and chain: "chained (z # rest)"
    and defined: "undefined_label lb (refers (last (z_items z))) = None"
  shows "\<exists>w'. lower_stmts lb ex (z # rest) w = lower_stmts lb ex rest w' \<and> ready rest w'
    \<and> lw_blocks w' @ opened w' rest lb ex @ new_blocks lb ex rest
        = lw_blocks w @ opened w (z # rest) lb ex @ new_blocks lb ex (z # rest)
    \<and> lw_exit w' = (lw_exit w \<or> uses_exit (last (z_items z)))
    \<and> lw_spans w' @ z_spans rest = lw_spans w @ z_spans (z # rest)"
proof -
  obtain st s i where zz: "z = (st, s, i)" by (cases z)
  let ?w = "if s then open_block st i w else w"
  obtain b0 where b0: "lw_current ?w = Some b0" "s \<Longrightarrow> b0 = new_block st i" "\<not> s \<Longrightarrow> lw_current w = Some b0"
    using ready by (auto simp: ready_def open_block_def new_block_def zz)
  have w: "lw_blocks ?w = lw_blocks w" "lw_exit ?w = lw_exit w"
    "lw_spans ?w = lw_spans w @ (if s then [(i, st_span st)] else [])"
    by (simp_all add: open_block_def)
  have items: "st_items st \<noteq> []" "spans_ok (last (st_items st))" using z by (simp_all add: stmt_ok_def zz)
  let ?b = "b0\<lparr>b_ops := b_ops b0 @ items_ops (st_items st)\<rparr>"
  let ?w1 = "?w\<lparr>lw_exit := lw_exit w \<or> uses_exit (last (st_items st))\<rparr>"
  let ?w2 = "case closing lb ex (last (st_items st)) of
               Some t \<Rightarrow> close_block ?b t st ?w1
             | None \<Rightarrow> (case rest of
                 [] \<Rightarrow> close_block ?b Return st ?w1
               | (st', start', i') # _ \<Rightarrow>
                   if start' then close_block ?b (FallThrough i') st ?w1 else ?w1\<lparr>lw_current := Some ?b\<rparr>)"
  have step: "lower_stmts lb ex (z # rest) w = lower_stmts lb ex rest ?w2"
    using items defined b0(1)
    by (simp add: zz Let_def lower_close_eq w(2) del: split_paired_All split_paired_Ex)
  have start: "lw_blocks w @ opened w (z # rest) lb ex @ new_blocks lb ex (z # rest)
      = lw_blocks w @ [fill b0 (block_rest lb ex (z # rest))] @ new_blocks lb ex rest"
    using b0 ready by (auto simp: opened_def zz ready_def)
  have ends: "ready rest ?w2
    \<and> lw_blocks ?w2 @ opened ?w2 rest lb ex = lw_blocks w @ [fill b0 (block_rest lb ex (z # rest))]
    \<and> lw_exit ?w2 = (lw_exit w \<or> uses_exit (last (st_items st))) \<and> lw_spans ?w2 = lw_spans ?w"
  proof (cases "closing lb ex (last (st_items st))")
    case (Some t)
    then have "item_terminates (last (st_items st))" using closing_terminates [of lb ex] by (metis option.distinct(1))
    then have "ready rest ?w2" using Some chain by (cases rest) (auto simp: ready_def close_block_def zz)
    then show ?thesis using Some w by (simp add: close_block_def opened_def fill_def zz)
  next
    case None
    show ?thesis
    proof (cases rest)
      case Nil
      then show ?thesis using None w by (simp add: close_block_def opened_def fill_def ready_def zz)
    next
      case (Cons z' zs)
      obtain st' s' i' where "z' = (st', s', i')" by (cases z')
      then show ?thesis using Cons None w
        by (simp add: close_block_def opened_def fill_def ready_def zz Let_def)
    qed
  qed
  have spans: "lw_spans ?w @ z_spans rest = lw_spans w @ z_spans (z # rest)" by (simp add: w(3) z_spans_def zz)
  show ?thesis
    by (intro exI [of _ ?w2] conjI) (use step start ends spans zz in simp_all)
qed

lemma lower_stmts_result:
  assumes "list_all (\<lambda>z. stmt_ok (fst z)) zs" "chained zs" "ready zs w" "undefined_label lb (zs_refers zs) = None"
  shows "\<exists>w'. lower_stmts lb ex zs w = Some (Inr w')
    \<and> lw_blocks w' = lw_blocks w @ opened w zs lb ex @ new_blocks lb ex zs
    \<and> lw_exit w' = (lw_exit w \<or> (\<exists>z \<in> set zs. uses_exit (last (z_items z))))
    \<and> lw_spans w' = lw_spans w @ z_spans zs"
  using assms
proof (induction zs arbitrary: w)
  case Nil
  then show ?case by (simp add: ready_def opened_def z_spans_def)
next
  case (Cons z zs)
  have chain: "chained zs" using Cons.prems(2) by (cases zs) simp_all
  have refs: "undefined_label lb (refers (last (z_items z))) = None" "undefined_label lb (zs_refers zs) = None"
    using Cons.prems(4) by (simp_all add: undefined_label_append split: option.splits)
  have z: "stmt_ok (fst z)" using Cons.prems(1) by simp
  obtain w1 where w1: "lower_stmts lb ex (z # zs) w = lower_stmts lb ex zs w1" "ready zs w1"
    "lw_blocks w1 @ opened w1 zs lb ex @ new_blocks lb ex zs
        = lw_blocks w @ opened w (z # zs) lb ex @ new_blocks lb ex (z # zs)"
    "lw_exit w1 = (lw_exit w \<or> uses_exit (last (z_items z)))" "lw_spans w1 @ z_spans zs = lw_spans w @ z_spans (z # zs)"
    using lower_stmts_step [OF z Cons.prems(3,2) refs(1)] by blast
  obtain w' where "lower_stmts lb ex zs w1 = Some (Inr w')"
    "lw_blocks w' = lw_blocks w1 @ opened w1 zs lb ex @ new_blocks lb ex zs"
    "lw_exit w' = (lw_exit w1 \<or> (\<exists>z \<in> set zs. uses_exit (last (z_items z))))"
    "lw_spans w' = lw_spans w1 @ z_spans zs"
    using Cons.IH [OF _ chain w1(2) refs(2)] Cons.prems(1) by auto
  then show ?case using w1 by (intro exI [of _ w']) auto
qed

lemma lower_stmts_error:
  assumes "list_all (\<lambda>z. stmt_ok (fst z)) zs" "chained zs" "ready zs w" "undefined_label lb (zs_refers zs) = Some e"
  shows "lower_stmts lb ex zs w = Some (Inl e)"
  using assms
proof (induction zs arbitrary: w)
  case (Cons z zs)
  have chain: "chained zs" using Cons.prems(2) by (cases zs) simp_all
  have z: "stmt_ok (fst z)" using Cons.prems(1) by simp
  obtain st s i where zz: "z = (st, s, i)" by (cases z)
  show ?case
  proof (cases "undefined_label lb (refers (last (z_items z)))")
    case (Some e')
    have "e' = e" using Cons.prems(4) Some by (simp add: undefined_label_append)
    moreover have "st_items st \<noteq> []" "spans_ok (last (st_items st))" using z by (simp_all add: stmt_ok_def zz)
    moreover have "lw_current (if s then open_block st i w else w) \<noteq> None"
      using Cons.prems(3) by (auto simp: ready_def open_block_def zz)
    ultimately show ?thesis using Some by (auto simp: zz Let_def lower_close_eq simp del: split_paired_All split_paired_Ex)
  next
    case None
    then have "undefined_label lb (zs_refers zs) = Some e" using Cons.prems(4) by (simp add: undefined_label_append)
    moreover obtain w1 where "lower_stmts lb ex (z # zs) w = lower_stmts lb ex zs w1" "ready zs w1"
      using lower_stmts_step [OF z Cons.prems(3,2) None] by blast
    ultimately show ?thesis using Cons.IH [OF _ chain] Cons.prems(1) by simp
  qed
qed simp

section \<open>The marks\<close>

lemma block_starts_Some:
  assumes "list_all stmt_ok sts" "stmt_ok p"
  shows "\<exists>ss. block_starts (Some p) sts = Some ss \<and> length ss = length sts
    \<and> chained ((p, s, i) # zip sts (zip ss (number_blocks n ss)))"
  using assms
proof (induction sts arbitrary: p s i n)
  case (Cons st sts)
  then have items: "st_items p \<noteq> []" by (simp add: stmt_ok_def)
  let ?s = "item_terminates (last (st_items p)) \<or> st_labels st \<noteq> []"
  let ?n = "if ?s then n + 1 else n"
  obtain ss where ss: "block_starts (Some st) sts = Some ss" "length ss = length sts"
    "chained ((st, ?s, ?n - 1) # zip sts (zip ss (number_blocks ?n ss)))"
    using Cons.IH [of st ?s "?n - 1" ?n] Cons.prems by auto
  have "block_starts (Some p) (st # sts) = Some (?s # ss)"
    using items ss(1) by (auto simp: terminates_def)
  then show ?case using ss(2,3) by (intro exI [of _ "?s # ss"]) (simp add: Let_def)
qed simp

lemma number_blocks_length [simp]: "length (number_blocks n ss) = length ss"
  by (induction ss arbitrary: n) (simp_all add: Let_def)

lemma number_blocks_starts:
  "map snd (filter fst (zip ss (number_blocks n ss))) = [n..<n + count_blocks ss]"
proof (induction ss arbitrary: n)
  case (Cons s ss)
  then show ?case using Cons.IH [of "Suc n"] Cons.IH [of n]
    by (cases s) (simp_all add: count_blocks_def Let_def upt_conv_Cons del: upt_Suc)
qed (simp add: count_blocks_def)

definition marked_ok :: "statement list \<Rightarrow> bool list \<Rightarrow> bool" where
  "marked_ok sts ss \<longleftrightarrow> map fst (marked_stmts sts ss) = sts \<and> chained (marked_stmts sts ss)
     \<and> z_start (hd (marked_stmts sts ss)) \<and> marked_stmts sts ss \<noteq> []
     \<and> map z_block (filter z_start (marked_stmts sts ss)) = [0..<count_blocks ss]"

lemma block_starts_ok:
  assumes "list_all stmt_ok sts" "sts \<noteq> []"
  shows "\<exists>ss. block_starts None sts = Some ss \<and> marked_ok sts ss"
proof -
  obtain st sts' where sts: "sts = st # sts'" using assms(2) by (cases sts) auto
  obtain ss where ss: "block_starts (Some st) sts' = Some ss" "length ss = length sts'"
    "chained ((st, True, 0) # zip sts' (zip ss (number_blocks 1 ss)))"
    using block_starts_Some [of sts' st True 0 1] assms(1) sts by auto
  have "block_starts None sts = Some (True # ss)" using ss(1) by (simp add: sts)
  moreover have len: "length (True # ss) = length sts" using ss(2) sts by simp
  moreover have "map z_block (filter z_start (zip xs (zip (b :: bool list) ns))) = map snd (filter fst (zip b ns))"
    if "length xs = length b" "length ns = length b" for xs :: "statement list" and b and ns :: "nat list"
    using that
  proof (induction b arbitrary: xs ns)
    case (Cons x b)
    then show ?case by (cases xs; cases ns) auto
  qed simp
  moreover have "map fst (marked_stmts sts (True # ss)) = sts" using len by (simp add: marked_stmts_def)
  ultimately show ?thesis using ss(3) number_blocks_starts [of "True # ss" 0]
    by (intro exI [of _ "True # ss"]) (simp add: marked_ok_def marked_stmts_def sts)
qed

lemma labelled_in_rest: "chained (y # zs) \<Longrightarrow> z \<in> set zs \<Longrightarrow> st_labels (fst z) \<noteq> [] \<Longrightarrow> z_start z"
  by (induction zs arbitrary: y) auto

lemma labelled_starts:
  assumes "chained zs" "z_start (hd zs)" "z \<in> set zs" "st_labels (fst z) \<noteq> []"
  shows "z_start z"
  using assms labelled_in_rest [of "hd zs" "tl zs" z] by (cases zs) auto

section \<open>Labels\<close>

lemma fold_labels:
  "fold (\<lambda>l m. m(l_value l \<mapsto> i)) ls m x = (if x \<in> l_value ` set ls then Some i else m x)"
  by (induction ls arbitrary: m) auto

lemma fold_stmt_labels:
  "fold (\<lambda>l m. m(l_value l \<mapsto> i)) (st_labels st) m x = (if x \<in> set (stmt_labels st) then Some i else m x)"
  by (simp add: fold_labels stmt_labels_def)

lemma find_label_None:
  "find (\<lambda>z. l \<in> set (stmt_labels (fst z))) zs = None \<longleftrightarrow> l \<notin> set (body_labels (map fst zs))"
  by (induction zs) auto

lemma label_blocks_eq:
  assumes "distinct (body_labels (map fst zs))"
  shows "label_blocks zs m l =
    (case find (\<lambda>z. l \<in> set (stmt_labels (fst z))) zs of Some z \<Rightarrow> Some (z_block z) | None \<Rightarrow> m l)"
  using assms
proof (induction zs arbitrary: m)
  case (Cons z zs)
  obtain st s i where z: "z = (st, s, i)" by (cases z)
  have "find (\<lambda>z. l \<in> set (stmt_labels (fst z))) zs = None" if "l \<in> set (stmt_labels st)"
    using Cons.prems that by (auto simp: find_label_None z)
  then show ?case using Cons by (auto simp: z fold_stmt_labels split: option.split)
qed simp

lemma from_label_find:
  "from_label l (map fst zs) =
     (case dropWhile (\<lambda>z. l \<notin> set (stmt_labels (fst z))) zs of
        [] \<Rightarrow> None | z # rest \<Rightarrow> Some (z_items z, map fst rest))"
  by (induction zs) auto

lemma label_target:
  assumes "distinct (body_labels (map fst zs))" "chained zs" "z_start (hd zs)"
    and "label_blocks zs Map.empty l = Some i"
  shows "\<exists>pre z rest. zs = pre @ z # rest \<and> z_start z \<and> z_block z = i
    \<and> from_label l (map fst zs) = Some (z_items z, map fst rest)"
proof -
  let ?P = "\<lambda>z. l \<in> set (stmt_labels (fst z))"
  obtain z where z: "find ?P zs = Some z" "z_block z = i"
    using assms(4) by (auto simp: label_blocks_eq [OF assms(1)] split: option.splits)
  then obtain k where k: "k < length zs" "?P (zs ! k)" "z = zs ! k" "\<forall>j < k. \<not> ?P (zs ! j)"
    by (auto simp: find_Some_iff)
  then have zs: "zs = take k zs @ z # drop (Suc k) zs" by (simp add: id_take_nth_drop [symmetric])
  moreover have "dropWhile (\<lambda>z. \<not> ?P z) zs = drop k zs"
  proof -
    have "\<not> ?P x" if x: "x \<in> set (take k zs)" for x
    proof -
      obtain j where "j < k" "x = zs ! j" using x k(1) by (auto simp: in_set_conv_nth simp del: split_paired_Ex)
      then show ?thesis using k(4) by blast
    qed
    then have "dropWhile (\<lambda>z. \<not> ?P z) (take k zs @ drop k zs) = dropWhile (\<lambda>z. \<not> ?P z) (drop k zs)"
      by (intro dropWhile_append2) blast
    also have "\<dots> = drop k zs" using k(1,2) by (simp add: Cons_nth_drop_Suc [symmetric])
    finally show ?thesis by simp
  qed
  then have "from_label l (map fst zs) = Some (z_items z, map fst (drop (Suc k) zs))"
    using k(1,3) by (simp add: from_label_find Cons_nth_drop_Suc [symmetric])
  moreover have "z_start z"
    by (rule labelled_starts [OF assms(2,3)]) (use k in \<open>auto simp: stmt_labels_def\<close>)
  ultimately show ?thesis using z(2) by blast
qed

lemma label_blocks_None:
  "distinct (body_labels (map fst zs)) \<Longrightarrow>
     label_blocks zs Map.empty l = None \<longleftrightarrow> l \<notin> set (body_labels (map fst zs))"
  by (simp add: label_blocks_eq find_label_None [symmetric] split: option.split)

section \<open>Blocks\<close>

definition block_ends :: "ir_op list \<times> ir_term \<times> u32 \<Rightarrow> point" where
  "block_ends r = (fst r, fst (snd r))"

lemma new_blocks_ids: "map b_id (new_blocks lb ex zs) = map z_block (filter z_start zs)"
  by (induction zs) (simp_all add: fill_def new_block_def)

lemma new_blocks_append: "\<exists>bs. new_blocks lb ex (pre @ zs) = bs @ new_blocks lb ex zs"
  by (induction pre) auto

lemma new_blocks_at:
  assumes "zs = pre @ z # rest" "z_start z"
  shows "fill (new_block (fst z) (z_block z)) (block_rest lb ex (z # rest)) \<in> set (new_blocks lb ex zs)"
  using new_blocks_append [of lb ex pre "z # rest"] assms by auto

lemma fill_point: "point_of (fill (new_block st i) r) = block_ends r" "b_id (fill (new_block st i) r) = i"
  "b_line (fill (new_block st i) r) = st_line st" "b_labels (fill (new_block st i) r) = stmt_labels st"
  by (simp_all add: fill_def new_block_def point_of_def block_ends_def)

lemma new_blocks_cases:
  "b \<in> set (new_blocks lb ex zs) \<Longrightarrow> \<exists>pre z rest. zs = pre @ z # rest \<and> z_start z
     \<and> b = fill (new_block (fst z) (z_block z)) (block_rest lb ex (z # rest))"
proof (induction zs)
  case (Cons z zs)
  show ?case
  proof (cases "b \<in> set (new_blocks lb ex zs)")
    case True
    then obtain pre y rest where "zs = pre @ y # rest" "z_start y"
      "b = fill (new_block (fst y) (z_block y)) (block_rest lb ex (y # rest))" using Cons.IH by blast
    then show ?thesis by (intro exI [of _ "z # pre"] exI [of _ y] exI [of _ rest]) simp
  next
    case False
    then have "z_start z" "b = fill (new_block (fst z) (z_block z)) (block_rest lb ex (z # zs))"
      using Cons.prems by (auto split: if_splits)
    then show ?thesis by (intro exI [of _ "[]"] exI [of _ z] exI [of _ zs]) simp
  qed
qed simp

text \<open>The targets of a terminator: a block, or the exit when some arm returns.\<close>

lemma closing_targets:
  assumes "closing lb ex it = Some t" "i \<in> set (targets t)" "spans_ok it" "undefined_label lb (refers it) = None"
  shows "(\<exists>l. lb l = Some i) \<or> uses_exit it \<and> i = ex"
proof (cases it)
  case (BuiltinItem w sc a b c l)
  then show ?thesis using assms by (cases sc; cases b) (auto split: if_splits)
next
  case (CallItem n sp sc a b c l)
  then show ?thesis using assms by (cases sc; cases b) (auto split: if_splits)
next
  case (CheckItem m b sp msp bsp mw bw l)
  then show ?thesis using assms by (cases m; cases b) (auto split: if_splits)
qed (use assms in \<open>auto split: if_splits\<close>)

lemma block_rest_targets:
  assumes "i \<in> set (targets (fst (snd (block_rest lb ex zs))))" "list_all (\<lambda>z. stmt_ok (fst z)) zs"
    and "undefined_label lb (zs_refers zs) = None"
  shows "(\<exists>l. lb l = Some i) \<or> (\<exists>z \<in> set zs. uses_exit (last (z_items z))) \<and> i = ex
    \<or> (\<exists>z \<in> set zs. z_start z \<and> z_block z = i)"
  using assms
proof (induction zs)
  case (Cons z zs)
  have refs: "undefined_label lb (refers (last (z_items z))) = None" "undefined_label lb (zs_refers zs) = None"
    using Cons.prems(3) by (simp_all add: undefined_label_append split: option.splits)
  have ok: "spans_ok (last (z_items z))" using Cons.prems(2) by (simp add: stmt_ok_def)
  show ?case
  proof (cases "closing lb ex (last (z_items z))")
    case (Some t)
    then have "i \<in> set (targets t)" using Cons.prems(1) by simp
    then show ?thesis using closing_targets [OF Some _ ok refs(1)] by auto
  next
    case None
    show ?thesis
    proof (cases zs)
      case Nil
      then show ?thesis using Cons.prems(1) None by simp
    next
      case (Cons z' zs')
      show ?thesis
      proof (cases "z_start z'")
        case True
        then show ?thesis using Cons.prems(1) None Cons by auto
      next
        case False
        then have "i \<in> set (targets (fst (snd (block_rest lb ex zs))))" using Cons.prems(1) None Cons by simp
        then show ?thesis using Cons.IH Cons.prems(2) refs(2) by auto
      qed
    qed
  qed
qed simp

section \<open>Functions\<close>

lemma block_rest_ops: "op \<in> set (fst (block_rest lb ex zs)) \<Longrightarrow> \<exists>it. item_op it = Some op"
proof (induction zs)
  case (Cons z zs)
  have here: "op \<in> set (items_ops (z_items z)) \<Longrightarrow> ?case"
    by (auto simp: items_ops_def map_filter_def)
  have split: "op \<in> set (items_ops (z_items z)) \<or> op \<in> set (fst (block_rest lb ex zs))"
    using Cons.prems by (cases "closing lb ex (last (z_items z))"; cases zs) (auto simp: Let_def split: if_splits)
  then show ?case using here Cons.IH by blast
qed simp

lemma item_op_symbols: "item_op it = Some op \<Longrightarrow> op_symbols_ok op"
  by (cases it rule: item_op.cases) (auto simp: op_symbols_ok_def)

lemma lowered_symbols: "symbols_ok (ir_function_of f (new_blocks lb ex zs @ (if u then [exit_block i] else [])))"
proof -
  have "op_symbols_ok op" if b: "b \<in> set (new_blocks lb ex zs)" and op: "op \<in> set (b_ops b)" for b op
  proof -
    obtain st j r where "b = fill (new_block st j) (block_rest lb ex r)" using new_blocks_cases [OF b] by blast
    then have "op \<in> set (fst (block_rest lb ex r))" using op by (simp add: fill_def new_block_def)
    then show ?thesis using block_rest_ops item_op_symbols by blast
  qed
  then show ?thesis by (auto simp: symbols_ok_def ir_function_of_def exit_block_def)
qed

text \<open>What lowering makes of a non-empty body: the list of marked statements, the exit's number, the function.\<close>

definition lowered_as :: "pmc_fn \<Rightarrow> marked_stmt list \<Rightarrow> nat \<Rightarrow> ir_function \<Rightarrow> bool" where
  "lowered_as f zs ex g \<longleftrightarrow> pf_body f = map fst zs \<and> zs \<noteq> [] \<and> body_ok (map fst zs)
     \<and> chained zs \<and> z_start (hd zs) \<and> map z_block (filter z_start zs) = [0..<ex]
     \<and> undefined_label (label_blocks zs Map.empty) (zs_refers zs) = None
     \<and> g = ir_function_of f (new_blocks (label_blocks zs Map.empty) ex zs
             @ (if \<exists>z \<in> set zs. uses_exit (last (z_items z)) then [exit_block ex] else []))"

lemma lowered_as_block_ids:
  assumes "lowered_as f zs ex g"
  shows "block_ids g = [0..<ex] @ (if \<exists>z \<in> set zs. uses_exit (last (z_items z)) then [ex] else [])"
    and "distinct (block_ids g)"
proof -
  show *: "block_ids g = [0..<ex] @ (if \<exists>z \<in> set zs. uses_exit (last (z_items z)) then [ex] else [])"
    using assms by (auto simp: lowered_as_def block_ids_def ir_function_of_def new_blocks_ids exit_block_def)
  show "distinct (block_ids g)" unfolding * by simp
qed

lemma lowered_as_stmts: "lowered_as f zs ex g \<Longrightarrow> list_all (\<lambda>z. stmt_ok (fst z)) zs"
  by (simp add: lowered_as_def body_ok_def list_all_iff)

lemma start_ids:
  "lowered_as f zs ex g \<Longrightarrow> z \<in> set zs \<Longrightarrow> z_start z \<Longrightarrow> z_block z < ex"
proof -
  assume a: "lowered_as f zs ex g" "z \<in> set zs" "z_start z"
  then have "z_block z \<in> set (map z_block (filter z_start zs))" by (simp del: split_paired_Ex)
  then show ?thesis using a(1) unfolding lowered_as_def by simp
qed

lemma lowered_as_valid:
  assumes "lowered_as f zs ex g"
  shows "valid_fn g"
proof -
  let ?lb = "label_blocks zs Map.empty"
  let ?used = "\<exists>z \<in> set zs. uses_exit (last (z_items z))"
  note a = assms [unfolded lowered_as_def]
  have g: "fn_blocks g = new_blocks ?lb ex zs @ (if ?used then [exit_block ex] else [])"
    using a by (simp add: ir_function_of_def)
  have ne: "fn_blocks g \<noteq> []" using a g by (cases zs) auto
  have "i \<in> set (block_ids g)" if b: "b \<in> set (new_blocks ?lb ex zs)" and i: "i \<in> set (targets (b_term b))" for b i
  proof -
    obtain pre z rest where z: "zs = pre @ z # rest" "z_start z"
      "b = fill (new_block (fst z) (z_block z)) (block_rest ?lb ex (z # rest))" using new_blocks_cases [OF b] by blast
    have i': "i \<in> set (targets (fst (snd (block_rest ?lb ex (z # rest)))))" using i z(3) by (simp add: fill_def)
    have stmts: "list_all (\<lambda>z. stmt_ok (fst z)) (z # rest)" using lowered_as_stmts [OF assms] z(1) by simp
    have refs: "undefined_label ?lb (zs_refers (z # rest)) = None"
    proof -
      have "zs_refers zs = zs_refers pre @ zs_refers (z # rest)" using z(1) by (simp add: body_refers_def)
      then show ?thesis using a by (simp add: undefined_label_append split: option.splits)
    qed
    have "set (z # rest) \<subseteq> set zs" using z(1) by auto
    then consider l where "?lb l = Some i" | "?used" "i = ex" | y where "y \<in> set zs" "z_start y" "z_block y = i"
      using block_rest_targets [OF i' stmts refs] by blast
    then show ?thesis
    proof cases
      case 1
      then obtain y where "y \<in> set zs" "z_start y" "z_block y = i"
        using label_target [of zs l i] a unfolding body_ok_def by fastforce
      then show ?thesis using start_ids [OF assms, of y] lowered_as_block_ids(1) [OF assms] by auto
    next
      case 2
      then show ?thesis using lowered_as_block_ids(1) [OF assms] by auto
    next
      case 3
      then show ?thesis using start_ids [OF assms, of y] lowered_as_block_ids(1) [OF assms] by auto
    qed
  qed
  moreover have "targets (b_term (exit_block ex)) = []" by (simp add: exit_block_def)
  ultimately show ?thesis using ne lowered_as_block_ids(2) [OF assms] by (auto simp: valid_fn_def g split: if_splits)
qed

lemma unreachable_warnings_Some:
  "\<forall>b \<in> set bs. b_line b = 0 \<or> b_id b \<in> fst ` set spans \<Longrightarrow> \<exists>ws. unreachable_warnings f spans seen bs = Some ws"
proof (induction bs)
  case (Cons b bs)
  have "b_line b = 0 \<or> map_of (rev spans) (b_id b) \<noteq> None" using Cons.prems by (simp add: map_of_eq_None_iff)
  moreover obtain ws where "unreachable_warnings f spans seen bs = Some ws" using Cons by auto
  ultimately show ?case by (cases "map_of (rev spans) (b_id b)") auto
qed simp

lemma lower_function_body:
  assumes "body_ok (pf_body f)" "pf_body f \<noteq> []"
  shows "\<exists>zs ex. (case undefined_label (label_blocks zs Map.empty) (body_refers (pf_body f)) of
      Some e \<Rightarrow> lower_function f ws = Some (Inl e)
    | None \<Rightarrow> \<exists>g ws'. lower_function f ws = Some (Inr (g, ws @ ws')) \<and> lowered_as f zs ex g)
    \<and> map fst zs = pf_body f"
proof -
  have ok: "list_all stmt_ok (pf_body f)" using assms(1) by (simp add: body_ok_def)
  obtain ss where ss: "block_starts None (pf_body f) = Some ss" "marked_ok (pf_body f) ss"
    using block_starts_ok [OF ok assms(2)] by blast
  define zs where "zs = marked_stmts (pf_body f) ss"
  define ex where "ex = count_blocks ss"
  let ?lb = "label_blocks zs Map.empty"
  let ?w0 = "\<lparr>lw_blocks = [], lw_spans = [], lw_current = None, lw_exit = False\<rparr>"
  have zs: "map fst zs = pf_body f" "chained zs" "z_start (hd zs)" "zs \<noteq> []"
    "map z_block (filter z_start zs) = [0..<ex]"
    using ss(2) by (simp_all add: marked_ok_def zs_def ex_def)
  have ready: "ready zs ?w0" using zs(3,4) by (cases zs) (simp_all add: ready_def)
  have stmts: "list_all (\<lambda>z. stmt_ok (fst z)) zs" using ok by (simp add: zs(1) [symmetric] list_all_iff)
  show ?thesis
  proof (cases "undefined_label ?lb (body_refers (pf_body f))")
    case (Some e)
    then have "undefined_label ?lb (zs_refers zs) = Some e" by (simp add: zs(1))
    from lower_stmts_error [OF stmts zs(2) ready this, of ex]
    have "lower_function f ws = Some (Inl e)"
      using assms(2) ss(1) by (simp add: lower_function_def Let_def zs_def ex_def)
    then show ?thesis using Some zs(1) by (intro exI [of _ zs] exI [of _ ex]) simp
  next
    case None
    then have refs: "undefined_label ?lb (zs_refers zs) = None" by (simp add: zs(1))
    obtain w where w: "lower_stmts ?lb ex zs ?w0 = Some (Inr w)" "lw_blocks w = new_blocks ?lb ex zs"
      "lw_exit w = (\<exists>z \<in> set zs. uses_exit (last (z_items z)))" "lw_spans w = z_spans zs"
      using lower_stmts_result [OF stmts zs(2) ready refs, of ex] by (auto simp: opened_def)
    let ?bs = "lw_blocks w @ (if lw_exit w then [exit_block ex] else [])"
    let ?g = "ir_function_of f ?bs"
    have g: "lowered_as f zs ex ?g"
      using zs refs assms(1) by (auto simp: lowered_as_def w(2,3))
    have valid: "valid_fn ?g" by (rule lowered_as_valid [OF g])
    then obtain b bs where bs: "?bs = b # bs" by (cases ?bs) (auto simp: valid_fn_def ir_function_of_def)
    have "set [b_id b] \<subseteq> set (block_ids ?g)" using bs by (simp add: block_ids_def ir_function_of_def)
    then obtain seen where seen: "reach_loop ?g {} [b_id b] = Some seen" using reach_loop_returns [OF valid] by blast
    have "\<forall>b \<in> set ?bs. b_line b = 0 \<or> b_id b \<in> fst ` set (lw_spans w)"
    proof
      fix b assume b: "b \<in> set ?bs"
      show "b_line b = 0 \<or> b_id b \<in> fst ` set (lw_spans w)"
      proof (cases "b \<in> set (new_blocks ?lb ex zs)")
        case True
        have "b_id b \<in> set (map b_id (new_blocks ?lb ex zs))" using True by simp
        then have "b_id b \<in> set (map z_block (filter z_start zs))" unfolding new_blocks_ids .
        then show ?thesis by (auto simp: w(4) z_spans_def image_image)
      next
        case False
        then have "b = exit_block ex" using b by (auto simp: w(2) split: if_splits)
        then show ?thesis by (simp add: exit_block_def)
      qed
    qed
    then obtain ws' where ws': "unreachable_warnings f (lw_spans w) seen ?bs = Some ws'"
      using unreachable_warnings_Some by blast
    have "lower_function f ws = Some (Inr (?g, ws @ ws'))"
      using assms(2) ss(1) w(1) bs seen ws'
      by (simp add: lower_function_def Let_def zs_def [symmetric] ex_def [symmetric])
    then show ?thesis using None zs(1) g by (intro exI [of _ zs] exI [of _ ex]) auto
  qed
qed

end
