(* ===== verification/Pmc_Simulation.thy ===== *)
theory Pmc_Simulation
  imports Pmc_Lowering_Correct
begin

text \<open>
  The source and its lowering run alike. A place in the source, the items still to come in a statement
  and the statements after it, stands for a point of the intermediate representation: the operations of
  what is left of the block, and its terminator. \<open>place_cases\<close> reads off what happens next on both
  sides; from it each run of one side is a run of the other.
\<close>

declare block_rest.simps(2) [simp del]
declare split_paired_Ex [simp del] split_paired_All [simp del]

section \<open>The point of a place\<close>

definition next_point :: "(u32 \<Rightarrow> nat option) \<Rightarrow> nat \<Rightarrow> marked_stmt list \<Rightarrow> point" where
  "next_point lb ex zs =
     (case zs of
        [] \<Rightarrow> ([], Return)
      | z # _ \<Rightarrow> if z_start z then ([], FallThrough (z_block z)) else block_ends (block_rest lb ex zs))"

definition items_point :: "(u32 \<Rightarrow> nat option) \<Rightarrow> nat \<Rightarrow> item list \<Rightarrow> marked_stmt list \<Rightarrow> point" where
  "items_point lb ex its zs =
     (case (if its = [] then None else closing lb ex (last its)) of
        Some t \<Rightarrow> (items_ops its, t)
      | None \<Rightarrow> (items_ops its @ fst (next_point lb ex zs), snd (next_point lb ex zs)))"

lemma items_point_nil [simp]: "items_point lb ex [] zs = next_point lb ex zs"
  by (simp add: items_point_def items_ops_def map_filter_def)

lemma block_point: "z_items z \<noteq> [] \<Longrightarrow> block_ends (block_rest lb ex (z # zs)) = items_point lb ex (z_items z) zs"
  by (auto simp: block_rest.simps block_ends_def items_point_def next_point_def Let_def split: option.split list.split)

lemma items_point_cons:
  assumes "its \<noteq> []"
  shows "items_point lb ex (it # its) zs =
    ((case item_op it of None \<Rightarrow> [] | Some op \<Rightarrow> [op]) @ fst (items_point lb ex its zs), snd (items_point lb ex its zs))"
  using assms by (auto simp: items_point_def items_ops_def map_filter_def split: option.split)

section \<open>Places\<close>

definition items_ok :: "(u32 \<Rightarrow> nat option) \<Rightarrow> item list \<Rightarrow> bool" where
  "items_ok lb its \<longleftrightarrow> its = [] \<or> list_all bare (butlast its) \<and> spans_ok (last its)
     \<and> undefined_label lb (refers (last its)) = None"

abbreviation label_map :: "marked_stmt list \<Rightarrow> u32 \<Rightarrow> nat option" where
  "label_map zs \<equiv> label_blocks zs Map.empty"

text \<open>A place of a lowered function, and the point it stands for.\<close>

definition place :: "marked_stmt list \<Rightarrow> nat \<Rightarrow> src_point \<Rightarrow> point \<Rightarrow> bool" where
  "place zs ex p q \<longleftrightarrow> (\<exists>pre rest. zs = pre @ rest \<and> snd p = map fst rest
     \<and> items_ok (label_map zs) (fst p)
     \<and> (\<forall>it \<in> set (fst p). uses_exit it \<longrightarrow> (\<exists>z \<in> set zs. uses_exit (last (z_items z))))
     \<and> q = items_point (label_map zs) ex (fst p) rest)"

text \<open>The intermediate representation may still have a jump to make.\<close>

definition arriving :: "marked_stmt list \<Rightarrow> nat \<Rightarrow> ir_function \<Rightarrow> src_point \<Rightarrow> point \<Rightarrow> bool" where
  "arriving zs ex g p q \<longleftrightarrow> place zs ex p q
     \<or> (\<exists>i b. q = ([], Goto i) \<and> block_at g i = Some b \<and> place zs ex p (point_of b))"

lemma placeI:
  assumes "zs = pre @ rest" "items_ok (label_map zs) its"
    and "\<forall>it \<in> set its. uses_exit it \<longrightarrow> (\<exists>z \<in> set zs. uses_exit (last (z_items z)))"
  shows "place zs ex (its, map fst rest) (items_point (label_map zs) ex its rest)"
  using assms unfolding place_def by auto

lemma bare_no_exit: "bare it \<Longrightarrow> \<not> uses_exit it"
  by (cases it) simp_all

lemma place_done: "place zs ex ([], []) ([], Return)"
  unfolding place_def
  by (intro exI [of _ zs] exI [of _ "[]"]) (simp add: items_ok_def next_point_def)

lemma stmt_place:
  assumes "lowered_as f zs ex g" "zs = pre @ z # rest"
  shows "place zs ex (z_items z, map fst rest) (block_ends (block_rest (label_map zs) ex (z # rest)))"
proof -
  have ok: "stmt_ok (fst z)" using lowered_as_stmts [OF assms(1)] assms(2) by simp
  have "zs_refers zs = zs_refers pre @ refers (last (z_items z)) @ zs_refers rest" using assms(2) by (simp add: body_refers_def)
  then have "undefined_label (label_map zs) (refers (last (z_items z))) = None"
    using assms(1) by (simp add: lowered_as_def undefined_label_append split: option.splits)
  then have items: "items_ok (label_map zs) (z_items z)" using ok by (simp add: items_ok_def stmt_ok_def)
  have "it = last (z_items z)" if it: "it \<in> set (z_items z)" "uses_exit it" for it
  proof -
    have "z_items z = butlast (z_items z) @ [last (z_items z)]" using ok by (simp add: stmt_ok_def)
    then have "it \<in> set (butlast (z_items z)) \<or> it = last (z_items z)" using it(1) by (metis in_set_conv_decomp in_set_butlastD rotate1.simps(2) set_ConsD set_rotate1)
    then show ?thesis using ok it(2) bare_no_exit by (auto simp: stmt_ok_def list_all_iff)
  qed
  then have ex: "\<forall>it \<in> set (z_items z). uses_exit it \<longrightarrow> (\<exists>z \<in> set zs. uses_exit (last (z_items z)))"
    using assms(2) by (metis in_set_conv_decomp)
  have "zs = (pre @ [z]) @ rest" using assms(2) by simp
  from placeI [OF this items ex]
  show ?thesis using ok by (simp add: block_point stmt_ok_def)
qed

lemma start_block:
  assumes "lowered_as f zs ex g" "zs = pre @ z # rest" "z_start z"
  shows "\<exists>b. block_at g (z_block z) = Some b \<and> point_of b = block_ends (block_rest (label_map zs) ex (z # rest))
    \<and> place zs ex (z_items z, map fst rest) (point_of b)"
proof -
  let ?b = "fill (new_block (fst z) (z_block z)) (block_rest (label_map zs) ex (z # rest))"
  have "?b \<in> set (fn_blocks g)"
    using new_blocks_at [OF assms(2,3), of "label_map zs" ex] assms(1) by (auto simp: lowered_as_def ir_function_of_def)
  then have "block_at g (z_block z) = Some ?b"
    using lowered_as_block_ids(2) [OF assms(1)] by (simp add: block_at_Some fill_point)
  then show ?thesis using stmt_place [OF assms(1,2)] by (intro exI [of _ ?b]) (simp add: fill_point)
qed

lemma label_place:
  assumes "lowered_as f zs ex g" "label_map zs l \<noteq> None"
  shows "\<exists>p b. from_label l (pf_body f) = Some p \<and> block_at g (the (label_map zs l)) = Some b
    \<and> place zs ex p (point_of b)"
proof -
  obtain i where i: "label_map zs l = Some i" using assms(2) by blast
  obtain pre z rest where z: "zs = pre @ z # rest" "z_start z" "z_block z = i"
    "from_label l (map fst zs) = Some (z_items z, map fst rest)"
    using label_target [OF _ _ _ i] assms(1) unfolding lowered_as_def body_ok_def by blast
  obtain b where b: "block_at g (z_block z) = Some b" "place zs ex (z_items z, map fst rest) (point_of b)"
    using start_block [OF assms(1) z(1,2)] by blast
  have body: "pf_body f = map fst zs" using assms(1) by (simp add: lowered_as_def)
  show ?thesis
    by (intro exI [of _ "(z_items z, map fst rest)"] exI [of _ b] conjI)
      (simp_all only: body z(4) i option.sel b b(1) [unfolded z(3)])
qed

lemma exit_place:
  assumes "lowered_as f zs ex g" "\<exists>z \<in> set zs. uses_exit (last (z_items z))"
  shows "\<exists>b. block_at g ex = Some b \<and> point_of b = ([], Return)"
proof -
  have "exit_block ex \<in> set (fn_blocks g)" using assms by (simp add: lowered_as_def ir_function_of_def)
  then have "block_at g ex = Some (exit_block ex)"
    using lowered_as_block_ids(2) [OF assms(1)] by (simp add: block_at_Some exit_block_def)
  then show ?thesis by (simp add: exit_block_def point_of_def)
qed

section \<open>What happens next\<close>

definition succ_target :: "marked_stmt list \<Rightarrow> marked_stmt list \<Rightarrow> nat \<Rightarrow> successor \<Rightarrow> point" where
  "succ_target zs rest ex sc =
     (case succ_term (label_map zs) sc of Some t \<Rightarrow> ([], t) | None \<Rightarrow> next_point (label_map zs) ex rest)"

lemma succ_arrives:
  assumes "lowered_as f zs ex g" "zs = pre @ rest" "\<And>i. sc = ToLabel i \<Longrightarrow> label_map zs i \<noteq> None"
  shows "\<exists>p. succ_point f ([], map fst rest) sc = Some p \<and> arriving zs ex g p (succ_target zs rest ex sc)"
proof (cases sc)
  case ToNext
  have "place zs ex ([], map fst rest) (items_point (label_map zs) ex [] rest)"
    by (rule placeI [OF assms(2)]) (simp_all add: items_ok_def)
  then show ?thesis by (simp add: ToNext succ_target_def arriving_def)
next
  case (ToLabel i)
  then have "label_map zs i \<noteq> None" using assms(3) by simp
  then obtain p b where "from_label i (pf_body f) = Some p" "block_at g (the (label_map zs i)) = Some b"
    "place zs ex p (point_of b)" using label_place [OF assms(1)] by blast
  then show ?thesis by (auto simp: ToLabel succ_target_def arriving_def)
next
  case ToReturn
  then show ?thesis by (simp add: succ_target_def arriving_def place_done)
qed

lemma arm_arrives:
  assumes "lowered_as f zs ex g" "\<And>i. arm = ArmLabel i \<Longrightarrow> label_map zs i \<noteq> None"
    and "arm = ArmReturn \<Longrightarrow> \<exists>z \<in> set zs. uses_exit (last (z_items z))"
  shows "\<exists>p b. succ_point f p0 (arm_succ arm) = Some p \<and> block_at g (arm_block (label_map zs) ex arm) = Some b
    \<and> place zs ex p (point_of b)"
proof (cases arm)
  case (ArmLabel i)
  then show ?thesis using label_place [OF assms(1)] assms(2) by simp
next
  case ArmReturn
  then obtain b where "block_at g ex = Some b" "point_of b = ([], Return)" using exit_place [OF assms(1)] assms(3) by blast
  then show ?thesis using ArmReturn by (simp add: place_done)
qed

text \<open>A place before an item: the operation of the item, the end at \<open>halt\<close>, or a jump.\<close>

definition item_runs :: "pmc_fn \<Rightarrow> marked_stmt list \<Rightarrow> nat \<Rightarrow> ir_function \<Rightarrow> item \<Rightarrow> src_point \<Rightarrow> ir_op \<Rightarrow> point \<Rightarrow> bool" where
  "item_runs f zs ex g it p op q \<longleftrightarrow> item_op it = Some op
     \<and> (\<forall>mf. \<exists>sc p'. item_succ it mf = Some sc \<and> succ_point f p sc = Some p' \<and> arriving zs ex g p' q)"

definition item_jumps :: "pmc_fn \<Rightarrow> marked_stmt list \<Rightarrow> nat \<Rightarrow> ir_function \<Rightarrow> item \<Rightarrow> src_point \<Rightarrow> ir_term \<Rightarrow> bool" where
  "item_jumps f zs ex g it p t \<longleftrightarrow> item_op it = None
     \<and> (\<forall>mf. \<exists>sc p' i b. item_succ it mf = Some sc \<and> succ_point f p sc = Some p'
          \<and> goes t mf = Some i \<and> block_at g i = Some b \<and> place zs ex p' (point_of b))"

lemma last_item_next:
  assumes L: "lowered_as f zs ex g" and zs: "zs = pre @ rest" and ok: "items_ok (label_map zs) [it]"
    and exits: "uses_exit it \<longrightarrow> (\<exists>z \<in> set zs. uses_exit (last (z_items z)))"
    and q: "q = items_point (label_map zs) ex [it] rest"
  shows "(\<exists>op q'. q = (op # fst q', snd q') \<and> item_runs f zs ex g it ([], map fst rest) op q')
    \<or> (\<exists>l. it = HaltItem l) \<and> q = ([], Halt)
    \<or> (\<exists>t. q = ([], t) \<and> item_jumps f zs ex g it ([], map fst rest) t)"
proof -
  let ?lb = "label_map zs"
  have it: "spans_ok it" "undefined_label ?lb (refers it) = None" using ok by (simp_all add: items_ok_def)
  have runs: ?thesis if op: "item_op it = Some op" and sc: "\<And>mf. item_succ it mf = Some sc"
    and c: "closing ?lb ex it = succ_term ?lb sc" and l: "\<And>i. sc = ToLabel i \<Longrightarrow> ?lb i \<noteq> None" for op sc
  proof -
    let ?q = "succ_target zs rest ex sc"
    have "q = (op # fst ?q, snd ?q)"
      using q op c by (auto simp: items_point_def items_ops_def map_filter_def succ_target_def split: option.split)
    moreover have "item_runs f zs ex g it ([], map fst rest) op ?q"
      using succ_arrives [OF L zs l] op sc by (auto simp: item_runs_def)
    ultimately show ?thesis by blast
  qed
  have jumps: ?thesis if op: "item_op it = None" and c: "closing ?lb ex it = Some t"
    and j: "item_jumps f zs ex g it ([], map fst rest) t" for t
    using q op c j by (simp add: items_point_def items_ops_def map_filter_def)
  show ?thesis
  proof (cases it)
    case (BuiltinItem w sc a b c l)
    obtain op where "item_op it = Some op" using BuiltinItem by (cases w) simp_all
    moreover have "?lb i \<noteq> None" if "sc = ToLabel i" for i
      using it BuiltinItem that by (cases b) (auto split: if_splits)
    ultimately show ?thesis by (intro runs [of op sc]) (simp_all add: BuiltinItem)
  next
    case (CallItem n sp sc a b c l)
    have "?lb i \<noteq> None" if "sc = ToLabel i" for i
      using it CallItem that by (cases b) (auto split: if_splits)
    then show ?thesis by (intro runs [of "Call n l" sc]) (simp_all add: CallItem)
  next
    case (DebuggerItem l)
    show ?thesis by (rule runs [of "Brk l" ToNext]) (simp_all add: DebuggerItem)
  next
    case (CheckItem m bl sp msp bsp mw bw l)
    have defs: "\<And>i. m = ArmLabel i \<Longrightarrow> ?lb i \<noteq> None" "\<And>i. bl = ArmLabel i \<Longrightarrow> ?lb i \<noteq> None"
      using it(2) CheckItem by (auto simp: undefined_label_append split: if_splits check_arm.splits)
    have rets: "m = ArmReturn \<Longrightarrow> \<exists>z \<in> set zs. uses_exit (last (z_items z))"
      "bl = ArmReturn \<Longrightarrow> \<exists>z \<in> set zs. uses_exit (last (z_items z))" using exits CheckItem by auto
    show ?thesis
    proof (rule jumps)
      show "item_jumps f zs ex g it ([], map fst rest) (Check (arm_block ?lb ex m) (arm_block ?lb ex bl))"
        using arm_arrives [OF L defs(1) rets(1)] arm_arrives [OF L defs(2) rets(2)]
        by (auto simp: item_jumps_def CheckItem)
    qed (simp_all add: CheckItem)
  next
    case (HaltItem l)
    then show ?thesis using q by (simp add: items_point_def items_ops_def map_filter_def)
  next
    case (GotoItem i sp w l)
    then have "?lb i \<noteq> None" using it(2) by (auto split: if_splits)
    then have "item_jumps f zs ex g it ([], map fst rest) (Goto (the (?lb i)))"
      using label_place [OF L, of i] by (auto simp: item_jumps_def GotoItem)
    then show ?thesis by (rule jumps [rotated 2]) (simp_all add: GotoItem)
  qed
qed

lemma item_next:
  assumes L: "lowered_as f zs ex g" and P: "place zs ex (it # its, sts) q"
  shows "(\<exists>op q'. q = (op # fst q', snd q') \<and> item_runs f zs ex g it (its, sts) op q')
    \<or> (\<exists>l. it = HaltItem l) \<and> q = ([], Halt)
    \<or> (\<exists>t. q = ([], t) \<and> item_jumps f zs ex g it (its, sts) t)"
proof -
  let ?lb = "label_map zs"
  obtain pre rest where P': "zs = pre @ rest" "sts = map fst rest" "items_ok ?lb (it # its)"
    "\<forall>x \<in> set (it # its). uses_exit x \<longrightarrow> (\<exists>z \<in> set zs. uses_exit (last (z_items z)))"
    "q = items_point ?lb ex (it # its) rest" using P unfolding place_def fst_conv snd_conv by blast
  show ?thesis
  proof (cases "its = []")
    case True
    have "items_ok ?lb [it]" "uses_exit it \<longrightarrow> (\<exists>z \<in> set zs. uses_exit (last (z_items z)))"
      "q = items_point ?lb ex [it] rest" using P'(3-5) True by simp_all
    from last_item_next [OF L P'(1) this] show ?thesis using True P'(2) by simp
  next
    case False
    let ?q = "items_point ?lb ex its rest"
    have bare: "bare it" "items_ok ?lb its" using P'(3) False by (simp_all add: items_ok_def)
    obtain op where op: "item_op it = Some op" "\<And>mf. item_succ it mf = Some ToNext"
    proof (cases it)
      case (BuiltinItem w sc a b c l)
      then show ?thesis using that bare(1) by (cases w) simp_all
    qed (use that bare(1) in simp_all)
    have "place zs ex (its, map fst rest) ?q" by (rule placeI [OF P'(1) bare(2)]) (use P'(4) in simp)
    then have "item_runs f zs ex g it (its, sts) op ?q" using op P'(2) by (simp add: item_runs_def arriving_def)
    moreover have "q = (op # fst ?q, snd ?q)" using P'(5) op(1) False by (simp add: items_point_cons)
    ultimately show ?thesis by blast
  qed
qed

lemma place_next:
  assumes L: "lowered_as f zs ex g" and P: "place zs ex ([], sts) q"
  shows "sts = [] \<and> q = ([], Return)
    \<or> (\<exists>st sts' i b. sts = st # sts' \<and> q = ([], FallThrough i) \<and> block_at g i = Some b \<and> place zs ex (st_items st, sts') (point_of b))
    \<or> (\<exists>st sts'. sts = st # sts' \<and> st_items st \<noteq> [] \<and> place zs ex (st_items st, sts') q)"
proof -
  let ?lb = "label_map zs"
  obtain pre rest where P': "zs = pre @ rest" "sts = map fst rest" "q = next_point ?lb ex rest"
    using P unfolding place_def by auto
  show ?thesis
  proof (cases rest)
    case Nil
    then show ?thesis using P' by (simp add: next_point_def)
  next
    case (Cons z rest')
    have z: "zs = pre @ z # rest'" using P'(1) Cons by simp
    have ne: "z_items z \<noteq> []" using lowered_as_stmts [OF L] z by (simp add: stmt_ok_def)
    show ?thesis
    proof (cases "z_start z")
      case True
      then show ?thesis using start_block [OF L z True] P' Cons by (auto simp: next_point_def)
    next
      case False
      then show ?thesis using stmt_place [OF L z] P' Cons ne by (auto simp: next_point_def)
    qed
  qed
qed

section \<open>Runs\<close>

lemma item_op_acts: "item_op it = Some op \<Longrightarrow> called op = item_callee it"
  "item_op it = Some op \<Longrightarrow> called op = None \<Longrightarrow> act D op s = item_act D it s"
  by (cases it rule: item_op.cases; auto)+

lemma no_op_acts: "item_op it = None \<Longrightarrow> item_callee it = None \<and> item_act D it s = Inr s"
  by (cases it rule: item_op.cases) simp_all

text \<open>How a source function and its lowering are related, an empty body included.\<close>

definition lowers :: "pmc_fn \<Rightarrow> ir_function \<Rightarrow> bool" where
  "lowers f g \<longleftrightarrow> (\<exists>zs ex. lowered_as f zs ex g)
     \<or> pf_body f = [] \<and> g = ir_function_of f [exit_block 0]"

definition at_place :: "pmc_fn \<Rightarrow> ir_function \<Rightarrow> src_point \<Rightarrow> point \<Rightarrow> bool" where
  "at_place f g p q \<longleftrightarrow> (\<exists>zs ex. lowered_as f zs ex g \<and> place zs ex p q)
     \<or> pf_body f = [] \<and> g = ir_function_of f [exit_block 0] \<and> p = ([], []) \<and> q = ([], Return)"

lemma lowers_name: "lowers f g \<Longrightarrow> fn_name g = pf_name f"
  by (auto simp: lowers_def lowered_as_def ir_function_of_def)

lemma lowers_entry: "lowers f g \<Longrightarrow> \<exists>q. entry_point g = Some q \<and> at_place f g (src_entry f) q"
proof (cases "pf_body f = []")
  case True
  assume "lowers f g"
  then have "g = ir_function_of f [exit_block 0]" using True by (auto simp: lowers_def lowered_as_def)
  then show ?thesis
    using True by (simp add: at_place_def src_entry_def entry_point_def ir_function_of_def exit_block_def point_of_def)
next
  case False
  assume "lowers f g"
  then obtain zs ex where L: "lowered_as f zs ex g" using False by (auto simp: lowers_def)
  obtain z rest where z: "zs = z # rest" using L by (cases zs) (simp_all add: lowered_as_def)
  let ?b = "fill (new_block (fst z) (z_block z)) (block_rest (label_map zs) ex (z # rest))"
  have st: "z_start z" and g: "fn_blocks g = ?b # tl (fn_blocks g)"
    using L z by (simp_all add: lowered_as_def ir_function_of_def)
  have "entry_point g = Some (point_of ?b)" by (subst g [THEN arg_cong, of "\<lambda>bs. entry_point (g\<lparr>fn_blocks := bs\<rparr>)", simplified]) (simp add: entry_point_def)
  moreover have "src_entry f = (z_items z, map fst rest)" using L z by (simp add: lowered_as_def src_entry_def)
  moreover have "place zs ex (z_items z, map fst rest) (point_of ?b)"
    using stmt_place [OF L, of "[]" z rest] z by (simp add: fill_point)
  ultimately show ?thesis using L by (auto simp: at_place_def)
qed

text \<open>The same, as what the proofs use: one step of a place.\<close>

definition src_linked :: "src_linkage \<Rightarrow> linkage \<Rightarrow> bool" where
  "src_linked E E' \<longleftrightarrow> (\<forall>n. rel_option lowers (E n) (E' n))"

lemma linked_callee:
  assumes "src_linked E E'" "E n = Some g"
  shows "\<exists>g' q. callee_of E' n = Some (g', q) \<and> lowers g g' \<and> at_place g g' (src_entry g) q"
proof -
  have "rel_option lowers (E n) (E' n)" using assms(1) by (simp add: src_linked_def)
  then obtain g' where "E' n = Some g'" "lowers g g'" using assms(2) by (auto simp: option_rel_Some1)
  then show ?thesis using lowers_entry by (fastforce simp: callee_of_Some)
qed

lemma linked_caller:
  assumes "src_linked E E'" "callee_of E' n = Some (g', q)"
  shows "\<exists>g. E n = Some g \<and> lowers g g' \<and> at_place g g' (src_entry g) q"
proof -
  have "E' n = Some g'" "entry_point g' = Some q" using assms(2) by (simp_all add: callee_of_Some)
  moreover have "rel_option lowers (E n) (E' n)" using assms(1) by (simp add: src_linked_def)
  ultimately obtain g where "E n = Some g" "lowers g g'" by (auto simp: option_rel_Some2)
  then show ?thesis using lowers_entry \<open>entry_point g' = Some q\<close> by fastforce
qed

definition arrives :: "pmc_fn \<Rightarrow> ir_function \<Rightarrow> src_point \<Rightarrow> point \<Rightarrow> bool" where
  "arrives f g p q \<longleftrightarrow> at_place f g p q
     \<or> (\<exists>i b. q = ([], Goto i) \<and> block_at g i = Some b \<and> at_place f g p (point_of b))"

lemma arriving_arrives: "lowered_as f zs ex g \<Longrightarrow> arriving zs ex g p q \<Longrightarrow> arrives f g p q"
  by (auto simp: arriving_def arrives_def at_place_def)

lemma at_itemE:
  assumes "at_place f g (it # its, sts) q"
  obtains (op) op q' where "q = (op # fst q', snd q')" "item_op it = Some op"
      "\<And>mf. \<exists>sc p'. item_succ it mf = Some sc \<and> succ_point f (its, sts) sc = Some p' \<and> arrives f g p' q'"
  | (halt) l where "it = HaltItem l" "q = ([], Halt)"
  | (jump) t where "q = ([], t)" "item_op it = None"
      "\<And>mf. \<exists>sc p' i b. item_succ it mf = Some sc \<and> succ_point f (its, sts) sc = Some p'
         \<and> goes t mf = Some i \<and> block_at g i = Some b \<and> at_place f g p' (point_of b)"
proof -
  obtain zs ex where L: "lowered_as f zs ex g" "place zs ex (it # its, sts) q" using assms by (auto simp: at_place_def)
  have A: "place zs ex p q \<Longrightarrow> at_place f g p q" for p q using L(1) unfolding at_place_def by blast
  from item_next [OF L] show ?thesis
  proof (elim disjE exE conjE)
    fix op q' assume q: "q = (op # fst q', snd q')" and r: "item_runs f zs ex g it (its, sts) op q'"
    then show ?thesis using arriving_arrives [OF L(1)] unfolding item_runs_def by (intro op [of op q']) blast+
  next
    fix t assume q: "q = ([], t)" and j: "item_jumps f zs ex g it (its, sts) t"
    then show ?thesis using A unfolding item_jumps_def by (intro jump [of t]) blast+
  qed (rule halt)
qed

lemma at_endE:
  assumes "at_place f g ([], sts) q"
  obtains (over) "sts = []" "q = ([], Return)"
  | (falls) st sts' i b where "sts = st # sts'" "q = ([], FallThrough i)" "block_at g i = Some b"
      "at_place f g (st_items st, sts') (point_of b)"
  | (same) st sts' where "sts = st # sts'" "st_items st \<noteq> []" "at_place f g (st_items st, sts') q"
proof (cases "\<exists>zs ex. lowered_as f zs ex g \<and> place zs ex ([], sts) q")
  case True
  then obtain zs ex where L: "lowered_as f zs ex g" "place zs ex ([], sts) q" by blast
  have A: "place zs ex p q \<Longrightarrow> at_place f g p q" for p q using L(1) unfolding at_place_def by blast
  from place_next [OF L] show ?thesis
  proof (elim disjE exE conjE)
    fix st sts' i b assume "sts = st # sts'" "q = ([], FallThrough i)" "block_at g i = Some b"
      "place zs ex (st_items st, sts') (point_of b)"
    then show ?thesis using A by (intro falls)
  next
    fix st sts' assume "sts = st # sts'" "st_items st \<noteq> []" "place zs ex (st_items st, sts') q"
    then show ?thesis using A by (intro same)
  qed (rule over)
next
  case False
  then have "sts = [] \<and> q = ([], Return)" using assms unfolding at_place_def by blast
  then show ?thesis by (intro over) simp_all
qed

lemma arrives_exec:
  assumes "arrives f g p q" "\<And>q. at_place f g p q \<Longrightarrow> exec D E g q s r"
  shows "exec D E g q s r"
  using assms(1) unfolding arrives_def
proof (elim disjE exE conjE)
  fix i b assume i: "q = ([], Goto i)" "block_at g i = Some b" "at_place f g p (point_of b)"
  show ?thesis unfolding i(1) by (rule exec_goes [OF _ i(2) assms(2) [OF i(3)]]) simp
qed (rule assms(2))

subsection \<open>From the source\<close>

lemma source_lowered:
  assumes E: "src_linked E E'"
  shows "src_exec D E f p s r \<Longrightarrow> lowers f g \<Longrightarrow> at_place f g p q \<Longrightarrow> exec D E' g q s r"
proof (induction arbitrary: g q rule: src_exec.induct)
  case (src_done f s)
  from src_done(2) have "q = ([], Return)" by (rule at_endE) simp_all
  then show ?case using lowers_name [OF src_done(1)] by (auto intro: exec_leaves simp: returned_def)
next
  case (src_next f st sts s r)
  note IH = src_next.IH [OF src_next.prems(1)]
  from src_next.prems(2) show ?case
  proof (cases rule: at_endE)
    case (falls st' sts' i b)
    have "exec D E' g (point_of b) s r" using IH falls(1,4) by simp
    then show ?thesis unfolding falls(2) by (rule exec_goes [OF _ falls(3), rotated]) simp
  qed (use IH in auto)
next
  case (src_act it s s' sc f its sts p' r)
  note IH = src_act.IH [OF src_act.prems(1)]
  from src_act.prems(2) show ?case
  proof (cases rule: at_itemE)
    case (op op q')
    have "arrives f g p' q'" using op(3) [of "s_mf s'"] src_act.hyps(3,4) by simp
    then have "exec D E' g q' s' r" by (rule arrives_exec) (rule IH)
    moreover have "called op = None" "act D op s = Inr s'" using item_op_acts(1) [OF op(2)] item_op_acts(2) [OF op(2), of D s] src_act.hyps(1,2) by simp_all
    ultimately show ?thesis unfolding op(1) by (intro exec_act [of op D s s']) simp_all
  next
    case (jump t)
    have s: "s' = s" using no_op_acts [OF jump(2), of D s] src_act.hyps(2) by simp
    obtain i b where i: "goes t (s_mf s) = Some i" "block_at g i = Some b" "at_place f g p' (point_of b)"
      using jump(3) [of "s_mf s'"] src_act.hyps(3,4) s by auto
    show ?thesis unfolding jump(1) by (rule exec_goes [OF i(1,2)]) (use IH [OF i(3)] s in simp)
  qed (use src_act.hyps(3) in simp)
next
  case (src_halt it s s' f its sts)
  from src_halt.prems(2) show ?case
  proof (cases rule: at_itemE)
    case (op op q')
    then show ?thesis using op(3) [of "s_mf s'"] src_halt.hyps(3) by simp
  next
    case (jump t)
    then show ?thesis using jump(3) [of "s_mf s'"] src_halt.hyps(3) by simp
  next
    case (halt l)
    then show ?thesis using src_halt.hyps(2) by (simp add: exec_leaves)
  qed
next
  case (src_fault it s e s' f its sts)
  from src_fault.prems(2) show ?case
  proof (cases rule: at_itemE)
    case (op op q')
    show ?thesis unfolding op(1) using item_op_acts(1) [OF op(2)] item_op_acts(2) [OF op(2), of D s] src_fault.hyps by (intro exec_fault) simp_all
  qed (use src_fault.hyps no_op_acts [of it D s] in simp_all)
next
  case (src_call it n h s s' sc f its sts p' r)
  obtain h' qh where h: "callee_of E' n = Some (h', qh)" "lowers h h'" "at_place h h' (src_entry h) qh"
    using linked_callee [OF E src_call.hyps(2)] by blast
  have goes_back: "exec D E' h' qh s (Back s')" by (rule src_call.IH(1) [OF h(2,3)])
  from src_call.prems(2) show ?case
  proof (cases rule: at_itemE)
    case (op op q')
    have "arrives f g p' q'" using op(3) [of "s_mf s'"] src_call.hyps(4,5) by simp
    then have "exec D E' g q' s' r" by (rule arrives_exec) (rule src_call.IH(2) [OF src_call.prems(1)])
    then show ?thesis unfolding op(1) using item_op_acts(1) [OF op(2)] src_call.hyps(1)
      by (intro exec_call [OF _ h(1) goes_back]) simp_all
  qed (use src_call.hyps(1) no_op_acts [of it D s] in simp_all)
next
  case (src_call_ends it n h s r f its sts)
  obtain h' qh where h: "callee_of E' n = Some (h', qh)" "lowers h h'" "at_place h h' (src_entry h) qh"
    using linked_callee [OF E src_call_ends.hyps(2)] by blast
  have ends: "exec D E' h' qh s r" by (rule src_call_ends.IH [OF h(2,3)])
  from src_call_ends.prems(2) show ?case
  proof (cases rule: at_itemE)
    case (op op q')
    show ?thesis unfolding op(1) using item_op_acts(1) [OF op(2)] src_call_ends.hyps(1)
      by (intro exec_call_ends [OF _ h(1) ends src_call_ends.hyps(4)]) simp
  qed (use src_call_ends.hyps(1) no_op_acts [of it D s] in simp_all)
qed

subsection \<open>From the lowering\<close>

text \<open>A place with an item to run, past the end of a statement in the middle of a block.\<close>

lemma at_item_or_end:
  fixes D :: "'d device" and E :: src_linkage
  assumes "at_place f g p q"
  obtains (item) it its sts where "at_place f g (it # its, sts) q"
      "\<And>s r. src_exec D E f (it # its, sts) s r \<Longrightarrow> src_exec D E f p s r"
  | (over) "p = ([], [])" "q = ([], Return)"
  | (falls) i b p' where "q = ([], FallThrough i)" "block_at g i = Some b" "at_place f g p' (point_of b)"
      "\<And>s r. src_exec D E f p' s r \<Longrightarrow> src_exec D E f p s r"
proof (cases "fst p")
  case (Cons it its)
  then have "p = (it # its, snd p)" by (metis prod.collapse)
  then show ?thesis using item assms by metis
next
  case Nil
  then have p: "p = ([], snd p)" by (metis prod.collapse)
  from assms [unfolded p [symmetric]] p have "at_place f g ([], snd p) q" by simp
  then show ?thesis
  proof (cases rule: at_endE)
    case over
    then show ?thesis using p that(2) by simp
  next
    case (falls st sts' i b)
    have "p = ([], st # sts')" using p falls(1) by simp
    then show ?thesis using that(3) [OF falls(2,3,4)] src_next by blast
  next
    case (same st sts')
    obtain it its where items: "st_items st = it # its" using same(2) by (cases "st_items st") auto
    have "p = ([], st # sts')" using p same(1) by simp
    then show ?thesis using that(1) [of it its sts'] same(3) src_next [of _ _ f st sts'] unfolding items by blast
  qed
qed

lemma lowered_source:
  assumes E: "src_linked E E'"
  shows "exec D E' g q s r \<Longrightarrow> lowers f g \<Longrightarrow> arrives f g p q \<Longrightarrow> src_exec D E f p s r"
proof (induction arbitrary: f p rule: exec.induct)
  case (exec_act op s s' g ops t r)
  have "at_place f g p (op # ops, t)" using exec_act.prems(2) by (simp add: arrives_def)
  then show ?case
  proof (cases rule: at_item_or_end [of _ _ _ _ D E])
    case (item it its sts)
    from item(1) show ?thesis
    proof (cases rule: at_itemE)
      case (op op' q')
      then have q': "op' = op" "q' = (ops, t)" by (cases q', simp)+
      obtain sc p' where p': "item_succ it (s_mf s') = Some sc" "succ_point f (its, sts) sc = Some p'" "arrives f g p' q'"
        using op(3) by blast
      have "src_exec D E f p' s' r" by (rule exec_act.IH [OF exec_act.prems(1) p'(3) [unfolded q']])
      moreover have "item_callee it = None" "item_act D it s = Inr s'"
        using item_op_acts(1) [OF op(2)] item_op_acts(2) [OF op(2), of D s, symmetric] exec_act.hyps(1,2) q'(1)
        by simp_all
      ultimately show ?thesis using item(2) src_act p'(1,2) by blast
    qed simp_all
  qed simp_all
next
  case (exec_fault op s e s' g ops t)
  have "at_place f g p (op # ops, t)" using exec_fault.prems(2) by (simp add: arrives_def)
  then show ?case
  proof (cases rule: at_item_or_end [of _ _ _ _ D E])
    case (item it its sts)
    from item(1) show ?thesis
    proof (cases rule: at_itemE)
      case (op op' q')
      then have "item_callee it = None" "item_act D it s = Inl (e, s')"
        using item_op_acts(1) [OF op(2)] item_op_acts(2) [OF op(2), of D s, symmetric] exec_fault.hyps by simp_all
      then show ?thesis using item(2) src_fault by blast
    qed simp_all
  qed simp_all
next
  case (exec_call op n h qh s s' g ops t r)
  obtain h' where h: "E n = Some h'" "lowers h' h" "at_place h' h (src_entry h') qh"
    using linked_caller [OF E exec_call.hyps(2)] by blast
  have goes_back: "src_exec D E h' (src_entry h') s (Back s')"
    by (rule exec_call.IH(1) [OF h(2)]) (simp add: arrives_def h(3))
  have "at_place f g p (op # ops, t)" using exec_call.prems(2) by (simp add: arrives_def)
  then show ?case
  proof (cases rule: at_item_or_end [of _ _ _ _ D E])
    case (item it its sts)
    from item(1) show ?thesis
    proof (cases rule: at_itemE)
      case (op op' q')
      then have q': "op' = op" "q' = (ops, t)" by (cases q', simp)+
      obtain sc p' where p': "item_succ it (s_mf s') = Some sc" "succ_point f (its, sts) sc = Some p'" "arrives f g p' q'"
        using op(3) by blast
      have "src_exec D E f p' s' r" by (rule exec_call.IH(2) [OF exec_call.prems(1) p'(3) [unfolded q']])
      moreover have "item_callee it = Some n" using item_op_acts(1) [OF op(2)] exec_call.hyps(1) q'(1) by simp
      ultimately show ?thesis using item(2) src_call [OF _ h(1) goes_back p'(1,2)] by blast
    qed simp_all
  qed simp_all
next
  case (exec_call_ends op n h qh s r g ops t)
  obtain h' where h: "E n = Some h'" "lowers h' h" "at_place h' h (src_entry h') qh"
    using linked_caller [OF E exec_call_ends.hyps(2)] by blast
  have ends: "src_exec D E h' (src_entry h') s r"
    by (rule exec_call_ends.IH [OF h(2)]) (simp add: arrives_def h(3))
  have "at_place f g p (op # ops, t)" using exec_call_ends.prems(2) by (simp add: arrives_def)
  then show ?case
  proof (cases rule: at_item_or_end [of _ _ _ _ D E])
    case (item it its sts)
    from item(1) show ?thesis
    proof (cases rule: at_itemE)
      case (op op' q')
      then have "item_callee it = Some n" using item_op_acts(1) [OF op(2)] exec_call_ends.hyps(1) by simp
      then show ?thesis using item(2) src_call_ends [OF _ h(1) ends exec_call_ends.hyps(4)] by blast
    qed simp_all
  qed simp_all
next
  case (exec_goes t s i g b r)
  note IH = exec_goes.IH [OF exec_goes.prems(1)]
  show ?case
  proof (cases "at_place f g p ([], t)")
    case False
    then have "at_place f g p (point_of b)" using exec_goes.prems(2) exec_goes.hyps(1,2) by (auto simp: arrives_def)
    then show ?thesis by (intro IH) (simp add: arrives_def)
  next
    case True
    then show ?thesis
    proof (cases rule: at_item_or_end [of _ _ _ _ D E])
      case (item it its sts)
      from item(1) show ?thesis
      proof (cases rule: at_itemE)
        case (jump t')
        obtain sc p' where p': "item_succ it (s_mf s) = Some sc" "succ_point f (its, sts) sc = Some p'"
          "at_place f g p' (point_of b)"
          using jump(3) [of "s_mf s"] jump(1) exec_goes.hyps(1,2) by auto
        have "src_exec D E f p' s r" by (intro IH) (simp add: arrives_def p'(3))
        then show ?thesis using item(2) src_act [OF _ _ p'(1,2)] no_op_acts [OF jump(2)] by blast
      qed (use exec_goes.hyps(1) in simp_all)
    next
      case (falls j b' p')
      then have "at_place f g p' (point_of b)" using exec_goes.hyps(1,2) by simp
      then have "src_exec D E f p' s r" by (intro IH) (simp add: arrives_def)
      then show ?thesis using falls(4) by blast
    qed (use exec_goes.hyps(1) in simp_all)
  qed
next
  case (exec_tail t n h qh s r g)
  then have "at_place f g p ([], t)" by (auto simp: arrives_def)
  then show ?case
  proof (cases rule: at_item_or_end [of _ _ _ _ D E])
    case (item it its sts)
    from item(1) show ?thesis
    proof (cases rule: at_itemE)
      case (jump t')
      then show ?thesis using jump(3) [of True] exec_tail.hyps(1) by (cases t) auto
    qed (use exec_tail.hyps(1) in simp_all)
  qed (use exec_tail.hyps(1) in simp_all)
next
  case (exec_leaves g t s r)
  then have "at_place f g p ([], t)" by (auto simp: arrives_def)
  then show ?case
  proof (cases rule: at_item_or_end [of _ _ _ _ D E])
    case (item it its sts)
    from item(1) show ?thesis
    proof (cases rule: at_itemE)
      case (halt l)
      then have "r = Halts s" using exec_leaves.hyps by simp
      then show ?thesis using item(2) [OF src_halt [of it D s s]] halt(1) by simp
    next
      case (jump t')
      then show ?thesis using jump(3) [of True] exec_leaves.hyps by (cases t) auto
    qed simp
  next
    case over
    then have "r = returned f s" using exec_leaves.hyps lowers_name [OF exec_leaves.prems(1)]
      by (simp add: returned_def split: if_splits)
    then show ?thesis using over(1) by (simp add: src_done)
  qed (use exec_leaves.hyps in simp)
qed

lemma lowered_run:
  assumes "src_linked E E'"
  shows "run_fn D E' n s = src_run D E n s"
proof (rule option.expand)
  have "src_run D E n s = Some r \<longleftrightarrow> run_fn D E' n s = Some r" for r
  proof
    assume "src_run D E n s = Some r"
    then obtain g where g: "E n = Some g" "src_exec D E g (src_entry g) s r" by (auto simp: src_run_exec)
    then obtain g' q where "callee_of E' n = Some (g', q)" "lowers g g'" "at_place g g' (src_entry g) q"
      using linked_callee [OF assms] by blast
    then show "run_fn D E' n s = Some r" using source_lowered [OF assms g(2)] by (auto simp: run_fn_calls calls_def)
  next
    assume "run_fn D E' n s = Some r"
    then obtain g' q where g': "callee_of E' n = Some (g', q)" "exec D E' g' q s r" by (auto simp: run_fn_calls calls_def)
    then obtain g where "E n = Some g" "lowers g g'" "at_place g g' (src_entry g) q"
      using linked_caller [OF assms] by blast
    then show "src_run D E n s = Some r" using lowered_source [OF assms g'(2)] by (auto simp: src_run_exec arrives_def)
  qed
  then show "(run_fn D E' n s = None) = (src_run D E n s = None)"
    and "run_fn D E' n s \<noteq> None \<Longrightarrow> src_run D E n s \<noteq> None \<Longrightarrow> the (run_fn D E' n s) = the (src_run D E n s)"
    by (metis not_None_eq option.sel)+
qed

end
