(* ===== verification/Optimizer_Correct.thy ===== *)
theory Optimizer_Correct
  imports Optimizer
begin

text \<open>
  The properties of the PM-1 optimizer (\<open>crates/post-machine/src/optimizer\<close>): that it returns, keeps the
  structural invariant and changes no behaviour, on the default tape with every pass enabled and on
  any device with the gated passes disabled; and that the facts its value-based passes rest on are
  true of every run.
\<close>

section \<open>An example\<close>

text \<open>
  A module for the witnesses: \<open>main\<close> writes, steps there and back, calls a leaf that looks for the next
  blank cell and marks it, and breaks before it returns.
\<close>

definition example_block :: "nat \<Rightarrow> ir_op list \<Rightarrow> ir_term \<Rightarrow> ir_block" where
  "example_block i ops t = \<lparr>b_id = i, b_labels = [], b_line = 1, b_ops = ops, b_term = t, b_term_line = 1\<rparr>"

definition example_fn :: "string \<Rightarrow> ir_block list \<Rightarrow> ir_function" where
  "example_fn n bs = \<lparr>fn_name = n, fn_line = 1, fn_blocks = bs, fn_local = False\<rparr>"

definition example_main :: ir_function where
  "example_main = example_fn ''main''
     [example_block 0 [Wr 1 1, Rgt 1, Lft 1, Call ''inc'' 2] (Check 1 2),
      example_block 1 [Wr 1 3, Brk 4] Return,
      example_block 2 [Lft 5] (Goto 0)]"

definition example_inc :: ir_function where
  "example_inc = example_fn ''inc''
     [example_block 0 [Rgt 1] (Check 1 2), example_block 1 [] (Goto 0), example_block 2 [Wr 1 1] Return]"

definition example_ir :: ir_program where
  "example_ir = \<lparr>ir_version = IR_VERSION, ir_functions = [example_main, example_inc]\<rparr>"

definition example_options :: "string list \<Rightarrow> opt_options" where
  "example_options names = \<lparr>oo_level = O1, oo_disabled = set names, oo_capture = True, oo_inline_cap = None\<rparr>"

definition example_start :: "inf_tape ir_state" where
  "example_start = \<lparr>s_dev = it_new, s_mf = False, s_seen = []\<rparr>"

definition example_out :: "string list \<Rightarrow> ir_program" where
  "example_out names = fst (the (optimize example_ir (example_options names) []))"

lemma example_wf:
  "distinct (map fn_name (ir_functions example_ir))" "\<forall>f \<in> set (ir_functions example_ir). fn_ok f"
  by code_simp+

lemma example_start_ok: "it_ok (s_dev example_start)"
  by (simp add: example_start_def it_new_def it_ok_def in_i64_def om_ok_def)

lemma example_optimized:
  "optimize example_ir (example_options []) [] =
     Some (example_out [], fst (snd (the (optimize example_ir (example_options []) []))),
       snd (snd (the (optimize example_ir (example_options []) []))))"
  "optimize example_ir (example_options gated_pass_names) [] =
     Some (example_out gated_pass_names, fst (snd (the (optimize example_ir (example_options gated_pass_names) []))),
       snd (snd (the (optimize example_ir (example_options gated_pass_names) []))))"
proof -
  have some: "x = Some (fst (the x), fst (snd (the x)), snd (snd (the x)))" if "x \<noteq> None"
    for x :: "(ir_program \<times> (string \<times> ir_program) list \<times> opt_report) option" using that by auto
  have "optimize example_ir (example_options []) [] \<noteq> None"
    "optimize example_ir (example_options gated_pass_names) [] \<noteq> None" by code_simp+
  then show "optimize example_ir (example_options []) [] =
     Some (example_out [], fst (snd (the (optimize example_ir (example_options []) []))),
       snd (snd (the (optimize example_ir (example_options []) []))))"
    "optimize example_ir (example_options gated_pass_names) [] =
     Some (example_out gated_pass_names, fst (snd (the (optimize example_ir (example_options gated_pass_names) []))),
       snd (snd (the (optimize example_ir (example_options gated_pass_names) []))))"
    unfolding example_out_def using some by blast+
qed

section \<open>What the optimizer does not change\<close>

text \<open>
  C28: the optimizer preserves behaviour. A well-formed module (distinct names, the structural
  invariant, symbols of the two-symbol alphabet) optimized with any options behaves as before: linked
  with any other code, any function run on the infinite tape, from any state whose match flag was
  latched from the cell under the head as the machine does before the first instruction, ends with the
  same kind of termination, tape, match flag and breakpoint observations, or in both cases does not end.
\<close>

theorem optimizer_preserves:
  assumes "distinct (map fn_name (ir_functions ir))" "\<forall>f \<in> set (ir_functions ir). fn_ok f"
    and "optimize ir options snapshots = Some (ir', snapshots', report)"
    and "it_ok (s_dev s)" "s_mf s = (it_read (s_dev s) = 1)"
  shows "run_fn infinite_device (linked rest (ir_functions ir')) n s =
    run_fn infinite_device (linked rest (ir_functions ir)) n s"
proof -
  have "inf_store.coupled s" using assms(4,5) by (simp add: inf_store.coupled_def)
  moreover have "equivalent infinite_device inf_store.coupled rest ir ir'"
    by (rule optimize_equivalent [OF assms(1,2) inf_store.pipeline_good assms(3)])
  ultimately show ?thesis by (simp add: equivalent_def same_calls_def)
qed

theorem optimizer_preserves_witness:
  "run_fn infinite_device (linked Map.empty (ir_functions (example_out []))) ''main'' example_start =
     run_fn infinite_device (linked Map.empty (ir_functions example_ir)) ''main'' example_start
   \<and> run_fn infinite_device (linked Map.empty (ir_functions example_ir)) ''main'' example_start \<noteq> None
   \<and> map op_count (ir_functions (example_out [])) = [4, 2]"
proof (intro conjI)
  show "run_fn infinite_device (linked Map.empty (ir_functions (example_out []))) ''main'' example_start =
      run_fn infinite_device (linked Map.empty (ir_functions example_ir)) ''main'' example_start"
    by (rule optimizer_preserves [OF example_wf example_optimized(1) example_start_ok]) code_simp
  show "run_fn infinite_device (linked Map.empty (ir_functions example_ir)) ''main'' example_start \<noteq> None" by code_simp
  show "map op_count (ir_functions (example_out [])) = [4, 2]" by code_simp
qed

text \<open>
  C29: a volatile build changes no access. With the gated passes disabled the optimizer preserves
  behaviour on every device whatever, one that answers reads as it likes, faults at will or records
  every transaction, and from every state: the accesses and their order are the same.
\<close>

theorem gated_optimizer_preserves:
  assumes "distinct (map fn_name (ir_functions ir))" "\<forall>f \<in> set (ir_functions ir). fn_ok f"
    and "optimize ir options snapshots = Some (ir', snapshots', report)"
    and "set gated_pass_names \<subseteq> oo_disabled options"
  shows "run_fn D (linked rest (ir_functions ir')) n s = run_fn D (linked rest (ir_functions ir)) n s"
  using optimize_equivalent [OF assms(1,2) gated_good [OF assms(4)] assms(3), of D rest]
  by (simp add: equivalent_def same_calls_def)

text \<open>A device that records its transactions and answers every read with the length of the record.\<close>

definition recording_device :: "string list device" where
  "recording_device =
     \<lparr>d_left = \<lambda>d. Inr (d @ [''left'']), d_right = \<lambda>d. Inr (d @ [''right'']),
      d_write = \<lambda>i d. Inr (d @ [''write'']), d_read = \<lambda>d. Inr (of_nat (length d mod 3), d @ [''read''])\<rparr>"

theorem gated_optimizer_preserves_witness:
  "run_fn recording_device (linked Map.empty (ir_functions (example_out gated_pass_names))) ''main''
     \<lparr>s_dev = [], s_mf = True, s_seen = []\<rparr> =
   run_fn recording_device (linked Map.empty (ir_functions example_ir)) ''main'' \<lparr>s_dev = [], s_mf = True, s_seen = []\<rparr>
   \<and> example_out gated_pass_names \<noteq> example_ir"
proof
  show "run_fn recording_device (linked Map.empty (ir_functions (example_out gated_pass_names))) ''main''
     \<lparr>s_dev = [], s_mf = True, s_seen = []\<rparr> =
   run_fn recording_device (linked Map.empty (ir_functions example_ir)) ''main'' \<lparr>s_dev = [], s_mf = True, s_seen = []\<rparr>"
    by (rule gated_optimizer_preserves [OF example_wf example_optimized(2)]) (simp add: example_options_def)
  show "example_out gated_pass_names \<noteq> example_ir" by code_simp
qed

text \<open>
  C30: the optimizer returns, within its rounds, and keeps the structural invariant: the checks of a
  debug build after every pass would succeed. The result and every snapshot it adds are valid
  functions under the same names, and the snapshots it was given are kept.
\<close>

theorem optimizer_returns:
  assumes "distinct (map fn_name (ir_functions ir))" "\<forall>f \<in> set (ir_functions ir). fn_ok f"
  shows "\<exists>ir' new report. optimize ir options snapshots = Some (ir', snapshots @ new, report)
    \<and> or_rounds report \<le> MAX_ROUNDS
    \<and> (\<forall>p \<in> insert ir' (snd ` set new). map fn_name (ir_functions p) = map fn_name (ir_functions ir)
         \<and> (\<forall>f \<in> set (ir_functions p). validate_function f = Inr () \<and> symbols_ok f))"
proof -
  have "equivalent infinite_device inf_store.coupled Map.empty ir p \<Longrightarrow>
      map fn_name (ir_functions p) = map fn_name (ir_functions ir)
      \<and> (\<forall>f \<in> set (ir_functions p). validate_function f = Inr () \<and> symbols_ok f)" for p
    by (auto simp: equivalent_def fn_ok_def validate_valid)
  moreover obtain ir' new report where r: "optimize ir options snapshots = Some (ir', snapshots @ new, report)"
    "or_rounds report \<le> MAX_ROUNDS" "equivalent infinite_device inf_store.coupled Map.empty ir ir'"
    "\<forall>(name, p) \<in> set new. equivalent infinite_device inf_store.coupled Map.empty ir p"
    using optimize_inv [OF assms inf_store.pipeline_good] by blast
  have "equivalent infinite_device inf_store.coupled Map.empty ir p" if "p \<in> insert ir' (snd ` set new)" for p
    using that r(3,4) by auto
  ultimately show ?thesis using r(1,2) by (intro exI [of _ ir'] exI [of _ new] exI [of _ report]) blast
qed

theorem optimizer_returns_witness:
  "\<exists>ir' new report. optimize example_ir (example_options []) [] = Some (ir', [] @ new, report)
    \<and> or_rounds report \<le> MAX_ROUNDS
    \<and> (\<forall>p \<in> insert ir' (snd ` set new). map fn_name (ir_functions p) = map fn_name (ir_functions example_ir)
         \<and> (\<forall>f \<in> set (ir_functions p). validate_function f = Inr () \<and> symbols_ok f))"
  by (rule optimizer_returns [OF example_wf])

section \<open>The facts\<close>

context mark_store
begin

lemma facts_reach:
  assumes "valid_fn f" "block_entry_facts f = Some facts" "entry_point f = Some p" "stored s"
    and "reach D E f p s q s'"
  shows "stored s' \<and> (\<exists>x. holds x s' \<and> covered facts x q)"
proof -
  let ?P = "\<lambda>(q, s). stored s \<and> (\<exists>x. holds x s \<and> covered facts x q)"
  have next_ok: "?P (q', s2)" if a: "?P (q, s1)" "istep D (calls D E) f q s1 (Inr (q', s2))" for q s1 q' s2
  proof -
    obtain x where s1: "stored s1" "holds x s1" "covered facts x q" using a(1) by auto
    have s2: "stored s2" by (rule istep_keeps [OF keeps_stored a(2) s1(1)]) simp
    show ?thesis
    proof (cases "fst q")
      case (Cons op ops)
      then obtain t where q: "q = (op # ops, t)" by (cases q) simp
      have "holds (transfer_op x op) s2" using transfer_istep [OF a(2) [unfolded q] _ s1(1,2)] by blast
      moreover have "q' = (ops, t)" using a(2) unfolding q by (auto elim: istep_opE)
      ultimately show ?thesis using s2 s1(3) q by (auto simp: covered_Cons)
    next
      case Nil
      then obtain t where q: "q = ([], t)" by (cases q) simp
      obtain i b where b: "goes t (s_mf s1) = Some i" "block_at f i = Some b" "q' = point_of b" "s2 = s1"
        using a(2) unfolding q by (auto elim: istep_termE)
      obtain y where y: "facts i = Some y" "holds y s1" using covered_next [OF s1(1,2) s1(3) [unfolded q] b(1)] by blast
      then show ?thesis using entry_fact_covers [OF assms(1,2) b(2) y(1)] s1(1) b(3,4) by auto
    qed
  qed
  obtain b where "p = point_of b" "covered facts Uncoupled (point_of b)"
    using entry_fact_enters [OF assms(1-3)] by blast
  then have "?P (p, s)" using assms(4) by (auto simp: holds_def intro: exI [of _ Uncoupled])
  moreover have "(\<lambda>(p, s) (p', s'). istep D (calls D E) f p s (Inr (p', s')))\<^sup>*\<^sup>* (p, s) (q, s')"
    using assms(5) by (simp add: reach_def)
  moreover have "?P z \<Longrightarrow> ?P y"
    if "(\<lambda>(p, s) (p', s'). istep D (calls D E) f p s (Inr (p', s')))\<^sup>*\<^sup>* z y" for z y
    using that
  proof (induction rule: rtranclp_induct)
    case (step y z)
    then show ?case using next_ok [of "fst y" "snd y" "fst z" "snd z"] by (simp add: case_prod_beta)
  qed
  ultimately show ?thesis by fastforce
qed

end

text \<open>
  C31: the facts hold. The analysis returns for every valid function, and whenever a run of the
  function on the infinite tape comes to the end of a block and goes on to another, that block has a
  fact, and the fact is true: where it says coupled the match flag tells whether the cell under the
  head is marked, and where it names a symbol the cell holds that symbol.
\<close>

theorem dataflow_facts_hold:
  assumes "valid_fn f" "entry_point f = Some p" "it_ok (s_dev s)"
    and "reach infinite_device E f p s ([], t) s'" "goes t (s_mf s') = Some i"
  shows "\<exists>facts x. block_entry_facts f = Some facts \<and> facts i = Some x
    \<and> (x \<noteq> Uncoupled \<longrightarrow> s_mf s' = (it_read (s_dev s') = 1))
    \<and> (\<forall>v. fact_cell x = Some v \<longrightarrow> it_read (s_dev s') = v)"
proof -
  obtain facts where facts: "block_entry_facts f = Some facts" using block_entry_facts_fixpoint [OF assms(1)] by blast
  have "inf_store.stored s" using assms(3) by (simp add: inf_store.stored_def)
  from inf_store.facts_reach [OF assms(1) facts assms(2) this assms(4)]
  obtain x where x: "inf_store.stored s'" "inf_store.holds x s'" "covered facts x ([], t)" by blast
  obtain y where y: "facts i = Some y" "inf_store.holds y s'" using inf_store.covered_next [OF x assms(5)] by blast
  then show ?thesis using facts inf_store.holds_cell [OF y(2)]
    by (intro exI [of _ facts] exI [of _ y]) (auto simp: inf_store.holds_def inf_store.coupled_def split: fact.splits)
qed

text \<open>In \<open>inc\<close> the block after the check is known to be entered with a blank cell under the head.\<close>

theorem dataflow_facts_hold_witness:
  "\<exists>facts x. block_entry_facts example_inc = Some facts \<and> facts 2 = Some x
    \<and> (x \<noteq> Uncoupled \<longrightarrow> \<not> (it_read (it_right it_new) = 1))
    \<and> (\<forall>v. fact_cell x = Some v \<longrightarrow> it_read (it_right it_new) = v)"
proof -
  let ?s = "\<lparr>s_dev = it_right it_new, s_mf = False, s_seen = []\<rparr>"
  have "act infinite_device (Rgt 1) example_start = Inr ?s" by code_simp
  then have "reach infinite_device Map.empty example_inc ([Rgt 1], Check 1 2) example_start ([], Check 1 2) ?s"
    by (intro reach_step istep_act) simp_all
  from dataflow_facts_hold [OF _ _ _ this, of 2]
  have "valid_fn example_inc \<Longrightarrow> entry_point example_inc = Some ([Rgt 1], Check 1 2) \<Longrightarrow> it_ok (s_dev example_start) \<Longrightarrow>
    ?thesis" by simp
  moreover have "valid_fn example_inc" "entry_point example_inc = Some ([Rgt 1], Check 1 2)" by code_simp+
  ultimately show ?thesis using example_start_ok by blast
qed

section \<open>Where the flag was not latched\<close>

text \<open>
  The second licence of \<open>move-elim\<close> takes the match flag for dead at a return. From an uncoupled state it
  is not: the caller may read it. \<open>peek\<close> moves there and back and returns, and its caller decides a
  branch by the flag; from a state whose flag says marked on a blank cell the pass changes the branch.
\<close>

definition example_peek :: ir_function where
  "example_peek = example_fn ''peek'' [example_block 0 [Rgt 1, Lft 1] Return]"

definition example_caller :: ir_function where
  "example_caller = example_fn ''main''
     [example_block 0 [Call ''peek'' 1] (Check 1 2), example_block 1 [] Halt, example_block 2 [] Return]"

lemma move_elim_uncoupled:
  "\<exists>peek' n s. move_elim_run example_peek = Some (peek', n)
     \<and> run_fn infinite_device (linked Map.empty [example_caller, peek']) ''main'' s
       \<noteq> run_fn infinite_device (linked Map.empty [example_caller, example_peek]) ''main'' s"
proof -
  have "move_elim_run example_peek = Some (example_fn ''peek'' [example_block 0 [] Return], 1)" by code_simp
  moreover have "run_fn infinite_device (linked Map.empty [example_caller, example_fn ''peek'' [example_block 0 [] Return]])
      ''main'' (example_start\<lparr>s_mf := True\<rparr>)
    \<noteq> run_fn infinite_device (linked Map.empty [example_caller, example_peek]) ''main'' (example_start\<lparr>s_mf := True\<rparr>)"
    by code_simp
  ultimately show ?thesis by blast
qed

end
