(* ===== verification/Pmc_Correct.thy ===== *)
theory Pmc_Correct
  imports Pmc_Simulation Optimizer_Correct
begin

text \<open>
  The properties of lowering: a program of the source language and its intermediate representation
  behave alike, and lowering fails only for a label nobody declared.
\<close>

section \<open>Functions\<close>

text \<open>The first label a function refers to and does not declare.\<close>

definition undeclared :: "pmc_fn \<Rightarrow> (u32 \<times> span) option" where
  "undeclared f = find (\<lambda>(i, sp). i \<notin> set (body_labels (pf_body f))) (body_refers (pf_body f))"

definition undefined_error :: "u32 \<times> span \<Rightarrow> compile_error" where
  "undefined_error r = \<lparr>ce_span = snd r, ce_kind = UndefinedLabel (fst r)\<rparr>"

declare split_paired_Ex [simp del] split_paired_All [simp del]

lemma undefined_error_eq: "undefined_error = (\<lambda>r. \<lparr>ce_span = snd r, ce_kind = UndefinedLabel (fst r)\<rparr>)"
  by (simp add: undefined_error_def fun_eq_iff)

lemma empty_lowered_ok: "fn_ok (ir_function_of f [exit_block 0])"
  by (simp add: fn_ok_def valid_fn_def symbols_ok_def ir_function_of_def exit_block_def block_ids_def)

lemma lower_function_result:
  assumes "body_ok (pf_body f)"
  shows "case undeclared f of
      Some r \<Rightarrow> lower_function f ws = Some (Inl (undefined_error r))
    | None \<Rightarrow> \<exists>g ws'. lower_function f ws = Some (Inr (g, ws @ ws')) \<and> lowers f g \<and> fn_ok g"
proof (cases "pf_body f = []")
  case True
  then show ?thesis by (simp add: undeclared_def lower_function_def lowers_def empty_lowered_ok)
next
  case False
  obtain zs ex where r: "case undefined_label (label_map zs) (body_refers (pf_body f)) of
      Some e \<Rightarrow> lower_function f ws = Some (Inl e)
    | None \<Rightarrow> \<exists>g ws'. lower_function f ws = Some (Inr (g, ws @ ws')) \<and> lowered_as f zs ex g"
    and zs: "map fst zs = pf_body f"
    using lower_function_body [OF assms False] by blast
  have "distinct (body_labels (map fst zs))" using assms by (simp add: zs body_ok_def)
  then have "undefined_label (label_map zs) refs
      = map_option undefined_error (find (\<lambda>(i, sp). i \<notin> set (body_labels (pf_body f))) refs)" for refs
    by (simp add: undefined_label_def undefined_error_eq label_blocks_None zs case_prod_beta')
  then have undef: "undefined_label (label_map zs) (body_refers (pf_body f)) = map_option undefined_error (undeclared f)"
    by (simp add: undeclared_def)
  show ?thesis
  proof (cases "undeclared f")
    case None
    then obtain g ws' where g: "lower_function f ws = Some (Inr (g, ws @ ws'))" "lowered_as f zs ex g"
      using r undef by auto
    have "fn_ok g" using lowered_as_valid [OF g(2)] g(2) lowered_symbols
      by (auto simp: fn_ok_def lowered_as_def)
    then show ?thesis using None g unfolding lowers_def by auto
  qed (use r undef in simp)
qed

section \<open>Modules\<close>

lemma lower_functions_error:
  assumes "\<forall>f \<in> set fs. body_ok (pf_body f)" "List.map_filter undeclared fs = r # rs"
  shows "lower_functions fs gs ws = Some (Inl (undefined_error r))"
  using assms
proof (induction fs arbitrary: gs ws)
  case (Cons f fs)
  then have body: "body_ok (pf_body f)" by simp
  show ?case
  proof (cases "undeclared f")
    case None
    then obtain g ws' where "lower_function f ws = Some (Inr (g, ws @ ws'))"
      using lower_function_result [OF body, of ws] by auto
    then show ?thesis using Cons None by (simp add: map_filter_def)
  next
    case (Some r')
    then show ?thesis using Cons.prems lower_function_result [OF body, of ws] by (simp add: map_filter_def)
  qed
qed (simp add: map_filter_def)

lemma lower_functions_ok:
  assumes "\<forall>f \<in> set fs. body_ok (pf_body f)" "List.map_filter undeclared fs = []"
  shows "\<exists>hs ws'. lower_functions fs gs ws = Some (Inr (gs @ hs, ws @ ws')) \<and> list_all2 lowers fs hs \<and> list_all fn_ok hs"
  using assms
proof (induction fs arbitrary: gs ws)
  case Nil
  then show ?case by simp
next
  case (Cons f fs)
  then have body: "body_ok (pf_body f)" and def: "undeclared f = None" "List.map_filter undeclared fs = []"
    by (cases "undeclared f"; simp add: map_filter_def)+
  obtain g ws1 where g: "lower_function f ws = Some (Inr (g, ws @ ws1))" "lowers f g" "fn_ok g"
    using lower_function_result [OF body, of ws] def(1) by auto
  obtain hs ws2 where "lower_functions fs (gs @ [g]) (ws @ ws1) = Some (Inr ((gs @ [g]) @ hs, (ws @ ws1) @ ws2))"
    "list_all2 lowers fs hs" "list_all fn_ok hs" using Cons.IH [of "gs @ [g]" "ws @ ws1"] Cons.prems(1) def(2) by auto
  then show ?case using g by (intro exI [of _ "g # hs"] exI [of _ "ws1 @ ws2"]) simp
qed

lemma lower_ok:
  assumes "\<forall>f \<in> set (pp_functions p). body_ok (pf_body f)" "lower p = Some (Inr (ir, ws))"
  shows "list_all2 lowers (pp_functions p) (ir_functions ir)" "\<forall>g \<in> set (ir_functions ir). fn_ok g"
proof -
  have none: "List.map_filter undeclared (pp_functions p) = []"
    using lower_functions_error [OF assms(1)] assms(2)
    by (cases "List.map_filter undeclared (pp_functions p)") (auto simp: lower_def)
  obtain hs ws' where "lower_functions (pp_functions p) [] [] = Some (Inr (hs, ws'))"
    "list_all2 lowers (pp_functions p) hs" "list_all fn_ok hs"
    using lower_functions_ok [OF assms(1) none, of "[]" "[]"] by auto
  then show "list_all2 lowers (pp_functions p) (ir_functions ir)" "\<forall>g \<in> set (ir_functions ir). fn_ok g"
    using assms(2) by (auto simp: lower_def list_all_iff)
qed

definition source_linked :: "src_linkage \<Rightarrow> pmc_fn list \<Rightarrow> src_linkage" where
  "source_linked rest fs n =
     (case find (\<lambda>f. pf_name f = n) fs of
        Some f \<Rightarrow> Some f
      | None \<Rightarrow> rest n)"

lemma lowers_linked:
  assumes "list_all2 lowers fs gs" "src_linked rest rest'"
  shows "src_linked (source_linked rest fs) (linked rest' gs)"
  unfolding src_linked_def
proof
  fix n
  show "rel_option lowers (source_linked rest fs n) (linked rest' gs n)"
    using assms(1)
  proof (induction rule: list_all2_induct)
    case Nil
    then show ?case using assms(2) by (simp add: source_linked_def linked_def src_linked_def)
  next
    case (Cons f fs g gs)
    then show ?case using lowers_name [OF Cons(1)] by (simp add: source_linked_def linked_def)
  qed
qed

section \<open>An example\<close>

text \<open>
  \<open>main\<close> calls \<open>go\<close>, which walks right to the first blank cell and marks it, until the cell to its right
  is marked too; \<open>stray\<close> refers to a label that is not there.
\<close>

definition sp0 :: span where "sp0 = span_new 1 1 1 2"

definition ex_stmt :: "u32 list \<Rightarrow> item list \<Rightarrow> statement" where
  "ex_stmt ls its = \<lparr>st_labels = map (\<lambda>i. \<lparr>l_value = i, l_span = sp0, l_written = ''''\<rparr>) ls,
     st_items = its, st_line = 1, st_span = sp0\<rparr>"

definition ex_fn :: "string \<Rightarrow> statement list \<Rightarrow> pmc_fn" where
  "ex_fn n sts = PmcFn n 1 1 sp0 sts True False False [] [] None"

definition ex_check :: "check_arm \<Rightarrow> check_arm \<Rightarrow> item" where
  "ex_check m b = CheckItem m b sp0 sp0 sp0 None None 1"

definition ex_main :: pmc_fn where
  "ex_main = ex_fn ''main''
     [ex_stmt [1] [BuiltinItem BMark ToNext None None None 1, CallItem ''go'' sp0 ToNext None None None 1],
      ex_stmt [] [BuiltinItem BLeft ToNext None None None 1, ex_check (ArmLabel 2) (ArmLabel 1)],
      ex_stmt [2] [DebuggerItem 1, BuiltinItem BUnmark ToReturn None None None 1]]"

definition ex_go :: pmc_fn where
  "ex_go = ex_fn ''go''
     [ex_stmt [1] [BuiltinItem BRight ToNext None None None 1], ex_stmt [] [ex_check (ArmLabel 1) (ArmLabel 2)],
      ex_stmt [2] [BuiltinItem BMark ToNext None None None 1]]"

definition ex_stray :: pmc_fn where
  "ex_stray = ex_fn ''stray'' [ex_stmt [1] [GotoItem 1 sp0 '''' 1], ex_stmt [2] [ex_check ArmReturn (ArmLabel 7)]]"

definition ex_program :: pmc_program where
  "ex_program = \<lparr>pp_functions = [ex_main, ex_go], pp_imports = []\<rparr>"

definition ex_lowered :: ir_program where
  "ex_lowered = (case lower ex_program of Some (Inr (ir, ws)) \<Rightarrow> ir | _ \<Rightarrow> \<lparr>ir_version = 0, ir_functions = []\<rparr>)"

lemma ex_program_ok: "\<forall>f \<in> set (pp_functions ex_program). body_ok (pf_body f)"
  by code_simp

lemma ex_program_lowered: "lower ex_program = Some (Inr (ex_lowered, []))"
  by code_simp

section \<open>Properties\<close>

text \<open>
  C32: lowering preserves meaning. A program the parser can deliver, once lowered and linked with the
  lowering of any other code, behaves as the source does: every function run on any device, from any
  state, ends with the same termination kind, tape, match flag and breakpoint observations, or does not
  end in both.
\<close>

theorem lowering_preserves:
  assumes "\<forall>f \<in> set (pp_functions p). body_ok (pf_body f)"
    and "lower p = Some (Inr (ir, warnings))" and "src_linked rest rest'"
  shows "run_fn D (linked rest' (ir_functions ir)) n s = src_run D (source_linked rest (pp_functions p)) n s"
  by (rule lowered_run) (rule lowers_linked [OF lower_ok(1) [OF assms(1,2)] assms(3)])

theorem lowering_preserves_witness:
  "run_fn infinite_device (linked Map.empty (ir_functions ex_lowered)) ''main'' example_start
     = src_run infinite_device (source_linked Map.empty (pp_functions ex_program)) ''main'' example_start
   \<and> (\<exists>s'. src_run infinite_device (source_linked Map.empty (pp_functions ex_program)) ''main'' example_start = Some (Stops s')
        \<and> length (s_seen s') = 1 \<and> it_read (s_dev s') = 0)"
proof
  show "run_fn infinite_device (linked Map.empty (ir_functions ex_lowered)) ''main'' example_start
     = src_run infinite_device (source_linked Map.empty (pp_functions ex_program)) ''main'' example_start"
    by (rule lowering_preserves [OF ex_program_ok ex_program_lowered]) (simp add: src_linked_def)
  have "case src_run infinite_device (source_linked Map.empty (pp_functions ex_program)) ''main'' example_start of
      Some (Stops s') \<Rightarrow> length (s_seen s') = 1 \<and> it_read (s_dev s') = 0 | _ \<Rightarrow> False" by code_simp
  then show "\<exists>s'. src_run infinite_device (source_linked Map.empty (pp_functions ex_program)) ''main'' example_start = Some (Stops s')
        \<and> length (s_seen s') = 1 \<and> it_read (s_dev s') = 0"
    by (auto split: option.splits result.splits)
qed

text \<open>
  C33: lowering never panics, and fails for one reason only. On what the parser can deliver it reports
  the first label, in the order of functions and statements, that is referred to and not declared, at
  the place of the reference; if there is none it returns functions of the same names that satisfy the
  structural invariant and use the two symbols of the alphabet.
\<close>

theorem lowering_result:
  assumes "\<forall>f \<in> set (pp_functions p). body_ok (pf_body f)"
  shows "case List.map_filter undeclared (pp_functions p) of
      (i, sp) # _ \<Rightarrow> lower p = Some (Inl \<lparr>ce_span = sp, ce_kind = UndefinedLabel i\<rparr>)
    | [] \<Rightarrow> \<exists>ir warnings. lower p = Some (Inr (ir, warnings))
        \<and> map fn_name (ir_functions ir) = map pf_name (pp_functions p)
        \<and> (\<forall>f \<in> set (ir_functions ir). validate_function f = Inr () \<and> symbols_ok f)"
proof (cases "List.map_filter undeclared (pp_functions p)")
  case (Cons r rs)
  then show ?thesis using lower_functions_error [OF assms Cons]
    by (cases r) (simp add: lower_def undefined_error_def)
next
  case Nil
  obtain hs ws where hs: "lower_functions (pp_functions p) [] [] = Some (Inr (hs, ws))"
    "list_all2 lowers (pp_functions p) hs" "list_all fn_ok hs"
    using lower_functions_ok [OF assms Nil, of "[]" "[]"] by auto
  have "map fn_name hs = map pf_name (pp_functions p)"
    using hs(2) by (induction rule: list_all2_induct) (simp_all add: lowers_name)
  then show ?thesis using Nil hs by (auto simp: lower_def list_all_iff fn_ok_def validate_valid)
qed

theorem lowering_result_witness:
  "lower \<lparr>pp_functions = [ex_go, ex_stray, ex_main], pp_imports = []\<rparr> = Some (Inl \<lparr>ce_span = sp0, ce_kind = UndefinedLabel 7\<rparr>)"
proof -
  let ?p = "\<lparr>pp_functions = [ex_go, ex_stray, ex_main], pp_imports = []\<rparr>"
  have "\<forall>f \<in> set (pp_functions ?p). body_ok (pf_body f)" by code_simp
  moreover have "List.map_filter undeclared (pp_functions ?p) = [(7, sp0)]" by code_simp
  ultimately show ?thesis using lowering_result [of ?p] by simp
qed

end
