(* ===== verification/Codegen_Correct.thy ===== *)
theory Codegen_Correct
  imports Pma_Semantics Optimizer_Labels Pmc_Correct
begin

text \<open>
  Generated assembly does what the intermediate representation does. \<open>blocks_code\<close> is the code of a
  function without the failures of the lookups; \<open>resolve_block\<close> finds the label of a block;
  \<open>standing\<close> relates the points of the two programs, and the runs are followed in both directions.
\<close>

section \<open>The code of valid functions\<close>

abbreviation keep_brk :: codegen_options where
  "keep_brk \<equiv> \<lparr>strip_debugger = False\<rparr>"

definition block_label :: "ir_function \<Rightarrow> nat \<Rightarrow> string" where
  "block_label f i = the (block_names f i)"

definition jump_instr :: "ir_function \<Rightarrow> string \<Rightarrow> nat \<Rightarrow> pma_line" where
  "jump_instr f m i = InstrLine m (block_label f i)"

definition leave_line :: "ir_function \<Rightarrow> pma_line" where
  "leave_line f = InstrLine (if fn_name f = ''main'' then ''stp'' else ''ret'') ''''"

fun term_code :: "ir_function \<Rightarrow> nat option \<Rightarrow> ir_term \<Rightarrow> pma_line list" where
  "term_code f next (FallThrough i) = (if next = Some i then [] else [jump_instr f ''jmp'' i])"
| "term_code f next (Goto i) = (if next = Some i then [] else [jump_instr f ''jmp'' i])"
| "term_code f next (Check m b) =
     (if next = Some b then [jump_instr f ''jm'' m]
      else if next = Some m then [jump_instr f ''jnm'' b]
      else [jump_instr f ''jm'' m, jump_instr f ''jmp'' b])"
| "term_code f next Return = [leave_line f]"
| "term_code f next Halt = [InstrLine ''hlt'' '''']"
| "term_code f next (TailCall n) = [InstrLine ''jmp'' (''@'' @ n)]"

definition label_code :: "nat set \<Rightarrow> ir_block \<Rightarrow> pma_line list" where
  "label_code refs b = map fst (label_lines refs b)"

definition ops_code :: "ir_op list \<Rightarrow> pma_line list" where
  "ops_code ops = map fst (concat (map (op_lines keep_brk) ops))"

fun blocks_code :: "ir_function \<Rightarrow> nat set \<Rightarrow> ir_block list \<Rightarrow> pma_line list" where
  "blocks_code f refs [] = []"
| "blocks_code f refs (b # bs) =
     label_code refs b @ ops_code (b_ops b) @ term_code f (next_id bs) (b_term b) @ blocks_code f refs bs"

definition fn_code :: "ir_function \<Rightarrow> pma_code" where
  "fn_code f = blocks_code f (referenced (fn_blocks f)) (fn_blocks f)"

lemma ops_code_simps [simp]:
  "ops_code [] = []" "ops_code (op # ops) = map fst (op_lines keep_brk op) @ ops_code ops"
  by (simp_all add: ops_code_def)

lemma block_names_Some: "i \<in> set (block_ids f) \<Longrightarrow> block_names f i = Some (block_label f i)"
proof -
  assume "i \<in> set (block_ids f)"
  then have "block_names f i \<noteq> None"
    by (auto simp: block_names_def block_ids_def map_of_eq_None_iff image_image)
  then show ?thesis by (auto simp: block_label_def)
qed

lemma term_lines_code:
  assumes "set (targets t) \<subseteq> set (block_ids f)"
  shows "map_option (map fst) (term_lines f (block_names f) next t l) = Some (term_code f next t)"
  using assms by (cases t) (auto simp: jump_line_def block_names_Some jump_instr_def leave_line_def)

lemma block_lines_code:
  assumes "\<forall>b \<in> set bs. set (targets (b_term b)) \<subseteq> set (block_ids f)"
  shows "\<exists>xs. block_lines keep_brk f (block_names f) refs bs = Some xs \<and> map fst xs = blocks_code f refs bs"
  using assms
proof (induction bs)
  case (Cons b bs)
  obtain ts where ts: "term_lines f (block_names f) (next_id bs) (b_term b) (b_term_line b) = Some ts"
    "map fst ts = term_code f (next_id bs) (b_term b)"
    using term_lines_code [of "b_term b" f "next_id bs" "b_term_line b"] Cons.prems by auto
  show ?case using Cons ts by (auto simp: label_code_def ops_code_def)
qed simp

lemma function_lines_code:
  assumes "valid_fn f"
  shows "\<exists>xs. function_lines keep_brk f = Some xs \<and> map fst xs = FuncLine (fn_name f) (fn_local f) # fn_code f"
proof -
  have "\<forall>b \<in> set (fn_blocks f). set (targets (b_term b)) \<subseteq> set (block_ids f)"
    using assms by (auto simp: valid_fn_def)
  then show ?thesis using block_lines_code [of "fn_blocks f" f "referenced (fn_blocks f)"]
    by (auto simp: function_lines_def fn_code_def)
qed

section \<open>Labels\<close>

text \<open>The names of blocks do not collide.\<close>

definition all_names :: "ir_block \<Rightarrow> string set" where
  "all_names b = insert (''B'' @ show_nat (b_id b)) ((\<lambda>l. ''L'' @ show_u32 l) ` set (b_labels b))"

lemma block_name_in: "block_name b \<in> all_names b"
  by (simp add: block_name_def all_names_def split: list.split)

lemma label_code_names: "LabelLine l \<in> set (label_code refs b) \<Longrightarrow> l \<in> all_names b"
  by (auto simp: label_code_def label_lines_def all_names_def split: if_splits)

lemma names_apart:
  assumes "b_id a \<noteq> b_id b" "set (b_labels a) \<inter> set (b_labels b) = {}"
  shows "all_names a \<inter> all_names b = {}"
  using assms by (auto simp: all_names_def show_nat_inj show_u32_inj)

lemma no_labels:
  "LabelLine l \<notin> set (ops_code ops)" "LabelLine l \<notin> set (term_code f next t)"
proof -
  show "LabelLine l \<notin> set (ops_code ops)"
  proof (induction ops)
    case (Cons op ops)
    then show ?case by (cases op) simp_all
  qed simp
  show "LabelLine l \<notin> set (term_code f next t)" by (cases t) (simp_all add: jump_instr_def leave_line_def)
qed

lemma blocks_code_names: "LabelLine l \<in> set (blocks_code f refs bs) \<Longrightarrow> \<exists>b \<in> set bs. l \<in> all_names b"
  by (induction bs) (auto simp: no_labels dest: label_code_names)

lemma blocks_code_append:
  "\<exists>xs. blocks_code f refs (bs @ cs) = xs @ blocks_code f refs cs
     \<and> (\<forall>l. LabelLine l \<in> set xs \<longrightarrow> (\<exists>b \<in> set bs. l \<in> all_names b))"
proof (induction bs)
  case (Cons b bs)
  then obtain xs where xs: "blocks_code f refs (bs @ cs) = xs @ blocks_code f refs cs"
    "\<forall>l. LabelLine l \<in> set xs \<longrightarrow> (\<exists>b \<in> set bs. l \<in> all_names b)" by blast
  show ?case
    by (intro exI [of _ "label_code refs b @ ops_code (b_ops b) @ term_code f (next_id (bs @ cs)) (b_term b) @ xs"])
      (use xs in \<open>auto simp: no_labels dest: label_code_names\<close>)
qed (intro exI [of _ "[]"], simp)

lemma label_code_first:
  "b_id b \<in> refs \<Longrightarrow> \<exists>ls. label_code refs b = LabelLine (block_name b) # map LabelLine ls"
proof (cases "b_labels b")
  case Nil
  then show "b_id b \<in> refs \<Longrightarrow> ?thesis"
    by (intro exI [of _ "[]"]) (simp add: label_code_def label_lines_def block_name_def)
next
  case (Cons l ls)
  then show "b_id b \<in> refs \<Longrightarrow> ?thesis"
    by (intro exI [of _ "map (\<lambda>l. ''L'' @ show_u32 l) ls"])
      (simp add: label_code_def label_lines_def block_name_def comp_def)
qed

lemma after_label_skip: "LabelLine l \<notin> set xs \<Longrightarrow> after_label l (xs @ LabelLine l # ys) = Some ys"
proof -
  assume l: "LabelLine l \<notin> set xs"
  have "dropWhile (\<lambda>x. x \<noteq> LabelLine l) (xs @ LabelLine l # ys) = LabelLine l # ys"
    by (subst dropWhile_append2) (use l in auto)
  then show ?thesis by (simp add: after_label_def)
qed

lemma block_label_at:
  assumes "distinct (block_ids f)" "block_at f i = Some b"
  shows "block_label f i = block_name b"
proof -
  have "b \<in> set (fn_blocks f)" "b_id b = i" using assms by (simp_all add: block_at_Some)
  moreover have "distinct (map fst (rev (map (\<lambda>b. (b_id b, block_name b)) (fn_blocks f))))"
    using assms(1) by (simp add: block_ids_def rev_map [symmetric] comp_def)
  ultimately have "block_names f i = Some (block_name b)" unfolding block_names_def
    by (subst map_of_eq_Some_iff) force+
  then show ?thesis by (simp add: block_label_def)
qed

text \<open>A label leads to its block.\<close>

lemma resolve_block:
  assumes "valid_fn f" "labels_ok f" "block_at f i = Some b" "i \<in> referenced (fn_blocks f)"
  shows "\<exists>pre bs ls. fn_blocks f = pre @ b # bs
    \<and> after_label (block_label f i) (fn_code f)
        = Some (map LabelLine ls @ ops_code (b_ops b) @ term_code f (next_id bs) (b_term b)
            @ blocks_code f (referenced (fn_blocks f)) bs)"
proof -
  let ?refs = "referenced (fn_blocks f)"
  have d: "distinct (block_ids f)" using assms(1) by (simp add: valid_fn_def)
  then have b: "b \<in> set (fn_blocks f)" "b_id b = i" using assms(3) by (simp_all add: block_at_Some)
  then obtain pre bs where split: "fn_blocks f = pre @ b # bs" by (meson split_list)
  obtain xs where xs: "blocks_code f ?refs (pre @ b # bs) = xs @ blocks_code f ?refs (b # bs)"
    "\<forall>l. LabelLine l \<in> set xs \<longrightarrow> (\<exists>b \<in> set pre. l \<in> all_names b)"
    using blocks_code_append [of f ?refs pre "b # bs"] by blast
  obtain ls where ls: "label_code ?refs b = LabelLine (block_name b) # map LabelLine ls"
    using label_code_first [of b ?refs] b(2) assms(4) by blast
  have "all_names a \<inter> all_names b = {}" if "a \<in> set pre" for a
  proof (rule names_apart)
    have "b_id b \<notin> b_id ` set pre" using d by (auto simp: block_ids_def split)
    then show "b_id a \<noteq> b_id b" using that by (metis image_eqI)
    show "set (b_labels a) \<inter> set (b_labels b) = {}" using assms(2) that by (auto simp: labels_ok_def fn_labels_def split)
  qed
  then have "LabelLine (block_name b) \<notin> set xs" using xs(2) block_name_in [of b] by blast
  then have "after_label (block_name b) (xs @ LabelLine (block_name b) # ys) = Some ys" for ys
    by (rule after_label_skip)
  then show ?thesis using xs(1) ls block_label_at [OF d assms(3)]
    by (intro exI [of _ pre] exI [of _ bs] exI [of _ ls]) (simp add: fn_code_def split)
qed

section \<open>Instructions\<close>

declare pma_jump.simps [simp del]

lemma op_line_decode:
  "\<exists>m oper op'. map fst (op_lines keep_brk op) = [InstrLine m oper] \<and> pma_decode m oper = Some (PDo op')
     \<and> same_instr op op'"
  by (cases op) (simp_all add: pma_decode_def)

lemma pma_jump_at: "pma_jump (CHR ''@'' # n) = PTail n"
  by (simp add: pma_jump.simps)

lemma block_name_jumps: "pma_jump (block_name b) = PJump (block_name b)"
  by (simp add: block_name_def pma_jump.simps split: list.split)

text \<open>
  A terminator with code begins with one instruction: a jump, a branch whose other side goes on, a jump
  to a function, or an end.
\<close>

definition term_starts :: "ir_function \<Rightarrow> nat option \<Rightarrow> ir_term \<Rightarrow> pma_instr \<Rightarrow> pma_line list \<Rightarrow> bool" where
  "term_starts f next t i rest \<longleftrightarrow>
     (\<exists>k. (t = Goto k \<or> t = FallThrough k) \<and> i = PJump (block_label f k) \<and> next \<noteq> Some k)
   \<or> (\<exists>mf k j. i = PIf mf (block_label f k) \<and> goes t mf = Some k \<and> goes t (\<not> mf) = Some j
        \<and> k \<in> term_refs next t \<and> rest = term_code f next (Goto j) \<and> term_refs next (Goto j) \<subseteq> term_refs next t)
   \<or> (\<exists>n. t = TailCall n \<and> i = PTail n)
   \<or> t = Return \<and> i = (if fn_name f = ''main'' then PStop else PRet)
   \<or> t = Halt \<and> i = PHalt"

lemma term_code_starts:
  assumes "valid_fn f" "set (targets t) \<subseteq> set (block_ids f)"
  shows "(\<exists>i. (t = Goto i \<or> t = FallThrough i) \<and> next = Some i \<and> term_code f next t = [])
    \<or> (\<exists>m oper i rest. term_code f next t = InstrLine m oper # rest \<and> pma_decode m oper = Some i
         \<and> term_starts f next t i rest)"
proof -
  have j: "pma_jump (block_label f i) = PJump (block_label f i)" if i: "i \<in> set (block_ids f)" for i
  proof -
    have d: "distinct (block_ids f)" using assms(1) by (simp add: valid_fn_def)
    then obtain b where "block_at f i = Some b" using i by (cases "block_at f i") (auto simp: block_at_None)
    then show ?thesis using block_label_at [OF d] block_name_jumps by simp
  qed
  show ?thesis
  proof (cases t)
    case (Check m b)
    show ?thesis
    proof (cases "next = Some m \<and> next \<noteq> Some b")
      case True
      then have "term_code f next t = jump_instr f ''jnm'' b # term_code f next (Goto m)"
        "term_starts f next t (PIf False (block_label f b)) (term_code f next (Goto m))"
        using Check by (auto simp: term_starts_def)
      then show ?thesis by (auto simp: jump_instr_def pma_decode_def)
    next
      case False
      then have "term_code f next t = jump_instr f ''jm'' m # term_code f next (Goto b)"
        "term_starts f next t (PIf True (block_label f m)) (term_code f next (Goto b))"
        using Check by (auto simp: term_starts_def)
      then show ?thesis by (auto simp: jump_instr_def pma_decode_def)
    qed
  qed (use assms(2) j in \<open>auto simp: jump_instr_def pma_decode_def leave_line_def term_starts_def pma_jump_at\<close>)
qed

section \<open>Points\<close>

text \<open>
  Where a point of the intermediate representation stands in the code: before its operations, its
  terminator, and the blocks after it; labels may come first.
\<close>

definition standing :: "ir_function \<Rightarrow> ir_op list \<Rightarrow> ir_term \<Rightarrow> ir_block list \<Rightarrow> pma_code \<Rightarrow> bool" where
  "standing f ops t bs p \<longleftrightarrow>
     (\<exists>pre. fn_blocks f = pre @ bs) \<and> set (targets t) \<subseteq> set (block_ids f)
     \<and> term_refs (next_id bs) t \<subseteq> referenced (fn_blocks f)
     \<and> p = ops_code ops @ term_code f (next_id bs) t @ blocks_code f (referenced (fn_blocks f)) bs"

definition stands :: "ir_function \<Rightarrow> point \<Rightarrow> pma_code \<Rightarrow> bool" where
  "stands f q p \<longleftrightarrow> (\<exists>bs ls p'. p = map LabelLine ls @ p' \<and> standing f (fst q) (snd q) bs p')"

lemma referenced_append: "referenced bs \<subseteq> referenced (pre @ bs)"
  by (induction pre) auto

lemma block_stands:
  assumes "valid_fn f" "fn_blocks f = pre @ b # bs"
  shows "standing f (b_ops b) (b_term b) bs
    (ops_code (b_ops b) @ term_code f (next_id bs) (b_term b) @ blocks_code f (referenced (fn_blocks f)) bs)"
  unfolding standing_def
proof (intro conjI)
  show "\<exists>pre. fn_blocks f = pre @ bs" using assms(2) by (intro exI [of _ "pre @ [b]"]) simp
  show "set (targets (b_term b)) \<subseteq> set (block_ids f)" using assms by (auto simp: valid_fn_def)
  show "term_refs (next_id bs) (b_term b) \<subseteq> referenced (fn_blocks f)"
    using referenced_append [of "b # bs" pre] by (auto simp: assms(2))
qed simp

lemma block_code_stands:
  assumes "valid_fn f" "fn_blocks f = pre @ b # bs"
  shows "stands f (point_of b) (blocks_code f (referenced (fn_blocks f)) (b # bs))"
proof -
  obtain ls where "label_code (referenced (fn_blocks f)) b = map LabelLine ls"
  proof (cases "b_id b \<in> referenced (fn_blocks f)")
    case True
    then show ?thesis using label_code_first that by (metis list.map(2))
  next
    case False
    then show ?thesis using that [of "[]"] by (simp add: label_code_def label_lines_def)
  qed
  then show ?thesis using block_stands [OF assms] unfolding stands_def point_of_parts by auto
qed

text \<open>Both ways to reach a block.\<close>

lemma next_stands:
  assumes "valid_fn f" "standing f ops t bs p" "next_id bs = Some i"
  shows "\<exists>b bs'. block_at f i = Some b \<and> bs = b # bs'
    \<and> stands f (point_of b) (blocks_code f (referenced (fn_blocks f)) bs)"
proof -
  obtain b bs' where bs: "bs = b # bs'" "b_id b = i" using assms(3) by (cases bs) auto
  obtain pre where pre: "fn_blocks f = pre @ b # bs'" using assms(2) bs(1) by (auto simp: standing_def)
  have "block_at f i = Some b" using assms(1) bs(2) pre by (simp add: block_at_Some valid_fn_def)
  then show ?thesis using block_code_stands [OF assms(1) pre] bs(1) by blast
qed

lemma label_stands:
  assumes "valid_fn f" "labels_ok f" "i \<in> referenced (fn_blocks f)" "i \<in> set (block_ids f)"
  shows "\<exists>b p. block_at f i = Some b \<and> after_label (block_label f i) (fn_code f) = Some p \<and> stands f (point_of b) p"
proof -
  have d: "distinct (block_ids f)" using assms(1) by (simp add: valid_fn_def)
  then obtain b where b: "block_at f i = Some b"
    using assms(4) by (cases "block_at f i") (auto simp: block_at_None)
  obtain pre bs ls where "fn_blocks f = pre @ b # bs"
    "after_label (block_label f i) (fn_code f)
        = Some (map LabelLine ls @ ops_code (b_ops b) @ term_code f (next_id bs) (b_term b)
            @ blocks_code f (referenced (fn_blocks f)) bs)"
    using resolve_block [OF assms(1,2) b assms(3)] by blast
  then show ?thesis using b block_stands [OF assms(1)] unfolding stands_def point_of_parts by blast
qed

lemma entry_stands:
  assumes "valid_fn f"
  shows "\<exists>q. entry_point f = Some q \<and> stands f q (fn_code f)"
proof -
  obtain b bs where b: "fn_blocks f = b # bs" using assms by (cases "fn_blocks f") (auto simp: valid_fn_def)
  then show ?thesis using block_code_stands [OF assms, of "[]" b bs]
    by (simp add: entry_point_def fn_code_def)
qed

section \<open>Linked programs\<close>

text \<open>Every name is a function and its code, or nothing in both programs.\<close>

definition emits :: "ir_function \<Rightarrow> pma_code \<Rightarrow> bool" where
  "emits f c \<longleftrightarrow> valid_fn f \<and> labels_ok f \<and> c = fn_code f"

definition code_linked :: "linkage \<Rightarrow> pma_linkage \<Rightarrow> bool" where
  "code_linked E C \<longleftrightarrow> (\<forall>n. rel_option emits (E n) (C n))"

lemma code_linked_callee:
  assumes "code_linked E C"
  shows "callee_of E n = Some (g, q) \<Longrightarrow> emits g (fn_code g) \<and> C n = Some (fn_code g) \<and> stands g q (fn_code g)"
    and "C n = Some c \<Longrightarrow> \<exists>g q. callee_of E n = Some (g, q) \<and> emits g c \<and> stands g q c"
proof -
  have rel: "rel_option emits (E n) (C n)" using assms by (simp add: code_linked_def)
  show "callee_of E n = Some (g, q) \<Longrightarrow> emits g (fn_code g) \<and> C n = Some (fn_code g) \<and> stands g q (fn_code g)"
    using rel entry_stands [of g] by (auto simp: callee_of_Some option_rel_Some1 emits_def)
  assume "C n = Some c"
  then obtain g where g: "E n = Some g" "emits g c" using rel by (auto simp: option_rel_Some2)
  then show "\<exists>g q. callee_of E n = Some (g, q) \<and> emits g c \<and> stands g q c"
    using entry_stands [of g] by (auto simp: callee_of_Some emits_def)
qed

section \<open>From the representation to its code\<close>

lemma pma_labels: "pma_exec D C code p s r \<Longrightarrow> pma_exec D C code (map LabelLine ls @ p) s r"
  by (induction ls) (auto intro: pma_label)

text \<open>Where a terminator goes, the code goes.\<close>

lemma goes_stands:
  assumes f: "emits f code" and "standing f [] t bs p" "goes t mf = Some i" "block_at f i = Some b"
  shows "\<exists>p'. stands f (point_of b) p'
    \<and> (\<forall>D C (s :: 'd ir_state) r. s_mf s = mf \<longrightarrow> pma_exec D C code p' s r \<longrightarrow> pma_exec D C code p s r)"
proof -
  note v = f [unfolded emits_def]
  have jump: "\<exists>p'. stands f (point_of b) p'
    \<and> (\<forall>D C (s :: 'd ir_state) r. s_mf s = mf \<longrightarrow> pma_exec D C code p' s r \<longrightarrow> pma_exec D C code q s r)"
    if q: "standing f [] (Goto i) bs q" for q
  proof (cases "next_id bs = Some i")
    case True
    obtain b' where "block_at f i = Some b'" "stands f (point_of b') (blocks_code f (referenced (fn_blocks f)) bs)"
      using next_stands [OF _ q True] v by blast
    then show ?thesis using q True assms(4) by (auto simp: standing_def)
  next
    case False
    have i: "i \<in> referenced (fn_blocks f)" "i \<in> set (block_ids f)" using q False by (auto simp: standing_def)
    obtain p' where p': "after_label (block_label f i) (fn_code f) = Some p'" "stands f (point_of b) p'"
      using label_stands [OF _ _ i] v assms(4) by auto
    have "q = InstrLine ''jmp'' (block_label f i) # blocks_code f (referenced (fn_blocks f)) bs"
      using q False by (simp add: standing_def jump_instr_def)
    moreover have "pma_decode ''jmp'' (block_label f i) = Some (PJump (block_label f i))"
      using v assms(4) by (simp add: pma_decode_def block_label_at valid_fn_def block_name_jumps)
    ultimately show ?thesis using p' v by (intro exI [of _ p']) (auto intro: pma_jumps)
  qed
  have ids: "set (targets t) \<subseteq> set (block_ids f)" using assms(2) by (simp add: standing_def)
  show ?thesis
  proof (cases t)
    case (Check m bl)
    obtain mm oper x rest where c: "term_code f (next_id bs) t = InstrLine mm oper # rest"
      "pma_decode mm oper = Some x" "term_starts f (next_id bs) t x rest"
      using term_code_starts [of f t "next_id bs"] v ids Check by auto
    then obtain mf' k j where x: "x = PIf mf' (block_label f k)" "goes t mf' = Some k" "goes t (\<not> mf') = Some j"
      "k \<in> term_refs (next_id bs) t" "rest = term_code f (next_id bs) (Goto j)"
      "term_refs (next_id bs) (Goto j) \<subseteq> term_refs (next_id bs) t"
      using Check by (auto simp: term_starts_def)
    have p: "p = InstrLine mm oper # term_code f (next_id bs) (Goto j) @ blocks_code f (referenced (fn_blocks f)) bs"
      using assms(2) c(1) x(5) by (simp add: standing_def)
    show ?thesis
    proof (cases "mf' = mf")
      case True
      then have "k = i" using x(2) assms(3) by simp
      then have k: "k \<in> referenced (fn_blocks f)" "k \<in> set (block_ids f)"
        using x(4) assms(2) ids goes_targets [OF assms(3)] by (auto simp: standing_def)
      obtain p' where "after_label (block_label f k) (fn_code f) = Some p'" "stands f (point_of b) p'"
        using label_stands [OF _ _ k] v assms(4) \<open>k = i\<close> by auto
      then show ?thesis using c(2) x(1) True v unfolding p
        by (intro exI [of _ p']) (auto intro: pma_jumps)
    next
      case False
      then have ne: "(\<not> mf') = mf" by auto
      then have "j = i" using x(3) assms(3) by simp
      then have "standing f [] (Goto i) bs (term_code f (next_id bs) (Goto j) @ blocks_code f (referenced (fn_blocks f)) bs)"
        using assms(2) x(6) ids goes_targets [OF assms(3)] by (auto simp: standing_def)
      from jump [OF this] obtain p' where p': "stands f (point_of b) p'"
        "\<forall>D C (s :: 'd ir_state) r. s_mf s = mf \<longrightarrow> pma_exec D C code p' s r
           \<longrightarrow> pma_exec D C code (term_code f (next_id bs) (Goto j) @ blocks_code f (referenced (fn_blocks f)) bs) s r"
        by blast
      show ?thesis
      proof (intro exI [of _ p'] conjI allI impI)
        show "stands f (point_of b) p'" by (rule p'(1))
        fix D C and s :: "'d ir_state" and r
        assume s: "s_mf s = mf" "pma_exec D C code p' s r"
        have "pma_decode mm oper = Some (PIf (\<not> s_mf s) (block_label f k))" using c(2) x(1) ne s(1) by auto
        then show "pma_exec D C code p s r" unfolding p using p'(2) s by (intro pma_passes) simp_all
      qed
    qed
  qed (use assms jump in \<open>auto simp: standing_def\<close>)
qed

lemma stands_cons:
  assumes "stands f (op # ops, t) p"
  obtains ls m oper op' q where "p = map LabelLine ls @ InstrLine m oper # q"
    "pma_decode m oper = Some (PDo op')" "same_instr op op'" "stands f (ops, t) q"
proof -
  obtain bs ls p' where p: "p = map LabelLine ls @ p'" "standing f (op # ops) t bs p'"
    using assms by (auto simp: stands_def)
  obtain m oper op' where m: "map fst (op_lines keep_brk op) = [InstrLine m oper]"
    "pma_decode m oper = Some (PDo op')" "same_instr op op'" using op_line_decode [of op] by (elim exE conjE) (rule that)
  define q where "q = ops_code ops @ term_code f (next_id bs) t @ blocks_code f (referenced (fn_blocks f)) bs"
  have "standing f ops t bs q" "p' = InstrLine m oper # q" using p(2) m(1) by (simp_all add: standing_def q_def)
  moreover have "stands f (ops, t) q" using \<open>standing f ops t bs q\<close> unfolding stands_def
    by (intro exI [of _ bs] exI [of _ "[]"] exI [of _ q]) simp
  ultimately show ?thesis using p(1) m that by simp
qed

lemma stands_nil:
  assumes "stands f ([], t) p"
  obtains ls bs p' where "p = map LabelLine ls @ p'" "standing f [] t bs p'"
  using assms by (auto simp: stands_def)

text \<open>A terminator that does not go on is one instruction.\<close>

lemma leaving_line:
  assumes f: "emits f code" and p: "standing f [] t bs p" and mf: "goes t mf = None"
  obtains m oper i q where "p = InstrLine m oper # q" "pma_decode m oper = Some i"
    "(\<exists>n. t = TailCall n \<and> i = PTail n)
     \<or> t = Return \<and> i = (if fn_name f = ''main'' then PStop else PRet) \<or> t = Halt \<and> i = PHalt"
proof -
  have mf': "goes t mf' = None" for mf' using mf by (cases t) simp_all
  have "set (targets t) \<subseteq> set (block_ids f)" using p by (simp add: standing_def)
  then consider "\<exists>i. t = Goto i \<or> t = FallThrough i"
    | m oper i rest where "term_code f (next_id bs) t = InstrLine m oper # rest" "pma_decode m oper = Some i"
        "term_starts f (next_id bs) t i rest"
    using term_code_starts [of f t "next_id bs"] f unfolding emits_def by blast
  then show ?thesis
  proof cases
    case 1
    then show ?thesis using mf by auto
  next
    case 2
    then show ?thesis using that [of m oper "rest @ blocks_code f (referenced (fn_blocks f)) bs" i] p mf'
      by (auto simp: standing_def term_starts_def)
  qed
qed

lemma ir_to_code:
  assumes link: "code_linked E C"
  shows "exec D E f q s r \<Longrightarrow> emits f code \<Longrightarrow> stands f q p \<Longrightarrow> pma_exec D C code p s r"
proof (induction arbitrary: code p rule: exec.induct)
  case (exec_act op s s' f ops t r)
  from exec_act.prems(2) obtain ls m oper op' q where i: "p = map LabelLine ls @ InstrLine m oper # q"
    "pma_decode m oper = Some (PDo op')" "same_instr op op'" "stands f (ops, t) q" by (rule stands_cons)
  have "act D op' s = Inr s'" "called op' = None"
    using exec_act(1,2) same_instr_act [OF i(3), of D s] same_instr_called [OF i(3)] by simp_all
  with exec_act.IH [OF exec_act.prems(1) i(4)] show ?case unfolding i(1)
    by (intro pma_labels pma_act [OF i(2)])
next
  case (exec_fault op s e s' f ops t)
  from exec_fault.prems(2) obtain ls m oper op' q where i: "p = map LabelLine ls @ InstrLine m oper # q"
    "pma_decode m oper = Some (PDo op')" "same_instr op op'" "stands f (ops, t) q" by (rule stands_cons)
  have "act D op' s = Inl (e, s')" "called op' = None"
    using exec_fault(1,2) same_instr_act [OF i(3), of D s] same_instr_called [OF i(3)] by simp_all
  then show ?case unfolding i(1) by (intro pma_labels pma_fault [OF i(2)])
next
  case (exec_call op n g q' s s' f ops t r)
  from exec_call.prems(2) obtain ls m oper op' q where i: "p = map LabelLine ls @ InstrLine m oper # q"
    "pma_decode m oper = Some (PDo op')" "same_instr op op'" "stands f (ops, t) q" by (rule stands_cons)
  have g: "emits g (fn_code g)" "C n = Some (fn_code g)" "stands g q' (fn_code g)"
    using code_linked_callee(1) [OF link exec_call(2)] by simp_all
  have "called op' = Some n" using exec_call(1) same_instr_called [OF i(3)] by simp
  then show ?case unfolding i(1)
    using pma_call [OF i(2) _ g(2) exec_call.IH(1) [OF g(1,3)] exec_call.IH(2) [OF exec_call.prems(1) i(4)]]
    by (intro pma_labels)
next
  case (exec_call_ends op n g q' s r f ops t)
  from exec_call_ends.prems(2) obtain ls m oper op' q where i: "p = map LabelLine ls @ InstrLine m oper # q"
    "pma_decode m oper = Some (PDo op')" "same_instr op op'" "stands f (ops, t) q" by (rule stands_cons)
  have g: "emits g (fn_code g)" "C n = Some (fn_code g)" "stands g q' (fn_code g)"
    using code_linked_callee(1) [OF link exec_call_ends(2)] by simp_all
  have "called op' = Some n" using exec_call_ends(1) same_instr_called [OF i(3)] by simp
  then show ?case unfolding i(1)
    using pma_call_ends [OF i(2) _ g(2) exec_call_ends.IH [OF g(1,3)] exec_call_ends(4)]
    by (intro pma_labels)
next
  case (exec_goes t s i f b r)
  from exec_goes.prems(2) obtain ls bs p' where p: "p = map LabelLine ls @ p'" "standing f [] t bs p'"
    by (rule stands_nil)
  obtain p1 where "stands f (point_of b) p1" "pma_exec D C code p1 s r \<Longrightarrow> pma_exec D C code p' s r"
    using goes_stands [OF exec_goes.prems(1) p(2) exec_goes(1,2)] by blast
  then show ?case using exec_goes.IH [OF exec_goes.prems(1)] unfolding p(1) by (blast intro: pma_labels)
next
  case (exec_tail t n g q' s r f)
  from exec_tail.prems(2) obtain ls bs p' where p: "p = map LabelLine ls @ p'" "standing f [] t bs p'"
    by (rule stands_nil)
  have g: "emits g (fn_code g)" "C n = Some (fn_code g)" "stands g q' (fn_code g)"
    using code_linked_callee(1) [OF link exec_tail(2)] by simp_all
  have t: "t = TailCall n" using exec_tail(1) by (cases t) simp_all
  have "goes t False = None" using t by simp
  from leaving_line [OF exec_tail.prems(1) p(2) this] obtain m oper i q
    where "p' = InstrLine m oper # q" "pma_decode m oper = Some i"
    "(\<exists>n. t = TailCall n \<and> i = PTail n)
     \<or> t = Return \<and> i = (if fn_name f = ''main'' then PStop else PRet) \<or> t = Halt \<and> i = PHalt" .
  then show ?case using pma_tail [OF _ g(2) exec_tail.IH [OF g(1,3)], of m oper code q] t unfolding p(1)
    by (auto intro: pma_labels)
next
  case (exec_leaves f t s r)
  from exec_leaves.prems(2) obtain ls bs p' where p: "p = map LabelLine ls @ p'" "standing f [] t bs p'"
    by (rule stands_nil)
  have g: "goes t False = None" using exec_leaves(1) by (cases t) simp_all
  obtain m oper i q where "p' = InstrLine m oper # q" "pma_decode m oper = Some i"
    "(\<exists>n. t = TailCall n \<and> i = PTail n)
     \<or> t = Return \<and> i = (if fn_name f = ''main'' then PStop else PRet) \<or> t = Halt \<and> i = PHalt"
    by (rule leaving_line [OF exec_leaves.prems(1) p(2) g])
  then show ?case using exec_leaves(1) unfolding p(1)
    by (auto intro!: pma_labels intro: pma_stop pma_ret pma_halt split: if_splits)
qed

section \<open>From the code to the representation\<close>

text \<open>Falling through costs no line: a point whose code is empty stands at the next block.\<close>

lemma stands_settled:
  assumes "emits f code" "standing f ops t bs p"
  shows "\<exists>ops' t' bs' ls p'. p = map LabelLine ls @ p' \<and> standing f ops' t' bs' p'
    \<and> (ls \<noteq> [] \<or> ops' \<noteq> [] \<or> term_code f (next_id bs') t' \<noteq> [])
    \<and> (\<forall>D E (s :: 'd ir_state) r. exec D E f (ops', t') s r \<longrightarrow> exec D E f (ops, t) s r)"
  using assms(2)
proof (induction bs arbitrary: ops t p)
  case Nil
  have "term_code f None t \<noteq> []" by (cases t) auto
  then show ?case using Nil by (intro exI [of _ ops] exI [of _ t] exI [of _ "[]"] exI [of _ p]) simp
next
  case (Cons b bs)
  show ?case
  proof (cases "ops \<noteq> [] \<or> term_code f (next_id (b # bs)) t \<noteq> []")
    case True
    then show ?thesis using Cons.prems
      by (intro exI [of _ ops] exI [of _ t] exI [of _ "b # bs"] exI [of _ "[]"] exI [of _ p]) simp
  next
    case False
    have v: "valid_fn f" using assms(1) by (simp add: emits_def)
    have ids: "set (targets t) \<subseteq> set (block_ids f)" using Cons.prems by (simp add: standing_def)
    have empty: "ops = []" "term_code f (next_id (b # bs)) t = []" using False by simp_all
    then obtain i where i: "t = Goto i \<or> t = FallThrough i" "i = b_id b"
      using term_code_starts [OF v ids, of "next_id (b # bs)"] by auto
    have p: "p = blocks_code f (referenced (fn_blocks f)) (b # bs)" using Cons.prems empty by (simp add: standing_def)
    obtain pre where pre: "fn_blocks f = pre @ b # bs" using Cons.prems by (auto simp: standing_def)
    then have at: "block_at f i = Some b" using v i(2) by (simp add: block_at_Some valid_fn_def)
    have step: "exec D E f (point_of b) s r \<Longrightarrow> exec D E f (ops, t) s r" for D E and s :: "'d ir_state" and r
      using exec_goes [of t s i f b D E r] at i(1) empty(1) by auto
    obtain ls where ls: "label_code (referenced (fn_blocks f)) b = map LabelLine ls"
    proof (cases "b_id b \<in> referenced (fn_blocks f)")
      case True
      then show ?thesis using label_code_first that by (metis list.map(2))
    next
      case False
      then show ?thesis using that [of "[]"] by (simp add: label_code_def label_lines_def)
    qed
    let ?q = "ops_code (b_ops b) @ term_code f (next_id bs) (b_term b) @ blocks_code f (referenced (fn_blocks f)) bs"
    have b: "standing f (b_ops b) (b_term b) bs ?q" by (rule block_stands [OF v pre])
    show ?thesis
    proof (cases "ls = []")
      case False
      then show ?thesis using b p ls step
        by (intro exI [of _ "b_ops b"] exI [of _ "b_term b"] exI [of _ bs] exI [of _ ls] exI [of _ ?q])
          (simp add: point_of_def)
    next
      case True
      then have "p = ?q" using p ls by simp
      then show ?thesis using Cons.IH [OF b] step by (simp add: point_of_def) blast
    qed
  qed
qed

text \<open>The first line of the code of a point.\<close>

lemma stands_label:
  fixes D :: "'d device" and E :: linkage
  assumes "emits f code" "stands f pt (LabelLine l # q)"
  obtains pt' where "stands f pt' q"
    "\<And>s r. exec D E f pt' s r \<Longrightarrow> exec D E f pt s r"
proof -
  obtain bs ls p where p: "LabelLine l # q = map LabelLine ls @ p" "standing f (fst pt) (snd pt) bs p"
    using assms(2) by (auto simp: stands_def)
  have at: "stands f (ops, t) (map LabelLine ks @ p')" if "standing f ops t cs p'" for ops t cs ks p'
    using that by (auto simp: stands_def)
  show ?thesis
  proof (cases ls)
    case (Cons k ks)
    then show ?thesis using that [of pt] at [OF p(2), of ks] p(1) by simp
  next
    case Nil
    obtain ops' t' bs' ks p' where n: "p = map LabelLine ks @ p'" "standing f ops' t' bs' p'"
      "ks \<noteq> [] \<or> ops' \<noteq> [] \<or> term_code f (next_id bs') t' \<noteq> []"
      and e: "\<And>s r. exec D E f (ops', t') s r \<Longrightarrow> exec D E f (fst pt, snd pt) s r"
      using stands_settled [OF assms(1) p(2)] by blast
    have "ks \<noteq> []"
    proof
      assume k: "ks = []"
      then have "LabelLine l # q = p'" using n(1) Nil p(1) by simp
      then have "hd p' = LabelLine l" by auto
      moreover have "hd p' \<in> set (ops_code ops') \<union> set (term_code f (next_id bs') t')"
      proof (cases "ops_code ops' = []")
        case True
        then have "ops' = []" by (cases ops'; cases "hd ops'") auto
        then show ?thesis using n(2,3) k by (cases "term_code f (next_id bs') t'") (auto simp: standing_def)
      next
        case False
        then show ?thesis using n(2) by (cases "ops_code ops'") (auto simp: standing_def)
      qed
      ultimately show False using no_labels by auto
    qed
    then show ?thesis using that [of "(ops', t')"] at [OF n(2), of "tl ks"] n(1) Nil p(1) e by (cases ks) auto
  qed
qed

lemma stands_instr:
  fixes D :: "'d device" and E :: linkage
  assumes "emits f code" "stands f pt (InstrLine m oper # q)"
  obtains (acts) op op' ops t where "pma_decode m oper = Some (PDo op')" "same_instr op op'" "stands f (ops, t) q"
      "\<And>s r. exec D E f (op # ops, t) s r \<Longrightarrow> exec D E f pt s r"
    | (turns) t bs i rest where "pma_decode m oper = Some i" "term_starts f (next_id bs) t i rest"
      "q = rest @ blocks_code f (referenced (fn_blocks f)) bs" "standing f [] t bs (InstrLine m oper # q)"
      "\<And>s r. exec D E f ([], t) s r \<Longrightarrow> exec D E f pt s r"
proof -
  obtain bs ls p where p: "InstrLine m oper # q = map LabelLine ls @ p" "standing f (fst pt) (snd pt) bs p"
    using assms(2) by (auto simp: stands_def)
  have q: "p = InstrLine m oper # q" using p(1) by (cases ls) auto
  obtain ops' t' bs' ks p' where n: "p = map LabelLine ks @ p'" "standing f ops' t' bs' p'"
    "ks \<noteq> [] \<or> ops' \<noteq> [] \<or> term_code f (next_id bs') t' \<noteq> []"
    and e': "\<And>s r. exec D E f (ops', t') s r \<Longrightarrow> exec D E f (fst pt, snd pt) s r"
    using stands_settled [OF assms(1) p(2)] by blast
  have e: "\<And>s r. exec D E f (ops', t') s r \<Longrightarrow> exec D E f pt s r"
    using e' by simp
  have p': "ks = []" "p' = InstrLine m oper # q" using n(1) q by (cases ks; simp)+
  show ?thesis
  proof (cases ops')
    case (Cons o1 ops)
    then have "stands f (o1 # ops, t') (InstrLine m oper # q)" using n(2) p'(2)
      unfolding stands_def by (intro exI [of _ bs'] exI [of _ "[]"] exI [of _ p']) simp
    then obtain ls1 m1 oper1 op1 q1 where l: "InstrLine m oper # q = map LabelLine ls1 @ InstrLine m1 oper1 # q1"
      "pma_decode m1 oper1 = Some (PDo op1)" "same_instr o1 op1" "stands f (ops, t') q1" by (rule stands_cons)
    then have "m1 = m" "oper1 = oper" "q1 = q" by (cases ls1; simp)+
    then show ?thesis using acts [of op1 o1 ops t'] l e Cons by simp
  next
    case Nil
    have v: "valid_fn f" using assms(1) by (simp add: emits_def)
    have ids: "set (targets t') \<subseteq> set (block_ids f)" using n(2) by (simp add: standing_def)
    obtain m1 oper1 i rest where t: "term_code f (next_id bs') t' = InstrLine m1 oper1 # rest"
      "pma_decode m1 oper1 = Some i" "term_starts f (next_id bs') t' i rest"
      using term_code_starts [OF v ids, of "next_id bs'"] n(3) p'(1) Nil by auto
    then have "m1 = m" "oper1 = oper" "q = rest @ blocks_code f (referenced (fn_blocks f)) bs'"
      using n(2) p'(2) Nil by (simp_all add: standing_def)
    then show ?thesis using turns [of i bs' t' rest] t(2,3) n(2) p'(2) e Nil by simp
  qed
qed

text \<open>A jump leads to the block the terminator goes to.\<close>

lemma stands_jump:
  assumes "emits f code" "standing f [] t bs p" "term_starts f (next_id bs) t i rest"
    and "i = PJump l \<or> i = PIf mf l" "after_label l code = Some q"
  obtains k b where "goes t mf = Some k" "block_at f k = Some b" "stands f (point_of b) q"
proof -
  have v: "valid_fn f" "labels_ok f" "code = fn_code f" using assms(1) by (simp_all add: emits_def)
  obtain k where k: "goes t mf = Some k" "l = block_label f k" "k \<in> term_refs (next_id bs) t"
    using assms(3,4) by (auto simp: term_starts_def split: if_splits)
  then have "k \<in> referenced (fn_blocks f)" "k \<in> set (block_ids f)"
    using assms(2) goes_targets [OF k(1)] by (auto simp: standing_def)
  from label_stands [OF v(1,2) this] show ?thesis using that [OF k(1)] assms(5) k(2) v(3) by auto
qed

lemma code_to_ir:
  fixes D :: "'d device"
  assumes link: "code_linked E C"
  shows "pma_exec D C code p s r \<Longrightarrow> emits f code \<Longrightarrow> stands f pt p \<Longrightarrow> exec D E f pt s r"
proof (induction arbitrary: f pt rule: pma_exec.induct)
  case (pma_label code q s r l)
  show ?case
  proof (rule stands_label [OF pma_label.prems, where D = D and E = E])
    fix pt'
    assume "stands f pt' q" and up: "\<And>s r. exec D E f pt' s r \<Longrightarrow> exec D E f pt s r"
    then show ?thesis by (intro up pma_label.IH [OF pma_label.prems(1)])
  qed
next
  case (pma_act m oper op s s' code q r)
  from pma_act.prems show ?case
  proof (cases rule: stands_instr [where D = D and E = E])
    case (acts o1 op' ops t)
    then have "called o1 = None" "act D o1 s = Inr s'"
      using pma_act(1-3) same_instr_act [OF acts(2), of D s] same_instr_called [OF acts(2)] by simp_all
    then show ?thesis using acts(4) exec_act pma_act.IH [OF pma_act.prems(1) acts(3)] by blast
  qed (use pma_act(1) in \<open>auto simp: term_starts_def split: if_splits\<close>)
next
  case (pma_fault m oper op s e s' code q)
  from pma_fault.prems show ?case
  proof (cases rule: stands_instr [where D = D and E = E])
    case (acts o1 op' ops t)
    then have "called o1 = None" "act D o1 s = Inl (e, s')"
      using pma_fault(1-3) same_instr_act [OF acts(2), of D s] same_instr_called [OF acts(2)] by simp_all
    then show ?thesis using acts(4) exec_fault by blast
  qed (use pma_fault(1) in \<open>auto simp: term_starts_def split: if_splits\<close>)
next
  case (pma_call m oper op n c s s' code q r)
  from pma_call.prems show ?case
  proof (cases rule: stands_instr [where D = D and E = E])
    case (acts o1 op' ops t)
    then have o1: "called o1 = Some n"
      using pma_call(1,2) same_instr_called [OF acts(2)] by simp
    obtain g q' where g: "callee_of E n = Some (g, q')" "emits g c" "stands g q' c"
      using code_linked_callee(2) [OF link pma_call(3)] by blast
    show ?thesis
      by (rule acts(4) [OF exec_call [OF o1 g(1) pma_call.IH(1) [OF g(2,3)] pma_call.IH(2) [OF pma_call.prems(1) acts(3)]]])
  qed (use pma_call(1) in \<open>auto simp: term_starts_def split: if_splits\<close>)
next
  case (pma_call_ends m oper op n c s r code q)
  from pma_call_ends.prems show ?case
  proof (cases rule: stands_instr [where D = D and E = E])
    case (acts o1 op' ops t)
    then have o1: "called o1 = Some n"
      using pma_call_ends(1,2) same_instr_called [OF acts(2)] by simp
    obtain g q' where g: "callee_of E n = Some (g, q')" "emits g c" "stands g q' c"
      using code_linked_callee(2) [OF link pma_call_ends(3)] by blast
    show ?thesis
      by (rule acts(4) [OF exec_call_ends [OF o1 g(1) pma_call_ends.IH [OF g(2,3)] pma_call_ends(5)]])
  qed (use pma_call_ends(1) in \<open>auto simp: term_starts_def split: if_splits\<close>)
next
  case (pma_jumps m oper l s code q' r q)
  from pma_jumps.prems show ?case
  proof (cases rule: stands_instr [where D = D and E = E])
    case (turns t bs i rest)
    then have "i = PJump l \<or> i = PIf (s_mf s) l" using pma_jumps(1) by auto
    from stands_jump [OF pma_jumps.prems(1) turns(4,2) this pma_jumps(2)] obtain k b
      where k: "goes t (s_mf s) = Some k" "block_at f k = Some b" "stands f (point_of b) q'" .
    show ?thesis
      by (rule turns(5) [OF exec_goes [OF k(1,2) pma_jumps.IH [OF pma_jumps.prems(1) k(3)]]])
  qed (use pma_jumps(1) in auto)
next
  case (pma_passes m oper s l code q r)
  from pma_passes.prems show ?case
  proof (cases rule: stands_instr [where D = D and E = E])
    case (turns t bs i rest)
    then obtain j where j: "goes t (s_mf s) = Some j" "q = term_code f (next_id bs) (Goto j) @ blocks_code f (referenced (fn_blocks f)) bs"
      "term_refs (next_id bs) (Goto j) \<subseteq> term_refs (next_id bs) t"
      using pma_passes(1) by (auto simp: term_starts_def split: if_splits)
    then have "standing f [] (Goto j) bs q" using turns(4) goes_targets [OF j(1)] by (auto simp: standing_def)
    then have "stands f ([], Goto j) q" unfolding stands_def by (intro exI [of _ bs] exI [of _ "[]"] exI [of _ q]) simp
    then have "exec D E f ([], Goto j) s r" by (rule pma_passes.IH [OF pma_passes.prems(1)])
    then have "exec D E f ([], t) s r" using j(1) by (cases rule: exec.cases) (auto intro: exec_goes)
    then show ?thesis by (rule turns(5))
  qed (use pma_passes(1) in auto)
next
  case (pma_tail m oper n c s r code q)
  from pma_tail.prems show ?case
  proof (cases rule: stands_instr [where D = D and E = E])
    case (turns t bs i rest)
    then have t: "tail_callee t = Some n" using pma_tail(1) by (auto simp: term_starts_def split: if_splits)
    obtain g q' where g: "callee_of E n = Some (g, q')" "emits g c" "stands g q' c"
      using code_linked_callee(2) [OF link pma_tail(2)] by blast
    show ?thesis by (rule turns(5) [OF exec_tail [OF t g(1) pma_tail.IH [OF g(2,3)]]])
  qed (use pma_tail(1) in auto)
next
  case (pma_stop m oper code q s)
  from pma_stop.prems show ?case
  proof (cases rule: stands_instr [where D = D and E = E])
    case (turns t bs i rest)
    then show ?thesis using pma_stop(1) by (intro turns(5) exec_leaves) (auto simp: term_starts_def split: if_splits)
  qed (use pma_stop(1) in auto)
next
  case (pma_ret m oper code q s)
  from pma_ret.prems show ?case
  proof (cases rule: stands_instr [where D = D and E = E])
    case (turns t bs i rest)
    then show ?thesis using pma_ret(1) by (intro turns(5) exec_leaves) (auto simp: term_starts_def split: if_splits)
  qed (use pma_ret(1) in auto)
next
  case (pma_halt m oper code q s)
  from pma_halt.prems show ?case
  proof (cases rule: stands_instr [where D = D and E = E])
    case (turns t bs i rest)
    then show ?thesis using pma_halt(1) by (intro turns(5) exec_leaves) (auto simp: term_starts_def split: if_splits)
  qed (use pma_halt(1) in auto)
qed

lemma code_run:
  assumes "code_linked E C"
  shows "pma_run D C n s = run_fn D E n s"
proof -
  have run: "pma_run D C n s = Some r \<longleftrightarrow> run_fn D E n s = Some r" for r
    unfolding pma_run_exec run_fn_calls calls_def
    using code_linked_callee [OF assms] ir_to_code [OF assms] code_to_ir [OF assms] by (metis option.inject)
  show ?thesis using run by (cases "run_fn D E n s"; cases "pma_run D C n s") auto
qed

end
