(* ===== verification/Codegen_Program.thy ===== *)
theory Codegen_Program
  imports Codegen_Correct
begin

text \<open>
  Whole modules through code generation: the text and the line map as functions of the lines, the
  functions found again in the listing, \<open>--strip-debugger\<close>, and the property that generated assembly
  behaves as the intermediate representation.
\<close>

section \<open>The text of a module\<close>

fun program_lines :: "codegen_options \<Rightarrow> ir_function list \<Rightarrow> (pma_line \<times> u32) list option" where
  "program_lines o' [] = Some []"
| "program_lines o' (f # fs) =
     Option.bind (function_lines o' f) (\<lambda>xs. map_option ((@) xs) (program_lines o' fs))"

lemma emit_functions_lines:
  "emit_functions fs o' e = map_option (\<lambda>xs. fold push_line xs e) (program_lines o' fs)"
  by (induction fs arbitrary: e) (auto simp: emit_function_def option.map_comp comp_def split: bind_splits
      intro: sym [OF option.map_comp])

text \<open>The line of the source behind every line of the text that has one.\<close>

definition source_lines :: "nat \<Rightarrow> (pma_line \<times> u32) list \<Rightarrow> (u32 \<times> u32) list" where
  "source_lines n xs =
     List.map_filter (\<lambda>(i, x). if snd x \<noteq> 0 then Some (of_nat i, snd x) else None) (enumerate n xs)"

lemma push_lines:
  "fold push_line xs e = \<lparr>em_lines = em_lines e @ map (line_text \<circ> fst) xs,
     em_line_map = em_line_map e @ source_lines (length (em_lines e) + 1) xs\<rparr>"
  by (induction xs arbitrary: e)
    (simp_all add: source_lines_def map_filter_def push_line_def em_push_def Let_def)

definition listing_text :: "pma_line list \<Rightarrow> string" where
  "listing_text xs = join_lines (map line_text xs) @ [CHR 0x0A]"

lemma emit_program_lines:
  "emit_program ir o' = map_option
     (\<lambda>xs. \<lparr>po_text = listing_text (map fst xs), po_line_map = source_lines 1 xs\<rparr>)
     (program_lines o' (ir_functions ir))"
  by (simp add: emit_program_def emit_functions_lines option.map_comp comp_def push_lines listing_text_def)

section \<open>Functions in a listing\<close>

lemma fn_code_no_func: "\<forall>x \<in> set (fn_code f). \<not> is_func x"
proof -
  have ops: "\<not> is_func x" if "x \<in> set (ops_code ops)" for x ops
    using that
  proof (induction ops)
    case (Cons op ops)
    then show ?case by (cases op) auto
  qed simp
  have terms: "\<not> is_func x" if "x \<in> set (term_code f nx t)" for x nx t
    using that by (cases t) (auto simp: jump_instr_def leave_line_def split: if_splits)
  have "\<not> is_func x" if "x \<in> set (blocks_code f refs bs)" for x refs bs
    using that by (induction bs) (auto simp: label_code_def label_lines_def ops terms split: if_splits)
  then show ?thesis by (simp add: fn_code_def)
qed

lemma takeWhile_code: "takeWhile (\<lambda>x. \<not> is_func x) (fn_code f @ FuncLine n l # xs) = fn_code f"
  "takeWhile (\<lambda>x. \<not> is_func x) (fn_code f) = fn_code f"
  using fn_code_no_func [of f] by (simp_all add: takeWhile_append2)

lemma code_of_skip: "\<forall>x \<in> set c. \<not> is_func x \<Longrightarrow> code_of (c @ xs) n = code_of xs n"
proof (induction c)
  case (Cons x c)
  then show ?case by (cases x) simp_all
qed simp

fun listing_of :: "ir_function list \<Rightarrow> pma_line list" where
  "listing_of [] = []"
| "listing_of (f # fs) = FuncLine (fn_name f) (fn_local f) # fn_code f @ listing_of fs"

lemma program_lines_listing:
  "\<forall>f \<in> set fs. valid_fn f \<Longrightarrow> \<exists>xs. program_lines keep_brk fs = Some xs \<and> map fst xs = listing_of fs"
proof (induction fs)
  case (Cons f fs)
  obtain xs where "function_lines keep_brk f = Some xs"
    "map fst xs = FuncLine (fn_name f) (fn_local f) # fn_code f"
    using function_lines_code [of f] Cons.prems by auto
  then show ?case using Cons by auto
qed simp

lemma takeWhile_listing: "takeWhile (\<lambda>x. \<not> is_func x) (fn_code f @ listing_of fs) = fn_code f"
  by (cases fs) (simp_all add: takeWhile_code)

lemma code_of_listing:
  "code_of (listing_of fs) n = map_option fn_code (find (\<lambda>f. fn_name f = n) fs)"
  by (induction fs) (simp_all add: takeWhile_listing code_of_skip fn_code_no_func)

lemma linked_listing:
  assumes "\<forall>f \<in> set fs. valid_fn f \<and> labels_ok f" "code_linked rest rest'"
  shows "code_linked (linked rest fs) (pma_linked rest' (listing_of fs))"
  unfolding code_linked_def
proof
  fix n
  show "rel_option emits (linked rest fs n) (pma_linked rest' (listing_of fs) n)"
  proof (cases "find (\<lambda>f. fn_name f = n) fs")
    case None
    then show ?thesis using assms(2) by (simp add: linked_def pma_linked_def code_of_listing code_linked_def)
  next
    case (Some f)
    then have "emits f (fn_code f)" using assms(1) find_SomeD [OF Some] by (simp add: emits_def)
    then show ?thesis using Some by (simp add: linked_def pma_linked_def code_of_listing)
  qed
qed

section \<open>Stripped breakpoints\<close>

definition no_brk :: "ir_op list \<Rightarrow> ir_op list" where
  "no_brk ops = filter (\<lambda>op. \<not> is_brk op) ops"

definition no_brk_block :: "ir_block \<Rightarrow> ir_block" where
  "no_brk_block b = b\<lparr>b_ops := no_brk (b_ops b)\<rparr>"

definition no_brk_fn :: "ir_function \<Rightarrow> ir_function" where
  "no_brk_fn f = map_blocks no_brk_block f"

lemma no_brk_block_simps [simp]:
  "b_id (no_brk_block b) = b_id b" "b_labels (no_brk_block b) = b_labels b"
  "b_term (no_brk_block b) = b_term b" "b_ops (no_brk_block b) = no_brk (b_ops b)"
  "b_term_line (no_brk_block b) = b_term_line b" "block_name (no_brk_block b) = block_name b"
  by (simp_all add: no_brk_block_def block_name_def split: list.split)

lemma no_brk_fn_simps [simp]:
  "fn_name (no_brk_fn f) = fn_name f" "fn_blocks (no_brk_fn f) = map no_brk_block (fn_blocks f)"
  "fn_local (no_brk_fn f) = fn_local f" "fn_line (no_brk_fn f) = fn_line f"
  by (simp_all add: no_brk_fn_def)

lemma no_brk_simps [simp]:
  "no_brk [] = []" "no_brk (op # ops) = (if is_brk op then no_brk ops else op # no_brk ops)"
  by (simp_all add: no_brk_def)

lemma no_brk_valid: "valid_fn f \<Longrightarrow> valid_fn (no_brk_fn f)"
  unfolding no_brk_fn_def by (rule valid_map) (auto simp: valid_fn_def)

lemma no_brk_labels: "labels_ok f \<Longrightarrow> labels_ok (no_brk_fn f)"
  by (simp add: labels_ok_def fn_labels_def comp_def)

lemma strip_ops:
  "concat (map (op_lines \<lparr>strip_debugger = True\<rparr>) ops) = concat (map (op_lines keep_brk) (no_brk ops))"
proof (induction ops)
  case (Cons op ops)
  then show ?case by (cases op) simp_all
qed simp

lemma strip_next [simp]: "next_id (map no_brk_block bs) = next_id bs"
  by (cases bs) simp_all

lemma strip_referenced [simp]: "referenced (map no_brk_block bs) = referenced bs"
  by (induction bs) simp_all

lemma strip_blocks:
  assumes "fn_name g = fn_name f"
  shows "block_lines \<lparr>strip_debugger = True\<rparr> f names refs bs = block_lines keep_brk g names refs (map no_brk_block bs)"
proof -
  have "term_lines f names nx t l = term_lines g names nx t l" for nx t l
    using assms by (cases t) simp_all
  then show ?thesis by (induction bs) (simp_all add: strip_ops label_lines_def)
qed

lemma strip_function: "function_lines \<lparr>strip_debugger = True\<rparr> f = function_lines keep_brk (no_brk_fn f)"
proof -
  have "block_names (no_brk_fn f) = block_names f" by (simp add: block_names_def comp_def)
  then show ?thesis using strip_blocks [of "no_brk_fn f" f] by (simp add: function_lines_def)
qed

lemma strip_program: "program_lines \<lparr>strip_debugger = True\<rparr> fs = program_lines keep_brk (map no_brk_fn fs)"
  by (induction fs) (simp_all add: strip_function)

text \<open>Without its breakpoints a program does the same and observes nothing.\<close>

definition forget :: "('d \<times> bool) list \<Rightarrow> 'd result \<Rightarrow> 'd result" where
  "forget x r =
     (case r of
        Back s \<Rightarrow> Back (s\<lparr>s_seen := x\<rparr>)
      | Stops s \<Rightarrow> Stops (s\<lparr>s_seen := x\<rparr>)
      | Halts s \<Rightarrow> Halts (s\<lparr>s_seen := x\<rparr>)
      | Faults e s \<Rightarrow> Faults e (s\<lparr>s_seen := x\<rparr>))"

lemma forget_simps [simp]:
  "forget x (Back s) = Back (s\<lparr>s_seen := x\<rparr>)" "forget x (Stops s) = Stops (s\<lparr>s_seen := x\<rparr>)"
  "forget x (Halts s) = Halts (s\<lparr>s_seen := x\<rparr>)" "forget x (Faults e s) = Faults e (s\<lparr>s_seen := x\<rparr>)"
  by (simp_all add: forget_def)

lemma forget_Back: "forget x r = Back s' \<longleftrightarrow> (\<exists>s. r = Back s \<and> s' = s\<lparr>s_seen := x\<rparr>)"
  by (cases r) auto

definition unseen :: "('d \<times> bool) list \<Rightarrow> 'd ir_state \<Rightarrow> 'd ir_state" where
  "unseen x s = s\<lparr>s_seen := x\<rparr>"

lemma unseen_simps [simp]: "s_mf (unseen x s) = s_mf s" "unseen x (unseen y s) = unseen x s"
  "unseen x (s\<lparr>s_seen := y\<rparr>) = unseen x s"
  by (simp_all add: unseen_def)

lemma act_unseen: "\<not> is_brk op \<Longrightarrow> act D op (unseen x s) = map_sum (map_prod id (unseen x)) (unseen x) (act D op s)"
proof -
  have t: "touch g (unseen x s) = map_sum (map_prod id (unseen x)) (unseen x) (touch g s)" for g and s
    by (simp add: touch_def unseen_def split: sum.split prod.split)
  have l: "latch_cell D (unseen x s) = map_sum (map_prod id (unseen x)) (unseen x) (latch_cell D s)" for D and s
    by (simp add: latch_cell_def unseen_def split: sum.split prod.split)
  have k: "on_ok (map_sum (map_prod id (unseen x)) (unseen x) a) k = map_sum (map_prod id (unseen x)) (unseen x) (on_ok a j)"
    if "\<And>y. k (unseen x y) = map_sum (map_prod id (unseen x)) (unseen x) (j y)" for a k j
    using that by (cases a) simp_all
  show "\<not> is_brk op \<Longrightarrow> ?thesis" by (cases op) (simp_all add: t k l)
qed

lemma no_brk_called: "is_brk op \<Longrightarrow> called op = None" by (cases op) simp_all

lemma no_brk_block_at: "block_at (no_brk_fn f) i = map_option no_brk_block (block_at f i)"
  unfolding no_brk_fn_def by (rule block_at_map) simp

definition no_brk_linked :: "linkage \<Rightarrow> linkage" where
  "no_brk_linked E n = map_option no_brk_fn (E n)"

definition no_brk_point :: "point \<Rightarrow> point" where
  "no_brk_point p = (no_brk (fst p), snd p)"

lemma no_brk_callee:
  "callee_of (no_brk_linked E) n = map_option (map_prod no_brk_fn no_brk_point) (callee_of E n)"
proof -
  have "entry_point (no_brk_fn g) = map_option no_brk_point (entry_point g)" for g
    by (simp add: entry_point_def no_brk_point_def point_of_def split: list.split)
  then show ?thesis by (simp add: callee_of_def no_brk_linked_def option.map_comp comp_def split: option.split)
qed

lemma leaves_unseen: "leaves (no_brk_fn f) t (unseen x s) = map_option (forget x) (leaves f t s)"
  by (cases t) (simp_all add: unseen_def)

lemma strip_run_fwd:
  "exec D E f p s r \<Longrightarrow> exec D (no_brk_linked E) (no_brk_fn f) (no_brk_point p) (unseen x s) (forget x r)"
proof (induction arbitrary: rule: exec.induct)
  case (exec_act op s s' f ops t r)
  show ?case
  proof (cases "is_brk op")
    case True
    then have "unseen x s = unseen x s'" using exec_act(2) by (cases op) auto
    then show ?thesis using exec_act.IH True by (simp add: no_brk_point_def)
  next
    case False
    then show ?thesis using exec_act act_unseen [OF False, of D x s]
      by (auto simp: no_brk_point_def intro: exec.exec_act)
  qed
next
  case (exec_fault op s e s' f ops t)
  then have "\<not> is_brk op" by (cases op) auto
  then show ?case using exec_fault act_unseen [of op D x s]
    by (auto simp: no_brk_point_def unseen_def intro: exec.exec_fault)
next
  case (exec_call op n g q s s' f ops t r)
  then have "\<not> is_brk op" by (cases op) auto
  then show ?case using exec_call
    by (auto simp: no_brk_point_def no_brk_callee unseen_def intro: exec.exec_call)
next
  case (exec_call_ends op n g q s r f ops t)
  then have "\<not> is_brk op" by (cases op) auto
  then show ?case using exec_call_ends
    by (auto simp: no_brk_point_def no_brk_callee forget_Back intro: exec.exec_call_ends)
next
  case (exec_goes t s i f b r)
  then show ?case
    by (auto simp: no_brk_point_def no_brk_block_at point_of_def intro: exec.exec_goes)
next
  case (exec_tail t n g q s r f)
  then show ?case by (auto simp: no_brk_point_def no_brk_callee intro: exec.exec_tail)
next
  case (exec_leaves f t s r)
  then show ?case using leaves_unseen [of f t x s]
    by (auto simp: no_brk_point_def intro: exec.exec_leaves)
qed

text \<open>Breakpoints at the front of a point can be run first.\<close>

lemma skip_brks:
  "\<exists>s'. unseen x s' = unseen x s \<and> (\<forall>r. exec D E f (dropWhile is_brk ops, t) s' r \<longrightarrow> exec D E f (ops, t) s r)"
proof (induction ops arbitrary: s)
  case (Cons op ops)
  show ?case
  proof (cases "is_brk op")
    case False
    then show ?thesis by (intro exI [of _ s]) simp
  next
    case True
    then obtain l where op: "op = Brk l" by (cases op) auto
    let ?s = "s\<lparr>s_seen := s_seen s @ [(s_dev s, s_mf s)]\<rparr>"
    obtain s' where s': "unseen x s' = unseen x ?s"
      "\<forall>r. exec D E f (dropWhile is_brk ops, t) s' r \<longrightarrow> exec D E f (ops, t) ?s r" using Cons.IH by blast
    have "act D op s = Inr ?s" "called op = None" by (simp_all add: op)
    then show ?thesis using s' True by (intro exI [of _ s']) (auto intro: exec_act)
  qed
qed auto

lemma no_brk_first:
  "no_brk ops = (case dropWhile is_brk ops of [] \<Rightarrow> [] | op # rest \<Rightarrow> op # no_brk rest)"
proof (induction ops)
  case (Cons op ops)
  then show ?case by (cases "is_brk op") simp_all
qed simp

lemma no_brk_Cons:
  assumes "no_brk ops = op # ops'"
  obtains rest where "dropWhile is_brk ops = op # rest" "no_brk rest = ops'" "\<not> is_brk op"
proof -
  obtain rest where r: "dropWhile is_brk ops = op # rest" "no_brk rest = ops'"
    using assms no_brk_first [of ops] by (cases "dropWhile is_brk ops") auto
  moreover have "\<not> is_brk op" using r(1) hd_dropWhile [of is_brk ops] by auto
  ultimately show ?thesis by (rule that)
qed

lemma no_brk_Nil: "no_brk ops = [] \<Longrightarrow> dropWhile is_brk ops = []"
  using no_brk_first [of ops] by (simp split: list.splits)

lemma strip_run_bwd:
  "exec D C g q s' r' \<Longrightarrow> C = no_brk_linked E \<Longrightarrow> g = no_brk_fn f \<Longrightarrow> q = no_brk_point p \<Longrightarrow> s' = unseen x s
   \<Longrightarrow> \<exists>r. exec D E f p s r \<and> r' = forget x r"
proof (induction arbitrary: f p s rule: exec.induct)
  case (exec_act op s1 s2 g ops t r)
  obtain ops0 where p: "p = (ops0, t)" "no_brk ops0 = op # ops" using exec_act.prems by (cases p) (simp add: no_brk_point_def)
  obtain rest where r: "dropWhile is_brk ops0 = op # rest" "no_brk rest = ops" "\<not> is_brk op"
    using p(2) by (rule no_brk_Cons)
  obtain s' where s': "unseen x s' = unseen x s" "\<And>r. exec D E f (op # rest, t) s' r \<Longrightarrow> exec D E f (ops0, t) s r"
    using skip_brks [of x s D E f ops0 t] r(1) by auto
  then obtain s3 where a: "act D op s' = Inr s3" "s2 = unseen x s3"
    using exec_act(2) exec_act.prems(4) act_unseen [OF r(3), of D x s'] by (auto simp: map_sum_Inr)
  obtain r0 where "exec D E f (rest, t) s3 r0" "r = forget x r0"
    using exec_act.IH [OF exec_act.prems(1,2) _ a(2), of "(rest, t)"] r(2) by (auto simp: no_brk_point_def)
  then show ?case using s'(2) exec.exec_act [OF exec_act(1) a(1)] p(1) by blast
next
  case (exec_fault op s1 e s2 g ops t)
  obtain ops0 where p: "p = (ops0, t)" "no_brk ops0 = op # ops" using exec_fault.prems by (cases p) (simp add: no_brk_point_def)
  obtain rest where r: "dropWhile is_brk ops0 = op # rest" "no_brk rest = ops" "\<not> is_brk op"
    using p(2) by (rule no_brk_Cons)
  obtain s' where s': "unseen x s' = unseen x s" "\<And>r. exec D E f (op # rest, t) s' r \<Longrightarrow> exec D E f (ops0, t) s r"
    using skip_brks [of x s D E f ops0 t] r(1) by auto
  then obtain s3 where a: "act D op s' = Inl (e, s3)" "s2 = unseen x s3"
    using exec_fault(2) exec_fault.prems(4) act_unseen [OF r(3), of D x s'] by (auto simp: map_sum_Inr)
  have "exec D E f p s (Faults e s3)" using s'(2) exec.exec_fault [OF exec_fault(1) a(1)] p(1) by simp
  moreover have "Faults e s2 = forget x (Faults e s3)" using a(2) by (simp add: unseen_def)
  ultimately show ?case by blast
next
  case (exec_call op n g' q s1 s2 g ops t r)
  obtain ops0 where p: "p = (ops0, t)" "no_brk ops0 = op # ops" using exec_call.prems by (cases p) (simp add: no_brk_point_def)
  obtain rest where r: "dropWhile is_brk ops0 = op # rest" "no_brk rest = ops" "\<not> is_brk op"
    using p(2) by (rule no_brk_Cons)
  obtain s' where s': "unseen x s' = unseen x s" "\<And>r. exec D E f (op # rest, t) s' r \<Longrightarrow> exec D E f (ops0, t) s r"
    using skip_brks [of x s D E f ops0 t] r(1) by auto
  obtain h k where h: "callee_of E n = Some (h, k)" "g' = no_brk_fn h" "q = no_brk_point k"
    using exec_call(2) exec_call.prems(1) by (auto simp: no_brk_callee)
  obtain r0 where "exec D E h k s' r0" "Back s2 = forget x r0"
    using exec_call.IH(1) [OF exec_call.prems(1) h(2,3)] exec_call.prems(4) s'(1) by metis
  then obtain s3 where s3: "exec D E h k s' (Back s3)" "s2 = unseen x s3" by (cases r0) (auto simp: unseen_def)
  obtain r1 where "exec D E f (rest, t) s3 r1" "r = forget x r1"
    using exec_call.IH(2) [OF exec_call.prems(1,2) _ s3(2), of "(rest, t)"] r(2) by (auto simp: no_brk_point_def)
  then show ?case using s'(2) exec.exec_call [OF exec_call(1) h(1) s3(1)] p(1) by blast
next
  case (exec_call_ends op n g' q s1 r1 g ops t)
  obtain ops0 where p: "p = (ops0, t)" "no_brk ops0 = op # ops" using exec_call_ends.prems by (cases p) (simp add: no_brk_point_def)
  obtain rest where r: "dropWhile is_brk ops0 = op # rest" "no_brk rest = ops" "\<not> is_brk op"
    using p(2) by (rule no_brk_Cons)
  obtain s' where s': "unseen x s' = unseen x s" "\<And>r. exec D E f (op # rest, t) s' r \<Longrightarrow> exec D E f (ops0, t) s r"
    using skip_brks [of x s D E f ops0 t] r(1) by auto
  obtain h k where h: "callee_of E n = Some (h, k)" "g' = no_brk_fn h" "q = no_brk_point k"
    using exec_call_ends(2) exec_call_ends.prems(1) by (auto simp: no_brk_callee)
  obtain r0 where r0: "exec D E h k s' r0" "r1 = forget x r0"
    using exec_call_ends.IH [OF exec_call_ends.prems(1) h(2,3)] exec_call_ends.prems(4) s'(1) by metis
  then have "\<forall>s. r0 \<noteq> Back s" using exec_call_ends(4) by auto
  then show ?case using s'(2) exec.exec_call_ends [OF exec_call_ends(1) h(1) r0(1)] p(1) r0(2) by blast
next
  case (exec_goes t s1 i g b r)
  obtain ops0 where p: "p = (ops0, t)" "no_brk ops0 = []" using exec_goes.prems by (cases p) (simp add: no_brk_point_def)
  obtain s' where s': "unseen x s' = unseen x s" "\<And>r. exec D E f ([], t) s' r \<Longrightarrow> exec D E f (ops0, t) s r"
    using skip_brks [of x s D E f ops0 t] no_brk_Nil [OF p(2)] by auto
  obtain b0 where b: "block_at f i = Some b0" "b = no_brk_block b0"
    using exec_goes(2) exec_goes.prems(2) by (auto simp: no_brk_block_at)
  have "s_mf (unseen x s') = s_mf (unseen x s)" using s'(1) by simp
  then have mf: "goes t (s_mf s') = Some i" using exec_goes(1) exec_goes.prems(4) by simp
  have "point_of b = no_brk_point (point_of b0)" by (simp add: b(2) point_of_def no_brk_point_def)
  then obtain r0 where "exec D E f (point_of b0) s' r0" "r = forget x r0"
    using exec_goes.IH [OF exec_goes.prems(1,2)] exec_goes.prems(4) s'(1) by metis
  then show ?case using s'(2) exec.exec_goes [OF mf b(1)] p(1) by blast
next
  case (exec_tail t n g' q s1 r g)
  obtain ops0 where p: "p = (ops0, t)" "no_brk ops0 = []" using exec_tail.prems by (cases p) (simp add: no_brk_point_def)
  obtain s' where s': "unseen x s' = unseen x s" "\<And>r. exec D E f ([], t) s' r \<Longrightarrow> exec D E f (ops0, t) s r"
    using skip_brks [of x s D E f ops0 t] no_brk_Nil [OF p(2)] by auto
  obtain h k where h: "callee_of E n = Some (h, k)" "g' = no_brk_fn h" "q = no_brk_point k"
    using exec_tail(2) exec_tail.prems(1) by (auto simp: no_brk_callee)
  obtain r0 where "exec D E h k s' r0" "r = forget x r0"
    using exec_tail.IH [OF exec_tail.prems(1) h(2,3)] exec_tail.prems(4) s'(1) by metis
  then show ?case using s'(2) exec.exec_tail [OF exec_tail(1) h(1)] p(1) by blast
next
  case (exec_leaves g t s1 r)
  obtain ops0 where p: "p = (ops0, t)" "no_brk ops0 = []" using exec_leaves.prems by (cases p) (simp add: no_brk_point_def)
  obtain s' where s': "unseen x s' = unseen x s" "\<And>r. exec D E f ([], t) s' r \<Longrightarrow> exec D E f (ops0, t) s r"
    using skip_brks [of x s D E f ops0 t] no_brk_Nil [OF p(2)] by auto
  have "leaves (no_brk_fn f) t (unseen x s') = Some r" using exec_leaves s'(1) by simp
  then obtain r0 where "leaves f t s' = Some r0" "r = forget x r0" by (auto simp: leaves_unseen)
  then show ?case using s'(2) exec.exec_leaves p(1) by blast
qed

lemma strip_run: "run_fn D (no_brk_linked E) n (unseen x s) = map_option (forget x) (run_fn D E n s)"
proof -
  have fwd: "run_fn D E n s = Some r \<Longrightarrow> run_fn D (no_brk_linked E) n (unseen x s) = Some (forget x r)" for r
    unfolding run_fn_calls calls_def
    by (clarsimp simp: no_brk_callee) (metis prod.collapse strip_run_fwd)
  have bwd: "run_fn D (no_brk_linked E) n (unseen x s) = Some r' \<Longrightarrow> \<exists>r. run_fn D E n s = Some r" for r'
    unfolding run_fn_calls calls_def
    by (clarsimp simp: no_brk_callee) (metis strip_run_bwd)
  show ?thesis using fwd bwd by (cases "run_fn D E n s"; cases "run_fn D (no_brk_linked E) n (unseen x s)") auto
qed

section \<open>Properties\<close>

text \<open>A program linked with the assembly its functions were generated to.\<close>

definition generated :: "codegen_options \<Rightarrow> ir_function \<Rightarrow> pma_code \<Rightarrow> bool" where
  "generated o' f c \<longleftrightarrow> valid_fn f \<and> labels_ok f
     \<and> (\<exists>xs. function_lines o' f = Some xs \<and> c = tl (map fst xs))"

definition generated_linked :: "codegen_options \<Rightarrow> linkage \<Rightarrow> pma_linkage \<Rightarrow> bool" where
  "generated_linked o' E C \<longleftrightarrow> (\<forall>n. rel_option (generated o') (E n) (C n))"

text \<open>What can be seen of a run: nothing at the breakpoints that were stripped.\<close>

definition observed :: "codegen_options \<Rightarrow> 'd ir_state \<Rightarrow> 'd result \<Rightarrow> 'd result" where
  "observed o' s r = (if strip_debugger o' then forget (s_seen s) r else r)"

lemma generated_emits: "generated keep_brk = emits"
proof (intro ext)
  fix f c
  show "generated keep_brk f c = emits f c"
    using function_lines_code [of f] by (auto simp: generated_def emits_def)
qed

lemma generated_strip: "generated \<lparr>strip_debugger = True\<rparr> f c \<Longrightarrow> emits (no_brk_fn f) c"
  using function_lines_code [OF no_brk_valid, of f] no_brk_valid [of f] no_brk_labels [of f]
  by (auto simp: generated_def emits_def strip_function)

lemma generated_code_linked:
  "generated_linked keep_brk E C \<Longrightarrow> code_linked E C"
  "generated_linked \<lparr>strip_debugger = True\<rparr> E C \<Longrightarrow> code_linked (no_brk_linked E) C"
proof -
  show "generated_linked keep_brk E C \<Longrightarrow> code_linked E C"
    by (simp add: generated_linked_def code_linked_def generated_emits)
  assume g: "generated_linked \<lparr>strip_debugger = True\<rparr> E C"
  show "code_linked (no_brk_linked E) C" unfolding code_linked_def
  proof
    fix n
    show "rel_option emits (no_brk_linked E n) (C n)"
      using g [unfolded generated_linked_def, rule_format, of n] generated_strip
      by (cases "E n"; cases "C n") (auto simp: no_brk_linked_def)
  qed
qed

lemma no_brk_linked_linked: "no_brk_linked (linked rest fs) = linked (no_brk_linked rest) (map no_brk_fn fs)"
proof
  fix n
  have "find (\<lambda>f. fn_name f = n) (map no_brk_fn fs) = map_option no_brk_fn (find (\<lambda>f. fn_name f = n) fs)"
    by (induction fs) simp_all
  then show "no_brk_linked (linked rest fs) n = linked (no_brk_linked rest) (map no_brk_fn fs) n"
    by (simp add: no_brk_linked_def linked_def split: option.split)
qed

lemma module_lines:
  assumes "\<forall>f \<in> set fs. valid_fn f"
  obtains xs where "program_lines o' fs = Some xs"
proof (cases "strip_debugger o'")
  case False
  then have "o' = keep_brk" by simp
  then show ?thesis using program_lines_listing [OF assms] that by auto
next
  case True
  then have "o' = \<lparr>strip_debugger = True\<rparr>" by simp
  then show ?thesis using program_lines_listing [of "map no_brk_fn fs"] assms that
    by (auto simp: strip_program no_brk_valid)
qed

lemma module_run:
  assumes "\<forall>f \<in> set fs. valid_fn f \<and> labels_ok f" "generated_linked o' rest rest'"
    and "program_lines o' fs = Some xs"
  shows "pma_run D (pma_linked rest' (map fst xs)) n s = map_option (observed o' s) (run_fn D (linked rest fs) n s)"
proof (cases "strip_debugger o'")
  case False
  then have o': "o' = keep_brk" by simp
  have xs: "map fst xs = listing_of fs"
    using program_lines_listing [of fs] assms(1,3) o' by auto
  have "pma_run D (pma_linked rest' (map fst xs)) n s = run_fn D (linked rest fs) n s"
    unfolding xs using assms o' by (intro code_run linked_listing generated_code_linked) simp_all
  moreover have "observed o' s = (\<lambda>r. r)" by (simp add: observed_def o' fun_eq_iff)
  ultimately show ?thesis by (simp add: option.map_ident)
next
  case True
  then have o': "o' = \<lparr>strip_debugger = True\<rparr>" by simp
  let ?gs = "map no_brk_fn fs"
  have xs: "map fst xs = listing_of ?gs"
    using program_lines_listing [of ?gs] assms(1,3) no_brk_valid o' by (auto simp: strip_program)
  have "pma_run D (pma_linked rest' (map fst xs)) n s = run_fn D (no_brk_linked (linked rest fs)) n s"
    unfolding xs no_brk_linked_linked using assms o'
    by (intro code_run linked_listing generated_code_linked) (auto simp: no_brk_valid no_brk_labels)
  moreover have "\<dots> = map_option (forget (s_seen s)) (run_fn D (linked rest fs) n s)"
    using strip_run [of D "linked rest fs" n "s_seen s" s] by (simp add: unseen_def)
  moreover have "observed o' s = forget (s_seen s)" by (simp add: observed_def o' fun_eq_iff)
  ultimately show ?thesis by simp
qed

text \<open>
  C34: generated assembly behaves as the representation it was generated from. For functions that satisfy
  the structural invariant and declare no label twice, code generation returns the text of a listing,
  with the source line of every line that has one; and the listing, linked with code generated from
  anything else, gives every run of every function on every device the same end, tape, flag and
  observations, or none in both. Breakpoints stripped from the code observe nothing.
\<close>

theorem codegen_preserves:
  assumes "\<forall>f \<in> set (ir_functions ir). valid_fn f \<and> labels_ok f" and "generated_linked o' rest rest'"
  shows "\<exists>xs. program_lines o' (ir_functions ir) = Some xs
    \<and> emit_program ir o' = Some \<lparr>po_text = listing_text (map fst xs), po_line_map = source_lines 1 xs\<rparr>
    \<and> pma_run D (pma_linked rest' (map fst xs)) n s
        = map_option (observed o' s) (run_fn D (linked rest (ir_functions ir)) n s)"
proof -
  obtain xs where xs: "program_lines o' (ir_functions ir) = Some xs"
    using module_lines [of "ir_functions ir" o'] assms(1) by auto
  then show ?thesis using module_run [OF assms xs] by (simp add: emit_program_lines)
qed

theorem codegen_preserves_witness:
  "\<exists>xs. program_lines keep_brk (ir_functions ex_lowered) = Some xs
    \<and> pma_run infinite_device (pma_linked Map.empty (map fst xs)) ''main'' example_start
        = map_option (observed keep_brk example_start)
            (run_fn infinite_device (linked Map.empty (ir_functions ex_lowered)) ''main'' example_start)"
proof -
  have "\<forall>f \<in> set (ir_functions ex_lowered). valid_fn f \<and> labels_ok f" by code_simp
  moreover have "generated_linked keep_brk Map.empty Map.empty" by (simp add: generated_linked_def)
  ultimately show ?thesis
    using codegen_preserves [of ex_lowered keep_brk Map.empty Map.empty infinite_device "''main''" example_start] by blast
qed

text \<open>
  The layout invariant is about blocks, not about instructions: an empty block that falls through lies
  between a jump and its target, and a jump to the next instruction is generated.
\<close>

definition ex_hop :: pmc_fn where
  "ex_hop = ex_fn ''hop''
     [ex_stmt [1] [GotoItem 3 sp0 '''' 1], ex_stmt [2] [GotoItem 3 sp0 '''' 1],
      ex_stmt [3] [BuiltinItem BRight ToNext None None None 1]]"

lemma jump_to_next_instruction:
  "map_option (map fst) (Option.bind (lower_function ex_hop [])
      (\<lambda>r. case r of Inl e \<Rightarrow> None | Inr (f, ws) \<Rightarrow> function_lines keep_brk f))
   = Some [FuncLine ''hop'' False, InstrLine ''jmp'' ''L3'', LabelLine ''L3'', InstrLine ''rgt'' '''', InstrLine ''ret'' '''']"
  by code_simp

end
