(* ===== verification/Pmc_Flatten.thy ===== *)
theory Pmc_Flatten
  imports Pmc_Ast
begin

text \<open>
  The duplicate-binding check and \<open>flatten\<close> of \<open>crates/post-machine/src/compiler.rs\<close>: nested and
  namespaced definitions become one list of functions with full names, every call is resolved from the
  innermost scope outward, and the visibility warnings are made. Hash maps are maps; the one that is
  only ever asked for names is a set. \<open>None\<close> is a panic.
\<close>

section \<open>Imports\<close>

fun join_path :: "string list \<Rightarrow> string" where
  "join_path [] = []"
| "join_path [x] = x"
| "join_path (x # xs) = x @ ''::'' @ join_path xs"

definition im_binding :: "import \<Rightarrow> string option" where
  "im_binding imp =
     (case im_alias imp of
        Some a \<Rightarrow> Some a
      | None \<Rightarrow> if im_path imp = [] then None else Some (last (im_path imp)))"

definition im_full_path :: "import \<Rightarrow> string" where
  "im_full_path imp = join_path (im_path imp)"

fun check_bindings :: "import list \<Rightarrow> (string list \<times> string \<Rightarrow> import option) \<Rightarrow> unit compiled" where
  "check_bindings [] seen = Some (Inr ())"
| "check_bindings (imp # imps) seen =
     (case im_binding imp of
        None \<Rightarrow> None
      | Some b \<Rightarrow>
          (case seen (im_ns imp, b) of
             Some p \<Rightarrow>
               if im_path p \<noteq> im_path imp \<or> im_alias p \<noteq> im_alias imp
               then Some (Inl \<lparr>ce_span = im_span imp, ce_kind = DuplicateBinding b\<rparr>)
               else check_bindings imps seen
           | None \<Rightarrow> check_bindings imps (seen((im_ns imp, b) \<mapsto> imp))))"

definition check_duplicate_bindings :: "pmc_program \<Rightarrow> unit compiled" where
  "check_duplicate_bindings p = check_bindings (pp_imports p) Map.empty"

section \<open>Names and scopes\<close>

definition full_name :: "string list \<Rightarrow> string \<Rightarrow> string" where
  "full_name ns name = (if ns = [] then name else join_path ns @ ''::'' @ name)"

text \<open>The scopes of namespaces, by path.\<close>

type_synonym name_map = "string \<Rightarrow> string option"

type_synonym defs_map = "string list \<Rightarrow> name_map option"

type_synonym bindings_map = "string list \<Rightarrow> (string \<Rightarrow> (nat \<times> string) option) option"

definition or_default :: "('k \<Rightarrow> 'v option) option \<Rightarrow> ('k \<Rightarrow> 'v option)" where
  "or_default m = (case m of Some x \<Rightarrow> x | None \<Rightarrow> Map.empty)"

fun collect_defs :: "pmc_fn list \<Rightarrow> defs_map \<Rightarrow> defs_map" where
  "collect_defs [] defs = defs"
| "collect_defs (f # fs) defs =
     collect_defs fs
       (defs(pf_ns f \<mapsto> (or_default (defs (pf_ns f)))(pf_name f \<mapsto> full_name (pf_ns f) (pf_name f))))"

text \<open>An exact duplicate keeps the first slot.\<close>

fun collect_bindings :: "nat \<Rightarrow> import list \<Rightarrow> bindings_map \<Rightarrow> bindings_map option" where
  "collect_bindings i [] m = Some m"
| "collect_bindings i (imp # imps) m =
     (case im_binding imp of
        None \<Rightarrow> None
      | Some b \<Rightarrow>
          (let scope = or_default (m (im_ns imp)) in
           collect_bindings (i + 1) imps
             (m(im_ns imp \<mapsto>
                  (case scope b of
                     Some _ \<Rightarrow> scope
                   | None \<Rightarrow> scope(b \<mapsto> (i, im_full_path imp)))))))"

text \<open>\<open>defs_by_full_name\<close>, the names in all values of \<open>defs\<close>: those of the definitions it was made from.\<close>

definition defined_full_names :: "pmc_fn list \<Rightarrow> string list" where
  "defined_full_names fs = map (\<lambda>f. full_name (pf_ns f) (pf_name f)) fs"

section \<open>Resolution\<close>

datatype raw_resolution =
    RawLocal string
  | RawImport nat
  | RawQualified string
  | RawUnresolved

datatype resolution =
    ResLocal span
  | ResImport span string
  | ResQualified string
  | ResUnresolved

record flat_ctx =
  fc_defs :: defs_map
  fc_bindings :: bindings_map
  fc_names :: "string list"
  fc_imports_used :: "bool list"
  fc_warned :: "string list"
  fc_warnings :: "diagnostic list"
  fc_resolutions :: "(span \<times> raw_resolution) list"

fun has_path_sep :: "string \<Rightarrow> bool" where
  "has_path_sep (c # d # cs) \<longleftrightarrow> c = CHR '':'' \<and> d = CHR '':'' \<or> has_path_sep (d # cs)"
| "has_path_sep cs \<longleftrightarrow> False"

definition push_resolution :: "span \<Rightarrow> raw_resolution \<Rightarrow> flat_ctx \<Rightarrow> flat_ctx" where
  "push_resolution sp r ctx = ctx\<lparr>fc_resolutions := fc_resolutions ctx @ [(sp, r)]\<rparr>"

definition em_dash :: string where "em_dash = [CHR 0xE2, CHR 0x80, CHR 0x94]"

definition undeclared_warning :: "string \<Rightarrow> span \<Rightarrow> diagnostic" where
  "undeclared_warning name sp = \<lparr>dg_code = ''undeclared-external'', dg_span = sp,
     dg_message = ''call to undeclared external `'' @ name @ ''` '' @ em_dash @ '' declare it with `use '' @ name @ '';`'',
     dg_fix = None\<rparr>"

text \<open>The scopes of the enclosing functions, the innermost one last.\<close>

fun find_nested :: "name_map list \<Rightarrow> string \<Rightarrow> string option" where
  "find_nested [] n = None"
| "find_nested (m # ms) n = (case find_nested ms n of Some x \<Rightarrow> Some x | None \<Rightarrow> m n)"

text \<open>The namespace levels, from \<open>k\<close> segments outward.\<close>

fun resolve_level :: "nat \<Rightarrow> string list \<Rightarrow> string \<Rightarrow> flat_ctx \<Rightarrow> (string + nat \<times> string) option" where
  "resolve_level k ns n ctx =
     (case Option.bind (fc_defs ctx (take k ns)) (\<lambda>d. d n) of
        Some m \<Rightarrow> Some (Inl m)
      | None \<Rightarrow>
          (case Option.bind (fc_bindings ctx (take k ns)) (\<lambda>b. b n) of
             Some (i, path) \<Rightarrow> Some (Inr (i, path))
           | None \<Rightarrow> (case k of 0 \<Rightarrow> None | Suc k' \<Rightarrow> resolve_level k' ns n ctx)))"

declare resolve_level.simps [simp del]

definition resolve_call :: "string \<Rightarrow> span \<Rightarrow> name_map list \<Rightarrow> string list \<Rightarrow> flat_ctx \<Rightarrow> string \<times> flat_ctx" where
  "resolve_call n sp nested ns ctx =
     (if has_path_sep n then
        (n, push_resolution sp (if n \<in> set (fc_names ctx) then RawLocal n else RawQualified n) ctx)
      else
        (case find_nested nested n of
           Some m \<Rightarrow> (m, push_resolution sp (RawLocal m) ctx)
         | None \<Rightarrow>
             (case resolve_level (length ns) ns n ctx of
                Some (Inl m) \<Rightarrow> (m, push_resolution sp (RawLocal m) ctx)
              | Some (Inr (i, path)) \<Rightarrow>
                  (path, push_resolution sp (RawImport i) (ctx\<lparr>fc_imports_used := (fc_imports_used ctx)[i := True]\<rparr>))
              | None \<Rightarrow>
                  (n, push_resolution sp RawUnresolved
                        (if n \<in> set (fc_warned ctx) then ctx
                         else ctx\<lparr>fc_warned := n # fc_warned ctx,
                                  fc_warnings := fc_warnings ctx @ [undeclared_warning n sp]\<rparr>)))))"

section \<open>Emission\<close>

fun resolve_item :: "name_map list \<Rightarrow> string list \<Rightarrow> item \<Rightarrow> flat_ctx \<Rightarrow> item \<times> flat_ctx" where
  "resolve_item nested ns (CallItem n nsp sc a b c l) ctx =
     (let (n', ctx') = resolve_call n nsp nested ns ctx in (CallItem n' nsp sc a b c l, ctx'))"
| "resolve_item nested ns it ctx = (it, ctx)"

fun resolve_items :: "name_map list \<Rightarrow> string list \<Rightarrow> item list \<Rightarrow> flat_ctx \<Rightarrow> item list \<times> flat_ctx" where
  "resolve_items nested ns [] ctx = ([], ctx)"
| "resolve_items nested ns (it # its) ctx =
     (let (it', ctx1) = resolve_item nested ns it ctx; (its', ctx2) = resolve_items nested ns its ctx1
      in (it' # its', ctx2))"

fun resolve_stmts :: "name_map list \<Rightarrow> string list \<Rightarrow> statement list \<Rightarrow> flat_ctx \<Rightarrow> statement list \<times> flat_ctx" where
  "resolve_stmts nested ns [] ctx = ([], ctx)"
| "resolve_stmts nested ns (st # sts) ctx =
     (let (its, ctx1) = resolve_items nested ns (st_items st) ctx; (sts', ctx2) = resolve_stmts nested ns sts ctx1
      in (st\<lparr>st_items := its\<rparr> # sts', ctx2))"

definition emitted_name :: "string \<Rightarrow> string list \<Rightarrow> string \<Rightarrow> string" where
  "emitted_name pre ns name = (if pre = [] then full_name ns name else pre @ ''.'' @ name)"

definition child_scope :: "string \<Rightarrow> pmc_fn list \<Rightarrow> name_map" where
  "child_scope full children = map_of (rev (map (\<lambda>c. (pf_name c, full @ ''.'' @ pf_name c)) children))"

text \<open>The function as \<open>emit\<close> pushes it.\<close>

definition emitted_fn :: "pmc_fn \<Rightarrow> string \<Rightarrow> string \<Rightarrow> statement list \<Rightarrow> pmc_fn" where
  "emitted_fn f pre full body =
     PmcFn full (pf_line f) (pf_col f) (pf_name_span f) body (pf_exported f \<and> pre = []) (pf_volatile f)
       (pre \<noteq> [] \<or> \<not> pf_exported f) [] (pf_ns f) (pf_doc f)"

fun emit_fn ::
  "pmc_fn \<Rightarrow> string \<Rightarrow> string list \<Rightarrow> name_map list \<Rightarrow> flat_ctx \<times> pmc_fn list \<Rightarrow> flat_ctx \<times> pmc_fn list"
  and emit_fns ::
  "pmc_fn list \<Rightarrow> string \<Rightarrow> string list \<Rightarrow> name_map list \<Rightarrow> flat_ctx \<times> pmc_fn list \<Rightarrow> flat_ctx \<times> pmc_fn list" where
  "emit_fn (PmcFn name line col nspan body exported vol loc nested ns' doc) pre ns scopes (ctx, out) =
     (let f = PmcFn name line col nspan body exported vol loc nested ns' doc;
          full = emitted_name pre ns name;
          inner = scopes @ [child_scope full nested];
          (body', ctx') = resolve_stmts inner ns body ctx
      in emit_fns nested full ns inner (ctx', out @ [emitted_fn f pre full body']))"
| "emit_fns [] pre ns scopes co = co"
| "emit_fns (f # fs) pre ns scopes co = emit_fns fs pre ns scopes (emit_fn f pre ns scopes co)"

fun emit_top :: "pmc_fn list \<Rightarrow> flat_ctx \<times> pmc_fn list \<Rightarrow> flat_ctx \<times> pmc_fn list" where
  "emit_top [] co = co"
| "emit_top (f # fs) co = emit_top fs (emit_fn f [] (pf_ns f) [] co)"

section \<open>Warnings\<close>

definition unused_import :: "import \<Rightarrow> diagnostic" where
  "unused_import imp = \<lparr>dg_code = ''unused-import'', dg_span = im_span imp,
     dg_message = ''unused import `'' @ im_full_path imp @ ''`'', dg_fix = None\<rparr>"

definition unused_imports :: "bool list \<Rightarrow> import list \<Rightarrow> diagnostic list" where
  "unused_imports used imps =
     map (\<lambda>(i, imp). unused_import imp) (filter (\<lambda>(i, imp). \<not> used ! i) (enumerate 0 imps))"

definition body_callees :: "string list \<Rightarrow> statement list \<Rightarrow> string list" where
  "body_callees names body =
     concat (map (\<lambda>st. List.map_filter
       (\<lambda>it. case it of CallItem n sp sc a b c l \<Rightarrow> if n \<in> set names then Some n else None | _ \<Rightarrow> None)
       (st_items st)) body)"

definition call_edges :: "pmc_fn list \<Rightarrow> string \<Rightarrow> string list option" where
  "call_edges out =
     map_of (rev (map (\<lambda>f. (pf_name f, body_callees (map pf_name out) (pf_body f))) out))"

text \<open>The queue of the reachability walk; the names that have edges bound it.\<close>

function reach_names :: "string list \<Rightarrow> (string \<Rightarrow> string list option) \<Rightarrow> string list \<Rightarrow> string list \<Rightarrow> string list" where
  "reach_names known edges reached [] = reached"
| "reach_names known edges reached (n # queue) =
     (if n \<in> set reached then reach_names known edges reached queue
      else reach_names known edges (n # reached)
        (queue @ (if n \<in> set known then (case edges n of Some cs \<Rightarrow> cs | None \<Rightarrow> []) else [])))"
  by pat_completeness auto
termination
proof (relation "measures [\<lambda>(known, edges, reached, queue). card (set known - set reached),
    \<lambda>(known, edges, reached, queue). length queue]")
  fix known n reached queue and edges :: "string \<Rightarrow> string list option"
  assume n: "n \<notin> set (reached :: string list)"
  show "((known, edges, n # reached, queue @ (if n \<in> set known then (case edges n of Some cs \<Rightarrow> cs | None \<Rightarrow> []) else [])),
      (known, edges, reached, n # queue)) \<in> measures [\<lambda>(known, edges, reached, queue). card (set known - set reached),
        \<lambda>(known, edges, reached, queue). length queue]"
  proof (cases "n \<in> set known")
    case True
    then have "card (set known - set (n # reached)) < card (set known - set reached)"
      using n by (intro psubset_card_mono) auto
    then show ?thesis by simp
  next
    case False
    then have "set known - set (n # reached) = set known - set reached" by auto
    then show ?thesis using False by simp
  qed
qed simp_all

definition unused_function :: "pmc_fn \<Rightarrow> diagnostic" where
  "unused_function f = \<lparr>dg_code = ''unused-function'', dg_span = pf_name_span f,
     dg_message = ''unused function `'' @ pf_name f @ ''` (not exported, never called)'', dg_fix = None\<rparr>"

definition reached_names :: "pmc_fn list \<Rightarrow> string list" where
  "reached_names out =
     reach_names (map pf_name out) (call_edges out) [] (map pf_name (filter pf_exported out))"

definition unused_functions :: "pmc_fn list \<Rightarrow> diagnostic list" where
  "unused_functions out = map unused_function (filter (\<lambda>f. pf_name f \<notin> set (reached_names out)) out)"

section \<open>The result\<close>

record flattened =
  fl_program :: pmc_program
  fl_defs :: defs_map
  fl_bindings :: bindings_map
  fl_warnings :: "diagnostic list"
  fl_resolutions :: "(span \<times> resolution) list"
  fl_docs :: "string \<Rightarrow> fn_doc option"

fun convert_resolution :: "pmc_fn list \<Rightarrow> import list \<Rightarrow> raw_resolution \<Rightarrow> resolution option" where
  "convert_resolution out imps (RawLocal m) =
     map_option ResLocal (map_of (rev (map (\<lambda>f. (pf_name f, pf_name_span f)) out)) m)"
| "convert_resolution out imps (RawImport i) =
     map_option (\<lambda>imp. ResImport (im_span imp) (im_full_path imp)) (nth_opt imps i)"
| "convert_resolution out imps (RawQualified p) = Some (ResQualified p)"
| "convert_resolution out imps RawUnresolved = Some ResUnresolved"

definition flat_docs :: "pmc_fn list \<Rightarrow> string \<Rightarrow> fn_doc option" where
  "flat_docs out = map_of (rev (List.map_filter (\<lambda>f. map_option (Pair (pf_name f)) (pf_doc f)) out))"

definition initial_ctx :: "pmc_program \<Rightarrow> flat_ctx option" where
  "initial_ctx p =
     (let defs = collect_defs (pp_functions p) Map.empty in
      map_option
        (\<lambda>bs. \<lparr>fc_defs = defs, fc_bindings = bs,
               fc_names = defined_full_names (pp_functions p),
               fc_imports_used = replicate (length (pp_imports p)) False,
               fc_warned = [], fc_warnings = [], fc_resolutions = []\<rparr>)
        (collect_bindings 0 (pp_imports p) Map.empty))"

definition flatten :: "pmc_program \<Rightarrow> flattened option" where
  "flatten p =
     Option.bind (initial_ctx p) (\<lambda>ctx0.
       (let (ctx, out) = emit_top (pp_functions p) (ctx0, []) in
        map_option
          (\<lambda>rs. \<lparr>fl_program = \<lparr>pp_functions = out, pp_imports = pp_imports p\<rparr>,
                 fl_defs = fc_defs ctx, fl_bindings = fc_bindings ctx,
                 fl_warnings = fc_warnings ctx @ unused_imports (fc_imports_used ctx) (pp_imports p) @ unused_functions out,
                 fl_resolutions = zip (map fst (fc_resolutions ctx)) rs,
                 fl_docs = flat_docs out\<rparr>)
          (those (map (\<lambda>(sp, r). convert_resolution out (pp_imports p) r) (fc_resolutions ctx)))))"

section \<open>Refining the warnings\<close>

definition undeclared_name :: "string \<Rightarrow> string option" where
  "undeclared_name message =
     (case dropWhile (\<lambda>c. c \<noteq> CHR ''`'') message of
        [] \<Rightarrow> None
      | _ # rest \<Rightarrow> if CHR ''`'' \<in> set rest then Some (takeWhile (\<lambda>c. c \<noteq> CHR ''`'') rest) else None)"

definition refine_undeclared :: "diagnostic list \<Rightarrow> string set \<Rightarrow> diagnostic list" where
  "refine_undeclared diags defined =
     filter (\<lambda>d. \<not> (dg_code d = ''undeclared-external''
       \<and> (case undeclared_name (dg_message d) of Some n \<Rightarrow> n \<in> defined | None \<Rightarrow> False))) diags"

text \<open>The name comes back out of the message.\<close>

lemma undeclared_name_back: "CHR ''`'' \<notin> set n \<Longrightarrow> undeclared_name (dg_message (undeclared_warning n sp)) = Some n"
  by (auto simp: undeclared_name_def undeclared_warning_def takeWhile_tail)

end
