(* ===== verification/Pmc_Flatten_Names.thy ===== *)
theory Pmc_Flatten_Names
  imports Pmc_Flatten
begin

text \<open>
  The names \<open>flatten\<close> gives: namespace segments joined by \<open>::\<close>, nesting by \<open>.\<close>. Over identifiers that
  contain neither character the full name determines the path it was made from, so distinct definitions
  keep distinct names.
\<close>

declare split_paired_Ex [simp del] split_paired_All [simp del]

section \<open>Identifiers and paths\<close>

definition ident_ok :: "string \<Rightarrow> bool" where
  "ident_ok n \<longleftrightarrow> n \<noteq> [] \<and> CHR '':'' \<notin> set n \<and> CHR ''.'' \<notin> set n"

lemma ident_ok_ne [simp]: "\<not> ident_ok []"
  by (simp add: ident_ok_def)

lemma join_path_append: "xs \<noteq> [] \<Longrightarrow> join_path (xs @ [y]) = join_path xs @ ''::'' @ y"
  by (induction xs rule: join_path.induct) auto

lemma full_name_path: "full_name ns n = join_path (ns @ [n])"
  by (cases "ns = []") (simp_all add: full_name_def join_path_append)

lemma append_sep_eq:
  assumes "c \<notin> set x" "c \<notin> set y"
  shows "x @ c # s = y @ c # t \<longleftrightarrow> x = y \<and> s = t"
proof
  assume e: "x @ c # s = y @ c # t"
  have t: "takeWhile (\<lambda>d. d \<noteq> c) (z @ c # u) = z" if "c \<notin> set z" for z u
    using that by (induction z) auto
  have "x = y" using t [OF assms(1), of s] t [OF assms(2), of t] e by simp
  then show "x = y \<and> s = t" using e by simp
qed simp

lemma append_sep_ne: "c \<notin> set y \<Longrightarrow> x @ c # s \<noteq> y"
  by auto

lemma join_path_inj:
  "\<forall>x \<in> set xs. ident_ok x \<Longrightarrow> \<forall>y \<in> set ys. ident_ok y \<Longrightarrow> join_path xs = join_path ys \<Longrightarrow> xs = ys"
proof (induction xs arbitrary: ys rule: join_path.induct)
  case 1
  then show ?case by (cases ys rule: join_path.cases) auto
next
  case (2 x)
  have x: "CHR '':'' \<notin> set x" using "2.prems"(1) by (simp add: ident_ok_def)
  show ?case
  proof (cases ys rule: join_path.cases)
    case 1
    then show ?thesis using "2.prems" by (auto simp: ident_ok_def)
  next
    case (3 y y' ys')
    then show ?thesis using "2.prems"(3) append_sep_ne [OF x, of y] by auto
  qed (use "2.prems" in simp)
next
  case (3 x x' xs)
  have x: "CHR '':'' \<notin> set x" using "3.prems"(1) by (simp add: ident_ok_def)
  show ?case
  proof (cases ys rule: join_path.cases)
    case 1
    then show ?thesis using "3.prems" by auto
  next
    case (2 y)
    then have "CHR '':'' \<notin> set y" using "3.prems"(2) by (simp add: ident_ok_def)
    then show ?thesis using "3.prems"(3) 2 append_sep_ne [of "CHR '':''" y x] by auto
  next
    case (3 y y' ys')
    then have "CHR '':'' \<notin> set y" using "3.prems"(2) by (simp add: ident_ok_def)
    then have "x = y" "join_path (x' # xs) = join_path (y' # ys')"
      using "3.prems"(3) 3 append_sep_eq [OF x, of y] by auto
    then show ?thesis using "3.IH" [of "y' # ys'"] "3.prems"(1,2) 3 by auto
  qed
qed

lemma join_path_no_dot: "\<forall>x \<in> set xs. ident_ok x \<Longrightarrow> CHR ''.'' \<notin> set (join_path xs)"
  by (induction xs rule: join_path.induct) (auto simp: ident_ok_def)

lemma join_path_ne: "xs \<noteq> [] \<Longrightarrow> \<forall>x \<in> set xs. ident_ok x \<Longrightarrow> join_path xs \<noteq> []"
  by (induction xs rule: join_path.induct) (auto simp: ident_ok_def)

text \<open>The names below a function of some full name.\<close>

definition dotted :: "string \<Rightarrow> string list \<Rightarrow> string" where
  "dotted full path = full @ concat (map (\<lambda>c. ''.'' @ c) path)"

lemma dotted_snoc: "dotted full (path @ [c]) = dotted full path @ ''.'' @ c"
  by (simp add: dotted_def)

lemma dotted_inj:
  assumes "CHR ''.'' \<notin> set full" "CHR ''.'' \<notin> set full'"
    and "\<forall>c \<in> set path. ident_ok c" "\<forall>c \<in> set path'. ident_ok c" "dotted full path = dotted full' path'"
  shows "full = full' \<and> path = path'"
  using assms
proof (induction path arbitrary: full full' path')
  case Nil
  then show ?case by (cases path') (auto simp: dotted_def)
next
  case (Cons c path)
  show ?case
  proof (cases path')
    case Nil
    then show ?thesis using Cons.prems by (auto simp: dotted_def)
  next
    case c': (Cons c' path2)
    have "full @ CHR ''.'' # c @ concat (map (\<lambda>c. ''.'' @ c) path)
        = full' @ CHR ''.'' # c' @ concat (map (\<lambda>c. ''.'' @ c) path2)"
      using Cons.prems(5) c' by (simp add: dotted_def)
    then have "full = full'" "dotted c path = dotted c' path2"
      using append_sep_eq [OF Cons.prems(1,2)] by (auto simp: dotted_def)
    then show ?thesis using Cons.IH [of c c' path2] Cons.prems c' by (auto simp: ident_ok_def)
  qed
qed

text \<open>A definition's place: its namespace, and the names of the functions around it down to its own.\<close>

type_synonym place_key = "string list \<times> string list"

definition key_ok :: "place_key \<Rightarrow> bool" where
  "key_ok k \<longleftrightarrow> (\<forall>x \<in> set (fst k). ident_ok x) \<and> snd k \<noteq> [] \<and> (\<forall>x \<in> set (snd k). ident_ok x)"

definition key_name :: "place_key \<Rightarrow> string" where
  "key_name k = dotted (full_name (fst k) (hd (snd k))) (tl (snd k))"

lemma key_name_inj: "key_ok k \<Longrightarrow> key_ok l \<Longrightarrow> key_name k = key_name l \<Longrightarrow> k = l"
proof -
  assume k: "key_ok k" and l: "key_ok l" and e: "key_name k = key_name l"
  obtain a p ps where K: "k = (a, p # ps)" using k by (cases k; cases "snd k") (auto simp: key_ok_def)
  obtain b q qs where L: "l = (b, q # qs)" using l by (cases l; cases "snd l") (auto simp: key_ok_def)
  have ok: "\<forall>x \<in> set (a @ [p]). ident_ok x" "\<forall>x \<in> set (b @ [q]). ident_ok x" "\<forall>x \<in> set ps. ident_ok x" "\<forall>x \<in> set qs. ident_ok x"
    using k l K L by (auto simp: key_ok_def)
  have "dotted (join_path (a @ [p])) ps = dotted (join_path (b @ [q])) qs"
    using e K L by (simp add: key_name_def full_name_path)
  from dotted_inj [OF join_path_no_dot [OF ok(1)] join_path_no_dot [OF ok(2)] ok(3,4) this]
  have "join_path (a @ [p]) = join_path (b @ [q])" "ps = qs" by simp_all
  then show "k = l" using join_path_inj [OF ok(1,2)] K L by simp
qed

section \<open>The definitions in a tree\<close>

fun keys_of :: "pmc_fn \<Rightarrow> string list \<Rightarrow> string list list"
  and keys_of_all :: "pmc_fn list \<Rightarrow> string list \<Rightarrow> string list list" where
  "keys_of (PmcFn name line col nspan body exported vol loc nested ns' doc) path =
     (path @ [name]) # keys_of_all nested (path @ [name])"
| "keys_of_all [] path = []"
| "keys_of_all (f # fs) path = keys_of f path @ keys_of_all fs path"

text \<open>Siblings have names of their own; every name is an identifier.\<close>

fun tree_ok :: "pmc_fn \<Rightarrow> bool" and trees_ok :: "pmc_fn list \<Rightarrow> bool" where
  "tree_ok (PmcFn name line col nspan body exported vol loc nested ns' doc) \<longleftrightarrow>
     ident_ok name \<and> body_ok body \<and> distinct (map pf_name nested) \<and> trees_ok nested"
| "trees_ok [] \<longleftrightarrow> True"
| "trees_ok (f # fs) \<longleftrightarrow> tree_ok f \<and> trees_ok fs"

lemma trees_ok_iff: "trees_ok fs \<longleftrightarrow> (\<forall>f \<in> set fs. tree_ok f)"
  by (induction fs) simp_all

lemma keys_extend:
  "k \<in> set (keys_of f path) \<Longrightarrow> \<exists>rest. k = path @ pf_name f # rest"
  "k \<in> set (keys_of_all fs path) \<Longrightarrow> \<exists>f \<in> set fs. \<exists>rest. k = path @ pf_name f # rest"
proof (induction f path and fs path rule: keys_of_keys_of_all.induct)
  case (1 name line col nspan body exported vol loc nested ns' doc path)
  then show ?case by (auto simp: append_assoc)
qed auto

lemma keys_idents:
  "tree_ok f \<Longrightarrow> k \<in> set (keys_of f path) \<Longrightarrow> \<forall>x \<in> set path. ident_ok x \<Longrightarrow> \<forall>x \<in> set k. ident_ok x"
  "trees_ok fs \<Longrightarrow> k \<in> set (keys_of_all fs path) \<Longrightarrow> \<forall>x \<in> set path. ident_ok x \<Longrightarrow> \<forall>x \<in> set k. ident_ok x"
  by (induction f path and fs path rule: keys_of_keys_of_all.induct) auto

lemma keys_distinct:
  "tree_ok f \<Longrightarrow> distinct (keys_of f path)"
  "trees_ok fs \<Longrightarrow> distinct (map pf_name fs) \<Longrightarrow> distinct (keys_of_all fs path)"
proof (induction f path and fs path rule: keys_of_keys_of_all.induct)
  case (1 name line col nspan body exported vol loc nested ns' doc path)
  moreover have "path @ [name] \<notin> set (keys_of_all nested (path @ [name]))" using keys_extend(2) by force
  ultimately show ?case by simp
next
  case (3 f fs path)
  have "set (keys_of f path) \<inter> set (keys_of_all fs path) = {}"
  proof (rule ccontr)
    assume "set (keys_of f path) \<inter> set (keys_of_all fs path) \<noteq> {}"
    then obtain k where k: "k \<in> set (keys_of f path)" "k \<in> set (keys_of_all fs path)" by blast
    obtain r where "k = path @ pf_name f # r" using keys_extend(1) [OF k(1)] by blast
    moreover obtain g r' where "g \<in> set fs" "k = path @ pf_name g # r'" using keys_extend(2) [OF k(2)] by blast
    ultimately show False using "3.prems"(2) by (auto simp: image_iff)
  qed
  then show ?case using 3 by simp
qed simp

fun place_keys :: "pmc_fn list \<Rightarrow> place_key list" where
  "place_keys [] = []"
| "place_keys (f # fs) = map (Pair (pf_ns f)) (keys_of f []) @ place_keys fs"

definition program_ok :: "pmc_program \<Rightarrow> bool" where
  "program_ok p \<longleftrightarrow> trees_ok (pp_functions p)
     \<and> (\<forall>f \<in> set (pp_functions p). \<forall>x \<in> set (pf_ns f). ident_ok x)
     \<and> distinct (map (\<lambda>f. (pf_ns f, pf_name f)) (pp_functions p))
     \<and> (\<forall>imp \<in> set (pp_imports p). im_binding imp \<noteq> None)"

lemma place_keys_in:
  "k \<in> set (place_keys fs) \<Longrightarrow> \<exists>f \<in> set fs. \<exists>rest. k = (pf_ns f, pf_name f # rest)"
  by (induction fs) (auto dest: keys_extend(1))

lemma place_keys_ok:
  assumes "trees_ok fs" "\<forall>f \<in> set fs. \<forall>x \<in> set (pf_ns f). ident_ok x"
  shows "\<forall>k \<in> set (place_keys fs). key_ok k"
  using assms
proof (induction fs)
  case (Cons f fs)
  have "key_ok (pf_ns f, k)" if k: "k \<in> set (keys_of f [])" for k
    using keys_idents(1) [OF _ k] keys_extend(1) [OF k] Cons.prems by (auto simp: key_ok_def)
  then show ?case using Cons by auto
qed simp

lemma place_keys_distinct:
  assumes "trees_ok fs" "distinct (map (\<lambda>f. (pf_ns f, pf_name f)) fs)"
  shows "distinct (place_keys fs)"
  using assms
proof (induction fs)
  case (Cons f fs)
  have "set (map (Pair (pf_ns f)) (keys_of f [])) \<inter> set (place_keys fs) = {}"
  proof (rule ccontr)
    assume "set (map (Pair (pf_ns f)) (keys_of f [])) \<inter> set (place_keys fs) \<noteq> {}"
    then obtain k where k: "k \<in> set (keys_of f [])" "(pf_ns f, k) \<in> set (place_keys fs)" by auto
    obtain r where "k = pf_name f # r" using keys_extend(1) [OF k(1)] by auto
    moreover obtain g r' where "g \<in> set fs" "(pf_ns f, k) = (pf_ns g, pf_name g # r')"
      using place_keys_in [OF k(2)] by blast
    ultimately show False using Cons.prems(2) by (auto simp: image_iff)
  qed
  moreover have "distinct (map (Pair (pf_ns f)) (keys_of f []))"
    using keys_distinct(1) [of f "[]"] Cons.prems(1) by (simp add: distinct_map inj_on_def)
  ultimately show ?case using Cons by simp
qed simp

lemma names_distinct:
  assumes "program_ok p"
  shows "distinct (map key_name (place_keys (pp_functions p)))"
proof -
  have ok: "\<forall>k \<in> set (place_keys (pp_functions p)). key_ok k" and d: "distinct (place_keys (pp_functions p))"
    using assms place_keys_ok [of "pp_functions p"] place_keys_distinct [of "pp_functions p"]
    by (simp_all add: program_ok_def)
  have "inj_on key_name (set (place_keys (pp_functions p)))"
    using ok key_name_inj by (meson inj_onI)
  then show ?thesis using d by (simp add: distinct_map)
qed

end
