(* ===== verification/Pmc_Flatten_Correct.thy ===== *)
theory Pmc_Flatten_Correct
  imports Pmc_Flatten_Names "HOL-Library.Sublist"
begin

text \<open>
  \<open>flatten\<close> against the scope rule. The rule is stated over the places of the definitions alone: a call
  sees, from the inside out, the functions nested in the ones around it, then for every prefix of its
  namespace the definitions of that prefix and the imports bound there. The maps that \<open>emit\<close> threads
  through the walk answer exactly as the rule does.
\<close>

declare split_paired_Ex [simp del] split_paired_All [simp del]

section \<open>The scope rule\<close>

text \<open>Every definition with its place, in the order of the source.\<close>

fun placed :: "pmc_fn \<Rightarrow> string list \<Rightarrow> (string list \<times> pmc_fn) list"
  and placed_all :: "pmc_fn list \<Rightarrow> string list \<Rightarrow> (string list \<times> pmc_fn) list" where
  "placed (PmcFn name line col nspan body exported vol loc nested ns' doc) path =
     (path @ [name], PmcFn name line col nspan body exported vol loc nested ns' doc) # placed_all nested (path @ [name])"
| "placed_all [] path = []"
| "placed_all (f # fs) path = placed f path @ placed_all fs path"

fun places :: "pmc_fn list \<Rightarrow> (place_key \<times> pmc_fn) list" where
  "places [] = []"
| "places (f # fs) = map (\<lambda>(path, g). ((pf_ns f, path), g)) (placed f []) @ places fs"

lemma placed_keys: "map fst (placed f path) = keys_of f path" "map fst (placed_all fs path) = keys_of_all fs path"
  by (induction f path and fs path rule: placed_placed_all.induct) simp_all

lemma places_keys: "map fst (places fs) = place_keys fs"
proof (induction fs)
  case (Cons f fs)
  have "map (fst \<circ> (\<lambda>(path, g). ((pf_ns f, path), g))) (placed f []) = map (Pair (pf_ns f)) (map fst (placed f []))"
    by (simp add: comp_def split_beta)
  then show ?case using Cons by (simp add: placed_keys)
qed simp

text \<open>What a bare name may mean at a place, the nearest first.\<close>

definition level_names :: "place_key list \<Rightarrow> import list \<Rightarrow> string \<Rightarrow> string list \<Rightarrow> string list" where
  "level_names K imps n ns =
     (if (ns, [n]) \<in> set K then [key_name (ns, [n])] else [])
     @ map im_full_path (filter (\<lambda>imp. im_ns imp = ns \<and> im_binding imp = Some n) imps)"

definition nested_names :: "place_key list \<Rightarrow> string list \<Rightarrow> string list list \<Rightarrow> string \<Rightarrow> string list" where
  "nested_names K ns paths n = map key_name (filter (\<lambda>k. k \<in> set K) (map (\<lambda>q. (ns, q @ [n])) (rev paths)))"

definition outer_names :: "place_key list \<Rightarrow> import list \<Rightarrow> string list \<Rightarrow> string \<Rightarrow> string list" where
  "outer_names K imps ns n = concat (map (level_names K imps n) (rev (prefixes ns)))"

definition scope_target :: "place_key list \<Rightarrow> import list \<Rightarrow> place_key \<Rightarrow> string \<Rightarrow> string" where
  "scope_target K imps k n =
     (if has_path_sep n then n
      else hd (nested_names K (fst k) (tl (prefixes (snd k))) n @ outer_names K imps (fst k) n @ [n]))"

fun rename_call :: "(string \<Rightarrow> string) \<Rightarrow> item \<Rightarrow> item" where
  "rename_call r (CallItem n nsp sc a b c l) = CallItem (r n) nsp sc a b c l"
| "rename_call r it = it"

definition rename_calls :: "(string \<Rightarrow> string) \<Rightarrow> statement list \<Rightarrow> statement list" where
  "rename_calls r body = map (\<lambda>st. st\<lparr>st_items := map (rename_call r) (st_items st)\<rparr>) body"

text \<open>The function a definition becomes.\<close>

definition flat_fn :: "place_key list \<Rightarrow> import list \<Rightarrow> place_key \<times> pmc_fn \<Rightarrow> pmc_fn" where
  "flat_fn K imps = (\<lambda>(k, f).
     (let top = (length (snd k) = 1) in
      PmcFn (key_name k) (pf_line f) (pf_col f) (pf_name_span f) (rename_calls (scope_target K imps k) (pf_body f))
        (pf_exported f \<and> top) (pf_volatile f) (\<not> (pf_exported f \<and> top)) [] (pf_ns f) (pf_doc f)))"

lemma rename_bare [simp]: "bare (rename_call r it) = bare it" "spans_ok (rename_call r it) = spans_ok it"
proof -
  show "bare (rename_call r it) = bare it" by (cases it) simp_all
  show "spans_ok (rename_call r it) = spans_ok it"
  proof (cases it)
    case (CallItem n nsp sc a b c l)
    then show ?thesis by (cases sc) simp_all
  qed simp_all
qed

lemma rename_calls_ok: "body_ok (rename_calls r body) = body_ok body"
proof -
  have l: "body_labels (rename_calls r body) = body_labels body"
    by (simp add: body_labels_def rename_calls_def stmt_labels_def [abs_def] comp_def)
  have s: "stmt_ok (st\<lparr>st_items := map (rename_call r) (st_items st)\<rparr>) = stmt_ok st" for st
    by (cases "st_items st = []") (simp_all add: stmt_ok_def list_all_iff last_map flip: map_butlast)
  have "list_all stmt_ok (rename_calls r body) = list_all stmt_ok body"
    by (simp add: rename_calls_def list.pred_map comp_def s)
  then show ?thesis by (simp add: body_ok_def l)
qed

section \<open>The maps made from the definitions and the imports\<close>

lemma or_default_apply: "or_default m x = Option.bind m (\<lambda>d. d x)"
  by (simp add: or_default_def split: option.splits)

lemma collect_defs_lookup:
  "Option.bind (collect_defs fs defs ns) (\<lambda>d. d n) =
     (if \<exists>f \<in> set fs. pf_ns f = ns \<and> pf_name f = n then Some (full_name ns n)
      else Option.bind (defs ns) (\<lambda>d. d n))"
proof (induction fs arbitrary: defs)
  case (Cons f fs)
  show ?case
    by (simp add: Cons.IH) (auto simp: or_default_def split: option.splits)
qed simp

lemma top_key: "(ns, [n]) \<in> set (place_keys fs) \<longleftrightarrow> (\<exists>f \<in> set fs. pf_ns f = ns \<and> pf_name f = n)"
proof (induction fs)
  case (Cons f fs)
  have "[n] \<in> set (keys_of f []) \<longleftrightarrow> pf_name f = n"
  proof
    show "[n] \<in> set (keys_of f []) \<Longrightarrow> pf_name f = n" by (drule keys_extend(1)) simp
    show "pf_name f = n \<Longrightarrow> [n] \<in> set (keys_of f [])" by (cases f) simp
  qed
  then show ?case using Cons by auto
qed simp

lemma defs_scope:
  "Option.bind (collect_defs fs Map.empty ns) (\<lambda>d. d n) =
     (if (ns, [n]) \<in> set (place_keys fs) then Some (key_name (ns, [n])) else None)"
  by (simp add: collect_defs_lookup top_key key_name_def dotted_def)

text \<open>The first import bound to a name in a scope, by its index.\<close>

definition bound_imports :: "nat \<Rightarrow> import list \<Rightarrow> string list \<Rightarrow> string \<Rightarrow> (nat \<times> import) list" where
  "bound_imports i imps ns n = filter (\<lambda>(j, imp). im_ns imp = ns \<and> im_binding imp = Some n) (enumerate i imps)"

definition first_bound :: "nat \<Rightarrow> import list \<Rightarrow> string list \<Rightarrow> string \<Rightarrow> (nat \<times> string) option" where
  "first_bound i imps ns n = (case bound_imports i imps ns n of [] \<Rightarrow> None | (j, imp) # _ \<Rightarrow> Some (j, im_full_path imp))"

lemma bound_imports_snd:
  "map snd (bound_imports i imps ns n) = filter (\<lambda>imp. im_ns imp = ns \<and> im_binding imp = Some n) imps"
  by (induction imps arbitrary: i) (simp_all add: bound_imports_def)

lemma collect_bindings_lookup:
  assumes "collect_bindings i imps m = Some m'"
  shows "Option.bind (m' ns) (\<lambda>b. b n) =
    (case Option.bind (m ns) (\<lambda>b. b n) of Some x \<Rightarrow> Some x | None \<Rightarrow> first_bound i imps ns n)"
  using assms
proof (induction i imps m rule: collect_bindings.induct)
  case (1 i m)
  then show ?case by (simp add: first_bound_def bound_imports_def split: option.split)
next
  case (2 i imp imps m)
  obtain b where b: "im_binding imp = Some b" using "2.prems" by (cases "im_binding imp") simp_all
  define scope where "scope = or_default (m (im_ns imp))"
  define scope' where "scope' = (case scope b of Some _ \<Rightarrow> scope | None \<Rightarrow> scope(b \<mapsto> (i, im_full_path imp)))"
  have r: "collect_bindings (i + 1) imps (m(im_ns imp \<mapsto> scope')) = Some m'"
    unfolding scope'_def scope_def using "2.prems" b by (simp add: Let_def)
  note ih = "2.IH" [OF b refl, folded scope_def, folded scope'_def, OF r]
  show ?case
  proof (cases "im_ns imp = ns \<and> b = n")
    case True
    then have "first_bound i (imp # imps) ns n = Some (i, im_full_path imp)"
      using b by (simp add: first_bound_def bound_imports_def)
    then show ?thesis using ih True
      by (auto simp: scope'_def scope_def or_default_apply split: option.splits)
  next
    case False
    then have "first_bound i (imp # imps) ns n = first_bound (i + 1) imps ns n"
      using b by (auto simp: first_bound_def bound_imports_def)
    then show ?thesis using ih False
      by (auto simp: scope'_def scope_def or_default_def split: option.splits)
  qed
qed

lemma collect_bindings_total:
  "\<forall>imp \<in> set imps. im_binding imp \<noteq> None \<Longrightarrow> \<exists>m'. collect_bindings i imps m = Some m'"
  by (induction i imps m rule: collect_bindings.induct) (auto simp: Let_def)

lemma first_bound_index: "first_bound i imps ns n = Some (j, path) \<Longrightarrow> j < i + length imps"
proof -
  assume "first_bound i imps ns n = Some (j, path)"
  then obtain imp rest where "bound_imports i imps ns n = (j, imp) # rest"
    by (auto simp: first_bound_def split: list.splits)
  then have "(j, imp) \<in> set (bound_imports i imps ns n)" by simp
  then have "(j, imp) \<in> set (enumerate i imps)" by (simp add: bound_imports_def)
  then show ?thesis by (auto simp: in_set_enumerate_eq)
qed

section \<open>One call\<close>

definition first_of :: "'a list \<Rightarrow> 'a option" where
  "first_of xs = (case xs of [] \<Rightarrow> None | x # _ \<Rightarrow> Some x)"

lemma first_of_simps [simp]:
  "first_of [] = None" "first_of (x # xs) = Some x"
  "first_of (xs @ ys) = (case first_of xs of Some x \<Rightarrow> Some x | None \<Rightarrow> first_of ys)"
  by (simp_all add: first_of_def split: list.split)

lemma first_of_None [simp]: "first_of xs = None \<longleftrightarrow> xs = []"
  by (cases xs) simp_all

lemma first_of_hd: "first_of xs = Some x \<Longrightarrow> hd (xs @ ys) = x"
  by (cases xs) simp_all

definition scope_at :: "place_key list \<Rightarrow> string list \<Rightarrow> string list \<Rightarrow> name_map \<Rightarrow> bool" where
  "scope_at K ns q m \<longleftrightarrow> (\<forall>n. m n = (if (ns, q @ [n]) \<in> set K then Some (key_name (ns, q @ [n])) else None))"

lemma find_nested_names:
  "list_all2 (scope_at K ns) qs ms \<Longrightarrow> find_nested ms n = first_of (nested_names K ns qs n)"
  by (induction rule: list_all2_induct) (auto simp: nested_names_def scope_at_def split: option.split)

definition res_ok :: "place_key list \<Rightarrow> import list \<Rightarrow> raw_resolution \<Rightarrow> bool" where
  "res_ok K imps r \<longleftrightarrow>
     (case r of RawLocal m \<Rightarrow> m \<in> key_name ` set K | RawImport i \<Rightarrow> i < length imps | _ \<Rightarrow> True)"

definition ctx_ok :: "place_key list \<Rightarrow> import list \<Rightarrow> flat_ctx \<Rightarrow> bool" where
  "ctx_ok K imps ctx \<longleftrightarrow>
     (\<forall>ns n. Option.bind (fc_defs ctx ns) (\<lambda>d. d n) = (if (ns, [n]) \<in> set K then Some (key_name (ns, [n])) else None))
   \<and> (\<forall>ns n. Option.bind (fc_bindings ctx ns) (\<lambda>b. b n) = first_bound 0 imps ns n)
   \<and> set (fc_names ctx) \<subseteq> key_name ` set K
   \<and> list_all (res_ok K imps) (map snd (fc_resolutions ctx))
   \<and> list_all (\<lambda>d. dg_code d = ''undeclared-external'') (fc_warnings ctx)"

lemma level_first:
  "first_of (level_names K imps n ns) =
     (if (ns, [n]) \<in> set K then Some (key_name (ns, [n])) else map_option snd (first_bound 0 imps ns n))"
proof -
  have "first_of (map im_full_path (map snd (bound_imports 0 imps ns n))) = map_option snd (first_bound 0 imps ns n)"
    by (simp add: first_bound_def split_beta split: list.split)
  then show ?thesis by (simp add: level_names_def bound_imports_snd)
qed

fun reached_name :: "string + nat \<times> string \<Rightarrow> string" where
  "reached_name (Inl m) = m"
| "reached_name (Inr (i, path)) = path"

fun reached_ok :: "place_key list \<Rightarrow> import list \<Rightarrow> string + nat \<times> string \<Rightarrow> bool" where
  "reached_ok K imps (Inl m) \<longleftrightarrow> m \<in> key_name ` set K"
| "reached_ok K imps (Inr (i, path)) \<longleftrightarrow> i < length imps"

lemma resolve_level_names:
  assumes "ctx_ok K imps ctx" "k \<le> length ns"
  shows "map_option reached_name (resolve_level k ns n ctx) = first_of (outer_names K imps (take k ns) n)
    \<and> (\<forall>r. resolve_level k ns n ctx = Some r \<longrightarrow> reached_ok K imps r)"
  using assms(2)
proof (induction k)
  case 0
  then show ?case
    using assms(1)
    by (auto simp: resolve_level.simps [of 0] ctx_ok_def outer_names_def level_first dest: first_bound_index
      split: option.splits)
next
  case (Suc k)
  have p: "outer_names K imps (take (Suc k) ns) n = level_names K imps n (take (Suc k) ns) @ outer_names K imps (take k ns) n"
    using Suc.prems by (simp add: outer_names_def take_Suc_conv_app_nth prefixes_snoc)
  show ?case
    using Suc assms(1)
    by (auto simp: resolve_level.simps [of "Suc k"] ctx_ok_def p level_first dest: first_bound_index split: option.splits)
qed

lemma push_resolution_ok: "res_ok K imps r \<Longrightarrow> ctx_ok K imps ctx \<Longrightarrow> ctx_ok K imps (push_resolution sp r ctx)"
  by (simp add: ctx_ok_def push_resolution_def)

lemma resolve_call_names:
  assumes ok: "ctx_ok K imps ctx" and sc: "list_all2 (scope_at K ns) (tl (prefixes path)) scopes"
  shows "fst (resolve_call n sp scopes ns ctx) = scope_target K imps (ns, path) n
    \<and> ctx_ok K imps (snd (resolve_call n sp scopes ns ctx))"
proof (cases "has_path_sep n")
  case True
  have "set (fc_names ctx) \<subseteq> key_name ` set K" using ok by (simp add: ctx_ok_def)
  then have "res_ok K imps (if n \<in> set (fc_names ctx) then RawLocal n else RawQualified n)"
    by (auto simp: res_ok_def)
  then show ?thesis using True push_resolution_ok [OF _ ok] by (simp add: resolve_call_def scope_target_def)
next
  case False
  note fn = find_nested_names [OF sc, of n]
  show ?thesis
  proof (cases "find_nested scopes n")
    case (Some m)
    then have f: "first_of (nested_names K ns (tl (prefixes path)) n) = Some m" using fn by simp
    then have "m \<in> set (nested_names K ns (tl (prefixes path)) n)"
      by (cases "nested_names K ns (tl (prefixes path)) n") auto
    then have "m \<in> key_name ` set K" by (auto simp: nested_names_def)
    then have "res_ok K imps (RawLocal m)" by (simp add: res_ok_def)
    then show ?thesis using False Some push_resolution_ok [OF _ ok] first_of_hd [OF f]
      by (simp add: resolve_call_def scope_target_def)
  next
    case None
    then have e: "nested_names K ns (tl (prefixes path)) n = []" using fn by simp
    note lv = resolve_level_names [OF ok, of "length ns" ns n, simplified]
    show ?thesis
    proof (cases "resolve_level (length ns) ns n ctx")
      case none: None
      then have "first_of (outer_names K imps ns n) = None" using lv by simp
      then have "outer_names K imps ns n = []" by simp
      moreover have "ctx_ok K imps (if n \<in> set (fc_warned ctx) then ctx
         else ctx\<lparr>fc_warned := n # fc_warned ctx, fc_warnings := fc_warnings ctx @ [undeclared_warning n sp]\<rparr>)"
        using ok by (simp add: ctx_ok_def undeclared_warning_def)
      ultimately show ?thesis using False None none e
        by (simp add: resolve_call_def scope_target_def push_resolution_ok res_ok_def)
    next
      case (Some r)
      then have f: "first_of (outer_names K imps ns n) = Some (reached_name r)" and r: "reached_ok K imps r"
        using lv by auto
      have "ctx_ok K imps (ctx\<lparr>fc_imports_used := u\<rparr>)" for u using ok by (simp add: ctx_ok_def)
      then show ?thesis using False None Some e r first_of_hd [OF f, of "[n]"] ok
        by (cases r rule: reached_name.cases)
          (simp_all add: resolve_call_def scope_target_def push_resolution_ok res_ok_def)
    qed
  qed
qed

section \<open>The walk\<close>

lemma resolve_item_names:
  assumes "ctx_ok K imps ctx" and "list_all2 (scope_at K ns) (tl (prefixes path)) scopes"
  shows "fst (resolve_item scopes ns it ctx) = rename_call (scope_target K imps (ns, path)) it
    \<and> ctx_ok K imps (snd (resolve_item scopes ns it ctx))"
proof (cases it)
  case (CallItem n nsp sc a b c l)
  then show ?thesis using resolve_call_names [OF assms, of n nsp] by (simp add: split_beta)
qed (use assms(1) in simp_all)

lemma resolve_items_names:
  assumes "list_all2 (scope_at K ns) (tl (prefixes path)) scopes"
  shows "ctx_ok K imps ctx \<Longrightarrow>
    fst (resolve_items scopes ns its ctx) = map (rename_call (scope_target K imps (ns, path))) its
    \<and> ctx_ok K imps (snd (resolve_items scopes ns its ctx))"
proof (induction its arbitrary: ctx)
  case (Cons it its)
  note h = resolve_item_names [OF Cons.prems assms, of it]
  show ?case using h Cons.IH [OF conjunct2 [OF h]] by (simp add: split_beta)
qed simp

lemma resolve_stmts_names:
  assumes "list_all2 (scope_at K ns) (tl (prefixes path)) scopes"
  shows "ctx_ok K imps ctx \<Longrightarrow>
    fst (resolve_stmts scopes ns body ctx) = rename_calls (scope_target K imps (ns, path)) body
    \<and> ctx_ok K imps (snd (resolve_stmts scopes ns body ctx))"
proof (induction body arbitrary: ctx)
  case (Cons st body)
  note h = resolve_items_names [OF assms Cons.prems, of "st_items st"]
  show ?case using h Cons.IH [OF conjunct2 [OF h]] by (simp add: split_beta rename_calls_def)
qed (simp add: rename_calls_def)

text \<open>The places below a definition are those of its subtree.\<close>

definition own_places :: "place_key list \<Rightarrow> string list \<Rightarrow> string list \<Rightarrow> pmc_fn \<Rightarrow> bool" where
  "own_places K ns path f \<longleftrightarrow>
     (\<forall>rest. (ns, path @ pf_name f # rest) \<in> set K \<longleftrightarrow> path @ pf_name f # rest \<in> set (keys_of f path))"

lemma sibling_keys:
  assumes "distinct (map pf_name fs)" "c \<in> set fs"
  shows "path @ pf_name c # rest \<in> set (keys_of_all fs path) \<longleftrightarrow> path @ pf_name c # rest \<in> set (keys_of c path)"
  using assms
proof (induction fs)
  case (Cons g gs)
  show ?case
  proof (cases "c = g")
    case True
    then have "path @ pf_name c # rest \<notin> set (keys_of_all gs path)"
      using Cons.prems(1) keys_extend(2) [of "path @ pf_name c # rest" gs path] by auto
    then show ?thesis using True by simp
  next
    case False
    then have "c \<in> set gs" using Cons.prems(2) by simp
    moreover have "pf_name c \<noteq> pf_name g" using calculation Cons.prems(1) by (auto simp: image_iff)
    then have "path @ pf_name c # rest \<notin> set (keys_of g path)"
      using keys_extend(1) [of "path @ pf_name c # rest" g path] by auto
    ultimately show ?thesis using Cons by simp
  qed
qed simp

lemma own_child:
  assumes "own_places K ns path (PmcFn name line col nspan body exported vol loc nested ns' doc)"
    and "distinct (map pf_name nested)" "c \<in> set nested"
  shows "own_places K ns (path @ [name]) c"
  using assms(1) sibling_keys [OF assms(2,3), of "path @ [name]"]
  by (simp add: own_places_def)

lemma child_scope_at:
  assumes "own_places K ns path (PmcFn name line col nspan body exported vol loc nested ns' doc)"
    and "distinct (map pf_name nested)"
  shows "scope_at K ns (path @ [name]) (child_scope (key_name (ns, path @ [name])) nested)"
  unfolding scope_at_def
proof
  fix n
  have c: "(ns, (path @ [name]) @ [n]) \<in> set K \<longleftrightarrow> n \<in> pf_name ` set nested"
  proof -
    have "(path @ [name]) @ [n] \<in> set (keys_of_all nested (path @ [name])) \<longleftrightarrow> n \<in> pf_name ` set nested"
    proof
      show "(path @ [name]) @ [n] \<in> set (keys_of_all nested (path @ [name])) \<Longrightarrow> n \<in> pf_name ` set nested"
        by (drule keys_extend(2)) auto
      assume "n \<in> pf_name ` set nested"
      then obtain c where c: "c \<in> set nested" "n = pf_name c" by blast
      have "(path @ [name]) @ [pf_name c] \<in> set (keys_of c (path @ [name]))" by (cases c) simp
      then show "(path @ [name]) @ [n] \<in> set (keys_of_all nested (path @ [name]))"
        using sibling_keys [OF assms(2) c(1), of "path @ [name]" "[]"] c(2) by simp
    qed
    then show ?thesis using assms(1) by (simp add: own_places_def)
  qed
  have k: "key_name (ns, (path @ [name]) @ [n]) = key_name (ns, path @ [name]) @ ''.'' @ n"
    by (cases path) (simp_all add: key_name_def dotted_snoc dotted_def flip: append_assoc)
  let ?g = "\<lambda>c. (pf_name c, key_name (ns, path @ [name]) @ ''.'' @ pf_name c)"
  have m: "map_of (rev (map ?g nested)) n = (if n \<in> pf_name ` set nested then Some (key_name (ns, path @ [name]) @ ''.'' @ n) else None)"
    using assms(2)
  proof (induction nested rule: rev_induct)
    case (snoc c cs)
    then show ?case by auto
  qed simp
  then show "child_scope (key_name (ns, path @ [name])) nested n =
      (if (ns, (path @ [name]) @ [n]) \<in> set K then Some (key_name (ns, (path @ [name]) @ [n])) else None)"
    unfolding child_scope_def c k by simp
qed

lemma key_name_ne: "key_ok k \<Longrightarrow> key_name k \<noteq> []"
  by (cases "snd k") (auto simp: key_ok_def key_name_def dotted_def full_name_path join_path_ne)

definition place_name :: "string list \<Rightarrow> string list \<Rightarrow> string" where
  "place_name ns path = (if path = [] then [] else key_name (ns, path))"

lemma emitted_place:
  assumes "\<forall>x \<in> set (ns @ path). ident_ok x"
  shows "emitted_name (place_name ns path) ns name = key_name (ns, path @ [name])"
proof (cases path)
  case Nil
  then show ?thesis by (simp add: emitted_name_def place_name_def key_name_def dotted_def)
next
  case (Cons a b)
  have "key_name (ns, path) \<noteq> []" using assms Cons by (intro key_name_ne) (auto simp: key_ok_def)
  then show ?thesis using Cons
    by (simp add: emitted_name_def place_name_def key_name_def dotted_snoc flip: append_assoc)
qed

lemma emit_places:
  "ctx_ok K imps ctx \<Longrightarrow> list_all2 (scope_at K ns) (tl (prefixes path)) scopes \<Longrightarrow>
    \<forall>x \<in> set (ns @ path). ident_ok x \<Longrightarrow> tree_ok f \<Longrightarrow> own_places K ns path f \<Longrightarrow>
    \<exists>ctx'. emit_fn f (place_name ns path) ns scopes (ctx, out) =
        (ctx', out @ map (\<lambda>(q, g). flat_fn K imps ((ns, q), g)) (placed f path)) \<and> ctx_ok K imps ctx'"
  "ctx_ok K imps ctx \<Longrightarrow> list_all2 (scope_at K ns) (tl (prefixes path)) scopes \<Longrightarrow>
    \<forall>x \<in> set (ns @ path). ident_ok x \<Longrightarrow> trees_ok fs \<Longrightarrow> \<forall>f \<in> set fs. own_places K ns path f \<Longrightarrow>
    \<exists>ctx'. emit_fns fs (place_name ns path) ns scopes (ctx, out) =
        (ctx', out @ map (\<lambda>(q, g). flat_fn K imps ((ns, q), g)) (placed_all fs path)) \<and> ctx_ok K imps ctx'"
proof (induction f path and fs path arbitrary: ctx scopes out and ctx scopes out rule: placed_placed_all.induct)
  case (1 name line col nspan body exported vol loc nested ns' doc path)
  let ?f = "PmcFn name line col nspan body exported vol loc nested ns' doc"
  let ?full = "key_name (ns, path @ [name])"
  let ?inner = "scopes @ [child_scope ?full nested]"
  have t: "ident_ok name" "distinct (map pf_name nested)" "trees_ok nested" using "1.prems"(4) by simp_all
  have "tl (prefixes (path @ [name])) = tl (prefixes path) @ [path @ [name]]"
    by (cases "prefixes path") (simp_all add: prefixes_snoc)
  then have sc: "list_all2 (scope_at K ns) (tl (prefixes (path @ [name]))) ?inner"
    using "1.prems"(2) child_scope_at [OF "1.prems"(5) t(2)] by (simp add: list_all2_appendI)
  obtain body' ctx1 where r: "resolve_stmts ?inner ns body ctx = (body', ctx1)" by fastforce
  have b: "body' = rename_calls (scope_target K imps (ns, path @ [name])) body" and c1: "ctx_ok K imps ctx1"
    using resolve_stmts_names [OF sc "1.prems"(1), of body] r by simp_all
  have id: "\<forall>x \<in> set (ns @ path @ [name]). ident_ok x" using "1.prems"(3) t(1) by auto
  have own: "\<forall>c \<in> set nested. own_places K ns (path @ [name]) c"
    using own_child [OF "1.prems"(5) t(2)] by blast
  have full: "emitted_name (place_name ns path) ns name = ?full"
    by (rule emitted_place [OF "1.prems"(3)])
  have pn: "place_name ns (path @ [name]) = ?full" by (simp add: place_name_def)
  have pe: "place_name ns path = [] \<longleftrightarrow> path = []"
    using "1.prems"(3) key_name_ne [of "(ns, path)"] by (auto simp: place_name_def key_ok_def)
  have e: "emitted_fn ?f (place_name ns path) ?full body' = flat_fn K imps ((ns, path @ [name]), ?f)"
    by (auto simp: emitted_fn_def flat_fn_def pe b Let_def)
  show ?case
    using "1.IH" [OF c1 sc id t(3) own, of "out @ [flat_fn K imps ((ns, path @ [name]), ?f)]"]
    by (simp add: full r e pn Let_def)
next
  case (2 path)
  then show ?case by simp
next
  case (3 f fs path)
  obtain ctx1 where h: "emit_fn f (place_name ns path) ns scopes (ctx, out) =
      (ctx1, out @ map (\<lambda>(q, g). flat_fn K imps ((ns, q), g)) (placed f path))" and c: "ctx_ok K imps ctx1"
    using "3.IH"(1) [OF "3.prems"(1,2,3), of out] "3.prems"(4,5) by auto
  show ?case
    using "3.IH"(2) [OF c "3.prems"(2,3), of "out @ map (\<lambda>(q, g). flat_fn K imps ((ns, q), g)) (placed f path)"]
      "3.prems"(4,5) h by simp
qed

lemma own_top:
  assumes "distinct (map (\<lambda>f. (pf_ns f, pf_name f)) fs)" "f \<in> set fs"
  shows "own_places (place_keys fs) (pf_ns f) [] f"
  unfolding own_places_def
proof
  fix rest
  show "(pf_ns f, [] @ pf_name f # rest) \<in> set (place_keys fs) \<longleftrightarrow> [] @ pf_name f # rest \<in> set (keys_of f [])"
    using assms
  proof (induction fs)
    case (Cons g gs)
    show ?case
    proof (cases "f = g")
      case True
      then have "(pf_ns f, pf_name f # rest) \<notin> set (place_keys gs)"
        using Cons.prems(1) place_keys_in [of "(pf_ns f, pf_name f # rest)" gs] by (auto simp: image_iff)
      then show ?thesis using True by auto
    next
      case False
      then have f: "f \<in> set gs" using Cons.prems(2) by simp
      then have "(pf_ns f, pf_name f) \<noteq> (pf_ns g, pf_name g)" using Cons.prems(1) by (force simp: image_iff)
      then have "(pf_ns f, pf_name f # rest) \<notin> Pair (pf_ns g) ` set (keys_of g [])"
        using keys_extend(1) [of "pf_name f # rest" g "[]"] by auto
      then show ?thesis using Cons f by simp
    qed
  qed simp
qed

lemma emit_top_places:
  assumes "\<forall>f \<in> set fs. tree_ok f \<and> (\<forall>x \<in> set (pf_ns f). ident_ok x) \<and> own_places K (pf_ns f) [] f"
    and "ctx_ok K imps ctx"
  shows "\<exists>ctx'. emit_top fs (ctx, out) = (ctx', out @ map (flat_fn K imps) (places fs)) \<and> ctx_ok K imps ctx'"
  using assms
proof (induction fs arbitrary: ctx out)
  case (Cons f fs)
  have m: "flat_fn K imps \<circ> (\<lambda>(path, g). ((pf_ns f, path), g)) = (\<lambda>(q, g). flat_fn K imps ((pf_ns f, q), g))"
    by (simp add: fun_eq_iff split_beta)
  obtain ctx1 where "emit_fn f (place_name (pf_ns f) []) (pf_ns f) [] (ctx, out) =
      (ctx1, out @ map (\<lambda>(q, g). flat_fn K imps ((pf_ns f, q), g)) (placed f []))" "ctx_ok K imps ctx1"
    using emit_places(1) [OF Cons.prems(2), of "pf_ns f" "[]" "[]" f out] Cons.prems(1) by auto
  then show ?case
    using Cons.IH [of ctx1 "out @ map (\<lambda>(q, g). flat_fn K imps ((pf_ns f, q), g)) (placed f [])"] Cons.prems(1)
    by (simp add: place_name_def m)
qed simp

lemma initial_ctx_ok:
  assumes "program_ok p"
  shows "\<exists>ctx. initial_ctx p = Some ctx \<and> ctx_ok (place_keys (pp_functions p)) (pp_imports p) ctx"
proof -
  obtain m where m: "collect_bindings 0 (pp_imports p) Map.empty = Some m"
    using assms collect_bindings_total unfolding program_ok_def by blast
  have "full_name (pf_ns f) (pf_name f) \<in> key_name ` set (place_keys (pp_functions p))" if "f \<in> set (pp_functions p)" for f
  proof (rule image_eqI)
    show "(pf_ns f, [pf_name f]) \<in> set (place_keys (pp_functions p))" using that by (auto simp: top_key)
    show "full_name (pf_ns f) (pf_name f) = key_name (pf_ns f, [pf_name f])" by (simp add: key_name_def dotted_def)
  qed
  then have n: "set (defined_full_names (pp_functions p)) \<subseteq> key_name ` set (place_keys (pp_functions p))"
    unfolding defined_full_names_def by (simp add: image_subset_iff)
  have b: "Option.bind (m ns) (\<lambda>b. b n) = first_bound 0 (pp_imports p) ns n" for ns n
    using collect_bindings_lookup [OF m, of ns n] by simp
  show ?thesis by (simp add: initial_ctx_def m ctx_ok_def Let_def defs_scope n b)
qed

lemma flat_names: "map pf_name (map (flat_fn K imps) (places fs)) = map key_name (place_keys fs)"
  by (simp add: flat_fn_def split_beta comp_def Let_def flip: places_keys)

lemma flat_names_set: "pf_name ` flat_fn K imps ` set (places fs) = key_name ` set (place_keys fs)"
  using arg_cong [OF flat_names [of K imps fs], of set] by (simp add: image_image)

lemma emit_top_program:
  assumes "program_ok p" "ctx_ok (place_keys (pp_functions p)) (pp_imports p) ctx"
  shows "\<exists>ctx'. emit_top (pp_functions p) (ctx, [])
      = (ctx', map (flat_fn (place_keys (pp_functions p)) (pp_imports p)) (places (pp_functions p)))
    \<and> ctx_ok (place_keys (pp_functions p)) (pp_imports p) ctx'"
proof -
  have "\<forall>f \<in> set (pp_functions p). tree_ok f \<and> (\<forall>x \<in> set (pf_ns f). ident_ok x)
      \<and> own_places (place_keys (pp_functions p)) (pf_ns f) [] f"
    using assms(1) own_top by (auto simp: program_ok_def trees_ok_iff)
  from emit_top_places [OF this assms(2), of "[]"] show ?thesis by simp
qed

lemma map_of_some: "m \<in> set (map fst xs) \<Longrightarrow> \<exists>y. map_of xs m = Some y"
  by (induction xs) auto

lemma convert_total:
  assumes "res_ok K imps r" "pf_name ` set out = key_name ` set K"
  shows "convert_resolution out imps r \<noteq> None"
proof (cases r)
  case (RawLocal m)
  then have "m \<in> set (map fst (rev (map (\<lambda>f. (pf_name f, pf_name_span f)) out)))"
    using assms by (simp add: res_ok_def image_image)
  from map_of_some [OF this] obtain sp
    where "map_of (rev (map (\<lambda>f. (pf_name f, pf_name_span f)) out)) m = Some sp" by blast
  then show ?thesis using RawLocal by simp
next
  case (RawImport i)
  then show ?thesis using assms(1) by (simp add: res_ok_def nth_opt_def)
qed simp_all

lemma those_total: "\<forall>x \<in> set xs. x \<noteq> None \<Longrightarrow> \<exists>ys. those xs = Some ys"
  by (induction xs) (auto split: option.splits)

text \<open>The result of \<open>flatten\<close>.\<close>

lemma flatten_program:
  assumes "program_ok p"
  shows "\<exists>fl ws. flatten p = Some fl
    \<and> fl_program fl = \<lparr>pp_functions = map (flat_fn (place_keys (pp_functions p)) (pp_imports p)) (places (pp_functions p)),
                       pp_imports = pp_imports p\<rparr>
    \<and> list_all (\<lambda>d. dg_code d \<noteq> ''unused-function'') ws
    \<and> fl_warnings fl = ws @ unused_functions (pp_functions (fl_program fl))"
proof -
  let ?K = "place_keys (pp_functions p)" and ?out = "map (flat_fn (place_keys (pp_functions p)) (pp_imports p)) (places (pp_functions p))"
  obtain ctx where ctx: "initial_ctx p = Some ctx" "ctx_ok ?K (pp_imports p) ctx"
    using initial_ctx_ok [OF assms] by blast
  obtain ctx' where e: "emit_top (pp_functions p) (ctx, []) = (ctx', ?out)" and ok: "ctx_ok ?K (pp_imports p) ctx'"
    using emit_top_program [OF assms ctx(2)] by blast
  have "\<forall>x \<in> set (map (\<lambda>(sp, r). convert_resolution ?out (pp_imports p) r) (fc_resolutions ctx')). x \<noteq> None"
    using ok convert_total [of ?K "pp_imports p" _ ?out] flat_names_set [of ?K "pp_imports p" "pp_functions p"]
    by (auto simp: ctx_ok_def list_all_iff)
  from those_total [OF this] obtain rs
    where rs: "those (map (\<lambda>(sp, r). convert_resolution ?out (pp_imports p) r) (fc_resolutions ctx')) = Some rs" by blast
  have w: "list_all (\<lambda>d. dg_code d \<noteq> ''unused-function'')
      (fc_warnings ctx' @ unused_imports (fc_imports_used ctx') (pp_imports p))"
    using ok by (auto simp: ctx_ok_def list_all_iff unused_imports_def unused_import_def)
  show ?thesis using w by (simp add: flatten_def ctx(1) e rs)
qed

section \<open>The walk over the calls\<close>

definition edge_rel :: "string list \<Rightarrow> (string \<Rightarrow> string list option) \<Rightarrow> (string \<times> string) set" where
  "edge_rel known edges = {(a, b). a \<in> set known \<and> (\<exists>cs. edges a = Some cs \<and> b \<in> set cs)}"

definition next_names :: "string list \<Rightarrow> (string \<Rightarrow> string list option) \<Rightarrow> string \<Rightarrow> string list" where
  "next_names known edges n = (if n \<in> set known then (case edges n of Some cs \<Rightarrow> cs | None \<Rightarrow> []) else [])"

lemma next_names_edges: "set (next_names known edges n) = edge_rel known edges `` {n}"
proof (cases "edges n")
  case (Some cs)
  then have "next_names known edges n = (if n \<in> set known then cs else [])" by (simp add: next_names_def)
  then show ?thesis using Some by (simp add: edge_rel_def)
next
  case None
  then have "next_names known edges n = []" by (simp add: next_names_def)
  then show ?thesis using None by (simp add: edge_rel_def)
qed

lemma reach_names_next:
  "n \<notin> set reached \<Longrightarrow>
     reach_names known edges reached (n # queue) = reach_names known edges (n # reached) (queue @ next_names known edges n)"
  by (simp add: next_names_def)

lemma reach_names_sound:
  "set (reach_names known edges reached queue) \<subseteq> set reached \<union> (edge_rel known edges)\<^sup>* `` set queue"
proof (induction known edges reached queue rule: reach_names.induct)
  case (2 known edges reached n queue)
  let ?E = "edge_rel known edges"
  show ?case
  proof (cases "n \<in> set reached")
    case False
    have n: "?E\<^sup>* `` set (next_names known edges n) \<subseteq> ?E\<^sup>* `` {n}"
      unfolding next_names_edges by (auto intro: converse_rtrancl_into_rtrancl)
    have i: "set (reach_names known edges (n # reached) (queue @ next_names known edges n))
        \<subseteq> set (n # reached) \<union> ?E\<^sup>* `` set (queue @ next_names known edges n)"
      using "2.IH"(2) [OF False] unfolding next_names_def by blast
    have "?E\<^sup>* `` set (queue @ next_names known edges n) \<subseteq> ?E\<^sup>* `` set (n # queue)"
      using n by (auto simp: Image_Un)
    moreover have "n \<in> ?E\<^sup>* `` set (n # queue)" by auto
    ultimately have "set (n # reached) \<union> ?E\<^sup>* `` set (queue @ next_names known edges n) \<subseteq> set reached \<union> ?E\<^sup>* `` set (n # queue)"
      by auto
    then show ?thesis unfolding reach_names_next [OF False] using i by (rule order_trans [rotated])
  qed (use "2.IH"(1) in auto)
qed simp

lemma reach_names_complete:
  "set reached \<union> set queue \<subseteq> set (reach_names known edges reached queue)
   \<and> (edge_rel known edges `` set reached \<subseteq> set reached \<union> set queue
      \<longrightarrow> edge_rel known edges `` set (reach_names known edges reached queue) \<subseteq> set (reach_names known edges reached queue))"
proof (induction known edges reached queue rule: reach_names.induct)
  case (2 known edges reached n queue)
  let ?E = "edge_rel known edges"
  show ?case
  proof (cases "n \<in> set reached")
    case True
    then have "set reached \<union> set (n # queue) = set reached \<union> set queue" by auto
    moreover have "reach_names known edges reached (n # queue) = reach_names known edges reached queue" using True by simp
    ultimately show ?thesis using "2.IH"(1) [OF True] by simp
  next
    case False
    let ?R = "set (reach_names known edges (n # reached) (queue @ next_names known edges n))"
    have i: "set (n # reached) \<union> set (queue @ next_names known edges n) \<subseteq> ?R"
      "?E `` set (n # reached) \<subseteq> set (n # reached) \<union> set (queue @ next_names known edges n) \<Longrightarrow> ?E `` ?R \<subseteq> ?R"
      using "2.IH"(2) [OF False] unfolding next_names_def by blast+
    have "?E `` set (n # reached) \<subseteq> set (n # reached) \<union> set (queue @ next_names known edges n)"
      if "?E `` set reached \<subseteq> set reached \<union> set (n # queue)"
      using that next_names_edges [of known edges n] by auto
    then show ?thesis unfolding reach_names_next [OF False] using i by auto
  qed
qed simp

lemma reach_names_closure:
  "set (reach_names known edges [] queue) = (edge_rel known edges)\<^sup>* `` set queue"
proof
  let ?R = "set (reach_names known edges [] queue)" and ?E = "edge_rel known edges"
  have c: "set queue \<subseteq> ?R" "?E `` ?R \<subseteq> ?R" using reach_names_complete [of "[]" queue known edges] by simp_all
  have "?E\<^sup>* `` ?R \<subseteq> ?R" using Image_closed_trancl [OF c(2)] by simp
  then show "?E\<^sup>* `` set queue \<subseteq> ?R" using c(1) by blast
qed (use reach_names_sound [of known edges "[]" queue] in simp)

fun callee :: "item \<Rightarrow> string option" where
  "callee (CallItem n sp sc a b c l) = Some n"
| "callee it = None"

definition called_names :: "pmc_fn \<Rightarrow> string list" where
  "called_names f = concat (map (\<lambda>st. List.map_filter callee (st_items st)) (pf_body f))"

text \<open>Who calls whom among the functions of a module.\<close>

definition call_rel :: "pmc_fn list \<Rightarrow> (string \<times> string) set" where
  "call_rel out = {(pf_name f, n) | f n. f \<in> set out \<and> n \<in> set (called_names f) \<and> n \<in> pf_name ` set out}"

definition live :: "pmc_fn list \<Rightarrow> pmc_fn \<Rightarrow> bool" where
  "live out f \<longleftrightarrow> (\<exists>g \<in> set out. pf_exported g \<and> (pf_name g, pf_name f) \<in> (call_rel out)\<^sup>*)"

lemma body_callees_set:
  "set (body_callees names (pf_body f)) = {n \<in> set (called_names f). n \<in> set names}"
proof -
  have "n \<in> set (List.map_filter (\<lambda>it. case it of CallItem n sp sc a b c l \<Rightarrow> if n \<in> set names then Some n else None | _ \<Rightarrow> None) its)
      \<longleftrightarrow> n \<in> set (List.map_filter callee its) \<and> n \<in> set names" for n its
    by (induction its) (auto simp: List.map_filter_simps split: item.split)
  then show ?thesis by (auto simp: body_callees_def called_names_def)
qed

lemma edge_rel_calls:
  assumes "distinct (map pf_name out)"
  shows "edge_rel (map pf_name out) (call_edges out) = call_rel out"
proof -
  let ?g = "\<lambda>f. (pf_name f, body_callees (map pf_name out) (pf_body f))"
  have "call_edges out a = Some cs \<longleftrightarrow> (\<exists>f \<in> set out. a = pf_name f \<and> cs = snd (?g f))" for a cs
  proof -
    have "call_edges out a = Some cs \<longleftrightarrow> (a, cs) \<in> set (rev (map ?g out))"
      unfolding call_edges_def
      using assms by (intro map_of_eq_Some_iff) (simp add: comp_def rev_map [symmetric])
    then show ?thesis by auto
  qed
  then show ?thesis by (auto simp: edge_rel_def call_rel_def body_callees_set)
qed

lemma reached_live:
  assumes "distinct (map pf_name out)"
  shows "pf_name f \<in> set (reached_names out) \<longleftrightarrow> live out f"
  by (auto simp: reached_names_def reach_names_closure edge_rel_calls [OF assms] live_def)

lemma flat_fn_simps [simp]:
  "pf_name (flat_fn K imps (k, f)) = key_name k"
  "pf_body (flat_fn K imps (k, f)) = rename_calls (scope_target K imps k) (pf_body f)"
  by (simp_all add: flat_fn_def Let_def)

lemma placed_ok:
  "tree_ok f \<Longrightarrow> (k, g) \<in> set (placed f path) \<Longrightarrow> body_ok (pf_body g)"
  "trees_ok fs \<Longrightarrow> (k, g) \<in> set (placed_all fs path) \<Longrightarrow> body_ok (pf_body g)"
  by (induction f path and fs path rule: placed_placed_all.induct) auto

lemma places_ok: "trees_ok fs \<Longrightarrow> (k, g) \<in> set (places fs) \<Longrightarrow> body_ok (pf_body g)"
  by (induction fs) (auto dest: placed_ok(1))

lemma flat_names_distinct: "program_ok p \<Longrightarrow> distinct (map pf_name (map (flat_fn K imps) (places (pp_functions p))))"
  by (simp add: flat_names names_distinct del: map_map)

lemma flat_bodies_ok:
  assumes "program_ok p"
  shows "\<forall>f \<in> set (map (flat_fn K imps) (places (pp_functions p))). body_ok (pf_body f)"
  using assms places_ok [of "pp_functions p"] by (auto simp: program_ok_def rename_calls_ok)

lemma flattened_ok:
  assumes "program_ok p" "flatten p = Some fl"
  shows "\<forall>f \<in> set (pp_functions (fl_program fl)). body_ok (pf_body f)" "distinct (map pf_name (pp_functions (fl_program fl)))"
proof -
  have fl: "fl_program fl = \<lparr>pp_functions = map (flat_fn (place_keys (pp_functions p)) (pp_imports p)) (places (pp_functions p)),
      pp_imports = pp_imports p\<rparr>" using flatten_program [OF assms(1)] assms(2) by auto
  show "\<forall>f \<in> set (pp_functions (fl_program fl)). body_ok (pf_body f)"
    using flat_bodies_ok [OF assms(1)] by (simp add: fl)
  show "distinct (map pf_name (pp_functions (fl_program fl)))"
    using flat_names_distinct [OF assms(1)] by (simp add: fl del: map_map)
qed

section \<open>An example\<close>

text \<open>
  \<open>main\<close> calls a function of the namespace \<open>std\<close>, an imported one by its alias, and its own nested \<open>f\<close>,
  which hides the \<open>f\<close> beside \<open>main\<close>; \<open>std::api\<close> and the function nested in it call each other, and
  nobody calls \<open>std::dead\<close> from outside.
\<close>

definition fx_span :: span where "fx_span = span_new 1 1 1 2"

definition fx_fn :: "string list \<Rightarrow> string \<Rightarrow> bool \<Rightarrow> string list \<Rightarrow> pmc_fn list \<Rightarrow> pmc_fn" where
  "fx_fn ns n ex calls nested = PmcFn n 1 1 fx_span
     (map (\<lambda>c. \<lparr>st_labels = [], st_items = [CallItem c fx_span ToNext None None None 1], st_line = 1, st_span = fx_span\<rparr>) calls)
     ex False False nested ns None"

definition fx_program :: pmc_program where
  "fx_program = \<lparr>pp_functions =
     [fx_fn [] ''main'' True [''f'', ''std::api'', ''twice''] [fx_fn [] ''f'' False [''twice''] []],
      fx_fn [] ''f'' False [''other''] [],
      fx_fn [''std''] ''api'' False [''step''] [fx_fn [''std''] ''step'' False [''api'', ''step'', ''f''] []],
      fx_fn [''std''] ''dead'' False [''dead''] []],
     pp_imports = [\<lparr>im_path = [''lib'', ''double''], im_alias = Some ''twice'', im_alias_span = None, im_line = 1,
       im_ns = [], im_span = fx_span\<rparr>]\<rparr>"

lemma fx_program_ok: "program_ok fx_program"
  by code_simp

section \<open>Properties\<close>

text \<open>
  C36: flattening never panics and resolves every call by lexical scope. On a program as the parser
  delivers it, every definition becomes one function, in the order of the source, under the name of its
  place, and each of its calls is renamed to what the scope rule finds: the innermost enclosing
  definition that has the name nested in it, then for each prefix of the namespace, the longest first,
  the definition there and else the first import bound there, and else the name itself, as for a
  qualified name. The names stay apart and the bodies keep what the lowering needs.
\<close>

theorem flatten_scopes:
  assumes "program_ok p"
  shows "\<exists>fl. flatten p = Some fl
    \<and> pp_functions (fl_program fl) = map (flat_fn (place_keys (pp_functions p)) (pp_imports p)) (places (pp_functions p))
    \<and> distinct (map pf_name (pp_functions (fl_program fl)))
    \<and> (\<forall>f \<in> set (pp_functions (fl_program fl)). body_ok (pf_body f))"
proof -
  obtain fl where fl: "flatten p = Some fl"
    "fl_program fl = \<lparr>pp_functions = map (flat_fn (place_keys (pp_functions p)) (pp_imports p)) (places (pp_functions p)),
      pp_imports = pp_imports p\<rparr>"
    using flatten_program [OF assms] by blast
  show ?thesis
    using fl flattened_ok [OF assms fl(1)] by (intro exI [of _ fl]) simp
qed

theorem flatten_scopes_witness:
  "\<exists>fl. flatten fx_program = Some fl
    \<and> map (\<lambda>f. (pf_name f, called_names f)) (pp_functions (fl_program fl)) =
       [(''main'', [''main.f'', ''std::api'', ''lib::double'']), (''main.f'', [''lib::double'']), (''f'', [''other'']),
        (''std::api'', [''std::api.step'']), (''std::api.step'', [''std::api'', ''std::api.step'', ''f'']),
        (''std::dead'', [''std::dead''])]"
proof -
  have "map (\<lambda>f. (pf_name f, called_names f)) (map (flat_fn (place_keys (pp_functions fx_program)) (pp_imports fx_program))
      (places (pp_functions fx_program))) =
       [(''main'', [''main.f'', ''std::api'', ''lib::double'']), (''main.f'', [''lib::double'']), (''f'', [''other'']),
        (''std::api'', [''std::api.step'']), (''std::api.step'', [''std::api'', ''std::api.step'', ''f'']),
        (''std::dead'', [''std::dead''])]" by code_simp
  then show ?thesis using flatten_scopes [OF fx_program_ok] by metis
qed

text \<open>
  C37: the unused-function warnings are exact. Flattening warns, in order, of precisely the functions
  that no chain of calls within the module reaches from an exported one.
\<close>

theorem unused_functions_exact:
  assumes "program_ok p" and "flatten p = Some fl"
  shows "filter (\<lambda>d. dg_code d = ''unused-function'') (fl_warnings fl)
    = map unused_function (filter (\<lambda>f. \<not> live (pp_functions (fl_program fl)) f) (pp_functions (fl_program fl)))"
proof -
  obtain ws where fl: "fl_program fl = \<lparr>pp_functions = map (flat_fn (place_keys (pp_functions p)) (pp_imports p)) (places (pp_functions p)),
      pp_imports = pp_imports p\<rparr>"
    and ws: "list_all (\<lambda>d. dg_code d \<noteq> ''unused-function'') ws" "fl_warnings fl = ws @ unused_functions (pp_functions (fl_program fl))"
    using flatten_program [OF assms(1)] assms(2) by auto
  have "filter (\<lambda>d. dg_code d = ''unused-function'') ws = []"
    using ws(1) by (induction ws) simp_all
  moreover have "filter (\<lambda>d. dg_code d = ''unused-function'') (map unused_function fs) = map unused_function fs" for fs
    by (simp add: unused_function_def filter_map comp_def)
  moreover have "pf_name f \<in> set (reached_names (pp_functions (fl_program fl))) \<longleftrightarrow> live (pp_functions (fl_program fl)) f" for f
    by (rule reached_live) (simp add: fl flat_names_distinct [OF assms(1)] del: map_map)
  ultimately show ?thesis by (simp add: ws(2) unused_functions_def)
qed

definition fx_flat :: flattened where "fx_flat = the (flatten fx_program)"

theorem unused_functions_exact_witness:
  "map pf_name (pp_functions (fl_program fx_flat)) = [''main'', ''main.f'', ''f'', ''std::api'', ''std::api.step'', ''std::dead'']
   \<and> map dg_message (map unused_function (filter (\<lambda>f. \<not> live (pp_functions (fl_program fx_flat)) f) (pp_functions (fl_program fx_flat))))
     = [''unused function `std::dead` (not exported, never called)'']"
proof
  show "map pf_name (pp_functions (fl_program fx_flat)) = [''main'', ''main.f'', ''f'', ''std::api'', ''std::api.step'', ''std::dead'']"
    by code_simp
  have "flatten fx_program \<noteq> None" by code_simp
  then have f: "flatten fx_program = Some fx_flat" by (simp add: fx_flat_def)
  have "map dg_message (filter (\<lambda>d. dg_code d = ''unused-function'') (fl_warnings fx_flat))
      = [''unused function `std::dead` (not exported, never called)'']" by code_simp
  then show "map dg_message (map unused_function (filter (\<lambda>f. \<not> live (pp_functions (fl_program fx_flat)) f) (pp_functions (fl_program fx_flat))))
      = [''unused function `std::dead` (not exported, never called)'']"
    unfolding unused_functions_exact [OF fx_program_ok f] .
qed

end
