(* ===== verification/Pmc_Tree_Semantics.thy ===== *)
theory Pmc_Tree_Semantics
  imports Pmc_Flatten_Correct Pmc_Correct
begin

text \<open>
  What a parsed program means before anything is flattened: definitions stay in their places, and a call
  goes to what the scope rule finds from the place of its caller, a definition of the program or, by its
  full name, a function of another module. The flattened program behaves the same.
\<close>

section \<open>Runs in the tree\<close>

text \<open>A function of the program is its place and its definition; a function of another module has no place.\<close>

type_synonym tree_fn = "place_key option \<times> pmc_fn"

definition callee_name :: "pmc_program \<Rightarrow> tree_fn \<Rightarrow> string \<Rightarrow> string" where
  "callee_name p u n =
     (case fst u of
        Some k \<Rightarrow> scope_target (place_keys (pp_functions p)) (pp_imports p) k n
      | None \<Rightarrow> n)"

definition tree_linked :: "src_linkage \<Rightarrow> pmc_program \<Rightarrow> string \<Rightarrow> tree_fn option" where
  "tree_linked rest p n =
     (case find (\<lambda>(k, f). key_name k = n) (places (pp_functions p)) of
        Some (k, f) \<Rightarrow> Some (Some k, f)
      | None \<Rightarrow> map_option (Pair None) (rest n))"

definition tree_returned :: "tree_fn \<Rightarrow> 'd ir_state \<Rightarrow> 'd result" where
  "tree_returned u s =
     (if (case fst u of Some k \<Rightarrow> key_name k | None \<Rightarrow> pf_name (snd u)) = ''main'' then Stops s else Back s)"

partial_function (option) tree_interp ::
  "'d device \<Rightarrow> src_linkage \<Rightarrow> pmc_program \<Rightarrow> tree_fn \<Rightarrow> src_point \<Rightarrow> 'd ir_state \<Rightarrow> 'd result option" where
  "tree_interp D rest p u at s =
     (case fst at of
        [] \<Rightarrow>
          (case snd at of
             [] \<Rightarrow> Some (tree_returned u s)
           | st # sts \<Rightarrow> tree_interp D rest p u (st_items st, sts) s)
      | it # its \<Rightarrow>
          (case item_callee it of
             Some n \<Rightarrow>
               (case tree_linked rest p (callee_name p u n) of
                  None \<Rightarrow> None
                | Some g \<Rightarrow>
                    Option.bind (tree_interp D rest p g (src_entry (snd g)) s)
                      (\<lambda>r. case r of
                             Back s' \<Rightarrow>
                               (case Option.bind (item_succ it (s_mf s')) (succ_point (snd u) (its, snd at)) of
                                  None \<Rightarrow> None
                                | Some q \<Rightarrow> tree_interp D rest p u q s')
                           | _ \<Rightarrow> Some r))
           | None \<Rightarrow>
               (case item_act D it s of
                  Inl (e, s') \<Rightarrow> Some (Faults e s')
                | Inr s' \<Rightarrow>
                    (case item_succ it (s_mf s') of
                       None \<Rightarrow> Some (Halts s')
                     | Some sc \<Rightarrow>
                         (case succ_point (snd u) (its, snd at) sc of
                            None \<Rightarrow> None
                          | Some q \<Rightarrow> tree_interp D rest p u q s')))))"

declare tree_interp.simps [code]

text \<open>A run of the function with a full name.\<close>

definition tree_run :: "'d device \<Rightarrow> src_linkage \<Rightarrow> pmc_program \<Rightarrow> string \<Rightarrow> 'd ir_state \<Rightarrow> 'd result option" where
  "tree_run D rest p n s =
     (case tree_linked rest p n of None \<Rightarrow> None | Some g \<Rightarrow> tree_interp D rest p g (src_entry (snd g)) s)"

section \<open>Renamed calls\<close>

lemma renamed_item [simp]:
  "item_callee (rename_call r it) = map_option r (item_callee it)"
  "item_act D (rename_call r it) s = item_act D it s"
  "item_succ (rename_call r it) mf = item_succ it mf"
  by (cases it; simp)+

definition rename_point :: "(string \<Rightarrow> string) \<Rightarrow> src_point \<Rightarrow> src_point" where
  "rename_point r at = (map (rename_call r) (fst at), rename_calls r (snd at))"

lemma rename_calls_Cons [simp]:
  "rename_calls r [] = []" "rename_calls r (st # sts) = st\<lparr>st_items := map (rename_call r) (st_items st)\<rparr> # rename_calls r sts"
  by (simp_all add: rename_calls_def)

lemma renamed_label: "from_label i (rename_calls r sts) = map_option (rename_point r) (from_label i sts)"
  by (induction sts) (simp_all add: rename_point_def stmt_labels_def)

text \<open>The flattened function of one in the tree.\<close>

definition flat_of :: "pmc_program \<Rightarrow> tree_fn \<Rightarrow> pmc_fn" where
  "flat_of p u =
     (case fst u of
        Some k \<Rightarrow> flat_fn (place_keys (pp_functions p)) (pp_imports p) (k, snd u)
      | None \<Rightarrow> snd u)"

lemma rename_same [simp]: "rename_call (\<lambda>n. n) it = it" "rename_calls (\<lambda>n. n) sts = sts" "rename_point (\<lambda>n. n) at = at"
proof -
  show i: "rename_call (\<lambda>n. n) it = it" for it by (cases it) simp_all
  then have m: "map (rename_call (\<lambda>n. n)) its = its" for its by (simp add: map_idI)
  show s: "rename_calls (\<lambda>n. n) sts = sts" for sts by (induction sts) (simp_all add: m)
  show "rename_point (\<lambda>n. n) at = at" by (simp add: rename_point_def m s)
qed

lemma callee_name_None: "fst u = None \<Longrightarrow> callee_name p u = (\<lambda>n. n)"
  by (simp add: callee_name_def fun_eq_iff)

lemma flat_of_body: "pf_body (flat_of p u) = rename_calls (callee_name p u) (pf_body (snd u))"
proof (cases "fst u")
  case None
  then show ?thesis by (simp add: flat_of_def callee_name_None)
next
  case (Some k)
  then have "callee_name p u = scope_target (place_keys (pp_functions p)) (pp_imports p) k"
    by (simp add: callee_name_def fun_eq_iff)
  then show ?thesis using Some by (simp add: flat_of_def)
qed

lemma flat_of_returns [simp]: "returned (flat_of p u) s = tree_returned u s"
  by (simp add: returned_def tree_returned_def flat_of_def split: option.split)

lemma flat_of_entry [simp]: "src_entry (flat_of p u) = rename_point (callee_name p u) (src_entry (snd u))"
  by (simp add: src_entry_def flat_of_body rename_point_def split: list.split)

lemma flat_of_succ [simp]:
  "succ_point (flat_of p u) (rename_point (callee_name p u) at) sc
     = map_option (rename_point (callee_name p u)) (succ_point (snd u) at sc)"
  by (cases sc) (simp_all add: flat_of_body renamed_label, simp add: rename_point_def)

definition flat_link :: "src_linkage \<Rightarrow> pmc_program \<Rightarrow> src_linkage" where
  "flat_link rest p = source_linked rest (map (flat_fn (place_keys (pp_functions p)) (pp_imports p)) (places (pp_functions p)))"

lemma flat_linked: "flat_link rest p n = map_option (flat_of p) (tree_linked rest p n)"
proof -
  let ?flat = "flat_fn (place_keys (pp_functions p)) (pp_imports p)"
  have "find (\<lambda>f. pf_name f = n) (map ?flat ps) = map_option ?flat (find (\<lambda>(k, f). key_name k = n) ps)" for ps
    by (induction ps) auto
  then show ?thesis
    by (auto simp: flat_link_def source_linked_def tree_linked_def flat_of_def option.map_comp comp_def option.map_ident
        split: option.split)
qed

section \<open>The same runs\<close>

lemma tree_interp_flat:
  "tree_interp D rest p u at s = Some r \<Longrightarrow>
     src_exec D (flat_link rest p) (flat_of p u) (rename_point (callee_name p u) at) s r"
proof (induction rule: tree_interp.raw_induct [rotated -1, consumes 1, case_names step])
  case (step rec D rest p u at s r)
  let ?E = "flat_link rest p" and ?f = "flat_of p u" and ?r = "callee_name p u"
  obtain items sts where at: "at = (items, sts)" by (cases at)
  show ?case
  proof (cases items)
    case Nil
    show ?thesis
    proof (cases sts)
      case (Cons st sts')
      then have "src_exec D ?E ?f (rename_point ?r (st_items st, sts')) s r" using step at Nil by simp
      then show ?thesis
        using at Nil Cons src_next [of D ?E ?f "st\<lparr>st_items := map (rename_call ?r) (st_items st)\<rparr>"]
        by (simp add: rename_point_def)
    qed (use step(2) at Nil src_done [of D ?E ?f] in \<open>auto simp: rename_point_def\<close>)
  next
    case (Cons it its)
    have here: "rename_point ?r at = (rename_call ?r it # map (rename_call ?r) its, rename_calls ?r sts)"
      using at Cons by (simp add: rename_point_def)
    have point: "succ_point ?f (map (rename_call ?r) its, rename_calls ?r sts) sc
        = map_option (rename_point ?r) (succ_point (snd u) (its, sts) sc)" for sc
      using flat_of_succ [of p u "(its, sts)" sc] by (simp add: rename_point_def)
    show ?thesis
    proof (cases "item_callee it")
      case None
      show ?thesis
      proof (cases "item_act D it s")
        case (Inl es)
        then show ?thesis using step(2) at Cons None here by (cases es) (auto intro: src_fault)
      next
        case (Inr s')
        show ?thesis
        proof (cases "item_succ it (s_mf s')")
          case None
          then show ?thesis using step(2) at Cons \<open>item_callee it = None\<close> Inr here by (auto intro: src_halt)
        next
          case (Some sc)
          then obtain q where q: "succ_point (snd u) (its, sts) sc = Some q" "rec D rest p u q s' = Some r"
            using step(2) at Cons None Inr by (auto split: option.splits)
          have "succ_point ?f (map (rename_call ?r) its, rename_calls ?r sts) sc = Some (rename_point ?r q)"
            by (simp only: point q(1) option.map)
          then show ?thesis unfolding here
            using src_act [OF _ _ _ _ step(1) [OF q(2)]] None Inr Some by simp
        qed
      qed
    next
      case (Some n)
      then obtain g r1 where g: "tree_linked rest p (?r n) = Some g" "rec D rest p g (src_entry (snd g)) s = Some r1"
        and r: "(case r1 of
             Back s' \<Rightarrow> (case Option.bind (item_succ it (s_mf s')) (succ_point (snd u) (its, sts)) of
                None \<Rightarrow> None | Some q \<Rightarrow> rec D rest p u q s')
           | _ \<Rightarrow> Some r1) = Some r"
        using step(2) unfolding at Cons fst_conv snd_conv list.case Some option.case
        by (auto split: option.splits bind_splits)
      have sub: "src_exec D ?E (flat_of p g) (src_entry (flat_of p g)) s r1"
        using step(1) [OF g(2)] by simp
      have call: "item_callee (rename_call ?r it) = Some (?r n)" "?E (?r n) = Some (flat_of p g)"
        using Some g(1) by (simp_all add: flat_linked)
      show ?thesis
      proof (cases "\<exists>s'. r1 = Back s'")
        case True
        then obtain s' where s': "r1 = Back s'" by blast
        then obtain sc q where sc: "item_succ it (s_mf s') = Some sc" "succ_point (snd u) (its, sts) sc = Some q"
          "rec D rest p u q s' = Some r" using r by (auto split: option.splits bind_splits)
        have "succ_point ?f (map (rename_call ?r) its, rename_calls ?r sts) sc = Some (rename_point ?r q)"
          by (simp only: point sc(2) option.map)
        then show ?thesis unfolding here
          using src_call [OF call sub [unfolded s'] _ _ step(1) [OF sc(3)]] sc(1) by simp
      next
        case False
        then have "r1 = r" using r by (cases r1) simp_all
        then show ?thesis unfolding here using src_call_ends [where E = ?E, OF call sub] False by blast
      qed
    qed
  qed
qed

lemma rename_point_parts:
  "([], []) = rename_point r at \<Longrightarrow> at = ([], [])"
  "([], st # sts) = rename_point r at \<Longrightarrow>
     \<exists>st0 sts0. at = ([], st0 # sts0) \<and> (st_items st, sts) = rename_point r (st_items st0, sts0)"
  "(it # its, sts) = rename_point r at \<Longrightarrow>
     \<exists>it0 its0 sts0. at = (it0 # its0, sts0) \<and> it = rename_call r it0 \<and> (its, sts) = rename_point r (its0, sts0)"
  by (cases at; auto simp: rename_point_def rename_calls_def)+

lemma flat_tree_interp:
  "src_exec D E f q s r \<Longrightarrow> E = flat_link rest p \<Longrightarrow> f = flat_of p u \<Longrightarrow> q = rename_point (callee_name p u) at \<Longrightarrow>
     tree_interp D rest p u at s = Some r"
proof (induction arbitrary: u at rule: src_exec.induct)
  case (src_done f s)
  have at: "at = ([], [])" by (rule rename_point_parts(1) [OF src_done(3)])
  show ?case unfolding at src_done(2) by (subst tree_interp.simps) simp
next
  case (src_next f st sts s r)
  obtain st0 sts0 where at: "at = ([], st0 # sts0)" and q: "(st_items st, sts) = rename_point (callee_name p u) (st_items st0, sts0)"
    using rename_point_parts(2) [OF src_next.prems(3)] by blast
  show ?case unfolding at using src_next.IH [OF src_next.prems(1,2) q] by (subst tree_interp.simps) simp
next
  case (src_act it s s' sc f its sts q r)
  obtain it0 its0 sts0 where at: "at = (it0 # its0, sts0)" "it = rename_call (callee_name p u) it0"
    and q: "(its, sts) = rename_point (callee_name p u) (its0, sts0)"
    using rename_point_parts(3) [OF src_act.prems(3)] by blast
  obtain q0 where q0: "succ_point (snd u) (its0, sts0) sc = Some q0" "q = rename_point (callee_name p u) q0"
    using src_act.hyps(4) unfolding q src_act.prems(2) by auto
  show ?case unfolding at(1)
    using src_act.hyps(1-3) at(2) q0(1) src_act.IH [OF src_act.prems(1,2) q0(2)] by (subst tree_interp.simps) simp
next
  case (src_halt it s s' f its sts)
  obtain it0 its0 sts0 where at: "at = (it0 # its0, sts0)" "it = rename_call (callee_name p u) it0"
    using rename_point_parts(3) [OF src_halt.prems(3)] by blast
  show ?case unfolding at(1) using src_halt.hyps at(2) by (subst tree_interp.simps) simp
next
  case (src_fault it s e s' f its sts)
  obtain it0 its0 sts0 where at: "at = (it0 # its0, sts0)" "it = rename_call (callee_name p u) it0"
    using rename_point_parts(3) [OF src_fault.prems(3)] by blast
  show ?case unfolding at(1) using src_fault.hyps at(2) by (subst tree_interp.simps) simp
next
  case (src_call it n g s s' sc f its sts q r)
  obtain it0 its0 sts0 where at: "at = (it0 # its0, sts0)" "it = rename_call (callee_name p u) it0"
    and q: "(its, sts) = rename_point (callee_name p u) (its0, sts0)"
    using rename_point_parts(3) [OF src_call.prems(3)] by blast
  obtain n0 where n0: "item_callee it0 = Some n0" "n = callee_name p u n0" using src_call.hyps(1) at(2) by auto
  obtain g0 where g0: "tree_linked rest p n = Some g0" "g = flat_of p g0"
    using src_call.hyps(2) src_call.prems(1) by (auto simp: flat_linked)
  obtain q0 where q0: "succ_point (snd u) (its0, sts0) sc = Some q0" "q = rename_point (callee_name p u) q0"
    using src_call.hyps(5) unfolding q src_call.prems(2) by auto
  have "tree_interp D rest p g0 (src_entry (snd g0)) s = Some (Back s')"
    by (rule src_call.IH(1) [OF src_call.prems(1) g0(2)]) (simp add: g0(2))
  then show ?case unfolding at(1)
    using src_call.hyps(4) at(2) n0 g0(1) q0(1) src_call.IH(2) [OF src_call.prems(1,2) q0(2)]
    by (subst tree_interp.simps) simp
next
  case (src_call_ends it n g s r f its sts)
  obtain it0 its0 sts0 where at: "at = (it0 # its0, sts0)" "it = rename_call (callee_name p u) it0"
    using rename_point_parts(3) [OF src_call_ends.prems(3)] by blast
  obtain n0 where n0: "item_callee it0 = Some n0" "n = callee_name p u n0" using src_call_ends.hyps(1) at(2) by auto
  obtain g0 where g0: "tree_linked rest p n = Some g0" "g = flat_of p g0"
    using src_call_ends.hyps(2) src_call_ends.prems(1) by (auto simp: flat_linked)
  have "tree_interp D rest p g0 (src_entry (snd g0)) s = Some r"
    by (rule src_call_ends.IH [OF src_call_ends.prems(1) g0(2)]) (simp add: g0(2))
  then show ?case unfolding at(1)
    using src_call_ends.hyps(4) n0 g0(1) by (subst tree_interp.simps) (simp split: result.splits)
qed

lemma flat_tree_run: "src_run D (flat_link rest p) n s = tree_run D rest p n s"
proof -
  have same: "x = y" if "\<And>r. x = Some r \<longleftrightarrow> y = Some r" for x y :: "'a result option"
    using that by (metis not_Some_eq)
  have "src_interp D (flat_link rest p) (flat_of p g) (src_entry (flat_of p g)) s
      = tree_interp D rest p g (src_entry (snd g)) s" for g
  proof (rule same)
    fix r
    show "src_interp D (flat_link rest p) (flat_of p g) (src_entry (flat_of p g)) s = Some r
        \<longleftrightarrow> tree_interp D rest p g (src_entry (snd g)) s = Some r"
      unfolding src_interp_exec
      using tree_interp_flat [of D rest p g "src_entry (snd g)" s r] flat_tree_interp [OF _ refl refl flat_of_entry, of D rest p g s r]
      unfolding flat_of_entry by blast
  qed
  then show ?thesis by (simp add: src_run_def tree_run_def flat_linked split: option.split)
qed

text \<open>The flattened program runs as the tree does.\<close>

lemma flattened_run:
  assumes "program_ok p" "flatten p = Some fl"
  shows "src_run D (source_linked rest (pp_functions (fl_program fl))) n s = tree_run D rest p n s"
proof -
  have "fl_program fl = \<lparr>pp_functions = map (flat_fn (place_keys (pp_functions p)) (pp_imports p)) (places (pp_functions p)),
      pp_imports = pp_imports p\<rparr>" using flatten_program [OF assms(1)] assms(2) by auto
  then show ?thesis using flat_tree_run [of D rest p n s] by (simp add: flat_link_def)
qed

end
