(* ===== verification/Pmc_Pipeline.thy ===== *)
theory Pmc_Pipeline
  imports Codegen_Program Pmc_Tree_Semantics
begin

text \<open>
  The compiler from the syntax tree to assembly text, as \<open>compile\<close> in \<open>post-machine/src/compiler.rs\<close>
  composes it for one column: \<open>flatten\<close>, \<open>lower\<close>, \<open>optimize\<close>, \<open>emit_program\<close>. The labels the source declares stay
  apart on the way, and the properties of the stages compose.
\<close>

lemma distinct_part: "mset xs \<subseteq># mset ys \<Longrightarrow> distinct ys \<Longrightarrow> distinct (xs :: u32 list)"
proof -
  assume le: "mset xs \<subseteq># mset ys" and d: "distinct ys"
  define block where "block ls = \<lparr>b_id = 0, b_labels = ls, b_line = 0, b_ops = [], b_term = Return, b_term_line = 0\<rparr>" for ls
  define fn where "fn ls = \<lparr>fn_name = [], fn_line = 0, fn_blocks = [block ls], fn_local = False\<rparr>" for ls
  have "fn_labels (fn ls) = ls" for ls by (simp add: fn_labels_def fn_def block_def)
  then show "distinct xs" using no_new_labels_ok [of "fn ys" "fn xs"] le d
    by (simp add: no_new_labels_def labels_ok_def)
qed

lemma new_blocks_labels:
  "mset (concat (map b_labels (new_blocks lb ex zs))) \<subseteq># mset (body_labels (map fst zs))"
proof (induction zs)
  case (Cons z zs)
  then show ?case
    by (auto simp: fill_def new_block_def intro: subset_mset.add_mono subset_mset.add_increasing)
qed simp

lemma lowers_labels: "lowers f g \<Longrightarrow> labels_ok g"
  unfolding lowers_def
proof (elim disjE exE conjE)
  fix zs ex
  assume g: "lowered_as f zs ex g"
  then have d: "distinct (body_labels (map fst zs))" by (simp add: lowered_as_def body_ok_def)
  have "fn_labels g = concat (map b_labels (new_blocks (label_blocks zs Map.empty) ex zs))"
    using g by (auto simp: lowered_as_def fn_labels_def ir_function_of_def exit_block_def)
  then show "labels_ok g" unfolding labels_ok_def using distinct_part [OF new_blocks_labels d] by metis
qed (simp add: labels_ok_def fn_labels_def ir_function_of_def exit_block_def)

text \<open>What lowering hands to the optimizer.\<close>

lemma lowered_module:
  assumes "\<forall>f \<in> set (pp_functions p). body_ok (pf_body f)" "distinct (map pf_name (pp_functions p))"
    and "lower p = Some (Inr (ir, warnings))"
  shows "distinct (map fn_name (ir_functions ir))" "\<forall>g \<in> set (ir_functions ir). fn_ok g"
    and "module_labels_ok (ir_functions ir)"
proof -
  note low = lower_ok [OF assms(1,3)]
  have "map fn_name (ir_functions ir) = map pf_name (pp_functions p)"
    using low(1) by (induction rule: list_all2_induct) (simp_all add: lowers_name)
  then show "distinct (map fn_name (ir_functions ir))" using assms(2) by simp
  show "\<forall>g \<in> set (ir_functions ir). fn_ok g" by (rule low(2))
  show "module_labels_ok (ir_functions ir)"
    using low(1) by (induction rule: list_all2_induct) (auto simp: module_labels_ok_def lowers_labels)
qed

text \<open>The optimized module is one that code can be generated for.\<close>

lemma optimized_module:
  assumes "distinct (map fn_name (ir_functions ir))" "\<forall>g \<in> set (ir_functions ir). fn_ok g"
    and "module_labels_ok (ir_functions ir)" "optimize ir options snaps = Some (ir', snaps', report)"
  shows "\<forall>g \<in> set (ir_functions ir'). valid_fn g \<and> labels_ok g"
proof -
  have "equivalent infinite_device inf_store.coupled Map.empty ir ir'"
    by (rule optimize_equivalent [OF assms(1,2) inf_store.pipeline_good assms(4)])
  moreover have "module_labels_ok (ir_functions ir')" by (rule optimize_labels [OF assms(3,4)])
  ultimately show ?thesis by (auto simp: equivalent_def module_labels_ok_def fn_ok_def)
qed

lemma optimized_any_device:
  assumes "distinct (map fn_name (ir_functions ir))" "\<forall>g \<in> set (ir_functions ir). fn_ok g"
    and "optimize ir options snaps = Some (ir', snaps', report)"
    and "oo_level options = O0 \<or> set gated_pass_names \<subseteq> oo_disabled options"
  shows "run_fn D (linked rest (ir_functions ir')) n s = run_fn D (linked rest (ir_functions ir)) n s"
  using assms(4)
proof
  assume "oo_level options = O0"
  then have "ir' = ir" using assms(3) by (simp add: optimize_def)
  then show ?thesis by simp
next
  assume "set gated_pass_names \<subseteq> oo_disabled options"
  from optimize_equivalent [OF assms(1,2) gated_good [OF this] assms(3), of D rest]
  show ?thesis by (simp add: equivalent_def same_calls_def)
qed

lemma optimized_infinite_tape:
  assumes "distinct (map fn_name (ir_functions ir))" "\<forall>g \<in> set (ir_functions ir). fn_ok g"
    and "optimize ir options snaps = Some (ir', snaps', report)"
    and "it_ok (s_dev s)" "s_mf s = (it_read (s_dev s) = 1)"
  shows "run_fn infinite_device (linked rest (ir_functions ir')) n s
    = run_fn infinite_device (linked rest (ir_functions ir)) n s"
proof -
  have "inf_store.coupled s" using assms(4,5) by (simp add: inf_store.coupled_def)
  moreover have "equivalent infinite_device inf_store.coupled rest ir ir'"
    by (rule optimize_equivalent [OF assms(1,2) inf_store.pipeline_good assms(3)])
  ultimately show ?thesis by (simp add: equivalent_def same_calls_def)
qed

text \<open>
  C35: a compiled program does what its source says. Take a program as the parser delivers it, with
  nested and namespaced definitions; flatten it, lower it without an error, and optimize with any
  options. Then code generation does not fail, and its listing, linked with code generated from the
  lowering of anything else, behaves as the tree does when it is run in place, every call going to what
  the scope rule finds at its caller: every function, run on the infinite tape from any state with a
  latched match flag, ends the same way with the same tape, flag and observations, or diverges in both;
  and at \<open>-O0\<close>, or with the gated passes disabled as in a volatile build, this holds on every device,
  from every state.
\<close>

theorem compiled_behaves:
  assumes "program_ok p" "flatten p = Some fl"
    and "lower (fl_program fl) = Some (Inr (ir, warnings))" "optimize ir options snaps = Some (ir', snaps', report)"
    and "src_linked rest ir_rest" "generated_linked o' ir_rest asm_rest"
  shows "\<exists>xs. program_lines o' (ir_functions ir') = Some xs
    \<and> emit_program ir' o' = Some \<lparr>po_text = listing_text (map fst xs), po_line_map = source_lines 1 xs\<rparr>
    \<and> (oo_level options = O0 \<or> set gated_pass_names \<subseteq> oo_disabled options \<longrightarrow>
         pma_run D (pma_linked asm_rest (map fst xs)) n s = map_option (observed o' s) (tree_run D rest p n s))
    \<and> (it_ok (s_dev t) \<and> s_mf t = (it_read (s_dev t) = 1) \<longrightarrow>
         pma_run infinite_device (pma_linked asm_rest (map fst xs)) n t
           = map_option (observed o' t) (tree_run infinite_device rest p n t))"
proof -
  note flat = flattened_ok [OF assms(1,2)]
  note low = lowered_module [OF flat(1,2) assms(3)]
  note ok = optimized_module [OF low assms(4)]
  have src: "run_fn D (linked ir_rest (ir_functions ir)) n s = tree_run D rest p n s" for D :: "'z device" and s
    unfolding flattened_run [OF assms(1,2), symmetric]
    by (rule lowered_run) (rule lowers_linked [OF lower_ok(1) [OF flat(1) assms(3)] assms(5)])
  have valid: "\<forall>g \<in> set (ir_functions ir'). valid_fn g" using ok by blast
  obtain xs where xs: "program_lines o' (ir_functions ir') = Some xs" by (rule module_lines [OF valid])
  note run = module_run [OF ok assms(6) xs]
  show ?thesis
    using xs by (intro exI [of _ xs])
      (simp add: emit_program_lines run src optimized_any_device [OF low(1,2) assms(4)]
        optimized_infinite_tape [OF low(1,2) assms(4)])
qed

text \<open>
  A program in which the scope of a call matters: \<open>main\<close> calls its own nested \<open>f\<close>, which moves right and
  calls the nested \<open>g\<close> that marks, and not the \<open>f\<close> and the \<open>g\<close> beside \<open>main\<close>.
\<close>

definition nested_fn :: "string \<Rightarrow> item list \<Rightarrow> pmc_fn list \<Rightarrow> pmc_fn" where
  "nested_fn n its nested = PmcFn n 1 1 sp0 [ex_stmt [] its] (n = ''main'') False False nested [] None"

definition nested_call :: "string \<Rightarrow> item" where
  "nested_call n = CallItem n sp0 ToNext None None None 1"

definition nested_program :: pmc_program where
  "nested_program = \<lparr>pp_functions =
     [nested_fn ''main'' [nested_call ''f'', nested_call ''h'']
        [nested_fn ''f'' [BuiltinItem BRight ToNext None None None 1, nested_call ''g''] [],
         nested_fn ''g'' [BuiltinItem BMark ToNext None None None 1] []],
      nested_fn ''f'' [BuiltinItem BLeft ToNext None None None 1] [],
      nested_fn ''g'' [BuiltinItem BUnmark ToNext None None None 1] [],
      nested_fn ''h'' [nested_call ''f''] []],
     pp_imports = []\<rparr>"

definition nested_flat :: flattened where
  "nested_flat = the (flatten nested_program)"

definition nested_ir :: ir_program where
  "nested_ir = (case lower (fl_program nested_flat) of Some (Inr (ir, ws)) \<Rightarrow> ir | _ \<Rightarrow> \<lparr>ir_version = 0, ir_functions = []\<rparr>)"

definition ex_options :: opt_options where
  "ex_options = \<lparr>oo_level = O1, oo_disabled = {}, oo_capture = False, oo_inline_cap = None\<rparr>"

definition nested_optimized :: ir_program where
  "nested_optimized = fst (the (optimize nested_ir ex_options []))"

text \<open>The machine ends at the origin with the cell to its right marked.\<close>

lemma nested_tree_run:
  "(case tree_run infinite_device Map.empty nested_program ''main'' example_start of
      Some (Stops s) \<Rightarrow> it_read (s_dev s) = it_read (s_dev example_start) \<and> it_read (it_right (s_dev s)) = 1
    | _ \<Rightarrow> False)"
  by code_simp

theorem compiled_behaves_witness:
  "\<exists>xs s. program_lines keep_brk (ir_functions nested_optimized) = Some xs
    \<and> tree_run infinite_device Map.empty nested_program ''main'' example_start = Some (Stops s)
    \<and> it_read (it_right (s_dev s)) = 1
    \<and> pma_run infinite_device (pma_linked Map.empty (map fst xs)) ''main'' example_start
        = map_option (observed keep_brk example_start) (Some (Stops s))"
proof -
  have p: "program_ok nested_program" by code_simp
  have "flatten nested_program \<noteq> None" by code_simp
  then have fl: "flatten nested_program = Some nested_flat" by (simp add: nested_flat_def)
  have "case lower (fl_program nested_flat) of Some (Inr r) \<Rightarrow> True | _ \<Rightarrow> False" by code_simp
  then obtain ws where low: "lower (fl_program nested_flat) = Some (Inr (nested_ir, ws))"
    by (auto simp: nested_ir_def split: option.splits sum.splits)
  have "optimize nested_ir ex_options [] \<noteq> None" by code_simp
  then obtain snaps report where o: "optimize nested_ir ex_options [] = Some (nested_optimized, snaps, report)"
    by (auto simp: nested_optimized_def)
  have l: "src_linked Map.empty Map.empty" "generated_linked keep_brk Map.empty Map.empty"
    by (simp_all add: src_linked_def generated_linked_def)
  obtain s where s: "tree_run infinite_device Map.empty nested_program ''main'' example_start = Some (Stops s)"
    "it_read (it_right (s_dev s)) = 1"
    using nested_tree_run by (auto split: option.splits result.splits)
  have "s_mf example_start = (it_read (s_dev example_start) = 1)" by code_simp
  with example_start_ok have st: "it_ok (s_dev example_start) \<and> s_mf example_start = (it_read (s_dev example_start) = 1)" ..
  show ?thesis
    using compiled_behaves [OF p fl low o l, of infinite_device "''main''" example_start example_start] s st
    by auto
qed

end
