(* ===== verification/Asm_Source.thy ===== *)
theory Asm_Source
  imports Object_File Arch_Iface Diagnostics
begin

text \<open>
  What the assembler works on: the syntax tables an architecture supplies
  (\<open>crates/core/src/asm/syntax.rs\<close>), its errors (\<open>asm/mod.rs\<close>) and the lowered source, functions of
  classified items and file-scoped tables (\<open>asm/lower.rs\<close>). Names are UTF-8, as in the object they end in.
\<close>

section \<open>The tables of an architecture\<close>

datatype asm_flow = FallThrough | FlowStop | FlowJump | FlowBranch | FlowCall

record syntax_entry =
  se_opcode :: u8
  se_mnemonic :: string
  se_operand :: operand_kind
  se_flow :: asm_flow

record relax_pair =
  rp_far :: u8
  rp_short :: u8

record asm_caps =
  caps_tables :: bool
  caps_rept :: bool
  caps_vectors :: bool
  caps_volatile :: bool

record arch_syntax =
  as_entries :: "syntax_entry list"
  as_relax_pairs :: "relax_pair list"
  as_entry_opcode :: u8
  as_break_opcode :: "u8 option"
  as_trap_opcode :: "u8 option"
  as_caps :: asm_caps

definition by_mnemonic :: "arch_syntax \<Rightarrow> string \<Rightarrow> syntax_entry option" where
  "by_mnemonic sx m = find (\<lambda>e. se_mnemonic e = m) (as_entries sx)"

definition by_opcode :: "arch_syntax \<Rightarrow> u8 \<Rightarrow> syntax_entry option" where
  "by_opcode sx opc = find (\<lambda>e. se_opcode e = opc) (as_entries sx)"

definition short_of :: "arch_syntax \<Rightarrow> u8 \<Rightarrow> u8 option" where
  "short_of sx far = map_option rp_short (find (\<lambda>p. rp_far p = far) (as_relax_pairs sx))"

definition is_call :: "arch_syntax \<Rightarrow> u8 \<Rightarrow> bool" where
  "is_call sx opc = (case by_opcode sx opc of Some e \<Rightarrow> se_flow e = FlowCall | None \<Rightarrow> False)"

definition framed_call_opcode :: "arch_syntax \<Rightarrow> u8 option" where
  "framed_call_opcode sx = map_option se_opcode (find (\<lambda>e. se_operand e = KFramedCall) (as_entries sx))"

section \<open>Errors\<close>

datatype asm_error_kind =
    Syntax string
  | UnknownMnemonic utf8
  | OutsideFunction
  | DuplicateFunction utf8
  | DuplicateLabel utf8
  | UnknownLabel utf8
  | BadOperandText string
  | ShortOffsetOutOfRange utf8
  | EncodeError string
  | RawLine
  | BadRept
  | BadSubstitution utf8
  | BadVector string
  | BadTable string
  | TableDiscipline string
  | UnknownTableLabel utf8
  | BadSignature utf8
  | BadFrame utf8

record asm_error =
  ae_span :: span
  ae_kind :: asm_error_kind

definition asm_err :: "span \<Rightarrow> asm_error_kind \<Rightarrow> asm_error + 'a" where
  "asm_err sp k = Inl \<lparr>ae_span = sp, ae_kind = k\<rparr>"

text \<open>The bytes of an ASCII literal.\<close>

definition lit :: "string \<Rightarrow> utf8" where
  "lit s = map of_char s"

section \<open>The lowered source\<close>

record spanned_name =
  sn_name :: utf8
  sn_span :: span

datatype vec_elem = Payload u32 | Wildcard | Keep | ElemLeft | ElemRight | Stay

record source_tape_binding =
  sb_caller_tape :: u8
  sb_pairs :: "(u32 \<times> u32 \<times> bool) list"

datatype source_operand =
    SoNone
  | SoInts "int list"
  | SoName spanned_name
  | SoSymbolName spanned_name
  | SoVector "vec_elem list" span
  | SoImm u8
  | SoFramedCall spanned_name spanned_name
  | SoBoundCall spanned_name "source_tape_binding list"
  | SoWriteMove "vec_elem list" "vec_elem list" span

datatype source_item =
    InstrItem (si_span: span) (si_labels: "spanned_name list") u8 source_operand
  | RawByteItem (si_span: span) (si_labels: "spanned_name list") u8

record source_function =
  sf_name :: utf8
  sf_name_span :: span
  sf_local :: bool
  sf_volatile :: bool
  sf_items :: "source_item list"

record source_row =
  sr_elems :: "vec_elem list"
  sr_span :: span

record frame_tape_map =
  fm_k :: u8
  fm_rmap :: "u16 list"
  fm_wmap :: "u16 list"

datatype source_table =
    MatchTab (tab_name: spanned_name) "source_row list"
  | DispatchTab (tab_name: spanned_name) "spanned_name list"
  | FrameTab (tab_name: spanned_name) "u8 list" "frame_tape_map list" "spanned_name list"

record lowered_source =
  ls_functions :: "source_function list"
  ls_tables :: "source_table list"
  ls_signatures :: "routine_sig list option"
  ls_program_volatile :: bool

end
