(* ===== verification/Assembler.thy ===== *)
theory Assembler
  imports Asm_Source "HOL-Library.List_Lexorder" "HOL-Library.Product_Lexorder"
begin

text \<open>
  One function through the assembler (\<open>assemble_function\<close> of \<open>crates/core/src/asm/assembler.rs\<close>): its
  items are classified into slots, the jumps relaxed from short to far until every short one reaches
  its label, and the bytes emitted with relocations, table holes and debug lines. Addresses are \<open>u32\<close>.
  \<open>None\<close> is a panic: an opcode the syntax table does not have.
\<close>

section \<open>Symbols\<close>

type_synonym columns = "u32 option \<times> u32 option"

record symbol_index =
  six_defined :: "utf8 \<Rightarrow> columns option"
  six_external :: "utf8 \<Rightarrow> u32 option"

definition column_of :: "bool \<Rightarrow> columns \<Rightarrow> u32 option" where
  "column_of volatile c = (if volatile then snd c else fst c)"

definition bind_symbol :: "utf8 \<Rightarrow> bool \<Rightarrow> symbol list \<times> symbol_index \<Rightarrow> u32 \<times> symbol list \<times> symbol_index" where
  "bind_symbol n column = (\<lambda>(symbols, ix).
     (case Option.bind (six_defined ix n) (column_of column) of
        Some i \<Rightarrow> (i, symbols, ix)
      | None \<Rightarrow>
          (case six_external ix n of
             Some i \<Rightarrow> (i, symbols, ix)
           | None \<Rightarrow>
               (let symbols' = symbols @ [\<lparr>sym_name = n, sym_def = External\<rparr>];
                    i = of_nat (length symbols' - 1) in
                (i, symbols', ix\<lparr>six_external := (six_external ix)(n \<mapsto> i)\<rparr>)))))"

section \<open>Vectors\<close>

fun write_vector_element :: "vec_elem \<Rightarrow> string + u32" where
  "write_vector_element (Payload p) = (if p \<le> 0x7E then Inr p else Inl ''write payloads are at most 126'')"
| "write_vector_element Keep = Inr 0x7F"
| "write_vector_element _ = Inl ''move/wildcard element in a write vector''"

fun move_vector_element :: "vec_elem \<Rightarrow> string + u32" where
  "move_vector_element Stay = Inr 0"
| "move_vector_element ElemLeft = Inr 1"
| "move_vector_element ElemRight = Inr 2"
| "move_vector_element _ = Inl ''only `<`, `>`, `.` belong in a move vector''"

fun vocab_all :: "(vec_elem \<Rightarrow> string + u32) \<Rightarrow> span \<Rightarrow> vec_elem list \<Rightarrow> asm_error + u32 list" where
  "vocab_all f sp [] = Inr []"
| "vocab_all f sp (e # es) =
     (case f e of
        Inl m \<Rightarrow> asm_err sp (BadVector m)
      | Inr v \<Rightarrow> map_sum id (\<lambda>vs. v # vs) (vocab_all f sp es))"

section \<open>Slots\<close>

datatype slot =
    SFixed span "u8 list"
  | SJump span span u8 "u8 option" bool utf8
  | SCall span u8 utf8
  | STableRef span span u8 utf8
  | SFramedCall span u8 utf8 utf8 span
  | SBoundCall span u8 utf8 "tape_binding list"

definition wrong_width :: "u8 option \<Rightarrow> nat \<Rightarrow> bool" where
  "wrong_width sig n \<longleftrightarrow> (case sig of None \<Rightarrow> False | Some arity \<Rightarrow> n \<noteq> unat arity)"

definition width_error :: "span \<Rightarrow> asm_error + 'a" where
  "width_error sp = asm_err sp (BadVector ''vector width does not match the routine arity'')"

definition encoded_slot :: "span \<Rightarrow> u8 \<Rightarrow> operand \<Rightarrow> asm_error + slot" where
  "encoded_slot sp opc oper =
     (case encode_operand oper of Inl m \<Rightarrow> asm_err sp (EncodeError m) | Inr bs \<Rightarrow> Inr (SFixed sp (opc # bs)))"

definition vector_slot ::
  "u8 \<Rightarrow> span \<Rightarrow> span \<Rightarrow> vec_elem list \<Rightarrow> u8 option \<Rightarrow> (vec_elem \<Rightarrow> string + u32) \<Rightarrow> asm_error + slot" where
  "vector_slot opc sp vsp elems sig vocab =
     (if wrong_width sig (length elems) then width_error vsp
      else (case vocab_all vocab vsp elems of
              Inl e \<Rightarrow> Inl e
            | Inr vals \<Rightarrow> encoded_slot sp opc (OSymbols vals)))"

definition write_move_slot ::
  "u8 \<Rightarrow> span \<Rightarrow> span \<Rightarrow> vec_elem list \<Rightarrow> vec_elem list \<Rightarrow> u8 option \<Rightarrow> asm_error + slot" where
  "write_move_slot opc sp vsp ws ms sig =
     (if wrong_width sig (length ws) \<or> wrong_width sig (length ms) then width_error vsp
      else (case vocab_all write_vector_element vsp ws of
              Inl e \<Rightarrow> Inl e
            | Inr w \<Rightarrow> (case vocab_all move_vector_element vsp ms of
                Inl e \<Rightarrow> Inl e
              | Inr m \<Rightarrow> encoded_slot sp opc (OWriteMove w m))))"

definition source_binding_to_object :: "source_tape_binding \<Rightarrow> tape_binding" where
  "source_binding_to_object b =
     \<lparr>bind_caller_tape = sb_caller_tape b,
      bind_pairs = map (\<lambda>(s, d, o'). \<lparr>mp_src = s, mp_dst = d, mp_one_way = o'\<rparr>) (sb_pairs b)\<rparr>"

definition ints_slot :: "u8 \<Rightarrow> span \<Rightarrow> int list \<Rightarrow> u8 option \<Rightarrow> asm_error + slot" where
  "ints_slot opc sp ints sig =
     (if wrong_width sig (length ints) then width_error sp
      else if \<exists>i \<in> set ints. i < 0 \<or> i \<ge> 2 ^ 32 then asm_err sp (EncodeError ''negative symbol index'')
      else encoded_slot sp opc (OSymbols (map word_of_int ints)))"

definition symbol_jump_slot :: "syntax_entry \<Rightarrow> span \<Rightarrow> spanned_name \<Rightarrow> asm_error + slot" where
  "symbol_jump_slot e sp n =
     (case se_flow e of
        FlowCall \<Rightarrow> asm_err sp (BadOperandText ''call operands are already symbols; drop the `@`'')
      | FlowJump \<Rightarrow>
          if se_operand e = KRelI8 then asm_err sp (BadOperandText ''jmp.s width is linker-selected; write jmp @name'')
          else Inr (SCall (sn_span n) (se_opcode e) (sn_name n))
      | _ \<Rightarrow> asm_err sp (BadOperandText ''conditional jumps take labels, not symbols''))"

definition name_slot :: "arch_syntax \<Rightarrow> syntax_entry \<Rightarrow> span \<Rightarrow> spanned_name \<Rightarrow> asm_error + slot" where
  "name_slot sx e sp n =
     (let opc = se_opcode e in
      if is_call sx opc then
        (if se_operand e = KRelI8 then asm_err sp (BadOperandText ''call.s width is linker-selected; write call'')
         else Inr (SCall (sn_span n) opc (sn_name n)))
      else
        (case find (\<lambda>p. rp_short p = opc) (as_relax_pairs sx) of
           Some p \<Rightarrow> Inr (SJump sp (sn_span n) (rp_far p) (Some opc) True (sn_name n))
         | None \<Rightarrow> Inr (SJump sp (sn_span n) opc (short_of sx opc) False (sn_name n))))"

text \<open>One instruction, by the kind its opcode has and the operand it was written with.\<close>

definition instr_slot :: "arch_syntax \<Rightarrow> u8 option \<Rightarrow> syntax_entry \<Rightarrow> span \<Rightarrow> source_operand \<Rightarrow> asm_error + slot" where
  "instr_slot sx sig e sp oper =
     (let opc = se_opcode e; rel = (se_operand e = KRelI8 \<or> se_operand e = KRelI32);
          mismatch = asm_err sp (BadOperandText ''operand kind mismatch'') in
      case oper of
        SoNone \<Rightarrow> if se_operand e = KNone then Inr (SFixed sp [opc]) else mismatch
      | SoImm v \<Rightarrow> if se_operand e = KImm8 then Inr (SFixed sp [opc, v]) else mismatch
      | SoFramedCall target frame \<Rightarrow>
          if se_operand e = KFramedCall
          then Inr (SFramedCall sp opc (sn_name target) (sn_name frame) (sn_span frame)) else mismatch
      | SoBoundCall target binding \<Rightarrow>
          if rel then Inr (SBoundCall (sn_span target) opc (sn_name target) (map source_binding_to_object binding))
          else mismatch
      | SoInts ints \<Rightarrow> if se_operand e = KSymbolVec then ints_slot opc sp ints sig else mismatch
      | SoVector elems vsp \<Rightarrow>
          if se_operand e = KSymbolVec then vector_slot opc sp vsp elems sig write_vector_element
          else if se_operand e = KMoveVec then vector_slot opc sp vsp elems sig move_vector_element
          else mismatch
      | SoWriteMove ws ms vsp \<Rightarrow>
          if se_operand e = KWriteMoveVec then write_move_slot opc sp vsp ws ms sig else mismatch
      | SoSymbolName n \<Rightarrow> if rel then symbol_jump_slot e sp n else mismatch
      | SoName n \<Rightarrow>
          if se_operand e = KTableRef then Inr (STableRef sp (sn_span n) opc (sn_name n))
          else if rel then name_slot sx e sp n else mismatch)"

fun item_slot :: "arch_syntax \<Rightarrow> u8 option \<Rightarrow> source_item \<Rightarrow> (asm_error + slot) option" where
  "item_slot sx sig (RawByteItem sp ls v) = Some (Inr (SFixed sp [v]))"
| "item_slot sx sig (InstrItem sp ls opc oper) =
     map_option (\<lambda>e. instr_slot sx sig e sp oper) (by_opcode sx opc)"

text \<open>The labels in the order they were met, each with the index of its slot.\<close>

type_synonym label_slots = "(utf8 \<times> nat) list"

fun add_labels :: "spanned_name list \<Rightarrow> nat \<Rightarrow> label_slots \<Rightarrow> asm_error + label_slots" where
  "add_labels [] i ls = Inr ls"
| "add_labels (l # rest) i ls =
     (if sn_name l \<in> fst ` set ls then asm_err (sn_span l) (DuplicateLabel (sn_name l))
      else add_labels rest i (ls @ [(sn_name l, i)]))"

fun classify ::
  "arch_syntax \<Rightarrow> u8 option \<Rightarrow> source_item list \<Rightarrow> slot list \<Rightarrow> label_slots \<Rightarrow> (asm_error + slot list \<times> label_slots) option" where
  "classify sx sig [] slots ls = Some (Inr (slots, ls))"
| "classify sx sig (it # its) slots ls =
     (case add_labels (si_labels it) (length slots) ls of
        Inl e \<Rightarrow> Some (Inl e)
      | Inr ls' \<Rightarrow>
          (case item_slot sx sig it of
             None \<Rightarrow> None
           | Some (Inl e) \<Rightarrow> Some (Inl e)
           | Some (Inr s) \<Rightarrow> classify sx sig its (slots @ [s]) ls'))"

section \<open>Relaxation\<close>

text \<open>A flag per slot says whether a jump takes the far form; it means nothing for the other slots.\<close>

fun slot_size :: "slot \<Rightarrow> bool \<Rightarrow> u32" where
  "slot_size (SFixed sp bs) far = of_nat (length bs)"
| "slot_size (SJump sp tsp f s forced target) far = (if far then 5 else 2)"
| "slot_size (SFramedCall sp opc target frame fsp) far = 9"
| "slot_size _ far = 5"

fun starts :: "u32 \<Rightarrow> slot list \<Rightarrow> bool list \<Rightarrow> u32 list" where
  "starts addr (s # slots) (far # fars) = addr # starts (addr + slot_size s far) slots fars"
| "starts addr _ _ = []"

definition label_start :: "label_slots \<Rightarrow> u32 list \<Rightarrow> utf8 \<Rightarrow> span \<Rightarrow> asm_error + u32" where
  "label_start ls sts n sp =
     (case map_of ls n of Some i \<Rightarrow> Inr (sts ! i) | None \<Rightarrow> asm_err sp (UnknownLabel n))"

definition displacement :: "u32 \<Rightarrow> u32 \<Rightarrow> int" where
  "displacement target end_addr = uint target - uint end_addr"

definition fits_i8 :: "int \<Rightarrow> bool" where
  "fits_i8 off \<longleftrightarrow> - 128 \<le> off \<and> off \<le> 127"

text \<open>One pass over the slots, all distances taken from the layout at its beginning.\<close>

fun relax_slot :: "(utf8 \<Rightarrow> span \<Rightarrow> asm_error + u32) \<Rightarrow> slot \<Rightarrow> u32 \<Rightarrow> bool \<Rightarrow> asm_error + bool" where
  "relax_slot res (SJump sp tsp f s forced target) at False =
     (case res target tsp of
        Inl e \<Rightarrow> Inl e
      | Inr t \<Rightarrow>
          if fits_i8 (displacement t (at + 2)) then Inr False
          else if forced then asm_err tsp (ShortOffsetOutOfRange target) else Inr True)"
| "relax_slot res s at far = Inr far"

fun relax_pass ::
  "(utf8 \<Rightarrow> span \<Rightarrow> asm_error + u32) \<Rightarrow> slot list \<Rightarrow> u32 list \<Rightarrow> bool list \<Rightarrow> asm_error + bool list" where
  "relax_pass res (s # slots) (at # sts) (far # fars) =
     (case relax_slot res s at far of
        Inl e \<Rightarrow> Inl e
      | Inr f \<Rightarrow> map_sum id (\<lambda>fs. f # fs) (relax_pass res slots sts fars))"
| "relax_pass res _ _ _ = Inr []"

fun starts_far :: "slot \<Rightarrow> bool" where
  "starts_far (SJump sp tsp f s forced target) \<longleftrightarrow> s = None"
| "starts_far _ \<longleftrightarrow> True"

lemma relax_slot_grows: "relax_slot res s at far = Inr f \<Longrightarrow> far \<Longrightarrow> f"
  by (cases "(res, s, at, far)" rule: relax_slot.cases) auto

lemma relax_pass_grows:
  "relax_pass res slots sts fars = Inr fars' \<Longrightarrow>
     length fars' \<le> length fars \<and> (\<forall>i < length fars'. fars ! i \<longrightarrow> fars' ! i)"
proof (induction res slots sts fars arbitrary: fars' rule: relax_pass.induct)
  case (1 res s slots at sts far fars)
  obtain f fs where f: "relax_slot res s at far = Inr f" "relax_pass res slots sts fars = Inr fs" "fars' = f # fs"
    using "1.prems" by (cases "relax_pass res slots sts fars") (auto split: sum.splits)
  show ?case using "1.IH" [OF f(1,2)] relax_slot_grows [OF f(1)] f(3) by (auto simp: nth_Cons split: nat.split)
qed simp_all

definition short_count :: "bool list \<Rightarrow> nat" where
  "short_count fars = length fars + length (filter Not fars)"

lemma short_count_falls:
  assumes "length fars' \<le> length fars" "\<forall>i < length fars'. fars ! i \<longrightarrow> fars' ! i" "fars' \<noteq> fars"
  shows "short_count fars' < short_count fars"
  using assms
proof (induction fars' arbitrary: fars)
  case Nil
  then show ?case by (cases fars) (simp_all add: short_count_def)
next
  case (Cons f' fs')
  then obtain f fs where f: "fars = f # fs" by (cases fars) simp_all
  have "\<forall>i < length fs'. fs ! i \<longrightarrow> fs' ! i" "f \<longrightarrow> f'" using Cons.prems(2) f by force+
  then show ?case using Cons.IH [of fs] Cons.prems(1,3) f by (cases "fs' = fs") (auto simp: short_count_def)
qed

function relax :: "label_slots \<Rightarrow> slot list \<Rightarrow> bool list \<Rightarrow> asm_error + bool list" where
  "relax ls slots fars =
     (let sts = starts 1 slots fars in
      case relax_pass (label_start ls sts) slots sts fars of
        Inl e \<Rightarrow> Inl e
      | Inr fars' \<Rightarrow> if fars' = fars then Inr fars else relax ls slots fars')"
  by pat_completeness auto
termination
  by (relation "measure (\<lambda>(ls, slots, fars). short_count fars)")
    (auto dest: relax_pass_grows intro: short_count_falls)

declare relax.simps [simp del]

section \<open>Emission\<close>

record table_ref_hole =
  th_name :: utf8
  th_span :: span
  th_offset :: u32
  th_is_frame :: bool

record emitted =
  em_blob :: "u8 list"
  em_relocs :: "relocation list"
  em_bound :: "bound_call list"
  em_lines :: "(u32 \<times> u32) list"
  em_refs :: "table_ref_hole list"
  em_symbols :: "symbol list \<times> symbol_index"

fun slot_line :: "slot \<Rightarrow> u32" where
  "slot_line (SFixed sp bs) = pos_line (sp_start sp)"
| "slot_line (SJump sp tsp f s forced target) = pos_line (sp_start sp)"
| "slot_line (SCall sp opc n) = pos_line (sp_start sp)"
| "slot_line (STableRef sp nsp opc n) = pos_line (sp_start sp)"
| "slot_line (SFramedCall sp opc target frame fsp) = pos_line (sp_start sp)"
| "slot_line (SBoundCall sp opc target binding) = pos_line (sp_start sp)"

definition push_bytes :: "u8 list \<Rightarrow> emitted \<Rightarrow> emitted" where
  "push_bytes bs em = em\<lparr>em_blob := em_blob em @ bs\<rparr>"

definition blob_end :: "emitted \<Rightarrow> u32" where
  "blob_end em = of_nat (length (em_blob em))"

definition bind_target :: "utf8 \<Rightarrow> bool \<Rightarrow> emitted \<Rightarrow> u32 \<times> emitted" where
  "bind_target n column em =
     (let (i, symbols) = bind_symbol n column (em_symbols em) in (i, em\<lparr>em_symbols := symbols\<rparr>))"

text \<open>The four-byte holes: for a symbol, for a table.\<close>

definition symbol_hole :: "u32 \<Rightarrow> utf8 \<Rightarrow> bool \<Rightarrow> emitted \<Rightarrow> emitted" where
  "symbol_hole blob_idx n column em =
     (let (i, em) = bind_target n column em in
      push_bytes [0, 0, 0, 0]
        (em\<lparr>em_relocs := em_relocs em @ [\<lparr>rl_blob = blob_idx, rl_offset = blob_end em, rl_symbol = i\<rparr>]\<rparr>))"

definition table_hole :: "utf8 \<Rightarrow> span \<Rightarrow> bool \<Rightarrow> emitted \<Rightarrow> emitted" where
  "table_hole n sp is_frame em =
     push_bytes [0, 0, 0, 0]
       (em\<lparr>em_refs := em_refs em @ [\<lparr>th_name = n, th_span = sp, th_offset = blob_end em, th_is_frame = is_frame\<rparr>]\<rparr>)"

definition bound_hole :: "u32 \<Rightarrow> utf8 \<Rightarrow> bool \<Rightarrow> tape_binding list \<Rightarrow> emitted \<Rightarrow> emitted" where
  "bound_hole blob_idx n column binding em =
     (let (i, em) = bind_target n column em in
      push_bytes [0, 0, 0, 0]
        (em\<lparr>em_bound := em_bound em @ [\<lparr>bc_blob = blob_idx, bc_offset = blob_end em, bc_symbol = i, bc_binding = binding\<rparr>]\<rparr>))"

text \<open>The \<open>expect\<close> on the short opcode is the default of the \<open>case\<close>: a jump without one starts far.\<close>

definition jump_bytes :: "u8 \<Rightarrow> u8 option \<Rightarrow> bool \<Rightarrow> int \<Rightarrow> u8 list option" where
  "jump_bytes far_opc short far off =
     (if far then Some (far_opc # le_u32 (word_of_int off))
      else map_option (\<lambda>opc. [opc, word_of_int off]) short)"

fun emit_slot ::
  "label_slots \<Rightarrow> u32 list \<Rightarrow> u32 \<Rightarrow> bool \<Rightarrow> slot \<Rightarrow> u32 \<Rightarrow> bool \<Rightarrow> emitted \<Rightarrow> (asm_error + emitted) option" where
  "emit_slot ls sts blob_idx column (SFixed sp bs) at far em = Some (Inr (push_bytes bs em))"
| "emit_slot ls sts blob_idx column (SJump sp tsp f short forced target) at far em =
     (case label_start ls sts target tsp of
        Inl e \<Rightarrow> Some (Inl e)
      | Inr t \<Rightarrow>
          (let off = displacement t (at + slot_size (SJump sp tsp f short forced target) far) in
           map_option (\<lambda>bs. Inr (push_bytes bs em)) (jump_bytes f short far off)))"
| "emit_slot ls sts blob_idx column (SCall sp opc n) at far em =
     Some (Inr (symbol_hole blob_idx n column (push_bytes [opc] em)))"
| "emit_slot ls sts blob_idx column (STableRef sp nsp opc n) at far em =
     Some (Inr (table_hole n nsp False (push_bytes [opc] em)))"
| "emit_slot ls sts blob_idx column (SFramedCall sp opc target frame fsp) at far em =
     Some (Inr (table_hole frame fsp True (symbol_hole blob_idx target column (push_bytes [opc] em))))"
| "emit_slot ls sts blob_idx column (SBoundCall sp opc target binding) at far em =
     Some (Inr (bound_hole blob_idx target column binding (push_bytes [opc] em)))"

fun emit_slots ::
  "label_slots \<Rightarrow> u32 list \<Rightarrow> u32 \<Rightarrow> bool \<Rightarrow> slot list \<Rightarrow> u32 list \<Rightarrow> bool list \<Rightarrow> emitted \<Rightarrow> (asm_error + emitted) option" where
  "emit_slots ls sts blob_idx column (s # slots) (at # ats) (far # fars) em =
     (case emit_slot ls sts blob_idx column s at far (em\<lparr>em_lines := em_lines em @ [(at, slot_line s)]\<rparr>) of
        None \<Rightarrow> None
      | Some (Inl e) \<Rightarrow> Some (Inl e)
      | Some (Inr em') \<Rightarrow> emit_slots ls sts blob_idx column slots ats fars em')"
| "emit_slots ls sts blob_idx column _ _ _ em = Some (Inr em)"

text \<open>The labels sorted by address, then name.\<close>

definition sorted_labels :: "label_slots \<Rightarrow> u32 list \<Rightarrow> (utf8 \<times> u32) list" where
  "sorted_labels ls sts = sort_key (\<lambda>(n, a). (a, n)) (map (\<lambda>(n, i). (n, sts ! i)) ls)"

record assembled_function =
  af_blob :: "u8 list"
  af_relocs :: "relocation list"
  af_debug :: blob_debug
  af_refs :: "table_ref_hole list"
  af_bound :: "bound_call list"

definition assemble_function ::
  "arch_syntax \<Rightarrow> source_function \<Rightarrow> u32 \<Rightarrow> u8 option \<Rightarrow> symbol list \<times> symbol_index
     \<Rightarrow> (asm_error + assembled_function \<times> (symbol list \<times> symbol_index)) option" where
  "assemble_function sx f blob_idx sig symbols =
     (case classify sx sig (sf_items f) [] [] of
        None \<Rightarrow> None
      | Some (Inl e) \<Rightarrow> Some (Inl e)
      | Some (Inr (slots, ls)) \<Rightarrow>
          (case relax ls slots (map starts_far slots) of
             Inl e \<Rightarrow> Some (Inl e)
           | Inr fars \<Rightarrow>
               (let sts = starts 1 slots fars in
                case emit_slots ls sts blob_idx (sf_volatile f) slots sts fars
                       \<lparr>em_blob = [as_entry_opcode sx], em_relocs = [], em_bound = [], em_lines = [], em_refs = [],
                        em_symbols = symbols\<rparr> of
                  None \<Rightarrow> None
                | Some (Inl e) \<Rightarrow> Some (Inl e)
                | Some (Inr em) \<Rightarrow>
                    Some (Inr (\<lparr>af_blob = em_blob em, af_relocs = em_relocs em,
                        af_debug = \<lparr>bd_labels = sorted_labels ls sts, bd_lines = em_lines em\<rparr>,
                        af_refs = em_refs em, af_bound = em_bound em\<rparr>, em_symbols em)))))"

end
