(* ===== verification/Asm_Tables.thy ===== *)
theory Asm_Tables
  imports Assembler
begin

text \<open>
  The tables of an object (\<open>build_tables\<close> and what it calls in \<open>crates/core/src/asm/assembler.rs\<close>): the
  discipline of match rows, the attribution of every table to the one function that uses it, the bytes
  of match tables, dispatch tables and frame descriptors, and the fixups of the references to them.
  \<open>None\<close> is a panic. A set of blobs is an ascending list.
\<close>

section \<open>Match rows\<close>

datatype match_row_class = Exact "u32 list" | Partial | CatchAll

definition classify_match_row :: "u32 option list \<Rightarrow> match_row_class" where
  "classify_match_row cells =
     (let payloads = List.map_filter id cells in
      if None \<notin> set cells then Exact payloads else if payloads = [] then CatchAll else Partial)"

fun elem_cell :: "vec_elem \<Rightarrow> u32 option" where
  "elem_cell (Payload p) = Some p"
| "elem_cell _ = None"

text \<open>The rows after the first \<open>i\<close> of \<open>n\<close>, with what has been seen of them.\<close>

fun check_rows :: "nat \<Rightarrow> nat \<Rightarrow> bool \<Rightarrow> u32 list option \<Rightarrow> nat \<Rightarrow> source_row list \<Rightarrow> asm_error + unit" where
  "check_rows width n seen prev i [] = Inr ()"
| "check_rows width n seen prev i (r # rs) =
     (let bad = (\<lambda>m. asm_err (sr_span r) (TableDiscipline m)) in
      if length (sr_elems r) \<noteq> width then bad ''rows must all have the same width''
      else (case classify_match_row (map elem_cell (sr_elems r)) of
              Exact key \<Rightarrow>
                if seen then bad ''exact rows come before wildcard rows''
                else if (case prev of Some p \<Rightarrow> key \<le> p | None \<Rightarrow> False)
                  then bad ''exact rows must be sorted and pairwise disjoint''
                else check_rows width n seen (Some key) (i + 1) rs
            | Partial \<Rightarrow> check_rows width n True prev (i + 1) rs
            | CatchAll \<Rightarrow>
                if i + 1 \<noteq> n then bad ''the all-wildcard row must be last''
                else check_rows width n True prev (i + 1) rs))"

definition validate_match_discipline :: "spanned_name \<Rightarrow> source_row list \<Rightarrow> (asm_error + unit) option" where
  "validate_match_discipline name rows =
     (case rows of
        [] \<Rightarrow> None
      | r # _ \<Rightarrow>
          (let width = length (sr_elems r) in
           if width < 1 \<or> 16 < width then Some (asm_err (sr_span r) (TableDiscipline ''row width must be 1..=16''))
           else if length rows > 65535 then Some (asm_err (sn_span name) (TableDiscipline ''too many rows''))
           else Some (check_rows width (length rows) False None 0 rows)))"

fun validate_tables :: "source_table list \<Rightarrow> (asm_error + unit) option" where
  "validate_tables [] = Some (Inr ())"
| "validate_tables (MatchTab name rows # ts) =
     (case validate_match_discipline name rows of
        None \<Rightarrow> None
      | Some (Inl e) \<Rightarrow> Some (Inl e)
      | Some (Inr _) \<Rightarrow> validate_tables ts)"
| "validate_tables (_ # ts) = validate_tables ts"

section \<open>Attribution\<close>

definition table_index :: "source_table list \<Rightarrow> utf8 \<Rightarrow> nat option" where
  "table_index tables n = position n (map (\<lambda>t. sn_name (tab_name t)) tables)"

fun is_frame_table :: "source_table \<Rightarrow> bool" where
  "is_frame_table (FrameTab name tapes maps exits) \<longleftrightarrow> True"
| "is_frame_table _ \<longleftrightarrow> False"

definition insert_owner :: "nat \<Rightarrow> nat list \<Rightarrow> nat list" where
  "insert_owner b bs = (if b \<in> set bs then bs else insort b bs)"

fun owner_holes :: "source_table list \<Rightarrow> nat \<Rightarrow> table_ref_hole list \<Rightarrow> nat list list \<Rightarrow> asm_error + nat list list" where
  "owner_holes tables b [] owners = Inr owners"
| "owner_holes tables b (h # hs) owners =
     (case table_index tables (th_name h) of
        None \<Rightarrow> asm_err (th_span h) (UnknownTableLabel (th_name h))
      | Some ti \<Rightarrow>
          if th_is_frame h \<and> \<not> is_frame_table (tables ! ti) then
            asm_err (th_span h) (BadFrame (lit ''`call.m` frame operand `'' @ th_name h
              @ lit ''` must name a `.frame` descriptor''))
          else if \<not> th_is_frame h \<and> is_frame_table (tables ! ti) then
            asm_err (th_span h) (BadFrame (lit ''`'' @ th_name h
              @ lit ''` is a `.frame` descriptor; reference it with `call.m`, not a table operand''))
          else owner_holes tables b hs (owners[ti := insert_owner b (owners ! ti)]))"

fun ref_owners :: "source_table list \<Rightarrow> nat \<Rightarrow> table_ref_hole list list \<Rightarrow> nat list list \<Rightarrow> asm_error + nat list list" where
  "ref_owners tables b [] owners = Inr owners"
| "ref_owners tables b (hs # refs) owners =
     (case owner_holes tables b hs owners of
        Inl e \<Rightarrow> Inl e
      | Inr owners' \<Rightarrow> ref_owners tables (b + 1) refs owners')"

type_synonym blob_labels = "(utf8 \<times> u32) list"

definition has_label :: "utf8 \<Rightarrow> blob_labels \<Rightarrow> bool" where
  "has_label n ls \<longleftrightarrow> n \<in> fst ` set ls"

definition blobs_with :: "blob_labels list \<Rightarrow> utf8 \<Rightarrow> nat list" where
  "blobs_with labels n = filter (\<lambda>b. has_label n (labels ! b)) [0..<length labels]"

fun shared_blobs :: "blob_labels list \<Rightarrow> nat list option \<Rightarrow> spanned_name list \<Rightarrow> asm_error + nat list option" where
  "shared_blobs labels so_far [] = Inr so_far"
| "shared_blobs labels so_far (t # ts) =
     (let bs = blobs_with labels (sn_name t);
          next = (case so_far of None \<Rightarrow> bs | Some old \<Rightarrow> filter (\<lambda>b. b \<in> set bs) old) in
      if next = [] then asm_err (sn_span t) (UnknownTableLabel (sn_name t))
      else shared_blobs labels (Some next) ts)"

definition tied_error :: "spanned_name \<Rightarrow> asm_error + 'a" where
  "tied_error name = asm_err (sn_span name) (BadTable ''table is tied to more than one function'')"

definition missing_target :: "blob_labels \<Rightarrow> spanned_name list \<Rightarrow> spanned_name" where
  "missing_target ls targets =
     (case find (\<lambda>t. \<not> has_label (sn_name t) ls) targets of Some t \<Rightarrow> t | None \<Rightarrow> hd targets)"

fun dispatch_owner :: "blob_labels list \<Rightarrow> source_table \<Rightarrow> nat list \<Rightarrow> (asm_error + nat list) option" where
  "dispatch_owner labels (DispatchTab name targets) owners =
     (case shared_blobs labels None targets of
        Inl e \<Rightarrow> Some (Inl e)
      | Inr None \<Rightarrow> None
      | Inr (Some cands) \<Rightarrow>
          if owners = [] then Some (if length cands > 1 then tied_error name else Inr cands)
          else (case find (\<lambda>ow. ow \<notin> set cands) owners of
                  None \<Rightarrow> Some (Inr owners)
                | Some ow \<Rightarrow>
                    (let missing = missing_target (labels ! ow) targets in
                     Some (asm_err (sn_span missing) (UnknownTableLabel (sn_name missing))))))"
| "dispatch_owner labels _ owners = Some (Inr owners)"

fun dispatch_owners :: "blob_labels list \<Rightarrow> source_table list \<Rightarrow> nat list list \<Rightarrow> (asm_error + nat list list) option" where
  "dispatch_owners labels (t # ts) (o' # owners) =
     (case dispatch_owner labels t o' of
        None \<Rightarrow> None
      | Some (Inl e) \<Rightarrow> Some (Inl e)
      | Some (Inr o2) \<Rightarrow> map_option (map_sum id (\<lambda>os. o2 # os)) (dispatch_owners labels ts owners))"
| "dispatch_owners labels _ _ = Some (Inr [])"

fun single_owners :: "source_table list \<Rightarrow> nat list list \<Rightarrow> asm_error + nat list" where
  "single_owners (t # ts) (o' # owners) =
     (case o' of
        [b] \<Rightarrow> map_sum id (\<lambda>bs. b # bs) (single_owners ts owners)
      | [] \<Rightarrow> asm_err (sn_span (tab_name t)) (BadTable ''table is never referenced'')
      | _ \<Rightarrow> tied_error (tab_name t))"
| "single_owners _ _ = Inr []"

section \<open>The bytes of a table\<close>

fun row_byte :: "vec_elem \<Rightarrow> u8 option" where
  "row_byte (Payload p) = Some (ucast p)"
| "row_byte Wildcard = Some 0x7F"
| "row_byte _ = None"

definition match_bytes :: "source_row list \<Rightarrow> u8 list option" where
  "match_bytes rows =
     (case rows of
        [] \<Rightarrow> None
      | r # _ \<Rightarrow>
          map_option (\<lambda>cells. of_nat (length (sr_elems r)) # le_u16 (of_nat (length rows)) @ concat cells)
            (those (map (\<lambda>r. those (map row_byte (sr_elems r))) rows)))"

definition dispatch_bytes :: "blob_labels \<Rightarrow> spanned_name \<Rightarrow> spanned_name list \<Rightarrow> (asm_error + u8 list) option" where
  "dispatch_bytes ls name targets =
     (if length targets > 65535 then Some (asm_err (sn_span name) (BadTable ''too many dispatch targets''))
      else map_option (\<lambda>as. Inr (le_u16 (of_nat (length targets)) @ concat (map le_u32 as)))
             (those (map (\<lambda>t. map_of ls (sn_name t)) targets)))"

definition u16_list_bytes :: "u16 list \<Rightarrow> u8 list" where
  "u16_list_bytes ws = le_u16 (of_nat (length ws)) @ concat (map le_u16 ws)"

definition tape_map_bytes :: "frame_tape_map list \<Rightarrow> nat \<Rightarrow> u8 \<Rightarrow> u8 list" where
  "tape_map_bytes maps k phys =
     phys # (case find (\<lambda>m. unat (fm_k m) = k) maps of
               Some m \<Rightarrow> u16_list_bytes (fm_rmap m) @ u16_list_bytes (fm_wmap m)
             | None \<Rightarrow> u16_list_bytes [] @ u16_list_bytes [])"

fun exit_offsets :: "blob_labels \<Rightarrow> spanned_name list \<Rightarrow> asm_error + u32 list" where
  "exit_offsets ls [] = Inr []"
| "exit_offsets ls (x # xs) =
     (case map_of ls (sn_name x) of
        None \<Rightarrow> asm_err (sn_span x) (BadFrame (lit ''exit label `'' @ sn_name x @ lit ''` is not in the owning function''))
      | Some a \<Rightarrow> map_sum id (\<lambda>as. a # as) (exit_offsets ls xs))"

definition emit_frame_descriptor ::
  "u8 list \<Rightarrow> frame_tape_map list \<Rightarrow> spanned_name list \<Rightarrow> blob_labels \<Rightarrow> asm_error + u8 list" where
  "emit_frame_descriptor tapes maps exits ls =
     (if length exits > 65535 then asm_err (sn_span (hd exits)) (BadFrame (lit ''too many frame exits''))
      else map_sum id
        (\<lambda>as. of_nat (length tapes) # le_u16 (of_nat (length exits))
           @ concat (map (\<lambda>(k, phys). tape_map_bytes maps k phys) (enumerate 0 tapes)) @ concat (map le_u32 as))
        (exit_offsets ls exits))"

fun table_bytes :: "blob_labels \<Rightarrow> source_table \<Rightarrow> (asm_error + u8 list) option" where
  "table_bytes ls (MatchTab name rows) = map_option Inr (match_bytes rows)"
| "table_bytes ls (DispatchTab name targets) = dispatch_bytes ls name targets"
| "table_bytes ls (FrameTab name tapes maps exits) = Some (emit_frame_descriptor tapes maps exits ls)"

text \<open>The tables in source order, each appended to the table blob of its owner.\<close>

fun place_tables ::
  "blob_labels list \<Rightarrow> source_table list \<Rightarrow> nat list \<Rightarrow> u8 list list \<Rightarrow> (asm_error + u8 list list \<times> u32 list) option" where
  "place_tables labels (t # ts) (b # bs) blobs =
     (case table_bytes (labels ! b) t of
        None \<Rightarrow> None
      | Some (Inl e) \<Rightarrow> Some (Inl e)
      | Some (Inr bytes) \<Rightarrow>
          map_option (map_sum id (\<lambda>(blobs', offsets). (blobs', of_nat (length (blobs ! b)) # offsets)))
            (place_tables labels ts bs (blobs[b := blobs ! b @ bytes])))"
| "place_tables labels _ _ blobs = Some (Inr (blobs, []))"

section \<open>Fixups\<close>

definition patch :: "u8 list \<Rightarrow> nat \<Rightarrow> u32 \<Rightarrow> u8 list option" where
  "patch blob at w = (if at + 4 \<le> length blob then Some (take at blob @ le_u32 w @ drop (at + 4) blob) else None)"

fun fix_holes ::
  "source_table list \<Rightarrow> u32 list \<Rightarrow> nat \<Rightarrow> table_ref_hole list \<Rightarrow> u8 list \<Rightarrow> (u8 list \<times> table_fixup list) option" where
  "fix_holes tables offsets b [] blob = Some (blob, [])"
| "fix_holes tables offsets b (h # hs) blob =
     Option.bind (table_index tables (th_name h)) (\<lambda>ti.
       Option.bind (patch blob (unat (th_offset h)) (offsets ! ti)) (\<lambda>blob'.
         map_option
           (\<lambda>(blob2, fxs). (blob2, \<lparr>fx_blob = of_nat b, fx_offset = th_offset h, fx_table_offset = offsets ! ti\<rparr> # fxs))
           (fix_holes tables offsets b hs blob')))"

fun fix_blobs ::
  "source_table list \<Rightarrow> u32 list \<Rightarrow> nat \<Rightarrow> table_ref_hole list list \<Rightarrow> u8 list list \<Rightarrow> (u8 list list \<times> table_fixup list) option" where
  "fix_blobs tables offsets b (hs # refs) (blob # blobs) =
     Option.bind (fix_holes tables offsets b hs blob) (\<lambda>(blob', fxs).
       map_option (\<lambda>(blobs', fxs'). (blob' # blobs', fxs @ fxs')) (fix_blobs tables offsets (b + 1) refs blobs))"
| "fix_blobs tables offsets b _ blobs = Some (blobs, [])"

text \<open>The patched blobs, the table blobs, the fixups.\<close>

definition build_tables ::
  "source_table list \<Rightarrow> table_ref_hole list list \<Rightarrow> blob_labels list \<Rightarrow> u8 list list
     \<Rightarrow> (asm_error + u8 list list \<times> u8 list list \<times> table_fixup list) option" where
  "build_tables tables refs labels blobs =
     (case validate_tables tables of
        None \<Rightarrow> None
      | Some (Inl e) \<Rightarrow> Some (Inl e)
      | Some (Inr _) \<Rightarrow>
     (case ref_owners tables 0 refs (map (\<lambda>_. []) tables) of
        Inl e \<Rightarrow> Some (Inl e)
      | Inr owners \<Rightarrow>
     (case dispatch_owners labels tables owners of
        None \<Rightarrow> None
      | Some (Inl e) \<Rightarrow> Some (Inl e)
      | Some (Inr owners') \<Rightarrow>
     (case single_owners tables owners' of
        Inl e \<Rightarrow> Some (Inl e)
      | Inr bs \<Rightarrow>
     (case place_tables labels tables bs (map (\<lambda>_. []) blobs) of
        None \<Rightarrow> None
      | Some (Inl e) \<Rightarrow> Some (Inl e)
      | Some (Inr (table_blobs, offsets)) \<Rightarrow>
          map_option (\<lambda>(blobs', fxs). Inr (blobs', table_blobs, fxs)) (fix_blobs tables offsets 0 refs blobs))))))"

end
