(* ===== verification/Asm_Object.thy ===== *)
theory Asm_Object
  imports Asm_Tables
begin

text \<open>
  From assembled functions to an object (\<open>assemble_lowered\<close> and \<open>merge_columns\<close> of
  \<open>crates/core/src/asm/assembler.rs\<close>). A file without build variants becomes one blob per function, with
  the tables its functions use; in a file with \<open>.volatile\<close> functions the two columns of a name become one
  blob when nothing tells them apart, transitively. \<open>None\<close> is a panic.
\<close>

section \<open>The two build columns\<close>

type_synonym site = "u32 \<times> utf8 \<times> bool"

definition block_sites :: "symbol list \<Rightarrow> relocation list \<Rightarrow> nat \<Rightarrow> site list" where
  "block_sites symbols relocs b =
     sort_key fst
       (map (\<lambda>r. let s = symbols ! unat (rl_symbol r) in (rl_offset r, sym_name s, sym_def s = External))
         (filter (\<lambda>r. unat (rl_blob r) = b) relocs))"

definition name_order :: "source_function list \<Rightarrow> utf8 list" where
  "name_order fs = rev (remdups (rev (map sf_name fs)))"

text \<open>The block of a name in a column: the last one written.\<close>

definition column_block :: "source_function list \<Rightarrow> utf8 \<Rightarrow> bool \<Rightarrow> nat option" where
  "column_block fs n c =
     map_option fst (find (\<lambda>(b, f). sf_name f = n \<and> sf_volatile f = c) (rev (enumerate 0 fs)))"

definition same_record :: "u8 list list \<Rightarrow> (nat \<Rightarrow> site list) \<Rightarrow> nat \<Rightarrow> nat \<Rightarrow> bool" where
  "same_record blobs sites n v \<longleftrightarrow>
     blobs ! n = blobs ! v
     \<and> map (\<lambda>(off, callee, ext). (off, callee)) (sites n) = map (\<lambda>(off, callee, ext). (off, callee)) (sites v)"

definition dedup_candidates :: "source_function list \<Rightarrow> u8 list list \<Rightarrow> (nat \<Rightarrow> site list) \<Rightarrow> utf8 list" where
  "dedup_candidates fs blobs sites =
     filter (\<lambda>n. case (column_block fs n False, column_block fs n True) of
         (Some a, Some b) \<Rightarrow> same_record blobs sites a b
       | _ \<Rightarrow> False) (name_order fs)"

definition calls_a_split :: "source_function list \<Rightarrow> (nat \<Rightarrow> site list) \<Rightarrow> utf8 list \<Rightarrow> utf8 \<Rightarrow> bool" where
  "calls_a_split fs sites dd n =
     (case column_block fs n False of
        None \<Rightarrow> False
      | Some b \<Rightarrow> \<exists>(off, callee, ext) \<in> set (sites b). callee \<in> sf_name ` set fs \<and> callee \<notin> set dd)"

text \<open>A pass demotes names one by one, the later ones knowing of the earlier.\<close>

fun demote_pass :: "source_function list \<Rightarrow> (nat \<Rightarrow> site list) \<Rightarrow> utf8 list \<Rightarrow> utf8 list \<Rightarrow> utf8 list" where
  "demote_pass fs sites [] dd = dd"
| "demote_pass fs sites (n # ns) dd =
     (if n \<in> set dd \<and> calls_a_split fs sites dd n then demote_pass fs sites ns (filter (\<lambda>m. m \<noteq> n) dd)
      else demote_pass fs sites ns dd)"

lemma demote_pass_length:
  "length (demote_pass fs sites ns dd) \<le> length dd"
  by (induction fs sites ns dd rule: demote_pass.induct) (auto intro: order_trans [OF _ length_filter_le])

lemma demote_pass_less:
  "demote_pass fs sites ns dd \<noteq> dd \<Longrightarrow> length (demote_pass fs sites ns dd) < length dd"
proof (induction fs sites ns dd rule: demote_pass.induct)
  case (2 fs sites n ns dd)
  show ?case
  proof (cases "n \<in> set dd \<and> calls_a_split fs sites dd n")
    case True
    then have "length (filter (\<lambda>m. m \<noteq> n) dd) < length dd" by (auto intro: length_filter_less)
    then show ?thesis using True demote_pass_length [of fs sites ns "filter (\<lambda>m. m \<noteq> n) dd"] by simp
  next
    case False
    then have "demote_pass fs sites (n # ns) dd = demote_pass fs sites ns dd" by auto
    then show ?thesis using "2.IH"(2) [OF False] "2.prems" by simp
  qed
qed simp

function demote :: "source_function list \<Rightarrow> (nat \<Rightarrow> site list) \<Rightarrow> utf8 list \<Rightarrow> utf8 list" where
  "demote fs sites dd =
     (let dd' = demote_pass fs sites (name_order fs) dd in if dd' = dd then dd else demote fs sites dd')"
  by pat_completeness auto
termination
  by (relation "measure (\<lambda>(fs, sites, dd). length dd)") (auto intro: demote_pass_less)

declare demote.simps [simp del]

text \<open>The emitted blobs: the name, the block it comes from, its tag.\<close>

definition emitted_of :: "source_function list \<Rightarrow> utf8 list \<Rightarrow> utf8 \<Rightarrow> (utf8 \<times> nat \<times> blob_variant) list" where
  "emitted_of fs dd n =
     (let tagged = (\<lambda>c tag. case column_block fs n c of Some b \<Rightarrow> [(n, b, tag)] | None \<Rightarrow> []) in
      if n \<in> set dd then tagged False Both else tagged False Normal @ tagged True Volatile)"

definition emitted_blocks :: "source_function list \<Rightarrow> utf8 list \<Rightarrow> (utf8 \<times> nat \<times> blob_variant) list" where
  "emitted_blocks fs dd = concat (map (emitted_of fs dd) (name_order fs))"

definition in_column :: "bool \<Rightarrow> blob_variant \<Rightarrow> bool" where
  "in_column c tag \<longleftrightarrow> tag = Both \<or> tag = (if c then Volatile else Normal)"

text \<open>The emitted blob, and so the symbol, that stands for a name in a column.\<close>

definition column_symbol :: "(utf8 \<times> nat \<times> blob_variant) list \<Rightarrow> utf8 \<Rightarrow> bool \<Rightarrow> nat option" where
  "column_symbol es n c =
     map_option fst (find (\<lambda>(i, m, b, tag). m = n \<and> in_column c tag) (enumerate 0 es))"

definition merged_symbol :: "source_function list \<Rightarrow> nat \<times> utf8 \<times> nat \<times> blob_variant \<Rightarrow> symbol" where
  "merged_symbol fs = (\<lambda>(i, n, b, tag).
     \<lparr>sym_name = n, sym_def = (if sf_local (fs ! b) then Local (of_nat i) else Defined (of_nat i))\<rparr>)"

text \<open>The relocations of the merged blobs; externals are made again in the order of first reference.\<close>

fun merge_sites ::
  "(utf8 \<times> nat \<times> blob_variant) list \<Rightarrow> nat \<Rightarrow> bool \<Rightarrow> site list \<Rightarrow> symbol list \<times> (utf8 \<Rightarrow> u32 option)
     \<Rightarrow> (relocation list \<times> symbol list \<times> (utf8 \<Rightarrow> u32 option)) option" where
  "merge_sites es i c [] st = Some ([], st)"
| "merge_sites es i c ((off, callee, ext) # ss) (symbols, externals) =
     (let found =
        (if ext then
           (case externals callee of
              Some k \<Rightarrow> Some (k, symbols, externals)
            | None \<Rightarrow>
                (let k = of_nat (length symbols) in
                 Some (k, symbols @ [\<lparr>sym_name = callee, sym_def = External\<rparr>], externals(callee \<mapsto> k))))
         else map_option (\<lambda>k. (of_nat k, symbols, externals)) (column_symbol es callee c)) in
      Option.bind found (\<lambda>(k, st).
        map_option (\<lambda>(rs, st'). (\<lparr>rl_blob = of_nat i, rl_offset = off, rl_symbol = k\<rparr> # rs, st'))
          (merge_sites es i c ss st)))"

fun merge_blocks ::
  "source_function list \<Rightarrow> (nat \<Rightarrow> site list) \<Rightarrow> (utf8 \<times> nat \<times> blob_variant) list \<Rightarrow> nat
     \<Rightarrow> (utf8 \<times> nat \<times> blob_variant) list \<Rightarrow> symbol list \<times> (utf8 \<Rightarrow> u32 option) \<Rightarrow> (relocation list \<times> symbol list) option" where
  "merge_blocks fs sites es i [] st = Some ([], fst st)"
| "merge_blocks fs sites es i ((n, b, tag) # rest) st =
     Option.bind (merge_sites es i (sf_volatile (fs ! b)) (sites b) st) (\<lambda>(rs, st').
       map_option (\<lambda>(rs', symbols). (rs @ rs', symbols)) (merge_blocks fs sites es (i + 1) rest st'))"

record merged =
  mg_symbols :: "symbol list"
  mg_blobs :: "u8 list list"
  mg_relocs :: "relocation list"
  mg_debug :: "blob_debug list option"
  mg_variants :: "blob_variant list"

definition merge_columns ::
  "source_function list \<Rightarrow> symbol list \<Rightarrow> u8 list list \<Rightarrow> relocation list \<Rightarrow> blob_debug list option \<Rightarrow> merged option" where
  "merge_columns fs symbols blobs relocs debug =
     (let sites = block_sites symbols relocs;
          dd = demote fs sites (dedup_candidates fs blobs sites);
          es = emitted_blocks fs dd in
      map_option
        (\<lambda>(relocs', symbols'). \<lparr>mg_symbols = symbols', mg_blobs = map (\<lambda>(n, b, tag). blobs ! b) es, mg_relocs = relocs',
           mg_debug = map_option (\<lambda>ds. map (\<lambda>(n, b, tag). ds ! b) es) debug, mg_variants = map (\<lambda>(n, b, tag). tag) es\<rparr>)
        (merge_blocks fs sites es 0 es (map (merged_symbol fs) (enumerate 0 es), Map.empty)))"

section \<open>The object\<close>

definition function_symbols :: "source_function list \<Rightarrow> symbol list" where
  "function_symbols fs =
     map (\<lambda>(i, f). \<lparr>sym_name = sf_name f, sym_def = (if sf_local f then Local (of_nat i) else Defined (of_nat i))\<rparr>)
       (enumerate 0 fs)"

fun define_all :: "nat \<Rightarrow> source_function list \<Rightarrow> (utf8 \<Rightarrow> columns option) \<Rightarrow> (utf8 \<Rightarrow> columns option)" where
  "define_all i [] m = m"
| "define_all i (f # fs) m =
     (let old = (case m (sf_name f) of Some c \<Rightarrow> c | None \<Rightarrow> (None, None)) in
      define_all (i + 1) fs
        (m(sf_name f \<mapsto> (if sf_volatile f then (fst old, Some (of_nat i)) else (Some (of_nat i), snd old)))))"

fun assemble_functions ::
  "arch_syntax \<Rightarrow> routine_sig list option \<Rightarrow> nat \<Rightarrow> source_function list \<Rightarrow> symbol list \<times> symbol_index
     \<Rightarrow> (asm_error + assembled_function list \<times> (symbol list \<times> symbol_index)) option" where
  "assemble_functions sx sigs b [] syms = Some (Inr ([], syms))"
| "assemble_functions sx sigs b (f # fs) syms =
     (case assemble_function sx f (of_nat b) (map_option (\<lambda>ss. sig_arity (ss ! b)) sigs) syms of
        None \<Rightarrow> None
      | Some (Inl e) \<Rightarrow> Some (Inl e)
      | Some (Inr (af, syms')) \<Rightarrow>
          map_option (map_sum id (\<lambda>(afs, s). (af # afs, s))) (assemble_functions sx sigs (b + 1) fs syms'))"

definition refuse_tables :: "source_function list \<Rightarrow> (asm_error + 'a) option" where
  "refuse_tables fs =
     map_option (\<lambda>f. asm_err (sf_name_span f) (Syntax ''`.volatile` does not combine with tables or signatures''))
       (find sf_volatile fs)"

text \<open>The object of a file without tables and without variants.\<close>

definition plain_object ::
  "u8 \<Rightarrow> lowered_source \<Rightarrow> symbol list \<Rightarrow> assembled_function list \<Rightarrow> bool \<Rightarrow> object_file" where
  "plain_object arch src symbols afs with_debug =
     (object_v2 arch symbols (map af_blob afs) (concat (map af_relocs afs))
        (if with_debug then Some (map af_debug afs) else None))
     \<lparr>ob_program_volatile := ls_program_volatile src\<rparr>"

definition finish_object :: "lowered_source \<Rightarrow> assembled_function list \<Rightarrow> object_file \<Rightarrow> (asm_error + object_file) option" where
  "finish_object src afs ob =
     (let done = (\<lambda>ob. ob\<lparr>ob_signatures := ls_signatures src, ob_bound_calls := concat (map af_bound afs)\<rparr>) in
      if ls_tables src \<noteq> [] \<or> (\<exists>af \<in> set afs. af_refs af \<noteq> []) then
        map_option
          (map_sum id (\<lambda>(blobs, table_blobs, fixups).
             done (ob\<lparr>ob_blobs := blobs, ob_table_blobs := Some table_blobs, ob_table_fixups := fixups\<rparr>)))
          (build_tables (ls_tables src) (map af_refs afs) (map (\<lambda>af. bd_labels (af_debug af)) afs) (ob_blobs ob))
      else Some (Inr (done ob)))"

definition merged_object :: "merged \<Rightarrow> object_file \<Rightarrow> object_file" where
  "merged_object mg ob = ob\<lparr>ob_symbols := mg_symbols mg, ob_blobs := mg_blobs mg, ob_relocations := mg_relocs mg,
     ob_debug := mg_debug mg, ob_variants := Some (mg_variants mg)\<rparr>"

definition assemble_lowered :: "arch_syntax \<Rightarrow> u8 \<Rightarrow> lowered_source \<Rightarrow> bool \<Rightarrow> (asm_error + object_file) option" where
  "assemble_lowered sx arch src with_debug =
     (let fs = ls_functions src; tagged = (\<exists>f \<in> set fs. sf_volatile f) in
      if tagged \<and> (ls_tables src \<noteq> [] \<or> ls_signatures src \<noteq> None) then refuse_tables fs
      else
        (case assemble_functions sx (ls_signatures src) 0 fs
                (function_symbols fs, \<lparr>six_defined = define_all 0 fs Map.empty, six_external = Map.empty\<rparr>) of
           None \<Rightarrow> None
         | Some (Inl e) \<Rightarrow> Some (Inl e)
         | Some (Inr (afs, (symbols, ix))) \<Rightarrow>
             (let ob = plain_object arch src symbols afs with_debug in
              if tagged then
                (if concat (map af_bound afs) \<noteq> [] \<or> (\<exists>af \<in> set afs. af_refs af \<noteq> []) then refuse_tables fs
                 else Option.bind (merge_columns fs symbols (ob_blobs ob) (ob_relocations ob) (ob_debug ob))
                        (\<lambda>mg. finish_object src afs (merged_object mg ob)))
              else finish_object src afs ob)))"

end
