(* ===== verification/Asm_Tables_Correct.thy ===== *)
theory Asm_Tables_Correct
  imports Asm_Tables Frames
begin

text \<open>
  What \<open>build_tables\<close> achieves: every reference leads to a table of its own function, the table is found at
  the offset written into the code, and the table engine of the machine reads from it what the source
  says, the first matching row, the address of the selected label, the frame.
\<close>

section \<open>Attribution\<close>

lemma insert_owner_set [simp]: "set (insert_owner b bs) = insert b (set bs)"
  by (auto simp: insert_owner_def set_insort_key)

lemma position_nth: "position s xs = Some i \<Longrightarrow> i < length xs \<and> xs ! i = s"
  by (induction xs arbitrary: i) (auto split: if_splits)

lemma table_index_lt: "table_index tables n = Some ti \<Longrightarrow> ti < length tables"
  using position_nth [of n "map (\<lambda>t. sn_name (tab_name t)) tables" ti] by (simp add: table_index_def)

definition hole_owned :: "source_table list \<Rightarrow> nat list list \<Rightarrow> nat \<Rightarrow> table_ref_hole \<Rightarrow> bool" where
  "hole_owned tables owners b h \<longleftrightarrow>
     (\<exists>ti. table_index tables (th_name h) = Some ti \<and> b \<in> set (owners ! ti) \<and> th_is_frame h = is_frame_table (tables ! ti))"

definition owners_grow :: "nat list list \<Rightarrow> nat list list \<Rightarrow> bool" where
  "owners_grow os os' \<longleftrightarrow> length os' = length os \<and> (\<forall>ti < length os. set (os ! ti) \<subseteq> set (os' ! ti))"

lemma hole_owned_grow:
  "hole_owned tables os b h \<Longrightarrow> owners_grow os os' \<Longrightarrow> length os = length tables \<Longrightarrow> hole_owned tables os' b h"
  unfolding hole_owned_def owners_grow_def using table_index_lt by (metis subsetD)

lemma owner_holes_ok:
  assumes "owner_holes tables b hs owners = Inr owners'" "length owners = length tables"
  shows "owners_grow owners owners' \<and> (\<forall>h \<in> set hs. hole_owned tables owners' b h)
    \<and> (\<forall>ti < length tables. set (owners' ! ti) \<subseteq> insert b (set (owners ! ti)))"
  using assms
proof (induction tables b hs owners rule: owner_holes.induct)
  case (1 tables b owners)
  then show ?case by (auto simp: owners_grow_def)
next
  case (2 tables b h hs owners)
  obtain ti where ti: "table_index tables (th_name h) = Some ti" "th_is_frame h = is_frame_table (tables ! ti)"
    and r: "owner_holes tables b hs (owners[ti := insert_owner b (owners ! ti)]) = Inr owners'"
    using "2.prems"(1) by (auto simp: asm_err_def split: option.splits if_splits)
  let ?os = "owners[ti := insert_owner b (owners ! ti)]"
  have lt: "ti < length owners" using table_index_lt [OF ti(1)] "2.prems"(2) by simp
  have cond: "\<not> (th_is_frame h \<and> \<not> is_frame_table (tables ! ti))" "\<not> (\<not> th_is_frame h \<and> is_frame_table (tables ! ti))"
    using ti(2) by auto
  note ih = "2.IH" [OF ti(1) cond r]
  have g: "owners_grow owners ?os" using lt by (auto simp: owners_grow_def nth_list_update)
  have "hole_owned tables ?os b h" using ti lt by (auto simp: hole_owned_def)
  moreover have ih': "owners_grow ?os owners' \<and> (\<forall>h \<in> set hs. hole_owned tables owners' b h)
    \<and> (\<forall>ti < length tables. set (owners' ! ti) \<subseteq> insert b (set (?os ! ti)))" using ih "2.prems"(2) by simp
  moreover have "owners_grow owners owners'" using g ih' unfolding owners_grow_def by (metis subset_trans)
  moreover have "set (?os ! tj) \<subseteq> insert b (set (owners ! tj))" if "tj < length tables" for tj
    using that lt by (auto simp: nth_list_update)
  ultimately show ?case using hole_owned_grow [of tables ?os b h owners'] "2.prems"(2) by auto blast
qed

lemma ref_owners_ok:
  assumes "ref_owners tables b refs owners = Inr owners'" "length owners = length tables"
  shows "owners_grow owners owners' \<and> (\<forall>i < length refs. \<forall>h \<in> set (refs ! i). hole_owned tables owners' (b + i) h)
    \<and> (\<forall>ti < length tables. set (owners' ! ti) \<subseteq> set (owners ! ti) \<union> {b..<b + length refs})"
  using assms
proof (induction tables b refs owners rule: ref_owners.induct)
  case (1 tables b owners)
  then show ?case by (auto simp: owners_grow_def)
next
  case (2 tables b hs refs owners)
  obtain os where o1: "owner_holes tables b hs owners = Inr os" and o2: "ref_owners tables (b + 1) refs os = Inr owners'"
    using "2.prems"(1) by (auto split: sum.splits)
  note h = owner_holes_ok [OF o1 "2.prems"(2)]
  have l: "length os = length tables" using h "2.prems"(2) by (simp add: owners_grow_def)
  note ih = "2.IH" [OF o1 o2 l]
  have "\<forall>h \<in> set ((hs # refs) ! i). hole_owned tables owners' (b + i) h" if "i < length (hs # refs)" for i
  proof (cases i)
    case 0
    then show ?thesis using h ih hole_owned_grow [of tables os b _ owners'] l by auto
  next
    case (Suc j)
    then show ?thesis using ih that by auto
  qed
  moreover have "owners_grow owners owners'" using h ih unfolding owners_grow_def by (metis subset_trans)
  moreover have "set (owners' ! ti) \<subseteq> set (owners ! ti) \<union> {b..<b + length (hs # refs)}" if "ti < length tables" for ti
  proof -
    have "set (owners' ! ti) \<subseteq> set (os ! ti) \<union> {b + 1..<b + 1 + length refs}" "set (os ! ti) \<subseteq> insert b (set (owners ! ti))"
      using ih h that by blast+
    then have "set (owners' ! ti) \<subseteq> insert b (set (owners ! ti)) \<union> {b + 1..<b + 1 + length refs}" by blast
    then show ?thesis by fastforce
  qed
  ultimately show ?case by blast
qed

lemma shared_blobs_sub:
  "shared_blobs labels so_far targets = Inr (Some cs) \<Longrightarrow> (\<forall>old. so_far = Some old \<longrightarrow> set old \<subseteq> {..<length labels}) \<Longrightarrow>
     set cs \<subseteq> {..<length labels} \<and> (\<forall>old. so_far = Some old \<longrightarrow> set cs \<subseteq> set old)
     \<and> (\<forall>t \<in> set targets. \<forall>b \<in> set cs. has_label (sn_name t) (labels ! b))"
proof (induction labels so_far targets rule: shared_blobs.induct)
  case (2 labels so_far t ts)
  let ?bs = "blobs_with labels (sn_name t)"
  let ?next = "case so_far of None \<Rightarrow> ?bs | Some old \<Rightarrow> filter (\<lambda>b. b \<in> set ?bs) old"
  have n: "?next \<noteq> []" and r: "shared_blobs labels (Some ?next) ts = Inr (Some cs)"
    using "2.prems"(1) by (auto simp: asm_err_def Let_def split: if_splits)
  have s: "set ?next \<subseteq> set ?bs" "set ?bs \<subseteq> {..<length labels}" "\<forall>b \<in> set ?bs. has_label (sn_name t) (labels ! b)"
    by (auto simp: blobs_with_def split: option.split)
  have "\<forall>old. so_far = Some old \<longrightarrow> set ?next \<subseteq> set old" by auto
  moreover have "set cs \<subseteq> {..<length labels} \<and> set cs \<subseteq> set ?next
      \<and> (\<forall>t \<in> set ts. \<forall>b \<in> set cs. has_label (sn_name t) (labels ! b))"
    using "2.IH" [OF refl refl n r] s by auto
  ultimately show ?case using s by auto
qed simp

lemma dispatch_owner_sub:
  assumes "dispatch_owner labels t ow = Some (Inr ow')"
  shows "set ow \<subseteq> set ow' \<and> set ow' \<subseteq> set ow \<union> {..<length labels}"
proof (cases t)
  case (DispatchTab name targets)
  then obtain cands where c: "shared_blobs labels None targets = Inr (Some cands)"
    and o: "ow = [] \<and> ow' = cands \<or> ow' = ow"
    using assms by (auto simp: tied_error_def asm_err_def Let_def split: sum.splits option.splits if_splits)
  then show ?thesis using shared_blobs_sub [OF c] by auto
qed (use assms in auto)

lemma dispatch_owners_sub:
  "dispatch_owners labels ts owners = Some (Inr os) \<Longrightarrow> length owners = length ts \<Longrightarrow>
     length os = length ts
     \<and> (\<forall>ti < length ts. set (owners ! ti) \<subseteq> set (os ! ti) \<and> set (os ! ti) \<subseteq> set (owners ! ti) \<union> {..<length labels})"
proof (induction labels ts owners arbitrary: os rule: dispatch_owners.induct)
  case (1 labels t ts ow owners)
  obtain o2 os' where o: "dispatch_owner labels t ow = Some (Inr o2)" "dispatch_owners labels ts owners = Some (Inr os')" "os = o2 # os'"
    using "1.prems"(1) by (auto simp: map_sum_Inr split: option.splits sum.splits)
  show ?case using "1.IH" [OF o(1) _ o(2)] dispatch_owner_sub [OF o(1)] "1.prems"(2) o(3)
    by (auto simp: nth_Cons split: nat.split)
qed auto

lemma single_owners_nth:
  "single_owners ts owners = Inr bs \<Longrightarrow> length owners = length ts \<Longrightarrow>
     length bs = length ts \<and> (\<forall>ti < length ts. owners ! ti = [bs ! ti])"
proof (induction ts owners arbitrary: bs rule: single_owners.induct)
  case (1 t ts ow owners)
  obtain b bs' where b: "ow = [b]" "single_owners ts owners = Inr bs'" "bs = b # bs'"
    using "1.prems"(1) by (auto simp: asm_err_def tied_error_def map_sum_Inr split: list.splits)
  show ?case using "1.IH" [OF b(1) _ b(2)] b "1.prems"(2) by (auto simp: nth_Cons split: nat.split)
qed auto

section \<open>Placement\<close>

lemma place_tables_at:
  "place_tables labels ts bs blobs = Some (Inr (blobs', offsets)) \<Longrightarrow> length bs = length ts \<Longrightarrow>
     (\<forall>b \<in> set bs. b < length blobs) \<Longrightarrow>
     length blobs' = length blobs \<and> length offsets = length ts
     \<and> (\<forall>b < length blobs. \<exists>rest. blobs' ! b = blobs ! b @ rest)
     \<and> (\<forall>i < length ts. \<exists>bytes pre post. table_bytes (labels ! (bs ! i)) (ts ! i) = Some (Inr bytes)
          \<and> blobs' ! (bs ! i) = pre @ bytes @ post \<and> offsets ! i = of_nat (length pre))"
proof (induction labels ts bs blobs arbitrary: blobs' offsets rule: place_tables.induct)
  case (1 labels t ts b bs blobs)
  let ?add = "\<lambda>bytes. blobs[b := blobs ! b @ bytes]"
  obtain bytes offs where o: "table_bytes (labels ! b) t = Some (Inr bytes)"
    "place_tables labels ts bs (?add bytes) = Some (Inr (blobs', offs))" "offsets = of_nat (length (blobs ! b)) # offs"
    using "1.prems"(1) by (auto simp: map_sum_Inr split: option.splits sum.splits)
  note ih = "1.IH" [OF o(1) _ o(2)]
  have lt: "b < length blobs" using "1.prems"(3) by simp
  have ih': "length blobs' = length blobs" "length offs = length ts"
    "\<And>c. c < length blobs \<Longrightarrow> \<exists>rest. blobs' ! c = ?add bytes ! c @ rest"
    "\<And>i. i < length ts \<Longrightarrow> \<exists>bytes pre post. table_bytes (labels ! (bs ! i)) (ts ! i) = Some (Inr bytes)
          \<and> blobs' ! (bs ! i) = pre @ bytes @ post \<and> offs ! i = of_nat (length pre)"
    using ih "1.prems"(2,3) by simp_all
  have grow: "\<exists>rest. blobs' ! c = blobs ! c @ rest" if "c < length blobs" for c
    using ih'(3) [OF that] lt that by (cases "c = b") auto
  obtain post where post: "blobs' ! b = blobs ! b @ bytes @ post" using ih'(3) [OF lt] lt by auto
  have "\<exists>bytes pre post. table_bytes (labels ! ((b # bs) ! i)) ((t # ts) ! i) = Some (Inr bytes)
          \<and> blobs' ! ((b # bs) ! i) = pre @ bytes @ post \<and> offsets ! i = of_nat (length pre)" if "i < length (t # ts)" for i
  proof (cases i)
    case 0
    then show ?thesis using o(1,3) post by auto
  next
    case (Suc j)
    then show ?thesis using ih'(4) [of j] that o(3) by simp
  qed
  then show ?case using grow ih'(1,2) o(3) by simp
qed auto

section \<open>Fixups\<close>

definition in_hole :: "nat \<Rightarrow> table_ref_hole \<Rightarrow> bool" where
  "in_hole i h \<longleftrightarrow> unat (th_offset h) \<le> i \<and> i < unat (th_offset h) + 4"

text \<open>The holes of a blob, in order, do not overlap.\<close>

definition holes_apart :: "table_ref_hole list \<Rightarrow> bool" where
  "holes_apart hs \<longleftrightarrow> sorted_wrt (\<lambda>h h'. unat (th_offset h) + 4 \<le> unat (th_offset h')) hs"

definition hole_holds :: "u8 list \<Rightarrow> table_ref_hole \<Rightarrow> u32 \<Rightarrow> bool" where
  "hole_holds blob h w \<longleftrightarrow> take 4 (drop (unat (th_offset h)) blob) = le_u32 w"

lemma patch_Some:
  assumes "patch blob (unat (th_offset h)) w = Some blob'"
  shows "length blob' = length blob" "\<And>i. \<not> in_hole i h \<Longrightarrow> blob' ! i = blob ! i" "hole_holds blob' h w"
    "unat (th_offset h) + 4 \<le> length blob"
proof -
  let ?at = "unat (th_offset h)"
  have le: "?at + 4 \<le> length blob" and b: "blob' = take ?at blob @ le_u32 w @ drop (?at + 4) blob"
    using assms by (auto simp: patch_def split: if_splits)
  show "?at + 4 \<le> length blob" by (rule le)
  show "length blob' = length blob" using le b by simp
  show "blob' ! i = blob ! i" if "\<not> in_hole i h" for i
    using that le b by (auto simp: in_hole_def nth_append min_def)
  show "hole_holds blob' h w" using le b by (simp add: hole_holds_def min_def)
qed

lemma hole_holds_kept:
  assumes "hole_holds blob h w" "unat (th_offset h) + 4 \<le> length blob" "length blob' = length blob"
    and "\<And>i. in_hole i h \<Longrightarrow> blob' ! i = blob ! i"
  shows "hole_holds blob' h w"
proof -
  have "take 4 (drop (unat (th_offset h)) blob') = take 4 (drop (unat (th_offset h)) blob)"
    by (rule nth_equalityI) (use assms(2-4) in \<open>auto simp: in_hole_def\<close>)
  then show ?thesis using assms(1) by (simp add: hole_holds_def)
qed

definition hole_fixed :: "source_table list \<Rightarrow> u32 list \<Rightarrow> u8 list \<Rightarrow> table_ref_hole \<Rightarrow> bool" where
  "hole_fixed tables offsets blob h \<longleftrightarrow>
     (\<exists>ti. table_index tables (th_name h) = Some ti \<and> hole_holds blob h (offsets ! ti)
        \<and> unat (th_offset h) + 4 \<le> length blob)"

definition hole_fixup :: "source_table list \<Rightarrow> u32 list \<Rightarrow> nat \<Rightarrow> table_ref_hole \<Rightarrow> table_fixup" where
  "hole_fixup tables offsets b h =
     \<lparr>fx_blob = of_nat b, fx_offset = th_offset h, fx_table_offset = offsets ! the (table_index tables (th_name h))\<rparr>"

lemma fix_holes_ok:
  "fix_holes tables offsets b hs blob = Some (blob', fxs) \<Longrightarrow> holes_apart hs \<Longrightarrow>
     length blob' = length blob \<and> (\<forall>i. (\<forall>h \<in> set hs. \<not> in_hole i h) \<longrightarrow> blob' ! i = blob ! i)
     \<and> (\<forall>h \<in> set hs. hole_fixed tables offsets blob' h) \<and> fxs = map (hole_fixup tables offsets b) hs"
proof (induction tables offsets b hs blob arbitrary: blob' fxs rule: fix_holes.induct)
  case (2 tables offsets b h hs blob)
  obtain ti blob1 fxs1 where f: "table_index tables (th_name h) = Some ti"
    "patch blob (unat (th_offset h)) (offsets ! ti) = Some blob1"
    "fix_holes tables offsets b hs blob1 = Some (blob', fxs1)" "fxs = hole_fixup tables offsets b h # fxs1"
    using "2.prems"(1) by (auto simp: hole_fixup_def bind_eq_Some_conv)
  note p = patch_Some [OF f(2)]
  have ap: "holes_apart hs" and first: "\<And>h'. h' \<in> set hs \<Longrightarrow> unat (th_offset h) + 4 \<le> unat (th_offset h')"
    using "2.prems"(2) by (auto simp: holes_apart_def)
  note ih = "2.IH" [OF f(1,2,3) ap]
  have out: "\<not> in_hole i h'" if "in_hole i h" "h' \<in> set hs" for i h'
    using first [OF that(2)] that(1) by (auto simp: in_hole_def)
  have "hole_holds blob' h (offsets ! ti)"
    by (rule hole_holds_kept [OF p(3)]) (use p(1,4) ih out in auto)
  then have "hole_fixed tables offsets blob' h" using f(1) p(1,4) ih by (simp add: hole_fixed_def)
  then show ?case using ih p(1,2) f(4) by simp
qed simp

lemma fix_blobs_ok:
  "fix_blobs tables offsets b refs blobs = Some (blobs', fxs) \<Longrightarrow> length refs = length blobs \<Longrightarrow>
     \<forall>hs \<in> set refs. holes_apart hs \<Longrightarrow>
     length blobs' = length blobs
     \<and> (\<forall>c < length blobs. length (blobs' ! c) = length (blobs ! c)
          \<and> (\<forall>i. (\<forall>h \<in> set (refs ! c). \<not> in_hole i h) \<longrightarrow> blobs' ! c ! i = blobs ! c ! i)
          \<and> (\<forall>h \<in> set (refs ! c). hole_fixed tables offsets (blobs' ! c) h))
     \<and> fxs = concat (map (\<lambda>(c, hs). map (hole_fixup tables offsets c) hs) (enumerate b refs))"
proof (induction tables offsets b refs blobs arbitrary: blobs' fxs rule: fix_blobs.induct)
  case (1 tables offsets b hs refs blob blobs)
  obtain blob1 fxs1 bs1 fxs2 where f: "fix_holes tables offsets b hs blob = Some (blob1, fxs1)"
    "fix_blobs tables offsets (b + 1) refs blobs = Some (bs1, fxs2)" "blobs' = blob1 # bs1" "fxs = fxs1 @ fxs2"
    using "1.prems"(1) by (auto simp: bind_eq_Some_conv)
  have ap: "holes_apart hs" "\<forall>hs \<in> set refs. holes_apart hs" using "1.prems"(3) by auto
  note h = fix_holes_ok [OF f(1) ap(1)]
  have len: "length refs = length blobs" using "1.prems"(2) by simp
  note ih = "1.IH" [OF f(1) refl f(2) len ap(2)]
  have "length (blobs' ! c) = length ((blob # blobs) ! c)
      \<and> (\<forall>i. (\<forall>h \<in> set ((hs # refs) ! c). \<not> in_hole i h) \<longrightarrow> blobs' ! c ! i = (blob # blobs) ! c ! i)
      \<and> (\<forall>h \<in> set ((hs # refs) ! c). hole_fixed tables offsets (blobs' ! c) h)" if "c < length (blob # blobs)" for c
    using h ih f(3) that by (cases c) simp_all
  then show ?case using h ih f(3,4) by simp
qed simp_all

section \<open>The discipline of rows\<close>

text \<open>The canonical order: exact rows, ascending, then rows with wildcards, one catch-all at most, last.\<close>

fun row_before :: "match_row_class \<Rightarrow> match_row_class \<Rightarrow> bool" where
  "row_before (Exact a) (Exact b) \<longleftrightarrow> a < b"
| "row_before (Exact a) _ \<longleftrightarrow> True"
| "row_before Partial (Exact b) \<longleftrightarrow> False"
| "row_before Partial _ \<longleftrightarrow> True"
| "row_before CatchAll _ \<longleftrightarrow> False"

definition row_class :: "source_row \<Rightarrow> match_row_class" where
  "row_class r = classify_match_row (map elem_cell (sr_elems r))"

definition disciplined :: "source_row list \<Rightarrow> bool" where
  "disciplined rows \<longleftrightarrow>
     rows \<noteq> [] \<and> length rows \<le> 65535
     \<and> (\<exists>width. 1 \<le> width \<and> width \<le> 16 \<and> (\<forall>r \<in> set rows. length (sr_elems r) = width))
     \<and> sorted_wrt row_before (map row_class rows)"

lemma row_before_Exact: "row_before (Exact a) c \<longleftrightarrow> (\<forall>k. c = Exact k \<longrightarrow> a < k)"
  by (cases c) auto

lemma row_before_Partial: "row_before Partial c \<longleftrightarrow> (\<forall>k. c \<noteq> Exact k)"
  by (cases c) auto

lemma row_before_CatchAll: "\<not> row_before CatchAll c"
  by (cases c) auto

lemma check_rows_iff:
  "n = i + length rs \<Longrightarrow>
     check_rows width n seen prev i rs = Inr () \<longleftrightarrow>
       (\<forall>r \<in> set rs. length (sr_elems r) = width) \<and> sorted_wrt row_before (map row_class rs)
       \<and> (seen \<longrightarrow> (\<forall>r \<in> set rs. \<forall>k. row_class r \<noteq> Exact k))
       \<and> (\<forall>p. prev = Some p \<longrightarrow> (\<forall>r \<in> set rs. \<forall>k. row_class r = Exact k \<longrightarrow> p < k))"
proof (induction rs arbitrary: seen prev i)
  case (Cons r rs)
  have len: "n = i + 1 + length rs" using Cons.prems by simp
  note ih = Cons.IH [OF len]
  show ?case
  proof (cases "length (sr_elems r) = width")
    case False
    then show ?thesis by (simp add: asm_err_def)
  next
    case w: True
    show ?thesis
    proof (cases "row_class r")
      case (Exact key)
      have after: "(\<forall>r \<in> set rs. row_before (Exact key) (row_class r))
          \<longleftrightarrow> (\<forall>r \<in> set rs. \<forall>k. row_class r = Exact k \<longrightarrow> key < k)"
        using row_before_Exact by blast
      have tr: "p < k" if "p < key" "\<forall>r \<in> set rs. \<forall>k. row_class r = Exact k \<longrightarrow> key < k" "r' \<in> set rs" "row_class r' = Exact k"
        for p k r' using that less_trans by blast
      have "check_rows width n seen prev i (r # rs) = Inr () \<longleftrightarrow>
          \<not> seen \<and> (\<forall>p. prev = Some p \<longrightarrow> p < key) \<and> check_rows width n seen (Some key) (i + 1) rs = Inr ()"
        using w Exact [unfolded row_class_def] by (auto simp: asm_err_def not_le split: option.splits)
      also have "\<dots> \<longleftrightarrow> \<not> seen \<and> (\<forall>p. prev = Some p \<longrightarrow> p < key) \<and> (\<forall>r \<in> set rs. length (sr_elems r) = width)
          \<and> sorted_wrt row_before (map row_class rs) \<and> (\<forall>r \<in> set rs. \<forall>k. row_class r = Exact k \<longrightarrow> key < k)"
        unfolding ih by auto
      also have "\<dots> \<longleftrightarrow> (\<forall>r' \<in> set (r # rs). length (sr_elems r') = width) \<and> sorted_wrt row_before (map row_class (r # rs))
       \<and> (seen \<longrightarrow> (\<forall>r' \<in> set (r # rs). \<forall>k. row_class r' \<noteq> Exact k))
       \<and> (\<forall>p. prev = Some p \<longrightarrow> (\<forall>r' \<in> set (r # rs). \<forall>k. row_class r' = Exact k \<longrightarrow> p < k))"
        using Exact w after tr by (auto simp del: check_rows.simps)
      finally show ?thesis .
    next
      case Partial
      have after: "(\<forall>r \<in> set rs. row_before Partial (row_class r)) \<longleftrightarrow> (\<forall>r \<in> set rs. \<forall>k. row_class r \<noteq> Exact k)"
        using row_before_Partial by blast
      have "check_rows width n seen prev i (r # rs) = Inr () \<longleftrightarrow> check_rows width n True prev (i + 1) rs = Inr ()"
        using w Partial [unfolded row_class_def] by simp
      then show ?thesis using Partial w after unfolding ih by auto
    next
      case CatchAll
      have "check_rows width n seen prev i (r # rs) = Inr () \<longleftrightarrow> rs = []"
        using w CatchAll [unfolded row_class_def] len by (auto simp: asm_err_def)
      moreover have "(\<forall>r \<in> set rs. row_before CatchAll (row_class r)) \<longleftrightarrow> rs = []" by (cases rs) auto
      ultimately show ?thesis using CatchAll w by auto
    qed
  qed
qed simp

lemma validate_iff: "validate_match_discipline name rows = Some (Inr ()) \<longleftrightarrow> disciplined rows"
proof (cases rows)
  case Nil
  then show ?thesis by (simp add: validate_match_discipline_def disciplined_def)
next
  case (Cons r rs)
  let ?w = "length (sr_elems r)"
  have "validate_match_discipline name rows = Some (Inr ()) \<longleftrightarrow>
      1 \<le> ?w \<and> ?w \<le> 16 \<and> length rows \<le> 65535 \<and> check_rows ?w (length rows) False None 0 rows = Inr ()"
    using Cons by (simp add: validate_match_discipline_def asm_err_def Let_def not_less Suc_le_eq del: check_rows.simps)
  also have "\<dots> \<longleftrightarrow> disciplined rows"
    using Cons check_rows_iff [of "length rows" 0 rows ?w False None]
    by (auto simp: disciplined_def simp del: check_rows.simps)
  finally show ?thesis .
qed

lemma validate_tables_disciplined:
  "validate_tables ts = Some (Inr u) \<Longrightarrow> MatchTab name rows \<in> set ts \<Longrightarrow> disciplined rows"
proof (induction ts rule: validate_tables.induct)
  case (2 name' rows' ts)
  then show ?case by (auto simp: validate_iff split: option.splits sum.splits)
qed auto

section \<open>What a table says\<close>

text \<open>The symbols read, against the elements of a row; the 1-based number of the first row that matches, or 0.\<close>

definition source_row_matches :: "u32 list \<Rightarrow> source_row \<Rightarrow> bool" where
  "source_row_matches tr r \<longleftrightarrow> list_all2 (\<lambda>e t. \<forall>p. elem_cell e = Some p \<longrightarrow> t = p) (sr_elems r) (take (length (sr_elems r)) tr)"

definition selected_row :: "u32 list \<Rightarrow> source_row list \<Rightarrow> nat" where
  "selected_row tr rows =
     (let n = length (takeWhile (\<lambda>r. \<not> source_row_matches tr r) rows) in if n < length rows then n + 1 else 0)"

definition label_address :: "blob_labels \<Rightarrow> spanned_name \<Rightarrow> u32" where
  "label_address ls n = the (map_of ls (sn_name n))"

definition source_frame :: "blob_labels \<Rightarrow> u8 list \<Rightarrow> frame_tape_map list \<Rightarrow> spanned_name list \<Rightarrow> frame_descriptor" where
  "source_frame ls tapes maps xs =
     \<lparr>entries = map (\<lambda>(k, p).
        (case find (\<lambda>m. unat (fm_k m) = k) maps of
           Some m \<Rightarrow> \<lparr>phys = p, rmap = fm_rmap m, wmap = fm_wmap m\<rparr>
         | None \<Rightarrow> \<lparr>phys = p, rmap = [], wmap = []\<rparr>)) (enumerate 0 tapes),
      exits = map (label_address ls) xs\<rparr>"

text \<open>What lowering guarantees of a table.\<close>

fun lowered_table :: "source_table \<Rightarrow> bool" where
  "lowered_table (MatchTab name rows) \<longleftrightarrow> (\<forall>r \<in> set rows. \<forall>e \<in> set (sr_elems r). \<forall>p. e = Payload p \<longrightarrow> p \<le> 0x7E)"
| "lowered_table (DispatchTab name targets) \<longleftrightarrow> targets \<noteq> []"
| "lowered_table (FrameTab name tapes maps xs) \<longleftrightarrow>
     tapes \<noteq> [] \<and> length tapes \<le> 16 \<and> (\<forall>m \<in> set maps. length (fm_rmap m) < 65536 \<and> length (fm_wmap m) < 65536)"

text \<open>The table engine of the machine, started at an offset of the table blob, finds what the source says.\<close>

fun reads_table :: "u8 list \<Rightarrow> u32 \<Rightarrow> blob_labels \<Rightarrow> source_table \<Rightarrow> bool" where
  "reads_table tb off ls (MatchTab name rows) \<longleftrightarrow>
     disciplined rows \<and>
     (\<forall>tr. (\<forall>r \<in> set rows. length (sr_elems r) \<le> length tr) \<longrightarrow>
        match_lookup tb tr off = Some (Served (WalkDone (of_nat (selected_row tr rows)))))"
| "reads_table tb off ls (DispatchTab name targets) \<longleftrightarrow>
     (\<forall>t \<in> set targets. has_label (sn_name t) ls) \<and>
     (\<forall>m. 0 < unat m \<longrightarrow>
        dispatch_lookup tb off m =
          Some (Served (if unat m \<le> length targets then DispatchDone (label_address ls (targets ! (unat m - 1))) else OutOfRange)))"
| "reads_table tb off ls (FrameTab name tapes maps xs) \<longleftrightarrow>
     (\<forall>x \<in> set xs. has_label (sn_name x) ls) \<and>
     frame_load tb off = Some (Served (FrameDone (source_frame ls tapes maps xs)))"

subsection \<open>Match tables\<close>

lemma those_map_Some: "those (map f xs) = Some ys \<Longrightarrow> list_all2 (\<lambda>x y. f x = Some y) xs ys"
  by (induction xs arbitrary: ys) (auto split: option.splits)

lemma row_byte_matches:
  assumes "row_byte e = Some b" "\<forall>p. e = Payload p \<longrightarrow> p \<le> 0x7E"
  shows "(b = 0x7F \<or> ucast b = (t :: u32)) \<longleftrightarrow> (\<forall>p. elem_cell e = Some p \<longrightarrow> t = p)"
proof (cases e)
  case (Payload p)
  have le: "unat p \<le> 126" using assms(2) Payload by (simp add: word_le_nat_alt)
  have b: "b = ucast p" using assms(1) Payload by simp
  have "unat b = unat p" using le by (simp add: b unsigned_ucast_eq take_bit_nat_eq_self)
  then have "b \<noteq> 0x7F" and "ucast b = p" using le by (auto simp: word_unat_eq_iff unsigned_ucast_eq)
  then show ?thesis using Payload by auto
qed (use assms(1) in auto)

lemma row_bytes_match:
  assumes "list_all2 (\<lambda>e b. row_byte e = Some b) es bs" "\<forall>e \<in> set es. \<forall>p. e = Payload p \<longrightarrow> p \<le> 0x7E" "length es \<le> length tr"
  shows "row_matches tr bs \<longleftrightarrow> list_all2 (\<lambda>e t. \<forall>p. elem_cell e = Some p \<longrightarrow> t = p) es (take (length es) tr)"
  using assms
proof (induction es bs arbitrary: tr rule: list_all2_induct)
  case (Cons e es b bs)
  then obtain t tr' where tr: "tr = t # tr'" by (cases tr) auto
  show ?case using Cons row_byte_matches [of e b t] by (simp add: tr)
qed simp

lemma selected_row_Cons:
  "selected_row tr (r # rs) =
     (if source_row_matches tr r then 1 else case selected_row tr rs of 0 \<Rightarrow> 0 | Suc n \<Rightarrow> Suc (Suc n))"
  by (simp add: selected_row_def Let_def)

lemma first_match_selected:
  assumes "list_all2 (\<lambda>r bs. list_all2 (\<lambda>e b. row_byte e = Some b) (sr_elems r) bs) rows cells"
    and "\<forall>r \<in> set rows. \<forall>e \<in> set (sr_elems r). \<forall>p. e = Payload p \<longrightarrow> p \<le> 0x7E"
    and "\<forall>r \<in> set rows. length (sr_elems r) \<le> length tr"
  shows "first_match tr cells = selected_row tr rows"
  using assms
proof (induction rows cells rule: list_all2_induct)
  case Nil
  then show ?case by (simp add: selected_row_def)
next
  case (Cons r rs bs cells)
  then show ?case using row_bytes_match [OF Cons.hyps(1)] by (simp add: selected_row_Cons source_row_matches_def)
qed

lemma match_bytes_read:
  assumes bytes: "match_bytes rows = Some bytes" and d: "disciplined rows" and l: "lowered_table (MatchTab name rows)"
    and tb: "tb = pre @ bytes @ post" "length tb < 2 ^ 32"
  shows "reads_table tb (of_nat (length pre)) ls (MatchTab name rows)"
proof -
  obtain width where w: "1 \<le> width" "width \<le> 16" "\<forall>r \<in> set rows. length (sr_elems r) = width"
    and n: "rows \<noteq> []" "length rows \<le> 65535" using d by (auto simp: disciplined_def)
  obtain r rs where r: "rows = r # rs" using n(1) by (cases rows) auto
  obtain cells where c: "those (map (\<lambda>r. those (map row_byte (sr_elems r))) rows) = Some cells"
    and b: "bytes = of_nat (length (sr_elems r)) # le_u16 (of_nat (length rows)) @ concat cells"
    using bytes r by (auto simp: match_bytes_def)
  have "list_all2 (\<lambda>r bs. those (map row_byte (sr_elems r)) = Some bs) rows cells" by (rule those_map_Some [OF c])
  then have cells: "list_all2 (\<lambda>r bs. list_all2 (\<lambda>e b. row_byte e = Some b) (sr_elems r) bs) rows cells"
    by (rule list_all2_mono) (rule those_map_Some)
  have len: "length cells = length rows" using cells by (simp add: list_all2_lengthD)
  have "\<forall>bs \<in> set cells. length bs = width"
    using cells w(3) by (metis list_all2_lengthD list_all2_conv_all_nth in_set_conv_nth)
  moreover have b': "bytes = match_table_bytes width cells" using b w(3) len r by (simp add: match_table_bytes_def)
  moreover have u: "unat (of_nat (length pre) :: u32) = length pre" "length pre + length bytes < 2 ^ 32"
    using tb by (simp_all add: unat_of_nat take_bit_nat_eq_self)
  ultimately have "match_lookup tb tr (of_nat (length pre)) = Some (Served (WalkDone (of_nat (first_match tr cells))))"
    if "width \<le> length tr" for tr
    using match_lookup_table [of width tr cells tb pre post "of_nat (length pre)"] w(1,2) that len n(2) tb(1) by simp
  moreover have "first_match tr cells = selected_row tr rows" if "width \<le> length tr" for tr
    by (rule first_match_selected [OF cells]) (use l w(3) that in auto)
  ultimately show ?thesis using d w(3) r by simp
qed

subsection \<open>Dispatch tables and frames\<close>

lemma offset_in_table:
  assumes "tb = pre @ bytes @ post" "length tb < 2 ^ 32"
  shows "unat (of_nat (length pre) :: u32) = length pre" "length pre + length bytes < 2 ^ 32"
  using assms by (simp_all add: unat_of_nat take_bit_nat_eq_self)

lemma label_found: "map_of ls (sn_name t) = Some a \<Longrightarrow> has_label (sn_name t) ls \<and> label_address ls t = a"
  by (auto simp: has_label_def label_address_def dest: map_of_SomeD intro: rev_image_eqI)

lemma those_labels:
  assumes "those (map (\<lambda>t. map_of ls (sn_name t)) targets) = Some as"
  shows "as = map (label_address ls) targets" "\<forall>t \<in> set targets. has_label (sn_name t) ls"
proof -
  note l = those_map_Some [OF assms]
  have "length as = length targets" using l by (simp add: list_all2_lengthD)
  then show "as = map (label_address ls) targets"
    by (intro nth_equalityI) (use l label_found in \<open>auto simp: list_all2_conv_all_nth\<close>)
  show "\<forall>t \<in> set targets. has_label (sn_name t) ls"
    using l by (auto simp: list_all2_conv_all_nth in_set_conv_nth dest!: label_found)
qed

lemma exit_offsets_labels:
  "exit_offsets ls xs = Inr as \<Longrightarrow> as = map (label_address ls) xs \<and> (\<forall>x \<in> set xs. has_label (sn_name x) ls)"
proof (induction ls xs arbitrary: as rule: exit_offsets.induct)
  case (2 ls x xs)
  then show ?case by (auto simp: asm_err_def map_sum_Inr dest!: label_found split: option.splits)
qed simp

lemma dispatch_bytes_read:
  assumes bytes: "dispatch_bytes ls name targets = Some (Inr bytes)"
    and tb: "tb = pre @ bytes @ post" "length tb < 2 ^ 32"
  shows "reads_table tb (of_nat (length pre)) ls (DispatchTab name targets)"
proof -
  obtain as where as: "those (map (\<lambda>t. map_of ls (sn_name t)) targets) = Some as" "length targets \<le> 65535"
    and b: "bytes = le_u16 (of_nat (length targets)) @ concat (map le_u32 as)"
    using bytes by (auto simp: dispatch_bytes_def asm_err_def split: if_splits)
  note l = those_labels [OF as(1)]
  have "bytes = dispatch_table_bytes as" using b l(1) by (simp add: dispatch_table_bytes_def)
  then have "dispatch_lookup tb (of_nat (length pre)) m =
      Some (Served (if unat m \<le> length as then DispatchDone (as ! (unat m - 1)) else OutOfRange))" if "0 < unat m" for m
    using dispatch_lookup_table [OF that, of as tb pre post "of_nat (length pre)"] tb(1) as(2) l(1) offset_in_table [OF tb] by simp
  then show ?thesis using l by auto
qed

lemma tape_map_entry:
  "tape_map_bytes maps k p = entry_bytes
     (case find (\<lambda>m. unat (fm_k m) = k) maps of
        Some m \<Rightarrow> \<lparr>phys = p, rmap = fm_rmap m, wmap = fm_wmap m\<rparr>
      | None \<Rightarrow> \<lparr>phys = p, rmap = [], wmap = []\<rparr>)"
  by (simp add: tape_map_bytes_def entry_bytes_def map_bytes_def u16_list_bytes_def split: option.split)

lemma frame_bytes_read:
  assumes bytes: "emit_frame_descriptor tapes maps xs ls = Inr bytes" and l: "lowered_table (FrameTab name tapes maps xs)"
    and tb: "tb = pre @ bytes @ post" "length tb < 2 ^ 32"
  shows "reads_table tb (of_nat (length pre)) ls (FrameTab name tapes maps xs)"
proof -
  let ?d = "source_frame ls tapes maps xs"
  obtain as where as: "exit_offsets ls xs = Inr as" "length xs \<le> 65535"
    and b: "bytes = of_nat (length tapes) # le_u16 (of_nat (length xs))
           @ concat (map (\<lambda>(k, phys). tape_map_bytes maps k phys) (enumerate 0 tapes)) @ concat (map le_u32 as)"
    using bytes by (auto simp: emit_frame_descriptor_def asm_err_def map_sum_Inr split: if_splits)
  note e = exit_offsets_labels [OF as(1)]
  have x: "exits ?d = as" using e by (simp add: source_frame_def)
  have "map (\<lambda>(k, phys). tape_map_bytes maps k phys) (enumerate 0 tapes) = map entry_bytes (entries ?d)"
    by (simp add: source_frame_def tape_map_entry comp_def split_beta)
  moreover have n: "length (entries ?d) = length tapes" by (simp add: source_frame_def)
  ultimately have "bytes = descriptor_bytes (entries ?d) (exits ?d)"
    using b x e by (simp add: descriptor_bytes_def)
  moreover have "\<forall>en \<in> set (entries ?d). entry_fits en"
  proof
    fix en
    assume "en \<in> set (entries ?d)"
    then obtain k p where en: "en = (case find (\<lambda>m. unat (fm_k m) = k) maps of
           Some m \<Rightarrow> \<lparr>phys = p, rmap = fm_rmap m, wmap = fm_wmap m\<rparr>
         | None \<Rightarrow> \<lparr>phys = p, rmap = [], wmap = []\<rparr>)"
      by (auto simp: source_frame_def)
    show "entry_fits en"
    proof (cases "find (\<lambda>m. unat (fm_k m) = k) maps")
      case (Some m)
      then have "m \<in> set maps" by (auto simp: find_Some_iff)
      then show ?thesis using Some en l by (simp add: entry_fits_def)
    qed (simp add: en entry_fits_def)
  qed
  ultimately show ?thesis
    using frame_load_descriptor_lemma [of ?d tb pre post "of_nat (length pre)"] offset_in_table [OF tb] tb l n x as(2) e
    by (auto simp: descriptor_fits_def descriptor_ok_def)
qed

lemma table_bytes_read:
  assumes "table_bytes ls t = Some (Inr bytes)" "lowered_table t"
    and "\<forall>name rows. t = MatchTab name rows \<longrightarrow> disciplined rows"
    and "tb = pre @ bytes @ post" "length tb < 2 ^ 32"
  shows "reads_table tb (of_nat (length pre)) ls t"
proof (cases t)
  case (MatchTab name rows)
  then show ?thesis using match_bytes_read [OF _ _ _ assms(4,5)] assms(1-3) by auto
next
  case (DispatchTab name targets)
  then show ?thesis using dispatch_bytes_read [OF _ assms(4,5)] assms(1) by auto
next
  case (FrameTab name tapes maps xs)
  then show ?thesis using frame_bytes_read [OF _ _ assms(4,5)] assms(1,2) by auto
qed

section \<open>The whole of it\<close>

text \<open>
  A reference of blob \<open>b\<close>: the first table of its name, of the kind it asks for, whose offset the hole and
  the fixup hold, and at which the table engine reads it.
\<close>

definition ref_served ::
  "source_table list \<Rightarrow> blob_labels \<Rightarrow> nat \<Rightarrow> u8 list \<Rightarrow> u8 list \<Rightarrow> table_fixup list \<Rightarrow> table_ref_hole \<Rightarrow> bool" where
  "ref_served tables ls b blob tb fxs h \<longleftrightarrow>
     (\<exists>t off. find (\<lambda>t. sn_name (tab_name t) = th_name h) tables = Some t
        \<and> th_is_frame h = is_frame_table t
        \<and> hole_holds blob h off \<and> unat off < length tb
        \<and> \<lparr>fx_blob = of_nat b, fx_offset = th_offset h, fx_table_offset = off\<rparr> \<in> set fxs
        \<and> reads_table tb off ls t)"

lemma table_index_find:
  "table_index tables n = Some ti \<Longrightarrow> find (\<lambda>t. sn_name (tab_name t) = n) tables = Some (tables ! ti)"
proof (induction tables arbitrary: ti)
  case (Cons t ts)
  then show ?case by (auto simp: table_index_def split: if_splits)
qed (simp add: table_index_def)

lemma table_bytes_ne: "table_bytes ls t = Some (Inr bytes) \<Longrightarrow> bytes \<noteq> []"
proof (cases t)
  case (MatchTab name rows)
  then show "table_bytes ls t = Some (Inr bytes) \<Longrightarrow> bytes \<noteq> []" by (auto simp: match_bytes_def split: list.splits)
next
  case (DispatchTab name targets)
  have "le_u16 w \<noteq> []" for w using le_u16_two [of w] by auto
  then show "table_bytes ls t = Some (Inr bytes) \<Longrightarrow> bytes \<noteq> []"
    using DispatchTab by (auto simp: dispatch_bytes_def asm_err_def split: if_splits)
next
  case (FrameTab name tapes maps xs)
  then show "table_bytes ls t = Some (Inr bytes) \<Longrightarrow> bytes \<noteq> []"
    by (auto simp: emit_frame_descriptor_def asm_err_def map_sum_Inr split: if_splits)
qed

lemma all_fixups:
  "set (concat (map (\<lambda>(c, hs). map (g c) hs) (enumerate 0 refs))) = {g c h |c h. c < length refs \<and> h \<in> set (refs ! c)}"
proof -
  have "map (\<lambda>(c, hs). map (g c) hs) (enumerate 0 refs) = map (\<lambda>c. map (g c) (refs ! c)) [0..<length refs]"
    by (rule nth_equalityI) (simp_all add: nth_enumerate_eq)
  then have "set (concat (map (\<lambda>(c, hs). map (g c) hs) (enumerate 0 refs))) = (\<Union>c \<in> {0..<length refs}. g c ` set (refs ! c))"
    by simp
  also have "\<dots> = {g c h |c h. c < length refs \<and> h \<in> set (refs ! c)}" by fastforce
  finally show ?thesis .
qed

lemma built_tables:
  assumes b: "build_tables tables refs labels blobs = Some (Inr (blobs', tbs, fxs))"
    and len: "length refs = length blobs" "length labels = length blobs"
    and low: "\<forall>t \<in> set tables. lowered_table t" and ap: "\<forall>hs \<in> set refs. holes_apart hs"
    and fits: "\<forall>tb \<in> set tbs. length tb < 2 ^ 32"
  shows "length blobs' = length blobs \<and> length tbs = length blobs
    \<and> (\<forall>c < length blobs. length (blobs' ! c) = length (blobs ! c)
        \<and> (\<forall>i. (\<forall>h \<in> set (refs ! c). \<not> in_hole i h) \<longrightarrow> blobs' ! c ! i = blobs ! c ! i)
        \<and> (\<forall>h \<in> set (refs ! c). ref_served tables (labels ! c) c (blobs' ! c) (tbs ! c) fxs h
             \<and> unat (th_offset h) + 4 \<le> length (blobs ! c)))
    \<and> (\<forall>fx \<in> set fxs. \<exists>c < length blobs. \<exists>h \<in> set (refs ! c). fx_blob fx = of_nat c \<and> fx_offset fx = th_offset h
         \<and> hole_holds (blobs' ! c) h (fx_table_offset fx))"
proof -
  obtain os os' bs offsets where v: "validate_tables tables = Some (Inr ())"
    and r: "ref_owners tables 0 refs (map (\<lambda>_. []) tables) = Inr os"
    and d: "dispatch_owners labels tables os = Some (Inr os')" and sg: "single_owners tables os' = Inr bs"
    and pl: "place_tables labels tables bs (map (\<lambda>_. []) blobs) = Some (Inr (tbs, offsets))"
    and fb: "fix_blobs tables offsets 0 refs blobs = Some (blobs', fxs)"
    using b by (auto simp: build_tables_def split: option.splits sum.splits)
  have r': "length os = length tables" "\<And>i h. i < length refs \<Longrightarrow> h \<in> set (refs ! i) \<Longrightarrow> hole_owned tables os i h"
    "\<And>ti. ti < length tables \<Longrightarrow> set (os ! ti) \<subseteq> {0..<length refs}"
    using ref_owners_ok [OF r] by (auto simp: owners_grow_def)
  note d' = dispatch_owners_sub [OF d r'(1)]
  have sg': "length bs = length tables" "\<And>ti. ti < length tables \<Longrightarrow> os' ! ti = [bs ! ti]"
    using single_owners_nth [OF sg] d' by simp_all
  have lt: "bs ! ti < length blobs" if "ti < length tables" for ti
    using d' r'(3) [OF that] sg'(2) [OF that] that len by fastforce
  have "\<forall>x \<in> set bs. x < length (map (\<lambda>_. []) blobs)" using lt sg'(1) by (auto simp: in_set_conv_nth)
  note p = place_tables_at [OF pl sg'(1) this]
  note f = fix_blobs_ok [OF fb len(1) ap]
  have fe: "fxs = concat (map (\<lambda>(c, hs). map (hole_fixup tables offsets c) hs) (enumerate 0 refs))" using f by blast
  have fs: "set fxs = {hole_fixup tables offsets c h |c h. c < length blobs \<and> h \<in> set (refs ! c)}"
    unfolding fe all_fixups using len(1) by simp
  have owner: "bs ! ti = c" if "hole_owned tables os c h" "table_index tables (th_name h) = Some ti" for c h ti
  proof -
    have ti: "ti < length tables" by (rule table_index_lt [OF that(2)])
    have "c \<in> set (os' ! ti)" using that d' ti by (auto simp: hole_owned_def)
    then show ?thesis using sg'(2) [OF ti] by simp
  qed
  have served: "ref_served tables (labels ! c) c (blobs' ! c) (tbs ! c) fxs h \<and> unat (th_offset h) + 4 \<le> length (blobs ! c)"
    if c: "c < length blobs" "h \<in> set (refs ! c)" for c h
  proof -
    have own: "hole_owned tables os c h" using r'(2) c len by simp
    have fixed: "hole_fixed tables offsets (blobs' ! c) h" "length (blobs' ! c) = length (blobs ! c)" using f c by simp_all
    then obtain ti where ti: "table_index tables (th_name h) = Some ti" "hole_holds (blobs' ! c) h (offsets ! ti)"
      "unat (th_offset h) + 4 \<le> length (blobs ! c)" by (auto simp: hole_fixed_def)
    have lti: "ti < length tables" by (rule table_index_lt [OF ti(1)])
    have o: "bs ! ti = c" by (rule owner [OF own ti(1)])
    obtain bytes pre post where t: "table_bytes (labels ! c) (tables ! ti) = Some (Inr bytes)"
      "tbs ! c = pre @ bytes @ post" "offsets ! ti = of_nat (length pre)"
      using p lti o by metis
    have l: "length (tbs ! c) < 2 ^ 32" using fits p c(1) by (simp add: nth_mem)
    have "disciplined rows" if "tables ! ti = MatchTab name rows" for name rows
      using validate_tables_disciplined [OF v] that nth_mem [OF lti] by metis
    then have "reads_table (tbs ! c) (offsets ! ti) (labels ! c) (tables ! ti)"
      unfolding t(3) by (intro table_bytes_read [OF t(1) _ _ t(2) l]) (use low nth_mem [OF lti] in auto)
    moreover have "th_is_frame h = is_frame_table (tables ! ti)" using own ti(1) by (simp add: hole_owned_def)
    moreover have "unat (offsets ! ti) < length (tbs ! c)"
      using offset_in_table [OF t(2) l] t(2,3) table_bytes_ne [OF t(1)] by simp
    moreover have "hole_fixup tables offsets c h \<in> set fxs"
      unfolding fs using c by blast
    then have "\<lparr>fx_blob = of_nat c, fx_offset = th_offset h, fx_table_offset = offsets ! ti\<rparr> \<in> set fxs"
      using ti(1) by (simp add: hole_fixup_def)
    ultimately show ?thesis using table_index_find [OF ti(1)] ti(2,3) unfolding ref_served_def by blast
  qed
  have "\<exists>c < length blobs. \<exists>h \<in> set (refs ! c). fx_blob fx = of_nat c \<and> fx_offset fx = th_offset h
         \<and> hole_holds (blobs' ! c) h (fx_table_offset fx)" if "fx \<in> set fxs" for fx
  proof -
    obtain c h where c: "c < length blobs" "h \<in> set (refs ! c)" "fx = hole_fixup tables offsets c h"
      using \<open>fx \<in> set fxs\<close> unfolding fs by blast
    then have "hole_fixed tables offsets (blobs' ! c) h" using f by simp
    then have "hole_holds (blobs' ! c) h (fx_table_offset fx)" using c(3) by (auto simp: hole_fixed_def hole_fixup_def)
    moreover have "fx_blob fx = of_nat c" "fx_offset fx = th_offset h" using c(3) by (simp_all add: hole_fixup_def)
    ultimately show ?thesis using c(1,2) by blast
  qed
  then show ?thesis using f p served by simp
qed

end
