(* ===== verification/Assembler_Layout.thy ===== *)
theory Assembler_Layout
  imports Assembler
begin

text \<open>
  Addresses and relaxation. As long as the function fits the address space, the layout is the sum of
  the sizes before a slot; growing jumps moves distances apart only. So the loop that starts short and
  grows stops at the least choice of far jumps under which every short one reaches, if there is any.
\<close>

section \<open>Sizes\<close>

fun slot_len :: "slot \<Rightarrow> bool \<Rightarrow> nat" where
  "slot_len (SFixed sp bs) far = length bs"
| "slot_len (SJump sp tsp f s forced target) far = (if far then 5 else 2)"
| "slot_len (SFramedCall sp opc target frame fsp) far = 9"
| "slot_len _ far = 5"

fun code_len :: "slot list \<Rightarrow> bool list \<Rightarrow> nat" where
  "code_len (s # slots) (far # fars) = slot_len s far + code_len slots fars"
| "code_len _ _ = 0"

definition offset_of :: "slot list \<Rightarrow> bool list \<Rightarrow> nat \<Rightarrow> nat" where
  "offset_of slots fars i = 1 + code_len (take i slots) (take i fars)"

text \<open>The size with every jump far.\<close>

definition widest :: "slot list \<Rightarrow> nat" where
  "widest slots = code_len slots (map (\<lambda>_. True) slots)"

definition fits_u32 :: "slot list \<Rightarrow> bool" where
  "fits_u32 slots \<longleftrightarrow> 1 + widest slots < 2 ^ 32"

definition layout_fits :: "slot list \<Rightarrow> bool list \<Rightarrow> bool" where
  "layout_fits slots fars \<longleftrightarrow> 1 + code_len slots fars < 2 ^ 32"

lemma slot_len_widest: "slot_len s far \<le> slot_len s True"
  by (cases s) auto

lemma code_len_widest: "code_len slots fars \<le> widest slots"
  by (induction slots fars rule: code_len.induct) (auto simp: widest_def intro: add_mono slot_len_widest)

lemma slot_size_word: "slot_size s far = of_nat (slot_len s far)"
  by (cases s) auto

lemma starts_length [simp]: "length fars = length slots \<Longrightarrow> length (starts a slots fars) = length slots"
  by (induction a slots fars rule: starts.induct) auto

lemma starts_nth:
  "length fars = length slots \<Longrightarrow> i < length slots \<Longrightarrow>
     starts a slots fars ! i = a + of_nat (code_len (take i slots) (take i fars))"
proof (induction a slots fars arbitrary: i rule: starts.induct)
  case (1 a s slots far fars)
  then show ?case by (cases i) (simp_all add: slot_size_word algebra_simps)
qed simp_all

lemma code_len_take: "code_len (take i slots) (take i fars) \<le> code_len slots fars"
proof (induction slots fars arbitrary: i rule: code_len.induct)
  case (1 s slots far fars)
  then show ?case by (cases i) simp_all
qed simp_all

lemma widest_fits: "fits_u32 slots \<Longrightarrow> layout_fits slots fars"
  using code_len_widest [of slots fars] by (simp add: fits_u32_def layout_fits_def)

lemma offset_bound:
  assumes "layout_fits slots fars"
  shows "offset_of slots fars i < 2 ^ 32"
  using assms code_len_take [of i slots fars] by (simp add: layout_fits_def offset_of_def)

lemma starts_offset:
  assumes "length fars = length slots" "i < length slots"
  shows "starts 1 slots fars ! i = of_nat (offset_of slots fars i)"
  using starts_nth [OF assms, of 1] by (simp add: offset_of_def)

lemma unat_starts:
  assumes "length fars = length slots" "i < length slots" "layout_fits slots fars"
  shows "unat (starts 1 slots fars ! i) = offset_of slots fars i"
  using starts_offset [OF assms(1,2)] offset_bound [OF assms(3), of i]
  by (simp add: unat_of_nat take_bit_nat_eq_self)

lemma code_len_Suc:
  "length fars = length slots \<Longrightarrow> i < length slots \<Longrightarrow>
     code_len (take (Suc i) slots) (take (Suc i) fars)
       = code_len (take i slots) (take i fars) + slot_len (slots ! i) (fars ! i)"
proof (induction slots fars arbitrary: i rule: code_len.induct)
  case (1 s slots far fars)
  then show ?case by (cases i) simp_all
qed simp_all

lemma offset_Suc:
  "length fars = length slots \<Longrightarrow> i < length slots \<Longrightarrow>
     offset_of slots fars (Suc i) = offset_of slots fars i + slot_len (slots ! i) (fars ! i)"
  by (simp add: offset_of_def code_len_Suc)

lemma offset_mono_index: "i \<le> j \<Longrightarrow> offset_of slots fars i \<le> offset_of slots fars j"
  using code_len_take [of i "take j slots" "take j fars"] by (simp add: offset_of_def min_def split: if_splits)

section \<open>More far jumps, longer distances\<close>

definition le_fars :: "bool list \<Rightarrow> bool list \<Rightarrow> bool" where
  "le_fars fs gs \<longleftrightarrow> length fs = length gs \<and> (\<forall>i < length gs. fs ! i \<longrightarrow> gs ! i)"

lemma slot_len_mono: "(f \<longrightarrow> g) \<Longrightarrow> slot_len s f \<le> slot_len s g"
  by (cases s) auto

text \<open>The bytes between two slots.\<close>

definition span_len :: "slot list \<Rightarrow> bool list \<Rightarrow> nat \<Rightarrow> nat \<Rightarrow> nat" where
  "span_len slots fars i j = offset_of slots fars j - offset_of slots fars i"

lemma span_mono:
  assumes "le_fars fs gs" "length gs = length slots" "i \<le> j" "j \<le> length slots"
  shows "span_len slots fs i j \<le> span_len slots gs i j"
  using assms(3,4)
proof (induction rule: dec_induct)
  case (step n)
  have l: "length fs = length slots" using assms by (simp add: le_fars_def)
  have n: "n < length slots" using step.prems by simp
  have "slot_len (slots ! n) (fs ! n) \<le> slot_len (slots ! n) (gs ! n)"
    using assms(1,2) n by (intro slot_len_mono) (simp add: le_fars_def)
  then show ?case
    using step.IH n offset_mono_index [OF step.hyps(1), of slots fs] offset_mono_index [OF step.hyps(1), of slots gs]
    by (simp add: span_len_def offset_Suc l assms(2))
qed (simp add: span_len_def)

definition distance :: "slot list \<Rightarrow> bool list \<Rightarrow> nat \<Rightarrow> nat \<Rightarrow> int" where
  "distance slots fars i k = int (offset_of slots fars k) - int (offset_of slots fars i + 2)"

lemma distance_shrinks:
  assumes "le_fars fs gs" "length gs = length slots" "i < length slots" "k < length slots"
    and "slot_len (slots ! i) (fs ! i) = 2" "slot_len (slots ! i) (gs ! i) = 2"
    and "fits_i8 (distance slots gs i k)"
  shows "fits_i8 (distance slots fs i k)"
proof (cases "k \<le> i")
  case True
  have "span_len slots fs k i \<le> span_len slots gs k i" using span_mono [OF assms(1,2) True] assms(3) by simp
  then show ?thesis
    using assms(7) offset_mono_index [OF True, of slots fs] offset_mono_index [OF True, of slots gs]
    by (simp add: fits_i8_def distance_def span_len_def)
next
  case False
  then have le: "Suc i \<le> k" by simp
  have l: "length fs = length slots" using assms(1,2) by (simp add: le_fars_def)
  have "span_len slots fs (Suc i) k \<le> span_len slots gs (Suc i) k" using span_mono [OF assms(1,2) le] assms(4) by simp
  then show ?thesis
    using assms(5-7) offset_mono_index [OF le, of slots fs] offset_mono_index [OF le, of slots gs]
    by (simp add: fits_i8_def distance_def span_len_def offset_Suc l assms(2,3))
qed

section \<open>The relaxation loop\<close>

definition labels_in :: "label_slots \<Rightarrow> nat \<Rightarrow> bool" where
  "labels_in ls n \<longleftrightarrow> (\<forall>l k. map_of ls l = Some k \<longrightarrow> k < n)"

lemma relax_pass_nth:
  assumes "length sts = length slots" "length fars = length slots"
  shows "relax_pass res slots sts fars = Inr fars' \<longleftrightarrow>
    length fars' = length slots \<and> (\<forall>i < length slots. relax_slot res (slots ! i) (sts ! i) (fars ! i) = Inr (fars' ! i))"
  using assms
proof (induction res slots sts fars arbitrary: fars' rule: relax_pass.induct)
  case (1 res s slots at sts far fars)
  show ?case
  proof (cases fars')
    case Nil
    then show ?thesis by (cases "relax_pass res slots sts fars") (auto split: sum.split)
  next
    case (Cons f fs)
    have "relax_pass res (s # slots) (at # sts) (far # fars) = Inr (f # fs)
        \<longleftrightarrow> relax_slot res s at far = Inr f \<and> relax_pass res slots sts fars = Inr fs"
      by (cases "relax_slot res s at far"; cases "relax_pass res slots sts fars") auto
    then show ?thesis using Cons "1.IH" [of _ fs] "1.prems" by (auto simp: nth_Cons split: nat.split)
  qed
qed auto

lemma displacement_distance:
  assumes "length fars = length slots" "layout_fits slots fars" "i < length slots" "k < length slots"
    and "slot_len (slots ! i) (fars ! i) = 2"
  shows "displacement (starts 1 slots fars ! k) (starts 1 slots fars ! i + 2) = distance slots fars i k"
proof -
  have "offset_of slots fars i + 2 < 2 ^ 32"
    using offset_bound [OF assms(2), of "Suc i"] offset_Suc [OF assms(1,3)] assms(5) by simp
  then have "unat (starts 1 slots fars ! i + 2) = offset_of slots fars i + 2"
    using unat_starts [OF assms(1,3,2)] by (simp add: unat_word_ariths)
  then show ?thesis
    using unat_starts [OF assms(1,4,2)]
    by (simp add: displacement_def distance_def uint_nat)
qed

lemma displacement_offsets:
  assumes "length fars = length slots" "layout_fits slots fars" "i < length slots" "k < length slots"
  shows "displacement (starts 1 slots fars ! k) (starts 1 slots fars ! i + of_nat (slot_len (slots ! i) (fars ! i)))
    = int (offset_of slots fars k) - int (offset_of slots fars (Suc i))"
proof -
  have b: "offset_of slots fars i + slot_len (slots ! i) (fars ! i) < 2 ^ 32"
    using offset_bound [OF assms(2), of "Suc i"] offset_Suc [OF assms(1,3)] by simp
  then have "slot_len (slots ! i) (fars ! i) < 2 ^ 32" by simp
  then have "unat (of_nat (slot_len (slots ! i) (fars ! i)) :: u32) = slot_len (slots ! i) (fars ! i)"
    by (simp add: unat_of_nat take_bit_nat_eq_self)
  then have "unat (starts 1 slots fars ! i + of_nat (slot_len (slots ! i) (fars ! i))) = offset_of slots fars (Suc i)"
    using unat_starts [OF assms(1,3,2)] b offset_Suc [OF assms(1,3)] by (simp add: unat_word_ariths)
  then show ?thesis
    using unat_starts [OF assms(1,4,2)] by (simp add: displacement_def uint_nat)
qed

lemma relax_short_slot:
  assumes "length fars = length slots" "layout_fits slots fars" "labels_in ls (length slots)" "i < length slots"
    and "slots ! i = SJump sp tsp f s forced target" "\<not> fars ! i"
  shows "relax_slot (label_start ls (starts 1 slots fars)) (slots ! i) (starts 1 slots fars ! i) (fars ! i) =
    (case map_of ls target of
       None \<Rightarrow> asm_err tsp (UnknownLabel target)
     | Some k \<Rightarrow>
         if fits_i8 (distance slots fars i k) then Inr False
         else if forced then asm_err tsp (ShortOffsetOutOfRange target) else Inr True)"
proof (cases "map_of ls target")
  case None
  then show ?thesis using assms by (simp add: label_start_def asm_err_def)
next
  case (Some k)
  then have "k < length slots" using assms(3) by (simp add: labels_in_def)
  then show ?thesis
    using displacement_distance [OF assms(1,2,4), of k] assms(5,6) Some by (simp add: label_start_def)
qed

lemma relax_far_slot [simp]: "relax_slot res s at True = Inr True"
  by (cases "(res, s, at, True)" rule: relax_slot.cases) auto

text \<open>A choice of jump forms under which every label is known and every short jump reaches.\<close>

fun form_ok :: "label_slots \<Rightarrow> slot list \<Rightarrow> bool list \<Rightarrow> nat \<Rightarrow> slot \<Rightarrow> bool" where
  "form_ok ls slots fars i (SJump sp tsp f s forced target) \<longleftrightarrow>
     (case map_of ls target of
        None \<Rightarrow> False
      | Some k \<Rightarrow> if fars ! i then \<not> (forced \<and> s \<noteq> None) else s \<noteq> None \<and> fits_i8 (distance slots fars i k))"
| "form_ok ls slots fars i _ \<longleftrightarrow> fars ! i"

definition forms_ok :: "label_slots \<Rightarrow> slot list \<Rightarrow> bool list \<Rightarrow> bool" where
  "forms_ok ls slots fars \<longleftrightarrow> length fars = length slots \<and> (\<forall>i < length slots. form_ok ls slots fars i (slots ! i))"

definition jumps_known :: "label_slots \<Rightarrow> slot list \<Rightarrow> bool" where
  "jumps_known ls slots \<longleftrightarrow>
     (\<forall>s \<in> set slots. case s of SJump sp tsp f sh forced target \<Rightarrow> map_of ls target \<noteq> None | _ \<Rightarrow> True)"

text \<open>What holds all along the loop.\<close>

fun flag_ok :: "slot \<Rightarrow> bool \<Rightarrow> bool" where
  "flag_ok (SJump sp tsp f s forced target) far \<longleftrightarrow> (s = None \<longrightarrow> far) \<and> (far \<longrightarrow> \<not> (forced \<and> s \<noteq> None))"
| "flag_ok _ far \<longleftrightarrow> far"

definition relaxing :: "slot list \<Rightarrow> bool list \<Rightarrow> bool" where
  "relaxing slots fars \<longleftrightarrow> length fars = length slots \<and> (\<forall>i < length slots. flag_ok (slots ! i) (fars ! i))"

lemma relaxing_start: "relaxing slots (map starts_far slots)"
proof -
  have "flag_ok s (starts_far s)" for s by (cases s) auto
  then show ?thesis by (simp add: relaxing_def)
qed

lemma relax_slot_flag: "relax_slot res s at far = Inr f \<Longrightarrow> flag_ok s far \<Longrightarrow> flag_ok s f"
  by (cases "(res, s, at, far)" rule: relax_slot.cases) (auto simp: asm_err_def split: sum.splits if_splits)

lemma relaxing_pass:
  assumes "relaxing slots fars" "relax_pass res slots sts fars = Inr fars'" "length sts = length slots"
  shows "relaxing slots fars'"
proof -
  have l: "length fars = length slots" using assms(1) by (simp add: relaxing_def)
  note p = assms(2) [unfolded relax_pass_nth [OF assms(3) l]]
  have "flag_ok (slots ! i) (fars' ! i)" if "i < length slots" for i
    by (rule relax_slot_flag) (use p assms(1) that in \<open>auto simp: relaxing_def\<close>)
  then show ?thesis using p by (simp add: relaxing_def)
qed

lemma relax_fixpoint:
  assumes "relax ls slots fars = Inr h" "relaxing slots fars"
  shows "relaxing slots h \<and> relax_pass (label_start ls (starts 1 slots h)) slots (starts 1 slots h) h = Inr h"
  using assms
proof (induction ls slots fars rule: relax.induct)
  case (1 ls slots fars)
  let ?sts = "starts 1 slots fars"
  obtain fars' where p: "relax_pass (label_start ls ?sts) slots ?sts fars = Inr fars'"
    using "1.prems"(1) by (subst (asm) relax.simps) (auto simp: Let_def split: sum.splits)
  show ?case
  proof (cases "fars' = fars")
    case True
    then have "h = fars" using "1.prems"(1) p by (subst (asm) relax.simps) (simp add: Let_def)
    then show ?thesis using p True "1.prems"(2) by simp
  next
    case False
    then have r: "relax ls slots fars' = Inr h" using "1.prems"(1) p by (subst (asm) relax.simps) (simp add: Let_def)
    have "length ?sts = length slots" using "1.prems"(2) by (simp add: relaxing_def)
    from "1.IH" [OF refl p False r relaxing_pass [OF "1.prems"(2) p this]] show ?thesis .
  qed
qed

lemma relax_forms_ok:
  assumes "relax ls slots (map starts_far slots) = Inr h" "layout_fits slots h" "labels_in ls (length slots)" "jumps_known ls slots"
  shows "forms_ok ls slots h"
proof -
  have h: "relaxing slots h" "relax_pass (label_start ls (starts 1 slots h)) slots (starts 1 slots h) h = Inr h"
    using relax_fixpoint [OF assms(1) relaxing_start] by simp_all
  have l: "length h = length slots" using h(1) by (simp add: relaxing_def)
  have "form_ok ls slots h i (slots ! i)" if i: "i < length slots" for i
  proof -
    have flag: "flag_ok (slots ! i) (h ! i)" using h(1) i by (simp add: relaxing_def)
    show ?thesis
    proof (cases "slots ! i")
      case (SJump sp tsp f s forced target)
      then obtain k where k: "map_of ls target = Some k"
        using assms(4) nth_mem [OF i] by (fastforce simp: jumps_known_def)
      show ?thesis
      proof (cases "h ! i")
        case True
        then show ?thesis using SJump k flag by auto
      next
        case False
        have "relax_slot (label_start ls (starts 1 slots h)) (slots ! i) (starts 1 slots h ! i) (h ! i) = Inr (h ! i)"
          using h(2) i l by (simp add: relax_pass_nth)
        then have "fits_i8 (distance slots h i k)"
          using relax_short_slot [OF l assms(2,3) i SJump False] k False by (auto simp: asm_err_def split: if_splits)
        then show ?thesis using SJump k False flag by auto
      qed
    qed (use flag in auto)
  qed
  then show ?thesis by (simp add: forms_ok_def l)
qed

lemma relax_below_pass:
  assumes "forms_ok ls slots g" "fits_u32 slots" "labels_in ls (length slots)" "relaxing slots fars" "le_fars fars g"
  shows "\<exists>fars'. relax_pass (label_start ls (starts 1 slots fars)) slots (starts 1 slots fars) fars = Inr fars' \<and> le_fars fars' g"
proof -
  let ?res = "label_start ls (starts 1 slots fars)"
  have l: "length fars = length slots" "length g = length slots"
    using assms(1,4) by (simp_all add: relaxing_def forms_ok_def)
  have "\<exists>f. relax_slot ?res (slots ! i) (starts 1 slots fars ! i) (fars ! i) = Inr f \<and> (f \<longrightarrow> g ! i)"
    if i: "i < length slots" for i
  proof (cases "fars ! i")
    case True
    then show ?thesis using assms(5) i l by (auto simp: le_fars_def)
  next
    case False
    have flag: "flag_ok (slots ! i) (fars ! i)" using assms(4) i by (simp add: relaxing_def)
    have form: "form_ok ls slots g i (slots ! i)" using assms(1) i by (simp add: forms_ok_def)
    show ?thesis
    proof (cases "slots ! i")
      case (SJump sp tsp f s forced target)
      obtain k where k: "map_of ls target = Some k" using form SJump by (auto split: option.splits)
      note r = relax_short_slot [OF l(1) widest_fits [OF assms(2)] assms(3) i SJump False]
      show ?thesis
      proof (cases "g ! i")
        case True
        then show ?thesis using r k form SJump False flag by auto
      next
        case short: False
        have "fits_i8 (distance slots g i k)" using form SJump short k by simp
        then have "fits_i8 (distance slots fars i k)"
          using distance_shrinks [OF assms(5) l(2) i] assms(3) k SJump False short by (simp add: labels_in_def)
        then show ?thesis using r k by auto
      qed
    qed (use flag False in simp_all)
  qed
  then obtain F where F: "\<And>i. i < length slots \<Longrightarrow>
      relax_slot ?res (slots ! i) (starts 1 slots fars ! i) (fars ! i) = Inr (F i) \<and> (F i \<longrightarrow> g ! i)" by metis
  have "relax_pass ?res slots (starts 1 slots fars) fars = Inr (map F [0..<length slots])"
    using F l by (subst relax_pass_nth) auto
  moreover have "le_fars (map F [0..<length slots]) g" using F l by (simp add: le_fars_def)
  ultimately show ?thesis by blast
qed

lemma relax_below:
  assumes "forms_ok ls slots g" "fits_u32 slots" "labels_in ls (length slots)"
  shows "relaxing slots fars \<Longrightarrow> le_fars fars g \<Longrightarrow> \<exists>h. relax ls slots fars = Inr h \<and> le_fars h g"
  using assms
proof (induction ls slots fars rule: relax.induct)
  case (1 ls slots fars)
  let ?sts = "starts 1 slots fars"
  obtain fars' where p: "relax_pass (label_start ls ?sts) slots ?sts fars = Inr fars'" and le: "le_fars fars' g"
    using relax_below_pass [OF "1.prems"(3,4,5,1,2)] by blast
  show ?case
  proof (cases "fars' = fars")
    case True
    then show ?thesis using p le by (subst relax.simps) (simp add: Let_def)
  next
    case False
    have "length ?sts = length slots" using "1.prems"(1) by (simp add: relaxing_def)
    from "1.IH" [OF refl p False relaxing_pass [OF "1.prems"(1) p this] le "1.prems"(3-5)] 
    show ?thesis using p False by (subst relax.simps) (simp add: Let_def)
  qed
qed

lemma forms_ok_start: "forms_ok ls slots g \<Longrightarrow> le_fars (map starts_far slots) g"
proof -
  assume g: "forms_ok ls slots g"
  have "g ! i" if "i < length slots" "starts_far (slots ! i)" for i
  proof -
    have "form_ok ls slots g i (slots ! i)" using g that(1) by (simp add: forms_ok_def)
    then show ?thesis using that(2) by (cases "slots ! i") (auto split: option.splits if_splits)
  qed
  then show ?thesis using g by (simp add: le_fars_def forms_ok_def)
qed

lemma forms_ok_known: "forms_ok ls slots g \<Longrightarrow> jumps_known ls slots"
  unfolding jumps_known_def
proof
  fix s
  assume g: "forms_ok ls slots g" and "s \<in> set slots"
  then obtain i where i: "i < length slots" "slots ! i = s" by (auto simp: in_set_conv_nth)
  then have "form_ok ls slots g i s" using g by (auto simp: forms_ok_def)
  then show "case s of SJump sp tsp f sh forced target \<Rightarrow> map_of ls target \<noteq> None | _ \<Rightarrow> True"
    by (cases s) (auto split: option.splits)
qed

text \<open>The loop finds the least choice, and fails only if there is none.\<close>

lemma relax_least:
  assumes "fits_u32 slots" "labels_in ls (length slots)" "forms_ok ls slots g"
  shows "\<exists>h. relax ls slots (map starts_far slots) = Inr h \<and> forms_ok ls slots h \<and> le_fars h g"
proof -
  obtain h where h: "relax ls slots (map starts_far slots) = Inr h" "le_fars h g"
    using relax_below [OF assms(3,1,2) relaxing_start forms_ok_start [OF assms(3)]] by blast
  then show ?thesis using relax_forms_ok [OF h(1) widest_fits [OF assms(1)] assms(2) forms_ok_known [OF assms(3)]] by blast
qed

end
