(* ===== verification/Assembler_Code.thy ===== *)
theory Assembler_Code
  imports Assembler_Layout
begin

text \<open>
  What the emission of a function produces, slot by slot: the bytes at the slot's address, one
  relocation per symbol site, one hole per table reference, one record per bound call.
\<close>

section \<open>Symbols\<close>

definition sym_at :: "symbol list \<Rightarrow> u32 \<Rightarrow> utf8 \<Rightarrow> bool" where
  "sym_at syms i n \<longleftrightarrow> unat i < length syms \<and> sym_name (syms ! unat i) = n"

definition index_ok :: "symbol list \<times> symbol_index \<Rightarrow> bool" where
  "index_ok = (\<lambda>(syms, ix).
     (\<forall>n c i. Option.bind (six_defined ix n) (column_of c) = Some i \<longrightarrow> sym_at syms i n)
   \<and> (\<forall>n i. six_external ix n = Some i \<longrightarrow> sym_at syms i n))"

definition more_externals :: "symbol list \<Rightarrow> symbol list \<Rightarrow> bool" where
  "more_externals syms syms' \<longleftrightarrow> (\<exists>ext. syms' = syms @ ext \<and> (\<forall>s \<in> set ext. sym_def s = External))"

lemma more_externals_refl [simp]: "more_externals syms syms"
  by (simp add: more_externals_def)

lemma more_externals_trans: "more_externals a b \<Longrightarrow> more_externals b c \<Longrightarrow> more_externals a c"
  by (auto simp: more_externals_def)

lemma more_externals_length: "more_externals syms syms' \<Longrightarrow> length syms \<le> length syms'"
  by (auto simp: more_externals_def)

lemma sym_at_more: "sym_at syms i n \<Longrightarrow> more_externals syms syms' \<Longrightarrow> sym_at syms' i n"
  by (auto simp: sym_at_def more_externals_def nth_append)

lemma bind_symbol_ok:
  assumes "bind_symbol n c sx = (i, sx')" "index_ok sx" "length (fst sx') < 2 ^ 32"
  shows "sym_at (fst sx') i n" "index_ok sx'" "more_externals (fst sx) (fst sx')"
    "six_defined (snd sx') = six_defined (snd sx)"
proof -
  obtain syms ix where sx: "sx = (syms, ix)" by fastforce
  let ?new = "syms @ [\<lparr>sym_name = n, sym_def = External\<rparr>]"
  have "sym_at (fst sx') i n \<and> index_ok sx' \<and> more_externals syms (fst sx') \<and> six_defined (snd sx') = six_defined ix"
  proof (cases "Option.bind (six_defined ix n) (column_of c)")
    case (Some j)
    then show ?thesis using assms(1,2) by (auto simp: sx bind_symbol_def index_ok_def)
  next
    case None
    show ?thesis
    proof (cases "six_external ix n")
      case (Some j)
      then show ?thesis using assms(1,2) None by (auto simp: sx bind_symbol_def index_ok_def)
    next
      case none: None
      then have r: "i = of_nat (length syms)" "sx' = (?new, ix\<lparr>six_external := (six_external ix)(n \<mapsto> i)\<rparr>)"
        using assms(1) None by (auto simp: sx bind_symbol_def Let_def)
      have at: "sym_at ?new i n"
        using assms(3) r by (simp add: sym_at_def unat_of_nat take_bit_nat_eq_self)
      have m: "more_externals syms ?new" by (simp add: more_externals_def)
      have "index_ok sx'" using assms(2) sym_at_more [OF _ m] at by (auto simp: sx r(2) index_ok_def)
      then show ?thesis using at m by (simp add: r(2))
    qed
  qed
  then show "sym_at (fst sx') i n" "index_ok sx'" "more_externals (fst sx) (fst sx')" "six_defined (snd sx') = six_defined (snd sx)"
    by (simp_all add: sx)
qed

section \<open>The contribution of a slot\<close>

fun slot_code :: "label_slots \<Rightarrow> u32 list \<Rightarrow> slot \<Rightarrow> u32 \<Rightarrow> bool \<Rightarrow> u8 list" where
  "slot_code ls sts (SFixed sp bs) at far = bs"
| "slot_code ls sts (SJump sp tsp f short forced target) at far =
     (let off = displacement (sts ! the (map_of ls target)) (at + (if far then 5 else 2)) in
      if far then f # le_u32 (word_of_int off) else [the short, word_of_int off])"
| "slot_code ls sts (SCall sp opc n) at far = [opc, 0, 0, 0, 0]"
| "slot_code ls sts (STableRef sp nsp opc n) at far = [opc, 0, 0, 0, 0]"
| "slot_code ls sts (SFramedCall sp opc target frame fsp) at far = [opc, 0, 0, 0, 0, 0, 0, 0, 0]"
| "slot_code ls sts (SBoundCall sp opc target binding) at far = [opc, 0, 0, 0, 0]"

lemma slot_code_length: "length (slot_code ls sts s at far) = slot_len s far"
  by (cases s) (auto simp: Let_def)

text \<open>The offset and the name of each symbol site, table hole and bound call.\<close>

fun slot_sites :: "slot \<Rightarrow> u32 \<Rightarrow> (u32 \<times> utf8) list" where
  "slot_sites (SCall sp opc n) at = [(at + 1, n)]"
| "slot_sites (SFramedCall sp opc target frame fsp) at = [(at + 1, target)]"
| "slot_sites _ at = []"

fun slot_refs :: "slot \<Rightarrow> u32 \<Rightarrow> table_ref_hole list" where
  "slot_refs (STableRef sp nsp opc n) at = [\<lparr>th_name = n, th_span = nsp, th_offset = at + 1, th_is_frame = False\<rparr>]"
| "slot_refs (SFramedCall sp opc target frame fsp) at =
     [\<lparr>th_name = frame, th_span = fsp, th_offset = at + 5, th_is_frame = True\<rparr>]"
| "slot_refs _ at = []"

fun slot_bound :: "slot \<Rightarrow> u32 \<Rightarrow> (u32 \<times> utf8 \<times> tape_binding list) list" where
  "slot_bound (SBoundCall sp opc target binding) at = [(at + 1, target, binding)]"
| "slot_bound _ at = []"

definition site_reloc :: "u32 \<Rightarrow> symbol list \<Rightarrow> u32 \<times> utf8 \<Rightarrow> relocation \<Rightarrow> bool" where
  "site_reloc b syms site r \<longleftrightarrow> rl_blob r = b \<and> rl_offset r = fst site \<and> sym_at syms (rl_symbol r) (snd site)"

definition site_bound :: "u32 \<Rightarrow> symbol list \<Rightarrow> u32 \<times> utf8 \<times> tape_binding list \<Rightarrow> bound_call \<Rightarrow> bool" where
  "site_bound b syms site r \<longleftrightarrow> bc_blob r = b \<and> bc_offset r = fst site \<and> sym_at syms (bc_symbol r) (fst (snd site))
     \<and> bc_binding r = snd (snd site)"

lemma site_reloc_more: "site_reloc b syms site r \<Longrightarrow> more_externals syms syms' \<Longrightarrow> site_reloc b syms' site r"
  by (auto simp: site_reloc_def intro: sym_at_more)

lemma site_bound_more: "site_bound b syms site r \<Longrightarrow> more_externals syms syms' \<Longrightarrow> site_bound b syms' site r"
  by (auto simp: site_bound_def intro: sym_at_more)

definition emits :: "u32 \<Rightarrow> emitted \<Rightarrow> emitted \<Rightarrow> u8 list \<Rightarrow> (u32 \<times> utf8) list \<Rightarrow> table_ref_hole list
    \<Rightarrow> (u32 \<times> utf8 \<times> tape_binding list) list \<Rightarrow> bool" where
  "emits b em em' code sites refs bounds \<longleftrightarrow>
     em_blob em' = em_blob em @ code \<and> em_refs em' = em_refs em @ refs
   \<and> (\<exists>rs. em_relocs em' = em_relocs em @ rs \<and> list_all2 (site_reloc b (fst (em_symbols em'))) sites rs)
   \<and> (\<exists>bs. em_bound em' = em_bound em @ bs \<and> list_all2 (site_bound b (fst (em_symbols em'))) bounds bs)
   \<and> index_ok (em_symbols em') \<and> more_externals (fst (em_symbols em)) (fst (em_symbols em'))
   \<and> six_defined (snd (em_symbols em')) = six_defined (snd (em_symbols em))"

lemma emits_trans:
  assumes "emits b em em1 c1 s1 r1 b1" "emits b em1 em2 c2 s2 r2 b2"
  shows "emits b em em2 (c1 @ c2) (s1 @ s2) (r1 @ r2) (b1 @ b2)"
proof -
  have m: "more_externals (fst (em_symbols em1)) (fst (em_symbols em2))" using assms(2) by (simp add: emits_def)
  obtain rs1 bs1 where 1: "em_relocs em1 = em_relocs em @ rs1" "list_all2 (site_reloc b (fst (em_symbols em1))) s1 rs1"
    "em_bound em1 = em_bound em @ bs1" "list_all2 (site_bound b (fst (em_symbols em1))) b1 bs1"
    using assms(1) by (auto simp: emits_def)
  obtain rs2 bs2 where 2: "em_relocs em2 = em_relocs em1 @ rs2" "list_all2 (site_reloc b (fst (em_symbols em2))) s2 rs2"
    "em_bound em2 = em_bound em1 @ bs2" "list_all2 (site_bound b (fst (em_symbols em2))) b2 bs2"
    using assms(2) by (auto simp: emits_def)
  have "list_all2 (site_reloc b (fst (em_symbols em2))) s1 rs1"
    by (rule list_all2_mono [OF 1(2)]) (rule site_reloc_more [OF _ m])
  moreover have "list_all2 (site_bound b (fst (em_symbols em2))) b1 bs1"
    by (rule list_all2_mono [OF 1(4)]) (rule site_bound_more [OF _ m])
  ultimately show ?thesis
    using assms 1 2 unfolding emits_def
    by (auto intro!: exI [of _ "rs1 @ rs2"] exI [of _ "bs1 @ bs2"] list_all2_appendI elim: more_externals_trans)
qed

lemma emits_bytes: "index_ok (em_symbols em) \<Longrightarrow> emits b em (push_bytes bs em) bs [] [] []"
  by (simp add: emits_def push_bytes_def)

lemma push_bytes_simps [simp]:
  "em_symbols (push_bytes bs em) = em_symbols em" "em_blob (push_bytes bs em) = em_blob em @ bs"
  by (simp_all add: push_bytes_def)

lemma bind_target_em:
  "bind_target n c em = (i, em') \<longleftrightarrow>
     (\<exists>syms. bind_symbol n c (em_symbols em) = (i, syms) \<and> em' = em\<lparr>em_symbols := syms\<rparr>)"
  by (auto simp: bind_target_def split: prod.splits)

lemma emits_symbol_hole:
  assumes "index_ok (em_symbols em)" "length (fst (em_symbols (symbol_hole b n c em))) < 2 ^ 32"
  shows "emits b em (symbol_hole b n c em) [0, 0, 0, 0] [(blob_end em, n)] [] []"
proof -
  obtain i em1 where t: "bind_target n c em = (i, em1)" by fastforce
  then obtain syms where s: "bind_symbol n c (em_symbols em) = (i, syms)" "em1 = em\<lparr>em_symbols := syms\<rparr>"
    by (auto simp: bind_target_em)
  have h: "symbol_hole b n c em = push_bytes [0, 0, 0, 0]
      (em1\<lparr>em_relocs := em_relocs em1 @ [\<lparr>rl_blob = b, rl_offset = blob_end em1, rl_symbol = i\<rparr>]\<rparr>)"
    by (simp add: symbol_hole_def t)
  have len: "length (fst syms) < 2 ^ 32" using assms(2) by (simp add: h s(2))
  note ok = bind_symbol_ok [OF s(1) assms(1) len]
  show ?thesis using ok by (simp add: emits_def h s(2) push_bytes_def site_reloc_def blob_end_def)
qed

lemma emits_bound_hole:
  assumes "index_ok (em_symbols em)" "length (fst (em_symbols (bound_hole b n c binding em))) < 2 ^ 32"
  shows "emits b em (bound_hole b n c binding em) [0, 0, 0, 0] [] [] [(blob_end em, n, binding)]"
proof -
  obtain i em1 where t: "bind_target n c em = (i, em1)" by fastforce
  then obtain syms where s: "bind_symbol n c (em_symbols em) = (i, syms)" "em1 = em\<lparr>em_symbols := syms\<rparr>"
    by (auto simp: bind_target_em)
  have h: "bound_hole b n c binding em = push_bytes [0, 0, 0, 0]
      (em1\<lparr>em_bound := em_bound em1 @ [\<lparr>bc_blob = b, bc_offset = blob_end em1, bc_symbol = i, bc_binding = binding\<rparr>]\<rparr>)"
    by (simp add: bound_hole_def t)
  have len: "length (fst syms) < 2 ^ 32" using assms(2) by (simp add: h s(2))
  note ok = bind_symbol_ok [OF s(1) assms(1) len]
  show ?thesis using ok by (simp add: emits_def h s(2) push_bytes_def site_bound_def blob_end_def)
qed

lemma emits_table_hole:
  "index_ok (em_symbols em) \<Longrightarrow>
     emits b em (table_hole n sp fr em) [0, 0, 0, 0] [] [\<lparr>th_name = n, th_span = sp, th_offset = blob_end em, th_is_frame = fr\<rparr>] []"
  by (simp add: emits_def table_hole_def push_bytes_def)

lemma table_hole_symbols [simp]: "em_symbols (table_hole n sp fr em) = em_symbols em"
  by (simp add: table_hole_def)

lemma symbol_hole_blob: "em_blob (symbol_hole b n c em) = em_blob em @ [0, 0, 0, 0]"
  by (simp add: symbol_hole_def bind_target_def split_beta)

lemma slot_emits:
  assumes "emit_slot ls sts b c s at far em = Some (Inr em')" "of_nat (length (em_blob em)) = at"
    and ix: "index_ok (em_symbols em)" and len: "length (fst (em_symbols em')) < 2 ^ 32"
  shows "emits b em em' (slot_code ls sts s at far) (slot_sites s at) (slot_refs s at) (slot_bound s at)"
proof -
  have one: "blob_end (push_bytes [opc] em) = at + 1" for opc
    using assms(2) by (simp add: blob_end_def)
  have ix1: "index_ok (em_symbols (push_bytes bs em))" for bs using ix by simp
  have sym: "emits b (push_bytes [opc] em) (symbol_hole b n c (push_bytes [opc] em)) [0, 0, 0, 0] [(at + 1, n)] [] []"
    if "length (fst (em_symbols (symbol_hole b n c (push_bytes [opc] em)))) < 2 ^ 32" for n opc
    using emits_symbol_hole [OF ix1 that] by (simp add: one)
  have bound: "emits b (push_bytes [opc] em) (bound_hole b n c bd (push_bytes [opc] em)) [0, 0, 0, 0] [] [] [(at + 1, n, bd)]"
    if "length (fst (em_symbols (bound_hole b n c bd (push_bytes [opc] em)))) < 2 ^ 32" for n opc bd
    using emits_bound_hole [OF ix1 that] by (simp add: one)
  have tab: "emits b (push_bytes [opc] em) (table_hole n sp fr (push_bytes [opc] em)) [0, 0, 0, 0] []
      [\<lparr>th_name = n, th_span = sp, th_offset = at + 1, th_is_frame = fr\<rparr>] []" for n opc sp fr
    using emits_table_hole [OF ix1 [of "[opc]"], of b n sp fr] by (simp add: one)
  show ?thesis
  proof (cases s)
    case (SFixed sp bs)
    then show ?thesis using assms(1) emits_bytes [OF ix] by auto
  next
    case (SJump sp tsp f short forced target)
    then obtain t where t: "label_start ls sts target tsp = Inr t" using assms(1) by (auto split: sum.splits)
    then have "t = sts ! the (map_of ls target)" by (auto simp: label_start_def asm_err_def split: option.splits)
    then have "em' = push_bytes (slot_code ls sts s at far) em"
      using assms(1) t SJump by (cases far) (auto simp: Let_def jump_bytes_def)
    then show ?thesis using emits_bytes [OF ix] SJump by simp
  next
    case (SCall sp opc n)
    have e: "em' = symbol_hole b n c (push_bytes [opc] em)" using assms(1) SCall by simp
    have "emits b em em' ([opc] @ [0, 0, 0, 0]) ([] @ [(at + 1, n)]) ([] @ []) ([] @ [])"
      by (rule emits_trans [OF emits_bytes [OF ix]]) (use sym len e in simp)
    then show ?thesis using SCall by simp
  next
    case (STableRef sp nsp opc n)
    have e: "em' = table_hole n nsp False (push_bytes [opc] em)" using assms(1) STableRef by simp
    have "emits b em em' ([opc] @ [0, 0, 0, 0]) ([] @ [])
        ([] @ [\<lparr>th_name = n, th_span = nsp, th_offset = at + 1, th_is_frame = False\<rparr>]) ([] @ [])"
      by (rule emits_trans [OF emits_bytes [OF ix]]) (use tab e in simp)
    then show ?thesis using STableRef by simp
  next
    case (SFramedCall sp opc target frame fsp)
    let ?em1 = "symbol_hole b target c (push_bytes [opc] em)"
    have e: "em' = table_hole frame fsp True ?em1" using assms(1) SFramedCall by simp
    have l: "length (fst (em_symbols ?em1)) < 2 ^ 32" using len e by simp
    have 1: "emits b em ?em1 ([opc] @ [0, 0, 0, 0]) ([] @ [(at + 1, target)]) ([] @ []) ([] @ [])"
      by (rule emits_trans [OF emits_bytes [OF ix]]) (rule sym [OF l])
    have "blob_end ?em1 = at + 5" using assms(2) by (simp add: blob_end_def symbol_hole_blob)
    then have 2: "emits b ?em1 em' [0, 0, 0, 0] [] [\<lparr>th_name = frame, th_span = fsp, th_offset = at + 5, th_is_frame = True\<rparr>] []"
      using emits_table_hole [of ?em1 b frame fsp True] 1 e by (simp add: emits_def)
    show ?thesis using emits_trans [OF 1 2] SFramedCall by simp
  next
    case (SBoundCall sp opc target binding)
    have e: "em' = bound_hole b target c binding (push_bytes [opc] em)" using assms(1) SBoundCall by simp
    have "emits b em em' ([opc] @ [0, 0, 0, 0]) ([] @ []) ([] @ []) ([] @ [(at + 1, target, binding)])"
      by (rule emits_trans [OF emits_bytes [OF ix]])
        (use bound len e in simp)
    then show ?thesis using SBoundCall by simp
  qed
qed

section \<open>A whole function\<close>

text \<open>What a function contributes: one chunk per slot, each at its address.\<close>

fun chunks :: "label_slots \<Rightarrow> u32 list \<Rightarrow> slot list \<Rightarrow> u32 list \<Rightarrow> bool list \<Rightarrow> u8 list list" where
  "chunks ls sts (s # slots) (at # ats) (far # fars) = slot_code ls sts s at far # chunks ls sts slots ats fars"
| "chunks ls sts _ _ _ = []"

fun per_slot :: "(slot \<Rightarrow> u32 \<Rightarrow> 'a list) \<Rightarrow> slot list \<Rightarrow> u32 list \<Rightarrow> 'a list" where
  "per_slot g (s # slots) (at # ats) = g s at @ per_slot g slots ats"
| "per_slot g _ _ = []"

lemma emits_lines: "emits b (em\<lparr>em_lines := l\<rparr>) em' c s r bs = emits b em em' c s r bs"
  by (simp add: emits_def)

lemma emit_slot_more:
  assumes "emit_slot ls sts b c s at far em = Some (Inr em')"
  shows "length (fst (em_symbols em)) \<le> length (fst (em_symbols em'))"
proof -
  have b: "length (fst sx) \<le> length (fst (snd (bind_symbol n c sx)))" for n sx
    by (auto simp: bind_symbol_def Let_def split: option.split prod.split)
  have h: "length (fst (em_symbols em)) \<le> length (fst (em_symbols (symbol_hole b n c em)))"
    "length (fst (em_symbols em)) \<le> length (fst (em_symbols (bound_hole b n c bd em)))" for n bd em
    using b [of "em_symbols em" n] by (simp_all add: symbol_hole_def bound_hole_def bind_target_def split_beta)
  show ?thesis
    using assms h(1) [of "push_bytes _ em"] h(2) [of "push_bytes _ em"]
    by (cases s) (auto simp: Let_def split: sum.splits)
qed

lemma emit_slots_more:
  "emit_slots ls sts b c slots ats fars em = Some (Inr em') \<Longrightarrow>
     length (fst (em_symbols em)) \<le> length (fst (em_symbols em'))"
proof (induction ls sts b c slots ats fars em rule: emit_slots.induct)
  case (1 ls sts b c s slots at ats far fars em)
  then show ?case by (fastforce dest: emit_slot_more split: option.splits sum.splits)
qed simp_all

lemma emit_slot_lines: "emit_slot ls sts b c s at far em = Some (Inr em') \<Longrightarrow> em_lines em' = em_lines em"
  by (cases s) (auto simp: Let_def push_bytes_def symbol_hole_def bound_hole_def table_hole_def bind_target_def split_beta
      split: sum.splits)

lemma emit_slots_lines:
  "emit_slots ls sts b c slots ats fars em = Some (Inr em') \<Longrightarrow> length ats = length slots \<Longrightarrow> length fars = length slots \<Longrightarrow>
     length (em_lines em') = length (em_lines em) + length slots"
proof (induction ls sts b c slots ats fars em rule: emit_slots.induct)
  case (1 ls sts b c s slots at ats far fars em)
  then show ?case by (auto dest!: emit_slot_lines split: option.splits sum.splits)
qed auto

lemma emit_slots_emits:
  "emit_slots ls sts b c slots (starts a slots fars) fars em = Some (Inr em') \<Longrightarrow>
     length fars = length slots \<Longrightarrow> of_nat (length (em_blob em)) = a \<Longrightarrow> index_ok (em_symbols em) \<Longrightarrow>
     length (fst (em_symbols em')) < 2 ^ 32 \<Longrightarrow>
     emits b em em' (concat (chunks ls sts slots (starts a slots fars) fars)) (per_slot slot_sites slots (starts a slots fars))
       (per_slot slot_refs slots (starts a slots fars)) (per_slot slot_bound slots (starts a slots fars))"
proof (induction a slots fars arbitrary: em rule: starts.induct)
  case (1 a s slots far fars)
  let ?em0 = "em\<lparr>em_lines := em_lines em @ [(a, slot_line s)]\<rparr>"
  obtain em1 where e: "emit_slot ls sts b c s a far ?em0 = Some (Inr em1)"
    and r: "emit_slots ls sts b c slots (starts (a + slot_size s far) slots fars) fars em1 = Some (Inr em')"
    using "1.prems"(1) by (auto split: option.splits sum.splits)
  have l: "length (fst (em_symbols em1)) < 2 ^ 32" using emit_slots_more [OF r] "1.prems"(5) by simp
  have 1: "emits b em em1 (slot_code ls sts s a far) (slot_sites s a) (slot_refs s a) (slot_bound s a)"
    using slot_emits [OF e _ _ l] "1.prems"(3,4) by (simp add: emits_lines)
  have "of_nat (length (em_blob em1)) = a + slot_size s far"
    using 1 "1.prems"(3) by (simp add: emits_def slot_code_length slot_size_word)
  moreover have "index_ok (em_symbols em1)" using 1 by (simp add: emits_def)
  ultimately have 2: "emits b em1 em' (concat (chunks ls sts slots (starts (a + slot_size s far) slots fars) fars))
     (per_slot slot_sites slots (starts (a + slot_size s far) slots fars))
     (per_slot slot_refs slots (starts (a + slot_size s far) slots fars))
     (per_slot slot_bound slots (starts (a + slot_size s far) slots fars))"
    using "1.IH" [OF r] "1.prems"(2,5) by simp
  show ?case using emits_trans [OF 1 2] by simp
qed (simp_all add: emits_def)

lemma chunks_length: "length fars = length slots \<Longrightarrow> length (chunks ls sts slots (starts a slots fars) fars) = length slots"
  by (induction a slots fars rule: starts.induct) simp_all

lemma chunks_nth:
  "length fars = length slots \<Longrightarrow> i < length slots \<Longrightarrow>
     chunks ls sts slots (starts a slots fars) fars ! i = slot_code ls sts (slots ! i) (starts a slots fars ! i) (fars ! i)"
proof (induction a slots fars arbitrary: i rule: starts.induct)
  case (1 a s slots far fars)
  then show ?case by (cases i) simp_all
qed simp_all

lemma chunks_code_len:
  "length fars = length slots \<Longrightarrow>
     length (concat (take i (chunks ls sts slots (starts a slots fars) fars))) = code_len (take i slots) (take i fars)"
proof (induction a slots fars arbitrary: i rule: starts.induct)
  case (1 a s slots far fars)
  then show ?case by (cases i) (simp_all add: slot_code_length)
qed simp_all

lemma concat_slice:
  "i < length css \<Longrightarrow> take (length (css ! i)) (drop (length (concat (take i css))) (concat css)) = css ! i"
proof (induction css arbitrary: i)
  case (Cons c css)
  then show ?case by (cases i) simp_all
qed simp

text \<open>The bytes of a slot stand at its address.\<close>

lemma chunk_at:
  assumes "length fars = length slots" "i < length slots"
  shows "take (slot_len (slots ! i) (fars ! i))
      (drop (offset_of slots fars i) (e # concat (chunks ls sts slots (starts a slots fars) fars)))
    = slot_code ls sts (slots ! i) (starts a slots fars ! i) (fars ! i)"
  using concat_slice [of i "chunks ls sts slots (starts a slots fars) fars"] assms
  by (simp add: offset_of_def chunks_length chunks_nth chunks_code_len slot_code_length)

lemma blob_length:
  assumes "length fars = length slots"
  shows "length (concat (chunks ls sts slots (starts a slots fars) fars)) = code_len slots fars"
  using chunks_code_len [OF assms, of "length slots" ls sts a] assms by (simp add: chunks_length)

section \<open>From items to slots\<close>

definition item_labels :: "source_item list \<Rightarrow> label_slots" where
  "item_labels items = concat (map (\<lambda>(i, it). map (\<lambda>l. (sn_name l, i)) (si_labels it)) (enumerate 0 items))"

lemma add_labels_eq:
  "add_labels lbls i ls = Inr ls' \<Longrightarrow> ls' = ls @ map (\<lambda>l. (sn_name l, i)) lbls"
  by (induction lbls i ls rule: add_labels.induct) (auto simp: asm_err_def split: if_splits)

lemma add_labels_distinct:
  "add_labels lbls i ls = Inr ls' \<Longrightarrow> distinct (map fst ls) \<Longrightarrow> distinct (map fst ls')"
  by (induction lbls i ls rule: add_labels.induct) (auto simp: asm_err_def split: if_splits)

lemma classify_Cons:
  assumes "classify sx sig (it # its) slots ls = Some (Inr r)"
  obtains ls1 s where "add_labels (si_labels it) (length slots) ls = Inr ls1" "item_slot sx sig it = Some (Inr s)"
    "classify sx sig its (slots @ [s]) ls1 = Some (Inr r)"
  using assms by (auto split: sum.splits option.splits)

lemma classify_slots:
  "classify sx sig items slots ls = Some (Inr (slots', ls')) \<Longrightarrow>
     \<exists>new. slots' = slots @ new \<and> list_all2 (\<lambda>it s. item_slot sx sig it = Some (Inr s)) items new"
proof (induction items arbitrary: slots ls)
  case (Cons it its)
  from Cons.prems obtain ls1 s where s: "item_slot sx sig it = Some (Inr s)"
    "classify sx sig its (slots @ [s]) ls1 = Some (Inr (slots', ls'))" by (rule classify_Cons)
  then obtain new where "slots' = (slots @ [s]) @ new" "list_all2 (\<lambda>it s. item_slot sx sig it = Some (Inr s)) its new"
    using Cons.IH by blast
  then show ?case using s(1) by (intro exI [of _ "s # new"]) simp
qed simp

lemma classify_labels:
  "classify sx sig items slots ls = Some (Inr (slots', ls')) \<Longrightarrow>
     ls' = ls @ concat (map (\<lambda>(i, it). map (\<lambda>l. (sn_name l, i)) (si_labels it)) (enumerate (length slots) items))"
proof (induction items arbitrary: slots ls)
  case (Cons it its)
  from Cons.prems obtain ls1 s where s: "add_labels (si_labels it) (length slots) ls = Inr ls1"
    "classify sx sig its (slots @ [s]) ls1 = Some (Inr (slots', ls'))" by (rule classify_Cons)
  show ?case using Cons.IH [OF s(2)] add_labels_eq [OF s(1)] by simp
qed simp

lemma classify_distinct:
  "classify sx sig items slots ls = Some (Inr (slots', ls')) \<Longrightarrow> distinct (map fst ls) \<Longrightarrow> distinct (map fst ls')"
proof (induction items arbitrary: slots ls)
  case (Cons it its)
  from Cons.prems(1) obtain ls1 s where s: "add_labels (si_labels it) (length slots) ls = Inr ls1"
    "classify sx sig its (slots @ [s]) ls1 = Some (Inr (slots', ls'))" by (rule classify_Cons)
  show ?case by (rule Cons.IH [OF s(2) add_labels_distinct [OF s(1) Cons.prems(2)]])
qed simp

lemma classified:
  assumes "classify sx sig items [] [] = Some (Inr (slots, ls))"
  shows "list_all2 (\<lambda>it s. item_slot sx sig it = Some (Inr s)) items slots" "ls = item_labels items" "distinct (map fst ls)"
  using classify_slots [OF assms] classify_labels [OF assms] classify_distinct [OF assms]
  by (simp_all only: item_labels_def append_Nil list.size list.map distinct.simps simp_thms ex_simps split: if_splits)

lemma item_labels_in:
  assumes "distinct (map fst (item_labels items))"
  shows "map_of (item_labels items) n = Some i \<longleftrightarrow> i < length items \<and> n \<in> sn_name ` set (si_labels (items ! i))"
proof -
  have "map_of (item_labels items) n = Some i \<longleftrightarrow> (n, i) \<in> set (item_labels items)"
    by (rule map_of_eq_Some_iff [OF assms])
  also have "\<dots> \<longleftrightarrow> i < length items \<and> n \<in> sn_name ` set (si_labels (items ! i))"
    by (fastforce simp: item_labels_def in_set_enumerate_eq)
  finally show ?thesis .
qed

lemma find_in: "find P xs = Some x \<Longrightarrow> x \<in> set xs \<and> P x"
  by (auto simp: find_Some_iff)

lemma by_opcode_in: "by_opcode sx opc = Some e \<Longrightarrow> e \<in> set (as_entries sx) \<and> se_opcode e = opc"
  by (auto simp: by_opcode_def find_Some_iff)

lemma encoded_slot_Inr:
  "encoded_slot sp opc oper = Inr s \<longleftrightarrow> (\<exists>bs. encode_operand oper = Inr bs \<and> s = SFixed sp (opc # bs))"
  by (auto simp: encoded_slot_def asm_err_def split: sum.splits)

lemma emit_slots_known:
  assumes "emit_slots ls sts b c slots ats fars em = Some (Inr em')" "length ats = length slots" "length fars = length slots"
  shows "jumps_known ls slots"
  using assms
proof (induction ls sts b c slots ats fars em rule: emit_slots.induct)
  case (1 ls sts b c s slots at ats far fars em)
  obtain em1 where e: "emit_slot ls sts b c s at far (em\<lparr>em_lines := em_lines em @ [(at, slot_line s)]\<rparr>) = Some (Inr em1)"
    "emit_slots ls sts b c slots ats fars em1 = Some (Inr em')"
    using "1.prems"(1) by (auto split: option.splits sum.splits)
  have "jumps_known ls slots" using "1.IH" [OF e(1) refl e(2)] "1.prems" by simp
  moreover have "case s of SJump sp tsp f sh forced target \<Rightarrow> map_of ls target \<noteq> None | _ \<Rightarrow> True"
    using e(1) by (auto simp: label_start_def asm_err_def split: slot.split option.splits)
  ultimately show ?case by (simp add: jumps_known_def)
qed (auto simp: jumps_known_def)

lemma assemble_function_parts:
  assumes "assemble_function sx f b sig symbols = Some (Inr (af, symbols'))"
  obtains slots ls fars em where "classify sx sig (sf_items f) [] [] = Some (Inr (slots, ls))"
    "relax ls slots (map starts_far slots) = Inr fars"
    "emit_slots ls (starts 1 slots fars) b (sf_volatile f) slots (starts 1 slots fars) fars
       \<lparr>em_blob = [as_entry_opcode sx], em_relocs = [], em_bound = [], em_lines = [], em_refs = [],
        em_symbols = symbols\<rparr> = Some (Inr em)"
    "af = \<lparr>af_blob = em_blob em, af_relocs = em_relocs em,
       af_debug = \<lparr>bd_labels = sorted_labels ls (starts 1 slots fars), bd_lines = em_lines em\<rparr>,
       af_refs = em_refs em, af_bound = em_bound em\<rparr>"
    "symbols' = em_symbols em"
  using assms by (auto simp: assemble_function_def Let_def split: option.splits sum.splits)

lemma labels_in_items:
  assumes "distinct (map fst (item_labels items))"
  shows "labels_in (item_labels items) (length items)"
  using item_labels_in [OF assms] by (simp add: labels_in_def)

lemma relax_length: "relax ls slots (map starts_far slots) = Inr fars \<Longrightarrow> length fars = length slots"
  using relax_fixpoint [OF _ relaxing_start] by (simp add: relaxing_def)

text \<open>The symbol sites, table references and bound calls of an item, with the place of the hole.\<close>

definition is_site :: "arch_syntax \<Rightarrow> u8 \<Rightarrow> bool" where
  "is_site sx opc \<longleftrightarrow> is_call sx opc \<and> map_option se_operand (by_opcode sx opc) \<noteq> Some KTableRef"

fun item_sites :: "arch_syntax \<Rightarrow> source_item \<Rightarrow> u32 \<Rightarrow> (u32 \<times> utf8) list" where
  "item_sites sx (InstrItem sp lbls opc (SoSymbolName n)) at = [(at + 1, sn_name n)]"
| "item_sites sx (InstrItem sp lbls opc (SoName n)) at = (if is_site sx opc then [(at + 1, sn_name n)] else [])"
| "item_sites sx (InstrItem sp lbls opc (SoFramedCall target frame)) at = [(at + 1, sn_name target)]"
| "item_sites sx it at = []"

fun item_refs :: "arch_syntax \<Rightarrow> source_item \<Rightarrow> u32 \<Rightarrow> table_ref_hole list" where
  "item_refs sx (InstrItem sp lbls opc (SoName n)) at =
     (if map_option se_operand (by_opcode sx opc) = Some KTableRef
      then [\<lparr>th_name = sn_name n, th_span = sn_span n, th_offset = at + 1, th_is_frame = False\<rparr>] else [])"
| "item_refs sx (InstrItem sp lbls opc (SoFramedCall target frame)) at =
     [\<lparr>th_name = sn_name frame, th_span = sn_span frame, th_offset = at + 5, th_is_frame = True\<rparr>]"
| "item_refs sx it at = []"

fun item_bound :: "source_item \<Rightarrow> u32 \<Rightarrow> (u32 \<times> utf8 \<times> tape_binding list) list" where
  "item_bound (InstrItem sp lbls opc (SoBoundCall target binding)) at =
     [(at + 1, sn_name target, map source_binding_to_object binding)]"
| "item_bound it at = []"

lemma slot_parts:
  assumes "item_slot sx sig it = Some (Inr s)"
  shows "slot_sites s at = item_sites sx it at" "slot_refs s at = item_refs sx it at" "slot_bound s at = item_bound it at"
proof -
  have "slot_sites s at = item_sites sx it at \<and> slot_refs s at = item_refs sx it at \<and> slot_bound s at = item_bound it at"
  proof (cases it)
    case (RawByteItem sp lbls v)
    then show ?thesis using assms by auto
  next
    case (InstrItem sp lbls opc oper)
    then obtain e where e: "by_opcode sx opc = Some e" and i: "instr_slot sx sig e sp oper = Inr s"
      using assms by auto
    have o': "se_opcode e = opc" using by_opcode_in [OF e] by simp
    have fixed: "encoded_slot sp' c o'' = Inr s \<Longrightarrow> slot_sites s at = [] \<and> slot_refs s at = [] \<and> slot_bound s at = []" for sp' c o''
      by (auto simp: encoded_slot_Inr)
    show ?thesis
    proof (cases oper)
      case (SoInts ints)
      then show ?thesis using i InstrItem fixed
        by (auto simp: instr_slot_def ints_slot_def width_error_def asm_err_def Let_def split: if_splits)
    next
      case (SoVector es vsp)
      then show ?thesis using i InstrItem fixed
        by (auto simp: instr_slot_def vector_slot_def width_error_def asm_err_def Let_def split: if_splits sum.splits)
    next
      case (SoWriteMove es ms vsp)
      then show ?thesis using i InstrItem fixed
        by (auto simp: instr_slot_def write_move_slot_def width_error_def asm_err_def Let_def split: if_splits sum.splits)
    next
      case (SoName n)
      then show ?thesis using i InstrItem e o'
        by (auto simp: instr_slot_def name_slot_def asm_err_def is_site_def Let_def split: if_splits option.splits)
    next
      case (SoSymbolName n)
      then show ?thesis using i InstrItem
        by (auto simp: instr_slot_def symbol_jump_slot_def asm_err_def Let_def split: if_splits asm_flow.splits)
    qed (use i InstrItem in \<open>auto simp: instr_slot_def asm_err_def Let_def split: if_splits\<close>)
  qed
  then show "slot_sites s at = item_sites sx it at" "slot_refs s at = item_refs sx it at" "slot_bound s at = item_bound it at"
    by simp_all
qed

text \<open>All of them, item by item.\<close>

definition all_items :: "(source_item \<Rightarrow> u32 \<Rightarrow> 'a list) \<Rightarrow> (nat \<Rightarrow> nat) \<Rightarrow> source_item list \<Rightarrow> 'a list" where
  "all_items g addr items = concat (map (\<lambda>i. g (items ! i) (of_nat (addr i))) [0..<length items])"

lemma per_slot_nth: "length ats = length slots \<Longrightarrow> per_slot g slots ats = concat (map (\<lambda>i. g (slots ! i) (ats ! i)) [0..<length slots])"
proof (induction g slots ats rule: per_slot.induct)
  case (1 g s slots at ats)
  have "[0..<length (s # slots)] = 0 # map Suc [0..<length slots]" by (simp add: upt_conv_Cons map_Suc_upt del: upt_Suc)
  then show ?case using 1 by (simp add: comp_def)
qed auto

lemma per_slot_items:
  assumes "list_all2 (\<lambda>it s. item_slot sx sig it = Some (Inr s)) items slots" "length fars = length slots"
    and "\<And>it s at. item_slot sx sig it = Some (Inr s) \<Longrightarrow> g s at = h it at"
  shows "per_slot g slots (starts 1 slots fars) = all_items h (offset_of slots fars) items"
proof -
  have n: "length items = length slots" using assms(1) by (rule list_all2_lengthD)
  have m: "map (\<lambda>i. g (slots ! i) (starts 1 slots fars ! i)) [0..<length slots]
      = map (\<lambda>i. h (items ! i) (of_nat (offset_of slots fars i))) [0..<length slots]"
    using list_all2_nthD [OF assms(1)] assms(3) starts_offset [OF assms(2)] n by simp
  show ?thesis unfolding per_slot_nth [OF starts_length [OF assms(2)]] all_items_def n m ..
qed

section \<open>The layout of an assembled function\<close>

lemma assembled_layout:
  assumes "assemble_function sx f b sig symbols = Some (Inr (af, symbols'))"
    and "index_ok symbols" "length (af_blob af) < 2 ^ 32" "length (fst symbols') < 2 ^ 32"
  obtains slots ls fars where
    "list_all2 (\<lambda>it s. item_slot sx sig it = Some (Inr s)) (sf_items f) slots"
    "ls = item_labels (sf_items f)" "distinct (map fst ls)" "length fars = length slots"
    "layout_fits slots fars" "labels_in ls (length slots)" "forms_ok ls slots fars"
    "af_blob af = as_entry_opcode sx # concat (chunks ls (starts 1 slots fars) slots (starts 1 slots fars) fars)"
    "bd_labels (af_debug af) = sorted_labels ls (starts 1 slots fars)"
    "length (bd_lines (af_debug af)) = length slots"
    "list_all2 (site_reloc b (fst symbols')) (all_items (item_sites sx) (offset_of slots fars) (sf_items f)) (af_relocs af)"
    "list_all2 (site_bound b (fst symbols')) (all_items item_bound (offset_of slots fars) (sf_items f)) (af_bound af)"
    "af_refs af = all_items (item_refs sx) (offset_of slots fars) (sf_items f)"
    "index_ok symbols'" "more_externals (fst symbols) (fst symbols')"
    "six_defined (snd symbols') = six_defined (snd symbols)"
  using assms(1)
proof (rule assemble_function_parts)
  fix slots ls fars em
  let ?items = "sf_items f" and ?sts = "starts 1 slots fars"
  let ?em0 = "\<lparr>em_blob = [as_entry_opcode sx], em_relocs = [], em_bound = [], em_lines = [], em_refs = [],
        em_symbols = symbols\<rparr>"
  assume c: "classify sx sig ?items [] [] = Some (Inr (slots, ls))"
    and r: "relax ls slots (map starts_far slots) = Inr fars"
    and em: "emit_slots ls ?sts b (sf_volatile f) slots ?sts fars ?em0 = Some (Inr em)"
    and af: "af = \<lparr>af_blob = em_blob em, af_relocs = em_relocs em,
       af_debug = \<lparr>bd_labels = sorted_labels ls ?sts, bd_lines = em_lines em\<rparr>,
       af_refs = em_refs em, af_bound = em_bound em\<rparr>" and sy: "symbols' = em_symbols em"
  note cl = classified [OF c]
  have n: "length ?items = length slots" using cl(1) by (rule list_all2_lengthD)
  have l: "length fars = length slots" by (rule relax_length [OF r])
  have emits: "emits b ?em0 em (concat (chunks ls ?sts slots ?sts fars)) (per_slot slot_sites slots ?sts)
        (per_slot slot_refs slots ?sts) (per_slot slot_bound slots ?sts)"
    by (rule emit_slots_emits [OF em l]) (use assms(2,4) sy in simp_all)
  then have blob: "af_blob af = as_entry_opcode sx # concat (chunks ls ?sts slots ?sts fars)" by (simp add: emits_def af)
  have lay: "layout_fits slots fars" using assms(3) blob blob_length [OF l] by (simp add: layout_fits_def)
  have lin: "labels_in ls (length slots)" using labels_in_items [of ?items] cl(2,3) n by simp
  have forms: "forms_ok ls slots fars"
    by (rule relax_forms_ok [OF r lay lin emit_slots_known [OF em]]) (simp_all add: l)
  have lines: "length (bd_lines (af_debug af)) = length slots" using emit_slots_lines [OF em] l by (simp add: af)
  note parts = per_slot_items [OF cl(1) l, of slot_sites "item_sites sx", OF slot_parts(1)]
    per_slot_items [OF cl(1) l, of slot_refs "item_refs sx", OF slot_parts(2)]
    per_slot_items [OF cl(1) l, of slot_bound item_bound, OF slot_parts(3)]
  show thesis
    by (rule that [OF cl(1,2,3) l lay lin forms blob _ lines])
      (use emits sy parts in \<open>simp_all add: emits_def af\<close>)
qed

text \<open>The holes of an item lie in its bytes.\<close>

lemma item_holes:
  assumes "item_slot sx sig it = Some (Inr s)"
  shows "\<forall>x \<in> set (item_sites sx it at). fst x = at + 1 \<and> 5 \<le> slot_len s far"
    and "\<forall>x \<in> set (item_bound it at). fst x = at + 1 \<and> 5 \<le> slot_len s far"
    and "\<forall>h \<in> set (item_refs sx it at). th_offset h = at + 1 \<and> 5 \<le> slot_len s far \<or> th_offset h = at + 5 \<and> 9 \<le> slot_len s far"
  unfolding slot_parts [OF assms, symmetric] by (cases s; simp)+

end
