(* ===== verification/Assembler_Correct.thy ===== *)
theory Assembler_Correct
  imports Assembler_Code Instruction_Step
begin

text \<open>
  The assembler against the instruction set. \<open>written\<close> says, from the source alone and the addresses of
  the items, which instruction an item stands for; the bytes at the item's address are the encoding of
  that instruction, which the virtual machine fetches and runs as a listing.
\<close>

section \<open>Syntax tables\<close>

text \<open>The table describes the instruction set it is written for.\<close>

definition pair_ok :: "arch \<Rightarrow> relax_pair \<Rightarrow> bool" where
  "pair_ok a p \<longleftrightarrow> operand_kind a (rp_far p) = Some KRelI32 \<and> operand_kind a (rp_short p) = Some KRelI8"

definition syntax_agrees :: "arch \<Rightarrow> arch_syntax \<Rightarrow> bool" where
  "syntax_agrees a sx \<longleftrightarrow>
     (\<forall>e \<in> set (as_entries sx). operand_kind a (se_opcode e) = Some (se_operand e)
        \<and> (se_operand e = KRelI8 \<longrightarrow> se_flow e = FlowCall \<or> se_opcode e \<in> rp_short ` set (as_relax_pairs sx)))
   \<and> (\<forall>p \<in> set (as_relax_pairs sx). pair_ok a p)"

lemma by_opcode_kind: "syntax_agrees a sx \<Longrightarrow> by_opcode sx opc = Some e \<Longrightarrow> operand_kind a opc = Some (se_operand e)"
  by (auto simp: syntax_agrees_def dest: by_opcode_in)

section \<open>What an item stands for\<close>

definition elems_are :: "(vec_elem \<Rightarrow> string + u32) \<Rightarrow> vec_elem list \<Rightarrow> u32 list \<Rightarrow> bool" where
  "elems_are vocab es vs \<longleftrightarrow> list_all2 (\<lambda>e v. vocab e = Inr v) es vs"

text \<open>A jump over \<open>d\<close> bytes: as written if that is the short form, else far, or short where it reaches.\<close>

definition jump_written :: "arch_syntax \<Rightarrow> u8 \<Rightarrow> int \<Rightarrow> u8 \<times> operand \<Rightarrow> bool" where
  "jump_written sx opc d w \<longleftrightarrow>
     (if opc \<in> rp_short ` set (as_relax_pairs sx) then w = (opc, OI8 (word_of_int d)) \<and> fits_i8 d
      else w = (opc, OI32 (word_of_int d))
         \<or> (\<exists>s. short_of sx opc = Some s \<and> w = (s, OI8 (word_of_int d)) \<and> fits_i8 d))"

text \<open>
  \<open>addr\<close> gives the address of every item, the end of the code as that of the item after the last. The
  operands of calls and table references are holes.
\<close>

fun written ::
  "arch_syntax \<Rightarrow> (nat \<Rightarrow> nat) \<Rightarrow> label_slots \<Rightarrow> nat \<Rightarrow> syntax_entry \<Rightarrow> source_operand \<Rightarrow> u8 \<times> operand \<Rightarrow> bool" where
  "written sx addr ls i e SoNone w \<longleftrightarrow> w = (se_opcode e, ONone)"
| "written sx addr ls i e (SoImm v) w \<longleftrightarrow> w = (se_opcode e, OImm v)"
| "written sx addr ls i e (SoInts ints) w \<longleftrightarrow>
     (\<forall>n \<in> set ints. 0 \<le> n \<and> n < 2 ^ 32) \<and> w = (se_opcode e, OSymbols (map word_of_int ints))"
| "written sx addr ls i e (SoVector es sp) w \<longleftrightarrow>
     (\<exists>vs. elems_are (if se_operand e = KMoveVec then move_vector_element else write_vector_element) es vs
        \<and> w = (se_opcode e, OSymbols vs))"
| "written sx addr ls i e (SoWriteMove es ms sp) w \<longleftrightarrow>
     (\<exists>vs ns. elems_are write_vector_element es vs \<and> elems_are move_vector_element ms ns
        \<and> w = (se_opcode e, OWriteMove vs ns))"
| "written sx addr ls i e (SoFramedCall target frame) w \<longleftrightarrow> w = (se_opcode e, OFramedCall 0 0)"
| "written sx addr ls i e (SoBoundCall target binding) w \<longleftrightarrow> w = (se_opcode e, OI32 0)"
| "written sx addr ls i e (SoSymbolName n) w \<longleftrightarrow> w = (se_opcode e, OI32 0)"
| "written sx addr ls i e (SoName n) w \<longleftrightarrow>
     (if se_operand e = KTableRef then w = (se_opcode e, OTable 0)
      else if is_call sx (se_opcode e) then w = (se_opcode e, OI32 0)
      else (\<exists>k. map_of ls (sn_name n) = Some k
              \<and> jump_written sx (se_opcode e) (int (addr k) - int (addr (Suc i))) w))"

definition item_coded :: "arch \<Rightarrow> arch_syntax \<Rightarrow> (nat \<Rightarrow> nat) \<Rightarrow> label_slots \<Rightarrow> nat \<Rightarrow> source_item \<Rightarrow> u8 list \<Rightarrow> bool" where
  "item_coded a sx addr ls i it bs \<longleftrightarrow>
     (case it of
        RawByteItem sp lbls v \<Rightarrow> bs = [v]
      | InstrItem sp lbls opc oper \<Rightarrow>
          (\<exists>e w. by_opcode sx opc = Some e \<and> written sx addr ls i e oper w
             \<and> fetchable a (fst w) (snd w) \<and> bs = instruction_bytes (fst w) (snd w)))"

text \<open>
  A call with a tape binding must be written with the far opcode: the assembler leaves four bytes for
  its operand whatever the opcode.
\<close>

definition far_binding :: "arch_syntax \<Rightarrow> source_item \<Rightarrow> bool" where
  "far_binding sx it \<longleftrightarrow>
     (case it of
        InstrItem sp lbls opc (SoBoundCall target binding) \<Rightarrow> map_option se_operand (by_opcode sx opc) \<noteq> Some KRelI8
      | _ \<Rightarrow> True)"

section \<open>The bytes of an item\<close>

lemma vocab_all_elems: "vocab_all f sp es = Inr vs \<Longrightarrow> elems_are f es vs"
proof (induction f sp es arbitrary: vs rule: vocab_all.induct)
  case (2 f sp e es)
  then show ?case
    by (cases "vocab_all f sp es") (auto simp: elems_are_def asm_err_def split: sum.splits)
qed (simp add: elems_are_def)

lemma fetchable_operand:
  assumes "operand_kind a opc = Some kind" "carries kind oper" "encode_operand oper = Inr bs"
  shows "fetchable a opc oper \<and> instruction_bytes opc oper = opc # bs"
  using assms by (simp add: fetchable_def instruction_bytes_def)

lemma le_u32_0: "le_u32 0 = [0, 0, 0, 0]"
  by code_simp

lemma fetchable_rel:
  "operand_kind a opc = Some KRelI32 \<Longrightarrow> fetchable a opc (OI32 v) \<and> instruction_bytes opc (OI32 v) = opc # le_u32 v"
  "operand_kind a opc = Some KRelI8 \<Longrightarrow> fetchable a opc (OI8 b) \<and> instruction_bytes opc (OI8 b) = [opc, b]"
  by (simp_all add: fetchable_def instruction_bytes_def)

text \<open>The slots other than jumps.\<close>

lemma fixed_slot_coded:
  assumes agree: "syntax_agrees a sx" and e: "by_opcode sx opc = Some e"
    and s: "instr_slot sx sig e sp oper = Inr (SFixed sp' bs)"
  shows "\<exists>w. written sx addr ls i e oper w \<and> fetchable a (fst w) (snd w) \<and> bs = instruction_bytes (fst w) (snd w)"
proof -
  have kind: "operand_kind a (se_opcode e) = Some (se_operand e)"
    using by_opcode_kind [OF agree e] by_opcode_in [OF e] by simp
  note f = fetchable_operand [OF kind]
  show ?thesis
  proof (cases oper)
    case SoNone
    then show ?thesis using s kind
      by (auto simp: instr_slot_def asm_err_def fetchable_def instruction_bytes_def split: if_splits)
  next
    case (SoImm v)
    then show ?thesis using s f [of "OImm v" "[v]"] by (auto simp: instr_slot_def asm_err_def split: if_splits)
  next
    case (SoInts ints)
    then have k: "se_operand e = KSymbolVec" and i: "ints_slot (se_opcode e) sp ints sig = Inr (SFixed sp' bs)"
      using s by (auto simp: instr_slot_def asm_err_def split: if_splits)
    have r: "\<forall>n \<in> set ints. 0 \<le> n \<and> n < 2 ^ 32"
      and b: "encoded_slot sp (se_opcode e) (OSymbols (map word_of_int ints)) = Inr (SFixed sp' bs)"
      using i by (auto simp: ints_slot_def width_error_def asm_err_def not_less not_le split: if_splits)
    then show ?thesis using SoInts k f by (auto simp: encoded_slot_Inr)
  next
    case (SoVector es vsp)
    let ?f = "if se_operand e = KMoveVec then move_vector_element else write_vector_element"
    have k: "se_operand e = KSymbolVec \<or> se_operand e = KMoveVec"
      and v: "vector_slot (se_opcode e) sp vsp es sig ?f = Inr (SFixed sp' bs)"
      using s SoVector by (auto simp: instr_slot_def asm_err_def Let_def split: if_splits)
    obtain vs where vs: "vocab_all ?f vsp es = Inr vs" "encoded_slot sp (se_opcode e) (OSymbols vs) = Inr (SFixed sp' bs)"
      using v by (auto simp: vector_slot_def width_error_def asm_err_def split: if_splits sum.splits)
    have "carries (se_operand e) (OSymbols vs)" using k by auto
    then show ?thesis using SoVector vs(2) vocab_all_elems [OF vs(1)] f [of "OSymbols vs"]
      by (intro exI [of _ "(se_opcode e, OSymbols vs)"]) (auto simp: encoded_slot_Inr)
  next
    case (SoWriteMove es ms vsp)
    then have k: "se_operand e = KWriteMoveVec" and v: "write_move_slot (se_opcode e) sp vsp es ms sig = Inr (SFixed sp' bs)"
      using s by (auto simp: instr_slot_def asm_err_def split: if_splits)
    obtain vs ns where vs: "vocab_all write_vector_element vsp es = Inr vs" "vocab_all move_vector_element vsp ms = Inr ns"
      "encoded_slot sp (se_opcode e) (OWriteMove vs ns) = Inr (SFixed sp' bs)"
      using v by (auto simp: write_move_slot_def width_error_def asm_err_def split: if_splits sum.splits)
    have "carries (se_operand e) (OWriteMove vs ns)" using k by auto
    then show ?thesis using SoWriteMove vs(3) vocab_all_elems [OF vs(1)] vocab_all_elems [OF vs(2)] f [of "OWriteMove vs ns"]
      by (intro exI [of _ "(se_opcode e, OWriteMove vs ns)"]) (auto simp: encoded_slot_Inr)
  qed (use s in \<open>auto simp: instr_slot_def symbol_jump_slot_def name_slot_def asm_err_def Let_def
      split: if_splits asm_flow.splits option.splits\<close>)
qed

lemma name_slot_jump:
  assumes "syntax_agrees a sx" "by_opcode sx opc = Some e" "se_operand e = KRelI8 \<or> se_operand e = KRelI32"
    and "name_slot sx e sp n = Inr (SJump sp' tsp far short forced target)"
  shows "target = sn_name n \<and> \<not> is_call sx (se_opcode e)
    \<and> (if se_opcode e \<in> rp_short ` set (as_relax_pairs sx) then forced \<and> short = Some (se_opcode e)
       else far = se_opcode e \<and> short = short_of sx (se_opcode e) \<and> operand_kind a far = Some KRelI32)"
proof -
  have e: "e \<in> set (as_entries sx)" "se_opcode e = opc" using by_opcode_in [OF assms(2)] by auto
  have c: "\<not> is_call sx (se_opcode e)"
    using assms(4) by (auto simp: name_slot_def Let_def asm_err_def split: if_splits)
  then have f: "se_flow e \<noteq> FlowCall" using assms(2) e(2) by (simp add: is_call_def)
  show ?thesis
  proof (cases "find (\<lambda>p. rp_short p = se_opcode e) (as_relax_pairs sx)")
    case (Some p)
    then have "se_opcode e \<in> rp_short ` set (as_relax_pairs sx)" using find_in [OF Some] by force
    then show ?thesis using assms(4) c Some by (auto simp: name_slot_def Let_def)
  next
    case None
    then have n: "se_opcode e \<notin> rp_short ` set (as_relax_pairs sx)" by (auto simp: find_None_iff)
    then have "se_operand e = KRelI32" using assms(1,3) e f by (auto simp: syntax_agrees_def)
    then show ?thesis using assms(1,4) c None n e by (auto simp: name_slot_def Let_def syntax_agrees_def)
  qed
qed

lemma jump_slot_coded:
  assumes agree: "syntax_agrees a sx" and e: "by_opcode sx opc = Some e"
    and s: "instr_slot sx sig e sp oper = Inr (slots ! i)" and i: "i < length slots"
    and jump: "slots ! i = SJump sp' tsp far short forced target"
    and forms: "forms_ok ls slots fars" "layout_fits slots fars" "labels_in ls (length slots)"
  shows "\<exists>w. written sx (offset_of slots fars) ls i e oper w \<and> fetchable a (fst w) (snd w)
    \<and> slot_code ls (starts 1 slots fars) (slots ! i) (starts 1 slots fars ! i) (fars ! i) = instruction_bytes (fst w) (snd w)"
proof -
  have kinds: "\<exists>n. oper = SoName n \<and> (se_operand e = KRelI8 \<or> se_operand e = KRelI32)
      \<and> name_slot sx e sp n = Inr (SJump sp' tsp far short forced target)"
    using s jump
    by (auto simp: instr_slot_def Let_def asm_err_def encoded_slot_def ints_slot_def vector_slot_def
        write_move_slot_def width_error_def symbol_jump_slot_def
      split: source_operand.splits if_splits sum.splits asm_flow.splits)
  then obtain n where n: "oper = SoName n" "se_operand e = KRelI8 \<or> se_operand e = KRelI32"
    "name_slot sx e sp n = Inr (SJump sp' tsp far short forced target)" by blast
  note nj = name_slot_jump [OF agree e n(2,3)]
  have l: "length fars = length slots" using forms(1) by (simp add: forms_ok_def)
  have form: "form_ok ls slots fars i (slots ! i)" using forms(1) i by (simp add: forms_ok_def)
  then obtain k where k: "map_of ls target = Some k" using jump by (auto split: option.splits)
  then have kn: "k < length slots" using forms(3) by (simp add: labels_in_def)
  let ?d = "int (offset_of slots fars k) - int (offset_of slots fars (Suc i))"
  have d: "displacement (starts 1 slots fars ! k) (starts 1 slots fars ! i + (if fars ! i then 5 else 2)) = ?d"
    using displacement_offsets [OF l forms(2) i kn] jump by (cases "fars ! i") simp_all
  have code: "slot_code ls (starts 1 slots fars) (slots ! i) (starts 1 slots fars ! i) (fars ! i)
      = (if fars ! i then far # le_u32 (word_of_int ?d) else [the short, word_of_int ?d])"
    unfolding jump slot_code.simps k option.sel d Let_def by simp
  have short_fits: "fits_i8 ?d \<and> short \<noteq> None" if "\<not> fars ! i"
    using form jump k that offset_Suc [OF l i] by (auto simp: distance_def)
  have pairs: "\<forall>p \<in> set (as_relax_pairs sx). pair_ok a p" using agree by (simp add: syntax_agrees_def)
  have w: "written sx (offset_of slots fars) ls i e oper w = jump_written sx (se_opcode e) ?d w" for w
    using nj k n by auto
  show ?thesis
  proof (cases "fars ! i")
    case True
    then have nf: "\<not> (forced \<and> short \<noteq> None)" using form jump k by simp
    then have far: "far = se_opcode e" "operand_kind a far = Some KRelI32"
      "se_opcode e \<notin> rp_short ` set (as_relax_pairs sx)" using nj by (auto split: if_splits)
    then show ?thesis unfolding w code using True fetchable_rel(1) [OF far(2)]
      by (intro exI [of _ "(far, OI32 (word_of_int ?d))"]) (simp add: jump_written_def)
  next
    case False
    obtain b where b: "short = Some b" using short_fits [OF False] by blast
    have kb: "operand_kind a b = Some KRelI8 \<and> jump_written sx (se_opcode e) ?d (b, OI8 (word_of_int ?d))"
    proof (cases "se_opcode e \<in> rp_short ` set (as_relax_pairs sx)")
      case True
      then show ?thesis using nj b pairs short_fits [OF False] by (auto simp: jump_written_def pair_ok_def)
    next
      case nin: False
      then have so: "short_of sx (se_opcode e) = Some b" using nj b by simp
      then have "\<exists>p \<in> set (as_relax_pairs sx). rp_short p = b" by (auto simp: short_of_def dest!: find_in)
      then have "operand_kind a b = Some KRelI8" using pairs by (auto simp: pair_ok_def)
      then show ?thesis using nin so short_fits [OF False] by (simp add: jump_written_def)
    qed
    then show ?thesis unfolding w code using False b fetchable_rel(2) [of a b]
      by (intro exI [of _ "(b, OI8 (word_of_int ?d))"]) simp
  qed
qed

text \<open>The slots with holes.\<close>

fun holes_coded :: "slot \<Rightarrow> bool" where
  "holes_coded (SCall sp opc n) \<longleftrightarrow> True"
| "holes_coded (STableRef sp nsp opc n) \<longleftrightarrow> True"
| "holes_coded (SFramedCall sp opc target frame fsp) \<longleftrightarrow> True"
| "holes_coded (SBoundCall sp opc target binding) \<longleftrightarrow> True"
| "holes_coded _ \<longleftrightarrow> False"

lemma hole_slot_coded:
  assumes agree: "syntax_agrees a sx" and e: "by_opcode sx opc = Some e"
    and s: "instr_slot sx sig e sp oper = Inr slot" and holes: "holes_coded slot"
    and far: "far_binding sx (InstrItem sp lbls opc oper)"
  shows "\<exists>w. written sx addr ls i e oper w \<and> fetchable a (fst w) (snd w)
    \<and> slot_code ls' sts slot at b = instruction_bytes (fst w) (snd w)"
proof -
  have kind: "operand_kind a (se_opcode e) = Some (se_operand e)"
    using by_opcode_kind [OF agree e] by_opcode_in [OF e] by simp
  have z: "le_u32 0 = [0, 0, 0, 0]" by (rule le_u32_0)
  show ?thesis
  proof (cases oper)
    case (SoName n)
    have "se_operand e = KTableRef \<and> slot = STableRef sp (sn_span n) (se_opcode e) (sn_name n)
        \<or> is_call sx (se_opcode e) \<and> se_operand e = KRelI32 \<and> slot = SCall (sn_span n) (se_opcode e) (sn_name n)"
      using s SoName holes by (auto simp: instr_slot_def name_slot_def asm_err_def Let_def split: if_splits option.splits)
    then show ?thesis using SoName kind z by (auto simp: fetchable_def instruction_bytes_def)
  next
    case (SoSymbolName n)
    have "se_operand e = KRelI32 \<and> slot = SCall (sn_span n) (se_opcode e) (sn_name n)"
      using s SoSymbolName holes
      by (auto simp: instr_slot_def symbol_jump_slot_def asm_err_def Let_def split: if_splits asm_flow.splits)
    then show ?thesis using SoSymbolName kind z by (auto simp: fetchable_def instruction_bytes_def)
  next
    case (SoFramedCall target frame)
    have "se_operand e = KFramedCall \<and> slot = SFramedCall sp (se_opcode e) (sn_name target) (sn_name frame) (sn_span frame)"
      using s SoFramedCall by (auto simp: instr_slot_def asm_err_def Let_def split: if_splits)
    then show ?thesis using SoFramedCall kind z by (auto simp: fetchable_def instruction_bytes_def)
  next
    case (SoBoundCall target binding)
    have "se_operand e = KRelI32 \<and> slot = SBoundCall (sn_span target) (se_opcode e) (sn_name target) (map source_binding_to_object binding)"
      using s SoBoundCall far e by (auto simp: instr_slot_def far_binding_def asm_err_def Let_def split: if_splits)
    then show ?thesis using SoBoundCall kind z by (auto simp: fetchable_def instruction_bytes_def)
  qed (use s holes in \<open>auto simp: instr_slot_def asm_err_def encoded_slot_def ints_slot_def vector_slot_def
        write_move_slot_def width_error_def Let_def split: if_splits sum.splits\<close>)
qed

section \<open>A function\<close>

lemma item_slot_coded:
  assumes agree: "syntax_agrees a sx" and it: "item_slot sx sig it = Some (Inr (slots ! i))" and i: "i < length slots"
    and forms: "forms_ok ls slots fars" "layout_fits slots fars" "labels_in ls (length slots)" and far: "far_binding sx it"
  shows "item_coded a sx (offset_of slots fars) ls i it
    (slot_code ls (starts 1 slots fars) (slots ! i) (starts 1 slots fars ! i) (fars ! i))"
proof (cases it)
  case (RawByteItem sp lbls v)
  then have "slots ! i = SFixed sp [v]" using it by simp
  then show ?thesis using RawByteItem by (simp add: item_coded_def)
next
  case (InstrItem sp lbls opc oper)
  then obtain e where e: "by_opcode sx opc = Some e" and s: "instr_slot sx sig e sp oper = Inr (slots ! i)"
    using it by auto
  have "\<exists>w. written sx (offset_of slots fars) ls i e oper w \<and> fetchable a (fst w) (snd w)
      \<and> slot_code ls (starts 1 slots fars) (slots ! i) (starts 1 slots fars ! i) (fars ! i) = instruction_bytes (fst w) (snd w)"
  proof (cases "slots ! i")
    case (SFixed sp' bs)
    then show ?thesis using fixed_slot_coded [OF agree e, of sig sp oper sp' bs] s by simp
  next
    case (SJump sp' tsp f short forced target)
    show ?thesis by (rule jump_slot_coded [OF agree e s i SJump forms])
  qed (use hole_slot_coded [OF agree e s] far InstrItem in simp_all)
  then show ?thesis using InstrItem e by (auto simp: item_coded_def)
qed

definition bytes_between :: "nat \<Rightarrow> nat \<Rightarrow> 'a list \<Rightarrow> 'a list" where
  "bytes_between i j xs = take (j - i) (drop i xs)"

text \<open>
  What an assembled function is: its entry byte, then every item at its address, the labels at the
  addresses of their items, a relocation for every symbol site.
\<close>

definition coded_function ::
  "arch \<Rightarrow> arch_syntax \<Rightarrow> source_function \<Rightarrow> assembled_function \<Rightarrow> (nat \<Rightarrow> nat) \<Rightarrow> bool" where
  "coded_function a sx f af addr \<longleftrightarrow>
     addr 0 = 1 \<and> addr (length (sf_items f)) = length (af_blob af)
   \<and> af_blob af ! 0 = as_entry_opcode sx
   \<and> (\<forall>i < length (sf_items f). addr i < addr (Suc i)
        \<and> item_coded a sx addr (item_labels (sf_items f)) i (sf_items f ! i) (bytes_between (addr i) (addr (Suc i)) (af_blob af)))
   \<and> set (bd_labels (af_debug af)) = (\<lambda>(n, i). (n, of_nat (addr i))) ` set (item_labels (sf_items f))"

lemma item_coded_ne: "item_coded a sx addr ls i it bs \<Longrightarrow> bs \<noteq> []"
  by (auto simp: item_coded_def fetchable_def instruction_bytes_def split: source_item.splits sum.splits option.splits)

lemma assembled_function:
  assumes agree: "syntax_agrees a sx" and asm: "assemble_function sx f b sig symbols = Some (Inr (af, symbols'))"
    and ix: "index_ok symbols" and far: "\<forall>it \<in> set (sf_items f). far_binding sx it"
    and fits: "length (af_blob af) < 2 ^ 32" "length (fst symbols') < 2 ^ 32"
  shows "\<exists>addr. coded_function a sx f af addr
    \<and> list_all2 (site_reloc b (fst symbols')) (all_items (item_sites sx) addr (sf_items f)) (af_relocs af)
    \<and> list_all2 (site_bound b (fst symbols')) (all_items item_bound addr (sf_items f)) (af_bound af)
    \<and> af_refs af = all_items (item_refs sx) addr (sf_items f)"
  using asm ix fits
proof (rule assembled_layout)
  fix slots ls fars
  let ?items = "sf_items f" and ?sts = "starts 1 slots fars" and ?addr = "offset_of slots fars"
  assume cl: "list_all2 (\<lambda>it s. item_slot sx sig it = Some (Inr s)) ?items slots"
    and ls: "ls = item_labels ?items" and dls: "distinct (map fst ls)" and l: "length fars = length slots"
    and lay: "layout_fits slots fars" and lin: "labels_in ls (length slots)" and forms: "forms_ok ls slots fars"
    and blob: "af_blob af = as_entry_opcode sx # concat (chunks ls ?sts slots ?sts fars)"
    and labels: "bd_labels (af_debug af) = sorted_labels ls ?sts"
    and rest: "list_all2 (site_reloc b (fst symbols')) (all_items (item_sites sx) ?addr ?items) (af_relocs af)"
      "list_all2 (site_bound b (fst symbols')) (all_items item_bound ?addr ?items) (af_bound af)"
      "af_refs af = all_items (item_refs sx) ?addr ?items"
  have n: "length ?items = length slots" using cl by (rule list_all2_lengthD)
  have item: "?addr i < ?addr (Suc i) \<and> item_coded a sx ?addr ls i (?items ! i) (bytes_between (?addr i) (?addr (Suc i)) (af_blob af))"
    if i: "i < length ?items" for i
  proof -
    have i': "i < length slots" using i n by simp
    have it: "item_slot sx sig (?items ! i) = Some (Inr (slots ! i))" using list_all2_nthD [OF cl i] .
    have code: "item_coded a sx ?addr ls i (?items ! i) (slot_code ls ?sts (slots ! i) (?sts ! i) (fars ! i))"
      by (rule item_slot_coded [OF agree it i' forms lay lin]) (use far i in simp)
    have "bytes_between (?addr i) (?addr (Suc i)) (af_blob af) = slot_code ls ?sts (slots ! i) (?sts ! i) (fars ! i)"
      using chunk_at [OF l i', of "as_entry_opcode sx" ls ?sts 1] offset_Suc [OF l i'] by (simp add: bytes_between_def blob)
    moreover have "0 < slot_len (slots ! i) (fars ! i)"
      using item_coded_ne [OF code] slot_code_length [of ls ?sts "slots ! i" "?sts ! i" "fars ! i"] by (metis length_greater_0_conv)
    ultimately show ?thesis using code offset_Suc [OF l i'] by simp
  qed
  have "set (bd_labels (af_debug af)) = (\<lambda>(n, i). (n, ?sts ! i)) ` set ls" by (simp add: labels sorted_labels_def)
  also have "\<dots> = (\<lambda>(n, i). (n, of_nat (?addr i))) ` set ls"
  proof (rule image_cong [OF refl])
    fix x assume x: "x \<in> set ls"
    obtain n i where ni: "x = (n, i)" by fastforce
    then have "map_of ls n = Some i" using x dls by simp
    then have "i < length slots" using lin by (simp add: labels_in_def)
    then show "(\<lambda>(n, i). (n, ?sts ! i)) x = (\<lambda>(n, i). (n, of_nat (?addr i))) x"
      using starts_offset [OF l] ni by simp
  qed
  finally have labels': "set (bd_labels (af_debug af)) = (\<lambda>(n, i). (n, of_nat (?addr i))) ` set (item_labels ?items)"
    by (simp add: ls)
  have ends: "?addr (length ?items) = length (af_blob af)"
    using l n blob_length [OF l, of ls ?sts 1] by (simp add: offset_of_def blob)
  have "coded_function a sx f af ?addr"
    unfolding coded_function_def using item ends labels' ls by (simp add: offset_of_def blob)
  then show ?thesis using rest by blast
qed

end
