(* ===== verification/Asm_Dialects.thy ===== *)
theory Asm_Dialects
  imports Assembler_Correct Pm1 Tm1
begin

text \<open>
  The two dialects (\<open>asm/mod.rs\<close> of the machine crates): the mnemonic tables agree with the instruction
  sets, so what the assembler makes of a function is a listing the virtual machine runs.
\<close>

section \<open>The tables\<close>

definition sx_entry :: "u8 \<Rightarrow> string \<Rightarrow> operand_kind \<Rightarrow> asm_flow \<Rightarrow> syntax_entry" where
  "sx_entry opc m k fl = \<lparr>se_opcode = opc, se_mnemonic = m, se_operand = k, se_flow = fl\<rparr>"

definition pm1_syntax :: arch_syntax where
  "pm1_syntax = \<lparr>as_entries =
     [sx_entry PM_NOP ''nop'' KNone FallThrough,
      sx_entry PM_STP ''stp'' KNone FlowStop,
      sx_entry PM_HLT ''hlt'' KNone FlowStop,
      sx_entry PM_LFT ''lft'' KNone FallThrough,
      sx_entry PM_RGT ''rgt'' KNone FallThrough,
      sx_entry PM_WR ''wr'' KSymbolVec FallThrough,
      sx_entry PM_WRL ''wrl'' KSymbolVec FallThrough,
      sx_entry PM_WRR ''wrr'' KSymbolVec FallThrough,
      sx_entry PM_JMP ''jmp'' KRelI32 FlowJump,
      sx_entry PM_JM ''jm'' KRelI32 FlowBranch,
      sx_entry PM_JNM ''jnm'' KRelI32 FlowBranch,
      sx_entry PM_CALL ''call'' KRelI32 FlowCall,
      sx_entry PM_RET ''ret'' KNone FlowStop,
      sx_entry PM_ENT ''ent'' KNone FallThrough,
      sx_entry PM_BRK ''brk'' KNone FallThrough,
      sx_entry PM_JMP_S ''jmp.s'' KRelI8 FlowJump,
      sx_entry PM_JM_S ''jm.s'' KRelI8 FlowBranch,
      sx_entry PM_JNM_S ''jnm.s'' KRelI8 FlowBranch,
      sx_entry PM_CALL_S ''call.s'' KRelI8 FlowCall],
     as_relax_pairs =
       [\<lparr>rp_far = PM_JMP, rp_short = PM_JMP_S\<rparr>, \<lparr>rp_far = PM_JM, rp_short = PM_JM_S\<rparr>,
        \<lparr>rp_far = PM_JNM, rp_short = PM_JNM_S\<rparr>, \<lparr>rp_far = PM_CALL, rp_short = PM_CALL_S\<rparr>],
     as_entry_opcode = PM_ENT, as_break_opcode = Some PM_BRK, as_trap_opcode = None,
     as_caps = \<lparr>caps_tables = False, caps_rept = False, caps_vectors = False, caps_volatile = True\<rparr>\<rparr>"

definition tm1_syntax :: arch_syntax where
  "tm1_syntax = \<lparr>as_entries =
     [sx_entry TM_NOP ''nop'' KNone FallThrough,
      sx_entry TM_STP ''stp'' KNone FlowStop,
      sx_entry TM_HLT ''hlt'' KNone FlowStop,
      sx_entry TM_RD ''rd'' KNone FallThrough,
      sx_entry TM_MTC ''mtc'' KTableRef FallThrough,
      sx_entry TM_DJMP ''djmp'' KTableRef FlowJump,
      sx_entry TM_WR ''wr'' KSymbolVec FallThrough,
      sx_entry TM_JMP ''jmp'' KRelI32 FlowJump,
      sx_entry TM_JM ''jm'' KRelI32 FlowBranch,
      sx_entry TM_JNM ''jnm'' KRelI32 FlowBranch,
      sx_entry TM_CALL ''call'' KRelI32 FlowCall,
      sx_entry TM_RET ''ret'' KNone FlowStop,
      sx_entry TM_ENT ''ent'' KNone FallThrough,
      sx_entry TM_BRK ''brk'' KNone FallThrough,
      sx_entry TM_MOV ''mov'' KMoveVec FallThrough,
      sx_entry TM_WRMV ''wrmv'' KWriteMoveVec FallThrough,
      sx_entry TM_TRAP ''trap'' KImm8 FallThrough,
      sx_entry TM_CALL_M ''call.m'' KFramedCall FlowCall,
      sx_entry TM_RETX ''retx'' KImm8 FlowStop,
      sx_entry TM_CALL_S ''call.s'' KRelI8 FlowCall],
     as_relax_pairs = [\<lparr>rp_far = TM_CALL, rp_short = TM_CALL_S\<rparr>],
     as_entry_opcode = TM_ENT, as_break_opcode = Some TM_BRK, as_trap_opcode = Some TM_TRAP,
     as_caps = \<lparr>caps_tables = True, caps_rept = True, caps_vectors = True, caps_volatile = False\<rparr>\<rparr>"

lemma pm1_agrees: "syntax_agrees pm1 pm1_syntax"
  by code_simp

lemma tm1_agrees: "syntax_agrees tm1 tm1_syntax"
  by code_simp

lemma pm1_entries: "map_option se_operand (by_opcode pm1_syntax opc) = operand_kind pm1 opc"
  by (simp add: by_opcode_def pm1_syntax_def sx_entry_def pm_operand_kind_def pm_opcodes)

lemma tm1_entries: "map_option se_operand (by_opcode tm1_syntax opc) = operand_kind tm1 opc"
  by (simp add: by_opcode_def tm1_syntax_def sx_entry_def tm_operand_kind_def tm_opcodes)

section \<open>Listings\<close>

text \<open>An assembled function in a code image, from some base.\<close>

definition code_at :: "u8 list \<Rightarrow> nat \<Rightarrow> u8 list \<Rightarrow> bool" where
  "code_at code base blob \<longleftrightarrow> base + length blob < 2 ^ 32 \<and> take (length blob) (drop base code) = blob \<and> base + length blob \<le> length code"

lemma slice_within:
  assumes "take (length blob) (drop base code) = blob" "j \<le> length blob" "i \<le> j"
  shows "take (j - i) (drop (base + i) code) = bytes_between i j blob"
proof -
  have "bytes_between i j blob = take (j - i) (drop i (take (length blob) (drop base code)))"
    using assms(1) by (simp add: bytes_between_def)
  also have "\<dots> = take (j - i) (drop (base + i) code)"
    using assms(2,3) by (simp add: drop_take add.commute)
  finally show ?thesis by simp
qed

lemma coded_bounds:
  assumes "coded_function a sx f af addr" "i \<le> length (sf_items f)"
  shows "addr i \<le> length (af_blob af)"
proof -
  have "addr i \<le> addr (length (sf_items f))" using assms(2)
  proof (induction rule: inc_induct)
    case (step n)
    then show ?case using assms(1) unfolding coded_function_def by (meson le_trans less_imp_le_nat)
  qed simp
  then show ?thesis using assms(1) by (simp add: coded_function_def)
qed

lemma coded_listed:
  assumes c: "coded_function a sx f af addr" and at: "code_at code base (af_blob af)"
    and i: "i < length (sf_items f)" "sf_items f ! i = InstrItem sp lbls opc oper"
  shows "\<exists>e w. by_opcode sx opc = Some e \<and> written sx addr (item_labels (sf_items f)) i e oper w
    \<and> listed a code [(of_nat (base + addr i), fst w, snd w)]"
proof -
  let ?bs = "bytes_between (addr i) (addr (Suc i)) (af_blob af)"
  have lt: "addr i < addr (Suc i)" and "item_coded a sx addr (item_labels (sf_items f)) i (sf_items f ! i) ?bs"
    using c i(1) by (auto simp: coded_function_def)
  then obtain e w where w: "by_opcode sx opc = Some e" "written sx addr (item_labels (sf_items f)) i e oper w"
    "fetchable a (fst w) (snd w)" "?bs = instruction_bytes (fst w) (snd w)"
    using i(2) by (auto simp: item_coded_def)
  have le: "addr (Suc i) \<le> length (af_blob af)" by (rule coded_bounds [OF c]) (use i(1) in simp)
  have len: "length ?bs = addr (Suc i) - addr i" using le lt by (simp add: bytes_between_def)
  have b: "base + addr i < 2 ^ 32" using at le lt by (simp add: code_at_def)
  then have u: "unat (of_nat (base + addr i) :: u32) = base + addr i" by (simp add: unat_of_nat take_bit_nat_eq_self del: of_nat_add)
  have "take (length ?bs) (drop (base + addr i) code) = ?bs"
    unfolding len by (rule slice_within [OF _ le]) (use at lt in \<open>simp_all add: code_at_def\<close>)
  moreover have "base + addr i + length ?bs < 2 ^ 32" "base + addr i + length ?bs \<le> length code"
    using at le lt len by (simp_all add: code_at_def)
  ultimately have "listed a code [(of_nat (base + addr i), fst w, snd w)]"
    unfolding listed_def using w(3,4) u by (simp add: Let_def split_beta del: of_nat_add)
  then show ?thesis using w(1,2) by blast
qed

section \<open>An example\<close>

text \<open>A loop on the PM-1: the backward jump is short, the jump over the long body far.\<close>

definition ax_span :: span where "ax_span = span_new 1 1 1 2"

definition ax_name :: "string \<Rightarrow> spanned_name" where
  "ax_name s = \<lparr>sn_name = lit s, sn_span = ax_span\<rparr>"

definition ax_instr :: "string list \<Rightarrow> u8 \<Rightarrow> source_operand \<Rightarrow> source_item" where
  "ax_instr lbls opc oper = InstrItem ax_span (map ax_name lbls) opc oper"

definition ax_function :: "nat \<Rightarrow> source_function" where
  "ax_function n = \<lparr>sf_name = lit ''main'', sf_name_span = ax_span, sf_local = False, sf_volatile = False,
     sf_items =
       [ax_instr [''again''] PM_RGT SoNone,
        ax_instr [] PM_JM (SoName (ax_name ''out'')),
        ax_instr [] PM_JMP (SoName (ax_name ''again''))]
       @ replicate n (ax_instr [] PM_WR (SoInts [1]))
       @ [ax_instr [''out''] PM_CALL (SoName (ax_name ''f'')), ax_instr [] PM_STP SoNone]\<rparr>"

definition ax_assembled :: "nat \<Rightarrow> assembled_function \<times> symbol list \<times> symbol_index" where
  "ax_assembled n = (case assemble_function pm1_syntax (ax_function n) 0 None ([], \<lparr>six_defined = Map.empty, six_external = Map.empty\<rparr>) of
     Some (Inr r) \<Rightarrow> r | _ \<Rightarrow> undefined)"

section \<open>Properties\<close>

text \<open>
  C38: an assembled function is the program it was written as. Under a syntax table that agrees with
  the instruction set, every item stands at the address the layout gives it, as the encoding of the
  instruction it was written as, jumps over exactly the distance to the item of their label; the label
  table tells these addresses; there is one relocation for each symbol site, in order, at the four
  bytes after its opcode, to a symbol of the callee's name. In any code image that holds the blob, its
  instructions are a listing at their addresses, so \<open>run_of_listing\<close> says how the machine runs them.
\<close>

theorem assembled_code:
  assumes "syntax_agrees a sx" "assemble_function sx f b sig symbols = Some (Inr (af, symbols'))"
    and "index_ok symbols" "\<forall>it \<in> set (sf_items f). far_binding sx it"
    and "length (af_blob af) < 2 ^ 32" "length (fst symbols') < 2 ^ 32"
  shows "\<exists>addr. coded_function a sx f af addr
    \<and> list_all2 (site_reloc b (fst symbols')) (all_items (item_sites sx) addr (sf_items f)) (af_relocs af)
    \<and> (\<forall>code base i sp lbls opc oper. code_at code base (af_blob af) \<and> i < length (sf_items f)
         \<and> sf_items f ! i = InstrItem sp lbls opc oper \<longrightarrow>
         (\<exists>e w. by_opcode sx opc = Some e \<and> written sx addr (item_labels (sf_items f)) i e oper w
            \<and> listed a code [(of_nat (base + addr i), fst w, snd w)]))"
proof -
  obtain addr where c: "coded_function a sx f af addr"
    "list_all2 (site_reloc b (fst symbols')) (all_items (item_sites sx) addr (sf_items f)) (af_relocs af)"
    using assembled_function [OF assms] by blast
  show ?thesis using c coded_listed [OF c(1)] by (intro exI [of _ addr]) blast
qed

lemma ax_assembled:
  "assemble_function pm1_syntax (ax_function 70) 0 None ([], \<lparr>six_defined = Map.empty, six_external = Map.empty\<rparr>)
     = Some (Inr (ax_assembled 70))"
  "length (af_blob (fst (ax_assembled 70))) = 155"
  "map sym_name (fst (snd (ax_assembled 70))) = [lit ''f'']"
proof -
  let ?r = "assemble_function pm1_syntax (ax_function 70) 0 None ([], \<lparr>six_defined = Map.empty, six_external = Map.empty\<rparr>)"
  have "case ?r of Some (Inr r) \<Rightarrow> length (af_blob (fst r)) = 155 \<and> map sym_name (fst (snd r)) = [lit ''f''] | _ \<Rightarrow> False"
    by code_simp
  then show "?r = Some (Inr (ax_assembled 70))" "length (af_blob (fst (ax_assembled 70))) = 155"
    "map sym_name (fst (snd (ax_assembled 70))) = [lit ''f'']"
    by (auto simp: ax_assembled_def split: option.splits sum.splits)
qed

lemma ax_far: "\<forall>it \<in> set (sf_items (ax_function n)). far_binding pm1_syntax it"
  by (auto simp: ax_function_def ax_instr_def far_binding_def)

theorem assembled_code_witness:
  "\<exists>addr. coded_function pm1 pm1_syntax (ax_function 70) (fst (ax_assembled 70)) addr
    \<and> list_all2 (site_reloc 0 (fst (snd (ax_assembled 70)))) (all_items (item_sites pm1_syntax) addr (sf_items (ax_function 70)))
        (af_relocs (fst (ax_assembled 70)))"
proof -
  have a: "assemble_function pm1_syntax (ax_function 70) 0 None ([], \<lparr>six_defined = Map.empty, six_external = Map.empty\<rparr>)
      = Some (Inr (fst (ax_assembled 70), snd (ax_assembled 70)))" using ax_assembled(1) by simp
  have "index_ok ([], \<lparr>six_defined = Map.empty, six_external = Map.empty\<rparr>)" by (simp add: index_ok_def)
  moreover have "length (fst (snd (ax_assembled 70))) = 1"
    using arg_cong [OF ax_assembled(3), of length] by simp
  ultimately show ?thesis
    using assembled_code [OF pm1_agrees a _ ax_far] ax_assembled(2) by auto
qed

text \<open>
  C39: relaxation is optimal. The loop that starts every jump short and grows those that do not reach
  ends; if it returns, and all labels are known, then every short jump reaches its label in the final
  layout, and any other choice of forms with that property has the same jumps far, and perhaps more;
  if it fails, no choice has the property.
\<close>

theorem relaxation_least:
  assumes "classify sx sig (sf_items f) [] [] = Some (Inr (slots, ls))" and "fits_u32 slots"
  shows "case relax ls slots (map starts_far slots) of
      Inr h \<Rightarrow> (jumps_known ls slots \<longrightarrow> forms_ok ls slots h) \<and> (\<forall>g. forms_ok ls slots g \<longrightarrow> le_fars h g)
    | Inl e \<Rightarrow> \<not> (\<exists>g. forms_ok ls slots g)"
proof -
  note cl = classified [OF assms(1)]
  have "length (sf_items f) = length slots" using cl(1) by (rule list_all2_lengthD)
  then have lin: "labels_in ls (length slots)" using labels_in_items [of "sf_items f"] cl(2,3) by simp
  show ?thesis
  proof (cases "relax ls slots (map starts_far slots)")
    case (Inl e)
    then show ?thesis using relax_least [OF assms(2) lin] by auto
  next
    case (Inr h)
    have "le_fars h g" if "forms_ok ls slots g" for g
      using relax_least [OF assms(2) lin that] Inr by auto
    then show ?thesis using Inr relax_forms_ok [OF Inr widest_fits [OF assms(2)] lin] by simp
  qed
qed

definition ax_slots :: "slot list" where
  "ax_slots = (case classify pm1_syntax None (sf_items (ax_function 70)) [] [] of Some (Inr r) \<Rightarrow> fst r | _ \<Rightarrow> [])"

definition ax_labels :: label_slots where
  "ax_labels = (case classify pm1_syntax None (sf_items (ax_function 70)) [] [] of Some (Inr r) \<Rightarrow> snd r | _ \<Rightarrow> [])"

theorem relaxation_least_witness:
  "take 4 (case relax ax_labels ax_slots (map starts_far ax_slots) of Inr h \<Rightarrow> h | Inl e \<Rightarrow> []) = [True, True, False, True]
   \<and> \<not> forms_ok ax_labels ax_slots (map starts_far ax_slots)"
proof -
  have "classify pm1_syntax None (sf_items (ax_function 70)) [] [] \<noteq> None
      \<and> (case classify pm1_syntax None (sf_items (ax_function 70)) [] [] of Some (Inl e) \<Rightarrow> False | _ \<Rightarrow> True)" by code_simp
  then have c: "classify pm1_syntax None (sf_items (ax_function 70)) [] [] = Some (Inr (ax_slots, ax_labels))"
    by (auto simp: ax_slots_def ax_labels_def split: sum.splits)
  have "widest ax_slots = 157" by code_simp
  then have "fits_u32 ax_slots" by (simp add: fits_u32_def)
  note r = relaxation_least [OF c this]
  have t: "case relax ax_labels ax_slots (map starts_far ax_slots) of
      Inr h \<Rightarrow> take 4 h = [True, True, False, True] \<and> h ! 1 \<and> 1 < length h | Inl e \<Rightarrow> False" by code_simp
  then obtain h where h: "relax ax_labels ax_slots (map starts_far ax_slots) = Inr h" "take 4 h = [True, True, False, True]"
    "h ! 1" "1 < length h" by (auto split: sum.splits)
  have "g ! 1" if "forms_ok ax_labels ax_slots g" for g
    using r h that by (simp add: le_fars_def)
  moreover have "\<not> map starts_far ax_slots ! 1" by code_simp
  ultimately show ?thesis using h by auto
qed

section \<open>A short call with a binding\<close>

text \<open>
  The guard that refuses \<open>call.s\<close> looks at plain calls only. With a tape binding the short opcode, which
  has a one-byte operand, is emitted with a four-byte hole.
\<close>

lemma short_bound_call_hole:
  "map_option (map_sum (\<lambda>_. ()) (\<lambda>r. (af_blob (fst r), map bc_offset (af_bound (fst r)))))
     (assemble_function tm1_syntax
       \<lparr>sf_name = lit ''main'', sf_name_span = ax_span, sf_local = False, sf_volatile = False,
        sf_items = [ax_instr [] TM_CALL_S (SoBoundCall (ax_name ''f'') [\<lparr>sb_caller_tape = 0, sb_pairs = []\<rparr>]),
                    ax_instr [] TM_STP SoNone]\<rparr>
       0 None ([], \<lparr>six_defined = Map.empty, six_external = Map.empty\<rparr>))
   = Some (Inr ([TM_ENT, TM_CALL_S, 0, 0, 0, 0, TM_STP], [2]))
   \<and> tm_operand_kind TM_CALL_S = Some KRelI8"
  by code_simp

end
