(* ===== verification/Asm_Object_Correct.thy ===== *)
theory Asm_Object_Correct
  imports Asm_Object Asm_Tables_Correct Asm_Dialects Object_Codec
begin

text \<open>
  What the assembler makes of a whole source: one function after the other into one symbol table, the
  tables their references lead to, and an object that keeps the invariants of the container.
\<close>

section \<open>The holes of a function\<close>

lemma hole_bytes: "length (instruction_bytes opc (OTable v)) = 5" "length (instruction_bytes opc (OI32 v)) = 5"
  "length (instruction_bytes opc (OFramedCall v w)) = 9"
  by (simp_all add: instruction_bytes_def)

lemma item_hole_room:
  assumes "item_coded a sx addr ls i it bs"
  shows "\<forall>x \<in> set (item_sites sx it at). fst x = at + 1 \<and> 5 \<le> length bs"
    and "\<forall>x \<in> set (item_bound it at). fst x = at + 1 \<and> 5 \<le> length bs"
    and "\<forall>h \<in> set (item_refs sx it at). th_offset h = at + 1 \<and> 5 \<le> length bs \<or> th_offset h = at + 5 \<and> 9 \<le> length bs"
    and "length (item_refs sx it at) \<le> 1"
proof -
  have "(\<forall>x \<in> set (item_sites sx it at). fst x = at + 1 \<and> 5 \<le> length bs)
    \<and> (\<forall>x \<in> set (item_bound it at). fst x = at + 1 \<and> 5 \<le> length bs)
    \<and> (\<forall>h \<in> set (item_refs sx it at). th_offset h = at + 1 \<and> 5 \<le> length bs \<or> th_offset h = at + 5 \<and> 9 \<le> length bs)
    \<and> length (item_refs sx it at) \<le> 1"
  proof (cases it)
    case (InstrItem sp lbls opc oper)
    then obtain e w where w: "by_opcode sx opc = Some e" "written sx addr ls i e oper w" "bs = instruction_bytes (fst w) (snd w)"
      using assms by (auto simp: item_coded_def)
    have o': "se_opcode e = opc" using by_opcode_in [OF w(1)] by simp
    show ?thesis using w InstrItem o'
      by (cases oper) (auto simp: hole_bytes is_site_def)
  qed simp
  then show "\<forall>x \<in> set (item_sites sx it at). fst x = at + 1 \<and> 5 \<le> length bs"
    "\<forall>x \<in> set (item_bound it at). fst x = at + 1 \<and> 5 \<le> length bs"
    "\<forall>h \<in> set (item_refs sx it at). th_offset h = at + 1 \<and> 5 \<le> length bs \<or> th_offset h = at + 5 \<and> 9 \<le> length bs"
    "length (item_refs sx it at) \<le> 1" by blast+
qed

lemma all_items_in:
  "x \<in> set (all_items g addr items) \<Longrightarrow> \<exists>i < length items. x \<in> set (g (items ! i) (of_nat (addr i)))"
  by (auto simp: all_items_def)

lemma coded_item:
  assumes c: "coded_function a sx f af addr" and fits: "length (af_blob af) < 2 ^ 32" and i: "i < length (sf_items f)"
  shows "item_coded a sx addr (item_labels (sf_items f)) i (sf_items f ! i) (bytes_between (addr i) (addr (Suc i)) (af_blob af))"
    "length (bytes_between (addr i) (addr (Suc i)) (af_blob af)) = addr (Suc i) - addr i" "addr i < addr (Suc i)"
    "addr (Suc i) \<le> length (af_blob af)"
    "n \<le> addr (Suc i) - addr i \<Longrightarrow> unat (of_nat (addr i) + of_nat n :: u32) = addr i + n"
proof -
  show lt: "addr i < addr (Suc i)"
    and "item_coded a sx addr (item_labels (sf_items f)) i (sf_items f ! i) (bytes_between (addr i) (addr (Suc i)) (af_blob af))"
    using c i by (auto simp: coded_function_def)
  show le: "addr (Suc i) \<le> length (af_blob af)" by (rule coded_bounds [OF c]) (use i in simp)
  show "length (bytes_between (addr i) (addr (Suc i)) (af_blob af)) = addr (Suc i) - addr i"
    using lt le by (simp add: bytes_between_def)
  show "unat (of_nat (addr i) + of_nat n :: u32) = addr i + n" if "n \<le> addr (Suc i) - addr i"
  proof -
    have "addr i + n < 2 ^ 32" using that lt le fits by simp
    then have "unat (of_nat (addr i + n) :: u32) = addr i + n" by (simp add: unat_of_nat take_bit_nat_eq_self del: of_nat_add)
    then show ?thesis by simp
  qed
qed

text \<open>A hole lies in the bytes of its item, behind the opcode.\<close>

lemma site_room:
  assumes "coded_function a sx f af addr" "length (af_blob af) < 2 ^ 32" "x \<in> set (all_items (item_sites sx) addr (sf_items f))"
  shows "unat (fst x) + 4 \<le> length (af_blob af)"
proof -
  obtain i where i: "i < length (sf_items f)" "x \<in> set (item_sites sx (sf_items f ! i) (of_nat (addr i)))"
    using all_items_in [OF assms(3)] by blast
  note ci = coded_item [OF assms(1,2) i(1)]
  show ?thesis using item_hole_room(1) [OF ci(1)] i(2) ci(2-4) ci(5) [of 1] by fastforce
qed

lemma bound_room:
  assumes "coded_function a sx f af addr" "length (af_blob af) < 2 ^ 32" "x \<in> set (all_items item_bound addr (sf_items f))"
  shows "unat (fst x) + 4 \<le> length (af_blob af)"
proof -
  obtain i where i: "i < length (sf_items f)" "x \<in> set (item_bound (sf_items f ! i) (of_nat (addr i)))"
    using all_items_in [OF assms(3)] by blast
  note ci = coded_item [OF assms(1,2) i(1)]
  show ?thesis using item_hole_room(2) [OF ci(1)] i(2) ci(2-4) ci(5) [of 1] by fastforce
qed

lemma ref_in_item:
  assumes "coded_function a sx f af addr" "length (af_blob af) < 2 ^ 32" "i < length (sf_items f)"
    and "h \<in> set (item_refs sx (sf_items f ! i) (of_nat (addr i)))"
  shows "addr i < unat (th_offset h)" "unat (th_offset h) + 4 \<le> addr (Suc i)"
proof -
  note ci = coded_item [OF assms(1,2,3)]
  show "addr i < unat (th_offset h)" "unat (th_offset h) + 4 \<le> addr (Suc i)"
    using item_hole_room(3) [OF ci(1)] assms(4) ci(2-4) ci(5) [of 1] ci(5) [of 5] by fastforce+
qed

lemma refs_apart:
  assumes "coded_function a sx f af addr" "length (af_blob af) < 2 ^ 32"
  shows "holes_apart (all_items (item_refs sx) addr (sf_items f))"
proof -
  let ?g = "\<lambda>i. item_refs sx (sf_items f ! i) (of_nat (addr i))"
  have "sorted_wrt (\<lambda>h h'. unat (th_offset h) + 4 \<le> unat (th_offset h')) (concat (map ?g [0..<n]))
      \<and> (\<forall>h \<in> set (concat (map ?g [0..<n])). unat (th_offset h) + 4 \<le> addr n)" if "n \<le> length (sf_items f)" for n
    using that
  proof (induction n)
    case (Suc n)
    then have n: "n < length (sf_items f)" and ih: "sorted_wrt (\<lambda>h h'. unat (th_offset h) + 4 \<le> unat (th_offset h')) (concat (map ?g [0..<n]))"
      "\<forall>h \<in> set (concat (map ?g [0..<n])). unat (th_offset h) + 4 \<le> addr n" by simp_all
    note ri = ref_in_item [OF assms n]
    note ci = coded_item [OF assms n]
    have "length (?g n) \<le> 1" by (rule item_hole_room(4) [OF ci(1)])
    then have one: "sorted_wrt (\<lambda>h h'. unat (th_offset h) + 4 \<le> unat (th_offset h')) (?g n)" by (cases "?g n") auto
    have before: "unat (th_offset h) + 4 \<le> unat (th_offset h')" if "h \<in> set (concat (map ?g [0..<n]))" "h' \<in> set (?g n)" for h h'
      using ih(2) ri(1) [OF that(2)] that(1) by fastforce
    have after: "unat (th_offset h) + 4 \<le> addr (Suc n)" if "h \<in> set (concat (map ?g [0..<n])) \<union> set (?g n)" for h
      using that
    proof
      assume "h \<in> set (concat (map ?g [0..<n]))"
      then have "unat (th_offset h) + 4 \<le> addr n" using ih(2) by blast
      then show ?thesis using ci(3) by simp
    next
      assume "h \<in> set (?g n)"
      then show ?thesis by (rule ri(2))
    qed
    have "concat (map ?g [0..<Suc n]) = concat (map ?g [0..<n]) @ ?g n" by simp
    then show ?case using ih(1) one before after by (simp only: sorted_wrt_append set_append) blast
  qed simp
  then show ?thesis unfolding holes_apart_def all_items_def by blast
qed

section \<open>The symbols of a source\<close>

text \<open>The names an item may turn into symbols.\<close>

fun item_symbols :: "source_item \<Rightarrow> utf8 set" where
  "item_symbols (InstrItem sp lbls opc (SoName n)) = {sn_name n}"
| "item_symbols (InstrItem sp lbls opc (SoSymbolName n)) = {sn_name n}"
| "item_symbols (InstrItem sp lbls opc (SoFramedCall target frame)) = {sn_name target}"
| "item_symbols (InstrItem sp lbls opc (SoBoundCall target binding)) = {sn_name target}"
| "item_symbols it = {}"

definition slot_symbols :: "slot \<Rightarrow> utf8 set" where
  "slot_symbols s = snd ` set (slot_sites s 0) \<union> (fst \<circ> snd) ` set (slot_bound s 0)"

definition names_of :: "symbol list \<times> symbol_index \<Rightarrow> utf8 set" where
  "names_of syms = sym_name ` set (fst syms)"

lemma slot_symbols_in: "item_slot sx sig it = Some (Inr s) \<Longrightarrow> slot_symbols s \<subseteq> item_symbols it"
  unfolding slot_symbols_def slot_parts by (cases it rule: item_symbols.cases) auto

lemma bind_names: "names_of (snd (bind_symbol n c syms)) \<subseteq> insert n (names_of syms)"
  by (auto simp: names_of_def bind_symbol_def Let_def split: option.splits prod.splits)

lemma hole_names:
  "names_of (em_symbols (symbol_hole b n c em)) \<subseteq> insert n (names_of (em_symbols em))"
  "names_of (em_symbols (bound_hole b n c bd em)) \<subseteq> insert n (names_of (em_symbols em))"
  using bind_names [of n c "em_symbols em"]
  by (simp_all add: symbol_hole_def bound_hole_def bind_target_def push_bytes_def split_beta)

lemma em_symbols_push [simp]: "em_symbols (push_bytes bs em) = em_symbols em"
  by (simp add: push_bytes_def)

lemma em_symbols_table [simp]: "em_symbols (table_hole n sp fr em) = em_symbols em"
  by (simp add: table_hole_def)

lemma emit_slot_names:
  assumes "emit_slot ls sts b c s at far em = Some (Inr em')"
  shows "names_of (em_symbols em') \<subseteq> names_of (em_symbols em) \<union> slot_symbols s"
proof -
  have h: "names_of (em_symbols (symbol_hole b n c (push_bytes bs em))) \<subseteq> insert n (names_of (em_symbols em))"
    "names_of (em_symbols (bound_hole b n c bd (push_bytes bs em))) \<subseteq> insert n (names_of (em_symbols em))" for n bs bd
    using hole_names(1) [of b n c "push_bytes bs em"] hole_names(2) [of b n c bd "push_bytes bs em"] by simp_all
  then show ?thesis using assms by (cases s) (auto simp: slot_symbols_def Let_def dest: subsetD [OF h(1)] subsetD [OF h(2)] split: sum.splits)
qed

lemma emit_slots_names:
  "emit_slots ls sts b c slots ats fars em = Some (Inr em') \<Longrightarrow>
     names_of (em_symbols em') \<subseteq> names_of (em_symbols em) \<union> \<Union> (slot_symbols ` set slots)"
proof (induction ls sts b c slots ats fars em rule: emit_slots.induct)
  case (1 ls sts b c s slots at ats far fars em)
  then obtain em1 where e: "emit_slot ls sts b c s at far (em\<lparr>em_lines := em_lines em @ [(at, slot_line s)]\<rparr>) = Some (Inr em1)"
    and r: "emit_slots ls sts b c slots ats fars em1 = Some (Inr em')" by (auto split: option.splits sum.splits)
  show ?case using emit_slot_names [OF e] "1.IH" [OF e refl r] by auto
qed auto

lemma assemble_function_symbols:
  assumes "assemble_function sx f b sig syms = Some (Inr (af, syms'))"
  shows "length (fst syms) \<le> length (fst syms')"
    and "names_of syms' \<subseteq> names_of syms \<union> \<Union> (item_symbols ` set (sf_items f))"
    and "length (bd_labels (af_debug af)) = length (item_labels (sf_items f))"
    and "length (bd_lines (af_debug af)) = length (sf_items f)"
    and "fst ` set (bd_labels (af_debug af)) = fst ` set (item_labels (sf_items f))"
proof -
  obtain slots ls fars em where c: "classify sx sig (sf_items f) [] [] = Some (Inr (slots, ls))"
    and r: "relax ls slots (map starts_far slots) = Inr fars"
    and em: "emit_slots ls (starts 1 slots fars) b (sf_volatile f) slots (starts 1 slots fars) fars
       \<lparr>em_blob = [as_entry_opcode sx], em_relocs = [], em_bound = [], em_lines = [], em_refs = [],
        em_symbols = syms\<rparr> = Some (Inr em)"
    and af: "af = \<lparr>af_blob = em_blob em, af_relocs = em_relocs em,
       af_debug = \<lparr>bd_labels = sorted_labels ls (starts 1 slots fars), bd_lines = em_lines em\<rparr>,
       af_refs = em_refs em, af_bound = em_bound em\<rparr>" and s: "syms' = em_symbols em"
    using assemble_function_parts [OF assms] by metis
  note cl = classified [OF c]
  have l: "length fars = length slots" by (rule relax_length [OF r])
  show "length (fst syms) \<le> length (fst syms')" using emit_slots_more [OF em] s by simp
  have sub: "\<Union> (slot_symbols ` set slots) \<subseteq> \<Union> (item_symbols ` set (sf_items f))"
  proof
    fix n assume "n \<in> \<Union> (slot_symbols ` set slots)"
    then obtain i where i: "i < length slots" "n \<in> slot_symbols (slots ! i)" by (auto simp: in_set_conv_nth)
    have "i < length (sf_items f)" using i(1) cl(1) by (simp add: list_all2_lengthD)
    moreover have "n \<in> item_symbols (sf_items f ! i)"
      using i slot_symbols_in list_all2_nthD2 [OF cl(1) i(1)] by blast
    ultimately show "n \<in> \<Union> (item_symbols ` set (sf_items f))" by auto
  qed
  have n: "names_of syms' \<subseteq> names_of syms \<union> \<Union> (slot_symbols ` set slots)" using emit_slots_names [OF em] s by simp
  show "names_of syms' \<subseteq> names_of syms \<union> \<Union> (item_symbols ` set (sf_items f))"
    by (rule subset_trans [OF n Un_mono [OF subset_refl sub]])
  show "length (bd_labels (af_debug af)) = length (item_labels (sf_items f))" using cl(2) by (simp add: af sorted_labels_def)
  show "length (bd_lines (af_debug af)) = length (sf_items f)"
    using emit_slots_lines [OF em] l list_all2_lengthD [OF cl(1)] by (simp add: af)
  show "fst ` set (bd_labels (af_debug af)) = fst ` set (item_labels (sf_items f))"
    using cl(2) by (force simp: af sorted_labels_def)
qed

section \<open>One function after the other\<close>

definition assembled_as ::
  "arch \<Rightarrow> arch_syntax \<Rightarrow> u32 \<Rightarrow> symbol list \<Rightarrow> source_function \<Rightarrow> assembled_function \<Rightarrow> (nat \<Rightarrow> nat) \<Rightarrow> bool" where
  "assembled_as a sx b syms f af addr \<longleftrightarrow>
     coded_function a sx f af addr
   \<and> list_all2 (site_reloc b syms) (all_items (item_sites sx) addr (sf_items f)) (af_relocs af)
   \<and> list_all2 (site_bound b syms) (all_items item_bound addr (sf_items f)) (af_bound af)
   \<and> af_refs af = all_items (item_refs sx) addr (sf_items f)
   \<and> length (bd_labels (af_debug af)) = length (item_labels (sf_items f))
   \<and> length (bd_lines (af_debug af)) = length (sf_items f)"

lemma assembled_as_more:
  assumes "assembled_as a sx b syms f af addr" "more_externals syms syms'"
  shows "assembled_as a sx b syms' f af addr"
proof -
  have "list_all2 (site_reloc b syms') (all_items (item_sites sx) addr (sf_items f)) (af_relocs af)"
    by (rule list_all2_mono [of "site_reloc b syms"]) (use assms in \<open>auto simp: assembled_as_def intro: site_reloc_more\<close>)
  moreover have "list_all2 (site_bound b syms') (all_items item_bound addr (sf_items f)) (af_bound af)"
    by (rule list_all2_mono [of "site_bound b syms"]) (use assms in \<open>auto simp: assembled_as_def intro: site_bound_more\<close>)
  ultimately show ?thesis using assms(1) by (simp add: assembled_as_def)
qed

lemma assemble_functions_more:
  "assemble_functions sx sigs b fs syms = Some (Inr (afs, syms')) \<Longrightarrow>
     length (fst syms) \<le> length (fst syms') \<and> length afs = length fs
     \<and> names_of syms' \<subseteq> names_of syms \<union> (\<Union>f \<in> set fs. \<Union> (item_symbols ` set (sf_items f)))"
proof (induction sx sigs b fs syms arbitrary: afs rule: assemble_functions.induct)
  case (2 sx sigs b f fs syms)
  then obtain af s1 afs1 where f: "assemble_function sx f (of_nat b) (map_option (\<lambda>ss. sig_arity (ss ! b)) sigs) syms = Some (Inr (af, s1))"
    and r: "assemble_functions sx sigs (b + 1) fs s1 = Some (Inr (afs1, syms'))" and a: "afs = af # afs1"
    by (auto simp: map_sum_Inr split: option.splits sum.splits)
  note ih = "2.IH" [OF f refl refl r]
  then show ?case using assemble_function_symbols(1,2) [OF f] a by auto
qed simp

lemma assemble_functions_all:
  assumes agree: "syntax_agrees a sx"
  shows "assemble_functions sx sigs b fs syms = Some (Inr (afs, syms')) \<Longrightarrow> index_ok syms \<Longrightarrow>
     \<forall>f \<in> set fs. \<forall>it \<in> set (sf_items f). far_binding sx it \<Longrightarrow>
     \<forall>af \<in> set afs. length (af_blob af) < 2 ^ 32 \<Longrightarrow> length (fst syms') < 2 ^ 32 \<Longrightarrow>
     more_externals (fst syms) (fst syms')
     \<and> (\<forall>i < length fs. \<exists>addr. assembled_as a sx (of_nat (b + i)) (fst syms') (fs ! i) (afs ! i) addr
         \<and> fst ` set (bd_labels (af_debug (afs ! i))) = fst ` set (item_labels (sf_items (fs ! i))))"
proof (induction fs arbitrary: b syms afs)
  case Nil
  then show ?case by simp
next
  case (Cons f fs)
  obtain af s1 afs1 where f: "assemble_function sx f (of_nat b) (map_option (\<lambda>ss. sig_arity (ss ! b)) sigs) syms = Some (Inr (af, s1))"
    and r: "assemble_functions sx sigs (b + 1) fs s1 = Some (Inr (afs1, syms'))" and a: "afs = af # afs1"
    using Cons.prems(1) by (auto simp: map_sum_Inr split: option.splits sum.splits)
  have len: "length (af_blob af) < 2 ^ 32" "length (fst s1) < 2 ^ 32"
    using Cons.prems(4,5) a assemble_functions_more [OF r] by simp_all
  have far: "\<forall>it \<in> set (sf_items f). far_binding sx it" using Cons.prems(3) by simp
  obtain addr where addr: "assembled_as a sx (of_nat b) (fst s1) f af addr"
    using assembled_function [OF agree f Cons.prems(2) far len] assemble_function_symbols [OF f]
    unfolding assembled_as_def by blast
  have s1: "index_ok s1" "more_externals (fst syms) (fst s1)"
    using assembled_layout [OF f Cons.prems(2) len] by metis+
  note ih = Cons.IH [OF r s1(1)]
  have ih': "more_externals (fst s1) (fst syms')"
    "\<And>i. i < length fs \<Longrightarrow> \<exists>addr. assembled_as a sx (of_nat (b + 1 + i)) (fst syms') (fs ! i) (afs1 ! i) addr
         \<and> fst ` set (bd_labels (af_debug (afs1 ! i))) = fst ` set (item_labels (sf_items (fs ! i)))"
    using ih Cons.prems(3,4,5) a by simp_all
  have "\<exists>addr. assembled_as a sx (of_nat (b + i)) (fst syms') ((f # fs) ! i) (afs ! i) addr
         \<and> fst ` set (bd_labels (af_debug (afs ! i))) = fst ` set (item_labels (sf_items ((f # fs) ! i)))" if "i < length (f # fs)" for i
  proof (cases i)
    case 0
    then show ?thesis using assembled_as_more [OF addr ih'(1)] assemble_function_symbols(5) [OF f] a by auto
  next
    case (Suc j)
    then show ?thesis using ih'(2) [of j] that a by simp
  qed
  then show ?case using more_externals_trans [OF s1(2) ih'(1)] by blast
qed

section \<open>The first symbols\<close>

lemma function_symbols_nth:
  assumes "i < length fs"
  shows "function_symbols fs ! i = \<lparr>sym_name = sf_name (fs ! i),
    sym_def = (if sf_local (fs ! i) then Local (of_nat i) else Defined (of_nat i))\<rparr>"
  using assms by (simp add: function_symbols_def nth_enumerate_eq)

lemma length_function_symbols [simp]: "length (function_symbols fs) = length fs"
  by (simp add: function_symbols_def)

lemma define_all_index:
  "Option.bind (define_all b fs m n) (column_of c) = Some i \<Longrightarrow>
     Option.bind (m n) (column_of c) = Some i \<or> (\<exists>k < length fs. i = of_nat (b + k) \<and> sf_name (fs ! k) = n)"
proof (induction fs arbitrary: b m)
  case (Cons f fs)
  let ?old = "case m (sf_name f) of Some c \<Rightarrow> c | None \<Rightarrow> (None, None)"
  let ?m = "m(sf_name f \<mapsto> (if sf_volatile f then (fst ?old, Some (of_nat b)) else (Some (of_nat b), snd ?old)))"
  have "define_all b (f # fs) m = define_all (b + 1) fs ?m" by (simp add: Let_def)
  then have p: "Option.bind (define_all (b + 1) fs ?m n) (column_of c) = Some i" using Cons.prems by (simp only:)
  note ih = Cons.IH [OF p]
  show ?case
    using ih
  proof
    assume "Option.bind (?m n) (column_of c) = Some i"
    then have "Option.bind (m n) (column_of c) = Some i \<or> i = of_nat b \<and> sf_name f = n"
      by (auto simp: column_of_def split: if_splits option.splits)
    then show ?thesis by force
  next
    assume "\<exists>k < length fs. i = of_nat (b + 1 + k) \<and> sf_name (fs ! k) = n"
    then obtain k where "k < length fs" "i = of_nat (b + Suc k)" "sf_name (fs ! k) = n" by auto
    then show ?thesis by (intro disjI2 exI [of _ "Suc k"]) simp
  qed
qed simp

lemma first_index_ok:
  assumes "length fs < 2 ^ 32"
  shows "index_ok (function_symbols fs, \<lparr>six_defined = define_all 0 fs Map.empty, six_external = Map.empty\<rparr>)"
proof -
  have "sym_at (function_symbols fs) i n" if "Option.bind (define_all 0 fs Map.empty n) (column_of c) = Some i" for n c i
  proof -
    note d = define_all_index [OF that]
    obtain k where k: "k < length fs" "i = of_nat k" "sf_name (fs ! k) = n" using d by auto
    then have "unat i = k" using assms by (simp add: unat_of_nat take_bit_nat_eq_self)
    then show ?thesis using k by (simp add: sym_at_def function_symbols_nth)
  qed
  then show ?thesis by (simp add: index_ok_def)
qed

section \<open>Records by blob\<close>

lemma concat_only:
  "concat (map (\<lambda>i. if i = b then xs else []) [0..<n]) = (if b < n then xs else [])"
  by (induction n) auto

lemma filter_by_blob:
  assumes "\<And>i x. i < length xss \<Longrightarrow> x \<in> set (xss ! i) \<Longrightarrow> key x = (of_nat i :: u32)"
    and "length xss < 2 ^ 32" "b < length xss"
  shows "filter (\<lambda>x. key x = of_nat b) (concat xss) = xss ! b"
proof -
  have same: "filter (\<lambda>x. key x = of_nat b) (xss ! i) = (if i = b then xss ! b else [])" if "i < length xss" for i
  proof -
    have "(of_nat i :: u32) = of_nat b \<longleftrightarrow> i = b"
      using that assms(2,3) by (simp add: word_unat_eq_iff unat_of_nat take_bit_nat_eq_self)
    then show ?thesis using assms(1) [OF that] by (auto simp: filter_empty_conv filter_id_conv)
  qed
  have "filter (\<lambda>x. key x = of_nat b) (concat xss) = concat (map (filter (\<lambda>x. key x = of_nat b)) xss)"
    by (rule filter_concat)
  also have "map (filter (\<lambda>x. key x = of_nat b)) xss = map (\<lambda>i. if i = b then xss ! b else []) [0..<length xss]"
    by (rule nth_equalityI) (simp_all add: same)
  finally show ?thesis using assms(3) by (simp add: concat_only)
qed

section \<open>Patching keeps lengths\<close>

lemma fix_holes_length: "fix_holes tables offsets b hs blob = Some (blob', fxs) \<Longrightarrow> length blob' = length blob"
proof (induction tables offsets b hs blob arbitrary: blob' fxs rule: fix_holes.induct)
  case (2 tables offsets b h hs blob)
  then obtain ti blob1 fxs1 where f: "table_index tables (th_name h) = Some ti"
    "patch blob (unat (th_offset h)) (offsets ! ti) = Some blob1" "fix_holes tables offsets b hs blob1 = Some (blob', fxs1)"
    by (auto simp: bind_eq_Some_conv)
  show ?case using "2.IH" [OF f] patch_Some(1) [OF f(2)] by simp
qed simp

lemma fix_blobs_length: "fix_blobs tables offsets b refs blobs = Some (blobs', fxs) \<Longrightarrow> map length blobs' = map length blobs"
proof (induction tables offsets b refs blobs arbitrary: blobs' fxs rule: fix_blobs.induct)
  case (1 tables offsets b hs refs blob blobs)
  then obtain blob1 fxs1 bs1 fxs2 where f: "fix_holes tables offsets b hs blob = Some (blob1, fxs1)"
    "fix_blobs tables offsets (b + 1) refs blobs = Some (bs1, fxs2)" "blobs' = blob1 # bs1"
    by (auto simp: bind_eq_Some_conv)
  show ?case using "1.IH" [OF f(1) refl f(2)] fix_holes_length [OF f(1)] f(3) by simp
qed simp_all

lemma build_tables_length:
  "build_tables tables refs labels blobs = Some (Inr (blobs', tbs, fxs)) \<Longrightarrow> map length blobs' = map length blobs"
  by (auto simp: build_tables_def dest!: fix_blobs_length split: option.splits sum.splits)

section \<open>The object of a source without build columns\<close>

text \<open>What lowering guarantees of a source, beyond names short enough for the container.\<close>

fun bindings_ok :: "source_item \<Rightarrow> bool" where
  "bindings_ok (InstrItem sp lbls opc (SoBoundCall target bs)) \<longleftrightarrow>
     length bs < 2 ^ 8 \<and> (\<forall>b \<in> set bs. binding_ok (source_binding_to_object b))"
| "bindings_ok it \<longleftrightarrow> True"

definition function_ok :: "arch_syntax \<Rightarrow> source_function \<Rightarrow> bool" where
  "function_ok sx f \<longleftrightarrow>
     name_ok (sf_name f) \<and> length (item_labels (sf_items f)) < 2 ^ 32
     \<and> (\<forall>n \<in> fst ` set (item_labels (sf_items f)). name_ok n)
     \<and> (\<forall>it \<in> set (sf_items f). far_binding sx it \<and> bindings_ok it \<and> (\<forall>n \<in> item_symbols it. name_ok n))"

definition source_ok :: "arch_syntax \<Rightarrow> lowered_source \<Rightarrow> bool" where
  "source_ok sx src \<longleftrightarrow>
     (\<forall>f \<in> set (ls_functions src). function_ok sx f) \<and> (\<forall>t \<in> set (ls_tables src). lowered_table t)
     \<and> parallel_ok (length (ls_functions src)) sig_ok (ls_signatures src)"

definition table_of :: "object_file \<Rightarrow> nat \<Rightarrow> u8 list" where
  "table_of ob b = (case ob_table_blobs ob of None \<Rightarrow> [] | Some ts \<Rightarrow> ts ! b)"

definition sizes_fit :: "object_file \<Rightarrow> bool" where
  "sizes_fit ob \<longleftrightarrow>
     length (ob_symbols ob) < 2 ^ 32 \<and> length (ob_blobs ob) < 2 ^ 32 \<and> (\<forall>b \<in> set (ob_blobs ob). length b < 2 ^ 32)
     \<and> (\<forall>ts. ob_table_blobs ob = Some ts \<longrightarrow> (\<forall>t \<in> set ts. length t < 2 ^ 32))"

text \<open>
  Function \<open>f\<close> as blob \<open>b\<close>: assembled, with the offsets of its tables in the holes of its references, and
  with the relocations and bound calls of the blob, and only these.
\<close>

definition function_placed ::
  "arch \<Rightarrow> arch_syntax \<Rightarrow> source_table list \<Rightarrow> object_file \<Rightarrow> nat \<Rightarrow> source_function \<Rightarrow> assembled_function \<Rightarrow> (nat \<Rightarrow> nat) \<Rightarrow> bool" where
  "function_placed a sx tables ob b f af addr \<longleftrightarrow>
     assembled_as a sx (of_nat b) (ob_symbols ob) f af addr
   \<and> length (ob_blobs ob ! b) = length (af_blob af)
   \<and> (\<forall>i. (\<forall>h \<in> set (af_refs af). \<not> in_hole i h) \<longrightarrow> ob_blobs ob ! b ! i = af_blob af ! i)
   \<and> (\<forall>h \<in> set (af_refs af). ref_served tables (bd_labels (af_debug af)) b (ob_blobs ob ! b) (table_of ob b) (ob_table_fixups ob) h)
   \<and> filter (\<lambda>r. rl_blob r = of_nat b) (ob_relocations ob) = af_relocs af
   \<and> filter (\<lambda>c. bc_blob c = of_nat b) (ob_bound_calls ob) = af_bound af
   \<and> (\<forall>ds. ob_debug ob = Some ds \<longrightarrow> ds ! b = af_debug af)"

text \<open>The parts of a run of \<open>assemble_lowered\<close> that returns an object.\<close>

lemma assemble_lowered_parts:
  assumes "assemble_lowered sx arch src dbg = Some (Inr ob)" "\<forall>f \<in> set (ls_functions src). \<not> sf_volatile f"
  obtains afs symbols ix where
    "assemble_functions sx (ls_signatures src) 0 (ls_functions src)
       (function_symbols (ls_functions src), \<lparr>six_defined = define_all 0 (ls_functions src) Map.empty, six_external = Map.empty\<rparr>)
     = Some (Inr (afs, (symbols, ix)))"
    "finish_object src afs (plain_object arch src symbols afs dbg) = Some (Inr ob)"
  using assms by (auto simp: assemble_lowered_def Let_def refuse_tables_def split: if_splits option.splits sum.splits)

text \<open>What finishing adds.\<close>

lemma finish_parts:
  assumes "finish_object src afs ob0 = Some (Inr ob)"
  shows "ob_symbols ob = ob_symbols ob0" "ob_relocations ob = ob_relocations ob0" "ob_debug ob = ob_debug ob0"
    "ob_variants ob = ob_variants ob0" "ob_signatures ob = ls_signatures src" "ob_bound_calls ob = concat (map af_bound afs)"
    "map length (ob_blobs ob) = map length (ob_blobs ob0)"
    "(\<exists>tbs. build_tables (ls_tables src) (map af_refs afs) (map (\<lambda>af. bd_labels (af_debug af)) afs) (ob_blobs ob0)
        = Some (Inr (ob_blobs ob, tbs, ob_table_fixups ob)) \<and> ob_table_blobs ob = Some tbs)
     \<or> (\<forall>af \<in> set afs. af_refs af = []) \<and> ob_blobs ob = ob_blobs ob0 \<and> ob_table_blobs ob = ob_table_blobs ob0
        \<and> ob_table_fixups ob = ob_table_fixups ob0"
proof -
  have "(\<exists>blobs tbs fxs. build_tables (ls_tables src) (map af_refs afs) (map (\<lambda>af. bd_labels (af_debug af)) afs) (ob_blobs ob0)
        = Some (Inr (blobs, tbs, fxs))
        \<and> ob = ob0\<lparr>ob_blobs := blobs, ob_table_blobs := Some tbs, ob_table_fixups := fxs, ob_signatures := ls_signatures src,
            ob_bound_calls := concat (map af_bound afs)\<rparr>)
      \<or> (\<forall>af \<in> set afs. af_refs af = []) \<and> ob = ob0\<lparr>ob_signatures := ls_signatures src, ob_bound_calls := concat (map af_bound afs)\<rparr>"
    using assms by (auto simp: finish_object_def Let_def map_sum_Inr split: if_splits)
  then show "ob_symbols ob = ob_symbols ob0" "ob_relocations ob = ob_relocations ob0" "ob_debug ob = ob_debug ob0"
    "ob_variants ob = ob_variants ob0" "ob_signatures ob = ls_signatures src" "ob_bound_calls ob = concat (map af_bound afs)"
    "map length (ob_blobs ob) = map length (ob_blobs ob0)"
    "(\<exists>tbs. build_tables (ls_tables src) (map af_refs afs) (map (\<lambda>af. bd_labels (af_debug af)) afs) (ob_blobs ob0)
        = Some (Inr (ob_blobs ob, tbs, ob_table_fixups ob)) \<and> ob_table_blobs ob = Some tbs)
     \<or> (\<forall>af \<in> set afs. af_refs af = []) \<and> ob_blobs ob = ob_blobs ob0 \<and> ob_table_blobs ob = ob_table_blobs ob0
        \<and> ob_table_fixups ob = ob_table_fixups ob0"
    by (auto dest: build_tables_length)
qed

text \<open>Every record belongs to the blob it names.\<close>

lemma record_blob:
  assumes "assembled_as a sx b syms f af addr"
  shows "r \<in> set (af_relocs af) \<Longrightarrow> rl_blob r = b" "c \<in> set (af_bound af) \<Longrightarrow> bc_blob c = b"
proof -
  show "rl_blob r = b" if "r \<in> set (af_relocs af)"
  proof -
    have "list_all2 (site_reloc b syms) (all_items (item_sites sx) addr (sf_items f)) (af_relocs af)"
      using assms by (simp add: assembled_as_def)
    then show ?thesis using that by (metis in_set_conv_nth list_all2_nthD2 site_reloc_def)
  qed
  show "bc_blob c = b" if "c \<in> set (af_bound af)"
  proof -
    have "list_all2 (site_bound b syms) (all_items item_bound addr (sf_items f)) (af_bound af)"
      using assms by (simp add: assembled_as_def)
    then show ?thesis using that by (metis in_set_conv_nth list_all2_nthD2 site_bound_def)
  qed
qed

lemma assembled_functions:
  assumes agree: "syntax_agrees a sx" and src: "source_ok sx src"
    and asm: "assemble_functions sx sigs 0 (ls_functions src)
       (function_symbols (ls_functions src), \<lparr>six_defined = define_all 0 (ls_functions src) Map.empty, six_external = Map.empty\<rparr>)
     = Some (Inr (afs, (symbols, ix)))"
    and fits: "\<forall>af \<in> set afs. length (af_blob af) < 2 ^ 32" "length symbols < 2 ^ 32"
  shows "length afs = length (ls_functions src)" "more_externals (function_symbols (ls_functions src)) symbols"
    "\<And>s. s \<in> set symbols \<Longrightarrow> name_ok (sym_name s)"
    "\<And>i. i < length (ls_functions src) \<Longrightarrow>
       \<exists>addr. assembled_as a sx (of_nat i) symbols (ls_functions src ! i) (afs ! i) addr
         \<and> fst ` set (bd_labels (af_debug (afs ! i))) = fst ` set (item_labels (sf_items (ls_functions src ! i)))"
proof -
  let ?fs = "ls_functions src"
  let ?ix = "\<lparr>six_defined = define_all 0 ?fs Map.empty, six_external = Map.empty\<rparr>"
  note m = assemble_functions_more [OF asm]
  have "length ?fs < 2 ^ 32" using m fits(2) by simp
  then have ix: "index_ok (function_symbols ?fs, ?ix)" by (rule first_index_ok)
  have far: "\<forall>f \<in> set ?fs. \<forall>it \<in> set (sf_items f). far_binding sx it"
    using src by (simp add: source_ok_def function_ok_def)
  have len: "length (fst (symbols, ix)) < 2 ^ 32" using fits(2) by simp
  note al = assemble_functions_all [OF agree asm ix far fits(1) len]
  show "length afs = length ?fs" using m by simp
  show "more_externals (function_symbols ?fs) symbols" using al by simp
  show "\<exists>addr. assembled_as a sx (of_nat i) symbols (?fs ! i) (afs ! i) addr
         \<and> fst ` set (bd_labels (af_debug (afs ! i))) = fst ` set (item_labels (sf_items (?fs ! i)))" if "i < length ?fs" for i
    using al that by simp
  show "name_ok (sym_name s)" if "s \<in> set symbols" for s
  proof -
    have "sym_name s \<in> names_of (symbols, ix)" using that by (simp add: names_of_def)
    then have "sym_name s \<in> names_of (function_symbols ?fs, ?ix) \<union> (\<Union>f \<in> set ?fs. \<Union> (item_symbols ` set (sf_items f)))"
      using m by blast
    then show ?thesis
    proof
      assume "sym_name s \<in> names_of (function_symbols ?fs, ?ix)"
      then obtain i where "i < length ?fs" "sym_name s = sf_name (?fs ! i)"
        by (auto simp: names_of_def in_set_conv_nth function_symbols_nth)
      then show ?thesis using src nth_mem [of i ?fs] by (simp add: source_ok_def function_ok_def)
    next
      assume "sym_name s \<in> (\<Union>f \<in> set ?fs. \<Union> (item_symbols ` set (sf_items f)))"
      then show ?thesis using src by (auto simp: source_ok_def function_ok_def)
    qed
  qed
qed

lemma plain_assembled:
  assumes agree: "syntax_agrees a sx" and src: "source_ok sx src"
    and asm: "assemble_lowered sx arch src dbg = Some (Inr ob)" and plain: "\<forall>f \<in> set (ls_functions src). \<not> sf_volatile f"
    and fits: "sizes_fit ob"
  obtains afs where
    "length afs = length (ls_functions src)" "length (ob_blobs ob) = length (ls_functions src)"
    "more_externals (function_symbols (ls_functions src)) (ob_symbols ob)"
    "\<And>s. s \<in> set (ob_symbols ob) \<Longrightarrow> name_ok (sym_name s)"
    "ob_relocations ob = concat (map af_relocs afs)" "ob_bound_calls ob = concat (map af_bound afs)"
    "ob_debug ob = (if dbg then Some (map af_debug afs) else None)" "ob_signatures ob = ls_signatures src" "ob_variants ob = None"
    "\<And>b. b < length (ls_functions src) \<Longrightarrow>
       (\<exists>addr. function_placed a sx (ls_tables src) ob b (ls_functions src ! b) (afs ! b) addr)
       \<and> length (af_blob (afs ! b)) < 2 ^ 32
       \<and> fst ` set (bd_labels (af_debug (afs ! b))) = fst ` set (item_labels (sf_items (ls_functions src ! b)))"
    "\<And>ts. ob_table_blobs ob = Some ts \<Longrightarrow> length ts = length (ls_functions src)"
    "\<And>fx. fx \<in> set (ob_table_fixups ob) \<Longrightarrow> ob_table_blobs ob \<noteq> None \<and>
       (\<exists>c < length (ls_functions src). \<exists>h \<in> set (af_refs (afs ! c)). fx_blob fx = of_nat c \<and> fx_offset fx = th_offset h
         \<and> hole_holds (ob_blobs ob ! c) h (fx_table_offset fx) \<and> unat (th_offset h) + 4 \<le> length (ob_blobs ob ! c))"
proof -
  let ?fs = "ls_functions src"
  obtain afs symbols ix where af: "assemble_functions sx (ls_signatures src) 0 ?fs
       (function_symbols ?fs, \<lparr>six_defined = define_all 0 ?fs Map.empty, six_external = Map.empty\<rparr>) = Some (Inr (afs, (symbols, ix)))"
    and fin: "finish_object src afs (plain_object arch src symbols afs dbg) = Some (Inr ob)"
    by (rule assemble_lowered_parts [OF asm plain])
  let ?ob0 = "plain_object arch src symbols afs dbg"
  have p0: "ob_symbols ?ob0 = symbols" "ob_blobs ?ob0 = map af_blob afs" "ob_relocations ?ob0 = concat (map af_relocs afs)"
    "ob_debug ?ob0 = (if dbg then Some (map af_debug afs) else None)" "ob_table_fixups ?ob0 = []"
    by (simp_all add: plain_object_def object_v2_def)
  note fp = finish_parts [OF fin]
  have lens: "map length (ob_blobs ob) = map length (map af_blob afs)" using fp(7) p0(2) by simp
  have la: "length (ob_blobs ob) = length afs" using arg_cong [OF lens, of length] by simp
  have leni: "length (ob_blobs ob ! i) = length (af_blob (afs ! i))" if "i < length afs" for i
    using arg_cong [OF lens, of "\<lambda>xs. xs ! i"] that la by simp
  have sizes: "length symbols < 2 ^ 32" "\<forall>af \<in> set afs. length (af_blob af) < 2 ^ 32"
  proof -
    show "length symbols < 2 ^ 32" using fits fp(1) p0(1) by (simp add: sizes_fit_def)
    show "\<forall>af \<in> set afs. length (af_blob af) < 2 ^ 32"
    proof
      fix x assume "x \<in> set afs"
      then obtain i where i: "i < length afs" "x = afs ! i" by (auto simp: in_set_conv_nth)
      then have "ob_blobs ob ! i \<in> set (ob_blobs ob)" using la by simp
      then have "length (ob_blobs ob ! i) < 2 ^ 32" using fits by (simp add: sizes_fit_def)
      then show "length (af_blob x) < 2 ^ 32" using leni i by simp
    qed
  qed
  note fn = assembled_functions [OF agree src af sizes(2,1)]
  have n: "length afs < 2 ^ 32" using fits la by (simp add: sizes_fit_def)
  have recs: "\<And>i r. i < length (map af_relocs afs) \<Longrightarrow> r \<in> set (map af_relocs afs ! i) \<Longrightarrow> rl_blob r = of_nat i"
    "\<And>i c. i < length (map af_bound afs) \<Longrightarrow> c \<in> set (map af_bound afs ! i) \<Longrightarrow> bc_blob c = of_nat i"
    using fn(1,4) record_blob by fastforce+
  have apart: "\<forall>hs \<in> set (map af_refs afs). holes_apart hs"
  proof
    fix hs assume "hs \<in> set (map af_refs afs)"
    then obtain i where i: "i < length afs" "hs = af_refs (afs ! i)" by (auto simp: in_set_conv_nth)
    then obtain ad where "assembled_as a sx (of_nat i) symbols (?fs ! i) (afs ! i) ad" using fn(1,4) by metis
    then show "holes_apart hs" using refs_apart [of a sx "?fs ! i" "afs ! i" ad] sizes(2) i by (simp add: assembled_as_def)
  qed
  have tabs: "(\<exists>tbs. ob_table_blobs ob = Some tbs \<and> length tbs = length afs
        \<and> (\<forall>c < length afs.
            (\<forall>i. (\<forall>h \<in> set (af_refs (afs ! c)). \<not> in_hole i h) \<longrightarrow> ob_blobs ob ! c ! i = af_blob (afs ! c) ! i)
            \<and> (\<forall>h \<in> set (af_refs (afs ! c)).
                ref_served (ls_tables src) (bd_labels (af_debug (afs ! c))) c (ob_blobs ob ! c) (tbs ! c) (ob_table_fixups ob) h
                \<and> unat (th_offset h) + 4 \<le> length (af_blob (afs ! c))))
        \<and> (\<forall>fx \<in> set (ob_table_fixups ob). \<exists>c < length afs. \<exists>h \<in> set (af_refs (afs ! c)). fx_blob fx = of_nat c
            \<and> fx_offset fx = th_offset h \<and> hole_holds (ob_blobs ob ! c) h (fx_table_offset fx)))
      \<or> ob_table_blobs ob = None \<and> ob_table_fixups ob = [] \<and> ob_blobs ob = map af_blob afs \<and> (\<forall>af \<in> set afs. af_refs af = [])"
    using fp(8)
  proof (elim disjE exE conjE)
    fix tbs
    assume bt: "build_tables (ls_tables src) (map af_refs afs) (map (\<lambda>af. bd_labels (af_debug af)) afs) (ob_blobs ?ob0)
        = Some (Inr (ob_blobs ob, tbs, ob_table_fixups ob))" and t: "ob_table_blobs ob = Some tbs"
    have "length (map af_refs afs) = length (ob_blobs ?ob0)" "length (map (\<lambda>af. bd_labels (af_debug af)) afs) = length (ob_blobs ?ob0)"
      using p0(2) by simp_all
    moreover have "\<forall>t \<in> set (ls_tables src). lowered_table t" using src by (simp add: source_ok_def)
    moreover have "\<forall>tb \<in> set tbs. length tb < 2 ^ 32" using fits t by (simp add: sizes_fit_def)
    ultimately show ?thesis using built_tables [OF bt _ _ _ apart] p0(2) t by (intro disjI1 exI [of _ tbs]) (simp cong: conj_cong)
  qed (use p0 in \<open>simp add: plain_object_def object_v2_def\<close>)
  have placed: "\<exists>addr. function_placed a sx (ls_tables src) ob b (?fs ! b) (afs ! b) addr" if b: "b < length ?fs" for b
  proof -
    obtain addr where addr: "assembled_as a sx (of_nat b) symbols (?fs ! b) (afs ! b) addr" using fn(4) [OF b] by blast
    have b': "b < length afs" using b fn(1) by simp
    have relocs: "filter (\<lambda>r. rl_blob r = of_nat b) (ob_relocations ob) = af_relocs (afs ! b)"
      unfolding fp(2) p0(3) using filter_by_blob [of "map af_relocs afs" rl_blob b, OF recs(1)] n b' by simp
    have bound: "filter (\<lambda>c. bc_blob c = of_nat b) (ob_bound_calls ob) = af_bound (afs ! b)"
      unfolding fp(6) using filter_by_blob [of "map af_bound afs" bc_blob b, OF recs(2)] n b' by simp
    have "(\<forall>i. (\<forall>h \<in> set (af_refs (afs ! b)). \<not> in_hole i h) \<longrightarrow> ob_blobs ob ! b ! i = af_blob (afs ! b) ! i)
      \<and> (\<forall>h \<in> set (af_refs (afs ! b)).
          ref_served (ls_tables src) (bd_labels (af_debug (afs ! b))) b (ob_blobs ob ! b) (table_of ob b) (ob_table_fixups ob) h)"
      using tabs
    proof (elim disjE exE conjE)
      fix tbs
      assume "ob_table_blobs ob = Some tbs"
      then have "table_of ob b = tbs ! b" by (simp add: table_of_def)
      moreover assume "\<forall>c < length afs.
            (\<forall>i. (\<forall>h \<in> set (af_refs (afs ! c)). \<not> in_hole i h) \<longrightarrow> ob_blobs ob ! c ! i = af_blob (afs ! c) ! i)
            \<and> (\<forall>h \<in> set (af_refs (afs ! c)).
                ref_served (ls_tables src) (bd_labels (af_debug (afs ! c))) c (ob_blobs ob ! c) (tbs ! c) (ob_table_fixups ob) h
                \<and> unat (th_offset h) + 4 \<le> length (af_blob (afs ! c)))"
      ultimately show ?thesis using b' by simp
    qed (use b' in simp)
    then show ?thesis
      unfolding function_placed_def using addr leni [OF b'] relocs bound fp(1,3) p0(1,4) b' by (intro exI [of _ addr]) simp
  qed
  show thesis
  proof (rule that [of afs])
    show "length afs = length ?fs" "length (ob_blobs ob) = length ?fs" using la fn(1) by simp_all
    show "more_externals (function_symbols ?fs) (ob_symbols ob)" using fn(2) fp(1) p0(1) by simp
    show "name_ok (sym_name s)" if "s \<in> set (ob_symbols ob)" for s using fn(3) fp(1) p0(1) that by simp
    show "ob_relocations ob = concat (map af_relocs afs)" "ob_bound_calls ob = concat (map af_bound afs)"
      "ob_debug ob = (if dbg then Some (map af_debug afs) else None)" "ob_signatures ob = ls_signatures src" "ob_variants ob = None"
      using fp(2-6) p0(3,4) by (simp_all add: plain_object_def object_v2_def)
    show "(\<exists>addr. function_placed a sx (ls_tables src) ob b (?fs ! b) (afs ! b) addr)
       \<and> length (af_blob (afs ! b)) < 2 ^ 32
       \<and> fst ` set (bd_labels (af_debug (afs ! b))) = fst ` set (item_labels (sf_items (?fs ! b)))" if "b < length ?fs" for b
      using placed [OF that] fn(4) [OF that] sizes(2) fn(1) that by simp
    show "length ts = length ?fs" if "ob_table_blobs ob = Some ts" for ts using tabs that fn(1) by auto
    show "ob_table_blobs ob \<noteq> None \<and>
       (\<exists>c < length ?fs. \<exists>h \<in> set (af_refs (afs ! c)). fx_blob fx = of_nat c \<and> fx_offset fx = th_offset h
         \<and> hole_holds (ob_blobs ob ! c) h (fx_table_offset fx) \<and> unat (th_offset h) + 4 \<le> length (ob_blobs ob ! c))"
      if "fx \<in> set (ob_table_fixups ob)" for fx
    proof -
      from tabs that obtain tbs c h where x: "ob_table_blobs ob = Some tbs" "c < length afs" "h \<in> set (af_refs (afs ! c))"
        "fx_blob fx = of_nat c" "fx_offset fx = th_offset h" "hole_holds (ob_blobs ob ! c) h (fx_table_offset fx)"
        "unat (th_offset h) + 4 \<le> length (af_blob (afs ! c))" by fastforce
      show ?thesis using x leni [OF x(2)] fn(1) by (intro conjI exI [of _ c] bexI [of _ h]) simp_all
    qed
  qed
qed

section \<open>The object is valid\<close>

text \<open>An object whose records are those of its blobs, whatever their number and order.\<close>

lemma site_relocs_ok:
  assumes "assembled_as a sx (of_nat i) syms f af addr" "length (af_blob af) < 2 ^ 32"
    and "i < length blobs" "length blobs < 2 ^ 32" "length (blobs ! i) = length (af_blob af)" "r \<in> set (af_relocs af)"
  shows "reloc_ok blobs (length syms) r"
proof -
  have l: "list_all2 (site_reloc (of_nat i) syms) (all_items (item_sites sx) addr (sf_items f)) (af_relocs af)"
    and c: "coded_function a sx f af addr" using assms(1) by (simp_all add: assembled_as_def)
  obtain x where x: "x \<in> set (all_items (item_sites sx) addr (sf_items f))" "site_reloc (of_nat i) syms x r"
    using l assms(6) by (metis in_set_conv_nth list_all2_conv_all_nth)
  have "unat (of_nat i :: u32) = i" using assms(3,4) by (simp add: unat_of_nat take_bit_nat_eq_self)
  then show ?thesis using x(2) site_room [OF c assms(2) x(1)] assms(3,5)
    by (simp add: site_reloc_def reloc_ok_def hole_ok_def sym_at_def)
qed

lemma item_bound_bindings: "\<lbrakk>bindings_ok it; x \<in> set (item_bound it at)\<rbrakk> \<Longrightarrow>
     length (snd (snd x)) < 2 ^ 8 \<and> (\<forall>t \<in> set (snd (snd x)). binding_ok t)"
  by (cases it rule: bindings_ok.cases) auto

lemma site_bounds_ok:
  assumes "assembled_as a sx (of_nat i) syms f af addr" "length (af_blob af) < 2 ^ 32" "function_ok sx f"
    and "i < length blobs" "length blobs < 2 ^ 32" "length (blobs ! i) = length (af_blob af)" "r \<in> set (af_bound af)"
  shows "call_ok blobs (length syms) r"
proof -
  have l: "list_all2 (site_bound (of_nat i) syms) (all_items item_bound addr (sf_items f)) (af_bound af)"
    and c: "coded_function a sx f af addr" using assms(1) by (simp_all add: assembled_as_def)
  obtain x where x: "x \<in> set (all_items item_bound addr (sf_items f))" "site_bound (of_nat i) syms x r"
    using l assms(7) by (metis in_set_conv_nth list_all2_conv_all_nth)
  obtain k where k: "k < length (sf_items f)" "x \<in> set (item_bound (sf_items f ! k) (of_nat (addr k)))"
    using all_items_in [OF x(1)] by blast
  have "bindings_ok (sf_items f ! k)" using assms(3) nth_mem [OF k(1)] by (simp add: function_ok_def)
  note b = item_bound_bindings [OF this k(2)]
  have "unat (of_nat i :: u32) = i" using assms(4,5) by (simp add: unat_of_nat take_bit_nat_eq_self)
  then show ?thesis using x(2) bound_room [OF c assms(2) x(1)] assms(4,6) b
    by (simp add: site_bound_def call_ok_def hole_ok_def sym_at_def)
qed

lemma debug_is_ok:
  assumes "assembled_as a sx b syms f af addr" "function_ok sx f" "length (af_blob af) < 2 ^ 32"
    and "fst ` set (bd_labels (af_debug af)) = fst ` set (item_labels (sf_items f))"
  shows "debug_ok (af_debug af)"
proof -
  have c: "coded_function a sx f af addr" using assms(1) by (simp add: assembled_as_def)
  have "i \<le> addr i" if "i \<le> length (sf_items f)" for i
    using that
  proof (induction i)
    case (Suc i)
    then show ?case using coded_item(3) [OF c assms(3), of i] by simp
  qed simp
  then have "length (sf_items f) \<le> length (af_blob af)" using coded_bounds [OF c, of "length (sf_items f)"] by (meson le_refl le_trans)
  moreover have "name_ok n" if "(n, x) \<in> set (bd_labels (af_debug af))" for n x
  proof -
    have "n \<in> fst ` set (item_labels (sf_items f))" using that assms(4) by (metis fst_conv image_eqI)
    then show ?thesis using assms(2) unfolding function_ok_def by blast
  qed
  ultimately show ?thesis using assms(1,2,3) by (auto simp: debug_ok_def assembled_as_def function_ok_def)
qed

lemma function_symbol_ok:
  assumes "more_externals (function_symbols fs) syms" "length fs = length blobs" "length blobs < 2 ^ 32"
    and "\<And>s. s \<in> set syms \<Longrightarrow> name_ok (sym_name s)" "s \<in> set syms"
  shows "symbol_ok blobs s"
proof -
  obtain ext where e: "syms = function_symbols fs @ ext" "\<forall>s \<in> set ext. sym_def s = External"
    using assms(1) by (auto simp: more_externals_def)
  have "case sym_def s of Defined b \<Rightarrow> unat b < length blobs | Local b \<Rightarrow> unat b < length blobs | External \<Rightarrow> True"
  proof (cases "s \<in> set ext")
    case False
    then obtain i where i: "i < length fs" "s = function_symbols fs ! i"
      using assms(5) e(1) by (auto simp: in_set_conv_nth)
    have "unat (of_nat i :: u32) = i" using i(1) assms(2,3) by (simp add: unat_of_nat take_bit_nat_eq_self)
    then show ?thesis using i assms(2) by (simp add: function_symbols_nth)
  qed (use e(2) in simp)
  then show ?thesis using assms(4,5) by (simp add: symbol_ok_def)
qed

lemma le_u32_inj: "le_u32 v = le_u32 w \<Longrightarrow> v = w"
  by (metis u32_le_le_u32)

lemma plain_object_ok:
  assumes agree: "syntax_agrees a sx" and src: "source_ok sx src"
    and asm: "assemble_lowered sx arch src dbg = Some (Inr ob)" and plain: "\<forall>f \<in> set (ls_functions src). \<not> sf_volatile f"
    and fits: "sizes_fit ob"
  shows "object_ok ob"
proof (rule plain_assembled [OF assms])
  let ?fs = "ls_functions src"
  fix afs
  assume p: "length afs = length ?fs" "length (ob_blobs ob) = length ?fs"
    "more_externals (function_symbols ?fs) (ob_symbols ob)"
    "\<And>s. s \<in> set (ob_symbols ob) \<Longrightarrow> name_ok (sym_name s)"
    "ob_relocations ob = concat (map af_relocs afs)" "ob_bound_calls ob = concat (map af_bound afs)"
    "ob_debug ob = (if dbg then Some (map af_debug afs) else None)" "ob_signatures ob = ls_signatures src" "ob_variants ob = None"
    and f: "\<And>b. b < length ?fs \<Longrightarrow> (\<exists>addr. function_placed a sx (ls_tables src) ob b (?fs ! b) (afs ! b) addr)
       \<and> length (af_blob (afs ! b)) < 2 ^ 32
       \<and> fst ` set (bd_labels (af_debug (afs ! b))) = fst ` set (item_labels (sf_items (?fs ! b)))"
    and t: "\<And>ts. ob_table_blobs ob = Some ts \<Longrightarrow> length ts = length ?fs"
    and x: "\<And>fx. fx \<in> set (ob_table_fixups ob) \<Longrightarrow> ob_table_blobs ob \<noteq> None \<and>
       (\<exists>c < length ?fs. \<exists>h \<in> set (af_refs (afs ! c)). fx_blob fx = of_nat c \<and> fx_offset fx = th_offset h
         \<and> hole_holds (ob_blobs ob ! c) h (fx_table_offset fx) \<and> unat (th_offset h) + 4 \<le> length (ob_blobs ob ! c))"
  have n: "length (ob_blobs ob) < 2 ^ 32" using fits by (simp add: sizes_fit_def)
  have blob: "\<exists>i addr. i < length ?fs \<and> y = afs ! i \<and> assembled_as a sx (of_nat i) (ob_symbols ob) (?fs ! i) y addr
      \<and> length (ob_blobs ob ! i) = length (af_blob y) \<and> length (af_blob y) < 2 ^ 32 \<and> function_ok sx (?fs ! i)
      \<and> fst ` set (bd_labels (af_debug y)) = fst ` set (item_labels (sf_items (?fs ! i)))" if "y \<in> set afs" for y
  proof -
    obtain i where i: "i < length ?fs" "y = afs ! i" using \<open>y \<in> set afs\<close> p(1) by (auto simp: in_set_conv_nth)
    have "function_ok sx (?fs ! i)" using src nth_mem [OF i(1)] by (simp add: source_ok_def)
    then show ?thesis using f [OF i(1)] i unfolding function_placed_def by blast
  qed
  have "\<forall>s \<in> set (ob_symbols ob). symbol_ok (ob_blobs ob) s"
    using function_symbol_ok [OF p(3) p(2) [symmetric] n p(4)] by blast
  moreover have "reloc_ok (ob_blobs ob) (length (ob_symbols ob)) r" if "r \<in> set (ob_relocations ob)" for r
  proof -
    obtain y where "y \<in> set afs" "r \<in> set (af_relocs y)" using \<open>r \<in> set (ob_relocations ob)\<close> p(5) by auto
    then show ?thesis using blob [of y] site_relocs_ok n p(2) by metis
  qed
  moreover have "call_ok (ob_blobs ob) (length (ob_symbols ob)) c" if "c \<in> set (ob_bound_calls ob)" for c
  proof -
    obtain y where "y \<in> set afs" "c \<in> set (af_bound y)" using \<open>c \<in> set (ob_bound_calls ob)\<close> p(6) by auto
    then show ?thesis using blob [of y] site_bounds_ok n p(2) by metis
  qed
  moreover have "parallel_ok (length (ob_blobs ob)) debug_ok (ob_debug ob)"
  proof -
    have "debug_ok (af_debug y)" if "y \<in> set afs" for y
    proof -
      obtain i addr where "assembled_as a sx (of_nat i) (ob_symbols ob) (?fs ! i) y addr" "function_ok sx (?fs ! i)"
        "length (af_blob y) < 2 ^ 32" "fst ` set (bd_labels (af_debug y)) = fst ` set (item_labels (sf_items (?fs ! i)))"
        using blob [OF \<open>y \<in> set afs\<close>] by metis
      then show ?thesis by (rule debug_is_ok)
    qed
    then show ?thesis using p(1,2,7) by (simp add: parallel_ok_def)
  qed
  moreover have "parallel_ok (length (ob_blobs ob)) sig_ok (ob_signatures ob)" using src p(2,8) by (simp add: source_ok_def)
  moreover have "parallel_ok (length (ob_blobs ob)) (\<lambda>t. length t < 2 ^ 32) (ob_table_blobs ob)"
    using t fits p(2) by (auto simp: parallel_ok_def sizes_fit_def split: option.split)
  moreover have "parallel_ok (length (ob_blobs ob)) (\<lambda>_. True) (ob_variants ob)" using p(9) by (simp add: parallel_ok_def)
  moreover have "fixup_ok (ob_blobs ob) (ob_table_blobs ob) fx" if "fx \<in> set (ob_table_fixups ob)" for fx
  proof -
    obtain ts c h where c: "ob_table_blobs ob = Some ts" "c < length ?fs" "h \<in> set (af_refs (afs ! c))"
      "fx_blob fx = of_nat c" "fx_offset fx = th_offset h" "hole_holds (ob_blobs ob ! c) h (fx_table_offset fx)"
      "unat (th_offset h) + 4 \<le> length (ob_blobs ob ! c)" using x [OF \<open>fx \<in> set (ob_table_fixups ob)\<close>] by auto
    have u: "unat (of_nat c :: u32) = c" using c(2) n p(2) by (simp add: unat_of_nat take_bit_nat_eq_self)
    have "ref_served (ls_tables src) (bd_labels (af_debug (afs ! c))) c (ob_blobs ob ! c) (table_of ob c) (ob_table_fixups ob) h"
      using f [OF c(2)] c(3) by (auto simp: function_placed_def)
    then obtain off where "hole_holds (ob_blobs ob ! c) h off" "unat off < length (table_of ob c)"
      by (auto simp: ref_served_def)
    moreover from this(1) have "off = fx_table_offset fx" using c(6) by (auto simp: hole_holds_def intro: le_u32_inj)
    ultimately show ?thesis using c u p(2) t [OF c(1)] by (simp add: fixup_ok_def hole_ok_def table_of_def)
  qed
  ultimately show "object_ok ob" by (simp add: object_ok_def Let_def)
qed

end
