(* ===== verification/Asm_Columns.thy ===== *)
theory Asm_Columns
  imports Asm_Object_Correct
begin

text \<open>
  The two build columns of a source with \<open>.volatile\<close> functions: every function of the source is found in its
  column of the merged object, with its bytes and its call sites, and a call leads to a blob that is
  present in every column the caller is present in.
\<close>

section \<open>The blocks of a name\<close>

lemma column_block_Some:
  assumes "column_block fs n c = Some b"
  shows "b < length fs" "sf_name (fs ! b) = n" "sf_volatile (fs ! b) = c"
proof -
  obtain f where "find (\<lambda>(b, f). sf_name f = n \<and> sf_volatile f = c) (rev (enumerate 0 fs)) = Some (b, f)"
    using assms by (auto simp: column_block_def)
  then have "(b, f) \<in> set (enumerate 0 fs)" "sf_name f = n" "sf_volatile f = c"
    by (metis (mono_tags, lifting) case_prodD find_Some_iff nth_mem set_rev)+
  then show "b < length fs" "sf_name (fs ! b) = n" "sf_volatile (fs ! b) = c" by (auto simp: in_set_enumerate_eq)
qed

text \<open>A name is defined at most once in each column.\<close>

definition columns_distinct :: "source_function list \<Rightarrow> bool" where
  "columns_distinct fs \<longleftrightarrow> distinct (map (\<lambda>f. (sf_name f, sf_volatile f)) fs)"

lemma column_block_of:
  assumes "columns_distinct fs" "b < length fs"
  shows "column_block fs (sf_name (fs ! b)) (sf_volatile (fs ! b)) = Some b"
proof -
  have "find (\<lambda>(b', f). sf_name f = sf_name (fs ! b) \<and> sf_volatile f = sf_volatile (fs ! b)) (rev (enumerate 0 fs)) \<noteq> None"
    unfolding find_None_iff using assms(2) by (auto simp: in_set_enumerate_eq)
  then obtain b' where b': "column_block fs (sf_name (fs ! b)) (sf_volatile (fs ! b)) = Some b'"
    by (auto simp: column_block_def)
  note c = column_block_Some [OF b']
  have "b' = b"
    using assms c by (auto simp: columns_distinct_def distinct_conv_nth)
  then show ?thesis using b' by simp
qed

lemma name_order_set [simp]: "set (name_order fs) = sf_name ` set fs"
  by (simp add: name_order_def)

section \<open>Demotion\<close>

lemma demote_pass_sub: "set (demote_pass fs st ns dd) \<subseteq> set dd"
  by (induction fs st ns dd rule: demote_pass.induct) (auto split: if_splits)

lemma demote_pass_fix:
  "demote_pass fs st ns dd = dd \<Longrightarrow> n \<in> set ns \<Longrightarrow> n \<in> set dd \<Longrightarrow> \<not> calls_a_split fs st dd n"
proof (induction fs st ns dd rule: demote_pass.induct)
  case (2 fs st m ns dd)
  have no: "\<not> (m \<in> set dd \<and> calls_a_split fs st dd m)"
  proof
    assume t: "m \<in> set dd \<and> calls_a_split fs st dd m"
    then have "length (filter (\<lambda>x. x \<noteq> m) dd) < length dd" by (auto intro: length_filter_less)
    moreover have "length dd \<le> length (filter (\<lambda>x. x \<noteq> m) dd)"
      using "2.prems"(1) t demote_pass_length [of fs st ns "filter (\<lambda>x. x \<noteq> m) dd"] by simp
    ultimately show False by simp
  qed
  then have "demote_pass fs st ns dd = dd" using "2.prems"(1) by (simp split: if_splits)
  then show ?case using "2.IH"(2) [OF no] "2.prems"(2,3) no by auto
qed simp

lemma demote_sub: "set (demote fs st dd) \<subseteq> set dd"
proof (induction fs st dd rule: demote.induct)
  case (1 fs st dd)
  then show ?case using demote_pass_sub [of fs st "name_order fs" dd] by (subst demote.simps) (auto simp: Let_def)
qed

lemma demote_fix: "demote_pass fs st (name_order fs) (demote fs st dd) = demote fs st dd"
proof (induction fs st dd rule: demote.induct)
  case (1 fs st dd)
  show ?case
  proof (cases "demote_pass fs st (name_order fs) dd = dd")
    case True
    then have "demote fs st dd = dd" by (subst demote.simps) (simp add: Let_def)
    then show ?thesis using True by simp
  next
    case False
    then have "demote fs st dd = demote fs st (demote_pass fs st (name_order fs) dd)"
      by (subst demote.simps) (simp add: Let_def)
    then show ?thesis using "1.IH" [OF refl False] by simp
  qed
qed

lemma dedup_calls:
  assumes "n \<in> set (demote fs st (dedup_candidates fs blobs st))"
  shows "\<exists>a b. column_block fs n False = Some a \<and> column_block fs n True = Some b \<and> same_record blobs st a b
    \<and> (\<forall>(off, callee, ext) \<in> set (st a). callee \<in> sf_name ` set fs \<longrightarrow>
         callee \<in> set (demote fs st (dedup_candidates fs blobs st)))"
proof -
  let ?dd = "demote fs st (dedup_candidates fs blobs st)"
  have c: "n \<in> set (dedup_candidates fs blobs st)" using assms demote_sub by blast
  then obtain a b where ab: "column_block fs n False = Some a" "column_block fs n True = Some b" "same_record blobs st a b"
    by (auto simp: dedup_candidates_def split: option.splits)
  have "n \<in> set (name_order fs)" using c by (auto simp: dedup_candidates_def)
  then have "\<not> calls_a_split fs st ?dd n" using demote_pass_fix [OF demote_fix _ assms] by blast
  then show ?thesis using ab by (auto simp: calls_a_split_def)
qed

section \<open>The emitted blobs\<close>

lemma emitted_in:
  assumes "(n, b, tag) \<in> set (emitted_blocks fs dd)"
  shows "column_block fs n (tag = Volatile) = Some b" "tag = Both \<longleftrightarrow> n \<in> set dd"
  using assms by (auto simp: emitted_blocks_def emitted_of_def Let_def split: option.splits if_splits)

lemma emitted_block:
  assumes "column_block fs n c = Some b" "n \<notin> set dd"
  shows "(n, b, if c then Volatile else Normal) \<in> set (emitted_blocks fs dd)"
proof -
  have "n \<in> set (name_order fs)" using column_block_Some [OF assms(1)] nth_mem [of b fs] by auto
  then show ?thesis using assms by (auto simp: emitted_blocks_def emitted_of_def Let_def intro!: bexI [of _ n])
qed

lemma emitted_both:
  assumes "column_block fs n False = Some b" "n \<in> set dd"
  shows "(n, b, Both) \<in> set (emitted_blocks fs dd)"
proof -
  have "n \<in> set (name_order fs)" using column_block_Some [OF assms(1)] nth_mem [of b fs] by auto
  then show ?thesis using assms by (auto simp: emitted_blocks_def emitted_of_def Let_def intro!: bexI [of _ n])
qed

lemma column_symbol_Some:
  assumes "column_symbol es n c = Some j"
  obtains b tag where "j < length es" "es ! j = (n, b, tag)" "in_column c tag"
proof -
  obtain x where "find (\<lambda>(i, m, b, tag). m = n \<and> in_column c tag) (enumerate 0 es) = Some (j, x)"
    using assms by (auto simp: column_symbol_def)
  then have "(j, x) \<in> set (enumerate 0 es)" "case x of (m, b, tag) \<Rightarrow> m = n \<and> in_column c tag"
    by (metis (mono_tags, lifting) case_prodD find_Some_iff nth_mem)+
  then show thesis using that by (cases x) (auto simp: in_set_enumerate_eq)
qed

section \<open>The relocations of the merged blobs\<close>

definition externals_ok :: "symbol list \<Rightarrow> (utf8 \<Rightarrow> u32 option) \<Rightarrow> bool" where
  "externals_ok syms ext \<longleftrightarrow> (\<forall>n k. ext n = Some k \<longrightarrow> sym_at syms k n \<and> sym_def (syms ! unat k) = External)"

lemma sym_at_kept: "sym_at syms k n \<Longrightarrow> more_externals syms syms' \<Longrightarrow> sym_at syms' k n \<and> syms' ! unat k = syms ! unat k"
  by (auto simp: sym_at_def more_externals_def nth_append)

lemma externals_more: "externals_ok syms ext \<Longrightarrow> more_externals syms syms' \<Longrightarrow> externals_ok syms' ext"
  unfolding externals_ok_def using sym_at_kept by metis

text \<open>The relocation of a site: to the symbol of its callee, in the column, or external as before.\<close>

definition site_merged ::
  "(utf8 \<times> nat \<times> blob_variant) list \<Rightarrow> nat \<Rightarrow> bool \<Rightarrow> symbol list \<Rightarrow> site \<Rightarrow> relocation \<Rightarrow> bool" where
  "site_merged es i c syms = (\<lambda>(off, callee, ext) r.
     rl_blob r = of_nat i \<and> rl_offset r = off \<and> sym_at syms (rl_symbol r) callee
     \<and> (if ext then sym_def (syms ! unat (rl_symbol r)) = External
        else column_symbol es callee c = Some (unat (rl_symbol r))))"

lemma site_merged_more:
  assumes "site_merged es i c syms s r" "more_externals syms syms'"
  shows "site_merged es i c syms' s r"
  using assms sym_at_kept [OF _ assms(2)] by (cases s) (auto simp: site_merged_def split: if_splits)

text \<open>The symbols begin with those of the emitted blobs.\<close>

definition emitted_first :: "(utf8 \<times> nat \<times> blob_variant) list \<Rightarrow> symbol list \<Rightarrow> bool" where
  "emitted_first es syms \<longleftrightarrow> length es \<le> length syms \<and> (\<forall>j < length es. sym_name (syms ! j) = fst (es ! j))"

lemma emitted_first_more: "emitted_first es syms \<Longrightarrow> more_externals syms syms' \<Longrightarrow> emitted_first es syms'"
  by (auto simp: emitted_first_def more_externals_def nth_append)

lemma merge_sites_grows:
  "merge_sites es i c ss (syms, ext) = Some (rs, syms', ext') \<Longrightarrow> length syms \<le> length syms'"
proof (induction ss arbitrary: syms ext rs)
  case (Cons s ss)
  obtain off callee e where s: "s = (off, callee, e)" by (cases s) auto
  show ?case using Cons.prems
    by (auto simp: s Let_def bind_eq_Some_conv split: if_splits option.splits dest!: Cons.IH)
qed simp

lemma grown_insert: "A \<subseteq> insert c B \<Longrightarrow> D \<subseteq> A \<union> E \<Longrightarrow> D \<subseteq> B \<union> insert c E"
  by blast

lemma grown_union: "A \<subseteq> B \<union> C \<Longrightarrow> D \<subseteq> A \<union> E \<Longrightarrow> D \<subseteq> B \<union> (C \<union> E)"
  by blast

lemma merge_sites_ok:
  "merge_sites es i c ss (syms, ext) = Some (rs, syms', ext') \<Longrightarrow> externals_ok syms ext \<Longrightarrow> emitted_first es syms \<Longrightarrow>
     length syms' < 2 ^ 32 \<Longrightarrow>
     more_externals syms syms' \<and> externals_ok syms' ext' \<and> list_all2 (site_merged es i c syms') ss rs
     \<and> sym_name ` set syms' \<subseteq> sym_name ` set syms \<union> (\<lambda>s. fst (snd s)) ` set ss"
proof (induction ss arbitrary: syms ext rs)
  case Nil
  then show ?case by simp
next
  case (Cons s ss)
  obtain off callee e where s: "s = (off, callee, e)" by (cases s) auto
  have "\<exists>k syms1 ext1 rs1. rs = \<lparr>rl_blob = of_nat i, rl_offset = off, rl_symbol = k\<rparr> # rs1
      \<and> merge_sites es i c ss (syms1, ext1) = Some (rs1, syms', ext')
      \<and> (e \<and> ext callee = Some k \<and> syms1 = syms \<and> ext1 = ext
         \<or> e \<and> ext callee = None \<and> k = of_nat (length syms) \<and> syms1 = syms @ [\<lparr>sym_name = callee, sym_def = External\<rparr>]
            \<and> ext1 = ext(callee \<mapsto> k)
         \<or> \<not> e \<and> syms1 = syms \<and> ext1 = ext \<and> (\<exists>j. column_symbol es callee c = Some j \<and> k = of_nat j))"
    using Cons.prems(1) by (auto simp: s Let_def bind_eq_Some_conv split: if_splits option.splits)
  then obtain k syms1 ext1 rs1 where rs: "rs = \<lparr>rl_blob = of_nat i, rl_offset = off, rl_symbol = k\<rparr> # rs1"
    and m: "merge_sites es i c ss (syms1, ext1) = Some (rs1, syms', ext')"
    and k: "e \<and> ext callee = Some k \<and> syms1 = syms \<and> ext1 = ext
         \<or> e \<and> ext callee = None \<and> k = of_nat (length syms) \<and> syms1 = syms @ [\<lparr>sym_name = callee, sym_def = External\<rparr>]
            \<and> ext1 = ext(callee \<mapsto> k)
         \<or> \<not> e \<and> syms1 = syms \<and> ext1 = ext \<and> (\<exists>j. column_symbol es callee c = Some j \<and> k = of_nat j)"
    by blast
  have len1: "length syms1 < 2 ^ 32" using merge_sites_grows [OF m] Cons.prems(4) by simp
  have more1: "more_externals syms syms1" using k by (auto simp: more_externals_def)
  have one: "externals_ok syms1 ext1 \<and> site_merged es i c syms1 s \<lparr>rl_blob = of_nat i, rl_offset = off, rl_symbol = k\<rparr>"
    using k
  proof (elim disjE conjE exE)
    assume "e" "ext callee = Some k" "syms1 = syms" "ext1 = ext"
    then show ?thesis using Cons.prems(2) by (auto simp: externals_ok_def site_merged_def s)
  next
    assume n: "e" "ext callee = None" "k = of_nat (length syms)" "syms1 = syms @ [\<lparr>sym_name = callee, sym_def = External\<rparr>]"
      "ext1 = ext(callee \<mapsto> k)"
    have u: "unat k = length syms" using len1 n(3,4) by (simp add: unat_of_nat take_bit_nat_eq_self)
    have "externals_ok syms1 ext" by (rule externals_more [OF Cons.prems(2) more1])
    then have "externals_ok syms1 ext1" using u n(4,5) by (auto simp: externals_ok_def sym_at_def)
    then show ?thesis using u n(1,4) by (simp add: site_merged_def s sym_at_def)
  next
    fix j assume n: "\<not> e" "syms1 = syms" "ext1 = ext" "column_symbol es callee c = Some j" "k = of_nat j"
    obtain b tag where j: "j < length es" "es ! j = (callee, b, tag)" using column_symbol_Some [OF n(4)] by metis
    have "j < length syms" using j(1) Cons.prems(3) by (simp add: emitted_first_def)
    then have "unat k = j" using len1 n(2,5) by (simp add: unat_of_nat take_bit_nat_eq_self)
    then show ?thesis using n j Cons.prems(2,3) by (auto simp: site_merged_def s sym_at_def emitted_first_def)
  qed
  have first1: "emitted_first es syms1" by (rule emitted_first_more [OF Cons.prems(3) more1])
  have names1: "sym_name ` set syms1 \<subseteq> insert callee (sym_name ` set syms)" using k by auto
  note ih = Cons.IH [OF m _ first1 Cons.prems(4)]
  have ih': "more_externals syms1 syms'" "externals_ok syms' ext'" "list_all2 (site_merged es i c syms') ss rs1"
    "sym_name ` set syms' \<subseteq> sym_name ` set syms1 \<union> (\<lambda>s. fst (snd s)) ` set ss" using ih one by simp_all
  have "sym_name ` set syms' \<subseteq> sym_name ` set syms \<union> (\<lambda>s. fst (snd s)) ` set (s # ss)"
  proof -
    have "(\<lambda>s. fst (snd s)) ` set (s # ss) = insert callee ((\<lambda>s. fst (snd s)) ` set ss)" by (simp add: s)
    then show ?thesis using grown_insert [OF names1 ih'(4)] by (simp only:)
  qed
  then show ?case
    using more_externals_trans [OF more1 ih'(1)] ih'(2,3) site_merged_more [OF conjunct2 [OF one] ih'(1)] rs by simp
qed

lemma merge_blocks_grows:
  "merge_blocks fs st es i rest (syms, ext) = Some (relocs, syms') \<Longrightarrow> length syms \<le> length syms'"
proof (induction rest arbitrary: i syms ext relocs)
  case (Cons e rest)
  obtain n b tag where e: "e = (n, b, tag)" by (cases e) auto
  obtain rs syms1 ext1 relocs1 where "merge_sites es i (sf_volatile (fs ! b)) (st b) (syms, ext) = Some (rs, syms1, ext1)"
    "merge_blocks fs st es (i + 1) rest (syms1, ext1) = Some (relocs1, syms')"
    using Cons.prems by (auto simp: e bind_eq_Some_conv)
  then show ?case using merge_sites_grows Cons.IH by (meson le_trans)
qed simp

lemma merge_blocks_ok:
  "merge_blocks fs st es i rest (syms, ext) = Some (relocs, syms') \<Longrightarrow> externals_ok syms ext \<Longrightarrow> emitted_first es syms \<Longrightarrow>
     length syms' < 2 ^ 32 \<Longrightarrow>
     more_externals syms syms'
     \<and> sym_name ` set syms' \<subseteq> sym_name ` set syms \<union> (\<Union>(n, b, tag) \<in> set rest. (\<lambda>s. fst (snd s)) ` set (st b))
     \<and> (\<exists>rss. relocs = concat rss \<and> length rss = length rest
          \<and> (\<forall>j < length rest. \<forall>n b tag. rest ! j = (n, b, tag) \<longrightarrow>
               list_all2 (site_merged es (i + j) (sf_volatile (fs ! b)) syms') (st b) (rss ! j)))"
proof (induction rest arbitrary: i syms ext relocs)
  case Nil
  then show ?case by simp
next
  case (Cons e rest)
  obtain n b tag where e: "e = (n, b, tag)" by (cases e) auto
  obtain rs syms1 ext1 relocs1 where m: "merge_sites es i (sf_volatile (fs ! b)) (st b) (syms, ext) = Some (rs, syms1, ext1)"
    and r: "merge_blocks fs st es (i + 1) rest (syms1, ext1) = Some (relocs1, syms')" and rl: "relocs = rs @ relocs1"
    using Cons.prems(1) by (auto simp: e bind_eq_Some_conv)
  have len1: "length syms1 < 2 ^ 32" using merge_blocks_grows [OF r] Cons.prems(4) by simp
  note one = merge_sites_ok [OF m Cons.prems(2,3) len1]
  have o': "more_externals syms syms1" "externals_ok syms1 ext1" "emitted_first es syms1"
    "sym_name ` set syms1 \<subseteq> sym_name ` set syms \<union> (\<lambda>s. fst (snd s)) ` set (st b)"
    using one emitted_first_more [OF Cons.prems(3)] by simp_all
  note ih = Cons.IH [OF r o'(2,3) Cons.prems(4)]
  obtain rss where rss: "relocs1 = concat rss" "length rss = length rest"
    "\<And>j n b tag. j < length rest \<Longrightarrow> rest ! j = (n, b, tag) \<Longrightarrow>
               list_all2 (site_merged es (i + 1 + j) (sf_volatile (fs ! b)) syms') (st b) (rss ! j)"
    using ih by blast
  have more: "more_externals syms1 syms'" using ih by simp
  have head: "list_all2 (site_merged es i (sf_volatile (fs ! b)) syms') (st b) rs"
    by (rule list_all2_mono [of "site_merged es i (sf_volatile (fs ! b)) syms1"]) (use one more site_merged_more in auto)
  have "list_all2 (site_merged es (i + j) (sf_volatile (fs ! b')) syms') (st b') ((rs # rss) ! j)"
    if "j < length (e # rest)" "(e # rest) ! j = (n', b', tag')" for j n' b' tag'
  proof (cases j)
    case 0
    then show ?thesis using that(2) head e by simp
  next
    case (Suc k)
    then show ?thesis using rss(3) [of k n' b' tag'] that by simp
  qed
  moreover have "relocs = concat (rs # rss)" "length (rs # rss) = length (e # rest)" using rl rss(1,2) by simp_all
  moreover have "sym_name ` set syms' \<subseteq> sym_name ` set syms \<union> (\<Union>(n, b, tag) \<in> set (e # rest). (\<lambda>s. fst (snd s)) ` set (st b))"
  proof -
    have "(\<Union>(n, b, tag) \<in> set (e # rest). (\<lambda>s. fst (snd s)) ` set (st b))
        = (\<lambda>s. fst (snd s)) ` set (st b) \<union> (\<Union>(n, b, tag) \<in> set rest. (\<lambda>s. fst (snd s)) ` set (st b))" by (simp add: e)
    moreover have "sym_name ` set syms' \<subseteq> sym_name ` set syms1 \<union> (\<Union>(n, b, tag) \<in> set rest. (\<lambda>s. fst (snd s)) ` set (st b))"
      using ih by simp
    ultimately show ?thesis using grown_union [OF o'(4)] by (simp only:)
  qed
  ultimately show ?case using more_externals_trans [OF o'(1) more] by (intro conjI exI [of _ "rs # rss"]) auto
qed

section \<open>The sites of a block\<close>

lemma one_site: "length (item_sites sx it at) \<le> 1"
  by (cases "(sx, it, at)" rule: item_sites.cases) auto

lemma site_place:
  assumes "coded_function a sx f af addr" "length (af_blob af) < 2 ^ 32" "i < length (sf_items f)"
    and "x \<in> set (item_sites sx (sf_items f ! i) (of_nat (addr i)))"
  shows "addr i < unat (fst x)" "unat (fst x) \<le> addr (Suc i)"
proof -
  note ci = coded_item [OF assms(1,2,3)]
  show "addr i < unat (fst x)" "unat (fst x) \<le> addr (Suc i)"
    using item_hole_room(1) [OF ci(1)] assms(4) ci(2-4) ci(5) [of 1] by fastforce+
qed

lemma sites_sorted:
  assumes "coded_function a sx f af addr" "length (af_blob af) < 2 ^ 32"
  shows "sorted (map fst (all_items (item_sites sx) addr (sf_items f)))"
proof -
  let ?g = "\<lambda>i. item_sites sx (sf_items f ! i) (of_nat (addr i))"
  have "sorted (map fst (concat (map ?g [0..<n]))) \<and> (\<forall>x \<in> set (concat (map ?g [0..<n])). unat (fst x) \<le> addr n)"
    if "n \<le> length (sf_items f)" for n
    using that
  proof (induction n)
    case (Suc n)
    then have n: "n < length (sf_items f)" and ih: "sorted (map fst (concat (map ?g [0..<n])))"
      "\<forall>x \<in> set (concat (map ?g [0..<n])). unat (fst x) \<le> addr n" by simp_all
    note sp = site_place [OF assms n]
    note ci = coded_item [OF assms n]
    have one: "sorted (map fst (?g n))" using one_site [of sx "sf_items f ! n" "of_nat (addr n)"] by (cases "?g n") auto
    have before: "fst x \<le> fst y" if "x \<in> set (concat (map ?g [0..<n]))" "y \<in> set (?g n)" for x y
      using ih(2) sp(1) [OF that(2)] that(1) by (fastforce simp: word_le_nat_alt)
    have after: "unat (fst x) \<le> addr (Suc n)" if "x \<in> set (concat (map ?g [0..<n])) \<union> set (?g n)" for x
      using that
    proof
      assume "x \<in> set (concat (map ?g [0..<n]))"
      then have "unat (fst x) \<le> addr n" using ih(2) by blast
      then show ?thesis using ci(3) by simp
    next
      assume "x \<in> set (?g n)"
      then show ?thesis by (rule sp(2))
    qed
    have c: "concat (map ?g [0..<Suc n]) = concat (map ?g [0..<n]) @ ?g n" by simp
    show ?case unfolding c using ih(1) one before after by (simp only: sorted_append map_append set_append set_map) blast
  qed simp
  then show ?thesis unfolding all_items_def by blast
qed

definition reloc_site :: "symbol list \<Rightarrow> relocation \<Rightarrow> site" where
  "reloc_site syms r =
     (rl_offset r, sym_name (syms ! unat (rl_symbol r)), sym_def (syms ! unat (rl_symbol r)) = External)"

lemma block_sites_eq:
  assumes "\<And>i. i < length afs \<Longrightarrow> \<exists>addr. assembled_as a sx (of_nat i) syms (fs ! i) (afs ! i) addr"
    and "\<And>af. af \<in> set afs \<Longrightarrow> length (af_blob af) < 2 ^ 32" "length afs < 2 ^ 32" "b < length afs"
  shows "block_sites syms (concat (map af_relocs afs)) b = map (reloc_site syms) (af_relocs (afs ! b))"
proof -
  obtain addr where addr: "assembled_as a sx (of_nat b) syms (fs ! b) (afs ! b) addr" using assms(1,4) by blast
  have c: "coded_function a sx (fs ! b) (afs ! b) addr"
    and l: "list_all2 (site_reloc (of_nat b) syms) (all_items (item_sites sx) addr (sf_items (fs ! b))) (af_relocs (afs ! b))"
    using addr by (simp_all add: assembled_as_def)
  have u: "unat (w :: u32) = b \<longleftrightarrow> w = of_nat b" for w
    using assms(3,4) by (auto simp: unat_of_nat take_bit_nat_eq_self)
  have recs: "\<And>i r. i < length (map af_relocs afs) \<Longrightarrow> r \<in> set (map af_relocs afs ! i) \<Longrightarrow> rl_blob r = of_nat i"
    using assms(1) record_blob(1) by fastforce
  have fil: "filter (\<lambda>r. unat (rl_blob r) = b) (concat (map af_relocs afs)) = af_relocs (afs ! b)"
    unfolding u using filter_by_blob [of "map af_relocs afs" rl_blob b, OF recs] assms(3,4) by simp
  have offs: "map rl_offset (af_relocs (afs ! b)) = map fst (all_items (item_sites sx) addr (sf_items (fs ! b)))"
    using l by (induction rule: list_all2_induct) (auto simp: site_reloc_def)
  have "sorted (map fst (map (reloc_site syms) (af_relocs (afs ! b))))"
    using sites_sorted [OF c assms(2)] assms(4) offs by (simp add: reloc_site_def comp_def)
  moreover have "block_sites syms (concat (map af_relocs afs)) b = sort_key fst (map (reloc_site syms) (af_relocs (afs ! b)))"
    by (simp add: block_sites_def fil reloc_site_def [abs_def] Let_def)
  ultimately show ?thesis by (simp add: sort_key_id_if_sorted)
qed

lemma sites_are_items:
  assumes "assembled_as a sx b syms f af addr"
  shows "all_items (item_sites sx) addr (sf_items f) = map (\<lambda>r. (rl_offset r, sym_name (syms ! unat (rl_symbol r)))) (af_relocs af)"
proof -
  have "list_all2 (site_reloc b syms) (all_items (item_sites sx) addr (sf_items f)) (af_relocs af)"
    using assms by (simp add: assembled_as_def)
  then show ?thesis by (induction rule: list_all2_induct) (auto simp: site_reloc_def sym_at_def)
qed

section \<open>The number of symbols\<close>

lemma bind_adds_one: "length (fst (snd (bind_symbol n c syms))) \<le> Suc (length (fst syms))"
  by (auto simp: bind_symbol_def Let_def split: option.splits prod.splits)

lemma emit_slot_adds:
  assumes "emit_slot ls sts b c s at far em = Some (Inr em')"
  shows "length (fst (em_symbols em')) \<le> Suc (length (fst (em_symbols em)))"
proof -
  have h: "length (fst (em_symbols (symbol_hole b n c em))) \<le> Suc (length (fst (em_symbols em)))"
    "length (fst (em_symbols (bound_hole b n c bd em))) \<le> Suc (length (fst (em_symbols em)))" for n bd em
    using bind_adds_one [of n c "em_symbols em"] by (simp_all add: symbol_hole_def bound_hole_def bind_target_def split_beta)
  show ?thesis using assms h(1) [of _ "push_bytes _ em"] h(2) [of _ _ "push_bytes _ em"]
    by (cases s) (auto simp: Let_def split: sum.splits)
qed

lemma emit_slots_adds:
  "emit_slots ls sts b c slots ats fars em = Some (Inr em') \<Longrightarrow>
     length (fst (em_symbols em')) \<le> length (fst (em_symbols em)) + length slots"
proof (induction ls sts b c slots ats fars em rule: emit_slots.induct)
  case (1 ls sts b c s slots at ats far fars em)
  then obtain em1 where e: "emit_slot ls sts b c s at far (em\<lparr>em_lines := em_lines em @ [(at, slot_line s)]\<rparr>) = Some (Inr em1)"
    and r: "emit_slots ls sts b c slots ats fars em1 = Some (Inr em')" by (auto split: option.splits sum.splits)
  show ?case using emit_slot_adds [OF e] "1.IH" [OF e refl r] by simp
qed auto

lemma assemble_function_adds:
  assumes "assemble_function sx f b sig syms = Some (Inr (af, syms'))"
  shows "length (fst syms') \<le> length (fst syms) + length (sf_items f)"
  using assms
proof (rule assemble_function_parts)
  fix slots ls fars em
  assume c: "classify sx sig (sf_items f) [] [] = Some (Inr (slots, ls))"
    and em: "emit_slots ls (starts 1 slots fars) b (sf_volatile f) slots (starts 1 slots fars) fars
       \<lparr>em_blob = [as_entry_opcode sx], em_relocs = [], em_bound = [], em_lines = [], em_refs = [],
        em_symbols = syms\<rparr> = Some (Inr em)" and s: "syms' = em_symbols em"
  show "length (fst syms') \<le> length (fst syms) + length (sf_items f)"
    using emit_slots_adds [OF em] s list_all2_lengthD [OF classified(1) [OF c]] by simp
qed

lemma assemble_functions_adds:
  "assemble_functions sx sigs b fs syms = Some (Inr (afs, syms')) \<Longrightarrow>
     length (fst syms') \<le> length (fst syms) + sum_list (map (\<lambda>f. length (sf_items f)) fs)"
proof (induction sx sigs b fs syms arbitrary: afs rule: assemble_functions.induct)
  case (2 sx sigs b f fs syms)
  then obtain af s1 afs1 where f: "assemble_function sx f (of_nat b) (map_option (\<lambda>ss. sig_arity (ss ! b)) sigs) syms = Some (Inr (af, s1))"
    and r: "assemble_functions sx sigs (b + 1) fs s1 = Some (Inr (afs1, syms'))"
    by (auto simp: map_sum_Inr split: option.splits sum.splits)
  show ?case using "2.IH" [OF f refl refl r] assemble_function_adds [OF f] by simp
qed simp

section \<open>The merged object\<close>

text \<open>The parts of a run over a source with build columns.\<close>

lemma tagged_parts:
  assumes "assemble_lowered sx arch src dbg = Some (Inr ob)" "\<exists>f \<in> set (ls_functions src). sf_volatile f"
  obtains afs symbols ix relocs syms' dd es where
    "assemble_functions sx None 0 (ls_functions src)
       (function_symbols (ls_functions src), \<lparr>six_defined = define_all 0 (ls_functions src) Map.empty, six_external = Map.empty\<rparr>)
     = Some (Inr (afs, (symbols, ix)))"
    "\<And>af. af \<in> set afs \<Longrightarrow> af_bound af = [] \<and> af_refs af = []"
    "dd = demote (ls_functions src) (block_sites symbols (concat (map af_relocs afs)))
       (dedup_candidates (ls_functions src) (map af_blob afs) (block_sites symbols (concat (map af_relocs afs))))"
    "es = emitted_blocks (ls_functions src) dd"
    "merge_blocks (ls_functions src) (block_sites symbols (concat (map af_relocs afs))) es 0 es
       (map (merged_symbol (ls_functions src)) (enumerate 0 es), Map.empty) = Some (relocs, syms')"
    "ob_symbols ob = syms'" "ob_relocations ob = relocs" "ob_blobs ob = map (\<lambda>(n, b, tag). map af_blob afs ! b) es"
    "ob_debug ob = (if dbg then Some (map (\<lambda>(n, b, tag). map af_debug afs ! b) es) else None)"
    "ob_variants ob = Some (map (\<lambda>(n, b, tag). tag) es)" "ob_signatures ob = None" "ob_table_blobs ob = None"
    "ob_table_fixups ob = []" "ob_bound_calls ob = []"
proof -
  let ?fs = "ls_functions src"
  have none: "ls_tables src = []" "ls_signatures src = None"
    using assms by (auto simp: assemble_lowered_def Let_def refuse_tables_def asm_err_def split: if_splits)
  obtain afs symbols ix mg where f: "assemble_functions sx None 0 ?fs
       (function_symbols ?fs, \<lparr>six_defined = define_all 0 ?fs Map.empty, six_external = Map.empty\<rparr>) = Some (Inr (afs, (symbols, ix)))"
    and e: "concat (map af_bound afs) = []" "\<forall>af \<in> set afs. af_refs af = []"
    and m: "merge_columns ?fs symbols (ob_blobs (plain_object arch src symbols afs dbg))
       (ob_relocations (plain_object arch src symbols afs dbg)) (ob_debug (plain_object arch src symbols afs dbg)) = Some mg"
    and fin: "finish_object src afs (merged_object mg (plain_object arch src symbols afs dbg)) = Some (Inr ob)"
    using assms none
    by (auto simp: assemble_lowered_def Let_def refuse_tables_def asm_err_def bind_eq_Some_conv
        split: if_splits option.splits sum.splits)
  have ob: "ob = (merged_object mg (plain_object arch src symbols afs dbg))\<lparr>ob_signatures := None, ob_bound_calls := []\<rparr>"
    using fin none e by (auto simp: finish_object_def Let_def)
  let ?st = "block_sites symbols (concat (map af_relocs afs))"
  let ?dd = "demote ?fs ?st (dedup_candidates ?fs (map af_blob afs) ?st)"
  let ?es = "emitted_blocks ?fs ?dd"
  obtain relocs syms' where mb: "merge_blocks ?fs ?st ?es 0 ?es (map (merged_symbol ?fs) (enumerate 0 ?es), Map.empty) = Some (relocs, syms')"
    and mg: "mg = \<lparr>mg_symbols = syms', mg_blobs = map (\<lambda>(n, b, tag). map af_blob afs ! b) ?es, mg_relocs = relocs,
       mg_debug = map_option (\<lambda>ds. map (\<lambda>(n, b, tag). ds ! b) ?es) (if dbg then Some (map af_debug afs) else None),
       mg_variants = map (\<lambda>(n, b, tag). tag) ?es\<rparr>"
    using m by (auto simp: merge_columns_def Let_def plain_object_def object_v2_def)
  show thesis
    by (rule that [OF f _ refl refl mb])
      (use e in \<open>auto simp: ob mg merged_object_def plain_object_def object_v2_def\<close>)
qed

text \<open>
  Function \<open>f\<close> as blob \<open>i\<close> of the merged object: assembled, with the relocations of the blob, and only these,
  under a symbol of its name, and tagged with its column at least.
\<close>

definition column_placed ::
  "arch \<Rightarrow> arch_syntax \<Rightarrow> object_file \<Rightarrow> nat \<Rightarrow> source_function \<Rightarrow> assembled_function \<Rightarrow> (nat \<Rightarrow> nat) \<Rightarrow> bool" where
  "column_placed a sx ob i f af addr \<longleftrightarrow>
     assembled_as a sx (of_nat i) (ob_symbols ob) f af addr
   \<and> ob_blobs ob ! i = af_blob af
   \<and> filter (\<lambda>r. rl_blob r = of_nat i) (ob_relocations ob) = af_relocs af
   \<and> sym_name (ob_symbols ob ! i) = sf_name f
   \<and> (\<exists>vs. ob_variants ob = Some vs \<and> in_column (sf_volatile f) (vs ! i))"

text \<open>A call from a blob leads out of the object, or to a blob present in every column the caller is in.\<close>

definition columns_closed :: "object_file \<Rightarrow> bool" where
  "columns_closed ob \<longleftrightarrow>
     (\<exists>vs. ob_variants ob = Some vs \<and>
        (\<forall>r \<in> set (ob_relocations ob). unat (rl_blob r) < length vs \<and>
           (sym_def (ob_symbols ob ! unat (rl_symbol r)) = External
            \<or> unat (rl_symbol r) < length vs
              \<and> (\<forall>c. in_column c (vs ! unat (rl_blob r)) \<longrightarrow> in_column c (vs ! unat (rl_symbol r))))))"

definition source_fits :: "lowered_source \<Rightarrow> bool" where
  "source_fits src \<longleftrightarrow>
     length (ls_functions src) + sum_list (map (\<lambda>f. length (sf_items f)) (ls_functions src)) < 2 ^ 32"

lemma merged_symbols_nth:
  "j < length es \<Longrightarrow> es ! j = (n, b, tag) \<Longrightarrow>
     map (merged_symbol fs) (enumerate 0 es) ! j
       = \<lparr>sym_name = n, sym_def = (if sf_local (fs ! b) then Local (of_nat j) else Defined (of_nat j))\<rparr>"
  by (simp add: nth_enumerate_eq merged_symbol_def)

lemma emitted_first_start: "emitted_first es (map (merged_symbol fs) (enumerate 0 es))"
  by (auto simp: emitted_first_def nth_enumerate_eq merged_symbol_def split_beta)

definition calls_of :: "site list \<Rightarrow> (u32 \<times> utf8) list" where
  "calls_of ss = map (\<lambda>(off, callee, ext). (off, callee)) ss"

text \<open>Every block has an emitted blob in its column, with its bytes and its calls.\<close>

lemma block_emitted:
  assumes d: "columns_distinct fs" and b: "b < length fs"
    and dd: "dd = demote fs st (dedup_candidates fs blobs st)"
  obtains i b' tag where "i < length (emitted_blocks fs dd)" "emitted_blocks fs dd ! i = (sf_name (fs ! b), b', tag)"
    "in_column (sf_volatile (fs ! b)) tag" "blobs ! b' = blobs ! b" "calls_of (st b') = calls_of (st b)"
proof -
  let ?n = "sf_name (fs ! b)" and ?c = "sf_volatile (fs ! b)"
  note cb = column_block_of [OF d b]
  have "\<exists>b' tag. (?n, b', tag) \<in> set (emitted_blocks fs dd) \<and> in_column ?c tag \<and> blobs ! b' = blobs ! b \<and> calls_of (st b') = calls_of (st b)"
  proof (cases "?n \<in> set dd")
    case False
    have "in_column ?c (if ?c then Volatile else Normal)" by (simp add: in_column_def)
    then show ?thesis using emitted_block [OF cb False] by blast
  next
    case True
    obtain x y where xy: "column_block fs ?n False = Some x" "column_block fs ?n True = Some y" "same_record blobs st x y"
      using dedup_calls [of ?n fs st blobs] True dd by auto
    have "b = x \<or> b = y" using cb xy(1,2) by (cases ?c) auto
    then have "blobs ! x = blobs ! b \<and> calls_of (st x) = calls_of (st b)"
      using xy(3) by (auto simp: same_record_def calls_of_def)
    moreover have "in_column ?c Both" by (simp add: in_column_def)
    ultimately show ?thesis using emitted_both [OF xy(1) True] by blast
  qed
  then obtain b' tag where e: "(?n, b', tag) \<in> set (emitted_blocks fs dd)" "in_column ?c tag" "blobs ! b' = blobs ! b"
    "calls_of (st b') = calls_of (st b)" by blast
  then obtain i where "i < length (emitted_blocks fs dd)" "emitted_blocks fs dd ! i = (?n, b', tag)"
    by (metis in_set_conv_nth)
  then show thesis using that e(2-4) by blast
qed

text \<open>A callee is present wherever its caller is.\<close>

lemma callee_present:
  assumes dd: "dd = demote fs st (dedup_candidates fs blobs st)" and e: "(n, b, tag) \<in> set (emitted_blocks fs dd)"
    and s: "(off, callee, ext) \<in> set (st b)" and k: "column_symbol (emitted_blocks fs dd) callee (sf_volatile (fs ! b)) = Some k"
    and c: "in_column c tag"
  obtains b' tag' where "k < length (emitted_blocks fs dd)" "emitted_blocks fs dd ! k = (callee, b', tag')" "in_column c tag'"
proof -
  note ei = emitted_in [OF e]
  have vol: "sf_volatile (fs ! b) \<longleftrightarrow> tag = Volatile" using column_block_Some(3) [OF ei(1)] by simp
  obtain b' tag' where k': "k < length (emitted_blocks fs dd)" "emitted_blocks fs dd ! k = (callee, b', tag')"
    "in_column (sf_volatile (fs ! b)) tag'" by (rule column_symbol_Some [OF k])
  have ek: "(callee, b', tag') \<in> set (emitted_blocks fs dd)" using k'(1,2) by (metis nth_mem)
  have "in_column c tag'"
  proof (cases tag)
    case Both
    then have n: "n \<in> set dd" using ei(2) by simp
    obtain x where x: "column_block fs n False = Some x"
      "\<forall>(off, callee, ext) \<in> set (st x). callee \<in> sf_name ` set fs \<longrightarrow> callee \<in> set dd"
      using dedup_calls [of n fs st blobs] n dd by auto
    have "x = b" using x(1) ei(1) Both by simp
    moreover have "callee \<in> sf_name ` set fs"
      using column_block_Some [OF emitted_in(1) [OF ek]] nth_mem by (metis image_eqI)
    ultimately have "callee \<in> set dd" using x(2) s by auto
    then have "tag' = Both" using emitted_in(2) [OF ek] by simp
    then show ?thesis by (simp add: in_column_def)
  next
    case Normal
    then show ?thesis using c vol k'(3) by (cases c) (auto simp: in_column_def)
  next
    case Volatile
    then show ?thesis using c vol k'(3) by (cases c) (auto simp: in_column_def)
  qed
  then show thesis using that k'(1,2) by blast
qed

text \<open>The assembled function of a block, with other relocations for the same calls.\<close>

lemma assembled_as_relocs:
  assumes as: "assembled_as a sx b syms f af addr" and bd: "af_bound af = []"
    and calls: "calls_of ss = map (\<lambda>r. (rl_offset r, sym_name (syms ! unat (rl_symbol r)))) (af_relocs af)"
    and m: "list_all2 (site_merged es i c syms') ss rs"
  shows "assembled_as a sx (of_nat i) syms' f (af\<lparr>af_relocs := rs\<rparr>) addr"
proof -
  have "list_all2 (\<lambda>s r. site_reloc (of_nat i) syms' (case s of (off, callee, ext) \<Rightarrow> (off, callee)) r) ss rs"
    by (rule list_all2_mono [OF m]) (auto simp: site_merged_def site_reloc_def)
  then have "list_all2 (site_reloc (of_nat i) syms') (calls_of ss) rs" by (simp add: calls_of_def list_all2_map1)
  then have "list_all2 (site_reloc (of_nat i) syms') (all_items (item_sites sx) addr (sf_items f)) rs"
    unfolding sites_are_items [OF as] calls .
  moreover have "all_items item_bound addr (sf_items f) = []" using as bd by (simp add: assembled_as_def)
  moreover have "coded_function a sx f (af\<lparr>af_relocs := rs\<rparr>) addr" using as by (simp add: assembled_as_def coded_function_def)
  ultimately show ?thesis using as bd by (simp add: assembled_as_def)
qed

lemma merged_assembled:
  assumes agree: "syntax_agrees a sx" and src: "source_ok sx src" and sf: "source_fits src"
    and d: "columns_distinct (ls_functions src)" and asm: "assemble_lowered sx arch src dbg = Some (Inr ob)"
    and tagged: "\<exists>f \<in> set (ls_functions src). sf_volatile f" and fits: "sizes_fit ob"
  shows "(\<forall>b < length (ls_functions src). \<exists>i < length (ob_blobs ob). \<exists>af addr. column_placed a sx ob i (ls_functions src ! b) af addr)
    \<and> columns_closed ob \<and> object_ok ob"
proof (rule tagged_parts [OF asm tagged])
  let ?fs = "ls_functions src"
  fix afs :: "assembled_function list" and symbols ix relocs syms' dd es
  let ?st = "block_sites symbols (concat (map af_relocs afs))" and ?blobs = "map af_blob afs"
  assume f: "assemble_functions sx None 0 ?fs
       (function_symbols ?fs, \<lparr>six_defined = define_all 0 ?fs Map.empty, six_external = Map.empty\<rparr>) = Some (Inr (afs, (symbols, ix)))"
    and e: "\<And>af. af \<in> set afs \<Longrightarrow> af_bound af = [] \<and> af_refs af = []"
    and dd: "dd = demote ?fs ?st (dedup_candidates ?fs ?blobs ?st)" and es: "es = emitted_blocks ?fs dd"
    and mb: "merge_blocks ?fs ?st es 0 es (map (merged_symbol ?fs) (enumerate 0 es), Map.empty) = Some (relocs, syms')"
    and ob: "ob_symbols ob = syms'" "ob_relocations ob = relocs" "ob_blobs ob = map (\<lambda>(n, b, tag). ?blobs ! b) es"
      "ob_debug ob = (if dbg then Some (map (\<lambda>(n, b, tag). map af_debug afs ! b) es) else None)"
      "ob_variants ob = Some (map (\<lambda>(n, b, tag). tag) es)" "ob_signatures ob = None" "ob_table_blobs ob = None"
      "ob_table_fixups ob = []" "ob_bound_calls ob = []"
  let ?first = "map (merged_symbol ?fs) (enumerate 0 es)"
  have la: "length afs = length ?fs" using assemble_functions_more [OF f] by simp
  have n: "length ?fs < 2 ^ 32" "length symbols < 2 ^ 32"
    using sf assemble_functions_adds [OF f] by (simp_all add: source_fits_def)
  have les: "length (ob_blobs ob) = length es" "length es < 2 ^ 32" using ob(3) fits by (simp_all add: sizes_fit_def)
  have entry: "b < length ?fs \<and> sf_name (?fs ! b) = m \<and> function_ok sx (?fs ! b)" if "(m, b, tag) \<in> set es" for m b tag
    using column_block_Some [OF emitted_in(1) [OF that [unfolded es]]] src nth_mem [of b ?fs] by (simp add: source_ok_def)
  have rep: "\<exists>i b' tag. i < length es \<and> es ! i = (sf_name (?fs ! b), b', tag) \<and> in_column (sf_volatile (?fs ! b)) tag
      \<and> ?blobs ! b' = ?blobs ! b \<and> calls_of (?st b') = calls_of (?st b)" if b: "b < length ?fs" for b
    using block_emitted [OF d b dd] es by metis
  have sizes: "length (af_blob af) < 2 ^ 32" if "af \<in> set afs" for af
  proof -
    obtain b where b: "b < length afs" "af = afs ! b" using \<open>af \<in> set afs\<close> by (auto simp: in_set_conv_nth)
    obtain i b' tag where i: "i < length es" "es ! i = (sf_name (?fs ! b), b', tag)" "?blobs ! b' = ?blobs ! b"
      using rep [of b] b(1) la by auto
    have "ob_blobs ob ! i = ?blobs ! b" using i ob(3) by simp
    moreover have "ob_blobs ob ! i \<in> set (ob_blobs ob)" using i(1) les(1) by simp
    ultimately show ?thesis using fits b by (auto simp: sizes_fit_def)
  qed
  note fn = assembled_functions [OF agree src f ballI [OF sizes] n(2)]
  have coded: "\<exists>addr. assembled_as a sx (of_nat b) symbols (?fs ! b) (afs ! b) addr
      \<and> fst ` set (bd_labels (af_debug (afs ! b))) = fst ` set (item_labels (sf_items (?fs ! b)))" if "b < length ?fs" for b
    by (rule fn(4) [OF _ that])
  have assm: "\<exists>addr. assembled_as a sx (of_nat b) symbols (?fs ! b) (afs ! b) addr" if "b < length afs" for b
    using coded that la by auto
  have sites: "?st b = map (reloc_site symbols) (af_relocs (afs ! b))" if "b < length afs" for b
    by (rule block_sites_eq [OF assm sizes _ that]) (use n la in simp_all)
  have calls: "calls_of (?st b) = map (\<lambda>r. (rl_offset r, sym_name (symbols ! unat (rl_symbol r)))) (af_relocs (afs ! b))"
    if "b < length afs" for b
    using sites [OF that] by (simp add: calls_of_def reloc_site_def)
  have first: "emitted_first es ?first"
    by (rule emitted_first_start)
  have len: "length syms' < 2 ^ 32" using fits ob(1) by (simp add: sizes_fit_def)
  note mo = merge_blocks_ok [OF mb _ first len]
  have mo': "more_externals ?first syms'"
    "sym_name ` set syms' \<subseteq> sym_name ` set ?first \<union> (\<Union>(n, b, tag) \<in> set es. (\<lambda>s. fst (snd s)) ` set (?st b))"
    "\<exists>rss. relocs = concat rss \<and> length rss = length es
          \<and> (\<forall>j < length es. \<forall>n b tag. es ! j = (n, b, tag) \<longrightarrow>
               list_all2 (site_merged es (0 + j) (sf_volatile (?fs ! b)) syms') (?st b) (rss ! j))"
    using mo by (simp_all add: externals_ok_def)
  obtain rss where rss: "relocs = concat rss" "length rss = length es"
    and sm: "\<And>j n b tag. j < length es \<Longrightarrow> es ! j = (n, b, tag) \<Longrightarrow>
        list_all2 (site_merged es j (sf_volatile (?fs ! b)) syms') (?st b) (rss ! j)" using mo'(3) by auto
  have unat_j: "unat (of_nat j :: u32) = j" if "j < length es" for j
    using that les(2) by (simp add: unat_of_nat take_bit_nat_eq_self)
  have site: "\<exists>m b tag off callee ext. es ! j = (m, b, tag) \<and> (m, b, tag) \<in> set es \<and> (off, callee, ext) \<in> set (?st b)
      \<and> site_merged es j (sf_volatile (?fs ! b)) syms' (off, callee, ext) r" if "j < length es" "r \<in> set (rss ! j)" for j r
  proof -
    obtain m b tag where e: "es ! j = (m, b, tag)" by (cases "es ! j") auto
    have "(m, b, tag) \<in> set es" using e that(1) by (metis nth_mem)
    moreover have "\<exists>x \<in> set (?st b). site_merged es j (sf_volatile (?fs ! b)) syms' x r"
      by (rule list_all2_right [OF sm [OF that(1) e] that(2)])
    then obtain x where "x \<in> set (?st b)" "site_merged es j (sf_volatile (?fs ! b)) syms' x r" ..
    ultimately show ?thesis using e by (cases x) blast
  qed
  have recs: "rl_blob r = of_nat j" if "j < length rss" "r \<in> set (rss ! j)" for j r
    using site [of j r] that rss(2) by (auto simp: site_merged_def)
  have fil: "filter (\<lambda>r. rl_blob r = of_nat j) (ob_relocations ob) = rss ! j" if "j < length es" for j
    using filter_by_blob [of rss rl_blob j, OF recs] that rss les(2) ob(2) by simp
  have block: "\<exists>addr. assembled_as a sx (of_nat j) syms' (?fs ! b) ((afs ! b)\<lparr>af_relocs := rss ! j\<rparr>) addr"
    if j: "j < length es" "es ! j = (m, b', tag)" and b: "b < length ?fs" "calls_of (?st b') = calls_of (?st b)" for j m b' tag b
  proof -
    obtain addr where "assembled_as a sx (of_nat b) symbols (?fs ! b) (afs ! b) addr" using coded [OF b(1)] by blast
    moreover have "af_bound (afs ! b) = []" using e [of "afs ! b"] b(1) la by simp
    moreover have "calls_of (?st b') = map (\<lambda>r. (rl_offset r, sym_name (symbols ! unat (rl_symbol r)))) (af_relocs (afs ! b))"
      using b calls la by simp
    ultimately show ?thesis using assembled_as_relocs [OF _ _ _ sm [OF j]] by blast
  qed
  have placed: "\<exists>i < length (ob_blobs ob). \<exists>af addr. column_placed a sx ob i (?fs ! b) af addr" if b: "b < length ?fs" for b
  proof -
    obtain i b' tag where i: "i < length es" "es ! i = (sf_name (?fs ! b), b', tag)" "in_column (sf_volatile (?fs ! b)) tag"
      "?blobs ! b' = ?blobs ! b" "calls_of (?st b') = calls_of (?st b)" using rep [OF b] by blast
    obtain addr where "assembled_as a sx (of_nat i) syms' (?fs ! b) ((afs ! b)\<lparr>af_relocs := rss ! i\<rparr>) addr"
      using block [OF i(1,2) b i(5)] by blast
    moreover have "ob_blobs ob ! i = af_blob (afs ! b)" using i(1,2,4) ob(3) b la by simp
    moreover have "sym_name (syms' ! i) = sf_name (?fs ! b)"
      using emitted_first_more [OF first mo'(1)] i(1,2) by (simp add: emitted_first_def)
    moreover have "(map (\<lambda>(n, b, tag). tag) es) ! i = tag" using i(1,2) by simp
    ultimately have "column_placed a sx ob i (?fs ! b) ((afs ! b)\<lparr>af_relocs := rss ! i\<rparr>) addr"
      using i(3) fil [OF i(1)] ob(1,5) by (simp add: column_placed_def)
    then show ?thesis using i(1) les(1) by auto
  qed
  have owner: "\<exists>j < length es. r \<in> set (rss ! j)" if "r \<in> set (ob_relocations ob)" for r
    using that rss ob(2) by (auto simp: in_set_conv_nth [of _ rss])
  have "unat (rl_blob r) < length es \<and> (sym_def (syms' ! unat (rl_symbol r)) = External
      \<or> unat (rl_symbol r) < length es
        \<and> (\<forall>c. in_column c (map (\<lambda>(n, b, tag). tag) es ! unat (rl_blob r)) \<longrightarrow> in_column c (map (\<lambda>(n, b, tag). tag) es ! unat (rl_symbol r))))"
    if "r \<in> set (ob_relocations ob)" for r
  proof -
    from owner [OF that] obtain j where j: "j < length es" "r \<in> set (rss ! j)" by blast
    obtain m b tag off callee ext where s: "es ! j = (m, b, tag)" "(m, b, tag) \<in> set es" "(off, callee, ext) \<in> set (?st b)"
      "site_merged es j (sf_volatile (?fs ! b)) syms' (off, callee, ext) r" using site [OF j] by blast
    have u: "unat (rl_blob r) = j" using recs [of j r] unat_j [OF j(1)] j rss(2) by simp
    show ?thesis
    proof (cases ext)
      case True
      then show ?thesis using s(4) u j(1) by (simp add: site_merged_def)
    next
      case False
      then have k: "column_symbol es callee (sf_volatile (?fs ! b)) = Some (unat (rl_symbol r))" using s(4) by (simp add: site_merged_def)
      have "unat (rl_symbol r) < length es" by (rule column_symbol_Some [OF k])
      moreover have "in_column c (map (\<lambda>(n, b, tag). tag) es ! unat (rl_symbol r))"
        if "in_column c (map (\<lambda>(n, b, tag). tag) es ! unat (rl_blob r))" for c
      proof -
        have "in_column c tag" using that u s(1) j(1) by simp
        then obtain b2 tag2 where "unat (rl_symbol r) < length es" "es ! unat (rl_symbol r) = (callee, b2, tag2)" "in_column c tag2"
          using callee_present [OF dd s(2) [unfolded es] s(3) k [unfolded es]] es by metis
        then show ?thesis by simp
      qed
      ultimately show ?thesis using u j(1) by blast
    qed
  qed
  then have closed: "columns_closed ob" unfolding columns_closed_def ob(1,5) by (intro exI conjI ballI) (rule refl, simp_all del: nth_map)
  have names: "name_ok (sym_name s)" if "s \<in> set syms'" for s
  proof -
    from subsetD [OF mo'(2) imageI [OF that]] show ?thesis
    proof (elim UnE)
      assume "sym_name s \<in> sym_name ` set ?first"
      then obtain j where j: "j < length es" "sym_name s = sym_name (?first ! j)" by (auto simp: in_set_conv_nth)
      obtain m b tag where e: "es ! j = (m, b, tag)" by (cases "es ! j") auto
      have "(m, b, tag) \<in> set es" using e j(1) by (metis nth_mem)
      then have "name_ok m" using entry by (auto simp: function_ok_def)
      then show ?thesis using merged_symbols_nth [OF j(1) e, of ?fs] j(2) by simp
    next
      assume "sym_name s \<in> (\<Union>(n, b, tag) \<in> set es. (\<lambda>s. fst (snd s)) ` set (?st b))"
      then obtain m b tag off callee ext
        where c: "(m, b, tag) \<in> set es" "(off, callee, ext) \<in> set (?st b)" "sym_name s = callee" by force
      have b: "b < length afs" using entry [OF c(1)] la by simp
      obtain r where r: "r \<in> set (af_relocs (afs ! b))" "callee = sym_name (symbols ! unat (rl_symbol r))"
        using c(2) sites [OF b] by (auto simp: reloc_site_def)
      from assm [OF b] obtain addr where "assembled_as a sx (of_nat b) symbols (?fs ! b) (afs ! b) addr" ..
      then have "list_all2 (site_reloc (of_nat b) symbols) (all_items (item_sites sx) addr (sf_items (?fs ! b))) (af_relocs (afs ! b))"
        by (simp add: assembled_as_def)
      from list_all2_right [OF this r(1)] have "\<exists>x. site_reloc (of_nat b) symbols x r" by blast
      then show ?thesis using fn(3) r(2) c(3) by (auto simp: site_reloc_def sym_at_def)
    qed
  qed
  have "symbol_ok (ob_blobs ob) s" if "s \<in> set syms'" for s
  proof -
    obtain ext where x: "syms' = ?first @ ext" "\<forall>s \<in> set ext. sym_def s = External"
      using mo'(1) by (auto simp: more_externals_def)
    have "case sym_def s of Defined b \<Rightarrow> unat b < length es | Local b \<Rightarrow> unat b < length es | External \<Rightarrow> True"
    proof (cases "s \<in> set ext")
      case False
      then have "s \<in> set ?first" using that x(1) by (simp del: set_map)
      then obtain j where j: "j < length es" "s = ?first ! j" by (metis in_set_conv_nth length_enumerate length_map)
      obtain m b tag where "es ! j = (m, b, tag)" by (cases "es ! j") auto
      then show ?thesis using merged_symbols_nth [OF j(1), of m b tag ?fs] j unat_j by simp
    qed (use x(2) in simp)
    then show ?thesis using names [OF that] les(1) by (simp add: symbol_ok_def split: symbol_def.splits)
  qed
  moreover have "reloc_ok (ob_blobs ob) (length syms') r" if "r \<in> set (ob_relocations ob)" for r
  proof -
    from owner [OF that] obtain j where j: "j < length es" "r \<in> set (rss ! j)" by blast
    obtain m b tag where e: "es ! j = (m, b, tag)" by (cases "es ! j") auto
    have "(m, b, tag) \<in> set es" using e j(1) by (metis nth_mem)
    then have b: "b < length ?fs" using entry by blast
    obtain addr where as: "assembled_as a sx (of_nat j) syms' (?fs ! b) ((afs ! b)\<lparr>af_relocs := rss ! j\<rparr>) addr"
      using block [OF j(1) e b refl] by blast
    have "length (ob_blobs ob ! j) = length (af_blob (afs ! b))" "length (af_blob (afs ! b)) < 2 ^ 32"
      using ob(3) e j(1) b la sizes [of "afs ! b"] by simp_all
    then show ?thesis using site_relocs_ok [OF as] j les by simp
  qed
  moreover have "parallel_ok (length (ob_blobs ob)) debug_ok (ob_debug ob)"
  proof -
    have "debug_ok (map af_debug afs ! b)" if "(m, b, tag) \<in> set es" for m b tag
    proof -
      have b: "b < length ?fs" "function_ok sx (?fs ! b)" using entry [OF that] by simp_all
      from coded [OF b(1)] obtain addr where "assembled_as a sx (of_nat b) symbols (?fs ! b) (afs ! b) addr"
        "fst ` set (bd_labels (af_debug (afs ! b))) = fst ` set (item_labels (sf_items (?fs ! b)))" by blast
      then show ?thesis using debug_is_ok b sizes [of "afs ! b"] la by simp
    qed
    then show ?thesis using les(1) by (auto simp: parallel_ok_def ob(4))
  qed
  ultimately have "object_ok ob"
    by (simp add: object_ok_def Let_def parallel_ok_def ob(1,5-9) les(1) split: option.splits)
  then show ?thesis using placed closed by blast
qed

end
