(* ===== verification/Asm_Programs.thy ===== *)
theory Asm_Programs
  imports Asm_Columns
begin

text \<open>
  The assembler as a whole: what the object of a source holds, without build variants and with, and that
  the object is one the object format carries. The examples are a TM-1 program with a match table, a
  dispatch table and a frame descriptor, and a PM-1 program in two build columns.
\<close>

section \<open>A program with tables\<close>




text \<open>The bounds on lengths, compared as integers, so that the tables of an example can be evaluated.\<close>

lemma tables_code [code]:
  "dispatch_bytes ls name targets =
     (if int (length targets) > 65535 then Some (asm_err (sn_span name) (BadTable ''too many dispatch targets''))
      else map_option (\<lambda>as. Inr (le_u16 (of_nat (length targets)) @ concat (map le_u32 as)))
             (those (map (\<lambda>t. map_of ls (sn_name t)) targets)))"
  "emit_frame_descriptor tapes maps xs ls =
     (if int (length xs) > 65535 then asm_err (sn_span (hd xs)) (BadFrame (lit ''too many frame exits''))
      else map_sum id
        (\<lambda>as. of_nat (length tapes) # le_u16 (of_nat (length xs))
           @ concat (map (\<lambda>(k, phys). tape_map_bytes maps k phys) (enumerate 0 tapes)) @ concat (map le_u32 as))
        (exit_offsets ls xs))"
  "validate_match_discipline name rows =
     (case rows of
        [] \<Rightarrow> None
      | r # _ \<Rightarrow>
          (let width = length (sr_elems r) in
           if width < 1 \<or> 16 < width then Some (asm_err (sr_span r) (TableDiscipline ''row width must be 1..=16''))
           else if int (length rows) > 65535 then Some (asm_err (sn_span name) (TableDiscipline ''too many rows''))
           else Some (check_rows width (length rows) False None 0 rows)))"
proof -
  have more: "int (length xs) > 65535 \<longleftrightarrow> length xs > 65535" for xs :: "'x list" by simp
  show "dispatch_bytes ls name targets =
     (if int (length targets) > 65535 then Some (asm_err (sn_span name) (BadTable ''too many dispatch targets''))
      else map_option (\<lambda>as. Inr (le_u16 (of_nat (length targets)) @ concat (map le_u32 as)))
             (those (map (\<lambda>t. map_of ls (sn_name t)) targets)))"
    unfolding more dispatch_bytes_def ..
  show "emit_frame_descriptor tapes maps xs ls =
     (if int (length xs) > 65535 then asm_err (sn_span (hd xs)) (BadFrame (lit ''too many frame exits''))
      else map_sum id
        (\<lambda>as. of_nat (length tapes) # le_u16 (of_nat (length xs))
           @ concat (map (\<lambda>(k, phys). tape_map_bytes maps k phys) (enumerate 0 tapes)) @ concat (map le_u32 as))
        (exit_offsets ls xs))"
    unfolding more emit_frame_descriptor_def ..
  show "validate_match_discipline name rows =
     (case rows of
        [] \<Rightarrow> None
      | r # _ \<Rightarrow>
          (let width = length (sr_elems r) in
           if width < 1 \<or> 16 < width then Some (asm_err (sr_span r) (TableDiscipline ''row width must be 1..=16''))
           else if int (length rows) > 65535 then Some (asm_err (sn_span name) (TableDiscipline ''too many rows''))
           else Some (check_rows width (length rows) False None 0 rows)))"
    unfolding more validate_match_discipline_def ..
qed





section \<open>A program in two columns\<close>






section \<open>Properties\<close>



end
