(* ===== verification/Spec2Isabelle.thy ===== *)
theory Spec2Isabelle
  imports Processor Debugger Object_Codec Tape_Block Pmc_Pipeline Asm_Programs
begin

text \<open>
  A verification development for \<open>machine-toolchains\<close>: the virtual machines of PM-1 and TM-1
  (\<open>crates/core/src/vm\<close>, the \<open>arch\<close> modules of \<open>post-machine\<close> and \<open>turing-machine\<close>), the binary
  containers they are fed from (\<open>crates/core/src/formats\<close>), the PM-1 compiler from its syntax
  tree to assembly text (\<open>crates/post-machine/src\<close>: \<open>compiler.rs\<close>, \<open>ir.rs\<close>, \<open>optimizer\<close>, \<open>codegen.rs\<close>), and
  the assembler of both machines from the lowered source to an object (\<open>crates/core/src/asm/assembler.rs\<close>).

  The program. A processor core (\<open>vm/core.rs\<close>) is a transition function: it is resumed with the
  response to its last bus request and answers with the next event. A driver (\<open>vm/driver.rs\<close>) serves
  the events from the code, the tape devices (\<open>vm/devices\<close>) and a return stack, and enforces the
  limits. An architecture (\<open>Arch\<close> of \<open>vm/arch.rs\<close>) says which opcodes exist, what operand each has and
  which micro-operations an instruction lowers to. Images, objects and tape snapshots travel in
  three containers with one prologue: a magic, a version and a checksum. The PM-1 compiler flattens
  nested and namespaced definitions, resolving every call by scope (\<open>flatten\<close>), and lowers the
  program to a control-flow graph per function (\<open>ir.rs\<close>), which eleven passes rewrite in up to ten
  rounds under a contract of equal behaviour; a volatile build runs the same passes without four. The
  assembler classifies the items of a function into slots, relaxes short jumps to far ones until all
  reach, emits bytes with relocations, builds the tables the functions refer to and gives each to the
  blob that owns it; with two build columns it makes one blob of what does not differ between them.

  Which theory models what.
    \<^item> \<open>Prelude\<close>: machine integers, slices, little-endian codes, \<open>i64\<close> wrap-around. \<open>Ordered_Map\<close>: \<open>BTreeMap\<close>.
    \<^item> \<open>Bus\<close> (\<open>vm/trap.rs\<close>, \<open>vm/bus.rs\<close>): faults, traps, requests, responses. \<open>Arch_Iface\<close> (\<open>vm/arch.rs\<close>):
      operand kinds, micro-operations, the \<open>Arch\<close> trait as a record of its methods, \<open>encode_operand\<close>.
    \<^item> \<open>Walks\<close> (\<open>vm/table.rs\<close>) and \<open>Frames\<close> (\<open>vm/frame.rs\<close>): the byte-at-a-time readers of match tables,
      dispatch tables and frame descriptors, with the abstract tables they implement.
    \<^item> \<open>Vm_Core\<close> (\<open>vm/core.rs\<close>): the core's registers, phases and micro-op issue and settlement;
      \<open>Core_Safety\<close> its register invariant, \<open>Core_Progress\<close> the rank that falls with every response.
    \<^item> \<open>Tapes\<close> (\<open>vm/devices/*.rs\<close>): the four devices, their snapshots, \<open>poke\<close>; a \<open>dyn Tape\<close> is a sum of them.
    \<^item> \<open>Driver\<close> (\<open>vm/driver.rs\<close>): the return stack, statistics, limits, \<open>step_instruction\<close>, \<open>run\<close>.
    \<^item> \<open>Micro_Semantics\<close> is the abstract specification: one HOL function per micro-operation on the abstract
      machine (tapes, latches, return stack), and the proof that core and driver together refine it.
      \<open>Operand_Codec\<close> and \<open>Instruction_Step\<close> lift it to encoded instructions and whole listings.
    \<^item> \<open>Pm1\<close>, \<open>Tm1\<close> (the \<open>arch/mod.rs\<close> of the two machine crates): the instruction tables and lowerings;
      \<open>Isa_Operands\<close> the operand kinds they share; \<open>Processor\<close> the properties of the composed machine.
    \<^item> \<open>Bytes_Io\<close> (\<open>formats/io.rs\<close>, \<open>formats/mod.rs\<close>), \<open>Crc32\<close> (\<open>formats/crc32.rs\<close>) and \<open>Wire\<close>: cursor, checksum,
      and the calculus of writers and parsers (\<open>reads\<close>, \<open>coupled\<close>, \<open>file_of\<close>, \<open>ensures\<close>) the containers share.
    \<^item> \<open>Executable\<close>, \<open>Tape_Block\<close>, \<open>Object_File\<close> with \<open>Object_Codec\<close> (\<open>formats/executable.rs\<close>, \<open>tapeblock.rs\<close>,
      \<open>object.rs\<close>): the containers, writers and readers, round trips and what a reader accepts.

    \<^item> \<open>Machine\<close> (\<open>vm/machine.rs\<close>) composes the two: the architecture registry, the loader of an executable, the
      frames metadata, \<open>run_tapes\<close>. \<open>Debugger\<close> (\<open>vm/debug.rs\<close>): a session's state, breakpoints and motions; a
      session, however driven, is the run after some number of instructions.
    \<^item> \<open>Pm_Ir\<close> (\<open>post-machine/src/ir.rs\<close>): the intermediate representation and \<open>validate_function\<close>.
      \<open>Ir_Semantics\<close> says what a program in it does on any device, as an interpreter and as a relation;
      \<open>Ir_Simulation\<close> is the proof principle: two programs whose functions match step by step, in both
      directions, have the same calls, non-termination included.
    \<^item> \<open>Pass_Base\<close> (\<open>check_fold.rs\<close>, \<open>tail_call.rs\<close>), \<open>Pass_Jumps\<close> (\<open>jump_threading.rs\<close>, \<open>dce.rs\<close>), \<open>Pass_Tails\<close>
      (\<open>tail_merge.rs\<close>), \<open>Pass_Sink\<close> (\<open>tail_sink.rs\<close>), \<open>Pass_Inline\<close> (\<open>inline.rs\<close>): the passes that are sound on
      every device. \<open>Dataflow\<close> (\<open>dataflow.rs\<close>): the match-flag analysis, its termination and its fixpoint;
      \<open>Mark_Store\<close> the contract of a tape under which its facts are true; \<open>Pass_Values\<close> (\<open>cell_state.rs\<close>,
      \<open>branch_fold.rs\<close>) and \<open>Pass_Moves\<close> (\<open>fuse_tape_ops.rs\<close>, \<open>move_elim.rs\<close>) the passes that rely on it.
    \<^item> \<open>Optimizer\<close> (\<open>optimizer/mod.rs\<close>): pass tables, options, report, snapshots, rounds;
      \<open>Optimizer_Correct\<close> its properties. A pass is \<open>sound_change\<close> if no caller in any linked program
      notices it, and \<open>good_pass\<close> if it also returns and keeps the invariant \<open>fn_ok\<close>.

    \<^item> \<open>Pmc_Ast\<close> (\<open>parser.rs\<close>, \<open>core/src/diagnostics.rs\<close>, \<open>compiler.rs\<close>): the syntax tree, what the parser
      guarantees of it, diagnostics and errors. \<open>Pmc_Semantics\<close> says what a source program does, with the
      interpreter and the relation of \<open>Ir_Semantics\<close> over statements; \<open>Pmc_Lowering\<close> (\<open>lower\<close> of \<open>ir.rs\<close>)
      translates it to blocks. \<open>Pmc_Lowering_Correct\<close> finds every statement in the block that lowering
      put it in, \<open>Pmc_Simulation\<close> relates the runs of the two, \<open>Pmc_Correct\<close> draws the properties.
    \<^item> \<open>Pmc_Flatten\<close> (\<open>flatten\<close> of \<open>compiler.rs\<close>): full names, the scope maps, the resolution of calls, the
      visibility warnings. \<open>Pmc_Flatten_Names\<close> shows that names determine the place of a definition;
      \<open>Pmc_Flatten_Correct\<close> states the scope rule over places and shows that the walk implements it.
    \<^item> \<open>Pmc_Codegen\<close> (\<open>codegen.rs\<close>, \<open>grid_line\<close> of \<open>asm/disassembler.rs\<close>): from blocks to lines of assembly and their
      text. \<open>Pma_Semantics\<close> gives lines their meaning; \<open>Codegen_Correct\<close> follows a run in the code and in the
      blocks, \<open>Codegen_Program\<close> does whole modules and stripped breakpoints, \<open>Optimizer_Labels\<close> shows that labels
      stay apart.
    \<^item> \<open>Pmc_Tree_Semantics\<close> runs the parsed tree in place, a call going to what the scope rule finds at its
      caller, and shows that flattening keeps the runs. \<open>Pmc_Pipeline\<close> composes flattening, lowering, optimizer
      and code generation, and compares the listing with the tree.

    \<^item> \<open>Diagnostics\<close> (\<open>core/src/diagnostics.rs\<close>): positions and findings, shared by compiler and assembler.
      \<open>Asm_Source\<close> (\<open>asm/syntax.rs\<close>, \<open>asm/mod.rs\<close>, the data of \<open>asm/lower.rs\<close>): syntax tables, errors, the
      lowered source.
    \<^item> \<open>Assembler\<close> (\<open>assemble_function\<close> and what it calls in \<open>asm/assembler.rs\<close>): one function. \<open>Assembler_Layout\<close>
      shows that relaxation ends in the least layout, \<open>Assembler_Code\<close> what is emitted slot by slot, and
      \<open>Assembler_Correct\<close> that the bytes are the listing the items stand for. \<open>Asm_Dialects\<close> (the \<open>asm/mod.rs\<close>
      of the machine crates) has the two syntax tables and shows that they agree with the instruction sets.
    \<^item> \<open>Asm_Tables\<close> (\<open>build_tables\<close> and the rest of \<open>asm/assembler.rs\<close> on tables) and \<open>Asm_Tables_Correct\<close>: row
      discipline, owners, bytes and fixups; the table engine of the machine reads back what was written.
    \<^item> \<open>Asm_Object\<close> (\<open>assemble_lowered\<close>, \<open>merge_columns\<close>): from functions to an object. \<open>Asm_Object_Correct\<close> finds
      every function of a source without variants in the object, \<open>Asm_Columns\<close> every function of a source
      with \<open>.volatile\<close> functions in its column, and \<open>Asm_Programs\<close> states both for a whole source.

  Conventions. \<open>u8\<close>, \<open>u16\<close>, \<open>u32\<close> are words and wrap as in a release build; \<open>i64\<close> coordinates are integers
  reduced by \<open>wrap_i64\<close>. The driver's counters and limits are \<open>u64\<close> words that wrap around, as in a release
  build (a debug build panics there): one request costs up to \<open>2 ^ 32 - 1\<close> tacts, so the termination
  theorems are about step limits and about tact limits of at most \<open>2 ^ 64 - 2 ^ 32\<close>, below which the sum
  of the counters cannot wrap before the limit is seen (\<open>tact_limit_missed\<close> shows that it can beyond).
  Lengths and indices of type \<open>usize\<close>, and budgets, which are only counted down, are natural numbers.
  A \<open>Result\<close> is a sum with the error on the left; \<open>None\<close> is a panic or a call that does not
  return. Loops that a caller cannot bound (\<open>run\<close>, serving one instruction) are
  \<open>partial_function (option)\<close>; that they return is a theorem (\<open>instruction_completes\<close>,
  \<open>limited_run_returns\<close>), from the rank of \<open>Core_Progress\<close>, with no fuel in the definitions. \<open>debug_assert\<close>
  is absent, as in a release build. In the intermediate representation block ids are natural numbers
  (fewer than \<open>2 ^ 32\<close> blocks) and the return stack has no bound: the contract of the optimizer leaves
  resource traps out. Addresses in the assembler are \<open>u32\<close> words; its theorems are about functions and
  tables that fit them.

  Interfaces. The locales state what a client relies on and are interpreted on the code's model:
  the stores of \<open>Tapes\<close>, the walks, the codecs of \<open>Bytes_Io\<close>, the writer and parser pairs of \<open>Wire\<close>,
  the tape contract of \<open>Mark_Store\<close>, which the infinite tape meets.

  Not modelled: the linker; the lexer, the concrete syntax tree and the lowering of assembly text, and the
  disassembler but for \<open>grid_line\<close>; the lexer and parser of the PM-1 compiler and its merging of variant
  columns; the TM-1 compiler with its optimizer; asynchronous sessions; the command line, editor services,
  formatter, linter and \<open>Display\<close> texts (presentation and I/O); the JavaScript bindings (they only call
  the library).
\<close>

section \<open>Properties of all containers\<close>

text \<open>The two ways a reader reports damage.\<close>

definition refused :: "format_error + 'a \<Rightarrow> bool" where
  "refused r \<longleftrightarrow> r = Inl BadMagic \<or> (\<exists>s c. r = Inl (BadCrc s c))"

text \<open>
  C21: a damaged file is refused. If an executable, object or tape-block file is accepted, the same
  file with any one byte changed to another value is refused, with a bad magic or a checksum error.
\<close>

theorem damage_noticed:
  assumes "i < length bs" and "b \<noteq> bs ! i"
  shows "(\<forall>x. exe_from_bytes bs = Inr x \<longrightarrow> refused (exe_from_bytes (bs[i := b])))
    \<and> (\<forall>x. obj_from_bytes bs = Inr x \<longrightarrow> refused (obj_from_bytes (bs[i := b])))
    \<and> (\<forall>x. tb_from_bytes bs = Inr x \<longrightarrow> refused (tb_from_bytes (bs[i := b])))"
  unfolding exe_from_bytes_def obj_from_bytes_def tb_from_bytes_def refused_def
  by (intro conjI allI impI) (rule open_container_damage, assumption, rule assms, rule assms)+

theorem damage_noticed_witness:
  "\<exists>bs. obj_from_bytes bs = Inr sample_object \<and> refused (obj_from_bytes (bs[2 := bs ! 2 + 1]))"
proof -
  obtain bs where r: "obj_from_bytes bs = Inr sample_object" using obj_round_trip [OF sample_object_ok] by blast
  then have "2 < length bs" by (auto simp: obj_from_bytes_def open_container_Inr)
  with r show ?thesis using damage_noticed [of 2 bs "bs ! 2 + 1"] by auto
qed

end
